(* ===== verification/Prelude.thy ===== *)
theory Prelude
  imports Main "HOL-Library.Word" "HOL-Library.Sublist"
begin

text \<open>
  What the components share: the machine types of the Rust sources, the little-endian
  byte encodings of \<open>uN::to_le_bytes\<close> and \<open>uN::from_le_bytes\<close>, files as byte lists
  with positioned writes, and the generic list lemmas the component proofs rest on.
  The collection \<open>byte_simps\<close> gathers the lengths and round trips of the encodings.
\<close>

named_theorems byte_simps \<open>lengths and round trips of the byte encodings\<close>

type_synonym u8 = "8 word"
type_synonym u16 = "16 word"
type_synonym u32 = "32 word"
type_synonym u64 = "64 word"
type_synonym bytes = "u8 list"

section \<open>Little-endian encodings\<close>

primrec le_of_nat :: "nat \<Rightarrow> nat \<Rightarrow> bytes" where
  "le_of_nat 0 n = []"
| "le_of_nat (Suc k) n = word_of_nat (n mod 256) # le_of_nat k (n div 256)"

primrec nat_of_le :: "bytes \<Rightarrow> nat" where
  "nat_of_le [] = 0"
| "nat_of_le (b # bs) = unat b + 256 * nat_of_le bs"

definition to_le_bytes :: "'a::len word \<Rightarrow> bytes" where
  "to_le_bytes w = le_of_nat (LENGTH('a) div 8) (unat w)"

definition from_le_bytes :: "bytes \<Rightarrow> 'a::len word" where
  "from_le_bytes bs = word_of_nat (nat_of_le bs)"

lemma length_le_of_nat [simp]: "length (le_of_nat k n) = k"
  by (induction k arbitrary: n) auto

lemma unat_word_of_nat_byte: "unat (word_of_nat (n mod 256) :: u8) = n mod 256"
  by (simp add: unat_of_nat take_bit_eq_mod)

lemma nat_of_le_le_of_nat: "nat_of_le (le_of_nat k n) = n mod 256 ^ k"
proof (induction k arbitrary: n)
  case 0
  then show ?case by simp
next
  case (Suc k)
  have "nat_of_le (le_of_nat (Suc k) n) = n mod 256 + 256 * (n div 256 mod 256 ^ k)"
    by (simp add: Suc.IH unat_word_of_nat_byte)
  also have "\<dots> = n mod (256 * 256 ^ k)"
    by (simp add: mod_mult2_eq)
  finally show ?case by simp
qed

lemma le_of_nat_nat_of_le: "le_of_nat (length bs) (nat_of_le bs) = bs"
proof (induction bs)
  case Nil
  then show ?case by simp
next
  case (Cons b bs)
  have "unat b < 256" using unsigned_less [of b] by simp
  then have "(unat b + 256 * nat_of_le bs) mod 256 = unat b"
    and "(unat b + 256 * nat_of_le bs) div 256 = nat_of_le bs"
    by simp_all
  with Cons.IH show ?case by simp
qed

lemma nat_of_le_bound: "nat_of_le bs < 256 ^ length bs"
proof (induction bs)
  case Nil
  then show ?case by simp
next
  case (Cons b bs)
  have "unat b < 256" using unsigned_less [of b] by simp
  with Cons.IH show ?case by simp
qed

lemma from_to_le_bytes:
  assumes "8 dvd LENGTH('a::len)"
  shows "from_le_bytes (to_le_bytes (w :: 'a word)) = w"
proof -
  obtain k where k: "LENGTH('a) = 8 * k" using assms by (elim dvdE)
  have "(256::nat) ^ k = 2 ^ LENGTH('a)" by (simp add: k power_mult)
  moreover have "unat w < 2 ^ LENGTH('a)" by (rule unsigned_less)
  ultimately show ?thesis
    by (simp add: from_le_bytes_def to_le_bytes_def nat_of_le_le_of_nat k)
qed

lemma to_from_le_bytes:
  assumes "8 dvd LENGTH('a::len)" and "length bs = LENGTH('a) div 8"
  shows "to_le_bytes (from_le_bytes bs :: 'a word) = bs"
proof -
  obtain k where k: "LENGTH('a) = 8 * k" using assms(1) by (elim dvdE)
  have "nat_of_le bs < 2 ^ LENGTH('a)"
    using nat_of_le_bound [of bs] assms(2) by (simp add: k power_mult)
  then have "unat (from_le_bytes bs :: 'a word) = nat_of_le bs"
    by (simp add: from_le_bytes_def unat_of_nat take_bit_eq_mod)
  then show ?thesis
    using le_of_nat_nat_of_le [of bs] assms(2) by (simp add: to_le_bytes_def)
qed

lemma length_to_le_bytes [simp]: "length (to_le_bytes (w :: 'a::len word)) = LENGTH('a) div 8"
  by (simp add: to_le_bytes_def)

lemma from_to_le_bytes_sized [simp, byte_simps]:
  "from_le_bytes (to_le_bytes (a :: u16)) = a"
  "from_le_bytes (to_le_bytes (b :: u32)) = b"
  "from_le_bytes (to_le_bytes (c :: u64)) = c"
  by (simp_all add: from_to_le_bytes)

lemma unat_of_nat_small:
  "n < 2 ^ LENGTH('a) \<Longrightarrow> unat (word_of_nat n :: 'a::len word) = n"
  by (simp add: unat_of_nat take_bit_eq_mod)

section \<open>Slices and files\<close>

text \<open>\<open>sub_slice a b xs\<close> is Rust's \<open>xs[a..b]\<close> where it is in range.\<close>

definition sub_slice :: "nat \<Rightarrow> nat \<Rightarrow> 'a list \<Rightarrow> 'a list" where
  "sub_slice a b xs = take (b - a) (drop a xs)"

lemma sub_slice_append_left: "b \<le> length xs \<Longrightarrow> sub_slice a b (xs @ ys) = sub_slice a b xs"
  by (simp add: sub_slice_def)

lemma sub_slice_append_right:
  "length xs \<le> a \<Longrightarrow> sub_slice a b (xs @ ys) = sub_slice (a - length xs) (b - length xs) ys"
  by (cases "a \<le> b") (simp_all add: sub_slice_def)

lemma sub_slice_take: "b \<le> n \<Longrightarrow> sub_slice a b (take n xs) = sub_slice a b xs"
  by (simp add: sub_slice_def drop_take min_absorb1)

lemma sub_slice_drop: "sub_slice a b (drop p xs) = sub_slice (p + a) (p + b) xs"
  by (simp add: sub_slice_def add.commute)

lemma sub_slice_full: "sub_slice 0 (length xs) xs = xs"
  by (simp add: sub_slice_def)

lemma length_sub_slice [simp]: "b \<le> length xs \<Longrightarrow> length (sub_slice a b xs) = b - a"
  by (simp add: sub_slice_def)

text \<open>
  A positioned \<open>write_all\<close>: bytes past the current end are zero-filled first (a hole
  reads as zeros), then the data replaces what was there.
\<close>

definition write_at :: "nat \<Rightarrow> bytes \<Rightarrow> bytes \<Rightarrow> bytes" where
  "write_at off data f =
     take off (f @ replicate (off - length f) 0) @ data @ drop (off + length data) f"

lemma length_write_at: "length (write_at off data f) = max (length f) (off + length data)"
  by (simp add: write_at_def)

lemma write_at_append:
  "write_at (length xs) data (xs @ ys) = xs @ data @ drop (length data) ys"
  by (simp add: write_at_def)

lemma take_write_at: "off \<le> length f \<Longrightarrow> take (off + length d) (write_at off d f) = take off f @ d"
  by (simp add: write_at_def)

lemma write_at_end: "write_at (length f) data f = f @ data"
  by (simp add: write_at_def)

lemma unat_plus_nat: "unat b + n < 2 ^ 64 \<Longrightarrow> unat (b + word_of_nat n) = unat b + n" for b :: u64
  using unat_add_lem [of b "word_of_nat n"] by (simp add: unat_of_nat_small)

end
