(* ===== verification/Format.thy ===== *)
theory Format
  imports Prelude
begin

text \<open>
  The on-disk format module of \<open>galaxdb-common\<close> (\<open>format.rs\<close>, with the error values of
  \<open>error.rs\<close> it returns): the 16-byte header of every persistent artifact, the version
  gate, and the crash-safe replacement of a file. Files live in a small file system with a
  volatile and a durable view, so that a crash between any two system calls can be stated.
\<close>

section \<open>Errors\<close>

text \<open>The kinds of \<open>std::io::Error\<close> the sources distinguish, and the values of
  \<open>GalaxError\<close> that the modelled code returns.\<close>

datatype io_error = UnexpectedEof | InvalidData | NotFound | OtherIo

datatype galax_error =
    Io io_error
  | ChecksumMismatch u64 u64
  | InvalidMagic u32
  | FormatTooOld string u16 u16
  | FormatTooNew string u16 u16
  | DiskFull
  | TableNotFound bytes
  | TableAlreadyExists bytes
  | ColumnNotFound bytes
  | EmbeddingSourceUpdate bytes
  | UniqueViolation bytes bytes bytes
  | AppendOnlyTable bytes string
  | WriteConflict
  | Arithmetic string string
  | Internal string

section \<open>The writer version\<close>

record writer_version =
  major :: u16
  minor :: u16
  patch :: u16

fun split_on :: "char \<Rightarrow> string \<Rightarrow> string list" where
  "split_on c [] = [[]]"
| "split_on c (x # xs) =
     (if x = c then [] # split_on c xs
      else (case split_on c xs of [] \<Rightarrow> [[x]] | p # ps \<Rightarrow> (x # p) # ps))"

definition is_ascii_digit :: "char \<Rightarrow> bool" where
  "is_ascii_digit c \<longleftrightarrow> c \<in> set ''0123456789''"

definition digits_value :: "string \<Rightarrow> nat" where
  "digits_value ds = foldl (\<lambda>n c. 10 * n + (of_char c - of_char (CHR ''0''))) 0 ds"

definition parse_leading_u16 :: "string \<Rightarrow> u16 option" where
  "parse_leading_u16 s =
     (let digits = takeWhile is_ascii_digit s
      in if digits = [] \<or> digits_value digits > 65535 then None
         else Some (word_of_nat (digits_value digits)))"

definition version_component :: "string list \<Rightarrow> nat \<Rightarrow> u16" where
  "version_component ps i =
     (if i < length ps
      then (case parse_leading_u16 (ps ! i) of None \<Rightarrow> 0 | Some v \<Rightarrow> v) else 0)"

definition parse_writer_version :: "string \<Rightarrow> writer_version" where
  "parse_writer_version s =
     (let it = split_on (CHR ''.'') s
      in \<lparr>major = version_component it 0, minor = version_component it 1,
          patch = version_component it 2\<rparr>)"

text \<open>\<open>CARGO_PKG_VERSION\<close> of the workspace.\<close>

definition current_writer_version :: writer_version where
  "current_writer_version = parse_writer_version ''0.7.0''"

section \<open>The format header\<close>

record format_header =
  magic :: bytes
  format_version :: u16
  writer_version :: writer_version

definition FORMAT_HEADER_SIZE :: nat where
  "FORMAT_HEADER_SIZE = 16"

definition new_header :: "bytes \<Rightarrow> u16 \<Rightarrow> format_header" where
  "new_header m v = \<lparr>magic = m, format_version = v, writer_version = current_writer_version\<rparr>"

definition header_to_bytes :: "format_header \<Rightarrow> bytes" where
  "header_to_bytes h =
     magic h
     @ to_le_bytes (format_version h)
     @ to_le_bytes (major (writer_version h))
     @ to_le_bytes (minor (writer_version h))
     @ to_le_bytes (patch (writer_version h))
     @ replicate 4 0"

definition header_from_bytes :: "bytes \<Rightarrow> bytes \<Rightarrow> galax_error + format_header" where
  "header_from_bytes bs expected_magic =
     (let m = sub_slice 0 4 bs
      in if m \<noteq> expected_magic then Inl (InvalidMagic (from_le_bytes m))
         else Inr \<lparr>magic = m, format_version = from_le_bytes (sub_slice 4 6 bs),
                   writer_version = \<lparr>major = from_le_bytes (sub_slice 6 8 bs),
                                     minor = from_le_bytes (sub_slice 8 10 bs),
                                     patch = from_le_bytes (sub_slice 10 12 bs)\<rparr>\<rparr>)"

text \<open>\<open>read_from\<close>: a short reader is an I/O error, otherwise the header and the rest.\<close>

definition header_read_from :: "bytes \<Rightarrow> bytes \<Rightarrow> galax_error + (format_header \<times> bytes)" where
  "header_read_from r expected_magic =
     (if length r < FORMAT_HEADER_SIZE then Inl (Io UnexpectedEof)
      else case header_from_bytes (take FORMAT_HEADER_SIZE r) expected_magic of
             Inl e \<Rightarrow> Inl e
           | Inr h \<Rightarrow> Inr (h, drop FORMAT_HEADER_SIZE r))"

section \<open>Version support\<close>

record format_support =
  artifact :: string
  support_magic :: bytes
  min_readable :: u16
  current_write :: u16

definition check_format :: "format_support \<Rightarrow> u16 \<Rightarrow> galax_error + unit" where
  "check_format s found =
     (if found < min_readable s then Inl (FormatTooOld (artifact s) found (min_readable s))
      else if found > current_write s then Inl (FormatTooNew (artifact s) found (current_write s))
      else Inr ())"

definition support_header :: "format_support \<Rightarrow> format_header" where
  "support_header s = new_header (support_magic s) (current_write s)"

definition WAL :: format_support where
  "WAL = \<lparr>artifact = ''WAL'', support_magic = [0x47, 0x57, 0x41, 0x4C],
          min_readable = 1, current_write = 1\<rparr>"

definition SST :: format_support where
  "SST = \<lparr>artifact = ''SST'', support_magic = [0x47, 0x53, 0x53, 0x54],
          min_readable = 1, current_write = 1\<rparr>"

definition PAX :: format_support where
  "PAX = \<lparr>artifact = ''PAX block'', support_magic = [0x47, 0x50, 0x41, 0x58],
          min_readable = 1, current_write = 1\<rparr>"

definition BLOB :: format_support where
  "BLOB = \<lparr>artifact = ''blob log'', support_magic = [0x47, 0x42, 0x4C, 0x42],
           min_readable = 1, current_write = 1\<rparr>"

definition CATALOG :: format_support where
  "CATALOG = \<lparr>artifact = ''catalog'', support_magic = [0x47, 0x43, 0x41, 0x54],
              min_readable = 1, current_write = 1\<rparr>"

definition HNSW :: format_support where
  "HNSW = \<lparr>artifact = ''HNSW index'', support_magic = [0x47, 0x48, 0x4E, 0x53],
           min_readable = 1, current_write = 1\<rparr>"

definition VINDEX :: format_support where
  "VINDEX = \<lparr>artifact = ''vector index snapshot'', support_magic = [0x47, 0x56, 0x49, 0x58],
             min_readable = 1, current_write = 1\<rparr>"

definition DISKANN :: format_support where
  "DISKANN = \<lparr>artifact = ''DiskANN index'', support_magic = [0x47, 0x44, 0x41, 0x4E],
              min_readable = 1, current_write = 1\<rparr>"

section \<open>Header lemmas\<close>

lemma length_header_to_bytes [simp, byte_simps]:
  "length (magic h) = 4 \<Longrightarrow> length (header_to_bytes h) = 16"
  by (simp add: header_to_bytes_def)

lemma header_roundtrip_append:
  assumes "length (magic h) = 4"
  shows "header_from_bytes (header_to_bytes h @ r) (magic h) = Inr h"
  using assms
  by (simp add: header_from_bytes_def header_to_bytes_def sub_slice_def)

lemma header_from_bytes_magic:
  "header_from_bytes bs m = Inr h \<Longrightarrow> magic h = m \<and> take 4 bs = m"
  by (auto simp: header_from_bytes_def sub_slice_def Let_def split: if_splits)

lemma check_format_cases:
  "check_format s v =
     (if v < min_readable s then Inl (FormatTooOld (artifact s) v (min_readable s))
      else if current_write s < v then Inl (FormatTooNew (artifact s) v (current_write s))
      else Inr ())"
  by (simp add: check_format_def)

text \<open>
  C26: A header written with a four-byte magic reads back unchanged through \<open>read_from\<close>,
  which consumes exactly the 16 header bytes and leaves whatever follows.
\<close>

theorem header_read_write:
  assumes "length (magic h) = 4"
  shows "header_read_from (header_to_bytes h @ rest) (magic h) = Inr (h, rest)"
proof -
  have "header_from_bytes (header_to_bytes h) (magic h) = Inr h"
    using header_roundtrip_append [OF assms, of "[]"] by simp
  then show ?thesis
    using assms by (simp add: header_read_from_def FORMAT_HEADER_SIZE_def)
qed

theorem header_read_write_witness:
  "header_read_from (header_to_bytes (support_header WAL) @ [7]) (support_magic WAL)
     = Inr (support_header WAL, [7])"
proof -
  have m: "length (magic (support_header WAL)) = 4"
    by (simp add: support_header_def new_header_def WAL_def)
  have "magic (support_header WAL) = support_magic WAL"
    by (simp add: support_header_def new_header_def)
  with header_read_write [OF m, of "[7]"] show ?thesis by simp
qed

section \<open>Crash-safe replacement\<close>

text \<open>
  A file system keeps a directory and the contents of its inodes, each in a volatile view
  (what the process sees) and a durable view (what is on the disk). \<open>fsync\<close> of a file makes
  its content durable, \<open>fsync\<close> of the directory its entries.
\<close>

record fs =
  dir_vol :: "string \<rightharpoonup> nat"
  dir_dur :: "string \<rightharpoonup> nat"
  data_vol :: "nat \<rightharpoonup> bytes"
  data_dur :: "nat \<rightharpoonup> bytes"

definition fs_create :: "string \<Rightarrow> nat \<Rightarrow> fs \<Rightarrow> fs" where
  "fs_create name i s = s\<lparr>dir_vol := (dir_vol s)(name \<mapsto> i), data_vol := (data_vol s)(i \<mapsto> [])\<rparr>"

definition fs_write :: "nat \<Rightarrow> bytes \<Rightarrow> fs \<Rightarrow> fs" where
  "fs_write i d s = s\<lparr>data_vol := (data_vol s)(i \<mapsto> d)\<rparr>"

definition fs_sync :: "nat \<Rightarrow> fs \<Rightarrow> fs" where
  "fs_sync i s = s\<lparr>data_dur := (data_dur s)(i := data_vol s i)\<rparr>"

definition fs_rename :: "string \<Rightarrow> string \<Rightarrow> fs \<Rightarrow> fs" where
  "fs_rename a b s = s\<lparr>dir_vol := (dir_vol s)(b := dir_vol s a, a := None)\<rparr>"

definition fs_remove :: "string \<Rightarrow> fs \<Rightarrow> fs" where
  "fs_remove a s = s\<lparr>dir_vol := (dir_vol s)(a := None)\<rparr>"

definition fs_sync_dir :: "fs \<Rightarrow> fs" where
  "fs_sync_dir s = s\<lparr>dir_dur := dir_vol s\<rparr>"

definition fs_read :: "string \<Rightarrow> fs \<Rightarrow> bytes option" where
  "fs_read name s = Option.bind (dir_vol s name) (data_vol s)"

text \<open>Which system call of the replacement fails, if one does; a failed write has put some
  prefix of the new contents into the temporary file.\<close>

datatype fault =
  NoFault | CreateFails | WriteFails nat | SyncFails | RenameFails | DirSyncFails

text \<open>
  \<open>atomic_replace\<close>: the states the file system goes through, first to last, and the result.
  \<open>tmp\<close> is the unique temporary name (process id and counter) and \<open>i\<close> its inode. The
  directory \<open>fsync\<close> is best effort: its failure is ignored.
\<close>

definition atomic_replace ::
  "fault \<Rightarrow> string \<Rightarrow> nat \<Rightarrow> string \<Rightarrow> bytes \<Rightarrow> fs \<Rightarrow> fs list \<times> (io_error + unit)" where
  "atomic_replace flt tmp i target new_contents s0 =
     (if flt = CreateFails then ([s0], Inl OtherIo)
      else let s1 = fs_create tmp i s0 in
      case flt of
        WriteFails k \<Rightarrow> ([s0, s1, fs_write i (take k new_contents) s1], Inl OtherIo)
      | _ \<Rightarrow>
        (let s2 = fs_write i new_contents s1 in
         if flt = SyncFails then ([s0, s1, s2], Inl OtherIo)
         else let s3 = fs_sync i s2 in
         if flt = RenameFails then ([s0, s1, s2, s3, fs_remove tmp s3], Inl OtherIo)
         else let s4 = fs_rename tmp target s3 in
         if flt = DirSyncFails then ([s0, s1, s2, s3, s4], Inr ())
         else ([s0, s1, s2, s3, s4, fs_sync_dir s4], Inr ())))"

text \<open>
  What a name may hold after a crash: the entry is the durable or the volatile one (a
  directory update may or may not have reached the disk), and the content of the inode is
  certain only where it was synced; otherwise anything may be found there.
\<close>

inductive crash_content :: "fs \<Rightarrow> string \<Rightarrow> bytes option \<Rightarrow> bool" where
  absent: "dir_vol s n = None \<or> dir_dur s n = None \<Longrightarrow> crash_content s n None"
| synced: "dir_vol s n = Some i \<or> dir_dur s n = Some i \<Longrightarrow>
     data_vol s i = Some c \<Longrightarrow> data_dur s i = Some c \<Longrightarrow> crash_content s n (Some c)"
| torn: "dir_vol s n = Some i \<or> dir_dur s n = Some i \<Longrightarrow>
     data_vol s i \<noteq> data_dur s i \<Longrightarrow> crash_content s n (Some c)"

inductive_simps crash_content_iff: "crash_content s n r"

definition upgrade_on_open ::
  "fault \<Rightarrow> string \<Rightarrow> nat \<Rightarrow> string \<Rightarrow> format_support \<Rightarrow>
   (u16 \<Rightarrow> bytes \<Rightarrow> galax_error + bytes) \<Rightarrow> fs \<Rightarrow> fs list \<times> (galax_error + bool)" where
  "upgrade_on_open flt tmp i target support migrate s =
     (case fs_read target s of
        None \<Rightarrow> ([s], Inl (Io NotFound))
      | Some bs \<Rightarrow>
        if length bs < FORMAT_HEADER_SIZE
        then ([s], Inl (Internal (artifact support @ '' file too small for a format header'')))
        else case header_from_bytes (take FORMAT_HEADER_SIZE bs) (support_magic support) of
          Inl e \<Rightarrow> ([s], Inl e)
        | Inr header \<Rightarrow>
          (case check_format support (format_version header) of
             Inl e \<Rightarrow> ([s], Inl e)
           | Inr _ \<Rightarrow>
             if format_version header < current_write support
             then (case migrate (format_version header) bs of
                     Inl e \<Rightarrow> ([s], Inl e)
                   | Inr new_bytes \<Rightarrow>
                     (case atomic_replace flt tmp i target new_bytes s of
                        (tr, Inl e) \<Rightarrow> (tr, Inl (Io e))
                      | (tr, Inr _) \<Rightarrow> (tr, Inr True)))
             else ([s], Inr False)))"

text \<open>The target is durable with its old content, and the temporary name and inode are
  not the target's.\<close>

definition replace_pre :: "string \<Rightarrow> nat \<Rightarrow> string \<Rightarrow> bytes \<Rightarrow> fs \<Rightarrow> bool" where
  "replace_pre tmp i target old s \<longleftrightarrow>
     (\<exists>j. dir_vol s target = Some j \<and> dir_dur s target = Some j \<and> j \<noteq> i
        \<and> data_vol s j = Some old \<and> data_dur s j = Some old) \<and> tmp \<noteq> target"

lemmas fs_ops_def =
  fs_create_def fs_write_def fs_sync_def fs_rename_def fs_remove_def fs_sync_dir_def fs_read_def

lemma atomic_replace_crash:
  assumes "replace_pre tmp i target old s" and "u \<in> set (fst (atomic_replace flt tmp i target new s))"
    and "crash_content u target r"
  shows "r = Some old \<or> r = Some new"
  using assms
  by (cases flt)
    (auto simp: replace_pre_def atomic_replace_def fs_ops_def Let_def crash_content_iff
      split: if_splits)

lemma atomic_replace_done:
  assumes "replace_pre tmp i target old s"
    and "atomic_replace NoFault tmp i target new s = (tr, res)"
  shows "res = Inr () \<and> (\<forall>r. crash_content (last tr) target r \<longrightarrow> r = Some new)
         \<and> fs_read target (last tr) = Some new"
  using assms
  by (auto simp: replace_pre_def atomic_replace_def fs_ops_def Let_def crash_content_iff)

text \<open>
  C33: Upgrading a file on open is crash-safe whichever system call fails: at a crash between
  any two steps the target holds either exactly its old bytes or exactly the migrated bytes.
\<close>

theorem upgrade_on_open_crash_safe:
  assumes "replace_pre tmp i target old s"
    and "u \<in> set (fst (upgrade_on_open flt tmp i target support migrate s))"
    and "crash_content u target r"
  shows "r = Some old \<or> (\<exists>h new. header_from_bytes (take 16 old) (support_magic support) = Inr h
           \<and> format_version h < current_write support
           \<and> migrate (format_version h) old = Inr new \<and> r = Some new)"
proof -
  have old: "fs_read target s = Some old"
    using assms(1) by (auto simp: replace_pre_def fs_read_def)
  have start: "r' = Some old" if "crash_content s target r'" for r'
    using that assms(1) by (auto simp: replace_pre_def crash_content_iff)
  show ?thesis
    using assms(2,3) start atomic_replace_crash [OF assms(1)]
    by (auto simp: upgrade_on_open_def old FORMAT_HEADER_SIZE_def split: if_splits sum.splits prod.splits)
      (metis fst_conv)+
qed

definition demo_support :: format_support where
  "demo_support = WAL\<lparr>current_write := 2\<rparr>"

definition demo_old :: bytes where
  "demo_old = header_to_bytes (support_header WAL)"

definition demo_fs :: fs where
  "demo_fs = \<lparr>dir_vol = [''t'' \<mapsto> 0], dir_dur = [''t'' \<mapsto> 0],
              data_vol = [0 \<mapsto> demo_old], data_dur = [0 \<mapsto> demo_old]\<rparr>"

lemma demo_old_facts:
  "length demo_old = 16"
  "header_from_bytes demo_old (support_magic demo_support) = Inr (support_header WAL)"
  using header_roundtrip_append [of "support_header WAL" "[]"]
  by (simp_all add: demo_old_def demo_support_def support_header_def new_header_def WAL_def)

lemma demo_upgrade:
  "upgrade_on_open NoFault ''x'' 1 ''t'' demo_support (\<lambda>_ _. Inr [9]) demo_fs
     = (let s1 = fs_create ''x'' 1 demo_fs; s2 = fs_write 1 [9] s1; s3 = fs_sync 1 s2;
            s4 = fs_rename ''x'' ''t'' s3
        in ([demo_fs, s1, s2, s3, s4, fs_sync_dir s4], Inr True))"
proof -
  have "fs_read ''t'' demo_fs = Some demo_old"
    by (simp add: fs_read_def demo_fs_def)
  moreover have "check_format demo_support 1 = Inr ()"
    by (simp add: check_format_def demo_support_def WAL_def)
  moreover have "format_version (support_header WAL) = 1" "(1::u16) < current_write demo_support"
    by (simp_all add: support_header_def new_header_def WAL_def demo_support_def)
  ultimately show ?thesis
    by (simp add: upgrade_on_open_def demo_old_facts FORMAT_HEADER_SIZE_def atomic_replace_def Let_def)
qed

theorem upgrade_on_open_crash_safe_witness:
  "\<exists>u. replace_pre ''x'' 1 ''t'' demo_old demo_fs \<and> crash_content u ''t'' (Some [9])
     \<and> u \<in> set (fst (upgrade_on_open NoFault ''x'' 1 ''t'' demo_support (\<lambda>_ _. Inr [9]) demo_fs))
     \<and> (Some [9] = Some demo_old
        \<or> (\<exists>h new. header_from_bytes (take 16 demo_old) (support_magic demo_support) = Inr h
             \<and> format_version h < current_write demo_support
             \<and> (\<lambda>_ _. Inr [9]) (format_version h) demo_old = (Inr new :: galax_error + bytes)
             \<and> Some [9] = Some new))"
proof -
  define u where "u = fs_sync_dir (fs_rename ''x'' ''t'' (fs_sync 1 (fs_write 1 [9] (fs_create ''x'' 1 demo_fs))))"
  have pre: "replace_pre ''x'' 1 ''t'' demo_old demo_fs"
    by (simp add: replace_pre_def demo_fs_def)
  have mem: "u \<in> set (fst (upgrade_on_open NoFault ''x'' 1 ''t'' demo_support (\<lambda>_ _. Inr [9]) demo_fs))"
    unfolding demo_upgrade u_def Let_def by simp
  have crash: "crash_content u ''t'' (Some [9])"
    by (simp add: u_def crash_content_iff fs_ops_def demo_fs_def)
  from upgrade_on_open_crash_safe [OF pre mem crash] pre mem crash show ?thesis by blast
qed

end
