(* ===== verification/WalRecord.thy ===== *)
theory WalRecord
  imports Format
begin

text \<open>
  The WAL record of \<open>wal/record.rs\<close>: its wire format
  \<open>[type:u8][seq_no:u64][length:u32][checksum:u64][lz4 payload]\<close>, serialisation and the
  checked deserialisation from a reader (the bytes not yet read). The XXH3-64 hash and the
  LZ4 codec are third-party crates: they are the fields of \<open>wal_lib\<close>, an argument of every
  definition that calls them.
\<close>

record wal_lib =
  xxh3_64 :: "bytes \<Rightarrow> u64"
  compress_prepend_size :: "bytes \<Rightarrow> bytes"
  decompress_size_prepended :: "bytes \<Rightarrow> bytes option"

text \<open>The documented behaviour of \<open>lz4_flex\<close> the WAL relies on: decompression inverts
  compression.\<close>

definition lz4_ok :: "wal_lib \<Rightarrow> bool" where
  "lz4_ok L \<longleftrightarrow> (\<forall>p. decompress_size_prepended L (compress_prepend_size L p) = Some p)"

datatype wal_record_type =
  RowPut | RowDelete | DeltaInsert | DeltaTombstone | Checkpoint | BlobRef

fun record_type_u8 :: "wal_record_type \<Rightarrow> u8" where
  "record_type_u8 RowPut = 0x01"
| "record_type_u8 RowDelete = 0x02"
| "record_type_u8 DeltaInsert = 0x03"
| "record_type_u8 DeltaTombstone = 0x04"
| "record_type_u8 Checkpoint = 0x05"
| "record_type_u8 BlobRef = 0x06"

definition from_u8 :: "u8 \<Rightarrow> wal_record_type option" where
  "from_u8 value =
     (if value = 0x01 then Some RowPut
      else if value = 0x02 then Some RowDelete
      else if value = 0x03 then Some DeltaInsert
      else if value = 0x04 then Some DeltaTombstone
      else if value = 0x05 then Some Checkpoint
      else if value = 0x06 then Some BlobRef
      else None)"

record wal_record =
  record_type :: wal_record_type
  seq_no :: u64
  payload :: bytes

definition WAL_RECORD_HEADER_SIZE :: nat where
  "WAL_RECORD_HEADER_SIZE = 1 + 8 + 4 + 8"

definition checksum_input :: "u8 \<Rightarrow> u64 \<Rightarrow> u32 \<Rightarrow> bytes \<Rightarrow> bytes" where
  "checksum_input ty seq len compressed =
     [ty] @ to_le_bytes seq @ to_le_bytes len @ compressed"

definition serialize :: "wal_lib \<Rightarrow> wal_record \<Rightarrow> bytes" where
  "serialize L r =
     (let compressed = compress_prepend_size L (payload r);
          len = word_of_nat (length compressed) :: u32;
          ty = record_type_u8 (record_type r);
          checksum = xxh3_64 L (checksum_input ty (seq_no r) len compressed)
      in [ty] @ to_le_bytes (seq_no r) @ to_le_bytes len @ to_le_bytes checksum @ compressed)"

text \<open>
  \<open>deserialize\<close> on the bytes left in the reader: \<open>Inr None\<close> is the clean end (less than a
  header), \<open>Inr (Some (r, rest))\<close> a record and the bytes after it. The payload is read
  before the checksum is verified, so a payload cut short is \<open>UnexpectedEof\<close>.
\<close>

definition deserialize ::
  "wal_lib \<Rightarrow> bytes \<Rightarrow> io_error + (wal_record \<times> bytes) option" where
  "deserialize L reader =
     (if length reader < WAL_RECORD_HEADER_SIZE then Inr None
      else
        let header = take WAL_RECORD_HEADER_SIZE reader;
            body = drop WAL_RECORD_HEADER_SIZE reader;
            ty = header ! 0;
            seq = from_le_bytes (sub_slice 1 9 header) :: u64;
            len = from_le_bytes (sub_slice 9 13 header) :: u32;
            stored = from_le_bytes (sub_slice 13 21 header) :: u64
        in case from_u8 ty of
             None \<Rightarrow> Inl InvalidData
           | Some rt \<Rightarrow>
             if length body < unat len then Inl UnexpectedEof
             else
               let compressed = take (unat len) body
               in if xxh3_64 L (checksum_input ty seq len compressed) \<noteq> stored then Inl InvalidData
                  else case decompress_size_prepended L compressed of
                         None \<Rightarrow> Inl InvalidData
                       | Some p \<Rightarrow>
                         Inr (Some (\<lparr>record_type = rt, seq_no = seq, payload = p\<rparr>,
                                    drop (unat len) body)))"

text \<open>A record fits the format when its compressed payload fits the \<open>u32\<close> length field.\<close>

definition record_fits :: "wal_lib \<Rightarrow> wal_record \<Rightarrow> bool" where
  "record_fits L r \<longleftrightarrow> length (compress_prepend_size L (payload r)) < 2 ^ 32"

section \<open>Lemmas\<close>

lemma from_u8_record_type [simp]: "from_u8 (record_type_u8 t) = Some t"
  by (cases t) (simp_all add: from_u8_def)

lemma from_u8_Some: "from_u8 b = Some t \<Longrightarrow> b = record_type_u8 t"
  by (auto simp: from_u8_def split: if_splits)

lemma length_serialize:
  "length (serialize L r) = 21 + length (compress_prepend_size L (payload r))"
  by (simp add: serialize_def Let_def)

lemma header_fields:
  fixes ty :: u8 and seq :: u64 and len :: u32 and ck :: u64
  defines "h \<equiv> [ty] @ to_le_bytes seq @ to_le_bytes len @ to_le_bytes ck"
  shows "length h = 21" "h ! 0 = ty" "sub_slice 1 9 h = to_le_bytes seq"
    "sub_slice 9 13 h = to_le_bytes len" "sub_slice 13 21 h = to_le_bytes ck"
  by (simp_all add: h_def sub_slice_def)

lemma deserialize_header:
  fixes seq :: u64 and len :: u32 and ck :: u64
  assumes "reader = ([ty] @ to_le_bytes seq @ to_le_bytes len @ to_le_bytes ck) @ body"
  shows "deserialize L reader =
     (case from_u8 ty of
        None \<Rightarrow> Inl InvalidData
      | Some rt \<Rightarrow>
        if length body < unat len then Inl UnexpectedEof
        else if xxh3_64 L (checksum_input ty seq len (take (unat len) body)) \<noteq> ck
        then Inl InvalidData
        else case decompress_size_prepended L (take (unat len) body) of
               None \<Rightarrow> Inl InvalidData
             | Some p \<Rightarrow> Inr (Some (\<lparr>record_type = rt, seq_no = seq, payload = p\<rparr>,
                                  drop (unat len) body)))"
proof -
  define h where "h = [ty] @ to_le_bytes seq @ to_le_bytes len @ to_le_bytes ck"
  have h: "length h = 21" "h ! 0 = ty" "sub_slice 1 9 h = to_le_bytes seq"
    "sub_slice 9 13 h = to_le_bytes len" "sub_slice 13 21 h = to_le_bytes ck"
    unfolding h_def by (rule header_fields)+
  have "reader = h @ body" using assms by (simp add: h_def)
  with h show ?thesis
    by (simp add: deserialize_def WAL_RECORD_HEADER_SIZE_def Let_def split: option.split)
qed

lemma deserialize_serialize_append:
  assumes "lz4_ok L" and "record_fits L r"
  shows "deserialize L (serialize L r @ rest) = Inr (Some (r, rest))"
proof -
  define c where "c = compress_prepend_size L (payload r)"
  define len where "len = (word_of_nat (length c) :: u32)"
  have len: "unat len = length c"
    using assms(2) by (simp add: len_def c_def record_fits_def unat_of_nat_small)
  have "serialize L r @ rest
      = ([record_type_u8 (record_type r)] @ to_le_bytes (seq_no r) @ to_le_bytes len
         @ to_le_bytes (xxh3_64 L (checksum_input (record_type_u8 (record_type r)) (seq_no r) len c)))
        @ (c @ rest)"
    by (simp add: serialize_def Let_def c_def len_def)
  from deserialize_header [OF this, of L] show ?thesis
    using assms(1) by (simp add: len lz4_ok_def c_def)
qed

lemma deserialize_short: "length reader < 21 \<Longrightarrow> deserialize L reader = Inr None"
  by (simp add: deserialize_def WAL_RECORD_HEADER_SIZE_def)

lemma deserialize_bad_type:
  assumes "21 \<le> length reader" and "from_u8 (reader ! 0) = None"
  shows "deserialize L reader = Inl InvalidData"
  using assms by (simp add: deserialize_def WAL_RECORD_HEADER_SIZE_def Let_def)

lemma deserialize_zeros:
  "deserialize L (replicate n 0) = (if n < 21 then Inr None else Inl InvalidData)"
  by (simp add: deserialize_short deserialize_bad_type from_u8_def)

lemma deserialize_consumes:
  assumes "deserialize L reader = Inr (Some (r, rest))"
  shows "length rest < length reader"
  using assms
  by (auto simp: deserialize_def WAL_RECORD_HEADER_SIZE_def Let_def split: if_splits option.splits)

lemma split_header:
  assumes "21 \<le> length (reader :: bytes)"
  shows "reader = ([reader ! 0] @ to_le_bytes (from_le_bytes (sub_slice 1 9 reader) :: u64)
     @ to_le_bytes (from_le_bytes (sub_slice 9 13 reader) :: u32)
     @ to_le_bytes (from_le_bytes (sub_slice 13 21 reader) :: u64)) @ drop 21 reader"
proof -
  have "reader = take 1 reader @ sub_slice 1 9 reader @ sub_slice 9 13 reader @ sub_slice 13 21 reader
      @ drop 21 reader"
    using assms take_add [of 1 8 reader] take_add [of 9 4 reader] take_add [of 13 8 reader]
      append_take_drop_id [of 21 reader]
    by (simp add: sub_slice_def)
  moreover have "take 1 reader = [reader ! 0]"
    using assms by (cases reader) auto
  ultimately show ?thesis
    using assms by (simp add: to_from_le_bytes)
qed

section \<open>Properties\<close>

text \<open>
  A record whose compressed payload fits the length field is read back unchanged from
  its serialised bytes, whatever follows them, and exactly its own bytes are consumed.
\<close>

theorem wal_record_roundtrip:
  assumes "lz4_ok L" and "record_fits L r"
  shows "deserialize L (serialize L r @ rest) = Inr (Some (r, rest))"
  using assms by (rule deserialize_serialize_append)

text \<open>A concrete library for the witnesses: the identity codec and a hash that adds up the
  bytes with their positions.\<close>

definition demo_lib :: wal_lib where
  "demo_lib = \<lparr>xxh3_64 = (\<lambda>bs. foldl (\<lambda>h b. 31 * h + ucast b) 7 bs),
               compress_prepend_size = (\<lambda>p. p), decompress_size_prepended = Some\<rparr>"

lemma demo_lib_ok: "lz4_ok demo_lib"
  by (simp add: lz4_ok_def demo_lib_def)

lemma demo_lib_fits: "length (payload r) < 2 ^ 32 \<Longrightarrow> record_fits demo_lib r"
  by (simp add: record_fits_def demo_lib_def)

theorem wal_record_roundtrip_witness:
  "deserialize demo_lib
     (serialize demo_lib \<lparr>record_type = RowPut, seq_no = 5, payload = [1, 2]\<rparr> @ [0])
     = Inr (Some (\<lparr>record_type = RowPut, seq_no = 5, payload = [1, 2]\<rparr>, [0]))"
  by (rule wal_record_roundtrip [OF demo_lib_ok]) (simp add: demo_lib_fits)

text \<open>
  C30: What the reader accepts is exactly what the format describes: a record is returned if
  and only if the bytes are its type, sequence number, payload length, the XXH3-64 checksum
  of those three and the payload, and a payload that decompresses. Nothing with a wrong
  checksum is ever accepted.
\<close>

theorem deserialize_accepts_iff:
  "deserialize L reader = Inr (Some (r, rest)) \<longleftrightarrow>
     (\<exists>c. length c < 2 ^ 32 \<and> decompress_size_prepended L c = Some (payload r)
        \<and> reader = [record_type_u8 (record_type r)] @ to_le_bytes (seq_no r)
            @ to_le_bytes (word_of_nat (length c) :: u32)
            @ to_le_bytes (xxh3_64 L (checksum_input (record_type_u8 (record_type r)) (seq_no r)
                (word_of_nat (length c)) c))
            @ c @ rest)"
  (is "?l \<longleftrightarrow> ?r")
proof
  assume l: ?l
  then have long: "21 \<le> length reader"
    by (auto simp: deserialize_def WAL_RECORD_HEADER_SIZE_def split: if_splits)
  define seq len ck body where "seq = (from_le_bytes (sub_slice 1 9 reader) :: u64)"
    and "len = (from_le_bytes (sub_slice 9 13 reader) :: u32)"
    and "ck = (from_le_bytes (sub_slice 13 21 reader) :: u64)" and "body = drop 21 reader"
  have eq: "reader = ([reader ! 0] @ to_le_bytes seq @ to_le_bytes len @ to_le_bytes ck) @ body"
    using split_header [OF long] by (simp add: seq_def len_def ck_def body_def)
  define c where "c = take (unat len) body"
  from l [unfolded deserialize_header [OF eq]] obtain rt p where
    rt: "from_u8 (reader ! 0) = Some rt" and room: "unat len \<le> length body"
    and sum: "xxh3_64 L (checksum_input (reader ! 0) seq len c) = ck"
    and dec: "decompress_size_prepended L c = Some p"
    and r: "r = \<lparr>record_type = rt, seq_no = seq, payload = p\<rparr>" and rest: "rest = drop (unat len) body"
    by (auto simp: c_def not_less split: option.splits if_splits)
  have c: "length c = unat len" "body = c @ rest" using room by (simp_all add: c_def rest)
  have small: "length c < 2 ^ 32" using unsigned_less [of len] by (simp add: c)
  have "word_of_nat (length c) = len" by (simp add: c)
  then show ?r
    using eq rt sum dec small c(2) by (intro exI [of _ c]) (auto simp: r dest: from_u8_Some)
next
  assume ?r
  then obtain c where small: "length c < 2 ^ 32"
    and dec: "decompress_size_prepended L c = Some (payload r)"
    and eq: "reader = ([record_type_u8 (record_type r)] @ to_le_bytes (seq_no r)
            @ to_le_bytes (word_of_nat (length c) :: u32)
            @ to_le_bytes (xxh3_64 L (checksum_input (record_type_u8 (record_type r)) (seq_no r)
                (word_of_nat (length c)) c))) @ (c @ rest)"
    by auto
  from small have "unat (word_of_nat (length c) :: u32) = length c"
    by (simp add: unat_of_nat_small)
  then show ?l using dec by (simp add: deserialize_header [OF eq])
qed

end
