(* ===== verification/WalWriter.thy ===== *)
theory WalWriter
  imports WalRecord
begin

text \<open>
  The WAL writer and recovery of \<open>wal/writer.rs\<close>: opening and pre-allocating the file, the
  inline append with its insert and flush phases, checkpoints, truncation to the last
  checkpoint, and \<open>recover_wal\<close>. The file is its bytes; \<open>synced\<close> is the image that the
  last \<open>fdatasync\<close> or \<open>fsync\<close> made durable. Offsets are naturals (a file is far below
  $2^{64}$ bytes); sequence numbers keep their 64 bits. This theory runs one thread at a
  time; the two-lock group commit of several threads is the theory \<open>WalGroupCommit\<close>.
\<close>

section \<open>Reading an existing file\<close>

definition WAL_HEADER_SIZE :: nat where
  "WAL_HEADER_SIZE = FORMAT_HEADER_SIZE"

text \<open>\<open>wal_data_start\<close>: \<open>None\<close> is a missing file.\<close>

definition wal_data_start :: "bytes option \<Rightarrow> io_error + nat" where
  "wal_data_start path =
     (case path of
        None \<Rightarrow> Inr 0
      | Some f \<Rightarrow>
        if length f < 4 then Inr 0
        else if take 4 f \<noteq> support_magic WAL then Inr 0
        else if length f < FORMAT_HEADER_SIZE then Inl UnexpectedEof
        else case header_from_bytes (take FORMAT_HEADER_SIZE f) (support_magic WAL) of
               Inl e \<Rightarrow> Inl InvalidData
             | Inr header \<Rightarrow>
               (case check_format WAL (format_version header) of
                  Inl e \<Rightarrow> Inl InvalidData
                | Inr _ \<Rightarrow> Inr WAL_HEADER_SIZE))"

text \<open>The loop of \<open>scan_logical_end\<close>: the offset advances by the length of the record's own
  serialisation, and the scan stops at the end or at the first error.\<close>

function scan_loop :: "wal_lib \<Rightarrow> bytes \<Rightarrow> nat \<Rightarrow> nat" where
  "scan_loop L reader offset =
     (case deserialize L reader of
        Inr (Some (r, rest)) \<Rightarrow> scan_loop L rest (offset + length (serialize L r))
      | Inr None \<Rightarrow> offset
      | Inl e \<Rightarrow> offset)"
  by pat_completeness auto
termination
  by (relation "measure (\<lambda>(L, reader, offset). length reader)") (auto dest: deserialize_consumes)

declare scan_loop.simps [simp del]

definition scan_logical_end :: "wal_lib \<Rightarrow> bytes option \<Rightarrow> nat \<Rightarrow> nat" where
  "scan_logical_end L path start =
     (case path of None \<Rightarrow> start | Some f \<Rightarrow> scan_loop L (drop start f) start)"

text \<open>The loop of \<open>recover_wal\<close> with its three accumulators; an error other than
  \<open>InvalidData\<close> is returned to the caller.\<close>

function recover_loop ::
  "wal_lib \<Rightarrow> bytes \<Rightarrow> wal_record list \<Rightarrow> nat option \<Rightarrow> u64
   \<Rightarrow> io_error + (wal_record list \<times> nat option \<times> u64)" where
  "recover_loop L reader all_records last_cp max_seq =
     (case deserialize L reader of
        Inr (Some (r, rest)) \<Rightarrow>
          recover_loop L rest (all_records @ [r])
            (if record_type r = Checkpoint then Some (length all_records) else last_cp)
            (if seq_no r > max_seq then seq_no r else max_seq)
      | Inr None \<Rightarrow> Inr (all_records, last_cp, max_seq)
      | Inl InvalidData \<Rightarrow> Inr (all_records, last_cp, max_seq)
      | Inl e \<Rightarrow> Inl e)"
  by pat_completeness auto
termination
  by (relation "measure (\<lambda>(L, reader, rs, cp, m). length reader)") (auto dest: deserialize_consumes)

declare recover_loop.simps [simp del]

definition recover_wal :: "wal_lib \<Rightarrow> bytes option \<Rightarrow> io_error + (wal_record list \<times> u64)" where
  "recover_wal L wal_path =
     (case wal_data_start wal_path of
        Inl e \<Rightarrow> Inl e
      | Inr start \<Rightarrow>
        (case wal_path of
           None \<Rightarrow> Inr ([], 1)
         | Some f \<Rightarrow>
           if length f \<le> start then Inr ([], 1)
           else case recover_loop L (drop start f) [] None 0 of
                  Inl e \<Rightarrow> Inl e
                | Inr (all_records, last_cp, max_seq) \<Rightarrow>
                  let start_idx = (case last_cp of Some idx \<Rightarrow> idx + 1 | None \<Rightarrow> 0)
                  in Inr (drop start_idx all_records, max_seq + 1)))"

section \<open>The writer\<close>

record checkpoint_info =
  cp_seq_no :: u64
  cp_offset :: nat
  cp_timestamp :: nat

record wal_config =
  checkpoint_size_bytes :: nat
  checkpoint_interval :: nat
  preallocate_bytes :: nat

record wal_writer =
  wal_file :: bytes
  cursor :: nat
  synced :: bytes
  ws_write_offset :: nat
  file_len :: nat
  data_start :: nat
  next_seq_no :: u64
  write_offset :: nat
  flush_offset :: nat
  last_checkpoint :: "checkpoint_info option"
  prealloc_chunk :: nat
  wal_cfg :: wal_config

text \<open>\<open>zero_fill\<close> leaves the cursor past the written zeros.\<close>

definition zero_fill :: "nat \<Rightarrow> nat \<Rightarrow> wal_writer \<Rightarrow> wal_writer" where
  "zero_fill from_offset count w =
     w\<lparr>wal_file := write_at from_offset (replicate count 0) (wal_file w), cursor := from_offset + count\<rparr>"

definition sync_all :: "wal_writer \<Rightarrow> wal_writer" where
  "sync_all w = w\<lparr>synced := wal_file w\<rparr>"

text \<open>\<open>write_all\<close> writes at the cursor and advances it.\<close>

definition write_all :: "bytes \<Rightarrow> wal_writer \<Rightarrow> wal_writer" where
  "write_all bs w = w\<lparr>wal_file := write_at (cursor w) bs (wal_file w), cursor := cursor w + length bs\<rparr>"

definition new_wal_writer :: "wal_lib \<Rightarrow> wal_config \<Rightarrow> bytes option \<Rightarrow> io_error + wal_writer" where
  "new_wal_writer L config wal_path =
     (let is_fresh = (case wal_path of None \<Rightarrow> True | Some f \<Rightarrow> f = [])
      in case (if is_fresh then Inr WAL_HEADER_SIZE else wal_data_start wal_path) of
           Inl e \<Rightarrow> Inl e
         | Inr start \<Rightarrow>
           let f = (if is_fresh
                    then header_to_bytes (new_header (support_magic WAL) (current_write WAL))
                    else the wal_path);
               logical_end = scan_logical_end L (Some f) start;
               cur_len = length f;
               want_len = max logical_end (preallocate_bytes config);
               w = \<lparr>wal_file = f, cursor = 0, synced = f, ws_write_offset = logical_end, file_len = cur_len,
                    data_start = start, next_seq_no = 1, write_offset = logical_end,
                    flush_offset = logical_end, last_checkpoint = None,
                    prealloc_chunk = max (preallocate_bytes config) (1024 * 1024),
                    wal_cfg = config\<rparr>;
               w = (if cur_len < want_len
                    then sync_all (zero_fill cur_len (want_len - cur_len) w) else w)
           in Inr (w\<lparr>file_len := length (wal_file w), cursor := logical_end\<rparr>))"

text \<open>Which I/O call of an append fails, if one does: the growth of the file, the write of the
  record after some of its bytes, or the final \<open>fdatasync\<close>.\<close>

datatype append_fault = NoIoFault | GrowFails | RecordWriteFails nat | SyncDataFails

definition grow_file :: "nat \<Rightarrow> wal_writer \<Rightarrow> wal_writer" where
  "grow_file len w =
     (let off = ws_write_offset w in
      if off + len > file_len w
      then let grow_to = max (off + len) (file_len w + prealloc_chunk w)
           in (sync_all (zero_fill (file_len w) (grow_to - file_len w) w))
                \<lparr>file_len := grow_to, cursor := off\<rparr>
      else w)"

definition flush_phase :: "append_fault \<Rightarrow> nat \<Rightarrow> wal_writer \<Rightarrow> (io_error + unit) \<times> wal_writer" where
  "flush_phase flt my_end w =
     (if flush_offset w < my_end
      then if flt = SyncDataFails then (Inl OtherIo, w)
           else (Inr (), w\<lparr>synced := wal_file w, flush_offset := write_offset w\<rparr>)
      else (Inr (), w))"

definition do_append ::
  "append_fault \<Rightarrow> wal_lib \<Rightarrow> wal_record_type \<Rightarrow> bytes \<Rightarrow> wal_writer
   \<Rightarrow> (io_error + u64) \<times> wal_writer" where
  "do_append flt L ty pl w0 =
     (let seq = next_seq_no w0;
          w = w0\<lparr>next_seq_no := seq + 1\<rparr>;
          data = serialize L \<lparr>record_type = ty, seq_no = seq, payload = pl\<rparr>;
          off = ws_write_offset w
      in if off + length data > file_len w \<and> flt = GrowFails then (Inl OtherIo, w)
         else let w = grow_file (length data) w
         in case flt of
              RecordWriteFails k \<Rightarrow> (Inl OtherIo, write_all (take k data) w)
            | _ \<Rightarrow>
              (let w = write_all data w;
                   my_end = off + length data;
                   w = w\<lparr>ws_write_offset := my_end, write_offset := my_end\<rparr>
               in case flush_phase flt my_end w of
                    (Inl e, w') \<Rightarrow> (Inl e, w')
                  | (Inr _, w') \<Rightarrow> (Inr seq, w')))"

definition current_size :: "wal_writer \<Rightarrow> nat" where
  "current_size w = flush_offset w"

definition should_checkpoint :: "nat \<Rightarrow> wal_writer \<Rightarrow> bool" where
  "should_checkpoint now w \<longleftrightarrow>
     current_size w \<ge> checkpoint_size_bytes (wal_cfg w)
     \<or> (case last_checkpoint w of
          Some info \<Rightarrow> now - cp_timestamp info \<ge> checkpoint_interval (wal_cfg w)
        | None \<Rightarrow> current_size w > 0)"

definition write_checkpoint ::
  "append_fault \<Rightarrow> wal_lib \<Rightarrow> nat \<Rightarrow> wal_writer \<Rightarrow> (io_error + u64) \<times> wal_writer" where
  "write_checkpoint flt L now w =
     (let offset = current_size w
      in case do_append flt L Checkpoint [] w of
           (Inl e, w') \<Rightarrow> (Inl e, w')
         | (Inr seq, w') \<Rightarrow>
           (Inr seq, w'\<lparr>last_checkpoint :=
              Some \<lparr>cp_seq_no = seq, cp_offset = offset, cp_timestamp = now\<rparr>\<rparr>))"

definition truncate_to_checkpoint :: "wal_writer \<Rightarrow> (io_error + unit) \<times> wal_writer" where
  "truncate_to_checkpoint w =
     (case last_checkpoint w of
        None \<Rightarrow> (Inr (), w)
      | Some info \<Rightarrow>
        let logical_end = ws_write_offset w;
            len = logical_end - cp_offset info
        in if length (wal_file w) < cp_offset info + len
           then (Inl UnexpectedEof, w\<lparr>cursor := length (wal_file w)\<rparr>)
           else
             let remaining = take len (drop (cp_offset info) (wal_file w));
                 header = header_to_bytes (new_header (support_magic WAL) (current_write WAL));
                 w = write_all remaining (write_all header (w\<lparr>wal_file := [], cursor := 0\<rparr>));
                 w = w\<lparr>data_start := WAL_HEADER_SIZE\<rparr>;
                 new_end = WAL_HEADER_SIZE + length remaining;
                 want = max new_end (prealloc_chunk w);
                 w = (if want > new_end then zero_fill new_end (want - new_end) w else w);
                 w = sync_all w
             in (Inr (), w\<lparr>cursor := new_end, file_len := want, ws_write_offset := new_end,
                           write_offset := new_end, flush_offset := new_end,
                           last_checkpoint := Some (info\<lparr>cp_offset := WAL_HEADER_SIZE\<rparr>)\<rparr>))"

section \<open>Reading what was written\<close>

definition wal_body :: "wal_lib \<Rightarrow> wal_record list \<Rightarrow> bytes" where
  "wal_body L rs = concat (map (serialize L) rs)"

lemma wal_body_simps [simp]:
  "wal_body L [] = []"
  "wal_body L (r # rs) = serialize L r @ wal_body L rs"
  "wal_body L (rs @ rs') = wal_body L rs @ wal_body L rs'"
  by (simp_all add: wal_body_def)

text \<open>The specification of recovery: the records after the last checkpoint record, and the
  largest sequence number seen.\<close>

definition after_checkpoint :: "wal_record list \<Rightarrow> wal_record list" where
  "after_checkpoint rs = rev (takeWhile (\<lambda>r. record_type r \<noteq> Checkpoint) (rev rs))"

definition max_seq_of :: "u64 \<Rightarrow> wal_record list \<Rightarrow> u64" where
  "max_seq_of m rs = fold (\<lambda>r m. if seq_no r > m then seq_no r else m) rs m"

primrec cp_index :: "nat \<Rightarrow> nat option \<Rightarrow> wal_record list \<Rightarrow> nat option" where
  "cp_index n cp [] = cp"
| "cp_index n cp (r # rs) = cp_index (Suc n) (if record_type r = Checkpoint then Some n else cp) rs"

lemma cp_index_snoc:
  "cp_index n cp (rs @ [r])
     = (if record_type r = Checkpoint then Some (n + length rs) else cp_index n cp rs)"
  by (induction rs arbitrary: n cp) auto

lemma cp_index_bound: "cp_index 0 None rs = Some i \<Longrightarrow> i < length rs"
  by (induction rs rule: rev_induct) (auto simp: cp_index_snoc split: if_splits)

lemma after_checkpoint_snoc:
  "after_checkpoint (rs @ [r])
     = (if record_type r = Checkpoint then [] else after_checkpoint rs @ [r])"
  by (simp add: after_checkpoint_def)

lemma drop_cp_index:
  "drop (case cp_index 0 None rs of Some i \<Rightarrow> i + 1 | None \<Rightarrow> 0) rs = after_checkpoint rs"
proof (induction rs rule: rev_induct)
  case Nil
  then show ?case by (simp add: after_checkpoint_def)
next
  case (snoc r rs)
  then show ?case
    by (cases "cp_index 0 None rs")
      (auto simp: cp_index_snoc after_checkpoint_snoc dest: cp_index_bound)
qed

text \<open>Bytes at which reading stops without an error being reported to the caller.\<close>

definition reader_stops :: "wal_lib \<Rightarrow> bytes \<Rightarrow> bool" where
  "reader_stops L tail \<longleftrightarrow> deserialize L tail = Inr None \<or> deserialize L tail = Inl InvalidData"

lemma zeros_stop [simp]: "reader_stops L (replicate n 0)"
  by (simp add: reader_stops_def deserialize_zeros)

lemma recover_loop_body:
  assumes "lz4_ok L" and "\<forall>r \<in> set rs. record_fits L r"
  shows "recover_loop L (wal_body L rs @ tail) all cp m
     = recover_loop L tail (all @ rs) (cp_index (length all) cp rs) (max_seq_of m rs)"
  using assms(2)
proof (induction rs arbitrary: all cp m)
  case Nil
  then show ?case by (simp add: max_seq_of_def)
next
  case (Cons r rs)
  then have "deserialize L (wal_body L (r # rs) @ tail) = Inr (Some (r, wal_body L rs @ tail))"
    by (simp add: deserialize_serialize_append [OF assms(1)])
  then show ?case
    using Cons by (subst recover_loop.simps) (simp add: max_seq_of_def)
qed

lemma recover_loop_stop:
  "reader_stops L tail \<Longrightarrow> recover_loop L tail all cp m = Inr (all, cp, m)"
  by (subst recover_loop.simps) (auto simp: reader_stops_def)

lemma scan_loop_body:
  assumes "lz4_ok L" and "\<forall>r \<in> set rs. record_fits L r" and "reader_stops L tail"
  shows "scan_loop L (wal_body L rs @ tail) off = off + length (wal_body L rs)"
  using assms(2)
proof (induction rs arbitrary: off)
  case Nil
  then show ?case using assms(3) by (subst scan_loop.simps) (auto simp: reader_stops_def)
next
  case (Cons r rs)
  then have "deserialize L (wal_body L (r # rs) @ tail) = Inr (Some (r, wal_body L rs @ tail))"
    by (simp add: deserialize_serialize_append [OF assms(1)])
  then show ?case using Cons by (subst scan_loop.simps) simp
qed

lemma recover_wal_body:
  assumes "lz4_ok L" and "\<forall>r \<in> set rs. record_fits L r" and "reader_stops L tail"
    and "wal_data_start (Some (pre @ wal_body L rs @ tail)) = Inr (length pre)"
  shows "recover_wal L (Some (pre @ wal_body L rs @ tail))
     = Inr (after_checkpoint rs, max_seq_of 0 rs + 1)"
proof (cases "wal_body L rs @ tail = []")
  case True
  then have "rs = []" by (cases rs) (auto simp: serialize_def Let_def)
  with True assms(4) show ?thesis
    by (simp add: recover_wal_def after_checkpoint_def max_seq_of_def)
next
  case False
  then have "\<not> length (pre @ wal_body L rs @ tail) \<le> length pre" by simp
  then show ?thesis
    unfolding recover_wal_def assms(4)
    by (simp add: recover_loop_body [OF assms(1,2)] recover_loop_stop [OF assms(3)]
        drop_cp_index Let_def del: length_append)
qed

text \<open>The two prefixes a WAL file can have: the versioned superblock, stamped by whatever
  engine version wrote it, or none (legacy).\<close>

definition superblock :: "writer_version \<Rightarrow> bytes" where
  "superblock v = header_to_bytes
     \<lparr>magic = support_magic WAL, format_version = current_write WAL, writer_version = v\<rparr>"

definition wal_prefix :: "bytes \<Rightarrow> bool" where
  "wal_prefix pre \<longleftrightarrow> pre = [] \<or> (\<exists>v. pre = superblock v)"

lemma length_superblock [simp]: "length (superblock v) = 16"
  by (simp add: superblock_def WAL_def)

lemma wal_data_start_superblock: "wal_data_start (Some (superblock v @ rest)) = Inr 16"
proof -
  define h where "h = \<lparr>magic = support_magic WAL, format_version = current_write WAL, writer_version = v\<rparr>"
  have "header_from_bytes (take 16 (superblock v @ rest)) (support_magic WAL) = Inr h"
    using header_roundtrip_append [of h "[]"] by (simp add: superblock_def h_def WAL_def)
  moreover have "take 4 (superblock v @ rest) = support_magic WAL"
    by (simp add: superblock_def header_to_bytes_def WAL_def)
  moreover have "check_format WAL (format_version h) = Inr ()"
    by (simp add: check_format_def h_def WAL_def)
  ultimately show ?thesis
    by (simp add: wal_data_start_def FORMAT_HEADER_SIZE_def WAL_HEADER_SIZE_def)
qed

lemma legacy_first_byte:
  "wal_body L rs @ replicate n 0 = b # bs \<Longrightarrow> b \<noteq> 0x47"
proof (cases rs)
  case Nil
  assume "wal_body L rs @ replicate n 0 = b # bs"
  with Nil show ?thesis by (cases n) auto
next
  case (Cons r rs')
  assume "wal_body L rs @ replicate n 0 = b # bs"
  with Cons have "b = record_type_u8 (record_type r)" by (auto simp: serialize_def Let_def)
  then show ?thesis by (cases "record_type r") auto
qed

lemma wal_data_start_other_magic:
  "f = [] \<or> hd f \<noteq> 0x47 \<Longrightarrow> wal_data_start (Some f) = Inr 0"
  by (cases f) (auto simp: wal_data_start_def WAL_def)

lemma wal_data_start_legacy: "wal_data_start (Some (wal_body L rs @ replicate n 0)) = Inr 0"
  using legacy_first_byte [of L rs n]
  by (intro wal_data_start_other_magic) (metis list.exhaust_sel)

lemma wal_data_start_image:
  "wal_prefix pre \<Longrightarrow> wal_data_start (Some (pre @ wal_body L rs @ replicate n 0)) = Inr (length pre)"
  by (auto simp: wal_prefix_def wal_data_start_legacy wal_data_start_superblock)

section \<open>The writer invariant\<close>

text \<open>
  \<open>wal_inv L w rs\<close>: the file holds exactly the records \<open>rs\<close> after its prefix, then zeros,
  all of it durable, and every offset the writer keeps points at the end of the records.
\<close>

definition wal_inv :: "wal_lib \<Rightarrow> wal_writer \<Rightarrow> wal_record list \<Rightarrow> bool" where
  "wal_inv L w rs \<longleftrightarrow>
     (\<exists>pre n. wal_prefix pre \<and> data_start w = length pre
        \<and> wal_file w = pre @ wal_body L rs @ replicate n 0)
     \<and> (\<forall>r \<in> set rs. record_fits L r)
     \<and> synced w = wal_file w \<and> file_len w = length (wal_file w)
     \<and> ws_write_offset w = data_start w + length (wal_body L rs)
     \<and> cursor w = ws_write_offset w \<and> write_offset w = ws_write_offset w
     \<and> flush_offset w = ws_write_offset w"

text \<open>The remembered checkpoint is a checkpoint record of the log, at its offset.\<close>

definition wal_cp_inv :: "wal_lib \<Rightarrow> wal_writer \<Rightarrow> wal_record list \<Rightarrow> bool" where
  "wal_cp_inv L w rs \<longleftrightarrow>
     (case last_checkpoint w of
        None \<Rightarrow> True
      | Some info \<Rightarrow> \<exists>rs1 r rs2. rs = rs1 @ r # rs2 \<and> record_type r = Checkpoint
          \<and> cp_offset info = data_start w + length (wal_body L rs1))"

lemma wal_inv_recover:
  assumes "lz4_ok L" and "wal_inv L w rs"
  shows "recover_wal L (Some (synced w)) = Inr (after_checkpoint rs, max_seq_of 0 rs + 1)"
proof -
  obtain pre n where pre: "wal_prefix pre" "synced w = pre @ wal_body L rs @ replicate n 0"
    using assms(2) by (auto simp: wal_inv_def)
  show ?thesis
    unfolding pre(2) using assms(2)
    by (intro recover_wal_body [OF assms(1)] wal_data_start_image pre) (auto simp: wal_inv_def)
qed

lemma wal_inv_grow:
  assumes "wal_inv L w rs"
  shows "wal_inv L (grow_file len w) rs" "ws_write_offset (grow_file len w) + len \<le> file_len (grow_file len w)"
    "last_checkpoint (grow_file len w) = last_checkpoint w" "data_start (grow_file len w) = data_start w"
    "ws_write_offset (grow_file len w) = ws_write_offset w" "next_seq_no (grow_file len w) = next_seq_no w"
proof -
  obtain pre n where pre: "wal_prefix pre" "data_start w = length pre"
    "wal_file w = pre @ wal_body L rs @ replicate n 0"
    using assms by (auto simp: wal_inv_def)
  define k where "k = max (ws_write_offset w + len) (file_len w + prealloc_chunk w) - file_len w"
  have grow_to: "max (ws_write_offset w + len) (file_len w + prealloc_chunk w) = file_len w + k"
    by (simp add: k_def)
  have grown: "write_at (file_len w) (replicate k 0) (wal_file w)
      = pre @ wal_body L rs @ replicate (n + k) 0"
    using assms write_at_end [of "wal_file w"] pre by (simp add: wal_inv_def replicate_add)
  show "wal_inv L (grow_file len w) rs"
  proof (cases "file_len w < ws_write_offset w + len")
    case True
    then have "grow_file len w = w\<lparr>wal_file := pre @ wal_body L rs @ replicate (n + k) 0,
        synced := pre @ wal_body L rs @ replicate (n + k) 0,
        file_len := file_len w + k, cursor := ws_write_offset w\<rparr>"
      by (simp add: grow_file_def zero_fill_def sync_all_def Let_def grow_to grown)
    with assms pre show ?thesis by (auto simp: wal_inv_def)
  next
    case False
    with assms show ?thesis by (simp add: grow_file_def)
  qed
qed (auto simp: grow_file_def zero_fill_def sync_all_def Let_def)

lemma wal_inv_write:
  assumes "wal_inv L w rs" and "record_fits L r"
    and "ws_write_offset w + length (serialize L r) \<le> file_len w"
  defines "w1 \<equiv> write_all (serialize L r) w"
  shows "\<exists>pre n. wal_prefix pre \<and> data_start w = length pre
           \<and> wal_file w1 = pre @ wal_body L (rs @ [r]) @ replicate n 0"
    "cursor w1 = ws_write_offset w + length (serialize L r)" "length (wal_file w1) = length (wal_file w)"
proof -
  obtain pre n where pre: "wal_prefix pre" "data_start w = length pre"
    "wal_file w = (pre @ wal_body L rs) @ replicate n 0"
    using assms(1) by (auto simp: wal_inv_def)
  have cur: "cursor w = length (pre @ wal_body L rs)"
    using assms(1) pre by (simp add: wal_inv_def)
  have "wal_file w1 = (pre @ wal_body L rs) @ serialize L r @ drop (length (serialize L r)) (replicate n 0)"
    unfolding w1_def write_all_def cur pre(3) by (simp only: write_at_append wal_writer.simps)
      (simp add: pre(3) write_at_append [of "pre @ wal_body L rs", simplified])
  then show "\<exists>pre n. wal_prefix pre \<and> data_start w = length pre
           \<and> wal_file w1 = pre @ wal_body L (rs @ [r]) @ replicate n 0"
    using pre by auto
  show "cursor w1 = ws_write_offset w + length (serialize L r)"
    using assms(1) by (simp add: w1_def write_all_def wal_inv_def)
  show "length (wal_file w1) = length (wal_file w)"
    using assms(1,3) by (simp add: w1_def write_all_def wal_inv_def length_write_at)
qed

lemma do_append_inv:
  assumes "wal_inv L w rs"
    and "record_fits L \<lparr>record_type = ty, seq_no = next_seq_no w, payload = pl\<rparr>" (is "record_fits L ?r")
  obtains w' where "do_append NoIoFault L ty pl w = (Inr (next_seq_no w), w')"
    and "wal_inv L w' (rs @ [?r])" and "next_seq_no w' = next_seq_no w + 1"
    and "last_checkpoint w' = last_checkpoint w" and "data_start w' = data_start w"
proof -
  define w0 where "w0 = w\<lparr>next_seq_no := next_seq_no w + 1\<rparr>"
  define g where "g = grow_file (length (serialize L ?r)) w0"
  define w1 where "w1 = write_all (serialize L ?r) g"
  define w' where "w' = w1\<lparr>ws_write_offset := cursor w1, write_offset := cursor w1,
    synced := wal_file w1, flush_offset := cursor w1\<rparr>"
  have "wal_inv L w0 rs" using assms(1) by (simp add: w0_def wal_inv_def)
  from wal_inv_grow [OF this, of "length (serialize L ?r)", folded g_def]
  have g: "wal_inv L g rs" "ws_write_offset g + length (serialize L ?r) \<le> file_len g"
    "last_checkpoint g = last_checkpoint w" "data_start g = data_start w"
    "ws_write_offset g = ws_write_offset w" "next_seq_no g = next_seq_no w + 1"
    by (auto simp: w0_def)
  note w1 = wal_inv_write [OF g(1) assms(2) g(2), folded w1_def]
  have frame: "last_checkpoint w1 = last_checkpoint w" "data_start w1 = data_start w"
    "next_seq_no w1 = next_seq_no w + 1" "file_len w1 = file_len g" "flush_offset w1 = flush_offset g"
    using g by (simp_all add: w1_def write_all_def)
  have off: "flush_offset w1 < ws_write_offset w + length (serialize L ?r)"
    using g by (simp add: frame wal_inv_def length_serialize)
  have "do_append NoIoFault L ty pl w = (Inr (next_seq_no w), w')"
    using off w1(2) g(5)
    by (simp add: do_append_def w0_def [symmetric] g_def [symmetric] w1_def [symmetric] flush_phase_def
        w'_def Let_def)
       (simp add: w0_def w1_def [symmetric])
  moreover have "wal_inv L w' (rs @ [?r])"
    using w1 g assms(2) frame by (auto simp: wal_inv_def w'_def length_serialize)
  ultimately show ?thesis
    using that frame by (simp add: w'_def)
qed

lemma write_checkpoint_inv:
  assumes "wal_inv L w rs"
    and "record_fits L \<lparr>record_type = Checkpoint, seq_no = next_seq_no w, payload = []\<rparr>"
      (is "record_fits L ?r")
  obtains w' where "write_checkpoint NoIoFault L now w = (Inr (next_seq_no w), w')"
    and "wal_inv L w' (rs @ [?r])" and "wal_cp_inv L w' (rs @ [?r])"
    and "next_seq_no w' = next_seq_no w + 1"
proof -
  obtain w1 where w1: "do_append NoIoFault L Checkpoint [] w = (Inr (next_seq_no w), w1)"
    "wal_inv L w1 (rs @ [?r])" "next_seq_no w1 = next_seq_no w + 1" "data_start w1 = data_start w"
    using do_append_inv [OF assms] by metis
  define w' where "w' = w1\<lparr>last_checkpoint :=
      Some \<lparr>cp_seq_no = next_seq_no w, cp_offset = current_size w, cp_timestamp = now\<rparr>\<rparr>"
  have "write_checkpoint NoIoFault L now w = (Inr (next_seq_no w), w')"
    by (simp add: write_checkpoint_def w1(1) w'_def)
  moreover have "wal_inv L w' (rs @ [?r])" using w1(2) by (simp add: w'_def wal_inv_def)
  moreover have "wal_cp_inv L w' (rs @ [?r])"
    using assms(1) w1(4)
    by (auto simp: wal_cp_inv_def w'_def current_size_def wal_inv_def intro!: exI [of _ rs])
  moreover have "next_seq_no w' = next_seq_no w + 1" using w1(3) by (simp add: w'_def)
  ultimately show ?thesis using that by blast
qed

lemma wal_inv_rewritten:
  assumes "\<forall>r \<in> set rs. record_fits L r" and "end = 16 + length (wal_body L rs)"
    and "wal_file w' = superblock v @ wal_body L rs @ replicate n 0"
    and "synced w' = wal_file w'" "file_len w' = end + n" "data_start w' = 16"
    "cursor w' = end" "ws_write_offset w' = end" "write_offset w' = end" "flush_offset w' = end"
  shows "wal_inv L w' rs"
proof -
  have "wal_prefix (superblock v)" by (auto simp: wal_prefix_def)
  moreover have "data_start w' = length (superblock v)" by (simp add: assms)
  ultimately show ?thesis
    unfolding wal_inv_def using assms by (intro conjI exI [of _ "superblock v"] exI [of _ n]) auto
qed

lemma truncate_inv:
  assumes "wal_inv L w rs" and "wal_cp_inv L w rs"
  obtains w' rs1 rs2 where "truncate_to_checkpoint w = (Inr (), w')" and "rs = rs1 @ rs2"
    and "wal_inv L w' rs2" and "wal_cp_inv L w' rs2" and "next_seq_no w' = next_seq_no w"
    and "rs2 = [] \<longrightarrow> rs1 = []" and "after_checkpoint rs2 = after_checkpoint rs"
proof (cases "last_checkpoint w")
  case None
  then show ?thesis
    using assms by (intro that [of w "[]" rs]) (auto simp: truncate_to_checkpoint_def)
next
  case (Some info)
  then obtain rs1 r rs2 where split: "rs = rs1 @ r # rs2" "record_type r = Checkpoint"
    "cp_offset info = data_start w + length (wal_body L rs1)"
    using assms(2) by (auto simp: wal_cp_inv_def)
  obtain pre n where pre: "data_start w = length pre"
    "wal_file w = (pre @ wal_body L rs1) @ wal_body L (r # rs2) @ replicate n 0"
    using assms(1) by (auto simp: wal_inv_def split)
  define body where "body = wal_body L (r # rs2)"
  have len: "ws_write_offset w - cp_offset info = length body" "\<not> length (wal_file w) < cp_offset info + length body"
    using assms(1) by (simp_all add: wal_inv_def split pre body_def)
  have rem: "take (length body) (drop (cp_offset info) (wal_file w)) = body"
    by (simp add: pre split body_def)
  define new_end where "new_end = 16 + length body"
  define k where "k = max new_end (prealloc_chunk w) - new_end"
  define f where "f = superblock current_writer_version @ body @ replicate k 0"
  define w' where "w' = w\<lparr>wal_file := f, cursor := new_end, synced := f, ws_write_offset := new_end,
     file_len := max new_end (prealloc_chunk w), data_start := 16, write_offset := new_end,
     flush_offset := new_end, last_checkpoint := Some (info\<lparr>cp_offset := 16\<rparr>)\<rparr>"
  have header: "header_to_bytes (new_header (support_magic WAL) (current_write WAL)) = superblock current_writer_version"
    by (simp add: superblock_def new_header_def)
  have fill: "write_at new_end (replicate j 0) (superblock current_writer_version @ body)
      = superblock current_writer_version @ body @ replicate j 0" for j
    using write_at_end [of "superblock current_writer_version @ body"] by (simp add: new_end_def)
  have "truncate_to_checkpoint w = (Inr (), w')"
    using len rem write_at_end [of "superblock current_writer_version" body] fill
    by (simp add: truncate_to_checkpoint_def Some header write_all_def zero_fill_def sync_all_def
        WAL_HEADER_SIZE_def FORMAT_HEADER_SIZE_def Let_def w'_def f_def write_at_end [of "[]", simplified]
        new_end_def [symmetric] k_def)
  moreover have "wal_inv L w' (r # rs2)"
    by (rule wal_inv_rewritten [where n = k and v = current_writer_version])
      (use assms(1) in \<open>auto simp: w'_def f_def body_def new_end_def k_def wal_inv_def split\<close>)
  moreover have "wal_cp_inv L w' (r # rs2)"
    using split(2) by (auto simp: wal_cp_inv_def w'_def intro!: exI [of _ "[]"])
  moreover have "after_checkpoint (r # rs2) = after_checkpoint rs"
    using split(1,2) by (simp add: after_checkpoint_def takeWhile_append)
  ultimately show ?thesis
    using that [of w' rs1 "r # rs2"] split(1) by (simp add: w'_def)
qed

section \<open>Opening\<close>

lemma new_wal_writer_tail:
  assumes "lz4_ok L" and "\<forall>r \<in> set rs. record_fits L r" and "reader_stops L tail"
    and f: "f = pre @ wal_body L rs @ tail" and "f \<noteq> []" and start: "wal_data_start (Some f) = Inr (length pre)"
  obtains j where "new_wal_writer L cfg (Some f) = Inr \<lparr>wal_file = f @ replicate j 0,
    cursor = length pre + length (wal_body L rs), synced = f @ replicate j 0,
    ws_write_offset = length pre + length (wal_body L rs), file_len = length f + j,
    data_start = length pre, next_seq_no = 1, write_offset = length pre + length (wal_body L rs),
    flush_offset = length pre + length (wal_body L rs), last_checkpoint = None,
    prealloc_chunk = max (preallocate_bytes cfg) (1024 * 1024), wal_cfg = cfg\<rparr>"
proof -
  define e k j where "e = length pre + length (wal_body L rs)"
    and "k = max e (preallocate_bytes cfg) - length f"
    and "j = (if length f < max e (preallocate_bytes cfg) then k else 0)"
  have scan: "scan_logical_end L (Some f) (length pre) = e"
    using scan_loop_body [OF assms(1-3)] by (simp add: scan_logical_end_def f e_def)
  have "new_wal_writer L cfg (Some f) = Inr \<lparr>wal_file = f @ replicate j 0, cursor = e,
    synced = f @ replicate j 0, ws_write_offset = e, file_len = length f + j,
    data_start = length pre, next_seq_no = 1, write_offset = e, flush_offset = e, last_checkpoint = None,
    prealloc_chunk = max (preallocate_bytes cfg) (1024 * 1024), wal_cfg = cfg\<rparr>"
    using \<open>f \<noteq> []\<close>
    by (simp add: new_wal_writer_def start scan Let_def j_def k_def sync_all_def zero_fill_def write_at_end)
  then show ?thesis using that unfolding e_def by blast
qed

lemma new_wal_writer_image:
  assumes "lz4_ok L" and "wal_prefix pre" and "\<forall>r \<in> set rs. record_fits L r"
    and f: "f = pre @ wal_body L rs @ replicate n 0" and "f \<noteq> []"
  obtains w where "new_wal_writer L cfg (Some f) = Inr w" and "wal_inv L w rs"
    and "next_seq_no w = 1" and "last_checkpoint w = None"
proof -
  have "wal_data_start (Some f) = Inr (length pre)"
    using assms(2) by (simp add: f wal_data_start_image)
  from new_wal_writer_tail [OF assms(1,3) zeros_stop f \<open>f \<noteq> []\<close> this, of cfg] obtain j w where
    w: "new_wal_writer L cfg (Some f) = Inr w" "wal_file w = f @ replicate j 0" "synced w = f @ replicate j 0"
    "cursor w = length pre + length (wal_body L rs)" "ws_write_offset w = length pre + length (wal_body L rs)"
    "file_len w = length f + j" "data_start w = length pre" "next_seq_no w = 1"
    "write_offset w = length pre + length (wal_body L rs)" "last_checkpoint w = None"
    "flush_offset w = length pre + length (wal_body L rs)"
    by (metis wal_writer.simps)
  moreover have "f @ replicate j 0 = pre @ wal_body L rs @ replicate (n + j) 0"
    by (simp add: f replicate_add)
  ultimately have "wal_inv L w rs" using assms(2,3) by (auto simp: wal_inv_def f)
  then show ?thesis using that w by blast
qed

lemma superblock_app_not_Nil [simp]: "superblock v @ rest \<noteq> []"
  by (metis append_is_Nil_conv length_superblock list.size(3) zero_neq_numeral)

lemma superblock_prefix [simp]: "wal_prefix (superblock v)"
  by (auto simp: wal_prefix_def)

lemma new_wal_writer_fresh_eq:
  assumes "wal_path = None \<or> wal_path = Some []"
  shows "new_wal_writer L cfg wal_path = new_wal_writer L cfg (Some (superblock current_writer_version))"
  using assms wal_data_start_superblock [of current_writer_version "[]"]
    superblock_app_not_Nil [of current_writer_version "[]"]
  by (auto simp: new_wal_writer_def superblock_def new_header_def WAL_HEADER_SIZE_def FORMAT_HEADER_SIZE_def)

lemma new_wal_writer_fresh:
  assumes "lz4_ok L" and "wal_path = None \<or> wal_path = Some []"
  obtains w where "new_wal_writer L cfg wal_path = Inr w" and "wal_inv L w []"
    and "next_seq_no w = 1" and "last_checkpoint w = None"
  using new_wal_writer_image [of L "superblock current_writer_version" "[]" _ 0 cfg] assms(1)
    new_wal_writer_fresh_eq [OF assms(2)] superblock_app_not_Nil [of current_writer_version "[]"] that
  by simp metis

section \<open>Runs of the writer\<close>

datatype wal_op = AppendOp wal_record_type bytes | CheckpointOp nat | TruncateOp

fun wal_exec :: "wal_lib \<Rightarrow> wal_op \<Rightarrow> wal_writer \<Rightarrow> wal_writer" where
  "wal_exec L (AppendOp ty pl) w = snd (do_append NoIoFault L ty pl w)"
| "wal_exec L (CheckpointOp now) w = snd (write_checkpoint NoIoFault L now w)"
| "wal_exec L TruncateOp w = snd (truncate_to_checkpoint w)"

text \<open>The abstract log: every record ever appended, numbered from one; truncation does not
  show.\<close>

primrec abs_exec :: "wal_op \<Rightarrow> wal_record list \<Rightarrow> wal_record list" where
  "abs_exec (AppendOp ty pl) log =
     log @ [\<lparr>record_type = ty, seq_no = word_of_nat (length log + 1), payload = pl\<rparr>]"
| "abs_exec (CheckpointOp now) log =
     log @ [\<lparr>record_type = Checkpoint, seq_no = word_of_nat (length log + 1), payload = []\<rparr>]"
| "abs_exec TruncateOp log = log"

text \<open>The simulation relation: the file holds a suffix of the abstract log that reaches back
  at least to the last checkpoint.\<close>

definition wal_sim :: "wal_lib \<Rightarrow> wal_writer \<Rightarrow> wal_record list \<Rightarrow> bool" where
  "wal_sim L w log \<longleftrightarrow>
     (\<exists>old rs. log = old @ rs \<and> (rs = [] \<longrightarrow> old = []) \<and> wal_inv L w rs \<and> wal_cp_inv L w rs
        \<and> after_checkpoint rs = after_checkpoint log)
     \<and> next_seq_no w = word_of_nat (length log + 1)"

lemma wal_simI:
  "log = old @ rs \<Longrightarrow> (rs = [] \<Longrightarrow> old = []) \<Longrightarrow> wal_inv L w rs \<Longrightarrow> wal_cp_inv L w rs \<Longrightarrow>
   after_checkpoint rs = after_checkpoint log \<Longrightarrow> next_seq_no w = word_of_nat (length log + 1) \<Longrightarrow>
   wal_sim L w log"
  by (auto simp: wal_sim_def)

lemma after_checkpoint_app:
  "after_checkpoint rs = after_checkpoint log \<Longrightarrow>
   after_checkpoint (rs @ [r]) = after_checkpoint (log @ [r])"
  by (simp add: after_checkpoint_snoc)

lemma wal_cp_inv_append:
  assumes "wal_cp_inv L w rs" "last_checkpoint w' = last_checkpoint w" "data_start w' = data_start w"
  shows "wal_cp_inv L w' (rs @ [r])"
  using assms by (fastforce simp: wal_cp_inv_def split: option.splits)

lemma wal_exec_sim:
  assumes "wal_sim L w log" and "\<forall>r \<in> set (abs_exec op log). record_fits L r"
  shows "wal_sim L (wal_exec L op w) (abs_exec op log)"
proof -
  obtain old rs where log: "log = old @ rs" "rs = [] \<longrightarrow> old = []" "wal_inv L w rs" "wal_cp_inv L w rs"
    "after_checkpoint rs = after_checkpoint log" and seq: "next_seq_no w = word_of_nat (length log + 1)"
    using assms(1) by (auto simp: wal_sim_def)
  show ?thesis
  proof (cases op)
    case (AppendOp ty pl)
    let ?r = "\<lparr>record_type = ty, seq_no = next_seq_no w, payload = pl\<rparr>"
    have fits: "record_fits L ?r" using assms(2) by (simp add: AppendOp seq)
    from do_append_inv [OF log(3) fits] obtain w' where
      w': "do_append NoIoFault L ty pl w = (Inr (next_seq_no w), w')" "wal_inv L w' (rs @ [?r])"
      "next_seq_no w' = next_seq_no w + 1" "last_checkpoint w' = last_checkpoint w" "data_start w' = data_start w"
      by metis
    have "wal_cp_inv L w' (rs @ [?r])" using log(4) w'(4,5) by (rule wal_cp_inv_append)
    then show ?thesis
      using w' log after_checkpoint_app [OF log(5)]
      by (intro wal_simI [of _ old "rs @ [?r]"]) (simp_all add: AppendOp seq)
  next
    case (CheckpointOp now)
    let ?r = "\<lparr>record_type = Checkpoint, seq_no = next_seq_no w, payload = []\<rparr>"
    have fits: "record_fits L ?r" using assms(2) by (simp add: CheckpointOp seq)
    from write_checkpoint_inv [OF log(3) fits] obtain w' where
      w': "write_checkpoint NoIoFault L now w = (Inr (next_seq_no w), w')" "wal_inv L w' (rs @ [?r])"
      "wal_cp_inv L w' (rs @ [?r])" "next_seq_no w' = next_seq_no w + 1"
      by metis
    then show ?thesis
      using log after_checkpoint_app [OF log(5)]
      by (intro wal_simI [of _ old "rs @ [?r]"]) (simp_all add: CheckpointOp seq)
  next
    case TruncateOp
    from truncate_inv [OF log(3,4)] obtain w' rs1 rs2 where
      "truncate_to_checkpoint w = (Inr (), w')" "rs = rs1 @ rs2" "wal_inv L w' rs2" "wal_cp_inv L w' rs2"
      "next_seq_no w' = next_seq_no w" "rs2 = [] \<longrightarrow> rs1 = []" "after_checkpoint rs2 = after_checkpoint rs"
      by metis
    then show ?thesis
      using log seq by (intro wal_simI [of _ "old @ rs1" rs2]) (simp_all add: TruncateOp)
  qed
qed

definition numbered :: "wal_record list \<Rightarrow> bool" where
  "numbered log \<longleftrightarrow> (\<forall>i < length log. seq_no (log ! i) = word_of_nat (i + 1))"

lemma numbered_abs_exec: "numbered log \<Longrightarrow> numbered (abs_exec op log)"
  by (cases op) (auto simp: numbered_def nth_append less_Suc_eq)

lemma numbered_run: "numbered (fold abs_exec ops [])"
proof (induction ops rule: rev_induct)
  case Nil
  then show ?case by (simp add: numbered_def)
next
  case (snoc op ops)
  then show ?case by (simp add: numbered_abs_exec)
qed

lemma max_seq_of_less:
  "\<forall>r \<in> set rs. seq_no r < s \<Longrightarrow> m < s \<Longrightarrow> max_seq_of m rs < s"
  unfolding max_seq_of_def by (induction rs arbitrary: m) auto

lemma max_seq_of_snoc:
  "max_seq_of m (rs @ [r]) = (if seq_no r > max_seq_of m rs then seq_no r else max_seq_of m rs)"
  by (simp add: max_seq_of_def)

lemma word_of_nat_less64: "i < j \<Longrightarrow> j < 2 ^ 64 \<Longrightarrow> (word_of_nat i :: u64) < word_of_nat j"
  by (simp add: word_less_nat_alt unat_of_nat_small)

lemma max_seq_suffix:
  assumes "numbered log" and "log = old @ rs" and "rs = [] \<longrightarrow> old = []" and "length log < 2 ^ 64"
  shows "max_seq_of 0 rs = word_of_nat (length log)"
proof (cases rs rule: rev_cases)
  case Nil
  with assms show ?thesis by (simp add: max_seq_of_def)
next
  case (snoc ys r)
  have nth: "seq_no (log ! i) = word_of_nat (i + 1)" if "i < length log" for i
    using assms(1) that by (auto simp: numbered_def)
  have last: "seq_no r = word_of_nat (length log)"
    using nth [of "length (old @ ys)"] by (simp add: assms(2) snoc nth_append)
  have "seq_no y < seq_no r" if y: "y \<in> set ys" for y
  proof -
    obtain i where i: "i < length ys" "y = ys ! i" using y by (auto simp: in_set_conv_nth)
    then have "log ! (length old + i) = y" "length old + i < length log"
      by (simp_all add: assms(2) snoc nth_append)
    with nth have "seq_no y = word_of_nat (length old + i + 1)" by metis
    moreover have "length old + i + 1 < length log" using i by (simp add: assms(2) snoc)
    ultimately show ?thesis using assms(4) by (simp only: last word_of_nat_less64)
  qed
  moreover have "0 < seq_no r"
    using assms(4) word_of_nat_less64 [of 0 "length log"] by (simp add: last assms(2) snoc)
  ultimately have "max_seq_of 0 ys < seq_no r" by (simp add: max_seq_of_less)
  then show ?thesis by (simp add: snoc max_seq_of_snoc last)
qed

lemma abs_exec_extends: "set log \<subseteq> set (abs_exec op log)"
  by (cases op) auto

lemma wal_run_sim:
  assumes "wal_inv L w []" "next_seq_no w = 1" "last_checkpoint w = None"
    and "\<forall>r \<in> set (fold abs_exec ops []). record_fits L r"
  shows "wal_sim L (fold (wal_exec L) ops w) (fold abs_exec ops [])"
  using assms(4)
proof (induction ops rule: rev_induct)
  case Nil
  then show ?case
    using assms(1-3) by (auto intro!: wal_simI [of _ "[]" "[]"] simp: wal_cp_inv_def)
next
  case (snoc op ops)
  then show ?case using abs_exec_extends [of "fold abs_exec ops []" op] by (auto intro!: wal_exec_sim)
qed

section \<open>Properties of the WAL\<close>

text \<open>
  C28: The WAL implements a log. After opening a fresh WAL and any sequence of appends,
  checkpoints and truncations, recovery from the durable image returns exactly the records
  appended since the last checkpoint, in order, and the next sequence number is the one
  after every record ever appended; truncation is invisible.
\<close>

theorem wal_recovers_log:
  assumes "lz4_ok L" and "wal_path = None \<or> wal_path = Some []"
    and "new_wal_writer L cfg wal_path = Inr w"
    and "\<forall>r \<in> set (fold abs_exec ops []). record_fits L r"
    and "length (fold abs_exec ops []) < 2 ^ 64"
  shows "recover_wal L (Some (synced (fold (wal_exec L) ops w)))
     = Inr (after_checkpoint (fold abs_exec ops []), word_of_nat (length (fold abs_exec ops []) + 1))"
proof -
  have "wal_inv L w []" "next_seq_no w = 1" "last_checkpoint w = None"
    using new_wal_writer_fresh [OF assms(1,2), of cfg] assms(3) by (metis sum.inject(2))+
  then have "wal_sim L (fold (wal_exec L) ops w) (fold abs_exec ops [])"
    using assms(4) by (rule wal_run_sim)
  then obtain old rs where "fold abs_exec ops [] = old @ rs" "rs = [] \<longrightarrow> old = []"
    "wal_inv L (fold (wal_exec L) ops w) rs" "after_checkpoint rs = after_checkpoint (fold abs_exec ops [])"
    unfolding wal_sim_def by blast
  then show ?thesis
    using wal_inv_recover [OF assms(1)] max_seq_suffix [OF numbered_run _ _ assms(5)] by simp
qed

text \<open>
  Reopening a WAL after a clean stop or a crash that left only zeros behind the records
  keeps every record: the new writer continues right after them.
\<close>

theorem wal_reopen_keeps_log:
  assumes "lz4_ok L" and "wal_prefix pre" and "\<forall>r \<in> set rs. record_fits L r"
    and "pre @ wal_body L rs @ replicate n 0 \<noteq> []"
    and "record_fits L \<lparr>record_type = ty, seq_no = 1, payload = pl\<rparr>"
  shows "\<exists>w w'. new_wal_writer L cfg (Some (pre @ wal_body L rs @ replicate n 0)) = Inr w
     \<and> do_append NoIoFault L ty pl w = (Inr 1, w')
     \<and> recover_wal L (Some (synced w')) =
         Inr (after_checkpoint (rs @ [\<lparr>record_type = ty, seq_no = 1, payload = pl\<rparr>]),
              max_seq_of 0 (rs @ [\<lparr>record_type = ty, seq_no = 1, payload = pl\<rparr>]) + 1)"
proof -
  obtain w where w: "new_wal_writer L cfg (Some (pre @ wal_body L rs @ replicate n 0)) = Inr w"
    "wal_inv L w rs" "next_seq_no w = 1"
    using new_wal_writer_image [OF assms(1-3) refl assms(4)] by metis
  then obtain w' where "do_append NoIoFault L ty pl w = (Inr 1, w')"
    "wal_inv L w' (rs @ [\<lparr>record_type = ty, seq_no = 1, payload = pl\<rparr>])"
    using do_append_inv [OF w(2), of ty pl] assms(5) by metis
  then show ?thesis using w(1) wal_inv_recover [OF assms(1)] by blast
qed

text \<open>
  C29: What recovery does with a damaged tail. If the bytes after the intact records hold a
  bad type, a bad checksum, a payload that does not decompress, or less than a header, the
  intact records are recovered; but if a header there declares more payload than the file
  holds, recovery returns an error and no record at all.
\<close>

theorem recover_damaged_tail:
  assumes "lz4_ok L" and "\<forall>r \<in> set rs. record_fits L r"
    and "\<forall>r rest. deserialize L tail \<noteq> Inr (Some (r, rest))"
  shows "recover_wal L (Some (superblock v @ wal_body L rs @ tail)) =
     (if deserialize L tail = Inl UnexpectedEof then Inl UnexpectedEof
      else Inr (after_checkpoint rs, max_seq_of 0 rs + 1))"
proof (cases "deserialize L tail = Inl UnexpectedEof")
  case True
  then have "tail \<noteq> []" by (auto simp: deserialize_short)
  with True show ?thesis
    unfolding recover_wal_def wal_data_start_superblock
    by (simp add: recover_loop_body [OF assms(1,2)])
      (subst recover_loop.simps, simp)
next
  case False
  have "deserialize L tail = Inr None \<or> deserialize L tail = Inl InvalidData"
    using assms(3) False
    by (auto simp: deserialize_def Let_def split: if_splits option.splits)
  then have "reader_stops L tail" by (simp add: reader_stops_def)
  with False show ?thesis
    using recover_wal_body [OF assms(1,2), of tail "superblock v"] wal_data_start_superblock by simp
qed

text \<open>
  C24: A failed write leaves the file cursor behind. When the write of a record fails after
  \<open>k\<close> of its bytes, the next append reports success but puts its record \<open>k\<close> bytes past the
  offset it accounts for, with the torn bytes in between.
\<close>

theorem append_after_failed_write:
  assumes "wal_inv L w rs" and "do_append (RecordWriteFails k) L ty pl w = (Inl OtherIo, w1)"
    and "do_append NoIoFault L ty' pl' w1 = (res, w2)"
    and "k \<le> length (serialize L \<lparr>record_type = ty, seq_no = next_seq_no w, payload = pl\<rparr>)"
    and "ws_write_offset w + length (serialize L \<lparr>record_type = ty, seq_no = next_seq_no w, payload = pl\<rparr>)
           \<le> file_len w"
    and "ws_write_offset w + length (serialize L \<lparr>record_type = ty', seq_no = next_seq_no w + 1, payload = pl'\<rparr>)
           \<le> file_len w"
  shows "res = Inr (next_seq_no w + 1) \<and> cursor w2 = ws_write_offset w2 + k
     \<and> take (cursor w2) (synced w2) = take (ws_write_offset w) (wal_file w)
         @ take k (serialize L \<lparr>record_type = ty, seq_no = next_seq_no w, payload = pl\<rparr>)
         @ serialize L \<lparr>record_type = ty', seq_no = next_seq_no w + 1, payload = pl'\<rparr>"
proof -
  define d d' where "d = take k (serialize L \<lparr>record_type = ty, seq_no = next_seq_no w, payload = pl\<rparr>)"
    and "d' = serialize L \<lparr>record_type = ty', seq_no = next_seq_no w + 1, payload = pl'\<rparr>"
  have d: "length d = k" "0 < length d'" using assms(4) by (simp_all add: d_def d'_def length_serialize)
  have off: "cursor w = ws_write_offset w" "flush_offset w = ws_write_offset w"
    "ws_write_offset w \<le> length (wal_file w)"
    using assms(1) by (auto simp: wal_inv_def)
  have w1: "w1 = w\<lparr>next_seq_no := next_seq_no w + 1, wal_file := write_at (ws_write_offset w) d (wal_file w),
      cursor := ws_write_offset w + k\<rparr>"
    using assms(2,5) off d by (auto simp: do_append_def grow_file_def write_all_def Let_def d_def)
  have "res = Inr (next_seq_no w + 1)" "cursor w2 = ws_write_offset w + k + length d'"
    "ws_write_offset w2 = ws_write_offset w + length d'"
    "synced w2 = write_at (ws_write_offset w + k) d' (write_at (ws_write_offset w) d (wal_file w))"
    using assms(3,6) off d
    by (auto simp: w1 do_append_def grow_file_def write_all_def flush_phase_def Let_def d'_def)
  moreover have "take (ws_write_offset w + k) (write_at (ws_write_offset w) d (wal_file w))
      = take (ws_write_offset w) (wal_file w) @ d"
    using take_write_at [OF off(3), of d] d by simp
  moreover have "ws_write_offset w + k \<le> length (write_at (ws_write_offset w) d (wal_file w))"
    using d by (simp add: length_write_at)
  ultimately show ?thesis by (simp add: take_write_at d_def [symmetric] d'_def [symmetric])
qed

text \<open>
  A stale record comes back. When a crash left a hole of zeros followed by an intact
  record that was never acknowledged, the next acknowledged append of the hole's size makes
  recovery return that stale record too, after the new one.
\<close>

theorem stale_record_returns:
  assumes "lz4_ok L" and "\<forall>r \<in> set rs. record_fits L r" and "record_fits L stale"
    and new: "new = \<lparr>record_type = ty, seq_no = 1, payload = pl\<rparr>" and "record_fits L new"
    and "new_wal_writer L cfg (Some (superblock v @ wal_body L rs
           @ replicate (length (serialize L new)) 0 @ serialize L stale @ replicate n 0)) = Inr w"
    and "do_append NoIoFault L ty pl w = (res, w')"
  shows "res = Inr 1 \<and> recover_wal L (Some (synced w'))
     = Inr (after_checkpoint (rs @ [new, stale]), max_seq_of 0 (rs @ [new, stale]) + 1)"
proof -
  define k tail where "k = length (serialize L new)"
    and "tail = replicate k 0 @ serialize L stale @ replicate n (0 :: u8)"
  define e where "e = 16 + length (wal_body L rs)"
  have k: "21 \<le> k" by (simp add: k_def length_serialize)
  then have "deserialize L tail = Inl InvalidData"
    by (intro deserialize_bad_type) (auto simp: tail_def nth_append from_u8_def)
  then have stops: "reader_stops L tail" by (simp add: reader_stops_def)
  define f where "f = superblock v @ wal_body L rs @ tail"
  have "f \<noteq> []" using k by (auto simp: f_def tail_def)
  from new_wal_writer_tail [OF assms(1,2) stops f_def this _, of cfg] wal_data_start_superblock obtain j where
    w: "w = \<lparr>wal_file = f @ replicate j 0, cursor = e, synced = f @ replicate j 0, ws_write_offset = e,
      file_len = length f + j, data_start = 16, next_seq_no = 1, write_offset = e, flush_offset = e,
      last_checkpoint = None, prealloc_chunk = max (preallocate_bytes cfg) (1024 * 1024), wal_cfg = cfg\<rparr>"
    using assms(6) by (auto simp: f_def tail_def k_def e_def)
  have room: "\<not> length f + j < e + k" by (simp add: f_def tail_def e_def)
  have "write_at e (serialize L new) (f @ replicate j 0)
      = superblock v @ wal_body L (rs @ [new, stale]) @ replicate (n + j) 0"
    using write_at_append [of "superblock v @ wal_body L rs" "serialize L new" "tail @ replicate j 0"]
    by (simp add: f_def e_def tail_def k_def replicate_add)
  then have "res = Inr 1" "synced w' = superblock v @ wal_body L (rs @ [new, stale]) @ replicate (n + j) 0"
    using assms(7) room k
    by (auto simp: w do_append_def grow_file_def write_all_def flush_phase_def Let_def new [symmetric] k_def [symmetric])
  moreover have "recover_wal L (Some (superblock v @ wal_body L (rs @ [new, stale]) @ replicate (n + j) 0))
      = Inr (after_checkpoint (rs @ [new, stale]), max_seq_of 0 (rs @ [new, stale]) + 1)"
    by (rule recover_wal_body [OF assms(1)]) (use assms(2,3,5) wal_data_start_superblock in auto)
  ultimately show ?thesis by metis
qed

section \<open>The log interface\<close>

text \<open>
  What a client of a write-ahead log relies on. \<open>logged w rs\<close>: the log behind \<open>w\<close> holds the
  entries \<open>rs\<close>; an append of an entry that fits succeeds and is the last entry of the
  durable image; reopening the durable image yields a log with the same entries and hands
  them to the caller.
\<close>

locale durable_log =
  fixes fresh :: "'w \<Rightarrow> bool"
    and append_entry :: "'r \<Rightarrow> 'w \<Rightarrow> ('err + 'seq) \<times> 'w"
    and image :: "'w \<Rightarrow> 'i"
    and reopen :: "'i \<Rightarrow> ('w \<times> 'r list) option"
    and fits :: "'r \<Rightarrow> bool"
    and logged :: "'w \<Rightarrow> 'r list \<Rightarrow> bool"
  assumes fresh_logged: "fresh w \<Longrightarrow> logged w []"
    and append_logged:
      "logged w rs \<Longrightarrow> fits r \<Longrightarrow> \<exists>q w'. append_entry r w = (Inr q, w') \<and> logged w' (rs @ [r])"
    and reopen_logged: "logged w rs \<Longrightarrow> \<exists>w'. reopen (image w) = Some (w', rs) \<and> logged w' rs"
begin

text \<open>A crash at any moment of a run of appends and crashes: what comes back is every entry
  appended so far, in order.\<close>

lemma append_all_logged:
  assumes "logged w rs" and "\<forall>r \<in> set xs. fits r"
  shows "logged (fold (\<lambda>r w. snd (append_entry r w)) xs w) (rs @ xs)"
  using assms
proof (induction xs arbitrary: w rs)
  case Nil
  then show ?case by simp
next
  case (Cons x xs)
  obtain q w' where "append_entry x w = (Inr q, w')" "logged w' (rs @ [x])"
    using append_logged [OF Cons.prems(1), of x] Cons.prems(2) by auto
  then show ?case using Cons.IH [of w' "rs @ [x]"] Cons.prems(2) by simp
qed

lemma crash_returns_appended:
  assumes "fresh w" and "\<forall>r \<in> set xs. fits r"
  shows "\<exists>w'. reopen (image (fold (\<lambda>r w. snd (append_entry r w)) xs w)) = Some (w', xs) \<and> logged w' xs"
  using reopen_logged [OF append_all_logged [OF fresh_logged [OF assms(1)] assms(2)]] by simp

end

text \<open>The entries of the WAL as its clients see them: type and payload. The sequence number
  is the writer's.\<close>

definition entry_of :: "wal_record \<Rightarrow> wal_record_type \<times> bytes" where
  "entry_of r = (record_type r, payload r)"

definition wal_append :: "wal_lib \<Rightarrow> wal_record_type \<times> bytes \<Rightarrow> wal_writer \<Rightarrow> (io_error + u64) \<times> wal_writer" where
  "wal_append L r w = do_append NoIoFault L (fst r) (snd r) w"

definition wal_reopen :: "wal_lib \<Rightarrow> wal_config \<Rightarrow> bytes \<Rightarrow> (wal_writer \<times> (wal_record_type \<times> bytes) list) option" where
  "wal_reopen L cfg f =
     (case new_wal_writer L cfg (Some f) of
        Inl e \<Rightarrow> None
      | Inr w \<Rightarrow>
        (case recover_wal L (Some (wal_file w)) of
           Inl e \<Rightarrow> None
         | Inr (rs, _) \<Rightarrow> Some (w, map entry_of rs)))"

text \<open>An entry that the row path writes: it fits the format and is no checkpoint.\<close>

definition entry_fits :: "wal_lib \<Rightarrow> wal_record_type \<times> bytes \<Rightarrow> bool" where
  "entry_fits L r \<longleftrightarrow> fst r \<noteq> Checkpoint \<and> length (compress_prepend_size L (snd r)) < 2 ^ 32"

definition wal_logged :: "wal_lib \<Rightarrow> wal_writer \<Rightarrow> (wal_record_type \<times> bytes) list \<Rightarrow> bool" where
  "wal_logged L w es \<longleftrightarrow> lz4_ok L \<and> wal_file w \<noteq> [] \<and> (\<forall>e \<in> set es. fst e \<noteq> Checkpoint)
     \<and> (\<exists>rs. wal_inv L w rs \<and> map entry_of rs = es)"

lemma after_checkpoint_none:
  "\<forall>r \<in> set rs. record_type r \<noteq> Checkpoint \<Longrightarrow> after_checkpoint rs = rs"
  by (induction rs rule: rev_induct) (simp_all add: after_checkpoint_snoc, simp add: after_checkpoint_def)

lemma entries_no_checkpoint:
  "map entry_of rs = es \<Longrightarrow> \<forall>e \<in> set es. fst e \<noteq> Checkpoint \<Longrightarrow> \<forall>r \<in> set rs. record_type r \<noteq> Checkpoint"
  by (auto simp: entry_of_def)

lemma wal_inv_file_nonempty: "wal_inv L w (rs @ [r]) \<Longrightarrow> wal_file w \<noteq> []"
  using length_serialize [of L r] by (auto simp: wal_inv_def)

lemma wal_append_logged:
  assumes "wal_logged L w es" and "entry_fits L r"
  shows "\<exists>q w'. wal_append L r w = (Inr q, w') \<and> wal_logged L w' (es @ [r])"
proof -
  obtain rs where rs: "wal_inv L w rs" "map entry_of rs = es" using assms(1) by (auto simp: wal_logged_def)
  let ?r = "\<lparr>record_type = fst r, seq_no = next_seq_no w, payload = snd r\<rparr>"
  have "record_fits L ?r" using assms(2) by (simp add: record_fits_def entry_fits_def)
  from do_append_inv [OF rs(1) this] obtain w' where
    w': "do_append NoIoFault L (fst r) (snd r) w = (Inr (next_seq_no w), w')" "wal_inv L w' (rs @ [?r])"
    by metis
  then have "wal_logged L w' (es @ [r])"
    using assms rs(2) wal_inv_file_nonempty [OF w'(2)]
    by (auto simp: wal_logged_def entry_of_def entry_fits_def intro!: exI [of _ "rs @ [?r]"])
  then show ?thesis using w'(1) by (auto simp: wal_append_def)
qed

lemma wal_reopen_logged:
  assumes "wal_logged L w es"
  shows "\<exists>w'. wal_reopen L cfg (synced w) = Some (w', es) \<and> wal_logged L w' es"
proof -
  obtain rs where rs: "wal_inv L w rs" "map entry_of rs = es" using assms by (auto simp: wal_logged_def)
  obtain pre n where pre: "wal_prefix pre" "synced w = pre @ wal_body L rs @ replicate n 0"
    using rs(1) by (auto simp: wal_inv_def)
  have ne: "synced w \<noteq> []" and lz4: "lz4_ok L" and fits: "\<forall>r \<in> set rs. record_fits L r"
    using assms rs(1) by (auto simp: wal_logged_def wal_inv_def)
  obtain w' where w': "new_wal_writer L cfg (Some (synced w)) = Inr w'" "wal_inv L w' rs"
    using new_wal_writer_image [OF lz4 pre(1) fits pre(2) ne] by metis
  have fl: "wal_file w' = synced w'" using w'(2) by (simp add: wal_inv_def)
  have "recover_wal L (Some (wal_file w')) = Inr (rs, max_seq_of 0 rs + 1)"
    using wal_inv_recover [OF lz4 w'(2)] fl after_checkpoint_none [of rs] entries_no_checkpoint [OF rs(2)] assms
    by (simp add: wal_logged_def)
  moreover have "wal_file w' \<noteq> []" using w'(1) ne by (auto simp: new_wal_writer_def Let_def zero_fill_def
        sync_all_def write_at_def split: sum.splits if_splits)
  ultimately show ?thesis
    using w' rs(2) assms by (auto simp: wal_reopen_def wal_logged_def)
qed

interpretation wlog: durable_log
  "\<lambda>w. lz4_ok L \<and> wal_file w \<noteq> [] \<and> wal_inv L w []" "wal_append L" synced "wal_reopen L cfg"
  "entry_fits L" "wal_logged L"
  for L cfg
proof unfold_locales
  show "lz4_ok L \<and> wal_file w \<noteq> [] \<and> wal_inv L w [] \<Longrightarrow> wal_logged L w []" for w
    by (auto simp: wal_logged_def)
qed (use wal_append_logged wal_reopen_logged in auto)

section \<open>Witnesses\<close>

definition demo_cfg :: wal_config where
  "demo_cfg = \<lparr>checkpoint_size_bytes = 512, checkpoint_interval = 60, preallocate_bytes = 128\<rparr>"

definition demo_ops :: "wal_op list" where
  "demo_ops = [AppendOp RowPut [1], CheckpointOp 0, AppendOp RowPut [2], TruncateOp]"

lemma demo_log:
  "fold abs_exec demo_ops [] =
     [\<lparr>record_type = RowPut, seq_no = 1, payload = [1]\<rparr>,
      \<lparr>record_type = Checkpoint, seq_no = 2, payload = []\<rparr>,
      \<lparr>record_type = RowPut, seq_no = 3, payload = [2]\<rparr>]"
  by (simp add: demo_ops_def)

theorem wal_recovers_log_witness:
  "\<exists>w. new_wal_writer demo_lib demo_cfg None = Inr w
     \<and> recover_wal demo_lib (Some (synced (fold (wal_exec demo_lib) demo_ops w)))
       = Inr ([\<lparr>record_type = RowPut, seq_no = 3, payload = [2]\<rparr>], 4)"
proof -
  obtain w where w: "new_wal_writer demo_lib demo_cfg None = Inr w"
    using new_wal_writer_fresh [OF demo_lib_ok, of None demo_cfg] by auto
  have fits: "\<forall>r \<in> set (fold abs_exec demo_ops []). record_fits demo_lib r"
    by (simp add: demo_log demo_lib_fits)
  have "length (fold abs_exec demo_ops []) < 2 ^ 64" by (simp add: demo_log)
  from wal_recovers_log [OF demo_lib_ok _ w fits this] w show ?thesis
    by (simp add: demo_log after_checkpoint_def)
qed

definition demo_rec :: wal_record where
  "demo_rec = \<lparr>record_type = RowPut, seq_no = 9, payload = [7]\<rparr>"

lemma demo_rec_fits: "record_fits demo_lib demo_rec"
  by (simp add: demo_rec_def demo_lib_fits)

theorem wal_reopen_keeps_log_witness:
  "\<exists>w w'. new_wal_writer demo_lib demo_cfg
       (Some (superblock current_writer_version @ wal_body demo_lib [demo_rec] @ replicate 30 0)) = Inr w
     \<and> do_append NoIoFault demo_lib RowPut [5] w = (Inr 1, w')
     \<and> recover_wal demo_lib (Some (synced w'))
         = Inr ([demo_rec, \<lparr>record_type = RowPut, seq_no = 1, payload = [5]\<rparr>], 10)"
proof -
  have fits: "\<forall>r \<in> set [demo_rec]. record_fits demo_lib r" by (simp add: demo_rec_fits)
  have "record_fits demo_lib \<lparr>record_type = RowPut, seq_no = 1, payload = [5]\<rparr>" by (simp add: demo_lib_fits)
  from wal_reopen_keeps_log [OF demo_lib_ok superblock_prefix fits superblock_app_not_Nil this, where n = 30]
  show ?thesis by (simp add: after_checkpoint_def max_seq_of_def demo_rec_def)
qed

text \<open>A tail whose header declares five bytes of payload that are not there.\<close>

definition demo_tail :: bytes where
  "demo_tail = [1] @ to_le_bytes (2 :: u64) @ to_le_bytes (5 :: u32) @ to_le_bytes (0 :: u64) @ [1]"

lemma demo_tail_eof: "deserialize demo_lib demo_tail = Inl UnexpectedEof"
  using deserialize_header [of demo_tail 1 2 5 0 "[1]" demo_lib]
  by (simp add: demo_tail_def from_u8_def)

theorem recover_damaged_tail_witness:
  "(\<forall>r rest. deserialize demo_lib demo_tail \<noteq> Inr (Some (r, rest)))
   \<and> recover_wal demo_lib (Some (superblock current_writer_version @ wal_body demo_lib [demo_rec] @ demo_tail))
       = Inl UnexpectedEof"
proof -
  have "\<forall>r \<in> set [demo_rec]. record_fits demo_lib r" by (simp add: demo_rec_fits)
  moreover have "\<forall>r rest. deserialize demo_lib demo_tail \<noteq> Inr (Some (r, rest))"
    by (simp add: demo_tail_eof)
  ultimately show ?thesis
    using recover_damaged_tail [OF demo_lib_ok, of "[demo_rec]" demo_tail current_writer_version]
    by (simp add: demo_tail_eof)
qed

definition demo_w :: wal_writer where
  "demo_w = \<lparr>wal_file = superblock current_writer_version @ replicate 112 0, cursor = 16,
     synced = superblock current_writer_version @ replicate 112 0, ws_write_offset = 16,
     file_len = 128, data_start = 16, next_seq_no = 1, write_offset = 16, flush_offset = 16,
     last_checkpoint = None, prealloc_chunk = 1024 * 1024, wal_cfg = demo_cfg\<rparr>"

lemma demo_w_inv: "wal_inv demo_lib demo_w []"
  unfolding wal_inv_def
  by (intro conjI exI [of _ "superblock current_writer_version"] exI [of _ 112]) (simp_all add: demo_w_def)

theorem append_after_failed_write_witness:
  "\<exists>w w1 w2. wal_inv demo_lib w []
     \<and> do_append (RecordWriteFails 3) demo_lib RowPut [1] w = (Inl OtherIo, w1)
     \<and> do_append NoIoFault demo_lib RowPut [2] w1 = (Inr 2, w2) \<and> cursor w2 = ws_write_offset w2 + 3"
proof -
  obtain w where w: "wal_inv demo_lib w []" "next_seq_no w = 1" "ws_write_offset w = 16" "file_len w = 128"
    by (rule that [OF demo_w_inv]) (simp_all add: demo_w_def)
  obtain w1 where w1: "do_append (RecordWriteFails 3) demo_lib RowPut [1] w = (Inl OtherIo, w1)"
    using w by (auto simp: do_append_def Let_def)
  obtain res w2 where w2: "do_append NoIoFault demo_lib RowPut [2] w1 = (res, w2)"
    by (meson surj_pair)
  have "length (serialize demo_lib r) = 21 + length (payload r)" for r
    by (simp add: length_serialize demo_lib_def)
  with append_after_failed_write [OF w(1) w1 w2] w(2-4)
  have "res = Inr 2 \<and> cursor w2 = ws_write_offset w2 + 3" by simp
  with w w1 w2 show ?thesis by blast
qed

theorem stale_record_returns_witness:
  "\<exists>w w'. new_wal_writer demo_lib demo_cfg (Some (superblock current_writer_version @ wal_body demo_lib []
           @ replicate (length (serialize demo_lib \<lparr>record_type = RowPut, seq_no = 1, payload = [5]\<rparr>)) 0
           @ serialize demo_lib demo_rec @ replicate 4 0)) = Inr w
     \<and> do_append NoIoFault demo_lib RowPut [5] w = (Inr 1, w')
     \<and> recover_wal demo_lib (Some (synced w'))
         = Inr ([\<lparr>record_type = RowPut, seq_no = 1, payload = [5]\<rparr>, demo_rec], 10)"
proof -
  define new where "new = \<lparr>record_type = RowPut, seq_no = 1, payload = [5]\<rparr>"
  have fits: "record_fits demo_lib new" by (simp add: new_def demo_lib_fits)
  have "\<exists>w. new_wal_writer demo_lib demo_cfg (Some (superblock current_writer_version @ wal_body demo_lib []
           @ replicate (length (serialize demo_lib new)) 0 @ serialize demo_lib demo_rec @ replicate 4 0)) = Inr w"
    by (simp add: new_wal_writer_def wal_data_start_superblock Let_def)
  then obtain w where w: "new_wal_writer demo_lib demo_cfg (Some (superblock current_writer_version
        @ wal_body demo_lib [] @ replicate (length (serialize demo_lib new)) 0
        @ serialize demo_lib demo_rec @ replicate 4 0)) = Inr w" ..
  obtain res w' where w': "do_append NoIoFault demo_lib RowPut [5] w = (res, w')" by (meson surj_pair)
  from stale_record_returns [OF demo_lib_ok _ demo_rec_fits new_def fits w w'] w w' show ?thesis
    by (simp add: new_def after_checkpoint_def max_seq_of_def demo_rec_def)
qed

end
