(* ===== verification/WalGroupCommit.thy ===== *)
theory WalGroupCommit
  imports WalWriter
begin

text \<open>
  The two-lock group commit of \<open>WalWriter::do_append\<close> (\<open>wal/writer.rs\<close>) with any number of
  threads, as a step relation. The bytes between two accesses to shared state are one step:
  taking a sequence number, the critical section of the insert lock, the first check of
  \<open>flush_offset\<close>, taking the flush lock, the second check, loading the target, the
  \<open>fdatasync\<close>, and storing \<open>flush_offset\<close> with the release of the lock. The file content is
  the records inserted so far; \<open>durable\<close> counts those that an \<open>fdatasync\<close> has covered.
\<close>

datatype pc =
    Idle
  | Numbered wal_record                \<comment> \<open>sequence number taken, record serialised\<close>
  | Inserted wal_record nat            \<comment> \<open>bytes appended, \<open>my_end\<close>\<close>
  | AwaitSync wal_record nat           \<comment> \<open>\<open>flush_offset < my_end\<close> seen, waiting for the flush lock\<close>
  | HoldSync wal_record nat            \<comment> \<open>flush lock held, before the second check\<close>
  | Loaded wal_record nat nat          \<comment> \<open>target loaded\<close>
  | Synced wal_record nat nat          \<comment> \<open>\<open>sync_data\<close> done\<close>
  | Returned wal_record nat            \<comment> \<open>\<open>Ok(seq_no)\<close>\<close>

record gc_state =
  recs :: "wal_record list"
  durable :: nat
  gc_next_seq :: u64
  gc_write_offset :: nat
  gc_flush_offset :: nat
  sync_holder :: "nat option"
  pcs :: "nat \<Rightarrow> pc"

definition set_pc :: "nat \<Rightarrow> pc \<Rightarrow> gc_state \<Rightarrow> gc_state" where
  "set_pc i p s = s\<lparr>pcs := (pcs s)(i := p)\<rparr>"

definition gc_init :: "nat \<Rightarrow> gc_state" where
  "gc_init start = \<lparr>recs = [], durable = 0, gc_next_seq = 1, gc_write_offset = start,
     gc_flush_offset = start, sync_holder = None, pcs = (\<lambda>_. Idle)\<rparr>"

inductive gc_step :: "wal_lib \<Rightarrow> gc_state \<Rightarrow> gc_state \<Rightarrow> bool" for L where
  take_seq: "pcs s i = Idle \<or> pcs s i = Returned r' e' \<Longrightarrow>
    r = \<lparr>record_type = ty, seq_no = gc_next_seq s, payload = pl\<rparr> \<Longrightarrow>
    gc_step L s (set_pc i (Numbered r) (s\<lparr>gc_next_seq := gc_next_seq s + 1\<rparr>))"
| insert: "pcs s i = Numbered r \<Longrightarrow>
    my_end = gc_write_offset s + length (serialize L r) \<Longrightarrow>
    gc_step L s (set_pc i (Inserted r my_end) (s\<lparr>recs := recs s @ [r], gc_write_offset := my_end\<rparr>))"
| covered: "pcs s i = Inserted r e \<Longrightarrow> e \<le> gc_flush_offset s \<Longrightarrow>
    gc_step L s (set_pc i (Returned r e) s)"
| uncovered: "pcs s i = Inserted r e \<Longrightarrow> gc_flush_offset s < e \<Longrightarrow>
    gc_step L s (set_pc i (AwaitSync r e) s)"
| lock: "pcs s i = AwaitSync r e \<Longrightarrow> sync_holder s = None \<Longrightarrow>
    gc_step L s (set_pc i (HoldSync r e) (s\<lparr>sync_holder := Some i\<rparr>))"
| covered_locked: "pcs s i = HoldSync r e \<Longrightarrow> e \<le> gc_flush_offset s \<Longrightarrow>
    gc_step L s (set_pc i (Returned r e) (s\<lparr>sync_holder := None\<rparr>))"
| load_target: "pcs s i = HoldSync r e \<Longrightarrow> gc_flush_offset s < e \<Longrightarrow>
    gc_step L s (set_pc i (Loaded r e (gc_write_offset s)) s)"
| sync_data: "pcs s i = Loaded r e t \<Longrightarrow>
    gc_step L s (set_pc i (Synced r e t) (s\<lparr>durable := length (recs s)\<rparr>))"
| store_flush: "pcs s i = Synced r e t \<Longrightarrow>
    gc_step L s (set_pc i (Returned r e) (s\<lparr>gc_flush_offset := t, sync_holder := None\<rparr>))"

inductive_cases gc_stepE: "gc_step L s t"

inductive gc_reach :: "wal_lib \<Rightarrow> nat \<Rightarrow> gc_state \<Rightarrow> bool" for L start where
  init: "gc_reach L start (gc_init start)"
| step: "gc_reach L start s \<Longrightarrow> gc_step L s t \<Longrightarrow> gc_reach L start t"

section \<open>Invariant\<close>

text \<open>The offset just past the first \<open>m\<close> records.\<close>

definition end_of :: "wal_lib \<Rightarrow> nat \<Rightarrow> wal_record list \<Rightarrow> nat \<Rightarrow> nat" where
  "end_of L start rs m = start + length (wal_body L (take m rs))"

text \<open>A thread's record is in the file, ending at its \<open>my_end\<close>.\<close>

definition placed :: "wal_lib \<Rightarrow> nat \<Rightarrow> wal_record list \<Rightarrow> wal_record \<Rightarrow> nat \<Rightarrow> bool" where
  "placed L start rs r e \<longleftrightarrow> (\<exists>k < length rs. rs ! k = r \<and> e = end_of L start rs (Suc k))"

fun pc_inv :: "wal_lib \<Rightarrow> nat \<Rightarrow> gc_state \<Rightarrow> nat \<Rightarrow> pc \<Rightarrow> bool" where
  "pc_inv L start s i Idle = (sync_holder s \<noteq> Some i)"
| "pc_inv L start s i (Numbered r) = (sync_holder s \<noteq> Some i)"
| "pc_inv L start s i (Inserted r e) = (placed L start (recs s) r e \<and> sync_holder s \<noteq> Some i)"
| "pc_inv L start s i (AwaitSync r e) = (placed L start (recs s) r e \<and> sync_holder s \<noteq> Some i)"
| "pc_inv L start s i (HoldSync r e) = (placed L start (recs s) r e \<and> sync_holder s = Some i)"
| "pc_inv L start s i (Loaded r e t) =
     (placed L start (recs s) r e \<and> sync_holder s = Some i \<and> gc_flush_offset s < e \<and> e \<le> t
      \<and> t \<le> gc_write_offset s)"
| "pc_inv L start s i (Synced r e t) =
     (placed L start (recs s) r e \<and> sync_holder s = Some i \<and> gc_flush_offset s < e \<and> e \<le> t
      \<and> t \<le> end_of L start (recs s) (durable s))"
| "pc_inv L start s i (Returned r e) =
     (placed L start (recs s) r e \<and> e \<le> end_of L start (recs s) (durable s) \<and> sync_holder s \<noteq> Some i)"

definition gc_inv :: "wal_lib \<Rightarrow> nat \<Rightarrow> gc_state \<Rightarrow> bool" where
  "gc_inv L start s \<longleftrightarrow>
     gc_write_offset s = end_of L start (recs s) (length (recs s))
     \<and> durable s \<le> length (recs s)
     \<and> gc_flush_offset s \<le> end_of L start (recs s) (durable s)
     \<and> (\<forall>i. pc_inv L start s i (pcs s i))"

lemma end_of_mono: "m \<le> n \<Longrightarrow> end_of L start rs m \<le> end_of L start rs n"
  by (metis end_of_def le_add1 length_append min_def nat_add_left_cancel_le take_add
      le_iff_add wal_body_simps(3))

lemma end_of_strict: "m < n \<Longrightarrow> n \<le> length rs \<Longrightarrow> end_of L start rs m < end_of L start rs n"
proof -
  assume mn: "m < n" "n \<le> length rs"
  then have "take (Suc m) rs = take m rs @ [rs ! m]" by (simp add: take_Suc_conv_app_nth)
  then have "end_of L start rs m < end_of L start rs (Suc m)"
    by (simp add: end_of_def length_serialize)
  also have "\<dots> \<le> end_of L start rs n" using mn by (intro end_of_mono) simp
  finally show ?thesis .
qed

lemma end_of_append: "m \<le> length rs \<Longrightarrow> end_of L start (rs @ rs') m = end_of L start rs m"
  by (simp add: end_of_def)

lemma placed_append: "placed L start rs r e \<Longrightarrow> placed L start (rs @ rs') r e"
  unfolding placed_def by (force simp: nth_append end_of_append)

lemma placed_snoc:
  "placed L start (rs @ [r]) r (end_of L start rs (length rs) + length (serialize L r))"
  unfolding placed_def by (rule exI [of _ "length rs"]) (simp add: end_of_def)

lemma placed_bound: "placed L start rs r e \<Longrightarrow> e \<le> end_of L start rs (length rs)"
  unfolding placed_def by (auto intro!: end_of_mono)

lemma placed_durable:
  assumes "placed L start rs r e" and "e \<le> end_of L start rs d" and "d \<le> length rs"
  shows "r \<in> set (take d rs)"
proof -
  obtain k where k: "k < length rs" "rs ! k = r" "e = end_of L start rs (Suc k)"
    using assms(1) by (auto simp: placed_def)
  have "k < d"
  proof (rule ccontr)
    assume "\<not> k < d"
    then have "end_of L start rs d < end_of L start rs (Suc k)" using k by (intro end_of_strict) auto
    with assms(2) k show False by simp
  qed
  with k show ?thesis by (auto simp: in_set_conv_nth)
qed

text \<open>A step of one thread keeps what the invariant says of every other thread.\<close>

lemma pc_inv_frame:
  assumes "pc_inv L start s j p" and "recs t = recs s @ new" and "durable s \<le> length (recs s)"
    and "durable s \<le> durable t" and "gc_write_offset s \<le> gc_write_offset t"
    and "sync_holder t = Some j \<longleftrightarrow> sync_holder s = Some j"
    and "gc_flush_offset t = gc_flush_offset s \<or> sync_holder s \<noteq> Some j"
  shows "pc_inv L start t j p"
proof -
  have "end_of L start (recs s) (durable s) \<le> end_of L start (recs t) (durable t)"
    using assms(2-4) by (metis end_of_append end_of_mono)
  then show ?thesis
    using assms by (cases p) (auto intro: placed_append order_trans)
qed

lemma gc_invD:
  assumes "gc_inv L start s"
  shows "gc_write_offset s = end_of L start (recs s) (length (recs s))" "durable s \<le> length (recs s)"
    "gc_flush_offset s \<le> end_of L start (recs s) (durable s)" "pc_inv L start s i (pcs s i)"
  using assms by (auto simp: gc_inv_def)

lemma gc_inv_update:
  assumes inv: "gc_inv L start s" and "recs t = recs s @ new" and "durable s \<le> durable t"
    and "gc_write_offset t = end_of L start (recs t) (length (recs t))" "durable t \<le> length (recs t)"
    and "gc_flush_offset t \<le> end_of L start (recs t) (durable t)" "pc_inv L start t i (pcs t i)"
    and "\<And>j. j \<noteq> i \<Longrightarrow> pcs t j = pcs s j"
    and "\<And>j. j \<noteq> i \<Longrightarrow> sync_holder t = Some j \<longleftrightarrow> sync_holder s = Some j"
    and "gc_flush_offset t = gc_flush_offset s \<or> sync_holder s = Some i"
  shows "gc_inv L start t"
proof -
  have "gc_write_offset s \<le> gc_write_offset t"
    using gc_invD(1) [OF inv] assms(2,4) by (simp add: end_of_def)
  then have "pc_inv L start t j (pcs t j)" if "j \<noteq> i" for j
    using that assms(8,9) [OF that] assms(10)
    by (auto intro!: pc_inv_frame [OF gc_invD(4) [OF inv] assms(2) gc_invD(2) [OF inv] assms(3)])
  then show ?thesis using assms(4-7) unfolding gc_inv_def by metis
qed

lemma gc_step_inv:
  assumes "gc_step L s t" and inv: "gc_inv L start s"
  shows "gc_inv L start t"
proof -
  note d = gc_invD [OF inv]
  note update = gc_inv_update [OF inv, where new = "[]"]
  from assms(1) show ?thesis
  proof (cases rule: gc_step.cases)
    case (take_seq i)
    with d(4) [of i] d(1-3) show ?thesis by (intro update [of _ i]) (auto simp: set_pc_def)
  next
    case (insert i r my_end)
    have "placed L start (recs s @ [r]) r my_end"
      using placed_snoc [of L start "recs s" r] insert(3) d(1) by simp
    with insert d(4) [of i] d(1-3) show ?thesis
      by (intro gc_inv_update [OF inv, of _ "[r]" i]) (auto simp: set_pc_def end_of_append, simp add: end_of_def)
  next
    case (covered i)
    with d(4) [of i] d(1-3) show ?thesis by (intro update [of _ i]) (auto simp: set_pc_def)
  next
    case (uncovered i)
    with d(4) [of i] d(1-3) show ?thesis by (intro update [of _ i]) (auto simp: set_pc_def)
  next
    case (lock i)
    with d(4) [of i] d(1-3) show ?thesis by (intro update [of _ i]) (auto simp: set_pc_def)
  next
    case (covered_locked i)
    with d(4) [of i] d(1-3) show ?thesis by (intro update [of _ i]) (auto simp: set_pc_def)
  next
    case (load_target i r e)
    with d(4) [of i] d(1-3) placed_bound [of L start "recs s" r e] show ?thesis
      by (intro update [of _ i]) (auto simp: set_pc_def)
  next
    case (sync_data i)
    with d(4) [of i] d(1-3) end_of_mono [OF d(2), of L start "recs s"] show ?thesis
      by (intro update [of _ i]) (auto simp: set_pc_def)
  next
    case (store_flush i)
    with d(4) [of i] d(1-3) show ?thesis by (intro update [of _ i]) (auto simp: set_pc_def)
  qed
qed

lemma gc_reach_inv: "gc_reach L start s \<Longrightarrow> gc_inv L start s"
proof (induction rule: gc_reach.induct)
  case init
  show ?case by (simp add: gc_inv_def gc_init_def end_of_def)
next
  case (step s t)
  then show ?case by (blast intro: gc_step_inv)
qed

section \<open>Properties\<close>

text \<open>
  What a crash leaves: the superblock, the records an \<open>fdatasync\<close> has covered, and zeros.
\<close>

definition crash_image :: "wal_lib \<Rightarrow> nat \<Rightarrow> gc_state \<Rightarrow> bytes" where
  "crash_image L n s =
     superblock current_writer_version @ wal_body L (take (durable s) (recs s)) @ replicate n 0"

text \<open>
  C34: Durable on return, under any interleaving of any number of committing threads: once a
  thread's append has returned, its record is among those a crash keeps, and recovery of the
  crash image replays exactly the durable records after the last checkpoint.
\<close>

theorem group_commit_durable:
  assumes "lz4_ok L" and "gc_reach L 16 s" and "pcs s i = Returned r e"
    and "\<forall>r \<in> set (recs s). record_fits L r"
  shows "r \<in> set (take (durable s) (recs s))
     \<and> recover_wal L (Some (crash_image L n s))
       = Inr (after_checkpoint (take (durable s) (recs s)), max_seq_of 0 (take (durable s) (recs s)) + 1)"
proof -
  from assms(2) have inv: "gc_inv L 16 s" by (rule gc_reach_inv)
  have "placed L 16 (recs s) r e" "e \<le> end_of L 16 (recs s) (durable s)"
    using gc_invD(4) [OF inv, of i] assms(3) by auto
  with gc_invD(2) [OF inv] have "r \<in> set (take (durable s) (recs s))"
    by (intro placed_durable)
  moreover have "\<forall>r \<in> set (take (durable s) (recs s)). record_fits L r"
    using assms(4) by (auto dest: in_set_takeD)
  ultimately show ?thesis
    unfolding crash_image_def using wal_data_start_superblock
    by (auto intro!: recover_wal_body [OF assms(1)])
qed

text \<open>The program points between taking and releasing the flush lock.\<close>

fun in_sync :: "pc \<Rightarrow> bool" where
  "in_sync (HoldSync r e) = True"
| "in_sync (Loaded r e t) = True"
| "in_sync (Synced r e t) = True"
| "in_sync p = False"

text \<open>
  The flush offset never runs ahead of what is durable, never decreases, and at most one
  thread at a time is between taking and releasing the flush lock.
\<close>

theorem flush_offset_safe:
  assumes "gc_reach L start s" and "gc_step L s t"
  shows "gc_flush_offset s \<le> gc_flush_offset t
     \<and> gc_flush_offset t \<le> start + length (wal_body L (take (durable t) (recs t)))
     \<and> (in_sync (pcs t i) \<and> in_sync (pcs t j) \<longrightarrow> i = j)"
proof -
  have inv: "gc_inv L start s" "gc_inv L start t"
    using assms by (auto intro: gc_reach_inv gc_reach.step)
  have "gc_flush_offset s \<le> gc_flush_offset t"
    using assms(2)
  proof (cases rule: gc_step.cases)
    case (store_flush i)
    with gc_invD(4) [OF inv(1), of i] show ?thesis by (simp add: set_pc_def)
  qed (simp_all add: set_pc_def)
  moreover have "i = j" if "in_sync (pcs t i)" "in_sync (pcs t j)"
    using gc_invD(4) [OF inv(2), of i] gc_invD(4) [OF inv(2), of j] that
    by (cases "pcs t i"; cases "pcs t j") auto
  ultimately show ?thesis
    using gc_invD(3) [OF inv(2)] unfolding end_of_def by blast
qed

text \<open>
  C35: The protocol does not deadlock: in every reachable state, a thread that has started an
  append and not returned can make a step itself, or the thread that holds the flush lock can.
\<close>

theorem group_commit_progress:
  assumes "gc_reach L start s" and "pcs s i \<noteq> Idle" and "\<forall>r e. pcs s i \<noteq> Returned r e"
  shows "\<exists>t j. gc_step L s t \<and> pcs t j \<noteq> pcs s j \<and> (j = i \<or> sync_holder s = Some j)"
proof -
  have inv: "gc_inv L start s" using assms(1) by (rule gc_reach_inv)
  have holder: "\<exists>t. gc_step L s t \<and> pcs t j \<noteq> pcs s j" if "sync_holder s = Some j" for j
  proof -
    from gc_invD(4) [OF inv, of j] that consider
      r e where "pcs s j = HoldSync r e" | r e x where "pcs s j = Loaded r e x"
      | r e x where "pcs s j = Synced r e x" by (cases "pcs s j") auto
    then show ?thesis
    proof cases
      case (1 r e)
      then show ?thesis
        using gc_step.covered_locked [OF 1, of L] gc_step.load_target [OF 1, of L]
        by (cases "e \<le> gc_flush_offset s") (force simp: set_pc_def)+
    next
      case (2 r e x)
      then show ?thesis using gc_step.sync_data [OF 2, of L] by (force simp: set_pc_def)
    next
      case (3 r e x)
      then show ?thesis using gc_step.store_flush [OF 3, of L] by (force simp: set_pc_def)
    qed
  qed
  have own: "\<exists>t. gc_step L s t \<and> pcs t i \<noteq> pcs s i" if "sync_holder s \<noteq> Some i" "sync_holder s = None"
  proof -
    from gc_invD(4) [OF inv, of i] that(1) assms(2,3) consider
      r where "pcs s i = Numbered r" | r e where "pcs s i = Inserted r e" | r e where "pcs s i = AwaitSync r e"
      by (cases "pcs s i") auto
    then show ?thesis
    proof cases
      case (1 r)
      then show ?thesis using gc_step.insert [OF 1 refl, of L] by (force simp: set_pc_def)
    next
      case (2 r e)
      then show ?thesis
        using gc_step.covered [OF 2, of L] gc_step.uncovered [OF 2, of L]
        by (cases "e \<le> gc_flush_offset s") (force simp: set_pc_def)+
    next
      case (3 r e)
      then show ?thesis using gc_step.lock [OF 3 that(2), of L] by (force simp: set_pc_def)
    qed
  qed
  show ?thesis using holder own by (cases "sync_holder s") auto
qed

section \<open>Witnesses\<close>

text \<open>One thread commits while another has taken its sequence number.\<close>

definition demo_r0 :: wal_record where
  "demo_r0 = \<lparr>record_type = RowPut, seq_no = 1, payload = [4]\<rparr>"

definition demo_r1 :: wal_record where
  "demo_r1 = \<lparr>record_type = RowPut, seq_no = 2, payload = [6]\<rparr>"

definition demo_gc :: "pc \<Rightarrow> pc \<Rightarrow> gc_state" where
  "demo_gc p q = \<lparr>recs = [demo_r0], durable = 0, gc_next_seq = 3, gc_write_offset = 38,
     gc_flush_offset = 16, sync_holder = None, pcs = (\<lambda>_. Idle)(0 := p, 1 := q)\<rparr>"

lemma demo_len: "length (serialize demo_lib demo_r0) = 22"
  by (simp add: length_serialize demo_lib_def demo_r0_def)

lemma demo_gc_inserted: "gc_reach demo_lib 16 (demo_gc (Inserted demo_r0 38) (Numbered demo_r1))"
proof -
  let ?L = demo_lib
  define a where "a = set_pc 0 (Numbered demo_r0) ((gc_init 16)\<lparr>gc_next_seq := 2\<rparr>)"
  define b where "b = set_pc 1 (Numbered demo_r1) (a\<lparr>gc_next_seq := 3\<rparr>)"
  have "gc_step ?L (gc_init 16) a"
    using gc_step.take_seq [of "gc_init 16" 0 demo_r0 0 demo_r0 RowPut "[4]" ?L]
    by (simp add: a_def gc_init_def demo_r0_def)
  moreover have "gc_step ?L a b"
    using gc_step.take_seq [of a 1 demo_r0 0 demo_r1 RowPut "[6]" ?L]
    by (simp add: b_def a_def set_pc_def gc_init_def demo_r1_def)
  moreover have "gc_step ?L b (demo_gc (Inserted demo_r0 38) (Numbered demo_r1))"
    using gc_step.insert [of b 0 demo_r0 38 ?L]
    by (simp add: b_def a_def set_pc_def gc_init_def demo_len demo_gc_def fun_upd_twist)
  ultimately show ?thesis
    by (meson gc_reach.init gc_reach.step)
qed

lemma demo_gc_steps:
  "gc_step demo_lib (demo_gc (Inserted demo_r0 38) q) (demo_gc (AwaitSync demo_r0 38) q)"
  "gc_step demo_lib (demo_gc (AwaitSync demo_r0 38) q) ((demo_gc (HoldSync demo_r0 38) q)\<lparr>sync_holder := Some 0\<rparr>)"
  "gc_step demo_lib ((demo_gc (HoldSync demo_r0 38) q)\<lparr>sync_holder := Some 0\<rparr>)
     ((demo_gc (Loaded demo_r0 38 38) q)\<lparr>sync_holder := Some 0\<rparr>)"
  "gc_step demo_lib ((demo_gc (Loaded demo_r0 38 38) q)\<lparr>sync_holder := Some 0\<rparr>)
     ((demo_gc (Synced demo_r0 38 38) q)\<lparr>sync_holder := Some 0, durable := 1\<rparr>)"
  "gc_step demo_lib ((demo_gc (Synced demo_r0 38 38) q)\<lparr>sync_holder := Some 0, durable := 1\<rparr>)
     ((demo_gc (Returned demo_r0 38) q)\<lparr>durable := 1, gc_flush_offset := 38\<rparr>)"
  using gc_step.uncovered [of "demo_gc (Inserted demo_r0 38) q" 0 demo_r0 38 demo_lib]
    gc_step.lock [of "demo_gc (AwaitSync demo_r0 38) q" 0 demo_r0 38 demo_lib]
    gc_step.load_target [of "(demo_gc (HoldSync demo_r0 38) q)\<lparr>sync_holder := Some 0\<rparr>" 0 demo_r0 38 demo_lib]
    gc_step.sync_data [of "(demo_gc (Loaded demo_r0 38 38) q)\<lparr>sync_holder := Some 0\<rparr>" 0 demo_r0 38 38 demo_lib]
    gc_step.store_flush [of "(demo_gc (Synced demo_r0 38 38) q)\<lparr>sync_holder := Some 0, durable := 1\<rparr>" 0
      demo_r0 38 38 demo_lib]
  by (simp_all add: demo_gc_def set_pc_def fun_upd_twist)

definition demo_gc_synced :: gc_state where
  "demo_gc_synced = (demo_gc (Synced demo_r0 38 38) (Numbered demo_r1))\<lparr>sync_holder := Some 0, durable := 1\<rparr>"

definition demo_gc_done :: gc_state where
  "demo_gc_done = (demo_gc (Returned demo_r0 38) (Numbered demo_r1))\<lparr>durable := 1, gc_flush_offset := 38\<rparr>"

lemma demo_gc_reach: "gc_reach demo_lib 16 demo_gc_synced" "gc_step demo_lib demo_gc_synced demo_gc_done"
  "gc_reach demo_lib 16 demo_gc_done"
  using demo_gc_inserted demo_gc_steps [of "Numbered demo_r1"] unfolding demo_gc_synced_def demo_gc_done_def
  by (meson gc_reach.step)+

theorem group_commit_durable_witness:
  "gc_reach demo_lib 16 demo_gc_done \<and> pcs demo_gc_done 0 = Returned demo_r0 38
   \<and> recover_wal demo_lib (Some (crash_image demo_lib 5 demo_gc_done)) = Inr ([demo_r0], 2)"
proof -
  have "pcs demo_gc_done 0 = Returned demo_r0 38" by (simp add: demo_gc_done_def demo_gc_def)
  moreover have "\<forall>r \<in> set (recs demo_gc_done). record_fits demo_lib r"
    by (simp add: demo_gc_done_def demo_gc_def demo_r0_def demo_lib_fits)
  ultimately show ?thesis
    using group_commit_durable [OF demo_lib_ok demo_gc_reach(3), of 0 demo_r0 38 5] demo_gc_reach(3)
    by (simp add: demo_gc_done_def demo_gc_def after_checkpoint_def max_seq_of_def demo_r0_def)
qed

theorem flush_offset_safe_witness:
  "gc_reach demo_lib 16 demo_gc_synced \<and> gc_step demo_lib demo_gc_synced demo_gc_done
   \<and> gc_flush_offset demo_gc_synced \<le> gc_flush_offset demo_gc_done
   \<and> gc_flush_offset demo_gc_done
       \<le> 16 + length (wal_body demo_lib (take (durable demo_gc_done) (recs demo_gc_done)))"
  using flush_offset_safe [OF demo_gc_reach(1,2)] demo_gc_reach by blast

theorem group_commit_progress_witness:
  "gc_reach demo_lib 16 demo_gc_synced \<and> pcs demo_gc_synced 1 = Numbered demo_r1
   \<and> (\<exists>t j. gc_step demo_lib demo_gc_synced t \<and> pcs t j \<noteq> pcs demo_gc_synced j
        \<and> (j = 1 \<or> sync_holder demo_gc_synced = Some j))"
proof -
  have p: "pcs demo_gc_synced 1 = Numbered demo_r1" by (simp add: demo_gc_synced_def demo_gc_def)
  then show ?thesis using group_commit_progress [OF demo_gc_reach(1), of 1] demo_gc_reach(1) by simp
qed

end
