(* ===== verification/CompactionGc.thy ===== *)
theory CompactionGc
  imports Prelude "HOL-Library.List_Lexorder"
begin

text \<open>
  The version garbage collection of \<open>Engine::compact_inner\<close> (\<open>engine.rs\<close>): of the versions of a
  key read from all input files the newest one is kept, and the newest one at or before every
  pinned timestamp; a key whose newest version is a tombstone that nothing else needs is
  dropped.
\<close>

section \<open>Operations\<close>

type_synonym version_list = "(u64 \<times> bytes option) list"
type_synonym survivor_row = "bytes \<times> u64 \<times> bytes option"

text \<open>\<open>dedup_by_key\<close> keeps the first of consecutive equal timestamps.\<close>

fun dedup_by_ts :: "version_list \<Rightarrow> version_list" where
  "dedup_by_ts [] = []"
| "dedup_by_ts [x] = [x]"
| "dedup_by_ts (x # y # ys) = (if fst y = fst x then dedup_by_ts (x # ys) else x # dedup_by_ts (y # ys))"

definition rposition :: "('a \<Rightarrow> bool) \<Rightarrow> 'a list \<Rightarrow> nat option" where
  "rposition P xs = find (\<lambda>i. P (xs ! i)) (rev [0..<length xs])"

definition gc_keep :: "u64 list \<Rightarrow> version_list \<Rightarrow> bool list" where
  "gc_keep pins vers =
     fold (\<lambda>p keep. case rposition (\<lambda>(ts, _). ts \<le> p) vers of Some idx \<Rightarrow> keep[idx := True] | None \<Rightarrow> keep) pins
       ((replicate (length vers) False)[length vers - 1 := True])"

text \<open>The kept versions of a key with their number and that of the dropped ones; \<open>None\<close> for a
  key that is dropped.\<close>

record gc_result =
  gc_kept :: version_list
  gc_latest :: u64

definition gc_key :: "u64 list \<Rightarrow> version_list \<Rightarrow> gc_result option" where
  "gc_key pins vers0 =
     (let vers = dedup_by_ts (sort_key fst vers0);
          n = length vers;
          latest_idx = n - 1;
          keep = gc_keep pins vers;
          latest_is_tombstone = (snd (vers ! latest_idx) = None);
          only_latest_kept = (\<forall>i < n. \<not> keep ! i \<or> i = latest_idx)
      in if latest_is_tombstone \<and> only_latest_kept then None
         else Some \<lparr>gc_kept = map fst (filter snd (zip vers keep)), gc_latest = fst (vers ! latest_idx)\<rparr>)"

record mvcc_gc =
  survivors :: "survivor_row list"
  latest_ts :: "bytes \<rightharpoonup> u64"
  keys_retained :: nat
  versions_gc_dropped :: nat

definition gc_collect :: "u64 list \<Rightarrow> bytes \<times> version_list \<Rightarrow> mvcc_gc \<Rightarrow> mvcc_gc" where
  "gc_collect pins kv st =
     (let n = length (dedup_by_ts (sort_key fst (snd kv)))
      in case gc_key pins (snd kv) of
           None \<Rightarrow> st\<lparr>versions_gc_dropped := versions_gc_dropped st + n\<rparr>
         | Some g \<Rightarrow>
           st\<lparr>keys_retained := keys_retained st + 1, latest_ts := (latest_ts st)(fst kv \<mapsto> gc_latest g),
              survivors := survivors st @ map (\<lambda>(ts, v). (fst kv, ts, v)) (gc_kept g),
              versions_gc_dropped := versions_gc_dropped st + (n - length (gc_kept g))\<rparr>)"

definition gc_all :: "u64 list \<Rightarrow> (bytes \<times> version_list) list \<Rightarrow> mvcc_gc" where
  "gc_all pins versions =
     fold (gc_collect pins) versions \<lparr>survivors = [], latest_ts = Map.empty, keys_retained = 0, versions_gc_dropped = 0\<rparr>"

section \<open>Positions and kept versions\<close>

lemma rposition_Some:
  "rposition P xs = Some i \<longleftrightarrow> i < length xs \<and> P (xs ! i) \<and> (\<forall>j < length xs. i < j \<longrightarrow> \<not> P (xs ! j))"
proof (induction xs rule: rev_induct)
  case Nil
  then show ?case by (simp add: rposition_def)
next
  case (snoc x xs)
  have "rposition P (xs @ [x]) = (if P x then Some (length xs) else rposition P xs)"
  proof -
    have "find (\<lambda>i. P ((xs @ [x]) ! i)) (rev [0..<length xs]) = find (\<lambda>i. P (xs ! i)) (rev [0..<length xs])"
      by (rule find_cong) (auto simp: nth_append)
    then show ?thesis by (simp add: rposition_def)
  qed
  then show ?case using snoc by (auto simp: nth_append less_Suc_eq split: if_splits)
qed

lemma rposition_None: "rposition P xs = None \<longleftrightarrow> (\<forall>x \<in> set xs. \<not> P x)"
  by (auto simp: rposition_def find_None_iff) (metis in_set_conv_nth)

lemma length_gc_keep [simp]: "length (gc_keep pins vers) = length vers"
proof -
  have "length (fold (\<lambda>p keep. case rposition (\<lambda>(ts, _). ts \<le> p) vers of Some idx \<Rightarrow> keep[idx := True] | None \<Rightarrow> keep) pins k)
      = length k" for k
    by (induction pins arbitrary: k) (auto split: option.splits)
  then show ?thesis by (simp add: gc_keep_def)
qed

lemma gc_keep_nth:
  assumes "i < length vers"
  shows "gc_keep pins vers ! i \<longleftrightarrow> i = length vers - 1 \<or> (\<exists>p \<in> set pins. rposition (\<lambda>(ts, _). ts \<le> p) vers = Some i)"
proof -
  have "fold (\<lambda>p keep. case rposition (\<lambda>(ts, _). ts \<le> p) vers of Some idx \<Rightarrow> keep[idx := True] | None \<Rightarrow> keep) pins k ! i
      \<longleftrightarrow> k ! i \<or> (\<exists>p \<in> set pins. rposition (\<lambda>(ts, _). ts \<le> p) vers = Some i)" if "length k = length vers" for k
    using that
  proof (induction pins arbitrary: k)
    case (Cons p pins)
    show ?case
    proof (cases "rposition (\<lambda>(ts, _). ts \<le> p) vers")
      case None
      then show ?thesis using Cons by simp
    next
      case (Some a)
      then have "a < length k" using Cons.prems rposition_Some by fastforce
      then have "k[a := True] ! i \<longleftrightarrow> k ! i \<or> a = i" by (auto simp: nth_list_update)
      then show ?thesis using Some Cons.prems Cons.IH [of "k[a := True]"] by auto
    qed
  qed simp
  then show ?thesis using assms by (auto simp: gc_keep_def nth_list_update)
qed

lemma dedup_distinct: "distinct (map fst vers) \<Longrightarrow> dedup_by_ts vers = vers"
  by (induction vers rule: dedup_by_ts.induct) auto

lemma sorted_versions:
  assumes "distinct (map fst (vers :: version_list))"
  shows "dedup_by_ts (sort_key fst vers) = sort_key fst vers" "sorted_wrt (<) (map fst (sort_key fst vers))"
    "set (sort_key fst vers) = set vers"
proof -
  have "distinct (map fst (sort_key fst vers))"
    using assms by (simp add: distinct_map)
  then show "dedup_by_ts (sort_key fst vers) = sort_key fst vers" "sorted_wrt (<) (map fst (sort_key fst vers))"
    "set (sort_key fst vers) = set vers"
    by (simp_all add: dedup_distinct strict_sorted_iff)
qed

section \<open>What survives\<close>

text \<open>The value that a read at a timestamp sees.\<close>

definition sees :: "version_list \<Rightarrow> u64 \<Rightarrow> bytes \<Rightarrow> bool" where
  "sees vers t v \<longleftrightarrow> (\<exists>ts. (ts, Some v) \<in> set vers \<and> ts \<le> t \<and> (\<forall>(ts', v') \<in> set vers. ts' \<le> t \<longrightarrow> ts' \<le> ts))"

definition newest_at :: "version_list \<Rightarrow> u64 \<Rightarrow> u64 \<times> bytes option \<Rightarrow> bool" where
  "newest_at vers t e \<longleftrightarrow> e \<in> set vers \<and> fst e \<le> t \<and> (\<forall>e' \<in> set vers. fst e' \<le> t \<longrightarrow> fst e' \<le> fst e)"

definition newest :: "version_list \<Rightarrow> u64 \<times> bytes option \<Rightarrow> bool" where
  "newest vers e \<longleftrightarrow> e \<in> set vers \<and> (\<forall>e' \<in> set vers. fst e' \<le> fst e)"

lemma rposition_newest:
  assumes "sorted_wrt (<) (map fst (vers :: version_list))" and i: "i < length vers"
  shows "rposition (\<lambda>(ts, _). ts \<le> p) vers = Some i \<longleftrightarrow> newest_at vers p (vers ! i)"
proof -
  have mono: "a < b \<Longrightarrow> b < length vers \<Longrightarrow> fst (vers ! a) < fst (vers ! b)" for a b
    using sorted_wrt_nth_less [OF assms(1), of a b] by simp
  show ?thesis
  proof
    assume r: "rposition (\<lambda>(ts, _). ts \<le> p) vers = Some i"
    have "fst e \<le> fst (vers ! i)" if "e \<in> set vers" "fst e \<le> p" for e
    proof -
      obtain j where j: "j < length vers" "e = vers ! j" using \<open>e \<in> set vers\<close> by (auto simp: in_set_conv_nth)
      have "\<not> i < j" using r j that(2) by (auto simp: rposition_Some case_prod_beta)
      then show ?thesis using mono [of j i] i j by (cases "j = i") auto
    qed
    then show "newest_at vers p (vers ! i)" using r by (auto simp: newest_at_def rposition_Some case_prod_beta)
  next
    assume n: "newest_at vers p (vers ! i)"
    have "\<not> fst (vers ! j) \<le> p" if "j < length vers" "i < j" for j
      using that n mono [of i j] by (force simp: newest_at_def)
    then show "rposition (\<lambda>(ts, _). ts \<le> p) vers = Some i" using n i by (simp add: rposition_Some newest_at_def case_prod_beta)
  qed
qed

lemma last_newest:
  assumes "sorted_wrt (<) (map fst (vers :: version_list))" and "i < length vers"
  shows "i = length vers - 1 \<longleftrightarrow> newest vers (vers ! i)"
proof -
  have mono: "a < b \<Longrightarrow> b < length vers \<Longrightarrow> fst (vers ! a) < fst (vers ! b)" for a b
    using sorted_wrt_nth_less [OF assms(1), of a b] by simp
  show ?thesis
  proof
    assume "i = length vers - 1"
    then have "j < length vers \<Longrightarrow> fst (vers ! j) \<le> fst (vers ! i)" for j
      using mono [of j i] assms(2) by (cases "j = i") (auto simp: less_imp_le)
    then show "newest vers (vers ! i)" using assms(2) by (simp add: newest_def) (metis in_set_conv_nth)
  next
    assume n: "newest vers (vers ! i)"
    show "i = length vers - 1"
    proof (rule ccontr)
      assume "i \<noteq> length vers - 1"
      then have "i < length vers - 1" using assms(2) by simp
      then have "fst (vers ! i) < fst (vers ! (length vers - 1))" "vers ! (length vers - 1) \<in> set vers"
        using mono [of i "length vers - 1"] assms(2) by auto
      then show False using n by (force simp: newest_def)
    qed
  qed
qed

lemma newest_sort: "newest (sort_key fst vers) = newest vers" "newest_at (sort_key fst vers) p = newest_at vers p"
  by (simp_all add: fun_eq_iff newest_def newest_at_def)

lemma zip_filter_set: "length ks = length xs \<Longrightarrow> x \<in> set (map fst (filter snd (zip xs ks))) \<longleftrightarrow> (\<exists>i < length xs. x = xs ! i \<and> ks ! i)"
  by (force simp: set_zip)

text \<open>The survivors of a key: its newest version and those a pin needs.\<close>

lemma gc_key_kept:
  assumes d: "distinct (map fst vers)" and "vers \<noteq> []"
  shows "gc_key pins vers = None \<longleftrightarrow> (\<exists>e. newest vers e \<and> snd e = None \<and> (\<forall>p \<in> set pins. \<forall>e'. newest_at vers p e' \<longrightarrow> e' = e))"
    and "gc_key pins vers = Some g \<Longrightarrow> e \<in> set (gc_kept g) \<longleftrightarrow> newest vers e \<or> (\<exists>p \<in> set pins. newest_at vers p e)"
    and "gc_key pins vers = Some g \<Longrightarrow> newest vers e \<Longrightarrow> gc_latest g = fst e"
    and "gc_key pins vers = Some g \<Longrightarrow> sorted_wrt (<) (map fst (gc_kept g))"
proof -
  define vs where "vs = sort_key fst vers"
  note sv = sorted_versions [OF d, folded vs_def]
  have ne: "vs \<noteq> []" using assms(2) sv(3) by auto
  let ?n = "length vs"
  have last: "?n - 1 < ?n" using ne by simp
  have keep: "gc_keep pins vs ! i \<longleftrightarrow> newest vers (vs ! i) \<or> (\<exists>p \<in> set pins. newest_at vers p (vs ! i))" if "i < ?n" for i
    using gc_keep_nth [OF that, of pins] rposition_newest [OF sv(2) that] last_newest [OF sv(2) that]
    by (simp add: newest_sort [of vers, folded vs_def])
  have nl: "newest vers (vs ! (?n - 1))" using last_newest [OF sv(2) last] by (simp add: newest_sort [of vers, folded vs_def])
  have uniq: "newest vers e \<longleftrightarrow> e = vs ! (?n - 1)" for e
  proof
    assume e: "newest vers e"
    then obtain i where i: "i < ?n" "e = vs ! i" using sv(3) by (metis in_set_conv_nth newest_def)
    have "i = ?n - 1" using last_newest [OF sv(2) i(1)] e i(2) by (simp add: newest_sort [of vers, folded vs_def])
    then show "e = vs ! (?n - 1)" by (simp only: i(2))
  qed (use nl in simp)
  have gk: "gc_key pins vers = (if snd (vs ! (?n - 1)) = None \<and> (\<forall>i < ?n. \<not> gc_keep pins vs ! i \<or> i = ?n - 1) then None
      else Some \<lparr>gc_kept = map fst (filter snd (zip vs (gc_keep pins vs))), gc_latest = fst (vs ! (?n - 1))\<rparr>)"
    by (simp add: gc_key_def Let_def sv(1) vs_def [symmetric])
  have dist: "distinct vs" using d by (simp add: vs_def distinct_map)
  have only: "(\<forall>i < ?n. \<not> gc_keep pins vs ! i \<or> i = ?n - 1) \<longleftrightarrow> (\<forall>p \<in> set pins. \<forall>e'. newest_at vers p e' \<longrightarrow> e' = vs ! (?n - 1))"
  proof
    assume l: "\<forall>i < ?n. \<not> gc_keep pins vs ! i \<or> i = ?n - 1"
    show "\<forall>p \<in> set pins. \<forall>e'. newest_at vers p e' \<longrightarrow> e' = vs ! (?n - 1)"
    proof (intro ballI allI impI)
      fix p e' assume p: "p \<in> set pins" "newest_at vers p e'"
      then obtain i where "i < ?n" "e' = vs ! i" using sv(3) by (metis in_set_conv_nth newest_at_def)
      then show "e' = vs ! (?n - 1)" using l keep p by metis
    qed
  next
    assume "\<forall>p \<in> set pins. \<forall>e'. newest_at vers p e' \<longrightarrow> e' = vs ! (?n - 1)"
    then show "\<forall>i < ?n. \<not> gc_keep pins vs ! i \<or> i = ?n - 1"
      using keep uniq dist last by (metis nth_eq_iff_index_eq)
  qed
  show "gc_key pins vers = None \<longleftrightarrow> (\<exists>e. newest vers e \<and> snd e = None \<and> (\<forall>p \<in> set pins. \<forall>e'. newest_at vers p e' \<longrightarrow> e' = e))"
    unfolding gk uniq using only by simp
  show "e \<in> set (gc_kept g) \<longleftrightarrow> newest vers e \<or> (\<exists>p \<in> set pins. newest_at vers p e)" if g: "gc_key pins vers = Some g"
  proof -
    have "gc_kept g = map fst (filter snd (zip vs (gc_keep pins vs)))" using g by (auto simp: gk split: if_splits)
    then have "e \<in> set (gc_kept g) \<longleftrightarrow> (\<exists>i < ?n. e = vs ! i \<and> gc_keep pins vs ! i)" by (simp add: zip_filter_set del: set_map)
    also have "\<dots> \<longleftrightarrow> newest vers e \<or> (\<exists>p \<in> set pins. newest_at vers p e)"
      using keep sv(3) by (metis in_set_conv_nth newest_at_def newest_def)
    finally show ?thesis .
  qed
  show "newest vers e \<Longrightarrow> gc_latest g = fst e" if "gc_key pins vers = Some g"
    using that by (auto simp: gk uniq split: if_splits)
  show "sorted_wrt (<) (map fst (gc_kept g))" if g: "gc_key pins vers = Some g"
  proof -
    have "sorted_wrt (<) (map fst (map fst (filter snd (zip xs ks))))" if "sorted_wrt (<) (map fst xs)"
      for xs :: version_list and ks
      using that
    proof (induction xs arbitrary: ks)
      case (Cons x xs)
      then show ?case by (cases ks) (auto dest!: set_zip_leftD)
    qed simp
    then show ?thesis using g sv(2) by (auto simp: gk split: if_splits)
  qed
qed

section \<open>Reads at pinned timestamps\<close>

lemma sees_newest_at: "sees vers t v \<longleftrightarrow> (\<exists>ts. newest_at vers t (ts, Some v))"
  by (auto simp: sees_def newest_at_def case_prod_beta)

lemma newest_at_exists:
  assumes "e \<in> set vers" and "fst e \<le> p"
  shows "\<exists>m. newest_at vers p m"
proof -
  let ?S = "fst ` {x \<in> set vers. fst x \<le> p}"
  have fin: "finite ?S" "?S \<noteq> {}" using assms by (simp, blast)
  then obtain m where m: "m \<in> set vers" "fst m \<le> p" "fst m = Max ?S" using Max_in [OF fin] by fastforce
  have "fst x \<le> fst m" if "x \<in> set vers" "fst x \<le> p" for x
    unfolding m(3) using that fin(1) by (intro Max_ge) auto
  then show ?thesis using m(1,2) unfolding newest_at_def by blast
qed

text \<open>A timestamp that the collector respects: a pin, or one past every version.\<close>

definition respected :: "u64 list \<Rightarrow> version_list \<Rightarrow> u64 \<Rightarrow> bool" where
  "respected pins vers p \<longleftrightarrow> p \<in> set pins \<or> (\<forall>e \<in> set vers. fst e \<le> p)"

lemma gc_key_sees:
  assumes d: "distinct (map fst vers)" and ne: "vers \<noteq> []" and p: "respected pins vers p"
  shows "sees vers p v \<longleftrightarrow> (\<exists>g. gc_key pins vers = Some g \<and> sees (gc_kept g) p v)"
proof -
  note kept = gc_key_kept [OF d ne]
  have resp: "newest_at vers p e \<Longrightarrow> newest vers e \<or> (\<exists>p \<in> set pins. newest_at vers p e)" for e
    using p by (auto simp: respected_def newest_def newest_at_def)
  show ?thesis
  proof (cases "gc_key pins vers")
    case None
    then obtain e where e: "newest vers e" "snd e = None" "\<forall>p \<in> set pins. \<forall>e'. newest_at vers p e' \<longrightarrow> e' = e"
      using kept(1) by blast
    have "\<not> newest_at vers p (ts, Some v)" for ts
    proof
      assume n: "newest_at vers p (ts, Some v)"
      then have "newest vers (ts, Some v) \<or> (ts, Some v) = e" using resp e(3) by metis
      then have "(ts, Some v) = e"
      proof
        assume "newest vers (ts, Some v)"
        then have "(ts, Some v) \<in> set vers" "e \<in> set vers" "fst e \<le> ts" "ts \<le> fst e" using e(1) by (auto simp: newest_def)
        then have "ts = fst e" "(ts, Some v) \<in> set vers" "e \<in> set vers" by auto
        then show ?thesis using d by (metis eq_key_imp_eq_value prod.collapse)
      qed
      then show False using e(2) by auto
    qed
    then show ?thesis using None by (simp add: sees_newest_at)
  next
    case (Some g)
    have sub: "set (gc_kept g) \<subseteq> set vers" using kept(2) [OF Some] by (auto simp: newest_def newest_at_def)
    have "newest_at vers p e \<longleftrightarrow> newest_at (gc_kept g) p e" for e
    proof
      assume "newest_at vers p e"
      moreover from this have "e \<in> set (gc_kept g)" using resp kept(2) [OF Some] by blast
      ultimately show "newest_at (gc_kept g) p e" using sub by (auto simp: newest_at_def)
    next
      assume n: "newest_at (gc_kept g) p e"
      then have e: "e \<in> set vers" "fst e \<le> p" using sub by (auto simp: newest_at_def)
      then obtain m where m: "newest_at vers p m" using newest_at_exists by blast
      then have "m \<in> set (gc_kept g)" using resp kept(2) [OF Some] by blast
      then have "fst m \<le> fst e" using n m by (auto simp: newest_at_def)
      then show "newest_at vers p e" using e m by (fastforce simp: newest_at_def)
    qed
    then show ?thesis using Some by (simp add: sees_newest_at)
  qed
qed

text \<open>All keys.\<close>

definition gc_rows :: "u64 list \<Rightarrow> bytes \<times> version_list \<Rightarrow> survivor_row list" where
  "gc_rows pins kv = (case gc_key pins (snd kv) of None \<Rightarrow> [] | Some g \<Rightarrow> map (\<lambda>(ts, v). (fst kv, ts, v)) (gc_kept g))"

lemma gc_all_survivors: "survivors (gc_all pins versions) = concat (map (gc_rows pins) versions)"
proof -
  have "survivors (fold (gc_collect pins) versions st) = survivors st @ concat (map (gc_rows pins) versions)" for st
    by (induction versions arbitrary: st) (auto simp: gc_collect_def gc_rows_def Let_def split: option.splits)
  then show ?thesis by (simp add: gc_all_def)
qed

lemma gc_collect_latest:
  "latest_ts (gc_collect pins kv st) = (case gc_key pins (snd kv) of None \<Rightarrow> latest_ts st | Some g \<Rightarrow> (latest_ts st)(fst kv \<mapsto> gc_latest g))"
  by (simp add: gc_collect_def Let_def split: option.split)

lemma gc_all_latest:
  assumes "distinct (map fst versions)"
  shows "latest_ts (gc_all pins versions) k = Option.bind (map_of versions k) (\<lambda>vers. map_option gc_latest (gc_key pins vers))"
proof -
  have "latest_ts (fold (gc_collect pins) versions st) k
      = (case Option.bind (map_of versions k) (gc_key pins) of None \<Rightarrow> latest_ts st k | Some g \<Rightarrow> Some (gc_latest g))" for st
    using assms
  proof (induction versions arbitrary: st)
    case (Cons kv versions)
    have "map_of versions (fst kv) = None" using Cons.prems by (simp add: map_of_eq_None_iff)
    then show ?case
      using Cons.prems Cons.IH [of "gc_collect pins kv st"]
      by (cases kv; cases "k = fst kv"; cases "gc_key pins (snd kv)") (simp_all add: gc_collect_latest split: option.split)
  qed simp
  then show ?thesis by (cases "map_of versions k") (auto simp: gc_all_def split: option.split)
qed

definition key_versions :: "bytes \<Rightarrow> survivor_row list \<Rightarrow> version_list" where
  "key_versions k rows = map snd (filter (\<lambda>row. fst row = k) rows)"

lemma key_versions_gc:
  assumes "distinct (map fst versions)" and "(k, vers) \<in> set versions"
  shows "key_versions k (concat (map (gc_rows pins) versions)) = (case gc_key pins vers of None \<Rightarrow> [] | Some g \<Rightarrow> gc_kept g)"
  using assms
proof (induction versions)
  case (Cons kv versions)
  have other: "filter (\<lambda>row. fst row = k) (gc_rows pins x) = []" if "fst x \<noteq> k" for x
    using that by (auto simp: gc_rows_def filter_empty_conv split: option.splits)
  have own: "map snd (filter (\<lambda>row. fst row = k) (gc_rows pins x)) = (case gc_key pins (snd x) of None \<Rightarrow> [] | Some g \<Rightarrow> gc_kept g)"
    if "fst x = k" for x
    using that by (auto simp: gc_rows_def filter_map comp_def case_prod_beta split: option.splits)
  show ?case
  proof (cases "kv = (k, vers)")
    case True
    then have "\<forall>x \<in> set versions. fst x \<noteq> k" using Cons.prems(1) by force
    then have "filter (\<lambda>row. fst row = k) (concat (map (gc_rows pins) versions)) = []"
      using other by (auto simp: filter_concat)
    then show ?thesis using own [of kv] True by (simp add: key_versions_def)
  next
    case False
    then have "(k, vers) \<in> set versions" using Cons.prems(2) by simp
    then have "k \<in> set (map fst versions)" by force
    then have "fst kv \<noteq> k" using Cons.prems(1) by auto
    then show ?thesis using False Cons other [of kv] by (simp add: key_versions_def)
  qed
qed simp

text \<open>
  C19: Garbage collection keeps what can be read. For every key and every pinned timestamp, and
  for every timestamp past all versions of the key, a read of the survivors sees the value
  that a read of all versions sees, and nothing if that sees nothing. And no more is kept than
  needed: a survivor is the newest version of its key or the newest one at or before a pin.
\<close>

theorem gc_preserves_reads:
  assumes keys: "distinct (map fst versions)" and k: "(k, vers) \<in> set versions" and d: "distinct (map fst vers)" "vers \<noteq> []"
  shows "(respected pins vers p \<longrightarrow> (\<forall>v. sees (key_versions k (survivors (gc_all pins versions))) p v \<longleftrightarrow> sees vers p v))
    \<and> (\<forall>e \<in> set (key_versions k (survivors (gc_all pins versions))). newest vers e \<or> (\<exists>p \<in> set pins. newest_at vers p e))"
proof -
  have kv: "key_versions k (survivors (gc_all pins versions)) = (case gc_key pins vers of None \<Rightarrow> [] | Some g \<Rightarrow> gc_kept g)"
    by (simp add: gc_all_survivors key_versions_gc [OF keys k])
  show ?thesis
  proof (cases "gc_key pins vers")
    case None
    then show ?thesis unfolding kv using gc_key_sees [OF d, of pins p] by (simp add: sees_def)
  next
    case (Some g)
    then show ?thesis unfolding kv using gc_key_sees [OF d, of pins p] gc_key_kept(2) [OF d, of pins] by simp
  qed
qed

definition demo_versions :: "(bytes \<times> version_list) list" where
  "demo_versions = [([1], [(5, Some [50]), (2, Some [20]), (9, None)]), ([2], [(7, None), (3, Some [30])])]"

theorem gc_preserves_reads_witness:
  "sees (key_versions [1] (survivors (gc_all [3] demo_versions))) 3 [20]
     \<and> (5, Some [50]) \<notin> set (key_versions [1] (survivors (gc_all [3] demo_versions)))"
proof -
  have s: "sees [(5, Some [50]), (2, Some [20]), (9, None)] 3 [20]"
    by (simp add: sees_def word_le_nat_alt)
  have n: "\<not> newest [(5, Some [50]), (2, Some [20]), (9, None)] (5, Some [50])"
    "\<not> newest_at [(5, Some [50]), (2, Some [20]), (9, None)] 3 (5, Some [50])"
    by (simp_all add: newest_def newest_at_def word_le_nat_alt)
  have "(respected [3] [(5, Some [50]), (2, Some [20]), (9, None)] 3 \<longrightarrow>
      (\<forall>v. sees (key_versions [1] (survivors (gc_all [3] demo_versions))) 3 v \<longleftrightarrow> sees [(5, Some [50]), (2, Some [20]), (9, None)] 3 v))
    \<and> (\<forall>e \<in> set (key_versions [1] (survivors (gc_all [3] demo_versions))).
         newest [(5, Some [50]), (2, Some [20]), (9, None)] e \<or> (\<exists>p \<in> set [3]. newest_at [(5, Some [50]), (2, Some [20]), (9, None)] p e))"
    by (rule gc_preserves_reads) (simp_all add: demo_versions_def)
  then show ?thesis using s n by (auto simp: respected_def)
qed

end
