(* ===== verification/OrdMap.thy ===== *)
theory OrdMap
  imports Prelude "HOL-Library.List_Lexorder"
begin

text \<open>
  An ordered map as the sources use one (\<open>crossbeam_skiplist::SkipMap\<close>): keys in their
  order, one value per key, insertion that replaces, iteration from a lower bound. The
  container is the list of its entries in key order; the interface its clients rely on is
  the locale \<open>ordered_map\<close>, interpreted on that list. Byte strings are ordered
  lexicographically, as Rust orders \<open>Vec<u8>\<close>.
\<close>

fun om_get :: "('k \<times> 'v) list \<Rightarrow> 'k \<Rightarrow> 'v option" where
  "om_get [] k = None"
| "om_get ((k', v) # m) k = (if k' = k then Some v else om_get m k)"

fun om_insert :: "'k::linorder \<Rightarrow> 'v \<Rightarrow> ('k \<times> 'v) list \<Rightarrow> ('k \<times> 'v) list" where
  "om_insert k v [] = [(k, v)]"
| "om_insert k v ((k', v') # m) =
     (if k < k' then (k, v) # (k', v') # m
      else if k = k' then (k, v) # m
      else (k', v') # om_insert k v m)"

definition om_invar :: "('k::linorder \<times> 'v) list \<Rightarrow> bool" where
  "om_invar m \<longleftrightarrow> sorted_wrt (<) (map fst m)"

text \<open>\<open>range(lo..)\<close>: the entries from the first key not below the bound.\<close>

definition om_range_from :: "'k::linorder \<Rightarrow> ('k \<times> 'v) list \<Rightarrow> ('k \<times> 'v) list" where
  "om_range_from lo m = dropWhile (\<lambda>(k, v). k < lo) m"

text \<open>The laws a client of an ordered map uses.\<close>

locale ordered_map =
  fixes get :: "'m \<Rightarrow> 'k::linorder \<Rightarrow> 'v option"
    and ins :: "'k \<Rightarrow> 'v \<Rightarrow> 'm \<Rightarrow> 'm"
    and entries :: "'m \<Rightarrow> ('k \<times> 'v) list"
    and empty :: 'm
    and invar :: "'m \<Rightarrow> bool"
  assumes invar_empty: "invar empty"
    and get_empty: "get empty k = None"
    and invar_ins: "invar m \<Longrightarrow> invar (ins k v m)"
    and get_ins: "invar m \<Longrightarrow> get (ins k v m) k' = (if k' = k then Some v else get m k')"
    and get_entries: "invar m \<Longrightarrow> get m k = map_of (entries m) k"
    and entries_sorted: "invar m \<Longrightarrow> sorted_wrt (<) (map fst (entries m))"
begin

lemma entries_distinct: "invar m \<Longrightarrow> distinct (map fst (entries m))"
  using entries_sorted [of m] by (simp add: strict_sorted_iff)

lemma entry_iff: "invar m \<Longrightarrow> (k, v) \<in> set (entries m) \<longleftrightarrow> get m k = Some v"
  by (simp add: get_entries entries_distinct)

lemma set_entries_ins:
  "invar m \<Longrightarrow> set (entries (ins k v m)) = {(k', v') \<in> set (entries m). k' \<noteq> k} \<union> {(k, v)}"
  by (auto simp: entry_iff invar_ins get_ins split: if_splits)

end

lemma om_get_map_of: "om_get m k = map_of m k"
  by (induction m k rule: om_get.induct) auto

lemma set_om_insert_keys: "set (map fst (om_insert k v m)) = insert k (set (map fst m))"
  by (induction k v m rule: om_insert.induct) auto

lemma om_invar_insert: "om_invar m \<Longrightarrow> om_invar (om_insert k v m)"
proof (induction k v m rule: om_insert.induct)
  case (1 k v)
  then show ?case by (simp add: om_invar_def)
next
  case (2 k v k' v' m)
  then show ?case
    using set_om_insert_keys [of k v m] by (force simp: om_invar_def)
qed

lemma om_get_insert:
  "om_invar m \<Longrightarrow> om_get (om_insert k v m) k' = (if k' = k then Some v else om_get m k')"
proof (induction k v m rule: om_insert.induct)
  case (1 k v)
  then show ?case by simp
next
  case (2 k v k2 v2 m)
  have "om_get m k = None" if "k < k2"
    using that 2(2) by (force simp: om_get_map_of om_invar_def map_of_eq_None_iff)
  with 2 show ?case by (auto simp: om_invar_def)
qed

interpretation om: ordered_map om_get om_insert "\<lambda>m. m" "[]" om_invar
proof unfold_locales
  show "om_invar []" by (simp add: om_invar_def)
qed (simp_all add: om_invar_insert om_get_insert, simp_all add: om_get_map_of om_invar_def)

lemma om_range_from_filter:
  "om_invar m \<Longrightarrow> om_range_from lo m = filter (\<lambda>(k, v). lo \<le> k) m"
proof (induction m)
  case Nil
  then show ?case by (simp add: om_range_from_def)
next
  case (Cons e m)
  obtain k v where e: "e = (k, v)" by (cases e)
  have rest: "\<forall>x \<in> set m. k < fst x" using Cons.prems by (auto simp: om_invar_def e)
  show ?case
  proof (cases "k < lo")
    case True
    then show ?thesis using Cons by (simp add: om_range_from_def om_invar_def e)
  next
    case False
    then have "\<forall>x \<in> set m. lo \<le> fst x" using rest by force
    then have "filter (\<lambda>(k, v). lo \<le> k) m = m" by (simp add: filter_id_conv case_prod_beta)
    then show ?thesis using False by (simp add: om_range_from_def e)
  qed
qed

section \<open>Prefixes and the lexicographic order\<close>

lemma prefix_imp_le: "prefix p k \<Longrightarrow> p \<le> (k :: bytes)"
proof (induction p arbitrary: k)
  case Nil
  then show ?case by simp
next
  case (Cons a p)
  then show ?case by (cases k) auto
qed

text \<open>Past the keys with a prefix, no later key has it.\<close>

lemma prefix_gap:
  "p \<le> k \<Longrightarrow> \<not> prefix p k \<Longrightarrow> k \<le> k' \<Longrightarrow> \<not> prefix p (k' :: bytes)"
proof (induction p arbitrary: k k')
  case Nil
  then show ?case by simp
next
  case (Cons a p)
  from Cons.prems(1) obtain b ks where k: "k = b # ks" by (cases k) auto
  with Cons.prems(3) obtain c ks' where k': "k' = c # ks'" by (cases k') auto
  from Cons.prems show ?case unfolding k k' using Cons.IH [of ks ks'] by auto
qed

lemma takeWhile_prefix_filter:
  assumes "om_invar m" and "\<forall>(k, v) \<in> set m. (p :: bytes) \<le> k"
  shows "takeWhile (\<lambda>(k, v). prefix p k) m = filter (\<lambda>(k, v). prefix p k) m"
  using assms
proof (induction m)
  case Nil
  then show ?case by simp
next
  case (Cons e m)
  obtain k v where e: "e = (k, v)" by (cases e)
  show ?case
  proof (cases "prefix p k")
    case True
    then show ?thesis using Cons by (simp add: e om_invar_def)
  next
    case False
    have "\<not> prefix p (fst x)" if "x \<in> set m" for x
      using that Cons.prems False prefix_gap [of p k "fst x"] by (auto simp: e om_invar_def less_imp_le)
    then have "filter (\<lambda>(k, v). prefix p k) m = []" by (auto simp: filter_empty_conv)
    then show ?thesis using False by (simp add: e)
  qed
qed

end
