(* ===== verification/Memtable.thy ===== *)
theory Memtable
  imports OrdMap
begin

text \<open>
  The in-memory write buffer: the MVCC version chains of \<open>memtable/versioned_value.rs\<close> and
  the 16-shard \<open>Memtable\<close> of \<open>memtable/mod.rs\<close>. Each shard is an ordered map from keys to
  version chains; the shard of a key is its XXH3-64 hash modulo 16, and the hash is an
  argument \<open>h\<close>. What a memtable means is \<open>mt_abs\<close>: for every key its versions, newest
  first.
\<close>

section \<open>Version chains\<close>

datatype versioned_value =
  VersionedValue (timestamp: u64) (vvalue: "bytes option") (prev: "versioned_value option")

definition with_prev :: "u64 \<Rightarrow> bytes option \<Rightarrow> versioned_value \<Rightarrow> versioned_value" where
  "with_prev ts v p = VersionedValue ts v (Some p)"

fun vv_get_at :: "versioned_value \<Rightarrow> u64 \<Rightarrow> bytes option option" where
  "vv_get_at (VersionedValue ts v p) read_ts =
     (if ts \<le> read_ts then Some v
      else case p of None \<Rightarrow> None | Some q \<Rightarrow> vv_get_at q read_ts)"

fun get_at_with_ts :: "versioned_value \<Rightarrow> u64 \<Rightarrow> (bytes option \<times> u64) option" where
  "get_at_with_ts (VersionedValue ts v p) read_ts =
     (if ts \<le> read_ts then Some (v, ts)
      else case p of None \<Rightarrow> None | Some q \<Rightarrow> get_at_with_ts q read_ts)"

definition latest_timestamp :: "versioned_value \<Rightarrow> u64" where
  "latest_timestamp v = timestamp v"

fun chain_length :: "versioned_value \<Rightarrow> nat" where
  "chain_length (VersionedValue ts v p) =
     (case p of None \<Rightarrow> 1 | Some q \<Rightarrow> 1 + chain_length q)"

definition is_tombstone :: "versioned_value \<Rightarrow> bool" where
  "is_tombstone v \<longleftrightarrow> vvalue v = None"

text \<open>The versions of a chain, in chain order.\<close>

fun versions :: "versioned_value \<Rightarrow> (u64 \<times> bytes option) list" where
  "versions (VersionedValue ts v p) = (ts, v) # (case p of None \<Rightarrow> [] | Some q \<Rightarrow> versions q)"

text \<open>The first version of a list at or before a timestamp.\<close>

definition chain_at :: "u64 \<Rightarrow> (u64 \<times> bytes option) list \<Rightarrow> bytes option option" where
  "chain_at read_ts vs = map_option snd (find (\<lambda>(ts, v). ts \<le> read_ts) vs)"

lemma chain_at_simps [simp]:
  "chain_at t [] = None"
  "chain_at t ((ts, v) # vs) = (if ts \<le> t then Some v else chain_at t vs)"
  by (simp_all add: chain_at_def)

lemma chain_at_append:
  "chain_at t (vs @ ws) = (case chain_at t vs of None \<Rightarrow> chain_at t ws | Some v \<Rightarrow> Some v)"
  by (induction vs) auto

lemma versions_not_Nil [simp]: "versions v \<noteq> []"
  by (cases v) simp

lemma vv_get_at_versions: "vv_get_at v t = chain_at t (versions v)"
  by (induction v t rule: vv_get_at.induct) (auto split: option.splits)

lemma get_at_with_ts_versions:
  "get_at_with_ts v t = map_option (\<lambda>(ts, x). (x, ts)) (find (\<lambda>(ts, x). ts \<le> t) (versions v))"
  by (induction v t rule: get_at_with_ts.induct) (auto split: option.splits)

lemma chain_length_versions: "chain_length v = length (versions v)"
  by (induction v rule: chain_length.induct) (auto split: option.splits)

lemma hd_versions: "hd (versions v) = (timestamp v, vvalue v)"
  by (cases v) simp

text \<open>In a list of versions with decreasing timestamps, the first at or before \<open>t\<close> is the
  newest one at or before \<open>t\<close>.\<close>

lemma chain_at_newest:
  assumes "sorted_wrt (\<lambda>a b. fst a > fst b) vs"
  shows "chain_at t vs = Some v \<longleftrightarrow>
     (\<exists>ts. (ts, v) \<in> set vs \<and> ts \<le> t \<and> (\<forall>(ts', v') \<in> set vs. ts' \<le> t \<longrightarrow> ts' \<le> ts))"
  using assms
proof (induction vs)
  case Nil
  then show ?case by simp
next
  case (Cons a vs)
  obtain ts x where a: "a = (ts, x)" by (cases a)
  have below: "\<forall>b \<in> set vs. fst b < ts" using Cons.prems by (simp add: a)
  show ?case
  proof (cases "ts \<le> t")
    case True
    then show ?thesis using below by (force simp: a)
  next
    case False
    then show ?thesis using Cons by (auto simp: a)
  qed
qed

section \<open>The sharded memtable\<close>

definition NUM_SHARDS :: nat where
  "NUM_SHARDS = 16"

record memtable =
  shards :: "(bytes \<times> versioned_value) list list"
  mt_size :: u64
  sealed :: bool
  seal_threshold :: u64

definition new_memtable :: "u64 \<Rightarrow> memtable" where
  "new_memtable threshold =
     \<lparr>shards = replicate NUM_SHARDS [], mt_size = 0, sealed = False, seal_threshold = threshold\<rparr>"

definition shard_index :: "(bytes \<Rightarrow> u64) \<Rightarrow> bytes \<Rightarrow> nat" where
  "shard_index h key = unat (h key mod of_nat NUM_SHARDS)"

text \<open>\<open>put\<close>: the new memtable and whether it should be sealed. The sizes are \<open>u64\<close> and wrap.\<close>

definition mt_put ::
  "(bytes \<Rightarrow> u64) \<Rightarrow> bytes \<Rightarrow> u64 \<Rightarrow> bytes option \<Rightarrow> memtable \<Rightarrow> memtable \<times> bool" where
  "mt_put h key ts value m =
     (if sealed m then (m, False)
      else
        let idx = shard_index h key;
            shard = shards m ! idx;
            entry_size = word_of_nat (length key)
              + (case value of None \<Rightarrow> 0 | Some v \<Rightarrow> word_of_nat (length v)) + 8 + 8;
            new_value = (case om_get shard key of
                           Some existing \<Rightarrow> VersionedValue ts value (Some existing)
                         | None \<Rightarrow> VersionedValue ts value None);
            new_size = mt_size m + entry_size
        in (m\<lparr>shards := (shards m)[idx := om_insert key new_value shard], mt_size := new_size\<rparr>,
            new_size \<ge> seal_threshold m))"

definition mt_lookup :: "(bytes \<Rightarrow> u64) \<Rightarrow> memtable \<Rightarrow> bytes \<Rightarrow> versioned_value option" where
  "mt_lookup h m key = om_get (shards m ! shard_index h key) key"

definition mt_get :: "(bytes \<Rightarrow> u64) \<Rightarrow> memtable \<Rightarrow> bytes \<Rightarrow> bytes option option" where
  "mt_get h m key = map_option vvalue (mt_lookup h m key)"

definition mt_get_at :: "(bytes \<Rightarrow> u64) \<Rightarrow> memtable \<Rightarrow> bytes \<Rightarrow> u64 \<Rightarrow> bytes option option" where
  "mt_get_at h m key read_ts = Option.bind (mt_lookup h m key) (\<lambda>v. vv_get_at v read_ts)"

definition mt_seal :: "memtable \<Rightarrow> memtable" where
  "mt_seal m = m\<lparr>sealed := True\<rparr>"

definition iter_all :: "memtable \<Rightarrow> (bytes \<times> versioned_value) list" where
  "iter_all m = sort_key fst (concat (shards m))"

definition iter_prefix :: "bytes \<Rightarrow> memtable \<Rightarrow> (bytes \<times> versioned_value) list" where
  "iter_prefix p m =
     sort_key fst (concat (map (\<lambda>shard. takeWhile (\<lambda>(k, v). prefix p k) (om_range_from p shard))
       (shards m)))"

section \<open>Meaning and invariant\<close>

definition mt_abs :: "(bytes \<Rightarrow> u64) \<Rightarrow> memtable \<Rightarrow> bytes \<Rightarrow> (u64 \<times> bytes option) list" where
  "mt_abs h m key = (case mt_lookup h m key of None \<Rightarrow> [] | Some v \<Rightarrow> versions v)"

definition mt_invar :: "(bytes \<Rightarrow> u64) \<Rightarrow> memtable \<Rightarrow> bool" where
  "mt_invar h m \<longleftrightarrow> length (shards m) = NUM_SHARDS
     \<and> (\<forall>i < NUM_SHARDS. om_invar (shards m ! i)
          \<and> (\<forall>(k, v) \<in> set (shards m ! i). shard_index h k = i))"

lemma shard_index_less [simp]: "shard_index h k < NUM_SHARDS"
proof -
  have "h k mod 16 < 16" by (rule word_mod_less_divisor) simp
  then have "unat (h k mod 16) < unat (16 :: u64)" by (simp only: word_less_nat_alt)
  then show ?thesis by (simp add: shard_index_def NUM_SHARDS_def)
qed

lemma mt_invar_new [simp]: "mt_invar h (new_memtable t)"
  by (simp add: mt_invar_def new_memtable_def om.invar_empty)

lemma mt_abs_new [simp]: "mt_abs h (new_memtable t) k = []"
  by (simp add: mt_abs_def mt_lookup_def new_memtable_def)

lemma mt_invarD:
  "mt_invar h m \<Longrightarrow> om_invar (shards m ! shard_index h k)"
  "mt_invar h m \<Longrightarrow> length (shards m) = NUM_SHARDS"
  by (auto simp: mt_invar_def)

lemma mt_invar_update:
  assumes "mt_invar h m" and "i < NUM_SHARDS" and "om_invar sh" and "\<forall>(k, v) \<in> set sh. shard_index h k = i"
  shows "mt_invar h (m\<lparr>shards := (shards m)[i := sh], mt_size := n\<rparr>)"
  using assms by (simp add: mt_invar_def nth_list_update)

lemma mt_invar_put:
  assumes "mt_invar h m"
  shows "mt_invar h (fst (mt_put h k ts v m))"
proof -
  let ?i = "shard_index h k"
  have inv: "om_invar (shards m ! ?i)" "\<forall>(k, v) \<in> set (shards m ! ?i). shard_index h k = ?i"
    using assms by (auto simp: mt_invar_def)
  have "\<forall>(k', v') \<in> set (om_insert k x (shards m ! ?i)). shard_index h k' = ?i" for x
    using inv(2) by (auto simp: om.set_entries_ins [OF inv(1)])
  then show ?thesis
    using assms om.invar_ins [OF inv(1)] by (simp add: mt_put_def Let_def mt_invar_update)
qed

lemma mt_lookup_put:
  assumes "mt_invar h m" and "\<not> sealed m"
  shows "mt_lookup h (fst (mt_put h k ts v m)) k' =
     (if k' = k then Some (VersionedValue ts v (mt_lookup h m k)) else mt_lookup h m k')"
  using om.get_ins [OF mt_invarD(1) [OF assms(1), of k]] mt_invarD(2) [OF assms(1)] assms(2)
  by (cases "shard_index h k' = shard_index h k")
    (auto simp: mt_put_def mt_lookup_def Let_def split: option.split)

lemma mt_abs_put:
  assumes "mt_invar h m" and "\<not> sealed m"
  shows "mt_abs h (fst (mt_put h k ts v m)) = (mt_abs h m)(k := (ts, v) # mt_abs h m k)"
  by (rule ext) (simp add: mt_abs_def mt_lookup_put [OF assms] split: option.split)

lemma mt_get_abs: "mt_get h m k = (case mt_abs h m k of [] \<Rightarrow> None | (t, v) # _ \<Rightarrow> Some v)"
proof (cases "mt_lookup h m k")
  case None
  then show ?thesis by (simp add: mt_get_def mt_abs_def)
next
  case (Some v)
  then show ?thesis by (cases v) (simp add: mt_get_def mt_abs_def)
qed

lemma mt_get_at_abs: "mt_get_at h m k t = chain_at t (mt_abs h m k)"
  by (simp add: mt_get_at_def mt_abs_def vv_get_at_versions split: option.split)

lemma mt_put_frame:
  "sealed (fst (mt_put h k ts v m)) = sealed m" "seal_threshold (fst (mt_put h k ts v m)) = seal_threshold m"
  by (simp_all add: mt_put_def Let_def)

lemma mt_seal_simps [simp]:
  "mt_abs h (mt_seal m) = mt_abs h m" "mt_invar h (mt_seal m) = mt_invar h m" "sealed (mt_seal m)"
  "mt_size (mt_seal m) = mt_size m"
  by (simp_all add: mt_seal_def mt_abs_def mt_lookup_def mt_invar_def fun_eq_iff)

section \<open>Iteration\<close>

lemma shard_entry_iff:
  assumes "mt_invar h m"
  shows "(k, v) \<in> set (concat (shards m)) \<longleftrightarrow> mt_lookup h m k = Some v"
proof -
  have len: "length (shards m) = NUM_SHARDS" by (rule mt_invarD(2) [OF assms])
  have "(k, v) \<in> set (concat (shards m)) \<longleftrightarrow> (k, v) \<in> set (shards m ! shard_index h k)"
  proof
    assume "(k, v) \<in> set (concat (shards m))"
    then obtain i where i: "i < NUM_SHARDS" "(k, v) \<in> set (shards m ! i)"
      using len by (auto simp: in_set_conv_nth) (metis in_set_conv_nth)
    moreover have "shard_index h k = i" using assms i by (force simp: mt_invar_def)
    ultimately show "(k, v) \<in> set (shards m ! shard_index h k)" by simp
  next
    assume "(k, v) \<in> set (shards m ! shard_index h k)"
    then show "(k, v) \<in> set (concat (shards m))"
      using len shard_index_less [of h k] by (auto intro!: bexI [of _ "shards m ! shard_index h k"])
  qed
  then show ?thesis
    using om.entry_iff [OF mt_invarD(1) [OF assms, of k]] by (simp add: mt_lookup_def)
qed

lemma distinct_concat_keys:
  assumes "\<forall>xs \<in> set xss. distinct (map fst xs)"
    and "\<forall>i j. i < length xss \<longrightarrow> j < length xss \<longrightarrow> i \<noteq> j \<longrightarrow> fst ` set (xss ! i) \<inter> fst ` set (xss ! j) = {}"
  shows "distinct (map fst (concat xss))"
  using assms
proof (induction xss)
  case Nil
  then show ?case by simp
next
  case (Cons xs xss)
  have "fst ` set xs \<inter> fst ` set ys = {}" if ys: "ys \<in> set xss" for ys
  proof -
    obtain j where "j < length xss" "ys = xss ! j" using ys by (auto simp: in_set_conv_nth)
    then show ?thesis using Cons.prems(2) [rule_format, of 0 "Suc j"] by simp
  qed
  then have "fst ` set xs \<inter> fst ` set (concat xss) = {}" by (simp add: image_Union) blast
  moreover have "distinct (map fst (concat xss))"
    using Cons.prems(1) Cons.prems(2) [rule_format, of "Suc _" "Suc _"] by (intro Cons.IH) auto
  ultimately show ?case using Cons.prems(1) by simp
qed

lemma distinct_shard_keys:
  assumes "mt_invar h m"
  shows "distinct (map fst (concat (shards m)))"
proof (rule distinct_concat_keys)
  show "\<forall>xs \<in> set (shards m). distinct (map fst xs)"
    using assms by (auto simp: mt_invar_def in_set_conv_nth intro!: om.entries_distinct)
  have "shard_index h k = i" if "i < NUM_SHARDS" "k \<in> fst ` set (shards m ! i)" for i k
    using that assms by (fastforce simp: mt_invar_def)
  then show "\<forall>i j. i < length (shards m) \<longrightarrow> j < length (shards m) \<longrightarrow> i \<noteq> j \<longrightarrow>
      fst ` set (shards m ! i) \<inter> fst ` set (shards m ! j) = {}"
    unfolding mt_invarD(2) [OF assms] by blast
qed

lemma iter_all_sorted: "mt_invar h m \<Longrightarrow> sorted_wrt (<) (map fst (iter_all m))"
  by (auto simp: strict_sorted_iff iter_all_def distinct_map distinct_sort distinct_shard_keys
    dest: distinct_shard_keys)

lemma iter_all_entry: "mt_invar h m \<Longrightarrow> (k, v) \<in> set (iter_all m) \<longleftrightarrow> mt_lookup h m k = Some v"
  by (simp add: iter_all_def shard_entry_iff [symmetric])

text \<open>
  The flush iterator returns every key of the memtable exactly once, in strictly
  increasing byte order, with its whole version chain.
\<close>

theorem iter_all_correct:
  assumes "mt_invar h m"
  shows "sorted_wrt (<) (map fst (iter_all m)) \<and> map_of (iter_all m) k = mt_lookup h m k"
proof -
  have s: "sorted_wrt (<) (map fst (iter_all m))" by (rule iter_all_sorted [OF assms])
  then have d: "distinct (map fst (iter_all m))" by (simp add: strict_sorted_iff)
  have "map_of (iter_all m) k = mt_lookup h m k"
  proof (cases "mt_lookup h m k")
    case None
    then have "\<And>v. (k, v) \<notin> set (iter_all m)" by (simp add: iter_all_entry [OF assms])
    then show ?thesis using None by (force simp: map_of_eq_None_iff)
  next
    case (Some v)
    then have "(k, v) \<in> set (iter_all m)" by (simp add: iter_all_entry [OF assms])
    then show ?thesis using Some d by simp
  qed
  with s show ?thesis by simp
qed

definition demo_mt :: memtable where
  "demo_mt = fst (mt_put (\<lambda>k. 3) [1, 9] 6 None (fst (mt_put (\<lambda>k. 3) [2] 5 (Some [7]) (new_memtable 100))))"

lemma demo_mt_invar: "mt_invar (\<lambda>k. 3) demo_mt"
  by (simp add: demo_mt_def mt_invar_put)

theorem iter_all_correct_witness: "map_of (iter_all demo_mt) [2] = Some (VersionedValue 5 (Some [7]) None)"
proof -
  have "mt_lookup (\<lambda>k. 3) demo_mt [2] = Some (VersionedValue 5 (Some [7]) None)" by code_simp
  then show ?thesis using iter_all_correct [OF demo_mt_invar, of "[2]"] by simp
qed

text \<open>
  The bounded prefix scan, which walks each shard from the prefix and stops at the first
  key that no longer matches, returns exactly what filtering a full scan would.
\<close>

theorem iter_prefix_eq_filter:
  assumes "mt_invar h m"
  shows "iter_prefix p m = filter (\<lambda>(k, v). prefix p k) (iter_all m)"
proof -
  have "takeWhile (\<lambda>(k, v). prefix p k) (om_range_from p sh) = filter (\<lambda>(k, v). prefix p k) sh"
    if "sh \<in> set (shards m)" for sh
  proof -
    have inv: "om_invar sh" using that assms by (auto simp: mt_invar_def in_set_conv_nth)
    have range: "om_range_from p sh = filter (\<lambda>(k, v). p \<le> k) sh" by (rule om_range_from_filter [OF inv])
    have "om_invar (filter (\<lambda>(k, v). p \<le> k) sh)"
      using inv by (induction sh) (auto simp: om_invar_def)
    then have "takeWhile (\<lambda>(k, v). prefix p k) (om_range_from p sh)
        = filter (\<lambda>(k, v). prefix p k) (filter (\<lambda>(k, v). p \<le> k) sh)"
      by (simp only: range, intro takeWhile_prefix_filter) auto
    also have "\<dots> = filter (\<lambda>(k, v). prefix p k) sh"
      by (auto intro!: filter_cong simp: prefix_imp_le)
    finally show ?thesis .
  qed
  then have "iter_prefix p m = sort_key fst (concat (map (filter (\<lambda>(k, v). prefix p k)) (shards m)))"
    unfolding iter_prefix_def by (metis (no_types, lifting) map_cong)
  then show ?thesis by (simp add: iter_all_def filter_sort filter_concat)
qed

theorem iter_prefix_eq_filter_witness:
  "iter_prefix [1] demo_mt = filter (\<lambda>(k, v). prefix [1] k) (iter_all demo_mt)
     \<and> iter_prefix [1] demo_mt \<noteq> [] \<and> iter_prefix [1] demo_mt \<noteq> iter_all demo_mt"
proof -
  have "filter (\<lambda>(k, v). prefix [1] k) (iter_all demo_mt) \<noteq> []"
    "filter (\<lambda>(k, v). prefix [1] k) (iter_all demo_mt) \<noteq> iter_all demo_mt"
    by code_simp+
  then show ?thesis by (simp add: iter_prefix_eq_filter [OF demo_mt_invar])
qed

section \<open>Layers of versioned tables\<close>

text \<open>
  The search of \<open>MemtableManager::get\<close>: the first table, newest first, that knows the key.
\<close>

fun first_some :: "('t \<Rightarrow> 'a option) \<Rightarrow> 't list \<Rightarrow> 'a option" where
  "first_some f [] = None"
| "first_some f (t # ts) = (case f t of Some v \<Rightarrow> Some v | None \<Rightarrow> first_some f ts)"

text \<open>
  What the manager needs of a table: point reads and snapshot reads are determined by the
  versions the table holds for the key. A stack of tables then reads like the concatenation
  of their versions.
\<close>

locale version_table =
  fixes tget :: "'t \<Rightarrow> 'k \<Rightarrow> bytes option option"
    and tget_at :: "'t \<Rightarrow> 'k \<Rightarrow> u64 \<Rightarrow> bytes option option"
    and tabs :: "'t \<Rightarrow> 'k \<Rightarrow> (u64 \<times> bytes option) list"
  assumes tget_abs: "tget t k = (case tabs t k of [] \<Rightarrow> None | (ts, v) # _ \<Rightarrow> Some v)"
    and tget_at_abs: "tget_at t k ts = chain_at ts (tabs t k)"
begin

lemma search_layers:
  "first_some (\<lambda>t. tget t k) ts =
     (case concat (map (\<lambda>t. tabs t k) ts) of [] \<Rightarrow> None | (t, v) # _ \<Rightarrow> Some v)"
proof (induction ts)
  case Nil
  then show ?case by simp
next
  case (Cons t ts)
  then show ?case using tget_abs [of t k] by (cases "tabs t k") auto
qed

lemma search_at_layers:
  "first_some (\<lambda>t. tget_at t k r) ts = chain_at r (concat (map (\<lambda>t. tabs t k) ts))"
  by (induction ts) (simp_all add: tget_at_abs chain_at_append split: option.splits)

end

interpretation mt: version_table "mt_get h" "mt_get_at h" "mt_abs h" for h
  by unfold_locales (simp_all add: mt_get_abs mt_get_at_abs)

end
