(* ===== verification/MemtableManager.thy ===== *)
theory MemtableManager
  imports Memtable
begin

text \<open>
  \<open>MemtableManager\<close> of \<open>memtable/mod.rs\<close>: the active memtable, the queue of sealed ones
  awaiting flush in seal order, and the back-pressure semaphore, whose state is its number
  of available permits. A \<open>put\<close> that would have to wait for permits is the value \<open>None\<close>.
  What the manager holds of a key is \<open>mm_abs\<close>: the versions of all its tables, newest
  first.
\<close>

record memtable_manager =
  active :: memtable
  sealed_queue :: "memtable list"
  permits :: nat
  back_pressure_bytes :: u64
  mm_seal_threshold :: u64

definition new_memtable_manager :: "u64 \<Rightarrow> u64 \<Rightarrow> memtable_manager" where
  "new_memtable_manager threshold limit =
     \<lparr>active = new_memtable threshold, sealed_queue = [], permits = unat limit,
      back_pressure_bytes = limit, mm_seal_threshold = threshold\<rparr>"

text \<open>\<open>sealed_size.min(u32::MAX as u64)\<close>, the permits a memtable of that size stands for.\<close>

definition permits_for :: "u64 \<Rightarrow> nat" where
  "permits_for sz = unat (min sz 0xFFFFFFFF)"

definition seal_active :: "memtable_manager \<Rightarrow> memtable_manager" where
  "seal_active m =
     (if sealed (active m) then m
      else
        let old_active = mt_seal (active m);
            consume = permits_for (mt_size old_active)
        in m\<lparr>permits := (if consume \<le> permits m then permits m - consume else permits m),
             sealed_queue := sealed_queue m @ [old_active],
             active := new_memtable (mm_seal_threshold m)\<rparr>)"

definition mm_put ::
  "(bytes \<Rightarrow> u64) \<Rightarrow> bytes \<Rightarrow> u64 \<Rightarrow> bytes option \<Rightarrow> memtable_manager \<Rightarrow> memtable_manager option" where
  "mm_put h key ts value m =
     (let entry_size = length key + (case value of None \<Rightarrow> 0 | Some v \<Rightarrow> length v) + 16;
          wanted = unat (word_of_nat entry_size :: u32)
      in if permits m < wanted then None
         else
           let (act, should_seal) = mt_put h key ts value (active m);
               m' = m\<lparr>active := act\<rparr>
           in Some (if should_seal then seal_active m' else m'))"

definition mm_get :: "(bytes \<Rightarrow> u64) \<Rightarrow> memtable_manager \<Rightarrow> bytes \<Rightarrow> bytes option option" where
  "mm_get h m key =
     (case mt_get h (active m) key of
        Some result \<Rightarrow> Some result
      | None \<Rightarrow> first_some (\<lambda>t. mt_get h t key) (rev (sealed_queue m)))"

definition mm_get_at :: "(bytes \<Rightarrow> u64) \<Rightarrow> memtable_manager \<Rightarrow> bytes \<Rightarrow> u64 \<Rightarrow> bytes option option" where
  "mm_get_at h m key read_ts =
     (case mt_get_at h (active m) key read_ts of
        Some result \<Rightarrow> Some result
      | None \<Rightarrow> first_some (\<lambda>t. mt_get_at h t key read_ts) (rev (sealed_queue m)))"

definition on_flush_complete :: "u64 \<Rightarrow> memtable_manager \<Rightarrow> memtable_manager" where
  "on_flush_complete flushed_size m =
     m\<lparr>sealed_queue := (if sealed_queue m \<noteq> [] then tl (sealed_queue m) else []),
       permits := permits m + permits_for flushed_size\<rparr>"

definition sealed_count :: "memtable_manager \<Rightarrow> nat" where
  "sealed_count m = length (sealed_queue m)"

definition sealed_total_bytes :: "memtable_manager \<Rightarrow> u64" where
  "sealed_total_bytes m = sum_list (map mt_size (sealed_queue m))"

definition peek_sealed :: "memtable_manager \<Rightarrow> memtable option" where
  "peek_sealed m = (case sealed_queue m of [] \<Rightarrow> None | t # _ \<Rightarrow> Some t)"

section \<open>Meaning and invariant\<close>

definition mm_tables :: "memtable_manager \<Rightarrow> memtable list" where
  "mm_tables m = active m # rev (sealed_queue m)"

definition mm_abs :: "(bytes \<Rightarrow> u64) \<Rightarrow> memtable_manager \<Rightarrow> bytes \<Rightarrow> (u64 \<times> bytes option) list" where
  "mm_abs h m k = concat (map (\<lambda>t. mt_abs h t k) (mm_tables m))"

definition mm_invar :: "(bytes \<Rightarrow> u64) \<Rightarrow> memtable_manager \<Rightarrow> bool" where
  "mm_invar h m \<longleftrightarrow> \<not> sealed (active m) \<and> mt_invar h (active m)
     \<and> (\<forall>t \<in> set (sealed_queue m). sealed t \<and> mt_invar h t)"

lemma mm_get_first: "mm_get h m k = first_some (\<lambda>t. mt_get h t k) (mm_tables m)"
  by (simp add: mm_get_def mm_tables_def)

lemma mm_get_at_first: "mm_get_at h m k r = first_some (\<lambda>t. mt_get_at h t k r) (mm_tables m)"
  by (simp add: mm_get_at_def mm_tables_def)

lemma mm_get_abs: "mm_get h m k = (case mm_abs h m k of [] \<Rightarrow> None | (t, v) # _ \<Rightarrow> Some v)"
  by (simp add: mm_get_first mt.search_layers mm_abs_def)

lemma mm_get_at_abs: "mm_get_at h m k r = chain_at r (mm_abs h m k)"
  by (simp add: mm_get_at_first mt.search_at_layers mm_abs_def)

lemma mm_invar_new [simp]: "mm_invar h (new_memtable_manager t b)"
  by (simp add: mm_invar_def new_memtable_manager_def) (simp add: new_memtable_def)

lemma mm_abs_new [simp]: "mm_abs h (new_memtable_manager t b) = (\<lambda>k. [])"
  by (simp add: fun_eq_iff mm_abs_def mm_tables_def new_memtable_manager_def)

lemma new_memtable_open [simp]: "\<not> sealed (new_memtable t)"
  by (simp add: new_memtable_def)

lemma mm_invar_seal: "mm_invar h m \<Longrightarrow> mm_invar h (seal_active m)"
  by (auto simp: seal_active_def mm_invar_def Let_def)

lemma mm_abs_seal [simp]: "mm_abs h (seal_active m) = mm_abs h m"
  by (simp add: fun_eq_iff seal_active_def mm_abs_def mm_tables_def Let_def)

lemma mm_invar_flush: "mm_invar h m \<Longrightarrow> mm_invar h (on_flush_complete n m)"
  by (auto simp: on_flush_complete_def mm_invar_def dest: list.set_sel(2))

lemma mm_put_parts:
  assumes "mm_put h k ts v m = Some m'"
  shows "m' = (let (act, s) = mt_put h k ts v (active m)
               in if s then seal_active (m\<lparr>active := act\<rparr>) else m\<lparr>active := act\<rparr>)"
  using assms by (simp add: mm_put_def Let_def split: if_splits prod.splits)

lemma mm_invar_put:
  assumes "mm_invar h m" and "mm_put h k ts v m = Some m'"
  shows "mm_invar h m'"
proof -
  obtain act s where p: "mt_put h k ts v (active m) = (act, s)" by (cases "mt_put h k ts v (active m)")
  have "mm_invar h (m\<lparr>active := act\<rparr>)"
    using assms(1) mt_invar_put [of h "active m" k ts v] mt_put_frame(1) [of h k ts v "active m"]
    by (simp add: mm_invar_def p)
  then show ?thesis using mm_put_parts [OF assms(2)] by (auto simp: p mm_invar_seal)
qed

lemma mm_abs_put:
  assumes "mm_invar h m" and "mm_put h k ts v m = Some m'"
  shows "mm_abs h m' = (mm_abs h m)(k := (ts, v) # mm_abs h m k)"
proof -
  obtain act s where p: "mt_put h k ts v (active m) = (act, s)" by (cases "mt_put h k ts v (active m)")
  have "mt_abs h act = (mt_abs h (active m))(k := (ts, v) # mt_abs h (active m) k)"
    using mt_abs_put [of h "active m" k ts v] assms(1) by (simp add: mm_invar_def p)
  then have "mm_abs h (m\<lparr>active := act\<rparr>) = (mm_abs h m)(k := (ts, v) # mm_abs h m k)"
    by (simp add: fun_eq_iff mm_abs_def mm_tables_def)
  then show ?thesis using mm_put_parts [OF assms(2)] by (simp add: p)
qed

lemma mm_abs_flush:
  "sealed_queue m = t # ts \<Longrightarrow>
     mm_abs h m k = mm_abs h (on_flush_complete n m) k @ mt_abs h t k"
  by (simp add: mm_abs_def mm_tables_def on_flush_complete_def)

section \<open>Runs of operations\<close>

datatype mm_op = Put bytes u64 "bytes option" | Seal

fun mm_step :: "(bytes \<Rightarrow> u64) \<Rightarrow> mm_op \<Rightarrow> memtable_manager \<Rightarrow> memtable_manager option" where
  "mm_step h (Put k ts v) m = mm_put h k ts v m"
| "mm_step h Seal m = Some (seal_active m)"

fun mm_run :: "(bytes \<Rightarrow> u64) \<Rightarrow> mm_op list \<Rightarrow> memtable_manager \<Rightarrow> memtable_manager option" where
  "mm_run h [] m = Some m"
| "mm_run h (p # ps) m = Option.bind (mm_step h p m) (mm_run h ps)"

text \<open>The writes of a run to one key, newest first.\<close>

fun writes_of :: "bytes \<Rightarrow> mm_op list \<Rightarrow> (u64 \<times> bytes option) list" where
  "writes_of k [] = []"
| "writes_of k (Put k' ts v # ps) = writes_of k ps @ (if k' = k then [(ts, v)] else [])"
| "writes_of k (Seal # ps) = writes_of k ps"

lemma mm_run_abs:
  "mm_invar h m \<Longrightarrow> mm_run h ps m = Some m' \<Longrightarrow>
     mm_invar h m' \<and> mm_abs h m' k = writes_of k ps @ mm_abs h m k"
proof (induction ps arbitrary: m)
  case Nil
  then show ?case by simp
next
  case (Cons p ps)
  from Cons.prems(2) obtain m1 where s: "mm_step h p m = Some m1" "mm_run h ps m1 = Some m'"
    by (auto simp: bind_eq_Some_conv)
  show ?case
  proof (cases p)
    case (Put k' ts v)
    then have put: "mm_put h k' ts v m = Some m1" using s(1) by simp
    show ?thesis
      using Cons.IH [OF mm_invar_put [OF Cons.prems(1) put] s(2)] mm_abs_put [OF Cons.prems(1) put]
      by (simp add: Put)
  next
    case Seal
    then have m1: "m1 = seal_active m" using s(1) by simp
    show ?thesis
      using Cons.IH [OF _ s(2)] mm_invar_seal [OF Cons.prems(1)] by (simp add: m1 Seal)
  qed
qed

text \<open>
  C36: Whatever writes and seals have gone before, a read returns the last value written to
  the key, wherever the seals have moved it. If the writes of the key arrived with strictly
  increasing timestamps, a snapshot read at \<open>t\<close> returns the write with the greatest timestamp
  not above \<open>t\<close>. The engine takes a timestamp before it inserts the row, so concurrent writers of
  one key can violate that condition.
\<close>

theorem mm_reads_newest:
  assumes "mm_run h ps (new_memtable_manager threshold limit) = Some m"
  shows "mm_get h m k = (case writes_of k ps of [] \<Rightarrow> None | (_, v) # _ \<Rightarrow> Some v)
    \<and> (sorted_wrt (\<lambda>a b. fst a > fst b) (writes_of k ps) \<longrightarrow>
         (mm_get_at h m k t = Some v \<longleftrightarrow>
            (\<exists>ts. (ts, v) \<in> set (writes_of k ps) \<and> ts \<le> t
               \<and> (\<forall>(ts', v') \<in> set (writes_of k ps). ts' \<le> t \<longrightarrow> ts' \<le> ts))))"
proof -
  have abs: "mm_abs h m k = writes_of k ps" using mm_run_abs [OF mm_invar_new assms, of k] by simp
  show ?thesis
    using chain_at_newest [of "writes_of k ps" t v] by (simp add: mm_get_abs mm_get_at_abs abs)
qed

definition demo_hash :: "bytes \<Rightarrow> u64" where
  "demo_hash k = word_of_nat (length k)"

definition demo_ops :: "mm_op list" where
  "demo_ops = [Put [1] 1 (Some [7]), Put [1] 2 (Some [8]), Put [2, 3] 4 (Some []), Put [1] 5 None]"

lemma demo_run_ok: "mm_run demo_hash demo_ops (new_memtable_manager 20 1000) \<noteq> None"
  by code_simp

theorem mm_reads_newest_witness:
  "\<exists>m. mm_run demo_hash demo_ops (new_memtable_manager 20 1000) = Some m
     \<and> mm_get demo_hash m [1] = Some None \<and> mm_get_at demo_hash m [1] 3 = Some (Some [8])"
proof -
  obtain m where m: "mm_run demo_hash demo_ops (new_memtable_manager 20 1000) = Some m"
    using demo_run_ok by auto
  show ?thesis
    using mm_reads_newest [OF m, of "[1]" 3 "Some [8]"] m by (auto simp: demo_ops_def)
qed

section \<open>Back-pressure accounting\<close>

definition held :: "memtable_manager \<Rightarrow> nat" where
  "held m = sum_list (map (permits_for \<circ> mt_size) (sealed_queue m))"

text \<open>The manager's accounting while every seal obtains its permits.\<close>

definition balanced :: "memtable_manager \<Rightarrow> bool" where
  "balanced m \<longleftrightarrow> permits m + held m = unat (back_pressure_bytes m)"

lemma seal_balanced:
  assumes "balanced m" and "permits_for (mt_size (active m)) \<le> permits m"
  shows "balanced (seal_active m)"
  using assms by (auto simp: balanced_def seal_active_def held_def Let_def)

lemma flush_balanced:
  assumes "balanced m" and "peek_sealed m = Some t"
  shows "balanced (on_flush_complete (mt_size t) m)"
  using assms by (auto simp: balanced_def on_flush_complete_def held_def peek_sealed_def split: list.splits)

text \<open>
  Back-pressure accounting. Permits and sealed bytes add up to the limit as long as a seal
  finds its permits, and the flush of the oldest table gives back exactly what its seal
  took. A seal that does not find them takes none, yet the flush returns them all the same:
  sealing and flushing a lone table larger than the available permits leaves the semaphore
  with more permits than before, by the whole size of the table.
\<close>

theorem back_pressure_accounting:
  "(balanced m \<longrightarrow> permits_for (mt_size (active m)) \<le> permits m \<longrightarrow> balanced (seal_active m))
    \<and> (balanced m \<longrightarrow> peek_sealed m = Some t \<longrightarrow> balanced (on_flush_complete (mt_size t) m))
    \<and> (\<not> sealed (active m) \<longrightarrow> sealed_queue m = [] \<longrightarrow> permits m < permits_for (mt_size (active m)) \<longrightarrow>
         permits (on_flush_complete (mt_size (active m)) (seal_active m))
           = permits m + permits_for (mt_size (active m)))"
  using seal_balanced [of m] flush_balanced [of m t]
  by (simp add: seal_active_def [of m] on_flush_complete_def Let_def)

definition demo_full :: memtable_manager where
  "demo_full = \<lparr>active = (new_memtable 20)\<lparr>mt_size := 50\<rparr>, sealed_queue = [], permits = 30,
     back_pressure_bytes = 30, mm_seal_threshold = 20\<rparr>"

theorem back_pressure_accounting_witness:
  "permits (on_flush_complete (mt_size (active demo_full)) (seal_active demo_full)) = 80"
proof -
  have "\<not> sealed (active demo_full)" "sealed_queue demo_full = []" "permits demo_full = 30"
    "permits_for (mt_size (active demo_full)) = 50"
    by (simp_all add: demo_full_def permits_for_def)
  then show ?thesis using back_pressure_accounting [of demo_full "active demo_full"] by simp
qed

end
