(* ===== verification/ArtNode.thy ===== *)
theory ArtNode
  imports Prelude
begin

text \<open>
  The node layouts of the adaptive radix tree (\<open>art/node.rs\<close>): sorted key and child arrays
  (\<open>Node4\<close>, \<open>Node16\<close>), a byte-indexed table into a compact child array (\<open>Node48\<close>), and a
  direct array (\<open>Node256\<close>), with the transitions between them. The child type is a
  parameter. What a layout means is the partial function from bytes to children that
  \<open>find_child\<close> computes; the locale \<open>child_array\<close> states what the tree relies on, and every
  layout, and the node that switches between them, is an interpretation of it.

  Arrays are lists of the array's length. A panic is \<open>None\<close>. The counters of the first
  three layouts never leave the range of a \<open>u8\<close>, since an insertion needs a free place;
  the counter of \<open>Node256\<close> is kept as a \<open>u16\<close>, because it can wrap.
\<close>

section \<open>Sorted arrays: Node4 and Node16\<close>

fun position :: "('a \<Rightarrow> bool) \<Rightarrow> 'a list \<Rightarrow> nat option" where
  "position P [] = None"
| "position P (x # xs) = (if P x then Some 0 else map_option Suc (position P xs))"

text \<open>A place of an array of optional children; the arrays have fixed lengths and every index
  the nodes use is below them.\<close>

definition slot_at :: "'c option list \<Rightarrow> nat \<Rightarrow> 'c option" where
  "slot_at xs i = (if i < length xs then xs ! i else None)"

lemma slot_at_nth [simp]: "i < length xs \<Longrightarrow> slot_at xs i = xs ! i"
  by (simp add: slot_at_def)

datatype 'c keyed = Keyed (keys: "u8 list") (kchildren: "'c option list") (kcount: nat)

definition keyed_new :: "nat \<Rightarrow> 'c keyed" where
  "keyed_new cap = Keyed (replicate cap 0) (replicate cap None) 0"

definition keyed_is_full :: "'c keyed \<Rightarrow> bool" where
  "keyed_is_full n \<longleftrightarrow> length (keys n) \<le> kcount n"

definition keyed_slot :: "'c keyed \<Rightarrow> u8 \<Rightarrow> nat option" where
  "keyed_slot n byte = position (\<lambda>k. k = byte) (take (kcount n) (keys n))"

definition keyed_find_child :: "'c keyed \<Rightarrow> u8 \<Rightarrow> 'c option" where
  "keyed_find_child n byte = (case keyed_slot n byte of None \<Rightarrow> None | Some i \<Rightarrow> slot_at (kchildren n) i)"

text \<open>A write through the reference \<open>find_child_mut\<close> returns.\<close>

definition keyed_set_child :: "'c keyed \<Rightarrow> u8 \<Rightarrow> 'c option \<Rightarrow> 'c keyed" where
  "keyed_set_child n byte c =
     (case keyed_slot n byte of None \<Rightarrow> n | Some i \<Rightarrow> Keyed (keys n) ((kchildren n)[i := c]) (kcount n))"

definition swap :: "nat \<Rightarrow> nat \<Rightarrow> 'a list \<Rightarrow> 'a list" where
  "swap i j xs = xs[i := xs ! j, j := xs ! i]"

text \<open>The loop \<open>for i in (pos..n).rev()\<close> that makes room at \<open>pos\<close>.\<close>

definition shift_right :: "nat \<Rightarrow> nat \<Rightarrow> 'k list \<Rightarrow> 'c list \<Rightarrow> 'k list \<times> 'c list" where
  "shift_right pos n ks cs =
     foldl (\<lambda>(ks, cs) i. (ks[i + 1 := ks ! i], swap i (i + 1) cs)) (ks, cs) (rev [pos..<n])"

text \<open>The loop \<open>for i in pos..n\<close> that closes the gap at \<open>pos\<close>.\<close>

definition shift_left :: "nat \<Rightarrow> nat \<Rightarrow> 'k list \<Rightarrow> 'c list \<Rightarrow> 'k list \<times> 'c list" where
  "shift_left pos n ks cs =
     foldl (\<lambda>(ks, cs) i. (ks[i := ks ! (i + 1)], swap i (i + 1) cs)) (ks, cs) [pos..<n]"

text \<open>\<open>insert_child\<close>; on a full node the write past the arrays panics.\<close>

definition keyed_insert_child :: "u8 \<Rightarrow> 'c \<Rightarrow> 'c keyed \<Rightarrow> 'c keyed option" where
  "keyed_insert_child byte child n =
     (if keyed_is_full n then None
      else
        let pos = (case position (\<lambda>k. k > byte) (take (kcount n) (keys n)) of
                     Some p \<Rightarrow> p | None \<Rightarrow> kcount n);
            (ks, cs) = shift_right pos (kcount n) (keys n) (kchildren n)
        in Some (Keyed (ks[pos := byte]) (cs[pos := Some child]) (kcount n + 1)))"

definition keyed_remove_child :: "u8 \<Rightarrow> 'c keyed \<Rightarrow> 'c keyed" where
  "keyed_remove_child byte n =
     (case position (\<lambda>k. k = byte) (take (kcount n) (keys n)) of
        None \<Rightarrow> n
      | Some pos \<Rightarrow>
          let (ks, cs) = shift_left pos (kcount n - 1) (keys n) ((kchildren n)[pos := None])
          in Keyed (ks[kcount n - 1 := 0]) cs (kcount n - 1))"

text \<open>\<open>into_node16\<close> and \<open>into_node4\<close>: the first \<open>count\<close> places move to a fresh node of the
  other capacity, and a place past its arrays panics.\<close>

definition keyed_resize :: "nat \<Rightarrow> 'c keyed \<Rightarrow> 'c keyed option" where
  "keyed_resize cap n =
     (if cap < kcount n then None
      else
        let (ks, cs) = foldl (\<lambda>(ks, cs) i. (ks[i := keys n ! i], cs[i := kchildren n ! i]))
              (replicate cap 0, replicate cap None) [0..<kcount n]
        in Some (Keyed ks cs (kcount n)))"

lemma position_None: "position P xs = None \<longleftrightarrow> (\<forall>i < length xs. \<not> P (xs ! i))"
  by (induction xs) (auto simp: nth_Cons split: nat.splits)

lemma position_Some:
  "position P xs = Some i \<longleftrightarrow> i < length xs \<and> P (xs ! i) \<and> (\<forall>j < i. \<not> P (xs ! j))"
proof (induction xs arbitrary: i)
  case Nil
  then show ?case by simp
next
  case (Cons x xs)
  then show ?case by (cases i) (auto simp: nth_Cons split: nat.splits)
qed

lemma length_swap [simp]: "length (swap i j xs) = length xs"
  by (simp add: swap_def)

lemma nth_swap:
  "i < length xs \<Longrightarrow> j < length xs \<Longrightarrow>
     swap i j xs ! k = (if k = j then xs ! i else if k = i then xs ! j else xs ! k)"
  by (auto simp: swap_def nth_list_update)

lemma shift_right_step:
  "pos \<le> n \<Longrightarrow> shift_right pos (Suc n) ks cs = shift_right pos n (ks[n + 1 := ks ! n]) (swap n (n + 1) cs)"
  by (simp add: shift_right_def)

lemma shift_right_nth:
  assumes "pos \<le> n" "n < length ks" "length cs = length ks" "shift_right pos n ks cs = (ks', cs')"
  shows "length ks' = length ks \<and> length cs' = length ks
    \<and> (\<forall>i. ks' ! i = (if pos < i \<and> i \<le> n then ks ! (i - 1) else ks ! i))
    \<and> (\<forall>i. i \<noteq> pos \<longrightarrow> cs' ! i = (if pos < i \<and> i \<le> n then cs ! (i - 1) else cs ! i))"
  using assms
proof (induction n arbitrary: ks cs)
  case 0
  then show ?case by (simp add: shift_right_def)
next
  case (Suc n)
  show ?case
  proof (cases "pos = Suc n")
    case True
    then show ?thesis using Suc.prems by (auto simp: shift_right_def)
  next
    case False
    then have "pos \<le> n" using Suc.prems by simp
    then have s: "shift_right pos n (ks[n + 1 := ks ! n]) (swap n (n + 1) cs) = (ks', cs')"
      using Suc.prems(4) by (simp add: shift_right_step)
    show ?thesis
      using Suc.IH [OF \<open>pos \<le> n\<close> _ _ s] Suc.prems(2,3) \<open>pos \<le> n\<close> by (auto simp: nth_list_update nth_swap)
  qed
qed

lemma shift_left_step:
  assumes "pos \<le> n" and "shift_left pos n ks cs = (ks1, cs1)"
  shows "shift_left pos (Suc n) ks cs = (ks1[n := ks1 ! (n + 1)], swap n (n + 1) cs1)"
  using assms by (simp add: shift_left_def)

lemma shift_left_nth:
  assumes "pos \<le> n" "n < length ks" "length cs = length ks" "shift_left pos n ks cs = (ks', cs')"
  shows "length ks' = length ks \<and> length cs' = length ks
    \<and> (\<forall>i. ks' ! i = (if pos \<le> i \<and> i < n then ks ! (i + 1) else ks ! i))
    \<and> (\<forall>i. cs' ! i = (if pos \<le> i \<and> i < n then cs ! (i + 1) else if i = n then cs ! pos else cs ! i))"
  using assms
proof (induction n arbitrary: ks' cs')
  case 0
  then show ?case by (simp add: shift_left_def)
next
  case (Suc n)
  show ?case
  proof (cases "pos = Suc n")
    case True
    then show ?thesis using Suc.prems by (auto simp: shift_left_def)
  next
    case False
    then have le: "pos \<le> n" using Suc.prems by simp
    obtain ks1 cs1 where s: "shift_left pos n ks cs = (ks1, cs1)" by fastforce
    show ?thesis
      using Suc.IH [OF le _ _ s] shift_left_step [OF le s] Suc.prems(2-4) le
      by (auto simp: nth_list_update nth_swap)
  qed
qed

section \<open>What the tree relies on\<close>

text \<open>
  A layout's operations: lookup, a write to an occupied place, insertion at a free byte, and
  removal of a place that has just been emptied through its reference (the order in which
  \<open>delete_recursive\<close> works).
\<close>

locale child_array =
  fixes find :: "'n \<Rightarrow> u8 \<Rightarrow> 'c option"
    and set_child :: "'n \<Rightarrow> u8 \<Rightarrow> 'c option \<Rightarrow> 'n"
    and insert_child :: "u8 \<Rightarrow> 'c \<Rightarrow> 'n \<Rightarrow> 'n option"
    and remove_child :: "u8 \<Rightarrow> 'n \<Rightarrow> 'n option"
    and inv :: "'n \<Rightarrow> bool"
    and room :: "'n \<Rightarrow> bool"
    and count :: "'n \<Rightarrow> nat"
  assumes find_insert: "inv n \<Longrightarrow> room n \<Longrightarrow> find n b = None \<Longrightarrow>
      \<exists>n'. insert_child b c n = Some n' \<and> inv n' \<and> find n' = (find n)(b \<mapsto> c)"
    and find_set: "inv n \<Longrightarrow> find n b \<noteq> None \<Longrightarrow>
      inv (set_child n b (Some c)) \<and> find (set_child n b (Some c)) = (find n)(b \<mapsto> c)"
    and find_remove: "inv n \<Longrightarrow> find n b \<noteq> None \<Longrightarrow>
      \<exists>n'. remove_child b (set_child n b None) = Some n' \<and> inv n' \<and> find n' = (find n)(b := None)"
    and count_le: "inv n \<Longrightarrow> card (dom (find n)) \<le> count n"
begin

lemma insert_Some:
  "inv n \<Longrightarrow> room n \<Longrightarrow> find n b = None \<Longrightarrow> insert_child b c n = Some n' \<Longrightarrow>
     inv n' \<and> find n' = (find n)(b \<mapsto> c)"
  using find_insert [of n b c] by auto

lemma remove_Some:
  "inv n \<Longrightarrow> find n b \<noteq> None \<Longrightarrow> remove_child b (set_child n b None) = Some n' \<Longrightarrow>
     inv n' \<and> find n' = (find n)(b := None)"
  using find_remove [of n b] by auto

lemma finite_dom_find [simp]: "finite (dom (find n))"
  by (rule finite_subset [OF subset_UNIV]) simp

lemma count_zero: "inv n \<Longrightarrow> count n = 0 \<Longrightarrow> find n b = None"
  using count_le [of n] by (auto simp: dom_def)

end

text \<open>The layouts whose counter is exact.\<close>

locale exact_child_array = child_array +
  assumes count_eq: "inv n \<Longrightarrow> count n = card (dom (find n))"
begin

lemma count_one: "inv n \<Longrightarrow> count n = 1 \<Longrightarrow> \<exists>b c. find n = [b \<mapsto> c]"
proof -
  assume "inv n" "count n = 1"
  then obtain b where b: "dom (find n) = {b}" using count_eq by (auto simp: card_Suc_eq)
  then obtain c where "find n b = Some c" by blast
  then show ?thesis using b by (intro exI [of _ b] exI [of _ c]) (auto simp: fun_eq_iff dom_def)
qed

end

definition keyed_inv :: "nat \<Rightarrow> 'c keyed \<Rightarrow> bool" where
  "keyed_inv cap n \<longleftrightarrow> length (keys n) = cap \<and> length (kchildren n) = cap \<and> kcount n \<le> cap
     \<and> (\<forall>i j. i < j \<longrightarrow> j < kcount n \<longrightarrow> keys n ! i < keys n ! j)
     \<and> (\<forall>i < kcount n. kchildren n ! i \<noteq> None)"

lemma keyed_new_inv: "keyed_inv cap (keyed_new cap)"
  by (simp add: keyed_inv_def keyed_new_def)

lemma keyed_inj:
  "keyed_inv cap n \<Longrightarrow> i < kcount n \<Longrightarrow> j < kcount n \<Longrightarrow> keys n ! i = keys n ! j \<Longrightarrow> i = j"
  by (metis keyed_inv_def linorder_neqE_nat order_less_irrefl)

lemma keyed_slot_SomeD:
  assumes "keyed_inv cap n" and "keyed_slot n b = Some i"
  shows "i < kcount n" "keys n ! i = b"
  using assms by (auto simp: keyed_slot_def position_Some keyed_inv_def)

lemma keyed_slot_None:
  "keyed_inv cap n \<Longrightarrow> keyed_slot n b = None \<longleftrightarrow> (\<forall>i < kcount n. keys n ! i \<noteq> b)"
  by (auto simp: keyed_slot_def position_None keyed_inv_def)

lemma keyed_slot_at:
  assumes "keyed_inv cap n" and "i < kcount n"
  shows "keyed_slot n (keys n ! i) = Some i"
proof (cases "keyed_slot n (keys n ! i)")
  case None
  then show ?thesis using assms(2) unfolding keyed_slot_None [OF assms(1)] by blast
next
  case (Some j)
  then show ?thesis using keyed_slot_SomeD [OF assms(1) Some] keyed_inj [OF assms(1)] assms(2) by simp
qed

lemma keyed_find_at: "keyed_inv cap n \<Longrightarrow> i < kcount n \<Longrightarrow> keyed_find_child n (keys n ! i) = kchildren n ! i"
  using keyed_slot_at [of cap n i] by (simp add: keyed_find_child_def keyed_inv_def)

lemma keyed_find_None:
  assumes "keyed_inv cap n"
  shows "keyed_find_child n b = None \<longleftrightarrow> (\<forall>i < kcount n. keys n ! i \<noteq> b)"
proof
  assume none: "keyed_find_child n b = None"
  show "\<forall>i < kcount n. keys n ! i \<noteq> b"
    using none keyed_find_at [OF assms] assms by (auto simp: keyed_inv_def)
next
  assume "\<forall>i < kcount n. keys n ! i \<noteq> b"
  then show "keyed_find_child n b = None"
    using keyed_slot_None [OF assms, of b] by (simp add: keyed_find_child_def)
qed

lemma keyed_find_Some:
  assumes "keyed_inv cap n"
  shows "keyed_find_child n b = Some c \<longleftrightarrow> (\<exists>i < kcount n. keys n ! i = b \<and> kchildren n ! i = Some c)"
proof (cases "\<exists>i < kcount n. keys n ! i = b")
  case True
  then obtain i where i: "i < kcount n" "b = keys n ! i" by blast
  then show ?thesis using keyed_find_at [OF assms i(1)] keyed_inj [OF assms] by metis
next
  case False
  then show ?thesis using keyed_find_None [OF assms, of b] by auto
qed

lemma option_fun_eqI: "(\<And>b c. f b = Some c \<longleftrightarrow> g b = Some c) \<Longrightarrow> f = g"
  by (rule ext) (metis not_None_eq)

lemma keyed_dom:
  assumes "keyed_inv cap n"
  shows "dom (keyed_find_child n) = (\<lambda>i. keys n ! i) ` {..<kcount n}"
proof -
  have "b \<in> dom (keyed_find_child n) \<longleftrightarrow> b \<in> (\<lambda>i. keys n ! i) ` {..<kcount n}" for b
    using keyed_find_None [OF assms, of b] by (auto simp: domIff)
  then show ?thesis by blast
qed

lemma keyed_count: "keyed_inv cap n \<Longrightarrow> kcount n = card (dom (keyed_find_child n))"
  using keyed_inj [of cap n] by (simp add: keyed_dom card_image inj_on_def)

lemma keyed_set_ok:
  assumes "keyed_inv cap n" and "keyed_find_child n b \<noteq> None"
  shows "keyed_inv cap (keyed_set_child n b (Some c))
    \<and> keyed_find_child (keyed_set_child n b (Some c)) = (keyed_find_child n)(b \<mapsto> c)"
proof -
  obtain i where i: "i < kcount n" "keys n ! i = b" "keyed_slot n b = Some i"
    using assms keyed_find_None [OF assms(1), of b] keyed_slot_at [OF assms(1)] by auto
  let ?n = "Keyed (keys n) ((kchildren n)[i := Some c]) (kcount n)"
  have s: "keyed_set_child n b (Some c) = ?n" by (simp add: keyed_set_child_def i)
  have inv: "keyed_inv cap ?n" using assms(1) i(1) by (auto simp: keyed_inv_def nth_list_update)
  have len: "i < length (kchildren n)" using assms(1) i(1) by (simp add: keyed_inv_def)
  have "keyed_find_child ?n b' = ((keyed_find_child n)(b \<mapsto> c)) b'" for b'
  proof (cases "\<exists>j < kcount n. keys n ! j = b'")
    case True
    then obtain j where j: "j < kcount n" "keys n ! j = b'" by blast
    then show ?thesis
      using keyed_find_at [OF inv, of j] keyed_find_at [OF assms(1), of j] keyed_inj [OF assms(1), of i j] i len
      by (auto simp: nth_list_update)
  next
    case False
    then show ?thesis
      using keyed_find_None [OF inv, of b'] keyed_find_None [OF assms(1), of b'] i by auto
  qed
  then show ?thesis using inv by (simp add: s fun_eq_iff)
qed

text \<open>Insertion at the position of the first greater key keeps the keys sorted.\<close>

lemma keyed_insert_pos:
  assumes "keyed_inv cap n" and "keyed_find_child n b = None"
    and "pos = (case position (\<lambda>k. k > b) (take (kcount n) (keys n)) of Some p \<Rightarrow> p | None \<Rightarrow> kcount n)"
  shows "pos \<le> kcount n" "i < pos \<Longrightarrow> keys n ! i < b" "pos \<le> i \<Longrightarrow> i < kcount n \<Longrightarrow> b < keys n ! i"
proof -
  have len: "kcount n \<le> length (keys n)"
    and srt: "\<And>i j. i < j \<Longrightarrow> j < kcount n \<Longrightarrow> keys n ! i < keys n ! j"
    using assms(1) by (simp_all add: keyed_inv_def)
  have ne: "\<And>i. i < kcount n \<Longrightarrow> keys n ! i \<noteq> b" using keyed_find_None assms(1,2) by blast
  let ?p = "position (\<lambda>k. k > b) (take (kcount n) (keys n))"
  have "pos \<le> kcount n \<and> (i < pos \<longrightarrow> keys n ! i < b) \<and> (pos \<le> i \<longrightarrow> i < kcount n \<longrightarrow> b < keys n ! i)"
  proof (cases ?p)
    case None
    then have "pos = kcount n" using assms(3) by simp
    moreover have "\<And>j. j < kcount n \<Longrightarrow> \<not> b < keys n ! j"
      using None len by (simp add: position_None)
    ultimately show ?thesis using ne [of i] by (force simp: not_less le_less)
  next
    case (Some p)
    then have p: "p < kcount n" "b < keys n ! p" "\<And>j. j < p \<Longrightarrow> \<not> b < keys n ! j"
      using len by (auto simp: position_Some)
    then show ?thesis
      using assms(3) Some ne [of i] srt [of p i] by (force simp: not_less le_less)
  qed
  then show "pos \<le> kcount n" "i < pos \<Longrightarrow> keys n ! i < b"
    "pos \<le> i \<Longrightarrow> i < kcount n \<Longrightarrow> b < keys n ! i" by auto
qed

lemma keyed_insert_ok:
  assumes inv: "keyed_inv cap n" and room: "kcount n < cap" and free: "keyed_find_child n b = None"
  shows "\<exists>n'. keyed_insert_child b c n = Some n' \<and> keyed_inv cap n'
    \<and> keyed_find_child n' = (keyed_find_child n)(b \<mapsto> c)"
proof -
  define pos where "pos = (case position (\<lambda>k. k > b) (take (kcount n) (keys n)) of Some p \<Rightarrow> p | None \<Rightarrow> kcount n)"
  note at = keyed_insert_pos [OF inv free pos_def]
  obtain ks cs where sh: "shift_right pos (kcount n) (keys n) (kchildren n) = (ks, cs)" by fastforce
  have lens: "length (keys n) = cap" "length (kchildren n) = cap" using inv by (simp_all add: keyed_inv_def)
  note nth = shift_right_nth [OF at(1) _ _ sh]
  define n' where "n' = Keyed (ks[pos := b]) (cs[pos := Some c]) (kcount n + 1)"
  have ins: "keyed_insert_child b c n = Some n'"
    using room lens sh by (simp add: keyed_insert_child_def keyed_is_full_def pos_def [symmetric] n'_def)
  have cnt: "kcount n' = kcount n + 1" by (simp add: n'_def)
  have len': "length (keys n') = cap" "length (kchildren n') = cap" using nth lens room by (simp_all add: n'_def)
  have k': "keys n' ! i = (if i = pos then b else if pos < i \<and> i \<le> kcount n then keys n ! (i - 1) else keys n ! i)"
    for i using nth lens room at(1) by (auto simp: n'_def nth_list_update)
  have c': "kchildren n' ! i = (if i = pos then Some c else if pos < i \<and> i \<le> kcount n then kchildren n ! (i - 1) else kchildren n ! i)"
    for i using nth lens room at(1) by (auto simp: n'_def nth_list_update)
  have srt: "\<And>i j. i < j \<Longrightarrow> j < kcount n \<Longrightarrow> keys n ! i < keys n ! j"
    and occ: "\<And>i. i < kcount n \<Longrightarrow> kchildren n ! i \<noteq> None" using inv by (simp_all add: keyed_inv_def)
  have inv': "keyed_inv cap n'"
    unfolding keyed_inv_def
  proof (intro conjI allI impI len')
    show "kcount n' \<le> cap" using room cnt by simp
    show "keys n' ! i < keys n' ! j" if "i < j" "j < kcount n'" for i j
      using that at(1) at(2) [of i] at(3) [of "j - 1"] srt [of i j] srt [of i "j - 1"] srt [of "i - 1" "j - 1"]
      by (auto simp: k' cnt)
    show "kchildren n' ! i \<noteq> None" if "i < kcount n'" for i
      using that at(1) occ [of i] occ [of "i - 1"] by (auto simp: c' cnt)
  qed
  have "keyed_find_child n' = (keyed_find_child n)(b \<mapsto> c)"
  proof (rule option_fun_eqI)
    fix b' x
    show "keyed_find_child n' b' = Some x \<longleftrightarrow> ((keyed_find_child n)(b \<mapsto> c)) b' = Some x"
    proof (cases "b' = b")
      case True
      then show ?thesis
        using keyed_find_at [OF inv', of pos] at(1) by (simp add: k' c' cnt)
    next
      case False
      have "(\<exists>i < kcount n'. keys n' ! i = b' \<and> kchildren n' ! i = Some x)
          \<longleftrightarrow> (\<exists>i < kcount n. keys n ! i = b' \<and> kchildren n ! i = Some x)" (is "?L \<longleftrightarrow> ?R")
      proof
        assume ?L
        then obtain i where i: "i < kcount n + 1" "keys n' ! i = b'" "kchildren n' ! i = Some x" by (auto simp: cnt)
        then show ?R
          using False at(1) by (intro exI [of _ "if i < pos then i else i - 1"]) (auto simp: k' c' split: if_splits)
      next
        assume ?R
        then obtain i where i: "i < kcount n" "keys n ! i = b'" "kchildren n ! i = Some x" by blast
        then show ?L
          using at(1) by (intro exI [of _ "if i < pos then i else i + 1"]) (auto simp: k' c' cnt)
      qed
      then show ?thesis using False by (simp add: keyed_find_Some [OF inv'] keyed_find_Some [OF inv])
    qed
  qed
  then show ?thesis using ins inv' by blast
qed

lemma keyed_remove_ok:
  assumes inv: "keyed_inv cap n" and occ: "keyed_find_child n b \<noteq> None"
  shows "keyed_inv cap (keyed_remove_child b (keyed_set_child n b None))
    \<and> keyed_find_child (keyed_remove_child b (keyed_set_child n b None)) = (keyed_find_child n)(b := None)"
proof -
  obtain p where p: "p < kcount n" "keys n ! p = b" "keyed_slot n b = Some p"
    using inv occ keyed_find_None [OF inv, of b] keyed_slot_at [OF inv] by auto
  have lens: "length (keys n) = cap" "length (kchildren n) = cap" "kcount n \<le> cap"
    using inv by (simp_all add: keyed_inv_def)
  obtain ks cs where sh: "shift_left p (kcount n - 1) (keys n) ((kchildren n)[p := None]) = (ks, cs)" by fastforce
  note nth = shift_left_nth [OF _ _ _ sh]
  define n' where "n' = Keyed (ks[kcount n - 1 := 0]) cs (kcount n - 1)"
  have rem: "keyed_remove_child b (keyed_set_child n b None) = n'"
    using p(3) sh by (simp add: keyed_remove_child_def keyed_set_child_def n'_def keyed_slot_def)
  have cnt: "kcount n' = kcount n - 1" by (simp add: n'_def)
  have len': "length (keys n') = cap" "length (kchildren n') = cap" using nth lens p(1) by (auto simp: n'_def)
  have k': "keys n' ! i = (if i < p then keys n ! i else keys n ! (i + 1))" if "i < kcount n'" for i
    using nth lens p(1) that by (auto simp: n'_def)
  have c': "kchildren n' ! i = (if i < p then kchildren n ! i else kchildren n ! (i + 1))" if "i < kcount n'" for i
    using nth lens p(1) that by (auto simp: n'_def nth_list_update)
  have inv': "keyed_inv cap n'"
    using inv p(1) len' by (auto simp: keyed_inv_def k' c' cnt)
  have "keyed_find_child n' = (keyed_find_child n)(b := None)"
  proof (rule option_fun_eqI)
    fix b' x
    have "(\<exists>i < kcount n'. keys n' ! i = b' \<and> kchildren n' ! i = Some x)
        \<longleftrightarrow> b' \<noteq> b \<and> (\<exists>i < kcount n. keys n ! i = b' \<and> kchildren n ! i = Some x)" (is "?L \<longleftrightarrow> ?R")
    proof
      assume ?L
      then obtain i where i: "i < kcount n'" "keys n' ! i = b'" "kchildren n' ! i = Some x" by blast
      define j where "j = (if i < p then i else i + 1)"
      have j: "j < kcount n" "j \<noteq> p" "keys n ! j = b'" "kchildren n ! j = Some x"
        using i p(1) by (auto simp: k' c' cnt j_def)
      then have "b' \<noteq> b" using keyed_inj [OF inv, of j p] p by auto
      then show ?R using j by blast
    next
      assume R: ?R
      then obtain i where i: "i < kcount n" "keys n ! i = b'" "kchildren n ! i = Some x" by blast
      with R have "i \<noteq> p" using p by auto
      then show ?L
        using i p(1) by (intro exI [of _ "if i < p then i else i - 1"]) (auto simp: k' c' cnt)
    qed
    then show "keyed_find_child n' b' = Some x \<longleftrightarrow> ((keyed_find_child n)(b := None)) b' = Some x"
      by (simp add: keyed_find_Some [OF inv'] keyed_find_Some [OF inv])
  qed
  then show ?thesis using inv' rem by simp
qed

interpretation keyed: exact_child_array keyed_find_child keyed_set_child keyed_insert_child
  "\<lambda>b n. Some (keyed_remove_child b n)" "keyed_inv cap" "\<lambda>n. kcount n < cap" kcount for cap
  by unfold_locales
    (auto simp: keyed_insert_ok keyed_set_ok keyed_remove_ok keyed_count [symmetric])

lemma transfer_nth:
  assumes "m \<le> cap"
    and "foldl (\<lambda>(ks, cs) i. (ks[i := f i], cs[i := g i])) (replicate cap a, replicate cap z) [0..<m] = (ks, cs)"
  shows "length ks = cap \<and> length cs = cap
    \<and> (\<forall>i < cap. ks ! i = (if i < m then f i else a) \<and> cs ! i = (if i < m then g i else z))"
  using assms
proof (induction m arbitrary: ks cs)
  case 0
  then show ?case by auto
next
  case (Suc m)
  obtain ks1 cs1 where f: "foldl (\<lambda>(ks, cs) i. (ks[i := f i], cs[i := g i]))
      (replicate cap a, replicate cap z) [0..<m] = (ks1, cs1)" by fastforce
  then show ?case using Suc.IH [OF _ f] Suc.prems by (auto simp: nth_list_update)
qed

lemma keyed_resize_ok:
  assumes "keyed_inv cap n" and "kcount n \<le> cap'"
  shows "\<exists>n'. keyed_resize cap' n = Some n' \<and> keyed_inv cap' n' \<and> kcount n' = kcount n
    \<and> keyed_find_child n' = keyed_find_child n"
proof -
  obtain ks cs where f: "foldl (\<lambda>(ks, cs) i. (ks[i := keys n ! i], cs[i := kchildren n ! i]))
      (replicate cap' 0, replicate cap' None) [0..<kcount n] = (ks, cs)" by fastforce
  let ?n = "Keyed ks cs (kcount n)"
  have nth: "length ks = cap'" "length cs = cap'"
    "\<And>i. i < kcount n \<Longrightarrow> ks ! i = keys n ! i" "\<And>i. i < kcount n \<Longrightarrow> cs ! i = kchildren n ! i"
    using transfer_nth [OF assms(2) f] assms(2) by auto
  have inv: "keyed_inv cap' ?n" using assms nth by (auto simp: keyed_inv_def)
  have "keyed_find_child ?n = keyed_find_child n"
    by (rule option_fun_eqI) (auto simp: keyed_find_Some [OF inv] keyed_find_Some [OF assms(1)] nth)
  then show ?thesis using inv f assms(2) by (simp add: keyed_resize_def)
qed

section \<open>Node48\<close>

definition EMPTY_SLOT :: u8 where
  "EMPTY_SLOT = 255"

datatype 'c node48 = Node48 (child_index: "u8 list") (children48: "'c option list") (count48: nat)

definition node48_new :: "'c node48" where
  "node48_new = Node48 (replicate 256 EMPTY_SLOT) (replicate 48 None) 0"

definition node48_find_child :: "'c node48 \<Rightarrow> u8 \<Rightarrow> 'c option" where
  "node48_find_child n byte =
     (let idx = child_index n ! unat byte
      in if idx = EMPTY_SLOT then None else slot_at (children48 n) (unat idx))"

definition node48_set_child :: "'c node48 \<Rightarrow> u8 \<Rightarrow> 'c option \<Rightarrow> 'c node48" where
  "node48_set_child n byte c =
     (let idx = child_index n ! unat byte
      in if idx = EMPTY_SLOT then n
         else Node48 (child_index n) ((children48 n)[unat idx := c]) (count48 n))"

definition node48_insert_child :: "u8 \<Rightarrow> 'c \<Rightarrow> 'c node48 \<Rightarrow> 'c node48 option" where
  "node48_insert_child byte child n =
     (case position (\<lambda>c. c = None) (children48 n) of
        None \<Rightarrow> None
      | Some slot \<Rightarrow> Some (Node48 ((child_index n)[unat byte := word_of_nat slot])
                            ((children48 n)[slot := Some child]) (count48 n + 1)))"

definition node48_remove_child :: "u8 \<Rightarrow> 'c node48 \<Rightarrow> 'c node48" where
  "node48_remove_child byte n =
     (let idx = child_index n ! unat byte
      in if idx = EMPTY_SLOT then n
         else Node48 ((child_index n)[unat byte := EMPTY_SLOT]) ((children48 n)[unat idx := None])
                (count48 n - 1))"

abbreviation idx48 :: "'c node48 \<Rightarrow> u8 \<Rightarrow> u8" where
  "idx48 n b \<equiv> child_index n ! unat b"

definition node48_inv :: "'c node48 \<Rightarrow> bool" where
  "node48_inv n \<longleftrightarrow> length (child_index n) = 256 \<and> length (children48 n) = 48
     \<and> (\<forall>b. idx48 n b \<noteq> EMPTY_SLOT \<longrightarrow>
          unat (idx48 n b) < 48 \<and> children48 n ! unat (idx48 n b) \<noteq> None)
     \<and> (\<forall>b b'. idx48 n b \<noteq> EMPTY_SLOT \<longrightarrow>
          idx48 n b = idx48 n b' \<longrightarrow> b = b')
     \<and> (\<forall>j < 48. children48 n ! j \<noteq> None \<longrightarrow> (\<exists>b. idx48 n b = word_of_nat j))
     \<and> count48 n = card {b. idx48 n b \<noteq> EMPTY_SLOT}"

lemma node48_invD:
  assumes "node48_inv n"
  shows "length (child_index n) = 256" "length (children48 n) = 48"
    "idx48 n b \<noteq> EMPTY_SLOT \<Longrightarrow> unat (idx48 n b) < 48"
    "idx48 n b \<noteq> EMPTY_SLOT \<Longrightarrow> children48 n ! unat (idx48 n b) \<noteq> None"
    "idx48 n b \<noteq> EMPTY_SLOT \<Longrightarrow> idx48 n b = idx48 n b' \<Longrightarrow> b = b'"
    "j < 48 \<Longrightarrow> children48 n ! j \<noteq> None \<Longrightarrow> \<exists>b. idx48 n b = word_of_nat j"
    "count48 n = card {b. idx48 n b \<noteq> EMPTY_SLOT}"
  using assms unfolding node48_inv_def by blast+

lemma node48_invI:
  assumes "length (child_index n) = 256" "length (children48 n) = 48"
    "\<And>b. idx48 n b \<noteq> EMPTY_SLOT \<Longrightarrow> unat (idx48 n b) < 48"
    "\<And>b. idx48 n b \<noteq> EMPTY_SLOT \<Longrightarrow> children48 n ! unat (idx48 n b) \<noteq> None"
    "\<And>b b'. idx48 n b \<noteq> EMPTY_SLOT \<Longrightarrow> idx48 n b = idx48 n b' \<Longrightarrow> b = b'"
    "\<And>j. j < 48 \<Longrightarrow> children48 n ! j \<noteq> None \<Longrightarrow> \<exists>b. idx48 n b = word_of_nat j"
    "count48 n = card {b. idx48 n b \<noteq> EMPTY_SLOT}"
  shows "node48_inv n"
  using assms unfolding node48_inv_def by blast

lemma unat_byte_less: "unat (b :: u8) < 256"
  using unsigned_less [of b] by simp

lemma unat_byte_eq [simp]: "unat (b :: u8) = unat b' \<longleftrightarrow> b = b'"
  by (rule word_unat_eq_iff [symmetric])

lemma slot_word:
  assumes "j < 48"
  shows "unat (word_of_nat j :: u8) = j" "(word_of_nat j :: u8) \<noteq> EMPTY_SLOT"
proof -
  show u: "unat (word_of_nat j :: u8) = j" using assms by (simp add: unat_of_nat_small)
  have "unat EMPTY_SLOT = 255" by (simp add: EMPTY_SLOT_def)
  then show "(word_of_nat j :: u8) \<noteq> EMPTY_SLOT" using u assms by auto
qed

lemma node48_find_eq:
  "node48_inv n \<Longrightarrow> node48_find_child n b =
     (if idx48 n b = EMPTY_SLOT then None else children48 n ! unat (idx48 n b))"
  using node48_invD(2,3) [of n] by (simp add: node48_find_child_def Let_def)

lemma node48_new_inv: "node48_inv node48_new"
  by (auto simp: node48_inv_def node48_new_def unat_byte_less)

lemma node48_new_find [simp]: "node48_find_child node48_new b = None"
  by (simp add: node48_find_child_def node48_new_def unat_byte_less)

lemma node48_dom: "node48_inv n \<Longrightarrow> dom (node48_find_child n) = {b. idx48 n b \<noteq> EMPTY_SLOT}"
  by (auto simp: node48_inv_def node48_find_child_def Let_def dom_def split: if_splits)

lemma node48_find_None: "node48_inv n \<Longrightarrow> node48_find_child n b = None \<longleftrightarrow> idx48 n b = EMPTY_SLOT"
  using node48_dom [of n] by blast

lemma node48_count: "node48_inv n \<Longrightarrow> count48 n = card (dom (node48_find_child n))"
  by (simp add: node48_dom) (simp add: node48_inv_def)

text \<open>Below 48 children a free place exists.\<close>

lemma node48_free_slot:
  assumes inv: "node48_inv n" and room: "count48 n < 48"
  shows "position (\<lambda>c. c = None) (children48 n) \<noteq> None"
proof
  assume "position (\<lambda>c. c = None) (children48 n) = None"
  then have "\<exists>b. idx48 n b = word_of_nat j" if "j < 48" for j
    using inv that by (auto simp: node48_inv_def position_None)
  then obtain g where g: "\<And>j. j < 48 \<Longrightarrow> idx48 n (g j) = word_of_nat j" by metis
  have "g ` {..<48} \<subseteq> {b. idx48 n b \<noteq> EMPTY_SLOT}" using g slot_word(2) by auto
  moreover have "inj_on g {..<48}" using g slot_word(1) by (metis inj_onI lessThan_iff)
  ultimately have "48 \<le> card {b. idx48 n b \<noteq> EMPTY_SLOT}"
    by (metis card_image card_lessThan card_mono finite_code)
  then show False using inv room by (simp add: node48_inv_def)
qed

lemma node48_insert_ok:
  assumes inv: "node48_inv n" and room: "count48 n < 48" and free: "node48_find_child n b = None"
  shows "\<exists>n'. node48_insert_child b c n = Some n' \<and> node48_inv n'
    \<and> node48_find_child n' = (node48_find_child n)(b \<mapsto> c)"
proof -
  obtain j where p: "position (\<lambda>c. c = None) (children48 n) = Some j"
    using node48_free_slot [OF inv room] by auto
  have lens: "length (child_index n) = 256" "length (children48 n) = 48" using inv by (simp_all add: node48_inv_def)
  have j: "j < 48" "children48 n ! j = None" using p lens by (auto simp: position_Some)
  define n' where "n' = Node48 ((child_index n)[unat b := word_of_nat j]) ((children48 n)[j := Some c]) (count48 n + 1)"
  have ins: "node48_insert_child b c n = Some n'" by (simp add: node48_insert_child_def p n'_def)
  have idx': "idx48 n' b' = (if b' = b then word_of_nat j else idx48 n b')" for b'
    by (simp add: n'_def lens unat_byte_less nth_list_update)
  have ch': "children48 n' ! i = (if i = j then Some c else children48 n ! i)" for i
    using j lens by (simp add: n'_def nth_list_update)
  have b: "idx48 n b = EMPTY_SLOT" using free node48_find_None [OF inv] by simp
  have fresh: "idx48 n b' \<noteq> word_of_nat j" for b'
    using node48_invD(4) [OF inv, of b'] j slot_word [OF j(1)] by auto
  have used: "{b'. idx48 n' b' \<noteq> EMPTY_SLOT} = insert b {b'. idx48 n b' \<noteq> EMPTY_SLOT}"
    using slot_word(2) [OF j(1)] by (auto simp: idx')
  have inv': "node48_inv n'"
  proof (rule node48_invI)
    show "length (child_index n') = 256" "length (children48 n') = 48" using lens by (simp_all add: n'_def)
    show "unat (idx48 n' b') < 48" if "idx48 n' b' \<noteq> EMPTY_SLOT" for b'
      using that node48_invD(3) [OF inv, of b'] j(1) slot_word(1) [OF j(1)] by (simp add: idx' split: if_splits)
    show "children48 n' ! unat (idx48 n' b') \<noteq> None" if "idx48 n' b' \<noteq> EMPTY_SLOT" for b'
      using that node48_invD(4) [OF inv, of b'] slot_word(1) [OF j(1)] by (simp add: idx' ch' split: if_splits)
    show "b1 = b2" if "idx48 n' b1 \<noteq> EMPTY_SLOT" "idx48 n' b1 = idx48 n' b2" for b1 b2
      using that node48_invD(5) [OF inv, of b1 b2] fresh [of b1] fresh [of b2] by (simp add: idx' split: if_splits)
    show "\<exists>b'. idx48 n' b' = word_of_nat i" if "i < 48" "children48 n' ! i \<noteq> None" for i
    proof (cases "i = j")
      case True
      then show ?thesis by (auto simp: idx')
    next
      case False
      then have "\<exists>b'. idx48 n b' = word_of_nat i"
        using node48_invD(6) [OF inv, of i] that by (simp add: ch')
      then obtain b' where b': "idx48 n b' = word_of_nat i" ..
      then have "b' \<noteq> b" using b slot_word(2) [OF \<open>i < 48\<close>] by auto
      then show ?thesis using b' by (auto simp: idx' intro: exI [of _ b'])
    qed
    show "count48 n' = card {b'. idx48 n' b' \<noteq> EMPTY_SLOT}"
      using node48_invD(7) [OF inv] b by (simp add: used) (simp add: n'_def)
  qed
  have "node48_find_child n' b' = ((node48_find_child n)(b \<mapsto> c)) b'" for b'
  proof -
    have "unat (idx48 n b') \<noteq> j" using fresh [of b'] slot_word(1) [OF j(1)] by auto
    then show ?thesis
      using slot_word [OF j(1)] by (simp add: node48_find_eq [OF inv] node48_find_eq [OF inv'] idx' ch')
  qed
  then show ?thesis using ins inv' by (auto simp: fun_eq_iff)
qed

lemma node48_set_ok:
  assumes inv: "node48_inv n" and occ: "node48_find_child n b \<noteq> None"
  shows "node48_inv (node48_set_child n b (Some c))
    \<and> node48_find_child (node48_set_child n b (Some c)) = (node48_find_child n)(b \<mapsto> c)"
proof -
  have b: "idx48 n b \<noteq> EMPTY_SLOT" using occ node48_find_None [OF inv] by simp
  define n' where "n' = Node48 (child_index n) ((children48 n)[unat (idx48 n b) := Some c]) (count48 n)"
  have s: "node48_set_child n b (Some c) = n'" using b by (simp add: node48_set_child_def n'_def)
  have lt: "unat (idx48 n b) < length (children48 n)" "children48 n ! unat (idx48 n b) \<noteq> None"
    using inv b by (auto simp: node48_inv_def)
  have ch': "children48 n' ! i = (if i = unat (idx48 n b) then Some c else children48 n ! i)" for i
    using lt by (simp add: n'_def nth_list_update)
  have idx': "child_index n' = child_index n" "count48 n' = count48 n" "length (children48 n') = length (children48 n)"
    by (simp_all add: n'_def)
  have inv': "node48_inv n'"
    using inv lt unfolding node48_inv_def idx' by (auto simp: ch')
  have inj: "b' = b" if "idx48 n b = idx48 n b'" for b' using inv b that unfolding node48_inv_def by metis
  have "node48_find_child n' b' = ((node48_find_child n)(b \<mapsto> c)) b'" for b'
    using inj [of b'] b by (auto simp: node48_find_eq [OF inv] node48_find_eq [OF inv'] idx' ch')
  then show ?thesis using inv' by (simp add: s fun_eq_iff)
qed

lemma node48_remove_ok:
  assumes inv: "node48_inv n" and occ: "node48_find_child n b \<noteq> None"
  shows "node48_inv (node48_remove_child b (node48_set_child n b None))
    \<and> node48_find_child (node48_remove_child b (node48_set_child n b None)) = (node48_find_child n)(b := None)"
proof -
  have b: "idx48 n b \<noteq> EMPTY_SLOT" using occ node48_find_None [OF inv] by simp
  define n' where "n' = Node48 ((child_index n)[unat b := EMPTY_SLOT])
    ((children48 n)[unat (idx48 n b) := None]) (count48 n - 1)"
  have r: "node48_remove_child b (node48_set_child n b None) = n'"
    using b by (simp add: node48_remove_child_def node48_set_child_def n'_def Let_def)
  have lens: "length (child_index n) = 256" "length (children48 n) = 48" using inv by (simp_all add: node48_inv_def)
  have lt: "unat (idx48 n b) < 48" using inv b by (simp add: node48_inv_def)
  have idx': "idx48 n' b' = (if b' = b then EMPTY_SLOT else idx48 n b')" for b'
    by (simp add: n'_def lens unat_byte_less nth_list_update)
  have ch': "children48 n' ! i = (if i = unat (idx48 n b) then None else children48 n ! i)" for i
    using lt lens by (simp add: n'_def nth_list_update)
  have inj: "b1 = b2" if "idx48 n b1 \<noteq> EMPTY_SLOT" "idx48 n b1 = idx48 n b2" for b1 b2
    using node48_invD(5) [OF inv] that by blast
  have used: "{b'. idx48 n b' \<noteq> EMPTY_SLOT} = insert b {b'. idx48 n' b' \<noteq> EMPTY_SLOT}"
    "b \<notin> {b'. idx48 n' b' \<noteq> EMPTY_SLOT}" using b by (auto simp: idx')
  have inv': "node48_inv n'"
  proof (rule node48_invI)
    show "length (child_index n') = 256" "length (children48 n') = 48" using lens by (simp_all add: n'_def)
    show "unat (idx48 n' b') < 48" if "idx48 n' b' \<noteq> EMPTY_SLOT" for b'
      using that node48_invD(3) [OF inv, of b'] by (simp add: idx' split: if_splits)
    show "children48 n' ! unat (idx48 n' b') \<noteq> None" if "idx48 n' b' \<noteq> EMPTY_SLOT" for b'
    proof -
      have "b' \<noteq> b" "idx48 n b' \<noteq> EMPTY_SLOT" using that by (simp_all add: idx' split: if_splits)
      moreover from this have "idx48 n b' \<noteq> idx48 n b" using inj by blast
      ultimately show ?thesis using node48_invD(4) [OF inv, of b'] by (simp add: idx' ch')
    qed
    show "b1 = b2" if "idx48 n' b1 \<noteq> EMPTY_SLOT" "idx48 n' b1 = idx48 n' b2" for b1 b2
      using that inj [of b1 b2] by (simp add: idx' split: if_splits)
    show "\<exists>b'. idx48 n' b' = word_of_nat i" if "i < 48" "children48 n' ! i \<noteq> None" for i
    proof -
      have i: "children48 n ! i \<noteq> None" "i \<noteq> unat (idx48 n b)" using that(2) by (auto simp: ch' split: if_splits)
      then obtain b' where b': "idx48 n b' = word_of_nat i" using node48_invD(6) [OF inv \<open>i < 48\<close>] by auto
      then have "b' \<noteq> b" using i(2) slot_word(1) [OF \<open>i < 48\<close>] by auto
      then show ?thesis using b' by (intro exI [of _ b']) (simp add: idx')
    qed
    show "count48 n' = card {b'. idx48 n' b' \<noteq> EMPTY_SLOT}"
      using node48_invD(7) [OF inv] used(2) by (simp add: used(1)) (simp add: n'_def)
  qed
  have "node48_find_child n' b' = ((node48_find_child n)(b := None)) b'" for b'
  proof (cases "b' = b")
    case False
    then have "idx48 n b' \<noteq> idx48 n b" using inj b by metis
    then show ?thesis using False by (simp add: node48_find_eq [OF inv] node48_find_eq [OF inv'] idx' ch')
  qed (simp add: node48_find_child_def idx')
  then show ?thesis using inv' by (simp add: r fun_eq_iff)
qed

interpretation n48: exact_child_array node48_find_child node48_set_child node48_insert_child
  "\<lambda>b n. Some (node48_remove_child b n)" node48_inv "\<lambda>n. count48 n < 48" count48
  by unfold_locales
    (auto simp: node48_insert_ok node48_set_ok node48_remove_ok node48_count [symmetric])

section \<open>Node256\<close>

datatype 'c node256 = Node256 (children256: "'c option list") (count256: u16)

definition node256_new :: "'c node256" where
  "node256_new = Node256 (replicate 256 None) 0"

definition node256_find_child :: "'c node256 \<Rightarrow> u8 \<Rightarrow> 'c option" where
  "node256_find_child n byte = slot_at (children256 n) (unat byte)"

definition node256_set_child :: "'c node256 \<Rightarrow> u8 \<Rightarrow> 'c option \<Rightarrow> 'c node256" where
  "node256_set_child n byte c = Node256 ((children256 n)[unat byte := c]) (count256 n)"

definition node256_insert_child :: "u8 \<Rightarrow> 'c \<Rightarrow> 'c node256 \<Rightarrow> 'c node256 option" where
  "node256_insert_child byte child n =
     Some (Node256 ((children256 n)[unat byte := Some child]) (count256 n + 1))"

definition node256_remove_child :: "u8 \<Rightarrow> 'c node256 \<Rightarrow> 'c node256" where
  "node256_remove_child byte n =
     (if children256 n ! unat byte \<noteq> None
      then Node256 ((children256 n)[unat byte := None]) (count256 n - 1) else n)"

definition node256_inv :: "'c node256 \<Rightarrow> bool" where
  "node256_inv n \<longleftrightarrow> length (children256 n) = 256 \<and> card (dom (node256_find_child n)) \<le> unat (count256 n)"

lemma node256_find_eq: "length (children256 n) = 256 \<Longrightarrow> node256_find_child n b = children256 n ! unat b"
  by (simp add: node256_find_child_def unat_byte_less)

lemma node256_find_upd:
  "length (children256 n) = 256 \<Longrightarrow>
     node256_find_child (Node256 ((children256 n)[unat b := c]) m) = (node256_find_child n)(b := c)"
  by (rule ext) (simp add: node256_find_child_def nth_list_update unat_byte_less)

lemma card_dom_upd: "card (dom (f(b := c))) \<le> (if f b = None then Suc (card (dom f)) else card (dom f))"
  for f :: "u8 \<Rightarrow> 'c option"
proof -
  have "dom (f(b := c)) \<subseteq> insert b (dom f)" by auto
  then have "card (dom (f(b := c))) \<le> card (insert b (dom f))" by (rule card_mono [rotated]) simp
  also have "\<dots> = (if f b = None then Suc (card (dom f)) else card (dom f))"
    by (auto simp: card_insert_if domIff)
  finally show ?thesis .
qed

lemma node256_insert_ok:
  assumes inv: "node256_inv n" and room: "unat (count256 n) < 65535" and free: "node256_find_child n b = None"
  shows "\<exists>n'. node256_insert_child b c n = Some n' \<and> node256_inv n'
    \<and> node256_find_child n' = (node256_find_child n)(b \<mapsto> c)"
proof -
  have "unat (count256 n + 1) = unat (count256 n) + 1"
    using room by (subst unat_add_lem [THEN iffD1]) simp_all
  then show ?thesis
    using inv card_dom_upd [of "node256_find_child n" b "Some c"] free
    by (auto simp: node256_insert_child_def node256_inv_def node256_find_upd)
qed

lemma node256_set_ok:
  assumes inv: "node256_inv n" and occ: "node256_find_child n b \<noteq> None"
  shows "node256_inv (node256_set_child n b c)
    \<and> node256_find_child (node256_set_child n b c) = (node256_find_child n)(b := c)"
  using inv card_dom_upd [of "node256_find_child n" b c] occ
  by (auto simp: node256_set_child_def node256_inv_def node256_find_upd)

text \<open>Once the place has been emptied through its reference, \<open>remove_child\<close> finds nothing to do.\<close>

lemma node256_remove_vacated:
  "length (children256 n) = 256 \<Longrightarrow> node256_remove_child b (node256_set_child n b None) = node256_set_child n b None"
  by (simp add: node256_remove_child_def node256_set_child_def unat_byte_less)

lemma node256_remove_ok:
  assumes "node256_inv n" and "node256_find_child n b \<noteq> None"
  shows "node256_inv (node256_remove_child b (node256_set_child n b None))
    \<and> node256_find_child (node256_remove_child b (node256_set_child n b None)) = (node256_find_child n)(b := None)"
proof -
  have "length (children256 n) = 256" using assms(1) by (simp add: node256_inv_def)
  then show ?thesis using node256_set_ok [OF assms, of None] by (simp only: node256_remove_vacated simp_thms)
qed

interpretation n256: child_array node256_find_child node256_set_child node256_insert_child
  "\<lambda>b n. Some (node256_remove_child b n)" node256_inv "\<lambda>n. unat (count256 n) < 65535" "unat \<circ> count256"
  by unfold_locales
    (simp_all add: node256_insert_ok node256_set_ok node256_remove_ok node256_inv_def [THEN iffD1])

section \<open>Growing and shrinking\<close>

text \<open>The bytes in the order of the loop \<open>for byte in 0..=255u8\<close>.\<close>

definition all_bytes :: "u8 list" where
  "all_bytes = map word_of_nat [0..<256]"

text \<open>
  The conversions fill a fresh node with the children in increasing order of their bytes; a
  write past the target's arrays panics. The places a conversion reads are pairwise
  different, so taking a child out of the old node does not affect a later read.
\<close>

definition fill_keyed :: "nat \<Rightarrow> u8 list \<Rightarrow> 'c option list \<Rightarrow> 'c keyed option" where
  "fill_keyed cap bs cs =
     (if cap < length bs then None
      else Some (Keyed (bs @ replicate (cap - length bs) 0) (cs @ replicate (cap - length bs) None) (length bs)))"

definition fill48 :: "u8 list \<Rightarrow> 'c option list \<Rightarrow> 'c node48 option" where
  "fill48 bs cs =
     (if 48 < length bs then None
      else Some (Node48 (foldl (\<lambda>ci j. ci[unat (bs ! j) := word_of_nat j]) (replicate 256 EMPTY_SLOT) [0..<length bs])
                   (cs @ replicate (48 - length bs) None) (length bs)))"

definition node16_into_node48 :: "'c keyed \<Rightarrow> 'c node48 option" where
  "node16_into_node48 n = fill48 (take (kcount n) (keys n)) (take (kcount n) (kchildren n))"

definition node48_into_node16 :: "'c node48 \<Rightarrow> 'c keyed option" where
  "node48_into_node16 n =
     (let bs = filter (\<lambda>byte. child_index n ! unat byte \<noteq> EMPTY_SLOT) all_bytes
      in fill_keyed 16 bs (map (\<lambda>byte. children48 n ! unat (child_index n ! unat byte)) bs))"

definition node48_into_node256 :: "'c node48 \<Rightarrow> 'c node256" where
  "node48_into_node256 n =
     Node256
       (map (\<lambda>byte. let idx = child_index n ! unat byte
                    in if idx = EMPTY_SLOT then None else children48 n ! unat idx) all_bytes)
       (word_of_nat (length (filter (\<lambda>byte. child_index n ! unat byte \<noteq> EMPTY_SLOT) all_bytes)))"

definition node256_into_node48 :: "'c node256 \<Rightarrow> 'c node48 option" where
  "node256_into_node48 n =
     (let bs = filter (\<lambda>byte. children256 n ! unat byte \<noteq> None) all_bytes
      in fill48 bs (map (\<lambda>byte. children256 n ! unat byte) bs))"

lemma set_all_bytes [simp]: "set all_bytes = UNIV"
proof -
  have "b = word_of_nat (unat b)" "unat b < 256" for b :: u8 by (simp_all add: unat_byte_less)
  then have "b \<in> set all_bytes" for b unfolding all_bytes_def by force
  then show ?thesis by blast
qed

lemma nth_all_bytes: "i < 256 \<Longrightarrow> all_bytes ! i = word_of_nat i"
  by (simp add: all_bytes_def)

lemma length_all_bytes [simp]: "length all_bytes = 256"
  by (simp add: all_bytes_def)

lemma sorted_all_bytes: "sorted_wrt (<) all_bytes"
  by (simp add: sorted_wrt_iff_nth_less nth_all_bytes word_less_nat_alt unat_of_nat_small)

lemma sorted_filter_bytes: "sorted_wrt (<) (filter P all_bytes)"
  using sorted_all_bytes by (rule sorted_wrt_filter)

lemma distinct_filter_bytes: "distinct (filter P all_bytes)"
  using sorted_filter_bytes [of P] by (simp add: strict_sorted_iff)

lemma length_filter_bytes: "length (filter P all_bytes) = card {b. P b}"
  using distinct_card [OF distinct_filter_bytes [of P]] by simp

lemma fill_keyed_ok:
  assumes "sorted_wrt (<) bs" and "length bs \<le> cap" and "\<forall>b \<in> set bs. f b \<noteq> None" and "\<forall>b. b \<notin> set bs \<longrightarrow> f b = None"
  shows "\<exists>n. fill_keyed cap bs (map f bs) = Some n \<and> keyed_inv cap n \<and> keyed_find_child n = f"
proof -
  let ?n = "Keyed (bs @ replicate (cap - length bs) 0) (map f bs @ replicate (cap - length bs) None) (length bs)"
  have inv: "keyed_inv cap ?n"
    using assms by (auto simp: keyed_inv_def nth_append sorted_wrt_iff_nth_less)
  have "keyed_find_child ?n b = f b" for b
  proof (cases "b \<in> set bs")
    case True
    then obtain i where "i < length bs" "bs ! i = b" by (auto simp: in_set_conv_nth)
    then show ?thesis using keyed_find_at [OF inv, of i] by (simp add: nth_append)
  next
    case False
    then show ?thesis
      using keyed_find_None [OF inv, of b] assms(4) by (auto simp: nth_append)
  qed
  then show ?thesis using inv assms(2) by (auto simp: fill_keyed_def fun_eq_iff)
qed

lemma fill_idx:
  assumes "distinct bs" and "m \<le> length bs" and "length bs \<le> 48"
  defines "ci \<equiv> foldl (\<lambda>ci j. ci[unat (bs ! j) := word_of_nat j]) (replicate 256 EMPTY_SLOT) [0..<m]"
  shows "length ci = 256" and "j < m \<Longrightarrow> ci ! unat (bs ! j :: u8) = word_of_nat j"
    and "b \<notin> set (take m bs) \<Longrightarrow> ci ! unat b = EMPTY_SLOT"
proof -
  let ?ci = "\<lambda>m. foldl (\<lambda>ci j. ci[unat (bs ! j) := word_of_nat j]) (replicate 256 EMPTY_SLOT) [0..<m]"
  have "length (?ci m) = 256 \<and> (\<forall>j < m. ?ci m ! unat (bs ! j) = word_of_nat j)
     \<and> (\<forall>b. b \<notin> set (take m bs) \<longrightarrow> ?ci m ! unat b = EMPTY_SLOT)"
    using assms(2)
  proof (induction m)
    case 0
    then show ?case by (simp add: unat_byte_less)
  next
    case (Suc m)
    then have m: "m < length bs" by simp
    have "bs ! m \<noteq> bs ! j" if "j < m" for j using assms(1) m that by (simp add: nth_eq_iff_index_eq)
    then show ?case
      using Suc m by (auto simp: nth_list_update unat_byte_less take_Suc_conv_app_nth less_Suc_eq)
  qed
  then show "length ci = 256" "j < m \<Longrightarrow> ci ! unat (bs ! j) = word_of_nat j"
    "b \<notin> set (take m bs) \<Longrightarrow> ci ! unat b = EMPTY_SLOT" by (simp_all add: ci_def)
qed

lemma fill48_ok:
  assumes d: "distinct bs" and len: "length bs \<le> 48"
    and occ: "\<forall>b \<in> set bs. f b \<noteq> None" and free: "\<forall>b. b \<notin> set bs \<longrightarrow> f b = None"
  shows "\<exists>n. fill48 bs (map f bs) = Some n \<and> node48_inv n \<and> node48_find_child n = f"
proof -
  define ci where "ci = foldl (\<lambda>ci j. ci[unat (bs ! j) := word_of_nat j]) (replicate 256 EMPTY_SLOT) [0..<length bs]"
  note idx = fill_idx [OF d order.refl len, folded ci_def]
  define n where "n = Node48 ci (map f bs @ replicate (48 - length bs) None) (length bs)"
  have at: "idx48 n (bs ! j) = word_of_nat j" if "j < length bs" for j using idx(2) that by (simp add: n_def)
  have off: "idx48 n b = EMPTY_SLOT" if "b \<notin> set bs" for b using idx(3) that by (simp add: n_def)
  have ch: "children48 n ! j = (if j < length bs then f (bs ! j) else None)" if "j < 48" for j
    using that len by (simp add: n_def nth_append)
  have at': "unat (idx48 n (bs ! j)) = j" "idx48 n (bs ! j) \<noteq> EMPTY_SLOT" if "j < length bs" for j
    using at [OF that] slot_word [of j] that len by simp_all
  have pos: "\<exists>j < length bs. b = bs ! j" if "idx48 n b \<noteq> EMPTY_SLOT" for b
    using that off [of b] unfolding in_set_conv_nth by blast
  have used: "{b. idx48 n b \<noteq> EMPTY_SLOT} = set bs"
  proof (intro equalityI subsetI)
    fix b assume "b \<in> {b. idx48 n b \<noteq> EMPTY_SLOT}"
    then show "b \<in> set bs" using off [of b] by blast
  next
    fix b assume "b \<in> set bs"
    then obtain j where "j < length bs" "b = bs ! j" unfolding in_set_conv_nth by blast
    then show "b \<in> {b. idx48 n b \<noteq> EMPTY_SLOT}" using at'(2) by simp
  qed
  have inv: "node48_inv n"
  proof (rule node48_invI)
    show "length (child_index n) = 256" "length (children48 n) = 48" using idx(1) len by (simp_all add: n_def)
    show "unat (idx48 n b) < 48" if "idx48 n b \<noteq> EMPTY_SLOT" for b
      using pos [OF that] at'(1) len by auto
    show "children48 n ! unat (idx48 n b) \<noteq> None" if "idx48 n b \<noteq> EMPTY_SLOT" for b
      using pos [OF that] at'(1) ch occ len by auto
    show "b = b'" if "idx48 n b \<noteq> EMPTY_SLOT" "idx48 n b = idx48 n b'" for b b'
    proof -
      have "idx48 n b' \<noteq> EMPTY_SLOT" using that by simp
      then obtain i j where "i < length bs" "b = bs ! i" "j < length bs" "b' = bs ! j"
        using pos [OF \<open>idx48 n b \<noteq> EMPTY_SLOT\<close>] pos [of b'] by blast
      then show ?thesis using at'(1) that(2) by metis
    qed
    show "\<exists>b. idx48 n b = word_of_nat j" if "j < 48" "children48 n ! j \<noteq> None" for j
      using that ch [of j] at [of j] by (auto split: if_splits)
    show "count48 n = card {b. idx48 n b \<noteq> EMPTY_SLOT}"
      unfolding used using distinct_card [OF d] by (simp add: n_def)
  qed
  have "node48_find_child n b = f b" for b
  proof (cases "b \<in> set bs")
    case True
    then obtain j where "j < length bs" "b = bs ! j" by (auto simp: in_set_conv_nth)
    then show ?thesis using at' [of j] ch [of j] len by (simp add: node48_find_eq [OF inv])
  next
    case False
    then show ?thesis using off free by (simp add: node48_find_child_def)
  qed
  then show ?thesis using inv len by (auto simp: fill48_def fun_eq_iff n_def ci_def)
qed

lemma node16_into_node48_ok:
  assumes inv: "keyed_inv 16 n"
  shows "\<exists>n'. node16_into_node48 n = Some n' \<and> node48_inv n' \<and> node48_find_child n' = keyed_find_child n"
proof -
  let ?bs = "take (kcount n) (keys n)"
  have len: "kcount n \<le> length (keys n)" "kcount n \<le> length (kchildren n)" "kcount n \<le> 16"
    using inv by (auto simp: keyed_inv_def)
  have set: "b \<in> set ?bs \<longleftrightarrow> keyed_find_child n b \<noteq> None" for b
    unfolding keyed_find_None [OF inv, of b] using len(1) by (auto simp: in_set_conv_nth)
  have "map (keyed_find_child n) ?bs = take (kcount n) (kchildren n)"
    using keyed_find_at [OF inv] len by (intro nth_equalityI) auto
  then have e: "node16_into_node48 n = fill48 ?bs (map (keyed_find_child n) ?bs)"
    by (simp add: node16_into_node48_def)
  have "sorted_wrt (<) ?bs" using inv by (simp add: keyed_inv_def sorted_wrt_iff_nth_less)
  then have d: "distinct ?bs" by (simp add: strict_sorted_iff)
  have "length ?bs \<le> 48" using len by simp
  then show ?thesis unfolding e using set by (intro fill48_ok [OF d]) blast+
qed

lemma node48_find_idx: "node48_inv n \<Longrightarrow> idx48 n b \<noteq> EMPTY_SLOT \<Longrightarrow> children48 n ! unat (idx48 n b) = node48_find_child n b"
  by (simp add: node48_find_eq)

lemma node48_into_node16_ok:
  assumes inv: "node48_inv n" and small: "count48 n \<le> 16"
  shows "\<exists>n'. node48_into_node16 n = Some n' \<and> keyed_inv 16 n' \<and> keyed_find_child n' = node48_find_child n"
proof -
  let ?bs = "filter (\<lambda>byte. idx48 n byte \<noteq> EMPTY_SLOT) all_bytes"
  have "map (\<lambda>byte. children48 n ! unat (idx48 n byte)) ?bs = map (node48_find_child n) ?bs"
    by (simp add: node48_find_idx [OF inv])
  then have "node48_into_node16 n = fill_keyed 16 ?bs (map (node48_find_child n) ?bs)"
    unfolding node48_into_node16_def Let_def by (rule arg_cong)
  moreover have "length ?bs \<le> 16" using small node48_invD(7) [OF inv] by (simp add: length_filter_bytes)
  ultimately show ?thesis
    using fill_keyed_ok [OF sorted_filter_bytes, of "\<lambda>byte. idx48 n byte \<noteq> EMPTY_SLOT" 16 "node48_find_child n"]
      node48_find_None [OF inv]
    by simp
qed

lemma node48_into_node256_ok:
  assumes inv: "node48_inv n"
  shows "node256_inv (node48_into_node256 n) \<and> node256_find_child (node48_into_node256 n) = node48_find_child n
    \<and> unat (count256 (node48_into_node256 n)) = count48 n"
proof -
  have f: "node256_find_child (node48_into_node256 n) = node48_find_child n"
    by (rule ext) (simp add: node256_find_child_def node48_into_node256_def nth_all_bytes unat_byte_less
        node48_find_eq [OF inv] Let_def)
  have "card {b :: u8. P b} < 65536" for P
    using card_mono [of "UNIV :: u8 set" "{b. P b}"] by (simp add: card_word)
  then have c: "unat (count256 (node48_into_node256 n)) = count48 n"
    using node48_invD(7) [OF inv] by (simp add: node48_into_node256_def length_filter_bytes unat_of_nat_small)
  show ?thesis
    using f c node48_count [OF inv] by (simp add: node256_inv_def) (simp add: node48_into_node256_def)
qed

lemma node256_into_node48_ok:
  assumes inv: "node256_inv n" and small: "unat (count256 n) \<le> 48"
  shows "\<exists>n'. node256_into_node48 n = Some n' \<and> node48_inv n' \<and> node48_find_child n' = node256_find_child n"
proof -
  let ?bs = "filter (\<lambda>byte. children256 n ! unat byte \<noteq> None) all_bytes"
  have len: "length (children256 n) = 256" using inv by (simp add: node256_inv_def)
  have "length ?bs = card (dom (node256_find_child n))"
    by (simp add: length_filter_bytes dom_def node256_find_eq [OF len])
  then have "length ?bs \<le> 48" using inv small by (simp add: node256_inv_def)
  then show ?thesis
    using fill48_ok [OF distinct_filter_bytes, of "\<lambda>byte. children256 n ! unat byte \<noteq> None" "node256_find_child n"]
    by (simp add: node256_into_node48_def Let_def node256_find_eq [OF len, abs_def] node256_find_eq [OF len])
qed

section \<open>Inner nodes\<close>

datatype 'c node_type = N4 "'c keyed" | N16 "'c keyed" | N48 "'c node48" | N256 "'c node256"

definition new_node4 :: "'c node_type" where
  "new_node4 = N4 (keyed_new 4)"

fun find_child :: "'c node_type \<Rightarrow> u8 \<Rightarrow> 'c option" where
  "find_child (N4 n) byte = keyed_find_child n byte"
| "find_child (N16 n) byte = keyed_find_child n byte"
| "find_child (N48 n) byte = node48_find_child n byte"
| "find_child (N256 n) byte = node256_find_child n byte"

fun set_child :: "'c node_type \<Rightarrow> u8 \<Rightarrow> 'c option \<Rightarrow> 'c node_type" where
  "set_child (N4 n) byte c = N4 (keyed_set_child n byte c)"
| "set_child (N16 n) byte c = N16 (keyed_set_child n byte c)"
| "set_child (N48 n) byte c = N48 (node48_set_child n byte c)"
| "set_child (N256 n) byte c = N256 (node256_set_child n byte c)"

fun num_children :: "'c node_type \<Rightarrow> nat" where
  "num_children (N4 n) = kcount n"
| "num_children (N16 n) = kcount n"
| "num_children (N48 n) = count48 n"
| "num_children (N256 n) = unat (count256 n)"

fun is_full :: "'c node_type \<Rightarrow> bool" where
  "is_full (N4 n) \<longleftrightarrow> kcount n \<ge> 4"
| "is_full (N16 n) \<longleftrightarrow> kcount n \<ge> 16"
| "is_full (N48 n) \<longleftrightarrow> count48 n \<ge> 48"
| "is_full (N256 n) \<longleftrightarrow> False"

fun should_shrink :: "'c node_type \<Rightarrow> bool" where
  "should_shrink (N4 n) \<longleftrightarrow> False"
| "should_shrink (N16 n) \<longleftrightarrow> kcount n \<le> 4"
| "should_shrink (N48 n) \<longleftrightarrow> count48 n \<le> 16"
| "should_shrink (N256 n) \<longleftrightarrow> count256 n \<le> 48"

fun grow :: "'c node_type \<Rightarrow> 'c node_type option" where
  "grow (N4 n) = map_option N16 (keyed_resize 16 n)"
| "grow (N16 n) = map_option N48 (node16_into_node48 n)"
| "grow (N48 n) = Some (N256 (node48_into_node256 n))"
| "grow (N256 n) = None"

fun shrink :: "'c node_type \<Rightarrow> 'c node_type option" where
  "shrink (N4 n) = None"
| "shrink (N16 n) = map_option N4 (keyed_resize 4 n)"
| "shrink (N48 n) = map_option N16 (node48_into_node16 n)"
| "shrink (N256 n) = map_option N48 (node256_into_node48 n)"

fun insert_child :: "u8 \<Rightarrow> 'c \<Rightarrow> 'c node_type \<Rightarrow> 'c node_type option" where
  "insert_child byte child (N4 n) = map_option N4 (keyed_insert_child byte child n)"
| "insert_child byte child (N16 n) = map_option N16 (keyed_insert_child byte child n)"
| "insert_child byte child (N48 n) = map_option N48 (node48_insert_child byte child n)"
| "insert_child byte child (N256 n) = map_option N256 (node256_insert_child byte child n)"

fun drop_child :: "u8 \<Rightarrow> 'c node_type \<Rightarrow> 'c node_type" where
  "drop_child byte (N4 n) = N4 (keyed_remove_child byte n)"
| "drop_child byte (N16 n) = N16 (keyed_remove_child byte n)"
| "drop_child byte (N48 n) = N48 (node48_remove_child byte n)"
| "drop_child byte (N256 n) = N256 (node256_remove_child byte n)"

definition add_child :: "u8 \<Rightarrow> 'c \<Rightarrow> 'c node_type \<Rightarrow> 'c node_type option" where
  "add_child byte child n =
     Option.bind (if is_full n then grow n else Some n) (insert_child byte child)"

definition remove_child :: "u8 \<Rightarrow> 'c node_type \<Rightarrow> 'c node_type option" where
  "remove_child byte n =
     (let n' = drop_child byte n in if should_shrink n' then shrink n' else Some n')"

fun take_single_child :: "'c node_type \<Rightarrow> (u8 \<times> 'c) option" where
  "take_single_child (N4 n) = map_option (Pair (keys n ! 0)) (kchildren n ! 0)"
| "take_single_child (N16 n) = map_option (Pair (keys n ! 0)) (kchildren n ! 0)"
| "take_single_child (N48 n) =
     Option.bind (find (\<lambda>byte. child_index n ! unat byte \<noteq> EMPTY_SLOT) all_bytes)
       (\<lambda>byte. map_option (Pair byte) (children48 n ! unat (child_index n ! unat byte)))"
| "take_single_child (N256 n) =
     Option.bind (find (\<lambda>byte. children256 n ! unat byte \<noteq> None) all_bytes)
       (\<lambda>byte. map_option (Pair byte) (children256 n ! unat byte))"

fun nt_inv :: "'c node_type \<Rightarrow> bool" where
  "nt_inv (N4 n) \<longleftrightarrow> keyed_inv 4 n"
| "nt_inv (N16 n) \<longleftrightarrow> keyed_inv 16 n"
| "nt_inv (N48 n) \<longleftrightarrow> node48_inv n"
| "nt_inv (N256 n) \<longleftrightarrow> node256_inv n"

text \<open>The counter of a \<open>Node256\<close> is below its last value.\<close>

fun nt_room :: "'c node_type \<Rightarrow> bool" where
  "nt_room (N256 n) \<longleftrightarrow> unat (count256 n) < 65535"
| "nt_room n \<longleftrightarrow> True"

fun nt_free :: "'c node_type \<Rightarrow> bool" where
  "nt_free (N4 n) \<longleftrightarrow> kcount n < 4"
| "nt_free (N16 n) \<longleftrightarrow> kcount n < 16"
| "nt_free (N48 n) \<longleftrightarrow> count48 n < 48"
| "nt_free (N256 n) \<longleftrightarrow> unat (count256 n) < 65535"

lemma grow_ok:
  assumes "nt_inv n" and "is_full n"
  shows "\<exists>n'. grow n = Some n' \<and> nt_inv n' \<and> find_child n' = find_child n \<and> nt_free n'"
proof (cases n)
  case (N4 k)
  then have "kcount k = 4" using assms by (simp add: keyed_inv_def)
  then obtain k' where "keyed_resize 16 k = Some k'" "keyed_inv 16 k'" "kcount k' = 4"
    "keyed_find_child k' = keyed_find_child k"
    using keyed_resize_ok [of 4 k 16] assms(1) N4 by auto
  then show ?thesis by (simp add: N4 fun_eq_iff)
next
  case (N16 k)
  then have c: "kcount k = 16" using assms by (simp add: keyed_inv_def)
  obtain k' where k': "node16_into_node48 k = Some k'" "node48_inv k'" "node48_find_child k' = keyed_find_child k"
    using node16_into_node48_ok [of k] assms(1) N16 by auto
  then have "count48 k' = 16"
    using node48_count [OF k'(2)] keyed_count [of 16 k] assms(1) c by (simp add: N16)
  then show ?thesis using k' by (simp add: N16 fun_eq_iff)
next
  case (N48 k)
  then have "count48 k \<le> 256"
    using node48_invD(7) [of k] assms(1) card_mono [of "UNIV :: u8 set" "{b. idx48 k b \<noteq> EMPTY_SLOT}"]
    by (simp add: card_word)
  then show ?thesis
    using node48_into_node256_ok [of k] assms(1) by (simp add: N48 fun_eq_iff)
next
  case (N256 k)
  then show ?thesis using assms by simp
qed

lemma insert_child_ok:
  assumes "nt_inv n" and "nt_free n" and "find_child n b = None"
  shows "\<exists>n'. insert_child b c n = Some n' \<and> nt_inv n' \<and> find_child n' = (find_child n)(b \<mapsto> c)"
proof (cases n)
  case (N4 k)
  then show ?thesis using keyed_insert_ok [of 4 k b c] assms by (auto simp: fun_eq_iff)
next
  case (N16 k)
  then show ?thesis using keyed_insert_ok [of 16 k b c] assms by (auto simp: fun_eq_iff)
next
  case (N48 k)
  then show ?thesis using node48_insert_ok [of k b c] assms by (auto simp: fun_eq_iff)
next
  case (N256 k)
  then show ?thesis using node256_insert_ok [of k b c] assms by (auto simp: fun_eq_iff)
qed

lemma add_child_ok:
  assumes "nt_inv n" and "nt_room n" and "find_child n b = None"
  shows "\<exists>n'. add_child b c n = Some n' \<and> nt_inv n' \<and> find_child n' = (find_child n)(b \<mapsto> c)"
proof (cases "is_full n")
  case True
  then obtain n1 where "grow n = Some n1" "nt_inv n1" "find_child n1 = find_child n" "nt_free n1"
    using grow_ok assms(1) by blast
  then show ?thesis using insert_child_ok [of n1 b c] assms(3) True by (simp add: add_child_def)
next
  case False
  then have "nt_free n" using assms(2) by (cases n) auto
  then show ?thesis using insert_child_ok [OF assms(1) _ assms(3)] False by (simp add: add_child_def)
qed

lemma set_child_ok:
  assumes "nt_inv n" and "find_child n b \<noteq> None"
  shows "nt_inv (set_child n b (Some c)) \<and> find_child (set_child n b (Some c)) = (find_child n)(b \<mapsto> c)"
  using assms keyed_set_ok node48_set_ok node256_set_ok by (cases n) (fastforce simp: fun_eq_iff)+

lemma drop_child_ok:
  assumes "nt_inv n" and "find_child n b \<noteq> None"
  shows "nt_inv (drop_child b (set_child n b None))
    \<and> find_child (drop_child b (set_child n b None)) = (find_child n)(b := None)"
  using assms keyed_remove_ok node48_remove_ok node256_remove_ok by (cases n) (fastforce simp: fun_eq_iff)+

lemma shrink_ok:
  assumes "nt_inv n" and "should_shrink n"
  shows "\<exists>n'. shrink n = Some n' \<and> nt_inv n' \<and> find_child n' = find_child n \<and> (\<forall>k. n' \<noteq> N256 k)"
proof (cases n)
  case (N4 k)
  then show ?thesis using assms by simp
next
  case (N16 k)
  then show ?thesis using keyed_resize_ok [of 16 k 4] assms by (auto simp: fun_eq_iff)
next
  case (N48 k)
  then show ?thesis using node48_into_node16_ok [of k] assms by (auto simp: fun_eq_iff)
next
  case (N256 k)
  then have "unat (count256 k) \<le> 48" using assms(2) by (simp add: word_le_nat_alt)
  then show ?thesis using node256_into_node48_ok [of k] assms(1) N256 by (auto simp: fun_eq_iff)
qed

text \<open>After a removal a \<open>Node256\<close> counts more than 48 children, so a count of 0 or 1 is exact.\<close>

lemma remove_child_ok:
  assumes "nt_inv n" and "find_child n b \<noteq> None"
  shows "\<exists>n'. remove_child b (set_child n b None) = Some n' \<and> nt_inv n'
    \<and> find_child n' = (find_child n)(b := None) \<and> (\<forall>k. n' = N256 k \<longrightarrow> 48 < num_children n')"
proof (cases "should_shrink (drop_child b (set_child n b None))")
  case True
  then show ?thesis
    using shrink_ok [of "drop_child b (set_child n b None)"] drop_child_ok [OF assms]
    by (auto simp: remove_child_def Let_def)
next
  case False
  then show ?thesis
    using drop_child_ok [OF assms]
    by (cases "drop_child b (set_child n b None)") (auto simp: remove_child_def Let_def word_le_nat_alt)
qed

lemma nt_count_le: "nt_inv n \<Longrightarrow> card (dom (find_child n)) \<le> num_children n"
  using keyed.count_le n48.count_le n256.count_le by (cases n) (auto simp: dom_def)

interpretation nt: child_array find_child set_child add_child remove_child nt_inv nt_room num_children
  using remove_child_ok by unfold_locales (simp_all add: add_child_ok set_child_ok nt_count_le, blast)

lemma find_byte: "P b \<Longrightarrow> (\<And>b'. P b' \<Longrightarrow> b' = b) \<Longrightarrow> List.find P all_bytes = Some b"
proof (cases "List.find P all_bytes")
  case None
  assume "P b"
  then show ?thesis using None by (simp add: find_None_iff)
next
  case (Some b')
  assume "\<And>b'. P b' \<Longrightarrow> b' = b"
  then show ?thesis using Some by (auto simp: find_Some_iff)
qed

lemma keyed_single:
  assumes "keyed_inv cap n" and "kcount n = 1"
  shows "\<exists>c. kchildren n ! 0 = Some c \<and> keyed_find_child n = [keys n ! 0 \<mapsto> c]"
proof -
  obtain b c where f: "keyed_find_child n = [b \<mapsto> c]" using keyed.count_one [OF assms] by blast
  moreover have "keyed_find_child n (keys n ! 0) = kchildren n ! 0" "kchildren n ! 0 \<noteq> None"
    using keyed_find_at [OF assms(1), of 0] assms by (auto simp: keyed_inv_def)
  ultimately show ?thesis by (auto split: if_splits)
qed

lemma take_single_child_ok:
  assumes "nt_inv n" and "num_children n = 1" and "\<And>k. n \<noteq> N256 k"
  shows "\<exists>b c. take_single_child n = Some (b, c) \<and> find_child n = [b \<mapsto> c]"
proof (cases n)
  case (N4 k)
  then show ?thesis using keyed_single [of 4 k] assms by (auto simp: fun_eq_iff)
next
  case (N16 k)
  then show ?thesis using keyed_single [of 16 k] assms by (auto simp: fun_eq_iff)
next
  case (N48 k)
  then have inv: "node48_inv k" and one: "count48 k = 1" using assms by auto
  obtain b c where f: "node48_find_child k = [b \<mapsto> c]" using n48.count_one [OF inv one] by blast
  then have used: "idx48 k b' \<noteq> EMPTY_SLOT \<longleftrightarrow> b' = b" for b'
    using node48_find_None [OF inv, of b'] by (auto split: if_splits)
  then have "List.find (\<lambda>b'. idx48 k b' \<noteq> EMPTY_SLOT) all_bytes = Some b" by (intro find_byte) auto
  moreover have "children48 k ! unat (idx48 k b) = Some c" using node48_find_idx [OF inv, of b] used f by simp
  ultimately show ?thesis using f by (simp add: N48 fun_eq_iff)
next
  case (N256 k)
  then show ?thesis using assms by simp
qed

text \<open>
  An inner node of any layout behaves as a map from bytes to children: adding a child at a
  free byte never fails below the counter's limit, through every growth step, and changes
  that byte only; removing an occupied byte never fails, through every shrink step, and
  empties that byte only.
\<close>

theorem inner_node_refines_map:
  assumes "nt_inv n"
  shows "(nt_room n \<longrightarrow> find_child n b = None \<longrightarrow>
            (\<exists>n'. add_child b c n = Some n' \<and> nt_inv n' \<and> find_child n' = (find_child n)(b \<mapsto> c)))
       \<and> (find_child n b \<noteq> None \<longrightarrow>
            (\<exists>n'. remove_child b (set_child n b None) = Some n' \<and> nt_inv n' \<and> find_child n' = (find_child n)(b := None)))"
  using nt.find_insert [OF assms, of b c] nt.find_remove [OF assms, of b] by blast

definition demo_node4 :: "nat node_type" where
  "demo_node4 = N4 (Keyed [2, 5, 7, 9] [Some 20, Some 50, Some 70, Some 90] 4)"

lemma demo_node4_inv: "nt_inv demo_node4"
  by (auto simp: demo_node4_def keyed_inv_def less_Suc_eq nth_Cons split: nat.splits)

theorem inner_node_refines_map_witness:
  "\<exists>n'. add_child 6 60 demo_node4 = Some n' \<and> find_child n' 6 = Some 60 \<and> find_child n' 9 = Some 90"
proof -
  have "find_child demo_node4 6 = None" "find_child demo_node4 9 = Some 90" "nt_room demo_node4"
    by code_simp+
  then show ?thesis using inner_node_refines_map [OF demo_node4_inv, of 6 60] by auto
qed

text \<open>
  C39: The counter of a \<open>Node256\<close> only ever grows. Deleting a child first takes it out of its
  slot, so that \<open>Node256::remove_child\<close> finds the slot empty and leaves the counter as it is.
  When the counter has reached 65,535, the next insertion wraps it to zero, and the first
  deletion after that tries to shrink a node with more than 48 children and panics.
\<close>

theorem node256_counter_wraps:
  assumes "length (children256 n) = 256"
  shows "num_children (drop_child b (set_child (N256 n) b None)) = num_children (N256 n)
    \<and> (count256 n = 65535 \<longrightarrow> find_child (N256 n) b = None \<longrightarrow> 48 < card (dom (find_child (N256 n))) \<longrightarrow>
        (\<exists>n'. add_child b c (N256 n) = Some n' \<and> num_children n' = 0
           \<and> (\<forall>b'. find_child n' b' \<noteq> None \<longrightarrow> remove_child b' (set_child n' b' None) = None)))"
proof -
  have keep: "drop_child b (set_child (N256 m) b None) = N256 (node256_set_child m b None)"
    if "length (children256 m) = 256" for m b
    using node256_remove_vacated [OF that, of b] by simp
  {
    assume full: "count256 n = 65535" and free: "find_child (N256 n) b = None"
      and many: "48 < card (dom (find_child (N256 n)))"
    define m where "m = Node256 ((children256 n)[unat b := Some c]) 0"
    have add: "add_child b c (N256 n) = Some (N256 m)"
      by (simp add: add_child_def node256_insert_child_def full m_def)
    have "find_child (N256 n) = node256_find_child n" by (simp add: fun_eq_iff)
    then have n: "node256_find_child n b = None" "48 < card (dom (node256_find_child n))" using free many by simp_all
    have fm: "node256_find_child m = (node256_find_child n)(b \<mapsto> c)"
      using assms by (simp add: m_def node256_find_upd)
    have lm: "length (children256 m) = 256" using assms by (simp add: m_def)
    have "remove_child b' (set_child (N256 m) b' None) = None" if b': "find_child (N256 m) b' \<noteq> None" for b'
    proof -
      let ?k = "node256_set_child m b' None"
      have "node256_find_child ?k = (node256_find_child m)(b' := None)"
        using lm by (simp add: node256_set_child_def node256_find_upd)
      moreover have "b' \<in> insert b (dom (node256_find_child n))" using b' fm by (auto split: if_splits)
      moreover have "dom (node256_find_child m) = insert b (dom (node256_find_child n))" by (simp add: fm)
      ultimately have "card (dom (node256_find_child ?k)) = card (dom (node256_find_child n))"
        using n(1) by (simp add: card_Diff_singleton domIff)
      then have "48 < card {b :: u8. children256 ?k ! unat b \<noteq> None}"
        using n(2) lm by (simp add: dom_def node256_find_eq node256_set_child_def assms)
      then have "node256_into_node48 ?k = None"
        by (simp add: node256_into_node48_def fill48_def length_filter_bytes)
      moreover have "count256 ?k = 0" by (simp add: node256_set_child_def m_def)
      ultimately show ?thesis by (simp add: remove_child_def keep [OF lm, simplified])
    qed
    then have "\<exists>n'. add_child b c (N256 n) = Some n' \<and> num_children n' = 0
        \<and> (\<forall>b'. find_child n' b' \<noteq> None \<longrightarrow> remove_child b' (set_child n' b' None) = None)"
      using add by (intro exI [of _ "N256 m"]) (simp add: m_def)
  }
  then show ?thesis using keep [OF assms, of b] by (simp add: node256_set_child_def)
qed

definition demo_node256 :: "nat node256" where
  "demo_node256 = Node256 (None # replicate 255 (Some 7)) 65535"

theorem node256_counter_wraps_witness:
  "\<exists>n'. add_child 0 8 (N256 demo_node256) = Some n' \<and> num_children n' = 0
     \<and> remove_child 1 (set_child n' 1 None) = None"
proof -
  have f: "find_child (N256 demo_node256) b = (if b = 0 then None else Some 7)" for b
    using unat_byte_less [of b] unat_byte_eq [of b 0]
    by (auto simp: demo_node256_def node256_find_child_def nth_Cons split: nat.splits simp del: unat_byte_eq)
  have "dom (find_child (N256 demo_node256)) = UNIV - {0}" by (auto simp: f dom_def simp del: find_child.simps)
  then have "card (dom (find_child (N256 demo_node256))) = 255" by (simp add: card_Diff_singleton card_word)
  moreover have "length (children256 demo_node256) = 256" "count256 demo_node256 = 65535" by (simp_all add: demo_node256_def)
  ultimately obtain n' where n': "add_child 0 8 (N256 demo_node256) = Some n'" "num_children n' = 0"
    "\<And>b'. find_child n' b' \<noteq> None \<Longrightarrow> remove_child b' (set_child n' b' None) = None"
    using node256_counter_wraps [of demo_node256 0 8] f by auto
  moreover from n'(1) have "find_child n' 1 = Some 7"
    by (auto simp: add_child_def node256_insert_child_def node256_find_child_def demo_node256_def)
  ultimately show ?thesis by auto
qed

end
