(* ===== verification/Art.thy ===== *)
theory Art
  imports ArtNode
begin

text \<open>
  The adaptive radix tree of \<open>art/mod.rs\<close>, the primary-key index: insertion, lookup and
  deletion with path compression over the nodes of \<open>ArtNode\<close>, the conditional relocation
  compaction uses, and the rebuild. A panic of the recursive functions (a slice out of
  range, or one of the node operations) is \<open>None\<close>.

  A key ends in an implicit zero byte (\<open>unwrap_or(0)\<close>). Two keys one of which is the other
  followed by a zero byte and more cannot be told apart that way, so the tree is correct
  for a set of keys without such a pair (\<open>key_space\<close>).
\<close>

datatype row_location =
  MemtableLoc (loc_shard: u8) (loc_key: bytes)
| SstLoc (sst_id: u64) (block_offset: u64) (row_offset: u32)

datatype art_node = Leaf bytes row_location | Inner bytes "art_node node_type"

definition common_prefix_len :: "bytes \<Rightarrow> bytes \<Rightarrow> nat" where
  "common_prefix_len a b = length (takeWhile (\<lambda>(x, y). x = y) (zip a b))"

text \<open>\<open>key.get(d).copied().unwrap_or(0)\<close>.\<close>

definition byte_at :: "bytes \<Rightarrow> nat \<Rightarrow> u8" where
  "byte_at key d = (if d < length key then key ! d else 0)"

lemma slot_in_set: "slot_at xs i = Some c \<Longrightarrow> Some c \<in> set xs"
  by (auto simp: slot_at_def in_set_conv_nth split: if_splits)

lemma find_child_in_set: "find_child n b = Some c \<Longrightarrow> c \<in> set_node_type n"
proof (cases n)
  case (N4 k)
  then show "find_child n b = Some c \<Longrightarrow> ?thesis"
    by (cases k) (auto simp: keyed_find_child_def split: option.splits dest!: slot_in_set intro!: bexI)
next
  case (N16 k)
  then show "find_child n b = Some c \<Longrightarrow> ?thesis"
    by (cases k) (auto simp: keyed_find_child_def split: option.splits dest!: slot_in_set intro!: bexI)
next
  case (N48 k)
  then show "find_child n b = Some c \<Longrightarrow> ?thesis"
    by (cases k) (auto simp: node48_find_child_def Let_def split: if_splits dest!: slot_in_set intro!: bexI)
next
  case (N256 k)
  then show "find_child n b = Some c \<Longrightarrow> ?thesis"
    by (cases k) (auto simp: node256_find_child_def dest!: slot_in_set intro!: bexI)
qed

lemma size_slots: "Some c \<in> set xs \<Longrightarrow> f c \<le> size_list (size_option f) xs"
  by (induction xs) auto

lemma size_node_type_child: "c \<in> set_node_type n \<Longrightarrow> f c < Suc (size_node_type f n)"
  for f :: "'c \<Rightarrow> nat"
proof (cases n)
  case (N4 k)
  then show "c \<in> set_node_type n \<Longrightarrow> ?thesis" by (cases k) (auto simp: less_Suc_eq_le intro!: le_SucI size_slots)
next
  case (N16 k)
  then show "c \<in> set_node_type n \<Longrightarrow> ?thesis" by (cases k) (auto simp: less_Suc_eq_le intro!: le_SucI size_slots)
next
  case (N48 k)
  then show "c \<in> set_node_type n \<Longrightarrow> ?thesis" by (cases k) (auto simp: less_Suc_eq_le intro!: le_SucI size_slots)
next
  case (N256 k)
  then show "c \<in> set_node_type n \<Longrightarrow> ?thesis" by (cases k) (auto simp: less_Suc_eq_le intro!: le_SucI size_slots)
qed

lemma find_child_size [termination_simp]: "find_child n b = Some c \<Longrightarrow> size c < Suc (size_node_type size n)"
  for c :: art_node
  by (rule size_node_type_child) (rule find_child_in_set)

fun insert_recursive :: "art_node \<Rightarrow> bytes \<Rightarrow> row_location \<Rightarrow> nat \<Rightarrow> (art_node \<times> bool) option" where
  "insert_recursive (Leaf k v) key value depth =
     (if k = key then Some (Leaf k value, True)
      else if length k < depth \<or> length key < depth then None
      else
        let prefix_len = common_prefix_len (drop depth k) (drop depth key);
            pre = take prefix_len (drop depth key);
            split_depth = depth + prefix_len
        in Option.bind (add_child (byte_at k split_depth) (Leaf k v) new_node4) (\<lambda>n1.
           map_option (\<lambda>n2. (Inner pre n2, False))
             (add_child (byte_at key split_depth) (Leaf key value) n1)))"
| "insert_recursive (Inner pre n) key value depth =
     (let prefix_match_len = common_prefix_len pre (drop depth key)
      in if prefix_match_len < length pre then
           Option.bind (add_child (pre ! prefix_match_len)
               (Inner (drop (prefix_match_len + 1) pre) n) new_node4) (\<lambda>n1.
           map_option (\<lambda>n2. (Inner (take prefix_match_len pre) n2, False))
             (add_child (byte_at key (depth + prefix_match_len)) (Leaf key value) n1))
         else
           let next_depth = depth + length pre;
               byte = byte_at key next_depth
           in case find_child n byte of
                Some child \<Rightarrow>
                  map_option (\<lambda>(child', replaced). (Inner pre (set_child n byte (Some child')), replaced))
                    (insert_recursive child key value (next_depth + 1))
              | None \<Rightarrow>
                  map_option (\<lambda>n'. (Inner pre n', False)) (add_child byte (Leaf key value) n))"

fun lookup_recursive :: "art_node \<Rightarrow> bytes \<Rightarrow> nat \<Rightarrow> row_location option" where
  "lookup_recursive (Leaf k v) key depth = (if k = key then Some v else None)"
| "lookup_recursive (Inner pre n) key depth =
     (if common_prefix_len pre (drop depth key) < length pre then None
      else
        let next_depth = depth + length pre
        in case find_child n (byte_at key next_depth) of
             None \<Rightarrow> None
           | Some child \<Rightarrow> lookup_recursive child key (next_depth + 1))"

fun collapse :: "bytes \<Rightarrow> u8 \<Rightarrow> art_node \<Rightarrow> art_node" where
  "collapse pre child_byte (Inner child_pre n) = Inner (pre @ [child_byte] @ child_pre) n"
| "collapse pre child_byte (Leaf k v) = Leaf k v"

fun delete_recursive :: "art_node \<Rightarrow> bytes \<Rightarrow> nat \<Rightarrow> (art_node option \<times> bool \<times> row_location option) option" where
  "delete_recursive (Leaf k v) key depth =
     (if k = key then Some (None, True, Some v) else Some (Some (Leaf k v), False, None))"
| "delete_recursive (Inner pre n) key depth =
     (if common_prefix_len pre (drop depth key) < length pre then Some (Some (Inner pre n), False, None)
      else
        let next_depth = depth + length pre;
            byte = byte_at key next_depth
        in case find_child n byte of
             None \<Rightarrow> Some (Some (Inner pre n), False, None)
           | Some child \<Rightarrow>
               Option.bind (delete_recursive child key (next_depth + 1)) (\<lambda>(child', removed, value).
                 if removed \<and> child' = None then
                   Option.bind (remove_child byte (set_child n byte None)) (\<lambda>n'.
                     if num_children n' = 1 then
                       map_option (\<lambda>(child_byte, c). (Some (collapse pre child_byte c), removed, value))
                         (take_single_child n')
                     else if num_children n' = 0 then Some (None, removed, value)
                     else Some (Some (Inner pre n'), removed, value))
                 else Some (Some (Inner pre (set_child n byte child')), removed, value)))"

record art =
  root :: "art_node option"
  art_len :: nat

definition art_new :: art where
  "art_new = \<lparr>root = None, art_len = 0\<rparr>"

definition art_insert :: "bytes \<Rightarrow> row_location \<Rightarrow> art \<Rightarrow> art option" where
  "art_insert key value t =
     (case root t of
        None \<Rightarrow> Some \<lparr>root = Some (Leaf key value), art_len = art_len t + 1\<rparr>
      | Some r \<Rightarrow>
          map_option (\<lambda>(r', replaced).
              \<lparr>root = Some r', art_len = (if replaced then art_len t else art_len t + 1)\<rparr>)
            (insert_recursive r key value 0))"

definition art_lookup :: "art \<Rightarrow> bytes \<Rightarrow> row_location option" where
  "art_lookup t key = Option.bind (root t) (\<lambda>r. lookup_recursive r key 0)"

definition art_delete :: "bytes \<Rightarrow> art \<Rightarrow> (art \<times> row_location option) option" where
  "art_delete key t =
     (case root t of
        None \<Rightarrow> Some (t, None)
      | Some r \<Rightarrow>
          map_option (\<lambda>(r', removed, value).
              (\<lparr>root = r', art_len = (if removed then art_len t - 1 else art_len t)\<rparr>, value))
            (delete_recursive r key 0))"

definition relocate_if_points_to ::
  "bytes \<Rightarrow> u64 set \<Rightarrow> row_location \<Rightarrow> art \<Rightarrow> (art \<times> bool) option" where
  "relocate_if_points_to key expected new_location t =
     (case art_lookup t key of
        Some (SstLoc s _ _) \<Rightarrow>
          if s \<in> expected then map_option (\<lambda>t'. (t', True)) (art_insert key new_location t)
          else Some (t, False)
      | _ \<Rightarrow> Some (t, False))"

fun art_insert_all :: "(bytes \<times> row_location) list \<Rightarrow> art \<Rightarrow> art option" where
  "art_insert_all [] t = Some t"
| "art_insert_all ((k, v) # es) t = Option.bind (art_insert k v t) (art_insert_all es)"

definition rebuild_from_entries :: "(bytes \<times> row_location) list \<Rightarrow> art \<Rightarrow> art option" where
  "rebuild_from_entries entries t = art_insert_all entries art_new"

section \<open>Keys and paths\<close>

text \<open>No key is another one followed by a zero byte and possibly more.\<close>

definition key_space :: "bytes set \<Rightarrow> bool" where
  "key_space K \<longleftrightarrow> (\<forall>k1 \<in> K. \<forall>k2 \<in> K. \<not> prefix (k1 @ [0]) k2)"

lemma cpl_Cons [simp]:
  "common_prefix_len [] b = 0" "common_prefix_len a [] = 0"
  "common_prefix_len (x # a) (y # b) = (if x = y then Suc (common_prefix_len a b) else 0)"
  by (simp_all add: common_prefix_len_def)

lemma cpl_less: "common_prefix_len a b < length a \<longleftrightarrow> \<not> prefix a b"
proof (induction a arbitrary: b)
  case Nil
  then show ?case by simp
next
  case (Cons x a)
  then show ?case by (cases b) auto
qed

lemma cpl_take: "take (common_prefix_len a b) a = take (common_prefix_len a b) b"
  and cpl_le: "common_prefix_len a b \<le> length a" "common_prefix_len a b \<le> length b"
proof (induction a arbitrary: b)
  case (Cons x a)
  {
    case 1
    then show ?case using Cons(1) by (cases b) auto
  next
    case 2
    then show ?case using Cons(2) by (cases b) auto
  next
    case 3
    then show ?case using Cons(3) by (cases b) auto
  }
qed simp_all

lemma cpl_differ:
  "common_prefix_len a b < length a \<Longrightarrow> common_prefix_len a b < length b \<Longrightarrow>
     a ! common_prefix_len a b \<noteq> b ! common_prefix_len a b"
proof (induction a arbitrary: b)
  case Nil
  then show ?case by simp
next
  case (Cons x a)
  then show ?case by (cases b) (auto split: if_splits)
qed

lemma byte_at_tkey: "d \<le> length k \<Longrightarrow> byte_at k d = (k @ [0]) ! d"
  by (simp add: byte_at_def nth_append)

lemma prefix_snocI: "prefix p k \<Longrightarrow> prefix (p @ [byte_at k (length p)]) (k @ [0])"
proof -
  assume "prefix p k"
  then obtain u where u: "k = p @ u" by (auto simp: prefix_def)
  show ?thesis by (cases u) (auto simp: u byte_at_def)
qed

lemma prefix_snocD:
  assumes "prefix (p @ [b]) (k @ [0])"
  shows "prefix p k" "b = byte_at k (length p)"
proof -
  show p: "prefix p k" using assms by (auto simp: prefix_def append_eq_append_conv2 Cons_eq_append_conv)
  then obtain u where u: "k = p @ u" by (auto simp: prefix_def)
  show "b = byte_at k (length p)" using assms by (cases u) (auto simp: u byte_at_def)
qed

lemma prefix_drop_iff: "prefix p k \<Longrightarrow> prefix (p @ q) k \<longleftrightarrow> prefix q (drop (length p) k)"
  by (auto simp: prefix_def)

text \<open>The path to a leaf of another key does not reach past the end of a key.\<close>

lemma path_within:
  assumes "key_space K" "k \<in> K" "key \<in> K" "k \<noteq> key" "prefix p (k @ [0])" "prefix p (key @ [0])"
  shows "prefix p k" "prefix p key"
proof -
  have "prefix p k" if "key_space K" "k \<in> K" "key \<in> K" "k \<noteq> key" "prefix p (k @ [0])" "prefix p (key @ [0])"
    for k key
  proof (rule ccontr)
    assume "\<not> prefix p k"
    then have "p = k @ [0]" using that(5) by (simp add: prefix_snoc)
    then have "prefix (k @ [0]) key" using that(4,6) by (simp add: prefix_snoc)
    then show False using that by (simp add: key_space_def)
  qed
  from this [OF assms] this [OF assms(1,3,2) _ assms(6,5)] assms(4)
  show "prefix p k" "prefix p key" by auto
qed

text \<open>Where two keys of a path part, they part at different bytes.\<close>

lemma split_bytes:
  assumes "key_space K" "key \<in> K" "k0 \<in> K" "prefix p key" "prefix (p @ s) k0"
    and m: "m = common_prefix_len s (drop (length p) key)" "m < length s \<or> p @ s = k0 \<and> k0 \<noteq> key"
  shows "byte_at k0 (length p + m) \<noteq> byte_at key (length p + m)"
proof -
  let ?d = "length p" and ?r = "drop (length p) key"
  have le: "m \<le> length s" "m \<le> length ?r" using cpl_le [of s ?r] m(1) by auto
  have take: "take m s = take m ?r" using cpl_take [of s ?r] m(1) by simp
  have pk: "p @ ?r = key" using assms(4) by (auto simp: prefix_def)
  have pre: "prefix (p @ take m s) k0" using assms(5) by (metis append_prefixD append_take_drop_id append_assoc)
  obtain u where u: "k0 = p @ s @ u" using assms(5) by (auto simp: prefix_def)
  consider "m < length s" "m < length ?r" | "m < length s" "m = length ?r" | "m = length s" "p @ s = k0" "k0 \<noteq> key"
    using le m(2) by linarith
  then show ?thesis
  proof cases
    case 1
    then have "s ! m \<noteq> ?r ! m" using cpl_differ [of s ?r] m(1) by simp
    moreover have "byte_at key (?d + m) = ?r ! m" using 1(2) pk by (metis byte_at_def length_append nat_add_left_cancel_less nth_append_length_plus)
    ultimately show ?thesis using 1(1) by (simp add: u byte_at_def nth_append)
  next
    case 2
    then have "p @ take m s = key" using take pk by simp
    then have "prefix (key @ [s ! m]) k0"
      using 2(1) u by (metis (no_types, lifting) append.assoc prefixI id_take_nth_drop append_Cons append_Nil)
    moreover have "byte_at key (?d + m) = 0" using 2(2) pk by (metis byte_at_def length_append order_less_irrefl)
    ultimately show ?thesis
      using assms(1-3) 2(1) by (auto simp: key_space_def u byte_at_def nth_append)
  next
    case 3
    then have "?r \<noteq> s" using pk by auto
    then have "m < length ?r" using le 3(1) take by (metis le_neq_implies_less take_all order_refl)
    moreover have "byte_at k0 (?d + m) = 0" using 3 by (auto simp: byte_at_def)
    moreover have "\<not> prefix (k0 @ [0]) key" using assms(1-3) by (simp add: key_space_def)
    moreover have "key = k0 @ (?r ! m) # drop (Suc m) ?r" if "m < length ?r"
      using 3 take pk that by (metis append.assoc id_take_nth_drop take_all order_refl)
    ultimately show ?thesis
      using 3 by (metis byte_at_def append_Cons append_Nil append_assoc length_append nth_append_length prefixI
          length_Cons less_add_Suc1 add_Suc_right)
  qed
qed

section \<open>Contents and invariant\<close>

inductive has :: "art_node \<Rightarrow> bytes \<Rightarrow> row_location \<Rightarrow> bool" where
  leaf: "has (Leaf k v) k v"
| inner: "find_child n b = Some c \<Longrightarrow> has c k v \<Longrightarrow> has (Inner q n) k v"

inductive_simps has_Leaf [simp]: "has (Leaf k v) k' v'"
inductive_simps has_Inner: "has (Inner q n) k v"

text \<open>The counter of a \<open>Node256\<close> can take \<open>N\<close> more insertions.\<close>

fun nt_slack :: "nat \<Rightarrow> 'c node_type \<Rightarrow> bool" where
  "nt_slack N (N256 n) \<longleftrightarrow> unat (count256 n) + N \<le> 65535"
| "nt_slack N n \<longleftrightarrow> True"

text \<open>
  A subtree at path \<open>p\<close> over the keys \<open>K\<close>: a leaf's terminated key continues the path, an
  inner node's path ends inside some key, and the node's layout is well formed.
\<close>

inductive art_inv :: "bytes set \<Rightarrow> nat \<Rightarrow> bytes \<Rightarrow> art_node \<Rightarrow> bool" for K N where
  leaf: "k \<in> K \<Longrightarrow> prefix p (k @ [0]) \<Longrightarrow> art_inv K N p (Leaf k v)"
| inner: "nt_inv n \<Longrightarrow> nt_slack N n \<Longrightarrow> k \<in> K \<Longrightarrow> prefix (p @ q) k \<Longrightarrow>
    (\<And>b c. find_child n b = Some c \<Longrightarrow> art_inv K N (p @ q @ [b]) c) \<Longrightarrow> art_inv K N p (Inner q n)"

inductive_cases art_inv_LeafE: "art_inv K N p (Leaf k v)"
inductive_cases art_inv_InnerE: "art_inv K N p (Inner q n)"

lemma nt_slack_mono: "nt_slack N n \<Longrightarrow> M \<le> N \<Longrightarrow> nt_slack M n"
  by (cases n) auto

lemma art_inv_mono: "art_inv K N p t \<Longrightarrow> M \<le> N \<Longrightarrow> art_inv K M p t"
proof (induction rule: art_inv.induct)
  case (leaf k p v)
  then show ?case by (simp add: art_inv.leaf)
next
  case (inner n k p q)
  then show ?case using nt_slack_mono [OF inner.hyps(2)] by (intro art_inv.inner [of n M k]) auto
qed

lemma has_path: "has t k v \<Longrightarrow> art_inv K N p t \<Longrightarrow> k \<in> K \<and> prefix p (k @ [0])"
proof (induction arbitrary: p rule: has.induct)
  case (leaf k v)
  then show ?case by (auto elim: art_inv_LeafE)
next
  case (inner n b c k v q)
  then have "art_inv K N (p @ q @ [b]) c" by (auto elim: art_inv_InnerE)
  then show ?case using inner.IH by (metis append_prefixD)
qed

text \<open>The child that holds a key is the one at the key's byte.\<close>

lemma has_child:
  assumes "art_inv K N p (Inner q n)" and "find_child n b = Some c" and "has c k v"
  shows "prefix (p @ q) k" "b = byte_at k (length p + length q)" "k \<in> K"
proof -
  have "art_inv K N (p @ q @ [b]) c" using assms(1,2) by (auto elim: art_inv_InnerE)
  from has_path [OF assms(3) this] have "k \<in> K" "prefix ((p @ q) @ [b]) (k @ [0])" by simp_all
  then show "prefix (p @ q) k" "b = byte_at k (length p + length q)" "k \<in> K"
    using prefix_snocD [of "p @ q" b k] by simp_all
qed

lemma lookup_inner:
  "lookup_recursive (Inner q n) k d =
     (if prefix q (drop d k)
      then Option.bind (find_child n (byte_at k (d + length q))) (\<lambda>c. lookup_recursive c k (d + length q + 1))
      else None)"
  by (simp add: cpl_less Let_def split: option.split)

lemma lookup_sound: "lookup_recursive t k d = Some v \<Longrightarrow> has t k v"
proof (induction t k d rule: lookup_recursive.induct)
  case (1 k v key depth)
  then show ?case by (simp split: if_splits)
next
  case (2 pre n key depth)
  then show ?case by (auto simp: has_Inner Let_def split: if_splits option.splits)
qed

lemma lookup_complete: "has t k v \<Longrightarrow> art_inv K N p t \<Longrightarrow> lookup_recursive t k (length p) = Some v"
proof (induction arbitrary: p rule: has.induct)
  case (leaf k v)
  then show ?case by simp
next
  case (inner n b c k v q)
  note path = has_child [OF inner.prems inner.hyps]
  have "art_inv K N (p @ q @ [b]) c" using inner.prems inner.hyps(1) by (auto elim: art_inv_InnerE)
  then have "lookup_recursive c k (length p + length q + 1) = Some v" using inner.IH by fastforce
  moreover have "prefix q (drop (length p) k)"
    using path(1) prefix_drop_iff append_prefixD by blast
  ultimately show ?case using path(2) inner.hyps(1) by (simp add: lookup_inner del: lookup_recursive.simps)
qed

lemma lookup_has: "art_inv K N p t \<Longrightarrow> lookup_recursive t k (length p) = Some v \<longleftrightarrow> has t k v"
  using lookup_sound lookup_complete by blast

section \<open>Insertion\<close>

lemma insert_child_slack:
  assumes "insert_child b c n = Some n'" and "nt_slack (Suc N) n"
  shows "nt_slack N n'"
proof (cases n)
  case (N256 k)
  then have "unat (count256 k) + 1 \<le> 65535" "unat (count256 k) + Suc N \<le> 65535" using assms(2) by auto
  moreover from this(1) have "unat (count256 k + 1) = unat (count256 k) + 1"
    by (subst unat_add_lem [THEN iffD1]) simp_all
  ultimately show ?thesis using assms(1) by (auto simp: N256 node256_insert_child_def)
qed (use assms in auto)

lemma add_child_slack:
  assumes "nt_inv n" and "add_child b c n = Some n'" and "nt_slack (Suc N) n" and "N \<le> 65200"
  shows "nt_slack N n'"
proof (cases "is_full n")
  case False
  then show ?thesis using assms insert_child_slack by (simp add: add_child_def)
next
  case True
  then obtain n1 where n1: "grow n = Some n1" "insert_child b c n1 = Some n'"
    using assms(2) by (auto simp: add_child_def bind_eq_Some_conv)
  have "nt_slack (Suc N) n1"
  proof (cases n)
    case (N48 k)
    have "count48 k \<le> 256"
      using node48_invD(7) [of k] assms(1) N48 card_mono [of "UNIV :: u8 set" "{b. idx48 k b \<noteq> EMPTY_SLOT}"]
      by (simp add: card_word)
    then show ?thesis using node48_into_node256_ok [of k] assms(1,4) n1(1) by (auto simp: N48)
  qed (use n1(1) in auto)
  then show ?thesis by (rule insert_child_slack [OF n1(2)])
qed

lemma pair_node:
  assumes "b1 \<noteq> b2" and "N \<le> 65000"
  shows "\<exists>n1 n2. add_child b1 (c1 :: 'a) new_node4 = Some n1 \<and> add_child b2 c2 n1 = Some n2
    \<and> nt_inv n2 \<and> nt_slack N n2 \<and> find_child n2 = [b1 \<mapsto> c1, b2 \<mapsto> c2]"
proof -
  let ?n = "new_node4 :: 'a node_type"
  have new: "nt_inv ?n" "nt_slack M ?n" "nt_room ?n" "find_child ?n = Map.empty" for M
    by (auto simp: new_node4_def keyed_new_inv keyed_find_child_def keyed_slot_def fun_eq_iff) (auto simp: keyed_new_def)
  obtain n1 where n1: "add_child b1 c1 new_node4 = Some n1" "nt_inv n1" "find_child n1 = [b1 \<mapsto> c1]"
    using add_child_ok [OF new(1,3), of b1 c1] new(4) by auto
  have s1: "nt_slack (Suc N) n1" using add_child_slack [OF new(1) n1(1) new(2)] assms(2) by simp
  then have "nt_room n1" by (cases n1) auto
  then obtain n2 where n2: "add_child b2 c2 n1 = Some n2" "nt_inv n2" "find_child n2 = [b1 \<mapsto> c1, b2 \<mapsto> c2]"
    using add_child_ok [OF n1(2), of b2 c2] n1(3) assms(1) by auto
  have "nt_slack N n2" using add_child_slack [OF n1(2) n2(1) s1] assms(2) by simp
  then show ?thesis using n1(1) n2 by blast
qed

text \<open>A node over two subtrees that part at \<open>b1\<close> and \<open>b2\<close>.\<close>

lemma pair_inner:
  assumes "find_child n2 = [b1 \<mapsto> c1, b2 \<mapsto> c2]" "b1 \<noteq> b2" "nt_inv n2" "nt_slack N n2"
    and "art_inv K N (p @ q @ [b1]) c1" "art_inv K N (p @ q @ [b2]) c2" "k \<in> K" "prefix (p @ q) k"
  shows "art_inv K N p (Inner q n2)" "has (Inner q n2) k' v' \<longleftrightarrow> has c1 k' v' \<or> has c2 k' v'"
proof -
  show "art_inv K N p (Inner q n2)"
    using assms by (intro art_inv.inner [OF assms(3,4,7,8)]) (auto split: if_splits)
  show "has (Inner q n2) k' v' \<longleftrightarrow> has c1 k' v' \<or> has c2 k' v'"
    using assms(1,2) by (auto simp: has_Inner split: if_splits)
qed

lemma insert_leaf_ok:
  assumes ks: "key_space K" "key \<in> K" and N: "N \<le> 65000"
    and inv: "art_inv K (Suc N) p (Leaf k v)" and path: "prefix p (key @ [0])" and ne: "k \<noteq> key"
  shows "\<exists>t'. insert_recursive (Leaf k v) key value (length p) = Some (t', False) \<and> art_inv K N p t'
    \<and> (\<forall>k' v'. has t' k' v' \<longleftrightarrow> (if k' = key then v' = value else has (Leaf k v) k' v'))"
proof -
  from inv have k: "k \<in> K" "prefix p (k @ [0])" by (auto elim: art_inv_LeafE)
  note within = path_within [OF ks(1) k(1) ks(2) ne k(2) path]
  define m where "m = common_prefix_len (drop (length p) k) (drop (length p) key)"
  define q where "q = take m (drop (length p) key)"
  have q: "q = take m (drop (length p) k)" "length q = m"
    using cpl_take [of "drop (length p) k" "drop (length p) key"] cpl_le [of "drop (length p) k" "drop (length p) key"]
    by (simp_all add: q_def m_def)
  have pk: "p @ drop (length p) k = k" "p @ drop (length p) key = key" using within by (auto simp: prefix_def)
  have pq: "prefix (p @ q) k" "prefix (p @ q) key"
    using pk q(1) by (metis append_take_drop_id append_assoc prefixI, metis q_def pk(2) append_take_drop_id append_assoc prefixI)
  let ?b1 = "byte_at k (length p + m)" and ?b2 = "byte_at key (length p + m)"
  have ne': "?b1 \<noteq> ?b2"
    using split_bytes [OF ks k(1) within(2) _ m_def] pk ne by simp
  obtain n1 n2 where n: "add_child ?b1 (Leaf k v) new_node4 = Some n1" "add_child ?b2 (Leaf key value) n1 = Some n2"
    "nt_inv n2" "nt_slack N n2" "find_child n2 = [?b1 \<mapsto> Leaf k v, ?b2 \<mapsto> Leaf key value]"
    using pair_node [OF ne' N, of "Leaf k v" "Leaf key value"] by (elim exE conjE) (rule that)
  have "art_inv K N (p @ q @ [?b1]) (Leaf k v)" "art_inv K N (p @ q @ [?b2]) (Leaf key value)"
    using prefix_snocI [OF pq(1)] prefix_snocI [OF pq(2)] k(1) ks(2) q(2) by (auto intro!: art_inv.leaf)
  note pair = pair_inner [OF n(5) ne' n(3,4) this k(1) pq(1)]
  have "\<not> length k < length p" "\<not> length key < length p" using within by (auto dest: prefix_length_le)
  then have "insert_recursive (Leaf k v) key value (length p) = Some (Inner q n2, False)"
    using ne n(1,2) by (simp add: Let_def m_def [symmetric] q_def [symmetric])
  then show ?thesis using pair ne by auto
qed

lemma insert_split_ok:
  assumes ks: "key_space K" "key \<in> K" and N: "N \<le> 65000"
    and inv: "art_inv K (Suc N) p (Inner s n)" and path: "prefix p (key @ [0])"
    and mism: "\<not> prefix s (drop (length p) key)"
  shows "\<exists>t'. insert_recursive (Inner s n) key value (length p) = Some (t', False) \<and> art_inv K N p t'
    \<and> (\<forall>k' v'. has t' k' v' \<longleftrightarrow> (if k' = key then v' = value else has (Inner s n) k' v'))"
proof -
  from inv obtain k0 where i: "nt_inv n" "nt_slack (Suc N) n" "k0 \<in> K" "prefix (p @ s) k0"
    "\<And>b c. find_child n b = Some c \<Longrightarrow> art_inv K (Suc N) (p @ s @ [b]) c"
    by (elim art_inv_InnerE) metis
  have p: "prefix p key"
  proof (rule ccontr)
    assume "\<not> prefix p key"
    then have "p = key @ [0]" using path by (simp add: prefix_snoc)
    then show False using ks i(3,4) by (metis append_prefixD key_space_def)
  qed
  define m where "m = common_prefix_len s (drop (length p) key)"
  have m: "m < length s" using mism by (simp add: m_def cpl_less)
  define q where "q = take m s"
  have s: "s = q @ s ! m # drop (Suc m) s" using m by (simp add: q_def id_take_nth_drop)
  have lq: "length q = m" using m by (simp add: q_def)
  let ?b2 = "byte_at key (length p + m)"
  have "byte_at k0 (length p + m) = s ! m" using i(4) m by (auto simp: prefix_def byte_at_def nth_append)
  then have ne: "s ! m \<noteq> ?b2" using split_bytes [OF ks i(3) p i(4) m_def] m by simp
  obtain n1 n2 where n: "add_child (s ! m) (Inner (drop (Suc m) s) n) new_node4 = Some n1"
    "add_child ?b2 (Leaf key value) n1 = Some n2" "nt_inv n2" "nt_slack N n2"
    "find_child n2 = [s ! m \<mapsto> Inner (drop (Suc m) s) n, ?b2 \<mapsto> Leaf key value]"
    using pair_node [OF ne N, of "Inner (drop (Suc m) s) n" "Leaf key value"] by (elim exE conjE) (rule that)
  have old: "art_inv K N (p @ q @ [s ! m]) (Inner (drop (Suc m) s) n)"
  proof (rule art_inv.inner [OF i(1) nt_slack_mono [OF i(2)] i(3)])
    show "prefix ((p @ q @ [s ! m]) @ drop (Suc m) s) k0" using i(4) s by simp
    show "art_inv K N ((p @ q @ [s ! m]) @ drop (Suc m) s @ [b]) c" if "find_child n b = Some c" for b c
    proof -
      have "(p @ q @ [s ! m]) @ drop (Suc m) s @ [b] = p @ s @ [b]"
        using s by (metis append.assoc append_Cons append_Nil)
      then show ?thesis by (metis art_inv_mono [OF i(5) [OF that], of N] le_Suc_eq order_refl)
    qed
  qed simp
  have pq: "prefix (p @ q) key"
    using p cpl_take [of s "drop (length p) key"] by (simp add: q_def m_def prefix_drop_iff take_is_prefix)
  have "art_inv K N (p @ q @ [?b2]) (Leaf key value)"
    using prefix_snocI [OF pq] ks(2) lq by (auto intro!: art_inv.leaf)
  note pair = pair_inner [OF n(5) ne n(3,4) old this ks(2) pq]
  have "insert_recursive (Inner s n) key value (length p) = Some (Inner q n2, False)"
    using m n(1,2) by (simp add: Let_def m_def [symmetric] q_def [symmetric])
  moreover have "\<not> has (Inner s n) key v" for v
  proof
    assume "has (Inner s n) key v"
    then obtain b c where "find_child n b = Some c" "has c key v" by (auto simp: has_Inner)
    then have "prefix (p @ s) key" by (rule has_child(1) [OF inv])
    then show False using p mism by (simp add: prefix_drop_iff)
  qed
  ultimately show ?thesis using pair by (auto simp: has_Inner)
qed

text \<open>Where the path enters the node, the key itself has not ended.\<close>

lemma inner_path:
  assumes "key_space K" "key \<in> K" "art_inv K N p (Inner s n)" "prefix p (key @ [0])"
  shows "prefix p key"
proof (rule ccontr)
  assume "\<not> prefix p key"
  then have p: "p = key @ [0]" using assms(4) by (simp add: prefix_snoc)
  from assms(3) obtain k0 where "k0 \<in> K" "prefix (p @ s) k0" by (auto elim: art_inv_InnerE)
  then show False using assms(1,2) p by (metis append_prefixD key_space_def)
qed

lemma key_in_child:
  assumes "art_inv K N p (Inner s n)"
  shows "has (Inner s n) key v \<longleftrightarrow>
    prefix (p @ s) key \<and> (\<exists>c. find_child n (byte_at key (length p + length s)) = Some c \<and> has c key v)"
  using has_child [OF assms] by (auto simp: has_Inner)

lemma update_child_inv:
  assumes inv: "art_inv K N p (Inner s n)" and M: "M \<le> N"
    and n': "nt_inv n'" "nt_slack M n'" "find_child n' = (find_child n)(b \<mapsto> c)" and c: "art_inv K M (p @ s @ [b]) c"
  shows "art_inv K M p (Inner s n')"
proof -
  from inv obtain k0 where k0: "k0 \<in> K" "prefix (p @ s) k0" by (auto elim: art_inv_InnerE)
  have "art_inv K M (p @ s @ [b']) d" if "find_child n' b' = Some d" for b' d
  proof (cases "b' = b")
    case True
    then show ?thesis using that n'(3) c by simp
  next
    case False
    then have "art_inv K N (p @ s @ [b']) d" using that n'(3) inv by (auto elim: art_inv_InnerE)
    then show ?thesis using M by (rule art_inv_mono)
  qed
  then show ?thesis using n'(1,2) k0 by (intro art_inv.inner)
qed

lemma update_child_has:
  assumes inv: "art_inv K N p (Inner s n)" and ps: "prefix (p @ s) key"
    and n': "find_child n' = (find_child n)(byte_at key (length p + length s) \<mapsto> c')"
    and c': "\<And>k v. has c' k v \<longleftrightarrow> (if k = key then v = value
               else \<exists>c. find_child n (byte_at key (length p + length s)) = Some c \<and> has c k v)"
  shows "has (Inner s n') k v \<longleftrightarrow> (if k = key then v = value else has (Inner s n) k v)"
proof -
  let ?b = "byte_at key (length p + length s)"
  have other: "\<not> has c key v" if "b \<noteq> ?b" "find_child n b = Some c" for b c v
    using has_child(2) [OF inv that(2)] that(1) by blast
  have "has (Inner s n') k v \<longleftrightarrow> has c' k v \<or> (\<exists>b c. b \<noteq> ?b \<and> find_child n b = Some c \<and> has c k v)"
    unfolding has_Inner n' by (auto split: if_splits)
  moreover have "has (Inner s n) k v \<longleftrightarrow> (\<exists>c. find_child n ?b = Some c \<and> has c k v)
      \<or> (\<exists>b c. b \<noteq> ?b \<and> find_child n b = Some c \<and> has c k v)"
    unfolding has_Inner by metis
  ultimately show ?thesis using c' other by auto
qed

lemma insert_add_ok:
  assumes ks: "key_space K" "key \<in> K" and N: "N \<le> 65000"
    and inv: "art_inv K (Suc N) p (Inner s n)" and ps: "prefix (p @ s) key"
    and none: "find_child n (byte_at key (length p + length s)) = None"
  shows "\<exists>t'. insert_recursive (Inner s n) key value (length p) = Some (t', False) \<and> art_inv K N p t'
    \<and> (\<forall>k' v'. has t' k' v' \<longleftrightarrow> (if k' = key then v' = value else has (Inner s n) k' v'))"
proof -
  let ?b = "byte_at key (length p + length s)"
  from inv have i: "nt_inv n" "nt_slack (Suc N) n" by (auto elim: art_inv_InnerE)
  then have "nt_room n" by (cases n) auto
  then obtain n' where n': "add_child ?b (Leaf key value) n = Some n'" "nt_inv n'"
    "find_child n' = (find_child n)(?b \<mapsto> Leaf key value)"
    using add_child_ok [OF i(1) _ none] by blast
  have "nt_slack N n'" using add_child_slack [OF i(1) n'(1) i(2)] N by simp
  moreover have "art_inv K N (p @ s @ [?b]) (Leaf key value)"
    using prefix_snocI [OF ps] ks(2) by (auto intro: art_inv.leaf)
  ultimately have "art_inv K N p (Inner s n')" using update_child_inv [OF inv _ n'(2) _ n'(3)] by simp
  moreover have "has (Inner s n') k' v' \<longleftrightarrow> (if k' = key then v' = value else has (Inner s n) k' v')" for k' v'
    using none by (intro update_child_has [OF inv ps n'(3)]) auto
  moreover have "prefix s (drop (length p) key)" using ps prefix_drop_iff append_prefixD by blast
  then have "insert_recursive (Inner s n) key value (length p) = Some (Inner s n', False)"
    using none n'(1) by (simp add: cpl_less Let_def)
  ultimately show ?thesis by blast
qed

lemma insert_descend_ok:
  assumes inv: "art_inv K (Suc N) p (Inner s n)" and ps: "prefix (p @ s) key"
    and some: "find_child n (byte_at key (length p + length s)) = Some c"
    and c': "insert_recursive c key value (length p + length s + 1) = Some (c', r)"
      "art_inv K N (p @ s @ [byte_at key (length p + length s)]) c'"
      "\<And>k' v'. has c' k' v' \<longleftrightarrow> (if k' = key then v' = value else has c k' v')"
  shows "\<exists>t'. insert_recursive (Inner s n) key value (length p) = Some (t', r) \<and> art_inv K N p t'
    \<and> (\<forall>k' v'. has t' k' v' \<longleftrightarrow> (if k' = key then v' = value else has (Inner s n) k' v'))"
proof -
  let ?b = "byte_at key (length p + length s)"
  let ?n = "set_child n ?b (Some c')"
  from inv have i: "nt_inv n" "nt_slack (Suc N) n" by (auto elim: art_inv_InnerE)
  have set: "nt_inv ?n" "find_child ?n = (find_child n)(?b \<mapsto> c')" using set_child_ok [OF i(1)] some by auto
  have "nt_slack N ?n" using nt_slack_mono [OF i(2), of N] by (cases n) (auto simp: node256_set_child_def)
  then have "art_inv K N p (Inner s ?n)" using update_child_inv [OF inv _ set(1) _ set(2) c'(2)] by simp
  moreover have "has (Inner s ?n) k' v' \<longleftrightarrow> (if k' = key then v' = value else has (Inner s n) k' v')" for k' v'
    using some c'(3) by (intro update_child_has [OF inv ps set(2)]) auto
  moreover have "prefix s (drop (length p) key)" using ps prefix_drop_iff append_prefixD by blast
  then have "insert_recursive (Inner s n) key value (length p) = Some (Inner s ?n, r)"
    using some c'(1) by (simp add: cpl_less Let_def)
  ultimately show ?thesis by blast
qed

lemma with_flag:
  "\<exists>t'. f = Some (t', r) \<and> A t' \<and> B t' \<Longrightarrow> (r \<longleftrightarrow> X) \<Longrightarrow> \<exists>t' r. f = Some (t', r) \<and> A t' \<and> B t' \<and> (r \<longleftrightarrow> X)"
  by auto

lemma insert_ok:
  assumes "key_space K" "key \<in> K" "N \<le> 65000" "art_inv K (Suc N) p t" "prefix p (key @ [0])"
  shows "\<exists>t' r. insert_recursive t key value (length p) = Some (t', r) \<and> art_inv K N p t'
    \<and> (\<forall>k' v'. has t' k' v' \<longleftrightarrow> (if k' = key then v' = value else has t k' v'))
    \<and> (r \<longleftrightarrow> (\<exists>v. has t key v))"
  using assms(4,5)
proof (induction t arbitrary: p rule: measure_induct_rule [of size])
  case (less t)
  show ?case
  proof (cases t)
    case (Leaf k v)
    show ?thesis
    proof (cases "k = key")
      case True
      have "art_inv K N p (Leaf key value)" using assms(2) less.prems(2) by (rule art_inv.leaf)
      then show ?thesis using True by (intro exI [of _ "Leaf key value"] exI [of _ True]) (simp add: Leaf)
    next
      case False
      then have "\<not> has t key v'" for v' by (simp add: Leaf)
      then show ?thesis
        unfolding Leaf
        by (intro with_flag [OF insert_leaf_ok [OF assms(1-3) less.prems(1) [unfolded Leaf] less.prems(2) False]])
          (use False in simp)
    qed
  next
    case (Inner s n)
    note inv = less.prems(1) [unfolded Inner]
    note p = inner_path [OF assms(1,2) inv less.prems(2)]
    show ?thesis
    proof (cases "prefix (p @ s) key")
      case False
      then have "\<not> has t key v'" for v' by (simp add: Inner key_in_child [OF inv])
      moreover have "\<not> prefix s (drop (length p) key)" using False prefix_drop_iff [OF p, of s] by simp
      ultimately show ?thesis
        unfolding Inner by (intro with_flag [OF insert_split_ok [OF assms(1-3) inv less.prems(2)]]) auto
    next
      case ps: True
      show ?thesis
      proof (cases "find_child n (byte_at key (length p + length s))")
        case None
        then have "\<not> has t key v'" for v' by (simp add: Inner key_in_child [OF inv])
        then show ?thesis
          unfolding Inner by (intro with_flag [OF insert_add_ok [OF assms(1-3) inv ps None]]) auto
      next
        case (Some c)
        let ?p = "p @ s @ [byte_at key (length p + length s)]"
        have sz: "size c < size t" using find_child_size [OF Some] by (simp add: Inner)
        have iv: "art_inv K (Suc N) ?p c" using inv Some by (auto elim: art_inv_InnerE)
        have px: "prefix ?p (key @ [0])" using prefix_snocI [OF ps] by simp
        obtain c' r where c': "insert_recursive c key value (length ?p) = Some (c', r)"
          "art_inv K N ?p c'" "\<forall>k' v'. has c' k' v' \<longleftrightarrow> (if k' = key then v' = value else has c k' v')"
          "r \<longleftrightarrow> (\<exists>v. has c key v)"
          using less.IH [OF sz iv px] by (elim exE conjE) (rule that)
        have "r \<longleftrightarrow> (\<exists>v. has t key v)" using c'(4) Some ps by (simp add: Inner key_in_child [OF inv])
        moreover have "insert_recursive c key value (length p + length s + 1) = Some (c', r)" using c'(1) by simp
        ultimately show ?thesis
          unfolding Inner by (intro with_flag [OF insert_descend_ok [OF inv ps Some _ c'(2) c'(3) [rule_format]]])
      qed
    qed
  qed
qed

section \<open>Deletion\<close>

definition has_opt :: "art_node option \<Rightarrow> bytes \<Rightarrow> row_location \<Rightarrow> bool" where
  "has_opt t k v \<longleftrightarrow> (case t of None \<Rightarrow> False | Some t \<Rightarrow> has t k v)"

lemma has_opt_simps [simp]: "\<not> has_opt None k v" "has_opt (Some t) k v \<longleftrightarrow> has t k v"
  by (simp_all add: has_opt_def)

text \<open>What a deletion below a path promises.\<close>

definition deleted ::
  "bytes set \<Rightarrow> nat \<Rightarrow> bytes \<Rightarrow> art_node \<Rightarrow> bytes \<Rightarrow> art_node option \<times> bool \<times> row_location option \<Rightarrow> bool" where
  "deleted K N p t key res \<longleftrightarrow> (case res of (t', r, v) \<Rightarrow>
     (\<forall>s. t' = Some s \<longrightarrow> art_inv K N p s)
     \<and> (\<forall>k x. has_opt t' k x \<longleftrightarrow> k \<noteq> key \<and> has t k x)
     \<and> (r \<longleftrightarrow> (\<exists>x. has t key x)) \<and> (\<forall>x. v = Some x \<longleftrightarrow> has t key x) \<and> (t' = None \<longrightarrow> r))"

lemma absent_deleted:
  assumes "art_inv K N p t" and "\<And>x. \<not> has t key x"
  shows "deleted K N p t key (Some t, False, None)"
  using assms by (auto simp: deleted_def)

lemma collapse_ok:
  assumes inv: "art_inv K N (p @ q @ [b]) c"
  shows "art_inv K N p (collapse q b c)" "has (collapse q b c) k v \<longleftrightarrow> has c k v"
proof -
  show "has (collapse q b c) k v \<longleftrightarrow> has c k v" by (cases c) (simp_all add: has_Inner)
  show "art_inv K N p (collapse q b c)"
  proof (cases c)
    case (Leaf k v)
    then have "k \<in> K" "prefix p (k @ [0])" using inv by (auto elim!: art_inv_LeafE dest: append_prefixD)
    then show ?thesis by (simp add: Leaf art_inv.leaf)
  next
    case (Inner s m)
    from inv [unfolded Inner] obtain k0 where "nt_inv m" "nt_slack N m" "k0 \<in> K" "prefix ((p @ q @ [b]) @ s) k0"
      "\<And>b' c. find_child m b' = Some c \<Longrightarrow> art_inv K N ((p @ q @ [b]) @ s @ [b']) c"
      by (elim art_inv_InnerE) metis
    then show ?thesis using art_inv.inner [of m N k0 K p "q @ [b] @ s"] by (simp add: Inner)
  qed
qed

lemma remove_slack:
  assumes "nt_inv n" "nt_slack N n" and "remove_child b (set_child n b None) = Some n'"
  shows "nt_slack N n'"
proof (cases n)
  case (N256 k)
  then have "length (children256 k) = 256" using assms(1) by (simp add: node256_inv_def)
  then show ?thesis
    using assms(2,3) N256 node256_remove_vacated [of k b]
    by (auto simp: remove_child_def Let_def node256_set_child_def split: if_splits)
qed (use assms in \<open>auto simp: remove_child_def Let_def split: if_splits\<close>)

text \<open>The node after the child at the key's byte is gone, collapsed or dropped as the code does.\<close>

lemma delete_last_ok:
  assumes inv: "art_inv K N p (Inner s n)" and ps: "prefix (p @ s) key"
    and some: "find_child n (byte_at key (length p + length s)) = Some c"
    and gone: "\<And>k x. has c k x \<Longrightarrow> k = key" and r: "\<exists>x. has c key x" and v: "\<And>x. v = Some x \<longleftrightarrow> has c key x"
  shows "\<exists>res. Option.bind (remove_child (byte_at key (length p + length s)) (set_child n (byte_at key (length p + length s)) None))
      (\<lambda>n'. if num_children n' = 1 then map_option (\<lambda>(cb, c). (Some (collapse s cb c), True, v)) (take_single_child n')
             else if num_children n' = 0 then Some (None, True, v)
             else Some (Some (Inner s n'), True, v)) = Some res
    \<and> deleted K N p (Inner s n) key res"
proof -
  let ?b = "byte_at key (length p + length s)"
  from inv obtain k0 where i: "nt_inv n" "nt_slack N n" "k0 \<in> K" "prefix (p @ s) k0"
    "\<And>b c. find_child n b = Some c \<Longrightarrow> art_inv K N (p @ s @ [b]) c"
    by (elim art_inv_InnerE) metis
  obtain n' where n': "remove_child ?b (set_child n ?b None) = Some n'" "nt_inv n'"
    "find_child n' = (find_child n)(?b := None)" "\<And>k. n' = N256 k \<Longrightarrow> 48 < num_children n'"
    using remove_child_ok [OF i(1), of ?b] some by (elim meta_impE exE conjE) auto
  have child: "art_inv K N (p @ s @ [b]) d" if "find_child n' b = Some d" for b d
    using that n'(3) i(5) by (simp split: if_splits)
  have key: "has (Inner s n) key x \<longleftrightarrow> has c key x" for x
    using some ps by (simp add: key_in_child [OF inv])
  have rest: "(\<exists>b d. find_child n' b = Some d \<and> has d k x) \<longleftrightarrow> k \<noteq> key \<and> has (Inner s n) k x" for k x
  proof
    assume "\<exists>b d. find_child n' b = Some d \<and> has d k x"
    then obtain b d where d: "find_child n' b = Some d" "has d k x" by blast
    then have b: "b \<noteq> ?b" "find_child n b = Some d" using n'(3) by (auto split: if_splits)
    then have "k \<noteq> key" using has_child(2) [OF inv b(2) d(2)] by auto
    then show "k \<noteq> key \<and> has (Inner s n) k x" using has.inner [OF b(2) d(2)] by simp
  next
    assume k: "k \<noteq> key \<and> has (Inner s n) k x"
    then obtain b d where d: "find_child n b = Some d" "has d k x" unfolding has_Inner by blast
    then have "b \<noteq> ?b" using k gone some by auto
    then have "find_child n' b = Some d" using d(1) n'(3) by simp
    then show "\<exists>b d. find_child n' b = Some d \<and> has d k x" using d(2) by blast
  qed
  consider "num_children n' = 1" | "num_children n' = 0" | "num_children n' \<noteq> 1" "num_children n' \<noteq> 0" by blast
  then show ?thesis
  proof cases
    case 1
    then obtain b d where d: "take_single_child n' = Some (b, d)" "find_child n' = [b \<mapsto> d]"
      using take_single_child_ok [OF n'(2)] n'(4) by fastforce
    have at: "art_inv K N (p @ s @ [b]) d" using child d(2) by simp
    have "has d k x \<longleftrightarrow> k \<noteq> key \<and> has (Inner s n) k x" for k x
      using rest [of k x] d(2) by (auto split: if_splits)
    then show ?thesis
      using n'(1) 1 d(1) collapse_ok [OF at] r v key by (auto simp: deleted_def)
  next
    case 2
    then have "\<not> (k \<noteq> key \<and> has (Inner s n) k x)" for k x
      using rest [of k x] nt.count_zero [OF n'(2) 2] by auto
    then show ?thesis using n'(1) 2 r v key by (auto simp: deleted_def)
  next
    case 3
    have "art_inv K N p (Inner s n')"
      using n'(2) remove_slack [OF i(1,2) n'(1)] i(3,4) child by (rule art_inv.inner)
    moreover have "has (Inner s n') k x \<longleftrightarrow> k \<noteq> key \<and> has (Inner s n) k x" for k x
      using rest [of k x] by (simp add: has_Inner [of s n'])
    ultimately show ?thesis using n'(1) 3 r v key by (auto simp: deleted_def)
  qed
qed

lemma delete_child_ok:
  assumes inv: "art_inv K N p (Inner s n)"
    and some: "find_child n (byte_at key (length p + length s)) = Some c"
    and del: "deleted K N (p @ s @ [byte_at key (length p + length s)]) c key (Some d, r, v)"
  shows "deleted K N p (Inner s n) key (Some (Inner s (set_child n (byte_at key (length p + length s)) (Some d))), r, v)"
proof -
  let ?b = "byte_at key (length p + length s)"
  let ?n = "set_child n ?b (Some d)"
  from inv have i: "nt_inv n" "nt_slack N n" by (auto elim: art_inv_InnerE)
  have set: "nt_inv ?n" "find_child ?n = (find_child n)(?b \<mapsto> d)" using set_child_ok [OF i(1)] some by auto
  have "nt_slack N ?n" using i(2) by (cases n) (auto simp: node256_set_child_def)
  moreover have d: "art_inv K N (p @ s @ [?b]) d" "\<And>k x. has d k x \<longleftrightarrow> k \<noteq> key \<and> has c k x"
    "r \<longleftrightarrow> (\<exists>x. has c key x)" "\<And>x. v = Some x \<longleftrightarrow> has c key x"
    using del by (auto simp: deleted_def)
  ultimately have inv': "art_inv K N p (Inner s ?n)" using update_child_inv [OF inv _ set(1) _ set(2)] by simp
  have key: "has (Inner s n) key x \<longleftrightarrow> has c key x" for x
  proof -
    have "prefix (p @ s) key" if "has c key x" using has_child(1) [OF inv some that] .
    then show ?thesis using some by (auto simp: key_in_child [OF inv])
  qed
  have "has (Inner s ?n) k x \<longleftrightarrow> k \<noteq> key \<and> has (Inner s n) k x" for k x
  proof -
    have "\<not> has e key x" if "b \<noteq> ?b" "find_child n b = Some e" for b e
      using has_child(2) [OF inv that(2)] that(1) by blast
    then have "has (Inner s ?n) k x \<longleftrightarrow> has d k x \<or> k \<noteq> key \<and> (\<exists>b e. b \<noteq> ?b \<and> find_child n b = Some e \<and> has e k x)"
      unfolding has_Inner set(2) by (auto split: if_splits)
    also have "\<dots> \<longleftrightarrow> k \<noteq> key \<and> (has c k x \<or> (\<exists>b e. b \<noteq> ?b \<and> find_child n b = Some e \<and> has e k x))"
      using d(2) by blast
    also have "has c k x \<or> (\<exists>b e. b \<noteq> ?b \<and> find_child n b = Some e \<and> has e k x) \<longleftrightarrow> has (Inner s n) k x"
      unfolding has_Inner using some by (metis option.inject)
    finally show ?thesis .
  qed
  then show ?thesis using inv' key d(3,4) by (simp add: deleted_def)
qed

lemma delete_ok:
  "art_inv K N p t \<Longrightarrow> \<exists>res. delete_recursive t key (length p) = Some res \<and> deleted K N p t key res"
proof (induction t arbitrary: p rule: measure_induct_rule [of size])
  case (less t)
  show ?case
  proof (cases t)
    case (Leaf k v)
    then show ?thesis
      using less.prems by (cases "k = key") (auto simp: absent_deleted, auto simp: deleted_def)
  next
    case (Inner s n)
    note inv = less.prems [unfolded Inner]
    let ?b = "byte_at key (length p + length s)"
    show ?thesis
    proof (cases "prefix s (drop (length p) key) \<and> find_child n ?b \<noteq> None")
      case False
      have "\<not> has t key x" for x
        using False by (auto simp: Inner key_in_child [OF inv]) (metis append_prefixD prefix_drop_iff)
      then have "deleted K N p t key (Some t, False, None)" by (rule absent_deleted [OF less.prems])
      moreover have "delete_recursive t key (length p) = Some (Some t, False, None)"
        using False by (auto simp: Inner cpl_less Let_def)
      ultimately show ?thesis by blast
    next
      case True
      then obtain c where c: "find_child n ?b = Some c" by auto
      have go: "\<not> common_prefix_len s (drop (length p) key) < length s" using True by (simp add: cpl_less)
      have sz: "size c < size t" using find_child_size [OF c] by (simp add: Inner)
      have "art_inv K N (p @ s @ [?b]) c" using inv c by (auto elim: art_inv_InnerE)
      from less.IH [OF sz this] obtain c' r v where res: "delete_recursive c key (length p + length s + 1) = Some (c', r, v)"
        and del: "deleted K N (p @ s @ [?b]) c key (c', r, v)" by fastforce
      show ?thesis
      proof (cases c')
        case None
        then have d: "r" "\<And>k x. has c k x \<Longrightarrow> k = key" "\<exists>x. has c key x" "\<And>x. v = Some x \<longleftrightarrow> has c key x"
          using del by (auto simp: deleted_def)
        have ps: "prefix (p @ s) key" using d(3) has_child(1) [OF inv c] by blast
        show ?thesis
          using delete_last_ok [OF inv ps c d(2-4)] go c res d(1) None by (simp add: Inner Let_def)
      next
        case (Some d)
        then show ?thesis
          using delete_child_ok [OF inv c del [unfolded Some]] go c res by (simp add: Inner Let_def)
      qed
    qed
  qed
qed

section \<open>The index as a map\<close>

definition art_ok :: "bytes set \<Rightarrow> nat \<Rightarrow> art \<Rightarrow> bool" where
  "art_ok K N t \<longleftrightarrow> (\<forall>r. root t = Some r \<longrightarrow> art_inv K N [] r) \<and> art_len t = card (dom (art_lookup t))"

lemma art_lookup_has: "art_ok K N t \<Longrightarrow> art_lookup t k = Some v \<longleftrightarrow> has_opt (root t) k v"
  using lookup_has [of K N "[]"] by (cases "root t") (auto simp: art_lookup_def art_ok_def)

lemma finite_has: "art_inv K N p t \<Longrightarrow> finite {k. \<exists>v. has t k v}"
proof (induction rule: art_inv.induct)
  case (leaf k p v)
  then show ?case by simp
next
  case (inner n k p q)
  have "{k. \<exists>v. has (Inner q n) k v} = (\<Union>b. \<Union>c \<in> set_option (find_child n b). {k. \<exists>v. has c k v})"
    by (auto simp: has_Inner)
  then show ?case using inner.IH by auto
qed

lemma finite_dom_art: "art_ok K N t \<Longrightarrow> finite (dom (art_lookup t))"
proof -
  assume ok: "art_ok K N t"
  show ?thesis
  proof (cases "root t")
    case None
    then show ?thesis by (simp add: art_lookup_def dom_def)
  next
    case (Some r)
    then have "dom (art_lookup t) = {k. \<exists>v. has r k v}" using art_lookup_has [OF ok] by (auto simp: dom_def)
    then show ?thesis using finite_has ok Some by (auto simp: art_ok_def)
  qed
qed

lemma art_ok_new: "art_ok K N art_new" "art_lookup art_new = Map.empty"
  by (auto simp: art_ok_def art_new_def art_lookup_def dom_def)

lemma art_ok_mono: "art_ok K N t \<Longrightarrow> M \<le> N \<Longrightarrow> art_ok K M t"
  using art_inv_mono by (auto simp: art_ok_def)

lemma art_insert_ok:
  assumes ks: "key_space K" "k \<in> K" and N: "N \<le> 65000" and ok: "art_ok K (Suc N) t"
  shows "\<exists>t'. art_insert k v t = Some t' \<and> art_ok K N t' \<and> art_lookup t' = (art_lookup t)(k \<mapsto> v)"
proof (cases "root t")
  case None
  let ?t = "\<lparr>root = Some (Leaf k v), art_len = art_len t + 1\<rparr>"
  have "art_lookup t = Map.empty" "art_lookup ?t = [k \<mapsto> v]"
    by (auto simp: art_lookup_def None fun_eq_iff)
  moreover from this have "art_ok K N ?t" using ks(2) ok by (auto simp: art_ok_def intro: art_inv.leaf)
  ultimately show ?thesis by (simp add: art_insert_def None)
next
  case (Some r)
  have "art_inv K (Suc N) [] r" using ok Some by (simp add: art_ok_def)
  from insert_ok [OF ks N this, of v] obtain r' f where r':
    "insert_recursive r k v 0 = Some (r', f)" "art_inv K N [] r'"
    "\<forall>k' v'. has r' k' v' \<longleftrightarrow> (if k' = k then v' = v else has r k' v')" "f \<longleftrightarrow> (\<exists>v. has r k v)" by auto
  let ?t = "\<lparr>root = Some r', art_len = (if f then art_len t else art_len t + 1)\<rparr>"
  have old: "art_lookup t k' = Some v' \<longleftrightarrow> has r k' v'" for k' v' using art_lookup_has [OF ok] Some by simp
  have "art_lookup ?t k' = Some v' \<longleftrightarrow> ((art_lookup t)(k \<mapsto> v)) k' = Some v'" for k' v'
    using lookup_has [OF r'(2)] r'(3) old by (auto simp: art_lookup_def Some)
  then have l: "art_lookup ?t = (art_lookup t)(k \<mapsto> v)" by (rule option_fun_eqI)
  have "f \<longleftrightarrow> k \<in> dom (art_lookup t)" using r'(4) old by (auto simp: dom_def)
  then have "(if f then art_len t else art_len t + 1) = card (dom ((art_lookup t)(k \<mapsto> v)))"
    using ok finite_dom_art [OF ok] by (auto simp: art_ok_def card_insert_if insert_absorb)
  then have "art_ok K N ?t" unfolding art_ok_def l using r'(2) by simp
  then show ?thesis using l r'(1) by (simp add: art_insert_def Some)
qed

lemma art_delete_ok:
  assumes ok: "art_ok K N t"
  shows "\<exists>t'. art_delete k t = Some (t', art_lookup t k) \<and> art_ok K N t' \<and> art_lookup t' = (art_lookup t)(k := None)"
proof (cases "root t")
  case None
  then show ?thesis using ok by (auto simp: art_delete_def art_lookup_def fun_eq_iff)
next
  case (Some r)
  have "art_inv K N [] r" using ok Some by (simp add: art_ok_def)
  from delete_ok [OF this, of k] obtain r' f v where r': "delete_recursive r k 0 = Some (r', f, v)"
    and del: "deleted K N [] r k (r', f, v)" by fastforce
  let ?t = "\<lparr>root = r', art_len = (if f then art_len t - 1 else art_len t)\<rparr>"
  have old: "art_lookup t k' = Some v' \<longleftrightarrow> has r k' v'" for k' v' using art_lookup_has [OF ok] Some by simp
  have d: "\<And>s. r' = Some s \<Longrightarrow> art_inv K N [] s" "\<And>k' x. has_opt r' k' x \<longleftrightarrow> k' \<noteq> k \<and> has r k' x"
    "f \<longleftrightarrow> (\<exists>x. has r k x)" "\<And>x. v = Some x \<longleftrightarrow> has r k x" using del by (auto simp: deleted_def)
  have "art_lookup ?t k' = Some x \<longleftrightarrow> has_opt r' k' x" for k' x
    using lookup_has [of K N "[]"] d(1) by (cases r') (auto simp: art_lookup_def)
  then have "art_lookup ?t k' = Some x \<longleftrightarrow> ((art_lookup t)(k := None)) k' = Some x" for k' x
    using d(2) old by auto
  then have l: "art_lookup ?t = (art_lookup t)(k := None)" by (rule option_fun_eqI)
  have "f \<longleftrightarrow> k \<in> dom (art_lookup t)" using d(3) old by (auto simp: dom_def)
  then have "(if f then art_len t - 1 else art_len t) = card (dom ((art_lookup t)(k := None)))"
    using ok finite_dom_art [OF ok] by (auto simp: art_ok_def)
  then have "art_ok K N ?t" unfolding art_ok_def l using d(1) by simp
  moreover have "v = art_lookup t k" using d(4) old by (metis option.exhaust)
  ultimately show ?thesis using l r' by (auto simp: art_delete_def Some)
qed

section \<open>The index interface\<close>

text \<open>
  What a client of the primary-key index relies on: within a budget of insertions of
  admissible keys the index never panics and behaves as a map.
\<close>

locale point_index =
  fixes empty_index :: 't
    and insert_key :: "'k \<Rightarrow> 'v \<Rightarrow> 't \<Rightarrow> 't option"
    and delete_key :: "'k \<Rightarrow> 't \<Rightarrow> ('t \<times> 'v option) option"
    and find_key :: "'t \<Rightarrow> 'k \<Rightarrow> 'v option"
    and admissible :: "'k \<Rightarrow> bool"
    and budget :: "nat \<Rightarrow> 't \<Rightarrow> bool"
  assumes find_insert:
      "budget (Suc n) t \<Longrightarrow> admissible k \<Longrightarrow>
         \<exists>t'. insert_key k v t = Some t' \<and> budget n t' \<and> find_key t' = (find_key t)(k \<mapsto> v)"
    and find_delete:
      "budget n t \<Longrightarrow>
         \<exists>t'. delete_key k t = Some (t', find_key t k) \<and> budget n t' \<and> find_key t' = (find_key t)(k := None)"
    and find_empty: "find_key empty_index = Map.empty"
    and budget_mono: "budget n t \<Longrightarrow> m \<le> n \<Longrightarrow> budget m t"
begin

fun insert_list :: "('k \<times> 'v) list \<Rightarrow> 't \<Rightarrow> 't option" where
  "insert_list [] t = Some t"
| "insert_list ((k, v) # es) t = Option.bind (insert_key k v t) (insert_list es)"

lemma insert_list_ok:
  "budget (n + length es) t \<Longrightarrow> \<forall>(k, v) \<in> set es. admissible k \<Longrightarrow>
     \<exists>t'. insert_list es t = Some t' \<and> budget n t' \<and> find_key t' = find_key t ++ map_of (rev es)"
proof (induction es arbitrary: t)
  case Nil
  then show ?case by simp
next
  case (Cons e es)
  obtain k v where e: "e = (k, v)" by (cases e)
  obtain t1 where t1: "insert_key k v t = Some t1" "budget (n + length es) t1" "find_key t1 = (find_key t)(k \<mapsto> v)"
    using find_insert [of "n + length es" t k v] Cons.prems by (auto simp: e)
  obtain t' where "insert_list es t1 = Some t'" "budget n t'" "find_key t' = find_key t1 ++ map_of (rev es)"
    using Cons.IH [OF t1(2)] Cons.prems(2) by auto
  moreover have "find_key t1 ++ map_of (rev es) = find_key t ++ map_of (rev (e # es))"
    by (auto simp: t1(3) e map_add_def fun_eq_iff split: option.splits)
  ultimately show ?case by (simp add: e t1(1))
qed

end

interpretation aix: point_index art_new art_insert art_delete art_lookup "\<lambda>k. k \<in> K"
  "\<lambda>N t. key_space K \<and> N \<le> 65001 \<and> art_ok K N t"
  for K
proof unfold_locales
  show "\<exists>t'. art_insert k v t = Some t' \<and> (key_space K \<and> n \<le> 65001 \<and> art_ok K n t')
      \<and> art_lookup t' = (art_lookup t)(k \<mapsto> v)"
    if "key_space K \<and> Suc n \<le> 65001 \<and> art_ok K (Suc n) t" "k \<in> K" for n t k v
    using art_insert_ok [of K k n t v] that by auto
  show "\<exists>t'. art_delete k t = Some (t', art_lookup t k) \<and> (key_space K \<and> n \<le> 65001 \<and> art_ok K n t')
      \<and> art_lookup t' = (art_lookup t)(k := None)"
    if "key_space K \<and> n \<le> 65001 \<and> art_ok K n t" for n t k
    using art_delete_ok [of K n t k] that by auto
qed (use art_ok_new(2) art_ok_mono in auto)

section \<open>Sequences of index operations\<close>

datatype art_op = ArtInsert bytes row_location | ArtDelete bytes

fun art_step :: "art_op \<Rightarrow> art \<Rightarrow> art option" where
  "art_step (ArtInsert k v) t = art_insert k v t"
| "art_step (ArtDelete k) t = map_option fst (art_delete k t)"

fun art_run :: "art_op list \<Rightarrow> art \<Rightarrow> art option" where
  "art_run [] t = Some t"
| "art_run (p # ps) t = Option.bind (art_step p t) (art_run ps)"

fun map_step :: "art_op \<Rightarrow> (bytes \<rightharpoonup> row_location) \<Rightarrow> (bytes \<rightharpoonup> row_location)" where
  "map_step (ArtInsert k v) m = m(k \<mapsto> v)"
| "map_step (ArtDelete k) m = m(k := None)"

fun inserted :: "art_op list \<Rightarrow> bytes list" where
  "inserted [] = []"
| "inserted (ArtInsert k v # ps) = k # inserted ps"
| "inserted (ArtDelete k # ps) = inserted ps"

lemma art_run_ok:
  assumes "key_space K"
  shows "art_ok K (N + length (inserted ps)) t \<Longrightarrow> set (inserted ps) \<subseteq> K \<Longrightarrow> N + length (inserted ps) \<le> 65000 \<Longrightarrow>
     \<exists>t'. art_run ps t = Some t' \<and> art_ok K N t' \<and> art_lookup t' = fold map_step ps (art_lookup t)"
proof (induction ps arbitrary: t)
  case Nil
  then show ?case by simp
next
  case (Cons p ps)
  show ?case
  proof (cases p)
    case (ArtInsert k v)
    then obtain t1 where "art_insert k v t = Some t1" "art_ok K (N + length (inserted ps)) t1"
      "art_lookup t1 = (art_lookup t)(k \<mapsto> v)"
      using art_insert_ok [OF assms, of k "N + length (inserted ps)" t v] Cons.prems by auto
    then show ?thesis using Cons.IH [of t1] Cons.prems by (simp add: ArtInsert del: fun_upd_apply)
  next
    case (ArtDelete k)
    then obtain t1 v where "art_delete k t = Some (t1, v)" "art_ok K (N + length (inserted ps)) t1"
      "art_lookup t1 = (art_lookup t)(k := None)"
      using art_delete_ok [of K "N + length (inserted ps)" t k] Cons.prems by auto
    then show ?thesis using Cons.IH [of t1] Cons.prems by (simp add: ArtDelete del: fun_upd_apply)
  qed
qed

text \<open>
  C37: The radix tree implements a map. Over keys none of which is another one followed by a
  zero byte, any sequence of deletions and at most 65,000 insertions on an empty tree runs
  without a panic, the tree then answers every lookup (of any key) as the map that the same
  operations produce, and the length counter is the number of keys.
\<close>

theorem art_refines_map:
  assumes "key_space (set (inserted ps))" and "length (inserted ps) \<le> 65000"
  shows "\<exists>t. art_run ps art_new = Some t \<and> art_lookup t = fold map_step ps Map.empty
    \<and> art_len t = card (dom (art_lookup t))"
  using art_run_ok [OF assms(1), of 0 ps art_new] assms(2) art_ok_new(1) by (auto simp: art_ok_new(2) art_ok_def)

definition demo_loc :: "nat \<Rightarrow> row_location" where
  "demo_loc n = SstLoc (word_of_nat n) 0 0"

definition demo_art_ops :: "art_op list" where
  "demo_art_ops = [ArtInsert [7, 1, 2] (demo_loc 1), ArtInsert [7, 1, 3] (demo_loc 2),
     ArtInsert [7] (demo_loc 3), ArtInsert [7, 1, 2] (demo_loc 4), ArtDelete [7, 1, 3]]"

theorem art_refines_map_witness:
  "\<exists>t. art_run demo_art_ops art_new = Some t \<and> art_lookup t [7, 1, 2] = Some (demo_loc 4)
     \<and> art_lookup t [7, 1, 3] = None \<and> art_lookup t [7] = Some (demo_loc 3)"
proof -
  have "key_space (set (inserted demo_art_ops))" "length (inserted demo_art_ops) \<le> 65000"
    by (simp_all add: demo_art_ops_def key_space_def)
  then show ?thesis using art_refines_map [of demo_art_ops] by (auto simp: demo_art_ops_def)
qed

text \<open>
  C38: Without that restriction the index loses keys. After \<open>k\<close>, inserting \<open>k\<close> followed by a
  zero byte succeeds, but the new key is not found, and inserting it again panics on a
  slice out of range.
\<close>

theorem zero_extension_lost:
  "\<exists>t1 t2. art_insert k v art_new = Some t1 \<and> art_insert (k @ [0]) w t1 = Some t2
     \<and> art_lookup t2 (k @ [0]) = None \<and> art_insert (k @ [0]) w t2 = None"
proof -
  have cpl: "common_prefix_len k (k @ [0]) = length k"
    using cpl_less [of k "k @ [0]"] cpl_le(1) [of k "k @ [0]"] by simp
  have b: "byte_at k (length k) = 0" "byte_at (k @ [0]) (length k) = 0" by (simp_all add: byte_at_def)
  let ?l1 = "Leaf k v" and ?l2 = "Leaf (k @ [0]) w"
  let ?n = "N4 (Keyed [0, 0, 0, 0] [Some ?l1, Some ?l2, None, None] 2)"
  have add: "add_child 0 ?l1 new_node4 = Some (N4 (Keyed [0, 0, 0, 0] [Some ?l1, None, None, None] 1))"
    "add_child 0 ?l2 (N4 (Keyed [0, 0, 0, 0] [Some ?l1, None, None, None] 1)) = Some ?n"
    by (simp_all add: add_child_def new_node4_def keyed_new_def keyed_insert_child_def keyed_is_full_def
        shift_right_def numeral_eq_Suc)
  have f: "find_child ?n 0 = Some ?l1" by (simp add: keyed_find_child_def keyed_slot_def)
  have t2: "art_insert (k @ [0]) w \<lparr>root = Some ?l1, art_len = 1\<rparr> = Some \<lparr>root = Some (Inner k ?n), art_len = 2\<rparr>"
    using add by (simp add: art_insert_def cpl b Let_def)
  have "art_lookup \<lparr>root = Some (Inner k ?n), art_len = 2\<rparr> (k @ [0]) = None"
    using f by (simp add: art_lookup_def cpl b)
  moreover have "art_insert (k @ [0]) w \<lparr>root = Some (Inner k ?n), art_len = 2\<rparr> = None"
    using f by (simp add: art_insert_def cpl b Let_def)
  moreover have "art_insert k v art_new = Some \<lparr>root = Some ?l1, art_len = 1\<rparr>"
    by (simp add: art_insert_def art_new_def)
  ultimately show ?thesis using t2 by blast
qed

text \<open>
  Compaction's conditional relocation moves a key exactly when it points into one of the
  named SSTs. A key that a later write moved to the memtable or to another SST, or that is
  absent, keeps its entry, and no other key changes.
\<close>

theorem relocate_correct:
  assumes "key_space K" "k \<in> K" "art_ok K (Suc N) t" "N \<le> 65000"
  shows "\<exists>t' moved. relocate_if_points_to k ids loc t = Some (t', moved) \<and> art_ok K N t'
    \<and> (moved \<longleftrightarrow> (\<exists>s bo ro. art_lookup t k = Some (SstLoc s bo ro) \<and> s \<in> ids))
    \<and> art_lookup t' = (if moved then (art_lookup t)(k \<mapsto> loc) else art_lookup t)"
proof -
  obtain t1 where t1: "art_insert k loc t = Some t1" "art_ok K N t1" "art_lookup t1 = (art_lookup t)(k \<mapsto> loc)"
    using art_insert_ok [OF assms(1,2,4,3)] by blast
  moreover have "art_ok K N t" using art_ok_mono [OF assms(3)] by simp
  ultimately show ?thesis
    by (cases "art_lookup t k"; cases "the (art_lookup t k)") (auto simp: relocate_if_points_to_def)
qed

theorem relocate_correct_witness:
  "\<exists>t'. relocate_if_points_to [1] {7} (demo_loc 9) \<lparr>root = Some (Leaf [1] (demo_loc 7)), art_len = 1\<rparr> = Some (t', True)"
proof -
  let ?t = "\<lparr>root = Some (Leaf [1] (demo_loc 7)), art_len = 1\<rparr>"
  have ks: "key_space {[1]}" by (simp add: key_space_def)
  have l: "art_lookup ?t = [[1] \<mapsto> demo_loc 7]" by (auto simp: art_lookup_def fun_eq_iff)
  have "art_ok {[1]} (Suc 0) ?t" unfolding art_ok_def l by (auto intro: art_inv.leaf)
  then obtain t' moved where r: "relocate_if_points_to [1] {7} (demo_loc 9) ?t = Some (t', moved)"
    "moved \<longleftrightarrow> (\<exists>s bo ro. art_lookup ?t [1] = Some (SstLoc s bo ro) \<and> s \<in> {7})"
    using relocate_correct [OF ks, of "[1]" 0 ?t "{7}" "demo_loc 9"] by auto
  then have "moved" unfolding l by (simp add: demo_loc_def)
  then show ?thesis using r(1) by auto
qed

text \<open>Rebuilding from a list of entries: the last entry of a key wins.\<close>

lemma art_insert_all_list: "art_insert_all es t = aix.insert_list es t"
  by (induction es arbitrary: t) (auto split: bind_split)

text \<open>
  Rebuilding the index discards what it held and yields exactly the given entries, the
  last one of a key winning.
\<close>

theorem rebuild_correct:
  assumes "key_space (set (map fst es))" and "length es \<le> 65000"
  shows "\<exists>t'. rebuild_from_entries es t = Some t' \<and> art_lookup t' = map_of (rev es)"
proof -
  have "\<forall>(k, v) \<in> set es. k \<in> set (map fst es)" by force
  from aix.insert_list_ok [OF _ this, of 0 art_new] assms art_ok_new
  show ?thesis by (auto simp: rebuild_from_entries_def art_insert_all_list)
qed

theorem rebuild_correct_witness:
  "\<exists>t'. rebuild_from_entries [([1], demo_loc 1), ([2], demo_loc 2), ([1], demo_loc 3)] art_new = Some t'
     \<and> art_lookup t' [1] = Some (demo_loc 3)"
  using rebuild_correct [of "[([1], demo_loc 1), ([2], demo_loc 2), ([1], demo_loc 3)]" art_new]
  by (auto simp: key_space_def)

end
