(* ===== verification/Engine.thy ===== *)
theory Engine
  imports WalWriter MemtableManager Art
begin

text \<open>
  The write path, the point reads and the crash recovery of the storage engine
  (\<open>engine.rs\<close>): \<open>Engine::new\<close> with its WAL replay, \<open>put\<close>, \<open>put_sync\<close>,
  \<open>put_batch_sync\<close>, \<open>delete\<close>, \<open>delete_sync\<close>, the vector delta appends and \<open>get\<close>. The
  engine is its WAL writer, its memtable manager, its index and its counters. A panic (of
  the index) is \<open>None\<close>; an error is \<open>Inl\<close>. Reading a value from an SST file is the argument
  \<open>read_value\<close> of \<open>get\<close>. \<open>admit_write\<close> only delays the caller and has no effect on this
  state. A crash keeps exactly the durable image of the WAL file, \<open>synced\<close>.
\<close>

section \<open>Payloads\<close>

definition encode_kv :: "bytes \<Rightarrow> bytes \<Rightarrow> bytes" where
  "encode_kv key value = to_le_bytes (word_of_nat (length key) :: u32) @ key @ value"

definition decode_kv :: "bytes \<Rightarrow> (bytes \<times> bytes) option" where
  "decode_kv pl =
     (if length pl < 4 then None
      else
        let key_len = unat (from_le_bytes (take 4 pl) :: u32)
        in if length pl < 4 + key_len then None
           else Some (sub_slice 4 (4 + key_len) pl, drop (4 + key_len) pl))"

text \<open>The payload of a batch: the number of rows, then every key and value with its length.\<close>

definition encode_batch :: "(bytes \<times> bytes) list \<Rightarrow> bytes" where
  "encode_batch rows =
     to_le_bytes (word_of_nat (length rows) :: u32)
     @ concat (map (\<lambda>(key, value). to_le_bytes (word_of_nat (length key) :: u32) @ key
                       @ to_le_bytes (word_of_nat (length value) :: u32) @ value) rows)"

section \<open>State and operations\<close>

record engine_config =
  memtable_size_bytes :: u64
  ec_back_pressure_bytes :: u64

record engine =
  wal :: wal_writer
  memtable_mgr :: memtable_manager
  art_index :: art
  next_timestamp :: u64
  row_count :: u64

definition memtable_loc :: "wal_lib \<Rightarrow> bytes \<Rightarrow> row_location" where
  "memtable_loc L key = MemtableLoc (ucast (xxh3_64 L key mod 16)) key"

text \<open>\<open>active.put\<close> with its result ignored, as every writer of the engine does.\<close>

definition put_active :: "wal_lib \<Rightarrow> bytes \<Rightarrow> u64 \<Rightarrow> bytes option \<Rightarrow> memtable_manager \<Rightarrow> memtable_manager" where
  "put_active L key ts value m = m\<lparr>active := fst (mt_put (xxh3_64 L) key ts value (active m))\<rparr>"

definition insert_row :: "wal_lib \<Rightarrow> bytes \<Rightarrow> u64 \<Rightarrow> bytes option \<Rightarrow> engine \<Rightarrow> engine option" where
  "insert_row L key ts value e =
     map_option (\<lambda>t. e\<lparr>memtable_mgr := put_active L key ts value (memtable_mgr e), art_index := t\<rparr>)
       (art_insert key (memtable_loc L key) (art_index e))"

definition eng_put ::
  "append_fault \<Rightarrow> wal_lib \<Rightarrow> bytes \<Rightarrow> bytes \<Rightarrow> engine \<Rightarrow> ((galax_error + u64) \<times> engine) option" where
  "eng_put flt L key value e =
     (let ts = next_timestamp e;
          e = e\<lparr>next_timestamp := ts + 1\<rparr>
      in case do_append flt L RowPut (encode_kv key value) (wal e) of
           (Inl err, w) \<Rightarrow> Some (Inl (Io err), e\<lparr>wal := w\<rparr>)
         | (Inr _, w) \<Rightarrow>
           map_option (\<lambda>e. (Inr ts, e\<lparr>row_count := row_count e + 1\<rparr>))
             (insert_row L key ts (Some value) (e\<lparr>wal := w\<rparr>)))"

definition put_sync ::
  "append_fault \<Rightarrow> wal_lib \<Rightarrow> bytes \<Rightarrow> bytes \<Rightarrow> engine \<Rightarrow> ((galax_error + u64) \<times> engine) option" where
  "put_sync flt L key value e = eng_put flt L key value e"

fun insert_rows :: "wal_lib \<Rightarrow> (bytes \<times> bytes) list \<Rightarrow> engine \<Rightarrow> engine option" where
  "insert_rows L [] e = Some e"
| "insert_rows L ((key, value) # rows) e =
     Option.bind
       (insert_row L key (next_timestamp e) (Some value) (e\<lparr>next_timestamp := next_timestamp e + 1\<rparr>))
       (insert_rows L rows)"

definition put_batch_sync ::
  "append_fault \<Rightarrow> wal_lib \<Rightarrow> (bytes \<times> bytes) list \<Rightarrow> engine \<Rightarrow> ((galax_error + u64) \<times> engine) option" where
  "put_batch_sync flt L rows e =
     (if rows = [] then Some (Inr 0, e)
      else
        case do_append flt L RowPut (encode_batch rows) (wal e) of
          (Inl err, w) \<Rightarrow> Some (Inl (Io err), e\<lparr>wal := w\<rparr>)
        | (Inr _, w) \<Rightarrow>
          (let count = word_of_nat (length rows)
           in map_option (\<lambda>e. (Inr count, e\<lparr>row_count := row_count e + count\<rparr>))
                (insert_rows L rows (e\<lparr>wal := w\<rparr>))))"

definition eng_get ::
  "(u64 \<Rightarrow> u64 \<Rightarrow> u32 \<Rightarrow> bytes option) \<Rightarrow> wal_lib \<Rightarrow> engine \<Rightarrow> bytes \<Rightarrow> bytes option" where
  "eng_get read_value L e key =
     (case art_lookup (art_index e) key of
        None \<Rightarrow> None
      | Some (MemtableLoc _ _) \<Rightarrow>
        (case mm_get (xxh3_64 L) (memtable_mgr e) key of
           Some (Some value) \<Rightarrow> Some value
         | Some None \<Rightarrow> None
         | None \<Rightarrow> None)
      | Some (SstLoc sst block row) \<Rightarrow> read_value sst block row)"

definition eng_delete ::
  "append_fault \<Rightarrow> wal_lib \<Rightarrow> bytes \<Rightarrow> engine \<Rightarrow> ((galax_error + bool) \<times> engine) option" where
  "eng_delete flt L key e =
     (case art_lookup (art_index e) key of
        None \<Rightarrow> Some (Inr False, e)
      | Some _ \<Rightarrow>
        (let ts = next_timestamp e;
             e = e\<lparr>next_timestamp := ts + 1\<rparr>
         in case do_append flt L RowDelete key (wal e) of
              (Inl err, w) \<Rightarrow> Some (Inl (Io err), e\<lparr>wal := w\<rparr>)
            | (Inr _, w) \<Rightarrow>
              map_option (\<lambda>(t, _). (Inr True,
                  e\<lparr>wal := w, memtable_mgr := put_active L key ts None (memtable_mgr e), art_index := t\<rparr>))
                (art_delete key (art_index e))))"

definition delete_sync ::
  "append_fault \<Rightarrow> wal_lib \<Rightarrow> bytes \<Rightarrow> engine \<Rightarrow> ((galax_error + bool) \<times> engine) option" where
  "delete_sync flt L key e = eng_delete flt L key e"

text \<open>\<open>append_delta_insert_sync\<close> and \<open>append_delta_tombstone_sync\<close>, by the record type.\<close>

definition append_delta_sync ::
  "append_fault \<Rightarrow> wal_lib \<Rightarrow> wal_record_type \<Rightarrow> bytes \<Rightarrow> engine \<Rightarrow> (galax_error + u64) \<times> engine" where
  "append_delta_sync flt L ty pl e =
     (case do_append flt L ty pl (wal e) of
        (Inl err, w) \<Rightarrow> (Inl (Io err), e\<lparr>wal := w\<rparr>)
      | (Inr seq, w) \<Rightarrow> (Inr seq, e\<lparr>wal := w\<rparr>))"

definition latest_commit_ts :: "engine \<Rightarrow> u64" where
  "latest_commit_ts e = (if next_timestamp e = 0 then 0 else next_timestamp e - 1)"

section \<open>Opening and replay\<close>

fun replay_record :: "wal_lib \<Rightarrow> wal_record_type \<times> bytes \<Rightarrow> engine \<Rightarrow> engine option" where
  "replay_record L (RowPut, pl) e =
     (case decode_kv pl of
        None \<Rightarrow> Some e
      | Some (key, value) \<Rightarrow>
        map_option (\<lambda>e. e\<lparr>row_count := row_count e + 1\<rparr>)
          (insert_row L key (next_timestamp e) (Some value)
             (e\<lparr>next_timestamp := next_timestamp e + 1\<rparr>)))"
| "replay_record L (RowDelete, key) e =
     insert_row L key (next_timestamp e) None (e\<lparr>next_timestamp := next_timestamp e + 1\<rparr>)"
| "replay_record L (DeltaInsert, pl) e = Some e"
| "replay_record L (DeltaTombstone, pl) e = Some e"
| "replay_record L (Checkpoint, pl) e = Some e"
| "replay_record L (BlobRef, pl) e = Some e"

fun replay :: "wal_lib \<Rightarrow> (wal_record_type \<times> bytes) list \<Rightarrow> engine \<Rightarrow> engine option" where
  "replay L [] e = Some e"
| "replay L (r # rs) e = Option.bind (replay_record L r e) (replay L rs)"

definition engine_wal_config :: wal_config where
  "engine_wal_config = \<lparr>checkpoint_size_bytes = 512 * 1024 * 1024, checkpoint_interval = 60,
     preallocate_bytes = 64 * 1024 * 1024\<rparr>"

definition empty_engine :: "engine_config \<Rightarrow> wal_writer \<Rightarrow> engine" where
  "empty_engine cfg w =
     \<lparr>wal = w, memtable_mgr = new_memtable_manager (memtable_size_bytes cfg) (ec_back_pressure_bytes cfg),
      art_index = art_new, next_timestamp = 1, row_count = 0\<rparr>"

definition engine_new :: "wal_lib \<Rightarrow> engine_config \<Rightarrow> bytes option \<Rightarrow> (galax_error + engine) option" where
  "engine_new L cfg wal_path =
     (case new_wal_writer L engine_wal_config wal_path of
        Inl err \<Rightarrow> Some (Inl (Io err))
      | Inr w \<Rightarrow>
        (let recovered = (case recover_wal L (Some (wal_file w)) of
                            Inr (records, _) \<Rightarrow> map entry_of records
                          | Inl err \<Rightarrow> [])
         in map_option (\<lambda>e. Inr (e\<lparr>next_timestamp := max (next_timestamp e) 1\<rparr>))
              (replay L recovered (empty_engine cfg w))))"

section \<open>What the log means\<close>

text \<open>The row a log entry writes, if it writes one, and the last write of every key.\<close>

definition entry_write :: "wal_record_type \<times> bytes \<Rightarrow> (bytes \<times> bytes option) option" where
  "entry_write r =
     (case fst r of
        RowPut \<Rightarrow> map_option (\<lambda>(k, v). (k, Some v)) (decode_kv (snd r))
      | RowDelete \<Rightarrow> Some (snd r, None)
      | _ \<Rightarrow> None)"

definition apply_entry :: "wal_record_type \<times> bytes \<Rightarrow> (bytes \<rightharpoonup> bytes option) \<Rightarrow> (bytes \<rightharpoonup> bytes option)" where
  "apply_entry r m = (case entry_write r of None \<Rightarrow> m | Some (k, v) \<Rightarrow> m(k \<mapsto> v))"

definition log_map :: "(wal_record_type \<times> bytes) list \<Rightarrow> (bytes \<rightharpoonup> bytes option)" where
  "log_map rs = fold apply_entry rs Map.empty"

definition entry_keys :: "wal_record_type \<times> bytes \<Rightarrow> bytes set" where
  "entry_keys r = (case entry_write r of None \<Rightarrow> {} | Some (k, v) \<Rightarrow> {k})"

lemma decode_encode_kv: "length k < 2 ^ 32 \<Longrightarrow> decode_kv (encode_kv k v) = Some (k, v)"
  by (simp add: decode_kv_def encode_kv_def sub_slice_def unat_of_nat_small)

lemma entry_write_simps [simp]:
  "length k < 2 ^ 32 \<Longrightarrow> entry_write (RowPut, encode_kv k v) = Some (k, Some v)"
  "entry_write (RowDelete, k) = Some (k, None)"
  "entry_write (DeltaInsert, pl) = None" "entry_write (DeltaTombstone, pl) = None"
  "entry_write (BlobRef, pl) = None" "entry_write (Checkpoint, pl) = None"
  by (simp_all add: entry_write_def decode_encode_kv)

section \<open>The in-memory state\<close>

text \<open>\<open>mem_rel K L n e m\<close>: the memtables answer as the map \<open>m\<close> of last writes, every live key
  is in the index, which points into the memtable only, and the index has budget for \<open>n\<close>
  more insertions.\<close>

definition mem_rel :: "bytes set \<Rightarrow> wal_lib \<Rightarrow> nat \<Rightarrow> engine \<Rightarrow> (bytes \<rightharpoonup> bytes option) \<Rightarrow> bool" where
  "mem_rel K L n e m \<longleftrightarrow>
     mm_invar (xxh3_64 L) (memtable_mgr e)
     \<and> (\<forall>k. mm_get (xxh3_64 L) (memtable_mgr e) k = m k)
     \<and> (key_space K \<and> n \<le> 65001 \<and> art_ok K n (art_index e))
     \<and> (\<forall>k loc. art_lookup (art_index e) k = Some loc \<longrightarrow> (\<exists>s k'. loc = MemtableLoc s k'))
     \<and> (\<forall>k v. m k = Some (Some v) \<longrightarrow> art_lookup (art_index e) k \<noteq> None)"

lemma mem_relD:
  assumes "mem_rel K L n e m"
  shows "mm_invar (xxh3_64 L) (memtable_mgr e)" "mm_get (xxh3_64 L) (memtable_mgr e) k = m k"
    "key_space K \<and> n \<le> 65001 \<and> art_ok K n (art_index e)"
    "art_lookup (art_index e) k = Some loc \<Longrightarrow> \<exists>s k'. loc = MemtableLoc s k'"
    "m k = Some (Some v) \<Longrightarrow> art_lookup (art_index e) k \<noteq> None"
  using assms by (auto simp: mem_rel_def)

lemma eng_get_rel:
  assumes "mem_rel K L n e m"
  shows "eng_get rv L e k = (case m k of Some (Some v) \<Rightarrow> Some v | _ \<Rightarrow> None)"
proof (cases "art_lookup (art_index e) k")
  case None
  then have "m k \<noteq> Some (Some v)" for v using mem_relD(5) [OF assms, of k v] by auto
  then show ?thesis using None by (auto simp: eng_get_def split: option.splits)
next
  case (Some loc)
  then obtain s k' where "loc = MemtableLoc s k'" using mem_relD(4) [OF assms] by blast
  then show ?thesis using Some mem_relD(2) [OF assms, of k] by (auto simp: eng_get_def split: option.splits)
qed

lemma put_active_get:
  assumes "mm_invar (xxh3_64 L) m"
  shows "mm_invar (xxh3_64 L) (put_active L k ts v m)"
    and "mm_get (xxh3_64 L) (put_active L k ts v m) = (mm_get (xxh3_64 L) m)(k \<mapsto> v)"
proof -
  have a: "\<not> sealed (active m)" "mt_invar (xxh3_64 L) (active m)" using assms by (auto simp: mm_invar_def)
  show "mm_invar (xxh3_64 L) (put_active L k ts v m)"
    using assms mt_invar_put [OF a(2), of k ts v] by (simp add: mm_invar_def put_active_def mt_put_frame)
  have "mm_abs (xxh3_64 L) (put_active L k ts v m) =
      (mm_abs (xxh3_64 L) m)(k := (ts, v) # mm_abs (xxh3_64 L) m k)"
    by (simp add: fun_eq_iff mm_abs_def mm_tables_def put_active_def mt_abs_put [OF a(2,1)])
  then show "mm_get (xxh3_64 L) (put_active L k ts v m) = (mm_get (xxh3_64 L) m)(k \<mapsto> v)"
    by (simp add: fun_eq_iff mm_get_abs)
qed

lemma mem_rel_mono: "mem_rel K L n e m \<Longrightarrow> n' \<le> n \<Longrightarrow> mem_rel K L n' e m"
  using art_ok_mono by (auto simp: mem_rel_def)

lemma mem_rel_frame:
  "mem_rel K L n (e\<lparr>wal := w\<rparr>) m = mem_rel K L n e m"
  "mem_rel K L n (e\<lparr>next_timestamp := t\<rparr>) m = mem_rel K L n e m"
  "mem_rel K L n (e\<lparr>row_count := c\<rparr>) m = mem_rel K L n e m"
  by (simp_all add: mem_rel_def)

lemma mem_rel_empty: "key_space K \<Longrightarrow> n \<le> 65001 \<Longrightarrow> mem_rel K L n (empty_engine cfg w) Map.empty"
  using art_ok_new by (simp add: mem_rel_def empty_engine_def mm_get_abs)

lemma insert_row_rel:
  assumes "mem_rel K L (Suc n) e m" and "k \<in> K"
  shows "\<exists>e'. insert_row L k ts v e = Some e' \<and> mem_rel K L n e' (m(k \<mapsto> v))
    \<and> wal e' = wal e \<and> next_timestamp e' = next_timestamp e \<and> row_count e' = row_count e
    \<and> art_lookup (art_index e') = (art_lookup (art_index e))(k \<mapsto> memtable_loc L k)"
proof -
  note r = mem_relD [OF assms(1)]
  obtain t' where t': "art_insert k (memtable_loc L k) (art_index e) = Some t'"
    "key_space K \<and> n \<le> 65001 \<and> art_ok K n t'"
    "art_lookup t' = (art_lookup (art_index e))(k \<mapsto> memtable_loc L k)"
    using aix.find_insert [OF r(3) assms(2), of "memtable_loc L k"] by (elim exE conjE) (rule that, auto)
  show ?thesis
    using t' r(2,4,5) put_active_get [OF r(1), of k ts v]
    by (auto simp: insert_row_def mem_rel_def memtable_loc_def)
qed

text \<open>The replay indexes every key it writes, deleted or not.\<close>

definition indexed :: "engine \<Rightarrow> (bytes \<rightharpoonup> bytes option) \<Rightarrow> bool" where
  "indexed e m \<longleftrightarrow> dom m \<subseteq> dom (art_lookup (art_index e))"

lemma indexed_frame [simp]:
  "indexed (e\<lparr>next_timestamp := t\<rparr>) m = indexed e m" "indexed (e\<lparr>row_count := c\<rparr>) m = indexed e m"
  by (simp_all add: indexed_def)

lemma replay_record_rel:
  assumes "mem_rel K L (Suc n) e m" and "entry_keys r \<subseteq> K"
  shows "\<exists>e'. replay_record L r e = Some e' \<and> mem_rel K L n e' (apply_entry r m) \<and> wal e' = wal e
    \<and> (indexed e m \<longrightarrow> indexed e' (apply_entry r m))"
proof -
  obtain ty pl where r: "r = (ty, pl)" by (cases r)
  let ?e = "e\<lparr>next_timestamp := next_timestamp e + 1\<rparr>"
  have rel: "mem_rel K L (Suc n) ?e m" "mem_rel K L n e m"
    using assms(1) mem_rel_mono [OF assms(1), of n] by (simp_all add: mem_rel_frame)
  have skip: "replay_record L r e = Some e \<Longrightarrow> entry_write r = None \<Longrightarrow> ?thesis"
    using rel(2) by (simp add: apply_entry_def)
  show ?thesis
  proof (cases "entry_write r")
    case None
    then show ?thesis by (intro skip) (cases ty; auto simp: r entry_write_def split: option.splits)+
  next
    case (Some kv)
    obtain k v where kv: "kv = (k, v)" by (cases kv)
    have "k \<in> K" using assms(2) by (simp add: entry_keys_def Some kv)
    from insert_row_rel [OF rel(1) this, of "next_timestamp e" v] obtain e' where e':
      "insert_row L k (next_timestamp e) v ?e = Some e'" "mem_rel K L n e' (m(k \<mapsto> v))" "wal e' = wal e"
      "art_lookup (art_index e') = (art_lookup (art_index e))(k \<mapsto> memtable_loc L k)"
      by (elim exE conjE) simp
    moreover have "indexed e m \<Longrightarrow> indexed e' (m(k \<mapsto> v))" using e'(4) by (auto simp: indexed_def)
    ultimately show ?thesis
      using Some by (cases ty)
        (auto simp: r entry_write_def kv apply_entry_def mem_rel_frame split: option.splits)
  qed
qed

lemma replay_rel:
  "mem_rel K L (n + length rs) e m \<Longrightarrow> \<forall>r \<in> set rs. entry_keys r \<subseteq> K \<Longrightarrow>
     \<exists>e'. replay L rs e = Some e' \<and> mem_rel K L n e' (fold apply_entry rs m) \<and> wal e' = wal e
       \<and> (indexed e m \<longrightarrow> indexed e' (fold apply_entry rs m))"
proof (induction rs arbitrary: e m)
  case Nil
  then show ?case by simp
next
  case (Cons r rs)
  obtain e1 where e1: "replay_record L r e = Some e1" "mem_rel K L (n + length rs) e1 (apply_entry r m)" "wal e1 = wal e"
    "indexed e m \<longrightarrow> indexed e1 (apply_entry r m)"
    using replay_record_rel [of K L "n + length rs" e m r] Cons.prems by auto
  show ?case using Cons.IH [OF e1(2)] Cons.prems(2) e1 by auto
qed

section \<open>The engine against its log\<close>

definition eng_rel :: "bytes set \<Rightarrow> wal_lib \<Rightarrow> nat \<Rightarrow> engine \<Rightarrow> (wal_record_type \<times> bytes) list \<Rightarrow> bool" where
  "eng_rel K L n e rs \<longleftrightarrow> wal_logged L (wal e) rs \<and> mem_rel K L n e (log_map rs)
     \<and> (\<forall>r \<in> set rs. entry_keys r \<subseteq> K) \<and> n + length rs \<le> 65001"

lemma log_map_snoc: "log_map (rs @ [r]) = apply_entry r (log_map rs)"
  by (simp add: log_map_def)

lemma wal_reopenD:
  "wal_reopen L cfg f = Some (w, es) \<Longrightarrow>
     new_wal_writer L cfg (Some f) = Inr w \<and> (\<exists>rs q. recover_wal L (Some (wal_file w)) = Inr (rs, q) \<and> map entry_of rs = es)"
  by (auto simp: wal_reopen_def split: sum.splits)

lemma eng_rel_append:
  assumes "eng_rel K L (Suc n) e rs" and "entry_fits L r" and "entry_keys r \<subseteq> K"
  obtains q w' where "do_append NoIoFault L (fst r) (snd r) (wal e) = (Inr q, w')" and "wal_logged L w' (rs @ [r])"
    and "\<And>e'. wal e' = w' \<Longrightarrow> mem_rel K L n e' (apply_entry r (log_map rs)) \<Longrightarrow> eng_rel K L n e' (rs @ [r])"
proof -
  have "wal_logged L (wal e) rs" using assms(1) by (simp add: eng_rel_def)
  from wlog.append_logged [OF this assms(2)] obtain q w' where
    "wal_append L r (wal e) = (Inr q, w')" "wal_logged L w' (rs @ [r])" by blast
  then show ?thesis
    using that [of q w'] assms by (simp add: eng_rel_def log_map_snoc wal_append_def)
qed

lemma put_sync_rel:
  assumes rel: "eng_rel K L (Suc n) e rs" and "k \<in> K" "length k < 2 ^ 32" "entry_fits L (RowPut, encode_kv k v)"
  shows "\<exists>e'. put_sync NoIoFault L k v e = Some (Inr (next_timestamp e), e')
    \<and> eng_rel K L n e' (rs @ [(RowPut, encode_kv k v)]) \<and> next_timestamp e' = next_timestamp e + 1"
proof -
  let ?r = "(RowPut, encode_kv k v)"
  have ks: "entry_keys ?r \<subseteq> K" using assms by (simp add: entry_keys_def)
  obtain q w' where w': "do_append NoIoFault L RowPut (encode_kv k v) (wal e) = (Inr q, w')"
    "\<And>e'. wal e' = w' \<Longrightarrow> mem_rel K L n e' (apply_entry ?r (log_map rs)) \<Longrightarrow> eng_rel K L n e' (rs @ [?r])"
    using eng_rel_append [OF rel assms(4) ks] by (metis fst_conv snd_conv)
  let ?e = "e\<lparr>next_timestamp := next_timestamp e + 1, wal := w'\<rparr>"
  have "mem_rel K L (Suc n) ?e (log_map rs)" using rel by (simp add: eng_rel_def mem_rel_frame)
  from insert_row_rel [OF this assms(2), of "next_timestamp e" "Some v"] obtain e' where e':
    "insert_row L k (next_timestamp e) (Some v) ?e = Some e'" "mem_rel K L n e' ((log_map rs)(k \<mapsto> Some v))"
    "wal e' = w'" "next_timestamp e' = next_timestamp e + 1" by (elim exE conjE) (rule that, auto)
  let ?e' = "e'\<lparr>row_count := row_count e' + 1\<rparr>"
  have "eng_rel K L n ?e' (rs @ [?r])"
    using e'(2,3) assms(3) by (intro w'(2)) (simp_all add: mem_rel_frame apply_entry_def)
  then show ?thesis using e' w'(1) by (simp add: put_sync_def eng_put_def Let_def)
qed

lemma delete_sync_rel:
  assumes rel: "eng_rel K L (Suc n) e rs" and "k \<in> K" "entry_fits L (RowDelete, k)"
  shows "\<exists>e' rs'. delete_sync NoIoFault L k e = Some (Inr (art_lookup (art_index e) k \<noteq> None), e')
    \<and> eng_rel K L n e' rs' \<and> art_lookup (art_index e') k = None \<and> (log_map rs' = (log_map rs)(k \<mapsto> None) \<or>
         log_map rs' = log_map rs \<and> (\<forall>v. log_map rs k \<noteq> Some (Some v)))"
proof (cases "art_lookup (art_index e) k")
  case None
  have "log_map rs k \<noteq> Some (Some v)" for v using rel None by (auto simp: eng_rel_def mem_rel_def)
  moreover have "eng_rel K L n e rs" using rel mem_rel_mono [of K L "Suc n" e _ n] by (simp add: eng_rel_def)
  ultimately show ?thesis using None by (auto simp: delete_sync_def eng_delete_def)
next
  case (Some loc)
  let ?r = "(RowDelete, k)"
  have ks: "entry_keys ?r \<subseteq> K" using assms by (simp add: entry_keys_def)
  obtain q w' where w': "do_append NoIoFault L RowDelete k (wal e) = (Inr q, w')"
    "\<And>e'. wal e' = w' \<Longrightarrow> mem_rel K L n e' (apply_entry ?r (log_map rs)) \<Longrightarrow> eng_rel K L n e' (rs @ [?r])"
    using eng_rel_append [OF rel assms(3) ks] by (metis fst_conv snd_conv)
  have m: "mem_rel K L n e (log_map rs)" using rel mem_rel_mono [of K L "Suc n" e _ n] by (simp add: eng_rel_def)
  obtain t' where t': "art_delete k (art_index e) = Some (t', art_lookup (art_index e) k)"
    "key_space K \<and> n \<le> 65001 \<and> art_ok K n t'" "art_lookup t' = (art_lookup (art_index e))(k := None)"
    using aix.find_delete [OF mem_relD(3) [OF m], of k] by (elim exE conjE) (rule that, auto)
  let ?e' = "e\<lparr>next_timestamp := next_timestamp e + 1, wal := w',
    memtable_mgr := put_active L k (next_timestamp e) None (memtable_mgr e), art_index := t'\<rparr>"
  have "mem_rel K L n ?e' ((log_map rs)(k \<mapsto> None))"
    using t'(2,3) mem_relD(2,4,5) [OF m] put_active_get [OF mem_relD(1) [OF m], of k "next_timestamp e" None]
    by (auto simp: mem_rel_def)
  then have "eng_rel K L n ?e' (rs @ [?r])" by (intro w'(2)) (simp_all add: apply_entry_def)
  moreover have "log_map (rs @ [?r]) = (log_map rs)(k \<mapsto> None)" by (simp add: log_map_snoc apply_entry_def)
  ultimately show ?thesis using t'(1,3) w'(1) Some by (auto simp: delete_sync_def eng_delete_def Let_def)
qed

lemma delta_rel:
  assumes rel: "eng_rel K L (Suc n) e rs" and "ty = DeltaInsert \<or> ty = DeltaTombstone" "entry_fits L (ty, pl)"
  shows "\<exists>q e' rs'. append_delta_sync NoIoFault L ty pl e = (Inr q, e') \<and> eng_rel K L n e' rs' \<and> log_map rs' = log_map rs"
proof -
  have none: "entry_write (ty, pl) = None" using assms(2) by auto
  then have ks: "entry_keys (ty, pl) \<subseteq> K" by (simp add: entry_keys_def)
  obtain q w' where w': "do_append NoIoFault L ty pl (wal e) = (Inr q, w')"
    "\<And>e'. wal e' = w' \<Longrightarrow> mem_rel K L n e' (apply_entry (ty, pl) (log_map rs)) \<Longrightarrow> eng_rel K L n e' (rs @ [(ty, pl)])"
    using eng_rel_append [OF rel assms(3) ks] by (metis fst_conv snd_conv)
  have "mem_rel K L n e (log_map rs)" using rel mem_rel_mono [of K L "Suc n" e _ n] by (simp add: eng_rel_def)
  then have "eng_rel K L n (e\<lparr>wal := w'\<rparr>) (rs @ [(ty, pl)])"
    using none by (intro w'(2)) (simp_all add: apply_entry_def mem_rel_frame)
  moreover have "log_map (rs @ [(ty, pl)]) = log_map rs" using none by (simp add: log_map_snoc apply_entry_def)
  ultimately show ?thesis using w'(1) by (auto simp: append_delta_sync_def)
qed

lemma engine_new_replays:
  assumes "new_wal_writer L engine_wal_config path = Inr w" and "recover_wal L (Some (wal_file w)) = Inr (rs, q)"
    and "wal_logged L w (map entry_of rs)" and "key_space K" "\<forall>r \<in> set rs. entry_keys (entry_of r) \<subseteq> K"
    and "n + length rs \<le> 65001"
  shows "\<exists>e'. engine_new L cfg path = Some (Inr e') \<and> eng_rel K L n e' (map entry_of rs)
    \<and> indexed e' (log_map (map entry_of rs))"
proof -
  have "mem_rel K L (n + length (map entry_of rs)) (empty_engine cfg w) Map.empty"
    using assms by (intro mem_rel_empty) auto
  from replay_rel [OF this] assms(5) obtain e' where
    "replay L (map entry_of rs) (empty_engine cfg w) = Some e'"
    "mem_rel K L n e' (log_map (map entry_of rs))" "wal e' = w" "indexed e' (log_map (map entry_of rs))"
    by (auto simp: indexed_def log_map_def empty_engine_def)
  then show ?thesis
    using assms by (auto simp: engine_new_def eng_rel_def mem_rel_frame)
qed

lemma reopen_rel:
  assumes "wal_logged L w rs" and "key_space K" "\<forall>r \<in> set rs. entry_keys r \<subseteq> K" "n + length rs \<le> 65001"
  shows "\<exists>e'. engine_new L cfg (Some (synced w)) = Some (Inr e') \<and> eng_rel K L n e' rs \<and> indexed e' (log_map rs)"
proof -
  obtain w' where w': "wal_reopen L engine_wal_config (synced w) = Some (w', rs)" "wal_logged L w' rs"
    using wlog.reopen_logged [of L w rs engine_wal_config] assms(1) by blast
  from wal_reopenD [OF w'(1)] obtain recs q where recs: "new_wal_writer L engine_wal_config (Some (synced w)) = Inr w'"
    "recover_wal L (Some (wal_file w')) = Inr (recs, q)" "map entry_of recs = rs" by blast
  have ks: "\<forall>r \<in> set recs. entry_keys (entry_of r) \<subseteq> K" "n + length recs \<le> 65001"
    using assms(3,4) recs(3) by auto
  show ?thesis using engine_new_replays [OF recs(1,2) _ assms(2) ks] recs(3) w'(2) by simp
qed

lemma crash_rel:
  "eng_rel K L n e rs \<Longrightarrow> \<exists>e'. engine_new L cfg (Some (synced (wal e))) = Some (Inr e') \<and> eng_rel K L n e' rs"
  using reopen_rel [of L "wal e" rs K n cfg] by (auto simp: eng_rel_def mem_rel_def)

lemma fresh_rel:
  assumes "lz4_ok L" and "wal_path = None \<or> wal_path = Some []" and "key_space K" "n \<le> 65001"
  shows "\<exists>e. engine_new L cfg wal_path = Some (Inr e) \<and> eng_rel K L n e []"
proof -
  obtain w where w: "new_wal_writer L engine_wal_config wal_path = Inr w" "wal_inv L w []"
    using new_wal_writer_fresh [OF assms(1,2)] by metis
  have ne: "wal_file w \<noteq> []"
    using w(2) new_wal_writer_fresh_eq [OF assms(2), of L engine_wal_config] w(1)
      superblock_app_not_Nil [of current_writer_version "[]"]
    by (auto simp: new_wal_writer_def Let_def zero_fill_def sync_all_def write_at_def
        split: sum.splits if_splits)
  have "wal_logged L w []" using w(2) assms(1) ne by (auto simp: wal_logged_def)
  moreover have "recover_wal L (Some (wal_file w)) = Inr ([], max_seq_of 0 [] + 1)"
    using wal_inv_recover [OF assms(1) w(2)] w(2) by (simp add: wal_inv_def after_checkpoint_def)
  ultimately show ?thesis using engine_new_replays [OF w(1), of "[]" _ K n cfg] assms(3,4) by auto
qed

section \<open>Runs with crashes\<close>

datatype eng_op = EPut bytes bytes | EDelete bytes | EDelta bool bytes | ECrash

definition delta_type :: "bool \<Rightarrow> wal_record_type" where
  "delta_type ins = (if ins then DeltaInsert else DeltaTombstone)"

text \<open>One step; \<open>None\<close> is a panic or an error. \<open>ECrash\<close> drops the process and opens the
  durable image again.\<close>

fun eng_step :: "wal_lib \<Rightarrow> engine_config \<Rightarrow> eng_op \<Rightarrow> engine \<Rightarrow> engine option" where
  "eng_step L cfg (EPut k v) e = (case put_sync NoIoFault L k v e of Some (Inr _, e') \<Rightarrow> Some e' | _ \<Rightarrow> None)"
| "eng_step L cfg (EDelete k) e = (case delete_sync NoIoFault L k e of Some (Inr _, e') \<Rightarrow> Some e' | _ \<Rightarrow> None)"
| "eng_step L cfg (EDelta ins pl) e =
     (case append_delta_sync NoIoFault L (delta_type ins) pl e of (Inr _, e') \<Rightarrow> Some e' | _ \<Rightarrow> None)"
| "eng_step L cfg ECrash e = (case engine_new L cfg (Some (synced (wal e))) of Some (Inr e') \<Rightarrow> Some e' | _ \<Rightarrow> None)"

fun eng_run :: "wal_lib \<Rightarrow> engine_config \<Rightarrow> eng_op list \<Rightarrow> engine \<Rightarrow> engine option" where
  "eng_run L cfg [] e = Some e"
| "eng_run L cfg (p # ps) e = Option.bind (eng_step L cfg p e) (eng_run L cfg ps)"

fun table_step :: "eng_op \<Rightarrow> (bytes \<rightharpoonup> bytes) \<Rightarrow> (bytes \<rightharpoonup> bytes)" where
  "table_step (EPut k v) m = m(k \<mapsto> v)"
| "table_step (EDelete k) m = m(k := None)"
| "table_step (EDelta ins pl) m = m"
| "table_step ECrash m = m"

fun op_keys :: "eng_op \<Rightarrow> bytes set" where
  "op_keys (EPut k v) = {k}"
| "op_keys (EDelete k) = {k}"
| "op_keys (EDelta ins pl) = {}"
| "op_keys ECrash = {}"

fun op_fits :: "wal_lib \<Rightarrow> eng_op \<Rightarrow> bool" where
  "op_fits L (EPut k v) \<longleftrightarrow> length k < 2 ^ 32 \<and> entry_fits L (RowPut, encode_kv k v)"
| "op_fits L (EDelete k) \<longleftrightarrow> entry_fits L (RowDelete, k)"
| "op_fits L (EDelta ins pl) \<longleftrightarrow> entry_fits L (delta_type ins, pl)"
| "op_fits L ECrash \<longleftrightarrow> True"

definition live :: "(bytes \<rightharpoonup> bytes option) \<Rightarrow> (bytes \<rightharpoonup> bytes)" where
  "live m k = (case m k of Some (Some v) \<Rightarrow> Some v | _ \<Rightarrow> None)"

lemma live_simps [simp]:
  "live Map.empty = Map.empty" "live (m(k \<mapsto> Some v)) = (live m)(k \<mapsto> v)" "live (m(k \<mapsto> None)) = (live m)(k := None)"
  by (auto simp: live_def fun_eq_iff)

lemma live_delete_absent: "\<forall>v. m k \<noteq> Some (Some v) \<Longrightarrow> live m = (live m)(k := None)"
  by (auto simp: live_def fun_eq_iff split: option.splits)

lemma eng_rel_mono: "eng_rel K L n e rs \<Longrightarrow> n' \<le> n \<Longrightarrow> eng_rel K L n' e rs"
  using mem_rel_mono by (auto simp: eng_rel_def)

lemma eng_step_rel:
  assumes "eng_rel K L (Suc n) e rs" and "op_keys p \<subseteq> K" "op_fits L p"
  shows "\<exists>e' rs'. eng_step L cfg p e = Some e' \<and> eng_rel K L n e' rs' \<and> live (log_map rs') = table_step p (live (log_map rs))"
proof (cases p)
  case (EPut k v)
  with put_sync_rel [OF assms(1), of k v] assms(2,3) obtain e' where
    "put_sync NoIoFault L k v e = Some (Inr (next_timestamp e), e')" "eng_rel K L n e' (rs @ [(RowPut, encode_kv k v)])"
    by auto
  then show ?thesis
    using EPut assms(3) by (auto simp: log_map_snoc apply_entry_def intro!: exI [of _ "rs @ [(RowPut, encode_kv k v)]"])
next
  case (EDelete k)
  with delete_sync_rel [OF assms(1), of k] assms(2,3) obtain b e' rs' where d:
    "delete_sync NoIoFault L k e = Some (Inr b, e')" "eng_rel K L n e' rs'"
    "log_map rs' = (log_map rs)(k \<mapsto> None) \<or> log_map rs' = log_map rs \<and> (\<forall>v. log_map rs k \<noteq> Some (Some v))" by auto
  then have "live (log_map rs') = (live (log_map rs))(k := None)" using live_delete_absent [of "log_map rs" k] by auto
  then show ?thesis using EDelete d(1,2) by auto
next
  case (EDelta ins pl)
  have "delta_type ins = DeltaInsert \<or> delta_type ins = DeltaTombstone" by (simp add: delta_type_def)
  from delta_rel [OF assms(1) this, of pl] assms(3) EDelta obtain q e' rs' where
    "append_delta_sync NoIoFault L (delta_type ins) pl e = (Inr q, e')" "eng_rel K L n e' rs'" "log_map rs' = log_map rs"
    by auto
  then show ?thesis using EDelta by auto
next
  case ECrash
  then show ?thesis using crash_rel [OF eng_rel_mono [OF assms(1)], of n cfg] by auto
qed

lemma eng_run_rel:
  "eng_rel K L (n + length ps) e rs \<Longrightarrow> \<forall>p \<in> set ps. op_keys p \<subseteq> K \<and> op_fits L p \<Longrightarrow>
     \<exists>e' rs'. eng_run L cfg ps e = Some e' \<and> eng_rel K L n e' rs'
       \<and> live (log_map rs') = fold table_step ps (live (log_map rs))"
proof (induction ps arbitrary: e rs)
  case Nil
  then show ?case by auto
next
  case (Cons p ps)
  obtain e1 rs1 where e1: "eng_step L cfg p e = Some e1" "eng_rel K L (n + length ps) e1 rs1"
    "live (log_map rs1) = table_step p (live (log_map rs))"
    using eng_step_rel [of K L "n + length ps" e rs p cfg] Cons.prems by auto
  show ?case using Cons.IH [OF e1(2)] Cons.prems(2) e1 by simp
qed

text \<open>
  C1: Durability of the engine. Starting from an empty directory, run any sequence of at most
  65,000 synchronous puts, deletes and vector-delta appends, with crashes and reopenings
  anywhere in between, over keys none of which starts with another one followed by a zero byte,
  with records that fit the log format and no storage fault. Every operation is acknowledged, every reopening succeeds, nothing panics, and afterwards \<open>get\<close>
  returns for every key the value of its last acknowledged put, or nothing if it was deleted
  or never written.
\<close>

theorem engine_durable:
  assumes "lz4_ok L" and "wal_path = None \<or> wal_path = Some []"
    and "key_space (\<Union> (op_keys ` set ps))" and "length ps \<le> 65000" and "\<forall>p \<in> set ps. op_fits L p"
  shows "\<exists>e e'. engine_new L cfg wal_path = Some (Inr e) \<and> eng_run L cfg ps e = Some e'
    \<and> eng_get rv L e' = fold table_step ps Map.empty"
proof -
  let ?K = "\<Union> (op_keys ` set ps)"
  obtain e where e: "engine_new L cfg wal_path = Some (Inr e)" "eng_rel ?K L (0 + length ps) e []"
    using fresh_rel [OF assms(1,2,3), of "0 + length ps" cfg] assms(4) by auto
  have fits: "\<forall>p \<in> set ps. op_keys p \<subseteq> ?K \<and> op_fits L p" using assms(5) by auto
  obtain e' rs' where e': "eng_run L cfg ps e = Some e'" "eng_rel ?K L 0 e' rs'"
    "live (log_map rs') = fold table_step ps (live (log_map []))"
    using eng_run_rel [OF e(2) fits] by blast
  have "eng_get rv L e' = live (log_map rs')"
    using eng_get_rel [of ?K L 0 e' "log_map rs'"] e'(2) by (auto simp: eng_rel_def live_def fun_eq_iff)
  then show ?thesis using e(1) e'(1,3) by (simp add: log_map_def)
qed

definition demo_eng_cfg :: engine_config where
  "demo_eng_cfg = \<lparr>memtable_size_bytes = 1024, ec_back_pressure_bytes = 4096\<rparr>"

definition demo_eng_ops :: "eng_op list" where
  "demo_eng_ops = [EPut [1] [10], EPut [2] [20], ECrash, EPut [1] [11], EDelete [2], EDelta True [9], ECrash]"

theorem engine_durable_witness:
  "\<exists>e e'. engine_new demo_lib demo_eng_cfg None = Some (Inr e) \<and> eng_run demo_lib demo_eng_cfg demo_eng_ops e = Some e'
     \<and> eng_get (\<lambda>_ _ _. None) demo_lib e' [1] = Some [11] \<and> eng_get (\<lambda>_ _ _. None) demo_lib e' [2] = None"
proof -
  have "key_space (\<Union> (op_keys ` set demo_eng_ops))" "length demo_eng_ops \<le> 65000"
    "\<forall>p \<in> set demo_eng_ops. op_fits demo_lib p"
    by (simp_all add: demo_eng_ops_def key_space_def entry_fits_def encode_kv_def demo_lib_def delta_type_def)
  from engine_durable [OF demo_lib_ok _ this, of None demo_eng_cfg "\<lambda>_ _ _. None"] obtain e e' where
    "engine_new demo_lib demo_eng_cfg None = Some (Inr e)" "eng_run demo_lib demo_eng_cfg demo_eng_ops e = Some e'"
    "eng_get (\<lambda>_ _ _. None) demo_lib e' = fold table_step demo_eng_ops Map.empty" by auto
  then show ?thesis by (simp add: demo_eng_ops_def)
qed

section \<open>Batches\<close>

lemma insert_rows_rel:
  "mem_rel K L (n + length rows) e m \<Longrightarrow> fst ` set rows \<subseteq> K \<Longrightarrow>
     \<exists>e'. insert_rows L rows e = Some e' \<and> wal e' = wal e
       \<and> mem_rel K L n e' (fold (\<lambda>(k, v) m. m(k \<mapsto> Some v)) rows m)"
proof (induction rows arbitrary: e m)
  case Nil
  then show ?case by simp
next
  case (Cons r rows)
  obtain k v where r: "r = (k, v)" by (cases r)
  let ?e = "e\<lparr>next_timestamp := next_timestamp e + 1\<rparr>"
  have "mem_rel K L (Suc (n + length rows)) ?e m" "k \<in> K" using Cons.prems by (simp_all add: r mem_rel_frame)
  from insert_row_rel [OF this, of "next_timestamp e" "Some v"] obtain e1 where e1:
    "insert_row L k (next_timestamp e) (Some v) ?e = Some e1" "mem_rel K L (n + length rows) e1 (m(k \<mapsto> Some v))"
    "wal e1 = wal ?e" by blast
  show ?case using Cons.IH [OF e1(2)] Cons.prems(2) e1(1,3) by (simp add: r del: fun_upd_apply)
qed

lemma live_rows: "live (fold (\<lambda>(k, v) m. m(k \<mapsto> Some v)) rows Map.empty) = map_of (rev rows)"
  by (induction rows rule: rev_induct) (auto simp del: fun_upd_apply)

lemma length_batch_rows:
  "8 * length rows \<le> length (concat (map (\<lambda>(key, value). to_le_bytes (word_of_nat (length key) :: u32) @ key
      @ to_le_bytes (word_of_nat (length value) :: u32) @ value) rows))"
  by (induction rows) auto

lemma decode_encode_batch:
  assumes "length rows < 2 ^ 32"
  shows "decode_kv (encode_batch rows)
    = Some (take (length rows) (drop 4 (encode_batch rows)), drop (4 + length rows) (encode_batch rows))"
  using length_batch_rows [of rows] assms
  by (simp add: decode_kv_def encode_batch_def sub_slice_def unat_of_nat_small Let_def)

text \<open>
  C2: A batch does not survive a crash. On a fresh engine \<open>put_batch_sync\<close> returns the number
  of rows and every row can be read; but its WAL record holds the batch layout under the type
  of a single row. The replay takes the number of rows for the length of a key, so the reopened
  engine has exactly one row, whose key is the first bytes of the encoded batch, and none of
  the batch's own keys (unless one equals those bytes).
\<close>

theorem batch_lost_on_crash:
  assumes "lz4_ok L" and "wal_path = None \<or> wal_path = Some []" and "engine_new L cfg wal_path = Some (Inr e)"
    and "rows \<noteq> []" and "length rows \<le> 65000" and "key_space (fst ` set rows)"
    and "entry_fits L (RowPut, encode_batch rows)"
  shows "\<exists>e1 e2. put_batch_sync NoIoFault L rows e = Some (Inr (word_of_nat (length rows)), e1)
    \<and> eng_get rv L e1 = map_of (rev rows)
    \<and> engine_new L cfg (Some (synced (wal e1))) = Some (Inr e2)
    \<and> eng_get rv L e2 = [take (length rows) (drop 4 (encode_batch rows)) \<mapsto> drop (4 + length rows) (encode_batch rows)]"
proof -
  let ?K = "fst ` set rows" and ?r = "(RowPut, encode_batch rows)"
  let ?g = "take (length rows) (drop 4 (encode_batch rows))" and ?v = "drop (4 + length rows) (encode_batch rows)"
  have rel: "eng_rel ?K L (0 + length rows) e []"
    using fresh_rel [OF assms(1,2,6), of "0 + length rows" cfg] assms(3,5) by auto
  have "wal_logged L (wal e) []" using rel by (simp add: eng_rel_def)
  from wlog.append_logged [OF this assms(7)] obtain q w where
    w: "do_append NoIoFault L RowPut (encode_batch rows) (wal e) = (Inr q, w)" "wal_logged L w [?r]"
    by (auto simp: wal_append_def)
  have "mem_rel ?K L (0 + length rows) (e\<lparr>wal := w\<rparr>) (log_map [])" using rel by (simp add: eng_rel_def mem_rel_frame)
  from insert_rows_rel [OF this subset_refl] obtain e1 where e1:
    "insert_rows L rows (e\<lparr>wal := w\<rparr>) = Some e1" "wal e1 = w"
    "mem_rel ?K L 0 e1 (fold (\<lambda>(k, v) m. m(k \<mapsto> Some v)) rows (log_map []))" by auto
  let ?e1 = "e1\<lparr>row_count := row_count e1 + word_of_nat (length rows)\<rparr>"
  have put: "put_batch_sync NoIoFault L rows e = Some (Inr (word_of_nat (length rows)), ?e1)"
    using w(1) e1(1) assms(4) by (simp add: put_batch_sync_def Let_def)
  have "eng_get rv L ?e1 k = live (fold (\<lambda>(k, v) m. m(k \<mapsto> Some v)) rows (log_map [])) k" for k
    using eng_get_rel [of ?K L 0 ?e1] e1(3) by (simp add: mem_rel_frame live_def)
  then have get1: "eng_get rv L ?e1 = map_of (rev rows)" by (simp add: fun_eq_iff log_map_def live_rows)
  have wr: "entry_write ?r = Some (?g, Some ?v)"
    using decode_encode_batch [of rows] assms(5) by (simp add: entry_write_def)
  have "key_space {?g}" using prefix_length_le [of "?g @ [0]" ?g] by (auto simp: key_space_def)
  from reopen_rel [OF w(2) this, of 0 cfg] wr obtain e2 where e2:
    "engine_new L cfg (Some (synced w)) = Some (Inr e2)" "eng_rel {?g} L 0 e2 [?r]"
    by (auto simp: entry_keys_def)
  have "eng_get rv L e2 k = live (log_map [?r]) k" for k
    using eng_get_rel [of "{?g}" L 0 e2 "log_map [?r]"] e2(2) by (simp add: eng_rel_def live_def)
  then have "eng_get rv L e2 = [?g \<mapsto> ?v]" using wr by (simp add: fun_eq_iff log_map_def apply_entry_def live_def)
  then show ?thesis using put get1 e2(1) e1(2) by auto
qed

definition demo_rows :: "(bytes \<times> bytes) list" where
  "demo_rows = [([7], [1]), ([8], [2])]"

lemma demo_batch: "encode_batch demo_rows = [2, 0, 0, 0, 1, 0, 0, 0, 7, 1, 0, 0, 0, 1, 1, 0, 0, 0, 8, 1, 0, 0, 0, 2]"
  by code_simp

lemma demo_rows_facts:
  "length demo_rows = 2" "key_space (fst ` set demo_rows)"
  "entry_fits demo_lib (RowPut, encode_batch demo_rows)" "take 2 (drop 4 (encode_batch demo_rows)) = [1, 0]"
  "map_of (rev demo_rows) [7] = Some [1]" "demo_rows \<noteq> []"
  unfolding demo_batch
  by (simp_all add: demo_rows_def key_space_def entry_fits_def demo_lib_def)

theorem batch_lost_on_crash_witness:
  "\<exists>e e1 e2. engine_new demo_lib demo_eng_cfg None = Some (Inr e)
     \<and> put_batch_sync NoIoFault demo_lib demo_rows e = Some (Inr 2, e1)
     \<and> eng_get (\<lambda>_ _ _. None) demo_lib e1 [7] = Some [1]
     \<and> engine_new demo_lib demo_eng_cfg (Some (synced (wal e1))) = Some (Inr e2)
     \<and> eng_get (\<lambda>_ _ _. None) demo_lib e2 [7] = None"
proof -
  obtain e where e: "engine_new demo_lib demo_eng_cfg None = Some (Inr e)"
    using fresh_rel [OF demo_lib_ok, of None "{}" 0 demo_eng_cfg] by (auto simp: key_space_def)
  have "length demo_rows \<le> 65000" by (simp add: demo_rows_facts)
  note th = batch_lost_on_crash [OF demo_lib_ok disjI1 [OF refl] e demo_rows_facts(6) this demo_rows_facts(2,3),
    where rv = "\<lambda>_ _ _. None", unfolded demo_rows_facts(1,4)]
  obtain e1 e2 where r:
    "put_batch_sync NoIoFault demo_lib demo_rows e = Some (Inr (word_of_nat 2), e1)"
    "eng_get (\<lambda>_ _ _. None) demo_lib e1 = map_of (rev demo_rows)"
    "engine_new demo_lib demo_eng_cfg (Some (synced (wal e1))) = Some (Inr e2)"
    "eng_get (\<lambda>_ _ _. None) demo_lib e2 = [[1, 0] \<mapsto> drop (4 + 2) (encode_batch demo_rows)]"
    using th by (elim exE conjE) (rule that)
  have "eng_get (\<lambda>_ _ _. None) demo_lib e2 [7] = None" by (simp add: r(4))
  moreover have "eng_get (\<lambda>_ _ _. None) demo_lib e1 [7] = Some [1]" by (simp add: r(2) demo_rows_facts)
  ultimately show ?thesis using e r(1,3) by (intro exI conjI) simp_all
qed

text \<open>
  Deleting twice. A deleted key is out of the index, so a second delete reports that there
  was nothing to delete and writes no record; after a reopening the replay has put the key of
  the tombstone back into the index, and the same delete reports that it removed a row.
\<close>

theorem delete_after_reopen:
  assumes "lz4_ok L" and "engine_new L cfg None = Some (Inr e)"
    and "length k < 2 ^ 32" "entry_fits L (RowPut, encode_kv k v)" "entry_fits L (RowDelete, k)"
  shows "\<exists>t e1 e2 e3. put_sync NoIoFault L k v e = Some (Inr t, e1)
    \<and> delete_sync NoIoFault L k e1 = Some (Inr True, e2)
    \<and> delete_sync NoIoFault L k e2 = Some (Inr False, e2)
    \<and> engine_new L cfg (Some (synced (wal e2))) = Some (Inr e3)
    \<and> (\<exists>e4. delete_sync NoIoFault L k e3 = Some (Inr True, e4))"
proof -
  have ks: "key_space {k}" using prefix_length_le [of "k @ [0]" k] by (auto simp: key_space_def)
  have "eng_rel {k} L (Suc (Suc (Suc 0))) e []" using fresh_rel [OF assms(1) _ ks, of None "Suc (Suc (Suc 0))" cfg] assms(2) by auto
  from put_sync_rel [OF this, of k v] assms(3,4) obtain e1 where e1:
    "put_sync NoIoFault L k v e = Some (Inr (next_timestamp e), e1)"
    "eng_rel {k} L (Suc (Suc 0)) e1 [(RowPut, encode_kv k v)]" by auto
  have m1: "log_map [(RowPut, encode_kv k v)] = [k \<mapsto> Some v]" using assms(3) by (simp add: log_map_def apply_entry_def)
  have "art_lookup (art_index e1) k \<noteq> None" using e1(2) m1 by (auto simp: eng_rel_def mem_rel_def)
  with delete_sync_rel [OF e1(2), of k] assms(5) m1 obtain e2 rs2 where e2:
    "delete_sync NoIoFault L k e1 = Some (Inr True, e2)" "eng_rel {k} L (Suc 0) e2 rs2"
    "art_lookup (art_index e2) k = None" "log_map rs2 k = Some None" by auto
  have del2: "delete_sync NoIoFault L k e2 = Some (Inr False, e2)" using e2(3) by (simp add: delete_sync_def eng_delete_def)
  obtain e3 where e3: "engine_new L cfg (Some (synced (wal e2))) = Some (Inr e3)" "eng_rel {k} L (Suc 0) e3 rs2"
    "indexed e3 (log_map rs2)"
    using reopen_rel [of L "wal e2" rs2 "{k}" "Suc 0" cfg] e2(2) by (auto simp: eng_rel_def mem_rel_def)
  have "art_lookup (art_index e3) k \<noteq> None" using e3(3) e2(4) by (auto simp: indexed_def)
  with delete_sync_rel [OF e3(2), of k] assms(5) obtain e4 where "delete_sync NoIoFault L k e3 = Some (Inr True, e4)" by auto
  then show ?thesis using e1(1) e2(1) del2 e3(1) by blast
qed

theorem delete_after_reopen_witness:
  "\<exists>e t e1 e2 e3 e4. engine_new demo_lib demo_eng_cfg None = Some (Inr e)
    \<and> put_sync NoIoFault demo_lib [5] [6] e = Some (Inr t, e1)
    \<and> delete_sync NoIoFault demo_lib [5] e1 = Some (Inr True, e2)
    \<and> engine_new demo_lib demo_eng_cfg (Some (synced (wal e2))) = Some (Inr e3)
    \<and> delete_sync NoIoFault demo_lib [5] e3 = Some (Inr True, e4)"
proof -
  obtain e where e: "engine_new demo_lib demo_eng_cfg None = Some (Inr e)"
    using fresh_rel [OF demo_lib_ok, of None "{}" 0 demo_eng_cfg] by (auto simp: key_space_def)
  have "length [5 :: u8] < 2 ^ 32" "entry_fits demo_lib (RowPut, encode_kv [5] [6])" "entry_fits demo_lib (RowDelete, [5])"
    by (simp_all add: entry_fits_def encode_kv_def demo_lib_def)
  from delete_after_reopen [OF demo_lib_ok e this] e show ?thesis by blast
qed

end
