(* ===== verification/PaxCodec.thy ===== *)
theory PaxCodec
  imports Format
begin

unbundle bit_operations_syntax

text \<open>
  The column codecs of \<open>pax/codec.rs\<close>: length-prefixed values (codec 0), delta encoding with
  bit-packing (codec 1, \<open>FastPFOR\<close>) and Zstandard (codec 2), over the column types of
  \<open>types.rs\<close>. Zstandard itself is a third-party crate: its two functions are the fields of
  \<open>zstd_lib\<close>. A reading offset is modelled by the bytes from it on. Values of a column are
  byte strings; \<open>u64\<close> arithmetic wraps.
\<close>

section \<open>Column types\<close>

datatype column_type =
    Int8 | Int16 | Int32 | Int64 | UInt8 | UInt16 | UInt32 | UInt64
  | Float32 | Float64 | Text | Blob | Json | Boolean | Embedding u32

definition is_fixed_width :: "column_type \<Rightarrow> bool" where
  "is_fixed_width t \<longleftrightarrow>
     t \<in> {Int8, Int16, Int32, Int64, UInt8, UInt16, UInt32, UInt64, Float32, Float64, Boolean}"

definition is_variable_width :: "column_type \<Rightarrow> bool" where
  "is_variable_width t \<longleftrightarrow> t \<in> {Text, Blob, Json}"

fun byte_size :: "column_type \<Rightarrow> nat option" where
  "byte_size Int8 = Some 1" | "byte_size UInt8 = Some 1" | "byte_size Boolean = Some 1"
| "byte_size Int16 = Some 2" | "byte_size UInt16 = Some 2"
| "byte_size Int32 = Some 4" | "byte_size UInt32 = Some 4" | "byte_size Float32 = Some 4"
| "byte_size Int64 = Some 8" | "byte_size UInt64 = Some 8" | "byte_size Float64 = Some 8"
| "byte_size Text = None" | "byte_size Blob = None" | "byte_size Json = None"
| "byte_size (Embedding dims) = Some (unat dims * 4)"

datatype codec_id = NoCodec | FastPFor | Zstd

fun codec_u8 :: "codec_id \<Rightarrow> u8" where
  "codec_u8 NoCodec = 0" | "codec_u8 FastPFor = 1" | "codec_u8 Zstd = 2"

definition codec_from_u8 :: "u8 \<Rightarrow> codec_id option" where
  "codec_from_u8 v =
     (if v = 0 then Some NoCodec else if v = 1 then Some FastPFor else if v = 2 then Some Zstd else None)"

definition for_column_type :: "column_type \<Rightarrow> codec_id" where
  "for_column_type t =
     (if is_fixed_width t then FastPFor else if is_variable_width t then Zstd else NoCodec)"

section \<open>Length-prefixed values\<close>

definition compress_none :: "bytes list \<Rightarrow> bytes" where
  "compress_none vals = concat (map (\<lambda>v. to_le_bytes (word_of_nat (length v) :: u32) @ v) vals)"

text \<open>The reading loop of \<open>decompress_none\<close> and of \<open>decompress_zstd\<close>; the two differ in
  their messages.\<close>

fun read_values :: "string \<Rightarrow> string \<Rightarrow> nat \<Rightarrow> bytes \<Rightarrow> galax_error + bytes list" where
  "read_values m1 m2 0 data = Inr []"
| "read_values m1 m2 (Suc n) data =
     (if length data < 4 then Inl (Internal m1)
      else
        let len = unat (from_le_bytes (take 4 data) :: u32);
            data = drop 4 data
        in if length data < len then Inl (Internal m2)
           else case read_values m1 m2 n (drop len data) of
                  Inl e \<Rightarrow> Inl e
                | Inr vs \<Rightarrow> Inr (take len data # vs))"

definition decompress_none :: "bytes \<Rightarrow> u32 \<Rightarrow> galax_error + bytes list" where
  "decompress_none data row_count =
     read_values ''unexpected end of uncompressed column data'' ''value extends beyond column data''
       (unat row_count) data"

text \<open>The scan of \<open>decompress_none_single_row\<close>: \<open>n\<close> rows are still to be skipped.\<close>

fun scan_row :: "nat \<Rightarrow> bytes \<Rightarrow> galax_error + bytes" where
  "scan_row n data =
     (if length data < 4 then Inl (Internal ''unexpected end of uncompressed column data'')
      else
        let len = unat (from_le_bytes (take 4 data) :: u32);
            data = drop 4 data
        in if length data < len then Inl (Internal ''value extends beyond column data'')
           else case n of 0 \<Rightarrow> Inr (take len data) | Suc m \<Rightarrow> scan_row m (drop len data))"

declare scan_row.simps [simp del]

definition decompress_none_single_row :: "bytes \<Rightarrow> u32 \<Rightarrow> galax_error + bytes" where
  "decompress_none_single_row data target_row = scan_row (unat target_row) data"

section \<open>Bit-packing\<close>

definition low_mask :: "nat \<Rightarrow> u64" where
  "low_mask bits = (if bits \<ge> 64 then - 1 else push_bit bits 1 - 1)"

text \<open>The inner loop of \<open>bitpack_encode\<close>: \<open>remaining\<close> bits of \<open>v\<close> go to bit \<open>current\<close> of the
  output and after it. An index out of range panics.\<close>

function write_bits :: "nat \<Rightarrow> u64 \<Rightarrow> nat \<Rightarrow> bytes \<Rightarrow> bytes option" where
  "write_bits remaining v current out =
     (if remaining = 0 then Some out
      else
        let byte_idx = current div 8;
            bit_in_byte = current mod 8;
            n = min remaining (8 - bit_in_byte);
            byte_mask = ucast (push_bit n (1 :: u64) - 1) :: u8
        in if byte_idx < length out
           then write_bits (remaining - n) (drop_bit n v) (current + n)
                  (out[byte_idx := (out ! byte_idx) OR push_bit bit_in_byte ((ucast v :: u8) AND byte_mask)])
           else None)"
  by pat_completeness auto
termination
  by (relation "measure (\<lambda>(r, v, c, out). r)") (auto simp: Let_def min_def split: if_splits)

declare write_bits.simps [simp del]

fun pack_values :: "nat \<Rightarrow> nat \<Rightarrow> u64 list \<Rightarrow> bytes \<Rightarrow> bytes option" where
  "pack_values bits off [] out = Some out"
| "pack_values bits off (v # vs) out =
     Option.bind (write_bits bits (v AND low_mask bits) off out) (pack_values bits (off + bits) vs)"

definition bitpack_encode :: "u64 list \<Rightarrow> u8 \<Rightarrow> bytes option" where
  "bitpack_encode vals bits =
     (if bits = 0 \<or> vals = [] then Some []
      else
        let bits = unat bits;
            total_bytes = (length vals * bits + 7) div 8
        in pack_values bits 0 vals (replicate total_bytes 0))"

text \<open>The inner loop of \<open>bitpack_decode\<close>; bits past the end of the data read as zero. A shift count is
  taken modulo the width, as in a release build.\<close>

function read_bits :: "nat \<Rightarrow> nat \<Rightarrow> nat \<Rightarrow> u64 \<Rightarrow> bytes \<Rightarrow> u64" where
  "read_bits remaining current shift v data =
     (if remaining = 0 then v
      else
        let byte_idx = current div 8;
            bit_in_byte = current mod 8;
            n = min remaining (8 - bit_in_byte);
            byte_mask = ucast (push_bit n (1 :: u64) - 1) :: u8;
            v = (if byte_idx < length data
                 then v OR push_bit (shift mod 64) (ucast (drop_bit bit_in_byte (data ! byte_idx) AND byte_mask) :: u64)
                 else v)
        in read_bits (remaining - n) (current + n) (shift + n) v data)"
  by pat_completeness auto
termination
  by (relation "measure (\<lambda>(r, c, s, v, d). r)") (auto simp: Let_def min_def split: if_splits)

declare read_bits.simps [simp del]

definition bitpack_decode :: "bytes \<Rightarrow> u8 \<Rightarrow> nat \<Rightarrow> u64 list" where
  "bitpack_decode data bits count =
     (if bits = 0 \<or> count = 0 then replicate count 0
      else
        let bits = unat bits
        in map (\<lambda>i. read_bits bits (i * bits) 0 0 data AND low_mask bits) [0..<count])"

section \<open>Delta encoding\<close>

text \<open>\<open>zigzag_encode\<close> and \<open>zigzag_decode\<close>: an \<open>i64\<close> is its 64 bits, its right shift is the
  signed one.\<close>

definition zigzag_encode :: "u64 \<Rightarrow> u64" where
  "zigzag_encode v = push_bit 1 v XOR signed_drop_bit 63 v"

definition zigzag_decode :: "u64 \<Rightarrow> u64" where
  "zigzag_decode v = drop_bit 1 v XOR (- (v AND 1))"

fun bytes_to_u64 :: "column_type \<Rightarrow> bytes \<Rightarrow> u64" where
  "bytes_to_u64 t bs =
     (case t of
        Int8 \<Rightarrow> if bs = [] then 0 else ucast (bs ! 0)
      | UInt8 \<Rightarrow> if bs = [] then 0 else ucast (bs ! 0)
      | Boolean \<Rightarrow> if bs = [] then 0 else ucast (bs ! 0)
      | Int16 \<Rightarrow> if length bs < 2 then 0 else ucast (from_le_bytes (take 2 bs) :: u16)
      | UInt16 \<Rightarrow> if length bs < 2 then 0 else ucast (from_le_bytes (take 2 bs) :: u16)
      | Int32 \<Rightarrow> if length bs < 4 then 0 else ucast (from_le_bytes (take 4 bs) :: u32)
      | UInt32 \<Rightarrow> if length bs < 4 then 0 else ucast (from_le_bytes (take 4 bs) :: u32)
      | Float32 \<Rightarrow> if length bs < 4 then 0 else ucast (from_le_bytes (take 4 bs) :: u32)
      | Int64 \<Rightarrow> if length bs < 8 then 0 else from_le_bytes (take 8 bs)
      | UInt64 \<Rightarrow> if length bs < 8 then 0 else from_le_bytes (take 8 bs)
      | Float64 \<Rightarrow> if length bs < 8 then 0 else from_le_bytes (take 8 bs)
      | _ \<Rightarrow> 0)"

declare bytes_to_u64.simps [simp del]

text \<open>\<open>full[..byte_width]\<close> of the fallback panics past eight bytes.\<close>

definition u64_to_bytes :: "column_type \<Rightarrow> u64 \<Rightarrow> nat \<Rightarrow> bytes option" where
  "u64_to_bytes t v byte_width =
     (if t \<in> {Int8, UInt8, Boolean} then Some [ucast v]
      else if t \<in> {Int16, UInt16} then Some (to_le_bytes (ucast v :: u16))
      else if t \<in> {Int32, UInt32, Float32} then Some (to_le_bytes (ucast v :: u32))
      else if t \<in> {Int64, UInt64, Float64} then Some (to_le_bytes v)
      else if byte_width \<le> 8 then Some (take byte_width (to_le_bytes v)) else None)"

definition is_signed :: "column_type \<Rightarrow> bool" where
  "is_signed t \<longleftrightarrow> t \<in> {Int8, Int16, Int32, Int64}"

definition delta :: "column_type \<Rightarrow> u64 \<Rightarrow> u64 \<Rightarrow> u64" where
  "delta t a b = (if is_signed t then zigzag_encode (b - a) else b - a)"

definition undelta :: "column_type \<Rightarrow> u64 \<Rightarrow> u64 \<Rightarrow> u64" where
  "undelta t p d = (if is_signed t then p + zigzag_decode d else p + d)"

definition leading_zeros :: "u64 \<Rightarrow> nat" where
  "leading_zeros w = length (takeWhile (\<lambda>i. \<not> bit w i) (rev [0..<64]))"

definition max_bits_of :: "u64 list \<Rightarrow> u8" where
  "max_bits_of ds =
     (if ds = [] then 0
      else let max_delta = fold max ds 0
           in if max_delta = 0 then 0 else 64 - word_of_nat (leading_zeros max_delta))"

definition compress_fastpfor :: "column_type \<Rightarrow> bytes list \<Rightarrow> (galax_error + bytes) option" where
  "compress_fastpfor t vals =
     (case byte_size t of
        None \<Rightarrow> Some (Inl (Internal ''FastPFOR requires fixed-width column type''))
      | Some byte_width \<Rightarrow>
        if vals = [] then Some (Inr [word_of_nat byte_width])
        else
          let us = map (bytes_to_u64 t) vals;
              deltas = map2 (delta t) us (tl us);
              max_bits = max_bits_of deltas;
              pre = [word_of_nat byte_width] @ hd vals @ [max_bits]
          in if max_bits > 0 \<and> deltas \<noteq> []
             then map_option (\<lambda>packed. Inr (pre @ to_le_bytes (word_of_nat (length packed) :: u32) @ packed))
                    (bitpack_encode deltas max_bits)
             else Some (Inr pre))"

text \<open>The values from the first one and the deltas.\<close>

fun undelta_all :: "column_type \<Rightarrow> u64 \<Rightarrow> u64 list \<Rightarrow> u64 list" where
  "undelta_all t p [] = [p]"
| "undelta_all t p (d # ds) = p # undelta_all t (undelta t p d) ds"

definition decode_deltas :: "bytes \<Rightarrow> u8 \<Rightarrow> nat \<Rightarrow> galax_error + u64 list" where
  "decode_deltas data max_bits delta_count =
     (if max_bits = 0 then Inr (replicate delta_count 0)
      else if length data < 4 then Inl (Internal ''FastPFOR: missing packed length'')
      else
        let packed_len = unat (from_le_bytes (take 4 data) :: u32);
            data = drop 4 data
        in if length data < packed_len then Inl (Internal ''FastPFOR: packed data extends beyond buffer'')
           else Inr (bitpack_decode (take packed_len data) max_bits delta_count))"

definition decompress_fastpfor :: "column_type \<Rightarrow> bytes \<Rightarrow> u32 \<Rightarrow> (galax_error + bytes list) option" where
  "decompress_fastpfor t data row_count =
     (if data = [] then Some (Inl (Internal ''empty FastPFOR data''))
      else
        let byte_width = unat (hd data);
            data = tl data
        in if row_count = 0 then Some (Inr [])
           else if length data < byte_width then Some (Inl (Internal ''FastPFOR: missing first value''))
           else
             let first_value = take byte_width data;
                 data = drop byte_width data
             in if row_count = 1 then Some (Inr [first_value])
                else if data = [] then Some (Inl (Internal ''FastPFOR: missing max_bits''))
                else case decode_deltas (tl data) (hd data) (unat (row_count - 1)) of
                       Inl e \<Rightarrow> Some (Inl e)
                     | Inr deltas \<Rightarrow>
                       map_option Inr
                         (those (map (\<lambda>v. u64_to_bytes t v byte_width)
                            (undelta_all t (bytes_to_u64 t first_value) deltas))))"

section \<open>Zstandard\<close>

record zstd_lib =
  encode_all :: "bytes \<Rightarrow> bytes option"
  decode_all :: "bytes \<Rightarrow> bytes option"

text \<open>The documented behaviour of the \<open>zstd\<close> crate the codec relies on.\<close>

definition zstd_ok :: "zstd_lib \<Rightarrow> bool" where
  "zstd_ok Z \<longleftrightarrow> (\<forall>raw c. encode_all Z raw = Some c \<longrightarrow> decode_all Z c = Some raw)"

definition compress_zstd :: "zstd_lib \<Rightarrow> bytes list \<Rightarrow> galax_error + bytes" where
  "compress_zstd Z vals =
     (let raw = compress_none vals
      in case encode_all Z raw of
           None \<Rightarrow> Inl (Internal ''Zstd compression failed'')
         | Some compressed \<Rightarrow> Inr (to_le_bytes (word_of_nat (length raw) :: u32) @ compressed))"

definition decompress_zstd :: "zstd_lib \<Rightarrow> bytes \<Rightarrow> u32 \<Rightarrow> galax_error + bytes list" where
  "decompress_zstd Z data row_count =
     (if length data < 4 then Inl (Internal ''Zstd data too small'')
      else case decode_all Z (drop 4 data) of
             None \<Rightarrow> Inl (Internal ''Zstd decompression failed'')
           | Some raw \<Rightarrow>
             read_values ''unexpected end of Zstd-decompressed data'' ''value extends beyond decompressed data''
               (unat row_count) raw)"

section \<open>Dispatch\<close>

definition compress :: "zstd_lib \<Rightarrow> column_type \<Rightarrow> codec_id \<Rightarrow> bytes list \<Rightarrow> (galax_error + bytes) option" where
  "compress Z t codec vals =
     (case codec of
        NoCodec \<Rightarrow> Some (Inr (compress_none vals))
      | FastPFor \<Rightarrow> compress_fastpfor t vals
      | Zstd \<Rightarrow> Some (compress_zstd Z vals))"

definition decompress ::
  "zstd_lib \<Rightarrow> column_type \<Rightarrow> codec_id \<Rightarrow> bytes \<Rightarrow> u32 \<Rightarrow> (galax_error + bytes list) option" where
  "decompress Z t codec data row_count =
     (case codec of
        NoCodec \<Rightarrow> Some (decompress_none data row_count)
      | FastPFor \<Rightarrow> decompress_fastpfor t data row_count
      | Zstd \<Rightarrow> Some (decompress_zstd Z data row_count))"

section \<open>Bit-packing is lossless\<close>

lemma low_mask_eq: "low_mask bits = mask bits"
  by (auto simp: low_mask_def mask_eq_exp_minus_1 push_bit_eq_mult intro!: bit_word_eqI)

lemma byte_mask_eq: "ucast ((2 :: u64) ^ n - 1) = (mask n :: u8)" if "n \<le> 8"
  using that by (intro bit_word_eqI) (auto simp: bit_simps simp flip: mask_eq_exp_minus_1)

definition bit_at :: "bytes \<Rightarrow> nat \<Rightarrow> bool" where
  "bit_at bs i \<longleftrightarrow> bit (bs ! (i div 8)) (i mod 8)"

lemma bit_at_split: "a < 8 \<Longrightarrow> bit_at bs (8 * q + a) \<longleftrightarrow> bit (bs ! q) a"
  by (simp add: bit_at_def)

text \<open>Writing a run of bits that ends within one byte.\<close>

lemma bit_at_update:
  assumes "q < length out" and "a < 8" and "n \<le> 8 - a" and "i < 8 * length out"
  shows "bit_at (out[q := (out ! q) OR push_bit a ((ucast (v :: u64) :: u8) AND mask n)]) i
    \<longleftrightarrow> bit_at out i \<or> (8 * q + a \<le> i \<and> i < 8 * q + a + n \<and> bit v (i - (8 * q + a)))"
proof -
  define p b where "p = i div 8" and "b = i mod 8"
  have i: "i = 8 * p + b" "b < 8" by (simp_all add: p_def b_def)
  show ?thesis
  proof (cases "p = q")
    case True
    then show ?thesis
      unfolding i(1) bit_at_split [OF i(2)] using assms i(2) by (auto simp: bit_simps)
  next
    case False
    have "\<not> (8 * q + a \<le> i \<and> i < 8 * q + a + n)" using False assms(2,3) i by linarith
    then show ?thesis using False unfolding i(1) bit_at_split [OF i(2)] by auto
  qed
qed

lemma write_bits_ok:
  "c + r \<le> 8 * length out \<Longrightarrow>
     \<exists>out'. write_bits r v c out = Some out' \<and> length out' = length out
       \<and> (\<forall>i < 8 * length out. bit_at out' i \<longleftrightarrow> bit_at out i \<or> (c \<le> i \<and> i < c + r \<and> bit v (i - c)))"
proof (induction r v c out rule: write_bits.induct)
  case (1 r v c out)
  show ?case
  proof (cases "r = 0")
    case True
    then show ?thesis by (auto simp: write_bits.simps [of 0])
  next
    case False
    define n where "n = min r (8 - c mod 8)"
    define out1 where "out1 = out[c div 8 := (out ! (c div 8)) OR push_bit (c mod 8) ((ucast v :: u8) AND mask n)]"
    have n: "n \<le> 8 - c mod 8" "n \<le> r" "n \<le> 8" "0 < n" using False by (auto simp: n_def)
    have lt: "c div 8 < length out" using 1(2) False by linarith
    have step: "write_bits r v c out = write_bits (r - n) (drop_bit n v) (c + n) out1"
      using False lt n(3) by (subst write_bits.simps) (simp add: Let_def n_def [symmetric] byte_mask_eq out1_def)
    have len: "length out1 = length out" by (simp add: out1_def)
    have "c + n + (r - n) \<le> 8 * length out1" using 1(2) n len by simp
    then obtain out' where out': "write_bits (r - n) (drop_bit n v) (c + n) out1 = Some out'" "length out' = length out1"
      "\<forall>i < 8 * length out1. bit_at out' i \<longleftrightarrow>
         bit_at out1 i \<or> (c + n \<le> i \<and> i < c + n + (r - n) \<and> bit (drop_bit n v) (i - (c + n)))"
      using 1(1) [OF False refl refl refl refl lt] n(3) by (auto simp: n_def [symmetric] byte_mask_eq out1_def)
    have "bit_at out' i \<longleftrightarrow> bit_at out i \<or> (c \<le> i \<and> i < c + r \<and> bit v (i - c))" if i: "i < 8 * length out" for i
      using out'(3) i n len bit_at_update [OF lt _ n(1) i, of v, folded out1_def]
      by (auto simp: bit_simps add.commute)
    then show ?thesis using step out' len by simp
  qed
qed

lemma read_bits_bit:
  "s + r \<le> 64 \<Longrightarrow> bit (read_bits r c s v data) j \<longleftrightarrow>
     bit v j \<or> (s \<le> j \<and> j < s + r \<and> j < 64 \<and> c + (j - s) < 8 * length data \<and> bit_at data (c + (j - s)))"
proof (induction r c s v data rule: read_bits.induct)
  case (1 r c s v data)
  show ?case
  proof (cases "r = 0")
    case True
    then show ?thesis by (auto simp: read_bits.simps [of 0])
  next
    case False
    define n where "n = min r (8 - c mod 8)"
    define v1 where "v1 = (if c div 8 < length data
      then v OR push_bit s (ucast (drop_bit (c mod 8) (data ! (c div 8)) AND mask n) :: u64) else v)"
    have n: "n \<le> 8 - c mod 8" "n \<le> r" "n \<le> 8" "0 < n" using False by (auto simp: n_def)
    have sm: "s mod 64 = s" "s + n + (r - n) \<le> 64" using "1.prems" False n by auto
    have step: "read_bits r c s v data = read_bits (r - n) (c + n) (s + n) v1 data"
      using False n(3) sm by (subst read_bits.simps) (simp add: Let_def n_def [symmetric] byte_mask_eq v1_def)
    have ih: "bit (read_bits (r - n) (c + n) (s + n) v1 data) j \<longleftrightarrow>
      bit v1 j \<or> (s + n \<le> j \<and> j < s + n + (r - n) \<and> j < 64 \<and> c + n + (j - (s + n)) < 8 * length data
        \<and> bit_at data (c + n + (j - (s + n))))"
      using "1.IH" [OF False refl refl refl refl refl, folded n_def] n(3) sm
      by (simp add: byte_mask_eq v1_def cong: if_cong)
    have first: "bit v1 j \<longleftrightarrow> bit v j \<or> (s \<le> j \<and> j < s + n \<and> j < 64 \<and> c + (j - s) < 8 * length data
        \<and> bit_at data (c + (j - s)))"
    proof (cases "s \<le> j \<and> j < s + n")
      case True
      define q a d where "q = c div 8" and "a = c mod 8" and "d = j - s"
      have c: "c + d = 8 * q + (a + d)" "a + d < 8" "d < n" "j = s + d"
        using True n(1) by (auto simp: q_def a_def d_def)
      then have "c + d < 8 * length data \<longleftrightarrow> q < length data" "bit_at data (c + d) \<longleftrightarrow> bit (data ! q) (a + d)"
        using bit_at_split [of "a + d" data q] by (auto simp: add.assoc)
      then show ?thesis
        using c by (auto simp: v1_def q_def [symmetric] a_def [symmetric] bit_simps add.assoc)
    next
      case False
      then show ?thesis by (auto simp: v1_def bit_simps)
    qed
    show ?thesis unfolding step ih first using n by auto
  qed
qed

lemma pack_values_ok:
  "off + length vs * bits \<le> 8 * length out \<Longrightarrow>
     \<exists>out'. pack_values bits off vs out = Some out' \<and> length out' = length out
       \<and> (\<forall>i < 8 * length out. bit_at out' i \<longleftrightarrow>
            bit_at out i \<or> (\<exists>k < length vs. off + k * bits \<le> i \<and> i < off + k * bits + bits
              \<and> bit (vs ! k) (i - (off + k * bits))))"
proof (induction vs arbitrary: off out)
  case Nil
  then show ?case by simp
next
  case (Cons v vs)
  have "off + bits \<le> 8 * length out" using Cons.prems by simp
  from write_bits_ok [OF this, of "v AND low_mask bits"] obtain out1 where out1:
    "write_bits bits (v AND low_mask bits) off out = Some out1" "length out1 = length out"
    "\<forall>i < 8 * length out. bit_at out1 i \<longleftrightarrow> bit_at out i \<or> (off \<le> i \<and> i < off + bits \<and> bit (v AND low_mask bits) (i - off))"
    by blast
  have "off + bits + length vs * bits \<le> 8 * length out1" using Cons.prems out1(2) by simp
  from Cons.IH [OF this] obtain out' where out': "pack_values bits (off + bits) vs out1 = Some out'"
    "length out' = length out1"
    "\<forall>i < 8 * length out1. bit_at out' i \<longleftrightarrow>
       bit_at out1 i \<or> (\<exists>k < length vs. off + bits + k * bits \<le> i \<and> i < off + bits + k * bits + bits
         \<and> bit (vs ! k) (i - (off + bits + k * bits)))" by blast
  have "(\<exists>k < length (v # vs). off + k * bits \<le> i \<and> i < off + k * bits + bits \<and> bit ((v # vs) ! k) (i - (off + k * bits)))
      \<longleftrightarrow> (off \<le> i \<and> i < off + bits \<and> bit v (i - off))
        \<or> (\<exists>k < length vs. off + bits + k * bits \<le> i \<and> i < off + bits + k * bits + bits
             \<and> bit (vs ! k) (i - (off + bits + k * bits)))" for i
    by (simp only: length_Cons Ex_less_Suc2) (simp add: add.assoc)
  moreover have "off \<le> i \<and> i < off + bits \<and> bit (v AND low_mask bits) (i - off) \<longleftrightarrow> off \<le> i \<and> i < off + bits \<and> bit v (i - off)" for i
    using bit_imp_le_length [of v "i - off"] by (auto simp: low_mask_eq bit_simps)
  ultimately have "bit_at out' i \<longleftrightarrow> bit_at out i \<or> (\<exists>k < length (v # vs). off + k * bits \<le> i
      \<and> i < off + k * bits + bits \<and> bit ((v # vs) ! k) (i - (off + k * bits)))" if "i < 8 * length out" for i
    using that out'(3) out1(2,3) by simp
  then show ?case using out1(1,2) out'(1,2) by simp
qed

text \<open>\<open>k * b \<le> i < k * b + b\<close> determines \<open>k\<close>.\<close>

lemma slot_unique: "j < b \<Longrightarrow> k * b \<le> m * b + j \<Longrightarrow> m * b + j < k * b + b \<Longrightarrow> k = (m :: nat)"
proof (rule ccontr)
  assume h: "j < b" "k * b \<le> m * b + j" "m * b + j < k * b + b" "k \<noteq> m"
  then consider "Suc k \<le> m" | "Suc m \<le> k" by linarith
  then show False
  proof cases
    case 1
    then have "Suc k * b \<le> m * b" by (rule mult_le_mono1)
    then show False using h by simp
  next
    case 2
    then have "Suc m * b \<le> k * b" by (rule mult_le_mono1)
    then show False using h by simp
  qed
qed

lemma bitpack_roundtrip_bits:
  assumes "0 < bits" "bits \<le> 64" and "\<forall>v \<in> set vs. v AND mask bits = v" and out: "8 * length out \<ge> length vs * bits"
    and "\<forall>i < 8 * length out. bit_at out i \<longleftrightarrow>
      (\<exists>k < length vs. k * bits \<le> i \<and> i < k * bits + bits \<and> bit (vs ! k) (i - k * bits))"
    and m: "m < length vs"
  shows "read_bits bits (m * bits) 0 0 out AND low_mask bits = vs ! m"
proof (rule bit_word_eqI)
  fix j
  have in_range: "m * bits + j < 8 * length out" if "j < bits"
  proof -
    have "m * bits + j < Suc m * bits" using that by simp
    also have "\<dots> \<le> length vs * bits" using m by (intro mult_le_mono1) simp
    finally show ?thesis using out by simp
  qed
  have "vs ! m AND mask bits = vs ! m" using assms(3) m by simp
  then have hi: "bit (vs ! m) j \<Longrightarrow> j < bits"
    using bit_and_iff [of "vs ! m" "mask bits" j] by (auto simp: bit_mask_iff)
  show "bit (read_bits bits (m * bits) 0 0 out AND low_mask bits) j \<longleftrightarrow> bit (vs ! m) j"
  proof (cases "j < bits")
    case True
    have "bit_at out (m * bits + j) \<longleftrightarrow>
        (\<exists>k < length vs. k * bits \<le> m * bits + j \<and> m * bits + j < k * bits + bits
           \<and> bit (vs ! k) (m * bits + j - k * bits))"
      using assms(5) in_range [OF True] by blast
    also have "\<dots> \<longleftrightarrow> bit (vs ! m) j"
    proof
      assume "\<exists>k < length vs. k * bits \<le> m * bits + j \<and> m * bits + j < k * bits + bits
           \<and> bit (vs ! k) (m * bits + j - k * bits)"
      then obtain k where k: "k * bits \<le> m * bits + j" "m * bits + j < k * bits + bits"
        "bit (vs ! k) (m * bits + j - k * bits)" by blast
      then have "k = m" using slot_unique [OF True] by blast
      then show "bit (vs ! m) j" using k(3) by simp
    qed (use True m in auto)
    finally have "bit_at out (m * bits + j) \<longleftrightarrow> bit (vs ! m) j" .
    then show ?thesis
      using True in_range [OF True] assms(2) by (simp add: read_bits_bit low_mask_eq bit_simps)
  next
    case False
    then show ?thesis using hi by (auto simp: low_mask_eq bit_simps)
  qed
qed

lemma bit_at_zeros: "i < 8 * n \<Longrightarrow> \<not> bit_at (replicate n 0) i"
  by (simp add: bit_at_def)

lemma bitpack_roundtrip:
  assumes "0 < unat bits" "unat bits \<le> 64" and "\<forall>v \<in> set vs. v AND mask (unat bits) = v" and "vs \<noteq> []"
  shows "\<exists>p. bitpack_encode vs bits = Some p \<and> length p = (length vs * unat bits + 7) div 8
    \<and> bitpack_decode p bits (length vs) = vs"
proof -
  define b n where "b = unat bits" and "n = (length vs * unat bits + 7) div 8"
  have n: "length vs * b \<le> 8 * n" by (simp add: n_def b_def)
  from pack_values_ok [of 0 vs b "replicate n 0"] n obtain p where p:
    "pack_values b 0 vs (replicate n 0) = Some p" "length p = n"
    "\<forall>i < 8 * n. bit_at p i \<longleftrightarrow> (\<exists>k < length vs. k * b \<le> i \<and> i < k * b + b \<and> bit (vs ! k) (i - k * b))"
    using bit_at_zeros by auto
  have "bits \<noteq> 0" using assms(1) by auto
  have "read_bits b (m * b) 0 0 p AND low_mask b = vs ! m" if "m < length vs" for m
    using bitpack_roundtrip_bits [of b vs p m] assms n p(2,3) that by (simp add: b_def)
  then have "map (\<lambda>i. read_bits b (i * b) 0 0 p AND low_mask b) [0..<length vs] = vs"
    by (intro nth_equalityI) auto
  then have "bitpack_decode p bits (length vs) = vs"
    using \<open>bits \<noteq> 0\<close> assms(4) by (simp add: bitpack_decode_def b_def Let_def)
  moreover have "bitpack_encode vs bits = Some p"
    using p(1) \<open>bits \<noteq> 0\<close> assms(4) by (simp add: bitpack_encode_def Let_def b_def n_def)
  ultimately show ?thesis using p(2) by (auto simp: n_def)
qed

section \<open>Delta encoding is lossless\<close>

lemma bit_zigzag: "bit (zigzag_encode v) j \<longleftrightarrow> j < 64 \<and> (1 \<le> j \<and> bit v (j - 1)) \<noteq> bit v 63"
proof -
  have "bit (push_bit 1 v) j \<longleftrightarrow> 1 \<le> j \<and> j < 64 \<and> bit v (j - 1)"
    by (rule trans [OF bit_push_bit_iff]) auto
  moreover have "bit (signed_drop_bit 63 v) j \<longleftrightarrow> j < 64 \<and> bit v 63"
    using bit_imp_le_length [of v "63 + j"] by (cases "j = 0") (auto simp: bit_simps)
  ultimately show ?thesis by (auto simp: zigzag_encode_def bit_xor_iff)
qed

lemma zigzag_roundtrip: "zigzag_decode (zigzag_encode v) = v"
proof (rule bit_word_eqI)
  fix i assume "i < LENGTH(64)"
  then have i: "i < 64" by simp
  have "zigzag_encode v AND 1 = (if bit v 63 then 1 else 0)"
    using bit_zigzag [of v 0] by (auto simp: bit_0 and_one_eq odd_iff_mod_2_eq_one even_iff_mod_2_eq_zero)
  then have "bit (- (zigzag_encode v AND 1)) i \<longleftrightarrow> bit v 63" using i by (auto simp: bit_simps)
  moreover have "bit (drop_bit 1 (zigzag_encode v)) i \<longleftrightarrow> i < 63 \<and> bit v i \<noteq> bit v 63"
    by (rule trans [OF bit_drop_bit_eq [THEN fun_cong]]) (auto simp: bit_zigzag)
  ultimately show "bit (zigzag_decode (zigzag_encode v)) i \<longleftrightarrow> bit v i"
    using i by (cases "i = 63") (auto simp: zigzag_decode_def bit_xor_iff)
qed

lemma undelta_delta: "undelta t a (delta t a b) = b"
  by (simp add: undelta_def delta_def zigzag_roundtrip)

lemma undelta_all_deltas: "undelta_all t u (map2 (delta t) (u # us) us) = u # us"
  by (induction us arbitrary: u) (simp_all add: undelta_delta)

lemma fold_max_ge_init: "a \<le> fold max ds (a :: 'a::linorder)"
proof (induction ds arbitrary: a)
  case (Cons d ds)
  have "a \<le> max d a" by (rule max.cobounded2)
  also have "\<dots> \<le> fold max ds (max d a)" by (rule Cons.IH)
  finally show ?case by simp
qed simp

lemma fold_max_ge: "x \<in> set ds \<Longrightarrow> x \<le> fold max ds (a :: 'a::linorder)"
proof (induction ds arbitrary: a)
  case (Cons d ds)
  have "d \<le> max d a" by (rule max.cobounded1)
  also have "\<dots> \<le> fold max ds (max d a)" by (rule fold_max_ge_init)
  finally show ?case using Cons by auto
qed simp

lemma leading_zeros_bits: "64 - leading_zeros w \<le> i \<Longrightarrow> \<not> bit w i"
proof (cases "i < 64")
  case True
  let ?xs = "rev [0..<64] :: nat list"
  assume "64 - leading_zeros w \<le> i"
  then have l: "63 - i < leading_zeros w" using True by linarith
  have len: "leading_zeros w \<le> length ?xs" by (simp only: leading_zeros_def length_takeWhile_le)
  have "takeWhile (\<lambda>i. \<not> bit w i) ?xs ! (63 - i) = ?xs ! (63 - i)"
    using l by (intro takeWhile_nth) (simp add: leading_zeros_def)
  also have "\<dots> = i" using True by (simp add: rev_nth)
  finally have "i \<in> set (takeWhile (\<lambda>i. \<not> bit w i) ?xs)"
    using l nth_mem [of "63 - i" "takeWhile (\<lambda>i. \<not> bit w i) ?xs"] by (simp add: leading_zeros_def)
  then show ?thesis by (auto dest: set_takeWhileD)
next
  case False
  then show ?thesis using bit_imp_le_length [of w i] by auto
qed

lemma leading_zeros_le: "leading_zeros w \<le> 64"
  using length_takeWhile_le [of "\<lambda>i. \<not> bit w i" "rev [0..<64]"] by (simp add: leading_zeros_def)

lemma leading_zeros_less: "w \<noteq> 0 \<Longrightarrow> leading_zeros w < 64"
  using leading_zeros_bits [of w] leading_zeros_le [of w] by (metis bit_0_eq bit_word_eqI bot_apply bot_bool_def
      diff_self_eq_0 le0 nat_less_le)

text \<open>Every value not above \<open>w\<close> fits the bits of \<open>w\<close>.\<close>

lemma fits_bits:
  assumes "v \<le> w"
  shows "v AND mask (64 - leading_zeros w) = v"
proof -
  let ?b = "64 - leading_zeros w"
  have w: "take_bit ?b w = w" using leading_zeros_bits [of w] by (intro bit_word_eqI) (auto simp: bit_simps simp flip: not_le)
  have "unat w < 2 ^ ?b" by (metis w take_bit_nat_less_exp unsigned_take_bit_eq)
  then have "unat v < 2 ^ ?b" using assms by (meson le_less_trans word_le_nat_alt)
  then have "take_bit ?b (unat v) = unat v" by (simp add: take_bit_nat_eq_self)
  then have "take_bit ?b v = v" by (metis unsigned_take_bit_eq word_unat_eq_iff)
  then show ?thesis by (simp add: take_bit_eq_mask)
qed

lemma map_option_those: "\<forall>x \<in> set xs. f x = Some (g x) \<Longrightarrow> those (map f xs) = Some (map g xs)"
  by (induction xs) auto

lemma ucast_u64_back [simp]:
  "ucast (ucast (a :: u8) :: u64) = a" "ucast (ucast (b :: u16) :: u64) = b" "ucast (ucast (c :: u32) :: u64) = c"
  by (rule bit_word_eqI, simp add: bit_simps)+

lemma u64_bytes_roundtrip:
  assumes "is_fixed_width t" and "byte_size t = Some (length bs)"
  shows "u64_to_bytes t (bytes_to_u64 t bs) w = Some bs"
proof -
  have sz: "length bs = 1 \<Longrightarrow> \<exists>b. bs = [b]" by (cases bs) auto
  show ?thesis
    using assms sz
    by (cases t) (auto simp: is_fixed_width_def u64_to_bytes_def bytes_to_u64.simps
        intro!: to_from_le_bytes)
qed

lemma max_bits_cases:
  assumes "ds \<noteq> []"
  shows "max_bits_of ds = 0 \<and> (\<forall>d \<in> set ds. d = 0)
    \<or> 0 < unat (max_bits_of ds) \<and> unat (max_bits_of ds) \<le> 64 \<and> (\<forall>d \<in> set ds. d AND mask (unat (max_bits_of ds)) = d)"
proof -
  let ?m = "fold max ds 0"
  have ge: "d \<le> ?m" if "d \<in> set ds" for d using fold_max_ge [OF that] .
  show ?thesis
  proof (cases "?m = 0")
    case True
    then show ?thesis using ge assms by (auto simp: max_bits_of_def Let_def)
  next
    case False
    have lz: "leading_zeros ?m < 64" by (rule leading_zeros_less [OF False])
    then have "word_of_nat (leading_zeros ?m) \<le> (64 :: u8)" by (simp add: word_le_nat_alt unat_of_nat_small)
    then have "unat (64 - word_of_nat (leading_zeros ?m) :: u8) = 64 - leading_zeros ?m"
      using lz by (simp add: unat_sub unat_of_nat_small)
    then show ?thesis using False assms ge lz by (auto simp: max_bits_of_def Let_def intro: fits_bits)
  qed
qed

text \<open>What \<open>compress_fastpfor\<close> appends after \<open>max_bits\<close> decodes to the deltas.\<close>

lemma deltas_roundtrip:
  assumes "ds \<noteq> []" and "length ds < 2 ^ 29"
  shows "if max_bits_of ds > 0
    then \<exists>p. bitpack_encode ds (max_bits_of ds) = Some p
       \<and> decode_deltas (to_le_bytes (word_of_nat (length p) :: u32) @ p) (max_bits_of ds) (length ds) = Inr ds
    else decode_deltas rest (max_bits_of ds) (length ds) = Inr ds"
proof (cases "max_bits_of ds > 0")
  case True
  let ?b = "max_bits_of ds"
  have b: "0 < unat ?b" "unat ?b \<le> 64" "\<forall>d \<in> set ds. d AND mask (unat ?b) = d"
    using max_bits_cases [OF assms(1)] True by auto
  from bitpack_roundtrip [OF b assms(1)] obtain p where p: "bitpack_encode ds ?b = Some p"
    "length p = (length ds * unat ?b + 7) div 8" "bitpack_decode p ?b (length ds) = ds" by blast
  have "length ds * unat ?b \<le> (2 ^ 29 - 1) * 64" using b(2) assms(2) by (intro mult_le_mono) auto
  then have "length p < 2 ^ 32" unfolding p(2) by simp
  then show ?thesis using True p by (auto simp: decode_deltas_def unat_of_nat_small)
next
  case False
  then have "\<forall>d \<in> set ds. d = 0" and z: "max_bits_of ds = 0"
    using max_bits_cases [OF assms(1)] by (auto simp: word_less_nat_alt)
  then have "ds = replicate (length ds) 0" by (metis replicate_length_same)
  then show ?thesis using False z by (simp add: decode_deltas_def)
qed

text \<open>The values a column may hold under each codec.\<close>

definition column_fits :: "column_type \<Rightarrow> codec_id \<Rightarrow> bytes list \<Rightarrow> bool" where
  "column_fits t codec vals \<longleftrightarrow>
     (case codec of
        FastPFor \<Rightarrow> is_fixed_width t \<and> (\<forall>v \<in> set vals. byte_size t = Some (length v)) \<and> length vals < 2 ^ 29
      | _ \<Rightarrow> (\<forall>v \<in> set vals. length v < 2 ^ 32) \<and> length vals < 2 ^ 32)"

lemma byte_size_le: "is_fixed_width t \<Longrightarrow> byte_size t = Some n \<Longrightarrow> n \<le> 8"
  by (cases t) (auto simp: is_fixed_width_def)

lemma fixed_has_size: "is_fixed_width t \<Longrightarrow> \<exists>n. byte_size t = Some n"
  by (cases t) (auto simp: is_fixed_width_def)

lemma fastpfor_roundtrip:
  assumes fits: "column_fits t FastPFor vals"
  shows "\<exists>c. compress_fastpfor t vals = Some (Inr c) \<and> decompress_fastpfor t c (word_of_nat (length vals)) = Some (Inr vals)"
proof -
  have fw: "is_fixed_width t" "\<forall>v \<in> set vals. byte_size t = Some (length v)" "length vals < 2 ^ 29"
    using fits by (auto simp: column_fits_def)
  obtain n where n: "byte_size t = Some n" using fixed_has_size [OF fw(1)] by blast
  have len: "\<forall>v \<in> set vals. length v = n" using fw(2) n by auto
  have n8: "unat (word_of_nat n :: u8) = n" using byte_size_le [OF fw(1) n] by (simp add: unat_of_nat_small)
  consider "vals = []" | v where "vals = [v]" | v v' vs where "vals = v # v' # vs"
    by (cases vals rule: remdups_adj.cases) auto
  then show ?thesis
  proof cases
    case 1
    then show ?thesis by (simp add: compress_fastpfor_def n decompress_fastpfor_def Let_def)
  next
    case (2 v)
    then show ?thesis
      using len n8 by (simp add: compress_fastpfor_def n decompress_fastpfor_def Let_def max_bits_of_def)
  next
    case (3 v v' vs)
    let ?us = "map (bytes_to_u64 t) vals"
    define ds where "ds = map2 (delta t) ?us (tl ?us)"
    have ds: "ds \<noteq> []" "length ds = Suc (length vs)" "length ds < 2 ^ 29" using fw(3) by (simp_all add: ds_def 3)
    have rc: "(word_of_nat (length vals) :: u32) \<noteq> 0" "(word_of_nat (length vals) :: u32) \<noteq> 1"
      "unat (word_of_nat (length vals) - 1 :: u32) = length ds"
    proof -
      have u: "unat (word_of_nat (length vals) :: u32) = Suc (Suc (length vs))"
        using fw(3) by (subst unat_of_nat_small) (simp_all add: 3)
      then show "(word_of_nat (length vals) :: u32) \<noteq> 0" "(word_of_nat (length vals) :: u32) \<noteq> 1"
        by (metis nat.distinct(1) unat_0, metis One_nat_def nat.distinct(1) nat.inject unat_1)
      have "(1 :: u32) \<le> word_of_nat (length vals)" using u by (simp only: word_le_nat_alt) simp
      then show "unat (word_of_nat (length vals) - 1 :: u32) = length ds" using u by (simp only: unat_sub ds(2)) simp
    qed
    have und: "undelta_all t (bytes_to_u64 t v) ds = ?us"
      using undelta_all_deltas [of t "bytes_to_u64 t v" "map (bytes_to_u64 t) (v' # vs)"] by (simp add: ds_def 3)
    have hd: "vals \<noteq> []" "List.hd vals = v" "length v = n" "tl ?us \<noteq> []" using len by (simp_all add: 3)
    have rt: "those (map (\<lambda>u. u64_to_bytes t u n) ?us) = Some vals"
      using map_option_those [of vals "\<lambda>v. u64_to_bytes t (bytes_to_u64 t v) n" id]
        u64_bytes_roundtrip [OF fw(1)] fw(2) by (simp add: comp_def)
    let ?tail = "if max_bits_of ds > 0 then (case bitpack_encode ds (max_bits_of ds) of
        Some p \<Rightarrow> to_le_bytes (word_of_nat (length p) :: u32) @ p | None \<Rightarrow> []) else []"
    have dec: "decode_deltas ?tail (max_bits_of ds) (length ds) = Inr ds"
      using deltas_roundtrip [OF ds(1,3), of "[]"] by (auto split: if_splits)
    have comp: "compress_fastpfor t vals = Some (Inr ([word_of_nat n] @ v @ [max_bits_of ds] @ ?tail))"
      using deltas_roundtrip [OF ds(1,3), of "[]"] ds(1)
      hd by (auto simp: compress_fastpfor_def n Let_def ds_def [symmetric] split: if_splits)
    have "decompress_fastpfor t ([word_of_nat n] @ v @ [max_bits_of ds] @ ?tail) (word_of_nat (length vals)) = Some (Inr vals)"
      using rc hd(3) n8 dec und rt by (simp add: decompress_fastpfor_def Let_def)
    then show ?thesis using comp by blast
  qed
qed

lemma read_values_roundtrip:
  "\<forall>v \<in> set vals. length v < 2 ^ 32 \<Longrightarrow> read_values m1 m2 (length vals) (compress_none vals @ rest) = Inr vals"
  by (induction vals) (simp_all add: compress_none_def unat_of_nat_small)

text \<open>On any data the single-row scan agrees with decoding the whole column.\<close>

lemma scan_row_nth:
  "read_values m1 m2 n data = Inr vals \<Longrightarrow> i < n \<Longrightarrow> scan_row i data = Inr (vals ! i)"
proof (induction n arbitrary: i data vals)
  case (Suc n)
  define len where "len = unat (from_le_bytes (take 4 data) :: u32)"
  have d: "\<not> length data < 4" "\<not> length (drop 4 data) < len"
    using Suc.prems(1) by (auto simp: Let_def len_def split: if_splits)
  then obtain vs where vs: "read_values m1 m2 n (drop len (drop 4 data)) = Inr vs" "vals = take len (drop 4 data) # vs"
    using Suc.prems(1) by (auto simp: Let_def len_def split: sum.splits)
  show ?case
  proof (cases i)
    case 0
    then show ?thesis using d vs by (simp add: scan_row.simps [of 0] Let_def len_def)
  next
    case (Suc j)
    then show ?thesis
      using d vs Suc.IH [OF vs(1), of j] Suc.prems(2) by (simp add: scan_row.simps [of "Suc j"] Let_def len_def)
  qed
qed simp

lemma compress_total:
  "column_fits t codec vals \<Longrightarrow> codec = Zstd \<longrightarrow> encode_all Z (compress_none vals) \<noteq> None \<Longrightarrow>
     \<exists>c. compress Z t codec vals = Some (Inr c)"
  using fastpfor_roundtrip [of t vals] by (cases codec) (auto simp: compress_def compress_zstd_def)

lemma codec_roundtrip_value:
  assumes "zstd_ok Z" and "column_fits t codec vals" and "compress Z t codec vals = Some (Inr c)"
  shows "decompress Z t codec c (word_of_nat (length vals)) = Some (Inr vals)"
proof (cases codec)
  case FastPFor
  then show ?thesis using fastpfor_roundtrip [of t vals] assms(2,3) by (auto simp: compress_def decompress_def)
next
  case NoCodec
  then show ?thesis
    using assms(2,3) read_values_roundtrip [of vals _ _ "[]"]
    by (auto simp: compress_def decompress_def decompress_none_def column_fits_def unat_of_nat_small)
next
  case Zstd
  then show ?thesis
    using assms read_values_roundtrip [of vals _ _ "[]"]
    by (cases "encode_all Z (compress_none vals)")
      (auto simp: compress_def decompress_def compress_zstd_def decompress_zstd_def column_fits_def
        unat_of_nat_small zstd_ok_def Let_def)
qed

text \<open>
  The codecs are lossless. Whatever codec a column is written with, decompressing the
  compressed column gives back its values: for length-prefixed and Zstandard columns any
  values of less than 4 GiB, for FastPFOR any fixed-width type and values of exactly its
  width, signed or not, with every bit width the deltas need. The only failure is
  Zstandard's own.
\<close>

theorem codec_roundtrip:
  assumes "zstd_ok Z" and "column_fits t codec vals"
  shows "(\<exists>c. compress Z t codec vals = Some (Inr c)
        \<and> decompress Z t codec c (word_of_nat (length vals)) = Some (Inr vals))
    \<or> codec = Zstd \<and> encode_all Z (compress_none vals) = None"
proof -
  have "\<exists>c. compress Z t codec vals = Some (Inr c)" if "\<not> (codec = Zstd \<and> encode_all Z (compress_none vals) = None)"
    using that compress_total [OF assms(2), of Z] by blast
  then show ?thesis using codec_roundtrip_value [OF assms] by blast
qed

definition demo_zstd :: zstd_lib where
  "demo_zstd = \<lparr>encode_all = Some, decode_all = Some\<rparr>"

lemma demo_zstd_ok: "zstd_ok demo_zstd"
  by (simp add: zstd_ok_def demo_zstd_def)

theorem codec_roundtrip_witness:
  "\<exists>c. compress demo_zstd Int16 FastPFor [[0x39, 0x30], [0xFF, 0xFF], [7, 0], [7, 1]] = Some (Inr c)
     \<and> decompress demo_zstd Int16 FastPFor c 4 = Some (Inr [[0x39, 0x30], [0xFF, 0xFF], [7, 0], [7, 1]])"
proof -
  have "column_fits Int16 FastPFor [[0x39, 0x30], [0xFF, 0xFF], [7, 0], [7, 1]]"
    by (simp add: column_fits_def is_fixed_width_def)
  from codec_roundtrip [OF demo_zstd_ok this] show ?thesis by simp
qed

end
