(* ===== verification/Pax.thy ===== *)
theory Pax
  imports PaxCodec "HOL-Library.List_Lexorder"
begin

text \<open>
  The PAX block of \<open>pax/mod.rs\<close>: zone maps and pruning, writing a block from columns, its
  serialised form with the trailing XXH3-64 checksum, checked deserialisation, reading a
  column or one row, and the fast path that extracts a value from the raw bytes without
  building a block. The hash \<open>h\<close> and Zstandard are arguments. A panic is \<open>None\<close>.
\<close>

section \<open>Data\<close>

definition PAX_MAGIC :: u32 where
  "PAX_MAGIC = 0x47414C41"

definition PAX_FORMAT_VERSION :: u8 where
  "PAX_FORMAT_VERSION = 1"

record zone_map =
  zmin :: bytes
  zmax :: bytes

record column_descriptor =
  cd_type :: column_type
  cd_codec :: codec_id
  cd_offset :: u64
  compressed_len :: u32
  zone_map_min :: bytes
  zone_map_max :: bytes

record pax_header =
  pax_magic :: u32
  pax_version :: u8
  block_id :: u64
  hd_row_count :: u32
  commit_timestamp :: u64
  column_count :: u16
  column_descriptors :: "column_descriptor list"

record pax_block =
  header :: pax_header
  column_data :: bytes
  row_offsets :: "u32 list"
  checksum :: u64

record column =
  col_type :: column_type
  col_values :: "bytes list"

section \<open>Zone maps\<close>

definition to_be_bytes :: "'a::len word \<Rightarrow> bytes" where
  "to_be_bytes w = rev (to_le_bytes w)"

definition float_key :: "'a::len word \<Rightarrow> 'a word \<Rightarrow> 'a word" where
  "float_key sign bits = (if bits AND sign \<noteq> 0 then NOT bits else bits XOR sign)"

definition to_comparable_bytes :: "column_type \<Rightarrow> bytes \<Rightarrow> bytes" where
  "to_comparable_bytes t v =
     (if t = Int8 \<and> length v = 1 then [hd v XOR 0x80]
      else if t = Int16 \<and> length v = 2 then to_be_bytes ((from_le_bytes v :: u16) XOR 0x8000)
      else if t = Int32 \<and> length v = 4 then to_be_bytes ((from_le_bytes v :: u32) XOR 0x80000000)
      else if t = Int64 \<and> length v = 8 then to_be_bytes ((from_le_bytes v :: u64) XOR 0x8000000000000000)
      else if t = UInt16 \<and> length v = 2 then to_be_bytes (from_le_bytes v :: u16)
      else if t = UInt32 \<and> length v = 4 then to_be_bytes (from_le_bytes v :: u32)
      else if t = UInt64 \<and> length v = 8 then to_be_bytes (from_le_bytes v :: u64)
      else if t = Float32 \<and> length v = 4 then to_be_bytes (float_key 0x80000000 (from_le_bytes v :: u32))
      else if t = Float64 \<and> length v = 8 then to_be_bytes (float_key 0x8000000000000000 (from_le_bytes v :: u64))
      else v)"

text \<open>\<open>min_by\<close> keeps the first of equal elements, \<open>max_by\<close> the last.\<close>

fun min_by :: "('a \<Rightarrow> 'b::linorder) \<Rightarrow> 'a \<Rightarrow> 'a list \<Rightarrow> 'a" where
  "min_by f best [] = best"
| "min_by f best (x # xs) = min_by f (if f x < f best then x else best) xs"

fun max_by :: "('a \<Rightarrow> 'b::linorder) \<Rightarrow> 'a \<Rightarrow> 'a list \<Rightarrow> 'a" where
  "max_by f best [] = best"
| "max_by f best (x # xs) = max_by f (if f best \<le> f x then x else best) xs"

definition extract_zone_map :: "column_type \<Rightarrow> bytes list \<Rightarrow> zone_map" where
  "extract_zone_map t vals =
     (case vals of
        [] \<Rightarrow> \<lparr>zmin = [], zmax = []\<rparr>
      | v # vs \<Rightarrow> \<lparr>zmin = min_by (to_comparable_bytes t) v vs, zmax = max_by (to_comparable_bytes t) v vs\<rparr>)"

datatype prune_op = PEq | PNe | PLt | PLe | PGt | PGe

definition zone_map_can_match :: "column_type \<Rightarrow> bytes \<Rightarrow> bytes \<Rightarrow> prune_op \<Rightarrow> bytes \<Rightarrow> bool" where
  "zone_map_can_match t mn mx op v \<longleftrightarrow>
     (if mn = [] \<or> mx = [] then False
      else
        let cmin = to_comparable_bytes t mn;
            cmax = to_comparable_bytes t mx;
            cval = to_comparable_bytes t v
        in case op of
             PEq \<Rightarrow> cmin \<le> cval \<and> cval \<le> cmax
           | PGt \<Rightarrow> cmax > cval
           | PGe \<Rightarrow> cmax \<ge> cval
           | PLt \<Rightarrow> cmin < cval
           | PLe \<Rightarrow> cmin \<le> cval
           | PNe \<Rightarrow> \<not> (cmin = cmax \<and> cmin = cval))"

section \<open>Writing\<close>

text \<open>\<open>build_row_offsets\<close>: the sizes are summed in \<open>u32\<close>, the running total saturates.\<close>

definition saturating_add32 :: "u32 \<Rightarrow> u32 \<Rightarrow> u32" where
  "saturating_add32 a b = (if unat a + unat b < 2 ^ 32 then a + b else - 1)"

fun row_offsets_from :: "column list \<Rightarrow> nat \<Rightarrow> u32 \<Rightarrow> nat \<Rightarrow> u32 list" where
  "row_offsets_from cols row cumulative 0 = []"
| "row_offsets_from cols row cumulative (Suc n) =
     cumulative # row_offsets_from cols (Suc row)
       (saturating_add32 cumulative (sum_list (map (\<lambda>c. word_of_nat (length (col_values c ! row))) cols))) n"

definition build_row_offsets :: "column list \<Rightarrow> nat \<Rightarrow> u32 list" where
  "build_row_offsets cols row_count = row_offsets_from cols 0 0 row_count"

text \<open>The column loop of \<open>write_with_codecs\<close>: the descriptors and the column data.\<close>

fun write_columns ::
  "zstd_lib \<Rightarrow> (column \<times> codec_id) list \<Rightarrow> column_descriptor list \<Rightarrow> bytes
   \<Rightarrow> (galax_error + column_descriptor list \<times> bytes) option" where
  "write_columns Z [] ds data = Some (Inr (ds, data))"
| "write_columns Z ((c, codec) # cols) ds data =
     (let zm = extract_zone_map (col_type c) (col_values c)
      in case compress Z (col_type c) codec (col_values c) of
           None \<Rightarrow> None
         | Some (Inl e) \<Rightarrow> Some (Inl e)
         | Some (Inr compressed) \<Rightarrow>
           write_columns Z cols
             (ds @ [\<lparr>cd_type = col_type c, cd_codec = codec, cd_offset = word_of_nat (length data),
                     compressed_len = word_of_nat (length compressed),
                     zone_map_min = zmin zm, zone_map_max = zmax zm\<rparr>])
             (data @ compressed))"

fun column_type_to_u8 :: "column_type \<Rightarrow> u8" where
  "column_type_to_u8 Int8 = 0" | "column_type_to_u8 Int16 = 1" | "column_type_to_u8 Int32 = 2"
| "column_type_to_u8 Int64 = 3" | "column_type_to_u8 UInt8 = 4" | "column_type_to_u8 UInt16 = 5"
| "column_type_to_u8 UInt32 = 6" | "column_type_to_u8 UInt64 = 7" | "column_type_to_u8 Float32 = 8"
| "column_type_to_u8 Float64 = 9" | "column_type_to_u8 Text = 10" | "column_type_to_u8 Blob = 11"
| "column_type_to_u8 Json = 12" | "column_type_to_u8 Boolean = 13" | "column_type_to_u8 (Embedding d) = 14"

definition column_type_from_u8 :: "u8 \<Rightarrow> u32 \<Rightarrow> column_type option" where
  "column_type_from_u8 v dims =
     (if v = 14 then Some (Embedding dims)
      else map_of (zip [0, 1, 2, 3, 4, 5, 6, 7, 8, 9, 10, 11, 12, 13]
             [Int8, Int16, Int32, Int64, UInt8, UInt16, UInt32, UInt64, Float32, Float64, Text, Blob, Json, Boolean]) v)"

definition dims_bytes :: "column_type \<Rightarrow> bytes" where
  "dims_bytes t = (case t of Embedding d \<Rightarrow> to_le_bytes d | _ \<Rightarrow> [])"

definition serialize_descriptor :: "column_descriptor \<Rightarrow> bytes" where
  "serialize_descriptor d =
     [column_type_to_u8 (cd_type d)] @ dims_bytes (cd_type d) @ [codec_u8 (cd_codec d)]
     @ to_le_bytes (cd_offset d) @ to_le_bytes (compressed_len d)
     @ to_le_bytes (word_of_nat (length (zone_map_min d)) :: u32) @ zone_map_min d
     @ to_le_bytes (word_of_nat (length (zone_map_max d)) :: u32) @ zone_map_max d"

definition serialize_header :: "pax_header \<Rightarrow> bytes" where
  "serialize_header hdr =
     to_le_bytes (pax_magic hdr) @ [pax_version hdr] @ to_le_bytes (block_id hdr)
     @ to_le_bytes (hd_row_count hdr) @ to_le_bytes (commit_timestamp hdr) @ to_le_bytes (column_count hdr)
     @ concat (map serialize_descriptor (column_descriptors hdr))"

definition serialize_row_offsets :: "u32 list \<Rightarrow> bytes" where
  "serialize_row_offsets offs = concat (map to_le_bytes offs)"

definition write_with_codecs ::
  "(bytes \<Rightarrow> u64) \<Rightarrow> zstd_lib \<Rightarrow> u64 \<Rightarrow> u64 \<Rightarrow> column list \<Rightarrow> codec_id list \<Rightarrow> (galax_error + pax_block) option" where
  "write_with_codecs h Z bid ts cols codecs =
     (if cols = [] then Some (Inl (Internal ''PAX block must have at least one column''))
      else if length codecs \<noteq> length cols then Some (Inl (Internal ''codec count must match column count''))
      else
        let row_count = length (col_values (hd cols))
        in if \<exists>c \<in> set cols. length (col_values c) \<noteq> row_count
           then Some (Inl (Internal ''all columns must have the same number of rows''))
           else case write_columns Z (zip cols codecs) [] [] of
                  None \<Rightarrow> None
                | Some (Inl e) \<Rightarrow> Some (Inl e)
                | Some (Inr (ds, data)) \<Rightarrow>
                  let offs = build_row_offsets cols row_count;
                      hdr = \<lparr>pax_magic = PAX_MAGIC, pax_version = PAX_FORMAT_VERSION, block_id = bid,
                             hd_row_count = word_of_nat row_count, commit_timestamp = ts,
                             column_count = word_of_nat (length cols), column_descriptors = ds\<rparr>;
                      block_bytes = serialize_header hdr @ data @ serialize_row_offsets offs
                  in Some (Inr \<lparr>header = hdr, column_data = data, row_offsets = offs, checksum = h block_bytes\<rparr>))"

definition pax_write ::
  "(bytes \<Rightarrow> u64) \<Rightarrow> zstd_lib \<Rightarrow> u64 \<Rightarrow> u64 \<Rightarrow> column list \<Rightarrow> (galax_error + pax_block) option" where
  "pax_write h Z bid ts cols = write_with_codecs h Z bid ts cols (map (for_column_type \<circ> col_type) cols)"

definition pax_serialize :: "pax_block \<Rightarrow> bytes" where
  "pax_serialize b =
     serialize_header (header b) @ column_data b @ serialize_row_offsets (row_offsets b) @ to_le_bytes (checksum b)"

section \<open>Reading\<close>

text \<open>\<open>Cursor::read_exact\<close> on the bytes not yet read.\<close>

definition read_exact :: "nat \<Rightarrow> bytes \<Rightarrow> galax_error + bytes \<times> bytes" where
  "read_exact n cur = (if length cur < n then Inl (Io UnexpectedEof) else Inr (take n cur, drop n cur))"

definition read_prefixed :: "bytes \<Rightarrow> galax_error + bytes \<times> bytes" where
  "read_prefixed cur =
     (case read_exact 4 cur of
        Inl e \<Rightarrow> Inl e
      | Inr (b, cur) \<Rightarrow> read_exact (unat (from_le_bytes b :: u32)) cur)"

definition read_dims :: "u8 \<Rightarrow> bytes \<Rightarrow> galax_error + u32 \<times> bytes" where
  "read_dims ty cur =
     (if ty = 14 then (case read_exact 4 cur of Inl e \<Rightarrow> Inl e | Inr (b, cur) \<Rightarrow> Inr (from_le_bytes b, cur))
      else Inr (0, cur))"

definition deserialize_descriptor :: "bytes \<Rightarrow> galax_error + column_descriptor \<times> bytes" where
  "deserialize_descriptor cur =
     (case read_exact 1 cur of Inl e \<Rightarrow> Inl e | Inr (ty, cur) \<Rightarrow>
     (case read_dims (hd ty) cur of Inl e \<Rightarrow> Inl e | Inr (dims, cur) \<Rightarrow>
     (case column_type_from_u8 (hd ty) dims of None \<Rightarrow> Inl (Internal ''unknown column type byte'') | Some t \<Rightarrow>
     (case read_exact 1 cur of Inl e \<Rightarrow> Inl e | Inr (c, cur) \<Rightarrow>
     (case codec_from_u8 (hd c) of None \<Rightarrow> Inl (Internal ''unknown codec byte'') | Some codec \<Rightarrow>
     (case read_exact 8 cur of Inl e \<Rightarrow> Inl e | Inr (off, cur) \<Rightarrow>
     (case read_exact 4 cur of Inl e \<Rightarrow> Inl e | Inr (len, cur) \<Rightarrow>
     (case read_prefixed cur of Inl e \<Rightarrow> Inl e | Inr (mn, cur) \<Rightarrow>
     (case read_prefixed cur of Inl e \<Rightarrow> Inl e | Inr (mx, cur) \<Rightarrow>
        Inr (\<lparr>cd_type = t, cd_codec = codec, cd_offset = from_le_bytes off, compressed_len = from_le_bytes len,
              zone_map_min = mn, zone_map_max = mx\<rparr>, cur))))))))))"

fun read_descriptors :: "nat \<Rightarrow> bytes \<Rightarrow> galax_error + column_descriptor list \<times> bytes" where
  "read_descriptors 0 cur = Inr ([], cur)"
| "read_descriptors (Suc n) cur =
     (case deserialize_descriptor cur of
        Inl e \<Rightarrow> Inl e
      | Inr (d, cur) \<Rightarrow>
        (case read_descriptors n cur of Inl e \<Rightarrow> Inl e | Inr (ds, cur) \<Rightarrow> Inr (d # ds, cur)))"

definition deserialize_header :: "bytes \<Rightarrow> galax_error + pax_header \<times> bytes" where
  "deserialize_header cur =
     (case read_exact 4 cur of Inl e \<Rightarrow> Inl e | Inr (mg, cur) \<Rightarrow>
     (case read_exact 1 cur of Inl e \<Rightarrow> Inl e | Inr (ver, cur) \<Rightarrow>
     (case read_exact 8 cur of Inl e \<Rightarrow> Inl e | Inr (bid, cur) \<Rightarrow>
     (case read_exact 4 cur of Inl e \<Rightarrow> Inl e | Inr (rc, cur) \<Rightarrow>
     (case read_exact 8 cur of Inl e \<Rightarrow> Inl e | Inr (ts, cur) \<Rightarrow>
     (case read_exact 2 cur of Inl e \<Rightarrow> Inl e | Inr (cc, cur) \<Rightarrow>
     (case read_descriptors (unat (from_le_bytes cc :: u16)) cur of Inl e \<Rightarrow> Inl e | Inr (ds, cur) \<Rightarrow>
        Inr (\<lparr>pax_magic = from_le_bytes mg, pax_version = hd ver, block_id = from_le_bytes bid,
              hd_row_count = from_le_bytes rc, commit_timestamp = from_le_bytes ts,
              column_count = from_le_bytes cc, column_descriptors = ds\<rparr>, cur))))))))"

fun read_u32s :: "nat \<Rightarrow> bytes \<Rightarrow> u32 list" where
  "read_u32s 0 cur = []"
| "read_u32s (Suc n) cur = from_le_bytes (take 4 cur) # read_u32s n (drop 4 cur)"

definition pax_deserialize :: "(bytes \<Rightarrow> u64) \<Rightarrow> bytes \<Rightarrow> galax_error + pax_block" where
  "pax_deserialize h data =
     (if length data < 4 then Inl (Internal ''PAX block too small'')
      else if length data < 8 then Inl (Internal ''PAX block too small for checksum'')
      else
        let checksum_offset = length data - 8;
            stored = from_le_bytes (drop checksum_offset data) :: u64;
            block_data = take checksum_offset data;
            computed = h block_data
        in if computed \<noteq> stored then Inl (ChecksumMismatch stored computed)
           else case deserialize_header block_data of
                  Inl e \<Rightarrow> Inl e
                | Inr (hdr, rest) \<Rightarrow>
                  if pax_magic hdr \<noteq> PAX_MAGIC then Inl (InvalidMagic (pax_magic hdr))
                  else case check_format PAX (ucast (pax_version hdr)) of
                         Inl e \<Rightarrow> Inl e
                       | Inr _ \<Rightarrow>
                         let total = sum_list (map (unat \<circ> compressed_len) (column_descriptors hdr));
                             n = unat (hd_row_count hdr)
                         in if length rest < total then Inl (Internal ''column data extends beyond block'')
                            else if length rest < total + n * 4
                            then Inl (Internal ''row offset table extends beyond block'')
                            else Inr \<lparr>header = hdr, column_data = take total rest,
                                      row_offsets = read_u32s n (drop total rest), checksum = stored\<rparr>)"

definition column_bytes :: "pax_block \<Rightarrow> nat \<Rightarrow> galax_error + bytes" where
  "column_bytes b col_index =
     (let d = column_descriptors (header b) ! col_index;
          start = unat (cd_offset d);
          stop = start + unat (compressed_len d)
      in if stop > length (column_data b) then Inl (Internal ''column chunk extends beyond column data'')
         else Inr (sub_slice start stop (column_data b)))"

definition read_column :: "zstd_lib \<Rightarrow> pax_block \<Rightarrow> nat \<Rightarrow> (galax_error + bytes list) option" where
  "read_column Z b col_index =
     (if col_index \<ge> length (column_descriptors (header b)) then Some (Inl (Internal ''column index out of range''))
      else case column_bytes b col_index of
             Inl e \<Rightarrow> Some (Inl e)
           | Inr compressed \<Rightarrow>
             (let d = column_descriptors (header b) ! col_index
              in decompress Z (cd_type d) (cd_codec d) compressed (hd_row_count (header b))))"

definition nth_row :: "string \<Rightarrow> u32 \<Rightarrow> (galax_error + bytes list) option \<Rightarrow> (galax_error + bytes) option" where
  "nth_row msg row_offset res =
     (case res of
        None \<Rightarrow> None
      | Some (Inl e) \<Rightarrow> Some (Inl e)
      | Some (Inr vals) \<Rightarrow>
        Some (if unat row_offset < length vals then Inr (vals ! unat row_offset) else Inl (Internal msg)))"

definition read_column_row :: "zstd_lib \<Rightarrow> pax_block \<Rightarrow> nat \<Rightarrow> u32 \<Rightarrow> (galax_error + bytes) option" where
  "read_column_row Z b col_index row_offset =
     (if col_index \<ge> length (column_descriptors (header b)) then Some (Inl (Internal ''column index out of range''))
      else if row_offset \<ge> hd_row_count (header b) then Some (Inl (Internal ''row offset out of range''))
      else case column_bytes b col_index of
             Inl e \<Rightarrow> Some (Inl e)
           | Inr bs \<Rightarrow>
             (let d = column_descriptors (header b) ! col_index
              in if cd_codec d = NoCodec then Some (decompress_none_single_row bs row_offset)
                 else nth_row ''row offset out of range after decompression'' row_offset
                        (decompress Z (cd_type d) (cd_codec d) bs (hd_row_count (header b)))))"

text \<open>Slices of the raw path: \<open>data[pos..pos + n]\<close> panics out of range.\<close>

definition slice_at :: "bytes \<Rightarrow> nat \<Rightarrow> nat \<Rightarrow> bytes option" where
  "slice_at data pos n = (if pos + n \<le> length data then Some (take n (drop pos data)) else None)"

text \<open>One turn of the descriptor loop: the offset, the length and the codec byte of the
  column and the position after its descriptor.\<close>

definition raw_descriptor :: "bytes \<Rightarrow> nat \<Rightarrow> (u64 \<times> u32 \<times> u8 \<times> nat) option" where
  "raw_descriptor data pos =
     (let ty = data ! pos;
          pos = pos + 1 + (if ty = 14 then 4 else 0)
      in Option.bind (slice_at data pos 1) (\<lambda>codec.
         Option.bind (slice_at data (pos + 1) 8) (\<lambda>off.
         Option.bind (slice_at data (pos + 9) 4) (\<lambda>len.
         Option.bind (slice_at data (pos + 13) 4) (\<lambda>minl.
         let pos = pos + 17 + unat (from_le_bytes minl :: u32)
         in Option.bind (slice_at data pos 4) (\<lambda>maxl.
            Some (from_le_bytes off, from_le_bytes len, hd codec, pos + 4 + unat (from_le_bytes maxl :: u32))))))))"

text \<open>The loop over the columns; \<open>target\<close> is what has been noted for the wanted column.\<close>

fun raw_columns ::
  "bytes \<Rightarrow> nat \<Rightarrow> nat \<Rightarrow> nat \<Rightarrow> nat \<Rightarrow> u64 \<times> u32 \<times> u8 \<Rightarrow> (galax_error + (u64 \<times> u32 \<times> u8) \<times> nat) option" where
  "raw_columns data col_index col 0 pos target = Some (Inr (target, pos))"
| "raw_columns data col_index col (Suc n) pos target =
     (if pos \<ge> length data then Some (Inl (Internal ''header truncated''))
      else case raw_descriptor data pos of
             None \<Rightarrow> None
           | Some (off, len, codec, pos') \<Rightarrow>
             raw_columns data col_index (Suc col) n pos'
               (if col = col_index then (off, len, codec) else target))"

definition read_value_from_raw_block ::
  "(bytes \<Rightarrow> u64) \<Rightarrow> zstd_lib \<Rightarrow> bytes \<Rightarrow> nat \<Rightarrow> u32 \<Rightarrow> (galax_error + bytes) option" where
  "read_value_from_raw_block h Z block_data col_index row_offset =
     (if length block_data < 8 then Some (Inl (Internal ''block too small''))
      else
        let checksum_offset = length block_data - 8;
            stored = from_le_bytes (drop checksum_offset block_data) :: u64;
            data = take checksum_offset block_data;
            computed = h data
        in if computed \<noteq> stored then Some (Inl (ChecksumMismatch stored computed))
           else if length data < 27 then Some (Inl (Internal ''block too small for header''))
           else
             let row_count = from_le_bytes (sub_slice 13 17 data) :: u32;
                 column_count = unat (from_le_bytes (sub_slice 25 27 data) :: u16)
             in if col_index \<ge> column_count then Some (Inl (Internal ''column index out of range''))
                else if row_offset \<ge> row_count then Some (Inl (Internal ''row offset out of range''))
                else case raw_columns data col_index 0 column_count 27 (0, 0, 0) of
                       None \<Rightarrow> None
                     | Some (Inl e) \<Rightarrow> Some (Inl e)
                     | Some (Inr ((off, len, codec), header_end)) \<Rightarrow>
                       let start = header_end + unat off;
                           stop = start + unat len
                       in if stop > length data then Some (Inl (Internal ''column data extends beyond block''))
                          else
                            let bs = sub_slice start stop data
                            in case codec_from_u8 codec of
                                 None \<Rightarrow> Some (Inl (Internal ''unknown codec''))
                               | Some NoCodec \<Rightarrow> Some (decompress_none_single_row bs row_offset)
                               | Some c \<Rightarrow> nth_row ''row not found after decompression'' row_offset
                                            (decompress Z Blob c bs row_count))"

section \<open>A written block reads back\<close>

lemma read_exact_append: "length xs = n \<Longrightarrow> read_exact n (xs @ ys) = Inr (xs, ys)"
  by (auto simp: read_exact_def)

lemma read_exact_one: "read_exact 1 (x # ys) = Inr ([x], ys)"
  by (simp add: read_exact_def)

lemma read_prefixed_append:
  "length xs < 2 ^ 32 \<Longrightarrow> read_prefixed (to_le_bytes (word_of_nat (length xs) :: u32) @ xs @ ys) = Inr (xs, ys)"
  by (simp add: read_prefixed_def read_exact_append unat_of_nat_small)

lemma read_exact_le:
  "read_exact 8 (to_le_bytes (a :: u64) @ ys) = Inr (to_le_bytes a, ys)"
  "read_exact 4 (to_le_bytes (b :: u32) @ ys) = Inr (to_le_bytes b, ys)"
  "read_exact 2 (to_le_bytes (c :: u16) @ ys) = Inr (to_le_bytes c, ys)"
  by (simp_all add: read_exact_append)

definition dims_of :: "column_type \<Rightarrow> u32" where
  "dims_of t = (case t of Embedding d \<Rightarrow> d | _ \<Rightarrow> 0)"

lemma read_dims_append: "read_dims (column_type_to_u8 t) (dims_bytes t @ ys) = Inr (dims_of t, ys)"
  by (cases t) (simp_all add: read_dims_def dims_bytes_def dims_of_def read_exact_append)

lemma column_type_roundtrip: "column_type_from_u8 (column_type_to_u8 t) (dims_of t) = Some t"
  by (cases t) (simp_all add: column_type_from_u8_def dims_of_def)

lemma codec_u8_roundtrip: "codec_from_u8 (codec_u8 c) = Some c"
  by (cases c) (simp_all add: codec_from_u8_def)

lemmas read_back = read_exact_one read_exact_le read_prefixed_append read_dims_append column_type_roundtrip
  codec_u8_roundtrip

definition descriptor_fits :: "column_descriptor \<Rightarrow> bool" where
  "descriptor_fits d \<longleftrightarrow> length (zone_map_min d) < 2 ^ 32 \<and> length (zone_map_max d) < 2 ^ 32"

lemma descriptor_roundtrip:
  "descriptor_fits d \<Longrightarrow> deserialize_descriptor (serialize_descriptor d @ ys) = Inr (d, ys)"
  unfolding deserialize_descriptor_def serialize_descriptor_def descriptor_fits_def
  by (simp add: read_back del: One_nat_def)

lemma descriptors_roundtrip:
  "\<forall>d \<in> set ds. descriptor_fits d \<Longrightarrow>
     read_descriptors (length ds) (concat (map serialize_descriptor ds) @ ys) = Inr (ds, ys)"
  by (induction ds) (simp_all add: descriptor_roundtrip)

definition header_fits :: "pax_header \<Rightarrow> bool" where
  "header_fits hdr \<longleftrightarrow> (\<forall>d \<in> set (column_descriptors hdr). descriptor_fits d)
     \<and> unat (column_count hdr) = length (column_descriptors hdr)"

lemma header_roundtrip: "header_fits hdr \<Longrightarrow> deserialize_header (serialize_header hdr @ ys) = Inr (hdr, ys)"
  unfolding deserialize_header_def serialize_header_def header_fits_def
  by (simp add: read_back descriptors_roundtrip del: One_nat_def)

lemma read_u32s_roundtrip: "read_u32s (length offs) (serialize_row_offsets offs @ ys) = offs"
  by (induction offs) (simp_all add: serialize_row_offsets_def)

lemma length_serialize_row_offsets: "length (serialize_row_offsets offs) = length offs * 4"
  by (induction offs) (simp_all add: serialize_row_offsets_def)

definition block_body :: "pax_block \<Rightarrow> bytes" where
  "block_body b = serialize_header (header b) @ column_data b @ serialize_row_offsets (row_offsets b)"

definition block_fits :: "(bytes \<Rightarrow> u64) \<Rightarrow> pax_block \<Rightarrow> bool" where
  "block_fits h b \<longleftrightarrow> header_fits (header b) \<and> pax_magic (header b) = PAX_MAGIC
     \<and> pax_version (header b) = PAX_FORMAT_VERSION
     \<and> length (column_data b) = sum_list (map (unat \<circ> compressed_len) (column_descriptors (header b)))
     \<and> length (row_offsets b) = unat (hd_row_count (header b)) \<and> checksum b = h (block_body b)"

lemma pax_serialize_body: "pax_serialize b = block_body b @ to_le_bytes (checksum b)"
  by (simp add: pax_serialize_def block_body_def)

lemma block_roundtrip:
  assumes "block_fits h b"
  shows "pax_deserialize h (pax_serialize b) = Inr b"
proof -
  let ?n = "length (block_body b)"
  have hdr: "deserialize_header (block_body b) = Inr (header b, column_data b @ serialize_row_offsets (row_offsets b))"
    unfolding block_body_def by (rule header_roundtrip) (use assms in \<open>simp add: block_fits_def\<close>)
  have "check_format PAX (ucast (pax_version (header b))) = Inr ()"
    using assms by (simp add: block_fits_def PAX_FORMAT_VERSION_def check_format_def PAX_def)
  then show ?thesis
    using assms hdr read_u32s_roundtrip [of "row_offsets b" "[]"]
    by (simp add: pax_deserialize_def pax_serialize_body Let_def block_fits_def length_serialize_row_offsets)
qed

text \<open>What the column loop has done: the compressed columns one after the other, each described
  with its place.\<close>

lemma write_columns_inv:
  assumes "write_columns Z cs ds data = Some (Inr (ds', data'))"
  shows "\<exists>cbs. length cbs = length cs \<and> data' = data @ concat cbs \<and> length ds' = length ds + length cs
    \<and> take (length ds) ds' = ds
    \<and> (\<forall>k < length cs. compress Z (col_type (fst (cs ! k))) (snd (cs ! k)) (col_values (fst (cs ! k))) = Some (Inr (cbs ! k))
         \<and> ds' ! (length ds + k) = (let zm = extract_zone_map (col_type (fst (cs ! k))) (col_values (fst (cs ! k))) in
             \<lparr>cd_type = col_type (fst (cs ! k)), cd_codec = snd (cs ! k),
              cd_offset = word_of_nat (length data + length (concat (take k cbs))),
              compressed_len = word_of_nat (length (cbs ! k)), zone_map_min = zmin zm, zone_map_max = zmax zm\<rparr>))"
  using assms
proof (induction Z cs ds data rule: write_columns.induct)
  case (1 Z ds data)
  then show ?case by auto
next
  case (2 Z c codec cs ds data)
  obtain cb where cb: "compress Z (col_type c) codec (col_values c) = Some (Inr cb)"
    using 2(2) by (auto simp: Let_def split: option.splits sum.splits)
  define zm where "zm = extract_zone_map (col_type c) (col_values c)"
  define d where "d = \<lparr>cd_type = col_type c, cd_codec = codec, cd_offset = word_of_nat (length data),
    compressed_len = word_of_nat (length cb), zone_map_min = zmin zm, zone_map_max = zmax zm\<rparr>"
  have "write_columns Z cs (ds @ [d]) (data @ cb) = Some (Inr (ds', data'))"
    using 2(2) cb by (simp add: Let_def d_def zm_def)
  then obtain cbs where cbs: "length cbs = length cs" "data' = (data @ cb) @ concat cbs"
    "length ds' = length (ds @ [d]) + length cs" "take (length (ds @ [d])) ds' = ds @ [d]"
    "\<forall>k < length cs. compress Z (col_type (fst (cs ! k))) (snd (cs ! k)) (col_values (fst (cs ! k))) = Some (Inr (cbs ! k))
         \<and> ds' ! (length (ds @ [d]) + k) = (let zm = extract_zone_map (col_type (fst (cs ! k))) (col_values (fst (cs ! k))) in
             \<lparr>cd_type = col_type (fst (cs ! k)), cd_codec = snd (cs ! k),
              cd_offset = word_of_nat (length (data @ cb) + length (concat (take k cbs))),
              compressed_len = word_of_nat (length (cbs ! k)), zone_map_min = zmin zm, zone_map_max = zmax zm\<rparr>)"
    using 2(1) [OF refl cb refl] by (auto simp: d_def zm_def)
  have head: "ds' ! length ds = d"
    by (metis append_Nil2 append_take_drop_id cbs(4) length_append_singleton lessI nth_append_length nth_take)
  have pre: "take (length ds) ds' = ds"
    by (metis append_take_drop_id butlast_snoc cbs(4) length_append_singleton take_butlast take_Suc_conv_app_nth
        append_eq_append_conv cbs(3) length_take less_add_Suc1 butlast_take le_add1 min.absorb2 diff_Suc_1)
  have nth: "compress Z (col_type (fst (((c, codec) # cs) ! k))) (snd (((c, codec) # cs) ! k))
        (col_values (fst (((c, codec) # cs) ! k))) = Some (Inr ((cb # cbs) ! k))
      \<and> ds' ! (length ds + k) = (let zm = extract_zone_map (col_type (fst (((c, codec) # cs) ! k))) (col_values (fst (((c, codec) # cs) ! k))) in
             \<lparr>cd_type = col_type (fst (((c, codec) # cs) ! k)), cd_codec = snd (((c, codec) # cs) ! k),
              cd_offset = word_of_nat (length data + length (concat (take k (cb # cbs)))),
              compressed_len = word_of_nat (length ((cb # cbs) ! k)), zone_map_min = zmin zm, zone_map_max = zmax zm\<rparr>)"
    if "k < length ((c, codec) # cs)" for k
  proof (cases k)
    case 0
    then show ?thesis using cb head by (simp add: d_def zm_def Let_def)
  next
    case (Suc j)
    then show ?thesis using cbs(5) [rule_format, of j] that by (simp add: Let_def add.assoc)
  qed
  show ?case
    by (intro exI [of _ "cb # cbs"] conjI allI impI nth) (use cbs(1-3) pre in simp_all)
qed

lemma write_columns_sizes:
  assumes "write_columns Z cs [] [] = Some (Inr (ds, data))" and "length data < 2 ^ 32"
  shows "sum_list (map (unat \<circ> compressed_len) ds) = length data"
    and "k < length cs \<Longrightarrow> \<exists>cb. compress Z (col_type (fst (cs ! k))) (snd (cs ! k)) (col_values (fst (cs ! k))) = Some (Inr cb)
       \<and> unat (cd_offset (ds ! k)) + unat (compressed_len (ds ! k)) \<le> length data
       \<and> sub_slice (unat (cd_offset (ds ! k))) (unat (cd_offset (ds ! k)) + unat (compressed_len (ds ! k))) data = cb
       \<and> cd_type (ds ! k) = col_type (fst (cs ! k)) \<and> cd_codec (ds ! k) = snd (cs ! k)
       \<and> zone_map_min (ds ! k) = zmin (extract_zone_map (col_type (fst (cs ! k))) (col_values (fst (cs ! k))))
       \<and> zone_map_max (ds ! k) = zmax (extract_zone_map (col_type (fst (cs ! k))) (col_values (fst (cs ! k))))"
proof -
  obtain cbs where cbs: "length cbs = length cs" "data = concat cbs" "length ds = length cs"
    "\<forall>k < length cs. compress Z (col_type (fst (cs ! k))) (snd (cs ! k)) (col_values (fst (cs ! k))) = Some (Inr (cbs ! k))
         \<and> ds ! k = (let zm = extract_zone_map (col_type (fst (cs ! k))) (col_values (fst (cs ! k))) in
             \<lparr>cd_type = col_type (fst (cs ! k)), cd_codec = snd (cs ! k),
              cd_offset = word_of_nat (length (concat (take k cbs))),
              compressed_len = word_of_nat (length (cbs ! k)), zone_map_min = zmin zm, zone_map_max = zmax zm\<rparr>)"
    using write_columns_inv [OF assms(1)] by auto
  have split: "data = concat (take k cbs) @ cbs ! k @ concat (drop (Suc k) cbs)" if "k < length cs" for k
    using that cbs(1) unfolding cbs(2) by (metis concat.simps(2) concat_append id_take_nth_drop)
  have small: "length (cbs ! k) < 2 ^ 32" "length (concat (take k cbs)) + length (cbs ! k) \<le> length data"
    if "k < length cs" for k
    using arg_cong [OF split [OF that], of length] assms(2) by auto
  have len: "unat (compressed_len (ds ! k)) = length (cbs ! k)" if "k < length cs" for k
    using cbs(4) that small(1) by (simp add: Let_def unat_of_nat_small)
  have "map (unat \<circ> compressed_len) ds = map length cbs"
    using len cbs(1,3) by (intro nth_equalityI) auto
  then show "sum_list (map (unat \<circ> compressed_len) ds) = length data" by (simp add: cbs(2) length_concat)
  assume k: "k < length cs"
  have off: "unat (cd_offset (ds ! k)) = length (concat (take k cbs))"
    using cbs(4) k small(2) [OF k] assms(2) by (simp add: Let_def unat_of_nat_small)
  have "sub_slice (unat (cd_offset (ds ! k))) (unat (cd_offset (ds ! k)) + unat (compressed_len (ds ! k))) data = cbs ! k"
    unfolding off len [OF k] using split [OF k] by (simp add: sub_slice_def)
  moreover have "unat (cd_offset (ds ! k)) + unat (compressed_len (ds ! k)) \<le> length data"
    unfolding off len [OF k] by (rule small(2) [OF k])
  ultimately show "\<exists>cb. compress Z (col_type (fst (cs ! k))) (snd (cs ! k)) (col_values (fst (cs ! k))) = Some (Inr cb)
       \<and> unat (cd_offset (ds ! k)) + unat (compressed_len (ds ! k)) \<le> length data
       \<and> sub_slice (unat (cd_offset (ds ! k))) (unat (cd_offset (ds ! k)) + unat (compressed_len (ds ! k))) data = cb
       \<and> cd_type (ds ! k) = col_type (fst (cs ! k)) \<and> cd_codec (ds ! k) = snd (cs ! k)
       \<and> zone_map_min (ds ! k) = zmin (extract_zone_map (col_type (fst (cs ! k))) (col_values (fst (cs ! k))))
       \<and> zone_map_max (ds ! k) = zmax (extract_zone_map (col_type (fst (cs ! k))) (col_values (fst (cs ! k))))"
    using cbs(4) k by (simp add: Let_def)
qed

lemma min_by_in: "min_by f b xs \<in> set (b # xs)"
proof (induction xs arbitrary: b)
  case (Cons x xs)
  show ?case using Cons.IH [of "if f x < f b then x else b"] by (auto split: if_splits)
qed simp

lemma max_by_in: "max_by f b xs \<in> set (b # xs)"
proof (induction xs arbitrary: b)
  case (Cons x xs)
  show ?case using Cons.IH [of "if f b \<le> f x then x else b"] by (auto split: if_splits)
qed simp

lemma min_by_le: "f (min_by f b xs) \<le> f b \<and> (\<forall>x \<in> set xs. f (min_by f b xs) \<le> f x)"
proof (induction xs arbitrary: b)
  case (Cons y xs)
  define b' where "b' = (if f y < f b then y else b)"
  have "f b' \<le> f b" "f b' \<le> f y" by (auto simp: b'_def)
  then show ?case using Cons.IH [of b'] by (auto simp: b'_def [symmetric])
qed simp

lemma max_by_ge: "f b \<le> f (max_by f b xs) \<and> (\<forall>x \<in> set xs. f x \<le> f (max_by f b xs))"
proof (induction xs arbitrary: b)
  case (Cons y xs)
  define b' where "b' = (if f b \<le> f y then y else b)"
  have "f b \<le> f b'" "f y \<le> f b'" by (auto simp: b'_def)
  then show ?case using Cons.IH [of b'] by (auto simp: b'_def [symmetric])
qed simp

lemma zone_map_in:
  "vals \<noteq> [] \<Longrightarrow> zmin (extract_zone_map t vals) \<in> set vals \<and> zmax (extract_zone_map t vals) \<in> set vals"
  using min_by_in [of "to_comparable_bytes t"] max_by_in [of "to_comparable_bytes t"]
  by (cases vals) (auto simp: extract_zone_map_def)

lemma zone_map_bounds:
  assumes "v \<in> set vals"
  shows "to_comparable_bytes t (zmin (extract_zone_map t vals)) \<le> to_comparable_bytes t v"
    and "to_comparable_bytes t v \<le> to_comparable_bytes t (zmax (extract_zone_map t vals))"
  using assms min_by_le [of "to_comparable_bytes t"] max_by_ge [of "to_comparable_bytes t"]
  by (cases vals; auto simp: extract_zone_map_def)+

definition columns_fit :: "column list \<Rightarrow> codec_id list \<Rightarrow> bool" where
  "columns_fit cols codecs \<longleftrightarrow> length cols < 2 ^ 16
     \<and> (\<forall>(c, codec) \<in> set (zip cols codecs). column_fits (col_type c) codec (col_values c)
          \<and> (\<forall>v \<in> set (col_values c). length v < 2 ^ 32))"

lemma column_fits_rows: "column_fits t codec vals \<Longrightarrow> length vals < 2 ^ 32"
  by (cases codec) (auto simp: column_fits_def)

lemma length_row_offsets [simp]: "length (row_offsets_from cols row cum n) = n"
  by (induction n arbitrary: row cum) auto

lemma write_parts:
  assumes "write_with_codecs h Z bid ts cols codecs = Some (Inr b)"
  shows "cols \<noteq> []" "length codecs = length cols" "\<forall>c \<in> set cols. length (col_values c) = length (col_values (hd cols))"
    "write_columns Z (zip cols codecs) [] [] = Some (Inr (column_descriptors (header b), column_data b))"
    "hd_row_count (header b) = word_of_nat (length (col_values (hd cols)))"
    "commit_timestamp (header b) = ts" "column_count (header b) = word_of_nat (length cols)"
    "pax_magic (header b) = PAX_MAGIC" "pax_version (header b) = PAX_FORMAT_VERSION"
    "length (row_offsets b) = length (col_values (hd cols))" "checksum b = h (block_body b)"
proof -
  have "cols = [] \<Longrightarrow> False" using assms by (simp add: write_with_codecs_def)
  moreover have "cols \<noteq> [] \<Longrightarrow> length codecs \<noteq> length cols \<Longrightarrow> False" using assms by (simp add: write_with_codecs_def)
  ultimately show g: "cols \<noteq> []" "length codecs = length cols" by blast+
  define uneven where "uneven = (\<exists>c \<in> set cols. length (col_values c) \<noteq> length (col_values (hd cols)))"
  have rows: "\<not> uneven"
  proof
    assume "uneven"
    then show False using assms g by (simp add: write_with_codecs_def uneven_def)
  qed
  then show "\<forall>c \<in> set cols. length (col_values c) = length (col_values (hd cols))" by (simp add: uneven_def)
  note d = write_with_codecs_def [of h Z bid ts cols codecs, unfolded Let_def, folded uneven_def]
  obtain ds data where w: "write_columns Z (zip cols codecs) [] [] = Some (Inr (ds, data))"
  proof (cases "write_columns Z (zip cols codecs) [] []")
    case None
    then show ?thesis using assms g rows by (simp add: d)
  next
    case (Some r)
    then show ?thesis
      using assms g rows that by (cases r) (auto simp: d)
  qed
  define hdr where "hdr = \<lparr>pax_magic = PAX_MAGIC, pax_version = PAX_FORMAT_VERSION, block_id = bid,
    hd_row_count = word_of_nat (length (col_values (hd cols))), commit_timestamp = ts,
    column_count = word_of_nat (length cols), column_descriptors = ds\<rparr>"
  define offs where "offs = build_row_offsets cols (length (col_values (hd cols)))"
  have b: "b = \<lparr>header = hdr, column_data = data, row_offsets = offs,
      checksum = h (serialize_header hdr @ data @ serialize_row_offsets offs)\<rparr>"
    using assms g rows w by (simp add: d hdr_def offs_def)
  show "write_columns Z (zip cols codecs) [] [] = Some (Inr (column_descriptors (header b), column_data b))"
    "hd_row_count (header b) = word_of_nat (length (col_values (hd cols)))"
    "commit_timestamp (header b) = ts" "column_count (header b) = word_of_nat (length cols)"
    "pax_magic (header b) = PAX_MAGIC" "pax_version (header b) = PAX_FORMAT_VERSION"
    using w by (simp_all add: b hdr_def)
  show "length (row_offsets b) = length (col_values (hd cols))" "checksum b = h (block_body b)"
    by (simp_all add: b block_body_def offs_def build_row_offsets_def)
qed

lemma written_block:
  assumes w: "write_with_codecs h Z bid ts cols codecs = Some (Inr b)"
    and fits: "columns_fit cols codecs" and "length (column_data b) < 2 ^ 32"
  shows "block_fits h b" and "length (column_descriptors (header b)) = length cols"
    and "unat (hd_row_count (header b)) = length (col_values (hd cols))"
proof -
  note p = write_parts [OF w]
  let ?cs = "zip cols codecs" and ?ds = "column_descriptors (header b)"
  have len: "length ?cs = length cols" using p(2) by simp
  note sz = write_columns_sizes [OF p(4) assms(3)]
  have dlen: "length ?ds = length cols" using write_columns_inv [OF p(4)] len by auto
  then show "length (column_descriptors (header b)) = length cols" .
  have each: "column_fits (col_type (cols ! k)) (codecs ! k) (col_values (cols ! k))"
    "\<forall>v \<in> set (col_values (cols ! k)). length v < 2 ^ 32" if "k < length cols" for k
    using fits that p(2) unfolding columns_fit_def by (auto simp: set_zip)
  have rows: "length (col_values (hd cols)) < 2 ^ 32"
    using each(1) [of 0] p(1) column_fits_rows by (cases cols) auto
  then show rc: "unat (hd_row_count (header b)) = length (col_values (hd cols))"
    using p(5) by (simp add: unat_of_nat_small)
  have "descriptor_fits (?ds ! k)" if k: "k < length cols" for k
  proof -
    have z: "zone_map_min (?ds ! k) = zmin (extract_zone_map (col_type (cols ! k)) (col_values (cols ! k)))"
      "zone_map_max (?ds ! k) = zmax (extract_zone_map (col_type (cols ! k)) (col_values (cols ! k)))"
      using sz(2) [of k] k len p(2) by auto
    show ?thesis
    proof (cases "col_values (cols ! k) = []")
      case True
      then show ?thesis using z by (simp add: descriptor_fits_def extract_zone_map_def)
    next
      case False
      then show ?thesis using z zone_map_in [OF False, of "col_type (cols ! k)"] each(2) [OF k]
        by (simp add: descriptor_fits_def)
    qed
  qed
  then have "\<forall>d \<in> set ?ds. descriptor_fits d" using dlen by (metis in_set_conv_nth)
  moreover have "unat (column_count (header b)) = length ?ds"
    using p(7) dlen fits by (simp add: columns_fit_def unat_of_nat_small)
  ultimately show "block_fits h b"
    using p(8,9,10,11) sz(1) rc by (simp add: block_fits_def header_fits_def)
qed

lemma write_columns_total:
  assumes "\<forall>(c, codec) \<in> set cs. column_fits (col_type c) codec (col_values c)" and "\<forall>raw. encode_all Z raw \<noteq> None"
  shows "\<exists>ds' data'. write_columns Z cs ds data = Some (Inr (ds', data'))"
  using assms
proof (induction cs arbitrary: ds data)
  case (Cons x cs)
  obtain c codec where x: "x = (c, codec)" by (cases x)
  have "\<exists>cb. compress Z (col_type c) codec (col_values c) = Some (Inr cb)"
    using Cons.prems by (intro compress_total) (auto simp: x)
  then obtain cb where cb: "compress Z (col_type c) codec (col_values c) = Some (Inr cb)" by blast
  have "\<exists>ds' data'. write_columns Z cs ds2 data2 = Some (Inr (ds', data'))" for ds2 data2
    using Cons.prems by (intro Cons.IH) auto
  then show ?case by (simp add: x cb Let_def)
qed simp

lemma write_total:
  assumes "cols \<noteq> []" "length codecs = length cols" and rows: "\<forall>c \<in> set cols. length (col_values c) = n"
    and fits: "columns_fit cols codecs" and "\<forall>raw. encode_all Z raw \<noteq> None"
  shows "\<exists>b. write_with_codecs h Z bid ts cols codecs = Some (Inr b)"
proof -
  have "\<forall>(c, codec) \<in> set (zip cols codecs). column_fits (col_type c) codec (col_values c)"
    using fits by (auto simp: columns_fit_def)
  then obtain ds data where w: "write_columns Z (zip cols codecs) [] [] = Some (Inr (ds, data))"
    using write_columns_total [OF _ assms(5)] by blast
  define even where "even = (\<exists>c \<in> set cols. length (col_values c) \<noteq> length (col_values (hd cols)))"
  have "\<not> even" unfolding even_def using rows hd_in_set [OF assms(1)] by metis
  then show ?thesis
    using w assms(1,2) by (simp add: write_with_codecs_def Let_def even_def [symmetric])
qed

lemma read_column_written:
  assumes w: "write_with_codecs h Z bid ts cols codecs = Some (Inr b)"
    and fits: "columns_fit cols codecs" and sz: "length (column_data b) < 2 ^ 32" and "zstd_ok Z" and k: "k < length cols"
  shows "\<exists>cb. column_bytes b k = Inr cb \<and> cd_codec (column_descriptors (header b) ! k) = codecs ! k
     \<and> decompress Z (cd_type (column_descriptors (header b) ! k)) (codecs ! k) cb (hd_row_count (header b))
         = Some (Inr (col_values (cols ! k)))"
proof -
  note p = write_parts [OF w]
  have cs: "zip cols codecs ! k = (cols ! k, codecs ! k)" "k < length (zip cols codecs)" using k p(2) by simp_all
  obtain cb where cb: "compress Z (col_type (cols ! k)) (codecs ! k) (col_values (cols ! k)) = Some (Inr cb)"
    "column_bytes b k = Inr cb" "cd_type (column_descriptors (header b) ! k) = col_type (cols ! k)"
    "cd_codec (column_descriptors (header b) ! k) = codecs ! k"
    using write_columns_sizes(2) [OF p(4) sz cs(2)] cs(1) by (auto simp: column_bytes_def Let_def)
  have "column_fits (col_type (cols ! k)) (codecs ! k) (col_values (cols ! k))"
    using fits k p(2) unfolding columns_fit_def by (auto simp: set_zip)
  from codec_roundtrip_value [OF assms(4) this cb(1)] show ?thesis
    using cb p(3,5) k by (auto simp: nth_mem)
qed

text \<open>
  C31: A block written from columns reads back: its serialised bytes pass the checksum, magic and
  version checks and parse to the same block, and every column decompresses to the values it
  was written from, whichever codec it was given.
\<close>

theorem pax_roundtrip:
  assumes "zstd_ok Z" and "write_with_codecs h Z bid ts cols codecs = Some (Inr b)"
    and "columns_fit cols codecs" and "length (column_data b) < 2 ^ 32"
  shows "pax_deserialize h (pax_serialize b) = Inr b
    \<and> (\<forall>k < length cols. read_column Z b k = Some (Inr (col_values (cols ! k))))"
proof -
  note wb = written_block [OF assms(2-4)]
  have "read_column Z b k = Some (Inr (col_values (cols ! k)))" if "k < length cols" for k
    using read_column_written [OF assms(2-4,1) that] wb(2) that by (auto simp: read_column_def Let_def)
  then show ?thesis using block_roundtrip [OF wb(1)] by blast
qed

section \<open>The raw fast path\<close>

lemma read_exact_drop:
  "p \<le> length data \<Longrightarrow> read_exact n (drop p data) = Inr (xs, cur) \<longleftrightarrow>
     p + n \<le> length data \<and> slice_at data p n = Some xs \<and> cur = drop (p + n) data"
  by (auto simp: read_exact_def slice_at_def add.commute)

lemma read_exact_dropD:
  "read_exact n cur = Inr (xs, cur') \<Longrightarrow> cur = drop p data \<Longrightarrow> p \<le> length data \<Longrightarrow> q = p + n \<Longrightarrow>
     q \<le> length data \<and> slice_at data p n = Some xs \<and> cur' = drop q data"
  using read_exact_drop by blast

lemma read_prefixed_drop:
  assumes "p \<le> length data" and "read_prefixed (drop p data) = Inr (xs, cur)"
  shows "\<exists>l. slice_at data p 4 = Some l \<and> p + 4 + unat (from_le_bytes l :: u32) \<le> length data
    \<and> cur = drop (p + 4 + unat (from_le_bytes l :: u32)) data"
proof -
  obtain l cur1 where l: "read_exact 4 (drop p data) = Inr (l, cur1)"
    "read_exact (unat (from_le_bytes l :: u32)) cur1 = Inr (xs, cur)"
    using assms(2) by (auto simp: read_prefixed_def split: sum.splits)
  have "p + 4 \<le> length data" "slice_at data p 4 = Some l" "cur1 = drop (p + 4) data"
    using l(1) read_exact_drop [OF assms(1)] by auto
  then show ?thesis using l(2) read_exact_drop [of "p + 4" data] by auto
qed

lemma codec_from_u8_Some: "codec_from_u8 v = Some c \<Longrightarrow> v = codec_u8 c"
  by (auto simp: codec_from_u8_def split: if_splits)

lemma raw_descriptor_ok:
  assumes "pos \<le> length data" and "deserialize_descriptor (drop pos data) = Inr (d, cur)"
  shows "pos < length data \<and> (\<exists>pos'. raw_descriptor data pos = Some (cd_offset d, compressed_len d, codec_u8 (cd_codec d), pos')
    \<and> cur = drop pos' data \<and> pos' \<le> length data)"
proof -
  obtain ty c1 dims c2 t cd c3 codec off c4 len c5 mn c6 mx where r:
    "read_exact 1 (drop pos data) = Inr (ty, c1)" "read_dims (hd ty) c1 = Inr (dims, c2)"
    "read_exact 1 c2 = Inr (cd, c3)" "codec_from_u8 (hd cd) = Some codec" "read_exact 8 c3 = Inr (off, c4)"
    "read_exact 4 c4 = Inr (len, c5)" "read_prefixed c5 = Inr (mn, c6)" "read_prefixed c6 = Inr (mx, cur)"
    "d = \<lparr>cd_type = t, cd_codec = codec, cd_offset = from_le_bytes off, compressed_len = from_le_bytes len,
              zone_map_min = mn, zone_map_max = mx\<rparr>"
    using assms(2) unfolding deserialize_descriptor_def
    by (auto split: sum.splits option.splits prod.splits)
  have 1: "pos + 1 \<le> length data" "slice_at data pos 1 = Some ty" "c1 = drop (pos + 1) data"
    using read_exact_dropD [OF r(1) refl assms(1) refl] by auto
  have ty: "hd ty = data ! pos" using 1 by (auto simp: slice_at_def hd_drop_conv_nth)
  define p where "p = pos + 1 + (if data ! pos = 14 then 4 else 0)"
  have 2: "p \<le> length data" "c2 = drop p data"
    using r(2) 1(1,3) read_exact_drop [OF 1(1), of 4] by (auto simp: read_dims_def ty p_def split: if_splits sum.splits)
  have 3: "p + 1 \<le> length data" "slice_at data p 1 = Some cd" "c3 = drop (p + 1) data"
    using read_exact_dropD [OF r(3) 2(2,1) refl] by auto
  have 4: "p + 9 \<le> length data" "slice_at data (p + 1) 8 = Some off" "c4 = drop (p + 9) data"
    using read_exact_dropD [OF r(5) 3(3,1), of "p + 9"] by auto
  have 5: "p + 13 \<le> length data" "slice_at data (p + 9) 4 = Some len" "c5 = drop (p + 13) data"
    using read_exact_dropD [OF r(6) 4(3,1), of "p + 13"] by auto
  obtain l1 where 6: "slice_at data (p + 13) 4 = Some l1" "p + 17 + unat (from_le_bytes l1 :: u32) \<le> length data"
    "c6 = drop (p + 17 + unat (from_le_bytes l1 :: u32)) data"
    using read_prefixed_drop [OF 5(1)] r(7) 5(3) by (auto simp: algebra_simps)
  obtain l2 where 7: "slice_at data (p + 17 + unat (from_le_bytes l1 :: u32)) 4 = Some l2"
    "p + 17 + unat (from_le_bytes l1 :: u32) + 4 + unat (from_le_bytes l2 :: u32) \<le> length data"
    "cur = drop (p + 17 + unat (from_le_bytes l1 :: u32) + 4 + unat (from_le_bytes l2 :: u32)) data"
    using read_prefixed_drop [OF 6(2)] r(8) 6(3) by auto
  have "raw_descriptor data pos = Some (from_le_bytes off, from_le_bytes len, hd cd,
      p + 17 + unat (from_le_bytes l1 :: u32) + 4 + unat (from_le_bytes l2 :: u32))"
    unfolding raw_descriptor_def Let_def p_def [symmetric] using 3(2) 4(2) 5(2) 6(1) 7(1) by simp
  then show ?thesis using 1(1) 7(2,3) r(9) codec_from_u8_Some [OF r(4)] by simp
qed

lemma raw_columns_ok:
  "pos \<le> length data \<Longrightarrow> read_descriptors n (drop pos data) = Inr (ds, cur) \<Longrightarrow>
     length ds = n \<and> (\<exists>pos'. raw_columns data ci col n pos target
       = Some (Inr (if col \<le> ci \<and> ci < col + n
            then (cd_offset (ds ! (ci - col)), compressed_len (ds ! (ci - col)), codec_u8 (cd_codec (ds ! (ci - col))))
            else target, pos'))
     \<and> cur = drop pos' data \<and> pos' \<le> length data)"
proof (induction n arbitrary: pos ds col target)
  case (Suc n)
  obtain d c1 ds1 where r: "deserialize_descriptor (drop pos data) = Inr (d, c1)" "read_descriptors n c1 = Inr (ds1, cur)"
    "ds = d # ds1"
    using Suc.prems(2) by (auto split: sum.splits)
  from raw_descriptor_ok [OF Suc.prems(1) r(1)] obtain pos1 where p1: "pos < length data"
    "raw_descriptor data pos = Some (cd_offset d, compressed_len d, codec_u8 (cd_codec d), pos1)"
    "c1 = drop pos1 data" "pos1 \<le> length data" by blast
  let ?t = "if col = ci then (cd_offset d, compressed_len d, codec_u8 (cd_codec d)) else target"
  from Suc.IH [OF p1(4), of ds1 "Suc col" ?t] r(2) p1(3) obtain pos' where p':
    "length ds1 = n" "raw_columns data ci (Suc col) n pos1 ?t
       = Some (Inr (if Suc col \<le> ci \<and> ci < Suc col + n
            then (cd_offset (ds1 ! (ci - Suc col)), compressed_len (ds1 ! (ci - Suc col)), codec_u8 (cd_codec (ds1 ! (ci - Suc col))))
            else ?t, pos'))"
    "cur = drop pos' data" "pos' \<le> length data" by blast
  have "Suc col \<le> ci \<Longrightarrow> ds ! (ci - col) = ds1 ! (ci - Suc col)" by (simp add: r(3) Suc_diff_Suc)
  then show ?case using p' p1 by (auto simp: r(3))
qed auto

lemma header_parse_raw:
  assumes "deserialize_header data = Inr (hdr, rest)"
  shows "27 \<le> length data" "hd_row_count hdr = from_le_bytes (sub_slice 13 17 data)"
    "column_count hdr = from_le_bytes (sub_slice 25 27 data)"
    "read_descriptors (unat (column_count hdr)) (drop 27 data) = Inr (column_descriptors hdr, rest)"
proof -
  obtain mg c1 ver c2 bid c3 rc c4 ts c5 cc c6 ds where r:
    "read_exact 4 (drop 0 data) = Inr (mg, c1)" "read_exact 1 c1 = Inr (ver, c2)" "read_exact 8 c2 = Inr (bid, c3)"
    "read_exact 4 c3 = Inr (rc, c4)" "read_exact 8 c4 = Inr (ts, c5)" "read_exact 2 c5 = Inr (cc, c6)"
    "read_descriptors (unat (from_le_bytes cc :: u16)) c6 = Inr (ds, rest)"
    "hdr = \<lparr>pax_magic = from_le_bytes mg, pax_version = hd ver, block_id = from_le_bytes bid,
              hd_row_count = from_le_bytes rc, commit_timestamp = from_le_bytes ts,
              column_count = from_le_bytes cc, column_descriptors = ds\<rparr>"
    using assms unfolding deserialize_header_def by (auto split: sum.splits prod.splits)
  have 1: "4 \<le> length data" "c1 = drop 4 data" using r(1) read_exact_drop [of 0 data 4] by auto
  have 2: "5 \<le> length data" "c2 = drop 5 data" using r(2) 1 read_exact_drop [OF 1(1), of 1] by auto
  have 3: "13 \<le> length data" "c3 = drop 13 data" using r(3) 2 read_exact_drop [OF 2(1), of 8] by auto
  have 4: "17 \<le> length data" "c4 = drop 17 data" "slice_at data 13 4 = Some rc"
    using r(4) 3 read_exact_drop [OF 3(1), of 4] by auto
  have 5: "25 \<le> length data" "c5 = drop 25 data" using r(5) 4 read_exact_drop [OF 4(1), of 8] by auto
  have 6: "27 \<le> length data" "c6 = drop 27 data" "slice_at data 25 2 = Some cc"
    using r(6) 5 read_exact_drop [OF 5(1), of 2] by auto
  show "27 \<le> length data" by (rule 6(1))
  show "hd_row_count hdr = from_le_bytes (sub_slice 13 17 data)"
    "column_count hdr = from_le_bytes (sub_slice 25 27 data)"
    using 4(3) 6(3) r(8) by (auto simp: slice_at_def sub_slice_def split: if_splits)
  show "read_descriptors (unat (column_count hdr)) (drop 27 data) = Inr (column_descriptors hdr, rest)"
    using r(7,8) 6(2) by simp
qed

text \<open>What the raw path computes on the bytes of a block, when the chunk of the column lies within the
  column data.\<close>

lemma raw_read_value:
  assumes "pax_deserialize h data = Inr b" and "i < length (column_descriptors (header b))" and "column_bytes b i = Inr bs"
  shows "read_value_from_raw_block h Z data i r =
    (if r \<ge> hd_row_count (header b) then Some (Inl (Internal ''row offset out of range''))
     else if cd_codec (column_descriptors (header b) ! i) = NoCodec then Some (decompress_none_single_row bs r)
     else nth_row ''row not found after decompression'' r
            (decompress Z Blob (cd_codec (column_descriptors (header b) ! i)) bs (hd_row_count (header b))))"
proof -
  define bd where "bd = take (length data - 8) data"
  let ?d = "column_descriptors (header b) ! i"
  obtain rest where h: "\<not> length data < 8" "h bd = from_le_bytes (drop (length data - 8) data)"
    "deserialize_header bd = Inr (header b, rest)"
    "column_data b = take (sum_list (map (unat \<circ> compressed_len) (column_descriptors (header b)))) rest"
    using assms(1)
    by (auto simp: pax_deserialize_def Let_def bd_def split: if_splits sum.splits)
  note hp = header_parse_raw [OF h(3)]
  from raw_columns_ok [OF hp(1,4), of i 0 "(0, 0, 0)"] obtain pos where pos:
    "length (column_descriptors (header b)) = unat (column_count (header b))"
    "raw_columns bd i 0 (unat (column_count (header b))) 27 (0, 0, 0)
       = Some (Inr (if i < unat (column_count (header b)) then (cd_offset ?d, compressed_len ?d, codec_u8 (cd_codec ?d)) else (0, 0, 0), pos))"
    "rest = drop pos bd" "pos \<le> length bd" by auto
  have i: "i < unat (column_count (header b))" using assms(2) pos(1) by simp
  let ?o = "unat (cd_offset ?d)" and ?l = "unat (compressed_len ?d)"
  have le: "?o + ?l \<le> length (column_data b)" and bs': "bs = sub_slice ?o (?o + ?l) (column_data b)"
    using assms(3) by (auto simp: column_bytes_def Let_def split: if_splits)
  have "?o + ?l \<le> length rest" using le h(4) by simp
  then have le2: "pos + ?o + ?l \<le> length bd" using pos(3,4) by simp
  have "bs = sub_slice (pos + ?o) (pos + ?o + ?l) bd"
    unfolding bs' h(4) pos(3) using le h(4) by (simp add: sub_slice_take sub_slice_drop add.assoc)
  then show ?thesis
    using h(1,2) hp(1,2,3) i pos(2) le2
    by (cases "cd_codec ?d") (auto simp: read_value_from_raw_block_def Let_def bd_def [symmetric] codec_from_u8_def)
qed

lemma raw_read_no_column:
  assumes "pax_deserialize h data = Inr b" and "\<not> i < length (column_descriptors (header b))"
  shows "read_value_from_raw_block h Z data i r = Some (Inl (Internal ''column index out of range''))"
proof -
  define bd where "bd = take (length data - 8) data"
  obtain rest where h: "\<not> length data < 8" "h bd = from_le_bytes (drop (length data - 8) data)" "deserialize_header bd = Inr (header b, rest)"
    using assms(1) by (auto simp: pax_deserialize_def Let_def bd_def split: if_splits sum.splits)
  note hp = header_parse_raw [OF h(3)]
  have "length (column_descriptors (header b)) = unat (column_count (header b))" using raw_columns_ok [OF hp(1,4)] by blast
  then show ?thesis using assms(2) h(1,2) hp(1-3) by (simp add: read_value_from_raw_block_def Let_def bd_def [symmetric])
qed

lemma raw_value_written:
  assumes w: "write_with_codecs h Z bid ts cols codecs = Some (Inr b)" and fits: "columns_fit cols codecs"
    and sz: "length (pax_serialize b) < 2 ^ 32" and Z: "zstd_ok Z" and k: "k < length cols" and codec: "codecs ! k = NoCodec"
    and r: "r < length (col_values (cols ! k))"
  shows "read_value_from_raw_block h Z (pax_serialize b) k (word_of_nat r) = Some (Inr (col_values (cols ! k) ! r))"
proof -
  have cd: "length (column_data b) < 2 ^ 32" using sz by (simp add: pax_serialize_def)
  note wb = written_block [OF w fits cd]
  obtain cb where cb: "column_bytes b k = Inr cb" "cd_codec (column_descriptors (header b) ! k) = NoCodec"
    "decompress Z (cd_type (column_descriptors (header b) ! k)) NoCodec cb (hd_row_count (header b)) = Some (Inr (col_values (cols ! k)))"
    using read_column_written [OF w fits cd Z k] codec by auto
  have rows: "length (col_values (cols ! k)) = unat (hd_row_count (header b))"
    using write_parts(3) [OF w] wb(3) nth_mem [OF k] by simp
  moreover have "unat (hd_row_count (header b)) < 2 ^ 32" using unsigned_less [of "hd_row_count (header b)"] by simp
  ultimately have r': "unat (word_of_nat r :: u32) = r" using r by (intro unat_of_nat_small) simp
  have "\<not> hd_row_count (header b) \<le> word_of_nat r" using r r' rows by (simp add: word_le_nat_alt)
  moreover have "scan_row r cb = Inr (col_values (cols ! k) ! r)"
    using cb(3) rows r by (intro scan_row_nth) (auto simp: decompress_def decompress_none_def)
  ultimately have "read_column_row Z b k (word_of_nat r) = Some (Inr (col_values (cols ! k) ! r))"
    using cb(1,2) k wb(2) r' by (simp add: read_column_row_def Let_def decompress_none_single_row_def)
  then have "scan_row r cb = Inr (col_values (cols ! k) ! r)" "\<not> word_of_nat r \<ge> hd_row_count (header b)"
    using cb(1,2) k wb(2) r' by (auto simp: read_column_row_def Let_def decompress_none_single_row_def split: if_splits)
  then show ?thesis using raw_read_value [OF block_roundtrip [OF wb(1)] _ cb(1), of Z "word_of_nat r"] cb(2) k wb(2) r'
    by (simp add: decompress_none_single_row_def)
qed

text \<open>
  C32: The fast point read is equivalent to the full one for columns that are not FastPFOR-compressed,
  or hold blobs. On any bytes that deserialise to a block, if the chunk of the column, when there
  is such a column, lies within the column data, then extracting a row from the raw bytes and
  reading it through the block have the same outcome: the same value, or both an error, which may
  differ in its text, or both a panic.
\<close>

theorem raw_read_agrees:
  assumes "pax_deserialize h data = Inr b"
    and "i < length (column_descriptors (header b)) \<Longrightarrow> \<exists>bs. column_bytes b i = Inr bs"
    and "i < length (column_descriptors (header b)) \<Longrightarrow>
      cd_codec (column_descriptors (header b) ! i) \<noteq> FastPFor \<or> cd_type (column_descriptors (header b) ! i) = Blob"
  shows "map_option (map_sum (\<lambda>_. ()) id) (read_value_from_raw_block h Z data i r) = map_option (map_sum (\<lambda>_. ()) id) (read_column_row Z b i r)"
proof (cases "i < length (column_descriptors (header b))")
  case True
  let ?d = "column_descriptors (header b) ! i"
  obtain bs where bs: "column_bytes b i = Inr bs" using assms(2) True by blast
  have "decompress Z Blob (cd_codec ?d) bs n = decompress Z (cd_type ?d) (cd_codec ?d) bs n" for n
    using assms(3) [OF True] by (cases "cd_codec ?d") (auto simp: decompress_def)
  then show ?thesis unfolding raw_read_value [OF assms(1) True bs] using True bs
    by (simp add: read_column_row_def Let_def nth_row_def split: option.split sum.split)
next
  case False
  then show ?thesis using raw_read_no_column [OF assms(1)] by (simp add: read_column_row_def)
qed

section \<open>Pruning\<close>

text \<open>Whether a stored value satisfies \<open>column op value\<close>, in the order of the encoding.\<close>

definition satisfies :: "column_type \<Rightarrow> prune_op \<Rightarrow> bytes \<Rightarrow> bytes \<Rightarrow> bool" where
  "satisfies t op x v \<longleftrightarrow>
     (let cx = to_comparable_bytes t x; cv = to_comparable_bytes t v
      in case op of PEq \<Rightarrow> cx = cv | PNe \<Rightarrow> cx \<noteq> cv | PLt \<Rightarrow> cx < cv | PLe \<Rightarrow> cx \<le> cv | PGt \<Rightarrow> cx > cv | PGe \<Rightarrow> cx \<ge> cv)"

text \<open>
  Zone-map pruning is conservative as long as both bounds are non-empty byte strings: if the
  check on the zone map of a column says that no row can match, then no value of the column
  satisfies the predicate.
\<close>

theorem zone_map_conservative:
  assumes "\<not> zone_map_can_match t (zmin (extract_zone_map t vals)) (zmax (extract_zone_map t vals)) op v"
    and "zmin (extract_zone_map t vals) \<noteq> []" and "zmax (extract_zone_map t vals) \<noteq> []"
    and "x \<in> set vals"
  shows "\<not> satisfies t op x v"
  using assms(1-3) zone_map_bounds [OF assms(4), of t]
  by (cases op) (auto simp: zone_map_can_match_def satisfies_def Let_def)

theorem zone_map_conservative_witness:
  "\<not> satisfies Text PGt [65] [67]"
  by (rule zone_map_conservative [where vals = "[[65], [66]]"])
    (simp_all add: extract_zone_map_def zone_map_can_match_def to_comparable_bytes_def)

text \<open>
  Without that the check is not conservative. If the smallest value of a column is the empty
  byte string, as it is for every text column with a NULL or an empty string in the block, the
  check says that no row can match, whatever the predicate, although rows do match.
\<close>

theorem zone_map_empty_prunes:
  assumes "is_variable_width t" and "[] \<in> set vals"
  shows "\<not> zone_map_can_match t (zmin (extract_zone_map t vals)) (zmax (extract_zone_map t vals)) op v
    \<and> (\<forall>x \<in> set vals. satisfies t PEq x x)"
proof -
  have "to_comparable_bytes t w = w" for w using assms(1) by (auto simp: is_variable_width_def to_comparable_bytes_def)
  then have "zmin (extract_zone_map t vals) = []" using zone_map_bounds(1) [OF assms(2), of t] by simp
  then show ?thesis by (simp add: zone_map_can_match_def satisfies_def Let_def)
qed

theorem zone_map_empty_prunes_witness:
  "\<not> zone_map_can_match Text (zmin (extract_zone_map Text [[], [65]])) (zmax (extract_zone_map Text [[], [65]])) PEq [65]
     \<and> satisfies Text PEq [65] [65]"
  using zone_map_empty_prunes [of Text "[[], [65]]" PEq "[65]"] by (simp add: is_variable_width_def)

text \<open>The big-endian encoding preserves the order of the numbers.\<close>

lemma nat_of_le_snoc: "nat_of_le (bs @ [b]) = nat_of_le bs + 256 ^ length bs * unat b"
  by (induction bs) (simp_all add: algebra_simps)

lemma rev_le_order:
  "length xs = length ys \<Longrightarrow> rev xs \<le> rev ys \<longleftrightarrow> nat_of_le xs \<le> nat_of_le ys"
proof (induction xs arbitrary: ys rule: rev_induct)
  case (snoc x xs)
  obtain y ys' where ys: "ys = ys' @ [y]" using snoc.prems by (cases ys rule: rev_cases) auto
  have len: "length xs = length ys'" using snoc.prems ys by simp
  have bx: "nat_of_le xs < 256 ^ length xs" "nat_of_le ys' < 256 ^ length xs"
    using nat_of_le_bound [of xs] nat_of_le_bound [of ys'] len by simp_all
  have lt: "a + 256 ^ length xs * i < b + 256 ^ length xs * j" if "i < j" "a < 256 ^ length xs" for a b i j :: nat
  proof -
    have "256 ^ length xs * Suc i \<le> 256 ^ length xs * j" using that(1) by (intro mult_le_mono2) simp
    then show ?thesis using that(2) by simp
  qed
  consider "x = y" | "unat x < unat y" | "unat y < unat x" by (metis linorder_cases word_unat_eq_iff)
  then show ?case
  proof cases
    case 1
    then show ?thesis using snoc.IH [OF len] len by (simp add: ys nat_of_le_snoc)
  next
    case 2
    then show ?thesis using lt [OF 2 bx(1), of "nat_of_le ys'"] len
      by (simp add: ys nat_of_le_snoc word_less_nat_alt)
  next
    case 3
    then show ?thesis using lt [OF 3 bx(2), of "nat_of_le xs"] len
      by (auto simp: ys nat_of_le_snoc word_less_nat_alt)
  qed
qed simp

lemma be_order: "to_be_bytes (a :: 'a::len word) \<le> to_be_bytes b \<longleftrightarrow> a \<le> b" if "8 dvd LENGTH('a)"
proof -
  from \<open>8 dvd LENGTH('a)\<close> obtain k where k: "LENGTH('a) = 8 * k" by (elim dvdE)
  have "nat_of_le (to_le_bytes w) = unat w" for w :: "'a word"
  proof -
    have "unat w < 256 ^ k" using unsigned_less [of w] by (simp add: k power_mult)
    then show ?thesis by (simp add: to_le_bytes_def nat_of_le_le_of_nat k)
  qed
  then show ?thesis using rev_le_order [of "to_le_bytes a" "to_le_bytes b"] by (simp add: to_be_bytes_def word_le_nat_alt)
qed

text \<open>Flipping the sign bit turns the signed order into the unsigned one.\<close>

lemma xor_top_bit: "a XOR 2 ^ (LENGTH('a) - 1) = a + 2 ^ (LENGTH('a) - 1)" for a :: "'a::len word"
proof -
  let ?n = "LENGTH('a) - 1"
  have "Suc ?n = LENGTH('a)" by simp
  then have dbl: "(2 :: 'a word) ^ ?n + 2 ^ ?n = 0" by (metis mult_2 power_Suc exp_eq_zero_iff order_refl)
  have "a XOR 2 ^ ?n = flip_bit ?n a" by (simp add: flip_bit_eq_xor)
  also have "\<dots> = a + 2 ^ ?n"
  proof (cases "bit a ?n")
    case True
    then have "flip_bit ?n a = a - 2 ^ ?n" by (simp add: flip_bit_eq_if unset_bit_eq)
    also have "\<dots> = a + 2 ^ ?n" by (simp only: diff_conv_add_uminus minus_unique [OF dbl])
    finally show ?thesis .
  next
    case False
    then show ?thesis by (simp add: flip_bit_eq_if set_bit_eq)
  qed
  finally show ?thesis .
qed

lemma sign_flip_order: "a XOR 2 ^ (LENGTH('a) - 1) \<le> b XOR 2 ^ (LENGTH('a) - 1) \<longleftrightarrow> sint a \<le> sint b"
  for a b :: "'a::len word"
proof -
  have "sint c = uint (c + 2 ^ (LENGTH('a) - 1)) - 2 ^ (LENGTH('a) - 1)" for c :: "'a word"
    by transfer (simp add: signed_take_bit_eq_take_bit_shift take_bit_eq_mod mod_simps)
  then show ?thesis unfolding xor_top_bit word_le_def by simp
qed

text \<open>The integer a value of an integer column stands for.\<close>

fun int_value :: "column_type \<Rightarrow> bytes \<Rightarrow> int option" where
  "int_value Int8 v = Some (sint (hd v))"
| "int_value Int16 v = Some (sint (from_le_bytes v :: u16))"
| "int_value Int32 v = Some (sint (from_le_bytes v :: u32))"
| "int_value Int64 v = Some (sint (from_le_bytes v :: u64))"
| "int_value UInt8 v = Some (uint (hd v))"
| "int_value UInt16 v = Some (uint (from_le_bytes v :: u16))"
| "int_value UInt32 v = Some (uint (from_le_bytes v :: u32))"
| "int_value UInt64 v = Some (uint (from_le_bytes v :: u64))"
| "int_value _ v = None"

lemmas flip_orders = sign_flip_order [where 'a = 8, simplified] sign_flip_order [where 'a = 16, simplified]
  sign_flip_order [where 'a = 32, simplified] sign_flip_order [where 'a = 64, simplified]

lemma length_one: "length xs = Suc 0 \<Longrightarrow> \<exists>x. xs = [x]"
  by (cases xs) auto

lemma singleton_le: "[x] \<le> [y] \<longleftrightarrow> x \<le> (y :: 'a::linorder)"
  by auto

lemma uint_le_iff: "uint x \<le> uint y \<longleftrightarrow> x \<le> y"
  by (simp add: word_le_def)

text \<open>
  The comparable encoding is order-preserving. For every signed and unsigned integer type and
  any two values of the width of the type, the encodings compare bytewise exactly as the
  integers do.
\<close>

theorem comparable_order:
  assumes "byte_size t = Some (length v)" and "byte_size t = Some (length w)"
    and "int_value t v = Some i" and "int_value t w = Some j"
  shows "to_comparable_bytes t v \<le> to_comparable_bytes t w \<longleftrightarrow> i \<le> j"
proof (cases "length v = Suc 0")
  case True
  then obtain x y where "v = [x]" "w = [y]" using assms(1,2) length_one [of v] length_one [of w] by auto
  then show ?thesis
    using assms
    by (cases t) (auto simp: to_comparable_bytes_def flip_orders singleton_le uint_le_iff simp del: Cons_le_Cons)
next
  case False
  then show ?thesis
    using assms by (cases t) (auto simp: to_comparable_bytes_def be_order flip_orders uint_le_iff)
qed

theorem comparable_order_witness:
  "to_comparable_bytes Int16 [0xFF, 0xFF] \<le> to_comparable_bytes Int16 [1, 0]"
proof -
  have "from_le_bytes [0xFF, 0xFF] = (- 1 :: u16)" "from_le_bytes [1, 0] = (1 :: u16)" by (simp_all add: from_le_bytes_def)
  then show ?thesis using comparable_order [of Int16 "[0xFF, 0xFF]" "[1, 0]" "- 1" 1] by simp
qed

section \<open>Witnesses\<close>

definition demo_h :: "bytes \<Rightarrow> u64" where
  "demo_h bs = foldl (\<lambda>h b. 31 * h + ucast b) 7 bs"

definition demo_cols :: "column list" where
  "demo_cols = [\<lparr>col_type = Blob, col_values = [[1], [2]]\<rparr>, \<lparr>col_type = Blob, col_values = [[7], [8, 9]]\<rparr>]"

lemma demo_compressed:
  "compress demo_zstd Blob Zstd [[1], [2]] = Some (Inr [10, 0, 0, 0, 1, 0, 0, 0, 1, 1, 0, 0, 0, 2])"
  "compress demo_zstd Blob NoCodec [[7], [8, 9]] = Some (Inr [1, 0, 0, 0, 7, 2, 0, 0, 0, 8, 9])"
  by (code_simp, code_simp)

lemma demo_columns_written:
  "write_columns demo_zstd (zip demo_cols [Zstd, NoCodec]) [] [] = Some (Inr (
     [\<lparr>cd_type = Blob, cd_codec = Zstd, cd_offset = 0, compressed_len = 14, zone_map_min = [1], zone_map_max = [2]\<rparr>,
      \<lparr>cd_type = Blob, cd_codec = NoCodec, cd_offset = 14, compressed_len = 11, zone_map_min = [7], zone_map_max = [8, 9]\<rparr>],
     [10, 0, 0, 0, 1, 0, 0, 0, 1, 1, 0, 0, 0, 2, 1, 0, 0, 0, 7, 2, 0, 0, 0, 8, 9]))"
  by (simp add: demo_cols_def demo_compressed extract_zone_map_def to_comparable_bytes_def)

lemma demo_write:
  obtains b where "write_with_codecs demo_h demo_zstd 5 9 demo_cols [Zstd, NoCodec] = Some (Inr b)"
    and "length (column_data b) = 25" and "map cd_codec (column_descriptors (header b)) = [Zstd, NoCodec]"
proof -
  have "length (col_values c) = 2" if "c \<in> set demo_cols" for c using that by (auto simp: demo_cols_def)
  moreover have "demo_cols \<noteq> []" "length [Zstd, NoCodec] = length demo_cols" "length (col_values (hd demo_cols)) = 2"
    by (simp_all add: demo_cols_def)
  ultimately show ?thesis
    using that by (simp add: write_with_codecs_def demo_columns_written Let_def)
qed

lemma demo_fits: "columns_fit demo_cols [Zstd, NoCodec]"
  by (simp add: columns_fit_def demo_cols_def column_fits_def)

theorem pax_roundtrip_witness:
  "\<exists>b. write_with_codecs demo_h demo_zstd 5 9 demo_cols [Zstd, NoCodec] = Some (Inr b)
     \<and> pax_deserialize demo_h (pax_serialize b) = Inr b \<and> read_column demo_zstd b 1 = Some (Inr [[7], [8, 9]])"
proof -
  obtain b where b: "write_with_codecs demo_h demo_zstd 5 9 demo_cols [Zstd, NoCodec] = Some (Inr b)"
    "length (column_data b) = 25" by (rule demo_write)
  from pax_roundtrip [OF demo_zstd_ok b(1) demo_fits] b(2)
  have "pax_deserialize demo_h (pax_serialize b) = Inr b
    \<and> (\<forall>k < length demo_cols. read_column demo_zstd b k = Some (Inr (col_values (demo_cols ! k))))" by simp
  then show ?thesis using b(1) by (auto simp: demo_cols_def)
qed

theorem raw_read_agrees_witness:
  "\<exists>b. write_with_codecs demo_h demo_zstd 5 9 demo_cols [Zstd, NoCodec] = Some (Inr b)
     \<and> read_value_from_raw_block demo_h demo_zstd (pax_serialize b) 0 1 = Some (Inr [2])"
proof -
  obtain b where b: "write_with_codecs demo_h demo_zstd 5 9 demo_cols [Zstd, NoCodec] = Some (Inr b)"
    "length (column_data b) = 25" "map cd_codec (column_descriptors (header b)) = [Zstd, NoCodec]" by (rule demo_write)
  have sz: "length (column_data b) < 2 ^ 32" using b(2) by simp
  note wb = written_block [OF b(1) demo_fits sz]
  have c: "cd_codec (column_descriptors (header b) ! 0) = Zstd" and z: "0 < length (column_descriptors (header b))"
    using b(3) by auto
  have cb: "\<exists>bs. column_bytes b 0 = Inr bs" using read_column_written [OF b(1) demo_fits sz demo_zstd_ok, of 0] by (auto simp: demo_cols_def)
  have "read_column_row demo_zstd b 0 1 = Some (Inr [2])"
    using read_column_written [OF b(1) demo_fits sz demo_zstd_ok, of 0] wb(3) z c write_parts(5) [OF b(1)]
    by (auto simp: read_column_row_def nth_row_def demo_cols_def Let_def word_le_nat_alt)
  then have "map_option (map_sum (\<lambda>_. ()) id) (read_value_from_raw_block demo_h demo_zstd (pax_serialize b) 0 1) = Some (Inr [2])"
    using raw_read_agrees [OF block_roundtrip [OF wb(1)], of 0 demo_zstd 1] cb c by simp
  then obtain z where z: "read_value_from_raw_block demo_h demo_zstd (pax_serialize b) 0 1 = Some z" "map_sum (\<lambda>_. ()) id z = Inr [2]" by auto
  then have "z = Inr [2]" by (cases z) simp_all
  then show ?thesis using b(1) z(1) by blast
qed

end
