(* ===== verification/Sst.thy ===== *)
theory Sst
  imports Pax
begin

text \<open>
  The SST file of \<open>sst.rs\<close>, PAX blocks followed by a block index and a footer, and the
  registry of open files (\<open>SstRegistry\<close> of \<open>engine.rs\<close>) with the point read through it.
  The index is not covered by a checksum, so its offsets are kept as 64-bit words and the
  slices they lead to may panic (\<open>None\<close>). The SST files of the data directory are a map from
  the number in their name \<open>sst_<n>.pax\<close> to their contents, with the positioned read and
  write of the I/O scheduler.
\<close>

section \<open>The block index\<close>

definition SST_FOOTER_MAGIC :: u32 where
  "SST_FOOTER_MAGIC = 0x53535446"

definition SST_FOOTER_MAGIC_V2 :: u32 where
  "SST_FOOTER_MAGIC_V2 = 0x53535456"

definition SST_FOOTER_SIZE :: nat where
  "SST_FOOTER_SIZE = 16"

definition SST_FOOTER_SIZE_V2 :: nat where
  "SST_FOOTER_SIZE_V2 = 18"

record block_index_entry =
  file_offset :: u64
  block_len :: u32

record sst_block_index =
  entries :: "block_index_entry list"

definition new_block_index :: sst_block_index where
  "new_block_index = \<lparr>entries = []\<rparr>"

definition add_block :: "u64 \<Rightarrow> u32 \<Rightarrow> sst_block_index \<Rightarrow> sst_block_index" where
  "add_block off len idx = idx\<lparr>entries := entries idx @ [\<lparr>file_offset = off, block_len = len\<rparr>]\<rparr>"

definition get_block :: "sst_block_index \<Rightarrow> u64 \<Rightarrow> block_index_entry option" where
  "get_block idx block_idx =
     (if unat block_idx < length (entries idx) then Some (entries idx ! unat block_idx) else None)"

definition block_count :: "sst_block_index \<Rightarrow> nat" where
  "block_count idx = length (entries idx)"

definition entry_bytes :: "block_index_entry \<Rightarrow> bytes" where
  "entry_bytes en = to_le_bytes (file_offset en) @ to_le_bytes (block_len en)"

definition serialize_with_footer :: "sst_block_index \<Rightarrow> u64 \<Rightarrow> bytes" where
  "serialize_with_footer idx index_offset =
     (let count = word_of_nat (length (entries idx)) :: u32
      in to_le_bytes count @ concat (map entry_bytes (entries idx))
         @ to_le_bytes index_offset @ to_le_bytes count @ to_le_bytes (current_write SST)
         @ to_le_bytes SST_FOOTER_MAGIC_V2)"

definition parse_footer :: "bytes \<Rightarrow> galax_error + u64 \<times> u32 \<times> nat" where
  "parse_footer data =
     (if length data < SST_FOOTER_SIZE then Inl (Internal ''SST file too small for footer'')
      else
        let stop = length data;
            trailing_magic = from_le_bytes (sub_slice (stop - 4) stop data) :: u32
        in if trailing_magic = SST_FOOTER_MAGIC_V2 then
             if length data < SST_FOOTER_SIZE_V2 then Inl (Internal ''SST file too small for versioned footer'')
             else
               let fs = stop - SST_FOOTER_SIZE_V2;
                   index_offset = from_le_bytes (sub_slice fs (fs + 8) data);
                   count = from_le_bytes (sub_slice (fs + 8) (fs + 12) data);
                   version = from_le_bytes (sub_slice (fs + 12) (fs + 14) data)
               in case check_format SST version of
                    Inl e \<Rightarrow> Inl e
                  | Inr _ \<Rightarrow> Inr (index_offset, count, SST_FOOTER_SIZE_V2)
           else if trailing_magic = SST_FOOTER_MAGIC then
             let fs = stop - SST_FOOTER_SIZE;
                 index_offset = from_le_bytes (sub_slice fs (fs + 8) data);
                 count = from_le_bytes (sub_slice (fs + 8) (fs + 12) data)
             in Inr (index_offset, count, SST_FOOTER_SIZE)
           else Inl (Internal ''SST footer magic mismatch''))"

text \<open>\<open>data[a..b]\<close> with 64-bit bounds.\<close>

definition slice64 :: "bytes \<Rightarrow> u64 \<Rightarrow> u64 \<Rightarrow> bytes option" where
  "slice64 data a b =
     (if a \<le> b \<and> unat b \<le> length data then Some (sub_slice (unat a) (unat b) data) else None)"

fun read_entries :: "bytes \<Rightarrow> nat \<Rightarrow> nat \<Rightarrow> u64 \<Rightarrow> (galax_error + block_index_entry list) option" where
  "read_entries data footer_start 0 off = Some (Inr [])"
| "read_entries data footer_start (Suc n) off =
     (if unat (off + 12) > footer_start then Some (Inl (Internal ''block index extends into footer''))
      else case (slice64 data off (off + 8), slice64 data (off + 8) (off + 12)) of
             (Some fo, Some bl) \<Rightarrow>
               (case read_entries data footer_start n (off + 12) of
                  None \<Rightarrow> None
                | Some (Inl e) \<Rightarrow> Some (Inl e)
                | Some (Inr es) \<Rightarrow>
                  Some (Inr (\<lparr>file_offset = from_le_bytes fo, block_len = from_le_bytes bl\<rparr> # es)))
           | _ \<Rightarrow> None)"

definition from_file_data :: "bytes \<Rightarrow> (galax_error + sst_block_index) option" where
  "from_file_data data =
     (case parse_footer data of
        Inl e \<Rightarrow> Some (Inl e)
      | Inr (index_offset, count, footer_size) \<Rightarrow>
        (case read_entries data (length data - footer_size) (unat count) (index_offset + 4) of
           None \<Rightarrow> None
         | Some (Inl e) \<Rightarrow> Some (Inl e)
         | Some (Inr es) \<Rightarrow> Some (Inr \<lparr>entries = es\<rparr>)))"

definition read_footer :: "bytes \<Rightarrow> galax_error + u64 \<times> u32" where
  "read_footer data =
     (case parse_footer data of
        Inl e \<Rightarrow> Inl e
      | Inr (index_offset, count, _) \<Rightarrow> Inr (index_offset, count))"

section \<open>Files and the registry\<close>

type_synonym sst_dir = "u64 \<rightharpoonup> bytes"

text \<open>The scheduler opens without truncating, so a longer file keeps its tail.\<close>

definition io_write :: "u64 \<Rightarrow> nat \<Rightarrow> bytes \<Rightarrow> sst_dir \<Rightarrow> sst_dir" where
  "io_write path off data d = d(path \<mapsto> write_at off data (case d path of None \<Rightarrow> [] | Some old \<Rightarrow> old))"

definition io_read_sync :: "sst_dir \<Rightarrow> u64 \<Rightarrow> nat \<Rightarrow> nat \<Rightarrow> bytes option" where
  "io_read_sync d path off len = map_option (\<lambda>f. take len (drop off f)) (d path)"

record sst_entry =
  sst_path :: u64
  block_index :: sst_block_index

type_synonym sst_registry = "u64 \<rightharpoonup> sst_entry"

definition is_format_error :: "galax_error \<Rightarrow> bool" where
  "is_format_error e = (case e of FormatTooNew _ _ _ \<Rightarrow> True | FormatTooOld _ _ _ \<Rightarrow> True | _ \<Rightarrow> False)"

definition register :: "sst_dir \<Rightarrow> u64 \<Rightarrow> u64 \<Rightarrow> sst_registry \<Rightarrow> (galax_error + sst_registry) option" where
  "register d sst_id path reg =
     (case d path of
        None \<Rightarrow> Some (Inr (reg(sst_id \<mapsto> \<lparr>sst_path = path, block_index = new_block_index\<rparr>)))
      | Some data \<Rightarrow>
        (case from_file_data data of
           None \<Rightarrow> None
         | Some (Inr idx) \<Rightarrow> Some (Inr (reg(sst_id \<mapsto> \<lparr>sst_path = path, block_index = idx\<rparr>)))
         | Some (Inl e) \<Rightarrow>
           if is_format_error e then Some (Inl e)
           else Some (Inr (reg(sst_id \<mapsto> \<lparr>sst_path = path,
                  block_index = add_block 0 (word_of_nat (length data)) new_block_index\<rparr>)))))"

definition read_value ::
  "(bytes \<Rightarrow> u64) \<Rightarrow> zstd_lib \<Rightarrow> sst_dir \<Rightarrow> sst_registry \<Rightarrow> u64 \<Rightarrow> u64 \<Rightarrow> u32 \<Rightarrow> bytes option option" where
  "read_value h Z d reg sst_id block_offset row_offset =
     (case reg sst_id of
        None \<Rightarrow> Some None
      | Some en \<Rightarrow>
        (case get_block (block_index en) block_offset of
           None \<Rightarrow> Some None
         | Some info \<Rightarrow>
           (case io_read_sync d (sst_path en) (unat (file_offset info)) (unat (block_len info)) of
              None \<Rightarrow> Some None
            | Some block_bytes \<Rightarrow>
              (case read_value_from_raw_block h Z block_bytes 1 row_offset of
                 None \<Rightarrow> None
               | Some (Inl e) \<Rightarrow> Some None
               | Some (Inr v) \<Rightarrow> Some (Some v)))))"

section \<open>The index reads back\<close>

lemma length_entry_bytes [simp]: "length (entry_bytes en) = 12"
  by (simp add: entry_bytes_def)

lemma length_entries_bytes: "length (concat (map entry_bytes es)) = 12 * length es"
  by (induction es) auto

lemma slice64_nat:
  assumes "a \<le> b" and "b \<le> length data" and "length data < 2 ^ 64"
  shows "slice64 data (word_of_nat a) (word_of_nat b) = Some (sub_slice a b data)"
  using assms by (simp add: slice64_def word_le_nat_alt unat_of_nat_small)

lemma read_entries_ok:
  assumes "length data < 2 ^ 64" and "drop off data = concat (map entry_bytes es) @ rest"
    and "off + 12 * length es \<le> footer_start" and "footer_start \<le> length data"
  shows "read_entries data footer_start (length es) (word_of_nat off) = Some (Inr es)"
  using assms
proof (induction es arbitrary: off)
  case (Cons en es)
  have small: "off + 12 < 2 ^ 64" using Cons.prems by simp
  have w: "(word_of_nat off + 8 :: u64) = word_of_nat (off + 8)" "(word_of_nat off + 12 :: u64) = word_of_nat (off + 12)"
    by simp_all
  have d: "drop off data = to_le_bytes (file_offset en) @ to_le_bytes (block_len en) @ concat (map entry_bytes es) @ rest"
    using Cons.prems(2) by (simp add: entry_bytes_def [of en])
  have s1: "sub_slice off (off + 8) data = to_le_bytes (file_offset en)" by (simp add: sub_slice_def d)
  have "drop (off + 8) data = drop 8 (drop off data)" by (simp add: add.commute)
  then have s2: "sub_slice (off + 8) (off + 12) data = to_le_bytes (block_len en)" by (simp add: sub_slice_def d)
  have "drop (off + 12) data = drop 12 (drop off data)" by (simp add: add.commute)
  then have "drop (off + 12) data = concat (map entry_bytes es) @ rest" by (simp add: d)
  then have ih: "read_entries data footer_start (length es) (word_of_nat (off + 12)) = Some (Inr es)"
    using Cons.IH [of "off + 12"] Cons.prems by simp
  have "slice64 data (word_of_nat off) (word_of_nat (off + 8)) = Some (to_le_bytes (file_offset en))"
    "slice64 data (word_of_nat (off + 8)) (word_of_nat (off + 12)) = Some (to_le_bytes (block_len en))"
    using Cons.prems s1 s2 by (simp_all add: slice64_nat del: of_nat_add)
  moreover have "unat (word_of_nat (off + 12) :: u64) = off + 12"
    using small by (simp add: unat_of_nat_small del: of_nat_add)
  ultimately show ?case
    using ih Cons.prems(3) by (simp add: w del: of_nat_add)
qed simp

lemma index_roundtrip:
  assumes "length (entries idx) < 2 ^ 32" and "length blocks + 12 * length (entries idx) + 22 < 2 ^ 64"
  shows "from_file_data (blocks @ serialize_with_footer idx (word_of_nat (length blocks))) = Some (Inr idx)"
proof -
  define io where "io = (word_of_nat (length blocks) :: u64)"
  define es where "es = concat (map entry_bytes (entries idx))"
  define c where "c = (word_of_nat (length (entries idx)) :: u32)"
  define data where "data = blocks @ serialize_with_footer idx io"
  define fs where "fs = length blocks + 4 + length es"
  have data: "data = (blocks @ to_le_bytes c @ es) @ to_le_bytes io @ to_le_bytes c
      @ to_le_bytes (current_write SST) @ to_le_bytes SST_FOOTER_MAGIC_V2"
    by (simp add: data_def serialize_with_footer_def Let_def es_def c_def)
  have len: "length data = fs + 18" by (simp add: data fs_def)
  have pre: "length (blocks @ to_le_bytes c @ es) = fs" by (simp add: fs_def)
  have "sub_slice (fs + 14) (fs + 18) data = to_le_bytes SST_FOOTER_MAGIC_V2"
    "sub_slice fs (fs + 8) data = to_le_bytes io" "sub_slice (fs + 8) (fs + 12) data = to_le_bytes c"
    "sub_slice (fs + 12) (fs + 14) data = to_le_bytes (current_write SST)"
    unfolding data by (simp_all only: sub_slice_append_right pre le_add1 order_refl add_diff_cancel_left')
      (simp_all add: sub_slice_def)
  then have pf: "parse_footer data = Inr (io, c, 18)"
    by (simp add: add.commute [of 14] parse_footer_def len Let_def SST_FOOTER_SIZE_def SST_FOOTER_SIZE_V2_def check_format_def SST_def)
  have "io + 4 = word_of_nat (length blocks + 4)" by (simp add: io_def)
  moreover have "drop (length blocks + 4) data = es @ to_le_bytes io @ to_le_bytes c
      @ to_le_bytes (current_write SST) @ to_le_bytes SST_FOOTER_MAGIC_V2"
    by (simp add: data)
  moreover have "length data < 2 ^ 64" using assms(2) by (simp add: len fs_def es_def length_entries_bytes)
  ultimately have "read_entries data (length data - 18) (length (entries idx)) (io + 4) = Some (Inr (entries idx))"
    using read_entries_ok [of data "length blocks + 4" "entries idx" _ fs]
    by (simp add: len fs_def es_def length_entries_bytes ac_simps)
  then have "from_file_data data = Some (Inr idx)"
    using assms(1) by (simp add: from_file_data_def pf c_def unat_of_nat_small)
  then show ?thesis by (simp add: data_def io_def)
qed

section \<open>Registering a file\<close>

lemma register_written:
  assumes "d path = Some (blocks @ serialize_with_footer idx (word_of_nat (length blocks)))"
    and "length (entries idx) < 2 ^ 32" and "length blocks + 12 * length (entries idx) + 22 < 2 ^ 64"
  shows "register d sst_id path reg = Some (Inr (reg(sst_id \<mapsto> \<lparr>sst_path = path, block_index = idx\<rparr>)))"
  using index_roundtrip [OF assms(2,3)] assms(1) by (simp add: register_def)

text \<open>
  The block index is read back. Opening a file of blocks followed by the serialised index
  registers exactly that index; a file whose versioned footer declares a version outside the
  supported range is refused with the typed error, whatever the rest of the file holds; and a
  file without either footer is opened as one block.
\<close>

theorem register_correct:
  shows "(d path = Some (blocks @ serialize_with_footer idx (word_of_nat (length blocks)))
        \<and> length (entries idx) < 2 ^ 32 \<and> length blocks + 12 * length (entries idx) + 22 < 2 ^ 64 \<longrightarrow>
      register d sst_id path reg = Some (Inr (reg(sst_id \<mapsto> \<lparr>sst_path = path, block_index = idx\<rparr>))))
    \<and> (d path = Some (front @ to_le_bytes version @ to_le_bytes SST_FOOTER_MAGIC_V2)
        \<and> 12 \<le> length front \<and> check_format SST version = Inl err \<longrightarrow> register d sst_id path reg = Some (Inl err))
    \<and> (d path = Some (front @ to_le_bytes mg) \<and> mg \<notin> {SST_FOOTER_MAGIC, SST_FOOTER_MAGIC_V2} \<longrightarrow>
      register d sst_id path reg = Some (Inr (reg(sst_id \<mapsto> \<lparr>sst_path = path,
        block_index = \<lparr>entries = [\<lparr>file_offset = 0, block_len = word_of_nat (length front + 4)\<rparr>]\<rparr>\<rparr>))))"
proof (intro conjI impI; elim conjE)
  show "d path = Some (blocks @ serialize_with_footer idx (word_of_nat (length blocks))) \<Longrightarrow>
      length (entries idx) < 2 ^ 32 \<Longrightarrow> length blocks + 12 * length (entries idx) + 22 < 2 ^ 64 \<Longrightarrow>
      register d sst_id path reg = Some (Inr (reg(sst_id \<mapsto> \<lparr>sst_path = path, block_index = idx\<rparr>)))"
    by (rule register_written)
next
  assume d: "d path = Some (front @ to_le_bytes version @ to_le_bytes SST_FOOTER_MAGIC_V2)"
    and l: "12 \<le> length front" and e: "check_format SST version = Inl err"
  define data where "data = front @ to_le_bytes version @ to_le_bytes SST_FOOTER_MAGIC_V2"
  have len: "length data = length front + 6" by (simp add: data_def)
  have s: "sub_slice (length front) (length front + 2) data = to_le_bytes version"
    "sub_slice (length front + 2) (length front + 6) data = to_le_bytes SST_FOOTER_MAGIC_V2"
    by (simp_all add: data_def sub_slice_def)
  have "parse_footer data = Inl err"
    using l e s by (simp add: parse_footer_def len SST_FOOTER_SIZE_def SST_FOOTER_SIZE_V2_def Let_def add.commute [of 2])
  then show "register d sst_id path reg = Some (Inl err)"
    using d e by (auto simp: register_def from_file_data_def data_def is_format_error_def check_format_def split: if_splits)
next
  assume d: "d path = Some (front @ to_le_bytes mg)" and m: "mg \<notin> {SST_FOOTER_MAGIC, SST_FOOTER_MAGIC_V2}"
  have "sub_slice (length front) (length front + 4) (front @ to_le_bytes mg) = to_le_bytes mg"
    by (simp add: sub_slice_def)
  then have "\<exists>msg. parse_footer (front @ to_le_bytes mg) = Inl (Internal msg)"
    using m by (simp add: parse_footer_def Let_def)
  then show "register d sst_id path reg = Some (Inr (reg(sst_id \<mapsto> \<lparr>sst_path = path,
        block_index = \<lparr>entries = [\<lparr>file_offset = 0, block_len = word_of_nat (length front + 4)\<rparr>]\<rparr>\<rparr>)))"
    using d by (auto simp: register_def from_file_data_def is_format_error_def add_block_def new_block_index_def)
qed

theorem register_correct_witness:
  "register [7 \<mapsto> [1, 2, 3] @ serialize_with_footer \<lparr>entries = [\<lparr>file_offset = 0, block_len = 3\<rparr>]\<rparr> 3] 5 7 Map.empty
     = Some (Inr [5 \<mapsto> \<lparr>sst_path = 7, block_index = \<lparr>entries = [\<lparr>file_offset = 0, block_len = 3\<rparr>]\<rparr>\<rparr>])
   \<and> register [7 \<mapsto> replicate 12 0 @ to_le_bytes (2 :: u16) @ to_le_bytes SST_FOOTER_MAGIC_V2] 5 7 Map.empty
     = Some (Inl (FormatTooNew ''SST'' 2 1))
   \<and> register [7 \<mapsto> replicate 12 0 @ to_le_bytes (0 :: u32)] 5 7 Map.empty
     = Some (Inr [5 \<mapsto> \<lparr>sst_path = 7, block_index = \<lparr>entries = [\<lparr>file_offset = 0, block_len = 16\<rparr>]\<rparr>\<rparr>])"
proof (intro conjI)
  show "register [7 \<mapsto> [1, 2, 3] @ serialize_with_footer \<lparr>entries = [\<lparr>file_offset = 0, block_len = 3\<rparr>]\<rparr> 3] 5 7 Map.empty
     = Some (Inr [5 \<mapsto> \<lparr>sst_path = 7, block_index = \<lparr>entries = [\<lparr>file_offset = 0, block_len = 3\<rparr>]\<rparr>\<rparr>])"
    by (rule register_correct [where blocks = "[1, 2, 3]", THEN conjunct1, THEN mp]) simp
  show "register [7 \<mapsto> replicate 12 0 @ to_le_bytes (2 :: u16) @ to_le_bytes SST_FOOTER_MAGIC_V2] 5 7 Map.empty
     = Some (Inl (FormatTooNew ''SST'' 2 1))"
    by (rule register_correct [where front = "replicate 12 0" and version = 2, THEN conjunct2, THEN conjunct1, THEN mp])
      (simp add: check_format_def SST_def)
  have "register [7 \<mapsto> replicate 12 0 @ to_le_bytes (0 :: u32)] 5 7 Map.empty
     = Some (Inr [5 \<mapsto> \<lparr>sst_path = 7, block_index = \<lparr>entries = [\<lparr>file_offset = 0,
          block_len = word_of_nat (length (replicate 12 0 :: bytes) + 4)\<rparr>]\<rparr>\<rparr>])"
    by (rule register_correct [where mg = 0, THEN conjunct2, THEN conjunct2, THEN mp])
      (simp add: SST_FOOTER_MAGIC_def SST_FOOTER_MAGIC_V2_def)
  then show "register [7 \<mapsto> replicate 12 0 @ to_le_bytes (0 :: u32)] 5 7 Map.empty
     = Some (Inr [5 \<mapsto> \<lparr>sst_path = 7, block_index = \<lparr>entries = [\<lparr>file_offset = 0, block_len = 16\<rparr>]\<rparr>\<rparr>])"
    by simp
qed

end
