(* ===== verification/Columnar.thy ===== *)
theory Columnar
  imports Pax
begin

text \<open>
  The columnar layout of \<open>columnar.rs\<close>: the registration of a table's key prefix with the
  splitter of its rows, and the appended columns of a block, a typed data column and a
  validity column for every SQL column. The splitter is a trait object that the SQL layer
  implements; it is the record \<open>splitter\<close>, an argument of everything here.
\<close>

record splitter =
  column_types :: "column_type list"
  split_row :: "bytes \<Rightarrow> bytes option list option"

record columnar_registration =
  cr_prefix :: bytes
  cr_splitter :: splitter

definition reg_matches :: "columnar_registration \<Rightarrow> bytes \<Rightarrow> bool" where
  "reg_matches r key \<longleftrightarrow> prefix (cr_prefix r) key"

definition registration_for :: "columnar_registration list \<Rightarrow> bytes \<Rightarrow> columnar_registration option" where
  "registration_for regs key = find (\<lambda>r. reg_matches r key) regs"

definition FIRST_DATA_COLUMN :: nat where
  "FIRST_DATA_COLUMN = 3"

definition DATA_VALIDITY_STRIDE :: nat where
  "DATA_VALIDITY_STRIDE = 2"

definition data_column_index :: "nat \<Rightarrow> nat" where
  "data_column_index k = FIRST_DATA_COLUMN + DATA_VALIDITY_STRIDE * k"

definition validity_column_index :: "nat \<Rightarrow> nat" where
  "validity_column_index k = data_column_index k + 1"

definition VALID :: u8 where
  "VALID = 1"

definition NULL_MARK :: u8 where
  "NULL_MARK = 0"

definition is_valid_marker :: "bytes \<Rightarrow> bool" where
  "is_valid_marker cell \<longleftrightarrow> cell \<noteq> [] \<and> hd cell = VALID"

definition placeholder_bytes :: "column_type \<Rightarrow> bytes" where
  "placeholder_bytes ct = (case byte_size ct of Some n \<Rightarrow> replicate n 0 | None \<Rightarrow> [])"

definition data_cell :: "column_type \<Rightarrow> bytes option \<Rightarrow> bytes" where
  "data_cell ct cell = (case cell of Some bs \<Rightarrow> bs | None \<Rightarrow> placeholder_bytes ct)"

definition valid_cell :: "bytes option \<Rightarrow> bytes" where
  "valid_cell cell = (case cell of Some _ \<Rightarrow> [VALID] | None \<Rightarrow> [NULL_MARK])"

text \<open>One row pushed onto every data and validity column.\<close>

definition push_row ::
  "column_type list \<Rightarrow> bytes option list \<Rightarrow> bytes list list \<times> bytes list list \<Rightarrow> bytes list list \<times> bytes list list" where
  "push_row cts cells cols =
     (map2 (\<lambda>col c. col @ [c]) (fst cols) (map2 data_cell cts cells),
      map2 (\<lambda>col c. col @ [c]) (snd cols) (map valid_cell cells))"

fun columnar_rows ::
  "splitter \<Rightarrow> bytes option list \<Rightarrow> bytes list list \<times> bytes list list \<Rightarrow> (bytes list list \<times> bytes list list) option" where
  "columnar_rows S [] cols = Some cols"
| "columnar_rows S (Some b # vs) cols =
     (case split_row S b of
        None \<Rightarrow> None
      | Some parts \<Rightarrow>
        if length parts \<noteq> length (column_types S) then None
        else columnar_rows S vs (push_row (column_types S) parts cols))"
| "columnar_rows S (None # vs) cols =
     columnar_rows S vs (push_row (column_types S) (replicate (length (column_types S)) None) cols)"

definition columnar_data_columns ::
  "bytes option list \<Rightarrow> splitter \<Rightarrow> (column list \<times> codec_id list) option" where
  "columnar_data_columns vals S =
     (let cts = column_types S; n = length cts
      in if n = 0 then None
         else case columnar_rows S vals (replicate n [], replicate n []) of
                None \<Rightarrow> None
              | Some (data_cols, valid_cols) \<Rightarrow>
                Some (concat (map (\<lambda>i. [\<lparr>col_type = cts ! i, col_values = data_cols ! i\<rparr>,
                                        \<lparr>col_type = Blob, col_values = valid_cols ! i\<rparr>]) [0..<n]),
                      concat (map (\<lambda>ct. [for_column_type ct, Zstd]) cts)))"

section \<open>The columns hold the cells\<close>

text \<open>The cells of a row; a tombstone is all NULL.\<close>

definition row_cells :: "splitter \<Rightarrow> bytes option \<Rightarrow> bytes option list option" where
  "row_cells S v =
     (case v of
        None \<Rightarrow> Some (replicate (length (column_types S)) None)
      | Some b \<Rightarrow>
        (case split_row S b of
           None \<Rightarrow> None
         | Some parts \<Rightarrow> if length parts = length (column_types S) then Some parts else None))"

definition cell_at :: "splitter \<Rightarrow> bytes option \<Rightarrow> nat \<Rightarrow> bytes option" where
  "cell_at S v k = the (row_cells S v) ! k"

lemma row_cells_length: "row_cells S v = Some cells \<Longrightarrow> length cells = length (column_types S)"
  by (auto simp: row_cells_def split: option.splits if_splits)

lemma columnar_rows_step:
  "columnar_rows S (v # vs) cols =
     Option.bind (row_cells S v) (\<lambda>cells. columnar_rows S vs (push_row (column_types S) cells cols))"
  by (cases v) (auto simp: row_cells_def split: option.splits)

lemma push_row_nth:
  assumes "length (fst cols) = n" "length (snd cols) = n" "length cts = n" "length cells = n"
  shows "length (fst (push_row cts cells cols)) = n" "length (snd (push_row cts cells cols)) = n"
    and "k < n \<Longrightarrow> fst (push_row cts cells cols) ! k = fst cols ! k @ [data_cell (cts ! k) (cells ! k)]"
    and "k < n \<Longrightarrow> snd (push_row cts cells cols) ! k = snd cols ! k @ [valid_cell (cells ! k)]"
  using assms by (simp_all add: push_row_def)

lemma columnar_rows_nth:
  assumes "columnar_rows S vals cols = Some (ds, vs)" and "length (fst cols) = length (column_types S)"
    and "length (snd cols) = length (column_types S)"
  shows "(\<forall>v \<in> set vals. row_cells S v \<noteq> None) \<and> length ds = length (column_types S) \<and> length vs = length (column_types S)
    \<and> (\<forall>k < length (column_types S).
         ds ! k = fst cols ! k @ map (\<lambda>v. data_cell (column_types S ! k) (cell_at S v k)) vals
         \<and> vs ! k = snd cols ! k @ map (\<lambda>v. valid_cell (cell_at S v k)) vals)"
  using assms
proof (induction vals arbitrary: cols)
  case Nil
  then show ?case by auto
next
  case (Cons v vals)
  from Cons.prems(1) obtain cells where c: "row_cells S v = Some cells"
    "columnar_rows S vals (push_row (column_types S) cells cols) = Some (ds, vs)"
    by (auto simp: columnar_rows_step bind_eq_Some_conv)
  note pr = push_row_nth [OF Cons.prems(2,3) refl row_cells_length [OF c(1)]]
  from Cons.IH [OF c(2) pr(1,2)] show ?case
    using c(1) pr(3,4) by (auto simp: cell_at_def)
qed

lemma length_pairs: "length (concat (map (\<lambda>i. [f i, g i]) xs)) = 2 * length xs"
  by (induction xs) auto

lemma nth_pairs:
  "k < length xs \<Longrightarrow> concat (map (\<lambda>i. [f i, g i]) xs) ! (2 * k) = f (xs ! k)"
  "k < length xs \<Longrightarrow> concat (map (\<lambda>i. [f i, g i]) xs) ! Suc (2 * k) = g (xs ! k)"
  by (induction xs arbitrary: k; case_tac k; simp)+

lemma columnar_columns:
  assumes "columnar_data_columns vals S = Some (cols, codecs)"
  defines "n \<equiv> length (column_types S)"
  shows "\<forall>v \<in> set vals. row_cells S v \<noteq> None" "length cols = 2 * n" "length codecs = 2 * n" "0 < n"
    and "k < n \<Longrightarrow> cols ! (2 * k) = \<lparr>col_type = column_types S ! k,
           col_values = map (\<lambda>v. data_cell (column_types S ! k) (cell_at S v k)) vals\<rparr>"
    and "k < n \<Longrightarrow> cols ! Suc (2 * k) = \<lparr>col_type = Blob, col_values = map (\<lambda>v. valid_cell (cell_at S v k)) vals\<rparr>"
    and "k < n \<Longrightarrow> codecs ! (2 * k) = for_column_type (column_types S ! k)" and "k < n \<Longrightarrow> codecs ! Suc (2 * k) = Zstd"
proof -
  obtain ds vs where r: "columnar_rows S vals (replicate n [], replicate n []) = Some (ds, vs)" "0 < n"
    "cols = concat (map (\<lambda>i. [\<lparr>col_type = column_types S ! i, col_values = ds ! i\<rparr>,
              \<lparr>col_type = Blob, col_values = vs ! i\<rparr>]) [0..<n])"
    "codecs = concat (map (\<lambda>ct. [for_column_type ct, Zstd]) (column_types S))"
    using assms by (auto simp: columnar_data_columns_def Let_def split: if_splits option.splits)
  note c = columnar_rows_nth [OF r(1), folded n_def, simplified]
  show "\<forall>v \<in> set vals. row_cells S v \<noteq> None" using c by auto
  show "length cols = 2 * n" "length codecs = 2 * n" "0 < n" using r(2) by (simp_all add: r(3,4) length_pairs n_def)
  show "k < n \<Longrightarrow> cols ! (2 * k) = \<lparr>col_type = column_types S ! k,
           col_values = map (\<lambda>v. data_cell (column_types S ! k) (cell_at S v k)) vals\<rparr>"
    "k < n \<Longrightarrow> cols ! Suc (2 * k) = \<lparr>col_type = Blob, col_values = map (\<lambda>v. valid_cell (cell_at S v k)) vals\<rparr>"
    using c by (simp_all add: r(3) nth_pairs)
  show "k < n \<Longrightarrow> codecs ! (2 * k) = for_column_type (column_types S ! k)" "k < n \<Longrightarrow> codecs ! Suc (2 * k) = Zstd"
    by (simp_all add: r(4) nth_pairs n_def)
qed

lemma valid_cell_marker: "is_valid_marker (valid_cell cell) \<longleftrightarrow> cell \<noteq> None"
  by (cases cell) (simp_all add: is_valid_marker_def valid_cell_def VALID_def NULL_MARK_def)

lemma data_cell_Some [simp]: "data_cell ct (Some bs) = bs"
  by (simp add: data_cell_def)

lemma cell_decode: "(if is_valid_marker (valid_cell c) then Some (data_cell t c) else None) = c"
  by (cases c) (simp_all add: valid_cell_marker)

text \<open>What a splitter promises: the cells have the width of their type.\<close>

definition splitter_ok :: "splitter \<Rightarrow> bool" where
  "splitter_ok S \<longleftrightarrow> length (column_types S) < 2 ^ 14
     \<and> (\<forall>ct \<in> set (column_types S). case byte_size ct of Some n \<Rightarrow> n < 2 ^ 32 | None \<Rightarrow> True)
     \<and> (\<forall>b parts k bs. split_row S b = Some parts \<and> k < length (column_types S) \<and> k < length parts \<and> parts ! k = Some bs \<longrightarrow>
          (case byte_size (column_types S ! k) of Some n \<Rightarrow> length bs = n | None \<Rightarrow> length bs < 2 ^ 32))"

lemma cell_at_Some:
  assumes "splitter_ok S" and "row_cells S v \<noteq> None" and "k < length (column_types S)" and "cell_at S v k = Some bs"
  shows "case byte_size (column_types S ! k) of Some n \<Rightarrow> length bs = n | None \<Rightarrow> length bs < 2 ^ 32"
proof (cases v)
  case None
  then show ?thesis using assms by (simp add: cell_at_def row_cells_def)
next
  case (Some b)
  then obtain parts where "split_row S b = Some parts" "length parts = length (column_types S)" "parts ! k = Some bs"
    using assms by (auto simp: cell_at_def row_cells_def split: option.splits if_splits)
  then show ?thesis using assms(1,3) unfolding splitter_ok_def by fastforce
qed

lemma data_cell_width:
  assumes "splitter_ok S" and "row_cells S v \<noteq> None" and "k < length (column_types S)"
  shows "case byte_size (column_types S ! k) of Some n \<Rightarrow> length (data_cell (column_types S ! k) (cell_at S v k)) = n
    | None \<Rightarrow> length (data_cell (column_types S ! k) (cell_at S v k)) < 2 ^ 32"
  using cell_at_Some [OF assms] by (cases "cell_at S v k")
    (auto simp: data_cell_def placeholder_bytes_def split: option.splits)

lemma data_cell_small:
  assumes "splitter_ok S" and "row_cells S v \<noteq> None" and "k < length (column_types S)"
  shows "length (data_cell (column_types S ! k) (cell_at S v k)) < 2 ^ 32"
proof -
  have "case byte_size (column_types S ! k) of Some n \<Rightarrow> n < 2 ^ 32 | None \<Rightarrow> True"
    using assms(1,3) by (auto simp: splitter_ok_def)
  then show ?thesis using data_cell_width [OF assms] by (auto split: option.splits)
qed

lemma columnar_fit:
  assumes S: "splitter_ok S" and c: "columnar_data_columns vals S = Some (cols, codecs)" and n: "length vals < 2 ^ 29"
    and i: "i < length cols"
  shows "column_fits (col_type (cols ! i)) (codecs ! i) (col_values (cols ! i))
    \<and> (\<forall>v \<in> set (col_values (cols ! i)). length v < 2 ^ 32) \<and> length (col_values (cols ! i)) = length vals"
proof -
  note cc = columnar_columns [OF c]
  define k where "k = i div 2"
  have k: "k < length (column_types S)" using i cc(2) by (simp add: k_def)
  consider "i = 2 * k" | "i = Suc (2 * k)" by (cases "even i") (auto simp: k_def elim: oddE)
  then show ?thesis
  proof cases
    case 1
    let ?ct = "column_types S ! k"
    have w: "case byte_size ?ct of Some n \<Rightarrow> length v = n | None \<Rightarrow> length v < 2 ^ 32"
      "length v < 2 ^ 32" if "v \<in> set (map (\<lambda>v. data_cell ?ct (cell_at S v k)) vals)" for v
      using that data_cell_width [OF S _ k] data_cell_small [OF S _ k] cc(1) by auto
    then show ?thesis using 1 cc(5,7) [OF k] n
      by (auto simp: column_fits_def for_column_type_def is_fixed_width_def split: codec_id.splits option.splits if_splits)
  next
    case 2
    have "length v < 2 ^ 32" if "v \<in> set (map (\<lambda>v. valid_cell (cell_at S v k)) vals)" for v
      using that by (auto simp: valid_cell_def split: option.splits)
    then show ?thesis using 2 cc(6,8) [OF k] n by (auto simp: column_fits_def)
  qed
qed

end
