(* ===== verification/Flush.thy ===== *)
theory Flush
  imports Sst Columnar Memtable
begin

text \<open>
  The flush pipeline of \<open>flush.rs\<close>: a sealed memtable becomes PAX blocks packed into SST
  files. The static block-id counter, from which the file names are drawn too, and the data
  directory are part of the state. \<open>io\<close> says which file writes fail and after how many bytes.
  Encryption is off (\<open>tde\<close> is \<open>None\<close>, as \<open>Engine::new\<close> leaves it), so \<open>encrypt_block_data\<close>
  returns its input. The data directory exists, so \<open>create_dir_all\<close> succeeds.
\<close>

section \<open>Splitting into blocks\<close>

record flush_config =
  sst_size_bytes :: u64
  max_rows_per_block :: nat

type_synonym row_entry = "bytes \<times> versioned_value"

definition entries_to_columns :: "row_entry list \<Rightarrow> column list" where
  "entries_to_columns es =
     [\<lparr>col_type = Blob, col_values = map fst es\<rparr>,
      \<lparr>col_type = Blob, col_values = map (\<lambda>(k, vv). case vvalue vv of Some v \<Rightarrow> v | None \<Rightarrow> []) es\<rparr>,
      \<lparr>col_type = Blob, col_values = map (\<lambda>(k, vv). to_le_bytes (timestamp vv)) es\<rparr>]"

definition ROW_TS_COLUMN :: nat where
  "ROW_TS_COLUMN = 2"

definition decode_row_ts :: "bytes \<Rightarrow> u64 option" where
  "decode_row_ts bs = (if length bs = 8 then Some (from_le_bytes bs) else None)"

definition reg_of :: "columnar_registration list \<Rightarrow> bytes \<Rightarrow> nat option" where
  "reg_of regs key = find (\<lambda>i. reg_matches (regs ! i) key) [0..<length regs]"

definition flush_entry_size :: "row_entry \<Rightarrow> u64" where
  "flush_entry_size e =
     word_of_nat (length (fst e)) + (case vvalue (snd e) of None \<Rightarrow> 0 | Some v \<Rightarrow> word_of_nat (length v)) + 16"

text \<open>The loop of \<open>split_into_blocks\<close>: \<open>cur\<close> is \<open>entries[start..i]\<close>.\<close>

fun split_loop ::
  "flush_config \<Rightarrow> columnar_registration list \<Rightarrow> row_entry list \<Rightarrow> u64 \<Rightarrow> row_entry list \<Rightarrow> row_entry list list" where
  "split_loop cfg regs cur current_size [] = (if cur \<noteq> [] then [cur] else [])"
| "split_loop cfg regs cur current_size (e # es) =
     (let current_size = current_size + flush_entry_size e;
          cur = cur @ [e];
          row_count = length cur;
          next_crosses_table = (es \<noteq> [] \<and> reg_of regs (fst (hd es)) \<noteq> reg_of regs (fst (hd cur)));
          should_split = ((current_size \<ge> sst_size_bytes cfg \<or> row_count \<ge> max_rows_per_block cfg) \<and> row_count > 0)
            \<or> next_crosses_table
      in if should_split \<and> es \<noteq> [] then cur # split_loop cfg regs [] 0 es
         else split_loop cfg regs cur current_size es)"

definition split_into_blocks :: "row_entry list \<Rightarrow> flush_config \<Rightarrow> columnar_registration list \<Rightarrow> row_entry list list" where
  "split_into_blocks es cfg regs = (if es = [] then [] else split_loop cfg regs [] 0 es)"

definition base_codecs :: "codec_id list" where
  "base_codecs = [Zstd, NoCodec, NoCodec]"

definition entries_to_columns_columnar :: "row_entry list \<Rightarrow> splitter \<Rightarrow> (column list \<times> codec_id list) option" where
  "entries_to_columns_columnar chunk S =
     (case columnar_data_columns (map (vvalue \<circ> snd) chunk) S of
        None \<Rightarrow> None
      | Some (data_cols, data_codecs) \<Rightarrow> Some (entries_to_columns chunk @ data_cols, base_codecs @ data_codecs))"

definition build_block_columns :: "row_entry list \<Rightarrow> columnar_registration list \<Rightarrow> column list \<times> codec_id list" where
  "build_block_columns chunk regs =
     (let legacy = (entries_to_columns chunk, base_codecs)
      in case chunk of
           [] \<Rightarrow> legacy
         | first # _ \<Rightarrow>
           (case registration_for regs (fst first) of
              None \<Rightarrow> legacy
            | Some reg \<Rightarrow>
              (case entries_to_columns_columnar chunk (cr_splitter reg) of
                 Some res \<Rightarrow> res
               | None \<Rightarrow> legacy)))"

section \<open>Writing the SST files\<close>

record sst_block_info =
  sst_index :: nat
  block_no :: u32
  info_rows :: nat

record flush_result =
  sst_paths :: "u64 list"
  block_ids :: "u64 list"
  rows_flushed :: nat
  bytes_written :: u64
  checkpoint_seq_no :: "u64 option"
  block_map :: "sst_block_info list"

text \<open>The locals of \<open>flush_memtable_inner\<close>, the block-id counter and the data directory.\<close>

record flush_state =
  fs_paths :: "u64 list"
  fs_ids :: "u64 list"
  fs_map :: "sst_block_info list"
  total_bytes :: u64
  cur_data :: bytes
  cur_index :: sst_block_index
  cur_count :: u32
  cur_sst :: nat
  next_block_id :: u64
  fdir :: sst_dir

type_synonym io_faults = "u64 \<Rightarrow> (galax_error \<times> nat) option"

definition write_sst :: "io_faults \<Rightarrow> flush_state \<Rightarrow> (galax_error + unit) \<times> flush_state" where
  "write_sst io st =
     (let data = cur_data st @ serialize_with_footer (cur_index st) (word_of_nat (length (cur_data st)));
          sst_id = next_block_id st;
          st = st\<lparr>next_block_id := sst_id + 1\<rparr>
      in case io sst_id of
           Some (e, k) \<Rightarrow> (Inl e, st\<lparr>fdir := io_write sst_id 0 (take k data) (fdir st)\<rparr>)
         | None \<Rightarrow> (Inr (), st\<lparr>fdir := io_write sst_id 0 data (fdir st),
                       total_bytes := total_bytes st + word_of_nat (length data), fs_paths := fs_paths st @ [sst_id]\<rparr>))"

definition reset_sst :: "flush_state \<Rightarrow> flush_state" where
  "reset_sst st = st\<lparr>cur_data := [], cur_index := new_block_index, cur_count := 0, cur_sst := cur_sst st + 1\<rparr>"

definition block_timestamp :: "u64 \<Rightarrow> row_entry list \<Rightarrow> u64" where
  "block_timestamp commit_ts chunk =
     (case map (timestamp \<circ> snd) chunk of [] \<Rightarrow> commit_ts | t # ts \<Rightarrow> fold max ts t)"

definition append_block :: "u64 \<Rightarrow> nat \<Rightarrow> bytes \<Rightarrow> flush_state \<Rightarrow> flush_state" where
  "append_block bid rows block_bytes st =
     st\<lparr>cur_index := add_block (word_of_nat (length (cur_data st))) (word_of_nat (length block_bytes)) (cur_index st),
        fs_map := fs_map st @ [\<lparr>sst_index = cur_sst st, block_no = cur_count st, info_rows = rows\<rparr>],
        cur_data := cur_data st @ block_bytes, fs_ids := fs_ids st @ [bid], cur_count := cur_count st + 1\<rparr>"

definition flush_chunk ::
  "(bytes \<Rightarrow> u64) \<Rightarrow> zstd_lib \<Rightarrow> io_faults \<Rightarrow> flush_config \<Rightarrow> u64 \<Rightarrow> columnar_registration list \<Rightarrow> row_entry list
   \<Rightarrow> flush_state \<Rightarrow> ((galax_error + unit) \<times> flush_state) option" where
  "flush_chunk h Z io cfg commit_ts regs chunk st0 =
     (let bid = next_block_id st0;
          st = st0\<lparr>next_block_id := bid + 1\<rparr>;
          (columns, codecs) = build_block_columns chunk regs
      in case write_with_codecs h Z bid (block_timestamp commit_ts chunk) columns codecs of
           None \<Rightarrow> None
         | Some (Inl e) \<Rightarrow> Some (Inl e, st)
         | Some (Inr block) \<Rightarrow>
           (let st = append_block bid (length chunk) (pax_serialize block) st
            in if word_of_nat (length (cur_data st)) \<ge> sst_size_bytes cfg
               then case write_sst io st of
                      (Inl e, st) \<Rightarrow> Some (Inl e, st)
                    | (Inr _, st) \<Rightarrow> Some (Inr (), reset_sst st)
               else Some (Inr (), st)))"

fun flush_chunks ::
  "(bytes \<Rightarrow> u64) \<Rightarrow> zstd_lib \<Rightarrow> io_faults \<Rightarrow> flush_config \<Rightarrow> u64 \<Rightarrow> columnar_registration list \<Rightarrow> row_entry list list
   \<Rightarrow> flush_state \<Rightarrow> ((galax_error + unit) \<times> flush_state) option" where
  "flush_chunks h Z io cfg commit_ts regs [] st = Some (Inr (), st)"
| "flush_chunks h Z io cfg commit_ts regs (c # cs) st =
     (case flush_chunk h Z io cfg commit_ts regs c st of
        None \<Rightarrow> None
      | Some (Inl e, st) \<Rightarrow> Some (Inl e, st)
      | Some (Inr _, st) \<Rightarrow> flush_chunks h Z io cfg commit_ts regs cs st)"

definition flush_init :: "u64 \<Rightarrow> sst_dir \<Rightarrow> flush_state" where
  "flush_init next_id d =
     \<lparr>fs_paths = [], fs_ids = [], fs_map = [], total_bytes = 0, cur_data = [], cur_index = new_block_index,
      cur_count = 0, cur_sst = 0, next_block_id = next_id, fdir = d\<rparr>"

definition result_of :: "nat \<Rightarrow> flush_state \<Rightarrow> flush_result" where
  "result_of rows st =
     \<lparr>sst_paths = fs_paths st, block_ids = fs_ids st, rows_flushed = rows, bytes_written = total_bytes st,
      checkpoint_seq_no = None, block_map = fs_map st\<rparr>"

definition flush_memtable ::
  "(bytes \<Rightarrow> u64) \<Rightarrow> zstd_lib \<Rightarrow> io_faults \<Rightarrow> memtable \<Rightarrow> flush_config \<Rightarrow> u64 \<Rightarrow> columnar_registration list
   \<Rightarrow> u64 \<Rightarrow> sst_dir \<Rightarrow> ((galax_error + flush_result) \<times> u64 \<times> sst_dir) option" where
  "flush_memtable h Z io mt cfg commit_ts regs next_id d =
     (let es = iter_all mt
      in if es = [] then Some (Inr (result_of 0 (flush_init next_id d)), next_id, d)
         else
           case flush_chunks h Z io cfg commit_ts regs (split_into_blocks es cfg regs) (flush_init next_id d) of
             None \<Rightarrow> None
           | Some (Inl e, st) \<Rightarrow> Some (Inl e, next_block_id st, fdir st)
           | Some (Inr _, st) \<Rightarrow>
             (if cur_data st = [] then Some (Inr (result_of (length es) st), next_block_id st, fdir st)
              else case write_sst io st of
                     (Inl e, st) \<Rightarrow> Some (Inl e, next_block_id st, fdir st)
                   | (Inr _, st) \<Rightarrow> Some (Inr (result_of (length es) st), next_block_id st, fdir st)))"

section \<open>The blocks partition the rows\<close>

lemma split_loop_concat: "concat (split_loop cfg regs cur sz es) = cur @ es"
  by (induction es arbitrary: cur sz) (auto simp: Let_def)

lemma split_loop_nonempty: "c \<in> set (split_loop cfg regs cur sz es) \<Longrightarrow> c \<noteq> []"
  by (induction es arbitrary: cur sz) (auto simp: Let_def split: if_splits)

lemma split_loop_rows:
  "0 < max_rows_per_block cfg \<Longrightarrow> length cur < max_rows_per_block cfg \<Longrightarrow>
     c \<in> set (split_loop cfg regs cur sz es) \<Longrightarrow> length c \<le> max_rows_per_block cfg"
proof (induction es arbitrary: cur sz)
  case (Cons e es)
  show ?case
  proof (cases "es = []")
    case True
    then show ?thesis using Cons.prems by (auto simp: Let_def)
  next
    case False
    then show ?thesis using Cons.prems Cons.IH [of "[]"] Cons.IH [of "cur @ [e]"]
      by (auto simp: Let_def not_le split: if_splits)
  qed
qed (auto split: if_splits)

definition one_table :: "columnar_registration list \<Rightarrow> row_entry list \<Rightarrow> bool" where
  "one_table regs c \<longleftrightarrow> (\<forall>x \<in> set c. reg_of regs (fst x) = reg_of regs (fst (hd c)))"

lemma split_loop_one_table:
  "one_table regs cur \<Longrightarrow> cur \<noteq> [] \<and> es \<noteq> [] \<longrightarrow> reg_of regs (fst (hd es)) = reg_of regs (fst (hd cur)) \<Longrightarrow>
     c \<in> set (split_loop cfg regs cur sz es) \<Longrightarrow> one_table regs c"
proof (induction es arbitrary: cur sz)
  case (Cons e es)
  have ot: "one_table regs (cur @ [e])" "one_table regs []"
    using Cons.prems(1,2) by (cases cur; auto simp: one_table_def)+
  show ?case
    using Cons.prems(3) Cons.IH [OF ot(1)] Cons.IH [OF ot(2)] ot(1) by (auto simp: Let_def split: if_splits)
qed (auto split: if_splits)

text \<open>
  The blocks of a flush partition its rows: concatenated they are the entries of the
  memtable in order, none is empty, none has more rows than the configured maximum, and the
  rows of a block belong to one table, so that they share one column layout.
\<close>

theorem split_partition:
  "concat (split_into_blocks es cfg regs) = es
   \<and> (\<forall>c \<in> set (split_into_blocks es cfg regs). c \<noteq> []
        \<and> (0 < max_rows_per_block cfg \<longrightarrow> length c \<le> max_rows_per_block cfg) \<and> one_table regs c)"
  using split_loop_nonempty split_loop_rows [where cur = "[]"] split_loop_one_table [where cur = "[]"]
  by (auto simp: split_into_blocks_def split_loop_concat one_table_def [of _ "[]"] split: if_splits)

theorem split_partition_witness:
  "\<forall>c \<in> set (split_into_blocks [([1], VersionedValue 1 (Some [9]) None), ([2], VersionedValue 2 None None)]
       \<lparr>sst_size_bytes = 100, max_rows_per_block = 1\<rparr> []). length c \<le> 1"
  using split_partition [of "[([1], VersionedValue 1 (Some [9]) None), ([2], VersionedValue 2 None None)]"
      "\<lparr>sst_size_bytes = 100, max_rows_per_block = 1\<rparr>" "[]"] by simp

lemma split_facts:
  "concat (split_into_blocks es cfg regs) = es" "c \<in> set (split_into_blocks es cfg regs) \<Longrightarrow> c \<noteq> []"
  using split_loop_nonempty by (auto simp: split_into_blocks_def split_loop_concat split: if_splits)

lemma length_chunks: "length (split_into_blocks es cfg regs) \<le> length es"
proof -
  have "\<forall>c \<in> set cs. c \<noteq> [] \<Longrightarrow> length cs \<le> length (concat cs)" for cs :: "row_entry list list"
    by (induction cs) (auto simp: Suc_le_eq add_pos_nonneg intro!: add_le_mono [of 1, simplified])
  then show ?thesis using split_facts(1) [of es cfg regs] split_facts(2) [of _ es cfg regs] by metis
qed

section \<open>A block reads back\<close>

definition row_value :: "row_entry \<Rightarrow> bytes" where
  "row_value e = (case vvalue (snd e) of Some v \<Rightarrow> v | None \<Rightarrow> [])"

lemma entries_to_columns_alt:
  "entries_to_columns es = [\<lparr>col_type = Blob, col_values = map fst es\<rparr>, \<lparr>col_type = Blob, col_values = map row_value es\<rparr>,
     \<lparr>col_type = Blob, col_values = map (\<lambda>e. to_le_bytes (timestamp (snd e))) es\<rparr>]"
  by (auto simp: entries_to_columns_def row_value_def)

text \<open>Rows of a size the format can hold; the splitters keep their promise.\<close>

definition rows_fit :: "row_entry list \<Rightarrow> bool" where
  "rows_fit es \<longleftrightarrow> length es < 2 ^ 29 \<and> (\<forall>e \<in> set es. length (fst e) < 2 ^ 32 \<and> length (row_value e) < 2 ^ 32)"

definition regs_ok :: "columnar_registration list \<Rightarrow> bool" where
  "regs_ok regs \<longleftrightarrow> (\<forall>r \<in> set regs. splitter_ok (cr_splitter r))"

lemma build_cases:
  assumes "regs_ok regs"
  obtains "build_block_columns chunk regs = (entries_to_columns chunk, base_codecs)"
  | S cols codecs where "splitter_ok S" "columnar_data_columns (map (vvalue \<circ> snd) chunk) S = Some (cols, codecs)"
    "build_block_columns chunk regs = (entries_to_columns chunk @ cols, base_codecs @ codecs)"
proof (cases chunk)
  case Nil
  then show ?thesis using that(1) by (simp add: build_block_columns_def)
next
  case (Cons e es)
  show ?thesis
  proof (cases "registration_for regs (fst e)")
    case None
    then show ?thesis using that(1) Cons by (simp add: build_block_columns_def)
  next
    case (Some r)
    then have S: "splitter_ok (cr_splitter r)"
      using assms by (auto simp: regs_ok_def registration_for_def find_Some_iff)
    show ?thesis
    proof (cases "columnar_data_columns (map (vvalue \<circ> snd) chunk) (cr_splitter r)")
      case None
      then show ?thesis
        using Some that(1) Cons by (simp add: build_block_columns_def entries_to_columns_columnar_def)
    next
      case (Some p)
      then show ?thesis
        using \<open>registration_for regs (fst e) = Some r\<close> that(2) [OF S, of "fst p" "snd p"] Cons
        by (simp add: build_block_columns_def entries_to_columns_columnar_def split: prod.splits)
    qed
  qed
qed

lemma base_fit:
  assumes "rows_fit chunk" and "i < 3"
  shows "column_fits (col_type (entries_to_columns chunk ! i)) (base_codecs ! i) (col_values (entries_to_columns chunk ! i))
    \<and> (\<forall>v \<in> set (col_values (entries_to_columns chunk ! i)). length v < 2 ^ 32)
    \<and> length (col_values (entries_to_columns chunk ! i)) = length chunk"
proof -
  consider "i = 0" | "i = 1" | "i = 2" using assms(2) by linarith
  then show ?thesis
    using assms(1) by cases (auto simp: entries_to_columns_alt base_codecs_def column_fits_def rows_fit_def)
qed

lemma length_base [simp]: "length (entries_to_columns es) = 3" "length base_codecs = 3"
  by (simp_all add: entries_to_columns_def base_codecs_def)

lemma columns_fitI:
  assumes "length codecs = length cols" "length cols < 2 ^ 16"
    and "\<And>i. i < length cols \<Longrightarrow> column_fits (col_type (cols ! i)) (codecs ! i) (col_values (cols ! i))
      \<and> (\<forall>v \<in> set (col_values (cols ! i)). length v < 2 ^ 32)"
  shows "columns_fit cols codecs"
  using assms by (auto simp: columns_fit_def set_zip)

lemma build_fit:
  assumes "regs_ok regs" and rf: "rows_fit chunk" and b: "build_block_columns chunk regs = (cols, codecs)"
  shows "columns_fit cols codecs" "length codecs = length cols" "\<forall>c \<in> set cols. length (col_values c) = length chunk"
    "3 \<le> length cols" "take 3 cols = entries_to_columns chunk" "take 3 codecs = base_codecs"
proof -
  have "length codecs = length cols \<and> length cols < 2 ^ 16 \<and> 3 \<le> length cols
    \<and> (\<forall>i < length cols. column_fits (col_type (cols ! i)) (codecs ! i) (col_values (cols ! i))
         \<and> (\<forall>v \<in> set (col_values (cols ! i)). length v < 2 ^ 32) \<and> length (col_values (cols ! i)) = length chunk)
    \<and> take 3 cols = entries_to_columns chunk \<and> take 3 codecs = base_codecs"
  proof (cases rule: build_cases [OF assms(1), of chunk])
    case 1
    then show ?thesis using base_fit [OF rf] b by simp
  next
    case (2 S dcols dcodecs)
    have n: "length (map (vvalue \<circ> snd) chunk) < 2 ^ 29" using rf by (simp add: rows_fit_def)
    note cc = columnar_columns(2,3) [OF 2(2)]
    have eq: "cols = entries_to_columns chunk @ dcols" "codecs = base_codecs @ dcodecs" using 2(3) b by auto
    have "column_fits (col_type (cols ! i)) (codecs ! i) (col_values (cols ! i))
         \<and> (\<forall>v \<in> set (col_values (cols ! i)). length v < 2 ^ 32) \<and> length (col_values (cols ! i)) = length chunk"
      if "i < length cols" for i
      using that base_fit [OF rf, of i] columnar_fit [OF 2(1,2) n, of "i - 3"]
      by (cases "i < 3") (auto simp: eq nth_append)
    then show ?thesis using cc 2(1) by (auto simp: eq splitter_ok_def)
  qed
  then show "columns_fit cols codecs" "length codecs = length cols" "\<forall>c \<in> set cols. length (col_values c) = length chunk"
    "3 \<le> length cols" "take 3 cols = entries_to_columns chunk" "take 3 codecs = base_codecs"
    by (auto intro: columns_fitI simp: in_set_conv_nth)
qed

definition block_image ::
  "(bytes \<Rightarrow> u64) \<Rightarrow> zstd_lib \<Rightarrow> columnar_registration list \<Rightarrow> row_entry list \<Rightarrow> bytes \<Rightarrow> bool" where
  "block_image h Z regs chunk bs \<longleftrightarrow>
     (\<exists>bid ts b. write_with_codecs h Z bid ts (fst (build_block_columns chunk regs)) (snd (build_block_columns chunk regs))
          = Some (Inr b) \<and> bs = pax_serialize b)"

lemma block_image_nonempty: "block_image h Z regs chunk bs \<Longrightarrow> bs \<noteq> []"
  by (auto simp: block_image_def pax_serialize_def serialize_header_def)

lemma block_image_value:
  assumes "block_image h Z regs chunk bs" and "regs_ok regs" "rows_fit chunk" "zstd_ok Z" and "length bs < 2 ^ 32"
    and r: "r < length chunk"
  shows "read_value_from_raw_block h Z bs 1 (word_of_nat r) = Some (Inr (row_value (chunk ! r)))"
proof -
  obtain cols codecs where b: "build_block_columns chunk regs = (cols, codecs)" by (cases "build_block_columns chunk regs")
  note bf = build_fit [OF assms(2,3) b]
  have "cols ! 1 = entries_to_columns chunk ! 1" "codecs ! 1 = base_codecs ! 1"
    using nth_take [of 1 3 cols] nth_take [of 1 3 codecs] bf(5,6) by auto
  then have c: "col_values (cols ! 1) = map row_value chunk" "codecs ! 1 = NoCodec"
    by (simp_all add: entries_to_columns_alt base_codecs_def)
  obtain bid ts blk where w: "write_with_codecs h Z bid ts cols codecs = Some (Inr blk)" "bs = pax_serialize blk"
    using assms(1) b by (auto simp: block_image_def)
  show ?thesis
    using raw_value_written [OF w(1) bf(1) _ assms(4) _ c(2), of r] w(2) assms(5) bf(4) r c(1) by simp
qed

section \<open>The files hold the blocks\<close>

text \<open>An SST under construction is its data and its index; a block of it is located by the index.\<close>

type_synonym sst_image = "bytes \<times> sst_block_index"

definition holds_block :: "sst_image \<Rightarrow> nat \<Rightarrow> bytes \<Rightarrow> bool" where
  "holds_block x b bs \<longleftrightarrow> b < length (entries (snd x))
     \<and> (let en = entries (snd x) ! b; off = unat (file_offset en)
        in unat (block_len en) = length bs \<and> off + length bs \<le> length (fst x) \<and> take (length bs) (drop off (fst x)) = bs)"

definition file_of :: "sst_image \<Rightarrow> bytes" where
  "file_of x = fst x @ serialize_with_footer (snd x) (word_of_nat (length (fst x)))"

definition image_fits :: "nat \<Rightarrow> sst_image \<Rightarrow> bool" where
  "image_fits n x \<longleftrightarrow> length (entries (snd x)) \<le> n \<and> length (fst x) \<le> length (entries (snd x)) * 2 ^ 32"

lemma holds_block_grow:
  assumes "holds_block (data, idx) b bs"
  shows "holds_block (data @ suf, add_block off len idx) b bs"
  using assms by (auto simp: holds_block_def add_block_def nth_append Let_def)

lemma holds_block_new:
  assumes "length data < 2 ^ 64" and "length bs < 2 ^ 32"
  shows "holds_block (data @ bs, add_block (word_of_nat (length data)) (word_of_nat (length bs)) idx) (length (entries idx)) bs"
  using assms by (simp add: holds_block_def add_block_def Let_def unat_of_nat_small)

lemma image_fits_size:
  assumes "image_fits n x" and "n < 2 ^ 31"
  shows "length (fst x) < 2 ^ 63" "length (entries (snd x)) < 2 ^ 31"
    "length (fst x) + 12 * length (entries (snd x)) + 22 < 2 ^ 64"
proof -
  have e: "length (entries (snd x)) < 2 ^ 31" using assms by (simp add: image_fits_def)
  then have "length (entries (snd x)) \<le> 2 ^ 31 - 1" by simp
  then have "length (entries (snd x)) * 2 ^ 32 \<le> (2 ^ 31 - 1) * 2 ^ 32" by (rule mult_le_mono1)
  then have "length (fst x) \<le> (2 ^ 31 - 1) * 2 ^ 32" using assms(1) by (simp add: image_fits_def)
  then show "length (fst x) < 2 ^ 63" "length (entries (snd x)) < 2 ^ 31"
    "length (fst x) + 12 * length (entries (snd x)) + 22 < 2 ^ 64" using e by simp_all
qed

text \<open>The invariant of the flush loop after the chunks \<open>done\<close>: \<open>files\<close> are the images of the
  files written so far. The names are drawn in order, from \<open>n0\<close> on.\<close>

definition row_located ::
  "(bytes \<Rightarrow> u64) \<Rightarrow> zstd_lib \<Rightarrow> columnar_registration list \<Rightarrow> sst_image list \<Rightarrow> row_entry list \<Rightarrow> sst_block_info \<Rightarrow> bool" where
  "row_located h Z regs images chunk info \<longleftrightarrow>
     info_rows info = length chunk \<and> sst_index info < length images
     \<and> (\<exists>bs. block_image h Z regs chunk bs \<and> length bs < 2 ^ 32
          \<and> holds_block (images ! sst_index info) (unat (block_no info)) bs)"

text \<open>The blocks of an image are those of the chunks of a group, in order.\<close>

definition image_blocks ::
  "(bytes \<Rightarrow> u64) \<Rightarrow> zstd_lib \<Rightarrow> columnar_registration list \<Rightarrow> sst_image \<Rightarrow> row_entry list list \<Rightarrow> bool" where
  "image_blocks h Z regs x grp \<longleftrightarrow> length (entries (snd x)) = length grp
     \<and> (\<forall>b < length grp. \<exists>bs. block_image h Z regs (grp ! b) bs \<and> length bs < 2 ^ 32 \<and> holds_block x b bs)"

definition grouped ::
  "(bytes \<Rightarrow> u64) \<Rightarrow> zstd_lib \<Rightarrow> columnar_registration list \<Rightarrow> sst_image list \<Rightarrow> row_entry list list \<Rightarrow> bool" where
  "grouped h Z regs images chunks \<longleftrightarrow>
     (\<exists>groups. concat groups = chunks \<and> list_all2 (image_blocks h Z regs) images groups)"

definition flush_inv ::
  "(bytes \<Rightarrow> u64) \<Rightarrow> zstd_lib \<Rightarrow> columnar_registration list \<Rightarrow> u64 \<Rightarrow> sst_dir \<Rightarrow> row_entry list list
   \<Rightarrow> sst_image list \<Rightarrow> flush_state \<Rightarrow> bool" where
  "flush_inv h Z regs n0 d0 done files st \<longleftrightarrow>
     length (fs_paths st) = length files \<and> cur_sst st = length files
     \<and> cur_count st = word_of_nat (length (entries (cur_index st)))
     \<and> (\<forall>i < length files. fdir st (fs_paths st ! i) = Some (file_of (files ! i)))
     \<and> (\<forall>x \<in> set (files @ [(cur_data st, cur_index st)]). image_fits (length done) x)
     \<and> unat (next_block_id st) = unat n0 + length done + length files
     \<and> length files + length (entries (cur_index st)) \<le> length done
     \<and> sorted_wrt (<) (fs_paths st) \<and> (\<forall>p \<in> set (fs_paths st). n0 \<le> p \<and> p < next_block_id st)
     \<and> (\<forall>p. p < n0 \<or> next_block_id st \<le> p \<longrightarrow> fdir st p = d0 p)
     \<and> length (fs_map st) = length done
     \<and> (\<forall>j < length done. row_located h Z regs (files @ [(cur_data st, cur_index st)]) (done ! j) (fs_map st ! j))
     \<and> grouped h Z regs (files @ [(cur_data st, cur_index st)]) done"

lemma grouped_empty: "grouped h Z regs [([], new_block_index)] []"
  by (auto simp: grouped_def image_blocks_def new_block_index_def intro!: exI [of _ "[[]]"])

lemma grouped_next: "grouped h Z regs images chunks \<Longrightarrow> grouped h Z regs (images @ [([], new_block_index)]) chunks"
  unfolding grouped_def
  by (elim exE conjE, rule_tac x = "groups @ [[]]" in exI) (auto simp: image_blocks_def new_block_index_def list_all2_appendI)

lemma grouped_last:
  assumes "grouped h Z regs (files @ [x]) chunks" and "fst x = []"
  shows "grouped h Z regs files chunks"
proof -
  obtain groups where g: "concat groups = chunks" "list_all2 (image_blocks h Z regs) (files @ [x]) groups"
    using assms(1) by (auto simp: grouped_def)
  then obtain gs l where gs: "groups = gs @ [l]" "list_all2 (image_blocks h Z regs) files gs" "image_blocks h Z regs x l"
    by (auto simp: list_all2_append1 list_all2_Cons1)
  have "l = []"
  proof (rule ccontr)
    assume "l \<noteq> []"
    then obtain bs where "block_image h Z regs (l ! 0) bs" "holds_block x 0 bs" using gs(3) by (auto simp: image_blocks_def)
    then show False using block_image_nonempty [of h Z regs "l ! 0" bs] assms(2) by (auto simp: holds_block_def Let_def)
  qed
  then show ?thesis using g gs by (auto simp: grouped_def)
qed

lemma grouped_append:
  assumes "grouped h Z regs (files @ [(data, idx)]) chunks" and img: "block_image h Z regs chunk bs"
    and small: "length data < 2 ^ 64" "length bs < 2 ^ 32"
  shows "grouped h Z regs (files @ [(data @ bs, add_block (word_of_nat (length data)) (word_of_nat (length bs)) idx)]) (chunks @ [chunk])"
proof -
  let ?x = "(data @ bs, add_block (word_of_nat (length data)) (word_of_nat (length bs)) idx)"
  obtain groups where g: "concat groups = chunks" "list_all2 (image_blocks h Z regs) (files @ [(data, idx)]) groups"
    using assms(1) by (auto simp: grouped_def)
  then obtain gs l where gs: "groups = gs @ [l]" "list_all2 (image_blocks h Z regs) files gs" "image_blocks h Z regs (data, idx) l"
    by (auto simp: list_all2_append1 list_all2_Cons1)
  have len: "length (entries idx) = length l" using gs(3) by (simp add: image_blocks_def)
  have "\<exists>bs'. block_image h Z regs ((l @ [chunk]) ! b) bs' \<and> length bs' < 2 ^ 32 \<and> holds_block ?x b bs'"
    if b: "b < Suc (length l)" for b
  proof (cases "b = length l")
    case True
    then show ?thesis using img small holds_block_new [OF small, of idx] len by auto
  next
    case False
    then obtain bs' where "block_image h Z regs (l ! b) bs'" "length bs' < 2 ^ 32" "holds_block (data, idx) b bs'"
      using gs(3) b by (auto simp: image_blocks_def less_Suc_eq)
    then show ?thesis using False b by (auto simp: nth_append intro: holds_block_grow)
  qed
  then have "image_blocks h Z regs ?x (l @ [chunk])" using len by (simp add: image_blocks_def add_block_def)
  then show ?thesis
    unfolding grouped_def using g gs by (intro exI [of _ "gs @ [l @ [chunk]]"]) (simp add: list_all2_appendI)
qed

lemma row_located_mono:
  assumes "row_located h Z regs images chunk info" and "length images \<le> length images'"
    and "\<And>b bs. holds_block (images ! sst_index info) b bs \<Longrightarrow> holds_block (images' ! sst_index info) b bs"
  shows "row_located h Z regs images' chunk info"
  using assms by (auto simp: row_located_def)

lemma flush_inv_init:
  "flush_inv h Z regs n0 d0 [] [] (flush_init n0 d0)"
  using grouped_empty by (simp add: flush_inv_def flush_init_def image_fits_def new_block_index_def)

lemma unat_Suc_small: "unat w + 1 < 2 ^ LENGTH('a) \<Longrightarrow> unat (w + 1) = unat w + 1" for w :: "'a::len word"
  using unat_add_lem [of w 1] by simp

lemma append_block_inv:
  assumes inv: "flush_inv h Z regs n0 d0 done files st" and img: "block_image h Z regs chunk bs"
    and small: "length bs < 2 ^ 32" and n: "length done < 2 ^ 30" "unat n0 < 2 ^ 63"
  shows "flush_inv h Z regs n0 d0 (done @ [chunk]) files
    (append_block bid (length chunk) bs (st\<lparr>next_block_id := next_block_id st + 1\<rparr>))"
proof -
  let ?cur = "(cur_data st, cur_index st)"
  let ?cur' = "(cur_data st @ bs, add_block (word_of_nat (length (cur_data st))) (word_of_nat (length bs)) (cur_index st))"
  have cf: "image_fits (length done) ?cur" using inv by (simp add: flush_inv_def)
  have sz: "length (cur_data st) < 2 ^ 63" "length (entries (cur_index st)) < 2 ^ 31"
    using image_fits_size [OF cf] n by simp_all
  have nx: "unat (next_block_id st + 1) = unat n0 + length done + length files + 1"
    using inv n by (subst unat_Suc_small) (auto simp: flush_inv_def)
  have lt: "next_block_id st < next_block_id st + 1"
    using inv nx by (simp add: word_less_nat_alt flush_inv_def)
  have old: "row_located h Z regs (files @ [?cur']) (done ! j) (fs_map st ! j)" if "j < length done" for j
  proof (rule row_located_mono)
    show "row_located h Z regs (files @ [?cur]) (done ! j) (fs_map st ! j)" using inv that by (simp add: flush_inv_def)
    show "holds_block ((files @ [?cur']) ! sst_index (fs_map st ! j)) b bs'"
      if "holds_block ((files @ [?cur]) ! sst_index (fs_map st ! j)) b bs'" for b bs'
    proof (cases "sst_index (fs_map st ! j) = length files")
      case True
      then show ?thesis using that by (simp add: holds_block_grow)
    next
      case False
      have "sst_index (fs_map st ! j) < Suc (length files)"
        using inv \<open>j < length done\<close> by (auto simp: flush_inv_def row_located_def)
      then show ?thesis using that False by (simp add: nth_append)
    qed
  qed simp
  have new: "row_located h Z regs (files @ [?cur']) chunk
      \<lparr>sst_index = cur_sst st, block_no = cur_count st, info_rows = length chunk\<rparr>"
    using inv img small sz holds_block_new [of "cur_data st" bs "cur_index st"]
    by (auto simp: row_located_def flush_inv_def unat_of_nat_small)
  have "image_fits (length done + 1) ?cur'"
    using cf small by (simp add: image_fits_def add_block_def)
  moreover have "image_fits (length done + 1) x" if "x \<in> set files" for x
    using inv that by (auto simp: flush_inv_def image_fits_def)
  moreover have "j < length done + 1 \<Longrightarrow> row_located h Z regs (files @ [?cur']) ((done @ [chunk]) ! j)
      ((fs_map st @ [\<lparr>sst_index = cur_sst st, block_no = cur_count st, info_rows = length chunk\<rparr>]) ! j)" for j
    using old [of j] new inv by (auto simp: nth_append flush_inv_def less_Suc_eq)
  moreover have "grouped h Z regs (files @ [?cur']) (done @ [chunk])"
    using inv sz by (intro grouped_append [OF _ img _ small]) (auto simp: flush_inv_def)
  ultimately show ?thesis
    using inv nx lt by (auto simp: flush_inv_def append_block_def add_block_def)
qed

lemma write_at_empty [simp]: "write_at 0 data [] = data"
  by (simp add: write_at_def)

lemma write_sst_inv:
  assumes inv: "flush_inv h Z regs n0 d0 done files st" and ne: "cur_data st \<noteq> []" and ok: "io (next_block_id st) = None"
    and n: "length done < 2 ^ 30" "unat n0 < 2 ^ 63" and fresh: "\<forall>p. n0 \<le> p \<longrightarrow> d0 p = None"
  shows "\<exists>st'. write_sst io st = (Inr (), st') \<and> fs_map st' = fs_map st \<and> fs_paths st' = fs_paths st @ [next_block_id st]
    \<and> next_block_id st' = next_block_id st + 1
    \<and> flush_inv h Z regs n0 d0 done (files @ [(cur_data st, cur_index st)]) (reset_sst st')"
proof -
  let ?p = "next_block_id st" and ?cur = "(cur_data st, cur_index st)"
  define st' where "st' = st\<lparr>next_block_id := ?p + 1, fdir := io_write ?p 0 (file_of ?cur) (fdir st),
    total_bytes := total_bytes st + word_of_nat (length (file_of ?cur)), fs_paths := fs_paths st @ [?p]\<rparr>"
  have w: "write_sst io st = (Inr (), st')" by (simp add: write_sst_def ok Let_def st'_def file_of_def)
  have "image_fits (length done) ?cur" using inv by (simp add: flush_inv_def)
  then have "0 < length (entries (cur_index st))" using ne by (auto simp: image_fits_def)
  moreover have "length files + length (entries (cur_index st)) \<le> length done" using inv by (simp add: flush_inv_def)
  ultimately have e: "Suc (length files) \<le> length done" by linarith
  have nx: "unat (?p + 1) = unat n0 + length done + length files + 1"
    using inv n by (subst unat_Suc_small) (auto simp: flush_inv_def)
  have lt: "?p < ?p + 1" using inv nx by (simp add: word_less_nat_alt flush_inv_def)
  have ge: "n0 \<le> ?p" using inv by (simp add: word_le_nat_alt flush_inv_def)
  have below: "\<forall>q \<in> set (fs_paths st). n0 \<le> q \<and> q < ?p" using inv by (simp add: flush_inv_def)
  have "fdir st ?p = None" using inv fresh ge by (simp add: flush_inv_def)
  then have dir: "fdir st' = (fdir st)(?p \<mapsto> file_of ?cur)" by (simp add: st'_def io_write_def)
  have files: "fdir st' ((fs_paths st @ [?p]) ! i) = Some (file_of ((files @ [?cur]) ! i))" if "i < length files + 1" for i
  proof (cases "i = length files")
    case True
    then show ?thesis using inv by (simp add: flush_inv_def dir nth_append)
  next
    case False
    then have "fs_paths st ! i \<in> set (fs_paths st)" using that inv by (simp add: flush_inv_def)
    then have "fs_paths st ! i \<noteq> ?p" using below by fastforce
    then show ?thesis using that False inv by (simp add: flush_inv_def dir nth_append)
  qed
  have "row_located h Z regs ((files @ [?cur]) @ [([], new_block_index)]) (done ! j) (fs_map st ! j)"
    if "j < length done" for j
  proof (rule row_located_mono)
    show rl: "row_located h Z regs (files @ [?cur]) (done ! j) (fs_map st ! j)" using inv that by (simp add: flush_inv_def)
    then have "sst_index (fs_map st ! j) < length (files @ [?cur])" by (simp add: row_located_def)
    then show "holds_block (((files @ [?cur]) @ [([], new_block_index)]) ! sst_index (fs_map st ! j)) b bs"
      if "holds_block ((files @ [?cur]) ! sst_index (fs_map st ! j)) b bs" for b bs
      using that by (simp only: nth_append if_True)
  qed simp
  moreover have "\<forall>q. q < n0 \<or> ?p + 1 \<le> q \<longrightarrow> fdir st' q = d0 q"
    using inv lt ge by (auto simp: dir flush_inv_def)
  moreover have "grouped h Z regs ((files @ [?cur]) @ [([], new_block_index)]) done"
    using inv by (intro grouped_next) (simp add: flush_inv_def)
  ultimately have "flush_inv h Z regs n0 d0 done (files @ [?cur]) (reset_sst st')"
    using inv nx lt ge below e files
    by (auto simp: flush_inv_def reset_sst_def st'_def new_block_index_def image_fits_def sorted_wrt_append)
  then show ?thesis using w by (auto simp: st'_def)
qed

lemma flush_chunk_inv:
  assumes inv: "flush_inv h Z regs n0 d0 done files st" and ok: "\<forall>p. io p = None"
    and Z: "\<forall>raw. encode_all Z raw \<noteq> None" and chunk: "chunk \<noteq> []" "rows_fit chunk" "regs_ok regs"
    and small: "\<forall>bs. block_image h Z regs chunk bs \<longrightarrow> length bs < 2 ^ 32"
    and n: "length done < 2 ^ 29" "unat n0 < 2 ^ 63" and fresh: "\<forall>p. n0 \<le> p \<longrightarrow> d0 p = None"
  shows "\<exists>st' files'. flush_chunk h Z io cfg ts regs chunk st = Some (Inr (), st')
    \<and> flush_inv h Z regs n0 d0 (done @ [chunk]) files' st'"
proof -
  obtain cols codecs where b: "build_block_columns chunk regs = (cols, codecs)" by (cases "build_block_columns chunk regs")
  note bf = build_fit [OF chunk(3,2) b]
  have "cols \<noteq> []" using bf(4) by auto
  from write_total [OF this bf(2,3,1) Z] obtain blk where
    w: "write_with_codecs h Z (next_block_id st) (block_timestamp ts chunk) cols codecs = Some (Inr blk)" by blast
  then have img: "block_image h Z regs chunk (pax_serialize blk)" using b by (auto simp: block_image_def)
  define st1 where "st1 = append_block (next_block_id st) (length chunk) (pax_serialize blk)
    (st\<lparr>next_block_id := next_block_id st + 1\<rparr>)"
  have inv1: "flush_inv h Z regs n0 d0 (done @ [chunk]) files st1"
    unfolding st1_def using append_block_inv [OF inv img] small img n by simp
  have ne: "cur_data st1 \<noteq> []" using block_image_nonempty [OF img] by (simp add: st1_def append_block_def)
  show ?thesis
  proof (cases "word_of_nat (length (cur_data st1)) \<ge> sst_size_bytes cfg")
    case False
    then show ?thesis using inv1 w b by (auto simp: flush_chunk_def Let_def st1_def)
  next
    case True
    from write_sst_inv [OF inv1 ne _ _ n(2) fresh, of io] ok n(1) obtain st2 where st2: "write_sst io st1 = (Inr (), st2)"
      "flush_inv h Z regs n0 d0 (done @ [chunk]) (files @ [(cur_data st1, cur_index st1)]) (reset_sst st2)" by auto
    then show ?thesis using w b True by (auto simp: flush_chunk_def Let_def st1_def)
  qed
qed

lemma flush_chunks_inv:
  assumes "flush_inv h Z regs n0 d0 done files st" and "\<forall>p. io p = None"
    and "\<forall>raw. encode_all Z raw \<noteq> None" and "\<forall>c \<in> set cs. c \<noteq> [] \<and> rows_fit c" "regs_ok regs"
    and "\<forall>c \<in> set cs. \<forall>bs. block_image h Z regs c bs \<longrightarrow> length bs < 2 ^ 32"
    and "length done + length cs < 2 ^ 29" "unat n0 < 2 ^ 63" and "\<forall>p. n0 \<le> p \<longrightarrow> d0 p = None"
  shows "\<exists>st' files'. flush_chunks h Z io cfg ts regs cs st = Some (Inr (), st')
    \<and> flush_inv h Z regs n0 d0 (done @ cs) files' st'"
  using assms
proof (induction cs arbitrary: "done" files st)
  case Nil
  then show ?case by auto
next
  case (Cons c cs)
  have "\<exists>st' files'. flush_chunk h Z io cfg ts regs c st = Some (Inr (), st')
    \<and> flush_inv h Z regs n0 d0 (done @ [c]) files' st'"
    using Cons.prems by (intro flush_chunk_inv) auto
  then obtain st1 files1 where s1: "flush_chunk h Z io cfg ts regs c st = Some (Inr (), st1)"
    "flush_inv h Z regs n0 d0 (done @ [c]) files1 st1" by blast
  have "\<exists>st' files'. flush_chunks h Z io cfg ts regs cs st1 = Some (Inr (), st')
    \<and> flush_inv h Z regs n0 d0 ((done @ [c]) @ cs) files' st'"
    using Cons.prems by (intro Cons.IH [OF s1(2)]) auto
  then show ?case using s1(1) by simp
qed

text \<open>What a flush leaves: the images of its files, in the order of the paths, and for every
  block its place in them.\<close>

definition flushed ::
  "(bytes \<Rightarrow> u64) \<Rightarrow> zstd_lib \<Rightarrow> columnar_registration list \<Rightarrow> row_entry list list \<Rightarrow> sst_image list
   \<Rightarrow> flush_result \<Rightarrow> u64 \<Rightarrow> u64 \<Rightarrow> sst_dir \<Rightarrow> sst_dir \<Rightarrow> bool" where
  "flushed h Z regs chunks files res n0 n1 d0 d1 \<longleftrightarrow>
     length (sst_paths res) = length files \<and> length files \<le> length chunks
     \<and> (\<forall>i < length files. d1 (sst_paths res ! i) = Some (file_of (files ! i)) \<and> image_fits (length chunks) (files ! i))
     \<and> length (block_map res) = length chunks
     \<and> (\<forall>j < length chunks. row_located h Z regs files (chunks ! j) (block_map res ! j))
     \<and> (\<forall>p \<in> set (sst_paths res). p < n1) \<and> unat n1 \<le> unat n0 + 2 * length chunks \<and> n0 \<le> n1
     \<and> (\<forall>p. p < n0 \<or> n1 \<le> p \<longrightarrow> d1 p = d0 p) \<and> grouped h Z regs files chunks"

lemma flushed_inv:
  assumes inv: "flush_inv h Z regs n0 d0 chunks files st" and e: "cur_data st = []"
  shows "flushed h Z regs chunks files (result_of n st) n0 (next_block_id st) d0 (fdir st)"
proof -
  have "row_located h Z regs files (chunks ! j) (fs_map st ! j)" if j: "j < length chunks" for j
  proof -
    have rl: "row_located h Z regs (files @ [([], cur_index st)]) (chunks ! j) (fs_map st ! j)"
      using inv j e by (simp add: flush_inv_def)
    have "sst_index (fs_map st ! j) \<noteq> length files"
      using rl block_image_nonempty [of h Z regs "chunks ! j"] by (auto simp: row_located_def holds_block_def Let_def)
    then show ?thesis using rl by (auto simp: row_located_def nth_append less_Suc_eq)
  qed
  moreover have "grouped h Z regs files chunks"
  proof (rule grouped_last)
    show "grouped h Z regs (files @ [(cur_data st, cur_index st)]) chunks" using inv by (simp add: flush_inv_def)
    show "fst (cur_data st, cur_index st) = []" using e by simp
  qed
  ultimately show ?thesis
    using inv e by (auto simp: flushed_def flush_inv_def result_of_def word_le_nat_alt)
qed

lemma flush_memtable_ok:
  fixes n0 :: u64
  assumes "iter_all mt \<noteq> []" and "\<forall>p. io p = None" and "\<forall>raw. encode_all Z raw \<noteq> None"
    and "rows_fit (iter_all mt)" "regs_ok regs"
    and "\<forall>c \<in> set (split_into_blocks (iter_all mt) cfg regs). \<forall>bs. block_image h Z regs c bs \<longrightarrow> length bs < 2 ^ 32"
    and "unat n0 < 2 ^ 63" and "\<forall>p. n0 \<le> p \<longrightarrow> d0 p = None"
  shows "\<exists>res n1 d1 files. flush_memtable h Z io mt cfg ts regs n0 d0 = Some (Inr res, n1, d1)
    \<and> rows_flushed res = length (iter_all mt)
    \<and> flushed h Z regs (split_into_blocks (iter_all mt) cfg regs) files res n0 n1 d0 d1"
proof -
  define cs where "cs = split_into_blocks (iter_all mt) cfg regs"
  have cc: "concat cs = iter_all mt" by (simp add: cs_def split_facts)
  have ne: "c \<noteq> []" if "c \<in> set cs" for c using that split_facts(2) by (auto simp: cs_def)
  have sub: "set c \<subseteq> set (iter_all mt)" "length c \<le> length (iter_all mt)" if "c \<in> set cs" for c
    using that cc [symmetric] by (auto simp: length_concat intro: member_le_sum_list)
  then have rf: "rows_fit c" if "c \<in> set cs" for c
    using that assms(4) unfolding rows_fit_def by (meson le_less_trans subsetD)
  have n: "length cs < 2 ^ 29"
    using assms(4) length_chunks [of "iter_all mt" cfg regs] by (simp add: rows_fit_def cs_def)
  from flush_chunks_inv [OF flush_inv_init assms(2,3) _ assms(5), of cs h n0 d0 cfg ts]
  obtain st files where st: "flush_chunks h Z io cfg ts regs cs (flush_init n0 d0) = Some (Inr (), st)"
    "flush_inv h Z regs n0 d0 cs files st"
    using assms(6-8) ne rf n by (auto simp: cs_def [symmetric])
  show ?thesis
  proof (cases "cur_data st = []")
    case True
    then show ?thesis
      using st assms(1) flushed_inv [OF st(2) True]
      by (auto simp: flush_memtable_def Let_def cs_def [symmetric] result_of_def intro!: exI [of _ files])
  next
    case False
    from write_sst_inv [OF st(2) False _ _ assms(7,8), of io] assms(2) n obtain st2 where st2:
      "write_sst io st = (Inr (), st2)"
      "flush_inv h Z regs n0 d0 cs (files @ [(cur_data st, cur_index st)]) (reset_sst st2)" by auto
    have "result_of k (reset_sst st2) = result_of k st2" "next_block_id (reset_sst st2) = next_block_id st2"
      "fdir (reset_sst st2) = fdir st2" "cur_data (reset_sst st2) = []" for k
      by (simp_all add: result_of_def reset_sst_def)
    then show ?thesis
      using flushed_inv [OF st2(2), of "length (iter_all mt)"] st(1) st2(1) False assms(1)
      by (auto simp: flush_memtable_def Let_def cs_def [symmetric] result_of_def
          intro!: exI [of _ "files @ [(cur_data st, cur_index st)]"])
  qed
qed

section \<open>File names after a restart\<close>

text \<open>
  C19: File names are reused after a restart. The counter that names SST files is a static that
  starts at 1 in every process, so the first flush of a process that writes one block always
  writes \<open>sst_2.pax\<close>. When a file of that name was left by an earlier process, its front is
  overwritten and only its tail beyond the new file remains.
\<close>

theorem flush_overwrites_file:
  assumes "split_into_blocks (iter_all mt) cfg regs = [chunk]" and "rows_fit chunk" "regs_ok regs"
    and Z: "\<forall>raw. encode_all Z raw \<noteq> None" and io: "\<forall>p. io p = None" and old: "d 2 = Some old"
  shows "\<exists>res n1 d1 sst. flush_memtable h Z io mt cfg ts regs 1 d = Some (Inr res, n1, d1)
    \<and> sst_paths res = [2] \<and> sst \<noteq> [] \<and> d1 2 = Some (sst @ drop (length sst) old)"
proof -
  have ne: "iter_all mt \<noteq> []" "chunk \<noteq> []"
    using assms(1) split_facts(2) [of chunk "iter_all mt" cfg regs] by (auto simp: split_into_blocks_def split: if_splits)
  obtain cols codecs where b: "build_block_columns chunk regs = (cols, codecs)" by (cases "build_block_columns chunk regs")
  note bf = build_fit [OF assms(3,2) b]
  have "cols \<noteq> []" using bf(4) by auto
  from write_total [OF this bf(2,3,1) Z] obtain blk where
    w: "write_with_codecs h Z 1 (block_timestamp ts chunk) cols codecs = Some (Inr blk)" by blast
  define st where "st = append_block 1 (length chunk) (pax_serialize blk) ((flush_init 1 d)\<lparr>next_block_id := 2\<rparr>)"
  have st: "cur_data st = pax_serialize blk" "fs_paths st = []" "next_block_id st = 2" "fdir st = d"
    by (simp_all add: st_def append_block_def flush_init_def)
  have i: "next_block_id (flush_init 1 d) = 1" by (simp add: flush_init_def)
  define sst where "sst = pax_serialize blk @ serialize_with_footer (cur_index st) (word_of_nat (length (pax_serialize blk)))"
  define st' where "st' = st\<lparr>next_block_id := 3, fdir := io_write 2 0 sst d,
    total_bytes := total_bytes st + word_of_nat (length sst), fs_paths := [2]\<rparr>"
  have ws: "write_sst io st = (Inr (), st')"
    using io by (simp add: write_sst_def st Let_def st'_def sst_def)
  have bs: "pax_serialize blk \<noteq> []" by (simp add: pax_serialize_def serialize_header_def)
  have fc: "flush_chunks h Z io cfg ts regs [chunk] (flush_init 1 d)
      = (if word_of_nat (length (pax_serialize blk)) \<ge> sst_size_bytes cfg then Some (Inr (), reset_sst st') else Some (Inr (), st))"
    using w b ws by (simp add: flush_chunk_def Let_def i st_def [symmetric] st(1))
  have res: "flush_memtable h Z io mt cfg ts regs 1 d = Some (Inr (result_of (length (iter_all mt)) st'), 3, io_write 2 0 sst d)"
    using ne(1) assms(1) fc ws bs st by (simp add: flush_memtable_def Let_def reset_sst_def result_of_def st'_def)
  then show ?thesis
    using old bs by (auto simp: result_of_def st'_def io_write_def write_at_def sst_def)
qed

definition demo_mem :: memtable where
  "demo_mem = \<lparr>shards = [[([5], VersionedValue 1 (Some [9]) None)]], mt_size = 18, sealed = False, seal_threshold = 1000\<rparr>"

theorem flush_overwrites_file_witness:
  "\<exists>res n1 d1 sst. flush_memtable demo_h demo_zstd (\<lambda>_. None) demo_mem \<lparr>sst_size_bytes = 100, max_rows_per_block = 10\<rparr> 1 [] 1
       [2 \<mapsto> [1, 2, 3]] = Some (Inr res, n1, d1)
    \<and> sst_paths res = [2] \<and> sst \<noteq> [] \<and> d1 2 = Some (sst @ drop (length sst) [1, 2, 3])"
proof (rule flush_overwrites_file)
  show "split_into_blocks (iter_all demo_mem) \<lparr>sst_size_bytes = 100, max_rows_per_block = 10\<rparr> []
      = [[([5], VersionedValue 1 (Some [9]) None)]]"
    by (simp add: demo_mem_def iter_all_def split_into_blocks_def)
  show "rows_fit [([5], VersionedValue 1 (Some [9]) None)]" by (simp add: rows_fit_def row_value_def)
qed (simp_all add: regs_ok_def demo_zstd_def)

section \<open>Columnar blocks read back\<close>

text \<open>
  C27: A columnar block keeps its rows and its cells. For a chunk of rows of a registered table
  whose splitter accepts every row, the block that the flush writes, read back from its
  serialised bytes, has the keys, values and timestamps of the rows in its first three
  columns, and for every row and SQL column the data and validity columns together give the
  cell the splitter produced, NULL for a tombstone.
\<close>

theorem columnar_block_reads_back:
  assumes reg: "registration_for regs (fst (hd chunk)) = Some r" and ok: "regs_ok regs" "rows_fit chunk" "chunk \<noteq> []"
    and cells: "\<forall>e \<in> set chunk. row_cells (cr_splitter r) (vvalue (snd e)) \<noteq> None" and n: "column_types (cr_splitter r) \<noteq> []"
    and w: "write_with_codecs h Z bid ts (fst (build_block_columns chunk regs)) (snd (build_block_columns chunk regs)) = Some (Inr b)"
    and Z: "zstd_ok Z" and sz: "length (column_data b) < 2 ^ 32"
  shows "pax_deserialize h (pax_serialize b) = Inr b
    \<and> read_column Z b 0 = Some (Inr (map fst chunk)) \<and> read_column Z b 1 = Some (Inr (map row_value chunk))
    \<and> read_column Z b ROW_TS_COLUMN = Some (Inr (map (\<lambda>e. to_le_bytes (timestamp (snd e))) chunk))
    \<and> (\<forall>k < length (column_types (cr_splitter r)). \<exists>data valid.
         read_column Z b (data_column_index k) = Some (Inr data) \<and> read_column Z b (validity_column_index k) = Some (Inr valid)
         \<and> (\<forall>i < length chunk. (if is_valid_marker (valid ! i) then Some (data ! i) else None)
              = cell_at (cr_splitter r) (vvalue (snd (chunk ! i))) k))"
proof -
  let ?S = "cr_splitter r" and ?vals = "map (vvalue \<circ> snd) chunk"
  have "columnar_rows ?S vs cols \<noteq> None" if "\<forall>v \<in> set vs. row_cells ?S v \<noteq> None" for vs cols
    using that
  proof (induction vs arbitrary: cols)
    case (Cons v vs)
    then obtain parts where "row_cells ?S v = Some parts" by auto
    then show ?case using Cons.IH [of "push_row (column_types ?S) parts cols"] Cons.prems by (simp add: columnar_rows_step)
  qed simp
  then have "columnar_rows ?S ?vals (replicate (length (column_types ?S)) [], replicate (length (column_types ?S)) []) \<noteq> None"
    using cells by simp
  then have "columnar_data_columns ?vals ?S \<noteq> None"
    using n by (auto simp: columnar_data_columns_def Let_def)
  then obtain dcols dcodecs where d: "columnar_data_columns ?vals ?S = Some (dcols, dcodecs)" by auto
  have bb: "build_block_columns chunk regs = (entries_to_columns chunk @ dcols, base_codecs @ dcodecs)"
    using reg d ok(3) by (cases chunk) (simp_all add: build_block_columns_def entries_to_columns_columnar_def)
  let ?cols = "entries_to_columns chunk @ dcols" and ?codecs = "base_codecs @ dcodecs"
  have w': "write_with_codecs h Z bid ts ?cols ?codecs = Some (Inr b)" using w bb by simp
  note bf = build_fit [OF ok(1,2) bb] and cc = columnar_columns [OF d]
  note wb = written_block [OF w' bf(1) sz]
  have rc: "read_column Z b i = Some (Inr (col_values (?cols ! i)))" if "i < length ?cols" for i
    using read_column_written [OF w' bf(1) sz Z that] wb(2) that by (auto simp: read_column_def Let_def)
  have base: "read_column Z b 0 = Some (Inr (map fst chunk))" "read_column Z b 1 = Some (Inr (map row_value chunk))"
    "read_column Z b 2 = Some (Inr (map (\<lambda>e. to_le_bytes (timestamp (snd e))) chunk))"
    using rc [of 0] rc [of 1] rc [of 2] by (simp_all add: nth_append entries_to_columns_alt)
  have "\<exists>data valid. read_column Z b (data_column_index k) = Some (Inr data)
      \<and> read_column Z b (validity_column_index k) = Some (Inr valid)
      \<and> (\<forall>i < length chunk. (if is_valid_marker (valid ! i) then Some (data ! i) else None) = cell_at ?S (vvalue (snd (chunk ! i))) k)"
    if k: "k < length (column_types ?S)" for k
  proof -
    have l: "3 + 2 * k < length ?cols" "Suc (3 + 2 * k) < length ?cols" using k cc(2) by simp_all
    have v: "?cols ! (3 + 2 * k) = dcols ! (2 * k)" "?cols ! Suc (3 + 2 * k) = dcols ! Suc (2 * k)" by (simp_all add: nth_append)
    have "read_column Z b (data_column_index k) = Some (Inr (map (\<lambda>v. data_cell (column_types ?S ! k) (cell_at ?S v k)) ?vals))"
      "read_column Z b (validity_column_index k) = Some (Inr (map (\<lambda>v. valid_cell (cell_at ?S v k)) ?vals))"
      using rc [OF l(1)] rc [OF l(2)] v cc(5,6) [OF k]
      by (simp_all add: data_column_index_def validity_column_index_def FIRST_DATA_COLUMN_def DATA_VALIDITY_STRIDE_def)
    moreover have "\<forall>i < length chunk. (if is_valid_marker (map (\<lambda>v. valid_cell (cell_at ?S v k)) ?vals ! i)
        then Some (map (\<lambda>v. data_cell (column_types ?S ! k) (cell_at ?S v k)) ?vals ! i) else None)
        = cell_at ?S (vvalue (snd (chunk ! i))) k" by (simp add: cell_decode cong: if_cong split del: if_split)
    ultimately show ?thesis by blast
  qed
  then show ?thesis using block_roundtrip [OF wb(1)] base by (simp add: ROW_TS_COLUMN_def)
qed

text \<open>A table of one text column: a live row and a tombstone.\<close>

definition demo_splitter :: splitter where
  "demo_splitter = \<lparr>column_types = [Text], split_row = (\<lambda>b. if length b < 100 then Some [Some (rev b)] else None)\<rparr>"

definition demo_reg :: columnar_registration where
  "demo_reg = \<lparr>cr_prefix = [5], cr_splitter = demo_splitter\<rparr>"

definition demo_chunk :: "row_entry list" where
  "demo_chunk = [([5, 1], VersionedValue 3 (Some [8, 9]) None), ([5, 2], VersionedValue 4 None None)]"

lemma demo_build:
  "build_block_columns demo_chunk [demo_reg] =
     ([\<lparr>col_type = Blob, col_values = [[5, 1], [5, 2]]\<rparr>, \<lparr>col_type = Blob, col_values = [[8, 9], []]\<rparr>,
       \<lparr>col_type = Blob, col_values = [[3, 0, 0, 0, 0, 0, 0, 0], [4, 0, 0, 0, 0, 0, 0, 0]]\<rparr>,
       \<lparr>col_type = Text, col_values = [[9, 8], []]\<rparr>, \<lparr>col_type = Blob, col_values = [[1], [0]]\<rparr>],
      [Zstd, NoCodec, NoCodec, Zstd, Zstd])"
  by code_simp

lemma demo_block_compressed:
  "compress demo_zstd Blob Zstd [[5, 1], [5, 2]] = Some (Inr [12, 0, 0, 0, 2, 0, 0, 0, 5, 1, 2, 0, 0, 0, 5, 2])"
  "compress demo_zstd Blob NoCodec [[8, 9], []] = Some (Inr [2, 0, 0, 0, 8, 9, 0, 0, 0, 0])"
  "compress demo_zstd Blob NoCodec [[3, 0, 0, 0, 0, 0, 0, 0], [4, 0, 0, 0, 0, 0, 0, 0]]
     = Some (Inr [8, 0, 0, 0, 3, 0, 0, 0, 0, 0, 0, 0, 8, 0, 0, 0, 4, 0, 0, 0, 0, 0, 0, 0])"
  "compress demo_zstd Text Zstd [[9, 8], []] = Some (Inr [10, 0, 0, 0, 2, 0, 0, 0, 9, 8, 0, 0, 0, 0])"
  "compress demo_zstd Blob Zstd [[1], [0]] = Some (Inr [10, 0, 0, 0, 1, 0, 0, 0, 1, 1, 0, 0, 0, 0])"
  by (code_simp, code_simp, code_simp, code_simp, code_simp)

lemma demo_reg_ok: "regs_ok [demo_reg]"
  by (auto simp: regs_ok_def demo_reg_def splitter_ok_def demo_splitter_def split: if_splits)

theorem columnar_block_reads_back_witness:
  "\<exists>b. write_with_codecs demo_h demo_zstd 1 4 (fst (build_block_columns demo_chunk [demo_reg]))
         (snd (build_block_columns demo_chunk [demo_reg])) = Some (Inr b)
     \<and> pax_deserialize demo_h (pax_serialize b) = Inr b \<and> read_column demo_zstd b 0 = Some (Inr [[5, 1], [5, 2]])
     \<and> (\<exists>data valid. read_column demo_zstd b 3 = Some (Inr data) \<and> read_column demo_zstd b 4 = Some (Inr valid)
          \<and> is_valid_marker (valid ! 0) \<and> data ! 0 = [9, 8] \<and> \<not> is_valid_marker (valid ! 1))"
proof -
  obtain b where w: "write_with_codecs demo_h demo_zstd 1 4 (fst (build_block_columns demo_chunk [demo_reg]))
      (snd (build_block_columns demo_chunk [demo_reg])) = Some (Inr b)" and l: "length (column_data b) = 78"
    by (simp add: demo_build write_with_codecs_def Let_def demo_block_compressed)
  have reg: "registration_for [demo_reg] (fst (hd demo_chunk)) = Some demo_reg"
    by (simp add: registration_for_def demo_reg_def demo_chunk_def reg_matches_def)
  have sp: "cr_splitter demo_reg = demo_splitter" "length (column_types demo_splitter) = 1" "column_types demo_splitter \<noteq> []"
    by (simp_all add: demo_reg_def demo_splitter_def)
  have cells: "\<forall>e \<in> set demo_chunk. row_cells (cr_splitter demo_reg) (vvalue (snd e)) \<noteq> None"
    and ca: "cell_at demo_splitter (vvalue (snd (demo_chunk ! 0))) 0 = Some [9, 8]"
      "cell_at demo_splitter (vvalue (snd (demo_chunk ! 1))) 0 = None"
    by (simp_all add: demo_chunk_def row_cells_def cell_at_def sp) (simp_all add: demo_splitter_def)
  have c: "rows_fit demo_chunk" "demo_chunk \<noteq> []" "length demo_chunk = 2" "map fst demo_chunk = [[5, 1], [5, 2]]"
    by (simp_all add: rows_fit_def demo_chunk_def row_value_def)
  have idx: "data_column_index 0 = 3" "validity_column_index 0 = 4"
    by (simp_all add: data_column_index_def validity_column_index_def FIRST_DATA_COLUMN_def)
  note rb = columnar_block_reads_back [OF reg demo_reg_ok c(1,2) cells, unfolded sp, OF sp(3) w demo_zstd_ok]
  have sz: "length (column_data b) < 2 ^ 32" using l by simp
  obtain data valid where rv: "read_column demo_zstd b 3 = Some (Inr data)" "read_column demo_zstd b 4 = Some (Inr valid)"
    and i: "\<forall>i < 2. (if is_valid_marker (valid ! i) then Some (data ! i) else None) = cell_at demo_splitter (vvalue (snd (demo_chunk ! i))) 0"
    using rb [OF sz] sp(2) c(3) idx by auto
  have "is_valid_marker (valid ! 0)" "data ! 0 = [9, 8]" "\<not> is_valid_marker (valid ! 1)"
    using i [rule_format, of 0] i [rule_format, of 1] ca by (auto split: if_splits)
  then show ?thesis using rv w rb [OF sz] c(4) by auto
qed

end
