(* ===== verification/EngineFlush.thy ===== *)
theory EngineFlush
  imports Engine Flush
begin

text \<open>
  The engine with its SST files: \<open>Engine::flush_memtable\<close>, which writes the active memtable
  to SST files, registers them and points the index at their rows, and \<open>get\<close> through the
  index into memtable or file (\<open>engine.rs\<close>). The state is the engine of \<open>Engine\<close> with the
  registry, the SST id counter, the columnar registrations, the data directory and the
  process-wide block-id counter of \<open>flush.rs\<close>. Inline compaction after a flush is the
  argument \<open>compact\<close>; with the background worker active a flush only signals it. Metering and
  metrics are left out.
\<close>

section \<open>State and operations\<close>

record sst_engine =
  core :: engine
  sst_registry :: sst_registry
  next_sst_id :: u64
  columnar :: "columnar_registration list"
  bg_worker_active :: bool
  data_dir :: sst_dir
  block_counter :: u64
  se_config :: flush_config

definition register_columnar_table :: "bytes \<Rightarrow> splitter \<Rightarrow> sst_engine \<Rightarrow> sst_engine" where
  "register_columnar_table p S s =
     s\<lparr>columnar := filter (\<lambda>r. cr_prefix r \<noteq> p) (columnar s) @ [\<lparr>cr_prefix = p, cr_splitter = S\<rparr>]\<rparr>"

definition unregister_columnar_table :: "bytes \<Rightarrow> sst_engine \<Rightarrow> sst_engine" where
  "unregister_columnar_table p s = s\<lparr>columnar := filter (\<lambda>r. cr_prefix r \<noteq> p) (columnar s)\<rparr>"

text \<open>\<open>get\<close>; the outer option is a panic in the raw block read.\<close>

definition engine_get :: "zstd_lib \<Rightarrow> wal_lib \<Rightarrow> sst_engine \<Rightarrow> bytes \<Rightarrow> bytes option option" where
  "engine_get Z L s key =
     (case art_lookup (art_index (core s)) key of
        None \<Rightarrow> Some None
      | Some (MemtableLoc _ _) \<Rightarrow>
        Some (case mm_get (xxh3_64 L) (memtable_mgr (core s)) key of
                Some (Some value) \<Rightarrow> Some value
              | Some None \<Rightarrow> None
              | None \<Rightarrow> None)
      | Some (SstLoc sst block row) \<Rightarrow> read_value (xxh3_64 L) Z (data_dir s) (sst_registry s) sst block row)"

text \<open>The registration loop: the first file takes the id drawn before the flush, every other
  one the next id of the counter.\<close>

fun register_files ::
  "sst_dir \<Rightarrow> u64 \<Rightarrow> nat \<Rightarrow> u64 list \<Rightarrow> u64 \<times> sst_registry \<Rightarrow> ((galax_error + unit) \<times> u64 \<times> sst_registry) option" where
  "register_files d first_id i [] (next_id, reg) = Some (Inr (), next_id, reg)"
| "register_files d first_id i (p # ps) (next_id, reg) =
     (let (file_id, next_id) = (if i = 0 then (first_id, next_id) else (next_id, next_id + 1))
      in case register d file_id p reg of
           None \<Rightarrow> None
         | Some (Inl e) \<Rightarrow> Some (Inl e, next_id, reg)
         | Some (Inr reg) \<Rightarrow> register_files d first_id (Suc i) ps (next_id, reg))"

fun index_rows :: "row_entry list \<Rightarrow> u64 \<Rightarrow> u64 \<Rightarrow> nat \<Rightarrow> nat \<Rightarrow> nat \<times> art \<Rightarrow> (nat \<times> art) option" where
  "index_rows es file_id blk local_row 0 (global_row_idx, t) = Some (global_row_idx, t)"
| "index_rows es file_id blk local_row (Suc n) (global_row_idx, t) =
     (if global_row_idx < length es
      then Option.bind (art_insert (fst (es ! global_row_idx)) (SstLoc file_id blk (word_of_nat local_row)) t)
             (\<lambda>t. index_rows es file_id blk (Suc local_row) n (Suc global_row_idx, t))
      else index_rows es file_id blk (Suc local_row) n (global_row_idx, t))"

definition file_sst_id :: "u64 \<Rightarrow> sst_block_info \<Rightarrow> u64" where
  "file_sst_id first_id info = (if sst_index info = 0 then first_id else first_id + word_of_nat (sst_index info))"

fun index_blocks :: "row_entry list \<Rightarrow> u64 \<Rightarrow> sst_block_info list \<Rightarrow> nat \<times> art \<Rightarrow> (nat \<times> art) option" where
  "index_blocks es first_id [] gt = Some gt"
| "index_blocks es first_id (info # infos) gt =
     Option.bind (index_rows es (file_sst_id first_id info) (ucast (block_no info)) 0 (info_rows info) gt)
       (index_blocks es first_id infos)"

definition engine_flush ::
  "zstd_lib \<Rightarrow> wal_lib \<Rightarrow> io_faults \<Rightarrow> (sst_engine \<Rightarrow> sst_engine) \<Rightarrow> sst_engine
   \<Rightarrow> ((galax_error + u64) \<times> sst_engine) option" where
  "engine_flush Z L io compact s0 =
     (let act = active (memtable_mgr (core s0));
          es = iter_all act
      in if es = [] then Some (Inr 0, s0)
         else
           let first_id = next_sst_id s0;
               s = s0\<lparr>next_sst_id := first_id + 1\<rparr>
           in case flush_memtable (xxh3_64 L) Z io act (se_config s) first_id (columnar s) (block_counter s) (data_dir s) of
                None \<Rightarrow> None
              | Some (Inl e, n, d) \<Rightarrow> Some (Inl e, s\<lparr>block_counter := n, data_dir := d\<rparr>)
              | Some (Inr res, n, d) \<Rightarrow>
                (let s = s\<lparr>block_counter := n, data_dir := d\<rparr>
                 in case register_files d first_id 0 (sst_paths res) (next_sst_id s, sst_registry s) of
                      None \<Rightarrow> None
                    | Some (Inl e, next_id, reg) \<Rightarrow> Some (Inl e, s\<lparr>next_sst_id := next_id, sst_registry := reg\<rparr>)
                    | Some (Inr _, next_id, reg) \<Rightarrow>
                      (case index_blocks es first_id (block_map res) (0, art_index (core s)) of
                         None \<Rightarrow> None
                       | Some (_, t) \<Rightarrow>
                         (let mm = on_flush_complete (mt_size act) (seal_active (memtable_mgr (core s)));
                              s = s\<lparr>next_sst_id := next_id, sst_registry := reg,
                                    core := (core s)\<lparr>art_index := t, memtable_mgr := mm\<rparr>\<rparr>;
                              s = (if bg_worker_active s then s else compact s)
                          in Some (Inr (word_of_nat (rows_flushed res)), s)))))"

section \<open>Index entries of a flush\<close>

definition row_targets :: "row_entry list \<Rightarrow> u64 \<Rightarrow> u64 \<Rightarrow> nat \<Rightarrow> nat \<Rightarrow> nat \<Rightarrow> (bytes \<times> row_location) list" where
  "row_targets es file_id blk g l n = map (\<lambda>i. (fst (es ! (g + i)), SstLoc file_id blk (word_of_nat (l + i)))) [0..<n]"

lemma row_targets_Suc:
  "row_targets es f b g l (Suc n) = (fst (es ! g), SstLoc f b (word_of_nat l)) # row_targets es f b (Suc g) (Suc l) n"
proof -
  have "[0..<Suc n] = 0 # map Suc [0..<n]" by (simp add: upt_conv_Cons map_Suc_upt del: upt_Suc)
  then show ?thesis by (simp add: row_targets_def del: upt_Suc)
qed

lemma index_rows_list:
  "g + n \<le> length es \<Longrightarrow>
     index_rows es f b l n (g, t) = map_option (Pair (g + n)) (aix.insert_list (row_targets es f b g l n) t)"
proof (induction n arbitrary: g l t)
  case 0
  then show ?case by (simp add: row_targets_def)
next
  case (Suc n)
  then show ?case
    by (cases "art_insert (fst (es ! g)) (SstLoc f b (word_of_nat l)) t") (simp_all add: row_targets_Suc)
qed

fun block_targets :: "row_entry list \<Rightarrow> u64 \<Rightarrow> nat \<Rightarrow> sst_block_info list \<Rightarrow> (bytes \<times> row_location) list" where
  "block_targets es first_id g [] = []"
| "block_targets es first_id g (info # infos) =
     row_targets es (file_sst_id first_id info) (ucast (block_no info)) g 0 (info_rows info)
     @ block_targets es first_id (g + info_rows info) infos"

lemma insert_list_append:
  "aix.insert_list (xs @ ys) t = Option.bind (aix.insert_list xs t) (aix.insert_list ys)"
  by (induction xs arbitrary: t) (auto split: bind_split)

lemma index_blocks_list:
  "g + sum_list (map info_rows infos) \<le> length es \<Longrightarrow>
     index_blocks es first_id infos (g, t)
     = map_option (Pair (g + sum_list (map info_rows infos))) (aix.insert_list (block_targets es first_id g infos) t)"
proof (induction infos arbitrary: g t)
  case Nil
  then show ?case by simp
next
  case (Cons info infos)
  then show ?case
    by (cases "aix.insert_list (row_targets es (file_sst_id first_id info) (ucast (block_no info)) g 0 (info_rows info)) t")
      (simp_all add: index_rows_list insert_list_append add.assoc)
qed

text \<open>Every row of every chunk has its target, and nothing else has one.\<close>

lemma in_row_targets:
  "(k, loc) \<in> set (row_targets es f b g l n) \<longleftrightarrow> (\<exists>i < n. k = fst (es ! (g + i)) \<and> loc = SstLoc f b (word_of_nat (l + i)))"
  by (auto simp: row_targets_def)

lemma block_targets_sound:
  assumes "length infos = length chunks" and "\<forall>j < length chunks. info_rows (infos ! j) = length (chunks ! j)"
    and "drop g es = concat chunks" and "g \<le> length es" and "(k, loc) \<in> set (block_targets es first_id g infos)"
  shows "\<exists>j r. j < length chunks \<and> r < length (chunks ! j) \<and> k = fst (chunks ! j ! r)
    \<and> loc = SstLoc (file_sst_id first_id (infos ! j)) (ucast (block_no (infos ! j))) (word_of_nat r)"
  using assms
proof (induction infos arbitrary: chunks g)
  case Nil
  then show ?case by simp
next
  case (Cons info infos)
  then obtain c cs where ch: "chunks = c # cs" by (cases chunks) auto
  have c: "info_rows info = length c" using Cons.prems(2) by (auto simp: ch)
  have nth: "es ! (g + i) = c ! i" if "i < length c" for i
    using that Cons.prems(3,4) by (metis add.commute ch concat.simps(2) length_append length_drop nth_append nth_drop trans_less_add1 less_diff_conv le_eq_less_or_eq)
  consider "(k, loc) \<in> set (row_targets es (file_sst_id first_id info) (ucast (block_no info)) g 0 (info_rows info))"
    | "(k, loc) \<in> set (block_targets es first_id (g + length c) infos)"
    using Cons.prems(5) c by auto
  then show ?case
  proof cases
    case 1
    then obtain i where "i < length c" "k = fst (c ! i)"
      "loc = SstLoc (file_sst_id first_id info) (ucast (block_no info)) (word_of_nat i)"
      using nth c by (auto simp: in_row_targets)
    then show ?thesis by (intro exI [of _ 0] exI [of _ i]) (simp add: ch)
  next
    case 2
    have d: "drop (g + length c) es = concat cs" "g + length c \<le> length es"
      using Cons.prems(3,4) by (simp_all add: ch drop_drop [symmetric] add.commute [of g] flip: drop_drop)
        (metis append_eq_conv_conj ch concat.simps(2) drop_drop add.commute length_append length_drop le_add1 le_diff_conv2)+
    have "\<exists>j r. j < length cs \<and> r < length (cs ! j) \<and> k = fst (cs ! j ! r)
      \<and> loc = SstLoc (file_sst_id first_id (infos ! j)) (ucast (block_no (infos ! j))) (word_of_nat r)"
      using Cons.prems(1,2) by (intro Cons.IH [OF _ _ d 2]) (auto simp: ch)
    then obtain j r where "j < length cs" "r < length (cs ! j)" "k = fst (cs ! j ! r)"
      "loc = SstLoc (file_sst_id first_id (infos ! j)) (ucast (block_no (infos ! j))) (word_of_nat r)" by blast
    then show ?thesis by (intro exI [of _ "Suc j"] exI [of _ r]) (simp add: ch)
  qed
qed

lemma fst_row_targets: "g + n \<le> length es \<Longrightarrow> map fst (row_targets es f b g l n) = map fst (take n (drop g es))"
  by (auto simp: row_targets_def intro!: nth_equalityI)

lemma fst_block_targets:
  "g + sum_list (map info_rows infos) = length es \<Longrightarrow> map fst (block_targets es first_id g infos) = map fst (drop g es)"
proof (induction infos arbitrary: g)
  case Nil
  then show ?case by simp
next
  case (Cons info infos)
  have "map fst (block_targets es first_id (g + info_rows info) infos) = map fst (drop (info_rows info) (drop g es))"
    using Cons by (simp add: add.commute)
  then have "map fst (block_targets es first_id g (info # infos))
      = map fst (take (info_rows info) (drop g es) @ drop (info_rows info) (drop g es))"
    using Cons.prems by (simp add: fst_row_targets del: append_take_drop_id)
  then show ?case by (simp only: append_take_drop_id)
qed

lemma sum_info_rows:
  assumes "length infos = length chunks" and "\<forall>j < length chunks. info_rows (infos ! j) = length (chunks ! j)"
  shows "sum_list (map info_rows infos) = length (concat chunks)"
proof -
  have "map info_rows infos = map length chunks" using assms by (auto intro: nth_equalityI)
  then show ?thesis by (simp add: length_concat)
qed

section \<open>Registering the files of a flush\<close>

definition entry_of_image :: "u64 \<Rightarrow> sst_image \<Rightarrow> sst_entry" where
  "entry_of_image p x = \<lparr>sst_path = p, block_index = snd x\<rparr>"

definition image_small :: "sst_image \<Rightarrow> bool" where
  "image_small x \<longleftrightarrow> length (entries (snd x)) < 2 ^ 32 \<and> length (fst x) + 12 * length (entries (snd x)) + 22 < 2 ^ 64"

lemma register_image:
  assumes "d p = Some (file_of x)" and "image_small x"
  shows "register d i p reg = Some (Inr (reg(i \<mapsto> entry_of_image p x)))"
  using register_written [of d p "fst x" "snd x" i reg] assms
  by (simp add: file_of_def image_small_def entry_of_image_def)

definition registered :: "u64 \<Rightarrow> u64 list \<Rightarrow> sst_image list \<Rightarrow> sst_registry \<Rightarrow> sst_registry \<Rightarrow> bool" where
  "registered base ps files reg reg' \<longleftrightarrow>
     (\<forall>j < length ps. reg' (base + word_of_nat j) = Some (entry_of_image (ps ! j) (files ! j)))
     \<and> (\<forall>i < base. reg' i = reg i)
     \<and> (\<forall>i en. reg' i = Some en \<longrightarrow> reg i = Some en \<or> (\<exists>j < length ps. i = base + word_of_nat j \<and> sst_path en = ps ! j))"

lemma word_base_Suc: "b + word_of_nat (Suc j) = (b + 1) + word_of_nat j" for b :: u64
  by simp

lemma registered_Cons:
  assumes "registered (base + 1) ps files (reg(base \<mapsto> entry_of_image p x)) reg'" and "unat base + length ps + 1 < 2 ^ 64"
  shows "registered base (p # ps) (x # files) reg reg'"
proof -
  have lt: "base < base + 1" using unat_plus_nat [of base 1] assms(2) by (simp add: word_less_nat_alt)
  have 1: "reg' (base + word_of_nat j) = Some (entry_of_image ((p # ps) ! j) ((x # files) ! j))" if j: "j < length (p # ps)" for j
  proof (cases j)
    case 0
    then show ?thesis using assms(1) lt by (auto simp: registered_def)
  next
    case (Suc i)
    have "\<forall>j < length ps. reg' (base + 1 + word_of_nat j) = Some (entry_of_image (ps ! j) (files ! j))"
      using assms(1) unfolding registered_def by blast
    then have "reg' (base + 1 + word_of_nat i) = Some (entry_of_image (ps ! i) (files ! i))" using j Suc by simp
    then show ?thesis unfolding Suc word_base_Suc by simp
  qed
  have 2: "reg' i = reg i" if "i < base" for i
    using assms(1) that lt by (auto simp: registered_def)
  have 3: "reg i = Some en \<or> (\<exists>j < length (p # ps). i = base + word_of_nat j \<and> sst_path en = (p # ps) ! j)"
    if e: "reg' i = Some en" for i en
  proof -
    consider "(reg(base \<mapsto> entry_of_image p x)) i = Some en"
      | j where "j < length ps" "i = base + 1 + word_of_nat j" "sst_path en = ps ! j"
      using assms(1) e unfolding registered_def by blast
    then show ?thesis
    proof cases
      case 1
      then show ?thesis by (cases "i = base") (auto simp: entry_of_image_def intro!: exI [of _ 0])
    next
      case 2
      then show ?thesis using word_base_Suc [of base j] by (intro disjI2 exI [of _ "Suc j"]) simp
    qed
  qed
  from 1 2 3 show ?thesis unfolding registered_def by blast
qed

lemma register_files_ok:
  assumes "length files = length ps" and "\<forall>j < length ps. d (ps ! j) = Some (file_of (files ! j)) \<and> image_small (files ! j)"
    and "unat base + length ps + 1 < 2 ^ 64" and "i \<noteq> 0"
  shows "\<exists>reg'. register_files d first_id i ps (base, reg) = Some (Inr (), base + word_of_nat (length ps), reg')
    \<and> registered base ps files reg reg'"
  using assms
proof (induction ps arbitrary: files base i reg)
  case Nil
  then show ?case by (auto simp: registered_def)
next
  case (Cons p ps)
  then obtain x xs where f: "files = x # xs" by (cases files) auto
  have x: "d p = Some (file_of x)" "image_small x" using Cons.prems(2) by (auto simp: f)
  have xs: "\<forall>j < length ps. d (ps ! j) = Some (file_of (xs ! j)) \<and> image_small (xs ! j)"
    using Cons.prems(2) by (auto simp: f)
  have u: "unat (base + 1) = unat base + 1" using unat_plus_nat [of base 1] Cons.prems(3) by simp
  obtain reg' where r: "register_files d first_id (Suc i) ps (base + 1, reg(base \<mapsto> entry_of_image p x))
      = Some (Inr (), base + 1 + word_of_nat (length ps), reg')"
    "registered (base + 1) ps xs (reg(base \<mapsto> entry_of_image p x)) reg'"
  proof -
    have "length xs = length ps" "unat (base + 1) + length ps + 1 < 2 ^ 64" using Cons.prems(1,3) u by (simp_all add: f)
    from Cons.IH [OF this(1) xs this(2), of "Suc i" "reg(base \<mapsto> entry_of_image p x)"] that show thesis by blast
  qed
  have "registered base (p # ps) files reg reg'"
    unfolding f using r(2) Cons.prems(3) by (intro registered_Cons) auto
  then show ?case using r(1) Cons.prems(4) register_image [of d p x]  x by (auto simp: add.commute add.left_commute)
qed

lemma register_flush_files:
  assumes "length files = length ps" "ps \<noteq> []"
    and "\<forall>j < length ps. d (ps ! j) = Some (file_of (files ! j)) \<and> image_small (files ! j)"
    and "unat first_id + length ps + 1 < 2 ^ 64"
  shows "\<exists>reg'. register_files d first_id 0 ps (first_id + 1, reg) = Some (Inr (), first_id + word_of_nat (length ps), reg')
    \<and> registered first_id ps files reg reg'"
proof -
  obtain p ps' where p: "ps = p # ps'" using assms(2) by (cases ps) auto
  obtain x xs where f: "files = x # xs" using assms(1) p by (cases files) auto
  have x: "d p = Some (file_of x)" "image_small x" using assms(3) by (auto simp: f p)
  have xs: "\<forall>j < length ps'. d (ps' ! j) = Some (file_of (xs ! j)) \<and> image_small (xs ! j)"
    using assms(3) by (auto simp: f p)
  have u: "unat (first_id + 1) = unat first_id + 1" using unat_plus_nat [of first_id 1] assms(4) by simp
  obtain reg' where r: "register_files d first_id (Suc 0) ps' (first_id + 1, reg(first_id \<mapsto> entry_of_image p x))
      = Some (Inr (), first_id + 1 + word_of_nat (length ps'), reg')"
    "registered (first_id + 1) ps' xs (reg(first_id \<mapsto> entry_of_image p x)) reg'"
  proof -
    have "length xs = length ps'" "unat (first_id + 1) + length ps' + 1 < 2 ^ 64" using assms(1,4) u by (simp_all add: f p)
    from register_files_ok [OF this(1) xs this(2), of "Suc 0" first_id "reg(first_id \<mapsto> entry_of_image p x)"] that
    show thesis by blast
  qed
  have "registered first_id ps files reg reg'"
    unfolding f p using r(2) assms(4) by (intro registered_Cons) (auto simp: p)
  then show ?thesis using r(1) register_image [of d p x]  x by (auto simp: p add.commute add.left_commute)
qed

section \<open>What the store means\<close>

text \<open>A key is live, deleted since the last flush, deleted with the tombstone flushed, or deleted
  with its tombstone dropped by a compaction, which leaves a dangling index entry.\<close>

datatype cell = Live bytes | Deleted | Buried | Purged

definition indexed :: "cell option \<Rightarrow> bool" where
  "indexed c \<longleftrightarrow> c \<noteq> None \<and> c \<noteq> Some Deleted"

definition visible :: "cell option \<Rightarrow> bytes option" where
  "visible c = (case c of Some (Live v) \<Rightarrow> Some v | Some Buried \<Rightarrow> Some [] | _ \<Rightarrow> None)"

text \<open>How index, memtable and files represent the state of a key.\<close>

definition key_rel ::
  "zstd_lib \<Rightarrow> wal_lib \<Rightarrow> sst_dir \<Rightarrow> sst_registry \<Rightarrow> row_location option \<Rightarrow> bytes option option \<Rightarrow> cell option \<Rightarrow> bool" where
  "key_rel Z L d reg loc mem c \<longleftrightarrow>
     (case loc of
        None \<Rightarrow> c = None \<and> mem = None \<or> c = Some Deleted \<and> mem = Some None
      | Some (MemtableLoc _ _) \<Rightarrow> (\<exists>v. c = Some (Live v) \<and> mem = Some (Some v))
      | Some (SstLoc a b r) \<Rightarrow> mem = None
          \<and> ((\<exists>en. reg a = Some en)
              \<and> (\<exists>v. read_value (xxh3_64 L) Z d reg a b r = Some (Some v) \<and> (c = Some (Live v) \<or> c = Some Buried \<and> v = []))
            \<or> reg a = None \<and> c = Some Purged))"

definition store_rel ::
  "zstd_lib \<Rightarrow> wal_lib \<Rightarrow> bytes set \<Rightarrow> bytes set \<Rightarrow> nat \<Rightarrow> sst_engine \<Rightarrow> (bytes \<rightharpoonup> cell) \<Rightarrow> bool" where
  "store_rel Z L K V n s m \<longleftrightarrow>
     mm_invar (xxh3_64 L) (memtable_mgr (core s)) \<and> sealed_queue (memtable_mgr (core s)) = []
     \<and> (key_space K \<and> n \<le> 65001 \<and> art_ok K n (art_index (core s)))
     \<and> unat (block_counter s) + 2 * n \<le> 200000 \<and> unat (next_sst_id s) + n \<le> 200000
     \<and> (\<forall>p. block_counter s \<le> p \<longrightarrow> data_dir s p = None)
     \<and> (\<forall>i en. sst_registry s i = Some en \<longrightarrow> i < next_sst_id s \<and> sst_path en < block_counter s)
     \<and> (\<forall>k v. mm_get (xxh3_64 L) (memtable_mgr (core s)) k = Some v \<longrightarrow> k \<in> K \<and> (\<forall>x. v = Some x \<longrightarrow> x \<in> V))
     \<and> (\<forall>k. key_rel Z L (data_dir s) (sst_registry s) (art_lookup (art_index (core s)) k)
          (mm_get (xxh3_64 L) (memtable_mgr (core s)) k) (m k))
     \<and> (\<forall>k a b r. art_lookup (art_index (core s)) k = Some (SstLoc a b r) \<longrightarrow> k \<in> K \<and> a < next_sst_id s)"

lemma store_relD:
  assumes "store_rel Z L K V n s m"
  shows "mm_invar (xxh3_64 L) (memtable_mgr (core s))" "sealed_queue (memtable_mgr (core s)) = []"
    "key_space K \<and> n \<le> 65001 \<and> art_ok K n (art_index (core s))"
    "unat (block_counter s) + 2 * n \<le> 200000" "unat (next_sst_id s) + n \<le> 200000"
    "\<forall>p. block_counter s \<le> p \<longrightarrow> data_dir s p = None"
    "sst_registry s i = Some en \<Longrightarrow> i < next_sst_id s \<and> sst_path en < block_counter s"
    "mm_get (xxh3_64 L) (memtable_mgr (core s)) k = Some v \<Longrightarrow> k \<in> K \<and> (\<forall>x. v = Some x \<longrightarrow> x \<in> V)"
    "key_rel Z L (data_dir s) (sst_registry s) (art_lookup (art_index (core s)) k)
       (mm_get (xxh3_64 L) (memtable_mgr (core s)) k) (m k)"
    "art_lookup (art_index (core s)) k = Some (SstLoc a b i') \<Longrightarrow> k \<in> K \<and> a < next_sst_id s"
  using assms unfolding store_rel_def by blast+

lemma engine_get_rel:
  assumes "store_rel Z L K V n s m"
  shows "engine_get Z L s k = Some (visible (m k))"
  using store_relD(9) [OF assms, of k]
  by (auto simp: engine_get_def key_rel_def visible_def read_value_def split: option.splits row_location.splits)

text \<open>The index holds every key that is neither absent nor deleted since the last flush.\<close>

lemma index_rel:
  assumes "store_rel Z L K V n s m"
  shows "art_lookup (art_index (core s)) k = None \<longleftrightarrow> \<not> indexed (m k)"
  using store_relD(9) [OF assms, of k] by (auto simp: key_rel_def indexed_def split: option.splits row_location.splits)

lemma store_rel_mono:
  assumes "store_rel Z L K V n s m" and "n' \<le> n"
  shows "store_rel Z L K V n' s m"
proof -
  have "art_ok K n' (art_index (core s))" using store_relD(3) [OF assms(1)] art_ok_mono assms(2) by blast
  then show ?thesis using assms by (auto simp: store_rel_def)
qed

section \<open>Puts and deletes\<close>

lemma do_append_ok: "\<exists>q w'. do_append NoIoFault L ty pl w = (Inr q, w')"
  by (auto simp: do_append_def Let_def flush_phase_def split: prod.splits sum.splits)

definition store_put :: "wal_lib \<Rightarrow> bytes \<Rightarrow> bytes \<Rightarrow> sst_engine \<Rightarrow> ((galax_error + u64) \<times> sst_engine) option" where
  "store_put L k v s = map_option (\<lambda>(r, e). (r, s\<lparr>core := e\<rparr>)) (put_sync NoIoFault L k v (core s))"

definition store_delete :: "wal_lib \<Rightarrow> bytes \<Rightarrow> sst_engine \<Rightarrow> ((galax_error + bool) \<times> sst_engine) option" where
  "store_delete L k s = map_option (\<lambda>(r, e). (r, s\<lparr>core := e\<rparr>)) (delete_sync NoIoFault L k (core s))"

lemma put_active_queue [simp]: "sealed_queue (put_active L k ts v m) = sealed_queue m"
  by (simp add: put_active_def)

lemma store_put_rel:
  assumes rel: "store_rel Z L K V (Suc n) s m" and k: "k \<in> K" "v \<in> V"
  shows "\<exists>ts s'. store_put L k v s = Some (Inr ts, s') \<and> store_rel Z L K V n s' (m(k \<mapsto> Live v))
    \<and> columnar s' = columnar s \<and> se_config s' = se_config s \<and> bg_worker_active s' = bg_worker_active s"
proof -
  note r = store_relD [OF rel]
  obtain q w' where w': "do_append NoIoFault L RowPut (encode_kv k v) (wal (core s)) = (Inr q, w')"
    using do_append_ok by blast
  obtain t' where t': "art_insert k (memtable_loc L k) (art_index (core s)) = Some t'"
    "key_space K \<and> n \<le> 65001 \<and> art_ok K n t'"
    "art_lookup t' = (art_lookup (art_index (core s)))(k \<mapsto> memtable_loc L k)"
    using aix.find_insert [OF r(3) k(1), of "memtable_loc L k"] by (elim exE conjE) (rule that, auto)
  define mm' where "mm' = put_active L k (next_timestamp (core s)) (Some v) (memtable_mgr (core s))"
  note pa = put_active_get [OF r(1), of k "next_timestamp (core s)" "Some v", folded mm'_def]
  define e' where "e' = (core s)\<lparr>next_timestamp := next_timestamp (core s) + 1, wal := w', memtable_mgr := mm',
    art_index := t', row_count := row_count (core s) + 1\<rparr>"
  have "store_put L k v s = Some (Inr (next_timestamp (core s)), s\<lparr>core := e'\<rparr>)"
    using w' t'(1) by (simp add: store_put_def put_sync_def eng_put_def Let_def insert_row_def mm'_def e'_def)
  moreover have "store_rel Z L K V n (s\<lparr>core := e'\<rparr>) (m(k \<mapsto> Live v))"
    unfolding store_rel_def
  proof (intro conjI allI impI)
    fix k'
    show "key_rel Z L (data_dir (s\<lparr>core := e'\<rparr>)) (sst_registry (s\<lparr>core := e'\<rparr>))
        (art_lookup (art_index (core (s\<lparr>core := e'\<rparr>))) k')
        (mm_get (xxh3_64 L) (memtable_mgr (core (s\<lparr>core := e'\<rparr>))) k') ((m(k \<mapsto> Live v)) k')"
      using r(9) [of k'] by (simp add: e'_def t'(3) pa(2)) (simp add: key_rel_def memtable_loc_def)
  next
    fix k' x y
    assume a: "mm_get (xxh3_64 L) (memtable_mgr (core (s\<lparr>core := e'\<rparr>))) k' = Some x"
    show "k' \<in> K" using a r(8) [of k' x] k by (cases "k' = k") (auto simp: e'_def pa(2))
    show "y \<in> V" if "x = Some y" using a that r(8) [of k' x] k by (cases "k' = k") (auto simp: e'_def pa(2))
  next
    fix k' a b i
    assume a: "art_lookup (art_index (core (s\<lparr>core := e'\<rparr>))) k' = Some (SstLoc a b i)"
    then have "art_lookup (art_index (core s)) k' = Some (SstLoc a b i)"
      by (auto simp: e'_def t'(3) memtable_loc_def split: if_splits)
    from r(10) [OF this] show "k' \<in> K" "a < next_sst_id (s\<lparr>core := e'\<rparr>)" by simp_all
  qed (use r(2,4-7) t'(2) pa(1) in \<open>auto simp: e'_def mm'_def\<close>)
  ultimately show ?thesis by auto
qed

lemma store_delete_rel:
  assumes rel: "store_rel Z L K V n s m" and k: "k \<in> K"
  shows "\<exists>s'. store_delete L k s = Some (Inr (indexed (m k)), s')
    \<and> store_rel Z L K V n s' (if indexed (m k) then m(k \<mapsto> Deleted) else m)
    \<and> columnar s' = columnar s \<and> se_config s' = se_config s \<and> bg_worker_active s' = bg_worker_active s"
proof (cases "art_lookup (art_index (core s)) k")
  case None
  then have "\<not> indexed (m k)" using index_rel [OF rel, of k] by simp
  then show ?thesis using None rel by (simp add: store_delete_def delete_sync_def eng_delete_def)
next
  case (Some loc)
  then have vis: "indexed (m k)" using index_rel [OF rel, of k] by simp
  note r = store_relD [OF rel]
  obtain q w' where w': "do_append NoIoFault L RowDelete k (wal (core s)) = (Inr q, w')" using do_append_ok by blast
  obtain t' where t': "art_delete k (art_index (core s)) = Some (t', art_lookup (art_index (core s)) k)"
    "key_space K \<and> n \<le> 65001 \<and> art_ok K n t'" "art_lookup t' = (art_lookup (art_index (core s)))(k := None)"
    using aix.find_delete [OF r(3), of k] by (elim exE conjE) (rule that, auto)
  define mm' where "mm' = put_active L k (next_timestamp (core s)) None (memtable_mgr (core s))"
  note pa = put_active_get [OF r(1), of k "next_timestamp (core s)" None, folded mm'_def]
  define e' where "e' = (core s)\<lparr>next_timestamp := next_timestamp (core s) + 1, wal := w', memtable_mgr := mm', art_index := t'\<rparr>"
  have "store_delete L k s = Some (Inr True, s\<lparr>core := e'\<rparr>)"
    using w' t'(1) Some by (simp add: store_delete_def delete_sync_def eng_delete_def Let_def mm'_def e'_def)
  moreover have "store_rel Z L K V n (s\<lparr>core := e'\<rparr>) (m(k \<mapsto> Deleted))"
    unfolding store_rel_def
  proof (intro conjI allI impI)
    fix k'
    show "key_rel Z L (data_dir (s\<lparr>core := e'\<rparr>)) (sst_registry (s\<lparr>core := e'\<rparr>))
        (art_lookup (art_index (core (s\<lparr>core := e'\<rparr>))) k')
        (mm_get (xxh3_64 L) (memtable_mgr (core (s\<lparr>core := e'\<rparr>))) k') ((m(k \<mapsto> Deleted)) k')"
      using r(9) [of k'] by (simp add: e'_def t'(3) pa(2)) (simp add: key_rel_def)
  next
    fix k' x y
    assume a: "mm_get (xxh3_64 L) (memtable_mgr (core (s\<lparr>core := e'\<rparr>))) k' = Some x"
    show "k' \<in> K" using a r(8) [of k' x] k by (cases "k' = k") (auto simp: e'_def pa(2))
    show "y \<in> V" if "x = Some y" using a that r(8) [of k' x] by (cases "k' = k") (auto simp: e'_def pa(2))
  next
    fix k' a b i
    assume a: "art_lookup (art_index (core (s\<lparr>core := e'\<rparr>))) k' = Some (SstLoc a b i)"
    then have "art_lookup (art_index (core s)) k' = Some (SstLoc a b i)" by (auto simp: e'_def t'(3) split: if_splits)
    from r(10) [OF this] show "k' \<in> K" "a < next_sst_id (s\<lparr>core := e'\<rparr>)" by simp_all
  qed (use r(2,4-7) t'(2) pa(1) in \<open>auto simp: e'_def mm'_def\<close>)
  ultimately show ?thesis using vis by auto
qed

section \<open>Flushing\<close>

lemma read_value_frame:
  assumes "reg a = Some en" "reg' a = reg a" "d' (sst_path en) = d (sst_path en)"
  shows "read_value h Z d' reg' a b r = read_value h Z d reg a b r"
proof -
  have "io_read_sync d' (sst_path en) = io_read_sync d (sst_path en)" using assms(3) by (simp add: io_read_sync_def fun_eq_iff)
  then show ?thesis using assms(1,2) by (cases "get_block (block_index en) b") (simp_all add: read_value_def)
qed

lemma read_value_flushed:
  assumes rl: "row_located h Z regs files chunk info" and reg: "registered base ps files reg reg'"
    and len: "length ps = length files" and d: "d (ps ! sst_index info) = Some (file_of (files ! sst_index info))"
    and ok: "regs_ok regs" "rows_fit chunk" "zstd_ok Z" and r: "r < length chunk"
  shows "(\<exists>en. reg' (file_sst_id base info) = Some en)
    \<and> read_value h Z d reg' (file_sst_id base info) (ucast (block_no info)) (word_of_nat r) = Some (Some (row_value (chunk ! r)))"
proof -
  let ?x = "files ! sst_index info" and ?b = "unat (block_no info)"
  obtain bs where bs: "block_image h Z regs chunk bs" "length bs < 2 ^ 32" "holds_block ?x ?b bs" "sst_index info < length files"
    using rl by (auto simp: row_located_def)
  have "file_sst_id base info = base + word_of_nat (sst_index info)" by (simp add: file_sst_id_def)
  then have en: "reg' (file_sst_id base info) = Some (entry_of_image (ps ! sst_index info) ?x)"
    using reg bs(4) len by (simp add: registered_def)
  let ?en = "entries (snd ?x) ! ?b"
  have hb: "?b < length (entries (snd ?x))" "unat (block_len ?en) = length bs"
    "unat (file_offset ?en) + length bs \<le> length (fst ?x)" "take (length bs) (drop (unat (file_offset ?en)) (fst ?x)) = bs"
    using bs(3) by (auto simp: holds_block_def Let_def)
  have u: "unat (ucast (block_no info) :: u64) = ?b"
    by (simp add: unsigned_ucast_eq take_bit_nat_eq_self less_trans [OF unsigned_less [of "block_no info", simplified]])
  then have "get_block (snd ?x) (ucast (block_no info)) = Some ?en" using hb(1) by (simp add: get_block_def)
  moreover have "take (length bs) (drop (unat (file_offset ?en)) (file_of ?x)) = bs"
    using hb(3,4) by (simp add: file_of_def)
  ultimately show ?thesis
    using en hb(2) d block_image_value [OF bs(1) ok bs(2) r]
    by (simp add: read_value_def entry_of_image_def io_read_sync_def)
qed

definition bury :: "(bytes \<rightharpoonup> cell) \<Rightarrow> (bytes \<rightharpoonup> cell)" where
  "bury m k = (case m k of Some Deleted \<Rightarrow> Some Buried | c \<Rightarrow> c)"

text \<open>Blocks of rows over the given keys and values stay below 4 GiB.\<close>

definition blocks_small ::
  "(bytes \<Rightarrow> u64) \<Rightarrow> zstd_lib \<Rightarrow> columnar_registration list \<Rightarrow> bytes set \<Rightarrow> bytes set \<Rightarrow> bool" where
  "blocks_small h Z regs K V \<longleftrightarrow>
     (\<forall>c bs. distinct (map fst c) \<and> fst ` set c \<subseteq> K \<and> row_value ` set c \<subseteq> insert [] V \<and> block_image h Z regs c bs
        \<longrightarrow> length bs < 2 ^ 32)"

lemma mm_get_active: "sealed_queue m = [] \<Longrightarrow> mm_get h m k = mt_get h (active m) k"
  by (cases "mt_get h (active m) k") (simp_all add: mm_get_def)

lemma sealed_flushed:
  assumes "mm_invar h m" and "sealed_queue m = []"
  defines "m' \<equiv> on_flush_complete (mt_size (active m)) (seal_active m)"
  shows "mm_invar h m'" "sealed_queue m' = []" "mm_get h m' k = None" "active m' = new_memtable (mm_seal_threshold m)"
proof -
  have "\<not> sealed (active m)" using assms(1) by (simp add: mm_invar_def)
  then have q: "sealed_queue m' = []" "active m' = new_memtable (mm_seal_threshold m)"
    using assms(2) by (simp_all add: m'_def on_flush_complete_def seal_active_def Let_def)
  then show "sealed_queue m' = []" "mm_invar h m'" "active m' = new_memtable (mm_seal_threshold m)" by (simp_all add: mm_invar_def)
  show "mm_get h m' k = None" using q by (simp add: mm_get_active mt_get_abs)
qed

text \<open>The rows of a memtable over \<open>K\<close> and \<open>V\<close> and their chunks.\<close>

lemma active_rows:
  assumes rel: "store_rel Z L K V n s m" and "finite K" and fits: "\<forall>k \<in> K. length k < 2 ^ 32" "\<forall>v \<in> V. length v < 2 ^ 32"
    and card: "card K < 2 ^ 29"
  defines "es \<equiv> iter_all (active (memtable_mgr (core s)))"
  shows "(k, vv) \<in> set es \<longleftrightarrow> mt_lookup (xxh3_64 L) (active (memtable_mgr (core s))) k = Some vv"
    and "(k, vv) \<in> set es \<Longrightarrow> mm_get (xxh3_64 L) (memtable_mgr (core s)) k = Some (vvalue vv) \<and> k \<in> K \<and> row_value (k, vv) \<in> insert [] V"
    and "distinct (map fst es)" and "rows_fit es" and "length es \<le> card K"
proof -
  note r = store_relD [OF rel]
  have inv: "mt_invar (xxh3_64 L) (active (memtable_mgr (core s)))" using r(1) by (simp add: mm_invar_def)
  show e: "(k, vv) \<in> set es \<longleftrightarrow> mt_lookup (xxh3_64 L) (active (memtable_mgr (core s))) k = Some vv" for k vv
    unfolding es_def by (rule iter_all_entry [OF inv])
  show g: "mm_get (xxh3_64 L) (memtable_mgr (core s)) k = Some (vvalue vv) \<and> k \<in> K \<and> row_value (k, vv) \<in> insert [] V"
    if "(k, vv) \<in> set es" for k vv
  proof -
    have "mm_get (xxh3_64 L) (memtable_mgr (core s)) k = Some (vvalue vv)"
      using that e r(2) by (simp add: mm_get_active mt_get_def)
    then show ?thesis using r(8) by (auto simp: row_value_def split: option.splits)
  qed
  show d: "distinct (map fst es)"
    unfolding es_def using iter_all_sorted [OF inv] strict_sorted_iff by blast
  have sub: "fst ` set es \<subseteq> K" using g by auto
  have "length es = card (fst ` set es)" using d by (metis distinct_card length_map set_map)
  then show "length es \<le> card K" using card_mono [OF assms(2) sub] by simp
  then show "rows_fit es" using card fits g by (fastforce simp: rows_fit_def)
qed

lemma map_of_rev_distinct: "distinct (map fst xs) \<Longrightarrow> (k, v) \<in> set xs \<Longrightarrow> map_of (rev xs) k = Some v"
  by (metis map_of_eq_Some_iff distinct_rev rev_map set_rev)

lemma chunk_rows:
  assumes "c \<in> set (split_into_blocks es cfg regs)"
  shows "set c \<subseteq> set es" "distinct (map fst es) \<Longrightarrow> distinct (map fst c)" "rows_fit es \<Longrightarrow> rows_fit c"
proof -
  obtain xs ys where "split_into_blocks es cfg regs = xs @ c # ys" using assms by (meson split_list)
  then have es: "es = concat xs @ c @ concat ys" using split_facts(1) [of es cfg regs] by simp
  then show "set c \<subseteq> set es" "distinct (map fst es) \<Longrightarrow> distinct (map fst c)" "rows_fit es \<Longrightarrow> rows_fit c"
    by (auto simp: rows_fit_def)
qed

text \<open>The state of a key after the flush: flushed rows are read from their file, the others are
  where they were.\<close>

definition flush_target :: "bytes \<Rightarrow> row_location \<Rightarrow> row_entry list list \<Rightarrow> u64 \<Rightarrow> sst_block_info list \<Rightarrow> bool" where
  "flush_target k loc cs first_id infos \<longleftrightarrow>
     (\<exists>j r. j < length cs \<and> r < length (cs ! j) \<and> k = fst (cs ! j ! r)
        \<and> loc = SstLoc (file_sst_id first_id (infos ! j)) (ucast (block_no (infos ! j))) (word_of_nat r))"

lemma index_flush:
  assumes idx: "key_space K \<and> n + length es \<le> 65001 \<and> art_ok K (n + length es) t" and keys: "fst ` set es \<subseteq> K" "distinct (map fst es)"
    and cs: "concat cs = es" "length infos = length cs" "\<forall>j < length cs. info_rows (infos ! j) = length (cs ! j)"
  shows "\<exists>g t'. index_blocks es first_id infos (0, t) = Some (g, t') \<and> (key_space K \<and> n \<le> 65001 \<and> art_ok K n t')
    \<and> (\<forall>k. if k \<in> fst ` set es then \<exists>loc. art_lookup t' k = Some loc \<and> flush_target k loc cs first_id infos
           else art_lookup t' k = art_lookup t k)"
proof -
  have sum: "sum_list (map info_rows infos) = length es" using sum_info_rows [OF cs(2,3)] cs(1) by simp
  define ts where "ts = block_targets es first_id 0 infos"
  have fst_ts: "map fst ts = map fst es" unfolding ts_def using fst_block_targets [of 0 infos es first_id] sum by simp
  then have len: "length ts = length es" by (metis length_map)
  have "fst ` set ts \<subseteq> K" using fst_ts keys(1) by (metis set_map)
  then have adm: "\<forall>(k, v) \<in> set ts. k \<in> K" by auto
  from aix.insert_list_ok [OF _ adm, of n t] idx len obtain t' where t': "aix.insert_list ts t = Some t'"
    "key_space K \<and> n \<le> 65001 \<and> art_ok K n t'" "art_lookup t' = art_lookup t ++ map_of (rev ts)" by auto
  have ib: "index_blocks es first_id infos (0, t) = Some (length es, t')"
    using index_blocks_list [of 0 infos es first_id t] sum t'(1) by (simp add: ts_def)
  have "if k \<in> fst ` set es then \<exists>loc. art_lookup t' k = Some loc \<and> flush_target k loc cs first_id infos
     else art_lookup t' k = art_lookup t k" for k
  proof (cases "k \<in> fst ` set es")
    case True
    then have "k \<in> set (map fst ts)" using fst_ts by simp
    then obtain loc where loc: "(k, loc) \<in> set ts" by auto
    have "distinct (map fst ts)" using fst_ts keys(2) by simp
    then have "map_of (rev ts) k = Some loc" using loc by (rule map_of_rev_distinct)
    moreover have "flush_target k loc cs first_id infos"
      using block_targets_sound [OF cs(2,3), of 0 es k loc first_id] loc cs(1) by (simp add: ts_def flush_target_def)
    ultimately show ?thesis using True t'(3) by (simp add: map_add_def)
  next
    case False
    then have "k \<notin> fst ` set ts" using fst_ts by (metis set_map)
    then have "map_of (rev ts) k = None" by (simp add: map_of_eq_None_iff)
    then show ?thesis using False t'(3) by (simp add: map_add_def)
  qed
  then show ?thesis using ib t'(2) by blast
qed

lemma flushed_key_rel:
  assumes rel: "store_rel Z L K V n s m" and fin: "finite K" and fits: "\<forall>k \<in> K. length k < 2 ^ 32" "\<forall>v \<in> V. length v < 2 ^ 32"
    and cK: "card K < 2 ^ 29" and Z: "zstd_ok Z" and regs: "regs_ok regs"
    and es: "es = iter_all (active (memtable_mgr (core s)))" and cs: "cs = split_into_blocks es cfg regs"
    and fl: "flushed (xxh3_64 L) Z regs cs files res (block_counter s) n1 (data_dir s) d1"
    and reg: "registered (next_sst_id s) (sst_paths res) files (sst_registry s) reg'"
    and idx: "if k \<in> fst ` set es then \<exists>loc. art_lookup t' k = Some loc \<and> flush_target k loc cs (next_sst_id s) (block_map res)
           else art_lookup t' k = art_lookup (art_index (core s)) k"
  shows "key_rel Z L d1 reg' (art_lookup t' k) None (bury m k)"
proof -
  note r = store_relD [OF rel] and ar = active_rows [OF rel fin fits cK, folded es]
  show ?thesis
  proof (cases "k \<in> fst ` set es")
    case True
    then obtain j i where ji: "j < length cs" "i < length (cs ! j)" "k = fst (cs ! j ! i)"
      "art_lookup t' k = Some (SstLoc (file_sst_id (next_sst_id s) (block_map res ! j)) (ucast (block_no (block_map res ! j))) (word_of_nat i))"
      using idx by (auto simp: flush_target_def)
    let ?info = "block_map res ! j" and ?e = "cs ! j ! i"
    have c: "cs ! j \<in> set cs" using ji(1) by simp
    note cr = chunk_rows [OF c [unfolded cs], folded cs]
    have rl: "row_located (xxh3_64 L) Z regs files (cs ! j) ?info" using fl ji(1) by (simp add: flushed_def)
    then have "sst_index ?info < length files" by (simp add: row_located_def)
    then have d: "length (sst_paths res) = length files" "d1 (sst_paths res ! sst_index ?info) = Some (file_of (files ! sst_index ?info))"
      using fl by (auto simp: flushed_def)
    note rv = read_value_flushed [where d = d1, OF rl reg d regs cr(3) [OF ar(4)] Z ji(2)]
    have "?e \<in> set es" using cr(1) ji(2) by (meson nth_mem subsetD)
    then have g: "mm_get (xxh3_64 L) (memtable_mgr (core s)) k = Some (vvalue (snd ?e))" using ar(2) ji(3) by (metis prod.collapse)
    show ?thesis
    proof (cases "vvalue (snd ?e)")
      case None
      then have "m k = Some Deleted" using g r(9) [of k] by (auto simp: key_rel_def split: option.splits row_location.splits)
      then show ?thesis using rv None by (simp add: ji(4) key_rel_def bury_def row_value_def)
    next
      case (Some v)
      then have "m k = Some (Live v)" using g r(9) [of k] by (auto simp: key_rel_def split: option.splits row_location.splits)
      then show ?thesis using rv Some by (simp add: ji(4) key_rel_def bury_def row_value_def)
    qed
  next
    case False
    then have lk: "art_lookup t' k = art_lookup (art_index (core s)) k" using idx by simp
    have g: "mm_get (xxh3_64 L) (memtable_mgr (core s)) k = None"
    proof (cases "mt_lookup (xxh3_64 L) (active (memtable_mgr (core s))) k")
      case None
      then show ?thesis using r(2) by (simp add: mm_get_active mt_get_def)
    next
      case (Some vv)
      then have "(k, vv) \<in> set es" using ar(1) by blast
      then show ?thesis using False by force
    qed
    show ?thesis
    proof (cases "art_lookup (art_index (core s)) k")
      case None
      then show ?thesis using lk r(9) [of k] g by (simp add: key_rel_def bury_def)
    next
      case (Some loc)
      then obtain a b i where l0: "loc = SstLoc a b i" using g r(9) [of k] by (auto simp: key_rel_def split: row_location.splits)
      have lt: "a < next_sst_id s" using r(10) [of k a b i] Some l0 by simp
      show ?thesis
      proof (cases "sst_registry s a")
        case None
        then have "reg' a = None" using reg lt by (simp add: registered_def)
        then show ?thesis using None Some lk l0 g r(9) [of k] by (simp add: key_rel_def bury_def)
      next
        case (Some en)
        then have l: "loc = SstLoc a b i" "sst_registry s a = Some en" using l0 by simp_all
      have "a < next_sst_id s" "sst_path en < block_counter s" using r(7) [OF l(2)] by auto
      then have "reg' a = sst_registry s a" "d1 (sst_path en) = data_dir s (sst_path en)"
        using reg fl by (auto simp: registered_def flushed_def)
      then show ?thesis
        using lk r(9) [of k] g \<open>art_lookup (art_index (core s)) k = Some loc\<close> l
          read_value_frame [of "sst_registry s" a en reg' d1 "data_dir s"]
        by (auto simp: key_rel_def bury_def)
      qed
    qed
  qed
qed

text \<open>What a successful flush changes.\<close>

definition flush_shape :: "zstd_lib \<Rightarrow> wal_lib \<Rightarrow> sst_engine \<Rightarrow> sst_engine \<Rightarrow> bool" where
  "flush_shape Z L s s' \<longleftrightarrow>
     (let es = iter_all (active (memtable_mgr (core s)))
      in if es = [] then s' = s
         else next_timestamp (core s') = next_timestamp (core s)
           \<and> active (memtable_mgr (core s')) = new_memtable (mm_seal_threshold (memtable_mgr (core s)))
           \<and> (\<exists>files res. flushed (xxh3_64 L) Z (columnar s) (split_into_blocks es (se_config s) (columnar s)) files res
                (block_counter s) (block_counter s') (data_dir s) (data_dir s')
                \<and> registered (next_sst_id s) (sst_paths res) files (sst_registry s) (sst_registry s')))"

lemma store_flush_rel:
  assumes rel: "store_rel Z L K V (n + card K) s m" and fin: "finite K" and fits: "\<forall>k \<in> K. length k < 2 ^ 32" "\<forall>v \<in> V. length v < 2 ^ 32"
    and Z: "zstd_ok Z" "\<forall>raw. encode_all Z raw \<noteq> None" and io: "\<forall>p. io p = None"
    and regs: "regs_ok (columnar s)" "blocks_small (xxh3_64 L) Z (columnar s) K V" and bg: "bg_worker_active s"
  shows "\<exists>c s'. engine_flush Z L io compact s = Some (Inr c, s') \<and> store_rel Z L K V n s' (bury m) \<and> flush_shape Z L s s'
    \<and> columnar s' = columnar s \<and> se_config s' = se_config s \<and> bg_worker_active s' = bg_worker_active s"
proof -
  note r = store_relD [OF rel]
  have cK: "card K < 2 ^ 29" using r(3) by simp
  let ?mm = "memtable_mgr (core s)"
  define es where "es = iter_all (active ?mm)"
  note ar = active_rows [OF rel fin fits cK, folded es_def]
  show ?thesis
  proof (cases "es = []")
    case True
    then have "mm_get (xxh3_64 L) ?mm k = None" for k
      using ar(1) r(2) by (simp add: mm_get_active mt_get_def) (meson not_None_eq)
    then have "m k \<noteq> Some Deleted" for k
      using r(9) [of k] by (auto simp: key_rel_def split: option.splits row_location.splits)
    then have "bury m = m" by (auto simp: bury_def fun_eq_iff split: option.splits cell.splits)
    then show ?thesis using True store_rel_mono [OF rel, of n] by (auto simp: engine_flush_def es_def flush_shape_def)
  next
    case False
    define cs where "cs = split_into_blocks es (se_config s) (columnar s)"
    have small: "\<forall>c \<in> set cs. \<forall>bs. block_image (xxh3_64 L) Z (columnar s) c bs \<longrightarrow> length bs < 2 ^ 32"
    proof (intro ballI allI impI)
      fix c bs
      assume c: "c \<in> set cs" and b: "block_image (xxh3_64 L) Z (columnar s) c bs"
      note cr = chunk_rows [OF c [unfolded cs_def]]
      have "fst ` set c \<subseteq> K" "row_value ` set c \<subseteq> insert [] V" using cr(1) ar(2) by auto
      then show "length bs < 2 ^ 32" using regs(2) b cr(2) [OF ar(3)] unfolding blocks_small_def by blast
    qed
    have bc: "unat (block_counter s) < 2 ^ 63" using r(4) by simp
    from flush_memtable_ok [of "active ?mm" io Z "columnar s" "se_config s" "xxh3_64 L" "block_counter s" "data_dir s" "next_sst_id s"]
    obtain res n1 d1 files where fl: "flush_memtable (xxh3_64 L) Z io (active ?mm) (se_config s) (next_sst_id s) (columnar s)
        (block_counter s) (data_dir s) = Some (Inr res, n1, d1)"
      "flushed (xxh3_64 L) Z (columnar s) cs files res (block_counter s) n1 (data_dir s) d1"
      using False io Z(2) ar(4) regs(1) small bc r(6) unfolding es_def [symmetric] cs_def by blast
    have ccs: "concat cs = es" "length cs \<le> length es" by (simp_all add: cs_def split_facts length_chunks)
    have infos: "length (block_map res) = length cs" "\<forall>j < length cs. info_rows (block_map res ! j) = length (cs ! j)"
      using fl(2) by (auto simp: flushed_def row_located_def)
    have len: "length files = length (sst_paths res)" "length files \<le> length es" using fl(2) ccs by (auto simp: flushed_def)
    have "cs \<noteq> []" using ccs False by auto
    then have "row_located (xxh3_64 L) Z (columnar s) files (cs ! 0) (block_map res ! 0)" using fl(2) by (auto simp: flushed_def)
    then have ne: "sst_paths res \<noteq> []" using len by (auto simp: row_located_def)
    have esK: "length es \<le> card K" "card K \<le> 65001" using ar(5) r(3) by simp_all
    have img: "\<forall>j < length (sst_paths res). d1 (sst_paths res ! j) = Some (file_of (files ! j)) \<and> image_small (files ! j)"
    proof (intro allI impI)
      fix j assume j: "j < length (sst_paths res)"
      then have f: "d1 (sst_paths res ! j) = Some (file_of (files ! j))" "image_fits (length cs) (files ! j)"
        using fl(2) len by (auto simp: flushed_def)
      have "length cs < 2 ^ 31" using ccs(2) esK by simp
      then show "d1 (sst_paths res ! j) = Some (file_of (files ! j)) \<and> image_small (files ! j)"
        using f image_fits_size [OF f(2)] by (simp add: image_small_def)
    qed
    have idlen: "unat (next_sst_id s) + length (sst_paths res) + 1 < 2 ^ 64" using r(5) len esK by simp
    obtain reg' where reg': "register_files d1 (next_sst_id s) 0 (sst_paths res) (next_sst_id s + 1, sst_registry s)
        = Some (Inr (), next_sst_id s + word_of_nat (length (sst_paths res)), reg')"
      "registered (next_sst_id s) (sst_paths res) files (sst_registry s) reg'"
      using register_flush_files [OF len(1) ne img idlen] by blast
    have keys: "fst ` set es \<subseteq> K" using ar(2) by auto
    have idx0: "key_space K \<and> n + length es \<le> 65001 \<and> art_ok K (n + length es) (art_index (core s))"
      using r(3) esK art_ok_mono [of K "n + card K" "art_index (core s)" "n + length es"] by auto
    from index_flush [OF idx0 keys ar(3) ccs(1) infos, of "next_sst_id s"] obtain g t' where
      t': "index_blocks es (next_sst_id s) (block_map res) (0, art_index (core s)) = Some (g, t')"
      "key_space K \<and> n \<le> 65001 \<and> art_ok K n t'"
      "\<forall>k. if k \<in> fst ` set es then \<exists>loc. art_lookup t' k = Some loc \<and> flush_target k loc cs (next_sst_id s) (block_map res)
         else art_lookup t' k = art_lookup (art_index (core s)) k" by blast
    define mm' where "mm' = on_flush_complete (mt_size (active ?mm)) (seal_active ?mm)"
    note sf = sealed_flushed [OF r(1,2), folded mm'_def]
    let ?next = "next_sst_id s + word_of_nat (length (sst_paths res))"
    define s' where "s' = s\<lparr>next_sst_id := ?next, block_counter := n1, data_dir := d1, sst_registry := reg',
      core := (core s)\<lparr>art_index := t', memtable_mgr := mm'\<rparr>\<rparr>"
    have step: "engine_flush Z L io compact s = Some (Inr (word_of_nat (rows_flushed res)), s')"
      using False fl(1) reg'(1) t'(1) bg by (simp add: engine_flush_def es_def [symmetric] Let_def s'_def mm'_def)
    have n1: "unat n1 + 2 * n \<le> 200000" "block_counter s \<le> n1"
      using fl(2) r(4) ccs(2) esK by (auto simp: flushed_def)
    have nx: "unat ?next = unat (next_sst_id s) + length (sst_paths res)" using idlen by (intro unat_plus_nat) simp
    have paths: "sst_path en < n1 \<and> i < ?next" if en: "reg' i = Some en" for i en
    proof -
      consider "sst_registry s i = Some en"
        | j where "j < length (sst_paths res)" "i = next_sst_id s + word_of_nat j" "sst_path en = sst_paths res ! j"
        using reg'(2) en unfolding registered_def by blast
      then show ?thesis
      proof cases
        case 1
        then show ?thesis using r(7) [OF 1] n1(2) nx by (auto simp: word_less_nat_alt word_le_nat_alt)
      next
        case 2
        then have "unat i = unat (next_sst_id s) + j" using idlen by (simp add: unat_plus_nat)
        then show ?thesis using 2 fl(2) nx by (auto simp: flushed_def word_less_nat_alt)
      qed
    qed
    have "store_rel Z L K V n s' (bury m)"
      unfolding store_rel_def
    proof (intro conjI allI impI)
      fix k
      show "key_rel Z L (data_dir s') (sst_registry s') (art_lookup (art_index (core s')) k)
          (mm_get (xxh3_64 L) (memtable_mgr (core s')) k) (bury m k)"
        using flushed_key_rel [OF rel fin fits cK Z(1) regs(1) es_def cs_def fl(2) reg'(2) t'(3) [THEN spec]]
        by (simp add: s'_def sf(3))
    next
      fix k a b i
      assume l: "art_lookup (art_index (core s')) k = Some (SstLoc a b i)"
      have "k \<in> K \<and> a < ?next"
      proof (cases "k \<in> fst ` set es")
        case True
        then have "\<exists>loc. art_lookup t' k = Some loc \<and> flush_target k loc cs (next_sst_id s) (block_map res)"
          using t'(3) [rule_format, of k] by simp
        then obtain j where j: "j < length cs" "a = file_sst_id (next_sst_id s) (block_map res ! j)"
          using l by (auto simp: s'_def flush_target_def)
        have "sst_index (block_map res ! j) < length (sst_paths res)"
          using fl(2) j(1) len by (auto simp: flushed_def row_located_def)
        then have "unat a < unat ?next" using idlen ne by (simp add: j(2) file_sst_id_def nx unat_plus_nat)
        then show ?thesis using True keys by (auto simp: word_less_nat_alt)
      next
        case False
        then have "art_lookup (art_index (core s)) k = Some (SstLoc a b i)" using t'(3) [rule_format, of k] l by (simp add: s'_def)
        from r(10) [OF this] show ?thesis using nx by (auto simp: word_less_nat_alt)
      qed
      then show "k \<in> K" "a < next_sst_id s'" by (simp_all add: s'_def)
    qed (use sf t'(2) n1 nx r(5) len esK paths fl(2) r(6) in \<open>auto simp: s'_def flushed_def\<close>)
    moreover have "flush_shape Z L s s'"
      using False fl(2) reg'(2) sf(4) by (auto simp: flush_shape_def Let_def es_def [symmetric] cs_def s'_def)
    ultimately show ?thesis using step by (auto simp: s'_def)
  qed
qed

section \<open>Opening and runs\<close>

text \<open>Discovery of the SST files in the order \<open>listing\<close> of the directory; a file keeps the
  number in its name as its id.\<close>

fun discover :: "sst_dir \<Rightarrow> u64 list \<Rightarrow> sst_registry \<times> u64 \<Rightarrow> (galax_error + sst_registry \<times> u64) option" where
  "discover d [] x = Some (Inr x)"
| "discover d (i # listing) (reg, max_sst_id) =
     (case register d i i reg of
        None \<Rightarrow> None
      | Some (Inl e) \<Rightarrow> Some (Inl e)
      | Some (Inr reg) \<Rightarrow> discover d listing (reg, if i > max_sst_id then i else max_sst_id))"

definition next_id_after :: "u64 \<Rightarrow> u64" where
  "next_id_after mx = max (if mx = - 1 then mx else mx + 1) 1"

text \<open>\<open>Engine::new\<close> with its data directory; \<open>next_block\<close> is the value of the process-wide
  counter.\<close>

definition open_store ::
  "wal_lib \<Rightarrow> engine_config \<Rightarrow> flush_config \<Rightarrow> bytes option \<Rightarrow> u64 list \<Rightarrow> sst_dir \<Rightarrow> u64 \<Rightarrow> (galax_error + sst_engine) option" where
  "open_store L cfg fcfg wal_path listing d next_block =
     (case new_wal_writer L engine_wal_config wal_path of
        Inl err \<Rightarrow> Some (Inl (Io err))
      | Inr _ \<Rightarrow>
        (case discover d listing (Map.empty, 0) of
           None \<Rightarrow> None
         | Some (Inl e) \<Rightarrow> Some (Inl e)
         | Some (Inr (reg, mx)) \<Rightarrow>
           (case engine_new L cfg wal_path of
              None \<Rightarrow> None
            | Some (Inl e) \<Rightarrow> Some (Inl e)
            | Some (Inr e) \<Rightarrow>
              Some (Inr \<lparr>core = e, sst_registry = reg, next_sst_id = next_id_after mx, columnar = [],
                         bg_worker_active = False, data_dir = d, block_counter = next_block, se_config = fcfg\<rparr>))))"

definition start_background_compaction :: "sst_engine \<Rightarrow> sst_engine" where
  "start_background_compaction s = s\<lparr>bg_worker_active := True\<rparr>"

text \<open>The state in which the database layer uses the engine: tables registered, worker started.\<close>

definition prepare :: "(bytes \<times> splitter) list \<Rightarrow> sst_engine \<Rightarrow> sst_engine" where
  "prepare tables s = start_background_compaction (fold (\<lambda>(p, S). register_columnar_table p S) tables s)"

definition table_regs :: "(bytes \<times> splitter) list \<Rightarrow> columnar_registration list" where
  "table_regs tables =
     fold (\<lambda>(p, S) regs. filter (\<lambda>r. cr_prefix r \<noteq> p) regs @ [\<lparr>cr_prefix = p, cr_splitter = S\<rparr>]) tables []"

datatype store_op = SPut bytes bytes | SDelete bytes | SFlush

fun store_step ::
  "zstd_lib \<Rightarrow> wal_lib \<Rightarrow> (sst_engine \<Rightarrow> sst_engine) \<Rightarrow> store_op \<Rightarrow> sst_engine \<Rightarrow> sst_engine option" where
  "store_step Z L compact (SPut k v) s = (case store_put L k v s of Some (Inr _, s') \<Rightarrow> Some s' | _ \<Rightarrow> None)"
| "store_step Z L compact (SDelete k) s = (case store_delete L k s of Some (Inr _, s') \<Rightarrow> Some s' | _ \<Rightarrow> None)"
| "store_step Z L compact SFlush s =
     (case engine_flush Z L (\<lambda>_. None) compact s of Some (Inr _, s') \<Rightarrow> Some s' | _ \<Rightarrow> None)"

fun store_run ::
  "zstd_lib \<Rightarrow> wal_lib \<Rightarrow> (sst_engine \<Rightarrow> sst_engine) \<Rightarrow> store_op list \<Rightarrow> sst_engine \<Rightarrow> sst_engine option" where
  "store_run Z L compact [] s = Some s"
| "store_run Z L compact (p # ps) s = Option.bind (store_step Z L compact p s) (store_run Z L compact ps)"

fun cell_step :: "store_op \<Rightarrow> (bytes \<rightharpoonup> cell) \<Rightarrow> (bytes \<rightharpoonup> cell)" where
  "cell_step (SPut k v) m = m(k \<mapsto> Live v)"
| "cell_step (SDelete k) m = (if indexed (m k) then m(k \<mapsto> Deleted) else m)"
| "cell_step SFlush m = bury m"

fun store_keys :: "store_op \<Rightarrow> bytes set" where
  "store_keys (SPut k v) = {k}" | "store_keys (SDelete k) = {k}" | "store_keys SFlush = {}"

fun store_values :: "store_op \<Rightarrow> bytes set" where
  "store_values (SPut k v) = {v}" | "store_values (SDelete k) = {}" | "store_values SFlush = {}"

definition store_env :: "zstd_lib \<Rightarrow> wal_lib \<Rightarrow> columnar_registration list \<Rightarrow> bytes set \<Rightarrow> bytes set \<Rightarrow> bool" where
  "store_env Z L regs K V \<longleftrightarrow> finite K \<and> (\<forall>k \<in> K. length k < 2 ^ 32) \<and> (\<forall>v \<in> V. length v < 2 ^ 32)
     \<and> zstd_ok Z \<and> (\<forall>raw. encode_all Z raw \<noteq> None) \<and> regs_ok regs \<and> blocks_small (xxh3_64 L) Z regs K V"

lemma store_step_rel:
  assumes env: "store_env Z L (columnar s) K V" and bg: "bg_worker_active s"
    and rel: "store_rel Z L K V (n + Suc (card K)) s m" and op: "store_keys p \<subseteq> K" "store_values p \<subseteq> V"
  shows "\<exists>s'. store_step Z L compact p s = Some s' \<and> store_rel Z L K V n s' (cell_step p m)
    \<and> columnar s' = columnar s \<and> bg_worker_active s'"
proof (cases p)
  case (SPut k v)
  have "store_rel Z L K V (Suc n) s m" using store_rel_mono [OF rel, of "Suc n"] by simp
  from store_put_rel [OF this, of k v] SPut op bg show ?thesis by auto
next
  case (SDelete k)
  have "store_rel Z L K V n s m" using store_rel_mono [OF rel, of n] by simp
  from store_delete_rel [OF this, of k] SDelete op bg show ?thesis by auto
next
  case SFlush
  have "store_rel Z L K V (n + card K) s m" using store_rel_mono [OF rel, of "n + card K"] by simp
  from store_flush_rel [OF this, of "\<lambda>_. None" compact] env bg SFlush show ?thesis
    by (auto simp: store_env_def)
qed

lemma store_run_rel:
  "store_env Z L (columnar s) K V \<Longrightarrow> bg_worker_active s \<Longrightarrow>
     store_rel Z L K V (n + length ps * Suc (card K)) s m \<Longrightarrow>
     \<forall>p \<in> set ps. store_keys p \<subseteq> K \<and> store_values p \<subseteq> V \<Longrightarrow>
     \<exists>s'. store_run Z L compact ps s = Some s' \<and> store_rel Z L K V n s' (fold cell_step ps m)"
proof (induction ps arbitrary: s m)
  case Nil
  then show ?case by auto
next
  case (Cons p ps)
  have "store_rel Z L K V (n + length ps * Suc (card K) + Suc (card K)) s m" using Cons.prems(3) by (simp add: algebra_simps)
  from store_step_rel [OF Cons.prems(1,2) this, of p compact] Cons.prems(4) obtain s1 where
    s1: "store_step Z L compact p s = Some s1" "store_rel Z L K V (n + length ps * Suc (card K)) s1 (cell_step p m)"
    "columnar s1 = columnar s" "bg_worker_active s1" by auto
  from Cons.IH [OF _ s1(4,2)] s1(1,3) Cons.prems(1,4) show ?case by simp
qed

lemma prepare_simps [simp]:
  "core (prepare tables s) = core s" "sst_registry (prepare tables s) = sst_registry s"
  "next_sst_id (prepare tables s) = next_sst_id s" "data_dir (prepare tables s) = data_dir s"
  "block_counter (prepare tables s) = block_counter s" "bg_worker_active (prepare tables s)"
proof -
  let ?f = "fold (\<lambda>(p, S). register_columnar_table p S)"
  have "core (?f ts s) = core s \<and> sst_registry (?f ts s) = sst_registry s \<and> next_sst_id (?f ts s) = next_sst_id s
      \<and> data_dir (?f ts s) = data_dir s \<and> block_counter (?f ts s) = block_counter s" for ts
    by (induction ts arbitrary: s) (auto simp: register_columnar_table_def)
  then show "core (prepare tables s) = core s" "sst_registry (prepare tables s) = sst_registry s"
    "next_sst_id (prepare tables s) = next_sst_id s" "data_dir (prepare tables s) = data_dir s"
    "block_counter (prepare tables s) = block_counter s" "bg_worker_active (prepare tables s)"
    by (simp_all add: prepare_def start_background_compaction_def)
qed

lemma columnar_prepare: "columnar s = [] \<Longrightarrow> columnar (prepare tables s) = table_regs tables"
proof -
  have "columnar (fold (\<lambda>(p, S). register_columnar_table p S) ts s)
      = fold (\<lambda>(p, S) regs. filter (\<lambda>r. cr_prefix r \<noteq> p) regs @ [\<lparr>cr_prefix = p, cr_splitter = S\<rparr>]) ts (columnar s)" for ts
    by (induction ts arbitrary: s) (auto simp: register_columnar_table_def)
  then show "columnar s = [] \<Longrightarrow> columnar (prepare tables s) = table_regs tables"
    by (simp add: prepare_def start_background_compaction_def table_regs_def)
qed

lemma fresh_engine:
  assumes "lz4_ok L"
  obtains w where "new_wal_writer L engine_wal_config None = Inr w"
    "engine_new L cfg None = Some (Inr ((empty_engine cfg w)\<lparr>next_timestamp := max 1 1\<rparr>))"
proof -
  obtain w where w: "new_wal_writer L engine_wal_config None = Inr w" "wal_inv L w []"
    using new_wal_writer_fresh [where wal_path = None, OF assms] by metis
  have "recover_wal L (Some (wal_file w)) = Inr ([], max_seq_of 0 [] + 1)"
    using wal_inv_recover [OF assms w(2)] w(2) by (simp add: wal_inv_def after_checkpoint_def)
  then show ?thesis using that [of w] w(1) by (simp add: engine_new_def empty_engine_def)
qed

lemma fresh_store:
  assumes "lz4_ok L" "key_space K" "n \<le> 65000"
  shows "\<exists>s. open_store L cfg fcfg None [] Map.empty 1 = Some (Inr s) \<and> columnar s = []
    \<and> store_rel Z L K V n (prepare tables s) Map.empty"
proof -
  obtain w where w: "new_wal_writer L engine_wal_config None = Inr w"
    "engine_new L cfg None = Some (Inr ((empty_engine cfg w)\<lparr>next_timestamp := max 1 1\<rparr>))"
    by (rule fresh_engine [OF assms(1)])
  have m: "memtable_mgr (empty_engine cfg w) = new_memtable_manager (memtable_size_bytes cfg) (ec_back_pressure_bytes cfg)"
    "art_index (empty_engine cfg w) = art_new" by (simp_all add: empty_engine_def)
  have "mm_get h (memtable_mgr (empty_engine cfg w)) k = None" "sealed_queue (memtable_mgr (empty_engine cfg w)) = []"
    "mm_invar h (memtable_mgr (empty_engine cfg w))" for h k
    unfolding m by (simp_all add: mm_get_abs) (simp add: new_memtable_manager_def)
  then show ?thesis
    using w assms(2,3) art_ok_new(1) [of K n] art_ok_new(2)
    by (simp add: open_store_def store_rel_def m key_rel_def next_id_after_def)
qed

text \<open>
  C3: The engine with flushes refines a map of cells. Start an engine in an empty directory,
  register any columnar tables, start the background worker and run a sequence of puts, deletes
  and flushes over keys none of which starts with another one followed by a zero byte. The number
  of operations times the number of distinct keys plus one is at most 65,000, the budget of the
  index; keys, values and blocks stay below 4 GiB; storage does not fail.
  Every operation succeeds and nothing panics: the PAX blocks, the SST files, their block
  indexes, the registry and the radix tree compose. Afterwards \<open>get\<close> returns for every key
  the value of its last put, read from memtable or file, and nothing for a key never written
  or deleted since the last flush; but a deleted key whose tombstone has been flushed is
  returned with an empty value.
\<close>

theorem store_refines:
  assumes "lz4_ok L" and "key_space (\<Union> (store_keys ` set ps))"
    and "length ps * Suc (card (\<Union> (store_keys ` set ps))) \<le> 65000"
    and "store_env Z L (table_regs tables) (\<Union> (store_keys ` set ps)) (\<Union> (store_values ` set ps))"
  shows "\<exists>s s'. open_store L cfg fcfg None [] Map.empty 1 = Some (Inr s)
    \<and> store_run Z L compact ps (prepare tables s) = Some s'
    \<and> (\<forall>k. engine_get Z L s' k = Some (visible (fold cell_step ps Map.empty k)))"
proof -
  let ?K = "\<Union> (store_keys ` set ps)" and ?V = "\<Union> (store_values ` set ps)"
  obtain s where s: "open_store L cfg fcfg None [] Map.empty 1 = Some (Inr s)" "columnar s = []"
    "store_rel Z L ?K ?V (0 + length ps * Suc (card ?K)) (prepare tables s) Map.empty"
    using fresh_store [OF assms(1,2), of "0 + length ps * Suc (card ?K)" cfg fcfg Z ?V tables] assms(3) by auto
  have env: "store_env Z L (columnar (prepare tables s)) ?K ?V" using assms(4) columnar_prepare [OF s(2)] by simp
  have ops: "\<forall>p \<in> set ps. store_keys p \<subseteq> ?K \<and> store_values p \<subseteq> ?V" by auto
  obtain s' where "store_run Z L compact ps (prepare tables s) = Some s'" "store_rel Z L ?K ?V 0 s' (fold cell_step ps Map.empty)"
    using store_run_rel [OF env _ s(3) ops] by auto
  then show ?thesis using s(1) engine_get_rel by blast
qed

text \<open>
  C26: A flush resurrects deleted keys. After a put and a delete of a key \<open>get\<close> returns
  nothing, but after the next flush it returns an empty value: the flush points the index at
  the tombstone row, and the SST read does not tell a tombstone from an empty value.
\<close>

theorem flush_resurrects_deleted:
  assumes "lz4_ok L" and "store_env Z L (table_regs tables) {k} {v}"
  shows "\<exists>s s1 s2. open_store L cfg fcfg None [] Map.empty 1 = Some (Inr s)
    \<and> store_run Z L compact [SPut k v, SDelete k] (prepare tables s) = Some s1 \<and> engine_get Z L s1 k = Some None
    \<and> store_run Z L compact [SFlush] s1 = Some s2 \<and> engine_get Z L s2 k = Some (Some [])"
proof -
  have ks: "key_space {k}" by (auto simp: key_space_def dest: prefix_length_le)
  obtain s where s: "open_store L cfg fcfg None [] Map.empty 1 = Some (Inr s)" "columnar s = []"
    "store_rel Z L {k} {v} 6 (prepare tables s) Map.empty"
    using fresh_store [OF assms(1) ks, of 6 cfg fcfg Z "{v}" tables] by auto
  have env: "store_env Z L (columnar (prepare tables s)) {k} {v}" using assms(2) columnar_prepare [OF s(2)] by simp
  have bg: "bg_worker_active (prepare tables s)" by simp
  obtain s0 where s0: "store_step Z L compact (SPut k v) (prepare tables s) = Some s0"
    "store_rel Z L {k} {v} 4 s0 [k \<mapsto> Live v]" "columnar s0 = columnar (prepare tables s)" "bg_worker_active s0"
    using store_step_rel [OF env bg, of 4 Map.empty "SPut k v" compact] s(3) by auto
  obtain s1 where s1: "store_step Z L compact (SDelete k) s0 = Some s1"
    "store_rel Z L {k} {v} 2 s1 [k \<mapsto> Deleted]" "columnar s1 = columnar s0" "bg_worker_active s1"
    using store_step_rel [of Z L s0 "{k}" "{v}" 2 "[k \<mapsto> Live v]" "SDelete k" compact] s0 env by (auto simp: indexed_def)
  obtain s2 where s2: "store_step Z L compact SFlush s1 = Some s2" "store_rel Z L {k} {v} 0 s2 (bury [k \<mapsto> Deleted])"
    using store_step_rel [of Z L s1 "{k}" "{v}" 0 "[k \<mapsto> Deleted]" SFlush compact] s1(2-4) s0(3) env
    by (auto simp: numeral_2_eq_2)
  have "engine_get Z L s1 k = Some None" "engine_get Z L s2 k = Some (Some [])"
    using engine_get_rel [OF s1(2), of k] engine_get_rel [OF s2(2), of k] by (simp_all add: visible_def bury_def)
  then show ?thesis using s(1) s0(1) s1(1) s2(1) by auto
qed

section \<open>Block sizes\<close>

text \<open>The documented bound on the output of the \<open>zstd\<close> crate, rounded up.\<close>

definition zstd_bounded :: "zstd_lib \<Rightarrow> bool" where
  "zstd_bounded Z \<longleftrightarrow> (\<forall>raw c. encode_all Z raw = Some c \<longrightarrow> length c \<le> 2 * length raw + 1024)"

lemma length_compress_none_le: "\<forall>v \<in> set vals. length v \<le> B \<Longrightarrow> length (compress_none vals) \<le> length vals * (4 + B)"
  by (induction vals) (auto simp: compress_none_def)

lemma zone_map_le: "\<forall>v \<in> set vals. length v \<le> B \<Longrightarrow> length (zmin (extract_zone_map t vals)) \<le> B \<and> length (zmax (extract_zone_map t vals)) \<le> B"
  using zone_map_in [of vals t] by (cases "vals = []") (auto simp: extract_zone_map_def)

lemma length_blob_descriptor:
  "cd_type d = Blob \<Longrightarrow> length (serialize_descriptor d) = 22 + length (zone_map_min d) + length (zone_map_max d)"
  by (simp add: serialize_descriptor_def dims_bytes_def)

lemma legacy_block_size:
  assumes w: "write_with_codecs h Z bid ts (entries_to_columns c) base_codecs = Some (Inr b)" and Z: "zstd_bounded Z"
    and len: "\<forall>e \<in> set c. length (fst e) \<le> B \<and> length (row_value e) \<le> B" and B: "8 \<le> B"
  shows "length (pax_serialize b) \<le> length c * (20 + 4 * B) + 6 * B + 2000"
proof -
  note p = write_parts [OF w]
  define ks vs tss where "ks = map fst c" and "vs = map row_value c" and "tss = map (\<lambda>e. to_le_bytes (timestamp (snd e))) c"
  have zip: "zip (entries_to_columns c) base_codecs = [(\<lparr>col_type = Blob, col_values = ks\<rparr>, Zstd),
      (\<lparr>col_type = Blob, col_values = vs\<rparr>, NoCodec), (\<lparr>col_type = Blob, col_values = tss\<rparr>, NoCodec)]"
    by (simp add: entries_to_columns_alt base_codecs_def ks_def vs_def tss_def)
  have le: "\<forall>v \<in> set ks. length v \<le> B" "\<forall>v \<in> set vs. length v \<le> B" "\<forall>v \<in> set tss. length v \<le> B"
    using len B by (auto simp: ks_def vs_def tss_def)
  obtain z where z: "encode_all Z (compress_none ks) = Some z"
    using p(4) unfolding zip by (cases "encode_all Z (compress_none ks)") (simp_all add: compress_def compress_zstd_def Let_def)
  obtain ds data where eq: "column_descriptors (header b) = ds" "column_data b = data" by simp
  have cd: "length (column_data b) = 4 + length z + length (compress_none vs) + length (compress_none tss)"
    and ds: "map cd_type (column_descriptors (header b)) = [Blob, Blob, Blob]"
      "\<forall>d \<in> set (column_descriptors (header b)). length (zone_map_min d) \<le> B \<and> length (zone_map_max d) \<le> B"
    using p(4) zone_map_le [OF le(1), of Blob] zone_map_le [OF le(2), of Blob] zone_map_le [OF le(3), of Blob]
    unfolding zip eq by (auto simp: compress_def compress_zstd_def z Let_def)
  have "length z \<le> 2 * (length c * (4 + B)) + 1024" "length (compress_none vs) \<le> length c * (4 + B)"
    "length (compress_none tss) \<le> length c * (4 + B)"
    using Z z length_compress_none_le [OF le(1)] length_compress_none_le [OF le(2)] length_compress_none_le [OF le(3)]
    by (fastforce simp: zstd_bounded_def ks_def vs_def tss_def)+
  then have data: "length (column_data b) \<le> 4 * (length c * (4 + B)) + 1028" using cd by linarith
  obtain d1 d2 d3 where d: "column_descriptors (header b) = [d1, d2, d3]" "cd_type d1 = Blob" "cd_type d2 = Blob" "cd_type d3 = Blob"
    using ds(1) by (auto simp: map_eq_Cons_conv)
  have hdr: "length (serialize_header (header b)) \<le> 27 + 3 * (22 + 2 * B)"
    using ds(2) by (simp add: serialize_header_def d length_blob_descriptor)
  have "length (row_offsets b) = length c" using p(10) by (simp add: entries_to_columns_alt)
  then have "length (pax_serialize b) \<le> 27 + 3 * (22 + 2 * B) + (4 * (length c * (4 + B)) + 1028) + 4 * length c + 8"
    using hdr data by (simp add: pax_serialize_def length_serialize_row_offsets)
  also have "\<dots> \<le> length c * (20 + 4 * B) + 6 * B + 2000" by (simp add: algebra_simps)
  finally show ?thesis .
qed

lemma blocks_small_legacy:
  assumes Z: "zstd_bounded Z" and "finite K" and len: "\<forall>k \<in> K. length k \<le> B" "\<forall>v \<in> V. length v \<le> B" and B: "8 \<le> B"
    and fits: "card K * (20 + 4 * B) + 6 * B + 2000 < 2 ^ 32"
  shows "blocks_small h Z [] K V"
  unfolding blocks_small_def
proof (intro allI impI; elim conjE)
  fix c bs
  assume c: "distinct (map fst c)" "fst ` set c \<subseteq> K" "row_value ` set c \<subseteq> insert [] V" "block_image h Z [] c bs"
  have "build_block_columns c [] = (entries_to_columns c, base_codecs)"
    by (cases c) (simp_all add: build_block_columns_def registration_for_def)
  then obtain bid ts b where w: "write_with_codecs h Z bid ts (entries_to_columns c) base_codecs = Some (Inr b)" "bs = pax_serialize b"
    using c(4) by (auto simp: block_image_def)
  have "\<forall>e \<in> set c. length (fst e) \<le> B \<and> length (row_value e) \<le> B" using c(2,3) len by fastforce
  note sz = legacy_block_size [OF w(1) Z this B]
  have "length c = card (fst ` set c)" using c(1) by (metis distinct_card length_map set_map)
  then have "length c \<le> card K" using card_mono [OF assms(2) c(2)] by simp
  then have "length c * (20 + 4 * B) \<le> card K * (20 + 4 * B)" by (rule mult_le_mono1)
  then show "length bs < 2 ^ 32" unfolding w(2) using sz fits by linarith
qed

section \<open>Witnesses\<close>

definition demo_store_ops :: "store_op list" where
  "demo_store_ops = [SPut [1] [10], SPut [2] [20], SFlush, SPut [1] [11], SDelete [2], SFlush, SPut [3] [30]]"

definition demo_flush_cfg :: flush_config where
  "demo_flush_cfg = \<lparr>sst_size_bytes = 200, max_rows_per_block = 1\<rparr>"

lemma demo_env:
  assumes "finite K" "card K \<le> 10" "\<forall>k \<in> K. length k \<le> 8" "\<forall>v \<in> V. length v \<le> 8"
  shows "store_env demo_zstd L (table_regs []) K V"
proof -
  have "zstd_bounded demo_zstd" by (simp add: zstd_bounded_def demo_zstd_def)
  then have "blocks_small (xxh3_64 L) demo_zstd [] K V" using assms by (intro blocks_small_legacy [where B = 8]) auto
  moreover have "\<forall>raw. encode_all demo_zstd raw \<noteq> None" by (simp add: demo_zstd_def)
  ultimately show ?thesis
    using assms demo_zstd_ok by (fastforce simp: store_env_def table_regs_def regs_ok_def)
qed

theorem store_refines_witness:
  "\<exists>s s'. open_store demo_lib demo_eng_cfg demo_flush_cfg None [] Map.empty 1 = Some (Inr s)
     \<and> store_run demo_zstd demo_lib id demo_store_ops (prepare [] s) = Some s'
     \<and> engine_get demo_zstd demo_lib s' [1] = Some (Some [11]) \<and> engine_get demo_zstd demo_lib s' [2] = Some (Some [])
     \<and> engine_get demo_zstd demo_lib s' [3] = Some (Some [30]) \<and> engine_get demo_zstd demo_lib s' [4] = Some None"
proof -
  have K: "\<Union> (store_keys ` set demo_store_ops) = {[1], [2], [3]}" "\<Union> (store_values ` set demo_store_ops) = {[10], [20], [11], [30]}"
    by (auto simp: demo_store_ops_def)
  have env: "store_env demo_zstd demo_lib (table_regs []) {[1], [2], [3]} {[10], [20], [11], [30]}"
    by (rule demo_env) auto
  have ks: "key_space {[1], [2], [3]}" by (simp add: key_space_def)
  have n: "length demo_store_ops * Suc (card {[1] :: bytes, [2], [3]}) \<le> 65000" by (simp add: demo_store_ops_def)
  from store_refines [of demo_lib demo_store_ops demo_zstd "[]", unfolded K, OF demo_lib_ok ks n env] obtain s s' where
    s: "open_store demo_lib demo_eng_cfg demo_flush_cfg None [] Map.empty 1 = Some (Inr s)"
    "store_run demo_zstd demo_lib id demo_store_ops (prepare [] s) = Some s'"
    "\<forall>k. engine_get demo_zstd demo_lib s' k = Some (visible (fold cell_step demo_store_ops Map.empty k))" by blast
  have "fold cell_step demo_store_ops Map.empty = [[1] \<mapsto> Live [11], [2] \<mapsto> Buried, [3] \<mapsto> Live [30]]"
    by (auto simp: demo_store_ops_def bury_def indexed_def fun_eq_iff)
  then show ?thesis using s by (auto simp: visible_def)
qed

theorem flush_resurrects_deleted_witness:
  "\<exists>s s1 s2. open_store demo_lib demo_eng_cfg demo_flush_cfg None [] Map.empty 1 = Some (Inr s)
    \<and> store_run demo_zstd demo_lib id [SPut [1] [10], SDelete [1]] (prepare [] s) = Some s1
    \<and> engine_get demo_zstd demo_lib s1 [1] = Some None
    \<and> store_run demo_zstd demo_lib id [SFlush] s1 = Some s2 \<and> engine_get demo_zstd demo_lib s2 [1] = Some (Some [])"
proof -
  have "store_env demo_zstd demo_lib (table_regs []) {[1]} {[10]}" by (rule demo_env) auto
  from flush_resurrects_deleted [OF demo_lib_ok this] show ?thesis .
qed

end
