(* ===== verification/EngineScan.thy ===== *)
theory EngineScan
  imports EngineFlush
begin

text \<open>
  The scans of \<open>engine.rs\<close>: \<open>scan_all\<close> and its prefix variant, the snapshot scan
  \<open>scan_all_at\<close>, the point read at a snapshot and the checksums of a snapshot. They visit
  every registered SST file; the registry is a hash map, so the order in which its files come
  is the argument \<open>order\<close>. The hash maps that collect the rows are ordered maps here: their
  order is not observable, since the result is sorted by key. An outer \<open>None\<close> is a panic.
\<close>

section \<open>Reading the rows of a block\<close>

definition om_remove :: "'k \<Rightarrow> ('k \<times> 'v) list \<Rightarrow> ('k \<times> 'v) list" where
  "om_remove k m = filter (\<lambda>(k', v). k' \<noteq> k) m"

text \<open>\<open>&data[start..end]\<close>, or \<open>Some None\<close> for an entry past the end of the file.\<close>

definition block_slice :: "bytes \<Rightarrow> block_index_entry \<Rightarrow> bytes option option" where
  "block_slice data en =
     (let start = file_offset en; stop = start + ucast (block_len en)
      in if unat stop > length data then Some None else map_option Some (slice64 data start stop))"

definition row_timestamps :: "zstd_lib \<Rightarrow> pax_block \<Rightarrow> nat \<Rightarrow> u64 list option" where
  "row_timestamps Z b n =
     (let header_ts = commit_timestamp (header b)
      in if column_count (header b) \<ge> 3
         then case read_column Z b ROW_TS_COLUMN of
                None \<Rightarrow> None
              | Some (Inr col) \<Rightarrow> Some (map (\<lambda>t. case decode_row_ts t of Some ts \<Rightarrow> ts | None \<Rightarrow> header_ts) col)
              | Some (Inl _) \<Rightarrow> Some (replicate n header_ts)
         else Some (replicate n header_ts))"

type_synonym block_row = "bytes \<times> bytes \<times> u64"

definition zip_rows :: "bytes list \<Rightarrow> bytes list \<Rightarrow> u64 list \<Rightarrow> u64 \<Rightarrow> block_row list" where
  "zip_rows ks vals row_ts header_ts =
     map (\<lambda>(idx, k, v). (k, v, if idx < length row_ts then row_ts ! idx else header_ts)) (enumerate 0 (zip ks vals))"

definition read_block_rows :: "zstd_lib \<Rightarrow> pax_block \<Rightarrow> block_row list option option" where
  "read_block_rows Z b =
     (case read_column Z b 0 of
        None \<Rightarrow> None
      | Some (Inl _) \<Rightarrow> Some None
      | Some (Inr ks) \<Rightarrow>
        (case read_column Z b 1 of
           None \<Rightarrow> None
         | Some (Inl _) \<Rightarrow> Some None
         | Some (Inr vals) \<Rightarrow>
           (case row_timestamps Z b (length ks) of
              None \<Rightarrow> None
            | Some row_ts \<Rightarrow> Some (Some (zip_rows ks vals row_ts (commit_timestamp (header b)))))))"

section \<open>The current scan\<close>

definition key_range_overlaps_prefix :: "bytes \<Rightarrow> bytes \<Rightarrow> bytes \<Rightarrow> bool" where
  "key_range_overlaps_prefix zone_min zone_max p =
     (if zone_min = [] \<and> zone_max = [] then True
      else if zone_max < p then False
      else
        let common = length (takeWhile (\<lambda>(a, b). a = b) (zip zone_min p))
        in \<not> (common < length p \<and> common < length zone_min \<and> zone_min ! common > p ! common))"

type_synonym scan_state = "(bytes \<times> bytes \<times> u64) list \<times> (bytes \<times> u64) list"

definition starts :: "bytes option \<Rightarrow> bytes \<Rightarrow> bool" where
  "starts pfx k = (case pfx of None \<Rightarrow> True | Some p \<Rightarrow> prefix p k)"

definition newest_seen :: "(bytes \<times> u64) option \<Rightarrow> u64 option \<Rightarrow> u64" where
  "newest_seen lv tb =
     (case (lv, tb) of
        (None, None) \<Rightarrow> 0
      | (Some (_, t), None) \<Rightarrow> t
      | (None, Some t) \<Rightarrow> t
      | (Some (_, t), Some t') \<Rightarrow> max t t')"

definition merge_row :: "bytes option \<Rightarrow> block_row \<Rightarrow> scan_state \<Rightarrow> scan_state" where
  "merge_row pfx row st =
     (case (row, st) of
        ((k, v, ts), (out, tombstoned)) \<Rightarrow>
          if \<not> starts pfx k then st
          else if ts < newest_seen (om_get out k) (om_get tombstoned k) then st
          else if v = [] then (om_remove k out, om_insert k ts tombstoned)
          else (om_insert k (v, ts) out, om_remove k tombstoned))"

definition scan_block :: "(bytes \<Rightarrow> u64) \<Rightarrow> zstd_lib \<Rightarrow> bytes option \<Rightarrow> bytes \<Rightarrow> scan_state \<Rightarrow> scan_state option" where
  "scan_block h Z pfx bs st =
     (case pax_deserialize h bs of
        Inl _ \<Rightarrow> Some st
      | Inr b \<Rightarrow>
        let skip = (case pfx of
                      None \<Rightarrow> False
                    | Some p \<Rightarrow>
                      column_descriptors (header b) = []
                      \<or> (let desc = hd (column_descriptors (header b))
                         in \<not> key_range_overlaps_prefix (zone_map_min desc) (zone_map_max desc) p))
        in if skip then Some st
           else case read_block_rows Z b of
                  None \<Rightarrow> None
                | Some None \<Rightarrow> Some st
                | Some (Some rows) \<Rightarrow> Some (fold (merge_row pfx) rows st))"

text \<open>The two loops over the files and their blocks, shared by both scans.\<close>

fun scan_entries :: "(bytes \<Rightarrow> 's \<Rightarrow> 's option) \<Rightarrow> bytes \<Rightarrow> block_index_entry list \<Rightarrow> 's \<Rightarrow> 's option" where
  "scan_entries f data [] st = Some st"
| "scan_entries f data (en # ens) st =
     (case block_slice data en of
        None \<Rightarrow> None
      | Some None \<Rightarrow> scan_entries f data ens st
      | Some (Some bs) \<Rightarrow> Option.bind (f bs st) (scan_entries f data ens))"

fun scan_files :: "(bytes \<Rightarrow> 's \<Rightarrow> 's option) \<Rightarrow> sst_dir \<Rightarrow> sst_registry \<Rightarrow> u64 list \<Rightarrow> 's \<Rightarrow> 's option" where
  "scan_files f d reg [] st = Some st"
| "scan_files f d reg (i # order) st =
     (case Option.bind (reg i) (\<lambda>en. Option.bind (d (sst_path en)) (\<lambda>data. Some (data, entries (block_index en)))) of
        None \<Rightarrow> scan_files f d reg order st
      | Some (data, ens) \<Rightarrow> Option.bind (scan_entries f data ens st) (scan_files f d reg order))"

definition override :: "bytes \<times> versioned_value \<Rightarrow> (bytes \<times> bytes) list \<Rightarrow> (bytes \<times> bytes) list" where
  "override e out = (case vvalue (snd e) of Some v \<Rightarrow> om_insert (fst e) v out | None \<Rightarrow> om_remove (fst e) out)"

definition scan_all_with_prefix ::
  "zstd_lib \<Rightarrow> wal_lib \<Rightarrow> u64 list \<Rightarrow> sst_engine \<Rightarrow> bytes option \<Rightarrow> (bytes \<times> bytes) list option" where
  "scan_all_with_prefix Z L order s pfx =
     (case scan_files (scan_block (xxh3_64 L) Z pfx) (data_dir s) (sst_registry s) order ([], []) of
        None \<Rightarrow> None
      | Some (out, _) \<Rightarrow>
        let act = active (memtable_mgr (core s));
            mem = (case pfx of Some p \<Rightarrow> iter_prefix p act | None \<Rightarrow> iter_all act)
        in Some (fold override mem (map (\<lambda>(k, v, ts). (k, v)) out)))"

definition scan_all :: "zstd_lib \<Rightarrow> wal_lib \<Rightarrow> u64 list \<Rightarrow> sst_engine \<Rightarrow> (bytes \<times> bytes) list option" where
  "scan_all Z L order s = scan_all_with_prefix Z L order s None"

section \<open>The snapshot scan\<close>

type_synonym snapshot = "(bytes \<times> bytes \<times> u64) list"

definition seen_at :: "bytes \<Rightarrow> snapshot \<Rightarrow> u64" where
  "seen_at k out = (case om_get out k of Some (_, ts) \<Rightarrow> ts | None \<Rightarrow> 0)"

definition merge_row_at :: "u64 \<Rightarrow> block_row \<Rightarrow> snapshot \<Rightarrow> snapshot" where
  "merge_row_at read_ts row out =
     (case row of (k, v, ts) \<Rightarrow>
        if ts > read_ts then out
        else if ts \<ge> seen_at k out
             then if v = [] then om_remove k out else om_insert k (v, ts) out
             else out)"

definition scan_block_at :: "(bytes \<Rightarrow> u64) \<Rightarrow> zstd_lib \<Rightarrow> u64 \<Rightarrow> bytes \<Rightarrow> snapshot \<Rightarrow> snapshot option" where
  "scan_block_at h Z read_ts bs out =
     (case pax_deserialize h bs of
        Inl _ \<Rightarrow> Some out
      | Inr b \<Rightarrow>
        if commit_timestamp (header b) > read_ts \<and> column_count (header b) < 3 then Some out
        else case read_block_rows Z b of
               None \<Rightarrow> None
             | Some None \<Rightarrow> Some out
             | Some (Some rows) \<Rightarrow> Some (fold (merge_row_at read_ts) rows out))"

definition override_at :: "u64 \<Rightarrow> bytes \<times> versioned_value \<Rightarrow> snapshot \<Rightarrow> snapshot" where
  "override_at read_ts e out =
     (case get_at_with_ts (snd e) read_ts of
        None \<Rightarrow> out
      | Some (maybe_val, ts) \<Rightarrow>
        if ts \<ge> seen_at (fst e) out
        then case maybe_val of Some v \<Rightarrow> om_insert (fst e) (v, ts) out | None \<Rightarrow> om_remove (fst e) out
        else out)"

definition scan_all_at :: "zstd_lib \<Rightarrow> wal_lib \<Rightarrow> u64 list \<Rightarrow> sst_engine \<Rightarrow> u64 \<Rightarrow> snapshot option" where
  "scan_all_at Z L order s read_ts =
     map_option (fold (override_at read_ts) (iter_all (active (memtable_mgr (core s)))))
       (scan_files (scan_block_at (xxh3_64 L) Z read_ts) (data_dir s) (sst_registry s) order [])"

definition scan_all_at_with_prefix ::
  "zstd_lib \<Rightarrow> wal_lib \<Rightarrow> u64 list \<Rightarrow> sst_engine \<Rightarrow> u64 \<Rightarrow> bytes \<Rightarrow> snapshot option" where
  "scan_all_at_with_prefix Z L order s read_ts p =
     map_option (filter (\<lambda>(k, v, ts). prefix p k)) (scan_all_at Z L order s read_ts)"

definition get_at :: "zstd_lib \<Rightarrow> wal_lib \<Rightarrow> u64 list \<Rightarrow> sst_engine \<Rightarrow> bytes \<Rightarrow> u64 \<Rightarrow> bytes option option" where
  "get_at Z L order s key read_ts =
     map_option (\<lambda>rows. map_option (\<lambda>(k, v, ts). v) (find (\<lambda>(k, v, ts). k = key) rows))
       (scan_all_at_with_prefix Z L order s read_ts key)"

definition snapshot_checksums :: "zstd_lib \<Rightarrow> wal_lib \<Rightarrow> u64 list \<Rightarrow> sst_engine \<Rightarrow> u64 \<Rightarrow> u64 list option" where
  "snapshot_checksums Z L order s read_ts =
     map_option (map (\<lambda>(k, v, ts). xxh3_64 L (k @ [0xFF] @ v))) (scan_all_at Z L order s read_ts)"

section \<open>Ordered maps with removal\<close>

lemma om_invar_remove: "om_invar m \<Longrightarrow> om_invar (om_remove k m)"
  by (induction m) (auto simp: om_invar_def om_remove_def)

lemma om_get_remove: "om_get (om_remove k m) k' = (if k' = k then None else om_get m k')"
  by (induction m) (auto simp: om_remove_def)

section \<open>Pruning\<close>

lemma first_difference:
  assumes "c = length (takeWhile (\<lambda>(a, b). a = b) (zip z p))" and "c < length p" "c < length z" and "z ! c > p ! c" and "prefix p k"
  shows "k < (z :: bytes)"
  using assms
proof (induction z arbitrary: p k c)
  case (Cons b z)
  obtain a p' where p: "p = a # p'" using Cons.prems(2) by (cases p) auto
  obtain k' where k: "k = a # k'" "prefix p' k'" using Cons.prems(5) p by (cases k) auto
  show ?case
  proof (cases "b = a")
    case True
    then obtain c' where c: "c = Suc c'" "c' = length (takeWhile (\<lambda>(a, b). a = b) (zip z p'))" using Cons.prems(1) by (simp add: p)
    then have "k' < z" using Cons.prems True k by (intro Cons.IH [of c' p']) (auto simp: p)
    then show ?thesis by (simp add: k True)
  next
    case False
    then show ?thesis using Cons.prems by (simp add: p k)
  qed
qed simp

text \<open>A skipped block has no key with the prefix.\<close>

lemma prune_sound:
  assumes "\<not> key_range_overlaps_prefix zone_min zone_max p" and "zone_min \<le> k" "k \<le> zone_max"
  shows "\<not> prefix p k"
proof
  assume pk: "prefix p k"
  show False
  proof (cases "zone_max < p")
    case True
    then show False using prefix_imp_le [OF pk] assms(3) by simp
  next
    case False
    let ?c = "length (takeWhile (\<lambda>(a, b). a = b) (zip zone_min p))"
    have "\<not> (zone_min = [] \<and> zone_max = [])" using assms(1) by (auto simp: key_range_overlaps_prefix_def)
    then have "?c < length p" "?c < length zone_min" "zone_min ! ?c > p ! ?c"
      using assms(1) False by (simp_all add: key_range_overlaps_prefix_def Let_def split: if_splits)
    from first_difference [OF refl this pk] show False using assms(2) by simp
  qed
qed

section \<open>Merging rows\<close>

text \<open>What the scan keeps of one key: the newest row so far, the later one of equal timestamps.\<close>

definition pick :: "bytes \<Rightarrow> block_row \<Rightarrow> (bytes \<times> u64) option \<Rightarrow> (bytes \<times> u64) option" where
  "pick k row c =
     (case row of (k', v, ts) \<Rightarrow>
        if k' \<noteq> k then c else case c of None \<Rightarrow> Some (v, ts) | Some (v0, t0) \<Rightarrow> if ts < t0 then c else Some (v, ts))"

definition scan_view :: "scan_state \<Rightarrow> bytes \<Rightarrow> (bytes \<times> u64) option \<Rightarrow> bool" where
  "scan_view st k c \<longleftrightarrow> om_invar (fst st) \<and> om_invar (snd st)
     \<and> (case c of
          None \<Rightarrow> om_get (fst st) k = None \<and> om_get (snd st) k = None
        | Some (v, t) \<Rightarrow> if v = [] then om_get (fst st) k = None \<and> om_get (snd st) k = Some t
                         else om_get (fst st) k = Some (v, t) \<and> om_get (snd st) k = None)"

lemma merge_row_view:
  assumes "scan_view st k c"
  shows "scan_view (merge_row pfx row st) k (if starts pfx k then pick k row c else c)"
proof -
  obtain k' v ts where row: "row = (k', v, ts)" by (cases row) auto
  obtain out tb where st: "st = (out, tb)" by (cases st)
  have inv: "om_invar out" "om_invar tb" using assms by (simp_all add: scan_view_def st)
  note get = om_get_remove om.get_ins [OF inv(1)] om.get_ins [OF inv(2)]
    om_invar_remove [OF inv(1)] om_invar_remove [OF inv(2)] om.invar_ins [OF inv(1)] om.invar_ins [OF inv(2)]
  show ?thesis
  proof (cases "k' = k")
    case False
    then show ?thesis using assms by (auto simp: scan_view_def merge_row_def row st pick_def get split: option.splits)
  next
    case True
    then show ?thesis using assms
      by (auto simp: scan_view_def merge_row_def row st pick_def get newest_seen_def split: option.splits if_splits)
  qed
qed

lemma merge_rows_view:
  "scan_view st k c \<Longrightarrow> scan_view (fold (merge_row pfx) rows st) k (if starts pfx k then fold (pick k) rows c else c)"
proof (induction rows arbitrary: st c)
  case Nil
  then show ?case by simp
next
  case (Cons row rows)
  from Cons.IH [OF merge_row_view [OF Cons.prems, of pfx row]] show ?case by (simp split: if_splits)
qed

lemma pick_newest_from:
  assumes "\<forall>(v', t') \<in> set_option c. t' < ts \<or> (v', t') = (v, ts)"
    and "\<forall>(k', v', t') \<in> set rows. k' = k \<longrightarrow> t' < ts \<or> (v', t') = (v, ts)"
    and "(k, v, ts) \<in> set rows \<or> c = Some (v, ts)"
  shows "fold (pick k) rows c = Some (v, ts)"
  using assms
proof (induction rows arbitrary: c)
  case Nil
  then show ?case by simp
next
  case (Cons row rows)
  have "fold (pick k) rows (pick k row c) = Some (v, ts)"
    using Cons.prems by (intro Cons.IH) (auto simp: pick_def split: if_splits prod.splits option.splits)
  then show ?case by simp
qed

lemma pick_newest:
  assumes "(k, v, ts) \<in> set rows" and "\<forall>(k', v', t') \<in> set rows. k' = k \<longrightarrow> t' < ts \<or> (v', t') = (v, ts)"
  shows "fold (pick k) rows None = Some (v, ts)"
  using assms by (intro pick_newest_from) auto

lemma pick_absent: "\<forall>(k', v', t') \<in> set rows. k' \<noteq> k \<Longrightarrow> fold (pick k) rows c = c"
  by (induction rows arbitrary: c) (auto simp: pick_def)

lemma merge_rows_skip: "\<forall>row \<in> set rows. \<not> starts pfx (fst row) \<Longrightarrow> fold (merge_row pfx) rows st = st"
  by (induction rows arbitrary: st) (auto simp: merge_row_def split: prod.splits)

section \<open>Blocks and files give their rows\<close>

definition entry_row :: "row_entry \<Rightarrow> block_row" where
  "entry_row e = (fst e, row_value e, timestamp (snd e))"

lemma decode_row_ts_le [simp]: "decode_row_ts (to_le_bytes (t :: u64)) = Some t"
  by (simp add: decode_row_ts_def)

lemma zip_rows_entries:
  "zip_rows (map fst c) (map row_value c) (map (\<lambda>e. timestamp (snd e)) c) ts = map entry_row c"
  by (rule nth_equalityI) (auto simp: zip_rows_def entry_row_def nth_enumerate_eq)

lemma block_image_rows:
  assumes "block_image h Z regs c bs" and "regs_ok regs" "rows_fit c" "zstd_ok Z" and "length bs < 2 ^ 32"
  obtains b where "pax_deserialize h bs = Inr b" and "read_block_rows Z b = Some (Some (map entry_row c))"
    and "column_count (header b) \<ge> 3" and "column_descriptors (header b) \<noteq> []"
    and "\<And>k. k \<in> set (map fst c) \<Longrightarrow> zone_map_min (hd (column_descriptors (header b))) \<le> k
        \<and> k \<le> zone_map_max (hd (column_descriptors (header b)))"
proof -
  obtain cols codecs where bb: "build_block_columns c regs = (cols, codecs)" by (cases "build_block_columns c regs")
  obtain bid ts b where w: "write_with_codecs h Z bid ts cols codecs = Some (Inr b)" and bs: "bs = pax_serialize b"
    using assms(1) bb by (auto simp: block_image_def)
  note bf = build_fit [OF assms(2,3) bb] and p = write_parts [OF w]
  have sz: "length (column_data b) < 2 ^ 32" using assms(5) by (simp add: bs pax_serialize_def)
  note wb = written_block [OF w bf(1) sz]
  have rc: "read_column Z b i = Some (Inr (col_values (cols ! i)))" if "i < length cols" for i
    using read_column_written [OF w bf(1) sz assms(4) that] wb(2) that by (auto simp: read_column_def Let_def)
  have cols: "cols ! i = entries_to_columns c ! i" if "i < 3" for i using nth_take [OF that, of cols] bf(5) by simp
  have base: "read_column Z b 0 = Some (Inr (map fst c))" "read_column Z b 1 = Some (Inr (map row_value c))"
    "read_column Z b ROW_TS_COLUMN = Some (Inr (map (\<lambda>e. to_le_bytes (timestamp (snd e))) c))"
    using rc [of 0] rc [of 1] rc [of 2] cols [of 0] cols [of 1] cols [of 2] bf(4) p(1)
    by (simp_all add: entries_to_columns_alt ROW_TS_COLUMN_def)
  have "length cols < 2 ^ 16" using bf(1) by (simp add: columns_fit_def)
  then have "unat (column_count (header b)) = length cols" using p(7) by (simp add: unat_of_nat_small)
  then have cc: "column_count (header b) \<ge> 3" using bf(4) by (simp add: word_le_nat_alt)
  have rows: "read_block_rows Z b = Some (Some (map entry_row c))"
    by (simp add: read_block_rows_def base [unfolded One_nat_def] row_timestamps_def cc Let_def zip_rows_entries comp_def)
  have nz: "column_descriptors (header b) \<noteq> []" using wb(2) bf(4) by auto
  have "hd (column_descriptors (header b)) = column_descriptors (header b) ! 0" using nz by (simp add: hd_conv_nth)
  then have zm: "zone_map_min (hd (column_descriptors (header b))) = zmin (extract_zone_map Blob (map fst c))"
    "zone_map_max (hd (column_descriptors (header b))) = zmax (extract_zone_map Blob (map fst c))"
    using write_columns_inv [OF p(4)] cols [of 0] p(1,2) bf(4) by (auto simp: Let_def entries_to_columns_alt)
  have "zone_map_min (hd (column_descriptors (header b))) \<le> k \<and> k \<le> zone_map_max (hd (column_descriptors (header b)))"
    if "k \<in> set (map fst c)" for k
    using zone_map_bounds [OF that, of Blob] unfolding zm by (simp add: to_comparable_bytes_def)
  with block_roundtrip [OF wb(1)] rows cc nz show ?thesis by (intro that [of b]) (auto simp: bs)
qed

lemma scan_block_image:
  assumes "block_image h Z regs c bs" and "regs_ok regs" "rows_fit c" "zstd_ok Z" and "length bs < 2 ^ 32"
  shows "scan_block h Z pfx bs st = Some (fold (merge_row pfx) (map entry_row c) st)"
proof -
  from block_image_rows [OF assms] obtain b where b: "pax_deserialize h bs = Inr b"
    "read_block_rows Z b = Some (Some (map entry_row c))" "column_descriptors (header b) \<noteq> []"
    "\<And>k. k \<in> set (map fst c) \<Longrightarrow> zone_map_min (hd (column_descriptors (header b))) \<le> k
        \<and> k \<le> zone_map_max (hd (column_descriptors (header b)))" by blast
  show ?thesis
  proof (cases "\<exists>p. pfx = Some p \<and> \<not> key_range_overlaps_prefix (zone_map_min (hd (column_descriptors (header b))))
      (zone_map_max (hd (column_descriptors (header b)))) p")
    case True
    then obtain p where p: "pfx = Some p" "\<not> key_range_overlaps_prefix (zone_map_min (hd (column_descriptors (header b))))
      (zone_map_max (hd (column_descriptors (header b)))) p" by blast
    have "\<not> starts pfx (fst row)" if "row \<in> set (map entry_row c)" for row
    proof -
      have "fst row \<in> set (map fst c)" using that by (force simp: entry_row_def)
      then show ?thesis using prune_sound [OF p(2), of "fst row"] b(4) [of "fst row"] p(1) by (simp add: starts_def)
    qed
    then show ?thesis using b(1) p merge_rows_skip [of "map entry_row c" pfx st] by (simp add: scan_block_def Let_def)
  next
    case False
    then show ?thesis using b(1-3) by (cases pfx) (simp_all add: scan_block_def Let_def)
  qed
qed

lemma scan_block_at_image:
  assumes "block_image h Z regs c bs" and "regs_ok regs" "rows_fit c" "zstd_ok Z" and "length bs < 2 ^ 32"
  shows "scan_block_at h Z read_ts bs st = Some (fold (merge_row_at read_ts) (map entry_row c) st)"
proof -
  from block_image_rows [OF assms] obtain b where b: "pax_deserialize h bs = Inr b"
    "read_block_rows Z b = Some (Some (map entry_row c))" "column_count (header b) \<ge> 3" by blast
  then show ?thesis by (simp add: scan_block_at_def not_less [symmetric])
qed

text \<open>The loops over the blocks of a file and over the files, for a step function that maps the
  image of a chunk to a fold over its rows.\<close>

definition block_step ::
  "(bytes \<Rightarrow> u64) \<Rightarrow> zstd_lib \<Rightarrow> columnar_registration list \<Rightarrow> (bytes \<Rightarrow> 's \<Rightarrow> 's option) \<Rightarrow> (block_row \<Rightarrow> 's \<Rightarrow> 's) \<Rightarrow> bool" where
  "block_step h Z regs f g \<longleftrightarrow>
     (\<forall>c bs st. block_image h Z regs c bs \<and> rows_fit c \<and> length bs < 2 ^ 32 \<longrightarrow> f bs st = Some (fold g (map entry_row c) st))"

lemma scan_steps:
  assumes "regs_ok regs" "zstd_ok Z"
  shows "block_step h Z regs (scan_block h Z pfx) (merge_row pfx)" "block_step h Z regs (scan_block_at h Z read_ts) (merge_row_at read_ts)"
  using scan_block_image [OF _ assms(1) _ assms(2)] scan_block_at_image [OF _ assms(1) _ assms(2)]
  by (auto simp: block_step_def)

lemma block_slice_image:
  assumes "holds_block x b bs" and "image_small x"
  shows "block_slice (file_of x) (entries (snd x) ! b) = Some (Some bs)"
proof -
  let ?en = "entries (snd x) ! b"
  have hb: "unat (block_len ?en) = length bs" "unat (file_offset ?en) + length bs \<le> length (fst x)"
    "take (length bs) (drop (unat (file_offset ?en)) (fst x)) = bs"
    using assms(1) by (auto simp: holds_block_def Let_def)
  have sz: "length (fst x) < 2 ^ 64" using assms(2) by (simp add: image_small_def)
  have "length bs < 2 ^ 64" using hb(2) sz by linarith
  then have "unat (ucast (block_len ?en) :: u64) = length bs"
    using hb(1) by (simp add: unsigned_ucast_eq take_bit_nat_eq_self)
  moreover have "unat (file_offset ?en) + length bs < 2 ^ 64" using hb(2) sz by linarith
  ultimately have "unat (file_offset ?en + ucast (block_len ?en)) = unat (file_offset ?en) + length bs"
    using unat_add_lem [of "file_offset ?en" "ucast (block_len ?en) :: u64"] by simp
  then show ?thesis
    using hb by (simp add: block_slice_def Let_def slice64_def word_le_nat_alt sub_slice_def file_of_def)
qed

lemma scan_entries_blocks:
  assumes "block_step h Z regs f g" and "image_small x" and "\<forall>c \<in> set cs. rows_fit c" and "length ens = length cs"
    and "\<forall>i < length cs. \<exists>b bs. b < length (entries (snd x)) \<and> ens ! i = entries (snd x) ! b \<and> holds_block x b bs
      \<and> block_image h Z regs (cs ! i) bs \<and> length bs < 2 ^ 32"
  shows "scan_entries f (file_of x) ens st = Some (fold g (map entry_row (concat cs)) st)"
  using assms(3-)
proof (induction cs arbitrary: ens st)
  case Nil
  then show ?case by simp
next
  case (Cons c cs)
  obtain en ens' where ens: "ens = en # ens'" using Cons.prems(2) by (cases ens) auto
  obtain b bs where b: "en = entries (snd x) ! b" "holds_block x b bs" "block_image h Z regs c bs" "length bs < 2 ^ 32"
    using Cons.prems(3) [rule_format, of 0] by (auto simp: ens)
  have "f bs st = Some (fold g (map entry_row c) st)"
    using assms(1) b(3,4) Cons.prems(1) unfolding block_step_def by simp
  moreover have "scan_entries f (file_of x) ens' st' = Some (fold g (map entry_row (concat cs)) st')" for st'
  proof (rule Cons.IH)
    show "\<forall>i < length cs. \<exists>b bs. b < length (entries (snd x)) \<and> ens' ! i = entries (snd x) ! b \<and> holds_block x b bs
      \<and> block_image h Z regs (cs ! i) bs \<and> length bs < 2 ^ 32"
    proof (intro allI impI)
      fix i assume "i < length cs"
      then show "\<exists>b bs. b < length (entries (snd x)) \<and> ens' ! i = entries (snd x) ! b \<and> holds_block x b bs
        \<and> block_image h Z regs (cs ! i) bs \<and> length bs < 2 ^ 32"
        using Cons.prems(3) [rule_format, of "Suc i"] by (simp add: ens)
    qed
  qed (use Cons.prems in \<open>auto simp: ens\<close>)
  ultimately show ?case using block_slice_image [OF b(2) assms(2)] by (simp add: ens b(1))
qed

lemma scan_entries_image:
  assumes "block_step h Z regs f g" and "image_small x" and "image_blocks h Z regs x cs" and "\<forall>c \<in> set cs. rows_fit c"
  shows "scan_entries f (file_of x) (entries (snd x)) st = Some (fold g (map entry_row (concat cs)) st)"
proof (rule scan_entries_blocks [OF assms(1,2,4)])
  show "\<forall>i < length cs. \<exists>b bs. b < length (entries (snd x)) \<and> entries (snd x) ! i = entries (snd x) ! b \<and> holds_block x b bs
      \<and> block_image h Z regs (cs ! i) bs \<and> length bs < 2 ^ 32"
  proof (intro allI impI)
    fix i assume i: "i < length cs"
    then obtain bs where "block_image h Z regs (cs ! i) bs" "length bs < 2 ^ 32" "holds_block x i bs"
      using assms(3) by (auto simp: image_blocks_def)
    then show "\<exists>b bs. b < length (entries (snd x)) \<and> entries (snd x) ! i = entries (snd x) ! b \<and> holds_block x b bs
      \<and> block_image h Z regs (cs ! i) bs \<and> length bs < 2 ^ 32"
      using i assms(3) by (intro exI [of _ i] exI [of _ bs]) (simp add: image_blocks_def)
  qed
qed (use assms(3) in \<open>simp add: image_blocks_def\<close>)

text \<open>The rows \<open>R\<close> that the registered files hold.\<close>

definition file_rows ::
  "(bytes \<Rightarrow> u64) \<Rightarrow> zstd_lib \<Rightarrow> columnar_registration list \<Rightarrow> sst_dir \<Rightarrow> sst_registry \<Rightarrow> (u64 \<rightharpoonup> row_entry list) \<Rightarrow> bool" where
  "file_rows h Z regs d reg R \<longleftrightarrow> dom R = dom reg
     \<and> (\<forall>i en. reg i = Some en \<longrightarrow> (\<exists>x cs. d (sst_path en) = Some (file_of x) \<and> block_index en = snd x \<and> image_small x
          \<and> image_blocks h Z regs x cs \<and> (\<forall>c \<in> set cs. rows_fit c) \<and> R i = Some (concat cs)))"

definition rows_in_order :: "(u64 \<rightharpoonup> row_entry list) \<Rightarrow> u64 list \<Rightarrow> row_entry list" where
  "rows_in_order R order = concat (map (\<lambda>i. case R i of None \<Rightarrow> [] | Some rows \<Rightarrow> rows) order)"

lemma scan_files_rows:
  assumes "block_step h Z regs f g" and "file_rows h Z regs d reg R"
  shows "scan_files f d reg order st = Some (fold g (map entry_row (rows_in_order R order)) st)"
proof (induction order arbitrary: st)
  case Nil
  then show ?case by (simp add: rows_in_order_def)
next
  case (Cons i order)
  show ?case
  proof (cases "reg i")
    case None
    then have "R i = None" using assms(2) by (auto simp: file_rows_def)
    then show ?thesis using None Cons.IH by (simp add: rows_in_order_def)
  next
    case (Some en)
    then obtain x cs where x: "d (sst_path en) = Some (file_of x)" "block_index en = snd x" "image_small x"
      "image_blocks h Z regs x cs" "\<forall>c \<in> set cs. rows_fit c" "R i = Some (concat cs)"
      using assms(2) unfolding file_rows_def by blast
    then show ?thesis
      using Some Cons.IH scan_entries_image [OF assms(1) x(3-5)] by (simp add: rows_in_order_def)
  qed
qed

section \<open>The rows of a store\<close>

definition all_rows :: "(u64 \<rightharpoonup> row_entry list) \<Rightarrow> row_entry set" where
  "all_rows R = \<Union> (set ` ran R)"

text \<open>The newest row of a key that is not in the memtable gives its cell.\<close>

definition newest_rel :: "row_entry set \<Rightarrow> bytes \<Rightarrow> cell option \<Rightarrow> bool" where
  "newest_rel A k c \<longleftrightarrow>
     (\<forall>e \<in> A. fst e \<noteq> k) \<and> (c = None \<or> c = Some Purged)
     \<or> (\<exists>e \<in> A. fst e = k \<and> (\<forall>e' \<in> A. fst e' = k \<longrightarrow> e' = e \<or> timestamp (snd e') < timestamp (snd e))
          \<and> c = Some (case vvalue (snd e) of Some v \<Rightarrow> Live v | None \<Rightarrow> Buried))"

definition scan_rel ::
  "zstd_lib \<Rightarrow> wal_lib \<Rightarrow> bytes set \<Rightarrow> bytes set \<Rightarrow> nat \<Rightarrow> sst_engine \<Rightarrow> (bytes \<rightharpoonup> cell) \<Rightarrow> (u64 \<rightharpoonup> row_entry list) \<Rightarrow> bool" where
  "scan_rel Z L K V n s m R \<longleftrightarrow>
     store_rel Z L K V n s m \<and> file_rows (xxh3_64 L) Z (columnar s) (data_dir s) (sst_registry s) R
     \<and> unat (next_timestamp (core s)) + n \<le> 200000
     \<and> (\<forall>e \<in> all_rows R. fst e \<in> K \<and> timestamp (snd e) < next_timestamp (core s) \<and> (\<forall>v. vvalue (snd e) = Some v \<longrightarrow> v \<in> V))
     \<and> (\<forall>k vv. mt_lookup (xxh3_64 L) (active (memtable_mgr (core s))) k = Some vv \<longrightarrow>
          timestamp vv < next_timestamp (core s) \<and> (\<forall>e \<in> all_rows R. timestamp (snd e) < timestamp vv))
     \<and> (\<forall>k. mm_get (xxh3_64 L) (memtable_mgr (core s)) k = None \<longrightarrow> newest_rel (all_rows R) k (m k))"

lemma scan_relD:
  assumes "scan_rel Z L K V n s m R"
  shows "store_rel Z L K V n s m" "file_rows (xxh3_64 L) Z (columnar s) (data_dir s) (sst_registry s) R"
    "unat (next_timestamp (core s)) + n \<le> 200000"
    "e \<in> all_rows R \<Longrightarrow> fst e \<in> K \<and> timestamp (snd e) < next_timestamp (core s) \<and> (\<forall>v. vvalue (snd e) = Some v \<longrightarrow> v \<in> V)"
    "mt_lookup (xxh3_64 L) (active (memtable_mgr (core s))) k = Some vv \<Longrightarrow>
       timestamp vv < next_timestamp (core s) \<and> (\<forall>e \<in> all_rows R. timestamp (snd e) < timestamp vv)"
    "mm_get (xxh3_64 L) (memtable_mgr (core s)) k = None \<Longrightarrow> newest_rel (all_rows R) k (m k)"
  using assms unfolding scan_rel_def by blast+

lemma override_mem:
  assumes "om_invar out" and "distinct (map fst mem)"
  shows "om_invar (fold override mem out)
    \<and> om_get (fold override mem out) k = (case map_of mem k of None \<Rightarrow> om_get out k | Some vv \<Rightarrow> vvalue vv)"
  using assms
proof (induction mem arbitrary: out)
  case Nil
  then show ?case by simp
next
  case (Cons e mem)
  have inv: "om_invar (override e out)"
    using Cons.prems(1) by (auto simp: override_def om.invar_ins om_invar_remove split: option.splits)
  have get: "om_get (override e out) k = (if k = fst e then vvalue (snd e) else om_get out k)"
    using Cons.prems(1) by (auto simp: override_def om.get_ins om_get_remove split: option.splits)
  have "map_of mem (fst e) = None" using Cons.prems(2) by (simp add: map_of_eq_None_iff)
  then show ?case using Cons.IH [OF inv] Cons.prems(2) get by (cases e) (auto split: option.splits)
qed

lemma om_strip_ts:
  assumes "om_invar out"
  shows "om_invar (map (\<lambda>(k, v, ts). (k, v)) out) \<and> om_get (map (\<lambda>(k, v, ts). (k, v)) out) k = map_option fst (om_get out k)"
proof -
  have "map fst (map (\<lambda>(k, v, ts). (k, v)) out) = map fst out" by (induction out) auto
  moreover have "om_get (map (\<lambda>(k, v, ts). (k, v)) out) k = map_option fst (om_get out k)" by (induction out) auto
  ultimately show ?thesis using assms by (simp only: om_invar_def)
qed

lemma scanned_rows:
  assumes rel: "scan_rel Z L K V n s m R" and order: "dom (sst_registry s) \<subseteq> set order"
  shows "set (rows_in_order R order) = all_rows R"
proof -
  have "dom R \<subseteq> set order" using scan_relD(2) [OF rel] order by (simp add: file_rows_def)
  then show ?thesis by (force simp: rows_in_order_def all_rows_def ran_def dom_def split: option.splits)
qed

text \<open>The files give the newest flushed row of a key, live and not empty.\<close>

lemma scanned_key:
  assumes "newest_rel A k c" and "set rows = A" and "starts pfx k" and ne: "\<forall>v. c = Some (Live v) \<longrightarrow> v \<noteq> []"
  shows "map_option fst (om_get (fst (fold (merge_row pfx) (map entry_row rows) ([], []))) k)
    = (case c of Some (Live v) \<Rightarrow> Some v | _ \<Rightarrow> None)"
proof -
  have v0: "scan_view ([], []) k None" by (simp add: scan_view_def om.invar_empty)
  note sv = merge_rows_view [OF v0, of pfx "map entry_row rows"]
  from assms(1) consider "\<forall>e \<in> A. fst e \<noteq> k" "c = None \<or> c = Some Purged"
    | e where "e \<in> A" "fst e = k" "\<forall>e' \<in> A. fst e' = k \<longrightarrow> e' = e \<or> timestamp (snd e') < timestamp (snd e)"
      "c = Some (case vvalue (snd e) of Some v \<Rightarrow> Live v | None \<Rightarrow> Buried)"
    unfolding newest_rel_def by blast
  then show ?thesis
  proof cases
    case 1
    then have "fold (pick k) (map entry_row rows) None = None"
      using assms(2) by (intro pick_absent) (auto simp: entry_row_def)
    then show ?thesis using sv assms(3) 1(2) by (auto simp: scan_view_def)
  next
    case (2 e)
    have "fold (pick k) (map entry_row rows) None = Some (row_value e, timestamp (snd e))"
    proof (rule pick_newest)
      show "(k, row_value e, timestamp (snd e)) \<in> set (map entry_row rows)"
        using 2(1,2) assms(2) by (force simp: entry_row_def)
      show "\<forall>(k', v', t') \<in> set (map entry_row rows). k' = k \<longrightarrow> t' < timestamp (snd e) \<or> (v', t') = (row_value e, timestamp (snd e))"
        using 2(2,3) assms(2) by (fastforce simp: entry_row_def)
    qed
    then show ?thesis using sv assms(3) 2(4) ne by (auto simp: scan_view_def row_value_def split: option.splits if_splits)
  qed
qed

lemma prefix_entries:
  assumes "mt_invar h act"
  shows "(case pfx of Some p \<Rightarrow> iter_prefix p act | None \<Rightarrow> iter_all act) = filter (\<lambda>(k, v). starts pfx k) (iter_all act)"
    and "distinct (map fst (filter (\<lambda>(k, v). starts pfx k) (iter_all act)))"
    and "map_of (filter (\<lambda>(k, v). starts pfx k) (iter_all act)) k = (if starts pfx k then mt_lookup h act k else None)"
proof -
  have d: "distinct (map fst (iter_all act))" using iter_all_sorted [OF assms] strict_sorted_iff by blast
  show "(case pfx of Some p \<Rightarrow> iter_prefix p act | None \<Rightarrow> iter_all act) = filter (\<lambda>(k, v). starts pfx k) (iter_all act)"
    by (cases pfx) (simp_all add: starts_def iter_prefix_eq_filter [OF assms])
  show d': "distinct (map fst (filter (\<lambda>(k, v). starts pfx k) (iter_all act)))" by (rule distinct_map_filter [OF d])
  show "map_of (filter (\<lambda>(k, v). starts pfx k) (iter_all act)) k = (if starts pfx k then mt_lookup h act k else None)"
  proof (cases "mt_lookup h act k")
    case None
    then have "\<forall>v. (k, v) \<notin> set (iter_all act)" using iter_all_entry [OF assms] by simp
    then show ?thesis using None by (auto simp: map_of_eq_None_iff)
  next
    case (Some v)
    then have "(k, v) \<in> set (iter_all act)" using iter_all_entry [OF assms] by simp
    then have "starts pfx k \<Longrightarrow> (k, v) \<in> set (filter (\<lambda>(k, v). starts pfx k) (iter_all act))" by simp
    moreover have "\<not> starts pfx k \<Longrightarrow> k \<notin> fst ` set (filter (\<lambda>(k, v). starts pfx k) (iter_all act))" by auto
    ultimately show ?thesis using Some d' by (auto simp: map_of_eq_None_iff)
  qed
qed

lemma scan_rel_result:
  assumes rel: "scan_rel Z L K V n s m R" and env: "regs_ok (columnar s)" "zstd_ok Z"
    and order: "dom (sst_registry s) \<subseteq> set order" and V: "[] \<notin> V"
  obtains r where "scan_all_with_prefix Z L order s pfx = Some r" and "sorted_wrt (<) (map fst r)"
    and "\<And>k v. (k, v) \<in> set r \<longleftrightarrow> starts pfx k \<and> m k = Some (Live v)"
proof -
  note sr = scan_relD [OF rel] and r = store_relD [OF scan_relD(1) [OF rel]]
  let ?act = "active (memtable_mgr (core s))" and ?h = "xxh3_64 L" and ?rows = "rows_in_order R order"
  have inv: "mt_invar ?h ?act" using r(1) by (simp add: mm_invar_def)
  define mem where "mem = filter (\<lambda>(k, v). starts pfx k) (iter_all ?act)"
  define st where "st = fold (merge_row pfx) (map entry_row ?rows) ([], [])"
  note pe = prefix_entries [OF inv, of pfx, folded mem_def]
  have sf: "scan_files (scan_block ?h Z pfx) (data_dir s) (sst_registry s) order ([], []) = Some st"
    unfolding st_def by (rule scan_files_rows [OF scan_steps(1) [OF env] sr(2)])
  have v0: "scan_view ([], []) k None" for k by (simp add: scan_view_def om.invar_empty)
  note sv = merge_rows_view [OF v0, of pfx "map entry_row ?rows", folded st_def]
  have out: "om_invar (fst st)" using sv by (simp add: scan_view_def)
  define r' where "r' = fold override mem (map (\<lambda>(k, v, ts). (k, v)) (fst st))"
  note ov = override_mem [OF conjunct1 [OF om_strip_ts [OF out]] pe(2), folded r'_def]
  have get: "om_get r' k = Some v \<longleftrightarrow> starts pfx k \<and> m k = Some (Live v)" for k v
  proof (cases "starts pfx k")
    case False
    then have "om_get (fst st) k = None" using sv [of k] by (simp add: scan_view_def)
    then show ?thesis using False ov [of k] pe(3) [of k] om_strip_ts [OF out, of k] by simp
  next
    case True
    have g: "mm_get ?h (memtable_mgr (core s)) k = map_option vvalue (mt_lookup ?h ?act k)"
      using r(2) by (simp add: mm_get_active mt_get_def)
    show ?thesis
    proof (cases "mt_lookup ?h ?act k")
      case None
      then have nr: "newest_rel (all_rows R) k (m k)" using sr(6) g by simp
      then have "\<forall>v. m k = Some (Live v) \<longrightarrow> v \<in> V" using sr(4) by (auto simp: newest_rel_def split: option.splits)
      then have "\<forall>v. m k = Some (Live v) \<longrightarrow> v \<noteq> []" using V by auto
      from scanned_key [OF nr scanned_rows [OF rel order] True this]
      have "map_option fst (om_get (fst st) k) = (case m k of Some (Live v) \<Rightarrow> Some v | _ \<Rightarrow> None)" by (simp add: st_def)
      then show ?thesis
        using True None ov [of k] pe(3) [of k] om_strip_ts [OF out, of k] by (auto split: option.splits cell.splits)
    next
      case (Some vv)
      then have "key_rel Z L (data_dir s) (sst_registry s) (art_lookup (art_index (core s)) k) (Some (vvalue vv)) (m k)"
        using r(9) [of k] g by simp
      then have "vvalue vv = Some v \<longleftrightarrow> m k = Some (Live v)" by (auto simp: key_rel_def split: option.splits row_location.splits)
      then show ?thesis using True Some ov [of k] pe(3) [of k] by simp
    qed
  qed
  have "scan_all_with_prefix Z L order s pfx = Some r'"
    by (simp add: scan_all_with_prefix_def sf Let_def pe(1) r'_def split: prod.splits)
  moreover have "om_invar r'" using ov by simp
  ultimately show ?thesis
    using get om.entry_iff [of r'] by (intro that [of r']) (auto simp: om_invar_def)
qed

section \<open>Puts, deletes and flushes keep the rows\<close>

text \<open>What a write changes.\<close>

definition write_shape :: "wal_lib \<Rightarrow> bytes \<Rightarrow> bytes option \<Rightarrow> sst_engine \<Rightarrow> sst_engine \<Rightarrow> bool" where
  "write_shape L k v s s' \<longleftrightarrow> sst_registry s' = sst_registry s \<and> data_dir s' = data_dir s \<and> columnar s' = columnar s
     \<and> next_timestamp (core s') = next_timestamp (core s) + 1
     \<and> memtable_mgr (core s') = put_active L k (next_timestamp (core s)) v (memtable_mgr (core s))"

lemma store_put_shape: "store_put L k v s = Some (Inr ts, s') \<Longrightarrow> write_shape L k (Some v) s s'"
  by (auto simp: store_put_def put_sync_def eng_put_def insert_row_def Let_def write_shape_def split: prod.splits sum.splits)

lemma store_delete_shape: "store_delete L k s = Some (Inr b, s') \<Longrightarrow> (if b then write_shape L k None s s' else s' = s)"
  by (auto simp: store_delete_def delete_sync_def eng_delete_def Let_def write_shape_def
      split: prod.splits sum.splits option.splits)

lemma scan_rel_write:
  assumes rel: "scan_rel Z L K V (Suc n) s m R" and sh: "write_shape L k v s s'"
    and st: "store_rel Z L K V n s' m'" and m': "\<forall>k'. k' \<noteq> k \<longrightarrow> m' k' = m k'"
  shows "scan_rel Z L K V n s' m' R"
proof -
  note sr = scan_relD [OF rel] and r = store_relD [OF scan_relD(1) [OF rel]]
  let ?h = "xxh3_64 L" and ?ts = "next_timestamp (core s)" and ?mm = "memtable_mgr (core s)"
  have mm: "memtable_mgr (core s') = put_active L k ?ts v ?mm" and nx: "next_timestamp (core s') = ?ts + 1"
    and same: "sst_registry s' = sst_registry s" "data_dir s' = data_dir s" "columnar s' = columnar s"
    using sh by (simp_all add: write_shape_def)
  have u: "unat (?ts + 1) = unat ?ts + 1" using sr(3) by (intro unat_Suc_small) simp
  then have lt: "?ts < ?ts + 1" by (simp add: word_less_nat_alt)
  have act: "mt_invar ?h (active ?mm)" "\<not> sealed (active ?mm)" using r(1) by (simp_all add: mm_invar_def)
  have lk: "mt_lookup ?h (active (memtable_mgr (core s'))) k'
      = (if k' = k then Some (VersionedValue ?ts v (mt_lookup ?h (active ?mm) k)) else mt_lookup ?h (active ?mm) k')" for k'
    by (simp add: mm put_active_def mt_lookup_put [OF act])
  have get: "mm_get ?h (memtable_mgr (core s')) k' = (if k' = k then Some v else mm_get ?h ?mm k')" for k'
    using put_active_get(2) [OF r(1), of k ?ts v] by (simp add: mm)
  show ?thesis
    unfolding scan_rel_def
  proof (intro conjI allI impI ballI)
    show "unat (next_timestamp (core s')) + n \<le> 200000" using sr(3) u by (simp add: nx)
    show "timestamp (snd e) < next_timestamp (core s')" if "e \<in> all_rows R" for e
      using sr(4) [OF that] lt by (auto simp: nx)
    show "vv \<in> V" if "e \<in> all_rows R" "vvalue (snd e) = Some vv" for e vv using sr(4) that by blast
    show "fst e \<in> K" if "e \<in> all_rows R" for e using sr(4) that by blast
    show "timestamp vv < next_timestamp (core s')" if "mt_lookup ?h (active (memtable_mgr (core s'))) k' = Some vv" for k' vv
      using that lt sr(5) [of k' vv] by (auto simp: lk nx split: if_splits)
    show "timestamp (snd e) < timestamp vv"
      if "mt_lookup ?h (active (memtable_mgr (core s'))) k' = Some vv" "e \<in> all_rows R" for k' vv e
      using that sr(4) [of e] sr(5) [of k' vv] by (auto simp: lk split: if_splits)
    show "newest_rel (all_rows R) k' (m' k')" if "mm_get ?h (memtable_mgr (core s')) k' = None" for k'
      using that m' sr(6) [of k'] by (auto simp: get split: if_splits)
  qed (use st sr(2) same in simp_all)
qed

text \<open>The rows of the new files, by file id.\<close>

definition group_rows :: "u64 \<Rightarrow> row_entry list list list \<Rightarrow> u64 \<rightharpoonup> row_entry list" where
  "group_rows base groups i = map_option (\<lambda>j. concat (groups ! j)) (find (\<lambda>j. i = base + word_of_nat j) [0..<length groups])"

lemma group_rows_nth:
  assumes "j < length groups" and "unat base + length groups < 2 ^ 64"
  shows "group_rows base groups (base + word_of_nat j) = Some (concat (groups ! j))"
proof -
  have inj: "word_of_nat i = (word_of_nat j :: u64) \<longleftrightarrow> i = j" if "i < length groups" for i
  proof -
    have "unat (word_of_nat i :: u64) = i" "unat (word_of_nat j :: u64) = j" using that assms by (simp_all add: unat_of_nat_small)
    then show ?thesis by metis
  qed
  have "find (\<lambda>i. i = j) [0..<length groups] = Some j" using assms(1) by (simp add: find_Some_iff) (rule exI [of _ j], simp)
  moreover have "find (\<lambda>i. word_of_nat j = (word_of_nat i :: u64)) [0..<length groups] = find (\<lambda>i. i = j) [0..<length groups]"
    by (rule find_cong [OF refl]) (metis inj atLeastLessThan_iff set_upt)
  ultimately show ?thesis by (simp add: group_rows_def)
qed

lemma group_rows_Some:
  "group_rows base groups i = Some rows \<Longrightarrow> \<exists>j < length groups. i = base + word_of_nat j \<and> rows = concat (groups ! j)"
  by (auto simp: group_rows_def find_Some_iff)

lemma all_rows_flush:
  assumes "dom R \<inter> dom (group_rows base groups) = {}" and "unat base + length groups < 2 ^ 64"
  shows "all_rows (R ++ group_rows base groups) = all_rows R \<union> set (concat (concat groups))"
proof -
  have "ran (group_rows base groups) = (\<lambda>g. concat g) ` set groups"
  proof
    show "ran (group_rows base groups) \<subseteq> (\<lambda>g. concat g) ` set groups"
      using group_rows_Some [of base groups] by (force simp: ran_def)
    show "(\<lambda>g. concat g) ` set groups \<subseteq> ran (group_rows base groups)"
    proof
      fix x assume "x \<in> (\<lambda>g. concat g) ` set groups"
      then obtain j where "j < length groups" "x = concat (groups ! j)" by (auto simp: in_set_conv_nth)
      then have "group_rows base groups (base + word_of_nat j) = Some x" using group_rows_nth assms(2) by simp
      then show "x \<in> ran (group_rows base groups)" by (rule ranI)
    qed
  qed
  moreover have "ran (R ++ group_rows base groups) = ran R \<union> ran (group_rows base groups)"
    using assms(1) by (rule ran_map_add)
  ultimately show ?thesis by (auto simp: all_rows_def)
qed

lemma newest_rel_flush:
  assumes "\<And>k vv. (k, vv) \<in> set es \<Longrightarrow> \<forall>e \<in> A. timestamp (snd e) < timestamp vv" and "distinct (map fst es)"
    and "k \<notin> fst ` set es \<Longrightarrow> newest_rel A k c"
    and "\<And>vv. (k, vv) \<in> set es \<Longrightarrow> c = Some (case vvalue vv of Some v \<Rightarrow> Live v | None \<Rightarrow> Buried)"
  shows "newest_rel (A \<union> set es) k c"
proof (cases "k \<in> fst ` set es")
  case True
  then obtain vv where vv: "(k, vv) \<in> set es" by auto
  have "e' = (k, vv) \<or> timestamp (snd e') < timestamp vv" if "e' \<in> A \<union> set es" "fst e' = k" for e'
    using that assms(1) [OF vv] vv eq_key_imp_eq_value [OF assms(2) vv, of "snd e'"] by (cases e') auto
  then show ?thesis
    using vv assms(4) [OF vv] unfolding newest_rel_def by (intro disjI2 bexI [of _ "(k, vv)"]) auto
next
  case False
  then show ?thesis using assms(3) unfolding newest_rel_def by (metis UnE UnI1 image_eqI)
qed

lemma file_rows_flush:
  assumes fr: "file_rows h Z regs d reg R" and fl: "flushed h Z regs cs files res n0 n1 d d1"
    and reg: "registered base (sst_paths res) files reg reg'" and g: "concat groups = cs" "list_all2 (image_blocks h Z regs) files groups"
    and old: "\<forall>i en. reg i = Some en \<longrightarrow> i < base \<and> sst_path en < n0" and fit: "\<forall>c \<in> set cs. rows_fit c"
    and sz: "length cs < 2 ^ 31" "unat base + length groups < 2 ^ 64"
  shows "file_rows h Z regs d1 reg' (R ++ group_rows base groups)" and "dom R \<inter> dom (group_rows base groups) = {}"
proof -
  have len: "length (sst_paths res) = length groups" "length files = length groups"
    using fl list_all2_lengthD [OF g(2)] by (auto simp: flushed_def)
  have ge: "\<not> base + word_of_nat j < base" if "j < length groups" for j
    using unat_plus_nat [of base j] that sz(2) by (simp add: word_less_nat_alt)
  have rd: "dom R = dom reg" using fr by (simp add: file_rows_def)
  have new: "reg' (base + word_of_nat j) = Some (entry_of_image (sst_paths res ! j) (files ! j))"
    "(R ++ group_rows base groups) (base + word_of_nat j) = Some (concat (groups ! j))" if "j < length groups" for j
    using reg that len group_rows_nth [OF that sz(2)] by (simp_all add: registered_def)
  have keep: "reg' i = reg i" "(R ++ group_rows base groups) i = R i" if "reg i = Some en" for i en
  proof -
    have "i < base" using old that by blast
    then show "reg' i = reg i" using reg by (simp add: registered_def)
    have "group_rows base groups i = None"
      using group_rows_Some [of base groups i] ge \<open>i < base\<close> by (cases "group_rows base groups i") auto
    then show "(R ++ group_rows base groups) i = R i" by (simp add: map_add_def)
  qed
  have split: "reg i = Some en \<or> (\<exists>j < length groups. i = base + word_of_nat j)" if "reg' i = Some en" for i en
    using reg that len unfolding registered_def by metis
  show "dom R \<inter> dom (group_rows base groups) = {}"
  proof (rule ccontr)
    assume "dom R \<inter> dom (group_rows base groups) \<noteq> {}"
    then obtain i rows where i: "i \<in> dom reg" "group_rows base groups i = Some rows" using rd by blast
    then show False using old group_rows_Some [OF i(2)] ge by blast
  qed
  have "dom (R ++ group_rows base groups) = dom reg'"
  proof (intro equalityI subsetI)
    fix i assume "i \<in> dom (R ++ group_rows base groups)"
    then consider "i \<in> dom reg" | j where "j < length groups" "i = base + word_of_nat j"
      using rd group_rows_Some [of base groups i] by (auto simp: map_add_Some_iff)
    then show "i \<in> dom reg'" using keep(1) new(1) by cases (auto simp: domIff)
  next
    fix i assume "i \<in> dom reg'"
    then obtain en where en: "reg' i = Some en" by blast
    from split [OF en] show "i \<in> dom (R ++ group_rows base groups)"
    proof
      assume "reg i = Some en"
      then show ?thesis using keep(2) [of i en] rd by (metis domIff option.distinct(1))
    next
      assume "\<exists>j < length groups. i = base + word_of_nat j"
      then show ?thesis using new(2) by (metis domI)
    qed
  qed
  moreover have "\<exists>x cs. d1 (sst_path en) = Some (file_of x) \<and> block_index en = snd x \<and> image_small x
      \<and> image_blocks h Z regs x cs \<and> (\<forall>c \<in> set cs. rows_fit c) \<and> (R ++ group_rows base groups) i = Some (concat cs)"
    if en: "reg' i = Some en" for i en
    using split [OF en]
  proof
    assume r: "reg i = Some en"
    then have "d1 (sst_path en) = d (sst_path en)" using fl old by (simp add: flushed_def)
    then show ?thesis using fr r keep(2) [OF r] unfolding file_rows_def by metis
  next
    assume "\<exists>j < length groups. i = base + word_of_nat j"
    then obtain j where j: "j < length groups" "i = base + word_of_nat j" by blast
    have f: "d1 (sst_paths res ! j) = Some (file_of (files ! j))" "image_fits (length cs) (files ! j)"
      using fl j(1) len by (auto simp: flushed_def)
    have "image_small (files ! j)" using image_fits_size [OF f(2) sz(1)] by (simp add: image_small_def)
    moreover have "image_blocks h Z regs (files ! j) (groups ! j)" using g(2) j(1) by (simp add: list_all2_nthD2)
    moreover have "\<forall>c \<in> set (groups ! j). rows_fit c" using fit g(1) j(1) by (metis UN_I nth_mem set_concat)
    moreover have "en = entry_of_image (sst_paths res ! j) (files ! j)" using new(1) [OF j(1)] en j(2) by simp
    ultimately show ?thesis
      using f(1) new(2) [OF j(1)] j(2) by (intro exI [of _ "files ! j"] exI [of _ "groups ! j"]) (simp add: entry_of_image_def)
  qed
  ultimately show "file_rows h Z regs d1 reg' (R ++ group_rows base groups)" unfolding file_rows_def by blast
qed

lemma flushed_groups:
  assumes rel: "scan_rel Z L K V (n + card K) s m R" and env: "store_env Z L (columnar s) K V" and sh: "flush_shape Z L s s'"
  shows "\<exists>groups. concat (concat groups) = iter_all (active (memtable_mgr (core s))) \<and> unat (next_sst_id s) + length groups < 2 ^ 64
    \<and> file_rows (xxh3_64 L) Z (columnar s) (data_dir s') (sst_registry s') (R ++ group_rows (next_sst_id s) groups)
    \<and> dom R \<inter> dom (group_rows (next_sst_id s) groups) = {}"
proof -
  note sr = scan_relD [OF rel] and r = store_relD [OF scan_relD(1) [OF rel]]
  let ?h = "xxh3_64 L"
  define es where "es = iter_all (active (memtable_mgr (core s)))"
  show ?thesis
  proof (cases "es = []")
    case True
    then have "s' = s" using sh by (simp add: flush_shape_def es_def)
    moreover have "group_rows (next_sst_id s) [] = Map.empty" by (rule ext) (simp add: group_rows_def)
    ultimately show ?thesis
      using True sr(2) unsigned_less [of "next_sst_id s"] by (intro exI [of _ "[]"]) (simp add: es_def [symmetric])
  next
    case False
    define cs where "cs = split_into_blocks es (se_config s) (columnar s)"
    obtain files res where fl: "flushed ?h Z (columnar s) cs files res (block_counter s) (block_counter s') (data_dir s) (data_dir s')"
      and reg: "registered (next_sst_id s) (sst_paths res) files (sst_registry s) (sst_registry s')"
      using sh False by (auto simp: flush_shape_def es_def [symmetric] cs_def Let_def)
    obtain groups where g: "concat groups = cs" "list_all2 (image_blocks ?h Z (columnar s)) files groups"
      using fl by (auto simp: flushed_def grouped_def)
    have fin: "finite K" "\<forall>k \<in> K. length k < 2 ^ 32" "\<forall>v \<in> V. length v < 2 ^ 32" "card K < 2 ^ 29"
      using env r(3) by (simp_all add: store_env_def)
    note ar = active_rows [OF sr(1) fin, folded es_def]
    have cs: "concat cs = es" "length cs \<le> card K" "\<forall>c \<in> set cs. rows_fit c"
      using split_facts(1) length_chunks [of es "se_config s" "columnar s"] ar(4,5) chunk_rows(3) by (auto simp: cs_def)
    have "length groups \<le> length cs" using fl list_all2_lengthD [OF g(2)] by (simp add: flushed_def)
    then have sz: "length cs < 2 ^ 31" "unat (next_sst_id s) + length groups < 2 ^ 64" using cs(2) r(3,5) by simp_all
    have old: "\<forall>i en. sst_registry s i = Some en \<longrightarrow> i < next_sst_id s \<and> sst_path en < block_counter s" using r(7) by blast
    from file_rows_flush [OF sr(2) fl reg g old cs(3) sz] show ?thesis using g(1) cs(1) sz(2) es_def by blast
  qed
qed

lemma scan_rel_flush:
  assumes rel: "scan_rel Z L K V (n + card K) s m R" and env: "store_env Z L (columnar s) K V" and sh: "flush_shape Z L s s'"
    and st: "store_rel Z L K V n s' (bury m)" and col: "columnar s' = columnar s"
    and g: "concat (concat groups) = iter_all (active (memtable_mgr (core s)))" "unat (next_sst_id s) + length groups < 2 ^ 64"
      "file_rows (xxh3_64 L) Z (columnar s) (data_dir s') (sst_registry s') (R ++ group_rows (next_sst_id s) groups)"
      "dom R \<inter> dom (group_rows (next_sst_id s) groups) = {}"
  shows "scan_rel Z L K V n s' (bury m) (R ++ group_rows (next_sst_id s) groups)"
proof -
  note sr = scan_relD [OF rel] and r = store_relD [OF scan_relD(1) [OF rel]]
  let ?h = "xxh3_64 L" and ?act = "active (memtable_mgr (core s))"
  define es where "es = iter_all ?act"
  have rows: "all_rows (R ++ group_rows (next_sst_id s) groups) = all_rows R \<union> set es"
    using all_rows_flush [OF g(4,2)] g(1) by (simp add: es_def)
  have fin: "finite K" "\<forall>k \<in> K. length k < 2 ^ 32" "\<forall>v \<in> V. length v < 2 ^ 32" "card K < 2 ^ 29"
    using env r(3) by (simp_all add: store_env_def)
  note ar = active_rows [OF sr(1) fin, folded es_def]
  have nx: "next_timestamp (core s') = next_timestamp (core s)" using sh by (auto simp: flush_shape_def Let_def split: if_splits)
  have lk: "mt_lookup ?h (active (memtable_mgr (core s'))) k = None" for k
  proof (cases "es = []")
    case True
    then have "s' = s" using sh by (simp add: flush_shape_def es_def)
    then show ?thesis using True ar(1) [of k] by (cases "mt_lookup ?h ?act k") auto
  next
    case False
    then show ?thesis using sh by (simp add: flush_shape_def es_def [symmetric] Let_def mt_lookup_def new_memtable_def)
  qed
  have new: "timestamp vv < next_timestamp (core s)" "\<forall>e \<in> all_rows R. timestamp (snd e) < timestamp vv"
    "vvalue vv = Some v \<Longrightarrow> v \<in> V" "bury m k = Some (case vvalue vv of Some v \<Rightarrow> Live v | None \<Rightarrow> Buried)"
    if e: "(k, vv) \<in> set es" for k vv v
  proof -
    have l: "mt_lookup ?h ?act k = Some vv" "mm_get ?h (memtable_mgr (core s)) k = Some (vvalue vv)" using ar(1,2) e by blast+
    show "timestamp vv < next_timestamp (core s)" "\<forall>e \<in> all_rows R. timestamp (snd e) < timestamp vv" using sr(5) [OF l(1)] by auto
    show "vvalue vv = Some v \<Longrightarrow> v \<in> V" using r(8) [OF l(2)] by simp
    have "key_rel Z L (data_dir s) (sst_registry s) (art_lookup (art_index (core s)) k) (Some (vvalue vv)) (m k)"
      using r(9) [of k] l(2) by simp
    then show "bury m k = Some (case vvalue vv of Some v \<Rightarrow> Live v | None \<Rightarrow> Buried)"
      by (auto simp: key_rel_def bury_def split: option.splits row_location.splits)
  qed
  have nr: "newest_rel (all_rows R \<union> set es) k (bury m k)" for k
  proof (rule newest_rel_flush [OF _ ar(3)])
    assume "k \<notin> fst ` set es"
    then have "mt_lookup ?h ?act k = None" using ar(1) [of k] by (cases "mt_lookup ?h ?act k") force+
    then have "mm_get ?h (memtable_mgr (core s)) k = None" using r(2) by (simp add: mm_get_active mt_get_def)
    then have "newest_rel (all_rows R) k (m k)" by (rule sr(6))
    moreover from this have "bury m k = m k" by (auto simp: newest_rel_def bury_def split: option.splits)
    ultimately show "newest_rel (all_rows R) k (bury m k)" by simp
  qed (use new in blast)+
  show ?thesis
    unfolding scan_rel_def rows
  proof (intro conjI allI impI ballI)
    fix e assume e: "e \<in> all_rows R \<union> set es"
    show "timestamp (snd e) < next_timestamp (core s')" using e sr(4) new(1) by (cases e) (auto simp: nx)
    show "v \<in> V" if "vvalue (snd e) = Some v" for v using e that sr(4) new(3) by (cases e) auto
    show "fst e \<in> K" using e sr(4) ar(2) by (cases e) auto
  qed (use st g(3) col sr(3) nr lk in \<open>auto simp: nx\<close>)
qed

section \<open>Runs\<close>

lemma scan_rel_mono: "scan_rel Z L K V n s m R \<Longrightarrow> n' \<le> n \<Longrightarrow> scan_rel Z L K V n' s m R"
  using store_rel_mono [of Z L K V n s m n'] by (auto simp: scan_rel_def)

lemma scan_put:
  assumes "scan_rel Z L K V (Suc n) s m R" and "k \<in> K" "v \<in> V"
  shows "\<exists>s'. store_step Z L compact (SPut k v) s = Some s' \<and> scan_rel Z L K V n s' (m(k \<mapsto> Live v)) R
    \<and> write_shape L k (Some v) s s' \<and> bg_worker_active s' = bg_worker_active s"
proof -
  obtain ts s' where s': "store_put L k v s = Some (Inr ts, s')" "store_rel Z L K V n s' (m(k \<mapsto> Live v))"
    "bg_worker_active s' = bg_worker_active s"
    using store_put_rel [OF scan_relD(1) [OF assms(1)] assms(2,3)] by blast
  have "write_shape L k (Some v) s s'" by (rule store_put_shape [OF s'(1)])
  then show ?thesis using scan_rel_write [OF assms(1) _ s'(2)] s' by simp
qed

lemma scan_delete:
  assumes "scan_rel Z L K V (Suc n) s m R" and "k \<in> K"
  shows "\<exists>s'. store_step Z L compact (SDelete k) s = Some s' \<and> scan_rel Z L K V n s' (cell_step (SDelete k) m) R
    \<and> (if indexed (m k) then write_shape L k None s s' else s' = s) \<and> bg_worker_active s' = bg_worker_active s"
proof -
  have rel: "store_rel Z L K V n s m" using store_rel_mono [OF scan_relD(1) [OF assms(1)], of n] by simp
  obtain s' where s': "store_delete L k s = Some (Inr (indexed (m k)), s')"
    "store_rel Z L K V n s' (cell_step (SDelete k) m)" "bg_worker_active s' = bg_worker_active s"
    using store_delete_rel [OF rel assms(2)] by auto
  note sh = store_delete_shape [OF s'(1)]
  show ?thesis
  proof (cases "indexed (m k)")
    case False
    then show ?thesis using s' sh scan_rel_mono [OF assms(1), of n] by simp
  next
    case True
    then have "write_shape L k None s s'" using sh by simp
    then show ?thesis using s' True scan_rel_write [OF assms(1) _ s'(2), of k None] by auto
  qed
qed

lemma scan_flush:
  assumes rel: "scan_rel Z L K V (n + card K) s m R" and env: "store_env Z L (columnar s) K V" and bg: "bg_worker_active s"
  shows "\<exists>s' groups. store_step Z L compact SFlush s = Some s' \<and> flush_shape Z L s s' \<and> columnar s' = columnar s
    \<and> bg_worker_active s' \<and> concat (concat groups) = iter_all (active (memtable_mgr (core s)))
    \<and> unat (next_sst_id s) + length groups < 2 ^ 64 \<and> dom R \<inter> dom (group_rows (next_sst_id s) groups) = {}
    \<and> scan_rel Z L K V n s' (bury m) (R ++ group_rows (next_sst_id s) groups)"
proof -
  from store_flush_rel [OF scan_relD(1) [OF rel], of "\<lambda>_. None" compact] env bg obtain c s' where
    s': "engine_flush Z L (\<lambda>_. None) compact s = Some (Inr c, s')" "store_rel Z L K V n s' (bury m)" "flush_shape Z L s s'"
    "columnar s' = columnar s" "bg_worker_active s'" by (auto simp: store_env_def)
  from flushed_groups [OF rel env s'(3)] obtain groups where
    g: "concat (concat groups) = iter_all (active (memtable_mgr (core s)))" "unat (next_sst_id s) + length groups < 2 ^ 64"
    "file_rows (xxh3_64 L) Z (columnar s) (data_dir s') (sst_registry s') (R ++ group_rows (next_sst_id s) groups)"
    "dom R \<inter> dom (group_rows (next_sst_id s) groups) = {}" by blast
  from scan_rel_flush [OF rel env s'(3,2,4) g] show ?thesis using s' g(1,2,4) by auto
qed

lemma scan_step_rel:
  assumes env: "store_env Z L (columnar s) K V" and bg: "bg_worker_active s"
    and rel: "scan_rel Z L K V (n + Suc (card K)) s m R" and op: "store_keys p \<subseteq> K" "store_values p \<subseteq> V"
  shows "\<exists>s' R'. store_step Z L compact p s = Some s' \<and> scan_rel Z L K V n s' (cell_step p m) R'
    \<and> columnar s' = columnar s \<and> bg_worker_active s'"
proof (cases p)
  case (SPut k v)
  from scan_put [OF scan_rel_mono [OF rel, of "Suc n"], of k v compact] SPut op bg show ?thesis
    by (auto simp: write_shape_def)
next
  case (SDelete k)
  from scan_delete [OF scan_rel_mono [OF rel, of "Suc n"], of k compact] SDelete op bg show ?thesis
    by (auto simp: write_shape_def split: if_splits)
next
  case SFlush
  from scan_flush [OF scan_rel_mono [OF rel, of "n + card K"] env bg, of compact] SFlush show ?thesis by auto
qed

lemma scan_run_rel:
  "store_env Z L (columnar s) K V \<Longrightarrow> bg_worker_active s \<Longrightarrow>
     scan_rel Z L K V (n + length ps * Suc (card K)) s m R \<Longrightarrow>
     \<forall>p \<in> set ps. store_keys p \<subseteq> K \<and> store_values p \<subseteq> V \<Longrightarrow>
     \<exists>s' R'. store_run Z L compact ps s = Some s' \<and> scan_rel Z L K V n s' (fold cell_step ps m) R' \<and> columnar s' = columnar s"
proof (induction ps arbitrary: s m R)
  case Nil
  then show ?case by auto
next
  case (Cons p ps)
  have "scan_rel Z L K V (n + length ps * Suc (card K) + Suc (card K)) s m R" using Cons.prems(3) by (simp add: algebra_simps)
  from scan_step_rel [OF Cons.prems(1,2) this, of p compact] Cons.prems(4) obtain s1 R1 where
    s1: "store_step Z L compact p s = Some s1" "scan_rel Z L K V (n + length ps * Suc (card K)) s1 (cell_step p m) R1"
    "columnar s1 = columnar s" "bg_worker_active s1" by auto
  from Cons.IH [OF _ s1(4,2)] s1(1,3) Cons.prems(1,4) show ?case by simp
qed

lemma fresh_scan:
  assumes "lz4_ok L" "key_space K" "n \<le> 65000"
  shows "\<exists>s. open_store L cfg fcfg None [] Map.empty 1 = Some (Inr s) \<and> columnar s = [] \<and> sst_registry s = Map.empty
    \<and> next_sst_id s = 1 \<and> next_timestamp (core s) = 1 \<and> (\<forall>k. mt_lookup (xxh3_64 L) (active (memtable_mgr (core s))) k = None)
    \<and> scan_rel Z L K V n (prepare tables s) Map.empty Map.empty"
proof -
  obtain w where w: "new_wal_writer L engine_wal_config None = Inr w"
    "engine_new L cfg None = Some (Inr ((empty_engine cfg w)\<lparr>next_timestamp := max 1 1\<rparr>))"
    by (rule fresh_engine [OF assms(1)])
  obtain s where s: "open_store L cfg fcfg None [] Map.empty 1 = Some (Inr s)" "columnar s = []"
    "store_rel Z L K V n (prepare tables s) Map.empty"
    using fresh_store [OF assms] by blast
  have c: "core s = (empty_engine cfg w)\<lparr>next_timestamp := max 1 1\<rparr>" "sst_registry s = Map.empty" "next_sst_id s = 1"
    using s(1) w by (auto simp: open_store_def next_id_after_def)
  have lk: "mt_lookup (xxh3_64 L) (active (memtable_mgr (core s))) k = None" for k
    by (simp add: c(1) empty_engine_def new_memtable_manager_def mt_lookup_def new_memtable_def)
  have ts: "next_timestamp (core s) = 1" by (simp add: c(1))
  have "scan_rel Z L K V n (prepare tables s) Map.empty Map.empty"
    using s(3) lk assms(3) by (simp add: scan_rel_def file_rows_def all_rows_def newest_rel_def c(2) ts)
  then show ?thesis using s c(2,3) lk ts by auto
qed

text \<open>
  Scans return the live rows. After any run of puts, deletes and flushes on a fresh store,
  a scan, of everything or of a key prefix, visits the registered files in any order, skips
  blocks by their key zone maps, and returns the keys that the run left live, with the values
  of their last puts, in key order and each once. The values are not empty: an empty one is
  taken for a tombstone once it is in a file.
\<close>

theorem scan_refines:
  assumes "lz4_ok L" and "key_space (\<Union> (store_keys ` set ps))"
    and "length ps * Suc (card (\<Union> (store_keys ` set ps))) \<le> 65000" and "[] \<notin> \<Union> (store_values ` set ps)"
    and "store_env Z L (table_regs tables) (\<Union> (store_keys ` set ps)) (\<Union> (store_values ` set ps))"
  shows "\<exists>s s'. open_store L cfg fcfg None [] Map.empty 1 = Some (Inr s)
    \<and> store_run Z L compact ps (prepare tables s) = Some s'
    \<and> (\<forall>order pfx. set order = dom (sst_registry s') \<longrightarrow>
         (\<exists>r. scan_all_with_prefix Z L order s' pfx = Some r \<and> sorted_wrt (<) (map fst r)
            \<and> (\<forall>k v. (k, v) \<in> set r \<longleftrightarrow> starts pfx k \<and> fold cell_step ps Map.empty k = Some (Live v))))"
proof -
  let ?K = "\<Union> (store_keys ` set ps)" and ?V = "\<Union> (store_values ` set ps)"
  obtain s where s: "open_store L cfg fcfg None [] Map.empty 1 = Some (Inr s)" "columnar s = []"
    "scan_rel Z L ?K ?V (0 + length ps * Suc (card ?K)) (prepare tables s) Map.empty Map.empty"
    using fresh_scan [OF assms(1,2), of "0 + length ps * Suc (card ?K)" cfg fcfg Z ?V tables] assms(3) by auto
  have env: "store_env Z L (columnar (prepare tables s)) ?K ?V" using assms(5) columnar_prepare [OF s(2)] by simp
  have ops: "\<forall>p \<in> set ps. store_keys p \<subseteq> ?K \<and> store_values p \<subseteq> ?V" by auto
  obtain s' R where s': "store_run Z L compact ps (prepare tables s) = Some s'"
    "scan_rel Z L ?K ?V 0 s' (fold cell_step ps Map.empty) R" "columnar s' = columnar (prepare tables s)"
    using scan_run_rel [OF env _ s(3) ops, of compact] by auto
  have ok: "regs_ok (columnar s')" "zstd_ok Z" using env s'(3) by (simp_all add: store_env_def)
  have "\<exists>r. scan_all_with_prefix Z L order s' pfx = Some r \<and> sorted_wrt (<) (map fst r)
      \<and> (\<forall>k v. (k, v) \<in> set r \<longleftrightarrow> starts pfx k \<and> fold cell_step ps Map.empty k = Some (Live v))"
    if "set order = dom (sst_registry s')" for order pfx
    using scan_rel_result [OF s'(2) ok _ assms(4), of order pfx] that by (metis order_refl)
  then show ?thesis using s(1) s'(1) by blast
qed

theorem scan_refines_witness:
  "\<exists>s s' order r. open_store demo_lib demo_eng_cfg demo_flush_cfg None [] Map.empty 1 = Some (Inr s)
     \<and> store_run demo_zstd demo_lib id demo_store_ops (prepare [] s) = Some s' \<and> set order = dom (sst_registry s')
     \<and> scan_all_with_prefix demo_zstd demo_lib order s' None = Some r \<and> set r = {([1], [11]), ([3], [30])}"
proof -
  have K: "\<Union> (store_keys ` set demo_store_ops) = {[1], [2], [3]}" "\<Union> (store_values ` set demo_store_ops) = {[10], [20], [11], [30]}"
    by (auto simp: demo_store_ops_def)
  have env: "store_env demo_zstd demo_lib (table_regs []) {[1], [2], [3]} {[10], [20], [11], [30]}"
    by (rule demo_env) auto
  have ks: "key_space {[1], [2], [3]}" by (simp add: key_space_def)
  have n: "length demo_store_ops * Suc (card {[1] :: bytes, [2], [3]}) \<le> 65000" by (simp add: demo_store_ops_def)
  have ne: "[] \<notin> {[10 :: u8], [20], [11], [30]}" by simp
  from scan_refines [of demo_lib demo_store_ops demo_zstd "[]", unfolded K, OF demo_lib_ok ks n ne env] obtain s s' where
    s: "open_store demo_lib demo_eng_cfg demo_flush_cfg None [] Map.empty 1 = Some (Inr s)"
    "store_run demo_zstd demo_lib id demo_store_ops (prepare [] s) = Some s'"
    and sc: "\<forall>order pfx. set order = dom (sst_registry s') \<longrightarrow>
         (\<exists>r. scan_all_with_prefix demo_zstd demo_lib order s' pfx = Some r \<and> sorted_wrt (<) (map fst r)
            \<and> (\<forall>k v. (k, v) \<in> set r \<longleftrightarrow> starts pfx k \<and> fold cell_step demo_store_ops Map.empty k = Some (Live v)))" by blast
  obtain order where order: "set order = dom (sst_registry s')" using finite_list [of "dom (sst_registry s')"] by auto
  then obtain r where r: "scan_all_with_prefix demo_zstd demo_lib order s' None = Some r"
    "\<forall>k v. (k, v) \<in> set r \<longleftrightarrow> starts None k \<and> fold cell_step demo_store_ops Map.empty k = Some (Live v)"
    using sc by blast
  have "fold cell_step demo_store_ops Map.empty = [[1] \<mapsto> Live [11], [2] \<mapsto> Buried, [3] \<mapsto> Live [30]]"
    by (auto simp: demo_store_ops_def bury_def indexed_def fun_eq_iff)
  then have "(k, v) \<in> set r \<longleftrightarrow> k = [1] \<and> v = [11] \<or> k = [3] \<and> v = [30]" for k v
    using r(2) [rule_format, of k v] by (auto simp: starts_def)
  then have "set r = {([1], [11]), ([3], [30])}" by auto
  then show ?thesis using s r(1) order by blast
qed

section \<open>The snapshot scan after flushes\<close>

lemma scan_all_at_rows:
  assumes rel: "scan_rel Z L K V n s m R" and env: "regs_ok (columnar s)" "zstd_ok Z"
  shows "scan_all_at Z L order s t = Some (fold (override_at t) (iter_all (active (memtable_mgr (core s))))
    (fold (merge_row_at t) (map entry_row (rows_in_order R order)) []))"
  by (simp add: scan_all_at_def scan_files_rows [OF scan_steps(2) [OF env] scan_relD(2) [OF rel]])

text \<open>A memtable with one key.\<close>

lemma iter_all_single:
  assumes "mt_invar h act" and "\<And>k'. mt_lookup h act k' = (if k' = k then Some vv else None)"
  shows "iter_all act = [(k, vv)]"
proof -
  have d: "distinct (map fst (iter_all act))" using iter_all_sorted [OF assms(1)] strict_sorted_iff by blast
  have set: "set (iter_all act) = {(k, vv)}"
    using iter_all_entry [OF assms(1)] assms(2) by (auto split: if_splits)
  have "length (iter_all act) = card (set (iter_all act))" using d distinct_card by (metis distinct_map)
  then have "length (iter_all act) = 1" by (simp add: set)
  then show ?thesis using set by (cases "iter_all act") auto
qed

lemma iter_all_none: "mt_invar h act \<Longrightarrow> (\<And>k. mt_lookup h act k = None) \<Longrightarrow> iter_all act = []"
  using iter_all_entry [of h act] by (cases "iter_all act") auto

lemma mt_invar_active: "scan_rel Z L K V n s m R \<Longrightarrow> mt_invar (xxh3_64 L) (active (memtable_mgr (core s)))
    \<and> \<not> sealed (active (memtable_mgr (core s)))"
  using store_relD(1) [OF scan_relD(1)] by (simp add: mm_invar_def)

lemma write_shape_lookup:
  assumes "scan_rel Z L K V n s m R" and "write_shape L k v s s'"
  shows "mt_lookup (xxh3_64 L) (active (memtable_mgr (core s'))) k'
      = (if k' = k then Some (VersionedValue (next_timestamp (core s)) v (mt_lookup (xxh3_64 L) (active (memtable_mgr (core s))) k))
         else mt_lookup (xxh3_64 L) (active (memtable_mgr (core s))) k')"
  using mt_lookup_put mt_invar_active [OF assms(1)] assms(2) by (simp add: write_shape_def put_active_def)

lemma flush_shape_lookup:
  assumes "scan_rel Z L K V n s m R" and "flush_shape Z L s s'"
  shows "mt_lookup (xxh3_64 L) (active (memtable_mgr (core s'))) k = None" and "next_timestamp (core s') = next_timestamp (core s)"
proof -
  show "next_timestamp (core s') = next_timestamp (core s)" using assms(2) by (auto simp: flush_shape_def Let_def split: if_splits)
  show "mt_lookup (xxh3_64 L) (active (memtable_mgr (core s'))) k = None"
  proof (cases "iter_all (active (memtable_mgr (core s))) = []")
    case True
    then have "s' = s" using assms(2) by (simp add: flush_shape_def)
    then show ?thesis using True iter_all_entry [OF conjunct1 [OF mt_invar_active [OF assms(1)]], of k]
      by (cases "mt_lookup (xxh3_64 L) (active (memtable_mgr (core s))) k") auto
  next
    case False
    then show ?thesis using assms(2) by (simp add: flush_shape_def Let_def mt_lookup_def new_memtable_def)
  qed
qed

text \<open>The ids of the files of one flush, and the rows read through them.\<close>

definition group_ids :: "u64 \<Rightarrow> row_entry list list list \<Rightarrow> u64 list" where
  "group_ids base groups = map (\<lambda>j. base + word_of_nat j) [0..<length groups]"

lemma group_ids_rows:
  assumes "unat base + length groups < 2 ^ 64" and "\<And>i. i \<in> set (group_ids base groups) \<Longrightarrow> R i = group_rows base groups i"
  shows "rows_in_order R (group_ids base groups) = concat (concat groups)"
proof -
  have "map (\<lambda>i. case R i of None \<Rightarrow> [] | Some rows \<Rightarrow> rows) (group_ids base groups) = map concat groups"
    using group_rows_nth [OF _ assms(1)] assms(2) by (intro nth_equalityI) (auto simp: group_ids_def)
  moreover have "concat (map concat groups) = concat (concat groups)" by (induction groups) auto
  ultimately show ?thesis by (simp add: rows_in_order_def)
qed

lemma rows_in_order_sub: "set (rows_in_order R order) \<subseteq> all_rows R"
proof
  fix e assume "e \<in> set (rows_in_order R order)"
  then obtain i rows where "R i = Some rows" "e \<in> set rows"
    by (auto simp: rows_in_order_def split: option.splits) metis
  then show "e \<in> all_rows R" by (auto simp: all_rows_def intro: ranI)
qed

lemma rows_in_order_empty: "rows_in_order Map.empty order = []"
  by (induction order) (simp_all add: rows_in_order_def)

lemma rows_in_order_append: "rows_in_order R (xs @ ys) = rows_in_order R xs @ rows_in_order R ys"
  by (simp add: rows_in_order_def)

text \<open>
  C26: A flush loses the older versions of a key. After two puts of a key the snapshot scan at
  the time of the first put returns its value; after a flush of the memtable the same scan
  returns nothing, in whatever order the files are visited: the flush writes only the newest
  version of a key, although the timestamp column is there for reads at an arbitrary snapshot.
\<close>

theorem flush_loses_snapshot:
  assumes "lz4_ok L" and "store_env Z L (table_regs tables) {k} {v, w}"
  shows "\<exists>s s1 s2. open_store L cfg fcfg None [] Map.empty 1 = Some (Inr s)
    \<and> store_run Z L compact [SPut k v, SPut k w] (prepare tables s) = Some s1
    \<and> store_run Z L compact [SFlush] s1 = Some s2
    \<and> (\<forall>order. scan_all_at Z L order s1 1 = Some [(k, v, 1)] \<and> scan_all_at Z L order s2 1 = Some [])"
proof -
  let ?V = "{v, w}" and ?h = "xxh3_64 L"
  have ks: "key_space {k}" by (auto simp: key_space_def dest: prefix_length_le)
  obtain s where s: "open_store L cfg fcfg None [] Map.empty 1 = Some (Inr s)" "columnar s = []" "next_sst_id s = 1"
    "next_timestamp (core s) = 1" "\<And>k. mt_lookup ?h (active (memtable_mgr (core s))) k = None"
    "scan_rel Z L {k} ?V 6 (prepare tables s) Map.empty Map.empty"
    using fresh_scan [OF assms(1) ks, of 6 cfg fcfg Z ?V tables] by auto
  let ?s = "prepare tables s"
  have env: "store_env Z L (columnar ?s) {k} ?V" using assms(2) columnar_prepare [OF s(2)] by simp
  have ok: "regs_ok (columnar ?s)" "zstd_ok Z" using env by (simp_all add: store_env_def)
  obtain s0 where s0: "store_step Z L compact (SPut k v) ?s = Some s0" "scan_rel Z L {k} ?V 5 s0 [k \<mapsto> Live v] Map.empty"
    "write_shape L k (Some v) ?s s0" "bg_worker_active s0"
    using scan_put [of Z L "{k}" ?V 5 ?s Map.empty Map.empty k v compact] s(6) by auto
  obtain s1 where s1: "store_step Z L compact (SPut k w) s0 = Some s1" "scan_rel Z L {k} ?V 4 s1 [k \<mapsto> Live w] Map.empty"
    "write_shape L k (Some w) s0 s1" "bg_worker_active s1"
    using scan_put [of Z L "{k}" ?V 4 s0 "[k \<mapsto> Live v]" Map.empty k w compact] s0(2,4) by auto
  have col: "columnar s1 = columnar ?s" using s0(3) s1(3) by (simp add: write_shape_def)
  have rel3: "scan_rel Z L {k} ?V (3 + card {k}) s1 [k \<mapsto> Live w] Map.empty" using s1(2) by simp
  obtain s2 groups where s2: "store_step Z L compact SFlush s1 = Some s2" "flush_shape Z L s1 s2"
    "columnar s2 = columnar s1" "concat (concat groups) = iter_all (active (memtable_mgr (core s1)))"
    "scan_rel Z L {k} ?V 3 s2 (bury [k \<mapsto> Live w]) (Map.empty ++ group_rows (next_sst_id s1) groups)"
    "unat (next_sst_id s1) + length groups < 2 ^ 64"
    using scan_flush [OF rel3 _ s1(4), of compact] env col by auto
  have ts: "next_timestamp (core s0) = 2" using s0(3) s(4) by (simp add: write_shape_def)
  let ?vv = "VersionedValue 2 (Some w) (Some (VersionedValue 1 (Some v) None))"
  have "mt_lookup ?h (active (memtable_mgr (core s1))) k' = (if k' = k then Some ?vv else None)" for k'
    by (simp add: write_shape_lookup [OF s0(2) s1(3)] write_shape_lookup [OF s(6) s0(3)] s(4,5) ts)
  then have it: "iter_all (active (memtable_mgr (core s1))) = [(k, ?vv)]"
    by (rule iter_all_single [OF conjunct1 [OF mt_invar_active [OF s1(2)]]])
  have "iter_all (active (memtable_mgr (core s2))) = []"
    by (rule iter_all_none [OF conjunct1 [OF mt_invar_active [OF s2(5)]]]) (rule flush_shape_lookup(1) [OF s1(2) s2(2)])
  moreover have "set (rows_in_order (Map.empty ++ group_rows (next_sst_id s1) groups) order) \<subseteq> {(k, ?vv)}" for order
  proof -
    have "all_rows (Map.empty ++ group_rows (next_sst_id s1) groups) = {(k, ?vv)}"
      using all_rows_flush [of Map.empty "next_sst_id s1" groups] s2(4,6) it by (simp add: all_rows_def)
    then show ?thesis using rows_in_order_sub by metis
  qed
  moreover have "fold (merge_row_at 1) (map entry_row rows) [] = []" if "set rows \<subseteq> {(k, ?vv)}" for rows
    using that by (induction rows) (auto simp: entry_row_def merge_row_at_def)
  ultimately have "scan_all_at Z L order s2 1 = Some []" for order
    using scan_all_at_rows [OF s2(5), of order 1] ok s2(3) col by simp
  moreover have "scan_all_at Z L order s1 1 = Some [(k, v, 1)]" for order
    using scan_all_at_rows [OF s1(2), of order 1] ok col it
    by (simp add: rows_in_order_empty override_at_def seen_at_def word_le_nat_alt)
  ultimately show ?thesis using s(1) s0(1) s1(1) s2(1) by auto
qed

theorem flush_loses_snapshot_witness:
  "\<exists>s s1 s2. open_store demo_lib demo_eng_cfg demo_flush_cfg None [] Map.empty 1 = Some (Inr s)
    \<and> store_run demo_zstd demo_lib id [SPut [1] [10], SPut [1] [20]] (prepare [] s) = Some s1
    \<and> store_run demo_zstd demo_lib id [SFlush] s1 = Some s2
    \<and> (\<forall>order. scan_all_at demo_zstd demo_lib order s1 1 = Some [([1], [10], 1)] \<and> scan_all_at demo_zstd demo_lib order s2 1 = Some [])"
proof (rule flush_loses_snapshot [OF demo_lib_ok])
  show "store_env demo_zstd demo_lib (table_regs []) {[1]} {[10], [20]}" by (rule demo_env) auto
qed

lemma group_ids_dom:
  assumes "unat base + length groups < 2 ^ 64"
  shows "set (group_ids base groups) = dom (group_rows base groups)" and "distinct (group_ids base groups)"
proof -
  show "set (group_ids base groups) = dom (group_rows base groups)"
  proof (intro equalityI subsetI)
    fix i assume "i \<in> set (group_ids base groups)"
    then obtain j where "j < length groups" "i = base + word_of_nat j" by (auto simp: group_ids_def)
    then show "i \<in> dom (group_rows base groups)" by (simp add: domIff group_rows_nth [OF _ assms])
  next
    fix i assume "i \<in> dom (group_rows base groups)"
    then obtain rows where "group_rows base groups i = Some rows" by (auto simp: dom_def)
    from group_rows_Some [OF this] show "i \<in> set (group_ids base groups)" by (auto simp: group_ids_def)
  qed
  have "inj_on (\<lambda>j. base + word_of_nat j) {0..<length groups}"
  proof (rule inj_onI)
    fix i j :: nat
    assume ij: "i \<in> {0..<length groups}" "j \<in> {0..<length groups}" "base + word_of_nat i = base + word_of_nat j"
    have "unat (base + word_of_nat i) = unat base + i" "unat (base + word_of_nat j) = unat base + j"
      using ij(1,2) assms by (auto intro: unat_plus_nat)
    then show "i = j" using arg_cong [OF ij(3), of unat] by linarith
  qed
  then show "distinct (group_ids base groups)" by (simp add: group_ids_def distinct_map)
qed

text \<open>
  C18: A snapshot scan can return deleted rows. Put a key, flush, delete it and flush again:
  the snapshot scan at the time of the deletion depends on the order in which the hash map
  of the registry yields its files. If it yields the older file first the scan returns
  nothing; if it yields the newer one first, the tombstone finds nothing to remove, is
  forgotten, and the scan returns the deleted row.
\<close>

theorem scan_at_resurrects:
  assumes "lz4_ok L" and "store_env Z L (table_regs tables) {k} {v}" and v: "v \<noteq> []"
  shows "\<exists>s s' order order'. open_store L cfg fcfg None [] Map.empty 1 = Some (Inr s)
    \<and> store_run Z L compact [SPut k v, SFlush, SDelete k, SFlush] (prepare tables s) = Some s'
    \<and> distinct order \<and> set order = dom (sst_registry s') \<and> scan_all_at Z L order s' 2 = Some []
    \<and> distinct order' \<and> set order' = dom (sst_registry s') \<and> scan_all_at Z L order' s' 2 = Some [(k, v, 1)]"
proof -
  let ?h = "xxh3_64 L"
  have ks: "key_space {k}" by (auto simp: key_space_def dest: prefix_length_le)
  obtain s where s: "open_store L cfg fcfg None [] Map.empty 1 = Some (Inr s)" "columnar s = []"
    "next_timestamp (core s) = 1" "\<And>k. mt_lookup ?h (active (memtable_mgr (core s))) k = None"
    "scan_rel Z L {k} {v} 6 (prepare tables s) Map.empty Map.empty"
    using fresh_scan [OF assms(1) ks, of 6 cfg fcfg Z "{v}" tables] by auto
  let ?s = "prepare tables s"
  have env: "store_env Z L (columnar ?s) {k} {v}" using assms(2) columnar_prepare [OF s(2)] by simp
  have ok: "regs_ok (columnar ?s)" "zstd_ok Z" using env by (simp_all add: store_env_def)
  obtain s0 where s0: "store_step Z L compact (SPut k v) ?s = Some s0" "scan_rel Z L {k} {v} (4 + card {k}) s0 [k \<mapsto> Live v] Map.empty"
    "write_shape L k (Some v) ?s s0" "bg_worker_active s0"
    using scan_put [of Z L "{k}" "{v}" 5 ?s Map.empty Map.empty k v compact] s(5) by auto
  have col0: "columnar s0 = columnar ?s" using s0(3) by (simp add: write_shape_def)
  have b: "bury [k \<mapsto> Live v] = [k \<mapsto> Live v]" by (auto simp: bury_def fun_eq_iff)
  obtain s1 g1 where s1: "store_step Z L compact SFlush s0 = Some s1" "flush_shape Z L s0 s1"
    "columnar s1 = columnar s0" "bg_worker_active s1" "concat (concat g1) = iter_all (active (memtable_mgr (core s0)))"
    "unat (next_sst_id s0) + length g1 < 2 ^ 64" "scan_rel Z L {k} {v} 4 s1 [k \<mapsto> Live v] (group_rows (next_sst_id s0) g1)"
    using scan_flush [OF s0(2) _ s0(4), of compact, unfolded b] env col0 by auto
  obtain s2 where s2: "store_step Z L compact (SDelete k) s1 = Some s2"
    "scan_rel Z L {k} {v} (2 + card {k}) s2 [k \<mapsto> Deleted] (group_rows (next_sst_id s0) g1)" "write_shape L k None s1 s2" "bg_worker_active s2"
    using scan_delete [of Z L "{k}" "{v}" 3 s1 "[k \<mapsto> Live v]" "group_rows (next_sst_id s0) g1" k compact] s1(4,7)
    by (auto simp: indexed_def)
  have col2: "columnar s2 = columnar ?s" using col0 s1(3) s2(3) by (simp add: write_shape_def)
  obtain s3 g2 where s3: "store_step Z L compact SFlush s2 = Some s3" "flush_shape Z L s2 s3"
    "columnar s3 = columnar s2" "concat (concat g2) = iter_all (active (memtable_mgr (core s2)))"
    "unat (next_sst_id s2) + length g2 < 2 ^ 64" "dom (group_rows (next_sst_id s0) g1) \<inter> dom (group_rows (next_sst_id s2) g2) = {}"
    "scan_rel Z L {k} {v} 2 s3 (bury [k \<mapsto> Deleted]) (group_rows (next_sst_id s0) g1 ++ group_rows (next_sst_id s2) g2)"
    using scan_flush [OF s2(2) _ s2(4), of compact] env col2 by auto
  have col: "columnar s3 = columnar ?s" using col2 s3(3) by simp
  have t0: "next_timestamp (core s0) = 2" using s0(3) s(3) by (simp add: write_shape_def)
  then have ts: "next_timestamp (core s1) = 2" using flush_shape_lookup(2) [OF s0(2) s1(2)] by simp
  have i0: "iter_all (active (memtable_mgr (core s0))) = [(k, VersionedValue 1 (Some v) None)]"
    using s(3,4) by (intro iter_all_single [OF conjunct1 [OF mt_invar_active [OF s0(2)]]])
      (simp add: write_shape_lookup [OF s(5) s0(3)])
  have i2: "iter_all (active (memtable_mgr (core s2))) = [(k, VersionedValue 2 None None)]"
    by (intro iter_all_single [OF conjunct1 [OF mt_invar_active [OF s2(2)]]])
      (simp add: write_shape_lookup [OF s1(7) s2(3)] flush_shape_lookup(1) [OF s0(2) s1(2)] ts)
  have i3: "iter_all (active (memtable_mgr (core s3))) = []"
    by (rule iter_all_none [OF conjunct1 [OF mt_invar_active [OF s3(7)]]]) (rule flush_shape_lookup(1) [OF s2(2) s3(2)])
  let ?R = "group_rows (next_sst_id s0) g1 ++ group_rows (next_sst_id s2) g2"
  let ?o1 = "group_ids (next_sst_id s0) g1" and ?o2 = "group_ids (next_sst_id s2) g2"
  note d1 = group_ids_dom [OF s1(6)] and d2 = group_ids_dom [OF s3(5)]
  have disj: "set ?o1 \<inter> set ?o2 = {}" using s3(6) d1 d2 by simp
  have r1: "rows_in_order ?R ?o1 = [(k, VersionedValue 1 (Some v) None)]"
  proof (subst group_ids_rows [OF s1(6)])
    show "?R i = group_rows (next_sst_id s0) g1 i" if "i \<in> set ?o1" for i
      using that disj d2(1) by (auto simp: map_add_def domIff split: option.splits)
  qed (simp add: s1(5) i0)
  have r2: "rows_in_order ?R ?o2 = [(k, VersionedValue 2 None None)]"
  proof (subst group_ids_rows [OF s3(5)])
    show "?R i = group_rows (next_sst_id s2) g2 i" if "i \<in> set ?o2" for i
      using that d2(1) by (auto simp: map_add_def domIff split: option.splits)
  qed (simp add: s3(4) i2)
  have dom: "dom (sst_registry s3) = set ?o1 \<union> set ?o2"
    using scan_relD(2) [OF s3(7)] d1 d2 by (auto simp: file_rows_def)
  have w: "(1 :: u64) \<le> 2" "\<not> (2 :: u64) < 1" by (simp_all add: word_le_nat_alt word_less_nat_alt)
  have "scan_all_at Z L (?o1 @ ?o2) s3 2 = Some []"
    using scan_all_at_rows [OF s3(7), of "?o1 @ ?o2" 2] ok col i3 w v
    by (simp add: rows_in_order_append r1 r2 entry_row_def row_value_def merge_row_at_def seen_at_def om_remove_def)
  moreover have "scan_all_at Z L (?o2 @ ?o1) s3 2 = Some [(k, v, 1)]"
    using scan_all_at_rows [OF s3(7), of "?o2 @ ?o1" 2] ok col i3 w v
    by (simp add: rows_in_order_append r1 r2 entry_row_def row_value_def merge_row_at_def seen_at_def om_remove_def)
  moreover have "distinct (?o1 @ ?o2)" "distinct (?o2 @ ?o1)" using d1 d2 disj by auto
  moreover have "set (?o1 @ ?o2) = dom (sst_registry s3)" "set (?o2 @ ?o1) = dom (sst_registry s3)" using dom by auto
  moreover have "store_run Z L compact [SPut k v, SFlush, SDelete k, SFlush] (prepare tables s) = Some s3"
    using s0(1) s1(1) s2(1) s3(1) by simp
  ultimately show ?thesis using s(1) by blast
qed

theorem scan_at_resurrects_witness:
  "\<exists>s s' order order'. open_store demo_lib demo_eng_cfg demo_flush_cfg None [] Map.empty 1 = Some (Inr s)
    \<and> store_run demo_zstd demo_lib id [SPut [1] [10], SFlush, SDelete [1], SFlush] (prepare [] s) = Some s'
    \<and> distinct order \<and> set order = dom (sst_registry s') \<and> scan_all_at demo_zstd demo_lib order s' 2 = Some []
    \<and> distinct order' \<and> set order' = dom (sst_registry s') \<and> scan_all_at demo_zstd demo_lib order' s' 2 = Some [([1], [10], 1)]"
proof (rule scan_at_resurrects [OF demo_lib_ok])
  show "store_env demo_zstd demo_lib (table_regs []) {[1]} {[10]}" by (rule demo_env) auto
qed simp

end
