(* ===== verification/CompactionBuild.thy ===== *)
theory CompactionBuild
  imports CompactionGc EngineScan "HOL-Library.Product_Lexorder"
begin

text \<open>
  The output side of compaction (\<open>build_run\<close> of \<open>engine.rs\<close>): the surviving rows, sorted by
  key and timestamp, become PAX blocks packed into SST files, each with the index targets of
  the rows that are the newest version of their key. The slices of the worker threads are
  built independently and their outputs are taken in order.
\<close>

section \<open>Operations\<close>

record compaction_output =
  out_bytes :: bytes
  out_targets :: "(bytes \<times> u32 \<times> u32) list"

definition position :: "('a \<Rightarrow> bool) \<Rightarrow> 'a list \<Rightarrow> nat option" where
  "position P xs = find (\<lambda>i. P (xs ! i)) [0..<length xs]"

text \<open>The end of the block that starts the given rows.\<close>

definition block_end :: "columnar_registration list \<Rightarrow> nat \<Rightarrow> survivor_row list \<Rightarrow> nat" where
  "block_end regs max_rows rows =
     (let stop = min (max max_rows 1) (length rows);
          found = (case registration_for regs (fst (hd rows)) of
                     Some reg \<Rightarrow> position (\<lambda>(k, _, _). \<not> reg_matches reg k) (take stop rows)
                   | None \<Rightarrow> position (\<lambda>(k, _, _). registration_for regs k \<noteq> None) (take stop rows))
      in case found of Some off \<Rightarrow> (if off > 0 then off else stop) | None \<Rightarrow> stop)"

definition run_columns :: "columnar_registration list \<Rightarrow> survivor_row list \<Rightarrow> column list \<times> codec_id list" where
  "run_columns regs chunk =
     (let cols = [\<lparr>col_type = Blob, col_values = map (\<lambda>(k, ts, v). k) chunk\<rparr>,
                  \<lparr>col_type = Blob, col_values = map (\<lambda>(k, ts, v). case v of Some x \<Rightarrow> x | None \<Rightarrow> []) chunk\<rparr>,
                  \<lparr>col_type = Blob, col_values = map (\<lambda>(k, ts, v). to_le_bytes ts) chunk\<rparr>];
          codecs = [Zstd, NoCodec, NoCodec]
      in case registration_for regs (fst (hd chunk)) of
           None \<Rightarrow> (cols, codecs)
         | Some reg \<Rightarrow>
           (case columnar_data_columns (map (\<lambda>(k, ts, v). v) chunk) (cr_splitter reg) of
              None \<Rightarrow> (cols, codecs)
            | Some (data_cols, data_codecs) \<Rightarrow> (cols @ data_cols, codecs @ data_codecs)))"

definition block_targets_of :: "(bytes \<rightharpoonup> u64) \<Rightarrow> u32 \<Rightarrow> survivor_row list \<Rightarrow> (bytes \<times> u32 \<times> u32) list" where
  "block_targets_of latest cur_block_count chunk =
     map (\<lambda>(row_off, k, ts, v). (k, cur_block_count, word_of_nat row_off))
       (filter (\<lambda>(row_off, k, ts, v). latest k = Some ts) (enumerate 0 chunk))"

record run_state =
  rs_outputs :: "compaction_output list"
  rs_data :: bytes
  rs_index :: sst_block_index
  rs_count :: u32
  rs_targets :: "(bytes \<times> u32 \<times> u32) list"
  rs_block_id :: u64

definition close_output :: "run_state \<Rightarrow> run_state" where
  "close_output st =
     st\<lparr>rs_outputs := rs_outputs st @ [\<lparr>out_bytes = rs_data st
            @ serialize_with_footer (rs_index st) (word_of_nat (length (rs_data st))), out_targets = rs_targets st\<rparr>],
        rs_data := [], rs_targets := [], rs_index := new_block_index, rs_count := 0\<rparr>"

definition add_run_block ::
  "(bytes \<Rightarrow> u64) \<Rightarrow> zstd_lib \<Rightarrow> (bytes \<rightharpoonup> u64) \<Rightarrow> columnar_registration list \<Rightarrow> survivor_row list \<Rightarrow> run_state
   \<Rightarrow> (galax_error + run_state) option" where
  "add_run_block h Z latest regs chunk st =
     (let (cols, codecs) = run_columns regs chunk;
          block_max_ts = fold (\<lambda>(k, ts, v) m. max m ts) chunk 0
      in case write_with_codecs h Z (rs_block_id st) block_max_ts cols codecs of
           None \<Rightarrow> None
         | Some (Inl e) \<Rightarrow> Some (Inl e)
         | Some (Inr pax) \<Rightarrow>
           (let enc = pax_serialize pax
            in Some (Inr (st\<lparr>rs_block_id := rs_block_id st + 1,
                 rs_index := add_block (word_of_nat (length (rs_data st))) (word_of_nat (length enc)) (rs_index st),
                 rs_targets := rs_targets st @ block_targets_of latest (rs_count st) chunk,
                 rs_data := rs_data st @ enc, rs_count := rs_count st + 1\<rparr>))))"

lemma block_end_pos: "rows \<noteq> [] \<Longrightarrow> 0 < block_end regs n rows"
  by (auto simp: block_end_def Let_def split: option.splits)

function build_loop ::
  "(bytes \<Rightarrow> u64) \<Rightarrow> zstd_lib \<Rightarrow> (bytes \<rightharpoonup> u64) \<Rightarrow> u64 \<Rightarrow> nat \<Rightarrow> columnar_registration list \<Rightarrow> survivor_row list
   \<Rightarrow> run_state \<Rightarrow> (galax_error + run_state) option" where
  "build_loop h Z latest sst_size max_rows regs rows st =
     (if rows = [] then Some (Inr st)
      else
        let stop = block_end regs max_rows rows
        in case add_run_block h Z latest regs (take stop rows) st of
             None \<Rightarrow> None
           | Some (Inl e) \<Rightarrow> Some (Inl e)
           | Some (Inr st) \<Rightarrow>
             build_loop h Z latest sst_size max_rows regs (drop stop rows)
               (if word_of_nat (length (rs_data st)) \<ge> sst_size then close_output st else st))"
  by pat_completeness auto
termination
  by (relation "measure (\<lambda>(h, Z, latest, sst_size, n, regs, rows, st). length rows)") (auto simp: block_end_pos)

declare build_loop.simps [simp del]

definition build_run ::
  "(bytes \<Rightarrow> u64) \<Rightarrow> zstd_lib \<Rightarrow> (bytes \<rightharpoonup> u64) \<Rightarrow> u64 \<Rightarrow> nat \<Rightarrow> columnar_registration list \<Rightarrow> survivor_row list
   \<Rightarrow> (galax_error + compaction_output list) option" where
  "build_run h Z latest sst_size max_rows regs rows =
     (case build_loop h Z latest sst_size max_rows regs rows
             \<lparr>rs_outputs = [], rs_data = [], rs_index = new_block_index, rs_count = 0, rs_targets = [], rs_block_id = 1\<rparr> of
        None \<Rightarrow> None
      | Some (Inl e) \<Rightarrow> Some (Inl e)
      | Some (Inr st) \<Rightarrow> Some (Inr (rs_outputs (if rs_data st \<noteq> [] then close_output st else st))))"

text \<open>\<open>slice::chunks\<close>.\<close>

function slices :: "nat \<Rightarrow> 'a list \<Rightarrow> 'a list list" where
  "slices n xs = (if n = 0 \<or> xs = [] then [] else take n xs # slices n (drop n xs))"
  by pat_completeness auto
termination
  by (relation "measure (\<lambda>(n, xs). length xs)") auto

declare slices.simps [simp del]

text \<open>Joining the workers: the first failure is returned, a panic as an error; when a later
  worker has panicked too, the scope that joins it panics.\<close>

fun join_workers :: "(galax_error + compaction_output list) option list \<Rightarrow> (galax_error + compaction_output list) option" where
  "join_workers [] = Some (Inr [])"
| "join_workers (None # rs) = (if None \<in> set rs then None else Some (Inl (Internal ''compaction worker panicked'')))"
| "join_workers (Some (Inl e) # rs) = (if None \<in> set rs then None else Some (Inl e))"
| "join_workers (Some (Inr outs) # rs) =
     (case join_workers rs of
        None \<Rightarrow> None
      | Some (Inl e) \<Rightarrow> Some (Inl e)
      | Some (Inr outs') \<Rightarrow> Some (Inr (outs @ outs')))"

definition build_outputs ::
  "(bytes \<Rightarrow> u64) \<Rightarrow> zstd_lib \<Rightarrow> nat \<Rightarrow> u64 \<Rightarrow> nat \<Rightarrow> columnar_registration list \<Rightarrow> (bytes \<rightharpoonup> u64) \<Rightarrow> survivor_row list
   \<Rightarrow> (galax_error + compaction_output list) option" where
  "build_outputs h Z concurrency sst_size max_rows regs latest rows =
     (if rows = [] then Some (Inr [])
      else
        let n_workers = min (max concurrency 1) (length rows);
            chunk_size = max ((length rows + n_workers - 1) div n_workers) 1
        in join_workers (map (build_run h Z latest sst_size max_rows regs) (slices chunk_size rows)))"

section \<open>The outputs hold the rows\<close>

definition survivor_entry :: "survivor_row \<Rightarrow> row_entry" where
  "survivor_entry row = (case row of (k, ts, v) \<Rightarrow> (k, VersionedValue ts v None))"

lemma survivor_entry_simps [simp]:
  "fst (survivor_entry row) = fst row" "vvalue (snd (survivor_entry row)) = snd (snd row)"
  "timestamp (snd (survivor_entry row)) = fst (snd row)"
  by (simp_all add: survivor_entry_def case_prod_beta)

lemma run_columns_block:
  assumes "chunk \<noteq> []"
  shows "run_columns regs chunk = build_block_columns (map survivor_entry chunk) regs"
proof -
  obtain row rest where c: "chunk = row # rest" using assms by (cases chunk) auto
  have cols: "entries_to_columns (map survivor_entry chunk) =
      [\<lparr>col_type = Blob, col_values = map (\<lambda>(k, ts, v). k) chunk\<rparr>,
       \<lparr>col_type = Blob, col_values = map (\<lambda>(k, ts, v). case v of Some x \<Rightarrow> x | None \<Rightarrow> []) chunk\<rparr>,
       \<lparr>col_type = Blob, col_values = map (\<lambda>(k, ts, v). to_le_bytes ts) chunk\<rparr>]"
    by (simp add: entries_to_columns_def survivor_entry_def comp_def case_prod_beta)
  have vals: "map (vvalue \<circ> snd) (map survivor_entry chunk) = map (\<lambda>(k, ts, v). v) chunk"
    by (simp add: comp_def case_prod_beta)
  have bb: "build_block_columns (map survivor_entry chunk) regs = (let legacy = (entries_to_columns (map survivor_entry chunk), base_codecs) in
      case registration_for regs (fst row) of None \<Rightarrow> legacy
      | Some reg \<Rightarrow> (case entries_to_columns_columnar (map survivor_entry chunk) (cr_splitter reg) of Some res \<Rightarrow> res | None \<Rightarrow> legacy))"
    by (cases "registration_for regs (fst row)") (simp_all add: build_block_columns_def c)
  have hd: "hd chunk = row" by (simp add: c)
  show ?thesis
    unfolding bb run_columns_def hd entries_to_columns_columnar_def vals cols base_codecs_def Let_def
    by (cases "registration_for regs (fst row)") (simp_all split: option.split)
qed

text \<open>The image of an output: its blocks, and the index targets of their rows.\<close>

definition group_targets :: "(bytes \<rightharpoonup> u64) \<Rightarrow> survivor_row list list \<Rightarrow> (bytes \<times> u32 \<times> u32) list" where
  "group_targets latest grp = concat (map (\<lambda>(b, chunk). block_targets_of latest (word_of_nat b) chunk) (enumerate 0 grp))"

definition output_image ::
  "(bytes \<Rightarrow> u64) \<Rightarrow> zstd_lib \<Rightarrow> columnar_registration list \<Rightarrow> (bytes \<rightharpoonup> u64) \<Rightarrow> nat \<Rightarrow> compaction_output \<Rightarrow> survivor_row list list \<Rightarrow> bool" where
  "output_image h Z regs latest n out grp \<longleftrightarrow>
     (\<exists>x. out_bytes out = file_of x \<and> image_fits n x \<and> image_blocks h Z regs x (map (map survivor_entry) grp))
     \<and> out_targets out = group_targets latest grp \<and> [] \<notin> set grp \<and> grp \<noteq> []"

definition run_inv ::
  "(bytes \<Rightarrow> u64) \<Rightarrow> zstd_lib \<Rightarrow> columnar_registration list \<Rightarrow> (bytes \<rightharpoonup> u64) \<Rightarrow> survivor_row list \<Rightarrow> nat \<Rightarrow> run_state \<Rightarrow> bool" where
  "run_inv h Z regs latest done n st \<longleftrightarrow>
     (\<exists>groups cur. concat (concat groups) @ concat cur = done \<and> list_all2 (output_image h Z regs latest n) (rs_outputs st) groups
        \<and> image_fits n (rs_data st, rs_index st) \<and> image_blocks h Z regs (rs_data st, rs_index st) (map (map survivor_entry) cur)
        \<and> rs_targets st = group_targets latest cur \<and> [] \<notin> set cur \<and> rs_count st = word_of_nat (length cur) \<and> (cur = [] \<longrightarrow> rs_data st = []))"

lemma image_fits_mono: "image_fits n x \<Longrightarrow> n \<le> n' \<Longrightarrow> image_fits n' x"
  by (auto simp: image_fits_def)

lemma output_image_mono: "output_image h Z regs latest n out grp \<Longrightarrow> n \<le> n' \<Longrightarrow> output_image h Z regs latest n' out grp"
  unfolding output_image_def using image_fits_mono by blast

lemma group_targets_snoc:
  "group_targets latest (grp @ [chunk]) = group_targets latest grp @ block_targets_of latest (word_of_nat (length grp)) chunk"
  by (simp add: group_targets_def enumerate_append_eq)

lemma image_blocks_add:
  assumes "image_blocks h Z regs (data, idx) grp" and img: "block_image h Z regs chunk bs"
    and small: "length data < 2 ^ 64" "length bs < 2 ^ 32"
  shows "image_blocks h Z regs (data @ bs, add_block (word_of_nat (length data)) (word_of_nat (length bs)) idx) (grp @ [chunk])"
proof -
  have len: "length (entries idx) = length grp" using assms(1) by (simp add: image_blocks_def)
  let ?x = "(data @ bs, add_block (word_of_nat (length data)) (word_of_nat (length bs)) idx)"
  have "\<exists>bs'. block_image h Z regs ((grp @ [chunk]) ! b) bs' \<and> length bs' < 2 ^ 32 \<and> holds_block ?x b bs'"
    if b: "b < Suc (length grp)" for b
  proof (cases "b = length grp")
    case True
    then show ?thesis using img small holds_block_new [OF small, of idx] len by auto
  next
    case False
    then obtain bs' where "block_image h Z regs (grp ! b) bs'" "length bs' < 2 ^ 32" "holds_block (data, idx) b bs'"
      using assms(1) b by (auto simp: image_blocks_def less_Suc_eq)
    then show ?thesis using False b by (auto simp: nth_append intro: holds_block_grow)
  qed
  then show ?thesis using len by (simp add: image_blocks_def add_block_def)
qed

lemma close_output_inv:
  assumes "run_inv h Z regs latest done n st" and "rs_data st \<noteq> []"
  shows "run_inv h Z regs latest done n (close_output st)"
proof -
  obtain groups cur where i: "concat (concat groups) @ concat cur = done" "list_all2 (output_image h Z regs latest n) (rs_outputs st) groups"
    "image_fits n (rs_data st, rs_index st)" "image_blocks h Z regs (rs_data st, rs_index st) (map (map survivor_entry) cur)"
    "rs_targets st = group_targets latest cur" "[] \<notin> set cur" "cur \<noteq> []"
    using assms by (auto simp: run_inv_def)
  have "output_image h Z regs latest n \<lparr>out_bytes = rs_data st @ serialize_with_footer (rs_index st) (word_of_nat (length (rs_data st))),
      out_targets = rs_targets st\<rparr> cur"
    using i(3-7) by (auto simp: output_image_def file_of_def intro!: exI [of _ "rs_data st"] exI [of _ "rs_index st"])
  then have "list_all2 (output_image h Z regs latest n) (rs_outputs (close_output st)) (groups @ [cur])"
    using i(2) by (simp add: close_output_def list_all2_appendI)
  then show ?thesis
    unfolding run_inv_def using i(1)
    by (intro exI [of _ "groups @ [cur]"] exI [of _ "[]"])
      (simp add: close_output_def image_fits_def image_blocks_def new_block_index_def group_targets_def)
qed

text \<open>Rows whose blocks are small enough.\<close>

definition run_fits :: "(bytes \<Rightarrow> u64) \<Rightarrow> zstd_lib \<Rightarrow> columnar_registration list \<Rightarrow> survivor_row list \<Rightarrow> bool" where
  "run_fits h Z regs rows \<longleftrightarrow> rows_fit (map survivor_entry rows)
     \<and> (\<forall>pre c post bs. rows = pre @ c @ post \<and> block_image h Z regs (map survivor_entry c) bs \<longrightarrow> length bs < 2 ^ 32)"

lemma run_fits_part:
  assumes "run_fits h Z regs (pre @ c @ post)"
  shows "run_fits h Z regs c"
proof -
  have "length bs < 2 ^ 32" if "c = pre' @ c' @ post'" "block_image h Z regs (map survivor_entry c') bs" for pre' c' post' bs
  proof -
    have "pre @ c @ post = (pre @ pre') @ c' @ (post' @ post)" using that(1) by simp
    then show ?thesis using assms that(2) unfolding run_fits_def by blast
  qed
  then show ?thesis using assms by (auto simp: run_fits_def rows_fit_def)
qed

lemma add_run_block_inv:
  assumes inv: "run_inv h Z regs latest done n st" and ok: "regs_ok regs" "\<forall>raw. encode_all Z raw \<noteq> None"
    and fits: "run_fits h Z regs chunk" "chunk \<noteq> []" and n: "n < 2 ^ 30"
  shows "\<exists>st'. add_run_block h Z latest regs chunk st = Some (Inr st') \<and> run_inv h Z regs latest (done @ chunk) (Suc n) st'
    \<and> rs_data st' \<noteq> []"
proof -
  let ?c = "map survivor_entry chunk"
  obtain groups cur where i: "concat (concat groups) @ concat cur = done" "list_all2 (output_image h Z regs latest n) (rs_outputs st) groups"
    "image_fits n (rs_data st, rs_index st)" "image_blocks h Z regs (rs_data st, rs_index st) (map (map survivor_entry) cur)"
    "rs_targets st = group_targets latest cur" "[] \<notin> set cur" "rs_count st = word_of_nat (length cur)"
    using inv by (auto simp: run_inv_def)
  obtain cols codecs where b: "build_block_columns ?c regs = (cols, codecs)" by (cases "build_block_columns ?c regs")
  have rf: "rows_fit ?c" using fits(1) by (simp add: run_fits_def)
  note bf = build_fit [OF ok(1) rf b]
  have "cols \<noteq> []" using bf(4) by auto
  from write_total [OF this bf(2,3,1) ok(2)] obtain blk where
    w: "write_with_codecs h Z (rs_block_id st) (fold (\<lambda>(k, ts, v) m. max m ts) chunk 0) cols codecs = Some (Inr blk)" by blast
  then have img: "block_image h Z regs ?c (pax_serialize blk)" using b by (auto simp: block_image_def)
  then have small: "length (pax_serialize blk) < 2 ^ 32"
    using fits(1) unfolding run_fits_def by (metis append_Nil append_Nil2)
  have sz: "length (rs_data st) < 2 ^ 64" using image_fits_size(1) [OF i(3)] n by simp
  define st' where "st' = st\<lparr>rs_block_id := rs_block_id st + 1,
     rs_index := add_block (word_of_nat (length (rs_data st))) (word_of_nat (length (pax_serialize blk))) (rs_index st),
     rs_targets := rs_targets st @ block_targets_of latest (rs_count st) chunk,
     rs_data := rs_data st @ pax_serialize blk, rs_count := rs_count st + 1\<rparr>"
  have "add_run_block h Z latest regs chunk st = Some (Inr st')"
    using w b by (simp add: add_run_block_def run_columns_block [OF fits(2)] Let_def st'_def)
  moreover have "run_inv h Z regs latest (done @ chunk) (Suc n) st'"
    unfolding run_inv_def
  proof (intro exI [of _ groups] exI [of _ "cur @ [chunk]"] conjI)
    show "list_all2 (output_image h Z regs latest (Suc n)) (rs_outputs st') groups"
      using i(2) output_image_mono by (auto simp: st'_def elim!: list_all2_mono)
    show "image_fits (Suc n) (rs_data st', rs_index st')"
      using i(3) small by (simp add: st'_def image_fits_def add_block_def)
    show "image_blocks h Z regs (rs_data st', rs_index st') (map (map survivor_entry) (cur @ [chunk]))"
      using image_blocks_add [OF i(4) img sz small] by (simp add: st'_def)
    show "rs_targets st' = group_targets latest (cur @ [chunk])" by (simp add: st'_def i(5,7) group_targets_snoc)
  qed (use i fits(2) in \<open>auto simp: st'_def\<close>)
  moreover have "rs_data st' \<noteq> []" using block_image_nonempty [OF img] by (simp add: st'_def)
  ultimately show ?thesis by blast
qed

lemma block_end_le: "block_end regs n rows \<le> length rows"
proof -
  have "position P xs = Some off \<Longrightarrow> off < length xs" for P :: "survivor_row \<Rightarrow> bool" and xs off
    by (auto simp: position_def find_Some_iff)
  then have "position P (take m rows) = Some off \<Longrightarrow> off \<le> length rows" for P m off by fastforce
  then show ?thesis by (auto simp: block_end_def Let_def split: option.splits)
qed

lemma run_inv_mono: "run_inv h Z regs latest done n st \<Longrightarrow> n \<le> n' \<Longrightarrow> run_inv h Z regs latest done n' st"
  unfolding run_inv_def
  by (elim exE conjE, rule_tac x = groups in exI, rule_tac x = cur in exI)
    (auto intro: image_fits_mono output_image_mono elim!: list_all2_mono)

lemma build_loop_inv:
  assumes "run_inv h Z regs latest done n st" and ok: "regs_ok regs" "\<forall>raw. encode_all Z raw \<noteq> None"
    and "run_fits h Z regs rows" and "n + length rows < 2 ^ 30"
  shows "\<exists>st'. build_loop h Z latest sst_size max_rows regs rows st = Some (Inr st')
    \<and> run_inv h Z regs latest (done @ rows) (n + length rows) st'"
  using assms(1,4,5)
proof (induction "length rows" arbitrary: rows st "done" n rule: less_induct)
  case less
  show ?case
  proof (cases "rows = []")
    case True
    then show ?thesis using less.prems(1) by (simp add: build_loop.simps)
  next
    case False
    let ?e = "block_end regs max_rows rows"
    have e: "0 < ?e" "?e \<le> length rows" using block_end_pos [OF False] block_end_le by auto
    have split: "rows = [] @ take ?e rows @ drop ?e rows" "rows = take ?e rows @ drop ?e rows @ []" by simp_all
    have parts: "run_fits h Z regs (take ?e rows)" "run_fits h Z regs (drop ?e rows)"
      using run_fits_part less.prems(2) split by metis+
    have "take ?e rows \<noteq> []" using e False by simp
    from add_run_block_inv [OF less.prems(1) ok parts(1) this] less.prems(3) obtain st1 where
      st1: "add_run_block h Z latest regs (take ?e rows) st = Some (Inr st1)" "run_inv h Z regs latest (done @ take ?e rows) (Suc n) st1"
      "rs_data st1 \<noteq> []" by auto
    define st2 where "st2 = (if word_of_nat (length (rs_data st1)) \<ge> sst_size then close_output st1 else st1)"
    have st2: "run_inv h Z regs latest (done @ take ?e rows) (Suc n) st2" using st1(2) close_output_inv [OF st1(2,3)] by (simp add: st2_def)
    have len: "length (drop ?e rows) < length rows" "Suc n + length (drop ?e rows) \<le> n + length rows" using e by auto
    from less.hyps [OF len(1) st2 parts(2)] len(2) less.prems(3) obtain st' where
      st': "build_loop h Z latest sst_size max_rows regs (drop ?e rows) st2 = Some (Inr st')"
      "run_inv h Z regs latest ((done @ take ?e rows) @ drop ?e rows) (Suc n + length (drop ?e rows)) st'" by fastforce
    have "build_loop h Z latest sst_size max_rows regs rows st = Some (Inr st')"
      using False st1(1) st'(1) by (subst build_loop.simps) (simp add: Let_def st2_def)
    then show ?thesis using run_inv_mono [OF st'(2) len(2)] by simp
  qed
qed

lemma build_run_ok:
  assumes "regs_ok regs" "\<forall>raw. encode_all Z raw \<noteq> None" and "run_fits h Z regs rows" and "length rows < 2 ^ 30"
  shows "\<exists>outs groups. build_run h Z latest sst_size max_rows regs rows = Some (Inr outs)
    \<and> list_all2 (output_image h Z regs latest (length rows)) outs groups \<and> concat (concat groups) = rows"
proof -
  let ?st = "\<lparr>rs_outputs = [], rs_data = [], rs_index = new_block_index, rs_count = 0, rs_targets = [], rs_block_id = 1\<rparr>"
  have "run_inv h Z regs latest [] 0 ?st"
    unfolding run_inv_def
    by (intro exI [of _ "[]"]) (simp add: image_fits_def image_blocks_def new_block_index_def group_targets_def)
  from build_loop_inv [OF this assms(1-3)] assms(4) obtain st where
    st: "build_loop h Z latest sst_size max_rows regs rows ?st = Some (Inr st)" "run_inv h Z regs latest rows (length rows) st" by fastforce
  define st' where "st' = (if rs_data st \<noteq> [] then close_output st else st)"
  have inv: "run_inv h Z regs latest rows (length rows) st'" using st(2) close_output_inv [OF st(2)] by (simp add: st'_def)
  have nil: "rs_data st' = []" by (simp add: st'_def close_output_def)
  obtain groups cur where i: "concat (concat groups) @ concat cur = rows"
    "list_all2 (output_image h Z regs latest (length rows)) (rs_outputs st') groups"
    "image_blocks h Z regs (rs_data st', rs_index st') (map (map survivor_entry) cur)"
    using inv by (auto simp: run_inv_def)
  have "cur = []"
  proof (rule ccontr)
    assume c: "cur \<noteq> []"
    then obtain bs where "block_image h Z regs (map (map survivor_entry) cur ! 0) bs" "holds_block (rs_data st', rs_index st') 0 bs"
      using i(3) by (auto simp: image_blocks_def)
    then show False using block_image_nonempty nil by (fastforce simp: holds_block_def Let_def)
  qed
  then show ?thesis using st(1) i(1,2) by (auto simp: build_run_def st'_def)
qed

section \<open>The workers\<close>

lemma concat_slices: "0 < n \<Longrightarrow> concat (slices n xs) = xs"
  by (induction n xs rule: slices.induct) (subst slices.simps, auto)

lemma slices_part: "0 < n \<Longrightarrow> c \<in> set (slices n xs) \<Longrightarrow> \<exists>pre post. xs = pre @ c @ post"
proof (induction n xs rule: slices.induct)
  case (1 n xs)
  show ?case
  proof (cases "xs = []")
    case True
    then show ?thesis using 1(3) by (simp add: slices.simps)
  next
    case False
    then have "slices n xs = take n xs # slices n (drop n xs)" using 1(2) by (subst slices.simps) simp
    then consider "c = take n xs" | "c \<in> set (slices n (drop n xs))" using 1(3) by auto
    then show ?thesis
    proof cases
      case 1
      then have "xs = [] @ c @ drop n xs" by simp
      then show ?thesis by blast
    next
      case 2
      then obtain pre post where "drop n xs = pre @ c @ post" using 1(1) [OF _ 1(2)] False 1(2) by auto
      then have "xs = (take n xs @ pre) @ c @ post" by (metis append.assoc append_take_drop_id)
      then show ?thesis by blast
    qed
  qed
qed

lemma join_ok:
  assumes "\<forall>c \<in> set cs. \<exists>outs groups. f c = Some (Inr outs) \<and> list_all2 P outs groups \<and> concat (concat groups) = c"
  shows "\<exists>outs groups. join_workers (map f cs) = Some (Inr outs) \<and> list_all2 P outs groups \<and> concat (concat groups) = concat cs"
  using assms
proof (induction cs)
  case Nil
  then show ?case by (auto intro: exI [of _ "[]"])
next
  case (Cons c cs)
  obtain outs groups where c: "f c = Some (Inr outs)" "list_all2 P outs groups" "concat (concat groups) = c" using Cons.prems by auto
  obtain outs' groups' where cs: "join_workers (map f cs) = Some (Inr outs')" "list_all2 P outs' groups'"
    "concat (concat groups') = concat cs" using Cons by auto
  have "list_all2 P (outs @ outs') (groups @ groups')" using c(2) cs(2) by (rule list_all2_appendI)
  then show ?case using c cs by (auto intro!: exI [of _ "groups @ groups'"])
qed

lemma build_outputs_ok:
  assumes "regs_ok regs" "\<forall>raw. encode_all Z raw \<noteq> None" and "run_fits h Z regs rows" and "length rows < 2 ^ 30"
  shows "\<exists>outs groups. build_outputs h Z concurrency sst_size max_rows regs latest rows = Some (Inr outs)
    \<and> list_all2 (output_image h Z regs latest (length rows)) outs groups \<and> concat (concat groups) = rows"
proof (cases "rows = []")
  case True
  then show ?thesis by (auto simp: build_outputs_def intro: exI [of _ "[]"])
next
  case False
  define n where "n = max ((length rows + min (max concurrency 1) (length rows) - 1) div min (max concurrency 1) (length rows)) 1"
  have pos: "0 < n" by (simp add: n_def)
  have "\<exists>outs groups. build_run h Z latest sst_size max_rows regs c = Some (Inr outs)
    \<and> list_all2 (output_image h Z regs latest (length rows)) outs groups \<and> concat (concat groups) = c"
    if c: "c \<in> set (slices n rows)" for c
  proof -
    obtain pre post where p: "rows = pre @ c @ post" using slices_part [OF pos c] by blast
    have le: "length c \<le> length rows" by (simp add: p)
    have "run_fits h Z regs c" using run_fits_part assms(3) p by metis
    from build_run_ok [OF assms(1,2) this, of latest sst_size max_rows] assms(4) le obtain outs groups where
      "build_run h Z latest sst_size max_rows regs c = Some (Inr outs)"
      "list_all2 (output_image h Z regs latest (length c)) outs groups" "concat (concat groups) = c" by auto
    then show ?thesis using output_image_mono [OF _ le] by (blast intro: list_all2_mono)
  qed
  then have "\<exists>outs groups. join_workers (map (build_run h Z latest sst_size max_rows regs) (slices n rows)) = Some (Inr outs)
    \<and> list_all2 (output_image h Z regs latest (length rows)) outs groups \<and> concat (concat groups) = concat (slices n rows)"
    by (intro join_ok) blast
  moreover have "build_outputs h Z concurrency sst_size max_rows regs latest rows
      = join_workers (map (build_run h Z latest sst_size max_rows regs) (slices n rows))"
    unfolding build_outputs_def Let_def n_def using False by simp
  ultimately show ?thesis using concat_slices [OF pos, of rows] by simp
qed

end
