(* ===== verification/EngineCompact.thy ===== *)
theory EngineCompact
  imports CompactionBuild
begin

text \<open>
  Compaction (\<open>Engine::compact_inner\<close> and its callers in \<open>engine.rs\<close>): read the versions of all
  registered files, collect garbage, build the output files, register them and move the
  index entries that point into an input, then drop the inputs. \<open>order\<close> is the order in which
  the registry yields its files, \<open>pins\<close> are the timestamps of the pin source, \<open>io\<close> says which
  output writes fail. Encryption is off. The locks are not modelled: one operation runs at a
  time.
\<close>

section \<open>Reading the inputs\<close>

definition push_version :: "block_row \<Rightarrow> (bytes \<times> version_list) list \<Rightarrow> (bytes \<times> version_list) list" where
  "push_version row vm =
     (case row of (k, v, ts) \<Rightarrow>
        om_insert k ((case om_get vm k of None \<Rightarrow> [] | Some vers \<Rightarrow> vers) @ [(ts, if v = [] then None else Some v)]) vm)"

definition compact_block ::
  "(bytes \<Rightarrow> u64) \<Rightarrow> zstd_lib \<Rightarrow> bytes \<Rightarrow> (bytes \<times> version_list) list \<Rightarrow> (bytes \<times> version_list) list option" where
  "compact_block h Z bs vm =
     (case pax_deserialize h bs of
        Inl _ \<Rightarrow> Some vm
      | Inr b \<Rightarrow>
        (case read_block_rows Z b of
           None \<Rightarrow> None
         | Some None \<Rightarrow> Some vm
         | Some (Some rows) \<Rightarrow> Some (fold push_version rows vm)))"

fun read_inputs ::
  "(bytes \<Rightarrow> u64) \<Rightarrow> zstd_lib \<Rightarrow> sst_dir \<Rightarrow> u64 list \<Rightarrow> (bytes \<times> version_list) list
   \<Rightarrow> (galax_error + (bytes \<times> version_list) list) option" where
  "read_inputs h Z d [] vm = Some (Inr vm)"
| "read_inputs h Z d (p # paths) vm =
     (case d p of
        None \<Rightarrow> Some (Inl (Io NotFound))
      | Some data \<Rightarrow>
        (case from_file_data data of
           None \<Rightarrow> None
         | Some r \<Rightarrow>
           (let index = (case r of Inr idx \<Rightarrow> idx | Inl _ \<Rightarrow> add_block 0 (word_of_nat (length data)) new_block_index)
            in case scan_entries (compact_block h Z) data (entries index) vm of
                 None \<Rightarrow> None
               | Some vm \<Rightarrow> read_inputs h Z d paths vm)))"

section \<open>Committing the outputs\<close>

fun relocate_all :: "u64 set \<Rightarrow> u64 \<Rightarrow> (bytes \<times> u32 \<times> u32) list \<Rightarrow> art \<Rightarrow> art option" where
  "relocate_all ids sid [] t = Some t"
| "relocate_all ids sid ((key, blk, row) # targets) t =
     (case relocate_if_points_to key ids (SstLoc sid (ucast blk) row) t of
        None \<Rightarrow> None
      | Some (t, _) \<Rightarrow> relocate_all ids sid targets t)"

fun commit_outputs ::
  "io_faults \<Rightarrow> u64 set \<Rightarrow> compaction_output list \<Rightarrow> sst_engine \<Rightarrow> ((galax_error + unit) \<times> sst_engine) option" where
  "commit_outputs io ids [] s = Some (Inr (), s)"
| "commit_outputs io ids (out # outs) s0 =
     (let sid = next_sst_id s0;
          fid = block_counter s0;
          s = s0\<lparr>next_sst_id := sid + 1, block_counter := fid + 1\<rparr>
      in case io fid of
           Some (e, k) \<Rightarrow> Some (Inl e, s\<lparr>data_dir := (data_dir s)(fid \<mapsto> take k (out_bytes out))\<rparr>)
         | None \<Rightarrow>
           (let s = s\<lparr>data_dir := (data_dir s)(fid \<mapsto> out_bytes out)\<rparr>
            in case register (data_dir s) sid fid (sst_registry s) of
                 None \<Rightarrow> None
               | Some (Inl e) \<Rightarrow> Some (Inl e, s)
               | Some (Inr reg) \<Rightarrow>
                 (case relocate_all ids sid (out_targets out) (art_index (core s)) of
                    None \<Rightarrow> None
                  | Some t \<Rightarrow>
                    commit_outputs io ids outs (s\<lparr>sst_registry := reg, core := (core s)\<lparr>art_index := t\<rparr>\<rparr>))))"

record compaction_stats =
  input_ssts :: nat
  output_ssts :: nat
  cs_keys_retained :: nat
  cs_versions_gc_dropped :: nat

definition sort_survivors :: "survivor_row list \<Rightarrow> survivor_row list" where
  "sort_survivors rows = sort_key (\<lambda>(k, ts, v). (k, ts)) rows"

definition compact_inner ::
  "zstd_lib \<Rightarrow> wal_lib \<Rightarrow> nat \<Rightarrow> u64 list \<Rightarrow> io_faults \<Rightarrow> u64 list \<Rightarrow> bool \<Rightarrow> sst_engine
   \<Rightarrow> ((galax_error + compaction_stats) \<times> sst_engine) option" where
  "compact_inner Z L concurrency pins io order force s =
     (let inputs = concat (map (\<lambda>i. case sst_registry s i of None \<Rightarrow> [] | Some en \<Rightarrow> [(i, sst_path en)]) order);
          threshold = (if force then 1 else 2)
      in if length inputs < threshold
         then Some (Inr \<lparr>input_ssts = length inputs, output_ssts = length inputs, cs_keys_retained = 0, cs_versions_gc_dropped = 0\<rparr>, s)
         else
           let input_ids = fst ` set inputs
           in case read_inputs (xxh3_64 L) Z (data_dir s) (map snd inputs) [] of
                None \<Rightarrow> None
              | Some (Inl e) \<Rightarrow> Some (Inl e, s)
              | Some (Inr vm) \<Rightarrow>
                (let g = gc_all (remdups_adj (sort pins)) vm
                 in case build_outputs (xxh3_64 L) Z concurrency (sst_size_bytes (se_config s)) (max_rows_per_block (se_config s))
                           (columnar s) (latest_ts g) (sort_survivors (survivors g)) of
                      None \<Rightarrow> None
                    | Some (Inl e) \<Rightarrow> Some (Inl e, s)
                    | Some (Inr outs) \<Rightarrow>
                      (case commit_outputs io input_ids outs s of
                         None \<Rightarrow> None
                       | Some (Inl e, s) \<Rightarrow> Some (Inl e, s)
                       | Some (Inr _, s) \<Rightarrow>
                         Some (Inr \<lparr>input_ssts = length inputs, output_ssts = length outs, cs_keys_retained = keys_retained g,
                                    cs_versions_gc_dropped = versions_gc_dropped g\<rparr>,
                           s\<lparr>sst_registry := (\<lambda>i. if i \<in> input_ids then None else sst_registry s i),
                             data_dir := (\<lambda>p. if p \<in> snd ` set inputs then None else data_dir s p)\<rparr>))))"

definition compact ::
  "zstd_lib \<Rightarrow> wal_lib \<Rightarrow> nat \<Rightarrow> u64 list \<Rightarrow> io_faults \<Rightarrow> u64 list \<Rightarrow> sst_engine
   \<Rightarrow> ((galax_error + compaction_stats) \<times> sst_engine) option" where
  "compact Z L concurrency pins io order s = compact_inner Z L concurrency pins io order False s"

definition force_compact ::
  "zstd_lib \<Rightarrow> wal_lib \<Rightarrow> nat \<Rightarrow> u64 list \<Rightarrow> io_faults \<Rightarrow> u64 list \<Rightarrow> sst_engine
   \<Rightarrow> ((galax_error + compaction_stats) \<times> sst_engine) option" where
  "force_compact Z L concurrency pins io order s = compact_inner Z L concurrency pins io order True s"

definition sst_count :: "u64 list \<Rightarrow> sst_engine \<Rightarrow> nat" where
  "sst_count order s = length (filter (\<lambda>i. sst_registry s i \<noteq> None) order)"

definition maybe_compact ::
  "zstd_lib \<Rightarrow> wal_lib \<Rightarrow> nat \<Rightarrow> nat \<Rightarrow> u64 list \<Rightarrow> io_faults \<Rightarrow> u64 list \<Rightarrow> sst_engine
   \<Rightarrow> ((galax_error + bool) \<times> sst_engine) option" where
  "maybe_compact Z L trigger concurrency pins io order s =
     (if sst_count order s < trigger then Some (Inr False, s)
      else case compact_inner Z L concurrency pins io order False s of
             None \<Rightarrow> None
           | Some (Inl e, s) \<Rightarrow> Some (Inl e, s)
           | Some (Inr _, s) \<Rightarrow> Some (Inr True, s))"

section \<open>The versions read\<close>

definition row_version :: "row_entry \<Rightarrow> u64 \<times> bytes option" where
  "row_version e = (timestamp (snd e), if row_value e = [] then None else Some (row_value e))"

definition versions_of :: "row_entry list \<Rightarrow> bytes \<Rightarrow> version_list" where
  "versions_of rows k = map row_version (filter (\<lambda>e. fst e = k) rows)"

lemma push_versions:
  "om_invar M \<Longrightarrow> om_invar (fold push_version (map entry_row rows) M)
     \<and> om_get (fold push_version (map entry_row rows) M) k
       = (if versions_of rows k = [] then om_get M k
          else Some ((case om_get M k of None \<Rightarrow> [] | Some vers \<Rightarrow> vers) @ versions_of rows k))"
proof (induction rows arbitrary: M)
  case Nil
  then show ?case by (simp add: versions_of_def)
next
  case (Cons e rows)
  have inv: "om_invar (push_version (entry_row e) M)"
    using Cons.prems by (simp add: push_version_def entry_row_def om.invar_ins)
  have get: "om_get (push_version (entry_row e) M) k
      = (if k = fst e then Some ((case om_get M k of None \<Rightarrow> [] | Some vers \<Rightarrow> vers) @ [row_version e]) else om_get M k)"
    using Cons.prems by (simp add: push_version_def entry_row_def om.get_ins row_version_def)
  show ?case using Cons.IH [OF inv] get by (auto simp: versions_of_def)
qed

lemma compact_block_step:
  assumes "regs_ok regs" "zstd_ok Z"
  shows "block_step h Z regs (compact_block h Z) push_version"
  unfolding block_step_def
proof (intro allI impI)
  fix c bs st
  assume a: "block_image h Z regs c bs \<and> rows_fit c \<and> length bs < 2 ^ 32"
  then obtain b where "pax_deserialize h bs = Inr b" "read_block_rows Z b = Some (Some (map entry_row c))"
    using block_image_rows [of h Z regs c bs] assms by blast
  then show "compact_block h Z bs st = Some (fold push_version (map entry_row c) st)" by (simp add: compact_block_def)
qed

lemma from_file_image: "image_small x \<Longrightarrow> from_file_data (file_of x) = Some (Inr (snd x))"
  using index_roundtrip [of "snd x" "fst x"] by (simp add: image_small_def file_of_def)

lemma read_inputs_rows:
  assumes "file_rows h Z regs d reg R" and "regs_ok regs" "zstd_ok Z" and "set order \<subseteq> dom reg"
  shows "read_inputs h Z d (map (\<lambda>i. sst_path (the (reg i))) order) M
    = Some (Inr (fold push_version (map entry_row (rows_in_order R order)) M))"
  using assms(4)
proof (induction order arbitrary: M)
  case Nil
  then show ?case by (simp add: rows_in_order_def)
next
  case (Cons i order)
  then obtain en where en: "reg i = Some en" by auto
  then obtain x cs where x: "d (sst_path en) = Some (file_of x)" "block_index en = snd x" "image_small x"
    "image_blocks h Z regs x cs" "\<forall>c \<in> set cs. rows_fit c" "R i = Some (concat cs)"
    using assms(1) unfolding file_rows_def by blast
  have "scan_entries (compact_block h Z) (file_of x) (entries (snd x)) M = Some (fold push_version (map entry_row (concat cs)) M)"
    by (rule scan_entries_image [OF compact_block_step [OF assms(2,3)] x(3-5)])
  then show ?case using Cons en x(1,6) from_file_image [OF x(3)] by (simp add: rows_in_order_def)
qed


section \<open>Garbage collection without pins\<close>

lemma dedup_sorted:
  assumes "sorted (map fst xs)" and "xs \<noteq> []"
  shows "dedup_by_ts xs \<noteq> [] \<and> set (dedup_by_ts xs) \<subseteq> set xs \<and> fst (last (dedup_by_ts xs)) = fst (last xs)"
  using assms
proof (induction xs rule: dedup_by_ts.induct)
  case (3 x y ys)
  show ?case
  proof (cases "fst y = fst x")
    case True
    then have "fst (last (x # ys)) = fst (last (x # y # ys))" by simp
    then show ?thesis using 3 True by (auto split: if_splits)
  next
    case False
    then show ?thesis using 3 by auto
  qed
qed auto

text \<open>Without pins only a newest version is kept, and not even that if it is a tombstone.\<close>

lemma gc_key_unpinned:
  assumes "vers \<noteq> []"
  shows "\<exists>e. newest vers e \<and> gc_key [] vers = (if snd e = None then None else Some \<lparr>gc_kept = [e], gc_latest = fst e\<rparr>)"
proof -
  define vs where "vs = dedup_by_ts (sort_key fst vers)"
  have ne: "sort_key fst vers \<noteq> []" using assms by (metis set_empty set_sort)
  have ds: "vs \<noteq> []" "set vs \<subseteq> set vers" "fst (last vs) = fst (last (sort_key fst vers))"
    using dedup_sorted [OF _ ne] by (simp_all add: vs_def)
  obtain pre e where vs: "vs = pre @ [e]" using ds(1) by (metis append_butlast_last_id)
  have le: "fst x \<le> fst (last ys)" if "sorted (map fst ys)" "x \<in> set ys" for x :: "u64 \<times> bytes option" and ys
    using that by (induction ys) (auto split: if_splits)
  have "newest vers e"
    using ds(2,3) le [of "sort_key fst vers"] by (auto simp: newest_def vs)
  moreover have "gc_keep [] vs = replicate (length pre) False @ [True]"
    by (simp add: gc_keep_def vs replicate_append_same [symmetric] list_update_append)
  moreover have "map fst (filter snd (zip (pre @ [e]) (replicate (length pre) False @ [True]))) = [e]"
    by (auto simp: zip_append filter_empty_conv set_zip)
  ultimately show ?thesis
    unfolding gc_key_def vs_def [symmetric] by (intro exI [of _ e]) (auto simp: vs nth_append Let_def)
qed

definition newest_row :: "row_entry list \<Rightarrow> bytes \<Rightarrow> row_entry \<Rightarrow> bool" where
  "newest_row rows k e \<longleftrightarrow> e \<in> set rows \<and> fst e = k \<and> (\<forall>e' \<in> set rows. fst e' = k \<longrightarrow> timestamp (snd e') \<le> timestamp (snd e))"

definition merged :: "row_entry list \<Rightarrow> (bytes \<times> version_list) list" where
  "merged rows = fold push_version (map entry_row rows) []"

lemma merged_facts:
  shows "om_invar (merged rows)" and "(k, vers) \<in> set (merged rows) \<longleftrightarrow> vers = versions_of rows k \<and> vers \<noteq> []"
    and "distinct (map fst (merged rows))"
proof -
  note pv = push_versions [OF om.invar_empty, of rows, folded merged_def]
  show inv: "om_invar (merged rows)" using pv by blast
  show "(k, vers) \<in> set (merged rows) \<longleftrightarrow> vers = versions_of rows k \<and> vers \<noteq> []"
    using om.entry_iff [OF inv, of k vers] pv [of k] by auto
  show "distinct (map fst (merged rows))" by (rule om.entries_distinct [OF inv])
qed

lemma newest_version:
  assumes "newest (versions_of rows k) x"
  obtains e where "newest_row rows k e" "x = row_version e"
  using assms by (force simp: newest_def versions_of_def newest_row_def row_version_def)

text \<open>The survivors: one row per key, a newest one.\<close>

lemma distinct_at_most_one:
  assumes "distinct (map f xs)" and "\<forall>x \<in> set xs. g x \<in> {[], [f x]}"
  shows "distinct (concat (map g xs))"
  using assms
proof (induction xs)
  case (Cons x xs)
  have "set (concat (map g xs)) \<subseteq> f ` set xs" using Cons.prems(2) by force
  then show ?case using Cons by (cases "g x = []") auto
qed simp

lemma unpinned_survivors:
  fixes rows
  defines "g \<equiv> gc_all [] (merged rows)"
  shows "distinct (map fst (survivors g))"
    and "(k, ts, v) \<in> set (survivors g) \<Longrightarrow> latest_ts g k = Some ts \<and> (\<exists>e. newest_row rows k e \<and> (ts, v) = row_version e \<and> v \<noteq> None)"
    and "e \<in> set rows \<Longrightarrow> fst e = k \<Longrightarrow> k \<notin> fst ` set (survivors g) \<Longrightarrow> \<exists>e. newest_row rows k e \<and> row_value e = []"
proof -
  note mf = merged_facts [where rows = rows]
  have sv: "survivors g = concat (map (gc_rows []) (merged rows))" by (simp add: g_def gc_all_survivors)
  have row: "\<exists>e. newest_row rows (fst kv) e
      \<and> gc_key [] (snd kv) = (if row_value e = [] then None else Some \<lparr>gc_kept = [row_version e], gc_latest = timestamp (snd e)\<rparr>)"
    if "kv \<in> set (merged rows)" for kv
  proof -
    have kv: "snd kv = versions_of rows (fst kv)" "snd kv \<noteq> []" using that mf(2) [of "fst kv" "snd kv"] by (metis prod.collapse)+
    obtain x where x: "newest (snd kv) x" "gc_key [] (snd kv) = (if snd x = None then None else Some \<lparr>gc_kept = [x], gc_latest = fst x\<rparr>)"
      using gc_key_unpinned [OF kv(2)] by blast
    obtain e where e: "newest_row rows (fst kv) e" "x = row_version e" using newest_version x(1) kv(1) by metis
    then show ?thesis using x(2) by (intro exI [of _ e]) (simp add: row_version_def)
  qed
  have one: "map fst (gc_rows [] kv) \<in> {[], [fst kv]}" if kv: "kv \<in> set (merged rows)" for kv
  proof -
    obtain e where "gc_key [] (snd kv) = (if row_value e = [] then None else Some \<lparr>gc_kept = [row_version e], gc_latest = timestamp (snd e)\<rparr>)"
      using row [OF kv] by blast
    then show ?thesis by (cases "row_value e = []") (simp_all add: gc_rows_def case_prod_beta)
  qed
  have "distinct (concat (map (\<lambda>kv. map fst (gc_rows [] kv)) (merged rows)))" using one by (intro distinct_at_most_one [OF mf(3)]) blast
  moreover have "map fst (survivors g) = concat (map (\<lambda>kv. map fst (gc_rows [] kv)) (merged rows))"
    by (simp add: sv map_concat comp_def)
  ultimately show "distinct (map fst (survivors g))" by simp
  show "latest_ts g k = Some ts \<and> (\<exists>e. newest_row rows k e \<and> (ts, v) = row_version e \<and> v \<noteq> None)"
    if s: "(k, ts, v) \<in> set (survivors g)"
  proof -
    obtain kv where kv: "kv \<in> set (merged rows)" "(k, ts, v) \<in> set (gc_rows [] kv)" using s by (auto simp: sv)
    obtain e where e: "newest_row rows (fst kv) e"
      "gc_key [] (snd kv) = (if row_value e = [] then None else Some \<lparr>gc_kept = [row_version e], gc_latest = timestamp (snd e)\<rparr>)"
      using row [OF kv(1)] by blast
    have r: "row_value e \<noteq> []" "k = fst kv" "(ts, v) = row_version e"
      using kv(2) e(2) by (auto simp: gc_rows_def split: if_splits)
    have "map_of (merged rows) k = Some (snd kv)" using kv(1) r(2) mf(3) by (simp add: map_of_eq_Some_iff)
    then have "latest_ts g k = Some ts" using e(2) r by (simp add: g_def gc_all_latest [OF mf(3)] row_version_def)
    moreover have "v \<noteq> None" using r(1,3) by (simp add: row_version_def)
    ultimately show ?thesis using e(1) r(2,3) by blast
  qed
  show "\<exists>e. newest_row rows k e \<and> row_value e = []" if e: "e \<in> set rows" "fst e = k" "k \<notin> fst ` set (survivors g)"
  proof -
    have "versions_of rows k \<noteq> []" using e(1,2) by (auto simp: versions_of_def filter_empty_conv)
    then have m: "(k, versions_of rows k) \<in> set (merged rows)" using mf(2) by blast
    from row [OF m] obtain e' where e': "newest_row rows k e'"
      "gc_key [] (versions_of rows k) = (if row_value e' = [] then None else Some \<lparr>gc_kept = [row_version e'], gc_latest = timestamp (snd e')\<rparr>)"
      by auto
    have "row_value e' = []"
    proof (rule ccontr)
      assume "row_value e' \<noteq> []"
      then have "gc_rows [] (k, versions_of rows k) = [(k, timestamp (snd e'), Some (row_value e'))]"
        using e'(2) by (simp add: gc_rows_def row_version_def)
      then have "(k, timestamp (snd e'), Some (row_value e')) \<in> set (survivors g)" using m by (force simp: sv)
      then show False using e(3) by force
    qed
    then show ?thesis using e'(1) by blast
  qed
qed

lemma sort_survivors_facts: "set (sort_survivors xs) = set xs" "distinct (map fst xs) \<Longrightarrow> distinct (map fst (sort_survivors xs))"
proof -
  show "set (sort_survivors xs) = set xs" by (simp add: sort_survivors_def)
  show "distinct (map fst xs) \<Longrightarrow> distinct (map fst (sort_survivors xs))" by (simp add: sort_survivors_def distinct_map)
qed


section \<open>Committing\<close>

fun points_into :: "u64 set \<Rightarrow> row_location option \<Rightarrow> bool" where
  "points_into ids (Some (SstLoc a b r)) = (a \<in> ids)"
| "points_into ids loc = False"

definition relocated :: "u64 set \<Rightarrow> row_location option \<Rightarrow> row_location option \<Rightarrow> row_location option" where
  "relocated ids target loc = (if target \<noteq> None \<and> points_into ids loc then target else loc)"

lemma relocate_step:
  assumes "key_space K \<and> Suc n \<le> 65001 \<and> art_ok K (Suc n) t" and "k \<in> K"
  shows "\<exists>t' b. relocate_if_points_to k ids loc t = Some (t', b) \<and> (key_space K \<and> n \<le> 65001 \<and> art_ok K n t')
    \<and> art_lookup t' = (art_lookup t)(k := relocated ids (Some loc) (art_lookup t k))"
proof (cases "points_into ids (art_lookup t k)")
  case True
  then obtain a b r where l: "art_lookup t k = Some (SstLoc a b r)" "a \<in> ids"
    by (cases "art_lookup t k"; cases "the (art_lookup t k)") auto
  obtain t' where "art_insert k loc t = Some t'" "key_space K \<and> n \<le> 65001 \<and> art_ok K n t'" "art_lookup t' = (art_lookup t)(k \<mapsto> loc)"
    using aix.find_insert [OF assms, of loc] by blast
  then show ?thesis using l by (auto simp: relocate_if_points_to_def relocated_def)
next
  case False
  have "art_ok K n t" using assms(1) art_ok_mono by (meson lessI less_imp_le)
  moreover have "relocate_if_points_to k ids loc t = Some (t, False)"
    using False by (auto simp: relocate_if_points_to_def split: option.splits row_location.splits)
  ultimately show ?thesis using False assms(1) by (auto simp: relocated_def)
qed

definition target_of :: "u64 \<Rightarrow> (bytes \<times> u32 \<times> u32) list \<Rightarrow> bytes \<Rightarrow> row_location option" where
  "target_of sid targets k = map_option (\<lambda>(blk, row). SstLoc sid (ucast blk) row) (map_of targets k)"

lemma relocate_all_ok:
  assumes "key_space K \<and> n + length targets \<le> 65001 \<and> art_ok K (n + length targets) t"
    and "fst ` set targets \<subseteq> K" and "distinct (map fst targets)"
  shows "\<exists>t'. relocate_all ids sid targets t = Some t' \<and> (key_space K \<and> n \<le> 65001 \<and> art_ok K n t')
    \<and> (\<forall>k. art_lookup t' k = relocated ids (target_of sid targets k) (art_lookup t k))"
  using assms
proof (induction targets arbitrary: t)
  case Nil
  then show ?case by (simp add: target_of_def relocated_def)
next
  case (Cons x targets)
  obtain k b r where x: "x = (k, b, r)" by (cases x)
  let ?loc = "SstLoc sid (ucast b) r"
  obtain t1 moved where t1: "relocate_if_points_to k ids ?loc t = Some (t1, moved)"
    "key_space K \<and> n + length targets \<le> 65001 \<and> art_ok K (n + length targets) t1"
    "art_lookup t1 = (art_lookup t)(k := relocated ids (Some ?loc) (art_lookup t k))"
    using relocate_step [of K "n + length targets" t k ids ?loc] Cons.prems by (auto simp: x)
  obtain t' where t': "relocate_all ids sid targets t1 = Some t'" "key_space K \<and> n \<le> 65001 \<and> art_ok K n t'"
    "\<forall>k. art_lookup t' k = relocated ids (target_of sid targets k) (art_lookup t1 k)"
    using Cons.IH [OF t1(2)] Cons.prems by auto
  have "map_of targets k = None" using Cons.prems(3) by (simp add: x map_of_eq_None_iff)
  then have "art_lookup t' k' = relocated ids (target_of sid (x # targets) k') (art_lookup t k')" for k'
    using t'(3) t1(3) by (cases "k' = k") (simp_all add: x target_of_def relocated_def)
  then show ?case using t1(1) t'(1,2) by (simp add: x)
qed

text \<open>Where the outputs say that a key goes.\<close>

fun out_target :: "u64 \<Rightarrow> compaction_output list \<Rightarrow> bytes \<Rightarrow> row_location option" where
  "out_target sid [] k = None"
| "out_target sid (out # outs) k =
     (case target_of sid (out_targets out) k of Some loc \<Rightarrow> Some loc | None \<Rightarrow> out_target (sid + 1) outs k)"

definition all_targets :: "compaction_output list \<Rightarrow> (bytes \<times> u32 \<times> u32) list" where
  "all_targets outs = concat (map out_targets outs)"

text \<open>What committing the outputs does.\<close>

definition committed ::
  "u64 set \<Rightarrow> compaction_output list \<Rightarrow> sst_image list \<Rightarrow> sst_engine \<Rightarrow> sst_engine \<Rightarrow> bool" where
  "committed ids outs files s s' \<longleftrightarrow>
     (\<exists>t'. core s' = (core s)\<lparr>art_index := t'\<rparr>
        \<and> (\<forall>k. art_lookup t' k = relocated ids (out_target (next_sst_id s) outs k) (art_lookup (art_index (core s)) k)))
     \<and> next_sst_id s' = next_sst_id s + word_of_nat (length outs) \<and> block_counter s' = block_counter s + word_of_nat (length outs)
     \<and> registered (next_sst_id s) (map (\<lambda>j. block_counter s + word_of_nat j) [0..<length outs]) files (sst_registry s) (sst_registry s')
     \<and> (\<forall>j < length outs. data_dir s' (block_counter s + word_of_nat j) = Some (file_of (files ! j)))
     \<and> (\<forall>p. p < block_counter s \<or> block_counter s' \<le> p \<longrightarrow> data_dir s' p = data_dir s p)
     \<and> columnar s' = columnar s \<and> bg_worker_active s' = bg_worker_active s \<and> se_config s' = se_config s"

lemma out_target_absent: "k \<notin> fst ` set (all_targets outs) \<Longrightarrow> out_target sid outs k = None"
proof (induction outs arbitrary: sid)
  case (Cons out outs)
  then have "map_of (out_targets out) k = None" by (auto simp: all_targets_def map_of_eq_None_iff)
  moreover have "k \<notin> fst ` set (all_targets outs)" using Cons.prems by (auto simp: all_targets_def)
  ultimately show ?case using Cons.IH by (simp add: target_of_def)
qed simp

lemma commit_outputs_ok:
  assumes "list_all2 (\<lambda>out x. out_bytes out = file_of x \<and> image_small x) outs files"
    and "key_space K \<and> n + length (all_targets outs) \<le> 65001 \<and> art_ok K (n + length (all_targets outs)) (art_index (core s))"
    and "fst ` set (all_targets outs) \<subseteq> K" and "distinct (map fst (all_targets outs))"
    and "unat (next_sst_id s) + length outs < 2 ^ 64" and "unat (block_counter s) + length outs < 2 ^ 64"
  shows "\<exists>s'. commit_outputs (\<lambda>_. None) ids outs s = Some (Inr (), s') \<and> committed ids outs files s s'
    \<and> (key_space K \<and> n \<le> 65001 \<and> art_ok K n (art_index (core s')))"
  using assms
proof (induction outs arbitrary: files s)
  case Nil
  then show ?case by (auto simp: committed_def registered_def relocated_def all_targets_def intro!: exI [of _ "art_index (core s)"])
next
  case (Cons out outs)
  obtain x files' where f: "files = x # files'" "out_bytes out = file_of x" "image_small x"
    "list_all2 (\<lambda>out x. out_bytes out = file_of x \<and> image_small x) outs files'"
    using Cons.prems(1) by (auto simp: list_all2_Cons1)
  let ?sid = "next_sst_id s" and ?fid = "block_counter s"
  let ?d = "(data_dir s)(?fid \<mapsto> out_bytes out)"
  have at: "all_targets (out # outs) = out_targets out @ all_targets outs" by (simp add: all_targets_def)
  have "register ?d ?sid ?fid (sst_registry s) = Some (Inr ((sst_registry s)(?sid \<mapsto> entry_of_image ?fid x)))"
    by (rule register_image) (simp_all add: f)
  note reg = this
  obtain t1 where t1: "relocate_all ids ?sid (out_targets out) (art_index (core s)) = Some t1"
    "key_space K \<and> n + length (all_targets outs) \<le> 65001 \<and> art_ok K (n + length (all_targets outs)) t1"
    "\<forall>k. art_lookup t1 k = relocated ids (target_of ?sid (out_targets out) k) (art_lookup (art_index (core s)) k)"
    using relocate_all_ok [of K "n + length (all_targets outs)" "out_targets out" "art_index (core s)" ids ?sid] Cons.prems(2-4)
    by (auto simp: at add.assoc add.commute [of "length (all_targets outs)"])
  define s1 where "s1 = s\<lparr>next_sst_id := ?sid + 1, block_counter := ?fid + 1, data_dir := ?d,
     sst_registry := (sst_registry s)(?sid \<mapsto> entry_of_image ?fid x), core := (core s)\<lparr>art_index := t1\<rparr>\<rparr>"
  have u: "unat (?sid + 1) = unat ?sid + 1" "unat (?fid + 1) = unat ?fid + 1"
    using Cons.prems(5,6) unat_plus_nat [of ?sid 1] unat_plus_nat [of ?fid 1] by simp_all
  have "\<exists>s'. commit_outputs (\<lambda>_. None) ids outs s1 = Some (Inr (), s') \<and> committed ids outs files' s1 s'
    \<and> (key_space K \<and> n \<le> 65001 \<and> art_ok K n (art_index (core s')))"
    using Cons.prems(3-6) t1(2) by (intro Cons.IH [OF f(4)]) (auto simp: s1_def at u)
  then obtain s' where s': "commit_outputs (\<lambda>_. None) ids outs s1 = Some (Inr (), s')" "committed ids outs files' s1 s'"
    "key_space K \<and> n \<le> 65001 \<and> art_ok K n (art_index (core s'))" by blast
  have step: "commit_outputs (\<lambda>_. None) ids (out # outs) s = Some (Inr (), s')"
    using s'(1) reg t1(1) by (simp add: Let_def s1_def)
  have paths: "map (\<lambda>j. ?fid + word_of_nat j) [0..<length (out # outs)]
      = ?fid # map (\<lambda>j. ?fid + 1 + word_of_nat j) [0..<length outs]"
    by (simp add: upt_conv_Cons map_Suc_upt [symmetric] comp_def add.assoc del: upt_Suc)
  have rg: "registered ?sid (map (\<lambda>j. ?fid + word_of_nat j) [0..<length (out # outs)]) files (sst_registry s) (sst_registry s')"
    unfolding paths f(1) using s'(2) Cons.prems(5) by (intro registered_Cons) (simp_all add: committed_def s1_def)
  have dir: "data_dir s' (?fid + word_of_nat j) = Some (file_of (files ! j))" if j: "j < length (out # outs)" for j
  proof (cases j)
    case 0
    have "?fid < ?fid + 1" using u(2) by (simp add: word_less_nat_alt)
    then have "data_dir s' ?fid = data_dir s1 ?fid" using s'(2) by (simp add: committed_def s1_def)
    then show ?thesis using 0 by (simp add: s1_def f)
  next
    case (Suc i)
    have "data_dir s' (?fid + 1 + word_of_nat i) = Some (file_of (files' ! i))"
      using s'(2) j Suc unfolding committed_def by (simp add: s1_def)
    then show ?thesis unfolding Suc word_base_Suc by (simp add: f(1))
  qed
  have bc: "block_counter s' = ?fid + 1 + word_of_nat (length outs)" using s'(2) by (simp add: committed_def s1_def)
  have frame: "data_dir s' p = data_dir s p" if p: "p < ?fid \<or> block_counter s' \<le> p" for p
  proof -
    have "p < ?fid + 1 \<or> block_counter s' \<le> p" "p \<noteq> ?fid"
      using p u(2) unat_plus_nat [of "?fid + 1" "length outs"] Cons.prems(6) unfolding bc word_less_nat_alt word_le_nat_alt by auto
    moreover have "data_dir s' p = data_dir s1 p" if "p < ?fid + 1 \<or> block_counter s' \<le> p"
      using s'(2) that by (auto simp: committed_def s1_def)
    ultimately show ?thesis by (simp add: s1_def)
  qed
  have lk: "relocated ids (out_target (?sid + 1) outs k) (relocated ids (target_of ?sid (out_targets out) k) l)
      = relocated ids (out_target ?sid (out # outs) k) l" for k l
  proof (cases "target_of ?sid (out_targets out) k")
    case None
    then show ?thesis by (simp add: relocated_def)
  next
    case (Some loc)
    then have "k \<in> fst ` set (out_targets out)" by (auto simp: target_of_def dest!: map_of_SomeD intro: rev_image_eqI)
    then have "k \<notin> fst ` set (all_targets outs)" using Cons.prems(4) by (auto simp: at)
    then show ?thesis using Some by (simp add: out_target_absent relocated_def)
  qed
  have "committed ids (out # outs) files s s'"
    using s'(2) rg dir frame t1(3) lk unfolding committed_def by (auto simp: s1_def bc)
  then show ?case using step s'(3) by blast
qed


section \<open>Where the outputs put the rows\<close>

definition all_latest :: "(bytes \<rightharpoonup> u64) \<Rightarrow> survivor_row list \<Rightarrow> bool" where
  "all_latest latest rows \<longleftrightarrow> (\<forall>row \<in> set rows. latest (fst row) = Some (fst (snd row)))"

lemma all_latest_simps [simp]:
  "all_latest latest []" "all_latest latest (xs @ ys) \<longleftrightarrow> all_latest latest xs \<and> all_latest latest ys"
  by (auto simp: all_latest_def)

lemma enumerate_sub: "x \<in> set (enumerate n xs) \<Longrightarrow> snd x \<in> set xs"
  by (metis image_eqI map_snd_enumerate set_map)

lemma block_targets_all:
  assumes "all_latest latest chunk"
  shows "block_targets_of latest b chunk = map (\<lambda>(i, row). (fst row, b, word_of_nat i)) (enumerate 0 chunk)"
proof -
  have "filter (\<lambda>(row_off, k, ts, v). latest k = Some ts) (enumerate 0 chunk) = enumerate 0 chunk"
    using assms enumerate_sub by (fastforce simp: filter_id_conv all_latest_def)
  then show ?thesis by (simp add: block_targets_of_def case_prod_beta)
qed

lemma block_targets_keys: "all_latest latest chunk \<Longrightarrow> map fst (block_targets_of latest b chunk) = map fst chunk"
  by (rule nth_equalityI) (simp_all add: block_targets_all nth_enumerate_eq)

lemma group_targets_keys:
  assumes "all_latest latest (concat grp)"
  shows "map fst (group_targets latest grp) = map fst (concat grp)"
  using assms
proof (induction grp rule: rev_induct)
  case Nil
  then show ?case by (simp add: group_targets_def)
next
  case (snoc c grp)
  then show ?case by (simp add: group_targets_snoc block_targets_keys)
qed

lemma in_block_targets:
  "all_latest latest chunk \<Longrightarrow> (k, blk, row) \<in> set (block_targets_of latest b chunk) \<Longrightarrow>
     \<exists>r < length chunk. k = fst (chunk ! r) \<and> blk = b \<and> row = word_of_nat r"
  by (auto simp: block_targets_all in_set_enumerate_eq)

lemma in_group_targets:
  assumes "all_latest latest (concat grp)" and "(k, blk, row) \<in> set (group_targets latest grp)"
  shows "\<exists>b r. b < length grp \<and> r < length (grp ! b) \<and> k = fst (grp ! b ! r) \<and> blk = word_of_nat b \<and> row = word_of_nat r"
proof -
  obtain b where b: "b < length grp" "(k, blk, row) \<in> set (block_targets_of latest (word_of_nat b) (grp ! b))"
    using assms(2) by (auto simp: group_targets_def in_set_enumerate_eq)
  have "all_latest latest (grp ! b)" using assms(1) nth_mem [OF b(1)] unfolding all_latest_def by auto
  from in_block_targets [OF this b(2)] show ?thesis using b(1) by blast
qed

definition targets_match :: "(bytes \<rightharpoonup> u64) \<Rightarrow> compaction_output list \<Rightarrow> survivor_row list list list \<Rightarrow> bool" where
  "targets_match latest outs groups \<longleftrightarrow> list_all2 (\<lambda>out grp. out_targets out = group_targets latest grp) outs groups
     \<and> all_latest latest (concat (concat groups))"

lemma targets_match_Cons:
  "targets_match latest (out # outs) groups \<longleftrightarrow>
     (\<exists>grp groups'. groups = grp # groups' \<and> out_targets out = group_targets latest grp \<and> all_latest latest (concat grp)
        \<and> targets_match latest outs groups')"
  by (auto simp: targets_match_def list_all2_Cons1)

lemma all_targets_keys:
  "targets_match latest outs groups \<Longrightarrow> map fst (all_targets outs) = map fst (concat (concat groups))"
proof (induction outs arbitrary: groups)
  case Nil
  then show ?case by (simp add: targets_match_def all_targets_def)
next
  case (Cons out outs)
  then show ?case by (auto simp: targets_match_Cons all_targets_def group_targets_keys)
qed

lemma out_target_total:
  "k \<in> fst ` set (all_targets outs) \<Longrightarrow> \<exists>loc. out_target sid outs k = Some loc"
proof (induction outs arbitrary: sid)
  case Nil
  then show ?case by (simp add: all_targets_def)
next
  case (Cons out outs)
  show ?case
  proof (cases "map_of (out_targets out) k")
    case None
    then have "k \<in> fst ` set (all_targets outs)" using Cons.prems by (auto simp: all_targets_def map_of_eq_None_iff)
    then show ?thesis using None Cons.IH by (simp add: target_of_def)
  next
    case (Some br)
    then show ?thesis by (simp add: target_of_def)
  qed
qed

lemma out_target_sound:
  "targets_match latest outs groups \<Longrightarrow> out_target sid outs k = Some loc \<Longrightarrow>
     \<exists>j b r. j < length groups \<and> b < length (groups ! j) \<and> r < length (groups ! j ! b) \<and> k = fst (groups ! j ! b ! r)
       \<and> loc = SstLoc (sid + word_of_nat j) (ucast (word_of_nat b :: u32)) (word_of_nat r)"
proof (induction outs arbitrary: groups sid)
  case Nil
  then show ?case by simp
next
  case (Cons out outs)
  then obtain grp groups' where g: "groups = grp # groups'" "out_targets out = group_targets latest grp" "all_latest latest (concat grp)"
    "targets_match latest outs groups'" by (auto simp: targets_match_Cons)
  show ?case
  proof (cases "map_of (out_targets out) k")
    case None
    then have "out_target (sid + 1) outs k = Some loc" using Cons.prems(2) by (simp add: target_of_def)
    from Cons.IH [OF g(4) this] obtain j b r where "j < length groups'" "b < length (groups' ! j)" "r < length (groups' ! j ! b)"
      "k = fst (groups' ! j ! b ! r)" "loc = SstLoc (sid + 1 + word_of_nat j) (ucast (word_of_nat b :: u32)) (word_of_nat r)" by blast
    then show ?thesis using word_base_Suc [of sid j] by (intro exI [of _ "Suc j"] exI [of _ b] exI [of _ r]) (simp add: g(1))
  next
    case (Some br)
    then have "(k, fst br, snd br) \<in> set (group_targets latest grp)" using map_of_SomeD [OF Some] g(2) by simp
    from in_group_targets [OF g(3) this] obtain b r where "b < length grp" "r < length (grp ! b)" "k = fst (grp ! b ! r)"
      "fst br = word_of_nat b" "snd br = word_of_nat r" by blast
    then show ?thesis using Some Cons.prems(2)
      by (intro exI [of _ 0] exI [of _ b] exI [of _ r]) (simp add: g(1) target_of_def case_prod_beta)
  qed
qed

text \<open>A point read of a row of an image.\<close>

lemma read_value_image:
  assumes "image_blocks h Z regs x cs" and "b < length cs" and b32: "length cs < 2 ^ 32" and "r < length (cs ! b)"
    and ok: "regs_ok regs" "rows_fit (cs ! b)" "zstd_ok Z" and en: "reg a = Some (entry_of_image p x)" and d: "d p = Some (file_of x)"
  shows "read_value h Z d reg a (ucast (word_of_nat b :: u32)) (word_of_nat r) = Some (Some (row_value (cs ! b ! r)))"
proof -
  let ?info = "\<lparr>sst_index = 0, block_no = word_of_nat b, info_rows = length (cs ! b)\<rparr>"
  have u: "unat (word_of_nat b :: u32) = b" using assms(2) b32 by (simp add: unat_of_nat_small)
  have "row_located h Z regs [x] (cs ! b) ?info" using assms(1,2) u by (auto simp: row_located_def image_blocks_def)
  moreover have "registered a [p] [x] reg reg" using en by (simp add: registered_def)
  ultimately have "(\<exists>en. reg (file_sst_id a ?info) = Some en)
    \<and> read_value h Z d reg (file_sst_id a ?info) (ucast (block_no ?info)) (word_of_nat r) = Some (Some (row_value (cs ! b ! r)))"
    by (rule read_value_flushed) (use assms in simp_all)
  then show ?thesis by (simp add: file_sst_id_def)
qed

end
