(* ===== verification/CompactRefines.thy ===== *)
theory CompactRefines
  imports EngineCompact
begin

text \<open>
  Compaction keeps the meaning of the store. The relation of \<open>EngineScan\<close> between the engine
  and a map of cells is kept, with the buried cells purged, so that runs of puts, deletes,
  flushes and compactions refine the map of cells.
\<close>

section \<open>The surviving rows\<close>

definition purge :: "(bytes \<rightharpoonup> cell) \<Rightarrow> (bytes \<rightharpoonup> cell)" where
  "purge m k = (case m k of Some Buried \<Rightarrow> Some Purged | c \<Rightarrow> c)"

lemma newest_row_unique:
  assumes "e \<in> set rows" "\<forall>e' \<in> set rows. fst e' = k \<longrightarrow> e' = e \<or> timestamp (snd e') < timestamp (snd e)" "fst e = k" "newest_row rows k e'"
  shows "e' = e"
  using assms by (force simp: newest_row_def)

text \<open>A live cell has one surviving row, every other cell none.\<close>

lemma survivor_cells:
  assumes nr: "newest_rel (set rows) k c" and ne: "\<forall>e \<in> set rows. vvalue (snd e) \<noteq> Some []"
  shows "(\<exists>ts v. (k, ts, Some v) \<in> set (survivors (gc_all [] (merged rows))) \<and> c = Some (Live v))
    \<or> k \<notin> fst ` set (survivors (gc_all [] (merged rows))) \<and> (c = None \<or> c = Some Buried \<or> c = Some Purged)"
proof -
  let ?sv = "set (survivors (gc_all [] (merged rows)))"
  note us = unpinned_survivors [where rows = rows]
  show ?thesis
    using nr unfolding newest_rel_def
  proof (elim disjE)
    assume no: "(\<forall>e \<in> set rows. fst e \<noteq> k) \<and> (c = None \<or> c = Some Purged)"
    have "k \<notin> fst ` ?sv"
    proof
      assume "k \<in> fst ` ?sv"
      then obtain ts v where "(k, ts, v) \<in> ?sv" by force
      then obtain e where "newest_row rows k e" using us(2) by blast
      then show False using no by (auto simp: newest_row_def)
    qed
    then show ?thesis using no by blast
  next
    assume "\<exists>e \<in> set rows. fst e = k \<and> (\<forall>e' \<in> set rows. fst e' = k \<longrightarrow> e' = e \<or> timestamp (snd e') < timestamp (snd e))
        \<and> c = Some (case vvalue (snd e) of Some v \<Rightarrow> Live v | None \<Rightarrow> Buried)"
    then obtain e where e: "e \<in> set rows" "fst e = k" "\<forall>e' \<in> set rows. fst e' = k \<longrightarrow> e' = e \<or> timestamp (snd e') < timestamp (snd e)"
      "c = Some (case vvalue (snd e) of Some v \<Rightarrow> Live v | None \<Rightarrow> Buried)" by blast
    have row: "(ts, v) = row_version e \<and> v \<noteq> None" if "(k, ts, v) \<in> ?sv" for ts v
      using us(2) [OF that] newest_row_unique [OF e(1,3,2)] by blast
    have none: "row_value e = []" if "k \<notin> fst ` ?sv"
      using us(3) [OF e(1,2) that] newest_row_unique [OF e(1,3,2)] by blast
    have rv: "row_value e = [] \<longleftrightarrow> vvalue (snd e) = None" using ne e(1) by (auto simp: row_value_def split: option.splits)
    show ?thesis
    proof (cases "k \<in> fst ` ?sv")
      case True
      then obtain ts v where t: "(k, ts, v) \<in> ?sv" by force
      then have "row_value e \<noteq> []" "v = Some (row_value e)" using row [OF t] by (auto simp: row_version_def split: if_splits)
      moreover from this obtain x where "vvalue (snd e) = Some x" using rv by blast
      ultimately have "(k, ts, Some x) \<in> ?sv" "c = Some (Live x)" using t e(4) by (simp_all add: row_value_def)
      then show ?thesis by blast
    next
      case False
      then show ?thesis using none rv e(4) by auto
    qed
  qed
qed

text \<open>The rows that compaction writes.\<close>

definition output_rows :: "(u64 \<rightharpoonup> row_entry list) \<Rightarrow> u64 list \<Rightarrow> survivor_row list" where
  "output_rows R order = sort_survivors (survivors (gc_all [] (merged (rows_in_order R order))))"

lemma output_row:
  assumes rel: "scan_rel Z L K V n s m R" and order: "set order = dom (sst_registry s)" and row: "(k, ts, v) \<in> set (output_rows R order)"
  shows "k \<in> K" and "\<exists>e \<in> all_rows R. ts = timestamp (snd e)" and "\<exists>x \<in> V. v = Some x"
    and "latest_ts (gc_all [] (merged (rows_in_order R order))) k = Some ts"
proof -
  let ?g = "gc_all [] (merged (rows_in_order R order))"
  have sv: "(k, ts, v) \<in> set (survivors ?g)" using row by (simp add: output_rows_def sort_survivors_facts)
  note u = unpinned_survivors(2) [OF sv]
  obtain e where e: "newest_row (rows_in_order R order) k e" "(ts, v) = row_version e" "v \<noteq> None" using u by blast
  have mem: "e \<in> all_rows R" "fst e = k"
    using e(1) scanned_rows [OF rel, of order] order by (auto simp: newest_row_def)
  obtain x where x: "vvalue (snd e) = Some x" "v = Some x"
    using e(2,3) by (cases "vvalue (snd e)") (auto simp: row_version_def row_value_def split: if_splits)
  show "k \<in> K" using scan_relD(4) [OF rel mem(1)] mem(2) by blast
  show "\<exists>e \<in> all_rows R. ts = timestamp (snd e)" using mem(1) e(2) by (auto simp: row_version_def)
  show "\<exists>x \<in> V. v = Some x" using scan_relD(4) [OF rel mem(1)] x by blast
  show "latest_ts ?g k = Some ts" using u by blast
qed

lemma output_rows_facts:
  assumes rel: "scan_rel Z L K V n s m R" and env: "store_env Z L (columnar s) K V" and n: "card K \<le> 65001"
    and order: "set order = dom (sst_registry s)"
  shows "distinct (map fst (output_rows R order))" and "fst ` set (output_rows R order) \<subseteq> K" and "length (output_rows R order) \<le> card K"
    and "rows_fit (map survivor_entry (output_rows R order))" and "run_fits (xxh3_64 L) Z (columnar s) (output_rows R order)"
    and "all_latest (latest_ts (gc_all [] (merged (rows_in_order R order)))) (output_rows R order)"
proof -
  let ?rows = "output_rows R order"
  have fin: "finite K" "\<forall>k \<in> K. length k < 2 ^ 32" "\<forall>v \<in> V. length v < 2 ^ 32" "blocks_small (xxh3_64 L) Z (columnar s) K V"
    using env by (simp_all add: store_env_def)
  note out = output_row [OF rel order]
  show d: "distinct (map fst ?rows)" by (simp add: output_rows_def sort_survivors_facts unpinned_survivors(1))
  show sub: "fst ` set ?rows \<subseteq> K" using out(1) by auto
  have "length ?rows = card (fst ` set ?rows)" using d by (metis distinct_card length_map set_map)
  then show len: "length ?rows \<le> card K" using sub fin(1) by (simp add: card_mono)
  have val: "row_value (survivor_entry row) \<in> V" if r: "row \<in> set ?rows" for row
  proof -
    obtain k ts v where row: "row = (k, ts, v)" by (cases row)
    obtain x where "x \<in> V" "v = Some x" using out(3) r row by blast
    then show ?thesis by (simp add: row row_value_def)
  qed
  show rf: "rows_fit (map survivor_entry ?rows)"
    using len n sub val fin(2,3) by (auto simp: rows_fit_def)
  have "length bs < 2 ^ 32" if c: "?rows = pre @ c @ post" "block_image (xxh3_64 L) Z (columnar s) (map survivor_entry c) bs" for pre c post bs
  proof -
    have m: "map fst (map survivor_entry c) = map fst c" by simp
    have ks: "fst ` set (map survivor_entry c) = fst ` set c" by (simp add: image_image)
    have sb: "set c \<subseteq> set ?rows" using c(1) by auto
    have "distinct (map fst (map survivor_entry c))" using d c(1) unfolding m by simp
    moreover have "fst ` set (map survivor_entry c) \<subseteq> K" using sub sb unfolding ks by blast
    moreover have "row_value ` set (map survivor_entry c) \<subseteq> insert [] V" using val sb by auto
    ultimately show ?thesis
      using fin(4) c(2) unfolding blocks_small_def by blast
  qed
  then show "run_fits (xxh3_64 L) Z (columnar s) ?rows" using rf by (simp add: run_fits_def)
  show "all_latest (latest_ts (gc_all [] (merged (rows_in_order R order)))) ?rows"
    using out(4) by (auto simp: all_latest_def)
qed


section \<open>A compaction that runs through\<close>

definition input_paths :: "sst_registry \<Rightarrow> u64 set" where
  "input_paths reg = sst_path ` ran reg"

definition retire :: "sst_engine \<Rightarrow> sst_engine \<Rightarrow> sst_engine" where
  "retire s s1 = s1\<lparr>sst_registry := (\<lambda>i. if i \<in> dom (sst_registry s) then None else sst_registry s1 i),
     data_dir := (\<lambda>p. if p \<in> input_paths (sst_registry s) then None else data_dir s1 p)\<rparr>"

definition output_files ::
  "(bytes \<Rightarrow> u64) \<Rightarrow> zstd_lib \<Rightarrow> columnar_registration list \<Rightarrow> sst_image list \<Rightarrow> survivor_row list list list \<Rightarrow> bool" where
  "output_files h Z regs files groups \<longleftrightarrow>
     list_all2 (\<lambda>x grp. image_small x \<and> image_blocks h Z regs x (map (map survivor_entry) grp)) files groups"

lemma output_images:
  assumes "list_all2 (output_image h Z regs latest n) outs groups" and "n < 2 ^ 31" and "all_latest latest (concat (concat groups))"
  obtains files where "list_all2 (\<lambda>out x. out_bytes out = file_of x \<and> image_small x) outs files" "output_files h Z regs files groups"
    "targets_match latest outs groups" "length outs \<le> length (concat (concat groups))"
proof -
  have "\<exists>files. list_all2 (\<lambda>out x. out_bytes out = file_of x \<and> image_small x) outs files \<and> output_files h Z regs files groups
      \<and> list_all2 (\<lambda>out grp. out_targets out = group_targets latest grp) outs groups \<and> length outs \<le> length (concat (concat groups))"
    using assms(1)
  proof (induction rule: list_all2_induct)
    case Nil
    then show ?case by (simp add: output_files_def)
  next
    case (Cons out outs grp groups)
    obtain x where x: "out_bytes out = file_of x" "image_fits n x" "image_blocks h Z regs x (map (map survivor_entry) grp)"
      "out_targets out = group_targets latest grp" "[] \<notin> set grp" "grp \<noteq> []"
      using Cons.hyps(1) by (auto simp: output_image_def)
    have small: "image_small x" using image_fits_size [OF x(2) assms(2)] by (simp add: image_small_def)
    obtain c cs where "grp = c # cs" "c \<noteq> []" using x(5,6) by (cases grp) auto
    then have "1 \<le> length (concat grp)" by (cases c) simp_all
    moreover obtain files where "list_all2 (\<lambda>out x. out_bytes out = file_of x \<and> image_small x) outs files" "output_files h Z regs files groups"
      "list_all2 (\<lambda>out grp. out_targets out = group_targets latest grp) outs groups" "length outs \<le> length (concat (concat groups))"
      using Cons.IH by blast
    ultimately show ?case using x(1,3,4) small by (intro exI [of _ "x # files"]) (simp add: output_files_def)
  qed
  then show ?thesis using that assms(3) unfolding targets_match_def by blast
qed

lemma inputs_of_order:
  assumes "set order \<subseteq> dom reg"
  shows "concat (map (\<lambda>i. case reg i of None \<Rightarrow> [] | Some en \<Rightarrow> [(i, sst_path en)]) order) = map (\<lambda>i. (i, sst_path (the (reg i)))) order"
  using assms by (induction order) auto

lemma path_image: "set order = dom reg \<Longrightarrow> (\<lambda>i. sst_path (the (reg i))) ` set order = input_paths reg"
  by (force simp: input_paths_def ran_def dom_def image_def)

lemma compact_commits:
  assumes fr: "file_rows (xxh3_64 L) Z (columnar s) (data_dir s) (sst_registry s) R"
    and ok: "regs_ok (columnar s)" "zstd_ok Z" "\<forall>raw. encode_all Z raw \<noteq> None"
    and order: "set order = dom (sst_registry s)" "(if force then 1 else 2) \<le> length order"
    and rows: "rows = output_rows R order" "distinct (map fst rows)" "fst ` set rows \<subseteq> K" "length rows < 2 ^ 30"
      "run_fits (xxh3_64 L) Z (columnar s) rows" "all_latest latest rows" "latest = latest_ts (gc_all [] (merged (rows_in_order R order)))"
    and idx: "key_space K \<and> n + length rows \<le> 65001 \<and> art_ok K (n + length rows) (art_index (core s))"
    and sz: "unat (next_sst_id s) + length rows < 2 ^ 64" "unat (block_counter s) + length rows < 2 ^ 64"
  shows "\<exists>outs groups files s1 stats. concat (concat groups) = rows \<and> output_files (xxh3_64 L) Z (columnar s) files groups
    \<and> targets_match latest outs groups \<and> length outs \<le> length rows \<and> committed (dom (sst_registry s)) outs files s s1
    \<and> (key_space K \<and> n \<le> 65001 \<and> art_ok K n (art_index (core s1))) \<and> output_ssts stats = length outs
    \<and> compact_inner Z L concurrency [] (\<lambda>_. None) order force s = Some (Inr stats, retire s s1)"
proof -
  let ?h = "xxh3_64 L" and ?reg = "sst_registry s"
  let ?g = "gc_all [] (merged (rows_in_order R order))"
  have ri: "read_inputs ?h Z (data_dir s) (map (\<lambda>i. sst_path (the (?reg i))) order) [] = Some (Inr (merged (rows_in_order R order)))"
    using read_inputs_rows [OF fr ok(1,2), of order "[]"] order(1) by (simp add: merged_def)
  obtain outs groups where b: "build_outputs ?h Z concurrency (sst_size_bytes (se_config s)) (max_rows_per_block (se_config s))
      (columnar s) latest rows = Some (Inr outs)"
    "list_all2 (output_image ?h Z (columnar s) latest (length rows)) outs groups" "concat (concat groups) = rows"
    using build_outputs_ok [OF ok(1,3) rows(5,4), of concurrency "sst_size_bytes (se_config s)" "max_rows_per_block (se_config s)" latest] by blast
  have "all_latest latest (concat (concat groups))" using rows(6) b(3) by simp
  from output_images [OF b(2) _ this] rows(4) obtain files where
    f: "list_all2 (\<lambda>out x. out_bytes out = file_of x \<and> image_small x) outs files" "output_files ?h Z (columnar s) files groups"
    "targets_match latest outs groups" "length outs \<le> length rows" using b(3) by auto
  have keys: "map fst (all_targets outs) = map fst rows" using all_targets_keys [OF f(3)] b(3) by simp
  have at: "length (all_targets outs) = length rows" "fst ` set (all_targets outs) \<subseteq> K" "distinct (map fst (all_targets outs))"
    using rows(2,3) arg_cong [OF keys, of length] arg_cong [OF keys, of set] arg_cong [OF keys, of distinct] by simp_all
  have "\<exists>s1. commit_outputs (\<lambda>_. None) (dom ?reg) outs s = Some (Inr (), s1) \<and> committed (dom ?reg) outs files s s1
      \<and> (key_space K \<and> n \<le> 65001 \<and> art_ok K n (art_index (core s1)))"
    using idx sz f(4) at by (intro commit_outputs_ok [OF f(1)]) simp_all
  then obtain s1 where s1: "commit_outputs (\<lambda>_. None) (dom ?reg) outs s = Some (Inr (), s1)" "committed (dom ?reg) outs files s s1"
    "key_space K \<and> n \<le> 65001 \<and> art_ok K n (art_index (core s1))" by blast
  have ids: "fst ` set (map (\<lambda>i. (i, sst_path (the (?reg i)))) order) = dom ?reg"
    "snd ` set (map (\<lambda>i. (i, sst_path (the (?reg i)))) order) = input_paths ?reg"
    using path_image [OF order(1)] order(1) unfolding set_map image_image fst_conv snd_conv image_ident by (simp_all only: refl)
  have inp: "concat (map (\<lambda>i. case ?reg i of None \<Rightarrow> [] | Some en \<Rightarrow> [(i, sst_path en)]) order) = map (\<lambda>i. (i, sst_path (the (?reg i)))) order"
    by (rule inputs_of_order) (simp add: order(1))
  have snds: "map snd (map (\<lambda>i. (i, sst_path (the (?reg i)))) order) = map (\<lambda>i. sst_path (the (?reg i))) order" by simp
  have th: "\<not> length (map (\<lambda>i. (i, sst_path (the (?reg i)))) order) < (if force then 1 else 2)" using order(2) by simp
  define stats where "stats = \<lparr>input_ssts = length order, output_ssts = length outs, cs_keys_retained = keys_retained ?g,
     cs_versions_gc_dropped = versions_gc_dropped ?g\<rparr>"
  have bo: "build_outputs ?h Z concurrency (sst_size_bytes (se_config s)) (max_rows_per_block (se_config s))
      (columnar s) (latest_ts ?g) (sort_survivors (survivors ?g)) = Some (Inr outs)"
    using b(1) by (simp add: rows(1,7) output_rows_def)
  have pins: "remdups_adj (sort ([] :: u64 list)) = []" by simp
  have "compact_inner Z L concurrency [] (\<lambda>_. None) order force s = Some (Inr stats, retire s s1)"
    unfolding compact_inner_def inp Let_def ids snds ri pins
    using th by (simp add: bo s1(1) stats_def retire_def)
  moreover have "output_ssts stats = length outs" by (simp add: stats_def)
  ultimately show ?thesis using b(3) f(2-4) s1(2,3)
    by (intro exI [of _ outs] exI [of _ groups] exI [of _ files] exI [of _ s1] exI [of _ stats] conjI) simp_all
qed


section \<open>The store after a compaction\<close>

definition entry_groups :: "survivor_row list list list \<Rightarrow> row_entry list list list" where
  "entry_groups groups = map (map (map survivor_entry)) groups"

lemma concat_entry_groups: "concat (concat (entry_groups groups)) = map survivor_entry (concat (concat groups))"
  by (simp add: entry_groups_def map_concat)

lemma length_entry_groups [simp]: "length (entry_groups groups) = length groups"
  by (simp add: entry_groups_def)

definition compacted ::
  "zstd_lib \<Rightarrow> wal_lib \<Rightarrow> compaction_output list \<Rightarrow> survivor_row list list list \<Rightarrow> sst_image list \<Rightarrow> sst_engine \<Rightarrow> sst_engine \<Rightarrow> bool" where
  "compacted Z L outs groups files s s1 \<longleftrightarrow>
     output_files (xxh3_64 L) Z (columnar s) files groups \<and> committed (dom (sst_registry s)) outs files s s1
     \<and> length outs = length groups \<and> rows_fit (map survivor_entry (concat (concat groups)))
     \<and> unat (next_sst_id s) + length groups < 2 ^ 64 \<and> unat (block_counter s) + length groups < 2 ^ 64
     \<and> (\<forall>i en. sst_registry s i = Some en \<longrightarrow> i < next_sst_id s \<and> sst_path en < block_counter s)"

lemma compacted_registry:
  assumes c: "compacted Z L outs groups files s s1"
  shows "j < length groups \<Longrightarrow> sst_registry (retire s s1) (next_sst_id s + word_of_nat j)
      = Some (entry_of_image (block_counter s + word_of_nat j) (files ! j))"
    and "j < length groups \<Longrightarrow> data_dir (retire s s1) (block_counter s + word_of_nat j) = Some (file_of (files ! j))"
    and "sst_registry (retire s s1) i = Some en \<Longrightarrow>
      \<exists>j < length groups. i = next_sst_id s + word_of_nat j \<and> sst_path en = block_counter s + word_of_nat j"
    and "i < next_sst_id s \<Longrightarrow> sst_registry (retire s s1) i = None"
proof -
  let ?base = "next_sst_id s" and ?bc = "block_counter s"
  have len: "length outs = length groups" and o: "committed (dom (sst_registry s)) outs files s s1" using c by (simp_all add: compacted_def)
  have reg: "registered ?base (map (\<lambda>j. ?bc + word_of_nat j) [0..<length groups]) files (sst_registry s) (sst_registry s1)"
    and dir: "\<forall>j < length groups. data_dir s1 (?bc + word_of_nat j) = Some (file_of (files ! j))"
    and old: "\<forall>i en. sst_registry s i = Some en \<longrightarrow> i < ?base \<and> sst_path en < ?bc"
    using o [unfolded committed_def len] c [unfolded compacted_def] by blast+
  have ge: "\<not> ?base + word_of_nat j < ?base" "\<not> ?bc + word_of_nat j < ?bc" if "j < length groups" for j
    using that c unat_plus_nat [of ?base j] unat_plus_nat [of ?bc j] by (simp_all add: compacted_def word_less_nat_alt)
  have new: "?base + word_of_nat j \<notin> dom (sst_registry s)" "?bc + word_of_nat j \<notin> input_paths (sst_registry s)" if "j < length groups" for j
    using ge [OF that] old by (auto simp: input_paths_def ran_def)
  show "sst_registry (retire s s1) (?base + word_of_nat j) = Some (entry_of_image (?bc + word_of_nat j) (files ! j))"
    if "j < length groups" using that new(1) reg by (simp add: retire_def registered_def)
  show "data_dir (retire s s1) (?bc + word_of_nat j) = Some (file_of (files ! j))"
    if "j < length groups" using that new(2) dir by (simp add: retire_def)
  show "\<exists>j < length groups. i = ?base + word_of_nat j \<and> sst_path en = ?bc + word_of_nat j" if e: "sst_registry (retire s s1) i = Some en"
  proof -
    have i: "i \<notin> dom (sst_registry s)" "sst_registry s1 i = Some en" using e by (auto simp: retire_def split: if_splits)
    let ?ps = "map (\<lambda>j. ?bc + word_of_nat j) [0..<length groups]"
    have "sst_registry s i = Some en \<or> (\<exists>j < length ?ps. i = ?base + word_of_nat j \<and> sst_path en = ?ps ! j)"
      using reg i(2) unfolding registered_def by blast
    then show ?thesis using i(1) by auto
  qed
  show "sst_registry (retire s s1) i = None" if "i < ?base"
    using that reg by (auto simp: retire_def registered_def)
qed

lemma compacted_chunks:
  assumes "compacted Z L outs groups files s s1" and "j < length groups"
  shows "image_small (files ! j)" "image_blocks (xxh3_64 L) Z (columnar s) (files ! j) (entry_groups groups ! j)"
    "c \<in> set (entry_groups groups ! j) \<Longrightarrow> rows_fit c"
proof -
  have of: "output_files (xxh3_64 L) Z (columnar s) files groups" and rf: "rows_fit (map survivor_entry (concat (concat groups)))"
    using assms(1) by (simp_all add: compacted_def)
  show "image_small (files ! j)" "image_blocks (xxh3_64 L) Z (columnar s) (files ! j) (entry_groups groups ! j)"
    using of assms(2) by (auto simp: output_files_def list_all2_conv_all_nth entry_groups_def)
  assume "c \<in> set (entry_groups groups ! j)"
  then have "c \<in> set (concat (entry_groups groups))" using assms(2) by auto
  then obtain xs ys where "concat (entry_groups groups) = xs @ c # ys" by (meson split_list)
  then have "map survivor_entry (concat (concat groups)) = concat xs @ c @ concat ys" by (simp flip: concat_entry_groups)
  then show "rows_fit c" using rf by (auto simp: rows_fit_def)
qed

lemma compacted_file_rows:
  assumes c: "compacted Z L outs groups files s s1"
  shows "file_rows (xxh3_64 L) Z (columnar s) (data_dir (retire s s1)) (sst_registry (retire s s1)) (group_rows (next_sst_id s) (entry_groups groups))"
    and "all_rows (group_rows (next_sst_id s) (entry_groups groups)) = survivor_entry ` set (concat (concat groups))"
proof -
  let ?base = "next_sst_id s" and ?s = "retire s s1" and ?R = "group_rows (next_sst_id s) (entry_groups groups)"
  note cr = compacted_registry [OF c] and cc = compacted_chunks [OF c]
  have sz: "unat ?base + length (entry_groups groups) < 2 ^ 64" using c by (simp add: compacted_def)
  have row: "?R (?base + word_of_nat j) = Some (concat (entry_groups groups ! j))" if "j < length groups" for j
    using group_rows_nth [OF _ sz] that by simp
  have "dom ?R = dom (sst_registry ?s)"
  proof (intro equalityI subsetI)
    fix i assume "i \<in> dom ?R"
    then obtain j where "j < length groups" "i = ?base + word_of_nat j" using group_rows_Some [of ?base "entry_groups groups" i] by fastforce
    then show "i \<in> dom (sst_registry ?s)" using cr(1) by blast
  next
    fix i assume "i \<in> dom (sst_registry ?s)"
    then obtain j where "j < length groups" "i = ?base + word_of_nat j" using cr(3) [of i] by blast
    then show "i \<in> dom ?R" using row by blast
  qed
  moreover have "\<exists>x cs. data_dir ?s (sst_path en) = Some (file_of x) \<and> block_index en = snd x \<and> image_small x
      \<and> image_blocks (xxh3_64 L) Z (columnar s) x cs \<and> (\<forall>c \<in> set cs. rows_fit c) \<and> ?R i = Some (concat cs)"
    if en: "sst_registry ?s i = Some en" for i en
  proof -
    obtain j where j: "j < length groups" "i = ?base + word_of_nat j" using cr(3) [OF en] by blast
    have "en = entry_of_image (block_counter s + word_of_nat j) (files ! j)" using cr(1) [OF j(1)] en j(2) by simp
    then show ?thesis
      using cr(2) [OF j(1)] cc [OF j(1)] row [OF j(1)] j(2)
      by (intro exI [of _ "files ! j"] exI [of _ "entry_groups groups ! j"]) (simp add: entry_of_image_def)
  qed
  ultimately show "file_rows (xxh3_64 L) Z (columnar s) (data_dir ?s) (sst_registry ?s) ?R" unfolding file_rows_def by blast
  show "all_rows ?R = survivor_entry ` set (concat (concat groups))"
    using all_rows_flush [OF _ sz, of Map.empty] by (simp add: concat_entry_groups all_rows_def)
qed

text \<open>Reading a relocated key.\<close>

lemma compacted_read:
  assumes c: "compacted Z L outs groups files s s1" and ok: "regs_ok (columnar s)" "zstd_ok Z"
    and tm: "targets_match latest outs groups" and t: "out_target (next_sst_id s) outs k = Some loc"
    and d: "distinct (map fst (concat (concat groups)))" and row: "(k, ts, Some v) \<in> set (concat (concat groups))"
  shows "\<exists>a b r. loc = SstLoc a b r \<and> (\<exists>en. sst_registry (retire s s1) a = Some en)
    \<and> read_value (xxh3_64 L) Z (data_dir (retire s s1)) (sst_registry (retire s s1)) a b r = Some (Some v)"
proof -
  obtain j b r where j: "j < length groups" "b < length (groups ! j)" "r < length (groups ! j ! b)" "k = fst (groups ! j ! b ! r)"
    "loc = SstLoc (next_sst_id s + word_of_nat j) (ucast (word_of_nat b :: u32)) (word_of_nat r)"
    using out_target_sound [OF tm t] by blast
  note cr = compacted_registry [OF c] and cc = compacted_chunks [OF c j(1)]
  let ?cs = "entry_groups groups ! j"
  have "groups ! j ! b ! r \<in> set (concat (concat groups))"
    unfolding set_concat using nth_mem [OF j(1)] nth_mem [OF j(2)] nth_mem [OF j(3)] by blast
  then have "(k, snd (groups ! j ! b ! r)) \<in> set (concat (concat groups))" using j(4) by simp
  then have "snd (groups ! j ! b ! r) = (ts, Some v)" using eq_key_imp_eq_value [OF d row] by metis
  then have v: "row_value (?cs ! b ! r) = v" using j(1-3) by (simp add: entry_groups_def row_value_def)
  have b: "b < length ?cs" "r < length (?cs ! b)" using j(1-3) by (simp_all add: entry_groups_def)
  have "length ?cs < 2 ^ 32" using cc(1,2) by (simp add: image_small_def image_blocks_def)
  then have "read_value (xxh3_64 L) Z (data_dir (retire s s1)) (sst_registry (retire s s1)) (next_sst_id s + word_of_nat j)
      (ucast (word_of_nat b :: u32)) (word_of_nat r) = Some (Some v)"
    using read_value_image [where reg = "sst_registry (retire s s1)" and d = "data_dir (retire s s1)", OF cc(2) b(1) _ b(2) ok(1) cc(3) [OF nth_mem [OF b(1)]]
      ok(2) cr(1) [OF j(1)] cr(2) [OF j(1)]] v by simp
  then show ?thesis using cr(1) [OF j(1)] j(5) by blast
qed


lemma compacted_key_rel:
  assumes rel: "scan_rel Z L K V n s m R" and ok: "regs_ok (columnar s)" "zstd_ok Z" and V: "[] \<notin> V" and order: "set order = dom (sst_registry s)"
    and c: "compacted Z L outs groups files s s1" and tm: "targets_match latest outs groups"
    and rows: "concat (concat groups) = output_rows R order" "distinct (map fst (output_rows R order))"
  shows "key_rel Z L (data_dir (retire s s1)) (sst_registry (retire s s1))
      (relocated (dom (sst_registry s)) (out_target (next_sst_id s) outs k) (art_lookup (art_index (core s)) k))
      (mm_get (xxh3_64 L) (memtable_mgr (core s)) k) (purge m k)"
proof -
  note sr = scan_relD [OF rel] and r = store_relD [OF scan_relD(1) [OF rel]]
  let ?h = "xxh3_64 L" and ?t = "art_index (core s)" and ?ids = "dom (sst_registry s)" and ?s = "retire s s1"
  let ?mem = "mm_get ?h (memtable_mgr (core s)) k"
  have kr: "key_rel Z L (data_dir s) (sst_registry s) (art_lookup ?t k) ?mem (m k)" by (rule r(9))
  show ?thesis
  proof (cases "art_lookup ?t k")
    case None
    then show ?thesis using kr by (auto simp: key_rel_def relocated_def purge_def)
  next
    case (Some loc)
    show ?thesis
    proof (cases loc)
      case (MemtableLoc x y)
      then show ?thesis using Some kr by (auto simp: key_rel_def relocated_def purge_def)
    next
      case (SstLoc a b i)
      have mem: "?mem = None" using kr Some SstLoc by (simp add: key_rel_def)
      have gone: "sst_registry ?s a = None" using compacted_registry(4) [OF c] r(10) [of k a b i] Some SstLoc by blast
      have "newest_rel (set (rows_in_order R order)) k (m k)" using sr(6) [OF mem] scanned_rows [OF rel] order by simp
      moreover have "\<forall>e \<in> set (rows_in_order R order). vvalue (snd e) \<noteq> Some []"
        using sr(4) scanned_rows [OF rel] order V by (metis order_refl)
      ultimately have cells: "(\<exists>ts v. (k, ts, Some v) \<in> set (output_rows R order) \<and> m k = Some (Live v))
          \<or> k \<notin> fst ` set (output_rows R order) \<and> (m k = None \<or> m k = Some Buried \<or> m k = Some Purged)"
        using survivor_cells by (simp add: output_rows_def sort_survivors_facts)
      have keys: "fst ` set (all_targets outs) = fst ` set (output_rows R order)"
        using arg_cong [OF all_targets_keys [OF tm], of set] rows(1) by simp
      from cells show ?thesis
      proof (elim disjE exE conjE)
        fix ts v assume live: "(k, ts, Some v) \<in> set (output_rows R order)" "m k = Some (Live v)"
        then have "k \<in> fst ` set (all_targets outs)" unfolding keys by force
        then obtain loc' where t: "out_target (next_sst_id s) outs k = Some loc'" using out_target_total by blast
        have "a \<in> ?ids" using kr Some SstLoc live(2) by (auto simp: key_rel_def)
        then have lk: "relocated ?ids (out_target (next_sst_id s) outs k) (art_lookup ?t k) = Some loc'"
          using t Some SstLoc by (simp add: relocated_def)
        obtain a' b' i' where l: "loc' = SstLoc a' b' i'" "\<exists>en. sst_registry ?s a' = Some en"
          "read_value ?h Z (data_dir ?s) (sst_registry ?s) a' b' i' = Some (Some v)"
          using compacted_read [OF c ok tm t, unfolded rows(1), OF rows(2) live(1)] by blast
        show ?thesis unfolding lk mem using l live(2) by (simp add: key_rel_def purge_def)
      next
        assume no: "k \<notin> fst ` set (output_rows R order)" and none: "m k = None"
        then show ?thesis using kr Some SstLoc by (simp add: key_rel_def)
      next
        assume "k \<notin> fst ` set (output_rows R order)" and "m k = Some Buried"
        then show ?thesis using Some SstLoc mem gone out_target_absent [of k outs] keys by (simp add: key_rel_def relocated_def purge_def)
      next
        assume "k \<notin> fst ` set (output_rows R order)" and "m k = Some Purged"
        then show ?thesis using Some SstLoc mem gone out_target_absent [of k outs] keys by (simp add: key_rel_def relocated_def purge_def)
      qed
    qed
  qed
qed

lemma compacted_newest:
  assumes rel: "scan_rel Z L K V n s m R" and V: "[] \<notin> V" and order: "set order = dom (sst_registry s)"
    and d: "distinct (map fst (output_rows R order))" and mem: "mm_get (xxh3_64 L) (memtable_mgr (core s)) k = None"
  shows "newest_rel (survivor_entry ` set (output_rows R order)) k (purge m k)"
proof -
  note sr = scan_relD [OF rel]
  have "newest_rel (set (rows_in_order R order)) k (m k)" using sr(6) [OF mem] scanned_rows [OF rel] order by simp
  moreover have "\<forall>e \<in> set (rows_in_order R order). vvalue (snd e) \<noteq> Some []"
    using sr(4) scanned_rows [OF rel] order V by (metis order_refl)
  ultimately have "(\<exists>ts v. (k, ts, Some v) \<in> set (output_rows R order) \<and> m k = Some (Live v))
      \<or> k \<notin> fst ` set (output_rows R order) \<and> (m k = None \<or> m k = Some Buried \<or> m k = Some Purged)"
    using survivor_cells by (simp add: output_rows_def sort_survivors_facts)
  then show ?thesis
  proof (elim disjE exE conjE)
    fix ts v assume live: "(k, ts, Some v) \<in> set (output_rows R order)" "m k = Some (Live v)"
    have "row = (k, ts, Some v)" if "row \<in> set (output_rows R order)" "fst row = k" for row
      using that eq_key_imp_eq_value [OF d live(1), of "snd row"] by (cases row) auto
    then have "\<forall>e' \<in> survivor_entry ` set (output_rows R order). fst e' = k \<longrightarrow> e' = survivor_entry (k, ts, Some v)" by auto
    moreover have "survivor_entry (k, ts, Some v) \<in> survivor_entry ` set (output_rows R order)" using live(1) by blast
    ultimately show ?thesis
      unfolding newest_rel_def using live(2)
      by (intro disjI2 bexI [of _ "survivor_entry (k, ts, Some v)"]) (simp_all add: purge_def)
  qed (auto simp: newest_rel_def purge_def)
qed

lemma compacted_core:
  assumes c: "compacted Z L outs groups files s s1"
  shows "\<exists>t'. core (retire s s1) = (core s)\<lparr>art_index := t'\<rparr>
      \<and> (\<forall>k. art_lookup t' k = relocated (dom (sst_registry s)) (out_target (next_sst_id s) outs k) (art_lookup (art_index (core s)) k))"
    and "unat (next_sst_id (retire s s1)) = unat (next_sst_id s) + length groups"
    and "unat (block_counter (retire s s1)) = unat (block_counter s) + length groups"
    and "columnar (retire s s1) = columnar s" and "bg_worker_active (retire s s1) = bg_worker_active s"
    and "block_counter (retire s s1) \<le> p \<Longrightarrow> data_dir s p = None \<Longrightarrow> data_dir (retire s s1) p = None"
proof -
  have o: "committed (dom (sst_registry s)) outs files s s1" and len: "length outs = length groups"
    and sz: "unat (next_sst_id s) + length groups < 2 ^ 64" "unat (block_counter s) + length groups < 2 ^ 64"
    using c by (simp_all add: compacted_def)
  show "\<exists>t'. core (retire s s1) = (core s)\<lparr>art_index := t'\<rparr>
      \<and> (\<forall>k. art_lookup t' k = relocated (dom (sst_registry s)) (out_target (next_sst_id s) outs k) (art_lookup (art_index (core s)) k))"
    using o by (simp add: committed_def retire_def)
  show "unat (next_sst_id (retire s s1)) = unat (next_sst_id s) + length groups"
    "unat (block_counter (retire s s1)) = unat (block_counter s) + length groups"
    using o len sz by (simp_all add: committed_def retire_def unat_plus_nat)
  show "columnar (retire s s1) = columnar s" "bg_worker_active (retire s s1) = bg_worker_active s"
    using o by (simp_all add: committed_def retire_def)
  show "data_dir (retire s s1) p = None" if "block_counter (retire s s1) \<le> p" "data_dir s p = None"
    using that o by (simp add: committed_def retire_def)
qed

text \<open>An index entry for an SST leads to a known file id.\<close>

lemma compacted_index:
  assumes rel: "scan_rel Z L K V n s m R" and c: "compacted Z L outs groups files s s1" and tm: "targets_match latest outs groups"
    and keys: "fst ` set (concat (concat groups)) \<subseteq> K"
    and l: "relocated (dom (sst_registry s)) (out_target (next_sst_id s) outs k) (art_lookup (art_index (core s)) k) = Some (SstLoc a b i)"
  shows "k \<in> K \<and> a < next_sst_id (retire s s1)"
proof (cases "art_lookup (art_index (core s)) k = Some (SstLoc a b i)")
  case True
  then have "k \<in> K" "a < next_sst_id s" using store_relD(10) [OF scan_relD(1) [OF rel]] by blast+
  then show ?thesis using compacted_core(2) [OF c] by (simp add: word_less_nat_alt)
next
  case False
  then have "out_target (next_sst_id s) outs k = Some (SstLoc a b i)" using l by (auto simp: relocated_def split: if_splits)
  from out_target_sound [OF tm this] obtain j b' r' where
    j: "j < length groups" "b' < length (groups ! j)" "r' < length (groups ! j ! b')" "k = fst (groups ! j ! b' ! r')"
    "a = next_sst_id s + word_of_nat j" by blast
  have "groups ! j ! b' ! r' \<in> set (concat (concat groups))"
    unfolding set_concat using nth_mem [OF j(1)] nth_mem [OF j(2)] nth_mem [OF j(3)] by blast
  then have "k \<in> K" using keys j(4) by blast
  moreover have "unat a = unat (next_sst_id s) + j" unfolding j(5) using j(1) c by (simp add: unat_plus_nat compacted_def)
  ultimately show ?thesis using compacted_core(2) [OF c] j(1) by (simp add: word_less_nat_alt)
qed

lemma compacted_store_rel:
  assumes rel: "scan_rel Z L K V (n + card K) s m R" and ok: "regs_ok (columnar s)" "zstd_ok Z" and V: "[] \<notin> V"
    and order: "set order = dom (sst_registry s)"
    and c: "compacted Z L outs groups files s s1" and tm: "targets_match latest outs groups"
    and rows: "concat (concat groups) = output_rows R order" "distinct (map fst (output_rows R order))" "fst ` set (output_rows R order) \<subseteq> K"
    and idx: "key_space K \<and> n \<le> 65001 \<and> art_ok K n (art_index (core s1))" and le: "length groups \<le> card K"
  shows "store_rel Z L K V n (retire s s1) (purge m)"
proof -
  note r = store_relD [OF scan_relD(1) [OF rel]] and u = compacted_core(2,3) [OF c]
  let ?s = "retire s s1" and ?h = "xxh3_64 L"
  obtain t' where t': "core ?s = (core s)\<lparr>art_index := t'\<rparr>"
    "\<forall>k. art_lookup t' k = relocated (dom (sst_registry s)) (out_target (next_sst_id s) outs k) (art_lookup (art_index (core s)) k)"
    using compacted_core(1) [OF c] by blast
  have core: "core s1 = core ?s" by (simp add: retire_def)
  show ?thesis
    unfolding store_rel_def
  proof (intro conjI allI impI)
    show "unat (block_counter ?s) + 2 * n \<le> 200000" "unat (next_sst_id ?s) + n \<le> 200000" using u le r(4,5) by simp_all
    show "data_dir ?s p = None" if p: "block_counter ?s \<le> p" for p
    proof (rule compacted_core(6) [OF c p])
      have "block_counter s \<le> p" using p u(2) by (simp add: word_le_nat_alt)
      then show "data_dir s p = None" using r(6) by blast
    qed
    show "i < next_sst_id ?s" "sst_path en < block_counter ?s" if en: "sst_registry ?s i = Some en" for i en
    proof -
      obtain j where j: "j < length groups" "i = next_sst_id s + word_of_nat j" "sst_path en = block_counter s + word_of_nat j"
        using compacted_registry(3) [OF c en] by blast
      have "unat i = unat (next_sst_id s) + j" "unat (sst_path en) = unat (block_counter s) + j"
        unfolding j(2,3) using j(1) c by (simp_all add: unat_plus_nat compacted_def)
      then show "i < next_sst_id ?s" "sst_path en < block_counter ?s" using u j(1) by (simp_all add: word_less_nat_alt)
    qed
    show "key_rel Z L (data_dir ?s) (sst_registry ?s) (art_lookup (art_index (core ?s)) k) (mm_get ?h (memtable_mgr (core ?s)) k) (purge m k)" for k
      using compacted_key_rel [OF rel ok V order c tm rows(1,2), of k] t' by simp
    fix k a b i assume "art_lookup (art_index (core ?s)) k = Some (SstLoc a b i)"
    then show "k \<in> K" "a < next_sst_id ?s" using compacted_index [OF rel c tm, of k a b i] rows(1,3) t' by simp_all
  qed (use r(1,2,3,8) t'(1) idx core in auto)
qed

lemma compacted_scan_rel:
  assumes rel: "scan_rel Z L K V (n + card K) s m R" and V: "[] \<notin> V" and order: "set order = dom (sst_registry s)"
    and c: "compacted Z L outs groups files s s1"
    and rows: "concat (concat groups) = output_rows R order" "distinct (map fst (output_rows R order))"
    and st: "store_rel Z L K V n (retire s s1) (purge m)"
  shows "scan_rel Z L K V n (retire s s1) (purge m) (group_rows (next_sst_id s) (entry_groups groups))"
proof -
  note sr = scan_relD [OF rel] and cf = compacted_file_rows [OF c, unfolded rows(1)]
  let ?s = "retire s s1" and ?h = "xxh3_64 L" and ?rows = "output_rows R order"
  obtain t' where "core ?s = (core s)\<lparr>art_index := t'\<rparr>" using compacted_core(1) [OF c] by blast
  then have same: "memtable_mgr (core ?s) = memtable_mgr (core s)" "next_timestamp (core ?s) = next_timestamp (core s)" by simp_all
  have row: "\<exists>e' \<in> all_rows R. timestamp (snd e) = timestamp (snd e')" "fst e \<in> K" "vvalue (snd e) = Some v \<Longrightarrow> v \<in> V"
    if mem: "e \<in> survivor_entry ` set ?rows" for e v
  proof -
    obtain k ts w where e: "e = survivor_entry (k, ts, w)" "(k, ts, w) \<in> set ?rows" using mem by auto
    note orw = output_row [OF rel order e(2)]
    show "\<exists>e' \<in> all_rows R. timestamp (snd e) = timestamp (snd e')" "fst e \<in> K" "vvalue (snd e) = Some v \<Longrightarrow> v \<in> V"
      using orw(1-3) by (auto simp: e(1))
  qed
  show ?thesis
    unfolding scan_rel_def cf(2) same compacted_core(4) [OF c]
  proof (intro conjI allI impI ballI)
    fix e assume e: "e \<in> survivor_entry ` set ?rows"
    show "fst e \<in> K" "timestamp (snd e) < next_timestamp (core s)" "vvalue (snd e) = Some v \<Longrightarrow> v \<in> V" for v
      using row [OF e] sr(4) by (blast, metis, blast)
  next
    fix k vv e assume l: "mt_lookup ?h (active (memtable_mgr (core s))) k = Some vv" and e: "e \<in> survivor_entry ` set ?rows"
    show "timestamp (snd e) < timestamp vv" using row(1) [OF e] sr(5) [OF l] by metis
  qed (use st cf(1) sr(3,5) compacted_newest [OF rel V order rows(2)] in auto)
qed

lemma compact_inner_rel:
  assumes rel: "scan_rel Z L K V (n + card K) s m R" and env: "store_env Z L (columnar s) K V" and V: "[] \<notin> V"
    and order: "set order = dom (sst_registry s)" "(if force then 1 else 2) \<le> length order"
  shows "\<exists>stats s' R'. compact_inner Z L concurrency [] (\<lambda>_. None) order force s = Some (Inr stats, s') \<and> scan_rel Z L K V n s' (purge m) R'
    \<and> columnar s' = columnar s \<and> bg_worker_active s' = bg_worker_active s"
proof -
  note sr = scan_relD [OF rel] and r = store_relD [OF scan_relD(1) [OF rel]]
  let ?rows = "output_rows R order"
  have ok: "regs_ok (columnar s)" "zstd_ok Z" "\<forall>raw. encode_all Z raw \<noteq> None" using env by (simp_all add: store_env_def)
  have cK: "card K \<le> 65001" using r(3) by simp
  note orf = output_rows_facts [OF rel env cK order(1)]
  have "art_ok K (n + length ?rows) (art_index (core s))" using r(3) orf(3) art_ok_mono by (meson add_left_mono)
  then have idx: "key_space K \<and> n + length ?rows \<le> 65001 \<and> art_ok K (n + length ?rows) (art_index (core s))" using r(3) orf(3) by simp
  have sz: "length ?rows < 2 ^ 30" "unat (next_sst_id s) + length ?rows < 2 ^ 64" "unat (block_counter s) + length ?rows < 2 ^ 64"
    using orf(3) cK r(4,5) by simp_all
  obtain outs groups files s1 stats where o: "concat (concat groups) = ?rows" "output_files (xxh3_64 L) Z (columnar s) files groups"
    "targets_match (latest_ts (gc_all [] (merged (rows_in_order R order)))) outs groups" "length outs \<le> length ?rows"
    "committed (dom (sst_registry s)) outs files s s1" "key_space K \<and> n \<le> 65001 \<and> art_ok K n (art_index (core s1))"
    "compact_inner Z L concurrency [] (\<lambda>_. None) order force s = Some (Inr stats, retire s s1)"
    using compact_commits [OF sr(2) ok order refl orf(1,2) sz(1) orf(5,6) refl idx sz(2,3), of concurrency] by blast
  have len: "length outs = length groups" using o(3) unfolding targets_match_def by (blast dest: list_all2_lengthD)
  have c: "compacted Z L outs groups files s s1"
    using o(1,2,4,5) len orf(4) sz(2,3) r(7) by (simp add: compacted_def)
  have "length groups \<le> card K" using o(4) len orf(3) by simp
  then have "store_rel Z L K V n (retire s s1) (purge m)"
    by (rule compacted_store_rel [OF rel ok(1,2) V order(1) c o(3,1) orf(1,2) o(6)])
  from compacted_scan_rel [OF rel V order(1) c o(1) orf(1) this] show ?thesis
    using o(7) compacted_core(4,5) [OF c] by blast
qed


section \<open>Runs with compactions\<close>

text \<open>A step of the store: a write or flush, an explicit compaction, forced or not, or a round of
  the background worker. \<open>iter\<close> is the order in which the hash map of the registry yields its
  keys.\<close>

datatype engine_op = Write store_op | Compact bool | Background

definition done_step :: "((galax_error + 'a) \<times> sst_engine) option \<Rightarrow> sst_engine option" where
  "done_step r = (case r of Some (Inr _, s) \<Rightarrow> Some s | _ \<Rightarrow> None)"

fun engine_step ::
  "zstd_lib \<Rightarrow> wal_lib \<Rightarrow> nat \<Rightarrow> nat \<Rightarrow> (sst_registry \<Rightarrow> u64 list) \<Rightarrow> engine_op \<Rightarrow> sst_engine \<Rightarrow> sst_engine option" where
  "engine_step Z L trigger concurrency iter (Write p) s = store_step Z L id p s"
| "engine_step Z L trigger concurrency iter (Compact force) s =
     done_step ((if force then force_compact else compact) Z L concurrency [] (\<lambda>_. None) (iter (sst_registry s)) s)"
| "engine_step Z L trigger concurrency iter Background s =
     done_step (maybe_compact Z L trigger concurrency [] (\<lambda>_. None) (iter (sst_registry s)) s)"

fun engine_run ::
  "zstd_lib \<Rightarrow> wal_lib \<Rightarrow> nat \<Rightarrow> nat \<Rightarrow> (sst_registry \<Rightarrow> u64 list) \<Rightarrow> engine_op list \<Rightarrow> sst_engine \<Rightarrow> sst_engine option" where
  "engine_run Z L trigger concurrency iter [] s = Some s"
| "engine_run Z L trigger concurrency iter (p # ps) s =
     Option.bind (engine_step Z L trigger concurrency iter p s) (engine_run Z L trigger concurrency iter ps)"

text \<open>What a run means for the cells: a forced compaction purges the buried ones, another one may.\<close>

inductive cell_run :: "engine_op list \<Rightarrow> (bytes \<rightharpoonup> cell) \<Rightarrow> (bytes \<rightharpoonup> cell) \<Rightarrow> bool" where
  nil: "cell_run [] m m"
| wr: "cell_run ps (cell_step p m) m' \<Longrightarrow> cell_run (Write p # ps) m m'"
| purges: "p = Compact f \<or> p = Background \<Longrightarrow> cell_run ps (purge m) m' \<Longrightarrow> cell_run (p # ps) m m'"
| skips: "p = Compact False \<or> p = Background \<Longrightarrow> cell_run ps m m' \<Longrightarrow> cell_run (p # ps) m m'"

fun op_keys :: "engine_op \<Rightarrow> bytes set" where
  "op_keys (Write p) = store_keys p" | "op_keys (Compact _) = {}" | "op_keys Background = {}"

fun op_values :: "engine_op \<Rightarrow> bytes set" where
  "op_values (Write p) = store_values p" | "op_values (Compact _) = {}" | "op_values Background = {}"

lemma purge_no_files:
  assumes "store_rel Z L K V n s m" and "sst_registry s = Map.empty"
  shows "purge m = m"
proof
  fix k
  show "purge m k = m k"
    using store_relD(9) [OF assms(1), of k] assms(2)
    by (auto simp: purge_def key_rel_def split: option.splits row_location.splits cell.splits)
qed

text \<open>Every compaction entry point succeeds and either purges or leaves the store alone.\<close>

lemma compact_inner_step:
  assumes rel: "scan_rel Z L K V (n + card K) s m R" and env: "store_env Z L (columnar s) K V" and V: "[] \<notin> V"
    and order: "set order = dom (sst_registry s)"
  shows "\<exists>stats s' m' R'. compact_inner Z L concurrency [] (\<lambda>_. None) order force s = Some (Inr stats, s')
    \<and> scan_rel Z L K V n s' m' R' \<and> (m' = purge m \<or> \<not> force \<and> m' = m)
    \<and> columnar s' = columnar s \<and> bg_worker_active s' = bg_worker_active s"
proof (cases "(if force then 1 else 2) \<le> length order")
  case True
  show ?thesis using compact_inner_rel [OF rel env V order True, of concurrency] by blast
next
  case False
  have inp: "concat (map (\<lambda>i. case sst_registry s i of None \<Rightarrow> [] | Some en \<Rightarrow> [(i, sst_path en)]) order)
      = map (\<lambda>i. (i, sst_path (the (sst_registry s i)))) order"
    by (rule inputs_of_order) (simp add: order)
  have "\<exists>stats. compact_inner Z L concurrency [] (\<lambda>_. None) order force s = Some (Inr stats, s)"
    unfolding compact_inner_def inp Let_def using False by simp
  moreover have "purge m = m" if "force"
  proof (rule purge_no_files [OF scan_relD(1) [OF rel]])
    have "order = []" using False that by (cases order) simp_all
    then show "sst_registry s = Map.empty" using order by (metis dom_eq_empty_conv list.set(1))
  qed
  ultimately show ?thesis using scan_rel_mono [OF rel, of n] by (cases force) auto
qed

lemma engine_step_rel:
  assumes iter: "\<forall>reg. set (iter reg) = dom reg" and env: "store_env Z L (columnar s) K V" and V: "[] \<notin> V" and bg: "bg_worker_active s"
    and rel: "scan_rel Z L K V (n + Suc (card K)) s m R" and op: "op_keys p \<subseteq> K" "op_values p \<subseteq> V"
  shows "\<exists>s' m' R'. engine_step Z L trigger concurrency iter p s = Some s' \<and> scan_rel Z L K V n s' m' R'
    \<and> columnar s' = columnar s \<and> bg_worker_active s'
    \<and> (\<forall>ps m''. cell_run ps m' m'' \<longrightarrow> cell_run (p # ps) m m'')"
proof -
  have rel': "scan_rel Z L K V (n + card K) s m R" using scan_rel_mono [OF rel] by simp
  note ci = compact_inner_step [OF rel' env V, of "iter (sst_registry s)" concurrency]
  show ?thesis
  proof (cases p)
    case (Write q)
    obtain s' R' where "store_step Z L id q s = Some s'" "scan_rel Z L K V n s' (cell_step q m) R'" "columnar s' = columnar s" "bg_worker_active s'"
      using scan_step_rel [OF env bg rel, of q id] op by (auto simp: Write)
    then show ?thesis using Write cell_run.wr by auto
  next
    case (Compact force)
    obtain stats s' m' R' where c: "compact_inner Z L concurrency [] (\<lambda>_. None) (iter (sst_registry s)) force s = Some (Inr stats, s')"
      "scan_rel Z L K V n s' m' R'" "m' = purge m \<or> \<not> force \<and> m' = m" "columnar s' = columnar s" "bg_worker_active s' = bg_worker_active s"
      using ci [of force] iter by blast
    have "engine_step Z L trigger concurrency iter p s = Some s'"
      using c(1) by (cases force) (simp_all add: Compact done_step_def force_compact_def compact_def)
    moreover have "cell_run (p # ps) m m''" if "cell_run ps m' m''" for ps m''
      using c(3) that cell_run.purges [of p _ ps m m''] cell_run.skips [of p ps m m''] by (auto simp: Compact)
    ultimately show ?thesis using c bg by auto
  next
    case Background
    obtain stats s' m' R' where c: "compact_inner Z L concurrency [] (\<lambda>_. None) (iter (sst_registry s)) False s = Some (Inr stats, s')"
      "scan_rel Z L K V n s' m' R'" "m' = purge m \<or> m' = m" "columnar s' = columnar s" "bg_worker_active s' = bg_worker_active s"
      using ci [of False] iter by blast
    have run: "cell_run (p # ps) m m''" if "cell_run ps (purge m) m'' \<or> cell_run ps m m''" for ps m''
      using that cell_run.purges [of p _ ps m m''] cell_run.skips [of p ps m m''] by (auto simp: Background)
    show ?thesis
    proof (cases "sst_count (iter (sst_registry s)) s < trigger")
      case True
      then have "engine_step Z L trigger concurrency iter p s = Some s" by (simp add: Background maybe_compact_def done_step_def)
      then show ?thesis using scan_rel_mono [OF rel', of n] bg run by auto
    next
      case False
      then have "engine_step Z L trigger concurrency iter p s = Some s'" using c(1) by (simp add: Background maybe_compact_def done_step_def)
      then show ?thesis using c bg run by auto
    qed
  qed
qed

lemma engine_run_rel:
  "\<forall>reg. set (iter reg) = dom reg \<Longrightarrow> store_env Z L (columnar s) K V \<Longrightarrow> [] \<notin> V \<Longrightarrow> bg_worker_active s \<Longrightarrow>
     scan_rel Z L K V (n + length ps * Suc (card K)) s m R \<Longrightarrow> \<forall>p \<in> set ps. op_keys p \<subseteq> K \<and> op_values p \<subseteq> V \<Longrightarrow>
     \<exists>s' m' R'. engine_run Z L trigger concurrency iter ps s = Some s' \<and> cell_run ps m m' \<and> scan_rel Z L K V n s' m' R'
       \<and> columnar s' = columnar s"
proof (induction ps arbitrary: s m R)
  case Nil
  then show ?case by (auto intro: cell_run.nil)
next
  case (Cons p ps)
  have "scan_rel Z L K V (n + length ps * Suc (card K) + Suc (card K)) s m R" using Cons.prems(5) by (simp add: algebra_simps)
  from engine_step_rel [OF Cons.prems(1-4) this, of p trigger concurrency] Cons.prems(6) obtain s1 m1 R1 where
    s1: "engine_step Z L trigger concurrency iter p s = Some s1" "scan_rel Z L K V (n + length ps * Suc (card K)) s1 m1 R1"
    "columnar s1 = columnar s" "bg_worker_active s1" "\<forall>ps m''. cell_run ps m1 m'' \<longrightarrow> cell_run (p # ps) m m''" by auto
  have "store_env Z L (columnar s1) K V" using Cons.prems(2) s1(3) by simp
  from Cons.IH [OF Cons.prems(1) this Cons.prems(3) s1(4,2)] Cons.prems(6) obtain s' m' R' where
    "engine_run Z L trigger concurrency iter ps s1 = Some s'" "cell_run ps m1 m'" "scan_rel Z L K V n s' m' R'" "columnar s' = columnar s1" by auto
  then show ?case using s1(1,3,5) by auto
qed

text \<open>
  C4: The engine with flushes and compactions refines a map of cells. On a store opened in an
  empty directory, run a sequence of puts, deletes, flushes, compactions, forced or not, and
  rounds of the background worker, in any iteration order of the registry, any number of build
  workers and any compaction trigger, over keys none of which
  starts with another one followed by a zero byte, operations times distinct keys plus one at
  most 65,000, sizes below 4 GiB and no storage fault. The values are not empty: the files do not tell
  an empty value from a tombstone, and compaction drops both. Every operation succeeds
  and nothing panics. Afterwards \<open>get\<close> and scans, with or without a prefix, see the cells that
  the run leaves: compaction changes no live key; it only turns a flushed tombstone, which \<open>get\<close>
  returned as an empty value, into an absent key.
\<close>

theorem compact_refines:
  assumes "lz4_ok L" and "\<forall>reg. set (iter reg) = dom reg" and "key_space (\<Union> (op_keys ` set ps))"
    and "length ps * Suc (card (\<Union> (op_keys ` set ps))) \<le> 65000" and "[] \<notin> \<Union> (op_values ` set ps)"
    and "store_env Z L (table_regs tables) (\<Union> (op_keys ` set ps)) (\<Union> (op_values ` set ps))"
  shows "\<exists>s s' m. open_store L cfg fcfg None [] Map.empty 1 = Some (Inr s)
    \<and> engine_run Z L trigger concurrency iter ps (prepare tables s) = Some s' \<and> cell_run ps Map.empty m
    \<and> (\<forall>k. engine_get Z L s' k = Some (visible (m k)))
    \<and> (\<forall>order pfx. set order = dom (sst_registry s') \<longrightarrow>
         (\<exists>r. scan_all_with_prefix Z L order s' pfx = Some r \<and> sorted_wrt (<) (map fst r)
            \<and> (\<forall>k v. (k, v) \<in> set r \<longleftrightarrow> starts pfx k \<and> m k = Some (Live v))))"
proof -
  let ?K = "\<Union> (op_keys ` set ps)" and ?V = "\<Union> (op_values ` set ps)"
  obtain s where s: "open_store L cfg fcfg None [] Map.empty 1 = Some (Inr s)" "columnar s = []"
    "scan_rel Z L ?K ?V (0 + length ps * Suc (card ?K)) (prepare tables s) Map.empty Map.empty"
    using fresh_scan [OF assms(1,3), of "0 + length ps * Suc (card ?K)" cfg fcfg Z ?V tables] assms(4) by auto
  have env: "store_env Z L (columnar (prepare tables s)) ?K ?V" using assms(6) columnar_prepare [OF s(2)] by simp
  have ops: "\<forall>p \<in> set ps. op_keys p \<subseteq> ?K \<and> op_values p \<subseteq> ?V" by auto
  obtain s' m R where s': "engine_run Z L trigger concurrency iter ps (prepare tables s) = Some s'" "cell_run ps Map.empty m"
    "scan_rel Z L ?K ?V 0 s' m R" "columnar s' = columnar (prepare tables s)"
    using engine_run_rel [OF assms(2) env assms(5) _ s(3) ops, of trigger concurrency] by auto
  have ok: "regs_ok (columnar s')" "zstd_ok Z" using env s'(4) by (simp_all add: store_env_def)
  have "\<exists>r. scan_all_with_prefix Z L order s' pfx = Some r \<and> sorted_wrt (<) (map fst r)
      \<and> (\<forall>k v. (k, v) \<in> set r \<longleftrightarrow> starts pfx k \<and> m k = Some (Live v))"
    if "set order = dom (sst_registry s')" for order pfx
    using scan_rel_result [OF s'(3) ok _ assms(5), of order pfx] that by (metis order_refl)
  then show ?thesis using s(1) s'(1,2) engine_get_rel [OF scan_relD(1) [OF s'(3)]] by blast
qed


inductive_cases cell_run_nil: "cell_run [] m m'"

inductive_cases cell_run_cons: "cell_run (p # ps) m m'"

lemma cell_run_write [simp]: "cell_run (Write p # ps) m m' \<longleftrightarrow> cell_run ps (cell_step p m) m'"
  by (auto intro: cell_run.wr elim: cell_run_cons)

lemma cell_run_forced [simp]: "cell_run (Compact True # ps) m m' \<longleftrightarrow> cell_run ps (purge m) m'"
  by (auto intro: cell_run.purges elim: cell_run_cons)

lemma cell_run_end [simp]: "cell_run [] m m' \<longleftrightarrow> m' = m"
  by (auto intro: cell_run.nil elim: cell_run_nil)

definition demo_engine_ops :: "engine_op list" where
  "demo_engine_ops = map Write demo_store_ops @ [Compact True]"

theorem compact_refines_witness:
  "\<exists>s s' order r. open_store demo_lib demo_eng_cfg demo_flush_cfg None [] Map.empty 1 = Some (Inr s)
     \<and> engine_run demo_zstd demo_lib 4 2 (\<lambda>reg. sorted_list_of_set (dom reg)) demo_engine_ops (prepare [] s) = Some s'
     \<and> engine_get demo_zstd demo_lib s' [1] = Some (Some [11]) \<and> engine_get demo_zstd demo_lib s' [2] = Some None
     \<and> set order = dom (sst_registry s') \<and> scan_all_with_prefix demo_zstd demo_lib order s' None = Some r
     \<and> set r = {([1], [11]), ([3], [30])}"
proof -
  have K: "\<Union> (op_keys ` set demo_engine_ops) = {[1], [2], [3]}" "\<Union> (op_values ` set demo_engine_ops) = {[10], [20], [11], [30]}"
    by (auto simp: demo_engine_ops_def demo_store_ops_def)
  have env: "store_env demo_zstd demo_lib (table_regs []) {[1], [2], [3]} {[10], [20], [11], [30]}"
    by (rule demo_env) auto
  have ks: "key_space {[1], [2], [3]}" by (simp add: key_space_def)
  have n: "length demo_engine_ops * Suc (card {[1] :: bytes, [2], [3]}) \<le> 65000" by (simp add: demo_engine_ops_def demo_store_ops_def)
  have ne: "[] \<notin> {[10 :: u8], [20], [11], [30]}" by simp
  have iter: "\<forall>reg :: sst_registry. set (sorted_list_of_set (dom reg)) = dom reg" by simp
  from compact_refines [of demo_lib "\<lambda>reg. sorted_list_of_set (dom reg)" demo_engine_ops demo_zstd "[]", unfolded K, OF demo_lib_ok iter ks n ne env]
  obtain s s' m where
    s: "open_store demo_lib demo_eng_cfg demo_flush_cfg None [] Map.empty 1 = Some (Inr s)"
    "engine_run demo_zstd demo_lib 4 2 (\<lambda>reg. sorted_list_of_set (dom reg)) demo_engine_ops (prepare [] s) = Some s'"
    "cell_run demo_engine_ops Map.empty m" "\<forall>k. engine_get demo_zstd demo_lib s' k = Some (visible (m k))"
    and sc: "\<forall>order pfx. set order = dom (sst_registry s') \<longrightarrow>
         (\<exists>r. scan_all_with_prefix demo_zstd demo_lib order s' pfx = Some r \<and> sorted_wrt (<) (map fst r)
            \<and> (\<forall>k v. (k, v) \<in> set r \<longleftrightarrow> starts pfx k \<and> m k = Some (Live v)))" by blast
  have m: "m = [[1] \<mapsto> Live [11], [2] \<mapsto> Purged, [3] \<mapsto> Live [30]]"
    using s(3) by (auto simp: demo_engine_ops_def demo_store_ops_def bury_def purge_def indexed_def fun_eq_iff)
  obtain order where order: "set order = dom (sst_registry s')" using finite_list [of "dom (sst_registry s')"] by auto
  then obtain r where r: "scan_all_with_prefix demo_zstd demo_lib order s' None = Some r"
    "\<forall>k v. (k, v) \<in> set r \<longleftrightarrow> starts None k \<and> m k = Some (Live v)"
    using sc by blast
  have "(k, v) \<in> set r \<longleftrightarrow> k = [1] \<and> v = [11] \<or> k = [3] \<and> v = [30]" for k v
    using r(2) [rule_format, of k v] by (auto simp: starts_def m)
  then have "set r = {([1], [11]), ([3], [30])}" by auto
  moreover have "engine_get demo_zstd demo_lib s' [1] = Some (Some [11])" "engine_get demo_zstd demo_lib s' [2] = Some None"
    using s(4) by (simp_all add: m visible_def)
  ultimately show ?thesis using s(1,2) r(1) order by blast
qed


section \<open>Outputs that collide with inputs\<close>

lemma register_Inr: "register d i p reg = Some (Inr reg') \<Longrightarrow> \<exists>en. reg' = reg(i \<mapsto> en) \<and> sst_path en = p"
  by (auto simp: register_def split: option.splits sum.splits if_splits)

lemma commit_step:
  assumes "commit_outputs io ids (out # outs) s = Some (Inr u, s')"
  obtains s1 en where "commit_outputs io ids outs s1 = Some (Inr u, s')" "next_sst_id s1 = next_sst_id s + 1"
    "sst_registry s1 = (sst_registry s)(next_sst_id s \<mapsto> en)" "sst_path en = block_counter s"
  using assms by (auto simp: Let_def split: option.splits sum.splits prod.splits dest!: register_Inr)

lemma commit_keeps_older:
  "commit_outputs io ids outs s = Some (Inr u, s') \<Longrightarrow> unat (next_sst_id s) + length outs < 2 ^ 64 \<Longrightarrow> i < next_sst_id s \<Longrightarrow>
     sst_registry s' i = sst_registry s i"
proof (induction outs arbitrary: s)
  case Nil
  then show ?case by simp
next
  case (Cons out outs)
  obtain s1 en where s1: "commit_outputs io ids outs s1 = Some (Inr u, s')" "next_sst_id s1 = next_sst_id s + 1"
    "sst_registry s1 = (sst_registry s)(next_sst_id s \<mapsto> en)" by (rule commit_step [OF Cons.prems(1)])
  have "unat (next_sst_id s + 1) = unat (next_sst_id s) + 1" using Cons.prems(2) unat_plus_nat [of "next_sst_id s" 1] by simp
  then have "sst_registry s' i = sst_registry s1 i"
    using Cons.prems(2,3) s1(2) by (intro Cons.IH [OF s1(1)]) (auto simp: word_less_nat_alt)
  then show ?case using Cons.prems(3) s1(3) by auto
qed

lemma in_inputs:
  "(i, p) \<in> set (concat (map (\<lambda>i. case reg i of None \<Rightarrow> [] | Some en \<Rightarrow> [(i, sst_path en)]) order))
     \<longleftrightarrow> i \<in> set order \<and> (\<exists>en. reg i = Some en \<and> p = sst_path en)"
proof (induction order)
  case (Cons j order)
  then show ?case by (cases "reg j") auto
qed simp

text \<open>
  C5: Compaction can delete its own output. The names of the output files are drawn from a
  counter that restarts with the process. If the next name is that of an input file, a
  compaction that reports success has written its first output over that input and then
  removed the file as a merged input: the registry keeps an entry for a file that is gone,
  and every read through it finds nothing.
\<close>

theorem compaction_deletes_output:
  assumes run: "compact_inner Z L concurrency pins io order True s = Some (Inr stats, s')" and out: "0 < output_ssts stats"
    and i: "i \<in> set order" "sst_registry s i = Some en" "sst_path en = block_counter s"
    and ids: "\<forall>i \<in> dom (sst_registry s). i < next_sst_id s" "unat (next_sst_id s) + output_ssts stats < 2 ^ 64"
  shows "\<exists>en'. sst_registry s' (next_sst_id s) = Some en' \<and> sst_path en' = block_counter s \<and> data_dir s' (block_counter s) = None
    \<and> (\<forall>b r. read_value (xxh3_64 L) Z (data_dir s') (sst_registry s') (next_sst_id s) b r = Some None)"
proof -
  define inputs where "inputs = concat (map (\<lambda>i. case sst_registry s i of None \<Rightarrow> [] | Some en \<Rightarrow> [(i, sst_path en)]) order)"
  have inp: "(i, block_counter s) \<in> set inputs" using i by (simp add: inputs_def in_inputs del: set_concat)
  have fresh: "next_sst_id s \<notin> fst ` set inputs"
    using ids(1) by (fastforce simp: inputs_def in_inputs dom_def simp del: set_concat)
  have "\<not> length inputs < 1" using inp by (cases inputs) auto
  then obtain outs u s1 where c: "commit_outputs io (fst ` set inputs) outs s = Some (Inr u, s1)" "output_ssts stats = length outs"
    "s' = s1\<lparr>sst_registry := (\<lambda>i. if i \<in> fst ` set inputs then None else sst_registry s1 i),
       data_dir := (\<lambda>p. if p \<in> snd ` set inputs then None else data_dir s1 p)\<rparr>"
    using run unfolding compact_inner_def Let_def inputs_def [symmetric]
    by (auto split: option.splits sum.splits prod.splits)
  obtain o1 rest where outs: "outs = o1 # rest" using out c(2) by (cases outs) auto
  obtain s2 en' where s2: "commit_outputs io (fst ` set inputs) rest s2 = Some (Inr u, s1)" "next_sst_id s2 = next_sst_id s + 1"
    "sst_registry s2 = (sst_registry s)(next_sst_id s \<mapsto> en')" "sst_path en' = block_counter s"
    by (rule commit_step [OF c(1) [unfolded outs]])
  have u: "unat (next_sst_id s + 1) = unat (next_sst_id s) + 1" using ids(2) c(2) outs unat_plus_nat [of "next_sst_id s" 1] by simp
  have "sst_registry s1 (next_sst_id s) = sst_registry s2 (next_sst_id s)"
    using ids(2) c(2) outs s2(2) u by (intro commit_keeps_older [OF s2(1)]) (simp_all add: word_less_nat_alt)
  then have reg: "sst_registry s' (next_sst_id s) = Some en'" using s2(3) fresh by (simp add: c(3))
  have dir: "data_dir s' (block_counter s) = None" using inp by (force simp: c(3))
  have "read_value (xxh3_64 L) Z (data_dir s') (sst_registry s') (next_sst_id s) b r = Some None" for b r
    using reg dir s2(4) by (simp add: read_value_def io_read_sync_def split: option.split)
  then show ?thesis using reg dir s2(4) by blast
qed


lemma demo_flushed:
  obtains s1 R where "scan_rel demo_zstd demo_lib {[1]} {[10]} 3 s1 [[1] \<mapsto> Live [10]] R" "columnar s1 = []"
    "mm_get (xxh3_64 demo_lib) (memtable_mgr (core s1)) [1] = None"
proof -
  let ?K = "{[1]} :: bytes set" and ?V = "{[10]} :: bytes set" and ?h = "xxh3_64 demo_lib"
  have ks: "key_space ?K" by (simp add: key_space_def)
  have env: "store_env demo_zstd demo_lib (table_regs []) ?K ?V" by (rule demo_env) auto
  obtain s where s: "columnar s = []" "scan_rel demo_zstd demo_lib ?K ?V 5 (prepare [] s) Map.empty Map.empty"
    using fresh_scan [OF demo_lib_ok ks, of 5 demo_eng_cfg demo_flush_cfg demo_zstd ?V "[]"] by auto
  have col: "columnar (prepare [] s) = table_regs []" using columnar_prepare [OF s(1)] by simp
  obtain s0 where s0: "scan_rel demo_zstd demo_lib ?K ?V (3 + card ?K) s0 [[1] \<mapsto> Live [10]] Map.empty" "bg_worker_active s0"
    "write_shape demo_lib [1] (Some [10]) (prepare [] s) s0"
    using scan_put [of demo_zstd demo_lib ?K ?V 4 "prepare [] s" Map.empty Map.empty "[1]" "[10]" id] s(2) by auto
  have col0: "columnar s0 = table_regs []" using s0(3) col by (simp add: write_shape_def)
  have b: "bury [[1] \<mapsto> Live [10]] = [[1] \<mapsto> Live [10]]" by (auto simp: bury_def fun_eq_iff)
  obtain s1 R where s1: "scan_rel demo_zstd demo_lib ?K ?V 3 s1 [[1] \<mapsto> Live [10]] R" "columnar s1 = table_regs []" "flush_shape demo_zstd demo_lib s0 s1"
    using scan_flush [OF s0(1) _ s0(2), of id, unfolded b] env col0 by auto
  have "mm_get ?h (memtable_mgr (core s1)) [1] = None"
    using flush_shape_lookup(1) [OF s0(1) s1(3)] store_relD(2) [OF scan_relD(1) [OF s1(1)]] by (simp add: mm_get_active mt_get_def)
  then show ?thesis using that s1(1,2) by (simp add: table_regs_def)
qed

text \<open>A store with one flushed row, in a process whose counter has come to the name of its file.\<close>

theorem compaction_deletes_output_witness:
  "\<exists>s i en stats s'. sst_registry s i = Some en \<and> sst_path en = block_counter s
     \<and> compact_inner demo_zstd demo_lib 1 [] (\<lambda>_. None) (sorted_list_of_set (dom (sst_registry s))) True s = Some (Inr stats, s')
     \<and> sst_registry s' (next_sst_id s) \<noteq> None \<and> data_dir s' (block_counter s) = None"
proof -
  let ?K = "{[1]} :: bytes set" and ?V = "{[10]} :: bytes set" and ?h = "xxh3_64 demo_lib" and ?m = "[[1] \<mapsto> Live [10]] :: bytes \<rightharpoonup> cell"
  obtain s1 R where s1: "scan_rel demo_zstd demo_lib ?K ?V 3 s1 ?m R" "columnar s1 = []" "mm_get ?h (memtable_mgr (core s1)) [1] = None"
    by (rule demo_flushed)
  let ?order = "sorted_list_of_set (dom (sst_registry s1))"
  have env: "store_env demo_zstd demo_lib [] ?K ?V" using demo_env [of ?K ?V demo_lib] by (simp add: table_regs_def)
  note sr = scan_relD [OF s1(1)] and r = store_relD [OF scan_relD(1) [OF s1(1)]]
  have order: "set ?order = dom (sst_registry s1)" by simp
  have orf: "distinct (map fst (output_rows R ?order))" "fst ` set (output_rows R ?order) \<subseteq> ?K" "length (output_rows R ?order) \<le> 1"
    "run_fits ?h demo_zstd [] (output_rows R ?order)"
    "all_latest (latest_ts (gc_all [] (merged (rows_in_order R ?order)))) (output_rows R ?order)"
    using output_rows_facts [OF s1(1) _ _ order] env s1(2) by simp_all
  have "newest_rel (set (rows_in_order R ?order)) [1] (?m [1])" using sr(6) [OF s1(3)] scanned_rows [OF s1(1)] order by simp
  moreover have "\<forall>e \<in> set (rows_in_order R ?order). vvalue (snd e) \<noteq> Some []"
    using sr(4) scanned_rows [OF s1(1), of ?order] order by fastforce
  ultimately have rows: "output_rows R ?order \<noteq> []"
    using survivor_cells [of "rows_in_order R ?order" "[1]"] sort_survivors_facts(1) by (force simp: output_rows_def)
  obtain i en where i: "sst_registry s1 i = Some en"
  proof (cases "sst_registry s1 = Map.empty")
    case True
    then have "all_rows R = {}" using sr(2) by (simp add: file_rows_def all_rows_def)
    then show ?thesis using rows output_row(2) [OF s1(1) order] by (cases "output_rows R ?order") (force+)
  next
    case False
    then obtain j where "sst_registry s1 j \<noteq> None" by (auto simp: fun_eq_iff)
    then show ?thesis using that by blast
  qed
  define s2 where "s2 = s1\<lparr>block_counter := sst_path en\<rparr>"
  have idx: "key_space ?K \<and> 0 + length (output_rows R ?order) \<le> 65001 \<and> art_ok ?K (0 + length (output_rows R ?order)) (art_index (core s2))"
    using r(3) orf(3) art_ok_mono [of ?K 3 "art_index (core s1)" "length (output_rows R ?order)"] by (simp add: s2_def)
  have fr: "file_rows ?h demo_zstd (columnar s2) (data_dir s2) (sst_registry s2) R" using sr(2) by (simp add: s2_def)
  have reg: "sst_registry s2 = sst_registry s1" "columnar s2 = []" using s1(2) by (simp_all add: s2_def)
  have bc: "unat (block_counter s2) < 200000" using r(4,7) i by (fastforce simp: s2_def word_less_nat_alt)
  have ne: "(if True then 1 else 2) \<le> length ?order" using i by (cases ?order) auto
  have "\<exists>outs groups files sx stats. concat (concat groups) = output_rows R ?order \<and> output_files ?h demo_zstd (columnar s2) files groups
    \<and> targets_match (latest_ts (gc_all [] (merged (rows_in_order R ?order)))) outs groups \<and> length outs \<le> length (output_rows R ?order)
    \<and> committed (dom (sst_registry s2)) outs files s2 sx \<and> (key_space ?K \<and> 0 \<le> (65001 :: nat) \<and> art_ok ?K 0 (art_index (core sx))) \<and> output_ssts stats = length outs
    \<and> compact_inner demo_zstd demo_lib 1 [] (\<lambda>_. None) ?order True s2 = Some (Inr stats, retire s2 sx)"
    using orf env bc r(5)
    by (intro compact_commits [OF fr _ _ _ _ ne refl _ _ _ _ _ refl idx]) (simp_all add: s1(2) store_env_def s2_def)
  then obtain outs groups stats sx where c: "concat (concat groups) = output_rows R ?order"
    "targets_match (latest_ts (gc_all [] (merged (rows_in_order R ?order)))) outs groups"
    "length outs \<le> length (output_rows R ?order)" "output_ssts stats = length outs"
    "compact_inner demo_zstd demo_lib 1 [] (\<lambda>_. None) ?order True s2 = Some (Inr stats, retire s2 sx)" by blast
  have "length outs = length groups" using c(2) unfolding targets_match_def by (blast dest: list_all2_lengthD)
  then have "0 < output_ssts stats" using c(1,4) rows by (cases groups) auto
  moreover have "\<forall>i \<in> dom (sst_registry s2). i < next_sst_id s2" using r(7) by (auto simp: s2_def)
  moreover have "unat (next_sst_id s2) + output_ssts stats < 2 ^ 64" using r(5) c(3,4) orf(3) by (simp add: s2_def)
  moreover have "i \<in> set ?order" "sst_registry s2 i = Some en" "sst_path en = block_counter s2" using i by (auto simp: s2_def)
  ultimately have "\<exists>en'. sst_registry (retire s2 sx) (next_sst_id s2) = Some en' \<and> sst_path en' = block_counter s2
      \<and> data_dir (retire s2 sx) (block_counter s2) = None
      \<and> (\<forall>b r. read_value ?h demo_zstd (data_dir (retire s2 sx)) (sst_registry (retire s2 sx)) (next_sst_id s2) b r = Some None)"
    by (intro compaction_deletes_output [OF c(5)])
  then show ?thesis using c(5) i by (intro exI [of _ s2] exI [of _ i] exI [of _ en] exI [of _ stats] exI [of _ "retire s2 sx"]) (auto simp: s2_def)
qed

end
