(* ===== verification/Bloom.thy ===== *)
theory Bloom
  imports Prelude
begin

unbundle bit_operations_syntax

text \<open>
  The Bloom filters of \<open>bloom/mod.rs\<close>: the bit vector with double hashing over XXH3-64
  (an argument \<open>h\<close>), its serialisation, the per-SST wrapper, and the candidate filter of
  the read path. The sizes \<open>new\<close> computes in floating point are arguments (\<open>m\<close> bits and
  \<open>k\<close> hash functions, before the clamps the code applies to them). A panic, by a remainder
  by zero or an index past the vector, is \<open>None\<close>.
\<close>

record bloom_filter =
  bloom_bits :: bytes
  num_bits :: u64
  num_hashes :: u32

definition div_ceil8 :: "u64 \<Rightarrow> nat" where
  "div_ceil8 m = (unat m + 7) div 8"

definition bloom_sized :: "u64 \<Rightarrow> u32 \<Rightarrow> bloom_filter" where
  "bloom_sized m k = \<lparr>bloom_bits = replicate (div_ceil8 m) 0, num_bits = m, num_hashes = k\<rparr>"

text \<open>\<open>new\<close>: the clamps \<open>max(8.0)\<close> and \<open>max(1.0)\<close> on the computed sizes.\<close>

definition bloom_new :: "u64 \<Rightarrow> u32 \<Rightarrow> bloom_filter" where
  "bloom_new m k = bloom_sized (max m 8) (max k 1)"

definition with_bits_per_key :: "nat \<Rightarrow> u32 \<Rightarrow> u32 \<Rightarrow> bloom_filter option" where
  "with_bits_per_key num_keys bits_per_key k =
     (if num_keys = 0 \<or> bits_per_key = 0 then None
      else Some (bloom_sized (max (word_of_nat num_keys * ucast bits_per_key) 8) (max k 1)))"

definition hash_pair :: "(bytes \<Rightarrow> u64) \<Rightarrow> bytes \<Rightarrow> u64 \<times> u64" where
  "hash_pair h key = (h key, h (key @ [0x47]))"

definition bit_index :: "bloom_filter \<Rightarrow> u64 \<Rightarrow> u64 \<Rightarrow> nat \<Rightarrow> u64" where
  "bit_index f h1 h2 i = (h1 + word_of_nat i * h2) mod num_bits f"

definition set_bit :: "u64 \<Rightarrow> bytes \<Rightarrow> bytes" where
  "set_bit index bs =
     (let byte_idx = unat (index div 8); bit_idx = unat (index mod 8)
      in bs[byte_idx := bs ! byte_idx OR push_bit bit_idx 1])"

definition get_bit :: "u64 \<Rightarrow> bytes \<Rightarrow> bool" where
  "get_bit index bs =
     (let byte_idx = unat (index div 8); bit_idx = unat (index mod 8)
      in drop_bit bit_idx (bs ! byte_idx) AND 1 = 1)"

text \<open>
  The remainder is defined and the vector holds every index below \<open>num_bits\<close>. Every filter
  the code makes has a vector of that length; only a stored filter can have zero bits.
\<close>

definition bloom_sound :: "bloom_filter \<Rightarrow> bool" where
  "bloom_sound f \<longleftrightarrow> num_bits f \<noteq> 0 \<and> length (bloom_bits f) = div_ceil8 (num_bits f)"

definition bloom_insert :: "(bytes \<Rightarrow> u64) \<Rightarrow> bytes \<Rightarrow> bloom_filter \<Rightarrow> bloom_filter option" where
  "bloom_insert h key f =
     (if num_hashes f \<noteq> 0 \<and> \<not> bloom_sound f then None
      else
        let (h1, h2) = hash_pair h key
        in Some (f\<lparr>bloom_bits :=
              foldl (\<lambda>bs i. set_bit (bit_index f h1 h2 i) bs) (bloom_bits f) [0..<unat (num_hashes f)]\<rparr>))"

definition may_contain :: "(bytes \<Rightarrow> u64) \<Rightarrow> bloom_filter \<Rightarrow> bytes \<Rightarrow> bool option" where
  "may_contain h f key =
     (if num_hashes f \<noteq> 0 \<and> \<not> bloom_sound f then None
      else
        let (h1, h2) = hash_pair h key
        in Some (list_all (\<lambda>i. get_bit (bit_index f h1 h2 i) (bloom_bits f)) [0..<unat (num_hashes f)]))"

definition bloom_serialize :: "bloom_filter \<Rightarrow> bytes" where
  "bloom_serialize f = to_le_bytes (num_bits f) @ to_le_bytes (num_hashes f) @ bloom_bits f"

definition bloom_deserialize :: "bytes \<Rightarrow> bloom_filter option" where
  "bloom_deserialize data =
     (if length data < 12 then None
      else
        let nb = from_le_bytes (sub_slice 0 8 data);
            nh = from_le_bytes (sub_slice 8 12 data);
            expected_byte_len = div_ceil8 nb
        in if length data < 12 + expected_byte_len then None
           else Some \<lparr>bloom_bits = sub_slice 12 (12 + expected_byte_len) data, num_bits = nb, num_hashes = nh\<rparr>)"

record sst_bloom_filter =
  sbf_sst_id :: u64
  sbf_level :: nat
  sbf_filter :: bloom_filter

fun bloom_insert_all :: "(bytes \<Rightarrow> u64) \<Rightarrow> bytes list \<Rightarrow> bloom_filter \<Rightarrow> bloom_filter option" where
  "bloom_insert_all h [] f = Some f"
| "bloom_insert_all h (k # ks) f = Option.bind (bloom_insert h k f) (bloom_insert_all h ks)"

definition sbf_build :: "(bytes \<Rightarrow> u64) \<Rightarrow> u64 \<Rightarrow> nat \<Rightarrow> bytes list \<Rightarrow> u64 \<Rightarrow> u32 \<Rightarrow> sst_bloom_filter option" where
  "sbf_build h sid lvl ks m k =
     map_option (\<lambda>f. \<lparr>sbf_sst_id = sid, sbf_level = lvl, sbf_filter = f\<rparr>) (bloom_insert_all h ks (bloom_new m k))"

definition build_with_bits_per_key ::
  "(bytes \<Rightarrow> u64) \<Rightarrow> u64 \<Rightarrow> nat \<Rightarrow> bytes list \<Rightarrow> u32 \<Rightarrow> u32 \<Rightarrow> sst_bloom_filter option" where
  "build_with_bits_per_key h sid lvl ks bits_per_key k =
     Option.bind (with_bits_per_key (max (length ks) 1) bits_per_key k) (\<lambda>f.
     map_option (\<lambda>f. \<lparr>sbf_sst_id = sid, sbf_level = lvl, sbf_filter = f\<rparr>) (bloom_insert_all h ks f))"

definition check_key :: "(bytes \<Rightarrow> u64) \<Rightarrow> sst_bloom_filter \<Rightarrow> bytes \<Rightarrow> bool option" where
  "check_key h f key = may_contain h (sbf_filter f) key"

definition sbf_serialize :: "sst_bloom_filter \<Rightarrow> bytes" where
  "sbf_serialize f =
     to_le_bytes (sbf_sst_id f) @ to_le_bytes (word_of_nat (sbf_level f) :: u32) @ bloom_serialize (sbf_filter f)"

definition sbf_deserialize :: "bytes \<Rightarrow> sst_bloom_filter option" where
  "sbf_deserialize data =
     (if length data < 12 then None
      else
        map_option (\<lambda>f. \<lparr>sbf_sst_id = from_le_bytes (sub_slice 0 8 data),
                         sbf_level = unat (from_le_bytes (sub_slice 8 12 data) :: u32), sbf_filter = f\<rparr>)
          (bloom_deserialize (drop 12 data)))"

fun filter_candidate_ssts :: "(bytes \<Rightarrow> u64) \<Rightarrow> bytes \<Rightarrow> sst_bloom_filter list \<Rightarrow> u64 list option" where
  "filter_candidate_ssts h key [] = Some []"
| "filter_candidate_ssts h key (f # fs) =
     Option.bind (check_key h f key) (\<lambda>hit.
     map_option (\<lambda>ids. if hit then sbf_sst_id f # ids else ids) (filter_candidate_ssts h key fs))"

section \<open>Bits\<close>

lemma get_bit_iff: "get_bit index bs \<longleftrightarrow> bit (bs ! unat (index div 8)) (unat (index mod 8))"
proof -
  have "(drop_bit n (w :: u8) AND 1 = 1) \<longleftrightarrow> bit w n" for w n
    by (simp add: and_one_eq odd_iff_mod_2_eq_one [symmetric] bit_iff_odd_drop_bit)
  then show ?thesis by (simp add: get_bit_def Let_def)
qed

lemma bit_in_byte: "unat ((index :: u64) mod 8) < 8"
  by (simp add: unat_mod)

lemma get_set_bit:
  assumes "unat (j div 8) < length bs"
  shows "get_bit i (set_bit j bs) \<longleftrightarrow> i = j \<or> get_bit i bs"
proof (cases "unat (i div 8) = unat (j div 8)")
  case True
  have same: "i = j \<longleftrightarrow> unat (i mod 8) = unat (j mod 8)"
  proof -
    have "unat i div 8 = unat j div 8" using True by (simp add: unat_div)
    then have "unat i = unat j \<longleftrightarrow> unat i mod 8 = unat j mod 8" by (metis div_mod_decomp)
    then show ?thesis by (simp add: unat_mod word_unat_eq_iff)
  qed
  show ?thesis
    using assms True bit_in_byte [of j] same
    by (auto simp: get_bit_iff set_bit_def Let_def bit_or_iff bit_exp_iff)
next
  case False
  then show ?thesis using assms by (auto simp: get_bit_iff set_bit_def Let_def)
qed

lemma length_set_bit [simp]: "length (set_bit j bs) = length bs"
  by (simp add: set_bit_def Let_def)

lemma index_in_vector:
  assumes "bloom_sound f"
  shows "unat (bit_index f h1 h2 i div 8) < length (bloom_bits f)"
proof -
  have "unat (bit_index f h1 h2 i) < unat (num_bits f)"
    using assms word_mod_less_divisor [of "num_bits f"]
    by (simp add: bloom_sound_def bit_index_def word_less_nat_alt [symmetric] word_gt_0)
  then have "unat (bit_index f h1 h2 i) div 8 < (unat (num_bits f) + 7) div 8" by linarith
  then show ?thesis using assms by (simp add: bloom_sound_def div_ceil8_def unat_div)
qed

lemma set_bits_loop:
  assumes "\<forall>i < n. unat (g i div 8) < length bs"
  shows "length (foldl (\<lambda>bs i. set_bit (g i) bs) bs [0..<n]) = length bs
    \<and> (get_bit j (foldl (\<lambda>bs i. set_bit (g i) bs) bs [0..<n]) \<longleftrightarrow> get_bit j bs \<or> (\<exists>i < n. j = g i))"
  using assms
proof (induction n)
  case 0
  then show ?case by simp
next
  case (Suc n)
  then show ?case by (auto simp: get_set_bit less_Suc_eq)
qed

section \<open>No false negatives\<close>

lemma bloom_insert_ok:
  assumes "bloom_sound f"
  shows "\<exists>f'. bloom_insert h k f = Some f' \<and> bloom_sound f' \<and> num_bits f' = num_bits f \<and> num_hashes f' = num_hashes f
    \<and> may_contain h f' k = Some True
    \<and> (\<forall>k'. may_contain h f k' = Some True \<longrightarrow> may_contain h f' k' = Some True)"
proof -
  let ?bs = "foldl (\<lambda>bs i. set_bit (bit_index f (h k) (h (k @ [0x47])) i) bs) (bloom_bits f) [0..<unat (num_hashes f)]"
  note loop = set_bits_loop [of "unat (num_hashes f)" "bit_index f (h k) (h (k @ [0x47]))" "bloom_bits f"]
  have in_range: "\<forall>i < unat (num_hashes f). unat (bit_index f (h k) (h (k @ [0x47])) i div 8) < length (bloom_bits f)"
    using index_in_vector [OF assms] by blast
  have idx: "bit_index (f\<lparr>bloom_bits := ?bs\<rparr>) = bit_index f" by (simp add: bit_index_def fun_eq_iff)
  have sound: "bloom_sound (f\<lparr>bloom_bits := ?bs\<rparr>)" using assms loop in_range by (simp add: bloom_sound_def)
  have "may_contain h (f\<lparr>bloom_bits := ?bs\<rparr>) k = Some True"
    using sound loop [OF in_range] by (auto simp: may_contain_def hash_pair_def idx list_all_iff)
  moreover have "may_contain h (f\<lparr>bloom_bits := ?bs\<rparr>) k' = Some True" if "may_contain h f k' = Some True" for k'
    using that sound loop [OF in_range] by (auto simp: may_contain_def hash_pair_def idx list_all_iff split: if_splits)
  ultimately show ?thesis using sound assms by (simp add: bloom_insert_def hash_pair_def)
qed

lemma bloom_insert_all_ok:
  "bloom_sound f \<Longrightarrow> \<exists>f'. bloom_insert_all h ks f = Some f' \<and> bloom_sound f'
     \<and> (\<forall>k. k \<in> set ks \<or> may_contain h f k = Some True \<longrightarrow> may_contain h f' k = Some True)"
proof (induction ks arbitrary: f)
  case Nil
  then show ?case by simp
next
  case (Cons k ks)
  obtain f1 where f1: "bloom_insert h k f = Some f1" "bloom_sound f1" "may_contain h f1 k = Some True"
    "\<And>k'. may_contain h f k' = Some True \<Longrightarrow> may_contain h f1 k' = Some True"
    using bloom_insert_ok [OF Cons.prems, of h k] by blast
  then show ?case using Cons.IH [OF f1(2)] by auto
qed

lemma bloom_new_sound: "bloom_sound (bloom_new m k)"
proof -
  have "max m 8 \<noteq> 0" by (auto simp: max_def)
  then show ?thesis by (simp add: bloom_sound_def bloom_new_def bloom_sized_def)
qed

section \<open>Storage\<close>

lemma bloom_roundtrip_append:
  assumes "length (bloom_bits f) = div_ceil8 (num_bits f)"
  shows "bloom_deserialize (bloom_serialize f @ rest) = Some f"
  using assms
  by (simp add: bloom_deserialize_def bloom_serialize_def Let_def sub_slice_def)

lemma sbf_roundtrip_append:
  assumes "length (bloom_bits (sbf_filter f)) = div_ceil8 (num_bits (sbf_filter f))" and "sbf_level f < 2 ^ 32"
  shows "sbf_deserialize (sbf_serialize f @ rest) = Some f"
  using assms bloom_roundtrip_append [OF assms(1), of rest]
  by (simp add: sbf_deserialize_def sbf_serialize_def sub_slice_def unat_of_nat_small)

text \<open>An SST's filter: built over its keys, stored, and read back.\<close>

fun stored_filter :: "(bytes \<Rightarrow> u64) \<Rightarrow> u64 \<times> nat \<times> bytes list \<times> u64 \<times> u32 \<Rightarrow> sst_bloom_filter option" where
  "stored_filter h (sid, lvl, ks, m, nh) =
     Option.bind (sbf_build h sid lvl ks m nh) (\<lambda>f. sbf_deserialize (sbf_serialize f))"

lemma stored_filter_ok:
  assumes "lvl < 2 ^ 32"
  shows "\<exists>f hit. stored_filter h (sid, lvl, ks, m, nh) = Some f \<and> sbf_sst_id f = sid
    \<and> check_key h f key = Some hit \<and> (key \<in> set ks \<longrightarrow> hit)"
proof -
  obtain f where f: "bloom_insert_all h ks (bloom_new m nh) = Some f" "bloom_sound f"
    "\<And>k. k \<in> set ks \<Longrightarrow> may_contain h f k = Some True"
    using bloom_insert_all_ok [OF bloom_new_sound, of h ks m nh] by blast
  let ?f = "\<lparr>sbf_sst_id = sid, sbf_level = lvl, sbf_filter = f\<rparr>"
  have "sbf_deserialize (sbf_serialize ?f @ []) = Some ?f"
    using f(2) assms by (intro sbf_roundtrip_append) (auto simp: bloom_sound_def)
  then have "stored_filter h (sid, lvl, ks, m, nh) = Some ?f" by (simp add: sbf_build_def f(1))
  moreover have "\<exists>hit. may_contain h f key = Some hit" using f(2) by (simp add: may_contain_def Let_def split: prod.split)
  ultimately show ?thesis using f(3) [of key] by (auto simp: check_key_def)
qed

text \<open>
  A Bloom filter built over the keys of an SST never rules out one of them: building it,
  whatever the computed sizes, storing it and reading it back cannot fail, and the candidate
  filter of the read path then keeps every SST that holds the key.
\<close>

theorem candidates_keep_holders:
  assumes "\<forall>(sid, lvl, ks, m, nh) \<in> set ssts. lvl < 2 ^ 32"
  shows "\<exists>fs ids. map (stored_filter h) ssts = map Some fs \<and> filter_candidate_ssts h key fs = Some ids
    \<and> (\<forall>(sid, lvl, ks, m, nh) \<in> set ssts. key \<in> set ks \<longrightarrow> sid \<in> set ids)"
  using assms
proof (induction ssts)
  case Nil
  then show ?case by simp
next
  case (Cons s ssts)
  obtain sid lvl ks m nh where s: "s = (sid, lvl, ks, m, nh)" by (cases s)
  obtain f hit where f: "stored_filter h s = Some f" "sbf_sst_id f = sid"
    "check_key h f key = Some hit" "key \<in> set ks \<longrightarrow> hit"
    using stored_filter_ok [of lvl h sid ks m nh key] Cons.prems by (auto simp: s)
  have "\<forall>(sid, lvl, ks, m, nh) \<in> set ssts. lvl < 2 ^ 32" using Cons.prems by auto
  from Cons.IH [OF this]
  obtain fs ids where rest: "map (stored_filter h) ssts = map Some fs" "filter_candidate_ssts h key fs = Some ids"
    "\<forall>(sid, lvl, ks, m, nh) \<in> set ssts. key \<in> set ks \<longrightarrow> sid \<in> set ids"
    by (elim exE conjE) (rule that)
  have "filter_candidate_ssts h key (f # fs) = Some (if hit then sid # ids else ids)" using f rest(2) by simp
  moreover have "map (stored_filter h) (s # ssts) = map Some (f # fs)" using f(1) rest(1) by simp
  moreover have "\<forall>(sid', lvl, ks, m, nh) \<in> set (s # ssts). key \<in> set ks \<longrightarrow> sid' \<in> set (if hit then sid # ids else ids)"
    using rest(3) f(4) by (auto simp: s)
  ultimately show ?case by blast
qed

theorem candidates_keep_holders_witness:
  "\<exists>fs ids. map (stored_filter (\<lambda>k. word_of_nat (length k))) [(7, 0, [[1], [2, 3]], 20, 3), (8, 1, [], 0, 0)] = map Some fs
     \<and> filter_candidate_ssts (\<lambda>k. word_of_nat (length k)) [2, 3] fs = Some ids \<and> 7 \<in> set ids"
  using candidates_keep_holders [of "[(7, 0, [[1], [2, 3]], 20, 3), (8, 1, [], 0, 0)]"
      "\<lambda>k. word_of_nat (length k)" "[2, 3]"] by (simp del: stored_filter.simps)

text \<open>
  C33: A stored filter with zero bits passes the checks of \<open>deserialize\<close>, and the first key
  checked against it panics with a remainder by zero.
\<close>

theorem zero_bit_filter_panics:
  "\<exists>f. bloom_deserialize (to_le_bytes (0 :: u64) @ to_le_bytes (1 :: u32)) = Some f
     \<and> (\<forall>h key. may_contain h f key = None)"
  by (simp add: bloom_deserialize_def Let_def sub_slice_def div_ceil8_def may_contain_def bloom_sound_def)

end
