(* ===== verification/ClockSweep.thy ===== *)
theory ClockSweep
  imports Main
begin

text \<open>
  The second-chance cache of \<open>buffer_pool/clock_sweep.rs\<close>: a circular buffer of slots with
  a referenced bit, the map from keys to slots, the clock hand and the free list (its top
  is the last element). The contents of a cache are \<open>clock_abs\<close>. The eviction loop makes at
  most twice the capacity of steps, and that is enough to find a victim whenever one is
  allowed.
\<close>

datatype ('k, 'v) clock_slot = Occupied 'k 'v bool | Free

record ('k, 'v) clock =
  cs_capacity :: nat
  cs_slots :: "('k, 'v) clock_slot list"
  cs_map :: "'k \<rightharpoonup> nat"
  hand :: nat
  free_list :: "nat list"

definition clock_new :: "nat \<Rightarrow> ('k, 'v) clock" where
  "clock_new capacity =
     \<lparr>cs_capacity = capacity, cs_slots = replicate capacity Free, cs_map = Map.empty, hand = 0,
      free_list = rev [0..<capacity]\<rparr>"

definition clock_get :: "'k \<Rightarrow> ('k, 'v) clock \<Rightarrow> ('k, 'v) clock \<times> 'v option" where
  "clock_get key c =
     (case cs_map c key of
        None \<Rightarrow> (c, None)
      | Some idx \<Rightarrow>
          (case cs_slots c ! idx of
             Occupied k v r \<Rightarrow> (c\<lparr>cs_slots := (cs_slots c)[idx := Occupied k v True]\<rparr>, Some v)
           | Free \<Rightarrow> (c, None)))"

text \<open>\<open>clock_sweep_evict\<close>: the loop with \<open>n\<close> steps to go, and the call with twice the capacity.\<close>

fun sweep :: "nat \<Rightarrow> 'k set \<Rightarrow> ('k, 'v) clock \<Rightarrow> ('k, 'v) clock \<times> ('k \<times> 'v) option" where
  "sweep 0 protected c = (c, None)"
| "sweep (Suc n) protected c =
     (let idx = hand c;
          c1 = c\<lparr>hand := (hand c + 1) mod cs_capacity c\<rparr>
      in case cs_slots c1 ! idx of
           Occupied k v r \<Rightarrow>
             if k \<in> protected then sweep n protected c1
             else if r then sweep n protected (c1\<lparr>cs_slots := (cs_slots c1)[idx := Occupied k v False]\<rparr>)
             else (c1\<lparr>cs_map := (cs_map c1)(k := None), cs_slots := (cs_slots c1)[idx := Free],
                      free_list := free_list c1 @ [idx]\<rparr>, Some (k, v))
         | Free \<Rightarrow> sweep n protected c1)"

definition clock_sweep_evict :: "'k set \<Rightarrow> ('k, 'v) clock \<Rightarrow> ('k, 'v) clock \<times> ('k \<times> 'v) option" where
  "clock_sweep_evict protected c = sweep (cs_capacity c * 2) protected c"

definition clock_place :: "'k \<Rightarrow> 'v \<Rightarrow> ('k, 'v) clock \<Rightarrow> ('k, 'v) clock" where
  "clock_place key value c =
     (let idx = last (free_list c)
      in c\<lparr>free_list := butlast (free_list c), cs_slots := (cs_slots c)[idx := Occupied key value True],
           cs_map := (cs_map c)(key \<mapsto> idx)\<rparr>)"

definition clock_insert_new :: "'k \<Rightarrow> 'v \<Rightarrow> 'k set \<Rightarrow> ('k, 'v) clock \<Rightarrow> ('k, 'v) clock \<times> ('k \<times> 'v) option" where
  "clock_insert_new key value protected c =
     (if free_list c = [] then
        let (c1, evicted) = clock_sweep_evict protected c
        in if free_list c1 = [] then (c1, None) else (clock_place key value c1, evicted)
      else (clock_place key value c, None))"

definition put_with_constraint :: "'k \<Rightarrow> 'v \<Rightarrow> 'k set \<Rightarrow> ('k, 'v) clock \<Rightarrow> ('k, 'v) clock \<times> ('k \<times> 'v) option" where
  "put_with_constraint key value protected c =
     (case cs_map c key of
        Some idx \<Rightarrow>
          (case cs_slots c ! idx of
             Occupied k v r \<Rightarrow> (c\<lparr>cs_slots := (cs_slots c)[idx := Occupied k value True]\<rparr>, None)
           | Free \<Rightarrow> clock_insert_new key value protected c)
      | None \<Rightarrow> clock_insert_new key value protected c)"

definition clock_put :: "'k \<Rightarrow> 'v \<Rightarrow> ('k, 'v) clock \<Rightarrow> ('k, 'v) clock \<times> ('k \<times> 'v) option" where
  "clock_put key value c = put_with_constraint key value {} c"

definition clock_remove :: "'k \<Rightarrow> ('k, 'v) clock \<Rightarrow> ('k, 'v) clock \<times> 'v option" where
  "clock_remove key c =
     (case cs_map c key of
        None \<Rightarrow> (c, None)
      | Some idx \<Rightarrow>
          (c\<lparr>cs_map := (cs_map c)(key := None), cs_slots := (cs_slots c)[idx := Free],
             free_list := free_list c @ [idx]\<rparr>,
           case cs_slots c ! idx of Occupied k v r \<Rightarrow> Some v | Free \<Rightarrow> None))"

definition clock_contains :: "'k \<Rightarrow> ('k, 'v) clock \<Rightarrow> bool" where
  "clock_contains key c \<longleftrightarrow> cs_map c key \<noteq> None"

section \<open>Contents and invariant\<close>

fun slot_value :: "('k, 'v) clock_slot \<Rightarrow> 'v option" where
  "slot_value (Occupied k v r) = Some v"
| "slot_value Free = None"

fun slot_bit :: "('k, 'v) clock_slot \<Rightarrow> bool" where
  "slot_bit (Occupied k v r) = r"
| "slot_bit Free = False"

fun slot_allowed :: "'k set \<Rightarrow> ('k, 'v) clock_slot \<Rightarrow> bool" where
  "slot_allowed protected (Occupied k v r) \<longleftrightarrow> k \<notin> protected"
| "slot_allowed protected Free \<longleftrightarrow> False"

definition clock_abs :: "('k, 'v) clock \<Rightarrow> 'k \<rightharpoonup> 'v" where
  "clock_abs c k = Option.bind (cs_map c k) (\<lambda>i. slot_value (cs_slots c ! i))"

definition clock_inv :: "('k, 'v) clock \<Rightarrow> bool" where
  "clock_inv c \<longleftrightarrow> length (cs_slots c) = cs_capacity c \<and> (cs_capacity c \<noteq> 0 \<longrightarrow> hand c < cs_capacity c)
     \<and> (\<forall>k i. cs_map c k = Some i \<longleftrightarrow> i < cs_capacity c \<and> (\<exists>v r. cs_slots c ! i = Occupied k v r))
     \<and> distinct (free_list c) \<and> set (free_list c) = {i. i < cs_capacity c \<and> cs_slots c ! i = Free}"

lemma clock_invD:
  assumes "clock_inv c"
  shows "length (cs_slots c) = cs_capacity c" "cs_capacity c \<noteq> 0 \<Longrightarrow> hand c < cs_capacity c"
    "cs_map c k = Some i \<longleftrightarrow> i < cs_capacity c \<and> (\<exists>v r. cs_slots c ! i = Occupied k v r)"
    "distinct (free_list c)" "set (free_list c) = {i. i < cs_capacity c \<and> cs_slots c ! i = Free}"
  using assms unfolding clock_inv_def by blast+

lemma clock_abs_iff:
  assumes "clock_inv c"
  shows "clock_abs c k = Some v \<longleftrightarrow> (\<exists>i r. i < cs_capacity c \<and> cs_slots c ! i = Occupied k v r)"
proof (cases "cs_map c k")
  case None
  then have "\<not> (i < cs_capacity c \<and> (\<exists>v r. cs_slots c ! i = Occupied k v r))" for i
    using clock_invD(3) [OF assms, of k i] by simp
  then show ?thesis using None by (auto simp: clock_abs_def)
next
  case (Some i)
  then have i: "i < cs_capacity c" "\<exists>v r. cs_slots c ! i = Occupied k v r"
    using clock_invD(3) [OF assms, of k i] by simp_all
  then obtain w s where w: "cs_slots c ! i = Occupied k w s" by blast
  have "j = i" if "j < cs_capacity c" "cs_slots c ! j = Occupied k v r" for j r
    using that clock_invD(3) [OF assms, of k j] Some by simp
  then have "(\<exists>j r. j < cs_capacity c \<and> cs_slots c ! j = Occupied k v r) \<longleftrightarrow> v = w"
    using i(1) w by (metis clock_slot.inject)
  then show ?thesis using Some w by (auto simp: clock_abs_def)
qed

lemma slot_key_unique:
  assumes "clock_inv c" "i < cs_capacity c" "j < cs_capacity c"
    "cs_slots c ! i = Occupied k v r" "cs_slots c ! j = Occupied k w s"
  shows "i = j"
  using clock_invD(3) [OF assms(1), of k i] clock_invD(3) [OF assms(1), of k j] assms by auto

lemma clock_new_ok: "clock_inv (clock_new n)" "clock_abs (clock_new n) = Map.empty"
  by (auto simp: clock_inv_def clock_new_def clock_abs_def)

text \<open>Rewriting an occupied slot with the same key keeps the invariant.\<close>

lemma rewrite_slot:
  assumes inv: "clock_inv c" and i: "i < cs_capacity c" "cs_slots c ! i = Occupied k v r"
  shows "clock_inv (c\<lparr>cs_slots := (cs_slots c)[i := Occupied k w s]\<rparr>)"
    "clock_abs (c\<lparr>cs_slots := (cs_slots c)[i := Occupied k w s]\<rparr>) = (clock_abs c)(k \<mapsto> w)"
proof -
  have len: "i < length (cs_slots c)" using i clock_invD(1) [OF inv] by simp
  have m: "cs_map c k = Some i" using clock_invD(3) [OF inv] i by blast
  show inv': "clock_inv (c\<lparr>cs_slots := (cs_slots c)[i := Occupied k w s]\<rparr>)"
    unfolding clock_inv_def
  proof (intro conjI allI)
    show "cs_map (c\<lparr>cs_slots := (cs_slots c)[i := Occupied k w s]\<rparr>) k' = Some j \<longleftrightarrow>
        j < cs_capacity (c\<lparr>cs_slots := (cs_slots c)[i := Occupied k w s]\<rparr>) \<and>
        (\<exists>v r. cs_slots (c\<lparr>cs_slots := (cs_slots c)[i := Occupied k w s]\<rparr>) ! j = Occupied k' v r)" for k' j
      using clock_invD(3) [OF inv, of k' j] i len by (auto simp: nth_list_update)
  qed (use inv i len in \<open>auto simp: clock_inv_def nth_list_update\<close>)
  have "cs_map c k' = Some j \<Longrightarrow> k' \<noteq> k \<Longrightarrow> j \<noteq> i" for k' j
    using clock_invD(3) [OF inv, of k' j] i by auto
  then show "clock_abs (c\<lparr>cs_slots := (cs_slots c)[i := Occupied k w s]\<rparr>) = (clock_abs c)(k \<mapsto> w)"
    using m len by (auto simp: clock_abs_def fun_eq_iff nth_list_update split: bind_split)
qed

text \<open>Emptying an occupied slot removes its key.\<close>

lemma empty_slot:
  assumes inv: "clock_inv c" and i: "i < cs_capacity c" "cs_slots c ! i = Occupied k v r"
  shows "clock_inv (c\<lparr>cs_map := (cs_map c)(k := None), cs_slots := (cs_slots c)[i := Free], free_list := free_list c @ [i]\<rparr>)"
    "clock_abs (c\<lparr>cs_map := (cs_map c)(k := None), cs_slots := (cs_slots c)[i := Free], free_list := free_list c @ [i]\<rparr>)
       = (clock_abs c)(k := None)"
proof -
  have len: "i < length (cs_slots c)" using i clock_invD(1) [OF inv] by simp
  have other: "j \<noteq> i" if "cs_map c k' = Some j" "k' \<noteq> k" for k' j
    using clock_invD(3) [OF inv, of k' j] i that by auto
  have uniq: "k' \<noteq> k" if "j < cs_capacity c" "cs_slots c ! j = Occupied k' v' r'" "j \<noteq> i" for j k' v' r'
    using slot_key_unique [OF inv, of j i] that i by auto
  let ?c = "c\<lparr>cs_map := (cs_map c)(k := None), cs_slots := (cs_slots c)[i := Free], free_list := free_list c @ [i]\<rparr>"
  have "cs_map ?c k' = Some j \<longleftrightarrow> j < cs_capacity ?c \<and> (\<exists>v r. cs_slots ?c ! j = Occupied k' v r)" for k' j
    using clock_invD(3) [OF inv, of k' j] i len other [of k' j] uniq [of j k']
    by (auto simp: nth_list_update split: if_splits)
  moreover have "i \<notin> set (free_list c)" using clock_invD(5) [OF inv] i by auto
  ultimately show "clock_inv ?c"
    using inv i len unfolding clock_inv_def by (auto simp: nth_list_update)
  show "clock_abs ?c = (clock_abs c)(k := None)"
    using other len by (auto simp: clock_abs_def fun_eq_iff nth_list_update split: bind_split)
qed

lemma advance_hand:
  assumes "clock_inv c"
  shows "clock_inv (c\<lparr>hand := (hand c + 1) mod cs_capacity c\<rparr>)"
    "clock_abs (c\<lparr>hand := (hand c + 1) mod cs_capacity c\<rparr>) = clock_abs c"
  using assms by (auto simp: clock_inv_def clock_abs_def fun_eq_iff)

section \<open>The sweep\<close>

text \<open>
  How many steps the sweep needs to evict slot \<open>j\<close>: its distance from the hand, plus one round
  when its bit is set.
\<close>

definition steps_to :: "('k, 'v) clock \<Rightarrow> nat \<Rightarrow> nat" where
  "steps_to c j =
     (j + cs_capacity c - hand c) mod cs_capacity c
       + (if slot_bit (cs_slots c ! j) then cs_capacity c else 0)"

definition victim_ok :: "'k set \<Rightarrow> ('k, 'v) clock \<Rightarrow> nat \<Rightarrow> bool" where
  "victim_ok protected c j \<longleftrightarrow> j < cs_capacity c \<and> slot_allowed protected (cs_slots c ! j)"

lemma ring_step:
  assumes "h < n" "j < (n :: nat)"
  shows "(j + n - (h + 1) mod n) mod n = (if j = h then n - 1 else (j + n - h) mod n - 1)"
    and "j \<noteq> h \<Longrightarrow> 0 < (j + n - h) mod n"
proof -
  have wrap: "(j + n - a) mod n = (if a \<le> j then j - a else j + n - a)" if "a < n" for a
  proof (cases "a \<le> j")
    case True
    then have "j + n - a = (j - a) + n" by simp
    then show ?thesis using True assms(2) by (metis less_imp_diff_less mod_add_self2 mod_less)
  qed (use assms that in simp)
  show "j \<noteq> h \<Longrightarrow> 0 < (j + n - h) mod n" using assms by (auto simp: wrap)
  show "(j + n - (h + 1) mod n) mod n = (if j = h then n - 1 else (j + n - h) mod n - 1)"
  proof (cases "h + 1 = n")
    case True
    then show ?thesis using assms by (auto simp: wrap)
  next
    case False
    then have "(h + 1) mod n = h + 1" "h + 1 < n" using assms by simp_all
    then show ?thesis using assms by (auto simp: wrap)
  qed
qed

text \<open>What one call of the sweep promises.\<close>

definition swept :: "'k set \<Rightarrow> ('k, 'v) clock \<Rightarrow> ('k, 'v) clock \<times> ('k \<times> 'v) option \<Rightarrow> bool" where
  "swept protected c res \<longleftrightarrow> (case res of (c', ev) \<Rightarrow> clock_inv c' \<and> cs_capacity c' = cs_capacity c
     \<and> (case ev of
          None \<Rightarrow> clock_abs c' = clock_abs c \<and> free_list c' = free_list c
        | Some (k, v) \<Rightarrow> k \<notin> protected \<and> clock_abs c k = Some v \<and> clock_abs c' = (clock_abs c)(k := None)
                         \<and> length (free_list c') = Suc (length (free_list c))))"

lemma swept_trans:
  assumes "swept protected c1 res" "clock_abs c1 = clock_abs c" "cs_capacity c1 = cs_capacity c" "free_list c1 = free_list c"
  shows "swept protected c res"
  using assms by (auto simp: swept_def split: option.splits)

lemma sweep_ok:
  assumes "clock_inv c" "cs_capacity c \<noteq> 0"
  shows "swept protected c (sweep n protected c)"
  using assms
proof (induction n arbitrary: c)
  case 0
  then show ?case by (simp add: swept_def)
next
  case (Suc n)
  let ?c = "c\<lparr>hand := (hand c + 1) mod cs_capacity c\<rparr>"
  note adv = advance_hand [OF Suc.prems(1)]
  have h: "hand c < cs_capacity c" using Suc.prems clock_invD(2) by blast
  have go: "swept protected c (sweep n protected ?c)"
    by (rule swept_trans [OF Suc.IH [OF adv(1)] adv(2)]) (use Suc.prems(2) in simp_all)
  show ?case
  proof (cases "cs_slots c ! hand c")
    case Free
    then show ?thesis using go by (simp add: Let_def)
  next
    case (Occupied k v r)
    note slot = rewrite_slot [OF adv(1), of "hand c" k v r v False] empty_slot [OF adv(1), of "hand c" k v r]
    have a: "clock_abs c k = Some v"
      using h Occupied by (intro clock_abs_iff [OF Suc.prems(1), THEN iffD2] exI conjI)
    let ?d = "?c\<lparr>cs_slots := (cs_slots ?c)[hand c := Occupied k v False]\<rparr>"
    have at: "hand c < cs_capacity ?c" "cs_slots ?c ! hand c = Occupied k v r" using h Occupied by simp_all
    have d: "clock_inv ?d" "clock_abs ?d = clock_abs c"
      using slot(1,2) [OF at] adv(2) a by (simp_all only: fun_upd_triv fun_upd_idem)
    have clear: "swept protected c (sweep n protected ?d)"
      by (rule swept_trans [OF Suc.IH [OF d(1)] d(2)]) (use Suc.prems(2) in simp_all)
    have evict: "swept protected c (?c\<lparr>cs_map := (cs_map ?c)(k := None), cs_slots := (cs_slots ?c)[hand c := Free],
        free_list := free_list ?c @ [hand c]\<rparr>, Some (k, v))" if "k \<notin> protected"
      unfolding swept_def using slot(3,4) [OF at] adv(2) a that by simp
    show ?thesis using go clear evict by (simp add: Let_def Occupied)
  qed
qed

text \<open>The sweep evicts as soon as its steps exceed what some allowed victim needs.\<close>

lemma sweep_evicts:
  assumes "clock_inv c" "victim_ok protected c j" "steps_to c j < n"
  shows "snd (sweep n protected c) \<noteq> None"
  using assms
proof (induction n arbitrary: c)
  case 0
  then show ?case by simp
next
  case (Suc n)
  let ?c = "c\<lparr>hand := (hand c + 1) mod cs_capacity c\<rparr>"
  note adv = advance_hand [OF Suc.prems(1)]
  have j: "j < cs_capacity c" using Suc.prems(2) by (simp add: victim_ok_def)
  have h: "hand c < cs_capacity c" using Suc.prems(1) j clock_invD(2) by force
  have len: "length (cs_slots c) = cs_capacity c" using Suc.prems(1) clock_invD(1) by blast
  note ring = ring_step [OF h j]
  have other: "victim_ok protected ?c j \<and> steps_to ?c j < n" if "j \<noteq> hand c"
    using ring that Suc.prems(2,3) by (auto simp: victim_ok_def steps_to_def)
  show ?case
  proof (cases "cs_slots c ! hand c")
    case Free
    then have "j \<noteq> hand c" using Suc.prems(2) by (auto simp: victim_ok_def)
    then show ?thesis using Suc.IH [of ?c] adv other Free by (simp add: Let_def)
  next
    case (Occupied k v r)
    let ?d = "?c\<lparr>cs_slots := (cs_slots ?c)[hand c := Occupied k v False]\<rparr>"
    have inv_d: "clock_inv ?d" using rewrite_slot(1) [OF adv(1), of "hand c" k v r] h Occupied by simp
    consider "k \<in> protected" | "k \<notin> protected" "r" | "k \<notin> protected" "\<not> r" by blast
    then show ?thesis
    proof cases
      case 1
      then have "j \<noteq> hand c" using Suc.prems(2) Occupied by (auto simp: victim_ok_def)
      then show ?thesis using Suc.IH [of ?c] adv other Occupied 1 by (simp add: Let_def)
    next
      case 2
      have "victim_ok protected ?d j \<and> steps_to ?d j < n"
      proof (cases "j = hand c")
        case True
        then show ?thesis
          using Suc.prems(3) Occupied 2 h len ring(1) by (auto simp: victim_ok_def steps_to_def)
      next
        case False
        then show ?thesis using other [OF False] by (auto simp: victim_ok_def steps_to_def)
      qed
      then show ?thesis using Suc.IH [OF inv_d] Occupied 2 by (simp add: Let_def)
    next
      case 3
      then show ?thesis using Occupied by (simp add: Let_def)
    qed
  qed
qed

lemma steps_bound: "j < cs_capacity c \<Longrightarrow> steps_to c j < cs_capacity c * 2"
proof -
  assume "j < cs_capacity c"
  then have "(j + cs_capacity c - hand c) mod cs_capacity c < cs_capacity c" by simp
  then show ?thesis by (simp add: steps_to_def)
qed

section \<open>Insertion and removal\<close>

lemma place_ok:
  assumes inv: "clock_inv c" and free: "free_list c \<noteq> []" and new: "cs_map c k = None"
  shows "clock_inv (clock_place k v c)" "clock_abs (clock_place k v c) = (clock_abs c)(k \<mapsto> v)"
    "cs_capacity (clock_place k v c) = cs_capacity c"
proof -
  let ?i = "last (free_list c)" and ?c = "clock_place k v c"
  have i: "?i < cs_capacity c" "cs_slots c ! ?i = Free" "?i < length (cs_slots c)"
    using clock_invD(1,5) [OF inv] free last_in_set [OF free] by auto
  have split: "free_list c = butlast (free_list c) @ [?i]" using free by simp
  have "distinct (butlast (free_list c) @ [?i])" using clock_invD(4) [OF inv] split by simp
  then have d: "distinct (butlast (free_list c))" "?i \<notin> set (butlast (free_list c))" by simp_all
  have "set (free_list c) = insert ?i (set (butlast (free_list c)))"
    by (subst split) simp
  then have set_bl: "set (butlast (free_list c)) = {j. j < cs_capacity c \<and> cs_slots c ! j = Free} - {?i}"
    using clock_invD(5) [OF inv] d(2) by auto
  have other: "j \<noteq> ?i" if "cs_map c k' = Some j" for k' j
    using clock_invD(3) [OF inv, of k' j] i(2) that by auto
  have nokey: "cs_slots c ! j \<noteq> Occupied k w r" if "j < cs_capacity c" for j w r
    using clock_invD(3) [OF inv, of k j] new that by auto
  have m: "cs_map ?c k' = Some j \<longleftrightarrow> j < cs_capacity ?c \<and> (\<exists>v r. cs_slots ?c ! j = Occupied k' v r)" for k' j
    using clock_invD(3) [OF inv, of k' j] i other [of k' j] nokey [of j]
    by (auto simp: clock_place_def Let_def nth_list_update)
  show "clock_inv ?c"
    using inv d(1) set_bl i m unfolding clock_inv_def
    by (auto simp: clock_place_def Let_def nth_list_update)
  show "clock_abs ?c = (clock_abs c)(k \<mapsto> v)"
    using other i(3) by (auto simp: clock_abs_def clock_place_def Let_def fun_eq_iff nth_list_update split: bind_split)
  show "cs_capacity ?c = cs_capacity c" by (simp add: clock_place_def Let_def)
qed

lemma clock_abs_map: "clock_inv c \<Longrightarrow> clock_abs c k = None \<longleftrightarrow> cs_map c k = None"
proof (cases "cs_map c k")
  case (Some i)
  assume "clock_inv c"
  then obtain v r where "cs_slots c ! i = Occupied k v r" using clock_invD(3) [of c k i] Some by auto
  then show ?thesis using Some by (simp add: clock_abs_def)
qed (simp add: clock_abs_def)

definition put_result ::
  "'k \<Rightarrow> 'v \<Rightarrow> 'k set \<Rightarrow> ('k, 'v) clock \<Rightarrow> ('k, 'v) clock \<times> ('k \<times> 'v) option \<Rightarrow> bool" where
  "put_result k v protected c res \<longleftrightarrow> (case res of (c', ev) \<Rightarrow> clock_inv c' \<and> cs_capacity c' = cs_capacity c
     \<and> (case ev of
          Some (k', v') \<Rightarrow> k' \<notin> protected \<and> clock_abs c k' = Some v' \<and> k' \<noteq> k
                           \<and> clock_abs c' = ((clock_abs c)(k' := None))(k \<mapsto> v)
        | None \<Rightarrow> clock_abs c' = (clock_abs c)(k \<mapsto> v)
                  \<or> clock_abs c' = clock_abs c \<and> clock_abs c k = None \<and> dom (clock_abs c) \<subseteq> protected))"

lemma insert_new_ok:
  assumes inv: "clock_inv c" and cap: "cs_capacity c \<noteq> 0" and new: "cs_map c k = None"
  shows "put_result k v protected c (clock_insert_new k v protected c)"
proof (cases "free_list c = []")
  case False
  then show ?thesis
    using place_ok [OF inv False new] by (simp add: clock_insert_new_def put_result_def)
next
  case True
  obtain c1 ev where s: "clock_sweep_evict protected c = (c1, ev)" by fastforce
  have sw: "swept protected c (c1, ev)" using sweep_ok [OF inv cap] s by (metis clock_sweep_evict_def)
  have kn: "clock_abs c k = None" using clock_abs_map [OF inv] new by simp
  show ?thesis
  proof (cases ev)
    case None
    have "dom (clock_abs c) \<subseteq> protected"
    proof
      fix x assume "x \<in> dom (clock_abs c)"
      then obtain y where "clock_abs c x = Some y" by blast
      then obtain j r where j: "j < cs_capacity c" "cs_slots c ! j = Occupied x y r"
        using clock_abs_iff [OF inv] by blast
      show "x \<in> protected"
      proof (rule ccontr)
        assume "x \<notin> protected"
        then have "victim_ok protected c j" using j by (simp add: victim_ok_def)
        then have "snd (sweep (cs_capacity c * 2) protected c) \<noteq> None"
          using sweep_evicts [OF inv] steps_bound [OF j(1)] by blast
        then show False using s None by (simp add: clock_sweep_evict_def)
      qed
    qed
    then show ?thesis using True sw s None kn by (simp add: clock_insert_new_def swept_def put_result_def)
  next
    case (Some e)
    obtain x y where e: "e = (x, y)" by (cases e)
    have c1: "clock_inv c1" "cs_capacity c1 = cs_capacity c" "x \<notin> protected" "clock_abs c x = Some y"
      "clock_abs c1 = (clock_abs c)(x := None)" "free_list c1 \<noteq> []"
      using sw Some e by (auto simp: swept_def)
    have "cs_map c1 k = None" using clock_abs_map [OF c1(1), of k] c1(5) kn by (simp split: if_splits)
    from place_ok [OF c1(1,6) this, of v] show ?thesis
      using True s Some e c1 kn by (auto simp: clock_insert_new_def put_result_def)
  qed
qed

lemma put_ok:
  assumes inv: "clock_inv c" and cap: "cs_capacity c \<noteq> 0"
  shows "put_result k v protected c (put_with_constraint k v protected c)"
proof (cases "cs_map c k")
  case None
  then show ?thesis using insert_new_ok [OF inv cap None] by (simp add: put_with_constraint_def)
next
  case (Some i)
  then obtain w r where i: "i < cs_capacity c" "cs_slots c ! i = Occupied k w r"
    using clock_invD(3) [OF inv, of k i] by auto
  show ?thesis using rewrite_slot [OF inv i, of v True] Some i by (simp add: put_with_constraint_def put_result_def)
qed

lemma clock_put_inv:
  assumes "clock_inv c" and "cs_capacity c \<noteq> 0"
  shows "clock_inv (fst (clock_put k v c))" "cs_capacity (fst (clock_put k v c)) = cs_capacity c"
  using put_ok [OF assms, of k v "{}"] by (auto simp: clock_put_def put_result_def)

lemma card_dom_clock: "clock_inv c \<Longrightarrow> finite (dom (clock_abs c)) \<and> card (dom (clock_abs c)) \<le> cs_capacity c"
proof -
  assume inv: "clock_inv c"
  have "dom (clock_abs c) \<subseteq> (\<lambda>i. case cs_slots c ! i of Occupied k v r \<Rightarrow> k | Free \<Rightarrow> undefined) ` {..<cs_capacity c}"
  proof
    fix k assume "k \<in> dom (clock_abs c)"
    then obtain v where "clock_abs c k = Some v" by blast
    then obtain j r where "j < cs_capacity c" "cs_slots c ! j = Occupied k v r" using clock_abs_iff [OF inv] by blast
    then show "k \<in> (\<lambda>i. case cs_slots c ! i of Occupied k v r \<Rightarrow> k | Free \<Rightarrow> undefined) ` {..<cs_capacity c}"
      by (intro image_eqI [of _ _ j]) simp_all
  qed
  then show ?thesis using surj_card_le [OF finite_lessThan] finite_surj [OF finite_lessThan] by fastforce
qed

lemma get_ok:
  assumes "clock_inv c"
  shows "snd (clock_get k c) = clock_abs c k" "clock_inv (fst (clock_get k c))"
    "clock_abs (fst (clock_get k c)) = clock_abs c" "cs_capacity (fst (clock_get k c)) = cs_capacity c"
proof -
  have "snd (clock_get k c) = clock_abs c k \<and> clock_inv (fst (clock_get k c))
    \<and> clock_abs (fst (clock_get k c)) = clock_abs c \<and> cs_capacity (fst (clock_get k c)) = cs_capacity c"
  proof (cases "cs_map c k")
    case None
    then show ?thesis using assms by (simp add: clock_get_def clock_abs_def)
  next
    case (Some i)
    then obtain v r where i: "i < cs_capacity c" "cs_slots c ! i = Occupied k v r"
      using clock_invD(3) [OF assms, of k i] by auto
    have "clock_abs c k = Some v" using Some i by (simp add: clock_abs_def)
    then show ?thesis using rewrite_slot [OF assms i, of v True] Some i by (simp add: clock_get_def fun_upd_idem)
  qed
  then show "snd (clock_get k c) = clock_abs c k" "clock_inv (fst (clock_get k c))"
    "clock_abs (fst (clock_get k c)) = clock_abs c" "cs_capacity (fst (clock_get k c)) = cs_capacity c" by simp_all
qed

lemma remove_ok:
  assumes "clock_inv c"
  shows "snd (clock_remove k c) = clock_abs c k" "clock_inv (fst (clock_remove k c))"
    "clock_abs (fst (clock_remove k c)) = (clock_abs c)(k := None)"
    "cs_capacity (fst (clock_remove k c)) = cs_capacity c"
proof -
  have "snd (clock_remove k c) = clock_abs c k \<and> clock_inv (fst (clock_remove k c))
    \<and> clock_abs (fst (clock_remove k c)) = (clock_abs c)(k := None)
    \<and> cs_capacity (fst (clock_remove k c)) = cs_capacity c"
  proof (cases "cs_map c k")
    case None
    then have "clock_abs c k = None" by (simp add: clock_abs_def)
    then show ?thesis using assms None by (simp add: clock_remove_def fun_upd_idem)
  next
    case (Some i)
    then obtain v r where i: "i < cs_capacity c" "cs_slots c ! i = Occupied k v r"
      using clock_invD(3) [OF assms, of k i] by auto
    then show ?thesis using empty_slot [OF assms i] Some i by (simp add: clock_remove_def clock_abs_def)
  qed
  then show "snd (clock_remove k c) = clock_abs c k" "clock_inv (fst (clock_remove k c))"
    "clock_abs (fst (clock_remove k c)) = (clock_abs c)(k := None)"
    "cs_capacity (fst (clock_remove k c)) = cs_capacity c" by simp_all
qed

text \<open>
  Putting a block into the clock-sweep cache with a set of protected keys: no protected
  block is ever evicted, the evicted pair is what the cache held, nothing else leaves, and
  the new block is stored unless it is absent and every resident block is protected. In
  particular the sweep's bound of twice the capacity always suffices to find a victim.
\<close>

theorem put_with_constraint_correct:
  assumes "clock_inv c" and "cs_capacity c \<noteq> 0" and "put_with_constraint k v protected c = (c', ev)"
  shows "clock_inv c' \<and>
    (case ev of
       Some (k', v') \<Rightarrow> k' \<notin> protected \<and> clock_abs c k' = Some v' \<and> k' \<noteq> k
                        \<and> clock_abs c' = ((clock_abs c)(k' := None))(k \<mapsto> v)
     | None \<Rightarrow> clock_abs c' = (clock_abs c)(k \<mapsto> v)
               \<or> clock_abs c' = clock_abs c \<and> clock_abs c k = None \<and> dom (clock_abs c) \<subseteq> protected)"
  using put_ok [OF assms(1,2), of k v protected] assms(3) by (simp add: put_result_def)

definition demo_clock :: "(nat, nat) clock" where
  "demo_clock = fst (clock_put 2 20 (fst (clock_put 1 10 (clock_new 2))))"

theorem put_with_constraint_correct_witness:
  "put_with_constraint 3 30 {1} demo_clock = (fst (put_with_constraint 3 30 {1} demo_clock), Some (2, 20))
     \<and> clock_abs (fst (put_with_constraint 3 30 {1} demo_clock)) = [1 \<mapsto> 10, 3 \<mapsto> 30]"
proof -
  have cap0: "cs_capacity (clock_new 2 :: (nat, nat) clock) \<noteq> 0" by (simp add: clock_new_def)
  note put1 = clock_put_inv [OF clock_new_ok(1) cap0, of 1 10]
  have inv: "clock_inv demo_clock"
    unfolding demo_clock_def by (rule clock_put_inv(1) [OF put1(1)]) (use put1(2) cap0 in simp)
  have cap: "cs_capacity demo_clock \<noteq> 0" by code_simp
  have ev: "snd (put_with_constraint 3 30 {1} demo_clock) = Some (2, 20)" by code_simp
  have ab: "clock_abs demo_clock = [1 \<mapsto> 10, 2 \<mapsto> 20]"
    by (rule ext) (simp add: demo_clock_def clock_put_def put_with_constraint_def clock_insert_new_def clock_new_def
        clock_place_def clock_abs_def Let_def numeral_2_eq_2)
  have pair: "put_with_constraint 3 30 {1} demo_clock = (fst (put_with_constraint 3 30 {1} demo_clock), Some (2, 20))"
    using ev by (metis prod.collapse)
  show ?thesis
    using put_with_constraint_correct [OF inv cap pair] pair ab by (auto simp: fun_eq_iff)
qed

end
