(* ===== verification/LruCache.thy ===== *)
theory LruCache
  imports Main "HOL-Library.Monad_Syntax"
begin

text \<open>
  The LRU cache of \<open>buffer_pool/lru_cache.rs\<close>: a doubly linked list through an arena of
  slots, a map from keys to slots, and a free list of recycled slots. An access to a free
  slot panics and is \<open>None\<close>. The specification is a list of entries, most recently used
  first (\<open>lru_spec_get\<close>, \<open>lru_spec_put\<close>, \<open>lru_spec_remove\<close>); the arena refines it.
\<close>

datatype ('k, 'v) lru_slot = LNode (lkey: 'k) (lval: 'v) (lprev: "nat option") (lnext: "nat option") | LFree

record ('k, 'v) lru =
  lru_capacity :: nat
  lru_map :: "'k \<rightharpoonup> nat"
  lru_slots :: "('k, 'v) lru_slot list"
  lru_free :: "nat list"
  lru_head :: "nat option"
  lru_tail :: "nat option"

definition lru_new :: "nat \<Rightarrow> ('k, 'v) lru" where
  "lru_new capacity =
     \<lparr>lru_capacity = capacity, lru_map = Map.empty, lru_slots = [], lru_free = [], lru_head = None, lru_tail = None\<rparr>"

definition lru_node :: "nat \<Rightarrow> ('k, 'v) lru \<Rightarrow> ('k, 'v) lru_slot option" where
  "lru_node idx c =
     (if idx < length (lru_slots c) \<and> lru_slots c ! idx \<noteq> LFree then Some (lru_slots c ! idx) else None)"

text \<open>\<open>node_mut(idx).field = x\<close>.\<close>

definition set_prev :: "nat \<Rightarrow> nat option \<Rightarrow> ('k, 'v) lru \<Rightarrow> ('k, 'v) lru option" where
  "set_prev idx p c = do {
     n \<leftarrow> lru_node idx c;
     Some (c\<lparr>lru_slots := (lru_slots c)[idx := LNode (lkey n) (lval n) p (lnext n)]\<rparr>) }"

definition set_next :: "nat \<Rightarrow> nat option \<Rightarrow> ('k, 'v) lru \<Rightarrow> ('k, 'v) lru option" where
  "set_next idx x c = do {
     n \<leftarrow> lru_node idx c;
     Some (c\<lparr>lru_slots := (lru_slots c)[idx := LNode (lkey n) (lval n) (lprev n) x]\<rparr>) }"

definition set_value :: "nat \<Rightarrow> 'v \<Rightarrow> ('k, 'v) lru \<Rightarrow> ('k, 'v) lru option" where
  "set_value idx v c = do {
     n \<leftarrow> lru_node idx c;
     Some (c\<lparr>lru_slots := (lru_slots c)[idx := LNode (lkey n) v (lprev n) (lnext n)]\<rparr>) }"

definition alloc_node :: "'k \<Rightarrow> 'v \<Rightarrow> ('k, 'v) lru \<Rightarrow> ('k, 'v) lru \<times> nat" where
  "alloc_node k v c =
     (if lru_free c \<noteq> [] then
        (c\<lparr>lru_free := butlast (lru_free c), lru_slots := (lru_slots c)[last (lru_free c) := LNode k v None None]\<rparr>,
         last (lru_free c))
      else (c\<lparr>lru_slots := lru_slots c @ [LNode k v None None]\<rparr>, length (lru_slots c)))"

definition take_node :: "nat \<Rightarrow> ('k, 'v) lru \<Rightarrow> (('k, 'v) lru \<times> 'k \<times> 'v) option" where
  "take_node idx c = do {
     n \<leftarrow> lru_node idx c;
     Some (c\<lparr>lru_slots := (lru_slots c)[idx := LFree], lru_free := lru_free c @ [idx]\<rparr>, lkey n, lval n) }"

definition push_head :: "nat \<Rightarrow> ('k, 'v) lru \<Rightarrow> ('k, 'v) lru option" where
  "push_head idx c = do {
     c1 \<leftarrow> set_prev idx None c;
     c2 \<leftarrow> set_next idx (lru_head c1) c1;
     c3 \<leftarrow> (case lru_head c2 of Some old_head \<Rightarrow> set_prev old_head (Some idx) c2 | None \<Rightarrow> Some c2);
     Some (let c4 = c3\<lparr>lru_head := Some idx\<rparr>
           in if lru_tail c4 = None then c4\<lparr>lru_tail := Some idx\<rparr> else c4) }"

definition unlink :: "nat \<Rightarrow> ('k, 'v) lru \<Rightarrow> ('k, 'v) lru option" where
  "unlink idx c = do {
     n \<leftarrow> lru_node idx c;
     c1 \<leftarrow> (case lprev n of Some p \<Rightarrow> set_next p (lnext n) c | None \<Rightarrow> Some (c\<lparr>lru_head := lnext n\<rparr>));
     c2 \<leftarrow> (case lnext n of Some x \<Rightarrow> set_prev x (lprev n) c1 | None \<Rightarrow> Some (c1\<lparr>lru_tail := lprev n\<rparr>));
     c3 \<leftarrow> set_prev idx None c2;
     set_next idx None c3 }"

definition move_to_head :: "nat \<Rightarrow> ('k, 'v) lru \<Rightarrow> ('k, 'v) lru option" where
  "move_to_head idx c =
     (if lru_head c = Some idx then Some c else do { c1 \<leftarrow> unlink idx c; push_head idx c1 })"

definition evict_lru :: "('k, 'v) lru \<Rightarrow> (('k, 'v) lru \<times> ('k \<times> 'v) option) option" where
  "evict_lru c =
     (case lru_tail c of
        None \<Rightarrow> Some (c, None)
      | Some tail_idx \<Rightarrow> do {
          n \<leftarrow> lru_node tail_idx c;
          c1 \<leftarrow> unlink tail_idx (c\<lparr>lru_map := (lru_map c)(lkey n := None)\<rparr>);
          (c2, k, v) \<leftarrow> take_node tail_idx c1;
          Some (c2, Some (k, v)) })"

definition lru_len :: "('k, 'v) lru \<Rightarrow> nat" where
  "lru_len c = card (dom (lru_map c))"

definition lru_get :: "'k \<Rightarrow> ('k, 'v) lru \<Rightarrow> (('k, 'v) lru \<times> 'v option) option" where
  "lru_get key c =
     (case lru_map c key of
        None \<Rightarrow> Some (c, None)
      | Some idx \<Rightarrow> do {
          c1 \<leftarrow> move_to_head idx c;
          n \<leftarrow> lru_node idx c1;
          Some (c1, Some (lval n)) })"

definition lru_put :: "'k \<Rightarrow> 'v \<Rightarrow> ('k, 'v) lru \<Rightarrow> (('k, 'v) lru \<times> ('k \<times> 'v) option) option" where
  "lru_put key value c =
     (case lru_map c key of
        Some idx \<Rightarrow> do {
          c1 \<leftarrow> set_value idx value c;
          c2 \<leftarrow> move_to_head idx c1;
          Some (c2, None) }
      | None \<Rightarrow> do {
          (c1, evicted) \<leftarrow> (if lru_len c \<ge> lru_capacity c then evict_lru c else Some (c, None));
          (case alloc_node key value c1 of (c2, idx) \<Rightarrow> do {
             c3 \<leftarrow> push_head idx c2;
             Some (c3\<lparr>lru_map := (lru_map c3)(key \<mapsto> idx)\<rparr>, evicted) }) })"

definition lru_remove :: "'k \<Rightarrow> ('k, 'v) lru \<Rightarrow> (('k, 'v) lru \<times> 'v option) option" where
  "lru_remove key c =
     (case lru_map c key of
        None \<Rightarrow> Some (c, None)
      | Some idx \<Rightarrow> do {
          c1 \<leftarrow> unlink idx (c\<lparr>lru_map := (lru_map c)(key := None)\<rparr>);
          (c2, k, v) \<leftarrow> take_node idx c1;
          Some (c2, Some v) })"

definition lru_contains :: "'k \<Rightarrow> ('k, 'v) lru \<Rightarrow> bool" where
  "lru_contains key c \<longleftrightarrow> lru_map c key \<noteq> None"

fun tail_walk :: "nat \<Rightarrow> nat option \<Rightarrow> ('k, 'v) lru \<Rightarrow> 'k list option" where
  "tail_walk k None c = Some []"
| "tail_walk 0 (Some idx) c = Some []"
| "tail_walk (Suc k) (Some idx) c = do {
     n \<leftarrow> lru_node idx c;
     rest \<leftarrow> tail_walk k (lprev n) c;
     Some (lkey n # rest) }"

definition lru_tail_keys :: "nat \<Rightarrow> ('k, 'v) lru \<Rightarrow> 'k list option" where
  "lru_tail_keys k c = tail_walk k (lru_tail c) c"

section \<open>The list specification\<close>

definition lru_spec_get :: "'k \<Rightarrow> ('k \<times> 'v) list \<Rightarrow> ('k \<times> 'v) list \<times> 'v option" where
  "lru_spec_get k xs =
     (case map_of xs k of
        None \<Rightarrow> (xs, None)
      | Some v \<Rightarrow> ((k, v) # filter (\<lambda>e. fst e \<noteq> k) xs, Some v))"

definition lru_spec_put :: "nat \<Rightarrow> 'k \<Rightarrow> 'v \<Rightarrow> ('k \<times> 'v) list \<Rightarrow> ('k \<times> 'v) list \<times> ('k \<times> 'v) option" where
  "lru_spec_put capacity k v xs =
     (if map_of xs k \<noteq> None then ((k, v) # filter (\<lambda>e. fst e \<noteq> k) xs, None)
      else if capacity \<le> length xs \<and> xs \<noteq> [] then ((k, v) # butlast xs, Some (last xs))
      else ((k, v) # xs, None))"

definition lru_spec_remove :: "'k \<Rightarrow> ('k \<times> 'v) list \<Rightarrow> ('k \<times> 'v) list \<times> 'v option" where
  "lru_spec_remove k xs = (filter (\<lambda>e. fst e \<noteq> k) xs, map_of xs k)"

section \<open>Linked segments\<close>

definition entry_at :: "('k, 'v) lru_slot list \<Rightarrow> nat \<Rightarrow> 'k \<times> 'v" where
  "entry_at S i = (lkey (S ! i), lval (S ! i))"

definition is_node :: "('k, 'v) lru_slot list \<Rightarrow> nat \<Rightarrow> nat option \<Rightarrow> nat option \<Rightarrow> bool" where
  "is_node S i p n \<longleftrightarrow> i < length S \<and> S ! i \<noteq> LFree \<and> lprev (S ! i) = p \<and> lnext (S ! i) = n"

definition first_or :: "nat list \<Rightarrow> nat option \<Rightarrow> nat option" where
  "first_or xs n = (if xs = [] then n else Some (hd xs))"

definition last_or :: "nat list \<Rightarrow> nat option \<Rightarrow> nat option" where
  "last_or xs p = (if xs = [] then p else Some (last xs))"

text \<open>The slots \<open>xs\<close> form a segment entered from \<open>p\<close> and left to \<open>n\<close>.\<close>

fun seg :: "('k, 'v) lru_slot list \<Rightarrow> nat option \<Rightarrow> nat list \<Rightarrow> nat option \<Rightarrow> bool" where
  "seg S p [] n = True"
| "seg S p (i # xs) n = (is_node S i p (first_or xs n) \<and> seg S (Some i) xs n)"

lemma first_or_simps [simp]: "first_or [] n = n" "first_or (i # xs) n = Some i"
  by (simp_all add: first_or_def)

lemma last_or_simps [simp]: "last_or [] p = p" "last_or (xs @ [i]) p = Some i"
  by (simp_all add: last_or_def)

lemma seg_append: "seg S p (xs @ ys) n \<longleftrightarrow> seg S p xs (first_or ys n) \<and> seg S (last_or xs p) ys n"
  by (induction xs arbitrary: p) (auto simp: first_or_def last_or_def)

lemma seg_frame: "j \<notin> set xs \<Longrightarrow> seg (S[j := s]) p xs n \<longleftrightarrow> seg S p xs n"
  by (induction xs arbitrary: p) (auto simp: is_node_def)

lemma seg_lt: "seg S p xs n \<Longrightarrow> i \<in> set xs \<Longrightarrow> i < length S \<and> S ! i \<noteq> LFree"
  by (induction xs arbitrary: p) (auto simp: is_node_def)

lemma entry_at_update:
  "i < length S \<Longrightarrow> entry_at (S[i := LNode (lkey (S ! i)) (lval (S ! i)) p n]) j = entry_at S j"
  by (auto simp: entry_at_def nth_list_update)

text \<open>What a change of links leaves alone: the entries, the free slots and the bookkeeping.\<close>

definition keeps :: "('k, 'v) lru \<Rightarrow> ('k, 'v) lru \<Rightarrow> bool" where
  "keeps c c' \<longleftrightarrow> length (lru_slots c') = length (lru_slots c)
     \<and> (\<forall>i. entry_at (lru_slots c') i = entry_at (lru_slots c) i)
     \<and> (\<forall>i. lru_slots c' ! i = LFree \<longleftrightarrow> lru_slots c ! i = LFree)
     \<and> lru_map c' = lru_map c \<and> lru_free c' = lru_free c \<and> lru_capacity c' = lru_capacity c"

text \<open>Segments away from \<open>xs\<close> are untouched.\<close>

definition off :: "nat list \<Rightarrow> ('k, 'v) lru \<Rightarrow> ('k, 'v) lru \<Rightarrow> bool" where
  "off xs c c' \<longleftrightarrow> (\<forall>ys p n. set ys \<inter> set xs = {} \<longrightarrow> seg (lru_slots c') p ys n = seg (lru_slots c) p ys n)"

lemma keeps_refl [simp]: "keeps c c"
  by (simp add: keeps_def)

lemma keeps_trans: "keeps a b \<Longrightarrow> keeps b c \<Longrightarrow> keeps a c"
  by (simp add: keeps_def)

lemma lru_node_ok: "i < length (lru_slots c) \<Longrightarrow> lru_slots c ! i \<noteq> LFree \<Longrightarrow> lru_node i c = Some (lru_slots c ! i)"
  by (simp add: lru_node_def)

lemma set_link_ok:
  assumes "i < length (lru_slots c)" "lru_slots c ! i \<noteq> LFree"
  shows "\<exists>c'. set_prev i p c = Some c' \<and> keeps c c' \<and> off [i] c c' \<and> lru_head c' = lru_head c \<and> lru_tail c' = lru_tail c
      \<and> lprev (lru_slots c' ! i) = p \<and> lnext (lru_slots c' ! i) = lnext (lru_slots c ! i)"
    and "\<exists>c'. set_next i p c = Some c' \<and> keeps c c' \<and> off [i] c c' \<and> lru_head c' = lru_head c \<and> lru_tail c' = lru_tail c
      \<and> lnext (lru_slots c' ! i) = p \<and> lprev (lru_slots c' ! i) = lprev (lru_slots c ! i)"
  using assms
  by (auto simp: set_prev_def set_next_def lru_node_ok keeps_def off_def entry_at_update seg_frame nth_list_update)

lemma keeps_node: "keeps c c' \<Longrightarrow> i < length (lru_slots c) \<Longrightarrow> lru_slots c ! i \<noteq> LFree \<Longrightarrow>
    i < length (lru_slots c') \<and> lru_slots c' ! i \<noteq> LFree"
  by (simp add: keeps_def)

lemma off_mono: "off xs c c' \<Longrightarrow> set xs \<subseteq> set ys \<Longrightarrow> off ys c c'"
  by (auto simp: off_def)

lemma off_trans: "off xs a b \<Longrightarrow> off xs b c \<Longrightarrow> off xs a c"
  by (auto simp: off_def)

lemma offD: "off xs c c' \<Longrightarrow> set ys \<inter> set xs = {} \<Longrightarrow> seg (lru_slots c') p ys n = seg (lru_slots c) p ys n"
  by (simp add: off_def)

text \<open>Redirecting the end of a segment, or the head when there is none.\<close>

lemma fix_next:
  assumes "seg (lru_slots c) None xs m" "distinct xs"
  shows "\<exists>c1. (case last_or xs None of Some p \<Rightarrow> set_next p n c | None \<Rightarrow> Some (c\<lparr>lru_head := n\<rparr>)) = Some c1
    \<and> keeps c c1 \<and> off xs c c1 \<and> seg (lru_slots c1) None xs n
    \<and> lru_head c1 = (if xs = [] then n else lru_head c) \<and> lru_tail c1 = lru_tail c"
proof (cases xs rule: rev_cases)
  case Nil
  then show ?thesis by (auto simp: keeps_def off_def)
next
  case (snoc ys a)
  have a: "a < length (lru_slots c)" "lru_slots c ! a \<noteq> LFree" using seg_lt [OF assms(1)] by (auto simp: snoc)
  have parts: "seg (lru_slots c) None ys (Some a)" "lprev (lru_slots c ! a) = last_or ys None"
    using assms(1) by (simp_all add: snoc seg_append is_node_def)
  obtain c1 where c1: "set_next a n c = Some c1" "keeps c c1" "off [a] c c1" "lru_head c1 = lru_head c"
    "lru_tail c1 = lru_tail c" "lnext (lru_slots c1 ! a) = n" "lprev (lru_slots c1 ! a) = lprev (lru_slots c ! a)"
    using set_link_ok(2) [OF a] by blast
  have "seg (lru_slots c1) None ys (Some a)" using offD [OF c1(3)] parts(1) assms(2) by (simp add: snoc)
  then have "seg (lru_slots c1) None xs n"
    using keeps_node [OF c1(2) a] c1(6,7) parts(2) by (simp add: snoc seg_append is_node_def)
  then show ?thesis using c1 off_mono [OF c1(3)] by (simp add: snoc)
qed

lemma fix_prev:
  assumes "seg (lru_slots c) q ys None" "distinct ys"
  shows "\<exists>c1. (case first_or ys None of Some x \<Rightarrow> set_prev x p c | None \<Rightarrow> Some (c\<lparr>lru_tail := p\<rparr>)) = Some c1
    \<and> keeps c c1 \<and> off ys c c1 \<and> seg (lru_slots c1) p ys None
    \<and> lru_tail c1 = (if ys = [] then p else lru_tail c) \<and> lru_head c1 = lru_head c"
proof (cases ys)
  case Nil
  then show ?thesis by (auto simp: keeps_def off_def)
next
  case (Cons b zs)
  have b: "b < length (lru_slots c)" "lru_slots c ! b \<noteq> LFree" using seg_lt [OF assms(1)] by (auto simp: Cons)
  have parts: "seg (lru_slots c) (Some b) zs None" "lnext (lru_slots c ! b) = first_or zs None"
    using assms(1) by (simp_all add: Cons is_node_def)
  obtain c1 where c1: "set_prev b p c = Some c1" "keeps c c1" "off [b] c c1" "lru_head c1 = lru_head c"
    "lru_tail c1 = lru_tail c" "lprev (lru_slots c1 ! b) = p" "lnext (lru_slots c1 ! b) = lnext (lru_slots c ! b)"
    using set_link_ok(1) [OF b] by blast
  have "seg (lru_slots c1) (Some b) zs None" using offD [OF c1(3)] parts(1) assms(2) by (simp add: Cons)
  then have "seg (lru_slots c1) p ys None"
    using keeps_node [OF c1(2) b] c1(6,7) parts(2) by (simp add: Cons is_node_def)
  then show ?thesis using c1 off_mono [OF c1(3)] by (simp add: Cons)
qed

text \<open>The list threaded through the slots, with its ends.\<close>

definition linked :: "('k, 'v) lru \<Rightarrow> nat list \<Rightarrow> bool" where
  "linked c xs \<longleftrightarrow> seg (lru_slots c) None xs None \<and> distinct xs
     \<and> lru_head c = first_or xs None \<and> lru_tail c = last_or xs None"

lemma unlink_ok:
  assumes "linked c (xs @ i # ys)"
  shows "\<exists>c'. unlink i c = Some c' \<and> keeps c c' \<and> linked c' (xs @ ys)"
proof -
  let ?S = "lru_slots c"
  have seg: "seg ?S None xs (Some i)" "is_node ?S i (last_or xs None) (first_or ys None)" "seg ?S (Some i) ys None"
    and dis: "distinct xs" "distinct ys" "i \<notin> set xs" "i \<notin> set ys" "set xs \<inter> set ys = {}"
    using assms by (auto simp: linked_def seg_append)
  have ends: "lru_head c = first_or (xs @ i # ys) None" "lru_tail c = last_or (xs @ i # ys) None"
    using assms by (auto simp: linked_def)
  have i: "i < length ?S" "?S ! i \<noteq> LFree" using seg(2) by (auto simp: is_node_def)
  obtain c1 where c1: "(case last_or xs None of Some p \<Rightarrow> set_next p (first_or ys None) c
        | None \<Rightarrow> Some (c\<lparr>lru_head := first_or ys None\<rparr>)) = Some c1"
    "keeps c c1" "off xs c c1" "seg (lru_slots c1) None xs (first_or ys None)"
    "lru_head c1 = (if xs = [] then first_or ys None else lru_head c)" "lru_tail c1 = lru_tail c"
    using fix_next [OF seg(1) dis(1), of "first_or ys None"] by blast
  have "seg (lru_slots c1) (Some i) ys None" using offD [OF c1(3), of ys] seg(3) dis(5) by (simp add: Int_commute)
  from fix_prev [OF this dis(2), of "last_or xs None"]
  obtain c2 where c2: "(case first_or ys None of Some x \<Rightarrow> set_prev x (last_or xs None) c1
        | None \<Rightarrow> Some (c1\<lparr>lru_tail := last_or xs None\<rparr>)) = Some c2"
    "keeps c1 c2" "off ys c1 c2" "seg (lru_slots c2) (last_or xs None) ys None"
    "lru_tail c2 = (if ys = [] then last_or xs None else lru_tail c1)" "lru_head c2 = lru_head c1"
    by blast
  have "seg (lru_slots c2) None xs (first_or ys None)" using offD [OF c2(3), of xs] c1(4) dis(5) by simp
  then have s2: "seg (lru_slots c2) None (xs @ ys) None" using c2(4) by (simp add: seg_append)
  have i2: "i < length (lru_slots c2)" "lru_slots c2 ! i \<noteq> LFree"
    using keeps_node [OF keeps_trans [OF c1(2) c2(2)] i] by simp_all
  obtain c3 where c3: "set_prev i None c2 = Some c3" "keeps c2 c3" "off [i] c2 c3" "lru_head c3 = lru_head c2"
    "lru_tail c3 = lru_tail c2" using set_link_ok(1) [OF i2] by blast
  have i3: "i < length (lru_slots c3)" "lru_slots c3 ! i \<noteq> LFree" using keeps_node [OF c3(2) i2] by simp_all
  obtain c4 where c4: "set_next i None c3 = Some c4" "keeps c3 c4" "off [i] c3 c4" "lru_head c4 = lru_head c3"
    "lru_tail c4 = lru_tail c3" using set_link_ok(2) [OF i3] by blast
  have "seg (lru_slots c4) None (xs @ ys) None"
    using offD [OF c3(3), of "xs @ ys"] offD [OF c4(3), of "xs @ ys"] s2 dis(3,4) by simp
  then have "linked c4 (xs @ ys)"
    using dis c1(5,6) c2(5,6) c3(4,5) c4(4,5) ends by (auto simp: linked_def first_or_def last_or_def)
  moreover have "unlink i c = Some c4"
    using c1(1) c2(1) c3(1) c4(1) seg(2) by (simp add: unlink_def lru_node_ok i is_node_def cong: option.case_cong)
  moreover have "keeps c c4" using c1(2) c2(2) c3(2) c4(2) keeps_trans by blast
  ultimately show ?thesis by blast
qed

lemma push_head_ok:
  assumes l: "linked c xs" and i: "i \<notin> set xs" "i < length (lru_slots c)" "lru_slots c ! i \<noteq> LFree"
  shows "\<exists>c'. push_head i c = Some c' \<and> keeps c c' \<and> linked c' (i # xs)"
proof -
  obtain c1 where c1: "set_prev i None c = Some c1" "keeps c c1" "off [i] c c1" "lru_head c1 = lru_head c"
    "lru_tail c1 = lru_tail c" "lprev (lru_slots c1 ! i) = None" using set_link_ok(1) [OF i(2,3)] by blast
  have i1: "i < length (lru_slots c1)" "lru_slots c1 ! i \<noteq> LFree" using keeps_node [OF c1(2) i(2,3)] by simp_all
  obtain c2 where c2: "set_next i (lru_head c1) c1 = Some c2" "keeps c1 c2" "off [i] c1 c2" "lru_head c2 = lru_head c1"
    "lru_tail c2 = lru_tail c1" "lnext (lru_slots c2 ! i) = lru_head c1" "lprev (lru_slots c2 ! i) = lprev (lru_slots c1 ! i)"
    using set_link_ok(2) [OF i1] by blast
  have i2: "i < length (lru_slots c2)" "lru_slots c2 ! i \<noteq> LFree" using keeps_node [OF c2(2) i1] by simp_all
  have head: "lru_head c = first_or xs None" "lru_tail c = last_or xs None" using l by (simp_all add: linked_def)
  have "seg (lru_slots c2) None xs None"
    using offD [OF c1(3), of xs] offD [OF c2(3), of xs] l i(1) by (simp add: linked_def)
  moreover have "distinct xs" using l by (simp add: linked_def)
  ultimately obtain c3 where c3: "(case first_or xs None of Some x \<Rightarrow> set_prev x (Some i) c2
        | None \<Rightarrow> Some (c2\<lparr>lru_tail := Some i\<rparr>)) = Some c3"
    "keeps c2 c3" "off xs c2 c3" "seg (lru_slots c3) (Some i) xs None"
    "lru_tail c3 = (if xs = [] then Some i else lru_tail c2)" "lru_head c3 = lru_head c2"
    using fix_prev [of c2 None xs "Some i"] by blast
  have "seg (lru_slots c2) None [i] (first_or xs None)"
    using i2 c1 c2 head by (simp add: is_node_def)
  then have "seg (lru_slots c3) None [i] (first_or xs None)" using offD [OF c3(3), of "[i]"] i(1) by simp
  then have node: "is_node (lru_slots c3) i None (first_or xs None)" by simp
  let ?c = "c3\<lparr>lru_head := Some i\<rparr>"
  have "linked ?c (i # xs)"
    using node c3(4,5) i(1) l c1(5) c2(5) head by (auto simp: linked_def last_or_def)
  moreover have "push_head i c = Some ?c"
    using c1(1,4,5) c2(1,4,5) c3(1,5) head
    by (cases xs) (auto simp: push_head_def Let_def last_or_def)
  moreover have "keeps c ?c" using c1(2) c2(2) c3(2) by (auto simp: keeps_def)
  ultimately show ?thesis by blast
qed

section \<open>The arena refines the list\<close>

definition lru_rel :: "('k, 'v) lru \<Rightarrow> nat list \<Rightarrow> bool" where
  "lru_rel c order \<longleftrightarrow> linked c order
     \<and> (\<forall>k i. lru_map c k = Some i \<longleftrightarrow> i \<in> set order \<and> fst (entry_at (lru_slots c) i) = k)
     \<and> distinct (lru_free c) \<and> set (lru_free c) = {i. i < length (lru_slots c)} - set order"

definition lru_list :: "('k, 'v) lru \<Rightarrow> nat list \<Rightarrow> ('k \<times> 'v) list" where
  "lru_list c order = map (entry_at (lru_slots c)) order"

lemma lru_relD:
  assumes "lru_rel c order"
  shows "linked c order" "lru_map c k = Some i \<longleftrightarrow> i \<in> set order \<and> fst (entry_at (lru_slots c) i) = k"
    "distinct (lru_free c)" "set (lru_free c) = {i. i < length (lru_slots c)} - set order"
    "distinct order" "i \<in> set order \<Longrightarrow> i < length (lru_slots c) \<and> lru_slots c ! i \<noteq> LFree"
  using assms seg_lt [of "lru_slots c" None order None i] unfolding lru_rel_def linked_def by blast+

lemma lru_new_ok: "lru_rel (lru_new n) []" "lru_list (lru_new n) [] = []"
  by (auto simp: lru_rel_def lru_list_def linked_def lru_new_def)

lemma keeps_list: "keeps c c' \<Longrightarrow> lru_list c' order = lru_list c order"
  by (simp add: keeps_def lru_list_def)

lemma keeps_rel:
  assumes "lru_rel c order" "keeps c c'" "linked c' order'" "set order' = set order"
  shows "lru_rel c' order'"
  using assms by (simp add: lru_rel_def keeps_def)

lemma order_keys_distinct:
  assumes "lru_rel c order"
  shows "distinct (map fst (lru_list c order))"
proof -
  have "inj_on (\<lambda>i. fst (entry_at (lru_slots c) i)) (set order)"
  proof (rule inj_onI)
    fix i j assume "i \<in> set order" "j \<in> set order" "fst (entry_at (lru_slots c) i) = fst (entry_at (lru_slots c) j)"
    then have "lru_map c (fst (entry_at (lru_slots c) i)) = Some i" "lru_map c (fst (entry_at (lru_slots c) i)) = Some j"
      using lru_relD(2) [OF assms] by simp_all
    then show "i = j" by simp
  qed
  then show ?thesis using lru_relD(5) [OF assms] by (simp add: lru_list_def distinct_map comp_def)
qed

lemma lru_map_list:
  assumes "lru_rel c order"
  shows "lru_map c k = None \<longleftrightarrow> map_of (lru_list c order) k = None"
    and "lru_map c k = Some i \<Longrightarrow> map_of (lru_list c order) k = Some (snd (entry_at (lru_slots c) i))"
proof -
  show some: "map_of (lru_list c order) k = Some (snd (entry_at (lru_slots c) i))" if "lru_map c k = Some i" for i
  proof -
    have "i \<in> set order" "fst (entry_at (lru_slots c) i) = k" using that lru_relD(2) [OF assms] by simp_all
    then have "(k, snd (entry_at (lru_slots c) i)) \<in> set (lru_list c order)" by (force simp: lru_list_def)
    then show ?thesis using order_keys_distinct [OF assms] by simp
  qed
  show "lru_map c k = None \<longleftrightarrow> map_of (lru_list c order) k = None"
  proof (cases "lru_map c k")
    case None
    then have "i \<in> set order \<Longrightarrow> fst (entry_at (lru_slots c) i) \<noteq> k" for i
      using lru_relD(2) [OF assms, of k i] by auto
    then have "k \<notin> fst ` set (lru_list c order)" by (auto simp: lru_list_def image_image)
    then show ?thesis using None by (simp add: map_of_eq_None_iff)
  next
    case (Some i)
    then show ?thesis using some by simp
  qed
qed

lemma lru_len_list: "lru_rel c order \<Longrightarrow> lru_len c = length (lru_list c order)"
proof -
  assume rel: "lru_rel c order"
  have "dom (lru_map c) = dom (map_of (lru_list c order))"
    unfolding dom_def using lru_map_list(1) [OF rel] by simp
  then show ?thesis
    using order_keys_distinct [OF rel] by (simp add: lru_len_def dom_map_of_conv_image_fst) (metis distinct_card length_map set_map)
qed

text \<open>Dropping an entry from the list by its slot is dropping it by its key.\<close>

lemma filter_slot:
  assumes "lru_rel c order" "order = xs @ i # ys" "k = fst (entry_at (lru_slots c) i)"
  shows "filter (\<lambda>e. fst e \<noteq> k) (lru_list c order) = lru_list c (xs @ ys)"
proof -
  have "fst (entry_at (lru_slots c) j) \<noteq> k" if "j \<in> set xs \<union> set ys" for j
  proof
    assume "fst (entry_at (lru_slots c) j) = k"
    then have "lru_map c k = Some j" using lru_relD(2) [OF assms(1)] that assms(2) by auto
    moreover have "lru_map c k = Some i" using lru_relD(2) [OF assms(1)] assms(2,3) by auto
    ultimately have "j = i" by simp
    then show False using that lru_relD(5) [OF assms(1)] assms(2) by auto
  qed
  then show ?thesis using assms(2,3) by (auto simp: lru_list_def filter_map comp_def filter_id_conv)
qed

lemma move_to_head_ok:
  assumes rel: "lru_rel c order" and i: "i \<in> set order"
  shows "\<exists>c' order'. move_to_head i c = Some c' \<and> lru_rel c' (i # order') \<and> keeps c c'
    \<and> lru_list c' order' = filter (\<lambda>e. fst e \<noteq> fst (entry_at (lru_slots c) i)) (lru_list c order)"
proof -
  obtain xs ys where o: "order = xs @ i # ys" using i split_list by metis
  note lk = lru_relD(1) [OF rel, unfolded o]
  show ?thesis
  proof (cases "lru_head c = Some i")
    case True
    then have "xs = []" using lk by (cases xs) (auto simp: linked_def)
    then show ?thesis using True rel filter_slot [OF rel o refl] o by (auto simp: move_to_head_def)
  next
    case False
    obtain c1 where c1: "unlink i c = Some c1" "keeps c c1" "linked c1 (xs @ ys)" using unlink_ok [OF lk] by blast
    have i1: "i < length (lru_slots c1)" "lru_slots c1 ! i \<noteq> LFree" "i \<notin> set (xs @ ys)"
      using keeps_node [OF c1(2)] lru_relD(5,6) [OF rel] i o by auto
    obtain c2 where c2: "push_head i c1 = Some c2" "keeps c1 c2" "linked c2 (i # xs @ ys)"
      using push_head_ok [OF c1(3) i1(3,1,2)] by blast
    have k: "keeps c c2" using c1(2) c2(2) keeps_trans by blast
    have "lru_rel c2 (i # xs @ ys)" using keeps_rel [OF rel k c2(3)] o by auto
    then show ?thesis
      using False c1(1) c2(1) k keeps_list [OF k] filter_slot [OF rel o refl] by (auto simp: move_to_head_def)
  qed
qed

text \<open>Unlinking a slot and taking its node out drops its entry.\<close>

lemma drop_slot_ok:
  assumes rel: "lru_rel c order" and o: "order = xs @ i # ys" and k: "k = fst (entry_at (lru_slots c) i)"
  shows "\<exists>c1 c2. unlink i (c\<lparr>lru_map := (lru_map c)(k := None)\<rparr>) = Some c1
    \<and> take_node i c1 = Some (c2, entry_at (lru_slots c) i) \<and> lru_rel c2 (xs @ ys)
    \<and> lru_list c2 (xs @ ys) = lru_list c (xs @ ys) \<and> lru_capacity c2 = lru_capacity c"
proof -
  let ?c = "c\<lparr>lru_map := (lru_map c)(k := None)\<rparr>"
  have lk: "linked ?c (xs @ i # ys)" using lru_relD(1) [OF rel] o by (simp add: linked_def)
  obtain c1 where c1: "unlink i ?c = Some c1" "keeps ?c c1" "linked c1 (xs @ ys)" using unlink_ok [OF lk] by blast
  have i: "i < length (lru_slots c)" "lru_slots c ! i \<noteq> LFree" "i \<notin> set (xs @ ys)" "i \<notin> set (lru_free c)"
    using lru_relD(4,5,6) [OF rel] o by auto
  have i1: "i < length (lru_slots c1)" "lru_slots c1 ! i \<noteq> LFree" using keeps_node [OF c1(2)] i by simp_all
  let ?c2 = "c1\<lparr>lru_slots := (lru_slots c1)[i := LFree], lru_free := lru_free c1 @ [i]\<rparr>"
  have ent: "entry_at (lru_slots c1) j = entry_at (lru_slots c) j" for j using c1(2) by (simp add: keeps_def)
  have "take_node i c1 = Some (?c2, entry_at (lru_slots c) i)"
    using i1 ent [of i] by (simp add: take_node_def lru_node_ok entry_at_def)
  moreover have "lru_rel ?c2 (xs @ ys)"
    unfolding lru_rel_def
  proof (intro conjI allI)
    show "linked ?c2 (xs @ ys)" using c1(3) i(3) by (simp add: linked_def seg_frame)
    show "lru_map ?c2 k' = Some j \<longleftrightarrow> j \<in> set (xs @ ys) \<and> fst (entry_at (lru_slots ?c2) j) = k'" for k' j
    proof -
      have m: "lru_map ?c2 k' = Some j \<longleftrightarrow> k' \<noteq> k \<and> j \<in> set order \<and> fst (entry_at (lru_slots c) j) = k'"
        using c1(2) lru_relD(2) [OF rel, of k' j] by (simp add: keeps_def)
      show ?thesis
      proof (cases "j = i")
        case True
        then show ?thesis using m i(3) k by auto
      next
        case False
        have "lru_map c k = Some j \<Longrightarrow> False" using lru_relD(2) [OF rel, of k i] k o False by simp
        then have "\<not> (j \<in> set order \<and> fst (entry_at (lru_slots c) j) = k)" using lru_relD(2) [OF rel, of k j] by blast
        moreover have "entry_at (lru_slots ?c2) j = entry_at (lru_slots c) j"
          using ent [of j] False by (simp add: entry_at_def)
        moreover have "j \<in> set order \<longleftrightarrow> j \<in> set (xs @ ys)" using o False by auto
        ultimately show ?thesis using m by metis
      qed
    qed
    show "distinct (lru_free ?c2)" using c1(2) i(4) lru_relD(3) [OF rel] by (simp add: keeps_def)
    show "set (lru_free ?c2) = {i. i < length (lru_slots ?c2)} - set (xs @ ys)"
      using c1(2) lru_relD(4) [OF rel] i o by (auto simp: keeps_def)
  qed
  moreover have "lru_list ?c2 (xs @ ys) = lru_list c (xs @ ys)"
  proof -
    have "entry_at (lru_slots ?c2) j = entry_at (lru_slots c) j" if "j \<in> set (xs @ ys)" for j
    proof -
      have "j \<noteq> i" using that i(3) by auto
      then show ?thesis using ent [of j] by (simp add: entry_at_def)
    qed
    then show ?thesis unfolding lru_list_def by (intro map_cong) auto
  qed
  moreover have "lru_capacity ?c2 = lru_capacity c" using c1(2) by (simp add: keeps_def)
  ultimately show ?thesis using c1(1) by blast
qed

lemma lru_get_ok:
  assumes rel: "lru_rel c order"
  shows "\<exists>c' order' v. lru_get k c = Some (c', v) \<and> lru_rel c' order' \<and> lru_capacity c' = lru_capacity c
    \<and> (lru_list c' order', v) = lru_spec_get k (lru_list c order)"
proof (cases "lru_map c k")
  case None
  then have "map_of (lru_list c order) k = None" using lru_map_list(1) [OF rel] by simp
  then show ?thesis using rel None by (auto simp: lru_get_def lru_spec_get_def)
next
  case (Some i)
  have i: "i \<in> set order" "fst (entry_at (lru_slots c) i) = k" using lru_relD(2) [OF rel] Some by simp_all
  obtain c' order' where c': "move_to_head i c = Some c'" "lru_rel c' (i # order')" "keeps c c'"
    "lru_list c' order' = filter (\<lambda>e. fst e \<noteq> k) (lru_list c order)"
    using move_to_head_ok [OF rel i(1)] i(2) by auto
  have n: "lru_node i c' = Some (lru_slots c' ! i)" using lru_relD(6) [OF c'(2), of i] by (simp add: lru_node_ok)
  have e: "entry_at (lru_slots c') i = (k, snd (entry_at (lru_slots c) i))" "lval (lru_slots c' ! i) = snd (entry_at (lru_slots c) i)"
    using c'(3) i(2) unfolding keeps_def by (metis prod.collapse, metis entry_at_def snd_conv)
  show ?thesis
    using Some c' n e lru_map_list(2) [OF rel Some]
    by (intro exI [of _ c'] exI [of _ "i # order'"] exI [of _ "Some (snd (entry_at (lru_slots c) i))"])
      (simp add: lru_get_def lru_spec_get_def lru_list_def keeps_def)
qed

lemma lru_remove_ok:
  assumes rel: "lru_rel c order"
  shows "\<exists>c' order' v. lru_remove k c = Some (c', v) \<and> lru_rel c' order' \<and> lru_capacity c' = lru_capacity c
    \<and> (lru_list c' order', v) = lru_spec_remove k (lru_list c order)"
proof (cases "lru_map c k")
  case None
  then have "map_of (lru_list c order) k = None" using lru_map_list(1) [OF rel] by simp
  then have "filter (\<lambda>e. fst e \<noteq> k) (lru_list c order) = lru_list c order"
    by (auto simp: filter_id_conv map_of_eq_None_iff)
  then show ?thesis
    using rel None \<open>map_of (lru_list c order) k = None\<close> by (auto simp: lru_remove_def lru_spec_remove_def)
next
  case (Some i)
  have i: "i \<in> set order" "k = fst (entry_at (lru_slots c) i)" using lru_relD(2) [OF rel] Some by simp_all
  obtain xs ys where o: "order = xs @ i # ys" using i(1) split_list by metis
  obtain c1 c2 where c: "unlink i (c\<lparr>lru_map := (lru_map c)(k := None)\<rparr>) = Some c1"
    "take_node i c1 = Some (c2, entry_at (lru_slots c) i)" "lru_rel c2 (xs @ ys)"
    "lru_list c2 (xs @ ys) = lru_list c (xs @ ys)" "lru_capacity c2 = lru_capacity c"
    using drop_slot_ok [OF rel o i(2)] by blast
  then show ?thesis
    using Some filter_slot [OF rel o i(2)] lru_map_list(2) [OF rel Some]
    by (intro exI [of _ c2] exI [of _ "xs @ ys"] exI [of _ "Some (snd (entry_at (lru_slots c) i))"])
      (simp add: lru_remove_def lru_spec_remove_def case_prod_beta entry_at_def)
qed

lemma evict_ok:
  assumes rel: "lru_rel c order" and ne: "order \<noteq> []"
  shows "\<exists>c'. evict_lru c = Some (c', Some (last (lru_list c order))) \<and> lru_rel c' (butlast order)
    \<and> lru_list c' (butlast order) = butlast (lru_list c order) \<and> lru_capacity c' = lru_capacity c"
proof -
  obtain xs i where o: "order = xs @ [i]" using ne by (cases order rule: rev_cases) auto
  then have o': "order = xs @ i # []" by simp
  have t: "lru_tail c = Some i" using lru_relD(1) [OF rel] o by (simp add: linked_def)
  have n: "lru_node i c = Some (lru_slots c ! i)" using lru_relD(6) [OF rel, of i] o by (simp add: lru_node_ok)
  obtain c1 c2 where "unlink i (c\<lparr>lru_map := (lru_map c)(fst (entry_at (lru_slots c) i) := None)\<rparr>) = Some c1"
    "take_node i c1 = Some (c2, entry_at (lru_slots c) i)" "lru_rel c2 (xs @ [])"
    "lru_list c2 (xs @ []) = lru_list c (xs @ [])" "lru_capacity c2 = lru_capacity c"
    using drop_slot_ok [OF rel o' refl] by blast
  then show ?thesis
    using t n o by (intro exI [of _ c2]) (simp add: evict_lru_def entry_at_def lru_list_def)
qed

lemma evict_empty: "lru_rel c [] \<Longrightarrow> evict_lru c = Some (c, None)"
  by (simp add: evict_lru_def lru_rel_def linked_def)

lemma alloc_ok:
  assumes rel: "lru_rel c order"
  obtains c2 i where "alloc_node k v c = (c2, i)" "linked c2 order" "i \<notin> set order" "i < length (lru_slots c2)"
    "lru_slots c2 ! i = LNode k v None None" "\<forall>j \<in> set order. entry_at (lru_slots c2) j = entry_at (lru_slots c) j"
    "lru_map c2 = lru_map c" "lru_capacity c2 = lru_capacity c" "distinct (lru_free c2)"
    "set (lru_free c2) = {j. j < length (lru_slots c2)} - set (i # order)"
proof (cases "lru_free c = []")
  case True
  let ?c = "c\<lparr>lru_slots := lru_slots c @ [LNode k v None None]\<rparr>"
  have lt: "\<And>j. j \<in> set order \<Longrightarrow> j < length (lru_slots c)" using lru_relD(6) [OF rel] by blast
  have "seg (lru_slots c @ [LNode k v None None]) p xs n" if "seg (lru_slots c) p xs n" for p xs n
    using that by (induction xs arbitrary: p) (auto simp: is_node_def nth_append)
  then have "linked ?c order" using lru_relD(1) [OF rel] by (simp add: linked_def)
  moreover have "length (lru_slots c) \<notin> set order" using lt by blast
  moreover have "set (lru_free ?c) = {j. j < length (lru_slots ?c)} - set (length (lru_slots c) # order)"
    using lru_relD(4) [OF rel] True by (auto simp: less_Suc_eq)
  moreover have "\<forall>j \<in> set order. entry_at (lru_slots ?c) j = entry_at (lru_slots c) j"
    using lt by (simp add: entry_at_def nth_append)
  ultimately show ?thesis using True by (intro that [of ?c "length (lru_slots c)"]) (simp_all add: alloc_node_def)
next
  case False
  let ?i = "last (lru_free c)"
  let ?c = "c\<lparr>lru_free := butlast (lru_free c), lru_slots := (lru_slots c)[?i := LNode k v None None]\<rparr>"
  have fr: "lru_free c = butlast (lru_free c) @ [?i]" using False by simp
  have i: "?i < length (lru_slots c)" "?i \<notin> set order" using lru_relD(4) [OF rel] last_in_set [OF False] by auto
  have "distinct (butlast (lru_free c) @ [?i])" using lru_relD(3) [OF rel] fr by simp
  then have d: "distinct (lru_free ?c)" "?i \<notin> set (butlast (lru_free c))" by simp_all
  have "set (lru_free c) = insert ?i (set (butlast (lru_free c)))" by (subst fr) simp
  then have "set (lru_free ?c) = {j. j < length (lru_slots ?c)} - set (?i # order)"
    using lru_relD(4) [OF rel] d(2) by auto
  moreover have "linked ?c order" using lru_relD(1) [OF rel] i(2) by (simp add: linked_def seg_frame)
  moreover have "entry_at (lru_slots ?c) j = entry_at (lru_slots c) j" if "j \<in> set order" for j
  proof -
    have "j \<noteq> ?i" using that i(2) by auto
    then show ?thesis by (simp add: entry_at_def)
  qed
  ultimately show ?thesis using False i d(1) by (intro that [of ?c ?i]) (simp_all add: alloc_node_def)
qed

lemma add_entry_ok:
  assumes rel: "lru_rel c order" and new: "lru_map c k = None" and al: "alloc_node k v c = (c2, i)"
  shows "\<exists>c3. push_head i c2 = Some c3 \<and> lru_rel (c3\<lparr>lru_map := (lru_map c3)(k \<mapsto> i)\<rparr>) (i # order)
    \<and> lru_list (c3\<lparr>lru_map := (lru_map c3)(k \<mapsto> i)\<rparr>) (i # order) = (k, v) # lru_list c order
    \<and> lru_capacity c3 = lru_capacity c"
proof -
  have a: "linked c2 order" "i \<notin> set order" "i < length (lru_slots c2)" "lru_slots c2 ! i = LNode k v None None"
    "\<forall>j \<in> set order. entry_at (lru_slots c2) j = entry_at (lru_slots c) j"
    "lru_map c2 = lru_map c" "lru_capacity c2 = lru_capacity c" "distinct (lru_free c2)"
    "set (lru_free c2) = {j. j < length (lru_slots c2)} - set (i # order)"
    using alloc_ok [OF rel, of k v] al by (metis prod.inject)+
  obtain c3 where c3: "push_head i c2 = Some c3" "keeps c2 c3" "linked c3 (i # order)"
    using push_head_ok [OF a(1,2,3)] a(4) by auto
  let ?c = "c3\<lparr>lru_map := (lru_map c3)(k \<mapsto> i)\<rparr>"
  have ei: "entry_at (lru_slots c3) i = (k, v)" using c3(2) a(4) unfolding keeps_def by (simp add: entry_at_def)
  have ej: "entry_at (lru_slots c3) j = entry_at (lru_slots c) j" if "j \<in> set order" for j
    using c3(2) a(5) that unfolding keeps_def by simp
  have nokey: "fst (entry_at (lru_slots c) j) \<noteq> k" if "j \<in> set order" for j
    using lru_relD(2) [OF rel, of k j] new that by auto
  have "lru_map ?c k' = Some j \<longleftrightarrow> j \<in> set (i # order) \<and> fst (entry_at (lru_slots ?c) j) = k'" for k' j
  proof -
    have "lru_map c3 k' = Some j \<longleftrightarrow> j \<in> set order \<and> fst (entry_at (lru_slots c) j) = k'"
      using c3(2) a(6) lru_relD(2) [OF rel, of k' j] by (simp add: keeps_def)
    then show ?thesis using ei ej [of j] nokey [of j] a(2) by (cases "j = i") auto
  qed
  moreover have "linked ?c (i # order)" using c3(3) by (simp add: linked_def)
  moreover have "distinct (lru_free ?c)" "set (lru_free ?c) = {j. j < length (lru_slots ?c)} - set (i # order)"
    using c3(2) a(8,9) by (simp_all add: keeps_def)
  ultimately have "lru_rel ?c (i # order)" unfolding lru_rel_def by blast
  moreover have "lru_list ?c (i # order) = (k, v) # lru_list c order" using ei ej by (simp add: lru_list_def)
  moreover have "lru_capacity c3 = lru_capacity c" using c3(2) a(7) by (simp add: keeps_def)
  ultimately show ?thesis using c3(1) by blast
qed

lemma set_value_ok:
  assumes rel: "lru_rel c order" and i: "i \<in> set order"
  shows "\<exists>c1. set_value i v c = Some c1 \<and> lru_rel c1 order \<and> lru_capacity c1 = lru_capacity c
    \<and> entry_at (lru_slots c1) i = (fst (entry_at (lru_slots c) i), v)
    \<and> (\<forall>j. j \<noteq> i \<longrightarrow> entry_at (lru_slots c1) j = entry_at (lru_slots c) j)"
proof -
  let ?S = "lru_slots c" and ?n = "lru_slots c ! i"
  let ?c = "c\<lparr>lru_slots := ?S[i := LNode (lkey ?n) v (lprev ?n) (lnext ?n)]\<rparr>"
  have ib: "i < length ?S" "?n \<noteq> LFree" using lru_relD(6) [OF rel i] by simp_all
  have "seg (?S[i := LNode (lkey ?n) v (lprev ?n) (lnext ?n)]) p xs n \<longleftrightarrow> seg ?S p xs n" for p xs n
    using ib by (induction xs arbitrary: p) (auto simp: is_node_def nth_list_update)
  then have "linked ?c order" using lru_relD(1) [OF rel] by (simp add: linked_def)
  moreover have "fst (entry_at (lru_slots ?c) j) = fst (entry_at ?S j)" for j
    using ib by (simp add: entry_at_def nth_list_update)
  ultimately have "lru_rel ?c order" using rel by (simp add: lru_rel_def)
  then show ?thesis using ib by (simp add: set_value_def lru_node_ok entry_at_def)
qed

lemma lru_put_ok:
  assumes rel: "lru_rel c order"
  shows "\<exists>c' order' e. lru_put k v c = Some (c', e) \<and> lru_rel c' order' \<and> lru_capacity c' = lru_capacity c
    \<and> (lru_list c' order', e) = lru_spec_put (lru_capacity c) k v (lru_list c order)"
proof (cases "lru_map c k")
  case (Some i)
  have i: "i \<in> set order" "fst (entry_at (lru_slots c) i) = k" using lru_relD(2) [OF rel] Some by simp_all
  obtain xs ys where o: "order = xs @ i # ys" using i(1) split_list by metis
  obtain c1 where c1: "set_value i v c = Some c1" "lru_rel c1 order" "lru_capacity c1 = lru_capacity c"
    "entry_at (lru_slots c1) i = (k, v)" "\<And>j. j \<noteq> i \<Longrightarrow> entry_at (lru_slots c1) j = entry_at (lru_slots c) j"
    using set_value_ok [OF rel i(1), of v] i(2) by auto
  obtain c2 order' where c2: "move_to_head i c1 = Some c2" "lru_rel c2 (i # order')" "keeps c1 c2"
    "lru_list c2 order' = filter (\<lambda>e. fst e \<noteq> k) (lru_list c1 order)"
    using move_to_head_ok [OF c1(2) i(1)] c1(4) by auto
  have "i \<notin> set (xs @ ys)" using lru_relD(5) [OF rel] o by simp
  then have "entry_at (lru_slots c1) j = entry_at (lru_slots c) j" if "j \<in> set (xs @ ys)" for j
    using c1(5) that by metis
  then have "lru_list c1 (xs @ ys) = lru_list c (xs @ ys)" unfolding lru_list_def by (intro map_cong refl)
  moreover have "k = fst (entry_at (lru_slots c1) i)" "k = fst (entry_at (lru_slots c) i)" using c1(4) i(2) by simp_all
  ultimately have "lru_list c2 order' = filter (\<lambda>e. fst e \<noteq> k) (lru_list c order)"
    using filter_slot [OF c1(2) o] filter_slot [OF rel o] c2(4) by metis
  moreover have "entry_at (lru_slots c2) i = (k, v)" using c2(3) c1(4) by (simp add: keeps_def)
  moreover have "map_of (lru_list c order) k \<noteq> None" using lru_map_list(2) [OF rel Some] by simp
  moreover have "lru_capacity c2 = lru_capacity c" using c2(3) c1(3) by (simp add: keeps_def)
  ultimately show ?thesis
    using Some c1(1) c2(1,2)
    by (intro exI [of _ c2] exI [of _ "i # order'"] exI [of _ None]) (simp add: lru_put_def lru_spec_put_def lru_list_def)
next
  case None
  then have none: "map_of (lru_list c order) k = None" using lru_map_list(1) [OF rel] by simp
  have "\<exists>c1 order1 e. (if lru_len c \<ge> lru_capacity c then evict_lru c else Some (c, None)) = Some (c1, e)
      \<and> lru_rel c1 order1 \<and> lru_capacity c1 = lru_capacity c \<and> lru_map c1 k = None
      \<and> ((k, v) # lru_list c1 order1, e) = lru_spec_put (lru_capacity c) k v (lru_list c order)"
  proof (cases "lru_capacity c \<le> lru_len c \<and> order \<noteq> []")
    case True
    then obtain c1 where c1: "evict_lru c = Some (c1, Some (last (lru_list c order)))" "lru_rel c1 (butlast order)"
      "lru_list c1 (butlast order) = butlast (lru_list c order)" "lru_capacity c1 = lru_capacity c"
      using evict_ok [OF rel] by blast
    have "map_of (butlast (lru_list c order)) k = None"
      using none in_set_butlastD by (fastforce simp: map_of_eq_None_iff)
    then have "lru_map c1 k = None" using lru_map_list(1) [OF c1(2), of k] c1(3) by simp
    moreover have "lru_list c order \<noteq> []" using True by (simp add: lru_list_def)
    ultimately show ?thesis
      using True c1 none lru_len_list [OF rel]
      by (intro exI [of _ c1] exI [of _ "butlast order"] exI [of _ "Some (last (lru_list c order))"])
        (simp add: lru_spec_put_def)
  next
    case False
    then have "(if lru_len c \<ge> lru_capacity c then evict_lru c else Some (c, None)) = Some (c, None)"
      using evict_empty rel by auto
    moreover have "lru_spec_put (lru_capacity c) k v (lru_list c order) = ((k, v) # lru_list c order, None)"
      using False none lru_len_list [OF rel] by (auto simp: lru_spec_put_def lru_list_def)
    ultimately show ?thesis using rel None by auto
  qed
  then obtain c1 order1 e where c1: "(if lru_len c \<ge> lru_capacity c then evict_lru c else Some (c, None)) = Some (c1, e)"
    "lru_rel c1 order1" "lru_capacity c1 = lru_capacity c" "lru_map c1 k = None"
    "((k, v) # lru_list c1 order1, e) = lru_spec_put (lru_capacity c) k v (lru_list c order)" by blast
  obtain c2 i where al: "alloc_node k v c1 = (c2, i)" by fastforce
  obtain c3 where c3: "push_head i c2 = Some c3" "lru_rel (c3\<lparr>lru_map := (lru_map c3)(k \<mapsto> i)\<rparr>) (i # order1)"
    "lru_list (c3\<lparr>lru_map := (lru_map c3)(k \<mapsto> i)\<rparr>) (i # order1) = (k, v) # lru_list c1 order1"
    "lru_capacity c3 = lru_capacity c1" using add_entry_ok [OF c1(2,4) al] by blast
  have "lru_put k v c = Some (c3\<lparr>lru_map := (lru_map c3)(k \<mapsto> i)\<rparr>, e)"
    using None c1(1) al c3(1) by (simp add: lru_put_def)
  then show ?thesis
    using c3 c1(3,5) by (intro exI [of _ "c3\<lparr>lru_map := (lru_map c3)(k \<mapsto> i)\<rparr>"] exI [of _ "i # order1"] exI [of _ e]) simp
qed

lemma tail_walk_ok:
  "seg (lru_slots c) None xs m \<Longrightarrow> tail_walk k (last_or xs None) c = Some (take k (rev (map fst (lru_list c xs))))"
proof (induction xs arbitrary: k m rule: rev_induct)
  case Nil
  then show ?case by (simp add: lru_list_def)
next
  case (snoc i xs)
  show ?case
  proof (cases k)
    case 0
    then show ?thesis by simp
  next
    case (Suc k')
    have i: "i < length (lru_slots c)" "lru_slots c ! i \<noteq> LFree" "lprev (lru_slots c ! i) = last_or xs None"
      using snoc.prems by (simp_all add: seg_append is_node_def)
    have "seg (lru_slots c) None xs (Some i)" using snoc.prems by (simp add: seg_append)
    from snoc.IH [OF this, of k'] show ?thesis using Suc i by (simp add: lru_node_ok lru_list_def entry_at_def)
  qed
qed

section \<open>Runs of operations\<close>

datatype ('k, 'v) lru_op = LGet 'k | LPut 'k 'v | LRemove 'k | LTail nat

datatype ('k, 'v) lru_out = OVal "'v option" | OEvict "('k \<times> 'v) option" | OKeys "'k list"

fun lru_step :: "('k, 'v) lru_op \<Rightarrow> ('k, 'v) lru \<Rightarrow> (('k, 'v) lru \<times> ('k, 'v) lru_out) option" where
  "lru_step (LGet k) c = map_option (\<lambda>(c, v). (c, OVal v)) (lru_get k c)"
| "lru_step (LPut k v) c = map_option (\<lambda>(c, e). (c, OEvict e)) (lru_put k v c)"
| "lru_step (LRemove k) c = map_option (\<lambda>(c, v). (c, OVal v)) (lru_remove k c)"
| "lru_step (LTail n) c = map_option (\<lambda>ks. (c, OKeys ks)) (lru_tail_keys n c)"

fun lru_run :: "('k, 'v) lru_op list \<Rightarrow> ('k, 'v) lru \<Rightarrow> (('k, 'v) lru \<times> ('k, 'v) lru_out list) option" where
  "lru_run [] c = Some (c, [])"
| "lru_run (p # ps) c = do {
     (c1, o1) \<leftarrow> lru_step p c;
     (c2, os) \<leftarrow> lru_run ps c1;
     Some (c2, o1 # os) }"

fun spec_step :: "nat \<Rightarrow> ('k, 'v) lru_op \<Rightarrow> ('k \<times> 'v) list \<Rightarrow> ('k \<times> 'v) list \<times> ('k, 'v) lru_out" where
  "spec_step cap (LGet k) xs = (case lru_spec_get k xs of (ys, v) \<Rightarrow> (ys, OVal v))"
| "spec_step cap (LPut k v) xs = (case lru_spec_put cap k v xs of (ys, e) \<Rightarrow> (ys, OEvict e))"
| "spec_step cap (LRemove k) xs = (case lru_spec_remove k xs of (ys, v) \<Rightarrow> (ys, OVal v))"
| "spec_step cap (LTail n) xs = (xs, OKeys (take n (rev (map fst xs))))"

fun spec_run :: "nat \<Rightarrow> ('k, 'v) lru_op list \<Rightarrow> ('k \<times> 'v) list \<Rightarrow> ('k \<times> 'v) list \<times> ('k, 'v) lru_out list" where
  "spec_run cap [] xs = (xs, [])"
| "spec_run cap (p # ps) xs =
     (case spec_step cap p xs of (ys, o1) \<Rightarrow> case spec_run cap ps ys of (zs, os) \<Rightarrow> (zs, o1 # os))"

lemma lru_step_ok:
  assumes rel: "lru_rel c order"
  shows "\<exists>c' order' out. lru_step p c = Some (c', out) \<and> lru_rel c' order' \<and> lru_capacity c' = lru_capacity c
    \<and> spec_step (lru_capacity c) p (lru_list c order) = (lru_list c' order', out)"
proof (cases p)
  case (LGet k)
  then show ?thesis using lru_get_ok [OF rel, of k] by (force split: prod.splits)
next
  case (LPut k v)
  then show ?thesis using lru_put_ok [OF rel, of k v] by (force split: prod.splits)
next
  case (LRemove k)
  then show ?thesis using lru_remove_ok [OF rel, of k] by (force split: prod.splits)
next
  case (LTail n)
  have "seg (lru_slots c) None order None" "lru_tail c = last_or order None"
    using lru_relD(1) [OF rel] by (simp_all add: linked_def)
  then show ?thesis using LTail tail_walk_ok rel by (fastforce simp: lru_tail_keys_def)
qed

lemma lru_run_ok:
  "lru_rel c order \<Longrightarrow> \<exists>c' order' outs. lru_run ps c = Some (c', outs) \<and> lru_rel c' order'
     \<and> spec_run (lru_capacity c) ps (lru_list c order) = (lru_list c' order', outs)"
proof (induction ps arbitrary: c order)
  case Nil
  then show ?case by auto
next
  case (Cons p ps)
  obtain c1 order1 out where s: "lru_step p c = Some (c1, out)" "lru_rel c1 order1" "lru_capacity c1 = lru_capacity c"
    "spec_step (lru_capacity c) p (lru_list c order) = (lru_list c1 order1, out)"
    using lru_step_ok [OF Cons.prems] by blast
  obtain c2 order2 outs where r: "lru_run ps c1 = Some (c2, outs)" "lru_rel c2 order2"
    "spec_run (lru_capacity c1) ps (lru_list c1 order1) = (lru_list c2 order2, outs)"
    using Cons.IH [OF s(2)] by blast
  show ?case using s r by (intro exI [of _ c2] exI [of _ order2] exI [of _ "out # outs"]) simp
qed

lemma spec_length: "length xs \<le> max cap 1 \<Longrightarrow> length (fst (spec_run cap ps xs)) \<le> max cap 1"
proof (induction ps arbitrary: xs)
  case Nil
  then show ?case by simp
next
  case (Cons p ps)
  have fl: "length (filter (\<lambda>e. fst e \<noteq> k) xs) < length xs" if "map_of xs k = Some v" for k v
    using map_of_SomeD [OF that] by (intro length_filter_less [of "(k, v)"]) auto
  have "length (fst (spec_step cap p xs)) \<le> max cap 1"
  proof (cases p)
    case (LGet k)
    then show ?thesis using Cons.prems fl [of k] by (auto simp: lru_spec_get_def split: option.split)
  next
    case (LPut k v)
    then show ?thesis using Cons.prems fl [of k] by (fastforce simp: lru_spec_put_def)
  next
    case (LRemove k)
    then show ?thesis
      using le_trans [OF length_filter_le Cons.prems, of "\<lambda>e. fst e \<noteq> k"] by (simp add: lru_spec_remove_def)
  qed (use Cons.prems in simp)
  then show ?case using Cons.IH [of "fst (spec_step cap p xs)"] by (simp add: case_prod_beta)
qed

text \<open>
  C40: The LRU arena implements the list of entries in order of use. Any sequence of lookups,
  insertions, removals and tail samples on a new cache runs without touching a free slot,
  returns exactly what the list returns (a full cache evicts the least recently used
  entry), and never holds more than its capacity, or one entry when the capacity is zero.
\<close>

theorem lru_refines_list:
  "\<exists>c order outs. lru_run ps (lru_new cap) = Some (c, outs) \<and> spec_run cap ps [] = (lru_list c order, outs)
     \<and> lru_rel c order \<and> lru_len c \<le> max cap 1"
proof -
  obtain c order outs where r: "lru_run ps (lru_new cap) = Some (c, outs)" "lru_rel c order"
    "spec_run cap ps [] = (lru_list c order, outs)"
    using lru_run_ok [OF lru_new_ok(1) [of cap], of ps] by (auto simp: lru_new_ok(2)) (auto simp: lru_new_def)
  then have "lru_len c \<le> max cap 1" using spec_length [of "[]" cap ps] lru_len_list [OF r(2)] by simp
  then show ?thesis using r by blast
qed

end
