(* ===== verification/BlobLog.thy ===== *)
theory BlobLog
  imports Format Complex_Main "HOL-Library.Product_Lexorder"
begin

text \<open>
  The blob log (\<open>blob_log/mod.rs\<close>), which keeps values above a threshold outside the tree:
  several append-only files with one writer each, an index from content hashes to references
  that deduplicates values, reference counts, and the garbage collection that copies the live
  values of a file to a new one. A file has a name, its number, and an inode: a writer keeps
  the inode open when the name is removed. XXH3 is a parameter, \<open>io\<close> says which calls fail,
  \<open>iter\<close> and \<open>ls\<close> are the orders of the hash map and of the directory. One operation runs at a
  time; the directory holds only blob files.
\<close>

section \<open>References\<close>

definition BLOB_ENTRY_MAGIC :: u32 where "BLOB_ENTRY_MAGIC = 0x424C4F42"
definition BLOB_ENTRY_MAGIC_V2 :: u32 where "BLOB_ENTRY_MAGIC_V2 = 0x424C4232"
definition BLOB_REF_SIZE :: nat where "BLOB_REF_SIZE = 20"
definition CONTENT_HASH_SIZE :: nat where "CONTENT_HASH_SIZE = 16"
definition BLOB_MARKER_SIZE :: nat where "BLOB_MARKER_SIZE = 1 + CONTENT_HASH_SIZE + BLOB_REF_SIZE"
definition BLOB_REF_TAG :: u8 where "BLOB_REF_TAG = 0xFF"

record blob_ref =
  br_file_id :: u64
  br_offset :: u64
  br_length :: u32

definition blob_ref_to_bytes :: "blob_ref \<Rightarrow> bytes" where
  "blob_ref_to_bytes r = to_le_bytes (br_file_id r) @ to_le_bytes (br_offset r) @ to_le_bytes (br_length r)"

definition blob_ref_from_bytes :: "bytes \<Rightarrow> blob_ref option" where
  "blob_ref_from_bytes data =
     (if length data < BLOB_REF_SIZE then None
      else Some \<lparr>br_file_id = from_le_bytes (sub_slice 0 8 data), br_offset = from_le_bytes (sub_slice 8 16 data),
                 br_length = from_le_bytes (sub_slice 16 20 data)\<rparr>)"

definition encode_blob_ref :: "bytes \<Rightarrow> blob_ref \<Rightarrow> bytes" where
  "encode_blob_ref hash r = BLOB_REF_TAG # hash @ blob_ref_to_bytes r"

definition decode_blob_ref :: "bytes \<Rightarrow> (bytes \<times> blob_ref) option" where
  "decode_blob_ref value =
     (if length value \<noteq> BLOB_MARKER_SIZE then None
      else if hd value \<noteq> BLOB_REF_TAG then None
      else map_option (Pair (sub_slice 1 (1 + CONTENT_HASH_SIZE) value)) (blob_ref_from_bytes (drop (1 + CONTENT_HASH_SIZE) value)))"

definition should_separate :: "bytes \<Rightarrow> nat \<Rightarrow> bool" where
  "should_separate value threshold \<longleftrightarrow> length value > threshold"

section \<open>Files and writers\<close>

record blob_fs =
  names :: "u64 \<rightharpoonup> nat"
  contents :: "nat \<Rightarrow> bytes"
  fresh_inode :: nat

record blob_io =
  open_fault :: "u64 \<Rightarrow> io_error option"
  write_fault :: "u64 \<Rightarrow> nat \<Rightarrow> (io_error \<times> nat) option"

definition open_append :: "u64 \<Rightarrow> blob_fs \<Rightarrow> nat \<times> blob_fs" where
  "open_append i fs =
     (case names fs i of
        Some ino \<Rightarrow> (ino, fs)
      | None \<Rightarrow> (fresh_inode fs, fs\<lparr>names := (names fs)(i \<mapsto> fresh_inode fs),
                   contents := (contents fs)(fresh_inode fs := []), fresh_inode := fresh_inode fs + 1\<rparr>))"

record blob_writer =
  bw_file_id :: u64
  bw_inode :: nat
  bw_offset :: u64

definition new_blob_writer :: "blob_io \<Rightarrow> u64 \<Rightarrow> blob_fs \<Rightarrow> (io_error + blob_writer) \<times> blob_fs" where
  "new_blob_writer io i fs =
     (case open_fault io i of
        Some e \<Rightarrow> (Inl e, fs)
      | None \<Rightarrow>
        (let (ino, fs) = open_append i fs
         in (Inr \<lparr>bw_file_id = i, bw_inode = ino, bw_offset = word_of_nat (length (contents fs ino))\<rparr>, fs)))"

definition blob_entry :: "(bytes \<Rightarrow> u64) \<Rightarrow> bytes \<Rightarrow> bytes \<Rightarrow> bytes" where
  "blob_entry h64 value hash =
     (let entry = to_le_bytes BLOB_ENTRY_MAGIC_V2 @ to_le_bytes (current_write BLOB)
            @ to_le_bytes (word_of_nat (length value) :: u32) @ hash @ value
      in entry @ to_le_bytes (h64 entry))"

definition write_value ::
  "(bytes \<Rightarrow> u64) \<Rightarrow> blob_io \<Rightarrow> bytes \<Rightarrow> bytes \<Rightarrow> blob_writer \<Rightarrow> blob_fs \<Rightarrow> (io_error + blob_ref) \<times> blob_writer \<times> blob_fs" where
  "write_value h64 io value hash w fs =
     (let entry = blob_entry h64 value hash;
          f = contents fs (bw_inode w)
      in case write_fault io (bw_file_id w) (length f) of
           Some (e, k) \<Rightarrow> (Inl e, w, fs\<lparr>contents := (contents fs)(bw_inode w := f @ take k entry)\<rparr>)
         | None \<Rightarrow>
           (Inr \<lparr>br_file_id = bw_file_id w, br_offset = bw_offset w, br_length = word_of_nat (length value)\<rparr>,
            w\<lparr>bw_offset := bw_offset w + word_of_nat (length entry)\<rparr>,
            fs\<lparr>contents := (contents fs)(bw_inode w := f @ entry)\<rparr>))"

section \<open>The log\<close>

record blob_log =
  bl_fs :: blob_fs
  writers :: "blob_writer list"
  next_writer :: u64
  blob_index :: "bytes \<rightharpoonup> blob_ref"
  next_file_id :: u64
  live_refs :: "blob_ref \<rightharpoonup> u64"
  blob_threshold :: nat

definition DEFAULT_NUM_QUEUES :: nat where "DEFAULT_NUM_QUEUES = 4"

fun open_writers :: "blob_io \<Rightarrow> u64 list \<Rightarrow> blob_fs \<Rightarrow> (io_error + blob_writer list) \<times> blob_fs" where
  "open_writers io [] fs = (Inr [], fs)"
| "open_writers io (i # is) fs =
     (case new_blob_writer io i fs of
        (Inl e, fs) \<Rightarrow> (Inl e, fs)
      | (Inr w, fs) \<Rightarrow>
        (case open_writers io is fs of
           (Inl e, fs) \<Rightarrow> (Inl e, fs)
         | (Inr ws, fs) \<Rightarrow> (Inr (w # ws), fs)))"

definition new_blob_log :: "blob_io \<Rightarrow> blob_fs \<Rightarrow> nat \<Rightarrow> nat \<Rightarrow> (io_error + blob_log) \<times> blob_fs" where
  "new_blob_log io fs num_queues threshold =
     (let num_queues = (if num_queues = 0 then DEFAULT_NUM_QUEUES else num_queues)
      in case open_writers io (map word_of_nat [0..<num_queues]) fs of
           (Inl e, fs) \<Rightarrow> (Inl e, fs)
         | (Inr ws, fs) \<Rightarrow>
           (Inr \<lparr>bl_fs = fs, writers = ws, next_writer = 0, blob_index = Map.empty, next_file_id = word_of_nat num_queues,
                 live_refs = Map.empty, blob_threshold = threshold\<rparr>, fs))"

definition DEFAULT_BLOB_THRESHOLD :: nat where "DEFAULT_BLOB_THRESHOLD = 1024"

definition blob_log_with_defaults :: "blob_io \<Rightarrow> blob_fs \<Rightarrow> (io_error + blob_log) \<times> blob_fs" where
  "blob_log_with_defaults io fs = new_blob_log io fs DEFAULT_NUM_QUEUES DEFAULT_BLOB_THRESHOLD"

definition log_should_separate :: "blob_log \<Rightarrow> bytes \<Rightarrow> bool" where
  "log_should_separate s value = should_separate value (blob_threshold s)"

definition count_ref :: "blob_ref \<Rightarrow> (blob_ref \<rightharpoonup> u64) \<Rightarrow> (blob_ref \<rightharpoonup> u64)" where
  "count_ref r live = live(r \<mapsto> (case live r of None \<Rightarrow> 0 | Some c \<Rightarrow> c) + 1)"

definition blob_write ::
  "(bytes \<Rightarrow> u64) \<Rightarrow> (bytes \<Rightarrow> bytes) \<Rightarrow> blob_io \<Rightarrow> bytes \<Rightarrow> blob_log \<Rightarrow> (io_error + bytes \<times> blob_ref) \<times> blob_log" where
  "blob_write h64 h128 io value s =
     (let hash = h128 value
      in case blob_index s hash of
           Some r \<Rightarrow> (Inr (hash, r), s\<lparr>live_refs := count_ref r (live_refs s)\<rparr>)
         | None \<Rightarrow>
           (let idx = unat (next_writer s mod word_of_nat (length (writers s)));
                s = s\<lparr>next_writer := next_writer s + 1\<rparr>
            in case write_value h64 io value hash (writers s ! idx) (bl_fs s) of
                 (Inl e, w, fs) \<Rightarrow> (Inl e, s\<lparr>writers := (writers s)[idx := w], bl_fs := fs\<rparr>)
               | (Inr r, w, fs) \<Rightarrow>
                 (Inr (hash, r), s\<lparr>writers := (writers s)[idx := w], bl_fs := fs, blob_index := (blob_index s)(hash \<mapsto> r),
                    live_refs := count_ref r (live_refs s)\<rparr>)))"

definition io_read_exact :: "nat \<Rightarrow> bytes \<Rightarrow> io_error + bytes \<times> bytes" where
  "io_read_exact n cur = (if length cur < n then Inl UnexpectedEof else Inr (take n cur, drop n cur))"

text \<open>The header of an entry after its magic, in the versioned and in the legacy layout.\<close>

definition read_blob_header :: "bytes \<Rightarrow> io_error + (bytes \<times> u32) \<times> bytes" where
  "read_blob_header cur =
     (case io_read_exact 4 cur of
        Inl e \<Rightarrow> Inl e
      | Inr (magic_buf, cur) \<Rightarrow>
        if from_le_bytes magic_buf = BLOB_ENTRY_MAGIC_V2
        then (case io_read_exact 22 cur of
                Inl e \<Rightarrow> Inl e
              | Inr (rest, cur) \<Rightarrow>
                (case check_format BLOB (from_le_bytes (sub_slice 0 2 rest)) of
                   Inl _ \<Rightarrow> Inl InvalidData
                 | Inr _ \<Rightarrow> Inr ((magic_buf @ rest, from_le_bytes (sub_slice 2 6 rest)), cur)))
        else if from_le_bytes magic_buf = BLOB_ENTRY_MAGIC
        then (case io_read_exact 20 cur of
                Inl e \<Rightarrow> Inl e
              | Inr (rest, cur) \<Rightarrow> Inr ((magic_buf @ rest, from_le_bytes (sub_slice 0 4 rest)), cur))
        else Inl InvalidData)"

definition blob_read :: "(bytes \<Rightarrow> u64) \<Rightarrow> blob_log \<Rightarrow> blob_ref \<Rightarrow> io_error + bytes" where
  "blob_read h64 s r =
     (case names (bl_fs s) (br_file_id r) of
        None \<Rightarrow> Inl NotFound
      | Some ino \<Rightarrow>
        (case read_blob_header (drop (unat (br_offset r)) (contents (bl_fs s) ino)) of
           Inl e \<Rightarrow> Inl e
         | Inr ((header, len), cur) \<Rightarrow>
           if len \<noteq> br_length r then Inl InvalidData
           else (case io_read_exact (unat len) cur of
                   Inl e \<Rightarrow> Inl e
                 | Inr (value, cur) \<Rightarrow>
                   (case io_read_exact 8 cur of
                      Inl e \<Rightarrow> Inl e
                    | Inr (checksum_bytes, _) \<Rightarrow>
                      if from_le_bytes checksum_bytes \<noteq> h64 (header @ value) then Inl InvalidData else Inr value))))"

definition read_transparent :: "(bytes \<Rightarrow> u64) \<Rightarrow> blob_log \<Rightarrow> bytes \<Rightarrow> io_error + bytes" where
  "read_transparent h64 s value =
     (case decode_blob_ref value of
        Some (_, r) \<Rightarrow> blob_read h64 s r
      | None \<Rightarrow> Inr value)"

definition mark_dead :: "blob_ref \<Rightarrow> blob_log \<Rightarrow> blob_log" where
  "mark_dead r s =
     (case live_refs s r of
        None \<Rightarrow> s
      | Some c \<Rightarrow>
        (let c' = (if c = 0 then 0 else c - 1)
         in s\<lparr>live_refs := (live_refs s)(r := if c' = 0 then None else Some c')\<rparr>))"

definition lookup_by_hash :: "blob_log \<Rightarrow> bytes \<Rightarrow> blob_ref option" where
  "lookup_by_hash s hash = blob_index s hash"

section \<open>Garbage collection\<close>

record blob_file_stats =
  live_bytes :: u64
  total_bytes :: u64
  live_count :: u64
  total_count :: u64
  st_file_id :: u64

text \<open>The ratio is computed in floating point; it is exact here. Both comparisons agree while
  the sizes are below \<open>2\<^sup>5\<^sup>2\<close>.\<close>

definition discard_ratio :: "blob_file_stats \<Rightarrow> real" where
  "discard_ratio st = (if total_bytes st = 0 then 0 else 1 - real (unat (live_bytes st)) / real (unat (total_bytes st)))"

definition GC_DISCARD_RATIO :: real where "GC_DISCARD_RATIO = 1 / 2"

definition needs_gc :: "blob_file_stats \<Rightarrow> bool" where
  "needs_gc st \<longleftrightarrow> discard_ratio st > GC_DISCARD_RATIO"

definition is_live :: "(blob_ref \<rightharpoonup> u64) \<Rightarrow> blob_ref \<Rightarrow> bool" where
  "is_live live r \<longleftrightarrow> (case live r of Some c \<Rightarrow> c > 0 | None \<Rightarrow> False)"

definition live_by_file :: "blob_ref list \<Rightarrow> (blob_ref \<rightharpoonup> u64) \<Rightarrow> u64 \<Rightarrow> u64 \<times> u64" where
  "live_by_file order live i =
     fold (\<lambda>r (b, c). (b + (24 + ucast (br_length r) + 8), c + 1))
       (filter (\<lambda>r. br_file_id r = i \<and> is_live live r) order) (0, 0)"

definition collect_file_stats ::
  "((blob_ref \<rightharpoonup> u64) \<Rightarrow> blob_ref list) \<Rightarrow> ((u64 \<rightharpoonup> nat) \<Rightarrow> u64 list) \<Rightarrow> blob_log \<Rightarrow> blob_file_stats list" where
  "collect_file_stats iter ls s =
     map (\<lambda>i. let total = word_of_nat (length (contents (bl_fs s) (the (names (bl_fs s) i))));
                  (lb, lc) = live_by_file (iter (live_refs s)) (live_refs s) i;
                  avg = (if lc = 0 then 24 + 2048 + 8 else lb div lc);
                  count = (if avg = 0 then 0 else total div avg)
              in \<lparr>live_bytes = lb, total_bytes = total, live_count = lc, total_count = count, st_file_id = i\<rparr>)
       (ls (names (bl_fs s)))"

fun copy_live ::
  "(bytes \<Rightarrow> u64) \<Rightarrow> (bytes \<Rightarrow> bytes) \<Rightarrow> blob_io \<Rightarrow> blob_ref list \<Rightarrow> blob_writer \<Rightarrow> blob_log
   \<Rightarrow> (io_error + (bytes \<times> blob_ref \<times> blob_ref) list) \<times> blob_log" where
  "copy_live h64 h128 io [] w s = (Inr [], s)"
| "copy_live h64 h128 io (old # olds) w s =
     (case blob_read h64 s old of
        Inl _ \<Rightarrow> copy_live h64 h128 io olds w s
      | Inr value \<Rightarrow>
        (case write_value h64 io value (h128 value) w (bl_fs s) of
           (Inl e, w, fs) \<Rightarrow> (Inl e, s\<lparr>bl_fs := fs\<rparr>)
         | (Inr new, w, fs) \<Rightarrow>
           (case copy_live h64 h128 io olds w (s\<lparr>bl_fs := fs\<rparr>) of
              (Inl e, s) \<Rightarrow> (Inl e, s)
            | (Inr refs, s) \<Rightarrow> (Inr ((h128 value, old, new) # refs), s))))"

definition move_ref :: "bytes \<times> blob_ref \<times> blob_ref \<Rightarrow> blob_log \<Rightarrow> blob_log" where
  "move_ref x s =
     (case x of (hash, old, new) \<Rightarrow>
        (let count = (case live_refs s old of None \<Rightarrow> 1 | Some c \<Rightarrow> c)
         in s\<lparr>blob_index := (blob_index s)(hash \<mapsto> new), live_refs := ((live_refs s)(old := None))(new \<mapsto> count)\<rparr>))"

definition remove_blob_file :: "u64 \<Rightarrow> blob_fs \<Rightarrow> blob_fs" where
  "remove_blob_file i fs = fs\<lparr>names := (names fs)(i := None)\<rparr>"

definition gc_file ::
  "(bytes \<Rightarrow> u64) \<Rightarrow> (bytes \<Rightarrow> bytes) \<Rightarrow> blob_io \<Rightarrow> ((blob_ref \<rightharpoonup> u64) \<Rightarrow> blob_ref list) \<Rightarrow> u64 \<Rightarrow> blob_log
   \<Rightarrow> (io_error + unit) \<times> blob_log" where
  "gc_file h64 h128 io iter i s =
     (let refs = filter (\<lambda>r. br_file_id r = i \<and> is_live (live_refs s) r) (iter (live_refs s))
      in if refs = []
         then (Inr (), s\<lparr>bl_fs := remove_blob_file i (bl_fs s),
                 blob_index := (\<lambda>h. case blob_index s h of Some r \<Rightarrow> (if br_file_id r \<noteq> i then Some r else None) | None \<Rightarrow> None)\<rparr>)
         else
           let new_file_id = next_file_id s;
               s = s\<lparr>next_file_id := new_file_id + 1\<rparr>
           in case new_blob_writer io new_file_id (bl_fs s) of
                (Inl e, fs) \<Rightarrow> (Inl e, s\<lparr>bl_fs := fs\<rparr>)
              | (Inr w, fs) \<Rightarrow>
                (case copy_live h64 h128 io refs w (s\<lparr>bl_fs := fs\<rparr>) of
                   (Inl e, s) \<Rightarrow> (Inl e, s)
                 | (Inr moved, s) \<Rightarrow>
                   (let s = fold move_ref moved s
                    in (Inr (), s\<lparr>bl_fs := remove_blob_file i (bl_fs s)\<rparr>))))"

fun gc_files ::
  "(bytes \<Rightarrow> u64) \<Rightarrow> (bytes \<Rightarrow> bytes) \<Rightarrow> blob_io \<Rightarrow> ((blob_ref \<rightharpoonup> u64) \<Rightarrow> blob_ref list) \<Rightarrow> blob_file_stats list \<Rightarrow> nat \<Rightarrow> blob_log
   \<Rightarrow> (io_error + nat) \<times> blob_log" where
  "gc_files h64 h128 io iter [] compacted s = (Inr compacted, s)"
| "gc_files h64 h128 io iter (st # sts) compacted s =
     (if \<not> needs_gc st then gc_files h64 h128 io iter sts compacted s
      else case gc_file h64 h128 io iter (st_file_id st) s of
             (Inl e, s) \<Rightarrow> (Inl e, s)
           | (Inr _, s) \<Rightarrow> gc_files h64 h128 io iter sts (Suc compacted) s)"

definition run_gc ::
  "(bytes \<Rightarrow> u64) \<Rightarrow> (bytes \<Rightarrow> bytes) \<Rightarrow> blob_io \<Rightarrow> ((blob_ref \<rightharpoonup> u64) \<Rightarrow> blob_ref list) \<Rightarrow> ((u64 \<rightharpoonup> nat) \<Rightarrow> u64 list) \<Rightarrow> blob_log
   \<Rightarrow> (io_error + nat) \<times> blob_log" where
  "run_gc h64 h128 io iter ls s = gc_files h64 h128 io iter (collect_file_stats iter ls s) 0 s"

section \<open>Reading back\<close>

definition hash_ok :: "(bytes \<Rightarrow> bytes) \<Rightarrow> bool" where
  "hash_ok h128 \<longleftrightarrow> (\<forall>v. length (h128 v) = 16)"

lemma blob_ref_roundtrip: "blob_ref_from_bytes (blob_ref_to_bytes r) = Some r"
  by (simp add: blob_ref_from_bytes_def blob_ref_to_bytes_def BLOB_REF_SIZE_def sub_slice_def)

lemma decode_encode_blob_ref: "length hash = 16 \<Longrightarrow> decode_blob_ref (encode_blob_ref hash r) = Some (hash, r)"
  by (simp add: decode_blob_ref_def encode_blob_ref_def BLOB_MARKER_SIZE_def CONTENT_HASH_SIZE_def BLOB_REF_SIZE_def
      sub_slice_def blob_ref_roundtrip) (simp add: blob_ref_to_bytes_def)

definition stored_at :: "(bytes \<Rightarrow> u64) \<Rightarrow> (bytes \<Rightarrow> bytes) \<Rightarrow> blob_fs \<Rightarrow> blob_ref \<Rightarrow> bytes \<Rightarrow> bool" where
  "stored_at h64 h128 fs r v \<longleftrightarrow> length v < 2 ^ 32 \<and> br_length r = word_of_nat (length v)
     \<and> (\<exists>ino pre post. names fs (br_file_id r) = Some ino
          \<and> contents fs ino = pre @ blob_entry h64 v (h128 v) @ post \<and> unat (br_offset r) = length pre)"

lemma io_read_exact_append: "length xs = n \<Longrightarrow> io_read_exact n (xs @ ys) = Inr (xs, ys)"
  by (auto simp: io_read_exact_def)

lemma blob_read_entry:
  assumes "stored_at h64 h128 (bl_fs s) r v" and h: "hash_ok h128"
  shows "blob_read h64 s r = Inr v"
proof -
  obtain ino pre post where e: "length v < 2 ^ 32" "br_length r = word_of_nat (length v)" "names (bl_fs s) (br_file_id r) = Some ino"
    "contents (bl_fs s) ino = pre @ blob_entry h64 v (h128 v) @ post" "unat (br_offset r) = length pre"
    using assms(1) by (auto simp: stored_at_def)
  let ?hd = "to_le_bytes BLOB_ENTRY_MAGIC_V2 @ to_le_bytes (current_write BLOB) @ to_le_bytes (br_length r) @ h128 v"
  let ?rest = "to_le_bytes (current_write BLOB) @ to_le_bytes (br_length r) @ h128 v"
  have len: "length (h128 v) = 16" "unat (br_length r) = length v" using h e(1,2) by (simp_all add: hash_ok_def unat_of_nat_small)
  have cur: "drop (unat (br_offset r)) (contents (bl_fs s) ino)
      = to_le_bytes BLOB_ENTRY_MAGIC_V2 @ ?rest @ v @ to_le_bytes (h64 (?hd @ v)) @ post"
    using e(2,4,5) by (simp add: blob_entry_def Let_def)
  have 4: "length (to_le_bytes BLOB_ENTRY_MAGIC_V2) = 4" and 22: "length ?rest = 22" using len(1) by simp_all
  have fields: "from_le_bytes (sub_slice 0 2 ?rest) = (1 :: u16)" "from_le_bytes (sub_slice 2 6 ?rest) = br_length r"
    by (simp_all add: sub_slice_def BLOB_def)
  have "read_blob_header (drop (unat (br_offset r)) (contents (bl_fs s) ino)) = Inr ((?hd, br_length r), v @ to_le_bytes (h64 (?hd @ v)) @ post)"
    unfolding cur read_blob_header_def io_read_exact_append [OF 4] sum.case prod.case io_read_exact_append [OF 22] fields
    by (simp add: check_format_def BLOB_def)
  moreover have "length (to_le_bytes (h64 (?hd @ v))) = 8" by simp
  ultimately show ?thesis
    using e(3) io_read_exact_append [OF len(2) [symmetric]] io_read_exact_append [of "to_le_bytes (h64 (?hd @ v))" 8 post]
    by (simp add: blob_read_def)
qed

lemma length_blob_entry: "hash_ok h128 \<Longrightarrow> length (blob_entry h64 v (h128 v)) = length v + 34"
  by (simp add: blob_entry_def Let_def hash_ok_def)

section \<open>Writes\<close>

definition no_blob_faults :: blob_io where
  "no_blob_faults = \<lparr>open_fault = (\<lambda>_. None), write_fault = (\<lambda>_ _. None)\<rparr>"

text \<open>A writer that knows the end of its file.\<close>

definition writer_ok :: "blob_fs \<Rightarrow> blob_writer \<Rightarrow> bool" where
  "writer_ok fs w \<longleftrightarrow> names fs (bw_file_id w) = Some (bw_inode w) \<and> unat (bw_offset w) = length (contents fs (bw_inode w))"

definition appended :: "nat \<Rightarrow> bytes \<Rightarrow> blob_fs \<Rightarrow> blob_fs" where
  "appended ino bs fs = fs\<lparr>contents := (contents fs)(ino := contents fs ino @ bs)\<rparr>"

lemma appended_simps [simp]:
  "names (appended ino bs fs) = names fs" "fresh_inode (appended ino bs fs) = fresh_inode fs"
  "contents (appended ino bs fs) j = (if j = ino then contents fs ino @ bs else contents fs j)"
  by (simp_all add: appended_def)

lemma stored_at_appended: "stored_at h64 h128 fs r v \<Longrightarrow> stored_at h64 h128 (appended ino bs fs) r v"
proof -
  assume e: "stored_at h64 h128 fs r v"
  then obtain j pre post where "names fs (br_file_id r) = Some j" "contents fs j = pre @ blob_entry h64 v (h128 v) @ post"
    "unat (br_offset r) = length pre" by (auto simp: stored_at_def)
  then show ?thesis using e unfolding stored_at_def
    by (intro conjI exI [of _ j] exI [of _ pre] exI [of _ "if j = ino then post @ bs else post"]) auto
qed

lemma write_value_ok:
  assumes w: "writer_ok fs w" and h: "hash_ok h128" and v: "length v < 2 ^ 32"
    and sz: "length (contents fs (bw_inode w)) + length v + 34 < 2 ^ 64"
  shows "\<exists>r w' fs'. write_value h64 no_blob_faults v (h128 v) w fs = (Inr r, w', fs')
    \<and> fs' = appended (bw_inode w) (blob_entry h64 v (h128 v)) fs \<and> writer_ok fs' w' \<and> stored_at h64 h128 fs' r v
    \<and> bw_file_id w' = bw_file_id w \<and> bw_inode w' = bw_inode w \<and> br_file_id r = bw_file_id w \<and> br_offset r = bw_offset w"
proof -
  let ?e = "blob_entry h64 v (h128 v)"
  have e: "length ?e = length v + 34" by (rule length_blob_entry [OF h])
  have off: "unat (bw_offset w + word_of_nat (length ?e)) = unat (bw_offset w) + length ?e"
    using w sz e by (intro unat_plus_nat) (simp add: writer_ok_def)
  define r where "r = \<lparr>br_file_id = bw_file_id w, br_offset = bw_offset w, br_length = word_of_nat (length v)\<rparr>"
  define w' where "w' = w\<lparr>bw_offset := bw_offset w + word_of_nat (length ?e)\<rparr>"
  let ?fs = "appended (bw_inode w) ?e fs"
  have "write_value h64 no_blob_faults v (h128 v) w fs = (Inr r, w', ?fs)"
    by (simp add: write_value_def Let_def no_blob_faults_def r_def w'_def appended_def)
  moreover have "writer_ok ?fs w'" using w off by (simp add: writer_ok_def w'_def)
  moreover have "stored_at h64 h128 ?fs r v"
    using w v unfolding stored_at_def writer_ok_def
    by (intro conjI exI [of _ "bw_inode w"] exI [of _ "contents fs (bw_inode w)"] exI [of _ "[]"]) (simp_all add: r_def)
  ultimately show ?thesis by (simp add: r_def w'_def)
qed


text \<open>The bytes an entry takes in its file.\<close>

definition ref_size :: "blob_ref \<Rightarrow> nat" where
  "ref_size r = unat (br_length r) + 34"

lemma stored_at_size: "stored_at h64 h128 fs r v \<Longrightarrow> ref_size r = length v + 34 \<and> length v < 2 ^ 32"
  by (simp add: stored_at_def ref_size_def unat_of_nat_small)

text \<open>The invariant of a log whose files have not been collected: the index leads to stored values,
  every live reference is the one its value is indexed under, and every writer knows the end of
  its file. \<open>B\<close> bounds what is still to be written.\<close>

definition blob_inv :: "(bytes \<Rightarrow> u64) \<Rightarrow> (bytes \<Rightarrow> bytes) \<Rightarrow> nat \<Rightarrow> blob_log \<Rightarrow> bool" where
  "blob_inv h64 h128 B s \<longleftrightarrow>
     writers s \<noteq> [] \<and> length (writers s) < 2 ^ 64 \<and> distinct (map bw_inode (writers s)) \<and> (\<forall>w \<in> set (writers s). writer_ok (bl_fs s) w)
     \<and> (\<forall>ino. length (contents (bl_fs s) ino) + B < 2 ^ 64)
     \<and> (\<forall>h r. blob_index s h = Some r \<longrightarrow> (\<exists>v. h = h128 v \<and> stored_at h64 h128 (bl_fs s) r v))
     \<and> (\<forall>r. live_refs s r \<noteq> None \<longrightarrow> (\<exists>h. blob_index s h = Some r))
     \<and> (\<forall>i ino. names (bl_fs s) i = Some ino \<longrightarrow> i < next_file_id s \<and> ino < fresh_inode (bl_fs s))
     \<and> finite (dom (blob_index s)) \<and> sum ref_size (ran (blob_index s)) + B < 2 ^ 64 \<and> 2 * unat (next_file_id s) < 2 ^ 64"

lemma blob_invD:
  assumes "blob_inv h64 h128 B s"
  shows "writers s \<noteq> []" "length (writers s) < 2 ^ 64" "distinct (map bw_inode (writers s))" "w \<in> set (writers s) \<Longrightarrow> writer_ok (bl_fs s) w"
    "length (contents (bl_fs s) ino) + B < 2 ^ 64"
    "blob_index s h = Some r \<Longrightarrow> \<exists>v. h = h128 v \<and> stored_at h64 h128 (bl_fs s) r v"
    "live_refs s r \<noteq> None \<Longrightarrow> \<exists>h. blob_index s h = Some r" "names (bl_fs s) i = Some ino \<Longrightarrow> i < next_file_id s \<and> ino < fresh_inode (bl_fs s)"
    "finite (dom (blob_index s))" "sum ref_size (ran (blob_index s)) + B < 2 ^ 64" "2 * unat (next_file_id s) < 2 ^ 64"
  using assms unfolding blob_inv_def by blast+

lemma blob_dup_inv:
  assumes "blob_inv h64 h128 B' s" and "blob_index s h = Some r" and "B \<le> B'"
  shows "blob_inv h64 h128 B (s\<lparr>live_refs := count_ref r (live_refs s)\<rparr>)"
proof -
  note i = blob_invD [OF assms(1)]
  have "length (contents (bl_fs s) ino) + B < 2 ^ 64" for ino using i(5) [of ino] assms(3) by simp
  moreover have "\<exists>h. blob_index s h = Some r'" if "count_ref r (live_refs s) r' \<noteq> None" for r'
    using that assms(2) i(7) [of r'] by (cases "r' = r") (auto simp: count_ref_def)
  moreover have "sum ref_size (ran (blob_index s)) + B < 2 ^ 64" using i(10) assms(3) by simp
  ultimately show ?thesis using assms(1) by (simp add: blob_inv_def)
qed

lemma blob_write_inv:
  assumes inv: "blob_inv h64 h128 (length v + 34 + B) s" and h: "hash_ok h128" and v: "length v < 2 ^ 32"
  shows "\<exists>r s'. blob_write h64 h128 no_blob_faults v s = (Inr (h128 v, r), s') \<and> blob_inv h64 h128 B s'
    \<and> blob_index s' = (blob_index s)(h128 v \<mapsto> r)
    \<and> (blob_index s (h128 v) = Some r \<or> blob_index s (h128 v) = None \<and> stored_at h64 h128 (bl_fs s') r v)
    \<and> (\<forall>r v. stored_at h64 h128 (bl_fs s) r v \<longrightarrow> stored_at h64 h128 (bl_fs s') r v)"
proof (cases "blob_index s (h128 v)")
  case (Some r)
  have "blob_inv h64 h128 B (s\<lparr>live_refs := count_ref r (live_refs s)\<rparr>)"
    using blob_dup_inv [OF inv, of _ r B] Some by simp
  moreover have "(blob_index s)(h128 v \<mapsto> r) = blob_index s" using Some by auto
  ultimately show ?thesis using Some by (auto simp: blob_write_def)
next
  case None
  note i = blob_invD [OF inv]
  define idx where "idx = unat (next_writer s mod word_of_nat (length (writers s)))"
  have u: "unat (word_of_nat (length (writers s)) :: u64) = length (writers s)" using i(2) by (simp add: unat_of_nat_small)
  have idx: "idx < length (writers s)" using i(1) u by (simp add: idx_def unat_mod)
  let ?w = "writers s ! idx"
  have w: "writer_ok (bl_fs s) ?w" using i(4) idx by simp
  have sz: "length (contents (bl_fs s) (bw_inode ?w)) + length v + 34 < 2 ^ 64" using i(5) [of "bw_inode ?w"] by simp
  obtain r w' fs' where wv: "write_value h64 no_blob_faults v (h128 v) ?w (bl_fs s) = (Inr r, w', fs')"
    "fs' = appended (bw_inode ?w) (blob_entry h64 v (h128 v)) (bl_fs s)" "writer_ok fs' w'" "stored_at h64 h128 fs' r v" "bw_inode w' = bw_inode ?w"
    using write_value_ok [OF w h v sz, of h64] by blast
  define s' where "s' = s\<lparr>next_writer := next_writer s + 1, writers := (writers s)[idx := w'], bl_fs := fs',
     blob_index := (blob_index s)(h128 v \<mapsto> r), live_refs := count_ref r (live_refs s)\<rparr>"
  have step: "blob_write h64 h128 no_blob_faults v s = (Inr (h128 v, r), s')"
    using None wv(1) by (simp add: blob_write_def Let_def idx_def [symmetric] s'_def)
  have keep: "stored_at h64 h128 (bl_fs s) r' v' \<Longrightarrow> stored_at h64 h128 fs' r' v'" for r' v'
    unfolding wv(2) by (rule stored_at_appended)
  have others: "writer_ok fs' x" if mem: "x \<in> set ((writers s)[idx := w'])" for x
  proof -
    obtain j where j: "j < length (writers s)" "x = (writers s)[idx := w'] ! j" using mem by (auto simp: in_set_conv_nth)
    show ?thesis
    proof (cases "j = idx")
      case True
      then show ?thesis using j wv(3) by simp
    next
      case False
      then have "bw_inode x \<noteq> bw_inode ?w" "x \<in> set (writers s)" using j idx i(3) nth_eq_iff_index_eq [OF i(3), of j idx] by auto
      then show ?thesis using i(4) [of x] by (simp add: wv(2) writer_ok_def)
    qed
  qed
  have inodes: "map bw_inode ((writers s)[idx := w']) = map bw_inode (writers s)" using idx wv(5) list_update_id [of "map bw_inode (writers s)" idx] by (simp add: map_update)
  have len: "length (contents fs' ino) + B < 2 ^ 64" for ino
    using i(5) [of ino] length_blob_entry [OF h, of h64 v] by (auto simp: wv(2))
  have "sum ref_size (insert r (ran (blob_index s))) \<le> ref_size r + sum ref_size (ran (blob_index s))"
    using i(9) finite_ran by (subst sum.insert_if) auto
  moreover have "ref_size r = length v + 34" using stored_at_size [OF wv(4)] by simp
  ultimately have size: "sum ref_size (ran (blob_index s')) + B < 2 ^ 64" using i(10) None by (simp add: s'_def)
  have "blob_inv h64 h128 B s'"
    unfolding blob_inv_def
  proof (intro conjI allI impI ballI)
    show "\<exists>v. h = h128 v \<and> stored_at h64 h128 (bl_fs s') r' v" if "blob_index s' h = Some r'" for h r'
      using that wv(4) i(6) [of h r'] keep by (auto simp: s'_def split: if_splits)
    show "\<exists>h. blob_index s' h = Some r'" if l: "live_refs s' r' \<noteq> None" for r'
    proof (cases "r' = r")
      case False
      then obtain h where "blob_index s h = Some r'" using l i(7) [of r'] by (auto simp: s'_def count_ref_def)
      then have "blob_index s' h = Some r'" using None by (auto simp: s'_def)
      then show ?thesis by blast
    qed (auto simp: s'_def)
  qed (use i(1,2,3,8,9,11) others inodes len wv(2) size in \<open>auto simp: s'_def\<close>)
  then show ?thesis using step wv(4) keep None by (auto simp: s'_def)
qed

lemma mark_dead_inv: "blob_inv h64 h128 B s \<Longrightarrow> blob_inv h64 h128 B (mark_dead r s)"
  by (auto simp: blob_inv_def mark_dead_def Let_def split: option.splits if_splits)


text \<open>Runs of writes and of releases of references.\<close>

datatype blob_op = BWrite bytes | BDead blob_ref

fun blob_run ::
  "(bytes \<Rightarrow> u64) \<Rightarrow> (bytes \<Rightarrow> bytes) \<Rightarrow> blob_op list \<Rightarrow> blob_log \<Rightarrow> ((bytes \<times> blob_ref) list \<times> blob_log) option" where
  "blob_run h64 h128 [] s = Some ([], s)"
| "blob_run h64 h128 (BWrite v # ops) s =
     (case blob_write h64 h128 no_blob_faults v s of
        (Inl _, _) \<Rightarrow> None
      | (Inr (_, r), s) \<Rightarrow> map_option (\<lambda>(rs, s). ((v, r) # rs, s)) (blob_run h64 h128 ops s))"
| "blob_run h64 h128 (BDead r # ops) s = blob_run h64 h128 ops (mark_dead r s)"

fun written :: "blob_op list \<Rightarrow> bytes list" where
  "written [] = []"
| "written (BWrite v # ops) = v # written ops"
| "written (BDead r # ops) = written ops"

definition run_size :: "blob_op list \<Rightarrow> nat" where
  "run_size ops = sum_list (map (\<lambda>v. length v + 34) (written ops))"

lemma mark_dead_simps [simp]: "bl_fs (mark_dead r s) = bl_fs s" "blob_index (mark_dead r s) = blob_index s"
  by (simp_all add: mark_dead_def Let_def split: option.split)

lemma blob_run_ok:
  assumes "blob_inv h64 h128 (run_size ops + B) s" and h: "hash_ok h128" and "\<forall>v \<in> set (written ops). length v < 2 ^ 32"
    and "inj_on h128 (A \<union> set (written ops))" and "\<forall>v r. v \<in> A \<and> blob_index s (h128 v) = Some r \<longrightarrow> stored_at h64 h128 (bl_fs s) r v"
    and "\<forall>h. blob_index s h \<noteq> None \<longrightarrow> h \<in> h128 ` A"
  shows "\<exists>rs s'. blob_run h64 h128 ops s = Some (rs, s') \<and> map fst rs = written ops \<and> blob_inv h64 h128 B s'
    \<and> (\<forall>(v, r) \<in> set rs. blob_index s' (h128 v) = Some r \<and> stored_at h64 h128 (bl_fs s') r v)
    \<and> (\<forall>h. blob_index s h \<noteq> None \<longrightarrow> blob_index s' h = blob_index s h)
    \<and> (\<forall>r v. stored_at h64 h128 (bl_fs s) r v \<longrightarrow> stored_at h64 h128 (bl_fs s') r v)"
  using assms(1,3-)
proof (induction ops arbitrary: s A)
  case Nil
  then show ?case by (simp add: run_size_def)
next
  case (Cons op ops)
  show ?case
  proof (cases op)
    case (BDead r)
    have "run_size (op # ops) = run_size ops" "written (op # ops) = written ops" by (simp_all add: BDead run_size_def)
    then show ?thesis using Cons.IH [of "mark_dead r s" A] Cons.prems mark_dead_inv by (simp add: BDead)
  next
    case (BWrite v)
    have sz: "run_size (op # ops) + B = length v + 34 + (run_size ops + B)" by (simp add: BWrite run_size_def)
    have v: "length v < 2 ^ 32" using Cons.prems(2) by (simp add: BWrite)
    obtain r s1 where w: "blob_write h64 h128 no_blob_faults v s = (Inr (h128 v, r), s1)" "blob_inv h64 h128 (run_size ops + B) s1"
      "blob_index s1 = (blob_index s)(h128 v \<mapsto> r)"
      "blob_index s (h128 v) = Some r \<or> blob_index s (h128 v) = None \<and> stored_at h64 h128 (bl_fs s1) r v"
      "\<forall>r v. stored_at h64 h128 (bl_fs s) r v \<longrightarrow> stored_at h64 h128 (bl_fs s1) r v"
      using blob_write_inv [OF Cons.prems(1) [unfolded sz] h v] by blast
    have inj: "u = v" if "u \<in> A" "h128 u = h128 v" for u
      using that Cons.prems(3) by (auto simp: BWrite inj_on_def)
    have new: "stored_at h64 h128 (bl_fs s1) r v"
    proof (cases "blob_index s (h128 v)")
      case None
      then show ?thesis using w(4) by simp
    next
      case (Some r')
      then obtain u where "u \<in> A" "h128 v = h128 u" using Cons.prems(5) by blast
      then have "v \<in> A" using inj by metis
      then have "stored_at h64 h128 (bl_fs s) r v" using Cons.prems(4) w(4) Some by auto
      then show ?thesis using w(5) by blast
    qed
    have "\<forall>u r'. u \<in> insert v A \<and> blob_index s1 (h128 u) = Some r' \<longrightarrow> stored_at h64 h128 (bl_fs s1) r' u"
    proof (intro allI impI)
      fix u r' assume u: "u \<in> insert v A \<and> blob_index s1 (h128 u) = Some r'"
      show "stored_at h64 h128 (bl_fs s1) r' u"
      proof (cases "u = v")
        case True
        then show ?thesis using u new w(3) by simp
      next
        case False
        then have "blob_index s (h128 u) = Some r'" using u inj w(3) by (auto split: if_splits)
        then show ?thesis using u False Cons.prems(4) w(5) by blast
      qed
    qed
    moreover have "\<forall>h. blob_index s1 h \<noteq> None \<longrightarrow> h \<in> h128 ` insert v A" using Cons.prems(5) w(3) by auto
    moreover have "inj_on h128 (insert v A \<union> set (written ops))" using Cons.prems(3) by (simp add: BWrite)
    ultimately obtain rs s' where run: "blob_run h64 h128 ops s1 = Some (rs, s')" "map fst rs = written ops" "blob_inv h64 h128 B s'"
      "\<forall>(v, r) \<in> set rs. blob_index s' (h128 v) = Some r \<and> stored_at h64 h128 (bl_fs s') r v"
      "\<forall>h. blob_index s1 h \<noteq> None \<longrightarrow> blob_index s' h = blob_index s1 h"
      "\<forall>r v. stored_at h64 h128 (bl_fs s1) r v \<longrightarrow> stored_at h64 h128 (bl_fs s') r v"
      using Cons.IH [OF w(2), of "insert v A"] Cons.prems(2) by (auto simp: BWrite)
    have "blob_index s' (h128 v) = Some r" using run(5) w(3) by simp
    moreover have "blob_index s' h = blob_index s h" if "blob_index s h \<noteq> None" for h
      using that run(5) w(3,4) by (cases "h = h128 v") auto
    moreover have "blob_run h64 h128 (op # ops) s = Some ((v, r) # rs, s')" using w(1) run(1) by (simp add: BWrite)
    ultimately show ?thesis using run(2-4,6) new w(5) by (intro exI [of _ "(v, r) # rs"] exI [of _ s']) (simp add: BWrite)
  qed
qed


definition empty_blob_fs :: blob_fs where
  "empty_blob_fs = \<lparr>names = Map.empty, contents = (\<lambda>_. []), fresh_inode = 0\<rparr>"

lemma open_writers_ok:
  assumes "distinct is" and "\<forall>i \<in> set is. names fs i = None" and "\<forall>ino \<ge> fresh_inode fs. contents fs ino = []"
  shows "\<exists>ws fs'. open_writers no_blob_faults is fs = (Inr ws, fs') \<and> length ws = length is
    \<and> map bw_inode ws = [fresh_inode fs..<fresh_inode fs + length is] \<and> (\<forall>w \<in> set ws. writer_ok fs' w)
    \<and> (\<forall>j. names fs' j \<noteq> None \<longrightarrow> names fs j \<noteq> None \<or> j \<in> set is) \<and> (\<forall>j. j \<notin> set is \<longrightarrow> names fs' j = names fs j)
    \<and> contents fs' = contents fs
    \<and> ((\<forall>j ino. names fs j = Some ino \<longrightarrow> ino < fresh_inode fs) \<longrightarrow> (\<forall>j ino. names fs' j = Some ino \<longrightarrow> ino < fresh_inode fs'))"
  using assms
proof (induction "is" arbitrary: fs)
  case Nil
  then show ?case by simp
next
  case (Cons i "is")
  let ?ino = "fresh_inode fs"
  define fs1 where "fs1 = fs\<lparr>names := (names fs)(i \<mapsto> ?ino), contents := (contents fs)(?ino := []), fresh_inode := ?ino + 1\<rparr>"
  let ?w = "\<lparr>bw_file_id = i, bw_inode = ?ino, bw_offset = 0\<rparr>"
  have c: "contents fs1 = contents fs" using Cons.prems(3) by (auto simp: fs1_def)
  have n: "names fs1 = (names fs)(i \<mapsto> ?ino)" "fresh_inode fs1 = Suc ?ino" by (simp_all add: fs1_def)
  have w: "new_blob_writer no_blob_faults i fs = (Inr ?w, fs1)"
    using Cons.prems(2) by (simp add: new_blob_writer_def no_blob_faults_def open_append_def fs1_def)
  have "distinct is" "\<forall>i \<in> set is. names fs1 i = None" "\<forall>ino \<ge> fresh_inode fs1. contents fs1 ino = []"
    using Cons.prems c n by auto
  from Cons.IH [OF this] obtain ws fs' where ws: "open_writers no_blob_faults is fs1 = (Inr ws, fs')" "length ws = length is"
    "map bw_inode ws = [Suc ?ino..<Suc ?ino + length is]" "\<forall>w \<in> set ws. writer_ok fs' w"
    "\<forall>j. names fs' j \<noteq> None \<longrightarrow> names fs1 j \<noteq> None \<or> j \<in> set is" "\<forall>j. j \<notin> set is \<longrightarrow> names fs' j = names fs1 j" "contents fs' = contents fs1"
    "(\<forall>j ino. names fs1 j = Some ino \<longrightarrow> ino < Suc ?ino) \<longrightarrow> (\<forall>j ino. names fs' j = Some ino \<longrightarrow> ino < fresh_inode fs')"
    unfolding n(2) by blast
  have "writer_ok fs' ?w" using ws(6,7) Cons.prems(1,3) c n by (simp add: writer_ok_def)
  moreover have "map bw_inode (?w # ws) = [?ino..<?ino + length (i # is)]" using ws(3) by (simp add: upt_conv_Cons del: upt_Suc)
  moreover have "open_writers no_blob_faults (i # is) fs = (Inr (?w # ws), fs')" using w ws(1) by simp
  moreover have "\<forall>j. names fs' j \<noteq> None \<longrightarrow> names fs j \<noteq> None \<or> j \<in> set (i # is)" using ws(5) n(1) by (metis fun_upd_other list.set_intros)
  moreover have "\<forall>j. j \<notin> set (i # is) \<longrightarrow> names fs' j = names fs j" using ws(6) n(1) by simp
  moreover have "\<forall>j ino. names fs' j = Some ino \<longrightarrow> ino < fresh_inode fs'" if "\<forall>j ino. names fs j = Some ino \<longrightarrow> ino < ?ino"
  proof -
    have "ino < Suc ?ino" if "names fs1 j = Some ino" for j ino
    proof (cases "j = i")
      case False
      then have "ino < ?ino" using that \<open>\<forall>j ino. names fs j = Some ino \<longrightarrow> ino < ?ino\<close> n(1) by simp
      then show ?thesis by simp
    qed (use that n(1) in simp)
    then show ?thesis using ws(8) by blast
  qed
  ultimately show ?case using ws(2,4,7) c by (intro exI [of _ "?w # ws"] exI [of _ fs']) simp
qed

lemma word_of_nat_inj: "m \<le> 2 ^ 64 \<Longrightarrow> inj_on (word_of_nat :: nat \<Rightarrow> u64) {0..<m}"
proof (rule inj_onI)
  fix a b assume m: "m \<le> 2 ^ 64" and ab: "a \<in> {0..<m}" "b \<in> {0..<m}" "word_of_nat a = (word_of_nat b :: u64)"
  have "a < 2 ^ 64" "b < 2 ^ 64" using m ab(1,2) less_le_trans [of _ m "2 ^ 64"] by simp_all
  then have "unat (word_of_nat a :: u64) = a" "unat (word_of_nat b :: u64) = b"
    using unat_of_nat_small [where 'a = 64] by simp_all
  then show "a = b" using ab(3) by metis
qed

lemma new_blob_log_inv:
  assumes "n < 2 ^ 63" and "B < 2 ^ 64"
  shows "\<exists>s. new_blob_log no_blob_faults empty_blob_fs n threshold = (Inr s, bl_fs s) \<and> blob_inv h64 h128 B s \<and> blob_index s = Map.empty"
proof -
  define m where "m = (if n = 0 then DEFAULT_NUM_QUEUES else n)"
  have m: "0 < m" "m < 2 ^ 63" "m < 2 ^ 64" using assms(1) by (auto simp: m_def DEFAULT_NUM_QUEUES_def)
  let ?is = "map word_of_nat [0..<m] :: u64 list"
  have "distinct ?is" using word_of_nat_inj [of m] m(3) by (simp add: distinct_map)
  moreover have "\<forall>i \<in> set ?is. names empty_blob_fs i = None" "\<forall>ino \<ge> fresh_inode empty_blob_fs. contents empty_blob_fs ino = []"
    by (simp_all add: empty_blob_fs_def)
  ultimately obtain ws fs where ws: "open_writers no_blob_faults ?is empty_blob_fs = (Inr ws, fs)" "length ws = length ?is"
    "map bw_inode ws = [fresh_inode empty_blob_fs..<fresh_inode empty_blob_fs + length ?is]" "\<forall>w \<in> set ws. writer_ok fs w"
    "\<forall>j. names fs j \<noteq> None \<longrightarrow> names empty_blob_fs j \<noteq> None \<or> j \<in> set ?is" "contents fs = contents empty_blob_fs"
    "(\<forall>j ino. names empty_blob_fs j = Some ino \<longrightarrow> ino < fresh_inode empty_blob_fs) \<longrightarrow> (\<forall>j ino. names fs j = Some ino \<longrightarrow> ino < fresh_inode fs)"
    using open_writers_ok by blast
  let ?s = "\<lparr>bl_fs = fs, writers = ws, next_writer = 0, blob_index = Map.empty, next_file_id = word_of_nat m,
     live_refs = Map.empty, blob_threshold = threshold\<rparr>"
  have lt: "i < word_of_nat m" if "names fs i \<noteq> None" for i
  proof -
    have "i \<in> set ?is" using ws(5) that by (auto simp: empty_blob_fs_def)
    then obtain j where j: "j < m" "i = word_of_nat j" by auto
    have "unat i = j" "unat (word_of_nat m :: u64) = m" using j m(3) by (simp_all add: unat_of_nat_small)
    then show ?thesis using j(1) by (simp add: word_less_nat_alt)
  qed
  have "ws \<noteq> []" "length ws < 2 ^ 64" "distinct (map bw_inode ws)" using ws(2,3) m by auto
  then have "blob_inv h64 h128 B ?s"
    using ws(4,6,7) assms(2) lt m(2,3) by (simp add: blob_inv_def empty_blob_fs_def unat_of_nat_small)
  moreover have "new_blob_log no_blob_faults empty_blob_fs n threshold = (Inr ?s, fs)"
    using ws(1) by (simp add: new_blob_log_def m_def [symmetric])
  ultimately show ?thesis by (intro exI [of _ ?s]) simp
qed

lemma blob_log_run:
  assumes "hash_ok h128" and "inj_on h128 (set (written ops))" and "\<forall>v \<in> set (written ops). length v < 2 ^ 32"
    and "run_size ops < 2 ^ 64" and "queues < 2 ^ 63"
  shows "\<exists>s fs rs s'. new_blob_log no_blob_faults empty_blob_fs queues threshold = (Inr s, fs)
    \<and> blob_run h64 h128 ops s = Some (rs, s') \<and> map fst rs = written ops \<and> blob_inv h64 h128 0 s'
    \<and> (\<forall>(v, r) \<in> set rs. blob_index s' (h128 v) = Some r \<and> stored_at h64 h128 (bl_fs s') r v)"
proof -
  obtain s where s: "new_blob_log no_blob_faults empty_blob_fs queues threshold = (Inr s, bl_fs s)" "blob_inv h64 h128 (run_size ops + 0) s"
    "blob_index s = Map.empty"
    using new_blob_log_inv [OF assms(5), of "run_size ops + 0" threshold h64 h128] assms(4) by auto
  obtain rs s' where "blob_run h64 h128 ops s = Some (rs, s')" "map fst rs = written ops" "blob_inv h64 h128 0 s'"
    "\<forall>(v, r) \<in> set rs. blob_index s' (h128 v) = Some r \<and> stored_at h64 h128 (bl_fs s') r v"
    using blob_run_ok [OF s(2) assms(1,3), of "{}"] assms(2) s(3) by auto
  then show ?thesis using s(1) by blast
qed

section \<open>What garbage collection keeps\<close>

definition live_set :: "blob_log \<Rightarrow> blob_ref set" where
  "live_set s = {r. is_live (live_refs s) r}"

text \<open>Every live reference is the one its value is indexed under. \<open>n\<close> bounds the files still to be
  created.\<close>

definition blob_gc_inv :: "(bytes \<Rightarrow> u64) \<Rightarrow> (bytes \<Rightarrow> bytes) \<Rightarrow> nat \<Rightarrow> blob_log \<Rightarrow> bool" where
  "blob_gc_inv h64 h128 n s \<longleftrightarrow>
     finite (dom (live_refs s)) \<and> sum ref_size (live_set s) < 2 ^ 64 \<and> unat (next_file_id s) + n < 2 ^ 64
     \<and> (\<forall>r \<in> live_set s. \<exists>v. stored_at h64 h128 (bl_fs s) r v \<and> blob_index s (h128 v) = Some r)
     \<and> (\<forall>i ino. names (bl_fs s) i = Some ino \<longrightarrow> i < next_file_id s \<and> ino < fresh_inode (bl_fs s))"

lemma blob_gc_invD:
  assumes "blob_gc_inv h64 h128 n s"
  shows "finite (dom (live_refs s))" "sum ref_size (live_set s) < 2 ^ 64" "unat (next_file_id s) + n < 2 ^ 64"
    "r \<in> live_set s \<Longrightarrow> \<exists>v. stored_at h64 h128 (bl_fs s) r v \<and> blob_index s (h128 v) = Some r"
    "names (bl_fs s) i = Some ino \<Longrightarrow> i < next_file_id s \<and> ino < fresh_inode (bl_fs s)"
  using assms unfolding blob_gc_inv_def by blast+

text \<open>A value with a live reference.\<close>

definition live_value :: "(bytes \<Rightarrow> u64) \<Rightarrow> (bytes \<Rightarrow> bytes) \<Rightarrow> blob_log \<Rightarrow> bytes \<Rightarrow> bool" where
  "live_value h64 h128 s v \<longleftrightarrow> (\<exists>r \<in> live_set s. stored_at h64 h128 (bl_fs s) r v \<and> blob_index s (h128 v) = Some r)"

definition copied :: "(bytes \<Rightarrow> u64) \<Rightarrow> (bytes \<Rightarrow> bytes) \<Rightarrow> blob_fs \<Rightarrow> u64 \<Rightarrow> (bytes \<times> blob_ref \<times> blob_ref) list \<Rightarrow> bool" where
  "copied h64 h128 fs i moved \<longleftrightarrow>
     (\<forall>(h, old, new) \<in> set moved. \<exists>v. stored_at h64 h128 fs old v \<and> stored_at h64 h128 fs new v \<and> h = h128 v \<and> br_file_id new = i)"

lemma copy_live_ok:
  assumes "\<forall>r \<in> set refs. \<exists>v. stored_at h64 h128 (bl_fs s) r v" and "writer_ok (bl_fs s) w" and h: "hash_ok h128"
    and "length (contents (bl_fs s) (bw_inode w)) + sum_list (map ref_size refs) < 2 ^ 64"
  shows "\<exists>moved fs'. copy_live h64 h128 no_blob_faults refs w s = (Inr moved, s\<lparr>bl_fs := fs'\<rparr>)
    \<and> map (\<lambda>(h, old, new). old) moved = refs \<and> copied h64 h128 fs' (bw_file_id w) moved
    \<and> names fs' = names (bl_fs s) \<and> fresh_inode fs' = fresh_inode (bl_fs s)
    \<and> (\<forall>r v. stored_at h64 h128 (bl_fs s) r v \<longrightarrow> stored_at h64 h128 fs' r v)"
  using assms(1,2,4)
proof (induction refs arbitrary: w s)
  case Nil
  then show ?case by (auto simp: copied_def intro!: exI [of _ "bl_fs s"])
next
  case (Cons old olds)
  obtain v where v: "stored_at h64 h128 (bl_fs s) old v" using Cons.prems(1) by auto
  note sz = stored_at_size [OF v]
  have room: "length (contents (bl_fs s) (bw_inode w)) + length v + 34 < 2 ^ 64" using Cons.prems(3) sz by simp
  obtain new w' fs1 where w: "write_value h64 no_blob_faults v (h128 v) w (bl_fs s) = (Inr new, w', fs1)"
    "fs1 = appended (bw_inode w) (blob_entry h64 v (h128 v)) (bl_fs s)" "writer_ok fs1 w'" "stored_at h64 h128 fs1 new v"
    "bw_file_id w' = bw_file_id w" "bw_inode w' = bw_inode w" "br_file_id new = bw_file_id w"
    using write_value_ok [OF Cons.prems(2) h conjunct2 [OF sz] room, of h64] by blast
  have keep: "stored_at h64 h128 (bl_fs s) r u \<Longrightarrow> stored_at h64 h128 fs1 r u" for r u unfolding w(2) by (rule stored_at_appended)
  let ?s = "s\<lparr>bl_fs := fs1\<rparr>"
  have "\<forall>r \<in> set olds. \<exists>v. stored_at h64 h128 (bl_fs ?s) r v" using Cons.prems(1) keep by (simp, blast)
  moreover have "writer_ok (bl_fs ?s) w'" using w(3) by simp
  moreover have "length (contents (bl_fs ?s) (bw_inode w')) + sum_list (map ref_size olds) < 2 ^ 64"
    using Cons.prems(3) sz length_blob_entry [OF h, of h64 v] w(2,6) by simp
  ultimately obtain moved fs' where m: "copy_live h64 h128 no_blob_faults olds w' ?s = (Inr moved, ?s\<lparr>bl_fs := fs'\<rparr>)"
    "map (\<lambda>(h, old, new). old) moved = olds" "copied h64 h128 fs' (bw_file_id w') moved" "names fs' = names fs1" "fresh_inode fs' = fresh_inode fs1"
    "\<forall>r v. stored_at h64 h128 fs1 r v \<longrightarrow> stored_at h64 h128 fs' r v"
    using Cons.IH [of ?s w'] by auto
  have "copy_live h64 h128 no_blob_faults (old # olds) w s = (Inr ((h128 v, old, new) # moved), s\<lparr>bl_fs := fs'\<rparr>)"
    using blob_read_entry [OF v h] w(1) m(1) by simp
  moreover have "copied h64 h128 fs' (bw_file_id w) ((h128 v, old, new) # moved)"
    using m(3,6) w(4,5,7) keep v unfolding copied_def by (simp, blast)
  ultimately show ?case using m(2,4-6) keep by (intro exI [of _ "(h128 v, old, new) # moved"] exI [of _ fs']) (simp add: w(2))
qed

text \<open>Moving the references.\<close>

lemma is_live_upd: "is_live (m(r := x)) r' = (if r' = r then (case x of Some c \<Rightarrow> c > 0 | None \<Rightarrow> False) else is_live m r')"
  by (simp add: is_live_def)

definition movable :: "(blob_ref \<rightharpoonup> u64) \<Rightarrow> (bytes \<times> blob_ref \<times> blob_ref) list \<Rightarrow> bool" where
  "movable live moved \<longleftrightarrow> distinct (map (fst \<circ> snd) moved) \<and> distinct (map fst moved)
     \<and> (\<forall>x \<in> set moved. is_live live (fst (snd x))) \<and> (\<forall>x \<in> set moved. \<forall>y \<in> set moved. fst (snd x) \<noteq> snd (snd y))"

lemma move_refs:
  assumes "movable (live_refs s) moved"
  shows "(\<forall>x \<in> set moved. is_live (live_refs (fold move_ref moved s)) (snd (snd x)) \<and> blob_index (fold move_ref moved s) (fst x) = Some (snd (snd x)))
    \<and> (\<forall>h. h \<notin> fst ` set moved \<longrightarrow> blob_index (fold move_ref moved s) h = blob_index s h)
    \<and> (\<forall>r. r \<in> (fst \<circ> snd) ` set moved \<longrightarrow> \<not> is_live (live_refs (fold move_ref moved s)) r)
    \<and> (\<forall>r. r \<notin> (fst \<circ> snd) ` set moved \<and> r \<notin> (snd \<circ> snd) ` set moved \<longrightarrow> live_refs (fold move_ref moved s) r = live_refs s r)
    \<and> bl_fs (fold move_ref moved s) = bl_fs s \<and> next_file_id (fold move_ref moved s) = next_file_id s"
  using assms
proof (induction moved rule: rev_induct)
  case Nil
  then show ?case by simp
next
  case (snoc x moved)
  obtain h old new where x: "x = (h, old, new)" by (cases x)
  define s1 where "s1 = fold move_ref moved s"
  have mv: "movable (live_refs s) moved" "old \<notin> (fst \<circ> snd) ` set moved" "old \<notin> (snd \<circ> snd) ` set moved" "h \<notin> fst ` set moved"
    "is_live (live_refs s) old" "old \<noteq> new" "\<forall>y \<in> set moved. fst (snd y) \<noteq> new"
    using snoc.prems by (auto simp: movable_def x)
  note ih = snoc.IH [OF mv(1), folded s1_def]
  have lo: "live_refs s1 old = live_refs s old" using ih mv(2,3) by blast
  then obtain c where c: "live_refs s1 old = Some c" "c > 0" using mv(5) by (auto simp: is_live_def split: option.splits)
  have f: "fold move_ref (moved @ [x]) s = s1\<lparr>blob_index := (blob_index s1)(h \<mapsto> new), live_refs := ((live_refs s1)(old := None))(new \<mapsto> c)\<rparr>"
    using c(1) by (simp add: x s1_def [symmetric] move_ref_def)
  have live: "is_live ((live_refs s1)(old := None, new \<mapsto> c)) r \<longleftrightarrow> r = new \<or> r \<noteq> old \<and> is_live (live_refs s1) r" for r
    using c(2) mv(6) by (auto simp: is_live_def)
  define s2 where "s2 = fold move_ref (moved @ [x]) s"
  have s2: "live_refs s2 = (live_refs s1)(old := None, new \<mapsto> c)" "blob_index s2 = (blob_index s1)(h \<mapsto> new)"
    "bl_fs s2 = bl_fs s1" "next_file_id s2 = next_file_id s1" unfolding s2_def f by simp_all
  have "is_live (live_refs s2) (snd (snd y)) \<and> blob_index s2 (fst y) = Some (snd (snd y))" if "y \<in> set (moved @ [x])" for y
  proof (cases "y = x")
    case True
    then show ?thesis using live by (simp add: s2(1,2) x)
  next
    case False
    then have y: "y \<in> set moved" using that by simp
    then have "snd (snd y) \<noteq> old" "fst y \<noteq> h" using mv(3,4) by force+
    then show ?thesis using ih y live by (simp add: s2(1,2))
  qed
  moreover have "\<not> is_live (live_refs s2) r" if r: "r \<in> (fst \<circ> snd) ` set (moved @ [x])" for r
  proof (cases "r = old")
    case True
    then show ?thesis using live mv(6) by (simp add: s2(1))
  next
    case False
    then have "r \<in> (fst \<circ> snd) ` set moved" using r by (auto simp: x)
    moreover from this have "r \<noteq> new" using mv(7) by auto
    ultimately show ?thesis using live ih by (simp add: s2(1))
  qed
  moreover have "live_refs s2 r = live_refs s r" if "r \<notin> (fst \<circ> snd) ` set (moved @ [x])" "r \<notin> (snd \<circ> snd) ` set (moved @ [x])" for r
    using that ih by (simp add: s2(1) x)
  moreover have "blob_index s2 k = blob_index s k" if "k \<notin> fst ` set (moved @ [x])" for k
    using that ih by (simp add: s2(2) x)
  ultimately show ?case unfolding s2_def [symmetric] using ih s2(3,4) by simp
qed


definition iter_ok :: "((blob_ref \<rightharpoonup> u64) \<Rightarrow> blob_ref list) \<Rightarrow> bool" where
  "iter_ok iter \<longleftrightarrow> (\<forall>m. finite (dom m) \<longrightarrow> distinct (iter m) \<and> set (iter m) = dom m)"

lemma stored_at_remove:
  "stored_at h64 h128 fs r v \<Longrightarrow> br_file_id r \<noteq> i \<Longrightarrow> stored_at h64 h128 (remove_blob_file i fs) r v"
  by (auto simp: stored_at_def remove_blob_file_def)

lemma new_writer_ok:
  assumes "names fs i = None" and "\<forall>j ino. names fs j = Some ino \<longrightarrow> ino < fresh_inode fs"
  shows "\<exists>w fs'. new_blob_writer no_blob_faults i fs = (Inr w, fs') \<and> writer_ok fs' w \<and> bw_file_id w = i \<and> contents fs' (bw_inode w) = []
    \<and> names fs' = (names fs)(i \<mapsto> bw_inode w) \<and> bw_inode w < fresh_inode fs' \<and> fresh_inode fs \<le> fresh_inode fs'
    \<and> (\<forall>r v. stored_at h64 h128 fs r v \<longrightarrow> stored_at h64 h128 fs' r v)"
proof -
  let ?ino = "fresh_inode fs"
  define fs1 where "fs1 = fs\<lparr>names := (names fs)(i \<mapsto> ?ino), contents := (contents fs)(?ino := []), fresh_inode := ?ino + 1\<rparr>"
  let ?w = "\<lparr>bw_file_id = i, bw_inode = ?ino, bw_offset = 0\<rparr>"
  have "new_blob_writer no_blob_faults i fs = (Inr ?w, fs1)"
    using assms(1) by (simp add: new_blob_writer_def no_blob_faults_def open_append_def fs1_def)
  moreover have "writer_ok fs1 ?w" by (simp add: writer_ok_def fs1_def)
  moreover have "stored_at h64 h128 fs1 r v" if e: "stored_at h64 h128 fs r v" for r v
  proof -
    obtain ino pre post where n: "names fs (br_file_id r) = Some ino" "contents fs ino = pre @ blob_entry h64 v (h128 v) @ post"
      "unat (br_offset r) = length pre" using e by (auto simp: stored_at_def)
    then have "br_file_id r \<noteq> i" "ino \<noteq> ?ino" using assms by auto
    then show ?thesis using n e unfolding stored_at_def
      by (intro conjI exI [of _ ino] exI [of _ pre] exI [of _ post]) (simp_all add: fs1_def)
  qed
  ultimately show ?thesis by (intro exI [of _ ?w] exI [of _ fs1]) (simp add: fs1_def)
qed

text \<open>Dropping a file without live references.\<close>

lemma gc_drop_file:
  assumes inv: "blob_gc_inv h64 h128 n s" and none: "\<forall>r \<in> live_set s. br_file_id r \<noteq> i"
  defines "s' \<equiv> s\<lparr>bl_fs := remove_blob_file i (bl_fs s),
     blob_index := (\<lambda>h. case blob_index s h of Some r \<Rightarrow> (if br_file_id r \<noteq> i then Some r else None) | None \<Rightarrow> None)\<rparr>"
  shows "blob_gc_inv h64 h128 n s' \<and> (\<forall>v. live_value h64 h128 s v \<longrightarrow> live_value h64 h128 s' v)"
proof -
  note g = blob_gc_invD [OF inv]
  have ls: "live_set s' = live_set s" by (simp add: live_set_def s'_def)
  have keep: "stored_at h64 h128 (bl_fs s') r v \<and> blob_index s' (h128 v) = Some r"
    if "r \<in> live_set s" "stored_at h64 h128 (bl_fs s) r v" "blob_index s (h128 v) = Some r" for r v
    using that none stored_at_remove by (simp add: s'_def)
  have "blob_gc_inv h64 h128 n s'"
    unfolding blob_gc_inv_def ls
  proof (intro conjI ballI allI impI)
    show "\<exists>v. stored_at h64 h128 (bl_fs s') r v \<and> blob_index s' (h128 v) = Some r" if "r \<in> live_set s" for r
      using g(4) [OF that] keep that by blast
  qed (use g in \<open>auto simp: s'_def remove_blob_file_def split: if_splits\<close>)
  then show ?thesis using keep unfolding live_value_def ls by blast
qed


lemma live_set_dom: "live_set s \<subseteq> dom (live_refs s)"
  by (auto simp: live_set_def is_live_def split: option.splits)

lemma stored_at_unique:
  assumes "stored_at h64 h128 fs r v" "stored_at h64 h128 fs r v'" "hash_ok h128"
  shows "v = v'"
proof -
  let ?s = "\<lparr>bl_fs = fs, writers = [], next_writer = 0, blob_index = Map.empty, next_file_id = 0, live_refs = Map.empty, blob_threshold = 0\<rparr>"
  have "blob_read h64 ?s r = Inr v" "blob_read h64 ?s r = Inr v'" using assms by (auto intro: blob_read_entry)
  then show ?thesis by simp
qed

text \<open>What is known after the live values of file \<open>i\<close> have been copied to a new file.\<close>

definition gc_copied ::
  "(bytes \<Rightarrow> u64) \<Rightarrow> (bytes \<Rightarrow> bytes) \<Rightarrow> u64 \<Rightarrow> blob_log \<Rightarrow> blob_fs \<Rightarrow> (bytes \<times> blob_ref \<times> blob_ref) list \<Rightarrow> bool" where
  "gc_copied h64 h128 i s fs moved \<longleftrightarrow>
     (fst \<circ> snd) ` set moved = {r \<in> live_set s. br_file_id r = i} \<and> distinct (map (fst \<circ> snd) moved)
     \<and> copied h64 h128 fs (next_file_id s) moved \<and> i \<noteq> next_file_id s
     \<and> (\<forall>r v. stored_at h64 h128 (bl_fs s) r v \<longrightarrow> stored_at h64 h128 fs r v)
     \<and> (\<forall>j ino. names fs j = Some ino \<longrightarrow> j \<le> next_file_id s \<and> ino < fresh_inode fs)"

lemma gc_copied_entry:
  assumes inv: "blob_gc_inv h64 h128 n s" and h: "hash_ok h128" and c: "gc_copied h64 h128 i s fs moved" and x: "(k, old, new) \<in> set moved"
  obtains v where "stored_at h64 h128 (bl_fs s) old v" "stored_at h64 h128 fs new v" "k = h128 v" "blob_index s k = Some old"
    "br_file_id new = next_file_id s" "br_file_id old = i" "old \<in> live_set s" "ref_size new = ref_size old"
proof -
  obtain v where v: "stored_at h64 h128 fs old v" "stored_at h64 h128 fs new v" "k = h128 v" "br_file_id new = next_file_id s"
    using c x unfolding gc_copied_def copied_def by blast
  have old: "old \<in> live_set s" "br_file_id old = i" using c x by (force simp: gc_copied_def)+
  obtain v' where v': "stored_at h64 h128 (bl_fs s) old v'" "blob_index s (h128 v') = Some old" using blob_gc_invD(4) [OF inv old(1)] by blast
  have "stored_at h64 h128 fs old v'" using v'(1) c by (simp add: gc_copied_def)
  then have "v' = v" using stored_at_unique v(1) h by metis
  then show ?thesis using that [of v] v v' old stored_at_size [OF v(1)] stored_at_size [OF v(2)] by simp
qed

lemma gc_copied_movable:
  assumes inv: "blob_gc_inv h64 h128 n s" and h: "hash_ok h128" and c: "gc_copied h64 h128 i s fs moved"
  shows "movable (live_refs s) moved"
proof -
  note e = gc_copied_entry [OF inv h c]
  have inj: "x = y" if xy: "x \<in> set moved" "y \<in> set moved" "fst x = fst y" for x y
  proof -
    obtain k old new k' old' new' where x: "x = (k, old, new)" "y = (k', old', new')" by (cases x, cases y)
    have "blob_index s k = Some old" "blob_index s k' = Some old'" using e xy(1,2) x by blast+
    then have "old = old'" using xy(3) x by simp
    moreover have "inj_on (fst \<circ> snd) (set moved)" using c by (simp add: gc_copied_def distinct_map)
    ultimately show ?thesis using inj_onD [of "fst \<circ> snd" "set moved" x y] xy(1,2) x by simp
  qed
  have dm: "distinct moved" using c by (simp add: gc_copied_def distinct_map)
  have "\<forall>x \<in> set moved. is_live (live_refs s) (fst (snd x))" using c by (force simp: gc_copied_def live_set_def)
  moreover have "fst (snd x) \<noteq> snd (snd y)" if xy: "x \<in> set moved" "y \<in> set moved" for x y
  proof -
    obtain k old new k' old' new' where x: "x = (k, old, new)" "y = (k', old', new')" by (cases x, cases y)
    have "br_file_id old = i" "br_file_id new' = next_file_id s" using e xy x by blast+
    then show ?thesis using c x by (auto simp: gc_copied_def)
  qed
  moreover have "distinct (map fst moved)" using inj dm by (simp add: distinct_map inj_on_def)
  ultimately show ?thesis using c by (auto simp: movable_def gc_copied_def)
qed

text \<open>The state after the references have been moved and the file removed.\<close>

definition gc_moved_state :: "u64 \<Rightarrow> (bytes \<times> blob_ref \<times> blob_ref) list \<Rightarrow> blob_fs \<Rightarrow> blob_log \<Rightarrow> blob_log" where
  "gc_moved_state i moved fs s =
     (fold move_ref moved (s\<lparr>next_file_id := next_file_id s + 1, bl_fs := fs\<rparr>))\<lparr>bl_fs := remove_blob_file i fs\<rparr>"

lemma gc_moved_simps:
  assumes "blob_gc_inv h64 h128 n s" and "hash_ok h128" and "gc_copied h64 h128 i s fs moved"
  defines "s' \<equiv> gc_moved_state i moved fs s"
  shows "x \<in> set moved \<Longrightarrow> snd (snd x) \<in> live_set s' \<and> blob_index s' (fst x) = Some (snd (snd x))"
    "k \<notin> fst ` set moved \<Longrightarrow> blob_index s' k = blob_index s k"
    "r \<in> (fst \<circ> snd) ` set moved \<Longrightarrow> r \<notin> live_set s'"
    "r \<notin> (fst \<circ> snd) ` set moved \<Longrightarrow> r \<notin> (snd \<circ> snd) ` set moved \<Longrightarrow> live_refs s' r = live_refs s r"
    "bl_fs s' = remove_blob_file i fs" "next_file_id s' = next_file_id s + 1"
proof -
  have "movable (live_refs (s\<lparr>next_file_id := next_file_id s + 1, bl_fs := fs\<rparr>)) moved"
    using gc_copied_movable [OF assms(1-3)] by simp
  note m = move_refs [OF this]
  show "x \<in> set moved \<Longrightarrow> snd (snd x) \<in> live_set s' \<and> blob_index s' (fst x) = Some (snd (snd x))"
    "k \<notin> fst ` set moved \<Longrightarrow> blob_index s' k = blob_index s k"
    "r \<in> (fst \<circ> snd) ` set moved \<Longrightarrow> r \<notin> live_set s'"
    "r \<notin> (fst \<circ> snd) ` set moved \<Longrightarrow> r \<notin> (snd \<circ> snd) ` set moved \<Longrightarrow> live_refs s' r = live_refs s r"
    "bl_fs s' = remove_blob_file i fs" "next_file_id s' = next_file_id s + 1"
    using m by (simp_all add: s'_def gc_moved_state_def live_set_def)
qed

lemma gc_moved_live:
  assumes inv: "blob_gc_inv h64 h128 n s" and h: "hash_ok h128" and c: "gc_copied h64 h128 i s fs moved"
  shows "live_set (gc_moved_state i moved fs s) = (snd \<circ> snd) ` set moved \<union> {r \<in> live_set s. br_file_id r \<noteq> i}" (is "?L = ?R")
proof -
  note m = gc_moved_simps [OF assms]
  have olds: "(fst \<circ> snd) ` set moved = {r \<in> live_set s. br_file_id r = i}" using c by (simp add: gc_copied_def)
  have "r \<in> ?L \<longleftrightarrow> r \<in> ?R" for r
  proof (cases "r \<in> (snd \<circ> snd) ` set moved")
    case True
    then show ?thesis using m(1) by auto
  next
    case False
    show ?thesis
    proof (cases "r \<in> (fst \<circ> snd) ` set moved")
      case True
      then have "br_file_id r = i" unfolding olds by simp
      then show ?thesis using True m(3) False by simp
    next
      case out: False
      then have "r \<in> live_set s \<longleftrightarrow> r \<in> ?L" using m(4) [OF out False] by (simp add: live_set_def is_live_def)
      then show ?thesis using False out unfolding olds by auto
    qed
  qed
  then show ?thesis by blast
qed

lemma gc_moved_stay:
  assumes inv: "blob_gc_inv h64 h128 n s" and h: "hash_ok h128" and c: "gc_copied h64 h128 i s fs moved"
    and r: "stored_at h64 h128 (bl_fs s) r v" "blob_index s (h128 v) = Some r" "br_file_id r \<noteq> i"
  defines "s' \<equiv> gc_moved_state i moved fs s"
  shows "stored_at h64 h128 (bl_fs s') r v \<and> blob_index s' (h128 v) = Some r"
proof -
  note m = gc_moved_simps [OF inv h c, folded s'_def]
  have "stored_at h64 h128 fs r v" using c r(1) by (simp add: gc_copied_def)
  moreover have "h128 v \<notin> fst ` set moved"
  proof
    assume "h128 v \<in> fst ` set moved"
    then obtain old new where "(h128 v, old, new) \<in> set moved" by (auto simp: image_iff)
    then have "blob_index s (h128 v) = Some old \<and> br_file_id old = i" by (elim gc_copied_entry [OF inv h c]) simp
    then show False using r(2,3) by simp
  qed
  ultimately show ?thesis using m(2,5) r(2,3) stored_at_remove by simp
qed

lemma gc_moved_new:
  assumes inv: "blob_gc_inv h64 h128 n s" and h: "hash_ok h128" and c: "gc_copied h64 h128 i s fs moved" and x: "(k, old, r) \<in> set moved"
  defines "s' \<equiv> gc_moved_state i moved fs s"
  shows "\<exists>v. stored_at h64 h128 (bl_fs s) old v \<and> stored_at h64 h128 (bl_fs s') r v \<and> blob_index s' (h128 v) = Some r \<and> r \<in> live_set s'"
proof -
  note m = gc_moved_simps [OF inv h c, folded s'_def]
  obtain v where v: "stored_at h64 h128 (bl_fs s) old v" "stored_at h64 h128 fs r v" "k = h128 v" "br_file_id r = next_file_id s"
    using gc_copied_entry [OF inv h c x] by metis
  have "br_file_id r \<noteq> i" using c v(4) unfolding gc_copied_def by metis
  then have "stored_at h64 h128 (bl_fs s') r v" using v(2) stored_at_remove by (simp add: m(5))
  then show ?thesis using v(1,3) m(1) [OF x] by auto
qed

lemma gc_moved_values:
  assumes inv: "blob_gc_inv h64 h128 n s" and h: "hash_ok h128" and c: "gc_copied h64 h128 i s fs moved"
  shows "live_value h64 h128 s v \<Longrightarrow> live_value h64 h128 (gc_moved_state i moved fs s) v"
proof -
  let ?s = "gc_moved_state i moved fs s"
  assume "live_value h64 h128 s v"
  then obtain r where r: "r \<in> live_set s" "stored_at h64 h128 (bl_fs s) r v" "blob_index s (h128 v) = Some r" by (auto simp: live_value_def)
  show ?thesis
  proof (cases "br_file_id r = i")
    case True
    then have "r \<in> (fst \<circ> snd) ` set moved" using r(1) c by (simp add: gc_copied_def)
    then obtain k new where "(k, r, new) \<in> set moved" by force
    from gc_moved_new [OF inv h c this] obtain u where u: "stored_at h64 h128 (bl_fs s) r u" "stored_at h64 h128 (bl_fs ?s) new u"
      "blob_index ?s (h128 u) = Some new" "new \<in> live_set ?s" by blast
    then have "u = v" using stored_at_unique r(2) h by metis
    then show ?thesis using u(2-4) by (auto simp: live_value_def)
  next
    case False
    then have "r \<in> live_set ?s" using r(1) by (simp add: gc_moved_live [OF inv h c])
    then show ?thesis using gc_moved_stay [OF inv h c r(2,3) False] by (auto simp: live_value_def)
  qed
qed

lemma gc_moved_size:
  assumes inv: "blob_gc_inv h64 h128 n s" and h: "hash_ok h128" and c: "gc_copied h64 h128 i s fs moved"
  shows "sum ref_size (live_set (gc_moved_state i moved fs s)) \<le> sum ref_size (live_set s)"
proof -
  let ?news = "(snd \<circ> snd) ` set moved" and ?olds = "(fst \<circ> snd) ` set moved" and ?rest = "{r \<in> live_set s. br_file_id r \<noteq> i}"
  have fin: "finite (live_set s)" using finite_subset [OF live_set_dom] blob_gc_invD(1) [OF inv] by blast
  have same: "ref_size (snd (snd x)) = ref_size (fst (snd x))" if "x \<in> set moved" for x
  proof -
    obtain k old new where x: "x = (k, old, new)" by (cases x)
    then have "(k, old, new) \<in> set moved" using that by simp
    then show ?thesis by (elim gc_copied_entry [OF inv h c]) (simp add: x)
  qed
  have "sum ref_size ?news \<le> (\<Sum>x \<in> set moved. ref_size (snd (snd x)))" using sum_image_le [of "set moved" ref_size "snd \<circ> snd"] by simp
  also have "\<dots> = sum ref_size ?olds"
  proof -
    have "inj_on (fst \<circ> snd) (set moved)" using c by (simp add: distinct_map gc_copied_def)
    then show ?thesis using same sum.reindex [of "fst \<circ> snd" "set moved" ref_size] by simp
  qed
  finally have "sum ref_size (?news \<union> ?rest) \<le> sum ref_size ?olds + sum ref_size ?rest"
    using fin sum_Un_nat [of ?news ?rest ref_size] by simp
  also have "\<dots> = sum ref_size (?olds \<union> ?rest)" using c fin by (intro sum.union_disjoint [symmetric]) (auto simp: gc_copied_def)
  also have "?olds \<union> ?rest = live_set s" using c by (auto simp: gc_copied_def)
  finally show ?thesis by (simp add: gc_moved_live [OF assms])
qed

lemma gc_moved_inv:
  assumes inv: "blob_gc_inv h64 h128 (Suc n) s" and h: "hash_ok h128" and c: "gc_copied h64 h128 i s fs moved"
  shows "blob_gc_inv h64 h128 n (gc_moved_state i moved fs s)"
proof -
  let ?s = "gc_moved_state i moved fs s"
  note g = blob_gc_invD [OF inv] and m = gc_moved_simps [OF inv h c]
  have "\<exists>v. stored_at h64 h128 (bl_fs ?s) r v \<and> blob_index ?s (h128 v) = Some r" if r: "r \<in> live_set ?s" for r
  proof (cases "r \<in> (snd \<circ> snd) ` set moved")
    case True
    then obtain k old where "(k, old, r) \<in> set moved" by force
    then show ?thesis using gc_moved_new [OF inv h c] by blast
  next
    case False
    then have "r \<in> live_set s" "br_file_id r \<noteq> i" using r by (simp_all add: gc_moved_live [OF inv h c])
    then show ?thesis using g(4) gc_moved_stay [OF inv h c] by blast
  qed
  moreover have "finite (dom (live_refs ?s))"
  proof (rule finite_subset)
    show "dom (live_refs ?s) \<subseteq> dom (live_refs s) \<union> (fst \<circ> snd) ` set moved \<union> (snd \<circ> snd) ` set moved"
    proof
      fix r assume r: "r \<in> dom (live_refs ?s)"
      show "r \<in> dom (live_refs s) \<union> (fst \<circ> snd) ` set moved \<union> (snd \<circ> snd) ` set moved"
        using r m(4) [of r] by (cases "r \<in> (fst \<circ> snd) ` set moved \<or> r \<in> (snd \<circ> snd) ` set moved") auto
    qed
  qed (use g(1) in simp)
  moreover have nf: "unat (next_file_id ?s) = unat (next_file_id s) + 1" using unat_plus_nat [of "next_file_id s" 1] g(3) by (simp add: m(6))
  moreover have "j < next_file_id ?s \<and> ino < fresh_inode (bl_fs ?s)" if "names (bl_fs ?s) j = Some ino" for j ino
  proof -
    have "names fs j = Some ino" using that by (auto simp: m(5) remove_blob_file_def split: if_splits)
    then have "j \<le> next_file_id s" "ino < fresh_inode fs" using c unfolding gc_copied_def by blast+
    then show ?thesis using nf by (simp add: m(5) remove_blob_file_def word_less_nat_alt word_le_nat_alt)
  qed
  ultimately show ?thesis using g(2,3) gc_moved_size [OF inv h c] unfolding blob_gc_inv_def by simp
qed

lemma gc_copy_ok:
  assumes inv: "blob_gc_inv h64 h128 n s" and h: "hash_ok h128" and i: "i < next_file_id s"
    and refs: "set refs = {r \<in> live_set s. br_file_id r = i}" "distinct refs"
  shows "\<exists>w fs moved fs'. new_blob_writer no_blob_faults (next_file_id s) (bl_fs s) = (Inr w, fs)
    \<and> copy_live h64 h128 no_blob_faults refs w (s\<lparr>next_file_id := next_file_id s + 1, bl_fs := fs\<rparr>)
        = (Inr moved, s\<lparr>next_file_id := next_file_id s + 1, bl_fs := fs'\<rparr>)
    \<and> gc_copied h64 h128 i s fs' moved"
proof -
  note g = blob_gc_invD [OF inv]
  let ?new = "next_file_id s"
  have "names (bl_fs s) ?new = None" using g(5) [of ?new] by (cases "names (bl_fs s) ?new") auto
  moreover have "\<forall>j ino. names (bl_fs s) j = Some ino \<longrightarrow> ino < fresh_inode (bl_fs s)" using g(5) by blast
  ultimately obtain w fs where w: "new_blob_writer no_blob_faults ?new (bl_fs s) = (Inr w, fs)" "writer_ok fs w" "bw_file_id w = ?new"
    "contents fs (bw_inode w) = []" "names fs = (names (bl_fs s))(?new \<mapsto> bw_inode w)" "bw_inode w < fresh_inode fs"
    "fresh_inode (bl_fs s) \<le> fresh_inode fs" "\<forall>r v. stored_at h64 h128 (bl_fs s) r v \<longrightarrow> stored_at h64 h128 fs r v"
    using new_writer_ok [of "bl_fs s" ?new h64 h128] by blast
  let ?s1 = "s\<lparr>next_file_id := ?new + 1, bl_fs := fs\<rparr>"
  have "sum_list (map ref_size refs) = sum ref_size (set refs)" using refs(2) by (simp add: sum_list_distinct_conv_sum_set)
  also have "\<dots> \<le> sum ref_size (live_set s)"
    using refs(1) finite_subset [OF live_set_dom g(1)] by (intro sum_mono2) auto
  finally have room: "length (contents (bl_fs ?s1) (bw_inode w)) + sum_list (map ref_size refs) < 2 ^ 64"
    using le_less_trans [OF _ g(2)] w(4) by simp
  have "\<exists>v. stored_at h64 h128 (bl_fs ?s1) r v" if "r \<in> set refs" for r
  proof -
    have "r \<in> live_set s" using that refs(1) by simp
    then obtain v where "stored_at h64 h128 (bl_fs s) r v" using g(4) by blast
    then have "stored_at h64 h128 (bl_fs ?s1) r v" using w(8) by simp
    then show ?thesis by blast
  qed
  then have ex: "\<forall>r \<in> set refs. \<exists>v. stored_at h64 h128 (bl_fs ?s1) r v" by blast
  have "writer_ok (bl_fs ?s1) w" using w(2) by simp
  from copy_live_ok [OF ex this h room] obtain moved fs' where m: "copy_live h64 h128 no_blob_faults refs w ?s1 = (Inr moved, ?s1\<lparr>bl_fs := fs'\<rparr>)"
    "map (\<lambda>(h, old, new). old) moved = refs" "copied h64 h128 fs' (bw_file_id w) moved" "names fs' = names (bl_fs ?s1)"
    "fresh_inode fs' = fresh_inode (bl_fs ?s1)" "\<forall>r v. stored_at h64 h128 (bl_fs ?s1) r v \<longrightarrow> stored_at h64 h128 fs' r v"
    by blast
  have "(\<lambda>(h, old, new). old) = (fst \<circ> snd :: bytes \<times> blob_ref \<times> blob_ref \<Rightarrow> blob_ref)" by (simp add: fun_eq_iff)
  then have olds: "map (fst \<circ> snd) moved = refs" using m(2) by simp
  then have "(fst \<circ> snd) ` set moved = set refs" by (metis set_map)
  moreover have "j \<le> ?new \<and> ino < fresh_inode fs'" if "names fs' j = Some ino" for j ino
    using that g(5) [of j ino] w(5-7) m(4,5) by (cases "j = ?new") (simp_all add: less_imp_le)
  ultimately have "gc_copied h64 h128 i s fs' moved"
    using m(3,6) w(3,8) refs olds i by (simp add: gc_copied_def)
  then show ?thesis using w(1) m(1) by (intro exI [of _ w] exI [of _ fs] exI [of _ moved] exI [of _ fs']) simp
qed

lemma bl_fs_moves: "bl_fs (fold move_ref moved s) = bl_fs s"
  by (induction moved arbitrary: s) (simp_all add: move_ref_def Let_def split: prod.split)

lemma gc_file_ok:
  assumes inv: "blob_gc_inv h64 h128 (Suc n) s" and h: "hash_ok h128" and iter: "iter_ok iter" and i: "i < next_file_id s"
  shows "\<exists>s'. gc_file h64 h128 no_blob_faults iter i s = (Inr (), s') \<and> blob_gc_inv h64 h128 n s'
    \<and> (\<forall>v. live_value h64 h128 s v \<longrightarrow> live_value h64 h128 s' v) \<and> next_file_id s \<le> next_file_id s'"
proof -
  note g = blob_gc_invD [OF inv]
  define refs where "refs = filter (\<lambda>r. br_file_id r = i \<and> is_live (live_refs s) r) (iter (live_refs s))"
  have it: "distinct (iter (live_refs s))" "set (iter (live_refs s)) = dom (live_refs s)" using iter g(1) by (simp_all add: iter_ok_def)
  have refs: "set refs = {r \<in> live_set s. br_file_id r = i}" "distinct refs"
    using it live_set_dom [of s] by (auto simp: refs_def live_set_def)
  show ?thesis
  proof (cases "refs = []")
    case True
    let ?s = "s\<lparr>bl_fs := remove_blob_file i (bl_fs s),
       blob_index := (\<lambda>h. case blob_index s h of Some r \<Rightarrow> (if br_file_id r \<noteq> i then Some r else None) | None \<Rightarrow> None)\<rparr>"
    have "blob_gc_inv h64 h128 n s" using inv by (simp add: blob_gc_inv_def)
    moreover have "\<forall>r \<in> live_set s. br_file_id r \<noteq> i" using True refs(1) by auto
    ultimately have "blob_gc_inv h64 h128 n ?s \<and> (\<forall>v. live_value h64 h128 s v \<longrightarrow> live_value h64 h128 ?s v)" by (rule gc_drop_file)
    moreover have "gc_file h64 h128 no_blob_faults iter i s = (Inr (), ?s)"
      using True by (simp add: gc_file_def refs_def [symmetric] Let_def)
    ultimately show ?thesis by (intro exI [of _ ?s]) simp
  next
    case False
    let ?s1 = "\<lambda>fs. s\<lparr>next_file_id := next_file_id s + 1, bl_fs := fs\<rparr>"
    obtain w fs moved fs' where m: "new_blob_writer no_blob_faults (next_file_id s) (bl_fs s) = (Inr w, fs)"
      "copy_live h64 h128 no_blob_faults refs w (?s1 fs) = (Inr moved, ?s1 fs')" "gc_copied h64 h128 i s fs' moved"
      using gc_copy_ok [OF inv h i refs] by blast
    let ?s = "gc_moved_state i moved fs' s"
    have "gc_file h64 h128 no_blob_faults iter i s = (Inr (), ?s)"
      using False m(1,2) by (simp add: gc_file_def refs_def [symmetric] Let_def gc_moved_state_def bl_fs_moves)
    moreover have "next_file_id s \<le> next_file_id ?s"
      using unat_plus_nat [of "next_file_id s" 1] g(3) gc_moved_simps(6) [OF inv h m(3)] by (simp add: word_le_nat_alt)
    ultimately show ?thesis using gc_moved_inv [OF inv h m(3)] gc_moved_values [OF inv h m(3)] by (intro exI [of _ ?s]) simp
  qed
qed

lemma gc_files_ok:
  assumes "blob_gc_inv h64 h128 (length sts) s" and h: "hash_ok h128" and iter: "iter_ok iter" and "\<forall>st \<in> set sts. st_file_id st < next_file_id s"
  shows "\<exists>k s'. gc_files h64 h128 no_blob_faults iter sts c s = (Inr k, s') \<and> (\<forall>v. live_value h64 h128 s v \<longrightarrow> live_value h64 h128 s' v)"
  using assms(1,4)
proof (induction sts arbitrary: c s)
  case Nil
  then show ?case by simp
next
  case (Cons st sts)
  show ?case
  proof (cases "needs_gc st")
    case False
    moreover have "blob_gc_inv h64 h128 (length sts) s" using Cons.prems(1) by (simp add: blob_gc_inv_def)
    ultimately show ?thesis using Cons.IH [of s c] Cons.prems(2) by simp
  next
    case True
    have "blob_gc_inv h64 h128 (Suc (length sts)) s" "st_file_id st < next_file_id s" using Cons.prems by simp_all
    then obtain s1 where s1: "gc_file h64 h128 no_blob_faults iter (st_file_id st) s = (Inr (), s1)" "blob_gc_inv h64 h128 (length sts) s1"
      "\<forall>v. live_value h64 h128 s v \<longrightarrow> live_value h64 h128 s1 v" "next_file_id s \<le> next_file_id s1"
      using gc_file_ok [OF _ h iter] by blast
    have "\<forall>st \<in> set sts. st_file_id st < next_file_id s1" using Cons.prems(2) s1(4) order_less_le_trans by auto
    then show ?thesis using Cons.IH [OF s1(2), of "Suc c"] True s1(1,3) by auto
  qed
qed

text \<open>The directory is listed once, each file once.\<close>

definition ls_ok :: "((u64 \<rightharpoonup> nat) \<Rightarrow> u64 list) \<Rightarrow> bool" where
  "ls_ok ls \<longleftrightarrow> (\<forall>m. distinct (ls m) \<and> set (ls m) = dom m)"

lemma card_below_word: "card {i. i < (n :: u64)} = unat n"
proof -
  have "unat ` {i. i < n} = {..<unat n}"
  proof (rule set_eqI, rule iffI)
    fix k assume "k \<in> {..<unat n}"
    moreover have "unat n < 2 ^ 64" using unsigned_less [of n] by simp
    ultimately have "unat (word_of_nat k :: u64) = k" using unat_of_nat_small [where 'a = 64] by simp
    then show "k \<in> unat ` {i. i < n}" using \<open>k \<in> {..<unat n}\<close> by (metis image_eqI lessThan_iff mem_Collect_eq word_less_nat_alt)
  qed (auto simp: word_less_nat_alt)
  moreover have "inj_on unat {i. i < n}" by (rule inj_onI) (simp add: word_unat_eq_iff)
  ultimately show ?thesis using card_image [of unat "{i. i < n}"] by simp
qed

lemma run_gc_ok:
  assumes inv: "blob_inv h64 h128 B s" and h: "hash_ok h128" and "iter_ok iter" and "ls_ok ls"
  shows "\<exists>k s'. run_gc h64 h128 no_blob_faults iter ls s = (Inr k, s') \<and> (\<forall>v. live_value h64 h128 s v \<longrightarrow> live_value h64 h128 s' v)"
proof -
  note i = blob_invD [OF inv]
  let ?sts = "collect_file_stats iter ls s"
  have ids: "map st_file_id ?sts = ls (names (bl_fs s))" by (simp add: collect_file_stats_def Let_def comp_def case_prod_beta)
  have lt: "set (ls (names (bl_fs s))) \<subseteq> {j. j < next_file_id s}" using assms(4) i(8) by (auto simp: ls_ok_def)
  have "length ?sts = card (set (ls (names (bl_fs s))))" using ids assms(4) by (metis distinct_card length_map ls_ok_def)
  also have "\<dots> \<le> unat (next_file_id s)" using card_mono [OF _ lt] by (simp add: card_below_word)
  finally have len: "unat (next_file_id s) + length ?sts < 2 ^ 64" using i(11) by simp
  have ran: "live_set s \<subseteq> ran (blob_index s)" "dom (live_refs s) \<subseteq> ran (blob_index s)"
    using i(7) live_set_dom [of s] by (auto simp: ran_def)
  have fin: "finite (ran (blob_index s))" using i(9) by (rule finite_ran)
  have "sum ref_size (live_set s) \<le> sum ref_size (ran (blob_index s))" using ran(1) fin by (intro sum_mono2) auto
  then have "sum ref_size (live_set s) < 2 ^ 64" using i(10) by (meson add_leE le_less_trans less_imp_le not_less)
  moreover have "\<exists>v. stored_at h64 h128 (bl_fs s) r v \<and> blob_index s (h128 v) = Some r" if "r \<in> live_set s" for r
  proof -
    have "r \<in> ran (blob_index s)" using that ran(1) by blast
    then obtain k where "blob_index s k = Some r" by (auto simp: ran_def)
    then show ?thesis using i(6) by blast
  qed
  ultimately have "blob_gc_inv h64 h128 (length ?sts) s"
    using finite_subset [OF ran(2) fin] len i(8) unfolding blob_gc_inv_def by blast
  moreover have "\<forall>st \<in> set ?sts. st_file_id st < next_file_id s"
  proof
    fix st assume "st \<in> set ?sts"
    then have "st_file_id st \<in> set (ls (names (bl_fs s)))" using ids by (metis image_eqI list.set_map)
    then show "st_file_id st < next_file_id s" using lt by blast
  qed
  ultimately show ?thesis unfolding run_gc_def by (rule gc_files_ok [OF _ h assms(3)])
qed

section \<open>The properties\<close>

text \<open>
  C20: The blob log stores values. On a fresh log with any number of queues, run any sequence of
  writes and releases of references. If no two written values have the same content hash,
  every write succeeds, and at the end every reference handed out, released or not, reads back
  its value, also through the encoded form kept in the tree; equal values share one
  reference and different values do not.
\<close>

theorem blob_log_reads_back:
  assumes "hash_ok h128" and "inj_on h128 (set (written ops))" and "\<forall>v \<in> set (written ops). length v < 2 ^ 32"
    and "run_size ops < 2 ^ 64" and "queues < 2 ^ 63"
  shows "\<exists>s fs rs s'. new_blob_log no_blob_faults empty_blob_fs queues threshold = (Inr s, fs)
    \<and> blob_run h64 h128 ops s = Some (rs, s') \<and> map fst rs = written ops
    \<and> (\<forall>(v, r) \<in> set rs. blob_read h64 s' r = Inr v \<and> read_transparent h64 s' (encode_blob_ref (h128 v) r) = Inr v)
    \<and> (\<forall>(v, r) \<in> set rs. \<forall>(v', r') \<in> set rs. r = r' \<longleftrightarrow> v = v')"
proof -
  obtain s fs rs s' where run: "new_blob_log no_blob_faults empty_blob_fs queues threshold = (Inr s, fs)"
    "blob_run h64 h128 ops s = Some (rs, s')" "map fst rs = written ops"
    "\<forall>(v, r) \<in> set rs. blob_index s' (h128 v) = Some r \<and> stored_at h64 h128 (bl_fs s') r v"
    using blob_log_run [OF assms] by blast
  have rd: "blob_read h64 s' r = Inr v" "blob_index s' (h128 v) = Some r" if "(v, r) \<in> set rs" for v r
    using run(4) that blob_read_entry assms(1) by blast+
  have "read_transparent h64 s' (encode_blob_ref (h128 v) r) = Inr v" if "(v, r) \<in> set rs" for v r
    using rd(1) [OF that] assms(1) by (simp add: read_transparent_def decode_encode_blob_ref hash_ok_def)
  moreover have "r = r' \<longleftrightarrow> v = v'" if "(v, r) \<in> set rs" "(v', r') \<in> set rs" for v r v' r'
    using rd [OF that(1)] rd [OF that(2)] by auto
  ultimately show ?thesis using run(1-3) rd(1) by blast
qed

text \<open>An example: the values are their own hashes, padded, and the checksum is the length.\<close>

definition demo_h128 :: "bytes \<Rightarrow> bytes" where "demo_h128 v = take 16 (v @ replicate 16 0)"
definition demo_h64 :: "bytes \<Rightarrow> u64" where "demo_h64 v = word_of_nat (length v)"
definition demo_blob_ops :: "blob_op list" where
  "demo_blob_ops = [BWrite [1], BWrite [2, 3], BWrite [1], BDead \<lparr>br_file_id = 0, br_offset = 0, br_length = 1\<rparr>,
     BDead \<lparr>br_file_id = 1, br_offset = 0, br_length = 2\<rparr>]"

lemma demo_hyps: "hash_ok demo_h128" "inj_on demo_h128 (set (written demo_blob_ops))" "\<forall>v \<in> set (written demo_blob_ops). length v < 2 ^ 32"
  "run_size demo_blob_ops < 2 ^ 64"
  by (auto simp: hash_ok_def demo_h128_def demo_blob_ops_def run_size_def inj_on_def)

theorem blob_log_reads_back_witness:
  "hash_ok demo_h128 \<and> (2 :: nat) < 2 ^ 63
   \<and> (\<exists>s fs rs s'. new_blob_log no_blob_faults empty_blob_fs 2 2048 = (Inr s, fs)
    \<and> blob_run demo_h64 demo_h128 demo_blob_ops s = Some (rs, s') \<and> map fst rs = [[1], [2, 3], [1]]
    \<and> (\<forall>(v, r) \<in> set rs. blob_read demo_h64 s' r = Inr v \<and> read_transparent demo_h64 s' (encode_blob_ref (demo_h128 v) r) = Inr v)
    \<and> (\<forall>(v, r) \<in> set rs. \<forall>(v', r') \<in> set rs. r = r' \<longleftrightarrow> v = v'))"
proof -
  have "written demo_blob_ops = [[1], [2, 3], [1]]" by (simp add: demo_blob_ops_def)
  then show ?thesis using blob_log_reads_back [OF demo_hyps, of 2 2048 demo_h64] demo_hyps(1) by simp
qed

text \<open>
  C21: Garbage collection loses no live value. After any run of writes and releases on a fresh log,
  the collection of every file that is more than half dead succeeds, and every value whose
  reference is still counted as live is then found under its content hash and reads back.
\<close>

theorem blob_gc_keeps_live:
  assumes "hash_ok h128" and "inj_on h128 (set (written ops))" and "\<forall>v \<in> set (written ops). length v < 2 ^ 32"
    and "run_size ops < 2 ^ 64" and "queues < 2 ^ 63" and "iter_ok iter" and "ls_ok ls"
  shows "\<exists>s fs rs s' k s''. new_blob_log no_blob_faults empty_blob_fs queues threshold = (Inr s, fs)
    \<and> blob_run h64 h128 ops s = Some (rs, s') \<and> map fst rs = written ops
    \<and> run_gc h64 h128 no_blob_faults iter ls s' = (Inr k, s'')
    \<and> (\<forall>(v, r) \<in> set rs. is_live (live_refs s') r \<longrightarrow>
         (\<exists>r'. lookup_by_hash s'' (h128 v) = Some r' \<and> blob_read h64 s'' r' = Inr v))"
proof -
  obtain s fs rs s' where run: "new_blob_log no_blob_faults empty_blob_fs queues threshold = (Inr s, fs)"
    "blob_run h64 h128 ops s = Some (rs, s')" "map fst rs = written ops" "blob_inv h64 h128 0 s'"
    "\<forall>(v, r) \<in> set rs. blob_index s' (h128 v) = Some r \<and> stored_at h64 h128 (bl_fs s') r v"
    using blob_log_run [OF assms(1-5)] by blast
  obtain k s'' where gc: "run_gc h64 h128 no_blob_faults iter ls s' = (Inr k, s'')"
    "\<forall>v. live_value h64 h128 s' v \<longrightarrow> live_value h64 h128 s'' v"
    using run_gc_ok [OF run(4) assms(1,6,7)] by blast
  have "\<exists>r'. lookup_by_hash s'' (h128 v) = Some r' \<and> blob_read h64 s'' r' = Inr v"
    if "(v, r) \<in> set rs" "is_live (live_refs s') r" for v r
  proof -
    have "live_value h64 h128 s' v" using that run(5) unfolding live_value_def live_set_def by blast
    then have "live_value h64 h128 s'' v" using gc(2) by blast
    then show ?thesis using blob_read_entry assms(1) unfolding live_value_def lookup_by_hash_def by blast
  qed
  then show ?thesis using run(1-3) gc(1) by blast
qed

definition ref_key :: "blob_ref \<Rightarrow> u64 \<times> u64 \<times> u32" where "ref_key r = (br_file_id r, br_offset r, br_length r)"
definition demo_iter :: "(blob_ref \<rightharpoonup> u64) \<Rightarrow> blob_ref list" where
  "demo_iter m = map (\<lambda>(i, off, len). \<lparr>br_file_id = i, br_offset = off, br_length = len\<rparr>) (sorted_list_of_set (ref_key ` dom m))"
definition demo_ls :: "(u64 \<rightharpoonup> nat) \<Rightarrow> u64 list" where "demo_ls m = sorted_list_of_set (dom m)"

lemma demo_iter_ok: "iter_ok demo_iter"
proof -
  have key: "(\<lambda>(i, off, len). \<lparr>br_file_id = i, br_offset = off, br_length = len\<rparr>) (ref_key r) = r" for r by (simp add: ref_key_def)
  show ?thesis
    unfolding iter_ok_def demo_iter_def by (simp add: image_image key) (auto simp: distinct_map inj_on_def key)
qed

lemma demo_ls_ok: "ls_ok demo_ls"
  by (simp add: ls_ok_def demo_ls_def)

theorem blob_gc_keeps_live_witness:
  "iter_ok demo_iter \<and> ls_ok demo_ls \<and>
   (\<exists>s fs rs s' k s''. new_blob_log no_blob_faults empty_blob_fs 2 2048 = (Inr s, fs)
    \<and> blob_run demo_h64 demo_h128 demo_blob_ops s = Some (rs, s') \<and> map fst rs = [[1], [2, 3], [1]]
    \<and> run_gc demo_h64 demo_h128 no_blob_faults demo_iter demo_ls s' = (Inr k, s'')
    \<and> (\<forall>(v, r) \<in> set rs. is_live (live_refs s') r \<longrightarrow>
         (\<exists>r'. lookup_by_hash s'' (demo_h128 v) = Some r' \<and> blob_read demo_h64 s'' r' = Inr v)))"
proof -
  have "written demo_blob_ops = [[1], [2, 3], [1]]" by (simp add: demo_blob_ops_def)
  then show ?thesis using blob_gc_keeps_live [OF demo_hyps _ demo_iter_ok demo_ls_ok, of 2 2048 demo_h64] demo_iter_ok demo_ls_ok by simp
qed

section \<open>What garbage collection leaves behind\<close>

lemma unique_list: "distinct xs \<Longrightarrow> set xs = {x} \<Longrightarrow> xs = [x]"
  by (cases xs; cases "tl xs") auto

text \<open>A log with one queue, in which \<open>v\<close> and \<open>w\<close> were written and \<open>v\<close> released.\<close>

definition half_dead :: "(bytes \<Rightarrow> u64) \<Rightarrow> (bytes \<Rightarrow> bytes) \<Rightarrow> bytes \<Rightarrow> bytes \<Rightarrow> blob_log" where
  "half_dead h64 h128 v w =
     \<lparr>bl_fs = \<lparr>names = [0 \<mapsto> 0], contents = (\<lambda>_. [])(0 := blob_entry h64 v (h128 v) @ blob_entry h64 w (h128 w)), fresh_inode = 1\<rparr>,
      writers = [\<lparr>bw_file_id = 0, bw_inode = 0, bw_offset = word_of_nat (length v + 34) + word_of_nat (length w + 34)\<rparr>], next_writer = 2,
      blob_index = [h128 v \<mapsto> \<lparr>br_file_id = 0, br_offset = 0, br_length = word_of_nat (length v)\<rparr>,
                    h128 w \<mapsto> \<lparr>br_file_id = 0, br_offset = word_of_nat (length v + 34), br_length = word_of_nat (length w)\<rparr>],
      next_file_id = 1, live_refs = [\<lparr>br_file_id = 0, br_offset = word_of_nat (length v + 34), br_length = word_of_nat (length w)\<rparr> \<mapsto> 1],
      blob_threshold = 2048\<rparr>"

definition ref_in :: "u64 \<Rightarrow> nat \<Rightarrow> bytes \<Rightarrow> blob_ref" where
  "ref_in i off v = \<lparr>br_file_id = i, br_offset = word_of_nat off, br_length = word_of_nat (length v)\<rparr>"

lemma half_dead_run:
  assumes h: "hash_ok h128" and "h128 v \<noteq> h128 w" and "length v < 2 ^ 32"
  shows "\<exists>s fs. new_blob_log no_blob_faults empty_blob_fs 1 2048 = (Inr s, fs)
    \<and> blob_run h64 h128 [BWrite v, BWrite w, BDead (ref_in 0 0 v)] s = Some ([(v, ref_in 0 0 v), (w, ref_in 0 (length v + 34) w)], half_dead h64 h128 v w)"
proof -
  let ?s = "\<lparr>bl_fs = \<lparr>names = [0 \<mapsto> 0], contents = (\<lambda>_. []), fresh_inode = 1\<rparr>, writers = [\<lparr>bw_file_id = 0, bw_inode = 0, bw_offset = 0\<rparr>],
     next_writer = 0, blob_index = Map.empty, next_file_id = 1, live_refs = Map.empty, blob_threshold = 2048\<rparr>"
  have new: "new_blob_log no_blob_faults empty_blob_fs 1 2048 = (Inr ?s, bl_fs ?s)"
    by (simp add: new_blob_log_def empty_blob_fs_def new_blob_writer_def no_blob_faults_def open_append_def fun_eq_iff)
  have e: "length (blob_entry h64 u (h128 u)) = length u + 34" for u by (rule length_blob_entry [OF h])
  have "unat (word_of_nat (length v + 34) :: u64) = length v + 34" using assms(3) by (intro unat_of_nat_small [where 'a = 64, simplified]) simp
  then have off: "(word_of_nat (length v + 34) :: u64) \<noteq> 0" by auto
  have "blob_run h64 h128 [BWrite v, BWrite w, BDead (ref_in 0 0 v)] ?s = Some ([(v, ref_in 0 0 v), (w, ref_in 0 (length v + 34) w)], half_dead h64 h128 v w)"
    using assms(2) off e by (simp add: blob_write_def write_value_def Let_def no_blob_faults_def count_ref_def mark_dead_def ref_in_def half_dead_def)
  then show ?thesis using new by blast
qed

lemma half_dead_needs_gc:
  assumes h: "hash_ok h128" and "iter_ok iter" and "ls_ok ls" and "length v < 2 ^ 32" and "length w \<le> length v"
  shows "\<exists>st. collect_file_stats iter ls (half_dead h64 h128 v w) = [st] \<and> needs_gc st \<and> st_file_id st = 0"
proof -
  let ?s = "half_dead h64 h128 v w" and ?r = "ref_in 0 (length v + 34) w"
  have live: "live_refs ?s = [?r \<mapsto> 1]" by (simp add: half_dead_def ref_in_def)
  have it: "iter [?r \<mapsto> 1] = [?r]" using assms(2) unfolding iter_ok_def by (intro unique_list) (metis dom_fun_upd dom_empty finite.emptyI finite_insert option.distinct(1))+
  have ls: "ls (names (bl_fs ?s)) = [0]" using assms(3) unfolding ls_ok_def by (intro unique_list) (simp_all add: half_dead_def)
  have w: "unat (word_of_nat (length w) :: u32) = length w" using assms(4,5) by (intro unat_of_nat_small [where 'a = 32, simplified]) simp
  have lbf: "live_by_file [?r] [?r \<mapsto> 1] 0 = (24 + ucast (word_of_nat (length w) :: u32) + 8, 1)"
    by (simp add: live_by_file_def is_live_def ref_in_def)
  have "ucast (word_of_nat (length w) :: u32) = (word_of_nat (length w) :: u64)" using w by (metis of_nat_unat)
  then have lb: "24 + ucast (word_of_nat (length w) :: u32) + 8 = (word_of_nat (length w + 32) :: u64)" by simp
  have nm: "names (bl_fs ?s) 0 = Some 0" by (simp add: half_dead_def)
  have len: "length (contents (bl_fs ?s) 0) = length v + length w + 68" using length_blob_entry [OF h] by (simp add: half_dead_def)
  have u: "unat (word_of_nat (length w + 32) :: u64) = length w + 32" "unat (word_of_nat (length v + length w + 68) :: u64) = length v + length w + 68"
    using assms(4,5) by (intro unat_of_nat_small [where 'a = 64, simplified]; simp)+
  have stats: "collect_file_stats iter ls ?s = [\<lparr>live_bytes = word_of_nat (length w + 32), total_bytes = word_of_nat (length v + length w + 68),
      live_count = 1, total_count = (if (word_of_nat (length w + 32) :: u64) = 0 then 0
        else word_of_nat (length v + length w + 68) div word_of_nat (length w + 32)), st_file_id = 0\<rparr>]"
    unfolding collect_file_stats_def ls list.map live it lbf Let_def prod.case lb using len nm by (simp del: of_nat_add)
  have "(word_of_nat (length v + length w + 68) :: u64) \<noteq> 0" using u(2) by auto
  moreover have "real (length w + 32) / real (length v + length w + 68) < 1 / 2" using assms(5) by (simp add: field_simps)
  ultimately show ?thesis unfolding stats using u by (simp add: needs_gc_def GC_DISCARD_RATIO_def discard_ratio_def del: of_nat_add)
qed

lemma half_dead_entry:
  assumes h: "hash_ok h128" and "length v < 2 ^ 32" and "length w \<le> length v"
  shows "stored_at h64 h128 (bl_fs (half_dead h64 h128 v w)) (ref_in 0 (length v + 34) w) w"
proof -
  have "unat (word_of_nat (length v + 34) :: u64) = length v + 34" using assms(2) by (intro unat_of_nat_small [where 'a = 64, simplified]) simp
  then show ?thesis using assms(2,3) length_blob_entry [OF h, of h64 v] unfolding stored_at_def
    by (intro conjI exI [of _ 0] exI [of _ "blob_entry h64 v (h128 v)"] exI [of _ "[]"]) (simp_all add: half_dead_def ref_in_def del: of_nat_add)
qed

lemma half_dead_gc:
  assumes h: "hash_ok h128" and it: "iter_ok iter" and ls: "ls_ok ls" and ne: "h128 v \<noteq> h128 w" and v: "length v < 2 ^ 32" and w: "length w \<le> length v"
  shows "\<exists>s'. run_gc h64 h128 no_blob_faults iter ls (half_dead h64 h128 v w) = (Inr 1, s') \<and> names (bl_fs s') 0 = None
    \<and> blob_index s' = [h128 v \<mapsto> ref_in 0 0 v, h128 w \<mapsto> ref_in 1 0 w] \<and> length (writers s') = 1 \<and> bw_file_id (writers s' ! 0) = 0"
proof -
  let ?s = "half_dead h64 h128 v w" and ?r = "ref_in 0 (length v + 34) w"
  obtain st where st: "collect_file_stats iter ls ?s = [st]" "needs_gc st" "st_file_id st = 0" using half_dead_needs_gc [OF h it ls v w] by blast
  have live: "live_refs ?s = [?r \<mapsto> 1]" by (simp add: half_dead_def ref_in_def)
  have "iter [?r \<mapsto> 1] = [?r]" using it unfolding iter_ok_def
    by (intro unique_list) (metis dom_fun_upd dom_empty finite.emptyI finite_insert option.distinct(1))+
  then have refs: "filter (\<lambda>r. br_file_id r = 0 \<and> is_live (live_refs ?s) r) (iter (live_refs ?s)) = [?r]"
    by (simp add: live is_live_def ref_in_def)
  define fs where "fs = snd (new_blob_writer no_blob_faults 1 (bl_fs ?s))"
  let ?wr = "\<lparr>bw_file_id = 1, bw_inode = 1, bw_offset = 0\<rparr>"
  have nw: "new_blob_writer no_blob_faults 1 (bl_fs ?s) = (Inr ?wr, fs)"
    by (simp add: fs_def new_blob_writer_def no_blob_faults_def open_append_def half_dead_def)
  have fs: "fs = \<lparr>names = [0 \<mapsto> 0, 1 \<mapsto> 1], contents = contents (bl_fs ?s), fresh_inode = 2\<rparr>"
    by (simp add: fs_def new_blob_writer_def no_blob_faults_def open_append_def half_dead_def fun_eq_iff)
  have "stored_at h64 h128 fs ?r w" using half_dead_entry [OF h v w, of h64] by (auto simp: stored_at_def fs half_dead_def ref_in_def)
  then have "blob_read h64 (?s\<lparr>next_file_id := 2, bl_fs := fs\<rparr>) ?r = Inr w" using blob_read_entry [OF _ h] by simp
  moreover define fs' where "fs' = fs\<lparr>contents := (contents fs)(1 := contents fs 1 @ blob_entry h64 w (h128 w))\<rparr>"
  ultimately have cp: "copy_live h64 h128 no_blob_faults [?r] ?wr (?s\<lparr>next_file_id := 2, bl_fs := fs\<rparr>)
      = (Inr [(h128 w, ?r, ref_in 1 0 w)], ?s\<lparr>next_file_id := 2, bl_fs := fs'\<rparr>)"
    by (simp add: write_value_def Let_def no_blob_faults_def ref_in_def)
  have nf: "next_file_id ?s = 1" by (simp add: half_dead_def)
  define s' where "s' = (move_ref (h128 w, ?r, ref_in 1 0 w) (?s\<lparr>next_file_id := 2, bl_fs := fs'\<rparr>))\<lparr>bl_fs := remove_blob_file 0 fs'\<rparr>"
  have "gc_file h64 h128 no_blob_faults iter 0 ?s
      = (Inr (), s')"
    using nw cp bl_fs_moves [of "[(h128 w, ?r, ref_in 1 0 w)]"] unfolding gc_file_def refs Let_def nf s'_def by simp
  then have "run_gc h64 h128 no_blob_faults iter ls ?s = (Inr 1, s')" by (simp add: run_gc_def st)
  then show ?thesis using ne by (intro exI [of _ s'] conjI) (simp_all add: s'_def move_ref_def remove_blob_file_def half_dead_def ref_in_def fun_eq_iff)
qed

text \<open>
  C22: What a collection leaves behind. A log with one queue holds two values of which the longer
  is released, so its file is collected. The reference that was handed out for the live value
  and read it before now fails with \<open>NotFound\<close>, because the values move without their holders
  being told. The file of the queue's writer is removed while the writer keeps it open, so a write of any
  other value succeeds and its reference cannot be read; and writing the released value again
  succeeds by deduplication, with a reference into the removed file.
\<close>

theorem blob_gc_dangles:
  assumes "hash_ok h128" and "iter_ok iter" and "ls_ok ls" and "h128 v \<noteq> h128 w" and "length v < 2 ^ 32" and "length w \<le> length v"
    and "h128 u \<noteq> h128 w"
  shows "\<exists>s fs s' s'' r s3. new_blob_log no_blob_faults empty_blob_fs 1 2048 = (Inr s, fs)
    \<and> blob_run h64 h128 [BWrite v, BWrite w, BDead (ref_in 0 0 v)] s = Some ([(v, ref_in 0 0 v), (w, ref_in 0 (length v + 34) w)], s')
    \<and> is_live (live_refs s') (ref_in 0 (length v + 34) w) \<and> blob_read h64 s' (ref_in 0 (length v + 34) w) = Inr w
    \<and> run_gc h64 h128 no_blob_faults iter ls s' = (Inr 1, s'')
    \<and> blob_read h64 s'' (ref_in 0 (length v + 34) w) = Inl NotFound
    \<and> blob_write h64 h128 no_blob_faults u s'' = (Inr (h128 u, r), s3) \<and> blob_read h64 s3 r = Inl NotFound"
proof -
  let ?s = "half_dead h64 h128 v w"
  obtain s fs where run: "new_blob_log no_blob_faults empty_blob_fs 1 2048 = (Inr s, fs)"
    "blob_run h64 h128 [BWrite v, BWrite w, BDead (ref_in 0 0 v)] s = Some ([(v, ref_in 0 0 v), (w, ref_in 0 (length v + 34) w)], ?s)"
    using half_dead_run [OF assms(1,4,5), of h64] by blast
  obtain s'' where gc: "run_gc h64 h128 no_blob_faults iter ls ?s = (Inr 1, s'')" "names (bl_fs s'') 0 = None"
    "blob_index s'' = [h128 v \<mapsto> ref_in 0 0 v, h128 w \<mapsto> ref_in 1 0 w]" "length (writers s'') = 1" "bw_file_id (writers s'' ! 0) = 0"
    using half_dead_gc [OF assms(1-6), of h64] by blast
  have gone: "blob_read h64 s r = Inl NotFound" if "names (bl_fs s) 0 = None" "br_file_id r = 0" for s r
    using that by (simp add: blob_read_def)
  have "\<exists>r s3. blob_write h64 h128 no_blob_faults u s'' = (Inr (h128 u, r), s3) \<and> blob_read h64 s3 r = Inl NotFound"
  proof (cases "h128 u = h128 v")
    case True
    then show ?thesis using gc(2,3) assms(4) by (simp add: blob_write_def gone ref_in_def)
  next
    case False
    then show ?thesis using gc(2-5) assms(7) by (simp add: blob_write_def write_value_def Let_def no_blob_faults_def gone)
  qed
  moreover have "is_live (live_refs ?s) (ref_in 0 (length v + 34) w)" by (simp add: half_dead_def ref_in_def is_live_def)
  moreover have "blob_read h64 ?s (ref_in 0 (length v + 34) w) = Inr w" using blob_read_entry half_dead_entry assms(1,5,6) by blast
  moreover have "blob_read h64 s'' (ref_in 0 (length v + 34) w) = Inl NotFound" using gone gc(2) by (simp add: ref_in_def)
  ultimately show ?thesis using run gc(1) by blast
qed

theorem blob_gc_dangles_witness:
  "hash_ok demo_h128 \<and> iter_ok demo_iter \<and> ls_ok demo_ls \<and>
   (\<exists>s fs s' s'' r s3. new_blob_log no_blob_faults empty_blob_fs 1 2048 = (Inr s, fs)
    \<and> blob_run demo_h64 demo_h128 [BWrite [1, 2], BWrite [3], BDead (ref_in 0 0 [1, 2])] s
        = Some ([([1, 2], ref_in 0 0 [1, 2]), ([3], ref_in 0 36 [3])], s')
    \<and> is_live (live_refs s') (ref_in 0 36 [3]) \<and> blob_read demo_h64 s' (ref_in 0 36 [3]) = Inr [3]
    \<and> run_gc demo_h64 demo_h128 no_blob_faults demo_iter demo_ls s' = (Inr 1, s'')
    \<and> blob_read demo_h64 s'' (ref_in 0 36 [3]) = Inl NotFound
    \<and> blob_write demo_h64 demo_h128 no_blob_faults [4] s'' = (Inr (demo_h128 [4], r), s3) \<and> blob_read demo_h64 s3 r = Inl NotFound)"
proof -
  have "demo_h128 [1, 2] \<noteq> demo_h128 [3]" "demo_h128 [4] \<noteq> demo_h128 [3]" by (simp_all add: demo_h128_def)
  then show ?thesis using blob_gc_dangles [OF demo_hyps(1) demo_iter_ok demo_ls_ok, of "[1, 2]" "[3]" "[4]" demo_h64] demo_hyps(1) demo_iter_ok demo_ls_ok
    by simp
qed

end
