(* ===== verification/BinaryHeap.thy ===== *)
theory BinaryHeap
  imports Prelude "HOL-Library.Multiset"
begin

text \<open>
  The binary heap and the binary search of the Rust standard library, as the compactor of
  \<open>compaction/mod.rs\<close> uses them. The heap is the vector the library keeps: \<open>push\<close> sifts the new
  element up, \<open>pop\<close> moves a hole from the root to the bottom and sifts the last element up from
  there. The order is an argument; it need not be antisymmetric. What a client may rely on is
  the locale \<open>max_heap\<close>, which the vector interprets.
\<close>

section \<open>Operations\<close>

definition parent :: "nat \<Rightarrow> nat" where "parent i = (i - 1) div 2"

text \<open>The element \<open>x\<close> belongs into the hole at \<open>pos\<close>.\<close>

function sift_up :: "('a \<Rightarrow> 'a \<Rightarrow> bool) \<Rightarrow> 'a \<Rightarrow> nat \<Rightarrow> 'a list \<Rightarrow> 'a list" where
  "sift_up le x pos d =
     (if pos = 0 then d[pos := x]
      else if le x (d ! parent pos) then d[pos := x]
      else sift_up le x (parent pos) (d[pos := d ! parent pos]))"
  by auto
termination by (relation "measure (\<lambda>(_, _, pos, _). pos)") (auto simp: parent_def)

function sift_hole :: "('a \<Rightarrow> 'a \<Rightarrow> bool) \<Rightarrow> nat \<Rightarrow> 'a list \<Rightarrow> nat \<times> 'a list" where
  "sift_hole le pos d =
     (let child = 2 * pos + 1
      in if child + 1 < length d
         then let child = (if le (d ! child) (d ! (child + 1)) then child + 1 else child)
              in sift_hole le child (d[pos := d ! child])
         else if child + 1 = length d then (child, d[pos := d ! child])
         else (pos, d))"
  by auto
termination by (relation "measure (\<lambda>(_, pos, d). length d - pos)") (auto split: if_splits)

declare sift_up.simps [simp del] sift_hole.simps [simp del]

definition heap_push :: "('a \<Rightarrow> 'a \<Rightarrow> bool) \<Rightarrow> 'a \<Rightarrow> 'a list \<Rightarrow> 'a list" where
  "heap_push le x d = sift_up le x (length d) (d @ [x])"

definition heap_pop :: "('a \<Rightarrow> 'a \<Rightarrow> bool) \<Rightarrow> 'a list \<Rightarrow> ('a \<times> 'a list) option" where
  "heap_pop le d =
     (if d = [] then None
      else let item = last d; d = butlast d
           in if d = [] then Some (item, [])
              else let (pos, d') = sift_hole le 0 d in Some (d ! 0, sift_up le item pos d'))"

function bs_loop :: "('a \<Rightarrow> bool) \<Rightarrow> 'a list \<Rightarrow> nat \<Rightarrow> nat \<Rightarrow> nat" where
  "bs_loop is_gt xs sz base =
     (if sz > 1
      then let half = sz div 2; mid = base + half
           in bs_loop is_gt xs (sz - half) (if is_gt (xs ! mid) then base else mid)
      else base)"
  by auto
termination by (relation "measure (\<lambda>(_, _, sz, _). sz)") auto

declare bs_loop.simps [simp del]

text \<open>The position \<open>binary_search_by_key\<close> returns, as the place of a match or for an insertion.\<close>

definition search_position :: "('a \<Rightarrow> 'k::linorder) \<Rightarrow> 'k \<Rightarrow> 'a list \<Rightarrow> nat" where
  "search_position key k xs =
     (if xs = [] then 0
      else let base = bs_loop (\<lambda>x. key x > k) xs (length xs) 0
           in if key (xs ! base) < k then base + 1 else base)"

section \<open>The heap order\<close>

definition heap_except :: "('a \<Rightarrow> 'a \<Rightarrow> bool) \<Rightarrow> nat \<Rightarrow> 'a list \<Rightarrow> bool" where
  "heap_except le pos d \<longleftrightarrow>
     (\<forall>i < length d. 0 < i \<and> i \<noteq> pos \<and> parent i \<noteq> pos \<longrightarrow> le (d ! i) (d ! parent i))
     \<and> (0 < pos \<longrightarrow> (\<forall>i < length d. 0 < i \<and> parent i = pos \<longrightarrow> le (d ! i) (d ! parent pos)))"

definition is_heap :: "('a \<Rightarrow> 'a \<Rightarrow> bool) \<Rightarrow> 'a list \<Rightarrow> bool" where
  "is_heap le d \<longleftrightarrow> (\<forall>i < length d. 0 < i \<longrightarrow> le (d ! i) (d ! parent i))"

lemma parent_less: "0 < i \<Longrightarrow> parent i < i"
  by (simp add: parent_def)

lemma parent_children: "0 < i \<Longrightarrow> parent i = pos \<longleftrightarrow> i = 2 * pos + 1 \<or> i = 2 * pos + 2"
  by (auto simp: parent_def)

lemma child_cases: "0 < i \<Longrightarrow> parent i = pos \<Longrightarrow> i = 2 * pos + 1 \<or> i = 2 * pos + 2"
  using parent_children [of i pos] by simp

definition total_preorder :: "('a \<Rightarrow> 'a \<Rightarrow> bool) \<Rightarrow> bool" where
  "total_preorder le \<longleftrightarrow> (\<forall>x y. le x y \<or> le y x) \<and> (\<forall>x y z. le x y \<longrightarrow> le y z \<longrightarrow> le x z)"

lemma total_preorderD:
  assumes "total_preorder le"
  shows "\<not> le x y \<Longrightarrow> le y x" "le x y \<Longrightarrow> le y z \<Longrightarrow> le x z" "le x x"
  using assms unfolding total_preorder_def by blast+

lemma mset_sift_up: "pos < length d \<Longrightarrow> mset (sift_up le x pos d) = mset (d[pos := x])"
proof (induction le x pos d rule: sift_up.induct)
  case (1 le x pos d)
  show ?case
  proof (cases "pos = 0 \<or> le x (d ! parent pos)")
    case True
    then show ?thesis by (subst sift_up.simps) auto
  next
    case False
    let ?p = "parent pos"
    have p: "?p < pos" using False parent_less by simp
    have "mset (sift_up le x pos d) = mset (d[pos := d ! ?p, ?p := x])"
      using 1 False p by (subst sift_up.simps) auto
    also have "d[pos := d ! ?p, ?p := x] = (d[pos := x])[pos := d[pos := x] ! ?p, ?p := d[pos := x] ! pos]"
      using p 1(2) by simp
    also have "mset \<dots> = mset (d[pos := x])" using p 1(2) by (intro mset_swap) simp_all
    finally show ?thesis .
  qed
qed

lemma length_sift_up [simp]: "length (sift_up le x pos d) = length d"
  by (induction le x pos d rule: sift_up.induct) (subst sift_up.simps, auto)

lemma heap_exceptD:
  assumes "heap_except le pos d"
  shows "i < length d \<Longrightarrow> 0 < i \<Longrightarrow> i \<noteq> pos \<Longrightarrow> parent i \<noteq> pos \<Longrightarrow> le (d ! i) (d ! parent i)"
    "0 < pos \<Longrightarrow> i < length d \<Longrightarrow> 0 < i \<Longrightarrow> parent i = pos \<Longrightarrow> le (d ! i) (d ! parent pos)"
  using assms unfolding heap_except_def by blast+

text \<open>The hole moves one step up.\<close>

lemma heap_except_up:
  assumes le: "total_preorder le" and h: "heap_except le pos d" and pos: "pos < length d" "0 < pos"
  shows "heap_except le (parent pos) (d[pos := d ! parent pos])"
proof -
  let ?p = "parent pos" and ?d = "d[pos := d ! parent pos]"
  note H = heap_exceptD [OF h] and p = parent_less [OF pos(2)]
  have "le (?d ! i) (?d ! parent i)" if i: "i < length d" "0 < i" "i \<noteq> ?p" "parent i \<noteq> ?p" for i
  proof -
    have "i \<noteq> pos" using i(4) by auto
    then show ?thesis using H(1) [OF i(1,2)] H(2) [OF pos(2) i(1,2)] i pos(1) by (cases "parent i = pos") simp_all
  qed
  moreover have "le (?d ! i) (?d ! parent ?p)" if i: "0 < ?p" "i < length d" "0 < i" "parent i = ?p" for i
  proof -
    have pp: "parent ?p < ?p" "?p < length d" using parent_less [OF i(1)] p pos(1) by simp_all
    have up: "le (d ! ?p) (d ! parent ?p)" using H(1) [of ?p] i(1) p pp by simp
    show ?thesis
    proof (cases "i = pos")
      case False
      then have "le (d ! i) (d ! ?p)" using H(1) [OF i(2,3)] i(4) p by simp
      then show ?thesis using total_preorderD(2) [OF le] up False pp p by simp
    qed (use up pp p pos(1) in simp)
  qed
  ultimately show ?thesis unfolding heap_except_def by simp
qed

lemma sift_up_heap:
  "total_preorder le \<Longrightarrow> pos < length d \<Longrightarrow> heap_except le pos d \<Longrightarrow> (\<forall>i < length d. 0 < i \<and> parent i = pos \<longrightarrow> le (d ! i) x)
    \<Longrightarrow> is_heap le (sift_up le x pos d)"
proof (induction le x pos d rule: sift_up.induct)
  case (1 le x pos d)
  note le = total_preorderD [OF 1(2)] and H = heap_exceptD [OF 1(4)]
  show ?case
  proof (cases "pos = 0 \<or> le x (d ! parent pos)")
    case True
    have "le (d[pos := x] ! i) (d[pos := x] ! parent i)" if i: "i < length d" "0 < i" for i
    proof -
      have "parent i \<noteq> i" using parent_less [OF i(2)] by simp
      then show ?thesis using True H(1) [OF i] 1(3,5) i by (cases "i = pos"; cases "parent i = pos") (auto simp: nth_list_update)
    qed
    then have "is_heap le (d[pos := x])" by (simp add: is_heap_def)
    then show ?thesis using True by (subst sift_up.simps) auto
  next
    case False
    let ?p = "parent pos"
    have p: "?p < pos" and px: "le (d ! ?p) x" using False parent_less le(1) by simp_all
    have "le (d[pos := d ! ?p] ! i) x" if i: "i < length d" "0 < i" "parent i = ?p" for i
    proof (cases "i = pos")
      case False
      then have "le (d ! i) (d ! ?p)" using H(1) [OF i(1,2)] i(3) p by simp
      then show ?thesis using le(2) px False by simp
    qed (use px i in simp)
    then have "is_heap le (sift_up le x ?p (d[pos := d ! ?p]))"
      using 1(1) [OF _ _ 1(2)] False p 1(3) heap_except_up [OF 1(2) 1(4) 1(3)] by simp
    then show ?thesis using False by (subst sift_up.simps) auto
  qed
qed

text \<open>The hole moves to the bottom.\<close>

lemma heap_except_down:
  assumes le: "total_preorder le" and h: "heap_except le pos d" and c: "parent c = pos" "0 < c" "c < length d"
    and big: "\<forall>i < length d. 0 < i \<and> parent i = pos \<longrightarrow> le (d ! i) (d ! c)"
  shows "heap_except le c (d[pos := d ! c])"
proof -
  let ?d = "d[pos := d ! c]"
  note H = heap_exceptD [OF h]
  have p: "pos < c" using parent_less [OF c(2)] c(1) by simp
  have "le (?d ! i) (?d ! parent i)" if i: "i < length d" "0 < i" "i \<noteq> c" "parent i \<noteq> c" for i
  proof -
    have ne: "parent i \<noteq> i" using parent_less [OF i(2)] by simp
    consider "i = pos" | "parent i = pos" | "i \<noteq> pos" "parent i \<noteq> pos" by blast
    then show ?thesis
    proof cases
      case 1
      then show ?thesis using H(2) [of c] i ne c by simp
    next
      case 2
      then show ?thesis using big i ne c(3) p by auto
    next
      case 3
      then show ?thesis using H(1) i by simp
    qed
  qed
  moreover have "le (?d ! i) (?d ! parent c)" if i: "i < length d" "0 < i" "parent i = c" for i
    using H(1) [OF i(1,2)] i p parent_less [OF i(2)] c by simp
  ultimately show ?thesis unfolding heap_except_def by simp
qed

lemma mset_move:
  assumes "c < length d" "pos < length d" "pos \<noteq> c"
  shows "mset (d[pos := d ! c, c := x]) = mset (d[pos := x])"
proof -
  have "d[pos := d ! c, c := x] = (d[pos := x])[pos := d[pos := x] ! c, c := d[pos := x] ! pos]" using assms by simp
  then show ?thesis using assms mset_swap [of c "d[pos := x]" pos] by simp
qed

lemma sift_hole_mset:
  "pos < length d \<Longrightarrow> sift_hole le pos d = (pos', d')
    \<Longrightarrow> length d' = length d \<and> pos' < length d \<and> length d \<le> 2 * pos' + 1 \<and> (\<forall>x. mset (d'[pos' := x]) = mset (d[pos := x]))"
proof (induction le pos d rule: sift_hole.induct)
  case (1 le pos d)
  let ?c = "2 * pos + 1"
  consider (two) "?c + 1 < length d" | (one) "?c + 1 = length d" | (none) "length d \<le> ?c" by linarith
  then show ?case
  proof cases
    case two
    define c where "c = (if le (d ! ?c) (d ! (?c + 1)) then ?c + 1 else ?c)"
    have c: "c < length d" "pos \<noteq> c" using two by (simp_all add: c_def)
    have eq: "sift_hole le pos d = sift_hole le c (d[pos := d ! c])"
      using two by (subst sift_hole.simps) (simp add: Let_def c_def)
    have "length d' = length (d[pos := d ! c]) \<and> pos' < length (d[pos := d ! c])
        \<and> length (d[pos := d ! c]) \<le> 2 * pos' + 1 \<and> (\<forall>x. mset (d'[pos' := x]) = mset (d[pos := d ! c, c := x]))"
    proof (rule 1(1) [OF refl two c_def])
      show "sift_hole le c (d[pos := d ! c]) = (pos', d')" using 1(3) eq by simp
    qed (use c in simp)
    then show ?thesis using mset_move [OF c(1) 1(2) c(2)] by simp
  next
    case one
    have c: "?c < length d" "pos \<noteq> ?c" using one by simp_all
    have "sift_hole le pos d = (?c, d[pos := d ! ?c])" using one by (subst sift_hole.simps) (simp add: Let_def)
    then have eq: "pos' = ?c" "d' = d[pos := d ! ?c]" using 1(3) by simp_all
    have "length d \<le> 2 * ?c + 1" unfolding one [symmetric] by simp
    then show ?thesis unfolding eq using mset_move [OF c(1) 1(2) c(2)] c(1) by (metis length_list_update)
  next
    case none
    then have "sift_hole le pos d = (pos, d)" by (subst sift_hole.simps) (simp add: Let_def)
    then show ?thesis using 1 none by simp
  qed
qed

lemma sift_hole_heap:
  "total_preorder le \<Longrightarrow> pos < length d \<Longrightarrow> heap_except le pos d \<Longrightarrow> sift_hole le pos d = (pos', d') \<Longrightarrow> heap_except le pos' d'"
proof (induction le pos d rule: sift_hole.induct)
  case (1 le pos d)
  let ?c = "2 * pos + 1"
  have kids: "parent ?c = pos" "parent (?c + 1) = pos" by (simp_all add: parent_def)
  consider (two) "?c + 1 < length d" | (one) "?c + 1 = length d" | (none) "length d \<le> ?c" by linarith
  then show ?case
  proof cases
    case two
    define c where "c = (if le (d ! ?c) (d ! (?c + 1)) then ?c + 1 else ?c)"
    have c: "parent c = pos" "0 < c" "c < length d" using two kids by (simp_all add: c_def)
    have "le (d ! i) (d ! c)" if i: "0 < i" "parent i = pos" for i
    proof -
      have "i = ?c \<or> i = ?c + 1" using child_cases [OF i] by simp
      then show ?thesis using total_preorderD(1,3) [OF 1(2)] by (cases "le (d ! ?c) (d ! (?c + 1))") (auto simp: c_def)
    qed
    then have "\<forall>i < length d. 0 < i \<and> parent i = pos \<longrightarrow> le (d ! i) (d ! c)" by blast
    then have h: "heap_except le c (d[pos := d ! c])" by (rule heap_except_down [OF 1(2,4) c])
    have eq: "sift_hole le pos d = sift_hole le c (d[pos := d ! c])"
      using two by (subst sift_hole.simps) (simp add: Let_def c_def)
    show ?thesis
    proof (rule 1(1) [OF refl two c_def 1(2) _ h])
      show "sift_hole le c (d[pos := d ! c]) = (pos', d')" using 1(5) eq by simp
    qed (use c in simp)
  next
    case one
    have c: "0 < ?c" "?c < length d" using one by simp_all
    have "le (d ! i) (d ! ?c)" if "i < length d" "0 < i" "parent i = pos" for i
    proof -
      have "i = ?c" using child_cases [OF that(2,3)] that(1) one by linarith
      then show ?thesis using total_preorderD(3) [OF 1(2)] by simp
    qed
    then have "\<forall>i < length d. 0 < i \<and> parent i = pos \<longrightarrow> le (d ! i) (d ! ?c)" by blast
    then have "heap_except le ?c (d[pos := d ! ?c])" by (rule heap_except_down [OF 1(2,4) kids(1) c])
    moreover have "sift_hole le pos d = (?c, d[pos := d ! ?c])" using one by (subst sift_hole.simps) (simp add: Let_def)
    ultimately show ?thesis using 1(5) by simp
  next
    case none
    then have "sift_hole le pos d = (pos, d)" by (subst sift_hole.simps) (simp add: Let_def)
    then show ?thesis using 1 by simp
  qed
qed

lemma is_heap_root: "total_preorder le \<Longrightarrow> is_heap le d \<Longrightarrow> i < length d \<Longrightarrow> le (d ! i) (d ! 0)"
proof (induction i rule: less_induct)
  case (less i)
  show ?case
  proof (cases "i = 0")
    case False
    then have "le (d ! i) (d ! parent i)" "parent i < i" using less.prems parent_less by (auto simp: is_heap_def)
    then show ?thesis using less total_preorderD(2) [OF less.prems(1)] by (meson less_trans)
  qed (simp add: total_preorderD(3) less.prems)
qed

lemma heap_push_ok:
  assumes "total_preorder le" and "is_heap le d"
  shows "is_heap le (heap_push le x d)"
proof -
  have pl: "parent i < length d" if "0 < i" "i < Suc (length d)" for i using parent_less [OF that(1)] that(2) by simp
  then have none: "parent i \<noteq> length d" if "0 < i" "i < Suc (length d)" for i using that by (metis less_irrefl)
  have "le ((d @ [x]) ! i) ((d @ [x]) ! parent i)" if "i < Suc (length d)" "0 < i" "i \<noteq> length d" for i
    using that assms(2) pl [OF that(2,1)] by (simp add: is_heap_def nth_append)
  then have "heap_except le (length d) (d @ [x])" using none unfolding heap_except_def by auto
  moreover have "\<forall>i < length (d @ [x]). 0 < i \<and> parent i = length d \<longrightarrow> le ((d @ [x]) ! i) x" using none by auto
  ultimately show ?thesis
    using sift_up_heap [OF assms(1), of "length d" "d @ [x]" x] by (simp add: heap_push_def)
qed

lemma heap_pop_mset:
  assumes "heap_pop le d = Some (x, d')"
  shows "mset d = add_mset x (mset d') \<and> x = d ! 0"
proof -
  let ?d = "butlast d"
  have ne: "d \<noteq> []" using assms by (auto simp: heap_pop_def)
  then have split: "d = ?d @ [last d]" by simp
  show ?thesis
  proof (cases "?d = []")
    case True
    then obtain y where "d = [y]" using split by (metis append_Nil)
    then show ?thesis using assms by (simp add: heap_pop_def)
  next
    case False
    obtain pos d1 where s: "sift_hole le 0 ?d = (pos, d1)" by fastforce
    have x: "x = ?d ! 0" "d' = sift_up le (last d) pos d1" using assms ne False s by (simp_all add: heap_pop_def)
    have "0 < length ?d" using False by blast
    then have d1: "length d1 = length ?d" "pos < length ?d" "mset (d1[pos := last d]) = mset (?d[0 := last d])"
      using sift_hole_mset [OF _ s] by blast+
    have "mset d' = mset (?d[0 := last d])" unfolding x(2) using mset_sift_up [of pos d1] d1 by simp
    moreover have "add_mset (?d ! 0) (mset (?d[0 := last d])) = add_mset (last d) (mset ?d)" using False by (cases ?d) simp_all
    moreover have "mset d = add_mset (last d) (mset ?d)" by (subst split) simp
    moreover have "?d ! 0 = d ! 0" using False split by (metis length_greater_0_conv nth_append)
    ultimately show ?thesis using x(1) by simp
  qed
qed

lemma heap_pop_ok:
  assumes le: "total_preorder le" and h: "is_heap le d" and pop: "heap_pop le d = Some (x, d')"
  shows "is_heap le d' \<and> (\<forall>y \<in> set d. le y x)"
proof -
  let ?d = "butlast d"
  have "is_heap le d'"
  proof (cases "?d = []")
    case True
    then show ?thesis using pop by (auto simp: is_heap_def heap_pop_def split: if_splits)
  next
    case False
    then have ne: "d \<noteq> []" by auto
    obtain pos d1 where s: "sift_hole le 0 ?d = (pos, d1)" by fastforce
    have x: "d' = sift_up le (last d) pos d1" using pop ne False s by (simp add: heap_pop_def)
    have h0: "heap_except le 0 ?d" using h by (auto simp: heap_except_def is_heap_def nth_butlast parent_def)
    have len: "0 < length ?d" using False by blast
    have d1: "length d1 = length ?d" "pos < length ?d" "length ?d \<le> 2 * pos + 1" using sift_hole_mset [OF len s] by blast+
    have "False" if "i < length d1" "0 < i" "parent i = pos" for i using child_cases [OF that(2,3)] that(1) d1(1,3) by linarith
    then have "\<forall>i < length d1. 0 < i \<and> parent i = pos \<longrightarrow> le (d1 ! i) (last d)" by blast
    then show ?thesis unfolding x using d1 sift_hole_heap [OF le len h0 s] by (intro sift_up_heap [OF le]) simp_all
  qed
  then show ?thesis using is_heap_root [OF le h] heap_pop_mset [OF pop] by (auto simp: in_set_conv_nth)
qed

lemma heap_pop_None: "heap_pop le d = None \<longleftrightarrow> d = []"
  by (simp add: heap_pop_def Let_def split: prod.split)

lemma mset_heap_push: "mset (heap_push le x d) = add_mset x (mset d)"
  using mset_sift_up [of "length d" "d @ [x]" le x] by (simp add: heap_push_def)

section \<open>The interface\<close>

locale max_heap =
  fixes le :: "'a \<Rightarrow> 'a \<Rightarrow> bool" and push :: "'a \<Rightarrow> 'h \<Rightarrow> 'h" and pop :: "'h \<Rightarrow> ('a \<times> 'h) option"
    and new :: 'h and invar :: "'h \<Rightarrow> bool" and elems :: "'h \<Rightarrow> 'a multiset"
  assumes new: "invar new \<and> elems new = {#}"
    and push: "invar h \<Longrightarrow> invar (push x h) \<and> elems (push x h) = add_mset x (elems h)"
    and pop_None: "invar h \<Longrightarrow> pop h = None \<longleftrightarrow> elems h = {#}"
    and pop_Some: "invar h \<Longrightarrow> pop h = Some (x, h') \<Longrightarrow> invar h' \<and> elems h = add_mset x (elems h') \<and> (\<forall>y \<in># elems h. le y x)"
begin

lemma push_all: "invar h \<Longrightarrow> invar (fold push xs h) \<and> elems (fold push xs h) = mset xs + elems h"
  by (induction xs arbitrary: h) (simp_all add: push)

lemma heap_of: "invar (fold push xs new) \<and> elems (fold push xs new) = mset xs"
  using push_all [of new xs] new by simp

lemma pop_cases:
  assumes "invar h"
  obtains "elems h = {#}" "pop h = None"
  | x h' where "pop h = Some (x, h')" "invar h'" "elems h = add_mset x (elems h')" "\<forall>y \<in># elems h. le y x"
proof (cases "pop h")
  case None
  then show ?thesis using that(1) pop_None [OF assms] by simp
next
  case (Some p)
  obtain x h' where p: "p = (x, h')" by fastforce
  then show ?thesis using that(2) [of x h'] pop_Some [OF assms] Some by blast
qed

end

lemma max_heap_vector:
  assumes "total_preorder le"
  shows "max_heap le (heap_push le) (heap_pop le) [] (is_heap le) mset"
proof
  show "is_heap le [] \<and> mset [] = {#}" by (simp add: is_heap_def)
  show "is_heap le (heap_push le x h) \<and> mset (heap_push le x h) = add_mset x (mset h)" if "is_heap le h" for h x
    by (intro conjI heap_push_ok [OF assms that] mset_heap_push)
  show "heap_pop le h = None \<longleftrightarrow> mset h = {#}" for h by (simp add: heap_pop_None)
  show "is_heap le h' \<and> mset h = add_mset x (mset h') \<and> (\<forall>y \<in># mset h. le y x)" if "is_heap le h" "heap_pop le h = Some (x, h')" for h x h'
  proof (intro conjI)
    show "is_heap le h'" "\<forall>y \<in># mset h. le y x" using heap_pop_ok [OF assms that] by simp_all
    show "mset h = add_mset x (mset h')" using heap_pop_mset [OF that(2)] by blast
  qed
qed

section \<open>Binary search\<close>

lemma bs_loop_ok:
  "sorted (map key xs) \<Longrightarrow> base + sz \<le> length xs \<Longrightarrow> 1 \<le> sz \<Longrightarrow> 0 < base \<longrightarrow> key (xs ! base) \<le> k
    \<Longrightarrow> \<forall>i. base + sz \<le> i \<and> i < length xs \<longrightarrow> k < key (xs ! i) \<Longrightarrow> b = bs_loop (\<lambda>x. key x > k) xs sz base
    \<Longrightarrow> b < length xs \<and> (0 < b \<longrightarrow> key (xs ! b) \<le> k) \<and> (\<forall>i. b < i \<and> i < length xs \<longrightarrow> k < key (xs ! i))"
proof (induction "\<lambda>x. key x > k" xs sz base rule: bs_loop.induct)
  case (1 xs sz base)
  show ?case
  proof (cases "sz > 1")
    case True
    define half where "half = sz div 2"
    define mid where "mid = base + half"
    have half: "half < sz" "half \<le> sz - half" "0 < half" using True by (simp_all add: half_def)
    let ?base = "if key (xs ! mid) > k then base else mid"
    have eq: "b = bs_loop (\<lambda>x. key x > k) xs (sz - half) ?base"
      using 1(7) True by (subst (asm) bs_loop.simps) (simp add: Let_def half_def mid_def)
    have "k < key (xs ! i)" if i: "?base + (sz - half) \<le> i" "i < length xs" for i
    proof (cases "key (xs ! mid) > k")
      case True
      then have "mid \<le> i" using i half by (simp add: mid_def)
      then have "key (xs ! mid) \<le> key (xs ! i)" using 1(2) i(2) sorted_nth_mono [of "map key xs" mid i] by simp
      then show ?thesis using True by simp
    next
      case False
      then have "base + sz \<le> i" using i half by (simp add: mid_def)
      then show ?thesis using 1(6) i by simp
    qed
    moreover have "?base + (sz - half) \<le> length xs" using 1(3) half by (auto simp: mid_def)
    moreover have "1 \<le> sz - half" "0 < ?base \<longrightarrow> key (xs ! ?base) \<le> k" using half 1(5) by (simp_all add: not_less)
    ultimately show ?thesis by (metis 1(1) [OF True half_def mid_def 1(2)] eq)
  next
    case False
    then have "sz = 1" "b = base" using 1(4,7) by (simp_all add: bs_loop.simps)
    then show ?thesis using 1(3,5,6) by simp
  qed
qed

lemma search_position_ok:
  fixes key :: "'a \<Rightarrow> 'k::linorder" and k :: 'k
  assumes s: "sorted (map key xs)"
  defines "p \<equiv> search_position key k xs"
  shows "p \<le> length xs" "i < p \<Longrightarrow> key (xs ! i) \<le> k" "p \<le> i \<Longrightarrow> i < length xs \<Longrightarrow> k \<le> key (xs ! i)"
proof -
  have "p \<le> length xs \<and> (\<forall>i < p. key (xs ! i) \<le> k) \<and> (\<forall>i. p \<le> i \<and> i < length xs \<longrightarrow> k \<le> key (xs ! i))"
  proof (cases "xs = []")
    case False
    define b where "b = bs_loop (\<lambda>x. key x > k) xs (length xs) 0"
    have b: "b < length xs" "0 < b \<longrightarrow> key (xs ! b) \<le> k" "\<forall>i. b < i \<and> i < length xs \<longrightarrow> k < key (xs ! i)"
      using bs_loop_ok [OF s _ _ _ _ b_def] False by (metis One_nat_def Suc_leI add_0 leD le_refl length_greater_0_conv less_irrefl)+
    have p: "p = (if key (xs ! b) < k then b + 1 else b)" using False by (simp add: p_def search_position_def b_def)
    have before: "key (xs ! i) \<le> k" if "i < b" for i
      using that b(1,2) s sorted_nth_mono [of "map key xs" i b] by fastforce
    show ?thesis
    proof (cases "key (xs ! b) < k")
      case True
      then show ?thesis using p b before by (auto simp: less_Suc_eq less_imp_le)
    next
      case False
      then show ?thesis using p b before by (auto simp: le_less not_less)
    qed
  qed (simp add: p_def search_position_def)
  then show "p \<le> length xs" "i < p \<Longrightarrow> key (xs ! i) \<le> k" "p \<le> i \<Longrightarrow> i < length xs \<Longrightarrow> k \<le> key (xs ! i)" by blast+
qed

end
