(* ===== verification/LsmMerge.thy ===== *)
theory LsmMerge
  imports BinaryHeap "HOL-Library.List_Lexorder"
begin

text \<open>
  The merging of sorted runs and the version garbage collection of the level compactor
  (\<open>compaction/mod.rs\<close>): \<open>MergeIterator\<close> over a binary heap with one entry per run, and
  \<open>MvccGarbageCollector\<close> over the merged entries. An index out of range is \<open>None\<close>.
\<close>

section \<open>Entries and the merge\<close>

record versioned_entry =
  ve_key :: bytes
  ve_timestamp :: u64
  ve_value :: "bytes option"

record heap_entry =
  he_entry :: versioned_entry
  he_run_index :: nat
  he_position :: nat

text \<open>\<open>x \<le> y\<close> in \<open>Ord for HeapEntry\<close>: a smaller key is greater, then a higher timestamp.\<close>

definition he_le :: "heap_entry \<Rightarrow> heap_entry \<Rightarrow> bool" where
  "he_le x y \<longleftrightarrow>
     (if ve_key (he_entry y) = ve_key (he_entry x) then ve_timestamp (he_entry x) \<le> ve_timestamp (he_entry y)
      else ve_key (he_entry y) < ve_key (he_entry x))"

record merge_iterator =
  mi_runs :: "versioned_entry list list"
  mi_heap :: "heap_entry list"

definition seed_entry :: "nat \<times> versioned_entry list \<Rightarrow> heap_entry list \<Rightarrow> heap_entry list" where
  "seed_entry x heap =
     (case x of (run_index, run) \<Rightarrow>
        (case run of
           [] \<Rightarrow> heap
         | entry # _ \<Rightarrow> heap_push he_le \<lparr>he_entry = entry, he_run_index = run_index, he_position = 0\<rparr> heap))"

definition new_merge_iterator :: "versioned_entry list list \<Rightarrow> merge_iterator" where
  "new_merge_iterator runs = \<lparr>mi_runs = runs, mi_heap = fold seed_entry (enumerate 0 runs) []\<rparr>"

definition next_entry :: "merge_iterator \<Rightarrow> (versioned_entry option \<times> merge_iterator) option" where
  "next_entry m =
     (case heap_pop he_le (mi_heap m) of
        None \<Rightarrow> Some (None, m)
      | Some (h, heap) \<Rightarrow>
        (let next_pos = he_position h + 1
         in if he_run_index h \<ge> length (mi_runs m) then None
            else let run = mi_runs m ! he_run_index h;
                     heap = (if next_pos < length run
                             then heap_push he_le \<lparr>he_entry = run ! next_pos, he_run_index = he_run_index h, he_position = next_pos\<rparr> heap
                             else heap)
                 in Some (Some (he_entry h), m\<lparr>mi_heap := heap\<rparr>)))"

text \<open>The entries still to come bound the loop of \<open>collect_all\<close>.\<close>

definition left_in_run :: "versioned_entry list list \<Rightarrow> heap_entry \<Rightarrow> nat" where
  "left_in_run runs h = Suc (length (runs ! he_run_index h) - Suc (he_position h))"

definition entries_left :: "merge_iterator \<Rightarrow> nat" where
  "entries_left m = (\<Sum>h \<in># mset (mi_heap m). left_in_run (mi_runs m) h)"

lemma next_entry_left: "next_entry m = Some (Some e, m') \<Longrightarrow> entries_left m' < entries_left m"
proof -
  assume n: "next_entry m = Some (Some e, m')"
  then obtain h heap where p: "heap_pop he_le (mi_heap m) = Some (h, heap)" by (auto simp: next_entry_def split: option.splits)
  have "m' = m\<lparr>mi_heap := (if he_position h + 1 < length (mi_runs m ! he_run_index h)
      then heap_push he_le \<lparr>he_entry = mi_runs m ! he_run_index h ! (he_position h + 1), he_run_index = he_run_index h, he_position = he_position h + 1\<rparr> heap
      else heap)\<rparr>" using n p by (auto simp: next_entry_def Let_def split: if_splits)
  then show ?thesis using heap_pop_mset [OF p] by (auto simp: entries_left_def left_in_run_def mset_heap_push)
qed

function collect_all :: "merge_iterator \<Rightarrow> versioned_entry list option" where
  "collect_all m =
     (case next_entry m of
        None \<Rightarrow> None
      | Some (None, m) \<Rightarrow> Some []
      | Some (Some e, m) \<Rightarrow> map_option (Cons e) (collect_all m))"
  by auto
termination by (relation "measure entries_left") (auto simp: next_entry_left)

declare collect_all.simps [simp del]

section \<open>Garbage collection\<close>

record gc_context =
  oldest_active_snapshot :: "u64 option"
  pinned_tag_timestamps :: "u64 set"

definition new_gc_context :: gc_context where
  "new_gc_context = \<lparr>oldest_active_snapshot = None, pinned_tag_timestamps = {}\<rparr>"

definition gc_with_context :: "u64 option \<Rightarrow> u64 set \<Rightarrow> gc_context" where
  "gc_with_context oldest pins = \<lparr>oldest_active_snapshot = oldest, pinned_tag_timestamps = pins\<rparr>"

definition gc_with_pins :: "u64 option \<Rightarrow> u64 list \<Rightarrow> gc_context" where
  "gc_with_pins oldest pins = \<lparr>oldest_active_snapshot = oldest, pinned_tag_timestamps = set pins\<rparr>"

definition should_keep :: "gc_context \<Rightarrow> u64 \<Rightarrow> bool \<Rightarrow> bool" where
  "should_keep c timestamp is_latest \<longleftrightarrow>
     (if is_latest then True
      else if (case oldest_active_snapshot c of Some oldest \<Rightarrow> timestamp \<ge> oldest | None \<Rightarrow> False) then True
      else if timestamp \<in> pinned_tag_timestamps c then True
      else False)"

fun gc_loop :: "gc_context \<Rightarrow> bytes option \<Rightarrow> bool \<Rightarrow> versioned_entry list \<Rightarrow> versioned_entry list" where
  "gc_loop c current_key is_first_for_key [] = []"
| "gc_loop c current_key is_first_for_key (e # es) =
     (let new_key = (case current_key of Some k \<Rightarrow> k \<noteq> ve_key e | None \<Rightarrow> True);
          current_key = (if new_key then Some (ve_key e) else current_key);
          is_first_for_key = (if new_key then True else is_first_for_key);
          rest = gc_loop c current_key False es
      in if should_keep c (ve_timestamp e) is_first_for_key then e # rest else rest)"

definition gc_apply :: "gc_context \<Rightarrow> versioned_entry list \<Rightarrow> versioned_entry list" where
  "gc_apply c es = (if es = [] then [] else gc_loop c None True es)"

definition merge_with_gc :: "merge_iterator \<Rightarrow> gc_context \<Rightarrow> versioned_entry list option" where
  "merge_with_gc m c = map_option (gc_apply c) (collect_all m)"

section \<open>The merge is sorted and complete\<close>

text \<open>The order of a sorted run: keys ascending, timestamps of a key descending.\<close>

definition ve_le :: "versioned_entry \<Rightarrow> versioned_entry \<Rightarrow> bool" where
  "ve_le a b \<longleftrightarrow> ve_key a < ve_key b \<or> ve_key a = ve_key b \<and> ve_timestamp b \<le> ve_timestamp a"

lemma he_le_ve: "he_le x y \<longleftrightarrow> ve_le (he_entry y) (he_entry x)"
  by (auto simp: he_le_def ve_le_def)

lemma ve_le_trans: "ve_le a b \<Longrightarrow> ve_le b c \<Longrightarrow> ve_le a c"
  by (auto simp: ve_le_def)

lemma total_preorder_he_le: "total_preorder he_le"
  unfolding total_preorder_def he_le_ve using ve_le_trans by (auto simp: ve_le_def)

interpretation bh: max_heap he_le "heap_push he_le" "heap_pop he_le" "[]" "is_heap he_le" mset
  by (rule max_heap_vector [OF total_preorder_he_le])

text \<open>What an iterator has still to yield.\<close>

definition pending :: "merge_iterator \<Rightarrow> versioned_entry multiset" where
  "pending m = (\<Sum>h \<in># mset (mi_heap m). mset (drop (he_position h) (mi_runs m ! he_run_index h)))"

definition merge_wf :: "merge_iterator \<Rightarrow> bool" where
  "merge_wf m \<longleftrightarrow> (\<forall>h \<in> set (mi_heap m). he_run_index h < length (mi_runs m) \<and> he_position h < length (mi_runs m ! he_run_index h)
     \<and> he_entry h = mi_runs m ! he_run_index h ! he_position h)"

definition merge_inv :: "merge_iterator \<Rightarrow> bool" where
  "merge_inv m \<longleftrightarrow> merge_wf m \<and> is_heap he_le (mi_heap m) \<and> (\<forall>run \<in> set (mi_runs m). sorted_wrt ve_le run)"

lemma merge_wfD:
  assumes "merge_wf m" and "h \<in> set (mi_heap m)"
  shows "he_run_index h < length (mi_runs m)" "he_position h < length (mi_runs m ! he_run_index h)"
    "drop (he_position h) (mi_runs m ! he_run_index h) = he_entry h # drop (Suc (he_position h)) (mi_runs m ! he_run_index h)"
  using assms unfolding merge_wf_def by (auto simp: Cons_nth_drop_Suc)

lemma in_pending: "x \<in># pending m \<longleftrightarrow> (\<exists>h \<in> set (mi_heap m). x \<in> set (drop (he_position h) (mi_runs m ! he_run_index h)))"
  by (simp add: pending_def)

lemma next_entry_cases:
  assumes wf: "merge_wf m"
  obtains "next_entry m = Some (None, m)" "pending m = {#}"
  | h heap m' where "heap_pop he_le (mi_heap m) = Some (h, heap)" "next_entry m = Some (Some (he_entry h), m')" "merge_wf m'"
      "pending m = add_mset (he_entry h) (pending m')" "mi_runs m' = mi_runs m" "is_heap he_le heap \<longrightarrow> is_heap he_le (mi_heap m')"
proof (cases "heap_pop he_le (mi_heap m)")
  case None
  then have "mi_heap m = []" by (simp add: heap_pop_None)
  then show ?thesis using that(1) None by (simp add: next_entry_def pending_def)
next
  case (Some p)
  obtain h heap where p: "p = (h, heap)" by fastforce
  have ms: "mset (mi_heap m) = add_mset h (mset heap)" using heap_pop_mset [of he_le "mi_heap m" h heap] Some p by simp
  then have hin: "h \<in> set (mi_heap m)" and sub: "set heap \<subseteq> set (mi_heap m)"
    by (metis set_mset_mset union_single_eq_member, metis ms set_mset_add_mset_insert set_mset_mset subset_insertI)
  let ?run = "mi_runs m ! he_run_index h" and ?pos = "he_position h + 1"
  let ?new = "\<lparr>he_entry = ?run ! ?pos, he_run_index = he_run_index h, he_position = ?pos\<rparr>"
  define m' where "m' = m\<lparr>mi_heap := (if ?pos < length ?run then heap_push he_le ?new heap else heap)\<rparr>"
  have step: "next_entry m = Some (Some (he_entry h), m')"
    using Some p merge_wfD(1) [OF wf hin] by (simp add: next_entry_def m'_def Let_def)
  have ms': "mset (mi_heap m') = (if ?pos < length ?run then add_mset ?new (mset heap) else mset heap)" by (simp add: m'_def mset_heap_push)
  have runs: "mi_runs m' = mi_runs m" by (simp add: m'_def)
  have "x = ?new \<and> ?pos < length ?run \<or> x \<in> set heap" if "x \<in> set (mi_heap m')" for x
    using that ms' by (metis insert_iff set_mset_add_mset_insert set_mset_mset)
  then have "merge_wf m'" using wf sub merge_wfD(1) [OF wf hin] unfolding merge_wf_def runs by fastforce
  moreover have "pending m = add_mset (he_entry h) (pending m')"
    using merge_wfD(3) [OF wf hin] by (simp add: pending_def ms ms' runs)
  moreover have "is_heap he_le heap \<longrightarrow> is_heap he_le (mi_heap m')" using bh.push by (simp add: m'_def)
  ultimately show ?thesis using that(2) Some p step runs by blast
qed

lemma collect_all_wf: "merge_wf m \<Longrightarrow> \<exists>out. collect_all m = Some out \<and> mset out = pending m"
proof (induction m rule: collect_all.induct)
  case (1 m)
  from 1(2) show ?case
  proof (cases rule: next_entry_cases)
    case 1
    then show ?thesis by (simp add: collect_all.simps)
  next
    case (2 h heap m')
    then obtain out where "collect_all m' = Some out" "mset out = pending m'" using 1(1) by blast
    then show ?thesis using 2 by (subst collect_all.simps) simp
  qed
qed

lemma head_least:
  assumes "merge_inv m" and "h \<in> set (mi_heap m)" and "x \<in> set (drop (he_position h) (mi_runs m ! he_run_index h))"
  shows "ve_le (he_entry h) x"
proof -
  let ?run = "mi_runs m ! he_run_index h"
  have wf: "merge_wf m" using assms(1) by (simp add: merge_inv_def)
  have "sorted_wrt ve_le (drop (he_position h) ?run)" using assms(1) merge_wfD(1) [OF wf assms(2)] sorted_wrt_drop by (auto simp: merge_inv_def)
  then show ?thesis using merge_wfD(3) [OF wf assms(2)] assms(3) by (auto simp: ve_le_def)
qed

lemma collect_all_sorted: "merge_inv m \<Longrightarrow> collect_all m = Some out \<Longrightarrow> sorted_wrt ve_le out"
proof (induction m arbitrary: out rule: collect_all.induct)
  case (1 m)
  have wf: "merge_wf m" and h: "is_heap he_le (mi_heap m)" using 1(2) by (simp_all add: merge_inv_def)
  from wf show ?case
  proof (cases rule: next_entry_cases)
    case 1
    then show ?thesis using \<open>collect_all m = Some out\<close> by (simp add: collect_all.simps)
  next
    case (2 h heap m')
    have "is_heap he_le heap" "\<forall>y \<in> set (mi_heap m). he_le y h" using bh.pop_Some [OF h 2(1)] by simp_all
    then have inv: "merge_inv m'" using 2(3,5,6) 1(2) by (simp add: merge_inv_def)
    obtain out' where out': "collect_all m' = Some out'" "out = he_entry h # out'"
      using 1(3) 2(2) by (subst (asm) collect_all.simps) auto
    have "ve_le (he_entry h) x" if "x \<in> set out'" for x
    proof -
      have "x \<in># pending m'" using collect_all_wf [OF 2(3)] out'(1) that by (metis option.inject set_mset_mset)
      then have "x \<in># pending m" using 2(4) by simp
      then obtain h' where h': "h' \<in> set (mi_heap m)" "x \<in> set (drop (he_position h') (mi_runs m ! he_run_index h'))" using in_pending by blast
      then have "ve_le (he_entry h) (he_entry h')" using \<open>\<forall>y \<in> set (mi_heap m). he_le y h\<close> by (simp add: he_le_ve)
      then show ?thesis using head_least [OF 1(2) h'] ve_le_trans by blast
    qed
    then show ?thesis using 1(1) [OF 2(2) refl refl inv out'(1)] out'(2) by simp
  qed
qed

fun seeds :: "nat \<Rightarrow> versioned_entry list list \<Rightarrow> heap_entry list" where
  "seeds n [] = []"
| "seeds n ([] # runs) = seeds (Suc n) runs"
| "seeds n ((e # es) # runs) = \<lparr>he_entry = e, he_run_index = n, he_position = 0\<rparr> # seeds (Suc n) runs"

lemma fold_seed_entry: "fold seed_entry (enumerate n runs) heap = fold (heap_push he_le) (seeds n runs) heap"
  by (induction n runs arbitrary: heap rule: seeds.induct) (simp_all add: seed_entry_def)

lemma seeds_ok: "h \<in> set (seeds n runs) \<Longrightarrow> n \<le> he_run_index h \<and> he_run_index h < n + length runs \<and> he_position h = 0
    \<and> runs ! (he_run_index h - n) \<noteq> [] \<and> he_entry h = runs ! (he_run_index h - n) ! 0"
  by (induction n runs rule: seeds.induct) (auto simp: nth_Cons' Suc_diff_le)

lemma seeds_sum: "(\<Sum>h \<in># mset (seeds n runs). mset (runs ! (he_run_index h - n))) = mset (concat runs)"
proof (induction n runs rule: seeds.induct)
  case (2 n runs)
  have "image_mset (\<lambda>h. mset (([] # runs) ! (he_run_index h - n))) (mset (seeds (Suc n) runs))
      = image_mset (\<lambda>h. mset (runs ! (he_run_index h - Suc n))) (mset (seeds (Suc n) runs))"
    using seeds_ok [of _ "Suc n" runs] by (intro image_mset_cong) (force simp: nth_Cons')
  then show ?case using 2 by simp
next
  case (3 n e es runs)
  have "image_mset (\<lambda>h. mset (((e # es) # runs) ! (he_run_index h - n))) (mset (seeds (Suc n) runs))
      = image_mset (\<lambda>h. mset (runs ! (he_run_index h - Suc n))) (mset (seeds (Suc n) runs))"
    using seeds_ok [of _ "Suc n" runs] by (intro image_mset_cong) (force simp: nth_Cons')
  then show ?case using 3 by simp
qed simp

lemma new_merge_iterator_ok:
  "merge_wf (new_merge_iterator runs) \<and> is_heap he_le (mi_heap (new_merge_iterator runs))
   \<and> pending (new_merge_iterator runs) = mset (concat runs)"
proof -
  let ?m = "new_merge_iterator runs"
  have h: "is_heap he_le (mi_heap ?m)" "mset (mi_heap ?m) = mset (seeds 0 runs)"
    using bh.heap_of [of "seeds 0 runs"] by (simp_all add: new_merge_iterator_def fold_seed_entry)
  then have st: "set (mi_heap ?m) = set (seeds 0 runs)" by (metis set_mset_mset)
  have r: "mi_runs ?m = runs" by (simp add: new_merge_iterator_def)
  have "merge_wf ?m" using seeds_ok [of _ 0 runs] unfolding merge_wf_def st r by auto
  moreover have "image_mset (\<lambda>h. mset (drop (he_position h) (runs ! he_run_index h))) (mset (seeds 0 runs))
      = image_mset (\<lambda>h. mset (runs ! (he_run_index h - 0))) (mset (seeds 0 runs))"
    using seeds_ok [of _ 0 runs] by (intro image_mset_cong) auto
  then have "pending ?m = (\<Sum>h \<in># mset (seeds 0 runs). mset (runs ! (he_run_index h - 0)))"
    by (simp add: pending_def h(2) r)
  ultimately show ?thesis using h(1) seeds_sum [of runs 0] by simp
qed

lemma merge_runs: "\<exists>out. collect_all (new_merge_iterator runs) = Some out \<and> mset out = mset (concat runs)"
  using collect_all_wf [of "new_merge_iterator runs"] new_merge_iterator_ok [of runs] by simp

lemma merge_runs_sorted:
  "\<forall>run \<in> set runs. sorted_wrt ve_le run \<Longrightarrow> collect_all (new_merge_iterator runs) = Some out \<Longrightarrow> sorted_wrt ve_le out"
  using collect_all_sorted [of "new_merge_iterator runs" out] new_merge_iterator_ok [of runs]
  by (simp add: merge_inv_def new_merge_iterator_def)

section \<open>What the collection keeps\<close>

definition versions_in :: "bytes \<Rightarrow> versioned_entry list \<Rightarrow> versioned_entry list" where
  "versions_in k es = filter (\<lambda>e. ve_key e = k) es"

text \<open>The newest version of a key and of the others those that \<open>should_keep\<close> asks for.\<close>

fun kept_versions :: "gc_context \<Rightarrow> versioned_entry list \<Rightarrow> versioned_entry list" where
  "kept_versions c [] = []"
| "kept_versions c (e # es) = e # filter (\<lambda>e. should_keep c (ve_timestamp e) False) es"

lemma sorted_keys: "sorted_wrt ve_le es \<Longrightarrow> sorted (map ve_key es)"
  by (induction es) (auto simp: ve_le_def)

lemma versions_in_loop:
  assumes "sorted (map ve_key es)" and "\<forall>k0. cur = Some k0 \<longrightarrow> \<not> b \<and> (\<forall>e \<in> set es. k0 \<le> ve_key e)"
  shows "versions_in k (gc_loop c cur b es)
    = (if cur = Some k then filter (\<lambda>e. should_keep c (ve_timestamp e) False) (versions_in k es) else kept_versions c (versions_in k es))"
  using assms
proof (induction es arbitrary: cur b)
  case Nil
  then show ?case by (simp add: versions_in_def)
next
  case (Cons e es)
  have later: "ve_key e \<le> ve_key x" if "x \<in> set es" for x using that Cons.prems(1) by simp
  have ih: "versions_in k (gc_loop c (Some (ve_key e)) False es)
      = (if ve_key e = k then filter (\<lambda>e. should_keep c (ve_timestamp e) False) (versions_in k es) else kept_versions c (versions_in k es))"
    using Cons.IH [of "Some (ve_key e)" False] Cons.prems(1) by simp
  show ?case
  proof (cases "ve_key e = k")
    case True
    then show ?thesis using ih Cons.prems(2) by (cases cur) (auto simp: versions_in_def Let_def should_keep_def)
  next
    case False
    have "versions_in k es = []" if "cur = Some k"
    proof -
      have "k < ve_key e" using that Cons.prems(2) False by fastforce
      then show ?thesis using later by (fastforce simp: versions_in_def filter_empty_conv)
    qed
    then show ?thesis using ih False by (cases cur) (auto simp: versions_in_def Let_def)
  qed
qed

lemma versions_in_gc: "sorted_wrt ve_le es \<Longrightarrow> versions_in k (gc_apply c es) = kept_versions c (versions_in k es)"
  using versions_in_loop [OF sorted_keys, of es None True] by (simp add: gc_apply_def versions_in_def)

lemma subseq_gc_loop: "subseq (gc_loop c cur b es) es"
  by (induction es arbitrary: cur b) (auto simp: Let_def)

lemma subseq_sorted_wrt: "subseq xs ys \<Longrightarrow> sorted_wrt P ys \<Longrightarrow> sorted_wrt P xs"
proof (induction rule: list_emb.induct)
  case (list_emb_Cons2 x y xs ys)
  then show ?case by (auto elim!: list_emb_set)
qed simp_all

lemma sorted_gc_apply: "sorted_wrt ve_le es \<Longrightarrow> sorted_wrt ve_le (gc_apply c es)"
  using subseq_sorted_wrt [OF subseq_gc_loop] by (simp add: gc_apply_def)

text \<open>What a read of a key at a snapshot sees in entries that are sorted.\<close>

definition visible_at :: "bytes \<Rightarrow> u64 \<Rightarrow> versioned_entry list \<Rightarrow> versioned_entry option" where
  "visible_at k t es = find (\<lambda>e. ve_timestamp e \<le> t) (versions_in k es)"

lemma visible_kept:
  assumes "find (\<lambda>e. ve_timestamp e \<le> t) vs = Some e" and "should_keep c (ve_timestamp e) (e = hd vs)"
  shows "find (\<lambda>e. ve_timestamp e \<le> t) (kept_versions c vs) = Some e"
proof (cases vs)
  case Nil
  then show ?thesis using assms by simp
next
  case (Cons x xs)
  have fl: "find (\<lambda>e. ve_timestamp e \<le> t) (filter P ys) = Some e"
    if "find (\<lambda>e. ve_timestamp e \<le> t) ys = Some e" "P e" for P ys
    using that by (induction ys) (auto split: if_splits)
  show ?thesis
  proof (cases "ve_timestamp x \<le> t")
    case True
    then show ?thesis using assms(1) Cons by simp
  next
    case False
    then have f: "find (\<lambda>e. ve_timestamp e \<le> t) xs = Some e" using assms(1) Cons by simp
    then have "e \<noteq> x" using False by (auto simp: find_Some_iff)
    then show ?thesis using fl [OF f] assms(2) False Cons by simp
  qed
qed

section \<open>The properties\<close>

text \<open>
  C24: The merge of any runs, sorted or not and empty ones included, ends: the loop of
  \<open>collect_all\<close> stops without an index out of range, having yielded every entry of every run
  exactly once.
\<close>

theorem merge_terminates: "\<exists>out. collect_all (new_merge_iterator runs) = Some out \<and> mset out = mset (concat runs) \<and> length out = sum_list (map length runs)"
proof -
  obtain out where out: "collect_all (new_merge_iterator runs) = Some out" "mset out = mset (concat runs)" using merge_runs by blast
  then have "length out = sum_list (map length runs)" by (metis length_concat size_mset)
  then show ?thesis using out by blast
qed

text \<open>
  C23: Merging sorted runs with garbage collection gives one sorted run that has of every key the
  newest version, the versions not before the oldest active snapshot, the versions at pinned
  timestamps, and no other. A read at any snapshot that sees one of these before sees it
  after.
\<close>

theorem merge_gc_correct:
  assumes "\<forall>run \<in> set runs. sorted_wrt ve_le run"
  shows "\<exists>merged out. collect_all (new_merge_iterator runs) = Some merged \<and> mset merged = mset (concat runs)
    \<and> merge_with_gc (new_merge_iterator runs) c = Some out \<and> sorted_wrt ve_le out
    \<and> (\<forall>k. versions_in k out = kept_versions c (versions_in k merged))
    \<and> (\<forall>k t e. visible_at k t merged = Some e \<and> should_keep c (ve_timestamp e) (e = hd (versions_in k merged))
         \<longrightarrow> visible_at k t out = Some e)"
proof -
  obtain merged where m: "collect_all (new_merge_iterator runs) = Some merged" "mset merged = mset (concat runs)" using merge_runs by blast
  have s: "sorted_wrt ve_le merged" by (rule merge_runs_sorted [OF assms m(1)])
  have v: "\<forall>k. versions_in k (gc_apply c merged) = kept_versions c (versions_in k merged)" using versions_in_gc [OF s] by blast
  then have "\<forall>k t e. visible_at k t merged = Some e \<and> should_keep c (ve_timestamp e) (e = hd (versions_in k merged))
      \<longrightarrow> visible_at k t (gc_apply c merged) = Some e"
    using visible_kept by (simp add: visible_at_def)
  then show ?thesis using m s v sorted_gc_apply [OF s] by (intro exI [of _ merged] exI [of _ "gc_apply c merged"]) (simp add: merge_with_gc_def)
qed

definition demo_runs :: "versioned_entry list list" where
  "demo_runs = [[\<lparr>ve_key = [1], ve_timestamp = 9, ve_value = Some [7]\<rparr>, \<lparr>ve_key = [2], ve_timestamp = 3, ve_value = None\<rparr>], [],
     [\<lparr>ve_key = [1], ve_timestamp = 5, ve_value = Some [8]\<rparr>, \<lparr>ve_key = [1], ve_timestamp = 4, ve_value = None\<rparr>]]"

theorem merge_gc_correct_witness:
  "list_all (sorted_wrt ve_le) demo_runs
   \<and> (\<exists>merged out. collect_all (new_merge_iterator demo_runs) = Some merged \<and> mset merged = mset (concat demo_runs)
    \<and> merge_with_gc (new_merge_iterator demo_runs) (gc_with_pins (Some 5) []) = Some out \<and> sorted_wrt ve_le out
    \<and> (\<forall>k. versions_in k out = kept_versions (gc_with_pins (Some 5) []) (versions_in k merged)))"
proof -
  have "\<forall>run \<in> set demo_runs. sorted_wrt ve_le run" by (simp add: demo_runs_def ve_le_def)
  from merge_gc_correct [OF this, of "gc_with_pins (Some 5) []"] this show ?thesis unfolding list_all_iff by blast
qed

definition version_entry :: "bytes \<Rightarrow> u64 \<Rightarrow> bytes option \<Rightarrow> versioned_entry" where
  "version_entry k t v = \<lparr>ve_key = k, ve_timestamp = t, ve_value = v\<rparr>"

text \<open>
  The collection does not keep the version that the oldest active snapshot reads unless its
  timestamp is that of the snapshot. A key has a version before the snapshot and one after it;
  the snapshot is active and pinned by a tag; the merge drops the older version, and the read
  at the snapshot, which saw it, finds nothing.
\<close>

theorem merge_gc_loses_snapshot:
  assumes "t1 < snapshot" and "snapshot < t2"
  shows "collect_all (new_merge_iterator [[version_entry k t2 v2], [version_entry k t1 v1]]) = Some [version_entry k t2 v2, version_entry k t1 v1]
    \<and> visible_at k snapshot [version_entry k t2 v2, version_entry k t1 v1] = Some (version_entry k t1 v1)
    \<and> merge_with_gc (new_merge_iterator [[version_entry k t2 v2], [version_entry k t1 v1]]) (gc_with_pins (Some snapshot) [snapshot]) = Some [version_entry k t2 v2]
    \<and> visible_at k snapshot [version_entry k t2 v2] = None"
proof -
  let ?old = "version_entry k t1 v1" and ?new = "version_entry k t2 v2"
  have t: "t1 < t2" "\<not> t2 \<le> t1" "\<not> t2 \<le> snapshot" "\<not> snapshot \<le> t1" "t1 \<noteq> snapshot" "t1 \<le> snapshot" using assms by auto
  obtain out where out: "collect_all (new_merge_iterator [[?new], [?old]]) = Some out" "mset out = {#?new, ?old#}" using merge_runs [of "[[?new], [?old]]"] by auto
  have s: "sorted_wrt ve_le out" by (rule merge_runs_sorted [OF _ out(1)]) simp
  have "length out = 2" using out(2) by (metis size_add_mset size_empty size_mset One_nat_def Suc_1)
  then obtain a b where ab: "out = [a, b]" by (auto simp: length_Suc_conv numeral_2_eq_2)
  then have "a = ?new \<and> b = ?old \<or> a = ?old \<and> b = ?new" using out(2) by (auto simp: add_eq_conv_ex)
  moreover have "\<not> ve_le ?old ?new" using t by (simp add: ve_le_def version_entry_def)
  ultimately have "out = [?new, ?old]" using ab s by auto
  then show ?thesis using out(1) t
    by (simp add: merge_with_gc_def gc_apply_def should_keep_def gc_with_pins_def visible_at_def versions_in_def version_entry_def)
qed

theorem merge_gc_loses_snapshot_witness:
  "(5 :: u64) < 7 \<and> (7 :: u64) < 10 \<and> visible_at [1] 7 [version_entry [1] 10 None, version_entry [1] 5 (Some [2])] = Some (version_entry [1] 5 (Some [2]))
   \<and> merge_with_gc (new_merge_iterator [[version_entry [1] 10 None], [version_entry [1] 5 (Some [2])]]) (gc_with_pins (Some 7) [7]) = Some [version_entry [1] 10 None]
   \<and> visible_at [1] 7 [version_entry [1] 10 None] = None"
  using merge_gc_loses_snapshot [of 5 7 10 "[1]" None "Some [2]"] by simp

end
