(* ===== verification/LsmCompaction.thy ===== *)
theory LsmCompaction
  imports LsmMerge Bloom
begin

text \<open>
  The level compactor (\<open>compaction/mod.rs\<close>): the metadata of the SST files on five levels, the
  trigger, the splitting of merged entries into output files, and the compaction of a level
  into the next. The sizes of the Bloom filters, which \<open>MonkeyAllocator\<close> computes in floating
  point, are an argument; panics are \<open>None\<close>.
\<close>

section \<open>Levels\<close>

definition NUM_LEVELS :: nat where "NUM_LEVELS = 5"
definition L0_FILE_COUNT_THRESHOLD :: nat where "L0_FILE_COUNT_THRESHOLD = 4"
definition DEFAULT_SIZE_RATIO :: u32 where "DEFAULT_SIZE_RATIO = 10"
definition DEFAULT_SST_SIZE_BYTES :: u64 where "DEFAULT_SST_SIZE_BYTES = 64 * 1024 * 1024"
definition MIN_SST_SIZE_BYTES :: u64 where "MIN_SST_SIZE_BYTES = 8 * 1024 * 1024"
definition BOTTOM_LEVEL :: nat where "BOTTOM_LEVEL = 4"

record sst_metadata =
  sm_sst_id :: u64
  sm_level :: nat
  sm_min_key :: bytes
  sm_max_key :: bytes
  sm_size_bytes :: u64
  sm_row_count :: u64

definition sm_overlaps :: "sst_metadata \<Rightarrow> bytes \<Rightarrow> bytes \<Rightarrow> bool" where
  "sm_overlaps s lo hi \<longleftrightarrow> sm_min_key s \<le> hi \<and> sm_max_key s \<ge> lo"

record lsm_level =
  ll_level :: nat
  ll_ssts :: "sst_metadata list"

definition new_lsm_level :: "nat \<Rightarrow> lsm_level" where
  "new_lsm_level i = \<lparr>ll_level = i, ll_ssts = []\<rparr>"

definition total_size_bytes :: "lsm_level \<Rightarrow> u64" where
  "total_size_bytes l = sum_list (map sm_size_bytes (ll_ssts l))"

definition file_count :: "lsm_level \<Rightarrow> nat" where
  "file_count l = length (ll_ssts l)"

definition level_add_sst :: "sst_metadata \<Rightarrow> lsm_level \<Rightarrow> lsm_level" where
  "level_add_sst sst l =
     (let pos = search_position sm_min_key (sm_min_key sst) (ll_ssts l)
      in l\<lparr>ll_ssts := take pos (ll_ssts l) @ sst # drop pos (ll_ssts l)\<rparr>)"

fun remove_first :: "u64 \<Rightarrow> sst_metadata list \<Rightarrow> sst_metadata option \<times> sst_metadata list" where
  "remove_first sid [] = (None, [])"
| "remove_first sid (s # ss) =
     (if sm_sst_id s = sid then (Some s, ss)
      else let (r, ss) = remove_first sid ss in (r, s # ss))"

definition level_remove_sst :: "u64 \<Rightarrow> lsm_level \<Rightarrow> sst_metadata option \<times> lsm_level" where
  "level_remove_sst sid l = (let (r, ss) = remove_first sid (ll_ssts l) in (r, l\<lparr>ll_ssts := ss\<rparr>))"

definition is_bottom :: "lsm_level \<Rightarrow> bool" where "is_bottom l \<longleftrightarrow> ll_level l = BOTTOM_LEVEL"
definition is_l0 :: "lsm_level \<Rightarrow> bool" where "is_l0 l \<longleftrightarrow> ll_level l = 0"

definition overlapping_ssts :: "bytes \<Rightarrow> bytes \<Rightarrow> lsm_level \<Rightarrow> sst_metadata list" where
  "overlapping_ssts lo hi l = filter (\<lambda>s. sm_overlaps s lo hi) (ll_ssts l)"

record lsm_tree =
  lt_levels :: "lsm_level list"
  lt_size_ratio :: u32

definition with_size_ratio :: "u32 \<Rightarrow> lsm_tree" where
  "with_size_ratio size_ratio = \<lparr>lt_levels = map new_lsm_level [0..<NUM_LEVELS], lt_size_ratio = size_ratio\<rparr>"

definition new_lsm_tree :: lsm_tree where
  "new_lsm_tree = with_size_ratio DEFAULT_SIZE_RATIO"

definition tree_level :: "lsm_tree \<Rightarrow> nat \<Rightarrow> lsm_level option" where
  "tree_level t i = (if i < length (lt_levels t) then Some (lt_levels t ! i) else None)"

definition pending_bytes :: "lsm_tree \<Rightarrow> u64" where
  "pending_bytes t = sum_list (map total_size_bytes (take BOTTOM_LEVEL (lt_levels t)))"

definition tree_add_sst :: "nat \<Rightarrow> sst_metadata \<Rightarrow> lsm_tree \<Rightarrow> lsm_tree option" where
  "tree_add_sst i sst t = map_option (\<lambda>l. t\<lparr>lt_levels := (lt_levels t)[i := level_add_sst sst l]\<rparr>) (tree_level t i)"

definition tree_remove_sst :: "nat \<Rightarrow> u64 \<Rightarrow> lsm_tree \<Rightarrow> (sst_metadata option \<times> lsm_tree) option" where
  "tree_remove_sst i sid t =
     map_option (\<lambda>l. let (r, l) = level_remove_sst sid l in (r, t\<lparr>lt_levels := (lt_levels t)[i := l]\<rparr>)) (tree_level t i)"

definition total_sst_count :: "lsm_tree \<Rightarrow> nat" where
  "total_sst_count t = sum_list (map file_count (lt_levels t))"

section \<open>The trigger\<close>

datatype l0_strategy = Tiered | Leveled

record compaction_trigger =
  ct_l0_file_count_threshold :: nat
  ct_size_ratio :: u32
  ct_l0_strategy :: l0_strategy

definition trigger_with_thresholds :: "nat \<Rightarrow> u32 \<Rightarrow> compaction_trigger" where
  "trigger_with_thresholds n r = \<lparr>ct_l0_file_count_threshold = n, ct_size_ratio = r, ct_l0_strategy = Tiered\<rparr>"

definition new_trigger :: compaction_trigger where
  "new_trigger = \<lparr>ct_l0_file_count_threshold = L0_FILE_COUNT_THRESHOLD, ct_size_ratio = DEFAULT_SIZE_RATIO, ct_l0_strategy = Tiered\<rparr>"

definition trigger_with_l0_strategy :: "l0_strategy \<Rightarrow> compaction_trigger \<Rightarrow> compaction_trigger" where
  "trigger_with_l0_strategy st c = c\<lparr>ct_l0_strategy := st\<rparr>"

definition effective_l0_threshold :: "compaction_trigger \<Rightarrow> nat" where
  "effective_l0_threshold c = (case ct_l0_strategy c of Tiered \<Rightarrow> ct_l0_file_count_threshold c | Leveled \<Rightarrow> 2)"

definition target_size :: "compaction_trigger \<Rightarrow> u64 \<Rightarrow> u64 option" where
  "target_size c next_level_size =
     (if next_level_size > 0
      then if ct_size_ratio c = 0 then None else Some (next_level_size div ucast (ct_size_ratio c))
      else Some DEFAULT_SST_SIZE_BYTES)"

fun check_levels :: "compaction_trigger \<Rightarrow> lsm_tree \<Rightarrow> nat list \<Rightarrow> nat option option" where
  "check_levels c t [] = Some None"
| "check_levels c t (i # is) =
     Option.bind (tree_level t i) (\<lambda>l. Option.bind (tree_level t (i + 1)) (\<lambda>l'.
       let current_size = total_size_bytes l; next_level_size = total_size_bytes l'
       in if current_size > 0
          then Option.bind (target_size c next_level_size) (\<lambda>target.
                 if current_size \<ge> target then Some (Some i) else check_levels c t is)
          else check_levels c t is))"

definition trigger_check :: "compaction_trigger \<Rightarrow> lsm_tree \<Rightarrow> nat option option" where
  "trigger_check c t =
     Option.bind (tree_level t 0) (\<lambda>l0.
       if file_count l0 \<ge> effective_l0_threshold c then Some (Some 0)
       else check_levels c t [1..<BOTTOM_LEVEL])"

definition needs_compaction :: "compaction_trigger \<Rightarrow> lsm_tree \<Rightarrow> nat \<Rightarrow> bool option" where
  "needs_compaction c t i =
     (if i = 0 then map_option (\<lambda>l. file_count l \<ge> effective_l0_threshold c) (tree_level t 0)
      else if i \<ge> BOTTOM_LEVEL then Some False
      else Option.bind (tree_level t i) (\<lambda>l. Option.bind (tree_level t (i + 1)) (\<lambda>l'.
             let current_size = total_size_bytes l; next_level_size = total_size_bytes l'
             in if current_size = 0 then Some False
                else map_option (\<lambda>target. current_size \<ge> target) (target_size c next_level_size))))"

section \<open>The compactor\<close>

record compaction_config =
  cc_sst_size_bytes :: u64
  cc_bloom_bits_per_key :: u32
  cc_size_ratio :: u32
  cc_l0_strategy :: l0_strategy

definition new_compaction_config :: compaction_config where
  "new_compaction_config =
     \<lparr>cc_sst_size_bytes = DEFAULT_SST_SIZE_BYTES, cc_bloom_bits_per_key = 10, cc_size_ratio = DEFAULT_SIZE_RATIO, cc_l0_strategy = Tiered\<rparr>"

definition config_with_l0_strategy :: "l0_strategy \<Rightarrow> compaction_config \<Rightarrow> compaction_config" where
  "config_with_l0_strategy st c = c\<lparr>cc_l0_strategy := st\<rparr>"

definition with_sst_size :: "u64 \<Rightarrow> compaction_config \<Rightarrow> compaction_config" where
  "with_sst_size n c =
     c\<lparr>cc_sst_size_bytes := (if n < MIN_SST_SIZE_BYTES then MIN_SST_SIZE_BYTES
                             else if n > DEFAULT_SST_SIZE_BYTES then DEFAULT_SST_SIZE_BYTES else n)\<rparr>"

record lsm_output =
  lo_new_ssts :: "sst_metadata list"
  lo_bloom_filters :: "sst_bloom_filter list"
  lo_sst_entries :: "versioned_entry list list"
  lo_total_entries :: nat
  lo_gc_discarded :: nat

record compactor =
  cp_config :: compaction_config
  cp_trigger :: compaction_trigger
  cp_next_sst_id :: u64

definition new_compactor :: "compaction_config \<Rightarrow> compactor" where
  "new_compactor config =
     \<lparr>cp_config = config,
      cp_trigger = trigger_with_l0_strategy (cc_l0_strategy config) (trigger_with_thresholds L0_FILE_COUNT_THRESHOLD (cc_size_ratio config)),
      cp_next_sst_id = 1\<rparr>"

definition with_start_sst_id :: "u64 \<Rightarrow> compactor \<Rightarrow> compactor" where
  "with_start_sst_id i cp = cp\<lparr>cp_next_sst_id := i\<rparr>"

definition allocate_sst_id :: "compactor \<Rightarrow> u64 \<times> compactor" where
  "allocate_sst_id cp = (cp_next_sst_id cp, cp\<lparr>cp_next_sst_id := cp_next_sst_id cp + 1\<rparr>)"

definition entry_size :: "versioned_entry \<Rightarrow> u64" where
  "entry_size e = word_of_nat (length (ve_key e)) + (case ve_value e of None \<Rightarrow> 0 | Some v \<Rightarrow> word_of_nat (length v)) + 16"

fun sst_split_loop :: "u64 \<Rightarrow> versioned_entry list \<Rightarrow> u64 \<Rightarrow> versioned_entry list \<Rightarrow> versioned_entry list list" where
  "sst_split_loop limit current_group current_size [] = (if current_group \<noteq> [] then [current_group] else [])"
| "sst_split_loop limit current_group current_size (e # es) =
     (if current_size + entry_size e > limit \<and> current_group \<noteq> []
      then current_group # sst_split_loop limit [e] (entry_size e) es
      else sst_split_loop limit (current_group @ [e]) (current_size + entry_size e) es)"

definition split_into_ssts :: "compactor \<Rightarrow> versioned_entry list \<Rightarrow> versioned_entry list list" where
  "split_into_ssts cp es = (if es = [] then [] else sst_split_loop (cc_sst_size_bytes (cp_config cp)) [] 0 es)"

definition build_sst ::
  "(bytes \<Rightarrow> u64) \<Rightarrow> (nat \<Rightarrow> nat \<Rightarrow> u64 \<times> u32) \<Rightarrow> nat \<Rightarrow> u64 \<Rightarrow> versioned_entry list \<Rightarrow> (sst_metadata \<times> sst_bloom_filter) option" where
  "build_sst h dims target_level sst_id grp =
     (let (m, k) = dims target_level (length grp)
      in map_option (Pair \<lparr>sm_sst_id = sst_id, sm_level = target_level, sm_min_key = ve_key (hd grp), sm_max_key = ve_key (last grp),
                           sm_size_bytes = sum_list (map entry_size grp), sm_row_count = word_of_nat (length grp)\<rparr>)
           (sbf_build h sst_id target_level (map ve_key grp) m k))"

fun build_ssts ::
  "(bytes \<Rightarrow> u64) \<Rightarrow> (nat \<Rightarrow> nat \<Rightarrow> u64 \<times> u32) \<Rightarrow> nat \<Rightarrow> versioned_entry list list \<Rightarrow> compactor
   \<Rightarrow> ((sst_metadata \<times> sst_bloom_filter \<times> versioned_entry list) list \<times> compactor) option" where
  "build_ssts h dims target_level [] cp = Some ([], cp)"
| "build_ssts h dims target_level (grp # grps) cp =
     (if grp = [] then build_ssts h dims target_level grps cp
      else let (sst_id, cp) = allocate_sst_id cp
           in Option.bind (build_sst h dims target_level sst_id grp) (\<lambda>(md, bloom).
              map_option (\<lambda>(outs, cp). ((md, bloom, grp) # outs, cp)) (build_ssts h dims target_level grps cp)))"

fun add_ssts :: "nat \<Rightarrow> sst_metadata list \<Rightarrow> lsm_tree \<Rightarrow> lsm_tree option" where
  "add_ssts i [] t = Some t"
| "add_ssts i (s # ss) t = Option.bind (tree_add_sst i s t) (add_ssts i ss)"

definition target_level_of :: "nat \<Rightarrow> nat" where
  "target_level_of source_level = (if source_level < BOTTOM_LEVEL then source_level + 1 else BOTTOM_LEVEL)"

definition lsm_compact ::
  "(bytes \<Rightarrow> u64) \<Rightarrow> (nat \<Rightarrow> nat \<Rightarrow> u64 \<times> u32) \<Rightarrow> nat \<Rightarrow> versioned_entry list list \<Rightarrow> gc_context \<Rightarrow> lsm_tree \<Rightarrow> compactor
   \<Rightarrow> (lsm_output \<times> lsm_tree \<times> compactor) option" where
  "lsm_compact h dims source_level input_runs gc t cp =
     (let target_level = target_level_of source_level;
          total_input = sum_list (map length input_runs)
      in Option.bind (collect_all (new_merge_iterator input_runs)) (\<lambda>merged.
         let gc_result = gc_apply gc merged;
             gc_discarded = total_input - length gc_result
         in Option.bind (build_ssts h dims target_level (split_into_ssts cp gc_result) cp) (\<lambda>(outs, cp).
            map_option (\<lambda>t. (\<lparr>lo_new_ssts = map fst outs, lo_bloom_filters = map (fst \<circ> snd) outs, lo_sst_entries = map (snd \<circ> snd) outs,
                              lo_total_entries = length gc_result, lo_gc_discarded = gc_discarded\<rparr>, t, cp))
              (add_ssts target_level (map fst outs) t))))"

fun remove_ssts :: "nat \<Rightarrow> u64 list \<Rightarrow> lsm_tree \<Rightarrow> lsm_tree option" where
  "remove_ssts i [] t = Some t"
| "remove_ssts i (sid # sids) t = Option.bind (tree_remove_sst i sid t) (\<lambda>(_, t). remove_ssts i sids t)"

definition lsm_maybe_compact ::
  "(bytes \<Rightarrow> u64) \<Rightarrow> (nat \<Rightarrow> nat \<Rightarrow> u64 \<times> u32) \<Rightarrow> gc_context \<Rightarrow> (u64 list \<Rightarrow> versioned_entry list list) \<Rightarrow> lsm_tree \<Rightarrow> compactor
   \<Rightarrow> (lsm_output option \<times> lsm_tree \<times> compactor) option" where
  "lsm_maybe_compact h dims gc get_run_data t cp =
     Option.bind (trigger_check (cp_trigger cp) t) (\<lambda>found.
       case found of
         None \<Rightarrow> Some (None, t, cp)
       | Some level \<Rightarrow>
         Option.bind (tree_level t level) (\<lambda>l.
           let sst_ids = map sm_sst_id (ll_ssts l)
           in if sst_ids = [] then Some (None, t, cp)
              else let input_runs = get_run_data sst_ids
                   in Option.bind (remove_ssts level sst_ids t) (\<lambda>t.
                      map_option (\<lambda>(out, t, cp). (Some out, t, cp)) (lsm_compact h dims level input_runs gc t cp))))"

section \<open>Splitting\<close>

definition nat_size :: "versioned_entry \<Rightarrow> nat" where
  "nat_size e = length (ve_key e) + (case ve_value e of None \<Rightarrow> 0 | Some v \<Rightarrow> length v) + 16"

lemma entry_size_nat: "entry_size e = word_of_nat (nat_size e)"
  by (simp add: entry_size_def nat_size_def split: option.split)

definition group_ok :: "u64 \<Rightarrow> versioned_entry list \<Rightarrow> bool" where
  "group_ok limit g \<longleftrightarrow> g \<noteq> [] \<and> (length g = 1 \<or> sum_list (map nat_size g) \<le> unat limit)"

lemma sst_split_concat: "concat (sst_split_loop limit g n es) = g @ es \<and> [] \<notin> set (sst_split_loop limit g n es)"
  by (induction limit g n es rule: sst_split_loop.induct) auto

lemma sst_split_ok:
  assumes "g = [] \<or> group_ok limit g" and "sum_list (map nat_size (g @ es)) < 2 ^ 64"
  shows "\<forall>x \<in> set (sst_split_loop limit g (word_of_nat (sum_list (map nat_size g))) es). group_ok limit x"
  using assms
proof (induction es arbitrary: g)
  case Nil
  then show ?case by auto
next
  case (Cons e es)
  let ?n = "sum_list (map nat_size g)"
  have sz: "unat (word_of_nat ?n + entry_size e :: u64) = ?n + nat_size e"
  proof -
    have "?n + nat_size e < 2 ^ 64" using Cons.prems(2) by simp
    moreover have "word_of_nat ?n + entry_size e = (word_of_nat (?n + nat_size e) :: u64)" by (simp add: entry_size_nat)
    ultimately show ?thesis using unat_of_nat_small [of "?n + nat_size e", where 'a = 64] by (simp del: of_nat_add)
  qed
  show ?case
  proof (cases "word_of_nat ?n + entry_size e > limit \<and> g \<noteq> []")
    case True
    have "\<forall>x \<in> set (sst_split_loop limit [e] (word_of_nat (sum_list (map nat_size [e]))) es). group_ok limit x"
      using Cons.prems(2) by (intro Cons.IH) (simp_all add: group_ok_def)
    then show ?thesis using True Cons.prems(1) by (simp add: entry_size_nat)
  next
    case False
    have "group_ok limit (g @ [e])"
    proof (cases "g = []")
      case g: False
      then have "word_of_nat ?n + entry_size e \<le> limit" using False by simp
      then show ?thesis using sz by (simp add: group_ok_def word_le_nat_alt)
    qed (simp add: group_ok_def)
    then have "\<forall>x \<in> set (sst_split_loop limit (g @ [e]) (word_of_nat (sum_list (map nat_size (g @ [e])))) es). group_ok limit x"
      using Cons.prems(2) by (intro Cons.IH) simp_all
    then show ?thesis using False by (auto simp: entry_size_nat)
  qed
qed

lemma split_into_ssts_concat: "concat (split_into_ssts cp es) = es \<and> [] \<notin> set (split_into_ssts cp es)"
  using sst_split_concat [of "cc_sst_size_bytes (cp_config cp)" "[]" 0 es] by (simp add: split_into_ssts_def)

section \<open>The levels under a compaction\<close>

definition level_sorted :: "lsm_level \<Rightarrow> bool" where
  "level_sorted l \<longleftrightarrow> sorted (map sm_min_key (ll_ssts l))"

lemma level_add_sst_ok:
  assumes "level_sorted l"
  shows "level_sorted (level_add_sst sst l) \<and> mset (ll_ssts (level_add_sst sst l)) = add_mset sst (mset (ll_ssts l))"
proof -
  let ?ss = "ll_ssts l"
  define p where "p = search_position sm_min_key (sm_min_key sst) ?ss"
  note s = search_position_ok [OF assms [unfolded level_sorted_def], where k = "sm_min_key sst", folded p_def]
  have lo: "sm_min_key x \<le> sm_min_key sst" if "x \<in> set (take p ?ss)" for x
    using that s(1,2) by (auto simp: in_set_conv_nth)
  have hi: "sm_min_key sst \<le> sm_min_key x" if "x \<in> set (drop p ?ss)" for x
    using that s(1) s(3) by (auto simp: in_set_conv_nth)
  have srt: "sorted (map sm_min_key (take p ?ss @ drop p ?ss))" using assms by (simp add: level_sorted_def)
  have "sorted (map sm_min_key (take p ?ss @ sst # drop p ?ss))"
    using srt lo hi unfolding map_append sorted_append by (auto simp del: append_take_drop_id)
  moreover have "mset (take p ?ss @ sst # drop p ?ss) = add_mset sst (mset ?ss)"
    by (metis append_take_drop_id mset.simps(2) mset_append union_mset_add_mset_right)
  ultimately show ?thesis by (simp add: level_add_sst_def level_sorted_def p_def Let_def)
qed

lemma fold_level_add_sst:
  "level_sorted l \<Longrightarrow> level_sorted (fold level_add_sst ss l) \<and> mset (ll_ssts (fold level_add_sst ss l)) = mset ss + mset (ll_ssts l)"
  by (induction ss arbitrary: l) (simp_all add: level_add_sst_ok)

lemma mset_fold_level_add: "mset (ll_ssts (fold level_add_sst ss l)) = mset ss + mset (ll_ssts l)"
proof -
  have one: "mset (ll_ssts (level_add_sst x l)) = add_mset x (mset (ll_ssts l))" for x l
    by (simp add: level_add_sst_def Let_def) (metis append_take_drop_id mset_append)
  show ?thesis by (induction ss arbitrary: l) (simp_all add: one)
qed

lemma add_ssts_ok:
  "i < length (lt_levels t) \<Longrightarrow> add_ssts i ss t = Some (t\<lparr>lt_levels := (lt_levels t)[i := fold level_add_sst ss (lt_levels t ! i)]\<rparr>)"
  by (induction ss arbitrary: t) (simp_all add: tree_add_sst_def tree_level_def)

lemma remove_ssts_ok:
  "i < length (lt_levels t) \<Longrightarrow> ll_ssts (lt_levels t ! i) = ss @ rest
   \<Longrightarrow> remove_ssts i (map sm_sst_id ss) t = Some (t\<lparr>lt_levels := (lt_levels t)[i := (lt_levels t ! i)\<lparr>ll_ssts := rest\<rparr>]\<rparr>)"
proof (induction ss arbitrary: t)
  case Nil
  then have "(lt_levels t ! i)\<lparr>ll_ssts := rest\<rparr> = lt_levels t ! i" by (cases "lt_levels t ! i") simp
  then show ?case by simp
next
  case (Cons s ss)
  let ?t = "t\<lparr>lt_levels := (lt_levels t)[i := (lt_levels t ! i)\<lparr>ll_ssts := ss @ rest\<rparr>]\<rparr>"
  have "tree_remove_sst i (sm_sst_id s) t = Some (Some s, ?t)"
    using Cons.prems by (simp add: tree_remove_sst_def tree_level_def level_remove_sst_def)
  then show ?case using Cons.IH [of ?t] Cons.prems by simp
qed

section \<open>Building the output files\<close>

text \<open>The metadata of a file describe its entries.\<close>

definition describes :: "nat \<Rightarrow> sst_metadata \<Rightarrow> versioned_entry list \<Rightarrow> bool" where
  "describes lvl s g \<longleftrightarrow> g \<noteq> [] \<and> sm_level s = lvl \<and> sm_min_key s = ve_key (hd g) \<and> sm_max_key s = ve_key (last g)
     \<and> sm_row_count s = word_of_nat (length g) \<and> sm_size_bytes s = sum_list (map entry_size g)"

lemma build_sst_ok: "g \<noteq> [] \<Longrightarrow> \<exists>md bloom. build_sst h dims lvl sid g = Some (md, bloom) \<and> describes lvl md g \<and> sm_sst_id md = sid"
proof -
  assume g: "g \<noteq> []"
  obtain m k where mk: "dims lvl (length g) = (m, k)" by fastforce
  obtain f where "bloom_insert_all h (map ve_key g) (bloom_new m k) = Some f"
    using bloom_insert_all_ok [OF bloom_new_sound, of h "map ve_key g" m k] by blast
  then show ?thesis using g mk by (simp add: build_sst_def sbf_build_def describes_def)
qed

lemma build_ssts_ok:
  "[] \<notin> set gs \<Longrightarrow> \<exists>outs cp'. build_ssts h dims lvl gs cp = Some (outs, cp') \<and> map (snd \<circ> snd) outs = gs
    \<and> list_all2 (describes lvl) (map fst outs) gs \<and> map (sm_sst_id \<circ> fst) outs = map (\<lambda>j. cp_next_sst_id cp + word_of_nat j) [0..<length gs]
    \<and> cp' = cp\<lparr>cp_next_sst_id := cp_next_sst_id cp + word_of_nat (length gs)\<rparr>"
proof (induction gs arbitrary: cp)
  case Nil
  then show ?case by simp
next
  case (Cons g gs)
  let ?cp = "cp\<lparr>cp_next_sst_id := cp_next_sst_id cp + 1\<rparr>"
  obtain md bloom where b: "build_sst h dims lvl (cp_next_sst_id cp) g = Some (md, bloom)" "describes lvl md g" "sm_sst_id md = cp_next_sst_id cp"
    using build_sst_ok [of g h dims lvl "cp_next_sst_id cp"] Cons.prems by auto
  obtain outs cp' where o: "build_ssts h dims lvl gs ?cp = Some (outs, cp')" "map (snd \<circ> snd) outs = gs" "list_all2 (describes lvl) (map fst outs) gs"
    "map (sm_sst_id \<circ> fst) outs = map (\<lambda>j. cp_next_sst_id ?cp + word_of_nat j) [0..<length gs]"
    "cp' = ?cp\<lparr>cp_next_sst_id := cp_next_sst_id ?cp + word_of_nat (length gs)\<rparr>"
    using Cons.IH [of ?cp] Cons.prems by (metis list.set_intros(2))
  have "map (\<lambda>j. cp_next_sst_id cp + word_of_nat j) [0..<length (g # gs)] = cp_next_sst_id cp # map (\<lambda>j. cp_next_sst_id ?cp + word_of_nat j) [0..<length gs]"
    by (simp add: upt_conv_Cons map_Suc_upt [symmetric] add.assoc del: upt_Suc)
  moreover have "build_ssts h dims lvl (g # gs) cp = Some ((md, bloom, g) # outs, cp')"
    using Cons.prems b(1) o(1) by (auto simp: allocate_sst_id_def)
  ultimately show ?case using b(2,3) o(2-5) unfolding comp_def
    by (intro exI [of _ "(md, bloom, g) # outs"] exI [of _ cp']) (simp add: add.assoc)
qed

section \<open>A compaction\<close>

lemma lsm_compact_ok:
  assumes "target_level_of i < length (lt_levels t)"
  shows "\<exists>merged out cp'. collect_all (new_merge_iterator runs) = Some merged \<and> mset merged = mset (concat runs)
    \<and> lsm_compact h dims i runs gc t cp
      = Some (out, t\<lparr>lt_levels := (lt_levels t)[target_level_of i := fold level_add_sst (lo_new_ssts out) (lt_levels t ! target_level_of i)]\<rparr>, cp')
    \<and> lo_sst_entries out = split_into_ssts cp (gc_apply gc merged) \<and> list_all2 (describes (target_level_of i)) (lo_new_ssts out) (lo_sst_entries out)
    \<and> map sm_sst_id (lo_new_ssts out) = map (\<lambda>j. cp_next_sst_id cp + word_of_nat j) [0..<length (lo_sst_entries out)]
    \<and> lo_total_entries out = length (gc_apply gc merged) \<and> lo_total_entries out + lo_gc_discarded out = length (concat runs)
    \<and> cp_trigger cp' = cp_trigger cp \<and> cp_config cp' = cp_config cp"
proof -
  obtain merged where m: "collect_all (new_merge_iterator runs) = Some merged" "mset merged = mset (concat runs)" using merge_runs by blast
  let ?res = "gc_apply gc merged" and ?gs = "split_into_ssts cp (gc_apply gc merged)"
  obtain outs cp' where o: "build_ssts h dims (target_level_of i) ?gs cp = Some (outs, cp')" "map (snd \<circ> snd) outs = ?gs"
    "list_all2 (describes (target_level_of i)) (map fst outs) ?gs" "map (sm_sst_id \<circ> fst) outs = map (\<lambda>j. cp_next_sst_id cp + word_of_nat j) [0..<length ?gs]"
    "cp' = cp\<lparr>cp_next_sst_id := cp_next_sst_id cp + word_of_nat (length ?gs)\<rparr>"
    using build_ssts_ok [of ?gs h dims "target_level_of i" cp] split_into_ssts_concat by blast
  define out where "out = \<lparr>lo_new_ssts = map fst outs, lo_bloom_filters = map (fst \<circ> snd) outs, lo_sst_entries = map (snd \<circ> snd) outs,
     lo_total_entries = length ?res, lo_gc_discarded = sum_list (map length runs) - length ?res\<rparr>"
  have "length ?res \<le> length merged" using list_emb_length [OF subseq_gc_loop] by (simp add: gc_apply_def)
  moreover have "length merged = length (concat runs)" using m(2) by (metis size_mset)
  ultimately have "lo_total_entries out + lo_gc_discarded out = length (concat runs)" by (simp add: out_def length_concat)
  moreover have "lsm_compact h dims i runs gc t cp
      = Some (out, t\<lparr>lt_levels := (lt_levels t)[target_level_of i := fold level_add_sst (lo_new_ssts out) (lt_levels t ! target_level_of i)]\<rparr>, cp')"
    using m(1) o(1) add_ssts_ok [OF assms] by (simp add: lsm_compact_def Let_def out_def)
  ultimately show ?thesis using m o(2-5)
    by (intro exI [of _ merged] exI [of _ out] exI [of _ cp']) (simp add: out_def)
qed

lemma check_levels_some: "check_levels c t is = Some (Some i) \<Longrightarrow> i \<in> set is \<and> i < length (lt_levels t) \<and> ll_ssts (lt_levels t ! i) \<noteq> []"
  by (induction "is") (auto simp: tree_level_def total_size_bytes_def Let_def bind_eq_Some_conv split: if_splits)

lemma trigger_check_some:
  "trigger_check c t = Some (Some i) \<Longrightarrow> 0 < effective_l0_threshold c \<Longrightarrow> i < BOTTOM_LEVEL \<and> i < length (lt_levels t) \<and> ll_ssts (lt_levels t ! i) \<noteq> []"
  using check_levels_some [of c t "[1..<BOTTOM_LEVEL]" i]
  by (auto simp: trigger_check_def tree_level_def file_count_def BOTTOM_LEVEL_def split: if_splits)

lemma maybe_compact_ok:
  fixes get :: "u64 list \<Rightarrow> versioned_entry list list"
  assumes "length (lt_levels t) = NUM_LEVELS" and "0 < effective_l0_threshold (cp_trigger cp)" and "trigger_check (cp_trigger cp) t = Some (Some i)"
  defines "l \<equiv> lt_levels t ! i" and "runs \<equiv> get (map sm_sst_id (ll_ssts (lt_levels t ! i)))"
  shows "\<exists>merged out cp'. collect_all (new_merge_iterator runs) = Some merged \<and> mset merged = mset (concat runs)
    \<and> lsm_maybe_compact h dims gc get t cp
      = Some (Some out, t\<lparr>lt_levels := (lt_levels t)[i := l\<lparr>ll_ssts := []\<rparr>, i + 1 := fold level_add_sst (lo_new_ssts out) (lt_levels t ! (i + 1))]\<rparr>, cp')
    \<and> lo_sst_entries out = split_into_ssts cp (gc_apply gc merged) \<and> list_all2 (describes (i + 1)) (lo_new_ssts out) (lo_sst_entries out)
    \<and> map sm_sst_id (lo_new_ssts out) = map (\<lambda>j. cp_next_sst_id cp + word_of_nat j) [0..<length (lo_sst_entries out)]
    \<and> lo_total_entries out = length (gc_apply gc merged) \<and> lo_total_entries out + lo_gc_discarded out = length (concat runs)
    \<and> cp_trigger cp' = cp_trigger cp \<and> cp_config cp' = cp_config cp"
proof -
  have i: "i < BOTTOM_LEVEL" "i < length (lt_levels t)" "ll_ssts l \<noteq> []" using trigger_check_some assms(2,3) by (auto simp: l_def)
  let ?t = "t\<lparr>lt_levels := (lt_levels t)[i := l\<lparr>ll_ssts := []\<rparr>]\<rparr>"
  have rm: "remove_ssts i (map sm_sst_id (ll_ssts l)) t = Some ?t" using remove_ssts_ok [OF i(2), of "ll_ssts l" "[]"] by (simp add: l_def)
  have tg: "target_level_of i = i + 1" "target_level_of i < length (lt_levels ?t)" using i(1) assms(1) by (simp_all add: target_level_of_def BOTTOM_LEVEL_def NUM_LEVELS_def)
  obtain merged out cp' where o: "collect_all (new_merge_iterator runs) = Some merged" "mset merged = mset (concat runs)"
    "lsm_compact h dims i runs gc ?t cp
      = Some (out, ?t\<lparr>lt_levels := (lt_levels ?t)[target_level_of i := fold level_add_sst (lo_new_ssts out) (lt_levels ?t ! target_level_of i)]\<rparr>, cp')"
    "lo_sst_entries out = split_into_ssts cp (gc_apply gc merged)" "list_all2 (describes (target_level_of i)) (lo_new_ssts out) (lo_sst_entries out)"
    "map sm_sst_id (lo_new_ssts out) = map (\<lambda>j. cp_next_sst_id cp + word_of_nat j) [0..<length (lo_sst_entries out)]"
    "lo_total_entries out = length (gc_apply gc merged)" "lo_total_entries out + lo_gc_discarded out = length (concat runs)"
    "cp_trigger cp' = cp_trigger cp" "cp_config cp' = cp_config cp"
    using lsm_compact_ok [OF tg(2), of runs h dims gc cp] by blast
  have "lsm_maybe_compact h dims gc get t cp
      = Some (Some out, t\<lparr>lt_levels := (lt_levels t)[i := l\<lparr>ll_ssts := []\<rparr>, i + 1 := fold level_add_sst (lo_new_ssts out) (lt_levels t ! (i + 1))]\<rparr>, cp')"
    using assms(3) i rm o(3) by (simp add: lsm_maybe_compact_def tree_level_def l_def runs_def tg(1))
  then show ?thesis using o(1,2,4-) unfolding tg(1) by blast
qed

section \<open>The properties\<close>

lemma describes_bounds:
  assumes "describes lvl s g" and "sorted (map ve_key g)" and "e \<in> set g"
  shows "sm_overlaps s (ve_key e) (ve_key e)"
proof -
  obtain j where j: "j < length g" "e = g ! j" using assms(3) by (auto simp: in_set_conv_nth)
  have "g \<noteq> []" using assms(3) by auto
  then have "hd g = g ! 0" "last g = g ! (length g - 1)" by (simp_all add: hd_conv_nth last_conv_nth)
  moreover have "ve_key (g ! 0) \<le> ve_key e" "ve_key e \<le> ve_key (g ! (length g - 1))"
    using sorted_nth_mono [OF assms(2), of 0 j] sorted_nth_mono [OF assms(2), of j "length g - 1"] j \<open>g \<noteq> []\<close> by auto
  ultimately show ?thesis using assms(1) by (simp add: describes_def sm_overlaps_def)
qed

lemma sorted_concat_part: "sorted_wrt P (concat gs) \<Longrightarrow> g \<in> set gs \<Longrightarrow> sorted_wrt P g"
  by (induction gs) (auto simp: sorted_wrt_append)

lemma subseq_sum_le: "subseq xs ys \<Longrightarrow> sum_list (map f xs) \<le> sum_list (map f ys)" for f :: "'a \<Rightarrow> nat"
  by (induction rule: list_emb.induct) auto

lemma split_sizes:
  assumes "mset merged = mset (concat runs)" and "sum_list (map nat_size (concat runs)) < 2 ^ 64"
  shows "\<forall>g \<in> set (split_into_ssts cp (gc_apply gc merged)). group_ok (cc_sst_size_bytes (cp_config cp)) g"
proof -
  have "sum_list (map nat_size merged) = sum_list (map nat_size (concat runs))" using assms(1) by (metis mset_map sum_mset_sum_list)
  moreover have "sum_list (map nat_size (gc_apply gc merged)) \<le> sum_list (map nat_size merged)"
    using subseq_sum_le [OF subseq_gc_loop] by (simp add: gc_apply_def)
  ultimately show ?thesis
    using sst_split_ok [of "[]" "cc_sst_size_bytes (cp_config cp)" "gc_apply gc merged"] assms(2) by (simp add: split_into_ssts_def)
qed

text \<open>
  C25: A compaction cycle moves a level into the next. When the trigger names a level, \<open>maybe_compact\<close>
  empties it, adds the new files to the next level, which stays sorted by smallest key and loses
  no file, and changes no other level. The new files hold, in key order and without empty
  files, of every key the versions that the collection keeps; every file stays within the size limit
  unless a single entry exceeds it; every entry lies in the key range recorded for its file.
\<close>

theorem lsm_compaction_correct:
  assumes "length (lt_levels t) = NUM_LEVELS" and "\<forall>l \<in> set (lt_levels t). level_sorted l"
    and "0 < effective_l0_threshold (cp_trigger cp)" and "trigger_check (cp_trigger cp) t = Some (Some i)"
    and "\<forall>run \<in> set (get (map sm_sst_id (ll_ssts (lt_levels t ! i)))). sorted_wrt ve_le run"
    and "sum_list (map nat_size (concat (get (map sm_sst_id (ll_ssts (lt_levels t ! i)))))) < 2 ^ 64"
  shows "\<exists>merged out t' cp'. collect_all (new_merge_iterator (get (map sm_sst_id (ll_ssts (lt_levels t ! i))))) = Some merged
    \<and> lsm_maybe_compact h dims gc get t cp = Some (Some out, t', cp')
    \<and> length (lt_levels t') = NUM_LEVELS \<and> (\<forall>l \<in> set (lt_levels t'). level_sorted l)
    \<and> ll_ssts (lt_levels t' ! i) = [] \<and> mset (ll_ssts (lt_levels t' ! (i + 1))) = mset (lo_new_ssts out) + mset (ll_ssts (lt_levels t ! (i + 1)))
    \<and> (\<forall>j. j \<noteq> i \<and> j \<noteq> i + 1 \<longrightarrow> lt_levels t' ! j = lt_levels t ! j)
    \<and> sorted_wrt ve_le (concat (lo_sst_entries out))
    \<and> (\<forall>k. versions_in k (concat (lo_sst_entries out)) = kept_versions gc (versions_in k merged))
    \<and> (\<forall>g \<in> set (lo_sst_entries out). group_ok (cc_sst_size_bytes (cp_config cp)) g)
    \<and> list_all2 (\<lambda>s g. \<forall>e \<in> set g. sm_overlaps s (ve_key e) (ve_key e)) (lo_new_ssts out) (lo_sst_entries out)"
proof -
  let ?runs = "get (map sm_sst_id (ll_ssts (lt_levels t ! i)))"
  have i: "i < BOTTOM_LEVEL" using trigger_check_some assms(3,4) by blast
  then have len: "i < length (lt_levels t)" "i + 1 < length (lt_levels t)" using assms(1) by (simp_all add: BOTTOM_LEVEL_def NUM_LEVELS_def)
  obtain merged out cp' where o: "collect_all (new_merge_iterator ?runs) = Some merged" "mset merged = mset (concat ?runs)"
    "lsm_maybe_compact h dims gc get t cp = Some (Some out, t\<lparr>lt_levels := (lt_levels t)[i := (lt_levels t ! i)\<lparr>ll_ssts := []\<rparr>,
        i + 1 := fold level_add_sst (lo_new_ssts out) (lt_levels t ! (i + 1))]\<rparr>, cp')"
    "lo_sst_entries out = split_into_ssts cp (gc_apply gc merged)" "list_all2 (describes (i + 1)) (lo_new_ssts out) (lo_sst_entries out)"
    using maybe_compact_ok [OF assms(1,3,4), of get h dims gc] by blast
  define t' where "t' = t\<lparr>lt_levels := (lt_levels t)[i := (lt_levels t ! i)\<lparr>ll_ssts := []\<rparr>,
        i + 1 := fold level_add_sst (lo_new_ssts out) (lt_levels t ! (i + 1))]\<rparr>"
  have srt: "sorted_wrt ve_le merged" by (rule merge_runs_sorted [OF assms(5) o(1)])
  have cat: "concat (lo_sst_entries out) = gc_apply gc merged" using o(4) split_into_ssts_concat by simp
  have tgt: "level_sorted (fold level_add_sst (lo_new_ssts out) (lt_levels t ! (i + 1)))" using fold_level_add_sst assms(2) len(2) by simp
  have lv: "\<forall>l \<in> set (lt_levels t'). level_sorted l"
    using tgt assms(2) by (auto simp: t'_def level_sorted_def dest!: set_update_subset_insert [THEN subsetD])
  have grp: "\<forall>g \<in> set (lo_sst_entries out). group_ok (cc_sst_size_bytes (cp_config cp)) g"
    unfolding o(4) by (rule split_sizes [OF o(2) assms(6)])
  have "list_all2 (\<lambda>s g. \<forall>e \<in> set g. sm_overlaps s (ve_key e) (ve_key e)) (lo_new_ssts out) (lo_sst_entries out)"
  proof (rule list_all2_all_nthI)
    fix n assume n: "n < length (lo_new_ssts out)"
    have l: "length (lo_sst_entries out) = length (lo_new_ssts out)" using o(5) list_all2_lengthD by metis
    have "sorted_wrt ve_le (concat (lo_sst_entries out))" using cat sorted_gc_apply [OF srt] by simp
    then have "sorted (map ve_key (lo_sst_entries out ! n))" using sorted_keys [OF sorted_concat_part] n l by simp
    then show "\<forall>e \<in> set (lo_sst_entries out ! n). sm_overlaps (lo_new_ssts out ! n) (ve_key e) (ve_key e)"
      using describes_bounds [OF list_all2_nthD [OF o(5) n]] by blast
  qed (use o(5) list_all2_lengthD in blast)
  then show ?thesis using o(1,3) lv grp len srt sorted_gc_apply [OF srt, of gc] versions_in_gc [OF srt, of _ gc] assms(1)
    by (intro exI [of _ merged] exI [of _ out] exI [of _ t'] exI [of _ cp']) (simp add: t'_def cat mset_fold_level_add)
qed

definition demo_file :: "u64 \<Rightarrow> sst_metadata" where
  "demo_file i = \<lparr>sm_sst_id = i, sm_level = 0, sm_min_key = [1], sm_max_key = [2], sm_size_bytes = 100, sm_row_count = 2\<rparr>"

definition demo_tree :: lsm_tree where
  "demo_tree = new_lsm_tree\<lparr>lt_levels := (lt_levels new_lsm_tree)[0 := \<lparr>ll_level = 0, ll_ssts = map demo_file [1, 2, 3, 4]\<rparr>]\<rparr>"

definition demo_compactor :: compactor where
  "demo_compactor = with_start_sst_id 9 (new_compactor new_compaction_config)"

lemma demo_levels: "lt_levels demo_tree = [\<lparr>ll_level = 0, ll_ssts = [demo_file 1, demo_file 2, demo_file 3, demo_file 4]\<rparr>,
    new_lsm_level 1, new_lsm_level 2, new_lsm_level 3, new_lsm_level 4]"
  by (simp add: demo_tree_def new_lsm_tree_def with_size_ratio_def NUM_LEVELS_def upt_rec numeral_eq_Suc)

lemma demo_hypotheses: "length (lt_levels demo_tree) = NUM_LEVELS" "\<forall>l \<in> set (lt_levels demo_tree). level_sorted l"
  "0 < effective_l0_threshold (cp_trigger demo_compactor)" "trigger_check (cp_trigger demo_compactor) demo_tree = Some (Some 0)"
  "\<forall>run \<in> set ((\<lambda>_. demo_runs) (map sm_sst_id (ll_ssts (lt_levels demo_tree ! 0)))). sorted_wrt ve_le run"
  "sum_list (map nat_size (concat ((\<lambda>_. demo_runs) (map sm_sst_id (ll_ssts (lt_levels demo_tree ! 0)))))) < 2 ^ 64"
  by (simp_all add: demo_levels NUM_LEVELS_def level_sorted_def demo_file_def new_lsm_level_def demo_compactor_def with_start_sst_id_def
      new_compactor_def new_compaction_config_def effective_l0_threshold_def trigger_with_l0_strategy_def trigger_with_thresholds_def
      L0_FILE_COUNT_THRESHOLD_def trigger_check_def tree_level_def file_count_def demo_runs_def ve_le_def nat_size_def)

theorem lsm_compaction_correct_witness:
  "trigger_check (cp_trigger demo_compactor) demo_tree = Some (Some 0)
   \<and> (\<exists>out t' cp'. lsm_maybe_compact (\<lambda>_. 0) (\<lambda>_ _. (64, 2)) (gc_with_pins (Some 5) []) (\<lambda>_. demo_runs) demo_tree demo_compactor = Some (Some out, t', cp')
    \<and> (\<forall>l \<in> set (lt_levels t'). level_sorted l) \<and> ll_ssts (lt_levels t' ! 0) = []
    \<and> mset (ll_ssts (lt_levels t' ! 1)) = mset (lo_new_ssts out) \<and> sorted_wrt ve_le (concat (lo_sst_entries out)))"
proof -
  have "ll_ssts (lt_levels demo_tree ! (0 + 1)) = []" by (simp add: demo_levels new_lsm_level_def)
  then show ?thesis using lsm_compaction_correct [OF demo_hypotheses, of "\<lambda>_. 0" "\<lambda>_ _. (64, 2)" "gc_with_pins (Some 5) []"] demo_hypotheses(4) by auto
qed

section \<open>Repeated cycles\<close>

lemma check_levels_total: "\<forall>i \<in> set is. i + 1 < length (lt_levels t) \<Longrightarrow> ct_size_ratio c \<noteq> 0 \<Longrightarrow> \<exists>r. check_levels c t is = Some r"
  by (induction "is") (auto simp: tree_level_def target_size_def Let_def)

lemma trigger_check_total:
  assumes "length (lt_levels t) = NUM_LEVELS" and "ct_size_ratio c \<noteq> 0"
  shows "\<exists>r. trigger_check c t = Some r"
  using check_levels_total [of "[1..<BOTTOM_LEVEL]" t c] assms
  by (auto simp: trigger_check_def tree_level_def NUM_LEVELS_def BOTTOM_LEVEL_def)

lemma check_levels_find:
  "\<forall>i \<in> set is. 0 < i \<and> i < BOTTOM_LEVEL \<and> i + 1 < length (lt_levels t) \<Longrightarrow> ct_size_ratio c \<noteq> 0
   \<Longrightarrow> check_levels c t is = Some (find (\<lambda>i. needs_compaction c t i = Some True) is)"
  by (induction "is") (auto simp: needs_compaction_def tree_level_def target_size_def Let_def word_gt_0)

text \<open>
  The two forms of the trigger agree: \<open>check\<close> names the first level above the bottom for which
  \<open>needs_compaction\<close> holds, and none when there is no such level.
\<close>

theorem trigger_check_first:
  assumes "length (lt_levels t) = NUM_LEVELS" and "ct_size_ratio c \<noteq> 0"
  shows "trigger_check c t = Some (find (\<lambda>i. needs_compaction c t i = Some True) [0..<BOTTOM_LEVEL])"
proof -
  have "check_levels c t [1..<BOTTOM_LEVEL] = Some (find (\<lambda>i. needs_compaction c t i = Some True) [1..<BOTTOM_LEVEL])"
    using assms by (intro check_levels_find) (simp_all add: NUM_LEVELS_def BOTTOM_LEVEL_def)
  moreover have "[0..<BOTTOM_LEVEL] = 0 # [1..<BOTTOM_LEVEL]" by (simp add: BOTTOM_LEVEL_def upt_rec)
  moreover have "needs_compaction c t 0 = Some True \<longleftrightarrow> file_count (lt_levels t ! 0) \<ge> effective_l0_threshold c"
    using assms(1) by (simp add: needs_compaction_def tree_level_def NUM_LEVELS_def)
  ultimately show ?thesis using assms(1) by (simp add: trigger_check_def tree_level_def NUM_LEVELS_def)
qed

theorem trigger_check_first_witness:
  "length (lt_levels demo_tree) = NUM_LEVELS \<and> ct_size_ratio new_trigger \<noteq> 0
   \<and> trigger_check new_trigger demo_tree = Some (find (\<lambda>i. needs_compaction new_trigger demo_tree i = Some True) [0..<BOTTOM_LEVEL])"
  using trigger_check_first [of demo_tree new_trigger] demo_hypotheses(1) by (simp add: new_trigger_def DEFAULT_SIZE_RATIO_def)

text \<open>The levels above the bottom that hold files, weighted.\<close>

definition weight :: "lsm_tree \<Rightarrow> nat" where
  "weight t = (\<Sum>j < BOTTOM_LEVEL. if ll_ssts (lt_levels t ! j) \<noteq> [] then 2 ^ (3 - j) else 0)"

lemma maybe_compact_weight:
  assumes "length (lt_levels t) = NUM_LEVELS" and "0 < effective_l0_threshold (cp_trigger cp)" and "ct_size_ratio (cp_trigger cp) \<noteq> 0"
  obtains "lsm_maybe_compact h dims gc get t cp = Some (None, t, cp)"
  | out t' cp' where "lsm_maybe_compact h dims gc get t cp = Some (Some out, t', cp')" "weight t' < weight t"
      "length (lt_levels t') = NUM_LEVELS" "cp_trigger cp' = cp_trigger cp"
proof -
  obtain r where r: "trigger_check (cp_trigger cp) t = Some r" using trigger_check_total [OF assms(1,3)] by blast
  show ?thesis
  proof (cases r)
    case None
    then show ?thesis using that(1) r by (simp add: lsm_maybe_compact_def)
  next
    case (Some i)
    then have c: "trigger_check (cp_trigger cp) t = Some (Some i)" using r by simp
    have i: "i < BOTTOM_LEVEL" "ll_ssts (lt_levels t ! i) \<noteq> []" using trigger_check_some [OF c assms(2)] by simp_all
    obtain out cp' where o: "lsm_maybe_compact h dims gc get t cp = Some (Some out, t\<lparr>lt_levels := (lt_levels t)[i := (lt_levels t ! i)\<lparr>ll_ssts := []\<rparr>,
          i + 1 := fold level_add_sst (lo_new_ssts out) (lt_levels t ! (i + 1))]\<rparr>, cp')" "cp_trigger cp' = cp_trigger cp"
      using maybe_compact_ok [OF assms(1,2) c, of get h dims gc] by blast
    let ?ls = "(lt_levels t)[i := (lt_levels t ! i)\<lparr>ll_ssts := []\<rparr>, i + 1 := fold level_add_sst (lo_new_ssts out) (lt_levels t ! (i + 1))]"
    have "i = 0 \<or> i = 1 \<or> i = 2 \<or> i = 3" using i(1) by (auto simp: BOTTOM_LEVEL_def)
    then have "weight (t\<lparr>lt_levels := ?ls\<rparr>) < weight t"
      using i(2) assms(1) by (elim disjE) (simp_all add: weight_def BOTTOM_LEVEL_def NUM_LEVELS_def lessThan_Suc numeral_eq_Suc)
    then show ?thesis using that(2) o assms(1) by simp
  qed
qed

fun compact_rounds ::
  "(bytes \<Rightarrow> u64) \<Rightarrow> (nat \<Rightarrow> nat \<Rightarrow> u64 \<times> u32) \<Rightarrow> gc_context \<Rightarrow> (u64 list \<Rightarrow> versioned_entry list list) \<Rightarrow> nat \<Rightarrow> lsm_tree \<Rightarrow> compactor
   \<Rightarrow> (lsm_tree \<times> compactor) option" where
  "compact_rounds h dims gc get 0 t cp = Some (t, cp)"
| "compact_rounds h dims gc get (Suc n) t cp =
     Option.bind (lsm_maybe_compact h dims gc get t cp) (\<lambda>(_, t, cp). compact_rounds h dims gc get n t cp)"

lemma rounds_settle:
  assumes "length (lt_levels t) = NUM_LEVELS" and "0 < effective_l0_threshold (cp_trigger cp)" and "ct_size_ratio (cp_trigger cp) \<noteq> 0"
  shows "\<exists>n \<le> weight t. \<exists>t' cp'. compact_rounds h dims gc get n t cp = Some (t', cp') \<and> lsm_maybe_compact h dims gc get t' cp' = Some (None, t', cp')"
  using assms
proof (induction "weight t" arbitrary: t cp rule: less_induct)
  case less
  from less.prems show ?case
  proof (cases rule: maybe_compact_weight [where h = h and dims = dims and gc = gc and get = get])
    case 1
    then show ?thesis by (intro exI [of _ 0]) simp
  next
    case (2 out t' cp')
    then obtain n t'' cp'' where n: "n \<le> weight t'" "compact_rounds h dims gc get n t' cp' = Some (t'', cp'')"
      "lsm_maybe_compact h dims gc get t'' cp'' = Some (None, t'', cp'')"
      using less.hyps [of t' cp'] less.prems by auto
    then show ?thesis using 2 by (intro exI [of _ "Suc n"]) auto
  qed
qed

text \<open>
  C24: Compaction settles. On any tree of five levels, whatever data the files hold, at most fifteen
  calls of \<open>maybe_compact\<close> without a flush in between leave a tree that needs no compaction;
  none of them panics while the size ratio is not zero.
\<close>

theorem lsm_compaction_settles:
  assumes "length (lt_levels t) = NUM_LEVELS" and "0 < effective_l0_threshold (cp_trigger cp)" and "ct_size_ratio (cp_trigger cp) \<noteq> 0"
  shows "\<exists>n \<le> 15. \<exists>t' cp'. compact_rounds h dims gc get n t cp = Some (t', cp') \<and> lsm_maybe_compact h dims gc get t' cp' = Some (None, t', cp')"
proof -
  have "weight t \<le> 15" by (simp add: weight_def BOTTOM_LEVEL_def lessThan_Suc numeral_eq_Suc)
  then show ?thesis using rounds_settle [OF assms, of h dims gc get] le_trans by blast
qed

theorem lsm_compaction_settles_witness:
  "length (lt_levels demo_tree) = NUM_LEVELS \<and> ct_size_ratio (cp_trigger demo_compactor) \<noteq> 0 \<and>
   (\<exists>n \<le> 15. \<exists>t' cp'. compact_rounds (\<lambda>_. 0) (\<lambda>_ _. (64, 2)) new_gc_context (\<lambda>_. demo_runs) n demo_tree demo_compactor = Some (t', cp')
     \<and> lsm_maybe_compact (\<lambda>_. 0) (\<lambda>_ _. (64, 2)) new_gc_context (\<lambda>_. demo_runs) t' cp' = Some (None, t', cp'))"
proof -
  have "ct_size_ratio (cp_trigger demo_compactor) \<noteq> 0"
    by (simp add: demo_compactor_def with_start_sst_id_def new_compactor_def new_compaction_config_def trigger_with_l0_strategy_def
        trigger_with_thresholds_def DEFAULT_SIZE_RATIO_def)
  then show ?thesis using lsm_compaction_settles [OF demo_hypotheses(1,3)] demo_hypotheses(1) by blast
qed

text \<open>
  The bottom level is not a single sorted run. A compaction of the level above it adds its files
  beside the files of the bottom level whose key ranges they overlap, and no trigger ever names
  the bottom level, so the overlapping files are never merged.
\<close>

theorem bottom_level_overlaps:
  assumes "length (lt_levels t) = NUM_LEVELS" and "\<forall>run \<in> set runs. sorted_wrt ve_le run" and "e \<in> set (concat runs)"
    and "s \<in> set (ll_ssts (lt_levels t ! 4))" and "sm_overlaps s (ve_key e) (ve_key e)"
  shows "\<exists>out t' cp'. lsm_compact h dims 3 runs gc t cp = Some (out, t', cp')
    \<and> length (overlapping_ssts (ve_key e) (ve_key e) (lt_levels t' ! 4)) \<ge> 2
    \<and> trigger_check c t' \<noteq> Some (Some 4) \<and> needs_compaction c t' 4 = Some False"
proof -
  have tg: "target_level_of 3 = 4" "target_level_of 3 < length (lt_levels t)" using assms(1) by (simp_all add: target_level_of_def BOTTOM_LEVEL_def NUM_LEVELS_def)
  let ?t = "\<lambda>out. t\<lparr>lt_levels := (lt_levels t)[4 := fold level_add_sst (lo_new_ssts out) (lt_levels t ! 4)]\<rparr>"
  obtain merged out cp' where o: "collect_all (new_merge_iterator runs) = Some merged" "mset merged = mset (concat runs)"
    "lsm_compact h dims 3 runs gc t cp = Some (out, ?t out, cp')" "lo_sst_entries out = split_into_ssts cp (gc_apply gc merged)"
    "list_all2 (describes 4) (lo_new_ssts out) (lo_sst_entries out)"
    using lsm_compact_ok [OF tg(2), of runs h dims gc cp] unfolding tg(1) by blast
  have srt: "sorted_wrt ve_le merged" by (rule merge_runs_sorted [OF assms(2) o(1)])
  have cat: "concat (lo_sst_entries out) = gc_apply gc merged" unfolding o(4) using split_into_ssts_concat by simp
  let ?P = "\<lambda>s. sm_overlaps s (ve_key e) (ve_key e)"
  have "e \<in> set merged" using assms(3) o(2) by (metis set_mset_mset)
  then have "versions_in (ve_key e) (gc_apply gc merged) \<noteq> []"
    unfolding versions_in_gc [OF srt] by (cases "versions_in (ve_key e) merged") (auto simp: versions_in_def filter_empty_conv)
  then obtain x where x: "x \<in> set (concat (lo_sst_entries out))" "ve_key x = ve_key e" unfolding cat by (auto simp: versions_in_def filter_empty_conv)
  then obtain g where g: "g \<in> set (lo_sst_entries out)" "x \<in> set g" by auto
  then obtain n where n: "n < length (lo_sst_entries out)" "g = lo_sst_entries out ! n" by (auto simp: in_set_conv_nth)
  have len: "length (lo_new_ssts out) = length (lo_sst_entries out)" using o(5) by (rule list_all2_lengthD)
  have "sorted_wrt ve_le g" using sorted_concat_part g(1) sorted_gc_apply [OF srt, of gc] unfolding cat [symmetric] by blast
  then have new: "lo_new_ssts out ! n \<in> set (lo_new_ssts out)" "?P (lo_new_ssts out ! n)"
    using describes_bounds [OF list_all2_nthD [OF o(5), of n], of x] sorted_keys g(2) n len x(2) by simp_all
  have pos: "0 < length (filter ?P xs)" if "y \<in> set xs" "?P y" for y xs using that by (auto simp: filter_empty_conv)
  have "mset (filter ?P (ll_ssts (lt_levels (?t out) ! 4))) = mset (filter ?P (lo_new_ssts out)) + mset (filter ?P (ll_ssts (lt_levels t ! 4)))"
    using tg by (simp add: mset_fold_level_add)
  then have "length (filter ?P (ll_ssts (lt_levels (?t out) ! 4))) = length (filter ?P (lo_new_ssts out)) + length (filter ?P (ll_ssts (lt_levels t ! 4)))"
    by (metis size_mset size_union)
  then have two: "length (overlapping_ssts (ve_key e) (ve_key e) (lt_levels (?t out) ! 4)) \<ge> 2"
    unfolding overlapping_ssts_def using pos [OF new] pos [OF assms(4,5)] by linarith
  have "trigger_check c (?t out) \<noteq> Some (Some 4)" using check_levels_some [of c "?t out" "[1..<BOTTOM_LEVEL]" 4]
    by (auto simp: trigger_check_def BOTTOM_LEVEL_def bind_eq_Some_conv split: if_splits)
  then show ?thesis using o(3) two
    by (intro exI [of _ out] exI [of _ "?t out"] exI [of _ cp']) (simp add: needs_compaction_def BOTTOM_LEVEL_def)
qed

definition demo_full_tree :: lsm_tree where
  "demo_full_tree = new_lsm_tree\<lparr>lt_levels := (lt_levels new_lsm_tree)[4 := \<lparr>ll_level = 4, ll_ssts = [demo_file 1]\<rparr>]\<rparr>"

theorem bottom_level_overlaps_witness:
  "sm_overlaps (demo_file 1) [1] [1] \<and>
   (\<exists>out t' cp'. lsm_compact (\<lambda>_. 0) (\<lambda>_ _. (64, 2)) 3 demo_runs new_gc_context demo_full_tree demo_compactor = Some (out, t', cp')
    \<and> length (overlapping_ssts [1] [1] (lt_levels t' ! 4)) \<ge> 2
    \<and> trigger_check new_trigger t' \<noteq> Some (Some 4) \<and> needs_compaction new_trigger t' 4 = Some False)"
proof -
  let ?e = "\<lparr>ve_key = [1], ve_timestamp = 5, ve_value = Some [8]\<rparr> :: versioned_entry"
  have l: "length (lt_levels demo_full_tree) = NUM_LEVELS" "demo_file 1 \<in> set (ll_ssts (lt_levels demo_full_tree ! 4))"
    by (simp_all add: demo_full_tree_def new_lsm_tree_def with_size_ratio_def NUM_LEVELS_def)
  have o: "sm_overlaps (demo_file 1) (ve_key ?e) (ve_key ?e)" by (simp add: demo_file_def sm_overlaps_def)
  have e: "?e \<in> set (concat demo_runs)" "\<forall>run \<in> set demo_runs. sorted_wrt ve_le run" by (simp_all add: demo_runs_def ve_le_def)
  show ?thesis
    using bottom_level_overlaps [OF l(1) e(2,1) l(2) o, of "\<lambda>_. 0" "\<lambda>_ _. (64, 2)" new_gc_context demo_compactor new_trigger] o by simp
qed

end
