(* ===== verification/TxnManager.thy ===== *)
theory TxnManager
  imports Format OrdMap
begin

text \<open>
  The transaction manager (\<open>galaxdb-sql/src/transaction.rs\<close>): timestamps, active snapshots, write
  locks, and the commit-time certifier of serializable transactions. Each operation is given as a
  whole and as the steps between which other threads can run, at the granularity of the
  locks and of the atomic counter.
\<close>

section \<open>Operations\<close>

record txn_manager =
  tm_next_timestamp :: u64
  active_snapshots :: "u64 set"
  write_locks :: "bytes \<rightharpoonup> u64"
  committed_writes :: "(u64 \<times> bytes list) list"

record txn_snapshot =
  read_timestamp :: u64
  write_set :: "(bytes \<times> u64) list"

definition tm_with_start_timestamp :: "u64 \<Rightarrow> txn_manager" where
  "tm_with_start_timestamp start =
     \<lparr>tm_next_timestamp = start, active_snapshots = {}, write_locks = Map.empty, committed_writes = []\<rparr>"

definition tm_new :: txn_manager where
  "tm_new = \<lparr>tm_next_timestamp = 1, active_snapshots = {}, write_locks = Map.empty, committed_writes = []\<rparr>"

definition tm_oldest_active :: "txn_manager \<Rightarrow> u64 option" where
  "tm_oldest_active m = (if active_snapshots m = {} then None else Some (Min (active_snapshots m)))"

definition active_snapshot_count :: "txn_manager \<Rightarrow> nat" where
  "active_snapshot_count m = card (active_snapshots m)"

definition current_timestamp :: "txn_manager \<Rightarrow> u64" where
  "current_timestamp m = tm_next_timestamp m"

definition release_write_locks :: "u64 \<Rightarrow> txn_manager \<Rightarrow> txn_manager" where
  "release_write_locks txn_ts m =
     m\<lparr>write_locks := (\<lambda>k. case write_locks m k of Some ts \<Rightarrow> (if ts \<noteq> txn_ts then Some ts else None) | None \<Rightarrow> None)\<rparr>"

definition begin_stamp :: "txn_manager \<Rightarrow> u64 \<times> txn_manager" where
  "begin_stamp m = (tm_next_timestamp m, m\<lparr>tm_next_timestamp := tm_next_timestamp m + 1\<rparr>)"

definition begin_register :: "u64 \<Rightarrow> txn_manager \<Rightarrow> txn_manager" where
  "begin_register read_ts m = m\<lparr>active_snapshots := insert read_ts (active_snapshots m)\<rparr>"

definition tm_begin :: "txn_manager \<Rightarrow> txn_snapshot \<times> txn_manager" where
  "tm_begin m =
     (let (read_ts, m) = begin_stamp m
      in (\<lparr>read_timestamp = read_ts, write_set = []\<rparr>, begin_register read_ts m))"

definition acquire_write_lock :: "bytes \<Rightarrow> u64 \<Rightarrow> txn_manager \<Rightarrow> (galax_error + unit) \<times> txn_manager" where
  "acquire_write_lock key txn_ts m =
     (case write_locks m key of
        Some existing_ts \<Rightarrow>
          if existing_ts \<noteq> txn_ts then (Inl WriteConflict, m)
          else (Inr (), m\<lparr>write_locks := (write_locks m)(key \<mapsto> txn_ts)\<rparr>)
      | None \<Rightarrow> (Inr (), m\<lparr>write_locks := (write_locks m)(key \<mapsto> txn_ts)\<rparr>))"

definition rw_conflict :: "u64 \<Rightarrow> bytes set \<Rightarrow> (u64 \<times> bytes list) list \<Rightarrow> bool" where
  "rw_conflict begin_ts read_keys committed \<longleftrightarrow>
     list_ex (\<lambda>(cts, wkeys). cts > begin_ts \<and> list_ex (\<lambda>k. k \<in> read_keys) wkeys) committed"

definition prune_committed :: "u64 option \<Rightarrow> (u64 \<times> bytes list) list \<Rightarrow> (u64 \<times> bytes list) list" where
  "prune_committed oldest committed =
     (case oldest of Some o' \<Rightarrow> filter (\<lambda>(cts, _). cts > o') committed | None \<Rightarrow> [])"

definition commit_serializable ::
  "u64 \<Rightarrow> bytes set \<Rightarrow> bytes list \<Rightarrow> bool \<Rightarrow> txn_manager \<Rightarrow> (galax_error + u64) \<times> txn_manager" where
  "commit_serializable begin_ts read_keys write_keys serializable m =
     (let committed = committed_writes m
      in if serializable \<and> rw_conflict begin_ts read_keys committed then (Inl WriteConflict, m)
         else let commit_ts = tm_next_timestamp m;
                  m = m\<lparr>tm_next_timestamp := tm_next_timestamp m + 1\<rparr>;
                  committed = (if write_keys \<noteq> [] then committed @ [(commit_ts, write_keys)] else committed);
                  m = m\<lparr>committed_writes := prune_committed (tm_oldest_active m) committed\<rparr>;
                  m = release_write_locks begin_ts m
              in (Inr commit_ts, m\<lparr>active_snapshots := active_snapshots m - {begin_ts}\<rparr>))"

definition tm_commit :: "txn_snapshot \<Rightarrow> txn_manager \<Rightarrow> u64 \<times> txn_manager" where
  "tm_commit s m =
     (let commit_ts = tm_next_timestamp m;
          m = m\<lparr>tm_next_timestamp := tm_next_timestamp m + 1\<rparr>;
          m = release_write_locks (read_timestamp s) m
      in (commit_ts, m\<lparr>active_snapshots := active_snapshots m - {read_timestamp s}\<rparr>))"

definition tm_abort :: "txn_snapshot \<Rightarrow> txn_manager \<Rightarrow> txn_manager" where
  "tm_abort s m =
     (let m = release_write_locks (read_timestamp s) m
      in m\<lparr>active_snapshots := active_snapshots m - {read_timestamp s}\<rparr>)"

definition is_visible :: "txn_snapshot \<Rightarrow> u64 \<Rightarrow> bool" where
  "is_visible s commit_ts \<longleftrightarrow> commit_ts \<le> read_timestamp s"

definition record_write :: "bytes \<Rightarrow> u64 \<Rightarrow> txn_snapshot \<Rightarrow> txn_snapshot" where
  "record_write key write_ts s = s\<lparr>write_set := write_set s @ [(key, write_ts)]\<rparr>"

section \<open>Steps\<close>

text \<open>A commit holds the lock of the committed writes while it checks them, takes its timestamp,
  records its keys and prunes; the other fields have locks of their own. So a thread can be
  interrupted between the timestamp and the pruning, which reads the active snapshots, and
  before it releases the write locks and drops its snapshot. The steps are the points where the
  order matters: the check and the push touch only the locked records, so a timestamp that another
  thread draws between them commutes, and the pruning acts on the snapshots as it read them.\<close>

definition commit_certify ::
  "u64 \<Rightarrow> bytes set \<Rightarrow> bytes list \<Rightarrow> bool \<Rightarrow> txn_manager \<Rightarrow> (galax_error + u64) \<times> txn_manager" where
  "commit_certify begin_ts read_keys write_keys serializable m =
     (if serializable \<and> rw_conflict begin_ts read_keys (committed_writes m) then (Inl WriteConflict, m)
      else let commit_ts = tm_next_timestamp m
           in (Inr commit_ts, m\<lparr>tm_next_timestamp := commit_ts + 1,
                 committed_writes := (if write_keys \<noteq> [] then committed_writes m @ [(commit_ts, write_keys)] else committed_writes m)\<rparr>))"

definition commit_prune :: "txn_manager \<Rightarrow> txn_manager" where
  "commit_prune m = m\<lparr>committed_writes := prune_committed (tm_oldest_active m) (committed_writes m)\<rparr>"

definition remove_snapshot :: "u64 \<Rightarrow> txn_manager \<Rightarrow> txn_manager" where
  "remove_snapshot ts m = m\<lparr>active_snapshots := active_snapshots m - {ts}\<rparr>"

lemma commit_serializable_steps:
  "commit_serializable b R W ser m =
     (case commit_certify b R W ser m of
        (Inl e, m) \<Rightarrow> (Inl e, m)
      | (Inr c, m) \<Rightarrow> (Inr c, remove_snapshot b (release_write_locks b (commit_prune m))))"
  by (simp add: commit_serializable_def commit_certify_def commit_prune_def remove_snapshot_def release_write_locks_def tm_oldest_active_def Let_def)

lemma tm_abort_steps: "tm_abort s m = remove_snapshot (read_timestamp s) (release_write_locks (read_timestamp s) m)"
  by (simp add: tm_abort_def remove_snapshot_def Let_def)

section \<open>Runs\<close>

text \<open>Any number of threads call \<open>begin\<close>, \<open>acquire_write_lock\<close>, \<open>commit_serializable\<close> and \<open>abort\<close>, with any
  arguments. A transaction is named by the timestamp of its begin. \<open>run_tasks\<close> is what the calls
  that are under way have still to do; the next task of a call is enabled by the one before,
  and a commit waits for the lock of the committed writes while another one has still to prune.

  Three fields are history. \<open>run_log\<close> lists the commits. \<open>run_waiting\<close> has the begins that took
  their timestamp and have not registered their snapshot, unless a commit has pruned since.
  \<open>run_covered\<close> has the transactions that registered without such an interruption and whose
  snapshot is still active.\<close>

datatype txn_task = TRegister u64 | TPrune u64 | TRelease u64 | TRemove u64

datatype txn_op = TBegin | TLock bytes u64 | TCommit u64 "bytes set" "bytes list" bool | TAbort u64 | TTask txn_task

record commit_entry =
  ce_commit :: u64
  ce_begin :: u64
  ce_reads :: "bytes set"
  ce_writes :: "bytes list"
  ce_serializable :: bool
  ce_covered :: bool

record txn_run_state =
  run_manager :: txn_manager
  run_tasks :: "txn_task list"
  run_log :: "commit_entry list"
  run_waiting :: "u64 set"
  run_covered :: "u64 set"

definition ring_locked :: "txn_run_state \<Rightarrow> bool" where
  "ring_locked s \<longleftrightarrow> list_ex (\<lambda>t. case t of TPrune _ \<Rightarrow> True | _ \<Rightarrow> False) (run_tasks s)"

fun run_task :: "txn_task \<Rightarrow> txn_run_state \<Rightarrow> txn_run_state" where
  "run_task (TRegister t) s =
     s\<lparr>run_manager := begin_register t (run_manager s), run_covered := run_covered s \<union> ({t} \<inter> run_waiting s), run_waiting := run_waiting s - {t}\<rparr>"
| "run_task (TPrune b) s =
     s\<lparr>run_manager := commit_prune (run_manager s), run_tasks := TRelease b # run_tasks s, run_waiting := {}\<rparr>"
| "run_task (TRelease b) s =
     s\<lparr>run_manager := release_write_locks b (run_manager s), run_tasks := TRemove b # run_tasks s\<rparr>"
| "run_task (TRemove b) s =
     s\<lparr>run_manager := remove_snapshot b (run_manager s), run_covered := run_covered s - {b}\<rparr>"

fun txn_step :: "txn_op \<Rightarrow> txn_run_state \<Rightarrow> txn_run_state" where
  "txn_step TBegin s =
     (let (t, m) = begin_stamp (run_manager s)
      in s\<lparr>run_manager := m, run_tasks := TRegister t # run_tasks s, run_waiting := insert t (run_waiting s)\<rparr>)"
| "txn_step (TLock k b) s = s\<lparr>run_manager := snd (acquire_write_lock k b (run_manager s))\<rparr>"
| "txn_step (TCommit b R W ser) s =
     (if ring_locked s then s
      else case commit_certify b R W ser (run_manager s) of
             (Inl _, m) \<Rightarrow> s\<lparr>run_manager := m\<rparr>
           | (Inr c, m) \<Rightarrow>
             s\<lparr>run_manager := m, run_tasks := TPrune b # run_tasks s,
               run_log := run_log s @ [\<lparr>ce_commit = c, ce_begin = b, ce_reads = R, ce_writes = W, ce_serializable = ser, ce_covered = (b \<in> run_covered s)\<rparr>]\<rparr>)"
| "txn_step (TAbort b) s = s\<lparr>run_tasks := TRelease b # run_tasks s\<rparr>"
| "txn_step (TTask t) s = (if t \<in> set (run_tasks s) then run_task t (s\<lparr>run_tasks := remove1 t (run_tasks s)\<rparr>) else s)"

definition txn_run_start :: txn_run_state where
  "txn_run_start = \<lparr>run_manager = tm_new, run_tasks = [], run_log = [], run_waiting = {}, run_covered = {}\<rparr>"

definition txn_run :: "txn_op list \<Rightarrow> txn_run_state" where
  "txn_run ops = fold txn_step ops txn_run_start"

section \<open>Soundness of the certifier\<close>

text \<open>Every commit that a covered or waiting transaction might still miss is on record.\<close>

definition txn_inv :: "nat \<Rightarrow> txn_run_state \<Rightarrow> bool" where
  "txn_inv n s \<longleftrightarrow> unat (tm_next_timestamp (run_manager s)) + n < 2 ^ 64
     \<and> run_covered s \<subseteq> active_snapshots (run_manager s) \<and> (\<forall>e \<in> set (run_log s). ce_commit e < tm_next_timestamp (run_manager s))
     \<and> (\<forall>e \<in> set (run_log s). \<forall>b \<in> run_covered s \<union> run_waiting s.
          b < ce_commit e \<and> ce_writes e \<noteq> [] \<longrightarrow> (ce_commit e, ce_writes e) \<in> set (committed_writes (run_manager s)))
     \<and> (\<forall>e \<in> set (run_log s). \<forall>e' \<in> set (run_log s). ce_serializable e' \<and> ce_covered e' \<and> ce_begin e' < ce_commit e \<and> ce_commit e < ce_commit e'
          \<longrightarrow> set (ce_writes e) \<inter> ce_reads e' = {})"

lemma txn_invD:
  assumes "txn_inv n s"
  shows "unat (tm_next_timestamp (run_manager s)) + n < 2 ^ 64" "run_covered s \<subseteq> active_snapshots (run_manager s)"
    "e \<in> set (run_log s) \<Longrightarrow> ce_commit e < tm_next_timestamp (run_manager s)"
    "e \<in> set (run_log s) \<Longrightarrow> b \<in> run_covered s \<union> run_waiting s \<Longrightarrow> b < ce_commit e \<Longrightarrow> ce_writes e \<noteq> []
      \<Longrightarrow> (ce_commit e, ce_writes e) \<in> set (committed_writes (run_manager s))"
    "e \<in> set (run_log s) \<Longrightarrow> e' \<in> set (run_log s) \<Longrightarrow> ce_serializable e' \<Longrightarrow> ce_covered e' \<Longrightarrow> ce_begin e' < ce_commit e \<Longrightarrow> ce_commit e < ce_commit e'
      \<Longrightarrow> set (ce_writes e) \<inter> ce_reads e' = {}"
  using assms unfolding txn_inv_def by blast+

lemma next_less: "unat (m :: u64) + Suc n < 2 ^ 64 \<Longrightarrow> m < m + 1 \<and> unat (m + 1) + n < 2 ^ 64"
  using unat_plus_nat [of m 1] by (simp add: word_less_nat_alt)

lemma txn_inv_mono: "txn_inv n s \<Longrightarrow> n' \<le> n \<Longrightarrow> txn_inv n' s"
  unfolding txn_inv_def by auto

text \<open>A step that takes no timestamp, forgets no record that is needed and covers nobody new.\<close>

lemma txn_inv_frame:
  assumes "txn_inv n s" and "tm_next_timestamp (run_manager s') = tm_next_timestamp (run_manager s)" and "run_log s' = run_log s"
    and "run_covered s' \<subseteq> active_snapshots (run_manager s')" and "run_covered s' \<union> run_waiting s' \<subseteq> run_covered s \<union> run_waiting s"
    and "\<And>b k w. b \<in> run_covered s' \<union> run_waiting s' \<Longrightarrow> b < k \<Longrightarrow> (k, w) \<in> set (committed_writes (run_manager s))
      \<Longrightarrow> (k, w) \<in> set (committed_writes (run_manager s'))"
  shows "txn_inv n s'"
proof -
  note I = txn_invD [OF assms(1)]
  show ?thesis unfolding txn_inv_def assms(2,3)
  proof (intro conjI ballI impI)
    show "unat (tm_next_timestamp (run_manager s)) + n < 2 ^ 64" by (rule I(1))
    show "run_covered s' \<subseteq> active_snapshots (run_manager s')" by (rule assms(4))
  next
    fix e b assume e: "e \<in> set (run_log s)" and b: "b \<in> run_covered s' \<union> run_waiting s'" and l: "b < ce_commit e \<and> ce_writes e \<noteq> []"
    then have "(ce_commit e, ce_writes e) \<in> set (committed_writes (run_manager s))" using I(4) [OF e, of b] assms(5) by blast
    then show "(ce_commit e, ce_writes e) \<in> set (committed_writes (run_manager s'))" using assms(6) [OF b] l by blast
  qed (use I(3,5) in blast)+
qed

lemma run_task_inv:
  assumes inv: "txn_inv n s"
  shows "txn_inv n (run_task t s)"
proof (cases t)
  case (TRegister ts)
  have "run_covered (run_task t s) \<subseteq> active_snapshots (run_manager (run_task t s))"
    using txn_invD(2) [OF inv] by (auto simp: TRegister begin_register_def)
  then show ?thesis by (intro txn_inv_frame [OF inv]) (auto simp: TRegister begin_register_def)
next
  case (TPrune b)
  have "(k, w) \<in> set (committed_writes (run_manager (run_task t s)))"
    if c: "b' \<in> run_covered s" "b' < k" "(k, w) \<in> set (committed_writes (run_manager s))" for b' k w
  proof -
    have a: "b' \<in> active_snapshots (run_manager s)" using txn_invD(2) [OF inv] c(1) by blast
    have "Min (active_snapshots (run_manager s)) < k" using le_less_trans [OF Min_le [OF finite a] c(2)] .
    then show ?thesis using a c(3) by (auto simp: TPrune commit_prune_def prune_committed_def tm_oldest_active_def)
  qed
  then show ?thesis using txn_invD(2) [OF inv]
    by (intro txn_inv_frame [OF inv]) (auto simp: TPrune commit_prune_def)
next
  case (TRelease b)
  then show ?thesis using txn_invD(2) [OF inv] by (intro txn_inv_frame [OF inv]) (auto simp: release_write_locks_def)
next
  case (TRemove b)
  then show ?thesis using txn_invD(2) [OF inv] by (intro txn_inv_frame [OF inv]) (auto simp: remove_snapshot_def)
qed

lemma certify_inv:
  assumes inv: "txn_inv (Suc n) s" and c: "commit_certify b R W ser (run_manager s) = (Inr c, m)"
  shows "txn_inv n (s\<lparr>run_manager := m, run_tasks := ts,
    run_log := run_log s @ [\<lparr>ce_commit = c, ce_begin = b, ce_reads = R, ce_writes = W, ce_serializable = ser, ce_covered = (b \<in> run_covered s)\<rparr>]\<rparr>)"
    (is "txn_inv n ?s'")
proof -
  note I = txn_invD [OF inv]
  let ?t = "tm_next_timestamp (run_manager s)"
  let ?new = "\<lparr>ce_commit = c, ce_begin = b, ce_reads = R, ce_writes = W, ce_serializable = ser, ce_covered = (b \<in> run_covered s)\<rparr>"
  have nl: "?t < ?t + 1" "unat (?t + 1) + n < 2 ^ 64" using next_less [OF I(1)] by simp_all
  have ok: "\<not> (ser \<and> rw_conflict b R (committed_writes (run_manager s)))" using c by (auto simp: commit_certify_def split: if_splits)
  have m: "c = ?t" "tm_next_timestamp m = ?t + 1" "active_snapshots m = active_snapshots (run_manager s)"
    "committed_writes m = (if W \<noteq> [] then committed_writes (run_manager s) @ [(?t, W)] else committed_writes (run_manager s))"
    using c [symmetric] unfolding commit_certify_def if_not_P [OF ok] by (simp_all add: Let_def)
  have new: "set (ce_writes e) \<inter> R = {}" if "e \<in> set (run_log s)" "ser" "b \<in> run_covered s" "b < ce_commit e" for e
  proof (cases "ce_writes e = []")
    case False
    then have "(ce_commit e, ce_writes e) \<in> set (committed_writes (run_manager s))" using I(4) that by blast
    then show ?thesis using ok that(2,4) unfolding rw_conflict_def list_ex_iff by auto
  qed simp
  have le: "ce_commit e \<le> ?t" if "e \<in> set (run_log s @ [?new])" for e
    using that less_imp_le [OF I(3)] m(1) by (cases "e \<in> set (run_log s)") simp_all
  have pairs: "set (ce_writes e) \<inter> ce_reads e' = {}"
    if p: "e \<in> set (run_log s @ [?new])" "e' \<in> set (run_log s @ [?new])"
      "ce_serializable e'" "ce_covered e'" "ce_begin e' < ce_commit e" "ce_commit e < ce_commit e'" for e e'
  proof -
    have "e \<noteq> ?new" using le [OF p(2)] p(6) m(1) by auto
    then have e: "e \<in> set (run_log s)" using p(1) by simp
    show ?thesis
    proof (cases "e' \<in> set (run_log s)")
      case True
      then show ?thesis using I(5) [OF e True p(3-6)] by simp
    next
      case False
      then have "e' = ?new" using p(2) by simp
      then show ?thesis using new [OF e] p(3-5) by simp
    qed
  qed
  have rec: "(ce_commit e, ce_writes e) \<in> set (committed_writes m)"
    if r: "e \<in> set (run_log s @ [?new])" "b' \<in> run_covered s \<union> run_waiting s" "b' < ce_commit e" "ce_writes e \<noteq> []" for e b'
  proof (cases "e \<in> set (run_log s)")
    case True
    then show ?thesis using I(4) [OF True r(2-4)] m(4) by simp
  next
    case False
    then have "e = ?new" using r(1) by simp
    then show ?thesis using r(4) m(1,4) by simp
  qed
  show ?thesis unfolding txn_inv_def
  proof (intro conjI ballI impI)
    show "unat (tm_next_timestamp (run_manager ?s')) + n < 2 ^ 64" using nl(2) m(2) by simp
    show "run_covered ?s' \<subseteq> active_snapshots (run_manager ?s')" using I(2) m(3) by simp
  next
    fix e assume "e \<in> set (run_log ?s')"
    then show "ce_commit e < tm_next_timestamp (run_manager ?s')" using le_less_trans [OF le nl(1)] m(2) by simp
  next
    fix e b' assume "e \<in> set (run_log ?s')" "b' \<in> run_covered ?s' \<union> run_waiting ?s'" "b' < ce_commit e \<and> ce_writes e \<noteq> []"
    then show "(ce_commit e, ce_writes e) \<in> set (committed_writes (run_manager ?s'))" using rec [of e b'] by simp
  next
    fix e e' assume "e \<in> set (run_log ?s')" "e' \<in> set (run_log ?s')"
      "ce_serializable e' \<and> ce_covered e' \<and> ce_begin e' < ce_commit e \<and> ce_commit e < ce_commit e'"
    then show "set (ce_writes e) \<inter> ce_reads e' = {}" using pairs [of e e'] by simp
  qed
qed

lemma begin_stamp_inv:
  assumes inv: "txn_inv (Suc n) s"
  shows "txn_inv n (txn_step TBegin s)"
proof -
  note I = txn_invD [OF inv]
  let ?t = "tm_next_timestamp (run_manager s)" and ?s' = "txn_step TBegin s"
  have nl: "?t < ?t + 1" "unat (?t + 1) + n < 2 ^ 64" using next_less [OF I(1)] by simp_all
  have s': "tm_next_timestamp (run_manager ?s') = ?t + 1" "run_log ?s' = run_log s" "run_covered ?s' = run_covered s" "run_waiting ?s' = insert ?t (run_waiting s)"
    "active_snapshots (run_manager ?s') = active_snapshots (run_manager s)" "committed_writes (run_manager ?s') = committed_writes (run_manager s)"
    by (simp_all add: begin_stamp_def)
  have "\<not> ?t < ce_commit e" if "e \<in> set (run_log s)" for e using I(3) [OF that] by (simp add: less_imp_le)
  then show ?thesis unfolding txn_inv_def s' using nl(2) I(2) less_trans [OF I(3) nl(1)] I(4,5) by blast
qed

lemma txn_step_inv:
  assumes inv: "txn_inv (Suc n) s"
  shows "txn_inv n (txn_step op s)"
proof (cases op)
  case TBegin
  then show ?thesis using begin_stamp_inv [OF inv] by simp
next
  case (TLock k b)
  have i: "txn_inv n s" by (rule txn_inv_mono [OF inv]) simp
  have "tm_next_timestamp (snd (acquire_write_lock k b m)) = tm_next_timestamp m"
    "active_snapshots (snd (acquire_write_lock k b m)) = active_snapshots m" "committed_writes (snd (acquire_write_lock k b m)) = committed_writes m" for m
    by (simp_all add: acquire_write_lock_def split: option.split)
  then show ?thesis using txn_invD(2) [OF inv] by (intro txn_inv_frame [OF i]) (auto simp: TLock)
next
  case (TCommit b R W ser)
  obtain r m where c: "commit_certify b R W ser (run_manager s) = (r, m)" by fastforce
  show ?thesis
  proof (cases "ring_locked s")
    case True
    then show ?thesis using txn_inv_mono [OF inv, of n] by (simp add: TCommit)
  next
    case False
    show ?thesis
    proof (cases r)
      case (Inl e)
      then have "m = run_manager s" using c by (auto simp: commit_certify_def Let_def split: if_splits)
      then show ?thesis using txn_inv_mono [OF inv, of n] False Inl c by (simp add: TCommit)
    next
      case (Inr ts)
      then show ?thesis using certify_inv [OF inv] False c by (simp add: TCommit)
    qed
  qed
next
  case (TAbort b)
  have i: "txn_inv n s" by (rule txn_inv_mono [OF inv]) simp
  show ?thesis using txn_invD(2) [OF inv] by (intro txn_inv_frame [OF i]) (auto simp: TAbort)
next
  case (TTask t)
  have i: "txn_inv n s" by (rule txn_inv_mono [OF inv]) simp
  have "txn_inv n (s\<lparr>run_tasks := remove1 t (run_tasks s)\<rparr>)" using txn_invD(2) [OF inv] by (intro txn_inv_frame [OF i]) auto
  then show ?thesis using run_task_inv i by (simp add: TTask)
qed

lemma txn_run_inv: "length ops < 2 ^ 64 - 1 \<Longrightarrow> txn_inv 0 (txn_run ops)"
proof -
  assume "length ops < 2 ^ 64 - 1"
  then have "txn_inv (0 + length ops) txn_run_start" by (simp add: txn_inv_def txn_run_start_def tm_new_def)
  moreover have "txn_inv (n + length ops) s \<Longrightarrow> txn_inv n (fold txn_step ops s)" for n s
    by (induction ops arbitrary: s) (simp_all add: txn_step_inv)
  ultimately show ?thesis unfolding txn_run_def by blast
qed

text \<open>
  C8: The certifier is sound for transactions whose begin was not interrupted. In any interleaving of
  the steps of \<open>begin\<close>, \<open>acquire_write_lock\<close>, \<open>commit_serializable\<close> and \<open>abort\<close>, take a serializable
  transaction that committed, whose snapshot was still registered then, and for which no commit
  pruned its records between the timestamp and the registration of its \<open>begin\<close>. Every earlier
  commit that wrote a key it had read is visible in its snapshot. The condition on the begin
  is needed: \<open>ssi_begin_race\<close> is a run in which it fails and the certifier misses a conflict.
\<close>

theorem ssi_certifier_sound:
  assumes "txn_run ops = s" and "length ops < 2 ^ 64 - 1" and "e \<in> set (run_log s)" and "e' \<in> set (run_log s)"
    and "ce_serializable e'" and "ce_covered e'" and "ce_commit e < ce_commit e'" and "set (ce_writes e) \<inter> ce_reads e' \<noteq> {}"
  shows "is_visible \<lparr>read_timestamp = ce_begin e', write_set = []\<rparr> (ce_commit e)"
  using txn_run_inv [OF assms(2)] txn_invD(5) [of 0 s e e'] assms by (fastforce simp: is_visible_def not_le [symmetric])

text \<open>The second transaction begins while the commit of the first is under way, and a third one begins
  before and registers after it.\<close>

definition demo_txns :: "txn_op list" where
  "demo_txns = [TBegin, TTask (TRegister 1), TBegin, TLock [1] 1, TCommit 1 {} [[1]] True, TBegin, TTask (TRegister 4), TTask (TPrune 1),
     TTask (TRegister 2), TTask (TRelease 1), TLock [2] 4, TCommit 4 {[1]} [[2]] True, TTask (TRemove 1)]"

lemmas tm_defs = tm_begin_def begin_stamp_def begin_register_def tm_new_def acquire_write_lock_def commit_serializable_def Let_def rw_conflict_def
  release_write_locks_def tm_oldest_active_def prune_committed_def is_visible_def

lemmas run_defs = txn_run_def txn_run_start_def commit_certify_def commit_prune_def remove_snapshot_def ring_locked_def

definition demo_entries :: "commit_entry list" where
  "demo_entries = [\<lparr>ce_commit = 3, ce_begin = 1, ce_reads = {}, ce_writes = [[1]], ce_serializable = True, ce_covered = True\<rparr>,
     \<lparr>ce_commit = 5, ce_begin = 4, ce_reads = {[1]}, ce_writes = [[2]], ce_serializable = True, ce_covered = True\<rparr>]"

lemma demo_run: "run_log (txn_run demo_txns) = demo_entries"
  by (simp add: run_defs demo_txns_def demo_entries_def tm_defs)

theorem ssi_certifier_sound_witness:
  "run_log (txn_run demo_txns) = demo_entries \<and> is_visible \<lparr>read_timestamp = 4, write_set = []\<rparr> 3"
  using ssi_certifier_sound [of demo_txns "txn_run demo_txns" "demo_entries ! 0" "demo_entries ! 1"] demo_run
  by (simp add: demo_entries_def) (simp add: demo_txns_def)

text \<open>
  The certifier can miss a conflict when \<open>begin\<close> is interrupted between taking its timestamp and
  registering its snapshot. Meanwhile one transaction commits a write of \<open>y\<close> and a later commit
  prunes the record of it; the interrupted transaction then reads \<open>y\<close> in its snapshot, which
  does not show that write, and commits a write of \<open>x\<close>, which the first transaction had read:
  both are serializable, both commit, and neither sees the write of the other.
\<close>

theorem ssi_begin_race:
  assumes "z \<noteq> y"
  shows "\<exists>s1 t2 s3 m1 m2 m3 m4 m5 m6 c1 c2 c3. tm_begin tm_new = (s1, m1) \<and> begin_stamp m1 = (t2, m2)
    \<and> commit_serializable (read_timestamp s1) {x} [y] True m2 = (Inr c1, m3) \<and> tm_begin m3 = (s3, m4)
    \<and> commit_serializable (read_timestamp s3) {} [z] True m4 = (Inr c3, m5)
    \<and> commit_serializable t2 {y} [x] True (begin_register t2 m5) = (Inr c2, m6)
    \<and> \<not> is_visible s1 c2 \<and> \<not> is_visible \<lparr>read_timestamp = t2, write_set = []\<rparr> c1"
  using assms
  by (simp add: tm_defs word_le_nat_alt)

theorem ssi_begin_race_witness:
  "\<exists>s1 t2 s3 m1 m2 m3 m4 m5 m6 c1 c2 c3. tm_begin tm_new = (s1, m1) \<and> begin_stamp m1 = (t2, m2)
    \<and> commit_serializable (read_timestamp s1) {[1]} [[2]] True m2 = (Inr c1, m3) \<and> tm_begin m3 = (s3, m4)
    \<and> commit_serializable (read_timestamp s3) {} [[3]] True m4 = (Inr c3, m5)
    \<and> commit_serializable t2 {[2]} [[1]] True (begin_register t2 m5) = (Inr c2, m6)
    \<and> \<not> is_visible s1 c2 \<and> \<not> is_visible \<lparr>read_timestamp = t2, write_set = []\<rparr> c1"
  by (rule ssi_begin_race) simp

end
