(* ===== verification/Utf8.thy ===== *)
theory Utf8
  imports Prelude
begin

text \<open>
  What the SQL layer uses of Rust's strings. A \<open>String\<close> is the list of its UTF-8 bytes; the
  functions of \<open>str\<close> that search for or split at an ASCII character work on the bytes, which
  is what they do on valid UTF-8. Here are \<open>String::from_utf8_lossy\<close>, \<open>str::trim\<close>, and the text
  forms of \<open>i64\<close> and \<open>bool\<close>. Those of \<open>f64\<close>, and its arithmetic, are the record \<open>f64_lib\<close>.
\<close>

type_synonym i64 = "64 word"

section \<open>UTF-8\<close>

definition utf8_byte :: "bytes \<Rightarrow> nat \<Rightarrow> u8" where
  "utf8_byte bs i = (if i < length bs then bs ! i else 0)"

definition is_cont :: "u8 \<Rightarrow> bool" where
  "is_cont b \<longleftrightarrow> 0x80 \<le> b \<and> b \<le> 0xBF"

definition second_ok :: "u8 \<Rightarrow> u8 \<Rightarrow> bool" where
  "second_ok b c \<longleftrightarrow>
     (if b = 0xE0 then 0xA0 \<le> c \<and> c \<le> 0xBF
      else if b = 0xED then 0x80 \<le> c \<and> c \<le> 0x9F
      else if b = 0xF0 then 0x90 \<le> c \<and> c \<le> 0xBF
      else if b = 0xF4 then 0x80 \<le> c \<and> c \<le> 0x8F
      else is_cont c)"

text \<open>The number of bytes inspected from \<open>b\<close> on, and whether they form a character.\<close>

definition utf8_chunk :: "u8 \<Rightarrow> bytes \<Rightarrow> nat \<times> bool" where
  "utf8_chunk b bs =
     (if b < 0x80 then (1, True)
      else if 0xC2 \<le> b \<and> b \<le> 0xDF then
        (if is_cont (utf8_byte bs 0) then (2, True) else (1, False))
      else if 0xE0 \<le> b \<and> b \<le> 0xEF then
        (if \<not> second_ok b (utf8_byte bs 0) then (1, False)
         else if is_cont (utf8_byte bs 1) then (3, True) else (2, False))
      else if 0xF0 \<le> b \<and> b \<le> 0xF4 then
        (if \<not> second_ok b (utf8_byte bs 0) then (1, False)
         else if \<not> is_cont (utf8_byte bs 1) then (2, False)
         else if is_cont (utf8_byte bs 2) then (4, True) else (3, False))
      else (1, False))"

lemma utf8_chunk_pos: "0 < fst (utf8_chunk b bs)"
  by (simp add: utf8_chunk_def)

function utf8_valid :: "bytes \<Rightarrow> bool" where
  "utf8_valid [] \<longleftrightarrow> True"
| "utf8_valid (b # bs) \<longleftrightarrow> (case utf8_chunk b bs of (n, good) \<Rightarrow> good \<and> utf8_valid (drop n (b # bs)))"
  by pat_completeness auto
termination
proof (relation "measure length")
  fix b bs n and good :: bool assume "(n, good) = utf8_chunk b bs"
  then show "(drop n (b # bs), b # bs) \<in> measure length" using utf8_chunk_pos [of b bs] by (cases "utf8_chunk b bs") simp
qed simp

function from_utf8_lossy :: "bytes \<Rightarrow> bytes" where
  "from_utf8_lossy [] = []"
| "from_utf8_lossy (b # bs) =
     (case utf8_chunk b bs of (n, good) \<Rightarrow>
        (if good then take n (b # bs) else [0xEF, 0xBF, 0xBD]) @ from_utf8_lossy (drop n (b # bs)))"
  by pat_completeness auto
termination
proof (relation "measure length")
  fix b bs n and good :: bool assume "(n, good) = utf8_chunk b bs"
  then show "(drop n (b # bs), b # bs) \<in> measure length" using utf8_chunk_pos [of b bs] by (cases "utf8_chunk b bs") simp
qed simp

lemma lossy_valid: "utf8_valid s \<Longrightarrow> from_utf8_lossy s = s"
  by (induction s rule: from_utf8_lossy.induct) (auto split: prod.splits)

lemma utf8_byte_simps [simp]: "utf8_byte [] i = 0" "utf8_byte (c # cs) 0 = c" "utf8_byte (c # cs) (Suc i) = utf8_byte cs i"
  by (simp_all add: utf8_byte_def)

lemma utf8_byte_cont: "is_cont (utf8_byte bs i) \<Longrightarrow> i < length bs"
  by (auto simp: utf8_byte_def is_cont_def split: if_splits)

lemma utf8_byte_second: "second_ok b (utf8_byte bs i) \<Longrightarrow> i < length bs"
  by (auto simp: utf8_byte_def second_ok_def is_cont_def split: if_splits)

lemma second_high: "second_ok b c \<Longrightarrow> 0x80 \<le> c"
proof -
  have *: "x \<le> c \<Longrightarrow> 0x80 \<le> x \<Longrightarrow> 0x80 \<le> c" for x :: u8 by simp
  show "second_ok b c \<Longrightarrow> 0x80 \<le> c" by (auto simp: second_ok_def is_cont_def intro: * split: if_splits)
qed

text \<open>The bytes of a character determine what is seen of it, whatever follows.\<close>

lemma utf8_chunk_char:
  assumes "utf8_chunk b bs = (n, True)"
  shows "n \<le> Suc (length bs) \<and> utf8_chunk b (take (n - 1) bs @ cs) = (n, True)
    \<and> (\<not> b < 0x80 \<longrightarrow> (\<forall>x \<in> set (take n (b # bs)). 0x80 \<le> x))"
proof (cases "b < 0x80")
  case True
  then show ?thesis using assms by (auto simp: utf8_chunk_def)
next
  case f1: False
  then have b: "0x80 \<le> b" by simp
  show ?thesis
  proof (cases "0xC2 \<le> b \<and> b \<le> 0xDF")
    case f2: True
    have c: "is_cont (utf8_byte bs 0)" "n = 2"
      using assms f1 f2 by (auto simp only: utf8_chunk_def if_False if_True prod.inject split: if_splits)
    obtain c r where "bs = c # r" using utf8_byte_cont [OF c(1)] by (cases bs) auto
    then show ?thesis using f1 f2 b c by (simp add: utf8_chunk_def is_cont_def numeral_2_eq_2)
  next
    case f2: False
    show ?thesis
    proof (cases "0xE0 \<le> b \<and> b \<le> 0xEF")
      case f3: True
      have c: "second_ok b (utf8_byte bs 0)" "is_cont (utf8_byte bs 1)" "n = 3"
        using assms f1 f2 f3 by (auto simp only: utf8_chunk_def if_False if_True prod.inject split: if_splits)
      obtain c d r where bs: "bs = c # d # r" using utf8_byte_cont [OF c(2)] by (cases bs; cases "tl bs") auto
      have "utf8_chunk b (c # d # r') = (3, True)" for r' using c f1 f2 f3 unfolding bs utf8_chunk_def by simp
      then show ?thesis using c second_high [of b c] b unfolding bs by (simp add: is_cont_def numeral_3_eq_3)
    next
      case f3: False
      have c: "0xF0 \<le> b \<and> b \<le> 0xF4" "second_ok b (utf8_byte bs 0)" "is_cont (utf8_byte bs 1)" "is_cont (utf8_byte bs 2)" "n = 4"
        using assms f1 f2 f3 by (auto simp only: utf8_chunk_def if_False if_True prod.inject split: if_splits)
      obtain c d e r where bs: "bs = c # d # e # r"
        using utf8_byte_cont [OF c(4)] by (cases bs; cases "tl bs"; cases "tl (tl bs)") auto
      have at: "utf8_byte (c # d # e # r') 1 = d" "utf8_byte (c # d # e # r') 2 = e" for r' by (simp_all add: numeral_2_eq_2)
      have "utf8_chunk b (c # d # e # r') = (4, True)" for r' using c f1 f2 f3 unfolding bs utf8_chunk_def at by simp
      moreover have "(4 :: nat) = Suc (Suc (Suc (Suc 0)))" by simp
      ultimately show ?thesis using c(2-5) second_high [of b c] b unfolding bs at by (simp add: is_cont_def)
    qed
  qed
qed

lemma utf8_chunk_append:
  assumes "utf8_chunk b bs = (n, True)"
  shows "utf8_chunk b (bs @ cs) = (n, True) \<and> n \<le> Suc (length bs)"
  using utf8_chunk_char [OF assms, of "drop (n - 1) bs @ cs"] append_take_drop_id [of "n - 1" bs]
  by (simp del: append_take_drop_id flip: append_assoc)

lemma utf8_chunk_high: "utf8_chunk b bs = (n, True) \<Longrightarrow> \<not> b < 0x80 \<Longrightarrow> x \<in> set (take n (b # bs)) \<Longrightarrow> 0x80 \<le> x"
  using utf8_chunk_char by blast

lemma utf8_chunk_valid: "utf8_chunk b bs = (n, True) \<Longrightarrow> utf8_valid (take n (b # bs))"
  using utf8_chunk_char [of b bs n "[]"] utf8_chunk_pos [of b bs] by (cases n) simp_all

lemma utf8_valid_append [simp]: "utf8_valid s \<Longrightarrow> utf8_valid (s @ t) = utf8_valid t"
proof (induction s rule: utf8_valid.induct)
  case (2 b bs)
  obtain n where n: "utf8_chunk b bs = (n, True)" using "2.prems" by (auto split: prod.splits)
  have "utf8_valid (drop n (b # bs))" using "2.prems" n by simp
  note IH = "2.IH" [OF n [symmetric] this]
  have "drop n (b # bs @ t) = drop n (b # bs) @ t"
    using utf8_chunk_append [OF n, of t] drop_append [of n "b # bs" t] by simp
  then show ?case using IH utf8_chunk_append [OF n, of t] by simp
qed simp

lemma utf8_valid_ascii [simp]: "b < 0x80 \<Longrightarrow> utf8_valid (b # bs) = utf8_valid bs"
  by (simp add: utf8_chunk_def)

declare utf8_valid.simps(2) [simp del]

lemma utf8_valid_ascii_list: "\<forall>b \<in> set s. b < 0x80 \<Longrightarrow> utf8_valid s"
  by (induction s) simp_all

section \<open>Text forms\<close>

definition ascii :: "string \<Rightarrow> bytes" where
  "ascii s = map of_char s"

fun nat_display :: "nat \<Rightarrow> bytes" where
  "nat_display n = (if n < 10 then [48 + word_of_nat n] else nat_display (n div 10) @ [48 + word_of_nat (n mod 10)])"

declare nat_display.simps [simp del]

definition i64_display :: "i64 \<Rightarrow> bytes" where
  "i64_display n = (if sint n < 0 then 45 # nat_display (nat (- sint n)) else nat_display (nat (sint n)))"

definition is_digit :: "u8 \<Rightarrow> bool" where
  "is_digit b \<longleftrightarrow> 48 \<le> b \<and> b \<le> 57"

definition dec_value :: "bytes \<Rightarrow> nat" where
  "dec_value ds = foldl (\<lambda>n b. 10 * n + unat (b - 48)) 0 ds"

definition parse_i64 :: "bytes \<Rightarrow> i64 option" where
  "parse_i64 s =
     (let neg = (s \<noteq> [] \<and> hd s = 45);
          ds = (if s \<noteq> [] \<and> (hd s = 45 \<or> hd s = 43) then tl s else s)
      in if ds = [] \<or> \<not> list_all is_digit ds then None
         else let v = (if neg then - int (dec_value ds) else int (dec_value ds))
              in if - (2 ^ 63) \<le> v \<and> v < 2 ^ 63 then Some (word_of_int v) else None)"

definition bool_display :: "bool \<Rightarrow> bytes" where
  "bool_display b = ascii (if b then ''true'' else ''false'')"

definition hex_digit :: "u8 \<Rightarrow> u8" where
  "hex_digit d = (if d < 10 then 48 + d else 87 + d)"

definition hex_byte :: "u8 \<Rightarrow> bytes" where
  "hex_byte b = [hex_digit (b div 16), hex_digit (b mod 16)]"

definition whitespace :: "bytes list" where
  "whitespace = map (\<lambda>b. [b]) [9, 10, 11, 12, 13, 32] @ [[0xC2, 0x85], [0xC2, 0xA0], [0xE1, 0x9A, 0x80]]
     @ map (\<lambda>b. [0xE2, 0x80, b]) [0x80, 0x81, 0x82, 0x83, 0x84, 0x85, 0x86, 0x87, 0x88, 0x89, 0x8A, 0xA8, 0xA9, 0xAF]
     @ [[0xE2, 0x81, 0x9F], [0xE3, 0x80, 0x80]]"

function trim_front :: "bytes list \<Rightarrow> bytes \<Rightarrow> bytes" where
  "trim_front ws s =
     (case find (\<lambda>w. w \<noteq> [] \<and> prefix w s) ws of None \<Rightarrow> s | Some w \<Rightarrow> trim_front ws (drop (length w) s))"
  by pat_completeness auto
termination
  by (relation "measure (\<lambda>(ws, s). length s)") (auto simp: find_Some_iff prefix_def)

declare trim_front.simps [simp del]

definition trim :: "bytes \<Rightarrow> bytes" where
  "trim s = rev (trim_front (map rev whitespace) (rev (trim_front whitespace s)))"

record f64_lib =
  f64_display :: "u64 \<Rightarrow> bytes"
  f64_parse :: "bytes \<Rightarrow> u64 option"
  f64_of_i64 :: "i64 \<Rightarrow> u64"
  f64_neg :: "u64 \<Rightarrow> u64"
  f64_add :: "u64 \<Rightarrow> u64 \<Rightarrow> u64"
  f64_sub :: "u64 \<Rightarrow> u64 \<Rightarrow> u64"
  f64_mul :: "u64 \<Rightarrow> u64 \<Rightarrow> u64"
  f64_div :: "u64 \<Rightarrow> u64 \<Rightarrow> u64"
  f64_rem :: "u64 \<Rightarrow> u64 \<Rightarrow> u64"
  f64_eq :: "u64 \<Rightarrow> u64 \<Rightarrow> bool"
  f64_less :: "u64 \<Rightarrow> u64 \<Rightarrow> bool"
  f64_le :: "u64 \<Rightarrow> u64 \<Rightarrow> bool"

lemma dec_value_snoc: "dec_value (ds @ [b]) = 10 * dec_value ds + unat (b - 48)"
  by (simp add: dec_value_def)

lemma digit_byte: "d < 10 \<Longrightarrow> is_digit (48 + word_of_nat d) \<and> unat ((48 + word_of_nat d :: u8) - 48) = d"
  by (auto simp: is_digit_def word_le_nat_alt unat_of_nat_small unat_word_ariths)

lemma nat_display_digits: "list_all is_digit (nat_display n) \<and> nat_display n \<noteq> [] \<and> dec_value (nat_display n) = n"
proof (induction n rule: nat_display.induct)
  case (1 n)
  show ?case
  proof (cases "n < 10")
    case True
    then show ?thesis using digit_byte [OF True] by (simp add: nat_display.simps dec_value_def)
  next
    case False
    then show ?thesis using "1.IH" digit_byte [of "n mod 10"]
      by (simp add: nat_display.simps [of n] dec_value_snoc)
  qed
qed

lemma digit_neq: "is_digit b \<Longrightarrow> b \<noteq> 45 \<and> b \<noteq> 43"
  by (auto simp: is_digit_def)

lemma parse_display_i64: "parse_i64 (i64_display n) = Some n"
proof -
  have range: "- (2 ^ 63) \<le> sint n" "sint n < 2 ^ 63" using sint_ge [of n] sint_lt [of n] by simp_all
  note d = nat_display_digits
  show ?thesis
  proof (cases "sint n < 0")
    case True
    then show ?thesis using range d [of "nat (- sint n)"] by (simp add: parse_i64_def i64_display_def Let_def)
  next
    case False
    have "hd (nat_display (nat (sint n))) \<noteq> 45 \<and> hd (nat_display (nat (sint n))) \<noteq> 43"
      using d [of "nat (sint n)"] by (intro digit_neq) (cases "nat_display (nat (sint n))"; simp)
    then show ?thesis using False range d [of "nat (sint n)"] by (simp add: parse_i64_def i64_display_def Let_def)
  qed
qed

lemma i64_display_bytes: "\<forall>b \<in> set (i64_display n). is_digit b \<or> b = 45"
  using nat_display_digits by (auto simp: i64_display_def list_all_iff)

end
