(* ===== verification/TxnHandle.thy ===== *)
theory TxnHandle
  imports EngineScan TxnManager Utf8
begin

text \<open>
  Explicit transactions: the handle with its write buffer, savepoints and read set
  (\<open>TxnHandle\<close> in \<open>galaxdb-sql/src/executor.rs\<close>), and how the embedded database begins, commits
  and rolls back a transaction (\<open>galaxdb-embedded/src/lib.rs\<close>). The write buffer is an ordered
  map. \<open>commit_transaction\<close> is composed of its two parts, the certification and the application
  of the buffer, since another thread may run between them. The fault that the storage meets
  while it appends the write of a key is an argument.
\<close>

section \<open>The handle\<close>

type_synonym write_buffer = "(bytes \<times> bytes option) list"

record txn_handle =
  th_read_ts :: u64
  txn_id :: u64
  th_writes :: write_buffer
  savepoints :: "(bytes \<times> write_buffer) list"
  th_reads :: "bytes set"
  th_serializable :: bool

definition new_txn_handle :: "u64 \<Rightarrow> u64 \<Rightarrow> txn_handle" where
  "new_txn_handle read_ts i =
     \<lparr>th_read_ts = read_ts, txn_id = i, th_writes = [], savepoints = [], th_reads = {}, th_serializable = False\<rparr>"

definition set_serializable :: "bool \<Rightarrow> txn_handle \<Rightarrow> txn_handle" where
  "set_serializable on h = h\<lparr>th_serializable := on\<rparr>"

definition record_read :: "bytes \<Rightarrow> txn_handle \<Rightarrow> txn_handle" where
  "record_read key h = (if th_serializable h then h\<lparr>th_reads := insert key (th_reads h)\<rparr> else h)"

definition read_key_set :: "txn_handle \<Rightarrow> bytes set" where
  "read_key_set h = th_reads h"

definition buffer_write ::
  "bytes \<Rightarrow> bytes option \<Rightarrow> txn_handle \<Rightarrow> txn_manager \<Rightarrow> (galax_error + unit) \<times> txn_handle \<times> txn_manager" where
  "buffer_write key val h m =
     (case acquire_write_lock key (txn_id h) m of
        (Inl e, m) \<Rightarrow> (Inl e, h, m)
      | (Inr _, m) \<Rightarrow> (Inr (), h\<lparr>th_writes := om_insert key val (th_writes h)\<rparr>, m))"

definition savepoint :: "bytes \<Rightarrow> txn_handle \<Rightarrow> txn_handle" where
  "savepoint name h = h\<lparr>savepoints := savepoints h @ [(name, th_writes h)]\<rparr>"

fun last_position :: "('a \<Rightarrow> bool) \<Rightarrow> 'a list \<Rightarrow> nat option" where
  "last_position P [] = None"
| "last_position P (x # xs) = (case last_position P xs of Some i \<Rightarrow> Some (Suc i) | None \<Rightarrow> if P x then Some 0 else None)"

definition rollback_to :: "bytes \<Rightarrow> txn_handle \<Rightarrow> (galax_error + unit) \<times> txn_handle" where
  "rollback_to name h =
     (case last_position (\<lambda>(n, _). n = name) (savepoints h) of
        None \<Rightarrow> (Inl (Internal ''no such savepoint''), h)
      | Some idx \<Rightarrow>
        (Inr (), h\<lparr>th_writes := snd (savepoints h ! idx), savepoints := take (idx + 1) (savepoints h)\<rparr>))"

definition release :: "bytes \<Rightarrow> txn_handle \<Rightarrow> (galax_error + unit) \<times> txn_handle" where
  "release name h =
     (case last_position (\<lambda>(n, _). n = name) (savepoints h) of
        None \<Rightarrow> (Inl (Internal ''no such savepoint''), h)
      | Some idx \<Rightarrow> (Inr (), h\<lparr>savepoints := take idx (savepoints h)\<rparr>))"

definition siread_sentinel :: "bytes \<Rightarrow> bytes" where
  "siread_sentinel table = [0] @ ascii ''SIREAD'' @ [0] @ table"

section \<open>The database\<close>

record database =
  db_engine :: sst_engine
  db_txn_manager :: txn_manager

definition begin_transaction :: "database \<Rightarrow> txn_handle \<times> database" where
  "begin_transaction db =
     (let read_ts = latest_commit_ts (core (db_engine db));
          (s, m) = tm_begin (db_txn_manager db)
      in (new_txn_handle read_ts (read_timestamp s), db\<lparr>db_txn_manager := m\<rparr>))"

definition begin_transaction_serializable :: "database \<Rightarrow> txn_handle \<times> database" where
  "begin_transaction_serializable db = (let (h, db) = begin_transaction db in (set_serializable True h, db))"

text \<open>The keys of the buffer and the sentinels of their tables; the source collects them in a set.\<close>

definition certified_keys :: "write_buffer \<Rightarrow> bytes list" where
  "certified_keys ws =
     remdups (concat (map (\<lambda>(key, _). if 58 \<in> set key then [key, siread_sentinel (from_utf8_lossy (takeWhile (\<lambda>b. b \<noteq> 58) key))] else [key]) ws))"

definition certify_commit :: "txn_handle \<Rightarrow> database \<Rightarrow> (galax_error + u64) \<times> database" where
  "certify_commit h db =
     (let (r, m) = commit_serializable (txn_id h) (read_key_set h) (certified_keys (th_writes h)) (th_serializable h) (db_txn_manager db)
      in (r, db\<lparr>db_txn_manager := m\<rparr>))"

definition db_put :: "append_fault \<Rightarrow> wal_lib \<Rightarrow> bytes \<Rightarrow> bytes \<Rightarrow> sst_engine \<Rightarrow> ((galax_error + u64) \<times> sst_engine) option" where
  "db_put flt L key v s = map_option (\<lambda>(r, e). (r, s\<lparr>core := e\<rparr>)) (put_sync flt L key v (core s))"

definition db_delete :: "append_fault \<Rightarrow> wal_lib \<Rightarrow> bytes \<Rightarrow> sst_engine \<Rightarrow> ((galax_error + bool) \<times> sst_engine) option" where
  "db_delete flt L key s = map_option (\<lambda>(r, e). (r, s\<lparr>core := e\<rparr>)) (delete_sync flt L key (core s))"

fun apply_writes :: "(bytes \<Rightarrow> append_fault) \<Rightarrow> wal_lib \<Rightarrow> write_buffer \<Rightarrow> sst_engine \<Rightarrow> ((galax_error + unit) \<times> sst_engine) option" where
  "apply_writes flt L [] s = Some (Inr (), s)"
| "apply_writes flt L ((key, val) # ws) s =
     (case val of
        Some v \<Rightarrow>
          (case db_put (flt key) L key v s of
             None \<Rightarrow> None | Some (Inl e, s) \<Rightarrow> Some (Inl e, s) | Some (Inr _, s) \<Rightarrow> apply_writes flt L ws s)
      | None \<Rightarrow>
          (case db_delete (flt key) L key s of
             None \<Rightarrow> None | Some (Inl e, s) \<Rightarrow> Some (Inl e, s) | Some (Inr _, s) \<Rightarrow> apply_writes flt L ws s))"

definition commit_transaction ::
  "(bytes \<Rightarrow> append_fault) \<Rightarrow> wal_lib \<Rightarrow> txn_handle \<Rightarrow> database \<Rightarrow> ((galax_error + unit) \<times> database) option" where
  "commit_transaction flt L h db =
     (case certify_commit h db of
        (Inl e, db) \<Rightarrow> Some (Inl e, db)
      | (Inr _, db) \<Rightarrow> map_option (\<lambda>(r, s). (r, db\<lparr>db_engine := s\<rparr>)) (apply_writes flt L (th_writes h) (db_engine db)))"

definition rollback_transaction :: "txn_handle \<Rightarrow> database \<Rightarrow> txn_handle \<times> database" where
  "rollback_transaction h db =
     (h\<lparr>th_writes := [], savepoints := []\<rparr>,
      db\<lparr>db_txn_manager := tm_abort \<lparr>read_timestamp = txn_id h, write_set = []\<rparr> (db_txn_manager db)\<rparr>)"

text \<open>A point read in a transaction: the buffer first, then the snapshot.\<close>

definition txn_lookup :: "zstd_lib \<Rightarrow> wal_lib \<Rightarrow> u64 list \<Rightarrow> sst_engine \<Rightarrow> txn_handle \<Rightarrow> bytes \<Rightarrow> (bytes option \<times> txn_handle) option" where
  "txn_lookup Z L order s h key =
     (let h = record_read key h
      in case om_get (th_writes h) key of
           Some buffered \<Rightarrow> Some (buffered, h)
         | None \<Rightarrow> map_option (\<lambda>v. (v, h)) (get_at Z L order s key (th_read_ts h)))"

text \<open>The rows of a table in a transaction: the snapshot with the buffer over it.\<close>

definition overlay :: "bytes \<Rightarrow> bytes \<times> bytes option \<Rightarrow> (bytes \<times> bytes) list \<Rightarrow> (bytes \<times> bytes) list" where
  "overlay pfx w m =
     (if \<not> prefix pfx (fst w) then m
      else case snd w of Some v \<Rightarrow> om_insert (fst w) v m | None \<Rightarrow> om_remove (fst w) m)"

definition txn_table_rows :: "zstd_lib \<Rightarrow> wal_lib \<Rightarrow> u64 list \<Rightarrow> sst_engine \<Rightarrow> txn_handle \<Rightarrow> bytes \<Rightarrow> (bytes \<times> bytes) list option" where
  "txn_table_rows Z L order s h table =
     (let pfx = table @ [58]
      in map_option (\<lambda>rows. fold (overlay pfx) (th_writes h) (fold (\<lambda>(k, v, _) m. om_insert k v m) rows []))
           (scan_all_at_with_prefix Z L order s (th_read_ts h) pfx))"

section \<open>Savepoints\<close>

lemma last_position_append:
  "last_position P (xs @ ys) = (case last_position P ys of Some i \<Rightarrow> Some (length xs + i) | None \<Rightarrow> last_position P xs)"
  by (induction xs) (auto split: option.splits)

lemma last_position_None: "last_position P xs = None \<longleftrightarrow> (\<forall>x \<in> set xs. \<not> P x)"
  by (induction xs) (auto split: option.splits)

lemma last_position_Some: "last_position P xs = Some i \<Longrightarrow> i < length xs \<and> P (xs ! i)"
  by (induction xs arbitrary: i) (auto split: option.splits if_splits)

text \<open>What a client does between a savepoint and a rollback to it.\<close>

datatype handle_op = HWrite bytes "bytes option" | HRead bytes | HSavepoint bytes | HRollback bytes | HRelease bytes

fun handle_step :: "handle_op \<Rightarrow> txn_handle \<times> txn_manager \<Rightarrow> txn_handle \<times> txn_manager" where
  "handle_step (HWrite k v) (h, m) = snd (buffer_write k v h m)"
| "handle_step (HRead k) (h, m) = (record_read k h, m)"
| "handle_step (HSavepoint n) (h, m) = (savepoint n h, m)"
| "handle_step (HRollback n) (h, m) = (snd (rollback_to n h), m)"
| "handle_step (HRelease n) (h, m) = (snd (release n h), m)"

fun op_name :: "handle_op \<Rightarrow> bytes option" where
  "op_name (HSavepoint n) = Some n" | "op_name (HRollback n) = Some n" | "op_name (HRelease n) = Some n" | "op_name _ = None"

lemma stack_position:
  assumes "name \<notin> fst ` set base"
  shows "case last_position (\<lambda>(n, _). n = name) (base @ upper) of
      None \<Rightarrow> True | Some i \<Rightarrow> length base \<le> i \<and> i < length base + length upper"
proof -
  have "last_position (\<lambda>(n, _). n = name) base = None" using assms by (force simp: last_position_None)
  then show ?thesis
    using last_position_append [of "\<lambda>(n, _). n = name" base upper] by (auto simp: last_position_Some split: option.splits)
qed

lemma handle_step_stack:
  assumes "savepoints h = base @ upper" and "n \<notin> fst ` set upper"
    and name: "\<forall>x. op_name p = Some x \<longrightarrow> x \<notin> fst ` set base \<and> x \<noteq> n"
  shows "\<exists>upper'. savepoints (fst (handle_step p (h, m))) = base @ upper' \<and> n \<notin> fst ` set upper'"
proof (cases p)
  case (HWrite k v)
  then show ?thesis using assms(1,2) by (auto simp: buffer_write_def split: prod.splits sum.splits)
next
  case (HRead k)
  then show ?thesis using assms(1,2) by (auto simp: record_read_def)
next
  case (HSavepoint x)
  then show ?thesis using assms by (auto simp: savepoint_def)
next
  case (HRollback x)
  have "x \<notin> fst ` set base" using name HRollback by simp
  from stack_position [OF this, of upper] show ?thesis using assms(1,2) HRollback
    by (auto simp: rollback_to_def take_append dest!: in_set_takeD split: option.splits)
next
  case (HRelease x)
  have "x \<notin> fst ` set base" using name HRelease by simp
  from stack_position [OF this, of upper] show ?thesis using assms(1,2) HRelease
    by (auto simp: release_def take_append dest!: in_set_takeD split: option.splits)
qed

lemma handle_run_stack:
  "savepoints (fst s) = base @ upper \<Longrightarrow> n \<notin> fst ` set upper \<Longrightarrow>
     \<forall>p \<in> set ops. \<forall>x. op_name p = Some x \<longrightarrow> x \<notin> fst ` set base \<and> x \<noteq> n \<Longrightarrow>
     \<exists>upper'. savepoints (fst (fold handle_step ops s)) = base @ upper' \<and> n \<notin> fst ` set upper'"
proof (induction ops arbitrary: s upper)
  case Nil
  then show ?case by auto
next
  case (Cons p ops)
  obtain h m where s: "s = (h, m)" by fastforce
  have name: "\<forall>x. op_name p = Some x \<longrightarrow> x \<notin> fst ` set base \<and> x \<noteq> n" using Cons.prems(3) by simp
  obtain upper1 where "savepoints (fst (handle_step p (h, m))) = base @ upper1" "n \<notin> fst ` set upper1"
    using handle_step_stack [of h base upper n p m] Cons.prems(1,2) name s by auto
  from Cons.IH [OF this] Cons.prems(3) show ?case by (simp add: s)
qed

text \<open>
  C15: Rolling back to a savepoint restores the write buffer. After a savepoint, run any writes,
  reads, further savepoints, and rollbacks to and releases of savepoints with other names
  than the ones open before. Then the rollback to the savepoint succeeds, the write buffer is the one
  at the savepoint, and the stack of savepoints is the one right after it was set.
\<close>

theorem savepoint_restores:
  assumes "\<forall>p \<in> set ops. \<forall>x. op_name p = Some x \<longrightarrow> x \<noteq> name \<and> x \<notin> fst ` set (savepoints h)"
  shows "\<exists>h'. rollback_to name (fst (fold handle_step ops (savepoint name h, m))) = (Inr (), h')
    \<and> th_writes h' = th_writes h \<and> savepoints h' = savepoints (savepoint name h)"
proof -
  let ?base = "savepoints (savepoint name h)"
  have b: "?base = savepoints h @ [(name, th_writes h)]" by (simp add: savepoint_def)
  obtain upper where upper: "savepoints (fst (fold handle_step ops (savepoint name h, m))) = ?base @ upper" "name \<notin> fst ` set upper"
    using handle_run_stack [of "(savepoint name h, m)" ?base "[]" name ops] assms b by auto
  have "last_position (\<lambda>(n, _). n = name) upper = None" using upper(2) by (force simp: last_position_None)
  then have "last_position (\<lambda>(n, _). n = name) (?base @ upper) = Some (length (savepoints h))"
    unfolding b by (simp add: last_position_append)
  then show ?thesis unfolding rollback_to_def upper(1) by (simp add: b nth_append)
qed

definition demo_handle :: txn_handle where
  "demo_handle = (new_txn_handle 0 1)\<lparr>th_writes := [([1], Some [10])]\<rparr>"

theorem savepoint_restores_witness:
  "\<exists>h'. rollback_to [97] (fst (fold handle_step [HWrite [1] (Some [11]), HSavepoint [98], HWrite [2] None, HRelease [98]] (savepoint [97] demo_handle, tm_new)))
      = (Inr (), h') \<and> th_writes h' = [([1], Some [10])] \<and> savepoints h' = [([97], [([1], Some [10])])]"
  using savepoint_restores [of "[HWrite [1] (Some [11]), HSavepoint [98], HWrite [2] None, HRelease [98]]" "[97]" demo_handle tm_new]
  by (simp add: demo_handle_def new_txn_handle_def savepoint_def)

section \<open>What a commit writes\<close>

lemma db_put_NoIoFault: "db_put NoIoFault L k v s = store_put L k v s"
  by (simp add: db_put_def store_put_def)

lemma db_delete_NoIoFault: "db_delete NoIoFault L k s = store_delete L k s"
  by (simp add: db_delete_def store_delete_def)

lemma apply_writes_rel:
  "store_rel Z L K V (n + length ws) s m \<Longrightarrow> distinct (map fst ws) \<Longrightarrow>
     fst ` set ws \<subseteq> K \<Longrightarrow> \<forall>(k, b) \<in> set ws. \<forall>v. b = Some v \<longrightarrow> v \<in> V \<Longrightarrow>
     \<exists>s' m'. apply_writes (\<lambda>_. NoIoFault) L ws s = Some (Inr (), s') \<and> store_rel Z L K V n s' m'
       \<and> (\<forall>k. visible (m' k) = (case map_of ws k of Some b \<Rightarrow> b | None \<Rightarrow> visible (m k)))"
proof (induction ws arbitrary: s m)
  case Nil
  then show ?case by auto
next
  case (Cons w ws)
  obtain k b where w: "w = (k, b)" by fastforce
  have k: "k \<in> K" using Cons.prems(3) w by simp
  have rest: "map_of ws k = None" using Cons.prems(2) by (simp add: w map_of_eq_None_iff)
  obtain s1 m1 where s1: "apply_writes (\<lambda>_. NoIoFault) L (w # ws) s = apply_writes (\<lambda>_. NoIoFault) L ws s1"
    "store_rel Z L K V (n + length ws) s1 m1" "\<And>k'. visible (m1 k') = (if k' = k then b else visible (m k'))"
  proof (cases b)
    case None
    have "store_rel Z L K V (n + length ws) s m" using store_rel_mono [OF Cons.prems(1)] by simp
    from store_delete_rel [OF this k] obtain s1 where s1: "store_delete L k s = Some (Inr (indexed (m k)), s1)"
      "store_rel Z L K V (n + length ws) s1 (if indexed (m k) then m(k \<mapsto> Deleted) else m)" by blast
    have "visible ((if indexed (m k) then m(k \<mapsto> Deleted) else m) k') = (if k' = k then b else visible (m k'))" for k'
      using None by (auto simp: visible_def indexed_def)
    then show ?thesis using that [OF _ s1(2)] s1(1) None by (simp add: w db_delete_NoIoFault)
  next
    case (Some v)
    then have "v \<in> V" using Cons.prems(4) by (simp add: w)
    from store_put_rel [of Z L K V "n + length ws" s m, OF _ k this] Cons.prems(1) obtain ts s1 where
      s1: "store_put L k v s = Some (Inr ts, s1)" "store_rel Z L K V (n + length ws) s1 (m(k \<mapsto> Live v))" by auto
    show ?thesis using that [OF _ s1(2)] s1(1) Some by (simp add: w db_put_NoIoFault visible_def)
  qed
  obtain s' m' where s': "apply_writes (\<lambda>_. NoIoFault) L ws s1 = Some (Inr (), s')" "store_rel Z L K V n s' m'"
    "\<And>k. visible (m' k) = (case map_of ws k of Some b \<Rightarrow> b | None \<Rightarrow> visible (m1 k))"
    using Cons.IH [OF s1(2)] Cons.prems(2-4) by auto
  have "visible (m' k') = (case map_of (w # ws) k' of Some b \<Rightarrow> b | None \<Rightarrow> visible (m k'))" for k'
    unfolding s'(3) s1(3) using rest by (auto simp: w split: option.split)
  then show ?case unfolding s1(1) using s'(1,2) by blast
qed

text \<open>
  C7: A commit applies exactly the write buffer. Let an engine, opened in an empty
  directory, have run a sequence of puts, deletes and flushes, and let a transaction have buffered
  upserts and deletes; no key, stored or buffered, starts with another one followed by a zero byte,
  the budget of the index covers run and buffer, storage does not fail, and no other session
  writes meanwhile. If the certification accepts it, the commit succeeds, and afterwards a read of a key returns what the
  buffer holds for it, nothing if that is a tombstone, and for every other key what it
  returned before the commit.
\<close>

theorem txn_commit_refines:
  fixes ps :: "store_op list" and h :: txn_handle
  defines "K \<equiv> \<Union> (store_keys ` set ps) \<union> fst ` set (th_writes h)"
    and "V \<equiv> \<Union> (store_values ` set ps) \<union> {v. Some v \<in> snd ` set (th_writes h)}"
  assumes "lz4_ok L" and "key_space K" and "store_env Z L (table_regs tables) K V"
    and "length ps * Suc (card K) + length (th_writes h) \<le> 65000" and "om_invar (th_writes h)"
    and "certify_commit h \<lparr>db_engine = s1, db_txn_manager = m\<rparr> = (Inr ts, db1)"
    and "open_store L cfg fcfg None [] Map.empty 1 = Some (Inr s)" and "store_run Z L compact ps (prepare tables s) = Some s1"
  shows "\<exists>db'. commit_transaction (\<lambda>_. NoIoFault) L h \<lparr>db_engine = s1, db_txn_manager = m\<rparr> = Some (Inr (), db')
    \<and> (\<forall>k. engine_get Z L (db_engine db') k
         = (case om_get (th_writes h) k of Some b \<Rightarrow> Some b | None \<Rightarrow> engine_get Z L s1 k))"
proof -
  let ?n = "length (th_writes h)"
  obtain s0 where s0: "open_store L cfg fcfg None [] Map.empty 1 = Some (Inr s0)" "columnar s0 = []"
    "store_rel Z L K V (?n + length ps * Suc (card K)) (prepare tables s0) Map.empty"
    using fresh_store [OF assms(3,4), of "?n + length ps * Suc (card K)" cfg fcfg Z V tables] assms(6) by auto
  have s: "s0 = s" using s0(1) assms(9) by simp
  have env: "store_env Z L (columnar (prepare tables s)) K V" using assms(5) columnar_prepare s0(2) s by simp
  have ops: "\<forall>p \<in> set ps. store_keys p \<subseteq> K \<and> store_values p \<subseteq> V" by (auto simp: K_def V_def)
  have rel: "store_rel Z L K V (0 + ?n) s1 (fold cell_step ps Map.empty)"
    using store_run_rel [OF env _ s0(3) [unfolded s] ops, of compact] assms(10) by auto
  have d: "distinct (map fst (th_writes h))" using assms(7) by (simp add: om.entries_distinct)
  have K: "fst ` set (th_writes h) \<subseteq> K" by (simp add: K_def)
  have V: "\<forall>(k, b) \<in> set (th_writes h). \<forall>v. b = Some v \<longrightarrow> v \<in> V" by (force simp: V_def)
  obtain s' m' where s': "apply_writes (\<lambda>_. NoIoFault) L (th_writes h) s1 = Some (Inr (), s')" "store_rel Z L K V 0 s' m'"
    "\<And>k. visible (m' k) = (case map_of (th_writes h) k of Some b \<Rightarrow> b | None \<Rightarrow> visible (fold cell_step ps Map.empty k))"
    using apply_writes_rel [OF rel d K V] by auto
  have "db_engine db1 = s1" using assms(8) by (auto simp: certify_commit_def split: prod.splits)
  then have "commit_transaction (\<lambda>_. NoIoFault) L h \<lparr>db_engine = s1, db_txn_manager = m\<rparr> = Some (Inr (), db1\<lparr>db_engine := s'\<rparr>)"
    using assms(8) s'(1) by (simp add: commit_transaction_def)
  moreover have "engine_get Z L s' k = (case om_get (th_writes h) k of Some b \<Rightarrow> Some b | None \<Rightarrow> engine_get Z L s1 k)" for k
    unfolding engine_get_rel [OF s'(2)] engine_get_rel [OF rel] s'(3) by (simp add: om_get_map_of split: option.split)
  ultimately show ?thesis by auto
qed

section \<open>Snapshot isolation\<close>

text \<open>The versions of the memtable that a snapshot sees, and how the scan merges them.\<close>

definition seen_step :: "bytes \<times> bytes option \<times> u64 \<Rightarrow> (bytes \<times> bytes \<times> u64) list \<Rightarrow> (bytes \<times> bytes \<times> u64) list" where
  "seen_step r out = (case r of (k, v, ts) \<Rightarrow>
     if ts \<ge> seen_at k out then case v of Some x \<Rightarrow> om_insert k (x, ts) out | None \<Rightarrow> om_remove k out else out)"

lemma sorted_keys_unique:
  assumes "sorted_wrt (<) (map fst (xs :: ('k :: linorder \<times> 'v) list))" "sorted_wrt (<) (map fst ys)" "set xs = set ys"
  shows "xs = ys"
proof (rule map_sorted_distinct_set_unique [of fst])
  have "distinct (map fst xs)" using assms(1) strict_sorted_iff by blast
  then show "inj_on fst (set xs \<union> set ys)" using assms(3) by (simp add: distinct_map)
qed (use assms strict_sorted_iff in blast)+

definition seen_rows :: "u64 \<Rightarrow> memtable \<Rightarrow> (bytes \<times> bytes option \<times> u64) list" where
  "seen_rows t act = map (\<lambda>(k, vv). (k, the (get_at_with_ts vv t))) (filter (\<lambda>(k, vv). get_at_with_ts vv t \<noteq> None) (iter_all act))"

lemma override_seen: "fold (override_at t) (iter_all act) out = fold seen_step (seen_rows t act) out"
proof -
  have step: "override_at t (k, vv) out = (case get_at_with_ts vv t of None \<Rightarrow> out | Some x \<Rightarrow> seen_step (k, x) out)" for k vv out
    by (auto simp: override_at_def seen_step_def split: option.split)
  have "fold (override_at t) es out
      = fold seen_step (map (\<lambda>(k, vv). (k, the (get_at_with_ts vv t))) (filter (\<lambda>(k, vv). get_at_with_ts vv t \<noteq> None) es)) out" for es
    by (induction es arbitrary: out) (auto simp: step split: option.split)
  then show ?thesis by (simp add: seen_rows_def)
qed

lemma seen_rows_keys:
  assumes "mt_invar h act"
  shows "sorted_wrt (<) (map fst (seen_rows t act))"
    and "(k, x) \<in> set (seen_rows t act) \<longleftrightarrow> (\<exists>vv. mt_lookup h act k = Some vv \<and> get_at_with_ts vv t = Some x)"
proof -
  have "map fst (seen_rows t act) = map fst (filter (\<lambda>(k, vv). get_at_with_ts vv t \<noteq> None) (iter_all act))"
    by (simp add: seen_rows_def case_prod_beta o_def)
  then show "sorted_wrt (<) (map fst (seen_rows t act))"
    using iter_all_sorted [OF assms] sorted_filter distinct_map_filter by (metis strict_sorted_iff)
  show "(k, x) \<in> set (seen_rows t act) \<longleftrightarrow> (\<exists>vv. mt_lookup h act k = Some vv \<and> get_at_with_ts vv t = Some x)"
    using iter_all_entry [OF assms] by (auto simp: seen_rows_def image_iff)
qed

text \<open>The version of one key that a snapshot sees in the memtable. A put under a later timestamp does
  not change it, whatever the order in which the puts arrive.\<close>

definition seen_key :: "(bytes \<Rightarrow> u64) \<Rightarrow> u64 \<Rightarrow> memtable \<Rightarrow> bytes \<Rightarrow> (bytes option \<times> u64) option" where
  "seen_key h t act k = Option.bind (mt_lookup h act k) (\<lambda>vv. get_at_with_ts vv t)"

lemma seen_rows_entry: "mt_invar h act \<Longrightarrow> (k, x) \<in> set (seen_rows t act) \<longleftrightarrow> seen_key h t act k = Some x"
  using seen_rows_keys(2) by (simp add: seen_key_def bind_eq_Some_conv)

lemma map_of_seen_rows:
  assumes "mt_invar h act"
  shows "map_of (seen_rows t act) k = seen_key h t act k"
proof -
  have "distinct (map fst (seen_rows t act))" using seen_rows_keys(1) [OF assms] strict_sorted_iff by blast
  then have "map_of (seen_rows t act) k = Some x \<longleftrightarrow> seen_key h t act k = Some x" for x
    by (simp add: seen_rows_entry [OF assms])
  then show ?thesis by (metis not_None_eq)
qed

lemma seen_key_put:
  assumes "mt_invar h act" "\<not> sealed act" and "t < ts \<or> k' \<noteq> k"
  shows "seen_key h t (fst (mt_put h k ts v act)) k' = seen_key h t act k'"
proof -
  have "\<not> ts \<le> t" if "t < ts" using that by (simp only: not_le)
  then show ?thesis using assms(3) by (auto simp: seen_key_def mt_lookup_put [OF assms(1,2)] split: option.split)
qed

definition memtable_ok :: "wal_lib \<Rightarrow> sst_engine \<Rightarrow> bool" where
  "memtable_ok L s \<longleftrightarrow> mt_invar (xxh3_64 L) (active (memtable_mgr (core s))) \<and> \<not> sealed (active (memtable_mgr (core s)))"

text \<open>At the snapshot \<open>t\<close>, the keys outside of \<open>X\<close> read as before.\<close>

definition keeps_snapshot :: "wal_lib \<Rightarrow> u64 \<Rightarrow> bytes set \<Rightarrow> sst_engine \<Rightarrow> sst_engine \<Rightarrow> bool" where
  "keeps_snapshot L t X s s' \<longleftrightarrow> data_dir s' = data_dir s \<and> sst_registry s' = sst_registry s \<and> memtable_ok L s' \<and> t < next_timestamp (core s')
     \<and> (\<forall>k. k \<notin> X \<longrightarrow> seen_key (xxh3_64 L) t (active (memtable_mgr (core s'))) k = seen_key (xxh3_64 L) t (active (memtable_mgr (core s))) k)"

lemma scan_all_at_seen:
  "scan_all_at Z L order s t = map_option (fold seen_step (seen_rows t (active (memtable_mgr (core s)))))
     (scan_files (scan_block_at (xxh3_64 L) Z t) (data_dir s) (sst_registry s) order [])"
  by (simp add: scan_all_at_def override_seen [abs_def])

lemma seen_step_get:
  assumes "om_invar out"
  shows "om_invar (seen_step r out)" "om_get (seen_step r out) k = (if k = fst r then om_get (seen_step r out) (fst r) else om_get out k)"
  using assms by (auto simp: seen_step_def om.invar_ins om_invar_remove om.get_ins om_get_remove split: prod.splits option.split)

lemma fold_seen_get:
  "om_invar out \<Longrightarrow> distinct (map fst rs) \<Longrightarrow> om_get (fold seen_step rs out) k
     = (case map_of rs k of None \<Rightarrow> om_get out k | Some x \<Rightarrow> om_get (seen_step (k, x) out) k)"
proof (induction rs arbitrary: out)
  case (Cons r rs)
  obtain k' x where r: "r = (k', x)" by (metis surj_pair)
  have same: "om_get (seen_step (k, y) (seen_step r out)) k = om_get (seen_step (k, y) out) k" if "k \<noteq> k'" for y
  proof -
    have "om_get (seen_step r out) k = om_get out k" using seen_step_get(2) [OF Cons.prems(1), of r k] that by (simp add: r)
    then have "seen_at k (seen_step r out) = seen_at k out" by (simp add: seen_at_def)
    then show ?thesis using seen_step_get(1) [OF Cons.prems(1), of r] Cons.prems(1) \<open>om_get (seen_step r out) k = om_get out k\<close>
      by (auto simp: seen_step_def [of "(k, y)"] om.get_ins om_get_remove split: prod.splits option.split)
  qed
  have "map_of rs k' = None" using Cons.prems(2) by (simp add: r map_of_eq_None_iff)
  then show ?case using Cons.IH [OF seen_step_get(1) [OF Cons.prems(1), of r]] Cons.prems(2) same seen_step_get(2) [OF Cons.prems(1), of r k]
    by (cases "k = k'") (auto simp: r split: option.split)
qed simp

lemma keeps_snapshot_same:
  "memtable_ok L s \<Longrightarrow> t < next_timestamp (core s) \<Longrightarrow> memtable_mgr e = memtable_mgr (core s) \<Longrightarrow> next_timestamp e = next_timestamp (core s) \<Longrightarrow>
     keeps_snapshot L t X s (s\<lparr>core := e\<rparr>)"
  by (simp add: keeps_snapshot_def memtable_ok_def)

lemma keeps_snapshot_refl: "memtable_ok L s \<Longrightarrow> t < next_timestamp (core s) \<Longrightarrow> keeps_snapshot L t X s s"
  by (simp add: keeps_snapshot_def)

lemma keeps_snapshot_trans: "keeps_snapshot L t X s s' \<Longrightarrow> keeps_snapshot L t X s' s'' \<Longrightarrow> keeps_snapshot L t X s s''"
  by (simp add: keeps_snapshot_def)

text \<open>A write under an allocated timestamp, and the allocation of one.\<close>

lemma keeps_snapshot_write:
  assumes "memtable_ok L s" and "t < next_timestamp (core s')" and "data_dir s' = data_dir s" "sst_registry s' = sst_registry s"
    and "memtable_mgr (core s') = memtable_mgr (core s) \<or> memtable_mgr (core s') = put_active L k ts v (memtable_mgr (core s)) \<and> (t < ts \<or> k \<in> X)"
  shows "keeps_snapshot L t X s s'"
  using assms(5)
proof
  assume m: "memtable_mgr (core s') = put_active L k ts v (memtable_mgr (core s)) \<and> (t < ts \<or> k \<in> X)"
  note ok = assms(1) [unfolded memtable_ok_def]
  have "seen_key (xxh3_64 L) t (fst (mt_put (xxh3_64 L) k ts v (active (memtable_mgr (core s))))) k'
      = seen_key (xxh3_64 L) t (active (memtable_mgr (core s))) k'" if "k' \<notin> X" for k'
    using ok m that by (intro seen_key_put) auto
  then show ?thesis using m ok assms(2-4) mt_invar_put by (simp add: keeps_snapshot_def memtable_ok_def put_active_def mt_put_frame)
qed (use assms in \<open>simp add: keeps_snapshot_def memtable_ok_def\<close>)

lemma next_clock: "t < (x :: u64) \<Longrightarrow> unat x + 1 < 2 ^ 64 \<Longrightarrow> t < x + 1"
  using next_less [of x 0] less_trans by auto

lemma db_put_shape:
  "db_put flt L k v s = Some (r, s') \<Longrightarrow> data_dir s' = data_dir s \<and> sst_registry s' = sst_registry s
     \<and> (memtable_mgr (core s') = memtable_mgr (core s) \<or> memtable_mgr (core s') = put_active L k (next_timestamp (core s)) (Some v) (memtable_mgr (core s)))
     \<and> next_timestamp (core s') = next_timestamp (core s) + 1"
  by (auto simp: db_put_def put_sync_def eng_put_def insert_row_def Let_def split: prod.splits sum.splits)

lemma db_delete_shape:
  "db_delete flt L k s = Some (r, s') \<Longrightarrow> data_dir s' = data_dir s \<and> sst_registry s' = sst_registry s
     \<and> (memtable_mgr (core s') = memtable_mgr (core s) \<or> memtable_mgr (core s') = put_active L k (next_timestamp (core s)) None (memtable_mgr (core s)))
     \<and> (next_timestamp (core s') = next_timestamp (core s) \<or> next_timestamp (core s') = next_timestamp (core s) + 1)"
  by (auto simp: db_delete_def delete_sync_def eng_delete_def Let_def split: prod.splits sum.splits option.splits)

section \<open>Writes under way\<close>

text \<open>\<open>put_sync\<close>, \<open>delete_sync\<close> and \<open>put_batch_sync\<close> hold no lock from beginning to end: the clock, the log,
  the memtable and the index each synchronise on their own. A write is at one of these points; a
  batch carries its row count and the rows still to come.\<close>

datatype write_pc =
    PutAlloc bytes bytes | PutLog u64 bytes bytes | PutMemtable u64 bytes bytes | PutIndex bytes
  | DeleteLookup bytes | DeleteAlloc bytes | DeleteLog u64 bytes | DeleteMemtable u64 bytes | DeleteIndex bytes
  | BatchLog "(bytes \<times> bytes) list" | BatchAlloc u64 "(bytes \<times> bytes) list"
  | BatchMemtable u64 bytes bytes u64 "(bytes \<times> bytes) list" | BatchIndex bytes u64 "(bytes \<times> bytes) list"

datatype write_outcome = Continue write_pc | Finished "galax_error + unit"

fun write_pc_step :: "append_fault \<Rightarrow> wal_lib \<Rightarrow> write_pc \<Rightarrow> engine \<Rightarrow> (write_outcome \<times> engine) option" where
  "write_pc_step flt L (PutAlloc key v) e = Some (Continue (PutLog (next_timestamp e) key v), e\<lparr>next_timestamp := next_timestamp e + 1\<rparr>)"
| "write_pc_step flt L (PutLog ts key v) e =
     (case do_append flt L RowPut (encode_kv key v) (wal e) of
        (Inl err, w) \<Rightarrow> Some (Finished (Inl (Io err)), e\<lparr>wal := w\<rparr>)
      | (Inr _, w) \<Rightarrow> Some (Continue (PutMemtable ts key v), e\<lparr>wal := w\<rparr>))"
| "write_pc_step flt L (PutMemtable ts key v) e =
     Some (Continue (PutIndex key), e\<lparr>memtable_mgr := put_active L key ts (Some v) (memtable_mgr e)\<rparr>)"
| "write_pc_step flt L (PutIndex key) e =
     map_option (\<lambda>t. (Finished (Inr ()), e\<lparr>art_index := t, row_count := row_count e + 1\<rparr>)) (art_insert key (memtable_loc L key) (art_index e))"
| "write_pc_step flt L (DeleteLookup key) e =
     Some (case art_lookup (art_index e) key of None \<Rightarrow> Finished (Inr ()) | Some _ \<Rightarrow> Continue (DeleteAlloc key), e)"
| "write_pc_step flt L (DeleteAlloc key) e = Some (Continue (DeleteLog (next_timestamp e) key), e\<lparr>next_timestamp := next_timestamp e + 1\<rparr>)"
| "write_pc_step flt L (DeleteLog ts key) e =
     (case do_append flt L RowDelete key (wal e) of
        (Inl err, w) \<Rightarrow> Some (Finished (Inl (Io err)), e\<lparr>wal := w\<rparr>)
      | (Inr _, w) \<Rightarrow> Some (Continue (DeleteMemtable ts key), e\<lparr>wal := w\<rparr>))"
| "write_pc_step flt L (DeleteMemtable ts key) e =
     Some (Continue (DeleteIndex key), e\<lparr>memtable_mgr := put_active L key ts None (memtable_mgr e)\<rparr>)"
| "write_pc_step flt L (DeleteIndex key) e = map_option (\<lambda>(t, _). (Finished (Inr ()), e\<lparr>art_index := t\<rparr>)) (art_delete key (art_index e))"
| "write_pc_step flt L (BatchLog rows) e =
     (case do_append flt L RowPut (encode_batch rows) (wal e) of
        (Inl err, w) \<Rightarrow> Some (Finished (Inl (Io err)), e\<lparr>wal := w\<rparr>)
      | (Inr _, w) \<Rightarrow> Some (Continue (BatchAlloc (word_of_nat (length rows)) rows), e\<lparr>wal := w\<rparr>))"
| "write_pc_step flt L (BatchAlloc count []) e = Some (Finished (Inr ()), e\<lparr>row_count := row_count e + count\<rparr>)"
| "write_pc_step flt L (BatchAlloc count ((key, v) # rows)) e =
     Some (Continue (BatchMemtable (next_timestamp e) key v count rows), e\<lparr>next_timestamp := next_timestamp e + 1\<rparr>)"
| "write_pc_step flt L (BatchMemtable ts key v count rows) e =
     Some (Continue (BatchIndex key count rows), e\<lparr>memtable_mgr := put_active L key ts (Some v) (memtable_mgr e)\<rparr>)"
| "write_pc_step flt L (BatchIndex key count rows) e =
     map_option (\<lambda>t. (Continue (BatchAlloc count rows), e\<lparr>art_index := t\<rparr>)) (art_insert key (memtable_loc L key) (art_index e))"

text \<open>A thread that applies a write buffer: the write it is at, and the ones still to come. It stops at
  the first error, as the loop of \<open>commit_transaction\<close> does.\<close>

record writer =
  wr_pc :: "write_pc option"
  wr_todo :: write_buffer

definition new_writer :: "write_buffer \<Rightarrow> writer" where
  "new_writer ws = \<lparr>wr_pc = None, wr_todo = ws\<rparr>"

definition start_write :: "bytes \<times> bytes option \<Rightarrow> write_pc" where
  "start_write w = (case w of (key, Some v) \<Rightarrow> PutAlloc key v | (key, None) \<Rightarrow> DeleteLookup key)"

definition writer_step :: "append_fault \<Rightarrow> wal_lib \<Rightarrow> writer \<Rightarrow> engine \<Rightarrow> (writer \<times> engine) option" where
  "writer_step flt L w e =
     (case wr_pc w of
        None \<Rightarrow> (case wr_todo w of [] \<Rightarrow> None | x # ws \<Rightarrow> Some (\<lparr>wr_pc = Some (start_write x), wr_todo = ws\<rparr>, e))
      | Some pc \<Rightarrow>
        map_option (\<lambda>(r, e).
            (case r of Continue pc' \<Rightarrow> w\<lparr>wr_pc := Some pc'\<rparr>
             | Finished (Inr _) \<Rightarrow> w\<lparr>wr_pc := None\<rparr>
             | Finished (Inl _) \<Rightarrow> \<lparr>wr_pc = None, wr_todo = []\<rparr>, e))
          (write_pc_step flt L pc e))"

definition writer_any :: "wal_lib \<Rightarrow> writer \<times> engine \<Rightarrow> writer \<times> engine \<Rightarrow> bool" where
  "writer_any L x y \<longleftrightarrow> (\<exists>flt. writer_step flt L (fst x) (snd x) = Some y)"

text \<open>A writer that nobody interrupts does what \<open>put_sync\<close>, \<open>delete_sync\<close>, \<open>put_batch_sync\<close> and
  \<open>apply_writes\<close> do.\<close>

lemma writer_anyI: "writer_step flt L w e = Some (w', e') \<Longrightarrow> writer_any L (w, e) (w', e')"
  by (auto simp: writer_any_def)

lemma writer_then: "writer_any L x y \<Longrightarrow> (writer_any L)\<^sup>*\<^sup>* y z \<Longrightarrow> (writer_any L)\<^sup>*\<^sup>* x z"
  by (rule converse_rtranclp_into_rtranclp)

lemma put_writer:
  assumes "eng_put flt L k v e = Some (r, e')"
  shows "(writer_any L)\<^sup>*\<^sup>* (\<lparr>wr_pc = Some (PutAlloc k v), wr_todo = ws\<rparr>, e) (\<lparr>wr_pc = None, wr_todo = (if isl r then [] else ws)\<rparr>, e')"
proof -
  let ?w = "\<lambda>pc. \<lparr>wr_pc = pc, wr_todo = ws\<rparr>" and ?ts = "next_timestamp e" and ?e1 = "e\<lparr>next_timestamp := next_timestamp e + 1\<rparr>"
  obtain a w1 where a: "do_append flt L RowPut (encode_kv k v) (wal e) = (a, w1)" by fastforce
  have 1: "writer_any L (?w (Some (PutAlloc k v)), e) (?w (Some (PutLog ?ts k v)), ?e1)" by (rule writer_anyI [of flt]) (simp add: writer_step_def)
  show ?thesis
  proof (cases a)
    case (Inl err)
    then have "r = Inl (Io err)" "e' = ?e1\<lparr>wal := w1\<rparr>" using assms a by (auto simp: eng_put_def Let_def)
    moreover have "writer_any L (?w (Some (PutLog ?ts k v)), ?e1) (\<lparr>wr_pc = None, wr_todo = []\<rparr>, ?e1\<lparr>wal := w1\<rparr>)"
      by (rule writer_anyI [of flt]) (simp add: writer_step_def a Inl)
    ultimately show ?thesis using 1 by auto
  next
    case (Inr q)
    let ?e3 = "?e1\<lparr>wal := w1, memtable_mgr := put_active L k ?ts (Some v) (memtable_mgr e)\<rparr>"
    obtain t where t: "art_insert k (memtable_loc L k) (art_index e) = Some t" "r = Inr ?ts" "e' = ?e3\<lparr>art_index := t, row_count := row_count e + 1\<rparr>"
      using assms a Inr by (auto simp: eng_put_def insert_row_def Let_def)
    have 2: "writer_any L (?w (Some (PutLog ?ts k v)), ?e1) (?w (Some (PutMemtable ?ts k v)), ?e1\<lparr>wal := w1\<rparr>)"
      by (rule writer_anyI [of flt]) (simp add: writer_step_def a Inr)
    have 3: "writer_any L (?w (Some (PutMemtable ?ts k v)), ?e1\<lparr>wal := w1\<rparr>) (?w (Some (PutIndex k)), ?e3)"
      by (rule writer_anyI [of flt]) (simp add: writer_step_def)
    have 4: "writer_any L (?w (Some (PutIndex k)), ?e3) (?w None, e')" by (rule writer_anyI [of flt]) (simp add: writer_step_def t)
    show ?thesis using t(2) writer_then [OF 1 writer_then [OF 2 writer_then [OF 3 r_into_rtranclp [of "writer_any L", OF 4]]]] by simp
  qed
qed

lemma delete_writer:
  assumes "eng_delete flt L k e = Some (r, e')"
  shows "(writer_any L)\<^sup>*\<^sup>* (\<lparr>wr_pc = Some (DeleteLookup k), wr_todo = ws\<rparr>, e) (\<lparr>wr_pc = None, wr_todo = (if isl r then [] else ws)\<rparr>, e')"
proof (cases "art_lookup (art_index e) k")
  case None
  have "writer_any L (\<lparr>wr_pc = Some (DeleteLookup k), wr_todo = ws\<rparr>, e) (\<lparr>wr_pc = None, wr_todo = ws\<rparr>, e)"
    by (rule writer_anyI) (simp add: writer_step_def None)
  then show ?thesis using assms None by (auto simp: eng_delete_def)
next
  case (Some loc)
  let ?w = "\<lambda>pc. \<lparr>wr_pc = pc, wr_todo = ws\<rparr>" and ?ts = "next_timestamp e" and ?e1 = "e\<lparr>next_timestamp := next_timestamp e + 1\<rparr>"
  obtain a w1 where a: "do_append flt L RowDelete k (wal e) = (a, w1)" by fastforce
  have 0: "writer_any L (?w (Some (DeleteLookup k)), e) (?w (Some (DeleteAlloc k)), e)" by (rule writer_anyI [of flt]) (simp add: writer_step_def Some)
  have 1: "writer_any L (?w (Some (DeleteAlloc k)), e) (?w (Some (DeleteLog ?ts k)), ?e1)" by (rule writer_anyI [of flt]) (simp add: writer_step_def)
  note r01 = writer_then [OF 0 writer_then [OF 1]]
  show ?thesis
  proof (cases a)
    case (Inl err)
    then have "r = Inl (Io err)" "e' = ?e1\<lparr>wal := w1\<rparr>" using assms a Some by (auto simp: eng_delete_def Let_def)
    moreover have "writer_any L (?w (Some (DeleteLog ?ts k)), ?e1) (\<lparr>wr_pc = None, wr_todo = []\<rparr>, ?e1\<lparr>wal := w1\<rparr>)"
      by (rule writer_anyI [of flt]) (simp add: writer_step_def a Inl)
    ultimately show ?thesis using r01 [OF r_into_rtranclp [of "writer_any L"]] by simp
  next
    case (Inr q)
    let ?e3 = "?e1\<lparr>wal := w1, memtable_mgr := put_active L k ?ts None (memtable_mgr e)\<rparr>"
    obtain t b where t: "art_delete k (art_index e) = Some (t, b)" "r = Inr True" "e' = ?e3\<lparr>art_index := t\<rparr>"
      using assms a Inr Some by (auto simp: eng_delete_def Let_def)
    have 2: "writer_any L (?w (Some (DeleteLog ?ts k)), ?e1) (?w (Some (DeleteMemtable ?ts k)), ?e1\<lparr>wal := w1\<rparr>)"
      by (rule writer_anyI [of flt]) (simp add: writer_step_def a Inr)
    have 3: "writer_any L (?w (Some (DeleteMemtable ?ts k)), ?e1\<lparr>wal := w1\<rparr>) (?w (Some (DeleteIndex k)), ?e3)"
      by (rule writer_anyI [of flt]) (simp add: writer_step_def)
    have 4: "writer_any L (?w (Some (DeleteIndex k)), ?e3) (?w None, e')" by (rule writer_anyI [of flt]) (simp add: writer_step_def t)
    show ?thesis using t(2) r01 [OF writer_then [OF 2 writer_then [OF 3 r_into_rtranclp [of "writer_any L", OF 4]]]] by simp
  qed
qed

lemma insert_rows_writer:
  "insert_rows L rows e = Some e' \<Longrightarrow> (writer_any L)\<^sup>*\<^sup>* (\<lparr>wr_pc = Some (BatchAlloc n rows), wr_todo = ws\<rparr>, e)
     (\<lparr>wr_pc = None, wr_todo = ws\<rparr>, e'\<lparr>row_count := row_count e' + n\<rparr>)"
proof (induction rows arbitrary: e)
  case Nil
  have "writer_any L (\<lparr>wr_pc = Some (BatchAlloc n []), wr_todo = ws\<rparr>, e) (\<lparr>wr_pc = None, wr_todo = ws\<rparr>, e\<lparr>row_count := row_count e + n\<rparr>)"
    by (rule writer_anyI) (simp add: writer_step_def)
  then show ?case using Nil by auto
next
  case (Cons r rows)
  obtain k v where r: "r = (k, v)" by fastforce
  let ?ts = "next_timestamp e" and ?e1 = "e\<lparr>next_timestamp := next_timestamp e + 1\<rparr>" and ?w = "\<lambda>pc. \<lparr>wr_pc = Some pc, wr_todo = ws\<rparr>"
  let ?e2 = "?e1\<lparr>memtable_mgr := put_active L k ?ts (Some v) (memtable_mgr e)\<rparr>"
  obtain e3 where e3: "insert_row L k ?ts (Some v) ?e1 = Some e3" "insert_rows L rows e3 = Some e'"
    using Cons.prems unfolding r insert_rows.simps bind_eq_Some_conv by blast
  then obtain t where t: "art_insert k (memtable_loc L k) (art_index e) = Some t" "e3 = ?e2\<lparr>art_index := t\<rparr>" by (auto simp: insert_row_def)
  have 1: "writer_any L (?w (BatchAlloc n (r # rows)), e) (?w (BatchMemtable ?ts k v n rows), ?e1)" by (rule writer_anyI) (simp add: writer_step_def r)
  have 2: "writer_any L (?w (BatchMemtable ?ts k v n rows), ?e1) (?w (BatchIndex k n rows), ?e2)" by (rule writer_anyI) (simp add: writer_step_def)
  have 3: "writer_any L (?w (BatchIndex k n rows), ?e2) (?w (BatchAlloc n rows), e3)" by (rule writer_anyI) (simp add: writer_step_def t)
  show ?case by (rule writer_then [OF 1 writer_then [OF 2 writer_then [OF 3 Cons.IH [OF e3(2)]]]])
qed

lemma batch_writer:
  assumes "put_batch_sync flt L rows e = Some (r, e')" and "rows \<noteq> []"
  shows "(writer_any L)\<^sup>*\<^sup>* (\<lparr>wr_pc = Some (BatchLog rows), wr_todo = ws\<rparr>, e) (\<lparr>wr_pc = None, wr_todo = (if isl r then [] else ws)\<rparr>, e')"
proof -
  obtain a w1 where a: "do_append flt L RowPut (encode_batch rows) (wal e) = (a, w1)" by fastforce
  show ?thesis
  proof (cases a)
    case (Inl err)
    have "writer_any L (\<lparr>wr_pc = Some (BatchLog rows), wr_todo = ws\<rparr>, e) (\<lparr>wr_pc = None, wr_todo = []\<rparr>, e\<lparr>wal := w1\<rparr>)"
      by (rule writer_anyI [of flt]) (simp add: writer_step_def a Inl)
    then show ?thesis using assms a Inl by (auto simp: put_batch_sync_def)
  next
    case (Inr q)
    let ?n = "word_of_nat (length rows)"
    obtain e1 where e1: "insert_rows L rows (e\<lparr>wal := w1\<rparr>) = Some e1" "r = Inr ?n" "e' = e1\<lparr>row_count := row_count e1 + ?n\<rparr>"
      using assms a Inr by (auto simp: put_batch_sync_def Let_def)
    have 1: "writer_any L (\<lparr>wr_pc = Some (BatchLog rows), wr_todo = ws\<rparr>, e) (\<lparr>wr_pc = Some (BatchAlloc ?n rows), wr_todo = ws\<rparr>, e\<lparr>wal := w1\<rparr>)"
      by (rule writer_anyI [of flt]) (simp add: writer_step_def a Inr)
    show ?thesis using writer_then [OF 1 insert_rows_writer [OF e1(1)]] e1(2,3) by simp
  qed
qed

lemma apply_writes_writer:
  "apply_writes flt L ws s = Some (r, s') \<Longrightarrow> (writer_any L)\<^sup>*\<^sup>* (new_writer ws, core s) (new_writer [], core s')"
proof (induction ws arbitrary: s)
  case (Cons x ws)
  obtain k b where x: "x = (k, b)" by fastforce
  have "writer_any L (new_writer (x # ws), core s) (\<lparr>wr_pc = Some (start_write x), wr_todo = ws\<rparr>, core s)"
    by (rule writer_anyI) (simp add: writer_step_def new_writer_def)
  moreover have "\<exists>q s1. (writer_any L)\<^sup>*\<^sup>* (\<lparr>wr_pc = Some (start_write x), wr_todo = ws\<rparr>, core s) (\<lparr>wr_pc = None, wr_todo = (if q then [] else ws)\<rparr>, core s1)
      \<and> (if q then s' = s1 else apply_writes flt L ws s1 = Some (r, s'))"
  proof (cases b)
    case None
    obtain q s1 where d: "db_delete (flt k) L k s = Some (q, s1)" using Cons.prems by (auto simp: x None split: option.splits)
    then have "eng_delete (flt k) L k (core s) = Some (q, core s1)" by (auto simp: db_delete_def delete_sync_def)
    from delete_writer [OF this, of ws] d Cons.prems show ?thesis
      by (cases q) (auto simp: x None start_write_def intro!: exI [of _ "isl q"] exI [of _ s1])
  next
    case (Some v)
    obtain q s1 where d: "db_put (flt k) L k v s = Some (q, s1)" using Cons.prems by (auto simp: x Some split: option.splits)
    then have "eng_put (flt k) L k v (core s) = Some (q, core s1)" by (auto simp: db_put_def put_sync_def)
    from put_writer [OF this, of ws] d Cons.prems show ?thesis
      by (cases q) (auto simp: x Some start_write_def intro!: exI [of _ "isl q"] exI [of _ s1])
  qed
  then obtain q s1 where q: "(writer_any L)\<^sup>*\<^sup>* (\<lparr>wr_pc = Some (start_write x), wr_todo = ws\<rparr>, core s) (new_writer (if q then [] else ws), core s1)"
    "if q then s' = s1 else apply_writes flt L ws s1 = Some (r, s')" by (auto simp: new_writer_def)
  moreover have "(writer_any L)\<^sup>*\<^sup>* (new_writer (if q then [] else ws), core s1) (new_writer [], core s')" using q(2) Cons.IH [of s1] by (cases q) simp_all
  ultimately show ?case by (meson converse_rtranclp_into_rtranclp rtranclp_trans)
qed simp

section \<open>Sessions side by side\<close>

text \<open>What other sessions do while a transaction is open, other than flushing and compacting: begin, lock
  keys, certify and then apply a write buffer, roll back, and write outside of transactions; the
  writes of different threads interleave at every point, those of bulk loads too. The clock of
  the engine does not wrap.\<close>

record sessions =
  ss_db :: database
  ss_writers :: "nat \<rightharpoonup> writer"

definition set_core :: "engine \<Rightarrow> database \<Rightarrow> database" where
  "set_core e db = db\<lparr>db_engine := (db_engine db)\<lparr>core := e\<rparr>\<rparr>"

inductive db_step :: "wal_lib \<Rightarrow> sessions \<Rightarrow> sessions \<Rightarrow> bool" for L where
  step_begin: "begin_transaction (ss_db v) = (h, db') \<Longrightarrow> db_step L v (v\<lparr>ss_db := db'\<rparr>)"
| step_lock: "buffer_write k b h (db_txn_manager (ss_db v)) = (r, h', m) \<Longrightarrow> db_step L v (v\<lparr>ss_db := (ss_db v)\<lparr>db_txn_manager := m\<rparr>\<rparr>)"
| step_abort: "rollback_transaction h (ss_db v) = (h', db') \<Longrightarrow> db_step L v (v\<lparr>ss_db := db'\<rparr>)"
| step_reject: "certify_commit h (ss_db v) = (Inl e, db') \<Longrightarrow> db_step L v (v\<lparr>ss_db := db'\<rparr>)"
| step_certify: "certify_commit h (ss_db v) = (Inr ts, db') \<Longrightarrow> ss_writers v i = None \<Longrightarrow>
    db_step L v \<lparr>ss_db = db', ss_writers = (ss_writers v)(i \<mapsto> new_writer (th_writes h))\<rparr>"
| step_autocommit: "ss_writers v i = None \<Longrightarrow> db_step L v (v\<lparr>ss_writers := (ss_writers v)(i \<mapsto> new_writer [(k, b)])\<rparr>)"
| step_write: "ss_writers v i = Some w \<Longrightarrow> writer_step flt L w (core (db_engine (ss_db v))) = Some (w', e') \<Longrightarrow>
    unat (next_timestamp (core (db_engine (ss_db v)))) + 1 < 2 ^ 64 \<Longrightarrow>
    db_step L v \<lparr>ss_db = set_core e' (ss_db v), ss_writers = (ss_writers v)(i \<mapsto> w')\<rparr>"
| step_done: "ss_writers v i = Some (new_writer []) \<Longrightarrow> db_step L v (v\<lparr>ss_writers := (ss_writers v)(i := None)\<rparr>)"
| step_bulk: "ss_writers v i = None \<Longrightarrow> rows \<noteq> [] \<Longrightarrow>
    db_step L v (v\<lparr>ss_writers := (ss_writers v)(i \<mapsto> \<lparr>wr_pc = Some (BatchLog rows), wr_todo = []\<rparr>)\<rparr>)"

text \<open>The writes that have a timestamp and have not reached the memtable.\<close>

fun pc_pending :: "write_pc \<Rightarrow> (u64 \<times> bytes) option" where
  "pc_pending (PutLog ts k v) = Some (ts, k)"
| "pc_pending (PutMemtable ts k v) = Some (ts, k)"
| "pc_pending (DeleteLog ts k) = Some (ts, k)"
| "pc_pending (DeleteMemtable ts k) = Some (ts, k)"
| "pc_pending (BatchMemtable ts k v n rows) = Some (ts, k)"
| "pc_pending _ = None"

definition writer_pending :: "writer \<Rightarrow> (u64 \<times> bytes) option" where
  "writer_pending w = Option.bind (wr_pc w) pc_pending"

definition inflight_keys :: "sessions \<Rightarrow> bytes set" where
  "inflight_keys v = {k. \<exists>i w ts. ss_writers v i = Some w \<and> writer_pending w = Some (ts, k)}"

definition writers_later :: "u64 \<Rightarrow> bytes set \<Rightarrow> sessions \<Rightarrow> bool" where
  "writers_later t X v \<longleftrightarrow> (\<forall>i w ts k. ss_writers v i = Some w \<longrightarrow> writer_pending w = Some (ts, k) \<longrightarrow> t < ts \<or> k \<in> X)"

lemma pc_step_keeps:
  assumes "write_pc_step flt L pc (core s) = Some (r, e')" and "memtable_ok L s" and "t < next_timestamp (core s)"
    and "unat (next_timestamp (core s)) + 1 < 2 ^ 64" and "\<And>ts k. pc_pending pc = Some (ts, k) \<Longrightarrow> t < ts \<or> k \<in> X"
  shows "keeps_snapshot L t X s (s\<lparr>core := e'\<rparr>) \<and> (\<forall>pc' ts k. r = Continue pc' \<longrightarrow> pc_pending pc' = Some (ts, k) \<longrightarrow> t < ts \<or> k \<in> X)"
proof -
  have c: "t < next_timestamp (core s) + 1" by (rule next_clock [OF assms(3,4)])
  have "memtable_mgr e' = memtable_mgr (core s) \<or> (\<exists>k ts v. pc_pending pc = Some (ts, k) \<and> memtable_mgr e' = put_active L k ts v (memtable_mgr (core s)))"
    using assms(1) by (cases "(flt, L, pc, core s)" rule: write_pc_step.cases) (auto split: prod.splits sum.splits)
  moreover have "t < next_timestamp e'"
    using assms(1,3) c by (cases "(flt, L, pc, core s)" rule: write_pc_step.cases) (auto split: prod.splits sum.splits)
  ultimately have "keeps_snapshot L t X s (s\<lparr>core := e'\<rparr>)"
  proof (elim disjE exE conjE)
    fix k ts v assume k: "pc_pending pc = Some (ts, k)" "memtable_mgr e' = put_active L k ts v (memtable_mgr (core s))" and "t < next_timestamp e'"
    then show ?thesis using assms(5) [OF k(1)] by (intro keeps_snapshot_write [OF assms(2), of t _ k ts v]) simp_all
  qed (simp add: keeps_snapshot_write [OF assms(2)])
  moreover have "t < ts \<or> k \<in> X" if "r = Continue pc'" "pc_pending pc' = Some (ts, k)" for pc' ts k
    using assms(1,3,5) that by (cases "(flt, L, pc, core s)" rule: write_pc_step.cases) (auto split: prod.splits sum.splits option.splits)
  ultimately show ?thesis by blast
qed

lemma writer_step_keeps:
  assumes "writer_step flt L w (core s) = Some (w', e')" and "memtable_ok L s" and "t < next_timestamp (core s)"
    and "unat (next_timestamp (core s)) + 1 < 2 ^ 64" and "\<And>ts k. writer_pending w = Some (ts, k) \<Longrightarrow> t < ts \<or> k \<in> X"
  shows "keeps_snapshot L t X s (s\<lparr>core := e'\<rparr>) \<and> (\<forall>ts k. writer_pending w' = Some (ts, k) \<longrightarrow> t < ts \<or> k \<in> X)"
proof (cases "wr_pc w")
  case None
  then obtain x ws where "w' = \<lparr>wr_pc = Some (start_write x), wr_todo = ws\<rparr>" "e' = core s"
    using assms(1) by (auto simp: writer_step_def split: list.splits)
  moreover have "pc_pending (start_write x) = None" by (simp add: start_write_def split: prod.split option.split)
  ultimately show ?thesis using keeps_snapshot_refl [OF assms(2,3)] by (simp add: writer_pending_def)
next
  case (Some pc)
  obtain r where r: "write_pc_step flt L pc (core s) = Some (r, e')"
    "w' = (case r of Continue pc' \<Rightarrow> w\<lparr>wr_pc := Some pc'\<rparr> | Finished (Inr _) \<Rightarrow> w\<lparr>wr_pc := None\<rparr> | Finished (Inl _) \<Rightarrow> \<lparr>wr_pc = None, wr_todo = []\<rparr>)"
    using assms(1) Some by (auto simp: writer_step_def)
  have "keeps_snapshot L t X s (s\<lparr>core := e'\<rparr>) \<and> (\<forall>pc' ts k. r = Continue pc' \<longrightarrow> pc_pending pc' = Some (ts, k) \<longrightarrow> t < ts \<or> k \<in> X)"
    by (rule pc_step_keeps [OF r(1) assms(2-4)]) (use assms(5) Some in \<open>simp add: writer_pending_def\<close>)
  then show ?thesis using r(2) by (auto simp: writer_pending_def split: write_outcome.splits sum.splits)
qed

lemma begin_engine: "begin_transaction db = (h, db') \<Longrightarrow> db_engine db' = db_engine db"
  by (auto simp: begin_transaction_def Let_def split: prod.splits)

lemma certify_engine: "certify_commit h db = (r, db') \<Longrightarrow> db_engine db' = db_engine db"
  by (auto simp: certify_commit_def split: prod.splits)

lemma writers_later_upd: "writers_later t X v \<Longrightarrow> (\<And>ts k. writer_pending w = Some (ts, k) \<Longrightarrow> t < ts \<or> k \<in> X) \<Longrightarrow>
    writers_later t X \<lparr>ss_db = db, ss_writers = (ss_writers v)(i \<mapsto> w)\<rparr>"
  by (auto simp: writers_later_def)

lemma db_step_keeps:
  assumes "db_step L v v'" and ok: "memtable_ok L (db_engine (ss_db v))" "t < next_timestamp (core (db_engine (ss_db v)))" "writers_later t X v"
  shows "keeps_snapshot L t X (db_engine (ss_db v)) (db_engine (ss_db v')) \<and> writers_later t X v'"
  using assms(1)
proof cases
  case (step_write i w flt w' e')
  have "keeps_snapshot L t X (db_engine (ss_db v)) ((db_engine (ss_db v))\<lparr>core := e'\<rparr>) \<and> (\<forall>ts k. writer_pending w' = Some (ts, k) \<longrightarrow> t < ts \<or> k \<in> X)"
    by (rule writer_step_keeps [OF step_write(3) ok(1,2) step_write(4)]) (use ok(3) step_write(2) in \<open>auto simp: writers_later_def\<close>)
  then show ?thesis using writers_later_upd [OF ok(3)] step_write(1) by (simp add: set_core_def)
next
  case (step_bulk i rows)
  then show ?thesis using keeps_snapshot_refl [OF ok(1,2)] ok(3) by (auto simp: writers_later_def writer_pending_def)
next
  case (step_certify h ts db' i)
  then show ?thesis using certify_engine [OF step_certify(2)] keeps_snapshot_refl [OF ok(1,2)] ok(3)
    by (simp add: writers_later_def writer_pending_def new_writer_def)
next
  case (step_autocommit i k b)
  then show ?thesis using keeps_snapshot_refl [OF ok(1,2)] ok(3) by (auto simp: writers_later_def writer_pending_def new_writer_def)
next
  case (step_begin h db')
  then show ?thesis using begin_engine [OF step_begin(2)] keeps_snapshot_refl [OF ok(1,2)] ok(3) by (simp add: writers_later_def)
next
  case (step_reject h e db')
  then show ?thesis using certify_engine [OF step_reject(2)] keeps_snapshot_refl [OF ok(1,2)] ok(3) by (simp add: writers_later_def)
qed (use keeps_snapshot_refl [OF ok(1,2)] ok(3) in \<open>auto simp: rollback_transaction_def writers_later_def\<close>)

lemma db_steps_keep:
  assumes "(db_step L)\<^sup>*\<^sup>* v v'" and "memtable_ok L (db_engine (ss_db v))" and "t < next_timestamp (core (db_engine (ss_db v)))" and "writers_later t X v"
  shows "keeps_snapshot L t X (db_engine (ss_db v)) (db_engine (ss_db v')) \<and> writers_later t X v'"
  using assms(1)
proof induction
  case base
  then show ?case using keeps_snapshot_refl assms(2-4) by blast
next
  case (step v1 v2)
  have "memtable_ok L (db_engine (ss_db v1))" "t < next_timestamp (core (db_engine (ss_db v1)))" using step.IH by (simp_all add: keeps_snapshot_def)
  from db_step_keeps [OF step.hyps(2) this conjunct2 [OF step.IH]] show ?case using keeps_snapshot_trans [OF conjunct1 [OF step.IH]] by blast
qed

text \<open>The rows of a snapshot are an ordered map.\<close>

lemma scan_entries_invar: "(\<And>bs st st'. P st \<Longrightarrow> f bs st = Some st' \<Longrightarrow> P st') \<Longrightarrow> P st \<Longrightarrow> scan_entries f data ens st = Some st' \<Longrightarrow> P st'"
  by (induction f data ens st rule: scan_entries.induct) (auto split: option.splits bind_splits)

lemma scan_files_invar:
  assumes f: "\<And>bs st st'. P st \<Longrightarrow> f bs st = Some st' \<Longrightarrow> P st'"
  shows "P st \<Longrightarrow> scan_files f d reg order st = Some st' \<Longrightarrow> P st'"
proof (induction order arbitrary: st)
  case (Cons i order)
  let ?o = "Option.bind (reg i) (\<lambda>en. Option.bind (d (sst_path en)) (\<lambda>data. Some (data, entries (block_index en))))"
  show ?case
  proof (cases ?o)
    case None
    then show ?thesis using Cons by simp
  next
    case (Some x)
    obtain data ens where x: "x = (data, ens)" by fastforce
    obtain st1 where st1: "scan_entries f data ens st = Some st1" "scan_files f d reg order st1 = Some st'"
      using Cons.prems(2) Some x by (auto simp only: scan_files.simps option.case prod.case bind_eq_Some_conv)
    have "P st1" by (rule scan_entries_invar [of P f, OF f Cons.prems(1) st1(1)])
    then show ?thesis by (rule Cons.IH [OF _ st1(2)])
  qed
qed simp

lemma fold_invar: "(\<And>x st. P st \<Longrightarrow> P (g x st)) \<Longrightarrow> P st \<Longrightarrow> P (fold g xs st)"
  by (induction xs arbitrary: st) auto

lemma om_invar_merge_at: "om_invar out \<Longrightarrow> om_invar (merge_row_at t row out)"
  by (auto simp: merge_row_at_def om.invar_ins om_invar_remove split: prod.splits)

lemma om_invar_override_at: "om_invar out \<Longrightarrow> om_invar (override_at t e out)"
  by (auto simp: override_at_def om.invar_ins om_invar_remove split: option.splits)

lemma om_invar_scan_block_at: "om_invar out \<Longrightarrow> scan_block_at h Z t bs out = Some out' \<Longrightarrow> om_invar out'"
  using fold_invar [of om_invar "merge_row_at t"] om_invar_merge_at
  by (auto simp: scan_block_at_def split: sum.splits option.splits if_splits)

lemma scan_all_at_invar: "scan_all_at Z L order s t = Some out \<Longrightarrow> om_invar out"
proof -
  assume "scan_all_at Z L order s t = Some out"
  then obtain out0 where out0: "scan_files (scan_block_at (xxh3_64 L) Z t) (data_dir s) (sst_registry s) order [] = Some out0"
    "out = fold (override_at t) (iter_all (active (memtable_mgr (core s)))) out0" unfolding scan_all_at_def by blast
  have "om_invar out0" by (rule scan_files_invar [where P = om_invar, OF om_invar_scan_block_at om.invar_empty out0(1)])
  then show ?thesis unfolding out0(2) by (intro fold_invar [where P = om_invar] om_invar_override_at)
qed

lemma overlay_get:
  "om_invar m \<Longrightarrow> distinct (map fst ws) \<Longrightarrow> om_invar (fold (overlay pfx) ws m)
     \<and> om_get (fold (overlay pfx) ws m) k = (if prefix pfx k then case map_of ws k of Some b \<Rightarrow> b | None \<Rightarrow> om_get m k else om_get m k)"
proof (induction ws arbitrary: m)
  case (Cons w ws)
  have inv: "om_invar (overlay pfx w m)"
    using Cons.prems(1) by (auto simp: overlay_def om.invar_ins om_invar_remove split: option.split)
  have get: "om_get (overlay pfx w m) k = (if k = fst w \<and> prefix pfx k then snd w else om_get m k)"
    using Cons.prems(1) by (auto simp: overlay_def om.get_ins om_get_remove split: option.split)
  have "map_of ws (fst w) = None" using Cons.prems(2) by (simp add: map_of_eq_None_iff)
  then show ?case using Cons.IH [OF inv] Cons.prems(2) get by (cases w; cases "k = fst w") (auto split: option.split)
qed simp

lemma collect_rows:
  assumes "distinct (map fst rows)"
  shows "om_invar (fold (\<lambda>(k, v, _) m. om_insert k v m) rows [])
    \<and> (om_get (fold (\<lambda>(k, v, _) m. om_insert k v m) rows []) k = Some v \<longleftrightarrow> (\<exists>ts. (k, v, ts) \<in> set rows))"
proof -
  have "om_invar m \<Longrightarrow> distinct (map fst rows) \<Longrightarrow> om_invar (fold (\<lambda>(k, v, _) m. om_insert k v m) rows m)
    \<and> om_get (fold (\<lambda>(k, v, _) m. om_insert k v m) rows m) k = (case map_of rows k of Some (v, _) \<Rightarrow> Some v | None \<Rightarrow> om_get m k)" for m
  proof (induction rows arbitrary: m)
    case (Cons r rows)
    obtain k' v' t' where r: "r = (k', v', t')" by (cases r) auto
    have "map_of rows k' = None" using Cons.prems(2) by (simp add: r map_of_eq_None_iff)
    then show ?case using Cons.IH [OF om.invar_ins [OF Cons.prems(1)], of k' v'] Cons.prems om.get_ins [OF Cons.prems(1)]
      by (auto simp: r split: option.split)
  qed simp
  note get = this [of "[]", OF om.invar_empty assms]
  have "(\<exists>ts. (k, v, ts) \<in> set rows) \<longleftrightarrow> (\<exists>ts. map_of rows k = Some (v, ts))" using map_of_eq_Some_iff [OF assms, of k] by simp
  then show ?thesis using get by (cases "map_of rows k") auto
qed

lemma scan_all_at_kept:
  assumes "keeps_snapshot L t X s s'" and "memtable_ok L s" and "scan_all_at Z L order s t = Some out"
  shows "\<exists>out'. scan_all_at Z L order s' t = Some out' \<and> (\<forall>k. k \<notin> X \<longrightarrow> om_get out' k = om_get out k)"
proof -
  let ?rs = "\<lambda>s. seen_rows t (active (memtable_mgr (core s)))"
  note k = assms(1) [unfolded keeps_snapshot_def]
  obtain out0 where out0: "scan_files (scan_block_at (xxh3_64 L) Z t) (data_dir s) (sst_registry s) order [] = Some out0" "out = fold seen_step (?rs s) out0"
    using assms(3) by (auto simp: scan_all_at_seen)
  have inv: "om_invar out0" by (rule scan_files_invar [where P = om_invar, OF om_invar_scan_block_at om.invar_empty out0(1)])
  have mt: "mt_invar (xxh3_64 L) (active (memtable_mgr (core s)))" "mt_invar (xxh3_64 L) (active (memtable_mgr (core s')))"
    using assms(2) k by (simp_all add: memtable_ok_def)
  then have d: "distinct (map fst (?rs s))" "distinct (map fst (?rs s'))" using seen_rows_keys(1) strict_sorted_iff by blast+
  have "om_get (fold seen_step (?rs s') out0) k = om_get out k" if "k \<notin> X" for k
    using that k unfolding out0(2) fold_seen_get [OF inv d(1)] fold_seen_get [OF inv d(2)] map_of_seen_rows [OF mt(1)] map_of_seen_rows [OF mt(2)] by simp
  then show ?thesis using out0(1) k by (simp add: scan_all_at_seen)
qed

lemma keeps_snapshot_scan:
  assumes "memtable_ok L s" and "keeps_snapshot L t {} s s'"
  shows "scan_all_at Z L order s' t = scan_all_at Z L order s t"
proof -
  note k = assms(2) [unfolded keeps_snapshot_def]
  have mt: "mt_invar (xxh3_64 L) (active (memtable_mgr (core s)))" "mt_invar (xxh3_64 L) (active (memtable_mgr (core s')))"
    using assms(1) k by (simp_all add: memtable_ok_def)
  have "set (seen_rows t (active (memtable_mgr (core s')))) = set (seen_rows t (active (memtable_mgr (core s))))"
  proof -
    have "(k, x) \<in> set (seen_rows t (active (memtable_mgr (core s')))) \<longleftrightarrow> (k, x) \<in> set (seen_rows t (active (memtable_mgr (core s))))" for k x
      using k by (simp add: seen_rows_entry [OF mt(1)] seen_rows_entry [OF mt(2)])
    then show ?thesis by auto
  qed
  then have "seen_rows t (active (memtable_mgr (core s'))) = seen_rows t (active (memtable_mgr (core s)))"
    by (rule sorted_keys_unique [OF seen_rows_keys(1) [OF mt(2)] seen_rows_keys(1) [OF mt(1)]])
  then show ?thesis using k by (simp add: scan_all_at_seen)
qed

lemma scan_prefix_entry:
  assumes "scan_all_at Z L order s t = Some out" and "scan_all_at_with_prefix Z L order s t p = Some rows"
  shows "(k, v, ts) \<in> set rows \<longleftrightarrow> prefix p k \<and> om_get out k = Some (v, ts)"
proof -
  have "rows = filter (\<lambda>(k, v, ts). prefix p k) out" using assms by (simp add: scan_all_at_with_prefix_def)
  then show ?thesis using om.entry_iff [OF scan_all_at_invar [OF assms(1)], of k "(v, ts)"] by auto
qed

text \<open>
  C6: Snapshot isolation. From the begin of a transaction on, let other sessions begin, write,
  commit and roll back transactions and write outside of transactions, with their writes
  interleaved at every point, but without a flush or a compaction. Whenever the transaction
  then reads a table, it sees its own buffered upserts, none of the rows it deleted, and for
  every other key exactly the row that the table had when it began, unless a write of that key
  was under way then: had taken its timestamp and not reached the memtable.
\<close>

theorem txn_snapshot_isolation:
  assumes "begin_transaction (ss_db v) = (h, db1)" and "memtable_ok L (db_engine (ss_db v))" and "next_timestamp (core (db_engine (ss_db v))) \<noteq> 0"
    and "(db_step L)\<^sup>*\<^sup>* (v\<lparr>ss_db := db1\<rparr>) v'" and "th_read_ts h' = th_read_ts h" and "om_invar (th_writes h')"
    and "scan_all_at_with_prefix Z L order (db_engine (ss_db v)) (latest_commit_ts (core (db_engine (ss_db v)))) (table @ [58]) = Some rows"
  shows "\<exists>rs. txn_table_rows Z L order (db_engine (ss_db v')) h' table = Some rs \<and> sorted_wrt (<) (map fst rs)
    \<and> (\<forall>k x. prefix (table @ [58]) k \<and> om_get (th_writes h') k \<noteq> None \<longrightarrow> ((k, x) \<in> set rs \<longleftrightarrow> om_get (th_writes h') k = Some (Some x)))
    \<and> (\<forall>k x. \<not> (prefix (table @ [58]) k \<and> om_get (th_writes h') k \<noteq> None) \<and> k \<notin> inflight_keys v \<longrightarrow>
         ((k, x) \<in> set rs \<longleftrightarrow> (\<exists>ts. (k, x, ts) \<in> set rows)))"
proof -
  let ?s = "db_engine (ss_db v)" and ?s' = "db_engine (ss_db v')" and ?p = "table @ [58]" and ?X = "inflight_keys v" and ?ws = "th_writes h'"
  let ?t = "latest_commit_ts (core ?s)"
  have t: "th_read_ts h = ?t" using assms(1) by (auto simp: begin_transaction_def new_txn_handle_def Let_def split: prod.splits)
  have "?t < next_timestamp (core ?s)" using assms(3) unat_gt_0 [of "next_timestamp (core ?s)"]
    by (simp add: latest_commit_ts_def word_less_nat_alt unat_minus_one)
  moreover have "writers_later ?t ?X (v\<lparr>ss_db := db1\<rparr>)" by (auto simp: writers_later_def inflight_keys_def)
  ultimately have k: "keeps_snapshot L ?t ?X ?s ?s'"
    using db_steps_keep [OF assms(4), of ?t ?X] assms(2) begin_engine [OF assms(1)] by simp
  obtain out where out: "scan_all_at Z L order ?s ?t = Some out" using assms(7) by (auto simp: scan_all_at_with_prefix_def)
  obtain out' where out': "scan_all_at Z L order ?s' ?t = Some out'" "\<And>k. k \<notin> ?X \<Longrightarrow> om_get out' k = om_get out k"
    using scan_all_at_kept [OF k assms(2) out] by blast
  obtain rows' where rows': "scan_all_at_with_prefix Z L order ?s' ?t ?p = Some rows'" "rows' = filter (\<lambda>(k, v, ts). prefix ?p k) out'"
    using out'(1) by (simp add: scan_all_at_with_prefix_def)
  have "distinct (map fst out')" using om.entries_distinct [OF scan_all_at_invar [OF out'(1)]] by simp
  then have d: "distinct (map fst rows')" unfolding rows'(2) by (rule distinct_map_filter)
  let ?base = "fold (\<lambda>(k, v, _) m. om_insert k v m) rows' []"
  have rs: "txn_table_rows Z L order ?s' h' table = Some (fold (overlay ?p) ?ws ?base)"
    using rows'(1) assms(5) t by (simp add: txn_table_rows_def Let_def)
  have dw: "distinct (map fst ?ws)" using om.entries_distinct [OF assms(6)] by simp
  note ov = overlay_get [OF conjunct1 [OF collect_rows [OF d]] dw, of ?p]
  have e: "(k, x) \<in> set (fold (overlay ?p) ?ws ?base) \<longleftrightarrow> (if prefix ?p k \<and> om_get ?ws k \<noteq> None then om_get ?ws k = Some (Some x)
      else \<exists>ts. (k, x, ts) \<in> set rows')" for k x
    using om.entry_iff [OF conjunct1 [OF ov], of k x] conjunct2 [OF ov, of k] conjunct2 [OF collect_rows [OF d], of k x]
    by (auto simp: om_get_map_of split: option.splits)
  moreover have "(k, x, ts) \<in> set rows' \<longleftrightarrow> (k, x, ts) \<in> set rows" if "k \<notin> ?X" for k x ts
    using scan_prefix_entry [OF out'(1) rows'(1), of k x ts] scan_prefix_entry [OF out assms(7), of k x ts] out'(2) [OF that] by simp
  ultimately show ?thesis using rs conjunct1 [OF ov] by (auto simp: om_invar_def)
qed

text \<open>A fresh database.\<close>

lemma fresh_database:
  assumes "lz4_ok L" "key_space K" "n \<le> 65000"
  obtains s where "open_store L cfg fcfg None [] Map.empty 1 = Some (Inr s)" "store_rel Z L K V n (prepare tables s) Map.empty"
    "next_timestamp (core (prepare tables s)) = 1" "memtable_ok L (prepare tables s)"
    "\<And>order t. scan_all_at Z L order (prepare tables s) t = Some []" "\<And>i. sst_registry (prepare tables s) i = None"
    "\<And>k. mt_lookup (xxh3_64 L) (active (memtable_mgr (core (prepare tables s)))) k = None"
proof -
  obtain s where s: "open_store L cfg fcfg None [] Map.empty 1 = Some (Inr s)" "next_timestamp (core s) = 1"
    "\<And>k. mt_lookup (xxh3_64 L) (active (memtable_mgr (core s))) k = None"
    "scan_rel Z L K V n (prepare tables s) Map.empty Map.empty"
    using fresh_scan [OF assms, of cfg fcfg Z V tables] by auto
  have ok: "memtable_ok L (prepare tables s)" using mt_invar_active [OF s(4)] by (simp add: memtable_ok_def)
  have "iter_all (active (memtable_mgr (core (prepare tables s)))) = []"
    by (rule iter_all_none [OF conjunct1 [OF mt_invar_active [OF s(4)]]]) (simp add: s(3))
  moreover have reg: "sst_registry (prepare tables s) i = None" for i
    using scan_relD(2) [OF s(4)] by (auto simp: file_rows_def dom_def)
  then have "scan_files f d (sst_registry (prepare tables s)) order st = Some st" for f d order and st :: "(bytes \<times> bytes \<times> u64) list"
    by (induction order) simp_all
  ultimately have "scan_all_at Z L order (prepare tables s) t = Some []" for order t by (simp add: scan_all_at_def)
  then show ?thesis using that [OF s(1) scan_relD(1) [OF s(4)]] s(2,3) reg ok by simp
qed

text \<open>A put that runs alone to the log, and from there to the index.\<close>

lemma writer_db_step:
  assumes "writer_step flt L w (core (db_engine db)) = Some (w', e')" and "unat (next_timestamp (core (db_engine db))) + 1 < 2 ^ 64"
  shows "db_step L \<lparr>ss_db = db, ss_writers = W(i \<mapsto> w)\<rparr> \<lparr>ss_db = set_core e' db, ss_writers = W(i \<mapsto> w')\<rparr>"
  using db_step.step_write [of "\<lparr>ss_db = db, ss_writers = W(i \<mapsto> w)\<rparr>" i w flt L w' e'] assms by simp

lemma put_takes_timestamp:
  assumes "unat (next_timestamp (core (db_engine db))) + 1 < 2 ^ 64"
  shows "(db_step L)\<^sup>*\<^sup>* \<lparr>ss_db = db, ss_writers = W(i \<mapsto> new_writer ((k, Some x) # ws))\<rparr>
      \<lparr>ss_db = set_core ((core (db_engine db))\<lparr>next_timestamp := next_timestamp (core (db_engine db)) + 1\<rparr>) db,
       ss_writers = W(i \<mapsto> \<lparr>wr_pc = Some (PutLog (next_timestamp (core (db_engine db))) k x), wr_todo = ws\<rparr>)\<rparr>"
proof -
  let ?e = "core (db_engine db)"
  have 1: "db_step L \<lparr>ss_db = db, ss_writers = W(i \<mapsto> new_writer ((k, Some x) # ws))\<rparr>
      \<lparr>ss_db = set_core ?e db, ss_writers = W(i \<mapsto> \<lparr>wr_pc = Some (PutAlloc k x), wr_todo = ws\<rparr>)\<rparr>"
    by (rule writer_db_step) (use assms in \<open>simp_all add: writer_step_def start_write_def new_writer_def\<close>)
  have s0: "set_core ?e db = db" by (simp add: set_core_def)
  have 2: "db_step L \<lparr>ss_db = db, ss_writers = W(i \<mapsto> \<lparr>wr_pc = Some (PutAlloc k x), wr_todo = ws\<rparr>)\<rparr>
      \<lparr>ss_db = set_core (?e\<lparr>next_timestamp := next_timestamp ?e + 1\<rparr>) db, ss_writers = W(i \<mapsto> \<lparr>wr_pc = Some (PutLog (next_timestamp ?e) k x), wr_todo = ws\<rparr>)\<rparr>"
    by (rule writer_db_step) (use assms in \<open>simp_all add: writer_step_def\<close>)
  show ?thesis by (rule converse_rtranclp_into_rtranclp [of "db_step L", OF 1 [unfolded s0]], rule r_into_rtranclp [of "db_step L", OF 2])
qed

lemma put_reaches_memtable:
  assumes "unat (next_timestamp (core (db_engine db))) + 1 < 2 ^ 64"
  shows "\<exists>e'. (db_step L)\<^sup>*\<^sup>* \<lparr>ss_db = db, ss_writers = W(i \<mapsto> \<lparr>wr_pc = Some (PutLog ts k x), wr_todo = ws\<rparr>)\<rparr>
      \<lparr>ss_db = set_core e' db, ss_writers = W(i \<mapsto> \<lparr>wr_pc = Some (PutIndex k), wr_todo = ws\<rparr>)\<rparr>
    \<and> memtable_mgr e' = put_active L k ts (Some x) (memtable_mgr (core (db_engine db)))"
proof -
  let ?e = "core (db_engine db)"
  obtain q w1 where a: "do_append NoIoFault L RowPut (encode_kv k x) (wal ?e) = (Inr q, w1)" using do_append_ok by blast
  let ?e2 = "?e\<lparr>wal := w1\<rparr>"
  let ?e3 = "?e2\<lparr>memtable_mgr := put_active L k ts (Some x) (memtable_mgr ?e)\<rparr>"
  have 1: "db_step L \<lparr>ss_db = db, ss_writers = W(i \<mapsto> \<lparr>wr_pc = Some (PutLog ts k x), wr_todo = ws\<rparr>)\<rparr>
      \<lparr>ss_db = set_core ?e2 db, ss_writers = W(i \<mapsto> \<lparr>wr_pc = Some (PutMemtable ts k x), wr_todo = ws\<rparr>)\<rparr>"
    by (rule writer_db_step [of NoIoFault]) (use assms a in \<open>simp_all add: writer_step_def\<close>)
  have "db_step L \<lparr>ss_db = set_core ?e2 db, ss_writers = W(i \<mapsto> \<lparr>wr_pc = Some (PutMemtable ts k x), wr_todo = ws\<rparr>)\<rparr>
      \<lparr>ss_db = set_core ?e3 (set_core ?e2 db), ss_writers = W(i \<mapsto> \<lparr>wr_pc = Some (PutIndex k), wr_todo = ws\<rparr>)\<rparr>"
    by (rule writer_db_step) (use assms in \<open>simp_all add: writer_step_def set_core_def\<close>)
  then have 2: "db_step L \<lparr>ss_db = set_core ?e2 db, ss_writers = W(i \<mapsto> \<lparr>wr_pc = Some (PutMemtable ts k x), wr_todo = ws\<rparr>)\<rparr>
      \<lparr>ss_db = set_core ?e3 db, ss_writers = W(i \<mapsto> \<lparr>wr_pc = Some (PutIndex k), wr_todo = ws\<rparr>)\<rparr>" by (simp add: set_core_def)
  have "(db_step L)\<^sup>*\<^sup>* \<lparr>ss_db = db, ss_writers = W(i \<mapsto> \<lparr>wr_pc = Some (PutLog ts k x), wr_todo = ws\<rparr>)\<rparr>
      \<lparr>ss_db = set_core ?e3 db, ss_writers = W(i \<mapsto> \<lparr>wr_pc = Some (PutIndex k), wr_todo = ws\<rparr>)\<rparr>"
    by (rule converse_rtranclp_into_rtranclp [of "db_step L", OF 1], rule r_into_rtranclp [of "db_step L", OF 2])
  then show ?thesis by (intro exI [of _ ?e3]) simp
qed

text \<open>A transaction begins while another session is about to write a key of the table; that write then
  takes its timestamp and reaches the memtable.\<close>

theorem txn_snapshot_isolation_witness:
  "\<exists>s h db1 v'. open_store demo_lib demo_eng_cfg demo_flush_cfg None [] Map.empty 1 = Some (Inr s)
    \<and> begin_transaction \<lparr>db_engine = prepare [] s, db_txn_manager = tm_new\<rparr> = (h, db1)
    \<and> (db_step demo_lib)\<^sup>*\<^sup>* \<lparr>ss_db = db1, ss_writers = [0 \<mapsto> new_writer [([116, 58, 2], Some [7])]]\<rparr> v'
    \<and> ss_writers v' 0 = Some \<lparr>wr_pc = Some (PutIndex [116, 58, 2]), wr_todo = []\<rparr>
    \<and> txn_table_rows demo_zstd demo_lib [] (db_engine (ss_db v')) (h\<lparr>th_writes := [([116, 58, 1], Some [9])]\<rparr>) [116] = Some [([116, 58, 1], [9])]"
proof -
  have ks: "key_space {}" by (simp add: key_space_def)
  obtain s where s: "open_store demo_lib demo_eng_cfg demo_flush_cfg None [] Map.empty 1 = Some (Inr s)"
    "next_timestamp (core (prepare [] s)) = 1" "memtable_ok demo_lib (prepare [] s)" "\<And>order t. scan_all_at demo_zstd demo_lib order (prepare [] s) t = Some []"
    by (rule fresh_database [OF demo_lib_ok ks, of 0 demo_eng_cfg demo_flush_cfg demo_zstd "{}" "[]"]) auto
  let ?db = "\<lparr>db_engine = prepare [] s, db_txn_manager = tm_new\<rparr>" and ?w = "new_writer [([116, 58, 2], Some [7])]"
  let ?v = "\<lparr>ss_db = ?db, ss_writers = [0 \<mapsto> ?w]\<rparr>"
  obtain h db1 where b: "begin_transaction ?db = (h, db1)" by fastforce
  have e: "db_engine db1 = prepare [] s" using begin_engine [OF b] by simp
  let ?e1 = "(core (db_engine db1))\<lparr>next_timestamp := next_timestamp (core (db_engine db1)) + 1\<rparr>"
  have cl: "unat (next_timestamp (core (db_engine db1))) + 1 < 2 ^ 64" "unat (next_timestamp (core (db_engine (set_core ?e1 db1)))) + 1 < 2 ^ 64"
    using s(2) e by (simp_all add: set_core_def)
  define w' where "w' = \<lparr>wr_pc = Some (PutIndex [116, 58, 2]), wr_todo = []\<rparr>"
  from put_reaches_memtable [OF cl(2), of demo_lib Map.empty 0 "next_timestamp (core (db_engine db1))" "[116, 58, 2]" "[7]" "[]"]
  obtain e' where e': "(db_step demo_lib)\<^sup>*\<^sup>* \<lparr>ss_db = set_core ?e1 db1, ss_writers = [0 \<mapsto> \<lparr>wr_pc = Some (PutLog (next_timestamp (core (db_engine db1))) [116, 58, 2] [7]), wr_todo = []\<rparr>]\<rparr>
      \<lparr>ss_db = set_core e' (set_core ?e1 db1), ss_writers = [0 \<mapsto> w']\<rparr>"
    unfolding w'_def by blast
  have "set_core e' (set_core ?e1 db1) = set_core e' db1" by (simp add: set_core_def)
  from rtranclp_trans [OF put_takes_timestamp [OF cl(1), of demo_lib Map.empty 0 "[116, 58, 2]" "[7]" "[]"] e' [unfolded this]]
  have "(db_step demo_lib)\<^sup>*\<^sup>* \<lparr>ss_db = db1, ss_writers = [0 \<mapsto> ?w]\<rparr> \<lparr>ss_db = set_core e' db1, ss_writers = [0 \<mapsto> w']\<rparr>" .
  note we = w'_def this
  let ?v' = "\<lparr>ss_db = set_core e' db1, ss_writers = [0 \<mapsto> w']\<rparr>" and ?h = "h\<lparr>th_writes := [([116, 58, 1], Some [9])]\<rparr>"
  have none: "inflight_keys ?v = {}" by (auto simp: inflight_keys_def writer_pending_def new_writer_def split: if_splits)
  have v: "begin_transaction (ss_db ?v) = (h, db1)" "memtable_ok demo_lib (db_engine (ss_db ?v))" "next_timestamp (core (db_engine (ss_db ?v))) \<noteq> 0"
    "(db_step demo_lib)\<^sup>*\<^sup>* (?v\<lparr>ss_db := db1\<rparr>) ?v'"
    "scan_all_at_with_prefix demo_zstd demo_lib [] (db_engine (ss_db ?v)) (latest_commit_ts (core (db_engine (ss_db ?v)))) ([116] @ [58]) = Some []"
    using b we(2) s(2-4) by (simp_all add: scan_all_at_with_prefix_def)
  have h: "th_read_ts ?h = th_read_ts h" "om_invar (th_writes ?h)" "om_get (th_writes ?h) k = (if k = [116, 58, 1] then Some (Some [9]) else None)" for k
    by (simp_all add: om_invar_def)
  from txn_snapshot_isolation [OF v(1-4) h(1,2) v(5)] obtain rs where
    rs: "txn_table_rows demo_zstd demo_lib [] (db_engine (ss_db ?v')) ?h [116] = Some rs" "sorted_wrt (<) (map fst rs)"
    "\<forall>k x. prefix ([116] @ [58]) k \<and> om_get (th_writes ?h) k \<noteq> None \<longrightarrow> ((k, x) \<in> set rs \<longleftrightarrow> om_get (th_writes ?h) k = Some (Some x))"
    "\<forall>k x. \<not> (prefix ([116] @ [58]) k \<and> om_get (th_writes ?h) k \<noteq> None) \<and> k \<notin> inflight_keys ?v \<longrightarrow> ((k, x) \<in> set rs \<longleftrightarrow> (\<exists>ts :: u64. (k, x, ts) \<in> set []))"
    by (elim exE conjE) (rule that)
  have own: "(k, x) \<in> set rs \<longleftrightarrow> x = [9]" if "k = [116, 58, 1]" for k x
    using rs(3) [rule_format, of k x] h(3) [of k] that by auto
  have other: "(k, x) \<notin> set rs" if "k \<noteq> [116, 58, 1]" for k x
    using rs(4) [rule_format, of k x] none h(3) [of k] that by simp
  have "(k, x) \<in> set rs \<longleftrightarrow> k = [116, 58, 1] \<and> x = [9]" for k x
    using own other by blast
  then have "rs = [([116, 58, 1], [9])]" by (intro sorted_keys_unique [OF rs(2)]) auto
  then have "txn_table_rows demo_zstd demo_lib [] (db_engine (ss_db ?v')) ?h [116] = Some [([116, 58, 1], [9])]" using rs(1) by simp
  moreover have "ss_writers ?v' 0 = Some \<lparr>wr_pc = Some (PutIndex [116, 58, 2]), wr_todo = []\<rparr>" using we(1) by simp
  ultimately show ?thesis using s(1) b we(2) by blast
qed

text \<open>
  The exception in the last property is real. A write of a key has taken its timestamp when a
  transaction begins; the transaction reads the table and finds it empty, the write reaches the
  memtable, and the same read in the same transaction returns the row.
\<close>

theorem inflight_write_appears:
  assumes "lz4_ok L" and "prefix (table @ [58]) k"
  shows "\<exists>s v1 h db1 v2. open_store L cfg fcfg None [] Map.empty 1 = Some (Inr s)
    \<and> (db_step L)\<^sup>*\<^sup>* \<lparr>ss_db = \<lparr>db_engine = prepare [] s, db_txn_manager = tm_new\<rparr>, ss_writers = [0 \<mapsto> new_writer [(k, Some x)]]\<rparr> v1
    \<and> begin_transaction (ss_db v1) = (h, db1) \<and> txn_table_rows Z L order (db_engine db1) h table = Some []
    \<and> (db_step L)\<^sup>*\<^sup>* (v1\<lparr>ss_db := db1\<rparr>) v2 \<and> txn_table_rows Z L order (db_engine (ss_db v2)) h table = Some [(k, x)]"
proof -
  have ks: "key_space {}" by (simp add: key_space_def)
  obtain s where s: "open_store L cfg fcfg None [] Map.empty 1 = Some (Inr s)" "next_timestamp (core (prepare [] s)) = 1"
    "memtable_ok L (prepare [] s)" "\<And>i. sst_registry (prepare [] s) i = None"
    "\<And>k. mt_lookup (xxh3_64 L) (active (memtable_mgr (core (prepare [] s)))) k = None"
    by (rule fresh_database [OF assms(1) ks, of 0 cfg fcfg Z "{}" "[]"]) auto
  let ?e = "core (prepare [] s)" and ?db = "\<lparr>db_engine = prepare [] s, db_txn_manager = tm_new\<rparr>"
  let ?e1 = "?e\<lparr>next_timestamp := 2\<rparr>" and ?pc = "\<lparr>wr_pc = Some (PutLog 1 k x), wr_todo = []\<rparr>"
  let ?v1 = "\<lparr>ss_db = set_core ?e1 ?db, ss_writers = [0 \<mapsto> ?pc]\<rparr>"
  have cl: "unat (next_timestamp (core (db_engine ?db))) + 1 < 2 ^ 64" using s(2) by simp
  have 1: "(db_step L)\<^sup>*\<^sup>* \<lparr>ss_db = ?db, ss_writers = [0 \<mapsto> new_writer [(k, Some x)]]\<rparr> ?v1"
    using put_takes_timestamp [OF cl, of L Map.empty 0 k x "[]"] s(2) by simp
  obtain h db1 where b: "begin_transaction (ss_db ?v1) = (h, db1)" by fastforce
  have h: "th_read_ts h = 1" "th_writes h = []"
    using b by (auto simp: begin_transaction_def new_txn_handle_def set_core_def latest_commit_ts_def Let_def split: prod.splits)
  have e1: "db_engine db1 = (prepare [] s)\<lparr>core := ?e1\<rparr>" using begin_engine [OF b] by (simp add: set_core_def)
  have "unat (next_timestamp (core (db_engine db1))) + 1 < 2 ^ 64" by (simp add: e1)
  from put_reaches_memtable [OF this, of L Map.empty 0 1 k x "[]"] obtain e' where e':
    "(db_step L)\<^sup>*\<^sup>* \<lparr>ss_db = db1, ss_writers = [0 \<mapsto> ?pc]\<rparr> \<lparr>ss_db = set_core e' db1, ss_writers = [0 \<mapsto> \<lparr>wr_pc = Some (PutIndex k), wr_todo = []\<rparr>]\<rparr>"
    "memtable_mgr e' = put_active L k 1 (Some x) (memtable_mgr (core (db_engine db1)))" by blast
  let ?act = "active (memtable_mgr (core s))"
  have mt: "mt_invar (xxh3_64 L) ?act" "\<not> sealed ?act" using s(3) by (simp_all add: memtable_ok_def)
  have none: "seen_key (xxh3_64 L) 1 ?act k' = None" for k' using s(5) [of k'] by (simp add: seen_key_def)
  have "sst_registry s i = None" for i using s(4) [of i] by simp
  then have files: "scan_files f d (sst_registry s) order st = Some st" for f d order and st :: "(bytes \<times> bytes \<times> u64) list"
    by (induction order) simp_all
  have rows: "txn_table_rows Z L order q h table = Some (map (\<lambda>(k, v, ts). (k, v)) rs)"
    if "scan_all_at Z L order q 1 = Some rs" "rs = [] \<or> rs = [(k, x, 1)]" for q rs
    using that assms(2) h by (auto simp: txn_table_rows_def scan_all_at_with_prefix_def)
  have "(a, b) \<notin> set (seen_rows 1 ?act)" for a b using seen_rows_entry [OF mt(1), of a b 1] none by simp
  then have "set (seen_rows 1 ?act) = {}" by (metis ex_in_conv surj_pair)
  then have "scan_all_at Z L order (db_engine db1) 1 = Some []" by (simp add: scan_all_at_seen e1 files)
  moreover have "seen_rows 1 (fst (mt_put (xxh3_64 L) k 1 (Some x) ?act)) = [(k, Some x, 1)]"
  proof (rule sorted_keys_unique [OF seen_rows_keys(1) [OF mt_invar_put [OF mt(1)]]])
    have "seen_key (xxh3_64 L) 1 (fst (mt_put (xxh3_64 L) k 1 (Some x) ?act)) k' = (if k' = k then Some (Some x, 1) else None)" for k'
      using s(5) [of k'] by (simp add: seen_key_def mt_lookup_put [OF mt])
    then show "set (seen_rows 1 (fst (mt_put (xxh3_64 L) k 1 (Some x) ?act))) = set [(k, Some x, 1)]"
      using seen_rows_entry [OF mt_invar_put [OF mt(1), of k 1 "Some x"], of _ _ 1] by (auto split: if_splits)
  qed simp
  then have "scan_all_at Z L order (db_engine (set_core e' db1)) 1 = Some [(k, x, 1)]"
    using e'(2) by (simp add: scan_all_at_seen set_core_def e1 files put_active_def seen_step_def seen_at_def)
  ultimately have "txn_table_rows Z L order (db_engine db1) h table = Some []" "txn_table_rows Z L order (db_engine (set_core e' db1)) h table = Some [(k, x)]"
    using rows by fastforce+
  then show ?thesis using s(1) 1 b e'(1) by (intro exI [of _ s] exI [of _ ?v1] exI [of _ h] exI [of _ db1]
      exI [of _ "\<lparr>ss_db = set_core e' db1, ss_writers = [0 \<mapsto> \<lparr>wr_pc = Some (PutIndex k), wr_todo = []\<rparr>]\<rparr>"]) simp
qed

text \<open>
  C14: Updates are lost. On any store that puts, deletes and flushes have built, let two transactions
  begin. While the first holds the lock of a key, a write of the key by the second fails; but once
  the first has committed, the second still reads the value from before, its write of the key
  succeeds, it commits, and the update of the first is gone.
\<close>

theorem lost_update:
  fixes ps :: "store_op list" and k x y :: bytes
  defines "K \<equiv> \<Union> (store_keys ` set ps) \<union> {k}" and "V \<equiv> \<Union> (store_values ` set ps) \<union> {x, y}"
  assumes "lz4_ok L" and "key_space K" and "store_env Z L (table_regs tables) K V" and "length ps * Suc (card K) + 2 \<le> 65000"
    and "open_store L cfg fcfg None [] Map.empty 1 = Some (Inr s)" and "store_run Z L compact ps (prepare tables s) = Some s1"
    and "next_timestamp (core s1) \<noteq> 0" and "unat (next_timestamp (core s1)) + 1 < 2 ^ 64"
    and "write_locks m k = None" and "unat (tm_next_timestamp m) + 2 < 2 ^ 64"
  shows "\<exists>h1 db1 h2 db2 h1' m2 db3 h2' m3 db4. begin_transaction \<lparr>db_engine = s1, db_txn_manager = m\<rparr> = (h1, db1) \<and> begin_transaction db1 = (h2, db2)
    \<and> buffer_write k (Some x) h1 (db_txn_manager db2) = (Inr (), h1', m2) \<and> buffer_write k (Some y) h2 m2 = (Inl WriteConflict, h2, m2)
    \<and> commit_transaction (\<lambda>_. NoIoFault) L h1' (db2\<lparr>db_txn_manager := m2\<rparr>) = Some (Inr (), db3) \<and> engine_get Z L (db_engine db3) k = Some (Some x)
    \<and> (\<forall>order. txn_lookup Z L order (db_engine db3) h2 k = txn_lookup Z L order s1 h2 k)
    \<and> buffer_write k (Some y) h2 (db_txn_manager db3) = (Inr (), h2', m3)
    \<and> commit_transaction (\<lambda>_. NoIoFault) L h2' (db3\<lparr>db_txn_manager := m3\<rparr>) = Some (Inr (), db4) \<and> engine_get Z L (db_engine db4) k = Some (Some y)"
proof -
  obtain s0 where s0: "open_store L cfg fcfg None [] Map.empty 1 = Some (Inr s0)" "columnar s0 = []"
    "store_rel Z L K V (2 + length ps * Suc (card K)) (prepare tables s0) Map.empty"
    using fresh_store [OF assms(3,4), of "2 + length ps * Suc (card K)" cfg fcfg Z V tables] assms(6) by auto
  have s: "s0 = s" using s0(1) assms(7) by simp
  have env: "store_env Z L (columnar (prepare tables s)) K V" using assms(5) columnar_prepare s0(2) s by simp
  have ops: "\<forall>p \<in> set ps. store_keys p \<subseteq> K \<and> store_values p \<subseteq> V" by (auto simp: K_def V_def)
  have kx: "k \<in> K" "x \<in> V" "y \<in> V" by (simp_all add: K_def V_def)
  have rel: "store_rel Z L K V (Suc 1) s1 (fold cell_step ps Map.empty)"
    using store_run_rel [OF env _ s0(3) [unfolded s] ops, of compact] assms(8) by (auto simp: numeral_2_eq_2)
  obtain ts1 s2 where p1: "db_put NoIoFault L k x s1 = Some (Inr ts1, s2)" "store_rel Z L K V (Suc 0) s2 ((fold cell_step ps Map.empty)(k \<mapsto> Live x))"
    using store_put_rel [OF rel kx(1,2)] by (auto simp: db_put_NoIoFault)
  obtain ts2 s3 where p2: "db_put NoIoFault L k y s2 = Some (Inr ts2, s3)" "store_rel Z L K V 0 s3 ((fold cell_step ps Map.empty)(k \<mapsto> Live x, k \<mapsto> Live y))"
    using store_put_rel [OF p1(2) kx(1,3)] by (auto simp: db_put_NoIoFault)
  have get: "engine_get Z L s2 k = Some (Some x)" "engine_get Z L s3 k = Some (Some y)" using engine_get_rel [OF p1(2)] engine_get_rel [OF p2(2)] by (simp_all add: visible_def)
  let ?t = "latest_commit_ts (core s1)" and ?n = "tm_next_timestamp m"
  have ok: "memtable_ok L s1" using store_relD(1) [OF rel] by (simp add: memtable_ok_def mm_invar_def)
  have lt: "?t < next_timestamp (core s1)" using assms(9) unat_gt_0 [of "next_timestamp (core s1)"]
    by (simp add: latest_commit_ts_def word_less_nat_alt unat_minus_one)
  have "keeps_snapshot L ?t {} s1 s2"
    using db_put_shape [OF p1(1)] lt next_clock [OF lt assms(10)] by (intro keeps_snapshot_write [OF ok, of _ _ k "next_timestamp (core s1)" "Some x"]) auto
  then have snap: "scan_all_at Z L order s2 ?t = scan_all_at Z L order s1 ?t" for order by (rule keeps_snapshot_scan [OF ok])
  have ids: "?n \<noteq> ?n + 1" by simp
  define m1 where "m1 = snd (tm_begin (snd (tm_begin m)))"
  define h where "h i = new_txn_handle ?t i" for i
  have b: "begin_transaction \<lparr>db_engine = s1, db_txn_manager = m\<rparr> = (h ?n, \<lparr>db_engine = s1, db_txn_manager = snd (tm_begin m)\<rparr>)"
    "begin_transaction \<lparr>db_engine = s1, db_txn_manager = snd (tm_begin m)\<rparr> = (h (?n + 1), \<lparr>db_engine = s1, db_txn_manager = m1\<rparr>)"
    by (simp_all add: begin_transaction_def tm_begin_def begin_stamp_def begin_register_def m1_def h_def)
  have l1: "write_locks m1 k = None" using assms(11) by (simp add: m1_def tm_begin_def begin_stamp_def begin_register_def)
  let ?h1 = "(h ?n)\<lparr>th_writes := [(k, Some x)]\<rparr>" and ?m2 = "m1\<lparr>write_locks := (write_locks m1)(k \<mapsto> ?n)\<rparr>"
  have w1: "buffer_write k (Some x) (h ?n) m1 = (Inr (), ?h1, ?m2)" "buffer_write k (Some y) (h (?n + 1)) ?m2 = (Inl WriteConflict, h (?n + 1), ?m2)"
    using l1 ids by (simp_all add: buffer_write_def acquire_write_lock_def h_def new_txn_handle_def)
  let ?h2 = "(h (?n + 1))\<lparr>th_writes := [(k, Some y)]\<rparr>"
  have ser: "\<not> th_serializable ?h1" "\<not> th_serializable ?h2" by (simp_all add: h_def new_txn_handle_def)
  obtain c1 db3 where c1: "certify_commit ?h1 \<lparr>db_engine = s1, db_txn_manager = ?m2\<rparr> = (Inr c1, db3)" "db_engine db3 = s1" "write_locks (db_txn_manager db3) k = None"
    using ser(1) by (simp add: certify_commit_def commit_serializable_def Let_def release_write_locks_def) (simp add: h_def new_txn_handle_def)
  have d1: "commit_transaction (\<lambda>_. NoIoFault) L ?h1 \<lparr>db_engine = s1, db_txn_manager = ?m2\<rparr> = Some (Inr (), db3\<lparr>db_engine := s2\<rparr>)"
    using c1(1,2) p1(1) by (simp add: commit_transaction_def)
  let ?m3 = "(db_txn_manager db3)\<lparr>write_locks := (write_locks (db_txn_manager db3))(k \<mapsto> ?n + 1)\<rparr>"
  have w2: "buffer_write k (Some y) (h (?n + 1)) (db_txn_manager db3) = (Inr (), ?h2, ?m3)"
    using c1(3) by (simp add: buffer_write_def acquire_write_lock_def h_def new_txn_handle_def)
  obtain c2 db4 where c2: "certify_commit ?h2 \<lparr>db_engine = s2, db_txn_manager = ?m3\<rparr> = (Inr c2, db4)" "db_engine db4 = s2"
    using ser(2) by (simp add: certify_commit_def commit_serializable_def Let_def)
  have d2: "commit_transaction (\<lambda>_. NoIoFault) L ?h2 \<lparr>db_engine = s2, db_txn_manager = ?m3\<rparr> = Some (Inr (), db4\<lparr>db_engine := s3\<rparr>)"
    using c2 p2(1) by (simp add: commit_transaction_def)
  have look: "txn_lookup Z L order s2 (h i) k = txn_lookup Z L order s1 (h i) k" for order i
    by (simp add: txn_lookup_def get_at_def scan_all_at_with_prefix_def snap record_read_def h_def new_txn_handle_def)
  have e3: "db3\<lparr>db_engine := s2, db_txn_manager := ?m3\<rparr> = \<lparr>db_engine = s2, db_txn_manager = ?m3\<rparr>" by simp
  show ?thesis
    by (rule exI [of _ "h ?n"], rule exI [of _ "\<lparr>db_engine = s1, db_txn_manager = snd (tm_begin m)\<rparr>"], rule exI [of _ "h (?n + 1)"],
        rule exI [of _ "\<lparr>db_engine = s1, db_txn_manager = m1\<rparr>"], rule exI [of _ ?h1], rule exI [of _ ?m2], rule exI [of _ "db3\<lparr>db_engine := s2\<rparr>"],
        rule exI [of _ ?h2], rule exI [of _ ?m3], rule exI [of _ "db4\<lparr>db_engine := s3\<rparr>"])
      (use b w1 d1 get look w2 d2 [folded e3] in simp)
qed

text \<open>
  C9: A transaction that begins while another one is between its certification and the application
  of its writes breaks serializability. The first transaction reads \<open>y\<close>, writes \<open>x\<close> and is
  certified; the second, which begins only then, does not find the write of \<open>x\<close> in its snapshot,
  writes \<open>y\<close>, and is certified too, since its own timestamp is above the commit timestamp
  of the first. Both are serializable, both commit, and neither has seen the write of the other.
\<close>

theorem commit_begin_race:
  assumes "lz4_ok L" and "key_space {x, y}" and "x \<noteq> y"
  shows "\<exists>s h1 h1' h1'' db1 m1 c1 db2 h2 h2' h2'' db3 m3 s4 db5.
    open_store L cfg fcfg None [] Map.empty 1 = Some (Inr s)
    \<and> begin_transaction_serializable \<lparr>db_engine = prepare [] s, db_txn_manager = tm_new\<rparr> = (h1, db1)
    \<and> txn_lookup Z L [] (db_engine db1) h1 y = Some (None, h1')
    \<and> buffer_write x (Some v) h1' (db_txn_manager db1) = (Inr (), h1'', m1)
    \<and> certify_commit h1'' (db1\<lparr>db_txn_manager := m1\<rparr>) = (Inr c1, db2)
    \<and> begin_transaction_serializable db2 = (h2, db3)
    \<and> txn_lookup Z L [] (db_engine db3) h2 x = Some (None, h2')
    \<and> buffer_write y (Some w) h2' (db_txn_manager db3) = (Inr (), h2'', m3)
    \<and> apply_writes (\<lambda>_. NoIoFault) L (th_writes h1'') (db_engine db3) = Some (Inr (), s4)
    \<and> commit_transaction (\<lambda>_. NoIoFault) L h2'' \<lparr>db_engine = s4, db_txn_manager = m3\<rparr> = Some (Inr (), db5)
    \<and> c1 < txn_id h2 \<and> engine_get Z L (db_engine db5) x = Some (Some v) \<and> engine_get Z L (db_engine db5) y = Some (Some w)"
proof -
  obtain s where s: "open_store L cfg fcfg None [] Map.empty 1 = Some (Inr s)"
    "store_rel Z L {x, y} {v, w} (1 + length [(x, Some v)]) (prepare [] s) Map.empty" "next_timestamp (core (prepare [] s)) = 1"
    "\<And>order t. scan_all_at Z L order (prepare [] s) t = Some []"
    by (rule fresh_database [OF assms(1,2), of "1 + length [(x, Some v)]"]) auto
  let ?e = "prepare [] s"
  have "\<exists>s' m'. apply_writes (\<lambda>_. NoIoFault) L [(x, Some v)] ?e = Some (Inr (), s') \<and> store_rel Z L {x, y} {v, w} 1 s' m'
      \<and> (\<forall>k. visible (m' k) = (case map_of [(x, Some v)] k of Some b \<Rightarrow> b | None \<Rightarrow> visible (Map.empty k)))"
    by (rule apply_writes_rel [OF s(2)]) auto
  then obtain s4 m4 where s4: "apply_writes (\<lambda>_. NoIoFault) L [(x, Some v)] ?e = Some (Inr (), s4)" "store_rel Z L {x, y} {v, w} (0 + length [(y, Some w)]) s4 m4"
    "\<And>k. visible (m4 k) = (case map_of [(x, Some v)] k of Some b \<Rightarrow> b | None \<Rightarrow> visible None)" by auto
  have "\<exists>s' m'. apply_writes (\<lambda>_. NoIoFault) L [(y, Some w)] s4 = Some (Inr (), s') \<and> store_rel Z L {x, y} {v, w} 0 s' m'
      \<and> (\<forall>k. visible (m' k) = (case map_of [(y, Some w)] k of Some b \<Rightarrow> b | None \<Rightarrow> visible (m4 k)))"
    by (rule apply_writes_rel [OF s4(2)]) auto
  then obtain s5 m5 where s5: "apply_writes (\<lambda>_. NoIoFault) L [(y, Some w)] s4 = Some (Inr (), s5)" "store_rel Z L {x, y} {v, w} 0 s5 m5"
    "\<And>k. visible (m5 k) = (case map_of [(y, Some w)] k of Some b \<Rightarrow> b | None \<Rightarrow> visible (m4 k))" by blast
  have look: "get_at Z L [] ?e k t = Some None" for k t using s(4) by (simp add: get_at_def scan_all_at_with_prefix_def)
  have get: "engine_get Z L s5 x = Some (Some v)" "engine_get Z L s5 y = Some (Some w)"
    using engine_get_rel [OF s5(2)] s5(3) s4(3) assms(3) by simp_all
  let ?k = "certified_keys [(x, Some v)]"
  have k: "?k \<noteq> []" by (simp add: certified_keys_def)
  define M1 :: txn_manager where "M1 = \<lparr>tm_next_timestamp = 2, active_snapshots = {1}, write_locks = Map.empty, committed_writes = []\<rparr>"
  define M2 :: txn_manager where "M2 = \<lparr>tm_next_timestamp = 3, active_snapshots = {}, write_locks = Map.empty, committed_writes = [(2, ?k)]\<rparr>"
  define M3 :: txn_manager where "M3 = \<lparr>tm_next_timestamp = 4, active_snapshots = {3}, write_locks = Map.empty, committed_writes = [(2, ?k)]\<rparr>"
  define h1 :: "u64 \<Rightarrow> txn_handle" where "h1 i = \<lparr>th_read_ts = 0, txn_id = i, th_writes = [], savepoints = [], th_reads = {}, th_serializable = True\<rparr>" for i
  have clk: "latest_commit_ts (core s) = 0" using s(3) by (simp add: latest_commit_ts_def)
  have b1: "begin_transaction_serializable \<lparr>db_engine = ?e, db_txn_manager = tm_new\<rparr> = (h1 1, \<lparr>db_engine = ?e, db_txn_manager = M1\<rparr>)"
    by (simp add: begin_transaction_serializable_def begin_transaction_def clk tm_defs new_txn_handle_def set_serializable_def h1_def M1_def)
  have b2: "begin_transaction_serializable \<lparr>db_engine = ?e, db_txn_manager = M2\<rparr> = (h1 3, \<lparr>db_engine = ?e, db_txn_manager = M3\<rparr>)"
    by (simp add: begin_transaction_serializable_def begin_transaction_def clk tm_defs new_txn_handle_def set_serializable_def h1_def M2_def M3_def)
  have l: "txn_lookup Z L [] ?e (h1 i) z = Some (None, (h1 i)\<lparr>th_reads := {z}\<rparr>)" for i z
    by (simp add: txn_lookup_def record_read_def h1_def look)
  have w: "buffer_write z b ((h1 i)\<lparr>th_reads := R\<rparr>) M = (Inr (), (h1 i)\<lparr>th_reads := R, th_writes := [(z, b)]\<rparr>, M\<lparr>write_locks := [z \<mapsto> i]\<rparr>)"
    if "write_locks M = Map.empty" for z b i R M
    using that by (simp add: buffer_write_def acquire_write_lock_def h1_def)
  have lt: "(1 :: u64) < 2" "\<not> (3 :: u64) < 2" "(2 :: u64) < 3" by simp_all
  have c1: "certify_commit ((h1 1)\<lparr>th_reads := {y}, th_writes := [(x, Some v)]\<rparr>) \<lparr>db_engine = ?e, db_txn_manager = M1\<lparr>write_locks := [x \<mapsto> 1]\<rparr>\<rparr>
    = (Inr 2, \<lparr>db_engine = ?e, db_txn_manager = M2\<rparr>)"
    using k by (simp add: certify_commit_def read_key_set_def h1_def M1_def M2_def tm_defs lt fun_eq_iff)
  have c2: "\<exists>ts M. certify_commit ((h1 3)\<lparr>th_reads := {x}, th_writes := [(y, Some w)]\<rparr>) \<lparr>db_engine = s4, db_txn_manager = M3\<lparr>write_locks := [y \<mapsto> 3]\<rparr>\<rparr>
    = (Inr ts, \<lparr>db_engine = s4, db_txn_manager = M\<rparr>)"
    by (simp add: certify_commit_def read_key_set_def h1_def M3_def commit_serializable_def rw_conflict_def lt Let_def)
  then obtain M where c: "commit_transaction (\<lambda>_. NoIoFault) L ((h1 3)\<lparr>th_reads := {x}, th_writes := [(y, Some w)]\<rparr>)
      \<lparr>db_engine = s4, db_txn_manager = M3\<lparr>write_locks := [y \<mapsto> 3]\<rparr>\<rparr> = Some (Inr (), \<lparr>db_engine = s5, db_txn_manager = M\<rparr>)"
    using s5(1) by (auto simp: commit_transaction_def h1_def)
  have M: "write_locks M1 = Map.empty" "write_locks M3 = Map.empty" by (simp_all add: M1_def M3_def)
  show ?thesis
    apply (rule exI [of _ s], rule exI [of _ "h1 1"], rule exI [of _ "(h1 1)\<lparr>th_reads := {y}\<rparr>"],
        rule exI [of _ "(h1 1)\<lparr>th_reads := {y}, th_writes := [(x, Some v)]\<rparr>"], rule exI [of _ "\<lparr>db_engine = ?e, db_txn_manager = M1\<rparr>"],
        rule exI [of _ "M1\<lparr>write_locks := [x \<mapsto> 1]\<rparr>"], rule exI [of _ 2], rule exI [of _ "\<lparr>db_engine = ?e, db_txn_manager = M2\<rparr>"],
        rule exI [of _ "h1 3"], rule exI [of _ "(h1 3)\<lparr>th_reads := {x}\<rparr>"], rule exI [of _ "(h1 3)\<lparr>th_reads := {x}, th_writes := [(y, Some w)]\<rparr>"],
        rule exI [of _ "\<lparr>db_engine = ?e, db_txn_manager = M3\<rparr>"], rule exI [of _ "M3\<lparr>write_locks := [y \<mapsto> 3]\<rparr>"], rule exI [of _ s4],
        rule exI [of _ "\<lparr>db_engine = s5, db_txn_manager = M\<rparr>"])
    using s(1) b1 b2 l w M c1 c s4(1) get by (simp add: h1_def)
qed

theorem commit_begin_race_witness:
  "\<exists>s h1 h1' h1'' db1 m1 c1 db2 h2 h2' h2'' db3 m3 s4 db5.
    open_store demo_lib demo_eng_cfg demo_flush_cfg None [] Map.empty 1 = Some (Inr s)
    \<and> begin_transaction_serializable \<lparr>db_engine = prepare [] s, db_txn_manager = tm_new\<rparr> = (h1, db1)
    \<and> txn_lookup demo_zstd demo_lib [] (db_engine db1) h1 [2] = Some (None, h1')
    \<and> buffer_write [1] (Some [10]) h1' (db_txn_manager db1) = (Inr (), h1'', m1)
    \<and> certify_commit h1'' (db1\<lparr>db_txn_manager := m1\<rparr>) = (Inr c1, db2)
    \<and> begin_transaction_serializable db2 = (h2, db3)
    \<and> txn_lookup demo_zstd demo_lib [] (db_engine db3) h2 [1] = Some (None, h2')
    \<and> buffer_write [2] (Some [20]) h2' (db_txn_manager db3) = (Inr (), h2'', m3)
    \<and> apply_writes (\<lambda>_. NoIoFault) demo_lib (th_writes h1'') (db_engine db3) = Some (Inr (), s4)
    \<and> commit_transaction (\<lambda>_. NoIoFault) demo_lib h2'' \<lparr>db_engine = s4, db_txn_manager = m3\<rparr> = Some (Inr (), db5)
    \<and> c1 < txn_id h2 \<and> engine_get demo_zstd demo_lib (db_engine db5) [1] = Some (Some [10])
    \<and> engine_get demo_zstd demo_lib (db_engine db5) [2] = Some (Some [20])"
  by (rule commit_begin_race [OF demo_lib_ok]) (simp_all add: key_space_def)

definition demo_txn :: txn_handle where
  "demo_txn = (new_txn_handle 1 1)\<lparr>th_writes := [([1], None), ([2], Some [20])]\<rparr>"

theorem txn_commit_refines_witness:
  "\<exists>s s1 db'. open_store demo_lib demo_eng_cfg demo_flush_cfg None [] Map.empty 1 = Some (Inr s)
    \<and> store_run demo_zstd demo_lib id [SPut [1] [10], SFlush] (prepare [] s) = Some s1
    \<and> commit_transaction (\<lambda>_. NoIoFault) demo_lib demo_txn \<lparr>db_engine = s1, db_txn_manager = tm_new\<rparr> = Some (Inr (), db')
    \<and> engine_get demo_zstd demo_lib (db_engine db') [1] = Some None \<and> engine_get demo_zstd demo_lib (db_engine db') [2] = Some (Some [20])"
proof -
  let ?ps = "[SPut [1] [10], SFlush]"
  have K: "\<Union> (store_keys ` set ?ps) \<union> fst ` set (th_writes demo_txn) = {[1], [2]}"
    and V: "\<Union> (store_values ` set ?ps) \<union> {v. Some v \<in> snd ` set (th_writes demo_txn)} = {[10], [20]}"
    by (auto simp: demo_txn_def)
  have ks: "key_space {[1], [2]}" by (simp add: key_space_def)
  have env: "store_env demo_zstd demo_lib (table_regs []) {[1], [2]} {[10], [20]}" by (rule demo_env) auto
  obtain s where s: "open_store demo_lib demo_eng_cfg demo_flush_cfg None [] Map.empty 1 = Some (Inr s)" "columnar s = []"
    "store_rel demo_zstd demo_lib {[1], [2]} {[10], [20]} (0 + length ?ps * Suc (card {[1] :: bytes, [2]})) (prepare [] s) Map.empty"
    using fresh_store [OF demo_lib_ok ks, of "0 + length ?ps * Suc (card {[1] :: bytes, [2]})" demo_eng_cfg demo_flush_cfg demo_zstd "{[10], [20]}" "[]"] by auto
  have env': "store_env demo_zstd demo_lib (columnar (prepare [] s)) {[1], [2]} {[10], [20]}" using env columnar_prepare [OF s(2)] by simp
  obtain s1 where s1: "store_run demo_zstd demo_lib id ?ps (prepare [] s) = Some s1"
    using store_run_rel [OF env' _ s(3), of id] by auto
  obtain ts db1 where c: "certify_commit demo_txn \<lparr>db_engine = s1, db_txn_manager = tm_new\<rparr> = (Inr ts, db1)"
    by (simp add: certify_commit_def commit_serializable_def Let_def demo_txn_def new_txn_handle_def)
  have "om_invar (th_writes demo_txn)" by (simp add: demo_txn_def om_invar_def)
  from txn_commit_refines [of demo_lib ?ps demo_txn demo_zstd "[]", unfolded K V, OF demo_lib_ok ks env _ this c s(1) s1] obtain db' where
    "commit_transaction (\<lambda>_. NoIoFault) demo_lib demo_txn \<lparr>db_engine = s1, db_txn_manager = tm_new\<rparr> = Some (Inr (), db')"
    "\<forall>k. engine_get demo_zstd demo_lib (db_engine db') k = (case om_get (th_writes demo_txn) k of Some b \<Rightarrow> Some b | None \<Rightarrow> engine_get demo_zstd demo_lib s1 k)"
    by (auto simp: demo_txn_def)
  then show ?thesis using s(1) s1 by (auto simp: demo_txn_def)
qed

theorem lost_update_witness:
  "\<exists>s s1 h1 db1 h2 db2 h1' m2 db3 h2' m3 db4. open_store demo_lib demo_eng_cfg demo_flush_cfg None [] Map.empty 1 = Some (Inr s)
    \<and> store_run demo_zstd demo_lib id [SPut [1] [10]] (prepare [] s) = Some s1
    \<and> begin_transaction \<lparr>db_engine = s1, db_txn_manager = tm_new\<rparr> = (h1, db1) \<and> begin_transaction db1 = (h2, db2)
    \<and> buffer_write [1] (Some [11]) h1 (db_txn_manager db2) = (Inr (), h1', m2)
    \<and> commit_transaction (\<lambda>_. NoIoFault) demo_lib h1' (db2\<lparr>db_txn_manager := m2\<rparr>) = Some (Inr (), db3) \<and> engine_get demo_zstd demo_lib (db_engine db3) [1] = Some (Some [11])
    \<and> buffer_write [1] (Some [12]) h2 (db_txn_manager db3) = (Inr (), h2', m3)
    \<and> commit_transaction (\<lambda>_. NoIoFault) demo_lib h2' (db3\<lparr>db_txn_manager := m3\<rparr>) = Some (Inr (), db4) \<and> engine_get demo_zstd demo_lib (db_engine db4) [1] = Some (Some [12])"
proof -
  let ?ps = "[SPut [1] [10]]"
  have K: "\<Union> (store_keys ` set ?ps) \<union> {[1]} = {[1]}" and V: "\<Union> (store_values ` set ?ps) \<union> {[11], [12]} = {[10], [11], [12]}" by auto
  have ks: "key_space {[1]}" by (simp add: key_space_def)
  have env: "store_env demo_zstd demo_lib (table_regs []) {[1]} {[10], [11], [12]}" by (rule demo_env) auto
  obtain s where s: "open_store demo_lib demo_eng_cfg demo_flush_cfg None [] Map.empty 1 = Some (Inr s)"
    "store_rel demo_zstd demo_lib {[1]} {[10], [11], [12]} (Suc 2) (prepare [] s) Map.empty" "next_timestamp (core (prepare [] s)) = 1"
    by (rule fresh_database [OF demo_lib_ok ks, of "Suc 2"]) auto
  obtain ts s1 where p: "db_put NoIoFault demo_lib [1] [10] (prepare [] s) = Some (Inr ts, s1)"
    using store_put_rel [OF s(2), of "[1]" "[10]"] by (auto simp: db_put_NoIoFault)
  have run: "store_run demo_zstd demo_lib id ?ps (prepare [] s) = Some s1" using p by (simp add: db_put_NoIoFault)
  have clk: "next_timestamp (core s1) = 2" using db_put_shape [OF p] s(3) by simp
  note lu = lost_update [of demo_lib ?ps "[1]" demo_zstd "[]" "[11]" "[12]", unfolded K V, OF demo_lib_ok ks env _ s(1) run, where m = tm_new]
  show ?thesis using lu s(1) run clk by (simp add: tm_new_def) blast
qed

end
