(* ===== verification/RowCodec.thy ===== *)
theory RowCodec
  imports Format Utf8
begin

text \<open>
  Values, rows and scalar expressions of the SQL layer (\<open>planner.rs\<close>, \<open>row_codec.rs\<close>,
  \<open>scalar.rs\<close> and the catalog entries of \<open>executor.rs\<close>, all in \<open>galaxdb-sql/src\<close>). A row is
  stored as the text \<open>c1=v1|c2=v2|...\<close>; a bar in a value is escaped by a backslash.
\<close>

section \<open>Values and the catalog\<close>

datatype sql_value =
  Integer i64 | Float u64 | Text bytes | Bool bool | Null | Blob bytes | Array "sql_value list"

type_synonym row = "(bytes \<times> sql_value) list"

record catalog_column =
  cc_name :: bytes
  cc_data_type :: bytes
  cc_nullable :: bool
  cc_primary_key :: bool
  cc_is_embedding_source :: bool

datatype storage_mode = Legacy | ColumnarMode

record table_entry =
  te_name :: bytes
  te_columns :: "catalog_column list"
  te_has_embedding :: bool
  te_append_only :: bool
  te_storage_mode :: storage_mode

type_synonym catalog = "bytes \<rightharpoonup> table_entry"

datatype filter_expr =
    Eq bytes sql_value | Lt bytes sql_value | Gt bytes sql_value | Le bytes sql_value | Ge bytes sql_value | Ne bytes sql_value
  | And filter_expr filter_expr | Or filter_expr filter_expr | NotDuplicate

text \<open>The derived equality of values.\<close>

fun value_eq :: "f64_lib \<Rightarrow> sql_value \<Rightarrow> sql_value \<Rightarrow> bool" and values_eq :: "f64_lib \<Rightarrow> sql_value list \<Rightarrow> sql_value list \<Rightarrow> bool" where
  "value_eq F (Integer a) w \<longleftrightarrow> (case w of Integer b \<Rightarrow> a = b | _ \<Rightarrow> False)"
| "value_eq F (Float a) w \<longleftrightarrow> (case w of Float b \<Rightarrow> f64_eq F a b | _ \<Rightarrow> False)"
| "value_eq F (Text a) w \<longleftrightarrow> (case w of Text b \<Rightarrow> a = b | _ \<Rightarrow> False)"
| "value_eq F (Bool a) w \<longleftrightarrow> (case w of Bool b \<Rightarrow> a = b | _ \<Rightarrow> False)"
| "value_eq F Null w \<longleftrightarrow> (case w of Null \<Rightarrow> True | _ \<Rightarrow> False)"
| "value_eq F (Blob a) w \<longleftrightarrow> (case w of Blob b \<Rightarrow> a = b | _ \<Rightarrow> False)"
| "value_eq F (Array xs) w \<longleftrightarrow> (case w of Array ys \<Rightarrow> values_eq F xs ys | _ \<Rightarrow> False)"
| "values_eq F [] ys \<longleftrightarrow> ys = []"
| "values_eq F (x # xs) ys \<longleftrightarrow> (case ys of [] \<Rightarrow> False | y # ys \<Rightarrow> value_eq F x y \<and> values_eq F xs ys)"

section \<open>The row codec\<close>

definition align_values :: "table_entry \<Rightarrow> bytes list \<Rightarrow> sql_value list \<Rightarrow> galax_error + row" where
  "align_values te columns vs =
     (if columns = [] then
        if length vs > length (te_columns te) then Inl (Internal ''value count exceeds column count'')
        else Inr (zip (map cc_name (te_columns te)) vs)
      else if length columns \<noteq> length vs then Inl (Internal ''column count does not match value count'')
      else Inr (zip columns vs))"

fun value_display :: "f64_lib \<Rightarrow> sql_value \<Rightarrow> bytes" and array_items :: "f64_lib \<Rightarrow> nat \<Rightarrow> sql_value list \<Rightarrow> bytes" where
  "value_display F (Integer n) = i64_display n"
| "value_display F (Float f) = f64_display F f"
| "value_display F (Text s) = s"
| "value_display F (Bool b) = bool_display b"
| "value_display F Null = ascii ''NULL''"
| "value_display F (Blob bs) = concat (map hex_byte bs)"
| "value_display F (Array items) = [123] @ array_items F 0 items @ [125]"
| "array_items F i [] = []"
| "array_items F i (item # items) = (if i > 0 then [44] else []) @ value_display F item @ array_items F (Suc i) items"

definition has_point :: "bytes \<Rightarrow> bool" where
  "has_point s \<longleftrightarrow> 46 \<in> set s \<or> 101 \<in> set s \<or> 69 \<in> set s"

definition value_from_str :: "f64_lib \<Rightarrow> bytes \<Rightarrow> sql_value" where
  "value_from_str F s =
     (if s = ascii ''NULL'' then Null
      else if s = ascii ''true'' then Bool True
      else if s = ascii ''false'' then Bool False
      else case parse_i64 s of
             Some i \<Rightarrow> Integer i
           | None \<Rightarrow>
             case f64_parse F s of
               Some f \<Rightarrow> if has_point s then Float f else Text s
             | None \<Rightarrow> Text s)"

definition build_primary_key :: "f64_lib \<Rightarrow> bytes \<Rightarrow> table_entry \<Rightarrow> row \<Rightarrow> galax_error + bytes" where
  "build_primary_key F table te ordered =
     (let pk_value = (case find cc_primary_key (te_columns te) of
                        Some pk_col \<Rightarrow> map_option snd (find (\<lambda>(n, _). n = cc_name pk_col) ordered)
                      | None \<Rightarrow> (case ordered of [] \<Rightarrow> None | (_, v) # _ \<Rightarrow> Some v))
      in case pk_value of
           None \<Rightarrow> Inl (Internal ''cannot build primary key: row has no values'')
         | Some v \<Rightarrow> Inr (table @ [58] @ value_display F v))"

definition replace_bar :: "bytes \<Rightarrow> bytes" where
  "replace_bar s = concat (map (\<lambda>c. if c = 124 then [92, 124] else [c]) s)"

fun encode_cols :: "f64_lib \<Rightarrow> nat \<Rightarrow> row \<Rightarrow> bytes \<Rightarrow> bytes" where
  "encode_cols F i [] out = out"
| "encode_cols F i ((col, val) # cols) out =
     (let out = (if i > 0 then out @ [124] else out);
          out = out @ col @ [61];
          rendered = value_display F val
      in encode_cols F (Suc i) cols (out @ (if 124 \<in> set rendered then replace_bar rendered else rendered)))"

definition encode_row :: "f64_lib \<Rightarrow> row \<Rightarrow> bytes" where
  "encode_row F ordered = encode_cols F 0 ordered []"

function escape_loop :: "bytes \<Rightarrow> bytes \<Rightarrow> bytes list \<Rightarrow> bytes list" where
  "escape_loop [] current parts = (if current \<noteq> [] \<or> parts \<noteq> [] then parts @ [current] else parts)"
| "escape_loop (c # cs) current parts =
     (if c = 92 then
        if cs \<noteq> [] \<and> hd cs = 124 then escape_loop (tl cs) (current @ [124]) parts
        else escape_loop cs (current @ [92]) parts
      else if c = 124 then escape_loop cs [] (parts @ [current])
      else escape_loop cs (current @ [c]) parts)"
  by pat_completeness auto
termination by (relation "measure (\<lambda>(s, _, _). length s)") auto

definition split_respecting_escape :: "bytes \<Rightarrow> bytes list" where
  "split_respecting_escape s = escape_loop s [] []"

definition split_once :: "u8 \<Rightarrow> bytes \<Rightarrow> (bytes \<times> bytes) option" where
  "split_once c s = (if c \<in> set s then Some (takeWhile (\<lambda>x. x \<noteq> c) s, tl (dropWhile (\<lambda>x. x \<noteq> c) s)) else None)"

definition decode_part :: "f64_lib \<Rightarrow> bytes \<Rightarrow> row" where
  "decode_part F part = (case split_once 61 part of Some (col, val) \<Rightarrow> [(col, value_from_str F val)] | None \<Rightarrow> [])"

definition decode_row :: "f64_lib \<Rightarrow> bytes \<Rightarrow> row" where
  "decode_row F bs = concat (map (decode_part F) (split_respecting_escape (from_utf8_lossy bs)))"

section \<open>Filters\<close>

definition column_value :: "row \<Rightarrow> bytes \<Rightarrow> sql_value option" where
  "column_value row column = map_option snd (find (\<lambda>(n, _). n = column) row)"

definition compare_values :: "row \<Rightarrow> bytes \<Rightarrow> sql_value \<Rightarrow> (sql_value \<Rightarrow> sql_value \<Rightarrow> bool) \<Rightarrow> bool" where
  "compare_values row column val pred =
     (case map_option snd (find (\<lambda>(n, _). n = column) row) of Some v \<Rightarrow> pred v val | None \<Rightarrow> False)"

fun to_f64 :: "f64_lib \<Rightarrow> sql_value option \<Rightarrow> u64 option" where
  "to_f64 F (Some (Integer n)) = Some (f64_of_i64 F n)"
| "to_f64 F (Some (Float f)) = Some f"
| "to_f64 F (Some (Text s)) = f64_parse F s"
| "to_f64 F (Some (Bool b)) = Some (f64_of_i64 F (if b then 1 else 0))"
| "to_f64 F _ = None"

definition cmp_order :: "f64_lib \<Rightarrow> row \<Rightarrow> bytes \<Rightarrow> sql_value \<Rightarrow> (u64 \<Rightarrow> u64 \<Rightarrow> bool) \<Rightarrow> bool" where
  "cmp_order F row column val pred =
     (case (to_f64 F (column_value row column), to_f64 F (Some val)) of (Some a, Some b) \<Rightarrow> pred a b | _ \<Rightarrow> False)"

fun filter_matches :: "f64_lib \<Rightarrow> row \<Rightarrow> filter_expr \<Rightarrow> bool" where
  "filter_matches F row (Eq c v) \<longleftrightarrow> compare_values row c v (value_eq F)"
| "filter_matches F row (Ne c v) \<longleftrightarrow> compare_values row c v (\<lambda>a b. \<not> value_eq F a b)"
| "filter_matches F row (Lt c v) \<longleftrightarrow> cmp_order F row c v (\<lambda>a b. f64_less F a b)"
| "filter_matches F row (Gt c v) \<longleftrightarrow> cmp_order F row c v (\<lambda>a b. f64_less F b a)"
| "filter_matches F row (Le c v) \<longleftrightarrow> cmp_order F row c v (\<lambda>a b. f64_le F a b)"
| "filter_matches F row (Ge c v) \<longleftrightarrow> cmp_order F row c v (\<lambda>a b. f64_le F b a)"
| "filter_matches F row (And a b) \<longleftrightarrow> filter_matches F row a \<and> filter_matches F row b"
| "filter_matches F row (Or a b) \<longleftrightarrow> filter_matches F row a \<or> filter_matches F row b"
| "filter_matches F row NotDuplicate \<longleftrightarrow> True"

section \<open>Scalar expressions\<close>

datatype arith_op = Add | Sub | Mul | Div | Mod | Concat

datatype scalar_expr = Literal sql_value | Column bytes | Binary arith_op scalar_expr scalar_expr | Neg scalar_expr

datatype num = NumInt i64 | NumFlt u64

definition arith_overflow :: galax_error where
  "arith_overflow = Arithmetic ''22003'' ''integer out of range''"

definition div_zero :: galax_error where
  "div_zero = Arithmetic ''22012'' ''division by zero''"

definition to_num :: "f64_lib \<Rightarrow> sql_value \<Rightarrow> galax_error + num" where
  "to_num F v =
     (case v of
        Integer n \<Rightarrow> Inr (NumInt n)
      | Float f \<Rightarrow> Inr (NumFlt f)
      | Text s \<Rightarrow>
        (let t = trim s
         in case parse_i64 t of
              Some i \<Rightarrow> Inr (NumInt i)
            | None \<Rightarrow>
              case f64_parse F t of
                Some f \<Rightarrow> Inr (NumFlt f)
              | None \<Rightarrow> Inl (Arithmetic ''42804'' ''operand is not a number in an arithmetic expression''))
      | _ \<Rightarrow> Inl (Arithmetic ''42804'' ''cannot use as an arithmetic operand''))"

text \<open>The checked operations of \<open>i64\<close>: the mathematical result if it is in range.\<close>

definition checked_i64 :: "int \<Rightarrow> galax_error + sql_value" where
  "checked_i64 v = (if - (2 ^ 63) \<le> v \<and> v < 2 ^ 63 then Inr (Integer (word_of_int v)) else Inl arith_overflow)"

definition trunc_div :: "int \<Rightarrow> int \<Rightarrow> int" where
  "trunc_div a b = (if (a < 0) = (b < 0) then \<bar>a\<bar> div \<bar>b\<bar> else - (\<bar>a\<bar> div \<bar>b\<bar>))"

definition trunc_rem :: "int \<Rightarrow> int \<Rightarrow> int" where
  "trunc_rem a b = a - trunc_div a b * b"

definition negate_num :: "f64_lib \<Rightarrow> num \<Rightarrow> galax_error + sql_value" where
  "negate_num F m = (case m of NumInt n \<Rightarrow> checked_i64 (- sint n) | NumFlt f \<Rightarrow> Inr (Float (f64_neg F f)))"

definition negate :: "f64_lib \<Rightarrow> sql_value \<Rightarrow> galax_error + sql_value" where
  "negate F v =
     (case v of
        Null \<Rightarrow> Inr Null
      | Integer n \<Rightarrow> checked_i64 (- sint n)
      | Float f \<Rightarrow> Inr (Float (f64_neg F f))
      | other \<Rightarrow> (case to_num F other of Inl e \<Rightarrow> Inl e | Inr m \<Rightarrow> negate_num F m))"

definition concat_text :: "f64_lib \<Rightarrow> sql_value \<Rightarrow> bytes" where
  "concat_text F v =
     (case v of
        Text s \<Rightarrow> s
      | Integer n \<Rightarrow> i64_display n
      | Float f \<Rightarrow> f64_display F f
      | Bool b \<Rightarrow> bool_display b
      | other \<Rightarrow> value_display F other)"

definition as_f64 :: "f64_lib \<Rightarrow> num \<Rightarrow> u64" where
  "as_f64 F m = (case m of NumInt i \<Rightarrow> f64_of_i64 F i | NumFlt f \<Rightarrow> f)"

definition apply_int :: "arith_op \<Rightarrow> i64 \<Rightarrow> i64 \<Rightarrow> galax_error + sql_value" where
  "apply_int op a b =
     (case op of
        Add \<Rightarrow> checked_i64 (sint a + sint b)
      | Sub \<Rightarrow> checked_i64 (sint a - sint b)
      | Mul \<Rightarrow> checked_i64 (sint a * sint b)
      | Div \<Rightarrow> if b = 0 then Inl div_zero else checked_i64 (trunc_div (sint a) (sint b))
      | Mod \<Rightarrow> if b = 0 then Inl div_zero
               else if sint a = - (2 ^ 63) \<and> sint b = - 1 then Inl arith_overflow
               else checked_i64 (trunc_rem (sint a) (sint b))
      | Concat \<Rightarrow> Inl (Internal ''unreachable''))"

definition apply_f64 :: "f64_lib \<Rightarrow> arith_op \<Rightarrow> u64 \<Rightarrow> u64 \<Rightarrow> galax_error + sql_value" where
  "apply_f64 F op x y =
     (case op of
        Add \<Rightarrow> Inr (Float (f64_add F x y))
      | Sub \<Rightarrow> Inr (Float (f64_sub F x y))
      | Mul \<Rightarrow> Inr (Float (f64_mul F x y))
      | Div \<Rightarrow> if f64_eq F y 0 then Inl div_zero else Inr (Float (f64_div F x y))
      | Mod \<Rightarrow> if f64_eq F y 0 then Inl div_zero else Inr (Float (f64_rem F x y))
      | Concat \<Rightarrow> Inl (Internal ''unreachable''))"

definition apply_op :: "f64_lib \<Rightarrow> arith_op \<Rightarrow> sql_value \<Rightarrow> sql_value \<Rightarrow> galax_error + sql_value" where
  "apply_op F op l r =
     (if l = Null \<or> r = Null then Inr Null
      else if op = Concat then Inr (Text (concat_text F l @ concat_text F r))
      else case to_num F l of
             Inl e \<Rightarrow> Inl e
           | Inr a \<Rightarrow>
             (case to_num F r of
                Inl e \<Rightarrow> Inl e
              | Inr b \<Rightarrow>
                (case (a, b) of
                   (NumInt m, NumInt n) \<Rightarrow> apply_int op m n
                 | _ \<Rightarrow> apply_f64 F op (as_f64 F a) (as_f64 F b))))"

fun scalar_eval :: "f64_lib \<Rightarrow> row \<Rightarrow> scalar_expr \<Rightarrow> galax_error + sql_value" where
  "scalar_eval F row (Literal v) = Inr v"
| "scalar_eval F row (Column name) =
     (case find (\<lambda>(k, _). k = name) row of Some (_, v) \<Rightarrow> Inr v | None \<Rightarrow> Inl (ColumnNotFound name))"
| "scalar_eval F row (Neg e) = (case scalar_eval F row e of Inl err \<Rightarrow> Inl err | Inr v \<Rightarrow> negate F v)"
| "scalar_eval F row (Binary op l r) =
     (case scalar_eval F row l of
        Inl err \<Rightarrow> Inl err
      | Inr a \<Rightarrow> (case scalar_eval F row r of Inl err \<Rightarrow> Inl err | Inr b \<Rightarrow> apply_op F op a b))"

section \<open>The round trip of a row\<close>

definition raw_part :: "f64_lib \<Rightarrow> bytes \<times> sql_value \<Rightarrow> bytes" where
  "raw_part F p = fst p @ [61] @ value_display F (snd p)"

text \<open>Column names without separators, and values whose text form is valid and does not end in a
  backslash unless it is the last.\<close>

definition separable :: "f64_lib \<Rightarrow> row \<Rightarrow> bool" where
  "separable F row \<longleftrightarrow>
     list_all (\<lambda>(c, v). utf8_valid c \<and> 124 \<notin> set c \<and> 61 \<notin> set c \<and> utf8_valid (value_display F v)) row
     \<and> list_all (\<lambda>(c, v). value_display F v = [] \<or> last (value_display F v) \<noteq> 92) (butlast row)"

text \<open>The values that their text form determines.\<close>

definition stored_exactly :: "f64_lib \<Rightarrow> sql_value \<Rightarrow> bool" where
  "stored_exactly F v \<longleftrightarrow>
     (case v of
        Integer _ \<Rightarrow> True | Bool _ \<Rightarrow> True | Null \<Rightarrow> True
      | Float f \<Rightarrow> 46 \<in> set (f64_display F f) \<and> f64_parse F (f64_display F f) = Some f
      | Text s \<Rightarrow> s \<noteq> ascii ''NULL'' \<and> s \<noteq> ascii ''true'' \<and> s \<noteq> ascii ''false'' \<and> parse_i64 s = None \<and> (f64_parse F s = None \<or> \<not> has_point s)
      | _ \<Rightarrow> False)"

lemma replace_bar_simps [simp]:
  "replace_bar [] = []" "replace_bar (c # s) = (if c = 124 then [92, 124] else [c]) @ replace_bar s"
  "replace_bar (s @ t) = replace_bar s @ replace_bar t"
  by (simp_all add: replace_bar_def)

lemma replace_bar_id: "124 \<notin> set s \<Longrightarrow> replace_bar s = s"
  by (induction s) auto

lemma utf8_valid_replace_bar: "utf8_valid s \<Longrightarrow> utf8_valid (replace_bar s)"
proof (induction s rule: utf8_valid.induct)
  case (2 b bs)
  obtain n where n: "utf8_chunk b bs = (n, True)" "utf8_valid (drop n (b # bs))"
    using "2.prems" by (auto simp: utf8_valid.simps(2) split: prod.splits)
  have IH: "utf8_valid (replace_bar (drop n (b # bs)))" using "2.IH" [OF n(1) [symmetric]] n(2) by simp
  show ?case
  proof (cases "b < 0x80")
    case True
    then have "n = 1" using n(1) by (simp add: utf8_chunk_def)
    then show ?thesis using True IH by (simp add: utf8_valid_ascii [of 92] utf8_valid_ascii [of 124])
  next
    case False
    then have "124 \<notin> set (take n (b # bs))" using utf8_chunk_high [OF n(1), of 124] by auto
    then have "replace_bar (b # bs) = take n (b # bs) @ replace_bar (drop n (b # bs))"
      using replace_bar_simps(3) [of "take n (b # bs)" "drop n (b # bs)"] by (simp add: replace_bar_id del: replace_bar_simps)
    moreover have "utf8_valid (take n (b # bs))" by (rule utf8_chunk_valid [OF n(1)])
    ultimately show ?thesis using IH by simp
  qed
qed simp

lemma replace_bar_hd: "s = [] \<or> hd (replace_bar s @ rest) \<noteq> 124"
  by (cases s) auto

lemma escape_loop_replace:
  assumes "rest = [] \<or> hd rest \<noteq> 124 \<or> s = [] \<or> last s \<noteq> 92"
  shows "escape_loop (replace_bar s @ rest) current parts = escape_loop rest (current @ s) parts"
  using assms
proof (induction s arbitrary: current)
  case (Cons c s)
  have IH: "escape_loop (replace_bar s @ rest) cur parts = escape_loop rest (cur @ s) parts" for cur
    using Cons.IH [of cur] Cons.prems by (cases "s = []") simp_all
  consider "c = 124" | "c = 92" | "c \<noteq> 124" "c \<noteq> 92" by blast
  then show ?case
  proof cases
    case 2
    then have "replace_bar s @ rest = [] \<or> hd (replace_bar s @ rest) \<noteq> 124"
      using Cons.prems replace_bar_hd [of s rest] by (cases "s = []") simp_all
    then have "escape_loop (replace_bar (c # s) @ rest) current parts = escape_loop (replace_bar s @ rest) (current @ [92]) parts"
      using 2 by auto
    then show ?thesis using IH [of "current @ [92]"] 2 by simp
  qed (use IH in simp_all)
qed simp

lemma encode_cols_eq:
  "list_all (\<lambda>(c, v). 124 \<notin> set c) ps \<Longrightarrow>
     encode_cols F (Suc i) ps out = out @ concat (map (\<lambda>p. 124 # replace_bar (raw_part F p)) ps)"
  by (induction ps arbitrary: i out) (auto simp: raw_part_def replace_bar_id Let_def)

lemma encode_row_Cons:
  "124 \<notin> set (fst p) \<Longrightarrow> list_all (\<lambda>(c, v). 124 \<notin> set c) ps \<Longrightarrow>
     encode_row F (p # ps) = replace_bar (raw_part F p) @ concat (map (\<lambda>p. 124 # replace_bar (raw_part F p)) ps)"
  by (cases p) (simp add: encode_row_def encode_cols_eq raw_part_def replace_bar_id Let_def)

lemma raw_part_last: "raw_part F p \<noteq> [] \<and> (value_display F (snd p) = [] \<or> last (value_display F (snd p)) \<noteq> 92 \<longrightarrow> last (raw_part F p) \<noteq> 92)"
  by (simp add: raw_part_def)

lemma split_parts:
  "list_all (\<lambda>(c, v). value_display F v = [] \<or> last (value_display F v) \<noteq> 92) (butlast (p # ps)) \<Longrightarrow>
     escape_loop (replace_bar (raw_part F p) @ concat (map (\<lambda>p. 124 # replace_bar (raw_part F p)) ps)) [] parts
       = parts @ map (raw_part F) (p # ps)"
proof (induction ps arbitrary: p parts)
  case Nil
  then show ?case using escape_loop_replace [of "[]" "raw_part F p" "[]" parts] raw_part_last [of F p] by simp
next
  case (Cons q ps)
  have "last (raw_part F p) \<noteq> 92" using Cons.prems raw_part_last [of F p] by (simp add: case_prod_beta)
  then have "escape_loop (replace_bar (raw_part F p) @ concat (map (\<lambda>p. 124 # replace_bar (raw_part F p)) (q # ps))) [] parts
    = escape_loop (concat (map (\<lambda>p. 124 # replace_bar (raw_part F p)) (q # ps))) (raw_part F p) parts"
    using escape_loop_replace [of "concat (map (\<lambda>p. 124 # replace_bar (raw_part F p)) (q # ps))" "raw_part F p" "[]" parts] by simp
  also have "\<dots> = escape_loop (replace_bar (raw_part F q) @ concat (map (\<lambda>p. 124 # replace_bar (raw_part F p)) ps)) [] (parts @ [raw_part F p])"
    by simp
  also have "\<dots> = parts @ map (raw_part F) (p # q # ps)" using Cons.IH [of q "parts @ [raw_part F p]"] Cons.prems by simp
  finally show ?case .
qed

lemma split_tail: "c \<notin> set s \<Longrightarrow> takeWhile (\<lambda>x. x \<noteq> c) (s @ c # t) = s \<and> dropWhile (\<lambda>x. x \<noteq> c) (s @ c # t) = c # t"
  by (induction s) auto

lemma decode_raw_part: "61 \<notin> set c \<Longrightarrow> decode_part F (raw_part F (c, v)) = [(c, value_from_str F (value_display F v))]"
  by (simp add: decode_part_def split_once_def raw_part_def split_tail)

lemma utf8_valid_raw: "utf8_valid c \<Longrightarrow> utf8_valid (value_display F v) \<Longrightarrow> utf8_valid (replace_bar (raw_part F (c, v)))"
  by (intro utf8_valid_replace_bar) (simp add: raw_part_def)

lemma utf8_valid_concat: "list_all utf8_valid xs \<Longrightarrow> utf8_valid (concat xs)"
  by (induction xs) simp_all

lemma decode_encode_row:
  assumes "separable F row"
  shows "decode_row F (encode_row F row) = map (\<lambda>(c, v). (c, value_from_str F (value_display F v))) row"
proof (cases row)
  case Nil
  then show ?thesis by (simp add: encode_row_def decode_row_def split_respecting_escape_def)
next
  case (Cons p ps)
  have ok: "list_all (\<lambda>(c, v). utf8_valid c \<and> 124 \<notin> set c \<and> 61 \<notin> set c \<and> utf8_valid (value_display F v)) (p # ps)"
    using assms Cons by (simp add: separable_def)
  have e: "encode_row F row = replace_bar (raw_part F p) @ concat (map (\<lambda>p. 124 # replace_bar (raw_part F p)) ps)"
    unfolding Cons using ok by (intro encode_row_Cons) (auto simp: list_all_iff case_prod_beta)
  have v: "utf8_valid (replace_bar (raw_part F q))" if "q \<in> set (p # ps)" for q
    using ok that utf8_valid_raw [of "fst q" F "snd q"] by (auto simp: list_all_iff case_prod_beta)
  have "utf8_valid (concat (map (\<lambda>p. 124 # replace_bar (raw_part F p)) ps))" using v by (intro utf8_valid_concat) (simp add: list_all_iff)
  then have "utf8_valid (encode_row F row)" unfolding e using v by simp
  moreover have "split_respecting_escape (encode_row F row) = map (raw_part F) row"
    unfolding split_respecting_escape_def e using split_parts [of F p ps "[]"] assms Cons by (simp add: separable_def)
  ultimately have "decode_row F (encode_row F row) = concat (map (\<lambda>p. decode_part F (raw_part F p)) row)"
    by (simp add: decode_row_def lossy_valid o_def)
  also have "\<dots> = concat (map (\<lambda>p. [(fst p, value_from_str F (value_display F (snd p)))]) row)"
    using ok decode_raw_part by (intro arg_cong [where f = concat] map_cong) (auto simp: list_all_iff Cons)
  also have "\<dots> = map (\<lambda>(c, v). (c, value_from_str F (value_display F v))) row" by (induction row) auto
  finally show ?thesis .
qed

lemma i64_display_plain: "i64_display n \<noteq> ascii ''NULL'' \<and> i64_display n \<noteq> ascii ''true'' \<and> i64_display n \<noteq> ascii ''false''"
proof -
  have "78 \<notin> set (i64_display n)" "116 \<notin> set (i64_display n)" "102 \<notin> set (i64_display n)"
    using i64_display_bytes [of n] by (auto simp: is_digit_def)
  moreover have "78 \<in> set (ascii ''NULL'')" "116 \<in> set (ascii ''true'')" "102 \<in> set (ascii ''false'')" by (simp_all add: ascii_def)
  ultimately show ?thesis by metis
qed

lemma not_digit_point: "\<not> is_digit 46"
  by (simp add: is_digit_def)

lemma parse_i64_point: "46 \<in> set s \<Longrightarrow> parse_i64 s = None"
proof -
  assume s: "46 \<in> set s"
  let ?ds = "if s \<noteq> [] \<and> (hd s = 45 \<or> hd s = 43) then tl s else s"
  have "46 \<in> set ?ds" using s by (cases s) auto
  then have "\<not> list_all is_digit ?ds" unfolding list_all_iff using not_digit_point by blast
  then show ?thesis by (simp only: parse_i64_def Let_def if_True simp_thms)
qed

lemma value_from_display: "stored_exactly F v \<Longrightarrow> value_from_str F (value_display F v) = v"
proof (cases v)
  case (Integer n)
  then show ?thesis using i64_display_plain [of n] by (simp add: value_from_str_def parse_display_i64)
next
  case (Float f)
  assume "stored_exactly F v"
  then have f: "46 \<in> set (f64_display F f)" "f64_parse F (f64_display F f) = Some f" using Float by (simp_all add: stored_exactly_def)
  have "f64_display F f \<noteq> ascii ''NULL''" "f64_display F f \<noteq> ascii ''true''" "f64_display F f \<noteq> ascii ''false''"
    using f(1) by (auto simp: ascii_def)
  then show ?thesis using f Float parse_i64_point [OF f(1)] by (simp add: value_from_str_def has_point_def)
qed (auto simp: stored_exactly_def value_from_str_def bool_display_def ascii_def split: option.splits)

text \<open>
  C16: Rows round-trip through their text form. If the column names contain neither the bar nor
  the equals sign, names and values are valid UTF-8, no value but the last ends in a
  backslash, and every value is one that its
  text form determines, then decoding an encoded row gives back its columns and values, in
  order, whatever bars, equals signs and other backslashes the values contain.
\<close>

theorem row_roundtrip:
  assumes "separable F row" and "\<forall>(c, v) \<in> set row. stored_exactly F v"
  shows "decode_row F (encode_row F row) = row"
  unfolding decode_encode_row [OF assms(1)] using assms(2) by (intro map_idI) (auto simp: value_from_display)

definition demo_f64 :: f64_lib where
  "demo_f64 = \<lparr>f64_display = (\<lambda>f. [48, 46] @ nat_display (unat f)), f64_parse = (\<lambda>s. None), f64_of_i64 = (\<lambda>n. n), f64_neg = (\<lambda>x. - x),
     f64_add = (+), f64_sub = (-), f64_mul = (*), f64_div = (div), f64_rem = (mod), f64_eq = (=), f64_less = (<), f64_le = (\<le>)\<rparr>"

definition demo_row :: row where
  "demo_row = [([105], Integer (- 7)), ([110], Text [97, 124, 92, 124, 61]), ([98], Bool True), ([122], Text [92])]"

theorem row_roundtrip_witness: "decode_row demo_f64 (encode_row demo_f64 demo_row) = demo_row"
proof (rule row_roundtrip)
  have i: "i64_display (- 7) = [45, 55]" by (simp add: i64_display_def nat_display.simps)
  show "separable demo_f64 demo_row"
    by (simp add: separable_def demo_row_def i bool_display_def ascii_def)
  show "\<forall>(c, v) \<in> set demo_row. stored_exactly demo_f64 v"
    by (simp add: demo_row_def stored_exactly_def demo_f64_def ascii_def parse_i64_def is_digit_def)
qed

text \<open>
  C17: A text value that ends in a backslash swallows the column after it: the separator that follows
  is read back as an escaped bar. The decoded row has the first column only, with the text of
  both, and the second column is gone.
\<close>

theorem trailing_backslash_merges:
  assumes "utf8_valid c1" "124 \<notin> set c1" "61 \<notin> set c1" "utf8_valid s" "utf8_valid c2" "124 \<notin> set c2" "utf8_valid (value_display F v2)"
  shows "decode_row F (encode_row F [(c1, Text (s @ [92])), (c2, v2)])
    = [(c1, value_from_str F (s @ [124] @ c2 @ [61] @ value_display F v2))]"
proof -
  let ?r1 = "c1 @ [61] @ s" and ?r2 = "raw_part F (c2, v2)"
  have e: "encode_row F [(c1, Text (s @ [92])), (c2, v2)] = replace_bar ?r1 @ 92 # 124 # replace_bar ?r2"
    using assms(2,6) by (subst encode_row_Cons) (simp_all add: raw_part_def)
  have "utf8_valid (replace_bar ?r1)" using assms(1,4) by (intro utf8_valid_replace_bar) simp
  moreover have "utf8_valid (replace_bar ?r2)" using utf8_valid_raw [OF assms(5,7)] by simp
  ultimately have u: "utf8_valid (encode_row F [(c1, Text (s @ [92])), (c2, v2)])"
    unfolding e by (simp only: utf8_valid_append) simp
  have "escape_loop (replace_bar ?r1 @ 92 # 124 # replace_bar ?r2) [] [] = escape_loop (92 # 124 # replace_bar ?r2) ?r1 []"
    using escape_loop_replace [of "92 # 124 # replace_bar ?r2" ?r1 "[]" "[]"] by simp
  also have "\<dots> = escape_loop (replace_bar ?r2 @ []) (?r1 @ [124]) []" by simp
  also have "\<dots> = [?r1 @ [124] @ ?r2]" using escape_loop_replace [of "[]" ?r2 "?r1 @ [124]" "[]"] by simp
  finally have "decode_row F (encode_row F [(c1, Text (s @ [92])), (c2, v2)]) = decode_part F (?r1 @ [124] @ ?r2)"
    using lossy_valid [OF u] by (simp add: decode_row_def split_respecting_escape_def e)
  then show ?thesis using decode_raw_part [OF assms(3), of F "Text (s @ [124] @ ?r2)"] by (simp add: raw_part_def)
qed

theorem trailing_backslash_merges_witness:
  "decode_row demo_f64 (encode_row demo_f64 [([97], Text [67, 58, 92]), ([98], Text [120])]) = [([97], Text [67, 58, 124, 98, 61, 120])]"
proof -
  have "decode_row demo_f64 (encode_row demo_f64 [([97], Text ([67, 58] @ [92])), ([98], Text [120])])
    = [([97], value_from_str demo_f64 ([67, 58] @ [124] @ [98] @ [61] @ value_display demo_f64 (Text [120])))]"
    by (rule trailing_backslash_merges) simp_all
  then show ?thesis by (simp add: value_from_str_def demo_f64_def ascii_def parse_i64_def is_digit_def)
qed

section \<open>Scalar arithmetic\<close>

text \<open>Integer expressions over the mathematical integers, as the reference of the checked ones.\<close>

fun int_eval :: "row \<Rightarrow> scalar_expr \<Rightarrow> int option" where
  "int_eval row (Literal v) = (case v of Integer n \<Rightarrow> Some (sint n) | _ \<Rightarrow> None)"
| "int_eval row (Column name) = (case find (\<lambda>(k, _). k = name) row of Some (_, Integer n) \<Rightarrow> Some (sint n) | _ \<Rightarrow> None)"
| "int_eval row (Neg e) = map_option uminus (int_eval row e)"
| "int_eval row (Binary op l r) =
     (case (int_eval row l, int_eval row r) of
        (Some a, Some b) \<Rightarrow>
          (case op of
             Add \<Rightarrow> Some (a + b) | Sub \<Rightarrow> Some (a - b) | Mul \<Rightarrow> Some (a * b)
           | Div \<Rightarrow> if b = 0 then None else Some (trunc_div a b)
           | Mod \<Rightarrow> if b = 0 then None else Some (trunc_rem a b)
           | Concat \<Rightarrow> None)
      | _ \<Rightarrow> None)"

lemma checked_i64_exact: "checked_i64 v = Inr w \<Longrightarrow> \<exists>c. w = Integer c \<and> sint c = v"
  by (auto simp: checked_i64_def sint_sbintrunc' signed_take_bit_int_eq_self split: if_splits)

lemma apply_int_exact:
  "apply_int op a b = Inr w \<Longrightarrow> \<exists>c. w = Integer c
     \<and> (case op of Add \<Rightarrow> sint c = sint a + sint b | Sub \<Rightarrow> sint c = sint a - sint b | Mul \<Rightarrow> sint c = sint a * sint b
          | Div \<Rightarrow> b \<noteq> 0 \<and> sint c = trunc_div (sint a) (sint b) | Mod \<Rightarrow> b \<noteq> 0 \<and> sint c = trunc_rem (sint a) (sint b) | Concat \<Rightarrow> False)"
  by (cases op) (auto simp: apply_int_def dest!: checked_i64_exact split: if_splits)

text \<open>Integer arithmetic never wraps: whatever an expression over integers returns is the value over
  the mathematical integers; an overflow on the way is the error 22003.\<close>

theorem scalar_int_exact: "int_eval row e = Some n \<Longrightarrow> scalar_eval F row e = Inr w \<Longrightarrow> \<exists>c. w = Integer c \<and> sint c = n"
proof (induction e arbitrary: n w)
  case (Literal v)
  then show ?case by (auto split: sql_value.splits)
next
  case (Column name)
  then show ?case by (auto split: option.splits sql_value.splits prod.splits)
next
  case (Binary op l r)
  obtain x y where xy: "int_eval row l = Some x" "int_eval row r = Some y" using Binary.prems(1) by (auto split: option.splits)
  obtain u v where uv: "scalar_eval F row l = Inr u" "scalar_eval F row r = Inr v" "apply_op F op u v = Inr w"
    using Binary.prems(2) by (auto split: sum.splits)
  obtain a b where ab: "u = Integer a" "sint a = x" "v = Integer b" "sint b = y"
    using Binary.IH(1) [OF xy(1) uv(1)] Binary.IH(2) [OF xy(2) uv(2)] by blast
  have "op \<noteq> Concat" using Binary.prems(1) xy by auto
  then have "apply_int op a b = Inr w" using uv(3) ab by (simp add: apply_op_def to_num_def)
  from apply_int_exact [OF this] show ?case using Binary.prems(1) xy ab by (cases op) (auto split: if_splits)
next
  case (Neg e)
  obtain x where x: "int_eval row e = Some x" "n = - x" using Neg.prems(1) by auto
  obtain u where u: "scalar_eval F row e = Inr u" "negate F u = Inr w" using Neg.prems(2) by (auto split: sum.splits)
  obtain a where "u = Integer a" "sint a = x" using Neg.IH [OF x(1) u(1)] by blast
  then show ?case using checked_i64_exact [of "- sint a" w] u(2) x(2) by (simp add: negate_def)
qed

end
