(* ===== verification/Executor.thy ===== *)
theory Executor
  imports TxnHandle RowCodec
begin

text \<open>
  The statements of the executor that read and write rows (\<open>galaxdb-sql/src/executor.rs\<close>): insert,
  update, delete, bulk insert, the full scan with its near-duplicate pass and the point lookup,
  inside and outside of a transaction. The context is the one that \<open>ExecutorContext::new\<close> makes, with a catalog
  and possibly a transaction but none of the optional subsystems (MinHash policy, secondary
  indexes, vector backend, sidecar), whose hooks then do nothing. An outer \<open>None\<close> is a panic.
\<close>

section \<open>The context\<close>

record exec_ctx =
  ctx_engine :: sst_engine
  ctx_catalog :: catalog
  ctx_txn :: "txn_handle option"
  ctx_manager :: txn_manager

datatype execute_result = Rows "bytes list" "row list" | RowCount u64

type_synonym 'a exec_outcome = "((galax_error + 'a) \<times> exec_ctx) option"

text \<open>\<open>Catalog\<close>.\<close>

definition create_table :: "bytes \<Rightarrow> table_entry \<Rightarrow> catalog \<Rightarrow> (galax_error + unit) \<times> catalog" where
  "create_table name te c = (if c name \<noteq> None then (Inl (TableAlreadyExists name), c) else (Inr (), c(name \<mapsto> te)))"

definition drop_table :: "bytes \<Rightarrow> catalog \<Rightarrow> (galax_error + table_entry) \<times> catalog" where
  "drop_table name c = (case c name of None \<Rightarrow> (Inl (TableNotFound name), c) | Some te \<Rightarrow> (Inr te, c(name := None)))"

definition get_table :: "catalog \<Rightarrow> bytes \<Rightarrow> table_entry option" where
  "get_table c name = c name"

definition set_storage_mode :: "bytes \<Rightarrow> storage_mode \<Rightarrow> catalog \<Rightarrow> (galax_error + unit) \<times> catalog" where
  "set_storage_mode name mode c =
     (case c name of None \<Rightarrow> (Inl (TableNotFound name), c) | Some te \<Rightarrow> (Inr (), c(name \<mapsto> te\<lparr>te_storage_mode := mode\<rparr>)))"

definition table_exists :: "catalog \<Rightarrow> bytes \<Rightarrow> bool" where
  "table_exists c name \<longleftrightarrow> c name \<noteq> None"

definition ctx_table_rows :: "zstd_lib \<Rightarrow> wal_lib \<Rightarrow> u64 list \<Rightarrow> exec_ctx \<Rightarrow> bytes \<Rightarrow> (bytes \<times> bytes) list option" where
  "ctx_table_rows Z L order ctx table =
     (let pfx = table @ [58]
      in case ctx_txn ctx of
           Some txn \<Rightarrow> txn_table_rows Z L order (ctx_engine ctx) txn table
         | None \<Rightarrow> map_option (filter (\<lambda>(k, _). prefix pfx k)) (scan_all_with_prefix Z L order (ctx_engine ctx) (Some pfx)))"

section \<open>Writes\<close>

text \<open>A write of the executor: into the buffer of the transaction, or into the engine.\<close>

definition txn_buffer :: "bytes \<Rightarrow> bytes option \<Rightarrow> txn_handle \<Rightarrow> exec_ctx \<Rightarrow> (galax_error + unit) \<times> exec_ctx" where
  "txn_buffer key val txn ctx =
     (let (r, txn, m) = buffer_write key val txn (ctx_manager ctx)
      in (r, ctx\<lparr>ctx_txn := Some txn, ctx_manager := m\<rparr>))"

definition row_exists :: "zstd_lib \<Rightarrow> wal_lib \<Rightarrow> u64 list \<Rightarrow> bytes \<Rightarrow> exec_ctx \<Rightarrow> bool option" where
  "row_exists Z L order key ctx =
     (case ctx_txn ctx of
        Some txn \<Rightarrow>
          (case om_get (th_writes txn) key of
             Some (Some _) \<Rightarrow> Some True
           | Some None \<Rightarrow> Some False
           | None \<Rightarrow> map_option (\<lambda>v. v \<noteq> None) (get_at Z L order (ctx_engine ctx) key (th_read_ts txn)))
      | None \<Rightarrow> map_option (\<lambda>v. v \<noteq> None) (engine_get Z L (ctx_engine ctx) key))"

definition insert_write :: "append_fault \<Rightarrow> wal_lib \<Rightarrow> bytes \<Rightarrow> bytes \<Rightarrow> exec_ctx \<Rightarrow> execute_result exec_outcome" where
  "insert_write flt L key val ctx =
     (case ctx_txn ctx of
        Some txn \<Rightarrow>
          (case txn_buffer key (Some val) txn ctx of
             (Inl e, ctx) \<Rightarrow> Some (Inl e, ctx)
           | (Inr _, ctx) \<Rightarrow> Some (Inr (RowCount 1), ctx))
      | None \<Rightarrow>
          (case db_put flt L key val (ctx_engine ctx) of
             None \<Rightarrow> None
           | Some (Inl e, s) \<Rightarrow> Some (Inl (Internal ''engine put failed''), ctx\<lparr>ctx_engine := s\<rparr>)
           | Some (Inr _, s) \<Rightarrow> Some (Inr (RowCount 1), ctx\<lparr>ctx_engine := s\<rparr>)))"

definition exec_insert ::
  "f64_lib \<Rightarrow> zstd_lib \<Rightarrow> wal_lib \<Rightarrow> u64 list \<Rightarrow> (bytes \<Rightarrow> append_fault) \<Rightarrow> bytes \<Rightarrow> bytes list \<Rightarrow> sql_value list \<Rightarrow> exec_ctx \<Rightarrow> execute_result exec_outcome" where
  "exec_insert F Z L order flt table columns vs ctx =
     (case get_table (ctx_catalog ctx) table of
        None \<Rightarrow> Some (Inl (TableNotFound table), ctx)
      | Some te \<Rightarrow>
        if columns \<noteq> [] \<and> length columns \<noteq> length vs then Some (Inl (Internal ''column count does not match value count''), ctx)
        else case align_values te columns vs of
          Inl e \<Rightarrow> Some (Inl e, ctx)
        | Inr ordered \<Rightarrow>
          (case build_primary_key F table te ordered of
             Inl e \<Rightarrow> Some (Inl e, ctx)
           | Inr key \<Rightarrow>
             let val = encode_row F ordered
             in case find cc_primary_key (te_columns te) of
                  None \<Rightarrow> insert_write (flt key) L key val ctx
                | Some pk_col \<Rightarrow>
                  (case row_exists Z L order key ctx of
                     None \<Rightarrow> None
                   | Some True \<Rightarrow>
                     let pk_value = (case find (\<lambda>(n, _). n = cc_name pk_col) ordered of Some (_, v) \<Rightarrow> value_display F v | None \<Rightarrow> [])
                     in Some (Inl (UniqueViolation table (cc_name pk_col) pk_value), ctx)
                   | Some False \<Rightarrow> insert_write (flt key) L key val ctx)))"

fun eval_assignments :: "f64_lib \<Rightarrow> row \<Rightarrow> (bytes \<times> scalar_expr) list \<Rightarrow> galax_error + row" where
  "eval_assignments F old_cols [] = Inr []"
| "eval_assignments F old_cols ((col_name, expr) # asns) =
     (case scalar_eval F old_cols expr of
        Inl e \<Rightarrow> Inl e
      | Inr v \<Rightarrow> (case eval_assignments F old_cols asns of Inl e \<Rightarrow> Inl e | Inr nvs \<Rightarrow> Inr ((col_name, v) # nvs)))"

fun assign_col :: "bytes \<times> sql_value \<Rightarrow> row \<Rightarrow> row" where
  "assign_col (col_name, v) [] = [(col_name, v)]"
| "assign_col (col_name, v) ((k, old) # cols) = (if k = col_name then (k, v) # cols else (k, old) # assign_col (col_name, v) cols)"

definition row_matches :: "f64_lib \<Rightarrow> filter_expr option \<Rightarrow> row \<Rightarrow> bool" where
  "row_matches F flt cols = (case flt of None \<Rightarrow> True | Some f \<Rightarrow> filter_matches F cols f)"

fun update_rows ::
  "f64_lib \<Rightarrow> wal_lib \<Rightarrow> (bytes \<Rightarrow> append_fault) \<Rightarrow> (bytes \<times> scalar_expr) list \<Rightarrow> filter_expr option \<Rightarrow> (bytes \<times> bytes) list \<Rightarrow> u64 \<Rightarrow> exec_ctx
    \<Rightarrow> execute_result exec_outcome" where
  "update_rows F L flt asns fil [] updated ctx = Some (Inr (RowCount updated), ctx)"
| "update_rows F L flt asns fil ((key, value_bytes) # rows) updated ctx =
     (let cols = decode_row F value_bytes
      in if \<not> row_matches F fil cols then update_rows F L flt asns fil rows updated ctx
         else case eval_assignments F cols asns of
           Inl e \<Rightarrow> Some (Inl e, ctx)
         | Inr new_values \<Rightarrow>
           let new_bytes = encode_row F (fold assign_col new_values cols)
           in case ctx_txn ctx of
                Some txn \<Rightarrow>
                  (case txn_buffer key (Some new_bytes) txn ctx of
                     (Inl e, ctx) \<Rightarrow> Some (Inl e, ctx)
                   | (Inr _, ctx) \<Rightarrow> update_rows F L flt asns fil rows (updated + 1) ctx)
              | None \<Rightarrow>
                  (case db_put (flt key) L key new_bytes (ctx_engine ctx) of
                     None \<Rightarrow> None
                   | Some (Inl e, s) \<Rightarrow> Some (Inl (Internal ''engine put failed''), ctx\<lparr>ctx_engine := s\<rparr>)
                   | Some (Inr _, s) \<Rightarrow> update_rows F L flt asns fil rows (updated + 1) (ctx\<lparr>ctx_engine := s\<rparr>)))"

definition exec_update ::
  "f64_lib \<Rightarrow> zstd_lib \<Rightarrow> wal_lib \<Rightarrow> u64 list \<Rightarrow> (bytes \<Rightarrow> append_fault) \<Rightarrow> bytes \<Rightarrow> (bytes \<times> scalar_expr) list \<Rightarrow> filter_expr option \<Rightarrow> exec_ctx
    \<Rightarrow> execute_result exec_outcome" where
  "exec_update F Z L order flt table asns fil ctx =
     (case get_table (ctx_catalog ctx) table of
        None \<Rightarrow> Some (Inl (TableNotFound table), ctx)
      | Some te \<Rightarrow>
        if te_append_only te then Some (Inl (AppendOnlyTable table ''UPDATE''), ctx)
        else case find (\<lambda>(c, _). case find (\<lambda>col. cc_name col = c) (te_columns te) of Some col \<Rightarrow> cc_is_embedding_source col | None \<Rightarrow> False) asns of
          Some (c, _) \<Rightarrow> Some (Inl (EmbeddingSourceUpdate c), ctx)
        | None \<Rightarrow>
          (case ctx_table_rows Z L order ctx table of
             None \<Rightarrow> None
           | Some rows \<Rightarrow> update_rows F L flt asns fil rows 0 ctx))"

fun buffer_tombstones :: "bytes list \<Rightarrow> exec_ctx \<Rightarrow> (galax_error + unit) \<times> exec_ctx" where
  "buffer_tombstones [] ctx = (Inr (), ctx)"
| "buffer_tombstones (key # ks) ctx =
     (case ctx_txn ctx of
        None \<Rightarrow> (Inr (), ctx)
      | Some txn \<Rightarrow>
        (case txn_buffer key None txn ctx of
           (Inl e, ctx) \<Rightarrow> (Inl e, ctx)
         | (Inr _, ctx) \<Rightarrow> buffer_tombstones ks ctx))"

fun delete_rows :: "wal_lib \<Rightarrow> (bytes \<Rightarrow> append_fault) \<Rightarrow> bytes list \<Rightarrow> u64 \<Rightarrow> exec_ctx \<Rightarrow> execute_result exec_outcome" where
  "delete_rows L flt [] n_deleted ctx = Some (Inr (RowCount n_deleted), ctx)"
| "delete_rows L flt (key # ks) n_deleted ctx =
     (case db_delete (flt key) L key (ctx_engine ctx) of
        None \<Rightarrow> None
      | Some (Inl e, s) \<Rightarrow> Some (Inl (Internal ''engine delete failed''), ctx\<lparr>ctx_engine := s\<rparr>)
      | Some (Inr b, s) \<Rightarrow> delete_rows L flt ks (if b then n_deleted + 1 else n_deleted) (ctx\<lparr>ctx_engine := s\<rparr>))"

definition exec_delete ::
  "f64_lib \<Rightarrow> zstd_lib \<Rightarrow> wal_lib \<Rightarrow> u64 list \<Rightarrow> (bytes \<Rightarrow> append_fault) \<Rightarrow> bytes \<Rightarrow> filter_expr option \<Rightarrow> exec_ctx \<Rightarrow> execute_result exec_outcome" where
  "exec_delete F Z L order flt table fil ctx =
     (case get_table (ctx_catalog ctx) table of
        None \<Rightarrow> Some (Inl (TableNotFound table), ctx)
      | Some te \<Rightarrow>
        if te_append_only te then Some (Inl (AppendOnlyTable table ''DELETE''), ctx)
        else case ctx_table_rows Z L order ctx table of
          None \<Rightarrow> None
        | Some rows \<Rightarrow>
          (let doomed = map fst (filter (\<lambda>(_, value_bytes). row_matches F fil (decode_row F value_bytes)) rows)
           in if ctx_txn ctx \<noteq> None
              then (case buffer_tombstones doomed ctx of
                      (Inl e, ctx) \<Rightarrow> Some (Inl e, ctx)
                    | (Inr _, ctx) \<Rightarrow> Some (Inr (RowCount (word_of_nat (length doomed))), ctx))
              else delete_rows L flt doomed 0 ctx))"

section \<open>Reads\<close>

definition parse_u64 :: "bytes \<Rightarrow> u64 option" where
  "parse_u64 s =
     (let ds = (if s \<noteq> [] \<and> hd s = 43 then tl s else s)
      in if ds = [] \<or> \<not> list_all is_digit ds then None
         else if dec_value ds < 2 ^ 64 then Some (word_of_nat (dec_value ds)) else None)"

definition row_group_id :: "row \<Rightarrow> i64 option" where
  "row_group_id row =
     (case find (\<lambda>(n, _). n = ascii ''_near_duplicate_group'') row of
        None \<Rightarrow> None
      | Some (_, v) \<Rightarrow>
        (case v of
           Integer n \<Rightarrow> Some n
         | Text s \<Rightarrow>
           if s = ascii ''NULL'' then None
           else (case parse_i64 s of Some n \<Rightarrow> Some n | None \<Rightarrow> parse_u64 s)
         | _ \<Rightarrow> None))"

definition note_representative :: "bytes \<times> row \<Rightarrow> (i64 \<rightharpoonup> bytes) \<Rightarrow> (i64 \<rightharpoonup> bytes)" where
  "note_representative r rep =
     (case row_group_id (snd r) of
        None \<Rightarrow> rep
      | Some g \<Rightarrow>
        (case rep g of
           None \<Rightarrow> rep(g \<mapsto> fst r)
         | Some best \<Rightarrow> if fst r < best then rep(g \<mapsto> fst r) else rep))"

definition apply_not_duplicate_pass :: "(bytes \<times> row) list \<Rightarrow> (bytes \<times> row) list" where
  "apply_not_duplicate_pass buffered =
     (let rep = fold note_representative buffered Map.empty
      in if rep = Map.empty then buffered
         else filter (\<lambda>(key, row). case row_group_id row of
                        None \<Rightarrow> True
                      | Some g \<Rightarrow> (case rep g of Some best \<Rightarrow> key = best | None \<Rightarrow> True)) buffered)"

fun filter_has_not_duplicate :: "filter_expr \<Rightarrow> bool" where
  "filter_has_not_duplicate NotDuplicate \<longleftrightarrow> True"
| "filter_has_not_duplicate (And a b) \<longleftrightarrow> filter_has_not_duplicate a \<or> filter_has_not_duplicate b"
| "filter_has_not_duplicate (Or a b) \<longleftrightarrow> filter_has_not_duplicate a \<or> filter_has_not_duplicate b"
| "filter_has_not_duplicate _ \<longleftrightarrow> False"

definition project_row :: "bytes list \<Rightarrow> row \<Rightarrow> row" where
  "project_row names cols =
     map (\<lambda>name. (name, case find (\<lambda>(k, _). k = name) cols of Some (_, v) \<Rightarrow> v | None \<Rightarrow> Null)) names"

definition exec_full_scan ::
  "f64_lib \<Rightarrow> zstd_lib \<Rightarrow> wal_lib \<Rightarrow> u64 list \<Rightarrow> bytes \<Rightarrow> bytes list \<Rightarrow> filter_expr option \<Rightarrow> exec_ctx \<Rightarrow> execute_result exec_outcome" where
  "exec_full_scan F Z L order table columns fil ctx =
     (case get_table (ctx_catalog ctx) table of
        None \<Rightarrow> Some (Inl (TableNotFound table), ctx)
      | Some te \<Rightarrow>
        (let proj = (if columns = [] then map cc_name (te_columns te) else columns);
             dedup = (case fil of Some f \<Rightarrow> filter_has_not_duplicate f | None \<Rightarrow> False)
         in case ctx_table_rows Z L order ctx table of
              None \<Rightarrow> None
            | Some rows \<Rightarrow>
              let buffered = filter (\<lambda>(_, cols). row_matches F fil cols) (map (\<lambda>(key, value_bytes). (key, decode_row F value_bytes)) rows);
                  buffered = (if dedup then apply_not_duplicate_pass buffered else buffered);
                  ctx = (case ctx_txn ctx of Some txn \<Rightarrow> ctx\<lparr>ctx_txn := Some (record_read (siread_sentinel table) txn)\<rparr> | None \<Rightarrow> ctx)
              in Some (Inr (Rows proj (map (\<lambda>(_, cols). project_row proj cols) buffered)), ctx)))"

definition exec_point_lookup ::
  "f64_lib \<Rightarrow> zstd_lib \<Rightarrow> wal_lib \<Rightarrow> u64 list \<Rightarrow> bytes \<Rightarrow> bytes \<Rightarrow> exec_ctx \<Rightarrow> execute_result exec_outcome" where
  "exec_point_lookup F Z L order table key ctx =
     (case get_table (ctx_catalog ctx) table of
        None \<Rightarrow> Some (Inl (TableNotFound table), ctx)
      | Some te \<Rightarrow>
        (let names = map cc_name (te_columns te);
             looked_up = (case ctx_txn ctx of
                            Some txn \<Rightarrow> map_option (\<lambda>(v, txn). (v, ctx\<lparr>ctx_txn := Some txn\<rparr>)) (txn_lookup Z L order (ctx_engine ctx) txn key)
                          | None \<Rightarrow> map_option (\<lambda>v. (v, ctx)) (engine_get Z L (ctx_engine ctx) key))
         in map_option (\<lambda>(v, ctx).
              (Inr (Rows names (case v of Some bs \<Rightarrow> [project_row names (decode_row F bs)] | None \<Rightarrow> [])), ctx)) looked_up))"

section \<open>Bulk insert\<close>

text \<open>The rows are tokens. All of them are resolved and encoded before the first is written; they are
  written in chunks of 1024, each a batch of its own, to the engine and never to a transaction.\<close>

fun bulk_pairs :: "f64_lib \<Rightarrow> bytes \<Rightarrow> table_entry \<Rightarrow> bytes list \<Rightarrow> bytes list list \<Rightarrow> galax_error + (bytes \<times> bytes) list" where
  "bulk_pairs F table te columns [] = Inr []"
| "bulk_pairs F table te columns (tokens # rows) =
     (case align_values te columns (map (value_from_str F) tokens) of
        Inl e \<Rightarrow> Inl e
      | Inr ordered \<Rightarrow>
        (case build_primary_key F table te ordered of
           Inl e \<Rightarrow> Inl e
         | Inr key \<Rightarrow>
           (case bulk_pairs F table te columns rows of
              Inl e \<Rightarrow> Inl e
            | Inr pairs \<Rightarrow> Inr ((key, encode_row F ordered) # pairs))))"

definition BULK_COMMIT_CHUNK :: nat where
  "BULK_COMMIT_CHUNK = 1024"

function put_chunks :: "wal_lib \<Rightarrow> (bytes \<Rightarrow> append_fault) \<Rightarrow> (bytes \<times> bytes) list \<Rightarrow> sst_engine \<Rightarrow> ((galax_error + unit) \<times> sst_engine) option" where
  "put_chunks L flt pairs s =
     (if pairs = [] then Some (Inr (), s)
      else case put_batch_sync (flt (fst (hd pairs))) L (take BULK_COMMIT_CHUNK pairs) (core s) of
             None \<Rightarrow> None
           | Some (Inl e, c) \<Rightarrow> Some (Inl (Internal ''engine batch put failed''), s\<lparr>core := c\<rparr>)
           | Some (Inr _, c) \<Rightarrow> put_chunks L flt (drop BULK_COMMIT_CHUNK pairs) (s\<lparr>core := c\<rparr>))"
  by auto
termination by (relation "measure (\<lambda>(L, flt, pairs, s). length pairs)") (auto simp: BULK_COMMIT_CHUNK_def)

declare put_chunks.simps [simp del]

definition exec_bulk_insert ::
  "f64_lib \<Rightarrow> wal_lib \<Rightarrow> (bytes \<Rightarrow> append_fault) \<Rightarrow> bytes \<Rightarrow> bytes list \<Rightarrow> bytes list list \<Rightarrow> exec_ctx \<Rightarrow> execute_result exec_outcome" where
  "exec_bulk_insert F L flt table columns rows ctx =
     (case get_table (ctx_catalog ctx) table of
        None \<Rightarrow> Some (Inl (TableNotFound table), ctx)
      | Some te \<Rightarrow>
        if rows = [] then Some (Inr (RowCount 0), ctx)
        else let expected = (if columns = [] then length (te_columns te) else length columns)
             in if list_ex (\<lambda>row. length row \<noteq> expected) rows then Some (Inl (Internal ''BULK INSERT row has a wrong number of values''), ctx)
                else if list_ex (\<lambda>name. name \<notin> cc_name ` set (te_columns te)) columns
                then Some (Inl (Internal ''BULK INSERT references unknown column''), ctx)
                else case bulk_pairs F table te columns rows of
                       Inl e \<Rightarrow> Some (Inl e, ctx)
                     | Inr pairs \<Rightarrow>
                       map_option (\<lambda>(r, s). (map_sum id (\<lambda>_. RowCount (word_of_nat (length pairs))) r, ctx\<lparr>ctx_engine := s\<rparr>))
                         (put_chunks L flt pairs (ctx_engine ctx)))"

lemma exec_bulk_insert_frame:
  "exec_bulk_insert F L flt table columns rows ctx = Some (e, ctx') \<Longrightarrow>
     ctx_txn ctx' = ctx_txn ctx \<and> ctx_manager ctx' = ctx_manager ctx \<and> ctx_catalog ctx' = ctx_catalog ctx"
  by (auto simp: exec_bulk_insert_def Let_def split: option.splits sum.splits if_splits)

section \<open>Plans\<close>

datatype query_plan =
    PInsert bytes "bytes list" "sql_value list"
  | PUpdate bytes "(bytes \<times> scalar_expr) list" "filter_expr option"
  | PDelete bytes "filter_expr option"
  | PFullScan bytes "filter_expr option" "bytes list"
  | PPointLookup bytes bytes

fun execute_with_context ::
  "f64_lib \<Rightarrow> zstd_lib \<Rightarrow> wal_lib \<Rightarrow> u64 list \<Rightarrow> (bytes \<Rightarrow> append_fault) \<Rightarrow> query_plan \<Rightarrow> exec_ctx \<Rightarrow> execute_result exec_outcome" where
  "execute_with_context F Z L order flt (PInsert table columns vs) ctx = exec_insert F Z L order flt table columns vs ctx"
| "execute_with_context F Z L order flt (PUpdate table asns fil) ctx = exec_update F Z L order flt table asns fil ctx"
| "execute_with_context F Z L order flt (PDelete table fil) ctx = exec_delete F Z L order flt table fil ctx"
| "execute_with_context F Z L order flt (PFullScan table fil columns) ctx = exec_full_scan F Z L order table columns fil ctx"
| "execute_with_context F Z L order flt (PPointLookup table key) ctx = exec_point_lookup F Z L order table key ctx"

fun is_dml :: "query_plan \<Rightarrow> bool" where
  "is_dml (PInsert _ _ _) \<longleftrightarrow> True" | "is_dml (PUpdate _ _ _) \<longleftrightarrow> True" | "is_dml (PDelete _ _) \<longleftrightarrow> True" | "is_dml _ \<longleftrightarrow> False"

section \<open>What a statement does inside a transaction\<close>

text \<open>It leaves the engine and the catalog alone, and acts on the handle by buffered writes, and
  reads unless it is an update, an insert or a delete.\<close>

definition in_txn_step :: "bool \<Rightarrow> exec_ctx \<Rightarrow> exec_ctx \<Rightarrow> bool" where
  "in_txn_step reads ctx ctx' \<longleftrightarrow> ctx_engine ctx' = ctx_engine ctx \<and> ctx_catalog ctx' = ctx_catalog ctx
     \<and> (\<forall>h. ctx_txn ctx = Some h \<longrightarrow> (\<exists>ops h'. ctx_txn ctx' = Some h' \<and> (h', ctx_manager ctx') = fold handle_step ops (h, ctx_manager ctx)
          \<and> (\<forall>p \<in> set ops. (\<exists>k v. p = HWrite k v) \<or> reads \<and> (\<exists>k. p = HRead k))))"

lemma in_txn_step_refl: "ctx_txn ctx = Some h \<Longrightarrow> in_txn_step r ctx ctx"
  by (auto simp: in_txn_step_def intro!: exI [of _ "[]"])

lemma in_txn_step_trans:
  assumes "in_txn_step r ctx ctx'" "in_txn_step r ctx' ctx''"
  shows "in_txn_step r ctx ctx''"
  unfolding in_txn_step_def
proof (intro conjI allI impI)
  fix h assume "ctx_txn ctx = Some h"
  then obtain ops h' where 1: "ctx_txn ctx' = Some h'" "(h', ctx_manager ctx') = fold handle_step ops (h, ctx_manager ctx)"
    "\<forall>p \<in> set ops. (\<exists>k v. p = HWrite k v) \<or> r \<and> (\<exists>k. p = HRead k)" using assms(1) unfolding in_txn_step_def by blast
  then obtain ops' h'' where 2: "ctx_txn ctx'' = Some h''" "(h'', ctx_manager ctx'') = fold handle_step ops' (h', ctx_manager ctx')"
    "\<forall>p \<in> set ops'. (\<exists>k v. p = HWrite k v) \<or> r \<and> (\<exists>k. p = HRead k)" using assms(2) unfolding in_txn_step_def by blast
  have "(h'', ctx_manager ctx'') = fold handle_step (ops @ ops') (h, ctx_manager ctx)" using 1(2) 2(2) by simp
  moreover have "\<forall>p \<in> set (ops @ ops'). (\<exists>k v. p = HWrite k v) \<or> r \<and> (\<exists>k. p = HRead k)" using 1(3) 2(3) by auto
  ultimately show "\<exists>ops h'. ctx_txn ctx'' = Some h' \<and> (h', ctx_manager ctx'') = fold handle_step ops (h, ctx_manager ctx)
      \<and> (\<forall>p \<in> set ops. (\<exists>k v. p = HWrite k v) \<or> r \<and> (\<exists>k. p = HRead k))" using 2(1) by blast
qed (use assms in \<open>simp_all add: in_txn_step_def\<close>)

lemma in_txn_step_Some: "in_txn_step r ctx ctx' \<Longrightarrow> ctx_txn ctx = Some h \<Longrightarrow> \<exists>h'. ctx_txn ctx' = Some h'"
  by (auto simp: in_txn_step_def)

lemma txn_buffer_step: "ctx_txn ctx = Some h \<Longrightarrow> txn_buffer k v h ctx = (e, ctx') \<Longrightarrow> in_txn_step r ctx ctx'"
  by (auto simp: in_txn_step_def txn_buffer_def Let_def intro!: exI [of _ "[HWrite k v]"] split: prod.splits)

lemma update_rows_step:
  "ctx_txn ctx = Some h \<Longrightarrow> update_rows F L flt asns fil rows n ctx = Some (e, ctx') \<Longrightarrow> in_txn_step r ctx ctx'"
proof (induction rows arbitrary: n ctx h)
  case Nil
  then show ?case using in_txn_step_refl by simp
next
  case (Cons row rows)
  obtain key bs where row: "row = (key, bs)" by fastforce
  let ?cols = "decode_row F bs"
  show ?case
  proof (cases "row_matches F fil ?cols")
    case False
    then show ?thesis using Cons.IH [OF Cons.prems(1)] Cons.prems(2) by (simp add: row)
  next
    case True
    show ?thesis
    proof (cases "eval_assignments F ?cols asns")
      case (Inl err)
      then show ?thesis using Cons.prems True in_txn_step_refl by (simp add: row)
    next
      case (Inr nvs)
      obtain b ctx1 where t: "txn_buffer key (Some (encode_row F (fold assign_col nvs ?cols))) h ctx = (b, ctx1)" by fastforce
      have s: "in_txn_step r ctx ctx1" by (rule txn_buffer_step [OF Cons.prems(1) t])
      show ?thesis
      proof (cases b)
        case (Inl err)
        then show ?thesis using Cons.prems True Inr t s by (simp add: row)
      next
        case (Inr u)
        obtain h1 where h1: "ctx_txn ctx1 = Some h1" using in_txn_step_Some [OF s Cons.prems(1)] by blast
        have "update_rows F L flt asns fil rows (n + 1) ctx1 = Some (e, ctx')"
          using Cons.prems True Inr t \<open>eval_assignments F ?cols asns = Inr nvs\<close> by (simp add: row)
        from in_txn_step_trans [OF s Cons.IH [OF h1 this]] show ?thesis .
      qed
    qed
  qed
qed

lemma buffer_tombstones_step: "ctx_txn ctx = Some h \<Longrightarrow> buffer_tombstones ks ctx = (e, ctx') \<Longrightarrow> in_txn_step r ctx ctx'"
proof (induction ks arbitrary: ctx h)
  case Nil
  then show ?case using in_txn_step_refl by simp
next
  case (Cons k ks)
  obtain b ctx1 where t: "txn_buffer k None h ctx = (b, ctx1)" by fastforce
  have s: "in_txn_step r ctx ctx1" by (rule txn_buffer_step [OF Cons.prems(1) t])
  obtain h1 where h1: "ctx_txn ctx1 = Some h1" using in_txn_step_Some [OF s Cons.prems(1)] by blast
  show ?case
  proof (cases b)
    case (Inl err)
    then show ?thesis using Cons.prems t s by simp
  next
    case (Inr u)
    then show ?thesis using in_txn_step_trans [OF s Cons.IH [OF h1]] Cons.prems t by simp
  qed
qed

lemma insert_write_step: "ctx_txn ctx = Some h \<Longrightarrow> insert_write flt L key val ctx = Some (e, ctx') \<Longrightarrow> in_txn_step r ctx ctx'"
  using txn_buffer_step [of ctx h key "Some val"] by (auto simp: insert_write_def split: prod.splits sum.splits)

lemma exec_insert_step:
  "ctx_txn ctx = Some h \<Longrightarrow> exec_insert F Z L order flt table columns vs ctx = Some (e, ctx') \<Longrightarrow> in_txn_step r ctx ctx'"
  using in_txn_step_refl insert_write_step
  by (auto simp: exec_insert_def Let_def split: option.splits sum.splits if_splits bool.splits)

lemma exec_update_step:
  "ctx_txn ctx = Some h \<Longrightarrow> exec_update F Z L order flt table asns fil ctx = Some (e, ctx') \<Longrightarrow> in_txn_step r ctx ctx'"
  using in_txn_step_refl update_rows_step
  by (auto simp: exec_update_def split: option.splits if_splits)

lemma exec_delete_step:
  "ctx_txn ctx = Some h \<Longrightarrow> exec_delete F Z L order flt table fil ctx = Some (e, ctx') \<Longrightarrow> in_txn_step r ctx ctx'"
  using in_txn_step_refl buffer_tombstones_step
  by (auto simp: exec_delete_def Let_def split: option.splits if_splits prod.splits sum.splits)

lemma exec_full_scan_step:
  assumes "ctx_txn ctx = Some h" and "exec_full_scan F Z L order table columns fil ctx = Some (e, ctx')"
  shows "in_txn_step True ctx ctx'"
proof (cases "get_table (ctx_catalog ctx) table")
  case None
  then show ?thesis using assms in_txn_step_refl by (simp add: exec_full_scan_def)
next
  case (Some te)
  then have "ctx' = ctx\<lparr>ctx_txn := Some (record_read (siread_sentinel table) h)\<rparr>"
    using assms by (auto simp: exec_full_scan_def Let_def split: option.splits)
  then show ?thesis using assms(1) by (auto simp: in_txn_step_def intro!: exI [of _ "[HRead (siread_sentinel table)]"])
qed

lemma exec_point_lookup_step:
  assumes "ctx_txn ctx = Some h" and "exec_point_lookup F Z L order table key ctx = Some (e, ctx')"
  shows "in_txn_step True ctx ctx'"
proof (cases "get_table (ctx_catalog ctx) table")
  case None
  then show ?thesis using assms in_txn_step_refl by (simp add: exec_point_lookup_def)
next
  case (Some te)
  then obtain v h' where "txn_lookup Z L order (ctx_engine ctx) h key = Some (v, h')" "ctx' = ctx\<lparr>ctx_txn := Some h'\<rparr>"
    using assms by (auto simp: exec_point_lookup_def Let_def)
  moreover from this have "h' = record_read key h" by (auto simp: txn_lookup_def Let_def split: option.splits)
  ultimately show ?thesis using assms(1) by (auto simp: in_txn_step_def intro!: exI [of _ "[HRead key]"])
qed

lemma dml_step:
  "is_dml plan \<Longrightarrow> ctx_txn ctx = Some h \<Longrightarrow> execute_with_context F Z L order flt plan ctx = Some (e, ctx') \<Longrightarrow> in_txn_step False ctx ctx'"
  by (cases plan) (auto dest: exec_insert_step exec_update_step exec_delete_step)

lemma statement_step:
  "ctx_txn ctx = Some h \<Longrightarrow> execute_with_context F Z L order flt plan ctx = Some (e, ctx') \<Longrightarrow> in_txn_step True ctx ctx'"
  by (cases plan) (auto dest: exec_insert_step exec_update_step exec_delete_step exec_full_scan_step exec_point_lookup_step)

fun run_plans ::
  "f64_lib \<Rightarrow> zstd_lib \<Rightarrow> wal_lib \<Rightarrow> u64 list \<Rightarrow> (bytes \<Rightarrow> append_fault) \<Rightarrow> query_plan list \<Rightarrow> exec_ctx \<Rightarrow> exec_ctx option" where
  "run_plans F Z L order flt [] ctx = Some ctx"
| "run_plans F Z L order flt (p # ps) ctx =
     (case execute_with_context F Z L order flt p ctx of None \<Rightarrow> None | Some (_, ctx) \<Rightarrow> run_plans F Z L order flt ps ctx)"

lemma run_dml_step:
  "list_all is_dml ps \<Longrightarrow> ctx_txn ctx = Some h \<Longrightarrow> run_plans F Z L order flt ps ctx = Some ctx' \<Longrightarrow> in_txn_step False ctx ctx'"
proof (induction ps arbitrary: ctx h)
  case Nil
  then show ?case using in_txn_step_refl by simp
next
  case (Cons p ps)
  obtain e ctx1 where 1: "execute_with_context F Z L order flt p ctx = Some (e, ctx1)" "run_plans F Z L order flt ps ctx1 = Some ctx'"
    using Cons.prems(3) by (auto split: option.splits)
  have s: "in_txn_step False ctx ctx1" using dml_step [OF _ Cons.prems(2) 1(1)] Cons.prems(1) by simp
  obtain h1 where "ctx_txn ctx1 = Some h1" using in_txn_step_Some [OF s Cons.prems(2)] by blast
  from in_txn_step_trans [OF s Cons.IH [OF _ this 1(2)]] Cons.prems(1) show ?case by simp
qed

lemma write_step_reads: "p = HWrite k v \<Longrightarrow> handle_step p (h, m) = (h', m') \<Longrightarrow> th_reads h' = th_reads h"
  by (auto simp: buffer_write_def split: prod.splits sum.splits)

lemma write_steps_reads:
  "\<forall>p \<in> set ops. \<exists>k v. p = HWrite k v \<Longrightarrow> th_reads (fst (fold handle_step ops s)) = th_reads (fst s)"
proof (induction ops arbitrary: s)
  case (Cons p ops)
  obtain k v where "p = HWrite k v" using Cons.prems by auto
  then have "th_reads (fst (handle_step p s)) = th_reads (fst s)" using write_step_reads [of p k v "fst s" "snd s"] by (cases "handle_step p s") auto
  then show ?case using Cons by simp
qed simp

lemma certify_no_reads: "th_reads h = {} \<Longrightarrow> \<exists>ts db'. certify_commit h db = (Inr ts, db')"
  by (simp add: certify_commit_def read_key_set_def commit_serializable_def rw_conflict_def list_ex_iff Let_def case_prod_beta)

text \<open>
  C10: Serializable transactions that write by statements are never checked. Inserts, updates and
  deletes read rows (the uniqueness check, the rows that match the filter and their old
  values), but record none of these reads. After any sequence of such statements a serializable
  transaction has an empty read set, and its commit is accepted whatever was committed to the
  same rows since its snapshot.
\<close>

theorem dml_never_certified:
  assumes "list_all is_dml ps" and "ctx_txn ctx = Some h" and "th_reads h = {}" and "run_plans F Z L order flt ps ctx = Some ctx'"
  shows "\<exists>h'. ctx_txn ctx' = Some h' \<and> th_reads h' = {} \<and> (\<forall>db. \<exists>ts db'. certify_commit h' db = (Inr ts, db'))"
proof -
  obtain ops h' where h': "ctx_txn ctx' = Some h'" "(h', ctx_manager ctx') = fold handle_step ops (h, ctx_manager ctx)"
    "\<forall>p \<in> set ops. \<exists>k v. p = HWrite k v"
    using run_dml_step [OF assms(1,2,4)] assms(2) unfolding in_txn_step_def by auto
  have "th_reads h' = {}" using write_steps_reads [OF h'(3), of "(h, ctx_manager ctx)"] h'(2) [symmetric] assms(3) by simp
  then show ?thesis using h'(1) certify_no_reads by blast
qed

text \<open>A table with the columns \<open>id\<close> and \<open>n\<close>, and a context on a fresh database.\<close>

definition demo_table :: table_entry where
  "demo_table = \<lparr>te_name = [116],
     te_columns = [\<lparr>cc_name = [105], cc_data_type = [], cc_nullable = False, cc_primary_key = True, cc_is_embedding_source = False\<rparr>,
                   \<lparr>cc_name = [110], cc_data_type = [], cc_nullable = True, cc_primary_key = False, cc_is_embedding_source = False\<rparr>],
     te_has_embedding = False, te_append_only = False, te_storage_mode = Legacy\<rparr>"

definition demo_ctx :: "sst_engine \<Rightarrow> exec_ctx" where
  "demo_ctx s = \<lparr>ctx_engine = s, ctx_catalog = [[116] \<mapsto> demo_table], ctx_txn = Some (set_serializable True (new_txn_handle 0 1)),
     ctx_manager = snd (tm_begin tm_new)\<rparr>"

lemma i64_display_5: "i64_display 5 = [53]" "i64_display 1 = [49]"
  by (simp_all add: i64_display_def nat_display.simps)

lemma demo_insert:
  assumes "\<And>t. scan_all_at Z L order s t = Some []"
  shows "\<exists>ctx'. execute_with_context demo_f64 Z L order flt (PInsert [116] [] [Integer 1, Integer 5]) (demo_ctx s) = Some (Inr (RowCount 1), ctx')
    \<and> (\<exists>h. ctx_txn ctx' = Some h \<and> th_writes h = [([116, 58, 49], Some [105, 61, 49, 124, 110, 61, 53])])"
proof -
  have "get_at Z L order s k t = Some None" for k t using assms by (simp add: get_at_def scan_all_at_with_prefix_def)
  then show ?thesis
    by (simp add: exec_insert_def row_exists_def align_values_def build_primary_key_def get_table_def encode_row_def Let_def
        insert_write_def txn_buffer_def buffer_write_def tm_defs demo_ctx_def demo_table_def set_serializable_def new_txn_handle_def i64_display_5)
qed

theorem dml_never_certified_witness:
  "\<exists>s ctx' h'. open_store demo_lib demo_eng_cfg demo_flush_cfg None [] Map.empty 1 = Some (Inr s)
    \<and> run_plans demo_f64 demo_zstd demo_lib [] (\<lambda>_. NoIoFault) [PInsert [116] [] [Integer 1, Integer 5]] (demo_ctx (prepare [] s)) = Some ctx'
    \<and> ctx_txn ctx' = Some h' \<and> th_reads h' = {} \<and> (\<forall>db. \<exists>ts db'. certify_commit h' db = (Inr ts, db'))"
proof -
  have ks: "key_space {}" by (simp add: key_space_def)
  obtain s where s: "open_store demo_lib demo_eng_cfg demo_flush_cfg None [] Map.empty 1 = Some (Inr s)"
    "\<And>order t. scan_all_at demo_zstd demo_lib order (prepare [] s) t = Some []"
    by (rule fresh_database [OF demo_lib_ok ks, of 0 demo_eng_cfg demo_flush_cfg demo_zstd "{}" "[]"]) auto
  obtain ctx' where r: "run_plans demo_f64 demo_zstd demo_lib [] (\<lambda>_. NoIoFault) [PInsert [116] [] [Integer 1, Integer 5]] (demo_ctx (prepare [] s)) = Some ctx'"
    using demo_insert [OF s(2), of "[]" "\<lambda>_. NoIoFault"] by auto
  have "list_all is_dml [PInsert [116] [] [Integer 1, Integer 5]]" by simp
  from dml_never_certified [OF this _ _ r, of "set_serializable True (new_txn_handle 0 1)"] s(1) r show ?thesis
    by (auto simp: demo_ctx_def set_serializable_def new_txn_handle_def)
qed

section \<open>The near-duplicate pass\<close>

definition group_keys :: "i64 \<Rightarrow> (bytes \<times> row) list \<Rightarrow> bytes set" where
  "group_keys g buffered = {k. \<exists>row. (k, row) \<in> set buffered \<and> row_group_id row = Some g}"

lemma note_representative_at:
  "note_representative (k, row) rep g =
     (if row_group_id row = Some g then case rep g of None \<Rightarrow> Some k | Some best \<Rightarrow> Some (min k best) else rep g)"
  by (auto simp: note_representative_def min_def split: option.split)

lemma representative_min:
  "fold note_representative buffered Map.empty g = (if group_keys g buffered = {} then None else Some (Min (group_keys g buffered)))"
proof (induction buffered rule: rev_induct)
  case Nil
  then show ?case by (simp add: group_keys_def)
next
  case (snoc r rows)
  obtain k row where r: "r = (k, row)" by fastforce
  have fin: "finite (group_keys g rows)"
    by (rule finite_subset [of _ "fst ` set rows"]) (force simp: group_keys_def)+
  have gk: "group_keys g (rows @ [r]) = (if row_group_id row = Some g then insert k (group_keys g rows) else group_keys g rows)"
    by (auto simp: group_keys_def r)
  show ?case
    using fin by (simp add: gk [unfolded r] r note_representative_at snoc.IH Min_insert)
qed

text \<open>
  \<open>WHERE NOT DUPLICATE\<close> keeps one row per group. The pass keeps, in order, every row without
  a group, and of the rows of a group exactly the one with the smallest primary key.
\<close>

theorem not_duplicate_pass_correct:
  "apply_not_duplicate_pass buffered =
     filter (\<lambda>(key, row). case row_group_id row of None \<Rightarrow> True | Some g \<Rightarrow> key = Min (group_keys g buffered)) buffered"
proof -
  let ?rep = "fold note_representative buffered Map.empty"
  have ne: "group_keys g buffered \<noteq> {}" if "(key, row) \<in> set buffered" "row_group_id row = Some g" for key row g
    using that by (auto simp: group_keys_def)
  show ?thesis
  proof (cases "?rep = Map.empty")
    case True
    have "row_group_id row = None" if "(key, row) \<in> set buffered" for key row
    proof (cases "row_group_id row")
      case (Some g)
      then show ?thesis using ne [OF that Some] representative_min [of buffered g] True by auto
    qed simp
    then have "filter (\<lambda>(key, row). case row_group_id row of None \<Rightarrow> True | Some g \<Rightarrow> key = Min (group_keys g buffered)) buffered = buffered"
      by (intro filter_True) auto
    then show ?thesis using True by (simp add: apply_not_duplicate_pass_def)
  next
    case False
    then show ?thesis using ne by (auto simp: apply_not_duplicate_pass_def Let_def representative_min intro!: filter_cong split: option.split)
  qed
qed

end
