(* ===== verification/CopyText.thy ===== *)
theory CopyText
  imports Utf8
begin

text \<open>
  The text format of \<open>COPY\<close> (\<open>galaxdb-wire/src/copy.rs\<close>): rows are lines, cells are separated by tabs,
  tab, newline, carriage return and backslash are escaped by a backslash, and \<open>\N\<close> stands for
  NULL. A string is the list of its UTF-8 bytes; every character that the format treats
  specially is one byte, so a loop over characters is one over bytes.
\<close>

section \<open>Definitions\<close>

text \<open>\<open>str::split\<close> by one character, and \<open>join\<close>.\<close>

fun split_on :: "u8 \<Rightarrow> bytes \<Rightarrow> bytes list" where
  "split_on c [] = [[]]"
| "split_on c (x # xs) = (if x = c then [] # split_on c xs else (x # hd (split_on c xs)) # tl (split_on c xs))"

fun join_with :: "u8 \<Rightarrow> bytes list \<Rightarrow> bytes" where
  "join_with c [] = []"
| "join_with c [x] = x"
| "join_with c (x # y # ys) = x @ c # join_with c (y # ys)"

fun unescape_cell :: "bytes \<Rightarrow> bytes" where
  "unescape_cell [] = []"
| "unescape_cell [c] = [c]"
| "unescape_cell (c # d # cs) =
     (if c = 92
      then (if d = 116 then 9 else if d = 110 then 10 else if d = 114 then 13 else d) # unescape_cell cs
      else c # unescape_cell (d # cs))"

definition decode_text_cell :: "bytes \<Rightarrow> bytes" where
  "decode_text_cell cell = (if cell = [92, 78] then ascii ''NULL'' else unescape_cell cell)"

definition decode_text_row :: "bytes \<Rightarrow> bytes list" where
  "decode_text_row line = map decode_text_cell (split_on 9 line)"

definition escape_byte :: "u8 \<Rightarrow> bytes" where
  "escape_byte c = (if c = 92 then [92, 92] else if c = 9 then [92, 116] else if c = 10 then [92, 110] else if c = 13 then [92, 114] else [c])"

definition encode_text_cell :: "bytes \<Rightarrow> bytes" where
  "encode_text_cell cell = concat (map escape_byte cell)"

definition encode_text_row :: "(bool \<times> bytes) list \<Rightarrow> bytes" where
  "encode_text_row cells = join_with 9 (map (\<lambda>(is_null, text). if is_null then [92, 78] else encode_text_cell text) cells)"

text \<open>The lines of a stream: a carriage return at the end, empty lines and the end marker are dropped.\<close>

definition strip_cr :: "bytes \<Rightarrow> bytes" where
  "strip_cr line = (if line \<noteq> [] \<and> last line = 13 then butlast line else line)"

definition copy_rows :: "bytes \<Rightarrow> bytes list list" where
  "copy_rows buf =
     map decode_text_row (filter (\<lambda>line. line \<noteq> [] \<and> line \<noteq> [92, 46]) (map strip_cr (split_on 10 (from_utf8_lossy buf))))"

section \<open>Rows read back\<close>

lemma split_on_plain: "c \<notin> set xs \<Longrightarrow> split_on c xs = [xs]"
  by (induction xs) auto

lemma split_on_append: "c \<notin> set xs \<Longrightarrow> split_on c (xs @ c # ys) = xs # split_on c ys"
  by (induction xs) auto

lemma split_join: "\<forall>x \<in> set xs. c \<notin> set x \<Longrightarrow> xs \<noteq> [] \<Longrightarrow> split_on c (join_with c xs) = xs"
  by (induction c xs rule: join_with.induct) (auto simp: split_on_plain split_on_append)

lemma unescape_escape: "unescape_cell (escape_byte c @ cs) = c # unescape_cell cs"
  by (cases cs) (auto simp: escape_byte_def)

lemma unescape_encode: "unescape_cell (encode_text_cell cell) = cell"
  by (induction cell) (simp_all add: encode_text_cell_def unescape_escape)

lemma encode_no_tab: "9 \<notin> set (encode_text_cell cell)" and encode_no_newline: "10 \<notin> set (encode_text_cell cell)"
  by (auto simp: encode_text_cell_def escape_byte_def split: if_splits)

lemma encode_not_null: "encode_text_cell cell \<noteq> [92, 78]"
proof (cases cell)
  case (Cons c cs)
  then show ?thesis by (auto simp: encode_text_cell_def escape_byte_def split: if_splits)
qed (simp add: encode_text_cell_def)

text \<open>
  What \<open>COPY ... TO STDOUT\<close> writes, \<open>COPY ... FROM STDIN\<close> reads: a row of at least one cell decodes to
  its cells, with NULL as its token, whatever tabs, line ends and backslashes they contain.
\<close>

theorem copy_row_roundtrip:
  assumes "cells \<noteq> []"
  shows "decode_text_row (encode_text_row cells) = map (\<lambda>(is_null, text). if is_null then ascii ''NULL'' else text) cells"
proof -
  let ?f = "\<lambda>(is_null, text). if is_null then [92, 78] else encode_text_cell text"
  have "split_on 9 (encode_text_row cells) = map ?f cells"
    unfolding encode_text_row_def by (rule split_join) (use assms in \<open>auto simp: encode_no_tab\<close>)
  then show ?thesis
    by (auto simp: decode_text_row_def decode_text_cell_def encode_not_null unescape_encode)
qed

theorem copy_row_roundtrip_witness:
  "decode_text_row (encode_text_row [(False, [92, 78, 9]), (True, [])]) = [[92, 78, 9], ascii ''NULL'']"
  using copy_row_roundtrip [of "[(False, [92, 78, 9]), (True, [])]"] by simp

end
