(* ===== verification/Session.thy ===== *)
theory Session
  imports Executor CopyText
begin

text \<open>
  The transaction state of a connection (\<open>galaxdb-server/src/lib.rs\<close>): the control statements
  \<open>BEGIN\<close>, \<open>COMMIT\<close>, \<open>ROLLBACK\<close>, \<open>SAVEPOINT\<close>, \<open>ROLLBACK TO\<close> and \<open>RELEASE\<close>, statements inside and
  outside of a transaction, \<open>COPY ... FROM STDIN\<close> on both query protocols, the status byte of
  \<open>ReadyForQuery\<close>, and the end of a connection. A statement is given by its plan, a control
  statement and a \<open>COPY\<close> by their parsed form; a panic of a worker is \<open>None\<close>. Then a server with any
  number of connections on one database.
\<close>

section \<open>A connection\<close>

datatype txn_control = CBegin | CCommit | CRollback | CSavepoint bytes | CRelease bytes | CRollbackTo bytes

record session =
  current_txn :: "txn_handle option"
  txn_failed :: bool

datatype reply = CommandComplete string | ErrorResponse string | GalaxFailure galax_error | QueryResult execute_result
  | CopyComplete nat

definition new_session :: session where
  "new_session = \<lparr>current_txn = None, txn_failed = False\<rparr>"

definition handle_txn_control ::
  "(bytes \<Rightarrow> append_fault) \<Rightarrow> wal_lib \<Rightarrow> txn_control \<Rightarrow> session \<Rightarrow> database \<Rightarrow> (reply \<times> session \<times> database) option" where
  "handle_txn_control flt L ctrl c db =
     (case ctrl of
        CBegin \<Rightarrow>
          (case current_txn c of
             None \<Rightarrow> (let (h, db) = begin_transaction db in Some (CommandComplete ''BEGIN'', \<lparr>current_txn = Some h, txn_failed = False\<rparr>, db))
           | Some _ \<Rightarrow> Some (CommandComplete ''BEGIN'', c, db))
      | CCommit \<Rightarrow>
          (case current_txn c of
             None \<Rightarrow> Some (CommandComplete ''COMMIT'', c, db)
           | Some txn \<Rightarrow>
             let c = c\<lparr>current_txn := None\<rparr>
             in if txn_failed c then
                  (let (_, db) = rollback_transaction txn db in Some (CommandComplete ''ROLLBACK'', c\<lparr>txn_failed := False\<rparr>, db))
                else case commit_transaction flt L txn db of
                  None \<Rightarrow> None
                | Some (Inr _, db) \<Rightarrow> Some (CommandComplete ''COMMIT'', c, db)
                | Some (Inl e, db) \<Rightarrow> Some (GalaxFailure e, c, db))
      | CRollback \<Rightarrow>
          (case current_txn c of
             None \<Rightarrow> Some (CommandComplete ''ROLLBACK'', c, db)
           | Some txn \<Rightarrow>
             (let (_, db) = rollback_transaction txn db
              in Some (CommandComplete ''ROLLBACK'', c\<lparr>current_txn := None, txn_failed := False\<rparr>, db)))
      | CSavepoint name \<Rightarrow>
          (case current_txn c of
             None \<Rightarrow> Some (ErrorResponse ''25P01'', c, db)
           | Some txn \<Rightarrow> Some (CommandComplete ''SAVEPOINT'', c\<lparr>current_txn := Some (savepoint name txn)\<rparr>, db))
      | CRollbackTo name \<Rightarrow>
          (case current_txn c of
             None \<Rightarrow> Some (ErrorResponse ''25P01'', c, db)
           | Some txn \<Rightarrow>
             (case rollback_to name txn of
                (Inr _, txn) \<Rightarrow> Some (CommandComplete ''ROLLBACK'', c\<lparr>current_txn := Some txn, txn_failed := False\<rparr>, db)
              | (Inl _, txn) \<Rightarrow> Some (ErrorResponse ''3B001'', c, db)))
      | CRelease name \<Rightarrow>
          (case current_txn c of
             None \<Rightarrow> Some (ErrorResponse ''25P01'', c, db)
           | Some txn \<Rightarrow>
             (case release name txn of
                (Inr _, txn) \<Rightarrow> Some (CommandComplete ''RELEASE'', c\<lparr>current_txn := Some txn\<rparr>, db)
              | (Inl _, txn) \<Rightarrow> Some (ErrorResponse ''3B001'', c, db))))"

definition run_simple_query_txn ::
  "f64_lib \<Rightarrow> zstd_lib \<Rightarrow> wal_lib \<Rightarrow> u64 list \<Rightarrow> (bytes \<Rightarrow> append_fault) \<Rightarrow> catalog \<Rightarrow> query_plan \<Rightarrow> session \<Rightarrow> database
    \<Rightarrow> (reply \<times> session \<times> database) option" where
  "run_simple_query_txn F Z L order flt cat plan c db =
     (if txn_failed c then Some (ErrorResponse ''25P02'', c, db)
      else
        case execute_with_context F Z L order flt plan
               \<lparr>ctx_engine = db_engine db, ctx_catalog = cat, ctx_txn = current_txn c, ctx_manager = db_txn_manager db\<rparr> of
          None \<Rightarrow> None
        | Some (r, ctx) \<Rightarrow>
          (let db = \<lparr>db_engine = ctx_engine ctx, db_txn_manager = ctx_manager ctx\<rparr>;
               failed = (current_txn c \<noteq> None \<and> isl r)
           in Some (case r of Inl e \<Rightarrow> GalaxFailure e | Inr q \<Rightarrow> QueryResult q, \<lparr>current_txn = ctx_txn ctx, txn_failed = failed\<rparr>, db)))"

text \<open>\<open>COPY ... FROM STDIN\<close>: the client sends frames of data and then \<open>CopyDone\<close> or \<open>CopyFail\<close>. On the simple
  protocol it is rejected in a transaction; \<open>Execute\<close> of a prepared \<open>COPY\<close> looks neither at the
  transaction nor at the failed flag.\<close>

record copy_command =
  copy_table :: bytes
  copy_columns :: "bytes list"

datatype copy_end = CopyDone | CopyFail

definition run_copy_in ::
  "f64_lib \<Rightarrow> wal_lib \<Rightarrow> (bytes \<Rightarrow> append_fault) \<Rightarrow> catalog \<Rightarrow> copy_command \<Rightarrow> bytes list \<Rightarrow> copy_end \<Rightarrow> database \<Rightarrow> (reply \<times> database) option" where
  "run_copy_in F L flt cat cmd frames fin db =
     (case get_table cat (copy_table cmd) of
        None \<Rightarrow> Some (GalaxFailure (TableNotFound (copy_table cmd)), db)
      | Some _ \<Rightarrow>
        (case fin of
           CopyFail \<Rightarrow> Some (ErrorResponse ''57014'', db)
         | CopyDone \<Rightarrow>
           let values = copy_rows (concat frames)
           in map_option (\<lambda>(r, ctx). (case r of Inr _ \<Rightarrow> CopyComplete (length values) | Inl e \<Rightarrow> GalaxFailure e, db\<lparr>db_engine := ctx_engine ctx\<rparr>))
                (exec_bulk_insert F L flt (copy_table cmd) (copy_columns cmd) values
                   \<lparr>ctx_engine = db_engine db, ctx_catalog = cat, ctx_txn = None, ctx_manager = db_txn_manager db\<rparr>)))"

definition query_copy ::
  "f64_lib \<Rightarrow> wal_lib \<Rightarrow> (bytes \<Rightarrow> append_fault) \<Rightarrow> catalog \<Rightarrow> copy_command \<Rightarrow> bytes list \<Rightarrow> copy_end \<Rightarrow> session \<Rightarrow> database \<Rightarrow> (reply \<times> database) option" where
  "query_copy F L flt cat cmd frames fin c db =
     (if current_txn c \<noteq> None then Some (ErrorResponse ''0A000'', db) else run_copy_in F L flt cat cmd frames fin db)"

definition execute_copy ::
  "f64_lib \<Rightarrow> wal_lib \<Rightarrow> (bytes \<Rightarrow> append_fault) \<Rightarrow> catalog \<Rightarrow> copy_command \<Rightarrow> bytes list \<Rightarrow> copy_end \<Rightarrow> session \<Rightarrow> database \<Rightarrow> (reply \<times> database) option" where
  "execute_copy F L flt cat cmd frames fin c db = run_copy_in F L flt cat cmd frames fin db"

definition ready_status :: "session \<Rightarrow> char" where
  "ready_status c = (if txn_failed c then CHR ''E'' else if current_txn c \<noteq> None then CHR ''T'' else CHR ''I'')"

text \<open>\<open>Terminate\<close>, or the end of the stream: the loop ends and the state of the connection is dropped.\<close>

definition connection_closed :: "session \<Rightarrow> database \<Rightarrow> database" where
  "connection_closed c db = db"

section \<open>A server\<close>

datatype event = Connect | Control txn_control | Statement query_plan
  | QueryCopy copy_command "bytes list" copy_end | ExecuteCopy copy_command "bytes list" copy_end | Disconnect

text \<open>Connections are numbered. A step is one message on one connection, or a \<open>COPY\<close> with its data. The
  clock of the manager does not wrap.\<close>

record server =
  sv_db :: database
  sv_sessions :: "nat \<rightharpoonup> session"

inductive server_step :: "f64_lib \<Rightarrow> zstd_lib \<Rightarrow> wal_lib \<Rightarrow> catalog \<Rightarrow> nat \<Rightarrow> event \<Rightarrow> server \<Rightarrow> server \<Rightarrow> bool" for F Z L cat where
  connect: "sv_sessions v i = None \<Longrightarrow> server_step F Z L cat i Connect v (v\<lparr>sv_sessions := (sv_sessions v)(i \<mapsto> new_session)\<rparr>)"
| control: "sv_sessions v i = Some c \<Longrightarrow> handle_txn_control flt L ctrl c (sv_db v) = Some (r, c', db') \<Longrightarrow>
    unat (tm_next_timestamp (db_txn_manager (sv_db v))) + 1 < 2 ^ 64 \<Longrightarrow>
    server_step F Z L cat i (Control ctrl) v \<lparr>sv_db = db', sv_sessions = (sv_sessions v)(i \<mapsto> c')\<rparr>"
| statement: "sv_sessions v i = Some c \<Longrightarrow> run_simple_query_txn F Z L order flt cat plan c (sv_db v) = Some (r, c', db') \<Longrightarrow>
    server_step F Z L cat i (Statement plan) v \<lparr>sv_db = db', sv_sessions = (sv_sessions v)(i \<mapsto> c')\<rparr>"
| query_copy: "sv_sessions v i = Some c \<Longrightarrow> query_copy F L flt cat cmd frames fin c (sv_db v) = Some (r, db') \<Longrightarrow>
    server_step F Z L cat i (QueryCopy cmd frames fin) v (v\<lparr>sv_db := db'\<rparr>)"
| execute_copy: "sv_sessions v i = Some c \<Longrightarrow> execute_copy F L flt cat cmd frames fin c (sv_db v) = Some (r, db') \<Longrightarrow>
    server_step F Z L cat i (ExecuteCopy cmd frames fin) v (v\<lparr>sv_db := db'\<rparr>)"
| disconnect: "sv_sessions v i = Some c \<Longrightarrow>
    server_step F Z L cat i Disconnect v \<lparr>sv_db = connection_closed c (sv_db v), sv_sessions = (sv_sessions v)(i := None)\<rparr>"

section \<open>What a session does to the locks\<close>

definition buffered_keys :: "txn_handle \<Rightarrow> bytes set" where
  "buffered_keys h = fst ` set (th_writes h) \<union> (\<Union>ws \<in> snd ` set (savepoints h). fst ` set ws)"

text \<open>An open transaction has a registered snapshot, and holds the lock of every key in its buffer
  and in the buffers of its savepoints.\<close>

definition handle_ok :: "txn_manager \<Rightarrow> txn_handle \<Rightarrow> bool" where
  "handle_ok m h \<longleftrightarrow> txn_id h < tm_next_timestamp m \<and> txn_id h \<in> active_snapshots m
     \<and> (\<forall>k \<in> buffered_keys h. write_locks m k = Some (txn_id h))"

definition held_by :: "txn_handle option \<Rightarrow> u64 \<Rightarrow> bool" where
  "held_by t g \<longleftrightarrow> (\<exists>h. t = Some h \<and> txn_id h = g)"

text \<open>The locks and snapshots of everyone else stay, and a new transaction has a new number.\<close>

definition session_effect :: "txn_handle option \<Rightarrow> txn_manager \<Rightarrow> txn_handle option \<Rightarrow> txn_manager \<Rightarrow> bool" where
  "session_effect t m t' m' \<longleftrightarrow> tm_next_timestamp m \<le> tm_next_timestamp m'
     \<and> (\<forall>k g. write_locks m k = Some g \<and> \<not> held_by t g \<longrightarrow> write_locks m' k = Some g)
     \<and> (\<forall>g \<in> active_snapshots m. \<not> held_by t g \<longrightarrow> g \<in> active_snapshots m')
     \<and> (\<forall>h'. t' = Some h' \<longrightarrow> held_by t (txn_id h') \<or> txn_id h' = tm_next_timestamp m)
     \<and> (\<forall>h'. t' = Some h' \<longrightarrow> (\<forall>h. t = Some h \<longrightarrow> handle_ok m h) \<longrightarrow> handle_ok m' h')"

lemma session_effect_refl: "session_effect t m t m"
  by (auto simp: session_effect_def held_by_def)

lemma session_effect_drop: "session_effect t m None m"
  by (auto simp: session_effect_def)

lemma om_insert_keys: "fst ` set (om_insert k v m) = insert k (fst ` set m)"
  using set_om_insert_keys [of k v m] by simp

text \<open>An operation that leaves the manager alone and adds no key.\<close>

lemma session_effect_shrink:
  assumes "txn_id h' = txn_id h" and "buffered_keys h' \<subseteq> buffered_keys h"
  shows "session_effect (Some h) m (Some h') m"
  using assms by (auto simp: session_effect_def held_by_def handle_ok_def)

lemma handle_step_effect:
  assumes "handle_step p (h, m) = (h', m')"
  shows "session_effect (Some h) m (Some h') m' \<and> txn_id h' = txn_id h"
proof (cases p)
  case (HWrite k v)
  show ?thesis
  proof (cases "write_locks m k = None \<or> write_locks m k = Some (txn_id h)")
    case True
    then have "h' = h\<lparr>th_writes := om_insert k v (th_writes h)\<rparr>" "m' = m\<lparr>write_locks := (write_locks m)(k \<mapsto> txn_id h)\<rparr>"
      using assms HWrite by (auto simp: buffer_write_def acquire_write_lock_def split: option.splits if_splits)
    then show ?thesis using True
      by (auto simp: session_effect_def held_by_def handle_ok_def buffered_keys_def om_insert_keys)
  next
    case False
    then have "h' = h" "m' = m" using assms HWrite by (auto simp: buffer_write_def acquire_write_lock_def split: option.splits if_splits)
    then show ?thesis using session_effect_refl by simp
  qed
next
  case (HRead k)
  then have "h' = h \<or> h' = h\<lparr>th_reads := insert k (th_reads h)\<rparr>" "m' = m" using assms by (auto simp: record_read_def)
  then have "txn_id h' = txn_id h" "buffered_keys h' \<subseteq> buffered_keys h" "m' = m" by (auto simp: buffered_keys_def)
  then show ?thesis using session_effect_shrink by blast
next
  case (HSavepoint n)
  then have h': "h' = h\<lparr>savepoints := savepoints h @ [(n, th_writes h)]\<rparr>" "m' = m" using assms by (simp_all add: savepoint_def)
  then have "txn_id h' = txn_id h" "buffered_keys h' \<subseteq> buffered_keys h" by (simp_all add: buffered_keys_def)
  then show ?thesis using session_effect_shrink h'(2) by blast
next
  case (HRollback n)
  have "txn_id h' = txn_id h \<and> buffered_keys h' \<subseteq> buffered_keys h \<and> m' = m"
  proof (cases "last_position (\<lambda>(n', _). n' = n) (savepoints h)")
    case (Some i)
    then have "savepoints h ! i \<in> set (savepoints h)" using last_position_Some nth_mem by blast
    moreover have "set (take (i + 1) (savepoints h)) \<subseteq> set (savepoints h)" by (rule set_take_subset)
    moreover have "h' = h\<lparr>th_writes := snd (savepoints h ! i), savepoints := take (i + 1) (savepoints h)\<rparr>" "m' = m"
      using assms HRollback Some by (simp_all add: rollback_to_def)
    ultimately show ?thesis unfolding buffered_keys_def by (simp add: image_mono UN_mono) blast
  qed (use assms HRollback in \<open>simp add: rollback_to_def\<close>)
  then show ?thesis using session_effect_shrink by blast
next
  case (HRelease n)
  have "txn_id h' = txn_id h \<and> buffered_keys h' \<subseteq> buffered_keys h \<and> m' = m"
  proof (cases "last_position (\<lambda>(n', _). n' = n) (savepoints h)")
    case (Some i)
    have "set (take i (savepoints h)) \<subseteq> set (savepoints h)" by (rule set_take_subset)
    moreover have "h' = h\<lparr>savepoints := take i (savepoints h)\<rparr>" "m' = m" using assms HRelease Some by (simp_all add: release_def)
    ultimately show ?thesis unfolding buffered_keys_def by (simp add: image_mono UN_mono) blast
  qed (use assms HRelease in \<open>simp add: release_def\<close>)
  then show ?thesis using session_effect_shrink by blast
qed

lemma session_effect_trans_same:
  assumes "session_effect (Some h) m (Some h1) m1" "txn_id h1 = txn_id h" "session_effect (Some h1) m1 (Some h2) m2" "txn_id h2 = txn_id h1"
  shows "session_effect (Some h) m (Some h2) m2"
proof -
  have "held_by (Some h1) g \<longleftrightarrow> held_by (Some h) g" for g using assms(2) by (simp add: held_by_def)
  moreover have "tm_next_timestamp m \<le> tm_next_timestamp m2" using assms(1,3) by (auto simp: session_effect_def)
  ultimately show ?thesis using assms by (auto simp: session_effect_def held_by_def)
qed

lemma handle_steps_effect:
  "fold handle_step ops (h, m) = (h', m') \<Longrightarrow> session_effect (Some h) m (Some h') m' \<and> txn_id h' = txn_id h"
proof (induction ops arbitrary: h m)
  case Nil
  then show ?case using session_effect_refl by simp
next
  case (Cons p ops)
  obtain h1 m1 where 1: "handle_step p (h, m) = (h1, m1)" by fastforce
  have 2: "fold handle_step ops (h1, m1) = (h', m')" using Cons.prems 1 by simp
  note e1 = handle_step_effect [OF 1] and e2 = Cons.IH [OF 2]
  show ?case using session_effect_trans_same [OF _ _ _ conjunct2 [OF e2]] e1 e2 by auto
qed

text \<open>Outside of a transaction a statement leaves the manager alone.\<close>

lemma update_rows_auto:
  "ctx_txn ctx = None \<Longrightarrow> update_rows F L flt asns fil rows n ctx = Some (e, ctx') \<Longrightarrow> ctx_txn ctx' = None \<and> ctx_manager ctx' = ctx_manager ctx"
proof (induction rows arbitrary: n ctx)
  case (Cons row rows)
  obtain key bs where row: "row = (key, bs)" by fastforce
  let ?cols = "decode_row F bs"
  show ?case
  proof (cases "row_matches F fil ?cols")
    case False
    then show ?thesis using Cons.IH [OF Cons.prems(1)] Cons.prems(2) by (simp add: row)
  next
    case True
    show ?thesis
    proof (cases "eval_assignments F ?cols asns")
      case (Inl err)
      then show ?thesis using Cons.prems True by (auto simp: row)
    next
      case (Inr nvs)
      let ?b = "encode_row F (fold assign_col nvs ?cols)"
      obtain r s' where d: "db_put (flt key) L key ?b (ctx_engine ctx) = Some (r, s')"
        using Cons.prems True Inr by (auto simp: row Let_def split: option.splits)
      show ?thesis
      proof (cases r)
        case (Inl err)
        then show ?thesis using Cons.prems True Inr d by (auto simp: row Let_def)
      next
        case r: (Inr ts)
        have "update_rows F L flt asns fil rows (n + 1) (ctx\<lparr>ctx_engine := s'\<rparr>) = Some (e, ctx')"
          using Cons.prems True Inr d r by (simp add: row Let_def)
        from Cons.IH [OF _ this] Cons.prems(1) show ?thesis by simp
      qed
    qed
  qed
qed simp

lemma delete_rows_auto: "delete_rows L flt ks n ctx = Some (e, ctx') \<Longrightarrow> ctx_txn ctx' = ctx_txn ctx \<and> ctx_manager ctx' = ctx_manager ctx"
proof (induction ks arbitrary: n ctx)
  case (Cons k ks)
  obtain r s' where d: "db_delete (flt k) L k (ctx_engine ctx) = Some (r, s')" using Cons.prems by (auto split: option.splits)
  show ?case
  proof (cases r)
    case (Inl err)
    then show ?thesis using Cons.prems d by auto
  next
    case (Inr b)
    then show ?thesis using Cons.IH [of "if b then n + 1 else n" "ctx\<lparr>ctx_engine := s'\<rparr>"] Cons.prems d by simp
  qed
qed simp

lemma insert_write_auto:
  "ctx_txn ctx = None \<Longrightarrow> insert_write flt L key val ctx = Some (e, ctx') \<Longrightarrow> ctx_txn ctx' = None \<and> ctx_manager ctx' = ctx_manager ctx"
  by (auto simp: insert_write_def split: option.splits prod.splits sum.splits)

lemma exec_insert_auto:
  "ctx_txn ctx = None \<Longrightarrow> exec_insert F Z L order flt table columns vs ctx = Some (e, ctx') \<Longrightarrow> ctx_txn ctx' = None \<and> ctx_manager ctx' = ctx_manager ctx"
  using insert_write_auto by (auto simp: exec_insert_def Let_def split: option.splits sum.splits if_splits bool.splits)

lemma statement_auto:
  assumes "ctx_txn ctx = None" and "execute_with_context F Z L order flt plan ctx = Some (e, ctx')"
  shows "ctx_txn ctx' = None \<and> ctx_manager ctx' = ctx_manager ctx"
proof (cases plan)
  case (PInsert table columns vs)
  then show ?thesis using exec_insert_auto assms by simp
next
  case (PUpdate table asns fil)
  then show ?thesis using assms update_rows_auto [OF assms(1)] by (auto simp: exec_update_def split: option.splits if_splits)
next
  case (PDelete table fil)
  then show ?thesis using assms delete_rows_auto by (fastforce simp: exec_delete_def Let_def split: option.splits if_splits)
next
  case (PFullScan table fil columns)
  then show ?thesis using assms by (auto simp: exec_full_scan_def Let_def split: option.splits)
next
  case (PPointLookup table key)
  then show ?thesis using assms by (auto simp: exec_point_lookup_def Let_def split: option.splits)
qed

lemma query_effect:
  assumes "run_simple_query_txn F Z L order flt cat plan c db = Some (r, c', db')"
  shows "session_effect (current_txn c) (db_txn_manager db) (current_txn c') (db_txn_manager db')
    \<and> (db_engine db' \<noteq> db_engine db \<longrightarrow> current_txn c = None \<and> \<not> txn_failed c)"
proof (cases "txn_failed c")
  case True
  then show ?thesis using assms session_effect_refl by (auto simp: run_simple_query_txn_def)
next
  case False
  let ?ctx = "\<lparr>ctx_engine = db_engine db, ctx_catalog = cat, ctx_txn = current_txn c, ctx_manager = db_txn_manager db\<rparr>"
  obtain e ctx' where e: "execute_with_context F Z L order flt plan ?ctx = Some (e, ctx')" "current_txn c' = ctx_txn ctx'"
    "db' = \<lparr>db_engine = ctx_engine ctx', db_txn_manager = ctx_manager ctx'\<rparr>"
    using assms False by (auto simp: run_simple_query_txn_def Let_def split: option.splits)
  show ?thesis
  proof (cases "current_txn c")
    case None
    then show ?thesis using statement_auto [OF _ e(1)] e(2,3) session_effect_refl False by simp
  next
    case (Some h)
    have "in_txn_step True ?ctx ctx'" using statement_step [OF _ e(1)] Some by simp
    then obtain ops h' where "ctx_txn ctx' = Some h'" "(h', ctx_manager ctx') = fold handle_step ops (h, db_txn_manager db)"
      "ctx_engine ctx' = db_engine db" using Some unfolding in_txn_step_def by auto
    then show ?thesis using handle_steps_effect [of ops h "db_txn_manager db" h' "ctx_manager ctx'"] e(2,3) Some by simp
  qed
qed

lemma run_copy_frame: "run_copy_in F L flt cat cmd frames fin db = Some (r, db') \<Longrightarrow> db_txn_manager db' = db_txn_manager db"
  by (auto simp: run_copy_in_def Let_def split: option.splits copy_end.splits)

lemma query_copy_frame:
  "query_copy F L flt cat cmd frames fin c db = Some (r, db') \<Longrightarrow>
     db_txn_manager db' = db_txn_manager db \<and> (db_engine db' \<noteq> db_engine db \<longrightarrow> current_txn c = None)"
  using run_copy_frame by (auto simp: query_copy_def split: if_splits)

lemma released_locks: "write_locks m k = Some g \<Longrightarrow> g \<noteq> i \<Longrightarrow> write_locks (release_write_locks i m) k = Some g"
  by (simp add: release_write_locks_def)

lemma begin_effect:
  assumes "begin_transaction db = (h, db')" and "unat (tm_next_timestamp (db_txn_manager db)) + 1 < 2 ^ 64"
  shows "session_effect None (db_txn_manager db) (Some h) (db_txn_manager db') \<and> db_engine db' = db_engine db"
proof -
  have "tm_next_timestamp (db_txn_manager db) < tm_next_timestamp (db_txn_manager db) + 1"
    using next_less [of "tm_next_timestamp (db_txn_manager db)" 0] assms(2) by simp
  then show ?thesis using assms(1)
    by (auto simp: begin_transaction_def tm_begin_def begin_stamp_def begin_register_def new_txn_handle_def Let_def session_effect_def handle_ok_def
        held_by_def buffered_keys_def less_imp_le)
qed

lemma rollback_effect:
  assumes "rollback_transaction h db = (h', db')"
  shows "session_effect (Some h) (db_txn_manager db) None (db_txn_manager db') \<and> db_engine db' = db_engine db"
  using assms by (auto simp: rollback_transaction_def tm_abort_def Let_def session_effect_def held_by_def release_write_locks_def)

lemma commit_effect:
  assumes "commit_transaction flt L h db = Some (r, db')" and "unat (tm_next_timestamp (db_txn_manager db)) + 1 < 2 ^ 64"
  shows "session_effect (Some h) (db_txn_manager db) None (db_txn_manager db')"
proof -
  let ?m = "db_txn_manager db" and ?m' = "db_txn_manager db'"
  have m': "?m' = snd (commit_serializable (txn_id h) (read_key_set h) (certified_keys (th_writes h)) (th_serializable h) ?m)"
    using assms(1) by (auto simp: commit_transaction_def certify_commit_def split: prod.splits sum.splits)
  have le: "tm_next_timestamp ?m \<le> tm_next_timestamp ?m + 1" using next_less [of "tm_next_timestamp ?m" 0] assms(2) by (simp add: less_imp_le)
  show ?thesis
  proof (cases "th_serializable h \<and> rw_conflict (txn_id h) (read_key_set h) (committed_writes ?m)")
    case True
    then show ?thesis using session_effect_drop unfolding m' commit_serializable_def Let_def if_P [OF True] by simp
  next
    case False
    show ?thesis
      unfolding m' commit_serializable_def Let_def if_not_P [OF False] using le
      by (auto simp: session_effect_def held_by_def release_write_locks_def)
  qed
qed

lemma control_effect:
  assumes "handle_txn_control flt L ctrl c db = Some (r, c', db')" and "unat (tm_next_timestamp (db_txn_manager db)) + 1 < 2 ^ 64"
  shows "session_effect (current_txn c) (db_txn_manager db) (current_txn c') (db_txn_manager db')
    \<and> (db_engine db' \<noteq> db_engine db \<longrightarrow> ctrl = CCommit \<and> current_txn c \<noteq> None \<and> \<not> txn_failed c)"
proof (cases "current_txn c")
  case None
  show ?thesis
  proof (cases ctrl)
    case CBegin
    obtain h db1 where b: "begin_transaction db = (h, db1)" by fastforce
    then show ?thesis using assms(1) None CBegin begin_effect [OF b assms(2)] by (auto simp: handle_txn_control_def)
  qed (use assms(1) None session_effect_refl in \<open>auto simp: handle_txn_control_def\<close>)
next
  case (Some h)
  show ?thesis
  proof (cases ctrl)
    case CBegin
    then show ?thesis using assms(1) Some session_effect_refl by (auto simp: handle_txn_control_def)
  next
    case CCommit
    obtain h1 db1 where rb: "rollback_transaction h db = (h1, db1)" by fastforce
    show ?thesis
    proof (cases "txn_failed c")
      case True
      then show ?thesis using assms(1) Some CCommit rb rollback_effect [OF rb] by (auto simp: handle_txn_control_def)
    next
      case False
      then obtain e where "commit_transaction flt L h db = Some (e, db')" "c' = c\<lparr>current_txn := None\<rparr>"
        using assms(1) Some CCommit by (auto simp: handle_txn_control_def Let_def split: option.splits sum.splits)
      then show ?thesis using commit_effect assms(2) Some CCommit False by auto
    qed
  next
    case CRollback
    obtain h1 db1 where rb: "rollback_transaction h db = (h1, db1)" by fastforce
    then show ?thesis using assms(1) Some CRollback rollback_effect [OF rb] by (auto simp: handle_txn_control_def)
  next
    case (CSavepoint n)
    then show ?thesis using assms(1) Some handle_step_effect [of "HSavepoint n" h "db_txn_manager db"] by (auto simp: handle_txn_control_def)
  next
    case (CRelease n)
    obtain e h1 where r: "release n h = (e, h1)" by fastforce
    then show ?thesis using assms(1) Some CRelease handle_step_effect [of "HRelease n" h "db_txn_manager db"] session_effect_refl
      by (cases e) (auto simp: handle_txn_control_def)
  next
    case (CRollbackTo n)
    obtain e h1 where r: "rollback_to n h = (e, h1)" by fastforce
    then show ?thesis using assms(1) Some CRollbackTo handle_step_effect [of "HRollback n" h "db_txn_manager db"] session_effect_refl
      by (cases e) (auto simp: handle_txn_control_def)
  qed
qed

section \<open>Every reachable server\<close>

definition session_ok :: "session \<Rightarrow> bool" where
  "session_ok c \<longleftrightarrow> (txn_failed c \<longrightarrow> current_txn c \<noteq> None)"

lemma control_session_ok:
  assumes "session_ok c" "handle_txn_control flt L ctrl c db = Some (r, c', db')"
  shows "session_ok c'"
  using assms by (auto simp: session_ok_def handle_txn_control_def Let_def split: txn_control.splits option.splits sum.splits prod.splits if_splits)

lemma query_session_ok:
  assumes "session_ok c" "run_simple_query_txn F Z L order flt cat plan c db = Some (r, c', db')"
  shows "session_ok c'"
proof (cases "txn_failed c \<or> current_txn c = None")
  case True
  then show ?thesis using assms by (auto simp: session_ok_def run_simple_query_txn_def Let_def split: option.splits if_splits)
next
  case False
  then obtain h where h: "current_txn c = Some h" by auto
  let ?ctx = "\<lparr>ctx_engine = db_engine db, ctx_catalog = cat, ctx_txn = current_txn c, ctx_manager = db_txn_manager db\<rparr>"
  obtain e ctx' where e: "execute_with_context F Z L order flt plan ?ctx = Some (e, ctx')" "current_txn c' = ctx_txn ctx'"
    using assms(2) False by (auto simp: run_simple_query_txn_def Let_def split: option.splits)
  have "in_txn_step True ?ctx ctx'" using statement_step [OF _ e(1)] h by simp
  then have "current_txn c' \<noteq> None" using h e(2) unfolding in_txn_step_def by auto
  then show ?thesis by (simp add: session_ok_def)
qed

definition open_txn :: "server \<Rightarrow> nat \<Rightarrow> txn_handle option" where
  "open_txn v i = Option.bind (sv_sessions v i) current_txn"

definition server_manager :: "server \<Rightarrow> txn_manager" where
  "server_manager v = db_txn_manager (sv_db v)"

definition server_inv :: "server \<Rightarrow> bool" where
  "server_inv v \<longleftrightarrow> (\<forall>i c. sv_sessions v i = Some c \<longrightarrow> session_ok c)
     \<and> (\<forall>i h. open_txn v i = Some h \<longrightarrow> handle_ok (server_manager v) h)
     \<and> (\<forall>i j h g. i \<noteq> j \<longrightarrow> open_txn v i = Some h \<longrightarrow> open_txn v j = Some g \<longrightarrow> txn_id h \<noteq> txn_id g)"

definition server_any :: "f64_lib \<Rightarrow> zstd_lib \<Rightarrow> wal_lib \<Rightarrow> catalog \<Rightarrow> server \<Rightarrow> server \<Rightarrow> bool" where
  "server_any F Z L cat v v' \<longleftrightarrow> (\<exists>i ev. server_step F Z L cat i ev v v')"

definition server_start :: "sst_engine \<Rightarrow> server" where
  "server_start s = \<lparr>sv_db = \<lparr>db_engine = s, db_txn_manager = tm_new\<rparr>, sv_sessions = Map.empty\<rparr>"

text \<open>Every step changes one connection, and does to the locks what \<open>session_effect\<close> says.\<close>

lemma server_step_effect:
  assumes "server_step F Z L cat i ev v v'"
  shows "session_effect (open_txn v i) (server_manager v) (open_txn v' i) (server_manager v')"
    "\<And>j. j \<noteq> i \<Longrightarrow> sv_sessions v' j = sv_sessions v j"
    "(\<forall>c. sv_sessions v i = Some c \<longrightarrow> session_ok c) \<Longrightarrow> (\<forall>c. sv_sessions v' i = Some c \<longrightarrow> session_ok c)"
proof -
  show "session_effect (open_txn v i) (server_manager v) (open_txn v' i) (server_manager v')"
    using assms
  proof cases
    case connect
    then show ?thesis using session_effect_refl by (simp add: open_txn_def server_manager_def new_session_def)
  next
    case (control c flt ctrl r c' db')
    then show ?thesis using control_effect [of flt L ctrl c "sv_db v" r c' db'] by (simp add: open_txn_def server_manager_def)
  next
    case (statement c order flt plan r c' db')
    then show ?thesis using query_effect [of F Z L order flt cat plan c "sv_db v" r c' db'] by (simp add: open_txn_def server_manager_def)
  next
    case (query_copy c flt cmd frames fin r db')
    then have "open_txn v' i = open_txn v i" "server_manager v' = server_manager v"
      using query_copy_frame [OF query_copy(4)] by (simp_all add: open_txn_def server_manager_def)
    then show ?thesis using session_effect_refl by simp
  next
    case (execute_copy c flt cmd frames fin r db')
    then have "open_txn v' i = open_txn v i" "server_manager v' = server_manager v"
      using run_copy_frame [OF execute_copy(4) [unfolded execute_copy_def]] by (simp_all add: open_txn_def server_manager_def)
    then show ?thesis using session_effect_refl by simp
  next
    case (disconnect c)
    then show ?thesis using session_effect_drop by (simp add: open_txn_def server_manager_def connection_closed_def)
  qed
  show "\<And>j. j \<noteq> i \<Longrightarrow> sv_sessions v' j = sv_sessions v j" using assms by cases auto
  show "(\<forall>c. sv_sessions v i = Some c \<longrightarrow> session_ok c) \<Longrightarrow> (\<forall>c. sv_sessions v' i = Some c \<longrightarrow> session_ok c)"
    using assms
  proof cases
    case connect
    then show ?thesis by (simp add: session_ok_def new_session_def)
  qed (auto intro: control_session_ok query_session_ok)
qed

lemma handle_ok_kept:
  assumes "session_effect t m t' m'" "handle_ok m h" "\<not> held_by t (txn_id h)"
  shows "handle_ok m' h"
  using assms by (auto simp: session_effect_def handle_ok_def)

lemma server_invD:
  assumes "server_inv v"
  shows "sv_sessions v i = Some c \<Longrightarrow> session_ok c"
    "open_txn v i = Some h \<Longrightarrow> handle_ok (server_manager v) h"
    "open_txn v i = Some h \<Longrightarrow> open_txn v j = Some g \<Longrightarrow> i \<noteq> j \<Longrightarrow> txn_id h \<noteq> txn_id g"
  using assms unfolding server_inv_def by blast+

lemma server_inv_step:
  assumes "server_inv v" "server_step F Z L cat i ev v v'"
  shows "server_inv v'"
proof -
  note e = server_step_effect [OF assms(2)] and inv = server_invD [OF assms(1)]
  have other: "open_txn v' j = open_txn v j" if "j \<noteq> i" for j using e(2) [OF that] by (simp add: open_txn_def)
  have free: "\<not> held_by (open_txn v i) (txn_id h)" if "open_txn v j = Some h" "j \<noteq> i" for j h
    using inv(3) [OF that(1) _ that(2)] unfolding held_by_def by metis
  have ok: "handle_ok (server_manager v') h" if "open_txn v' j = Some h" for j h
  proof (cases "j = i")
    case True
    then show ?thesis using e(1) that inv(2) [of i] unfolding session_effect_def by blast
  next
    case False
    then have o: "open_txn v j = Some h" using other that by simp
    show ?thesis by (rule handle_ok_kept [OF e(1) inv(2) [OF o] free [OF o False]])
  qed
  have new: "txn_id h \<noteq> txn_id g" if "open_txn v' i = Some h" "open_txn v j = Some g" "j \<noteq> i" for j h g
  proof -
    have "held_by (open_txn v i) (txn_id h) \<or> txn_id h = tm_next_timestamp (server_manager v)"
      using e(1) that(1) unfolding session_effect_def by blast
    moreover have "txn_id g < tm_next_timestamp (server_manager v)" using inv(2) [OF that(2)] by (simp add: handle_ok_def)
    ultimately show ?thesis using free [OF that(2,3)] by auto
  qed
  have "txn_id h \<noteq> txn_id g" if d: "j \<noteq> k" "open_txn v' j = Some h" "open_txn v' k = Some g" for j k h g
  proof -
    consider "j = i" "k \<noteq> i" | "k = i" "j \<noteq> i" | "j \<noteq> i" "k \<noteq> i" using d(1) by blast
    then show ?thesis
    proof cases
      case 1
      then show ?thesis using new [of h k g] d other [of k] by simp
    next
      case 2
      then show ?thesis using new [of g j h] d other [of j] by simp
    next
      case 3
      then show ?thesis using inv(3) [of j h k g] d other by simp
    qed
  qed
  moreover have "session_ok c" if "sv_sessions v' j = Some c" for j c
  proof (cases "j = i")
    case True
    then show ?thesis using that e(3) inv(1) by blast
  next
    case False
    then show ?thesis using that e(2) [OF False] inv(1) [of j c] by simp
  qed
  ultimately show ?thesis using ok unfolding server_inv_def by blast
qed

lemma server_inv_start: "server_inv (server_start s)"
  by (simp add: server_inv_def server_start_def open_txn_def)

lemma server_inv_reach:
  assumes "(server_any F Z L cat)\<^sup>*\<^sup>* v v'" and "server_inv v"
  shows "server_inv v'"
  using assms by (induction rule: rtranclp_induct) (auto simp: server_any_def intro: server_inv_step)

text \<open>C11: Two connections never have the same key in their open transactions: whatever statements and
  control statements the connections of a server interleave, from a fresh manager on, every key in
  the buffer of an open transaction, or in the buffer of one of its savepoints, is locked by that
  transaction, and open transactions of different connections have disjoint keys. A connection
  reports a failed transaction only while one is open.\<close>

theorem server_buffers_disjoint:
  assumes "(server_any F Z L cat)\<^sup>*\<^sup>* (server_start s) v" and "open_txn v i = Some h"
  shows "(\<forall>k \<in> buffered_keys h. write_locks (db_txn_manager (sv_db v)) k = Some (txn_id h))
    \<and> (\<forall>j g. j \<noteq> i \<longrightarrow> open_txn v j = Some g \<longrightarrow> buffered_keys h \<inter> buffered_keys g = {})
    \<and> (\<forall>j c. sv_sessions v j = Some c \<longrightarrow> (ready_status c = CHR ''E'' \<longrightarrow> open_txn v j \<noteq> None))"
proof -
  have inv: "server_inv v" by (rule server_inv_reach [OF assms(1) server_inv_start])
  have own: "\<forall>k \<in> buffered_keys g. write_locks (db_txn_manager (sv_db v)) k = Some (txn_id g)" if "open_txn v j = Some g" for j g
    using server_invD(2) [OF inv that] by (simp add: handle_ok_def server_manager_def)
  have "buffered_keys h \<inter> buffered_keys g = {}" if "j \<noteq> i" "open_txn v j = Some g" for j g
  proof -
    have "txn_id h \<noteq> txn_id g" using server_invD(3) [OF inv assms(2) that(2)] that(1) by simp
    then show ?thesis using own [OF assms(2)] own [OF that(2)] by fastforce
  qed
  moreover have "open_txn v j \<noteq> None" if "sv_sessions v j = Some c" "ready_status c = CHR ''E''" for j c
    using server_invD(1) [OF inv that(1)] that by (auto simp: session_ok_def ready_status_def open_txn_def split: if_splits)
  ultimately show ?thesis using own [OF assms(2)] by blast
qed

text \<open>A transaction number that no connection holds keeps its locks and its snapshot.\<close>

definition orphaned :: "server \<Rightarrow> u64 \<Rightarrow> bytes set \<Rightarrow> bool" where
  "orphaned v g ks \<longleftrightarrow> g < tm_next_timestamp (server_manager v) \<and> g \<in> active_snapshots (server_manager v)
     \<and> (\<forall>k \<in> ks. write_locks (server_manager v) k = Some g) \<and> (\<forall>i. \<not> held_by (open_txn v i) g)"

lemma orphaned_step:
  assumes "orphaned v g ks" "server_step F Z L cat i ev v v'"
  shows "orphaned v' g ks"
proof -
  note e = server_step_effect [OF assms(2)]
  have "\<not> held_by (open_txn v' j) g" for j
  proof (cases "j = i")
    case True
    then show ?thesis using e(1) assms(1) by (fastforce simp: session_effect_def orphaned_def held_by_def)
  next
    case False
    then show ?thesis using e(2) [OF False] assms(1) by (simp add: orphaned_def open_txn_def)
  qed
  then show ?thesis using e(1) assms(1) by (auto simp: session_effect_def orphaned_def)
qed

lemma orphaned_reach:
  assumes "(server_any F Z L cat)\<^sup>*\<^sup>* v v'" and "orphaned v g ks"
  shows "orphaned v' g ks"
  using assms by (induction rule: rtranclp_induct) (auto simp: server_any_def intro: orphaned_step)

text \<open>C12: A connection that ends inside of a transaction leaks its locks: the handle is dropped without a
  rollback, so from then on, whatever the other connections do, every write of one of its keys in
  any transaction fails with a write conflict, and its snapshot stays registered.\<close>

theorem disconnect_leaks_locks:
  assumes "(server_any F Z L cat)\<^sup>*\<^sup>* (server_start s) v" and "open_txn v i = Some h" and "k \<in> buffered_keys h"
    and "server_step F Z L cat i Disconnect v v1" and "(server_any F Z L cat)\<^sup>*\<^sup>* v1 v2" and "open_txn v2 j = Some g"
  shows "buffer_write k w g (db_txn_manager (sv_db v2)) = (Inl WriteConflict, g, db_txn_manager (sv_db v2))
    \<and> txn_id h \<in> active_snapshots (db_txn_manager (sv_db v2))"
proof -
  have inv: "server_inv v" by (rule server_inv_reach [OF assms(1) server_inv_start])
  have v1: "sv_db v1 = sv_db v" "sv_sessions v1 = (sv_sessions v)(i := None)" using assms(4) by (cases, auto simp: connection_closed_def)+
  have "txn_id h \<noteq> txn_id g'" if "open_txn v j' = Some g'" "j' \<noteq> i" for j' g'
    using server_invD(3) [OF inv assms(2) that(1)] that(2) by simp
  then have "\<not> held_by (open_txn v1 j') (txn_id h)" for j'
    using v1(2) by (cases "j' = i") (fastforce simp: open_txn_def held_by_def)+
  then have "orphaned v1 (txn_id h) (buffered_keys h)"
    using server_invD(2) [OF inv assms(2)] v1(1) by (simp add: handle_ok_def orphaned_def server_manager_def)
  then have o: "orphaned v2 (txn_id h) (buffered_keys h)" by (rule orphaned_reach [OF assms(5)])
  then have "txn_id g \<noteq> txn_id h" using assms(6) by (auto simp: orphaned_def held_by_def)
  moreover have "write_locks (db_txn_manager (sv_db v2)) k = Some (txn_id h)" using o assms(3) by (simp add: orphaned_def server_manager_def)
  ultimately show ?thesis using o by (simp add: buffer_write_def acquire_write_lock_def orphaned_def server_manager_def)
qed

text \<open>C13: What writes to the engine. A message changes the stored data only if it is a \<open>COMMIT\<close> of an open
  transaction whose failed flag is not set, a statement or a \<open>COPY\<close> outside of a transaction, or the
  \<open>Execute\<close> of a prepared \<open>COPY\<close>, which writes inside of an open and of a failed transaction too. No
  other statement in a transaction, no rollback, no commit while the flag is set, and no
  disconnect writes.\<close>

theorem engine_write_sources:
  assumes "server_step F Z L cat i ev v v'" and "db_engine (sv_db v') \<noteq> db_engine (sv_db v)"
  shows "\<exists>c. sv_sessions v i = Some c
    \<and> (ev = Control CCommit \<and> current_txn c \<noteq> None \<and> \<not> txn_failed c
       \<or> (\<exists>plan. ev = Statement plan) \<and> current_txn c = None \<and> \<not> txn_failed c
       \<or> (\<exists>cmd frames. ev = QueryCopy cmd frames CopyDone) \<and> current_txn c = None
       \<or> (\<exists>cmd frames. ev = ExecuteCopy cmd frames CopyDone))"
  using assms(1)
proof cases
  case (control c flt ctrl r c' db')
  then show ?thesis using control_effect [of flt L ctrl c "sv_db v" r c' db'] assms(2) by auto
next
  case (statement c order flt plan r c' db')
  then show ?thesis using query_effect [of F Z L order flt cat plan c "sv_db v" r c' db'] assms(2) by auto
next
  case (query_copy c flt cmd frames fin r db')
  have "fin = CopyDone" using query_copy(2,4) assms(2) by (cases fin) (auto simp: query_copy_def run_copy_in_def split: if_splits option.splits)
  then show ?thesis using query_copy query_copy_frame [OF query_copy(4)] assms(2) by auto
next
  case (execute_copy c flt cmd frames fin r db')
  have "fin = CopyDone" using execute_copy(2,4) assms(2) by (cases fin) (auto simp: execute_copy_def run_copy_in_def split: option.splits)
  then show ?thesis using execute_copy by auto
qed (use assms(2) in \<open>auto simp: connection_closed_def\<close>)

section \<open>Two connections\<close>

text \<open>An insert in a transaction on an empty table, and two connections on a fresh database.\<close>

definition demo_plan :: "i64 \<Rightarrow> query_plan" where
  "demo_plan n = PInsert [116] [] [Integer n, Integer 5]"

definition demo_write :: "i64 \<Rightarrow> bytes \<times> bytes option" where
  "demo_write n = (116 # 58 # i64_display n, Some (encode_row demo_f64 [([105], Integer n), ([110], Integer 5)]))"

lemma demo_query:
  assumes "\<And>t. scan_all_at Z L order s t = Some []" and "write_locks m (116 # 58 # i64_display n) = None" and "th_writes h = []"
  shows "run_simple_query_txn demo_f64 Z L order flt [[116] \<mapsto> demo_table] (demo_plan n) \<lparr>current_txn = Some h, txn_failed = False\<rparr>
      \<lparr>db_engine = s, db_txn_manager = m\<rparr>
    = Some (QueryResult (RowCount 1), \<lparr>current_txn = Some (h\<lparr>th_writes := [demo_write n]\<rparr>), txn_failed = False\<rparr>,
        \<lparr>db_engine = s, db_txn_manager = m\<lparr>write_locks := (write_locks m)(116 # 58 # i64_display n \<mapsto> txn_id h)\<rparr>\<rparr>)"
proof -
  have "get_at Z L order s k t = Some None" for k t using assms(1) by (simp add: get_at_def scan_all_at_with_prefix_def)
  then show ?thesis using assms(2,3)
    by (simp add: run_simple_query_txn_def demo_plan_def demo_write_def exec_insert_def row_exists_def align_values_def build_primary_key_def get_table_def
        Let_def insert_write_def txn_buffer_def buffer_write_def tm_defs demo_table_def)
qed

definition demo_txn_of :: "sst_engine \<Rightarrow> u64 \<Rightarrow> txn_handle" where
  "demo_txn_of s n = new_txn_handle (latest_commit_ts (core s)) n"

definition demo_session :: "sst_engine \<Rightarrow> u64 \<Rightarrow> i64 \<Rightarrow> session" where
  "demo_session s n k = \<lparr>current_txn = Some ((demo_txn_of s n)\<lparr>th_writes := [demo_write k]\<rparr>), txn_failed = False\<rparr>"

definition demo_server :: "sst_engine \<Rightarrow> server" where
  "demo_server s = \<lparr>sv_db = \<lparr>db_engine = s, db_txn_manager = \<lparr>tm_next_timestamp = 3, active_snapshots = {1, 2},
       write_locks = [116 # 58 # i64_display 1 \<mapsto> 1, 116 # 58 # i64_display 2 \<mapsto> 2], committed_writes = []\<rparr>\<rparr>,
     sv_sessions = [1 \<mapsto> demo_session s 1 1, 2 \<mapsto> demo_session s 2 2]\<rparr>"

lemma demo_server_reached:
  assumes "\<And>t. scan_all_at Z L [] s t = Some []"
  shows "(server_any demo_f64 Z L [[116] \<mapsto> demo_table])\<^sup>*\<^sup>* (server_start s) (demo_server s)"
proof -
  let ?cat = "[[116] \<mapsto> demo_table]" and ?e = "new_session"
  let ?b = "\<lambda>n. \<lparr>current_txn = Some (demo_txn_of s n), txn_failed = False\<rparr>"
  let ?db = "\<lambda>m. \<lparr>db_engine = s, db_txn_manager = m\<rparr>"
  let ?m1 = "\<lparr>tm_next_timestamp = 2, active_snapshots = {1}, write_locks = Map.empty, committed_writes = []\<rparr>"
  let ?m2 = "\<lparr>tm_next_timestamp = 3, active_snapshots = {1, 2}, write_locks = Map.empty, committed_writes = []\<rparr>"
  let ?m3 = "?m2\<lparr>write_locks := [116 # 58 # i64_display 1 \<mapsto> 1]\<rparr>"
  note R = rtranclp.rtrancl_into_rtrancl and any = server_any_def [THEN iffD2, OF exI, OF exI]
  have keys: "i64_display 2 \<noteq> i64_display 1" by (simp add: i64_display_def nat_display.simps)
  let ?v = "\<lambda>m ss. \<lparr>sv_db = ?db m, sv_sessions = ss\<rparr>"
  have 1: "server_any demo_f64 Z L ?cat (server_start s) (?v tm_new [1 \<mapsto> ?e])"
    using server_step.connect [of "server_start s" 1 demo_f64 Z L ?cat] by (intro any) (simp add: server_start_def)
  have 2: "server_any demo_f64 Z L ?cat (?v tm_new [1 \<mapsto> ?e]) (?v tm_new [1 \<mapsto> ?e, 2 \<mapsto> ?e])"
    using server_step.connect [of "?v tm_new [1 \<mapsto> ?e]" 2 demo_f64 Z L ?cat] by (intro any) simp
  have b1: "handle_txn_control (\<lambda>_. NoIoFault) L CBegin ?e (?db tm_new) = Some (CommandComplete ''BEGIN'', ?b 1, ?db ?m1)"
    and b2: "handle_txn_control (\<lambda>_. NoIoFault) L CBegin ?e (?db ?m1) = Some (CommandComplete ''BEGIN'', ?b 2, ?db ?m2)"
    by (simp_all add: handle_txn_control_def new_session_def begin_transaction_def tm_begin_def begin_stamp_def begin_register_def tm_new_def demo_txn_of_def insert_commute)
  have 3: "server_any demo_f64 Z L ?cat (?v tm_new [1 \<mapsto> ?e, 2 \<mapsto> ?e]) (?v ?m1 [1 \<mapsto> ?b 1, 2 \<mapsto> ?e])"
    using server_step.control [of "?v tm_new [1 \<mapsto> ?e, 2 \<mapsto> ?e]" 1, OF _ _ _, of ?e "\<lambda>_. NoIoFault" L CBegin _ _ _ demo_f64 Z ?cat] b1
    by (intro any) (simp add: tm_new_def fun_upd_twist)
  have 4: "server_any demo_f64 Z L ?cat (?v ?m1 [1 \<mapsto> ?b 1, 2 \<mapsto> ?e]) (?v ?m2 [1 \<mapsto> ?b 1, 2 \<mapsto> ?b 2])"
    using server_step.control [of "?v ?m1 [1 \<mapsto> ?b 1, 2 \<mapsto> ?e]" 2, OF _ _ _, of ?e "\<lambda>_. NoIoFault" L CBegin _ _ _ demo_f64 Z ?cat] b2
    by (intro any) simp
  let ?q = "\<lambda>n. run_simple_query_txn demo_f64 Z L [] (\<lambda>_. NoIoFault) ?cat (demo_plan n)"
  have q1: "?q 1 (?b 1) (?db ?m2) = Some (QueryResult (RowCount 1), demo_session s 1 1, ?db ?m3)"
    using demo_query [OF assms, of ?m2 1 "demo_txn_of s 1"] by (simp add: demo_session_def demo_txn_of_def new_txn_handle_def)
  have q2: "?q 2 (?b 2) (?db ?m3) = Some (QueryResult (RowCount 1), demo_session s 2 2, sv_db (demo_server s))"
    using demo_query [OF assms, of ?m3 2 "demo_txn_of s 2"] keys by (simp add: demo_session_def demo_server_def demo_txn_of_def new_txn_handle_def)
  have 5: "server_any demo_f64 Z L ?cat (?v ?m2 [1 \<mapsto> ?b 1, 2 \<mapsto> ?b 2]) (?v ?m3 [1 \<mapsto> demo_session s 1 1, 2 \<mapsto> ?b 2])"
    using server_step.statement [where v = "?v ?m2 [1 \<mapsto> ?b 1, 2 \<mapsto> ?b 2]" and i = 1 and c = "?b 1" and F = demo_f64 and Z = Z and L = L
        and order = "[]" and flt = "\<lambda>_. NoIoFault" and cat = ?cat and plan = "demo_plan 1"] q1
    by (intro any) (simp add: fun_upd_twist)
  have 6: "server_any demo_f64 Z L ?cat (?v ?m3 [1 \<mapsto> demo_session s 1 1, 2 \<mapsto> ?b 2]) (demo_server s)"
    using server_step.statement [where v = "?v ?m3 [1 \<mapsto> demo_session s 1 1, 2 \<mapsto> ?b 2]" and i = 2 and c = "?b 2" and F = demo_f64 and Z = Z and L = L
        and order = "[]" and flt = "\<lambda>_. NoIoFault" and cat = ?cat and plan = "demo_plan 2"] q2
    by (intro any) (simp add: demo_server_def)
  show ?thesis using 1 2 3 4 5 6 by (meson R rtranclp.rtrancl_refl)
qed

lemma demo_open:
  "open_txn (demo_server s) 1 = Some ((demo_txn_of s 1)\<lparr>th_writes := [demo_write 1]\<rparr>)"
  "open_txn (demo_server s) 2 = Some ((demo_txn_of s 2)\<lparr>th_writes := [demo_write 2]\<rparr>)"
  by (simp_all add: open_txn_def demo_server_def demo_session_def)

theorem server_buffers_disjoint_witness:
  "\<exists>s. open_store demo_lib demo_eng_cfg demo_flush_cfg None [] Map.empty 1 = Some (Inr s)
    \<and> (server_any demo_f64 demo_zstd demo_lib [[116] \<mapsto> demo_table])\<^sup>*\<^sup>* (server_start (prepare [] s)) (demo_server (prepare [] s))
    \<and> buffered_keys ((demo_txn_of (prepare [] s) 1)\<lparr>th_writes := [demo_write 1]\<rparr>)
        \<inter> buffered_keys ((demo_txn_of (prepare [] s) 2)\<lparr>th_writes := [demo_write 2]\<rparr>) = {}"
proof -
  obtain s where s: "open_store demo_lib demo_eng_cfg demo_flush_cfg None [] Map.empty 1 = Some (Inr s)"
    "\<And>order t. scan_all_at demo_zstd demo_lib order (prepare [] s) t = Some []"
    by (rule fresh_database [OF demo_lib_ok, of "{}" 0 demo_eng_cfg demo_flush_cfg demo_zstd "{}" "[]"]) (auto simp: key_space_def)
  note r = demo_server_reached [OF s(2)]
  have "(2 :: nat) \<noteq> 1" by simp
  then show ?thesis using server_buffers_disjoint [OF r demo_open(1)] demo_open(2) [of "prepare [] s"] s(1) r by blast
qed

theorem disconnect_leaks_locks_witness:
  "\<exists>s v1 g. open_store demo_lib demo_eng_cfg demo_flush_cfg None [] Map.empty 1 = Some (Inr s)
    \<and> server_step demo_f64 demo_zstd demo_lib [[116] \<mapsto> demo_table] 1 Disconnect (demo_server (prepare [] s)) v1 \<and> open_txn v1 2 = Some g
    \<and> buffer_write [116, 58, 49] None g (db_txn_manager (sv_db v1)) = (Inl WriteConflict, g, db_txn_manager (sv_db v1))"
proof -
  obtain s where s: "open_store demo_lib demo_eng_cfg demo_flush_cfg None [] Map.empty 1 = Some (Inr s)"
    "\<And>order t. scan_all_at demo_zstd demo_lib order (prepare [] s) t = Some []"
    by (rule fresh_database [OF demo_lib_ok, of "{}" 0 demo_eng_cfg demo_flush_cfg demo_zstd "{}" "[]"]) (auto simp: key_space_def)
  let ?v = "demo_server (prepare [] s)"
  let ?v1 = "\<lparr>sv_db = connection_closed (demo_session (prepare [] s) 1 1) (sv_db ?v), sv_sessions = (sv_sessions ?v)(1 := None)\<rparr>"
  have d: "server_step demo_f64 demo_zstd demo_lib [[116] \<mapsto> demo_table] 1 Disconnect ?v ?v1"
    by (rule server_step.disconnect) (simp add: demo_server_def)
  have k: "[116, 58, 49] \<in> buffered_keys ((demo_txn_of (prepare [] s) 1)\<lparr>th_writes := [demo_write 1]\<rparr>)"
    by (simp add: buffered_keys_def demo_write_def i64_display_5)
  have o: "open_txn ?v1 2 = open_txn ?v 2" by (simp add: open_txn_def)
  from disconnect_leaks_locks [OF demo_server_reached [OF s(2)] demo_open(1) k d rtranclp.rtrancl_refl trans [OF o demo_open(2)], of None] s(1) d
    o demo_open(2) [of "prepare [] s"] show ?thesis by metis
qed

theorem engine_write_sources_witness:
  "\<exists>s v'. open_store demo_lib demo_eng_cfg demo_flush_cfg None [] Map.empty 1 = Some (Inr s)
    \<and> server_step demo_f64 demo_zstd demo_lib [[116] \<mapsto> demo_table] 1 (Control CCommit) (demo_server (prepare [] s)) v'
    \<and> db_engine (sv_db v') \<noteq> db_engine (sv_db (demo_server (prepare [] s)))
    \<and> (\<exists>c. sv_sessions (demo_server (prepare [] s)) 1 = Some c \<and> \<not> txn_failed c \<and> current_txn c \<noteq> None)"
proof -
  obtain k w where w: "demo_write 1 = (k, Some w)" by (simp add: demo_write_def)
  have ks: "key_space {k}" using w by (auto simp: key_space_def dest: prefix_length_le)
  obtain s where s: "open_store demo_lib demo_eng_cfg demo_flush_cfg None [] Map.empty 1 = Some (Inr s)"
    "store_rel demo_zstd demo_lib {k} {w} (Suc 0) (prepare [] s) Map.empty"
    by (rule fresh_database [OF demo_lib_ok ks, of "Suc 0"]) auto
  let ?v = "demo_server (prepare [] s)" and ?h = "(demo_txn_of (prepare [] s) 1)\<lparr>th_writes := [demo_write 1]\<rparr>"
  obtain ts s2 where p: "db_put NoIoFault demo_lib k w (prepare [] s) = Some (Inr ts, s2)"
    using store_put_rel [OF s(2), of k w] by (auto simp: db_put_NoIoFault)
  have ne: "s2 \<noteq> prepare [] s" using db_put_shape [OF p] by auto
  have e: "db_engine (sv_db ?v) = prepare [] s" by (simp add: demo_server_def)
  obtain t db1 where c: "certify_commit ?h (sv_db ?v) = (Inr t, db1)"
    by (simp add: certify_commit_def commit_serializable_def Let_def demo_txn_of_def new_txn_handle_def)
  have "commit_transaction (\<lambda>_. NoIoFault) demo_lib ?h (sv_db ?v) = Some (Inr (), db1\<lparr>db_engine := s2\<rparr>)"
    using c certify_engine [OF c] p e w by (simp add: commit_transaction_def)
  then have "handle_txn_control (\<lambda>_. NoIoFault) demo_lib CCommit (demo_session (prepare [] s) 1 1) (sv_db ?v)
      = Some (CommandComplete ''COMMIT'', \<lparr>current_txn = None, txn_failed = False\<rparr>, db1\<lparr>db_engine := s2\<rparr>)"
    by (simp add: handle_txn_control_def demo_session_def)
  from server_step.control [OF _ this, where i = 1 and F = demo_f64 and Z = demo_zstd and cat = "[[116] \<mapsto> demo_table]"]
  have st: "server_step demo_f64 demo_zstd demo_lib [[116] \<mapsto> demo_table] 1 (Control CCommit) ?v
      \<lparr>sv_db = db1\<lparr>db_engine := s2\<rparr>, sv_sessions = (sv_sessions ?v)(1 \<mapsto> \<lparr>current_txn = None, txn_failed = False\<rparr>)\<rparr>"
    by (simp add: demo_server_def)
  show ?thesis using engine_write_sources [OF st] st s(1) ne e by auto
qed

section \<open>\<open>COPY\<close> in a transaction\<close>

lemma put_batch_single:
  assumes "eng_put NoIoFault L k v e = Some (Inr ts, e1)"
  shows "\<exists>w. put_batch_sync NoIoFault L [(k, v)] e = Some (Inr 1, e1\<lparr>wal := w\<rparr>)"
proof -
  obtain q w where a: "do_append NoIoFault L RowPut (encode_batch [(k, v)]) (wal e) = (Inr q, w)" using do_append_ok by blast
  obtain t where t: "art_insert k (memtable_loc L k) (art_index e) = Some t"
    "e1 = e\<lparr>next_timestamp := next_timestamp e + 1, wal := wal e1, memtable_mgr := put_active L k (next_timestamp e) (Some v) (memtable_mgr e), art_index := t, row_count := row_count e + 1\<rparr>"
    using assms by (auto simp: eng_put_def insert_row_def Let_def split: prod.splits sum.splits)
  show ?thesis by (rule exI [of _ w], subst t(2)) (simp add: put_batch_sync_def a insert_row_def t(1) Let_def)
qed

lemma engine_get_wal: "engine_get Z L (s\<lparr>core := e\<lparr>wal := w\<rparr>\<rparr>) k = engine_get Z L (s\<lparr>core := e\<rparr>) k"
  unfolding engine_get_def by (simp cong: option.case_cong row_location.case_cong)

lemma demo_copy_rows: "copy_rows [49, 9, 53, 10] = [[[49], [53]]]"
  by (simp add: copy_rows_def from_utf8_lossy.simps utf8_chunk_def strip_cr_def decode_text_row_def decode_text_cell_def)

lemma demo_bulk_pairs: "bulk_pairs demo_f64 [116] demo_table [] [[[49], [53]]] = Inr [([116, 58, 49], [105, 61, 49, 124, 110, 61, 53])]"
proof -
  have "value_from_str demo_f64 [49] = Integer 1" "value_from_str demo_f64 [53] = Integer 5" by code_simp+
  then show ?thesis by (simp add: align_values_def demo_table_def build_primary_key_def encode_row_def i64_display_5)
qed

text \<open>
  \<open>COPY\<close> on the extended protocol is not part of the transaction of its connection. In a transaction
  that has failed, a prepared \<open>COPY\<close> of one row completes, and the row is still stored after the
  \<open>ROLLBACK\<close> that ends the transaction.
\<close>

theorem copy_survives_rollback:
  "\<exists>s db1 c' db2. open_store demo_lib demo_eng_cfg demo_flush_cfg None [] Map.empty 1 = Some (Inr s)
    \<and> execute_copy demo_f64 demo_lib (\<lambda>_. NoIoFault) [[116] \<mapsto> demo_table] \<lparr>copy_table = [116], copy_columns = []\<rparr> [[49, 9, 53, 10]] CopyDone
        \<lparr>current_txn = Some h, txn_failed = True\<rparr> \<lparr>db_engine = prepare [] s, db_txn_manager = m\<rparr> = Some (CopyComplete 1, db1)
    \<and> handle_txn_control flt demo_lib CRollback \<lparr>current_txn = Some h, txn_failed = True\<rparr> db1 = Some (CommandComplete ''ROLLBACK'', c', db2)
    \<and> engine_get demo_zstd demo_lib (db_engine db2) [116, 58, 49] = Some (Some [105, 61, 49, 124, 110, 61, 53])"
proof -
  let ?k = "[116, 58, 49] :: bytes" and ?w = "[105, 61, 49, 124, 110, 61, 53] :: bytes"
  have ks: "key_space {?k}" by (auto simp: key_space_def dest: prefix_length_le)
  obtain s where s: "open_store demo_lib demo_eng_cfg demo_flush_cfg None [] Map.empty 1 = Some (Inr s)"
    "store_rel demo_zstd demo_lib {?k} {?w} (Suc 0) (prepare [] s) Map.empty"
    by (rule fresh_database [OF demo_lib_ok ks, of "Suc 0"]) auto
  let ?s = "prepare [] s"
  obtain ts s1 where p: "store_put demo_lib ?k ?w ?s = Some (Inr ts, s1)" "store_rel demo_zstd demo_lib {?k} {?w} 0 s1 (Map.empty(?k \<mapsto> Live ?w))"
    using store_put_rel [OF s(2), of ?k ?w] by auto
  obtain e1 where e1: "eng_put NoIoFault demo_lib ?k ?w (core ?s) = Some (Inr ts, e1)" "s1 = ?s\<lparr>core := e1\<rparr>"
    using p(1) unfolding db_put_NoIoFault [symmetric] db_put_def put_sync_def map_option_eq_Some by auto
  obtain w where b: "put_batch_sync NoIoFault demo_lib [(?k, ?w)] (core ?s) = Some (Inr 1, e1\<lparr>wal := w\<rparr>)" using put_batch_single [OF e1(1)] by blast
  let ?s2 = "?s\<lparr>core := e1\<lparr>wal := w\<rparr>\<rparr>"
  have "put_chunks demo_lib (\<lambda>_. NoIoFault) [(?k, ?w)] ?s = Some (Inr (), ?s2)"
    using b by (simp add: put_chunks.simps BULK_COMMIT_CHUNK_def)
  moreover have two: "length (te_columns demo_table) = 2" by (simp add: demo_table_def)
  ultimately have x: "execute_copy demo_f64 demo_lib (\<lambda>_. NoIoFault) [[116] \<mapsto> demo_table] \<lparr>copy_table = [116], copy_columns = []\<rparr> [[49, 9, 53, 10]] CopyDone
      \<lparr>current_txn = Some h, txn_failed = True\<rparr> \<lparr>db_engine = ?s, db_txn_manager = m\<rparr> = Some (CopyComplete 1, \<lparr>db_engine = ?s2, db_txn_manager = m\<rparr>)"
    by (simp add: execute_copy_def run_copy_in_def exec_bulk_insert_def get_table_def demo_copy_rows demo_bulk_pairs two del: bulk_pairs.simps)
  have "engine_get demo_zstd demo_lib s1 ?k = Some (Some ?w)" using engine_get_rel [OF p(2), of ?k] by (simp add: visible_def)
  then have "engine_get demo_zstd demo_lib ?s2 ?k = Some (Some ?w)" unfolding engine_get_wal e1(2) .
  moreover obtain db2 where "handle_txn_control flt demo_lib CRollback \<lparr>current_txn = Some h, txn_failed = True\<rparr> \<lparr>db_engine = ?s2, db_txn_manager = m\<rparr>
      = Some (CommandComplete ''ROLLBACK'', new_session, db2)" "db_engine db2 = ?s2"
    by (simp add: handle_txn_control_def rollback_transaction_def new_session_def)
  ultimately show ?thesis using s(1) x by metis
qed

end
