(* ===== verification/Spec2Isabelle.thy ===== *)
theory Spec2Isabelle
  imports Format WalWriter WalGroupCommit CompactRefines Bloom ClockSweep LruCache BlobLog LsmCompaction Session
begin

text \<open>
  \<^bold>\<open>The storage engine of galaxdb\<close>

  galaxdb is a database in Rust. Its core is the crate \<open>galaxdb-storage\<close>: writes go to a
  write-ahead log and a memtable, an adaptive radix tree maps every key to its row, a flush
  turns the memtable into PAX blocks inside SST files, and reads and scans combine memtable and
  files. This development models that crate, the on-disk format layer of \<open>galaxdb-common\<close>
  below it, and above it the transactions and the row statements of the SQL layer and the sessions of the server. Paths are relative to \<open>src/crates/\<close>.

  \<^bold>\<open>Theories\<close>

  \<^item> \<open>Prelude\<close>: bytes, little-endian words, slices, lists and options shared by all.
  \<^item> \<open>Format\<close> (\<open>galaxdb-common/src/format.rs\<close>, \<open>error.rs\<close>): headers, version gate, atomic
    replacement and upgrade of a file over a file system with volatile and durable contents.
    Shown: headers read back; an upgrade is atomic under a crash between any two system calls.
  \<^item> \<open>WalRecord\<close>, \<open>WalWriter\<close>, \<open>WalGroupCommit\<close> (\<open>galaxdb-storage/src/wal\<close>): the record
    format, the writer with checkpoints, truncation, write faults and recovery, and the
    two-lock group commit as a step relation over any number of appenders. Shown: recovery
    returns exactly the log since the last checkpoint; what happens to damaged tails, failed
    writes and stale records; acknowledged appends are durable in every interleaving and the
    protocol does not deadlock.
  \<^item> \<open>OrdMap\<close>, \<open>Memtable\<close>, \<open>MemtableManager\<close> (\<open>memtable\<close>): the skip list as an ordered map
    behind the locale \<open>ordered_map\<close>, version chains, shards, sealing and back-pressure. Shown:
    reads return the newest version at a snapshot; iteration is sorted and complete.
  \<^item> \<open>ArtNode\<close>, \<open>Art\<close> (\<open>art\<close>): the four node layouts with growth and shrinking, and the tree
    with path compression. Shown: nodes and tree refine maps; keys extended by a zero byte and
    the wrapping counter of the largest layout break this.
  \<^item> \<open>Bloom\<close> (\<open>bloom\<close>), \<open>ClockSweep\<close> and \<open>LruCache\<close> (\<open>buffer_pool\<close>): filters without false
    negatives, the constrained clock sweep, and the LRU arena as a list in order of use.
  \<^item> \<open>PaxCodec\<close>, \<open>Pax\<close> (\<open>pax\<close>): column codecs, block format, zone maps, the raw fast path.
    Shown: blocks and codecs read back, the fast path is equivalent to the full one except on
    FastPFOR columns, pruning is
    conservative for non-empty bounds.
  \<^item> \<open>Sst\<close>, \<open>Columnar\<close>, \<open>Flush\<close> (\<open>sst.rs\<close>, \<open>columnar.rs\<close>, \<open>flush.rs\<close>): the block index and
    registry, typed data and validity columns, and the flush pipeline with write faults.
    Shown: files register and read back, columnar blocks keep their cells, the loop invariant
    \<open>flush_inv\<close> places every row; file names are reused after a restart.
  \<^item> \<open>Engine\<close>, \<open>EngineFlush\<close>, \<open>EngineScan\<close> (\<open>engine.rs\<close>): opening with WAL replay, writes,
    point reads, flush, discovery of files, and the scans. Shown: acknowledged writes survive
    crashes (batches do not); runs of puts, deletes and flushes refine a map of cells, for
    point reads and for scans; the deviations of deleted keys and of snapshot scans.
  \<^item> \<open>CompactionGc\<close>, \<open>CompactionBuild\<close>, \<open>EngineCompact\<close>, \<open>CompactRefines\<close> (\<open>engine.rs\<close>): the
    collection of versions against pinned timestamps, the building of output blocks and files
    by the worker slices, the whole of \<open>compact_inner\<close> with its entry points, and the proof
    that it keeps the meaning of the store. Shown: reads at pins see what they saw; runs with
    compactions in any place refine the map of cells; an output whose name is that of an input
    is lost.
  \<^item> \<open>BlobLog\<close> (\<open>blob_log\<close>): the log of large values, its reference counts and its garbage
    collection. Shown: references read back their values; a collection loses no value with a
    live reference, but leaves references, index entries and open writers that point into
    the removed file.
  \<^item> \<open>BinaryHeap\<close>, \<open>LsmMerge\<close>, \<open>LsmCompaction\<close> (\<open>compaction/mod.rs\<close>): the binary heap of the
    standard library behind the locale \<open>max_heap\<close>, the k-way merge over it with its version
    collection, and the levels with trigger, splitting and compaction cycle. Shown: the merge
    ends, is sorted and complete; a cycle moves a level into the next and repeated cycles
    settle; the collection loses versions that snapshots read, and the bottom level
    accumulates overlapping files.

  \<^item> \<open>TxnManager\<close> (\<open>galaxdb-sql/src/transaction.rs\<close>): timestamps, snapshots, write locks and the
    certifier of serializable transactions. The operations are given as a whole and as the steps
    between which other threads run. Shown: in every interleaving the certifier is sound for
    transactions whose begin was not interrupted by a pruning commit; one that was escapes it.
  \<^item> \<open>Utf8\<close>, \<open>RowCodec\<close> (\<open>row_codec.rs\<close>, \<open>scalar.rs\<close>, \<open>planner.rs\<close> of \<open>galaxdb-sql\<close>): what is
    used of Rust's strings, values, the text form of rows, filters and scalar expressions.
    Shown: rows round-trip, except after a value that ends in a backslash; integer arithmetic
    never wraps.
  \<^item> \<open>TxnHandle\<close> (\<open>TxnHandle\<close> in \<open>galaxdb-sql/src/executor.rs\<close>, transactions of
    \<open>galaxdb-embedded/src/lib.rs\<close>): write buffer, savepoints, begin, commit and rollback on top
    of the engine. The relation \<open>db_step\<close> interleaves sessions, with every write split at its
    timestamp, its log record, the memtable and the index. Shown: snapshot isolation in these
    runs, except for writes under way at the begin, which do appear later; a commit applies
    exactly its buffer; savepoints restore it; a begin in the middle of a commit breaks
    serializability; of two concurrent writers the first loses its update.
  \<^item> \<open>Executor\<close> (\<open>galaxdb-sql/src/executor.rs\<close>): insert, update, delete, scan and point lookup, in
    and outside of a transaction. The bulk insert writes in chunks, outside of any transaction. Shown: inside a transaction
    statements act on the handle only; writing statements are never certified; the near-duplicate pass keeps one row
    per group.
  \<^item> \<open>CopyText\<close> (\<open>galaxdb-wire/src/copy.rs\<close>): the text format of \<open>COPY\<close>. Shown: encoded rows decode.
  \<^item> \<open>Session\<close> (\<open>galaxdb-server/src/lib.rs\<close>): the transaction state of a connection, its control
    statements, \<open>COPY FROM STDIN\<close> on both protocols, and a server of any number of connections as the step relation \<open>server_step\<close>.
    Shown: open transactions have disjoint, locked buffers; only commits, statements and copies outside of a
    transaction, and prepared copies anywhere, write to the engine; a connection that ends inside of a transaction leaks its
    locks and its snapshot.

  \<^bold>\<open>How the components meet\<close>

  The engine state \<open>sst_engine\<close> holds the engine core (WAL writer, memtable manager, index), the
  registry, the data directory and the process-wide block counter. \<open>store_rel\<close> relates it to a
  map of cells: index, memtable and files agree on every key; \<open>scan_rel\<close> adds which rows the
  files hold. Each operation has one preservation lemma, and the refinement theorems are
  inductions over runs.

  \<^bold>\<open>Conventions\<close>

  Panics are \<open>None\<close> of an outer option, errors \<open>Inl\<close> of a sum. Machine integers are words.
  XXH3, LZ4, Zstandard and the row splitter of the SQL layer are arguments with the documented
  laws as named hypotheses (\<open>lz4_ok\<close>, \<open>zstd_ok\<close>, \<open>splitter_ok\<close>); the witnesses instantiate
  them. The text form and the arithmetic of \<open>f64\<close> are the record \<open>f64_lib\<close>. The order of hash-map iteration is an argument.

  \<^bold>\<open>Bounds\<close>

  Runs over the radix tree are limited to 65,000 index insertions, because the counter of a
  full node wraps at 65,536; rows and blocks stay below 4 GiB, the width of the block length.
  No definition uses fuel except the clock sweep, whose bound is the one of the source.

  \<^bold>\<open>Not modelled\<close>

  Encryption of blocks (off, as \<open>Engine::new\<close> leaves it), the column-major scan, backup,
  admission control, the wake-up protocol of the compaction thread, metering, and thread
  scheduling beyond the group commit (without its error exits), the steps of the transaction
  manager and the steps of concurrent writes. Of the SQL layer: the parser,
  DDL, authorization, secondary indexes, version tags and semantic search. Of the server:
  catalog introspection, strings of several statements, \<open>COPY TO STDOUT\<close>, and the extended protocol
  apart from \<open>COPY FROM STDIN\<close>. The other crates (wire protocol,
  vector index, versioning, authentication, sidecar, cluster, observability) are clients of
  the engine or glue around third-party libraries.
\<close>

end
